(* ===== verification/Prelude.thy ===== *)
theory Prelude
  imports Main "HOL-Library.Word" "HOL-Library.Monad_Syntax"
begin

text \<open>
  Shared vocabulary of the development: the machine integers and byte strings of the Rust
  sources, indexing and slicing that make a panic visible, big-endian integers, and the
  collections of rewrite rules that the component theories use.

  A Rust expression that may panic is a value of type \<open>'a rust\<close>, where \<open>None\<close> is the panic and
  \<open>Some v\<close> is a normal return of \<open>v\<close>. A Rust function that returns an \<open>Option\<close> and may also panic
  therefore has type \<open>'a option rust\<close>: the outer layer is the panic, the inner one the value.
  \<open>usize\<close> is \<open>nat\<close>: every length and offset computed by the modelled code is bounded by the size
  of a buffer in memory, so no \<open>usize\<close> operation of the modelled code can wrap on a 64-bit target.
\<close>

unbundle bit_operations_syntax

type_synonym u8 = "8 word"
type_synonym u16 = "16 word"
type_synonym u32 = "32 word"
type_synonym u64 = "64 word"
type_synonym bytes = "u8 list"
type_synonym 'a rust = "'a option"

named_theorems byte_simps "rewrite rules for byte access and big-endian integers"
named_theorems panic_simps "rewrite rules that discharge the panic branch of an access"

section \<open>Indexing and slicing\<close>

text \<open>\<open>xs[i]\<close> panics out of range; \<open>xs.get(i)\<close> returns an \<open>Option\<close>.\<close>

definition idx :: "'a list \<Rightarrow> nat \<Rightarrow> 'a rust" where
  "idx xs i = (if i < length xs then Some (xs ! i) else None)"

definition get_at :: "'a list \<Rightarrow> nat \<Rightarrow> 'a option" where
  "get_at xs i = (if i < length xs then Some (xs ! i) else None)"

text \<open>\<open>&xs[a..b]\<close> panics unless \<open>a \<le> b \<le> len\<close>; \<open>xs.get(a..b)\<close> returns an \<open>Option\<close>.\<close>

definition slice_of :: "'a list \<Rightarrow> nat \<Rightarrow> nat \<Rightarrow> 'a list rust" where
  "slice_of xs a b = (if a \<le> b \<and> b \<le> length xs then Some (take (b - a) (drop a xs)) else None)"

definition slice_from :: "'a list \<Rightarrow> nat \<Rightarrow> 'a list rust" where
  "slice_from xs a = (if a \<le> length xs then Some (drop a xs) else None)"

text \<open>\<open>xs[a..a + v.len()].copy_from_slice(v)\<close>.\<close>

definition copy_into :: "'a list \<Rightarrow> nat \<Rightarrow> 'a list \<Rightarrow> 'a list rust" where
  "copy_into xs a v =
     (if a + length v \<le> length xs then Some (take a xs @ v @ drop (a + length v) xs) else None)"

lemma idx_in [panic_simps]: "i < length xs \<Longrightarrow> idx xs i = Some (xs ! i)"
  by (simp add: idx_def)

lemma idx_Some_iff: "idx xs i = Some x \<longleftrightarrow> i < length xs \<and> xs ! i = x"
  by (auto simp: idx_def)

lemma get_at_in [panic_simps]: "i < length xs \<Longrightarrow> get_at xs i = Some (xs ! i)"
  by (simp add: get_at_def)

lemma get_at_None [panic_simps]: "length xs \<le> i \<Longrightarrow> get_at xs i = None"
  by (simp add: get_at_def)

lemma get_at_Some_iff: "get_at xs i = Some x \<longleftrightarrow> i < length xs \<and> xs ! i = x"
  by (auto simp: get_at_def)

lemma slice_of_in [panic_simps]:
  "a \<le> b \<Longrightarrow> b \<le> length xs \<Longrightarrow> slice_of xs a b = Some (take (b - a) (drop a xs))"
  by (simp add: slice_of_def)

lemma slice_of_Some_iff:
  "slice_of xs a b = Some ys \<longleftrightarrow> a \<le> b \<and> b \<le> length xs \<and> ys = take (b - a) (drop a xs)"
  by (auto simp: slice_of_def)

lemma slice_of_length: "slice_of xs a b = Some ys \<Longrightarrow> length ys = b - a"
  by (auto simp: slice_of_def split: if_splits)

lemma slice_from_in [panic_simps]: "a \<le> length xs \<Longrightarrow> slice_from xs a = Some (drop a xs)"
  by (simp add: slice_from_def)

lemma slice_of_mid: "slice_of (a @ b @ r) (length a) (length a + length b) = Some b"
  by (simp add: slice_of_def)

lemma slice_from_mid: "slice_from (a @ b @ r) (length a + length b) = Some r"
  by (simp add: slice_from_def)

lemma copy_into_in [panic_simps]:
  "a + length v \<le> length xs \<Longrightarrow>
     copy_into xs a v = Some (take a xs @ v @ drop (a + length v) xs)"
  by (simp add: copy_into_def)

lemma length_copied [simp]:
  "a + length v \<le> length xs \<Longrightarrow> length (take a xs @ v @ drop (a + length v) xs) = length xs"
  by simp

text \<open>Reading a buffer after two bytes at \<open>a\<close> were overwritten.\<close>

lemma nth_splice2:
  assumes "a + 2 \<le> length p"
  shows "(take a p @ [x, y] @ drop (a + 2) p) ! k = (if k = a then x else if k = a + 1 then y else p ! k)"
proof -
  have "k < a \<or> k = a \<or> k = a + 1 \<or> k = a + 2 + (k - (a + 2))" by arith
  then consider "k < a" | "k = a" | "k = a + 1" | d where "k = a + 2 + d" by blast
  then show ?thesis using assms by cases (auto simp: nth_append)
qed

lemma bind_ne_None: "m \<noteq> None \<Longrightarrow> (\<And>x. m = Some x \<Longrightarrow> f x \<noteq> None) \<Longrightarrow> Option.bind m f \<noteq> None"
  by (cases m) auto

section \<open>Big-endian integers\<close>

text \<open>\<open>be_val\<close> reads a big-endian byte string; \<open>be_bytes n v\<close> writes the low \<open>n\<close> bytes of \<open>v\<close>.\<close>

definition be_val :: "bytes \<Rightarrow> nat" where
  "be_val bs = foldl (\<lambda>acc b. acc * 256 + unat b) 0 bs"

primrec be_bytes :: "nat \<Rightarrow> nat \<Rightarrow> bytes" where
  "be_bytes 0 v = []"
| "be_bytes (Suc n) v = of_nat (v div 256 ^ n) # be_bytes n v"

lemma foldl_be_val: "foldl (\<lambda>acc b. acc * 256 + unat (b::u8)) a bs = a * 256 ^ length bs + be_val bs"
proof (induction bs arbitrary: a)
  case Nil
  then show ?case by (simp add: be_val_def)
next
  case (Cons b bs)
  have "be_val (b # bs) = unat b * 256 ^ length bs + be_val bs"
    using Cons.IH [of "unat b"] by (simp add: be_val_def)
  with Cons.IH [of "a * 256 + unat b"] show ?case
    by (simp add: algebra_simps)
qed

lemma be_val_Nil [simp]: "be_val [] = 0"
  by (simp add: be_val_def)

lemma be_val_Cons [simp]: "be_val (b # bs) = unat b * 256 ^ length bs + be_val bs"
  using foldl_be_val [of "unat b" bs] by (simp add: be_val_def)

lemma unat_u8_less [simp]: "unat (b::u8) < 256"
  using unsigned_less [of b] by simp

lemma unat_u16_less [simp]: "unat (w::u16) < 65536"
  using unsigned_less [of w] by simp

lemma unat_u32_less [simp]: "unat (w::u32) < 4294967296"
  using unsigned_less [of w] by simp

lemma unat_u64_less [simp]: "unat (w::u64) < 18446744073709551616"
  using unsigned_less [of w] by simp

lemma be_val_less: "be_val bs < 256 ^ length bs"
proof (induction bs)
  case Nil
  then show ?case by simp
next
  case (Cons b bs)
  have "(unat b + 1) * 256 ^ length bs \<le> 256 * 256 ^ length bs"
    using unat_u8_less [of b] by (intro mult_le_mono1) linarith
  then have "unat b * 256 ^ length bs + 256 ^ length bs \<le> 256 * 256 ^ length bs"
    by (simp only: add_mult_distrib mult_1)
  with Cons.IH have "unat b * 256 ^ length bs + be_val bs < 256 * 256 ^ length bs"
    by linarith
  then show ?case by simp
qed

lemma length_be_bytes [simp]: "length (be_bytes n v) = n"
  by (induction n) simp_all

lemma unat_of_nat_u8 [simp]: "unat (of_nat n :: u8) = n mod 256"
  by (simp add: unat_of_nat)

lemma unat_of_nat_u16 [simp]: "unat (of_nat n :: u16) = n mod 65536"
  by (simp add: unat_of_nat)

lemma unat_of_nat_u32 [simp]: "unat (of_nat n :: u32) = n mod 4294967296"
  by (simp add: unat_of_nat)

lemma unat_of_nat_u64 [simp]: "unat (of_nat n :: u64) = n mod 18446744073709551616"
  by (simp add: unat_of_nat)

lemma unat_ucast_u8 [simp]: "unat (ucast (w :: 'a::len word) :: u8) = unat w mod 256"
  by (simp add: unsigned_ucast_eq take_bit_eq_mod)

lemma of_nat_mod_u8: "(of_nat (n mod 256) :: u8) = of_nat n"
  by (rule word_unat_eq_iff [THEN iffD2]) simp

lemma be_val_be_bytes [simp]: "be_val (be_bytes n v) = v mod 256 ^ n"
proof (induction n)
  case 0
  then show ?case by simp
next
  case (Suc n)
  have "v mod 256 ^ Suc n = 256 ^ n * (v div 256 ^ n mod 256) + v mod 256 ^ n"
    using mod_mult2_eq [of v "256 ^ n" 256] by (simp add: mult.commute)
  with Suc.IH show ?case by simp
qed

lemma be_bytes_mod: "be_bytes n (v mod 256 ^ n) = be_bytes n v"
proof -
  have "k \<le> n \<Longrightarrow> be_bytes k (v mod 256 ^ n) = be_bytes k v" for k
  proof (induction k)
    case 0
    then show ?case by simp
  next
    case (Suc k)
    obtain d where d: "n = k + Suc d"
      using Suc.prems by (metis add_Suc_right le_Suc_ex add_Suc)
    have "v mod 256 ^ n = 256 ^ k * (v div 256 ^ k mod 256 ^ Suc d) + v mod 256 ^ k"
      unfolding d power_add by (rule mod_mult2_eq)
    then have "v mod 256 ^ n div 256 ^ k = v div 256 ^ k mod 256 ^ Suc d"
      by simp
    then have "(v mod 256 ^ n div 256 ^ k) mod 256 = (v div 256 ^ k) mod 256"
      by (simp add: mod_mod_cancel)
    then have "(of_nat (v mod 256 ^ n div 256 ^ k) :: u8) = of_nat (v div 256 ^ k)"
      by (metis of_nat_mod_u8)
    with Suc show ?case by simp
  qed
  then show ?thesis by simp
qed

lemma be_bytes_be_val: "be_bytes (length bs) (be_val bs) = bs"
proof (induction bs)
  case Nil
  then show ?case by simp
next
  case (Cons b bs)
  have lt: "be_val bs < 256 ^ length bs" by (rule be_val_less)
  have hd: "(unat b * 256 ^ length bs + be_val bs) div 256 ^ length bs = unat b"
    using lt by simp
  have "be_bytes (length bs) (unat b * 256 ^ length bs + be_val bs)
      = be_bytes (length bs) ((unat b * 256 ^ length bs + be_val bs) mod 256 ^ length bs)"
    by (rule be_bytes_mod [symmetric])
  also have "\<dots> = bs" using lt Cons.IH by simp
  finally show ?case using hd by simp
qed

text \<open>\<open>u16::from_be_bytes([hi, lo])\<close> and \<open>w.to_be_bytes()\<close>.\<close>

definition be_u16 :: "u8 \<Rightarrow> u8 \<Rightarrow> u16" where
  "be_u16 hi lo = of_nat (be_val [hi, lo])"

definition u16_bytes :: "u16 \<Rightarrow> bytes" where
  "u16_bytes w = be_bytes 2 (unat w)"

definition u32_bytes :: "u32 \<Rightarrow> bytes" where
  "u32_bytes w = be_bytes 4 (unat w)"

lemma unat_be_u16 [byte_simps]: "unat (be_u16 hi lo) = unat hi * 256 + unat lo"
proof -
  have "unat hi * 256 + unat lo < 65536"
    using unat_u8_less [of hi] unat_u8_less [of lo] by linarith
  then show ?thesis by (simp only: be_u16_def unat_of_nat_u16) simp
qed

lemma u16_bytes_eq: "u16_bytes w = [of_nat (unat w div 256), of_nat (unat w)]"
  by (simp add: u16_bytes_def numeral_2_eq_2)

lemma length_u16_bytes [simp]: "length (u16_bytes w) = 2"
  by (simp add: u16_bytes_def)

lemma length_u32_bytes [simp]: "length (u32_bytes w) = 4"
  by (simp add: u32_bytes_def)

lemma be_u16_u16_bytes [byte_simps]:
  "be_u16 (of_nat (unat w div 256)) (of_nat (unat w)) = w"
proof -
  have "unat w div 256 < 256" using unat_u16_less [of w] by linarith
  then show ?thesis
    by (intro word_unat_eq_iff [THEN iffD2]) (simp add: unat_be_u16 mod_less)
qed

lemma be_u16_ucast [simp]: "be_u16 (of_nat (unat (w::u16) div 256)) (ucast w) = w"
  using be_u16_u16_bytes [of w] by simp

text \<open>The 16-bit field at offset \<open>i\<close> of a message, panicking out of range.\<close>

definition field16 :: "bytes \<Rightarrow> nat \<Rightarrow> u16 rust" where
  "field16 msg i = do { hi \<leftarrow> idx msg i; lo \<leftarrow> idx msg (i + 1); Some (be_u16 hi lo) }"

lemma field16_in [panic_simps]:
  "i + 1 < length msg \<Longrightarrow> field16 msg i = Some (be_u16 (msg ! i) (msg ! (i + 1)))"
  by (simp add: field16_def idx_def)

section \<open>Nibbles and masks\<close>

lemma unat_drop_bit_u8: "unat (drop_bit n (b::u8)) = unat b div 2 ^ n"
  by (simp only: unat_drop_bit_eq drop_bit_eq_div [of n "unat b"])

lemma unat_take_bit: "unat (take_bit n (w :: 'a::len word)) = unat w mod 2 ^ n"
  by (simp only: unsigned_take_bit_eq take_bit_eq_mod [of n "unat w"])

lemma unat_and_mask: "unat (w AND mask n) = unat (w :: 'a::len word) mod 2 ^ n"
  by (simp only: take_bit_eq_mask [symmetric] unat_take_bit)

lemma unat_and_15: "unat ((b::u8) AND 15) = unat b mod 16"
  using unat_and_mask [of b 4] by (simp add: mask_eq_exp_minus_1)

text \<open>Setting tag bits above the low six bits of a byte adds the tag.\<close>

lemma unat_or_tag:
  assumes "unat (b::u8) < 64" and "k < 4"
  shows "unat (b OR of_nat (64 * k)) = unat b + 64 * k"
proof -
  have b: "b = take_bit 6 b"
    using assms(1) by (simp only: word_unat_eq_iff unat_take_bit) simp
  have k: "(of_nat (64 * k) :: u8) = push_bit 6 (of_nat k)"
    by (simp add: push_bit_eq_mult)
  have "take_bit 6 b AND push_bit 6 (of_nat k) = 0"
    by (rule bit_eqI) (simp add: bit_simps)
  with b have "b AND push_bit 6 (of_nat k) = 0" by metis
  then have "b OR of_nat (64 * k) = b + of_nat (64 * k)"
    by (metis k word_plus_and_or add_0)
  moreover have "unat (b + of_nat (64 * k)) = unat b + 64 * k"
    using assms by (simp add: unat_word_ariths)
  ultimately show ?thesis by simp
qed

section \<open>Ordered maps\<close>

text \<open>A \<open>BTreeMap\<close> with \<open>u64\<close> keys is the list of its entries in key order.\<close>

fun btm_insert :: "nat \<Rightarrow> 'v \<Rightarrow> (nat \<times> 'v) list \<Rightarrow> (nat \<times> 'v) list" where
  "btm_insert k v [] = [(k, v)]"
| "btm_insert k v ((k', v') # m) =
     (if k < k' then (k, v) # (k', v') # m
      else if k = k' then (k, v) # m
      else (k', v') # btm_insert k v m)"

definition btm_remove :: "nat \<Rightarrow> (nat \<times> 'v) list \<Rightarrow> (nat \<times> 'v) list" where
  "btm_remove k m = filter (\<lambda>(k', _). k' \<noteq> k) m"

end
