(* ===== verification/Text.thy ===== *)
theory Text
  imports Prelude
begin

text \<open>
  The string operations of the Rust standard library that the core uses. A \<open>str\<close> is its UTF-8 byte
  string, written as an Isabelle \<open>string\<close> (a list of 8-bit characters); \<open>as_bytes\<close> is the same bytes
  as a list of \<open>u8\<close>.
\<close>

definition as_bytes :: "string \<Rightarrow> bytes" where
  "as_bytes s = map (\<lambda>c. of_nat (of_char c)) s"

lemma length_as_bytes [simp]: "length (as_bytes s) = length s"
  by (simp add: as_bytes_def)

lemma as_bytes_append [simp]: "as_bytes (s @ t) = as_bytes s @ as_bytes t"
  by (simp add: as_bytes_def)

lemma as_bytes_Nil [simp]: "as_bytes [] = []"
  by (simp add: as_bytes_def)

definition bytes_str :: "bytes \<Rightarrow> string" where
  "bytes_str bs = map (\<lambda>b. char_of (unat b)) bs"

lemma bytes_str_as_bytes [simp]: "bytes_str (as_bytes s) = s"
proof -
  have "(char_of (unat (of_nat (of_char c) :: u8)) :: char) = c" for c
    by (simp add: mod_less)
  then show ?thesis by (simp only: bytes_str_def as_bytes_def list.map_comp comp_def map_idI)
qed

lemma as_bytes_bytes_str [simp]: "as_bytes (bytes_str bs) = bs"
proof -
  have "(of_nat (of_char (char_of (unat b) :: char)) :: u8) = b" for b
    by (simp add: of_char_of mod_less)
  then show ?thesis by (simp only: bytes_str_def as_bytes_def list.map_comp comp_def map_idI)
qed

lemma as_bytes_inj: "as_bytes s = as_bytes t \<longleftrightarrow> s = t"
  by (metis bytes_str_as_bytes)

lemma length_bytes_str [simp]: "length (bytes_str s) = length s"
  by (simp add: bytes_str_def)

text \<open>\<open>s.split(c)\<close> always yields at least one piece.\<close>

fun split_char :: "char \<Rightarrow> string \<Rightarrow> string list" where
  "split_char c [] = [[]]"
| "split_char c (x # xs) =
     (if x = c then [] # split_char c xs
      else (case split_char c xs of [] \<Rightarrow> [[x]] | y # ys \<Rightarrow> (x # y) # ys))"

lemma split_char_ne [simp]: "split_char c s \<noteq> []"
  by (induction s) (auto split: list.splits)

lemma split_char_no_sep: "p \<in> set (split_char c s) \<Longrightarrow> c \<notin> set p"
  by (induction s arbitrary: p) (auto split: list.splits if_splits)

definition to_ascii_lowercase_u8 :: "u8 \<Rightarrow> u8" where
  "to_ascii_lowercase_u8 b = (if 65 \<le> b \<and> b \<le> 90 then b + 32 else b)"

definition eq_ignore_ascii_case :: "bytes \<Rightarrow> bytes \<Rightarrow> bool" where
  "eq_ignore_ascii_case xs ys \<longleftrightarrow> map to_ascii_lowercase_u8 xs = map to_ascii_lowercase_u8 ys"

lemma eq_ignore_ascii_case_refl [simp]: "eq_ignore_ascii_case xs xs"
  by (simp add: eq_ignore_ascii_case_def)

lemma eq_ignore_ascii_case_length: "eq_ignore_ascii_case xs ys \<Longrightarrow> length xs = length ys"
  unfolding eq_ignore_ascii_case_def by (rule map_eq_imp_length_eq)


section \<open>UTF-8\<close>

text \<open>
  One step of the decoder of \<open>core::str\<close> on a non-empty byte string: the length of the next sequence
  and whether it is well formed. An ill-formed sequence is as long as the longest prefix that could
  still have become a character; a missing byte counts as 0, which continues nothing.
\<close>

definition byte_at :: "bytes \<Rightarrow> nat \<Rightarrow> u8" where
  "byte_at bs i = (if i < length bs then bs ! i else 0)"

definition is_cont :: "u8 \<Rightarrow> bool" where
  "is_cont b \<longleftrightarrow> b AND 192 = 128"

definition second_ok :: "u8 \<Rightarrow> u8 \<Rightarrow> bool" where
  "second_ok a b \<longleftrightarrow>
     (if a = 0xE0 then 0xA0 \<le> b \<and> b \<le> 0xBF
      else if a = 0xED then 0x80 \<le> b \<and> b \<le> 0x9F
      else if a = 0xF0 then 0x90 \<le> b \<and> b \<le> 0xBF
      else if a = 0xF4 then 0x80 \<le> b \<and> b \<le> 0x8F
      else 0x80 \<le> b \<and> b \<le> 0xBF)"

definition utf8_step :: "bytes \<Rightarrow> nat \<times> bool" where
  "utf8_step bs =
     (let a = byte_at bs 0 in
      if a < 128 then (1, True)
      else if 0xC2 \<le> a \<and> a \<le> 0xDF then (if is_cont (byte_at bs 1) then (2, True) else (1, False))
      else if 0xE0 \<le> a \<and> a \<le> 0xEF then
        (if \<not> second_ok a (byte_at bs 1) then (1, False)
         else if \<not> is_cont (byte_at bs 2) then (2, False) else (3, True))
      else if 0xF0 \<le> a \<and> a \<le> 0xF4 then
        (if \<not> second_ok a (byte_at bs 1) then (1, False)
         else if \<not> is_cont (byte_at bs 2) then (2, False)
         else if \<not> is_cont (byte_at bs 3) then (3, False) else (4, True))
      else (1, False))"

lemma utf8_step_pos: "utf8_step bs = (n, v) \<Longrightarrow> 0 < n"
  by (auto simp: utf8_step_def Let_def split: if_splits)

function utf8_valid :: "bytes \<Rightarrow> bool" where
  "utf8_valid bs =
     (if bs = [] then True
      else case utf8_step bs of (n, v) \<Rightarrow> v \<and> utf8_valid (drop n bs))"
  by pat_completeness auto
termination
  by (relation "measure length") (auto dest!: utf8_step_pos [OF sym])

function utf8_lossy :: "bytes \<Rightarrow> bytes" where
  "utf8_lossy bs =
     (if bs = [] then []
      else case utf8_step bs of
             (n, v) \<Rightarrow> (if v then take n bs else [0xEF, 0xBF, 0xBD]) @ utf8_lossy (drop n bs))"
  by pat_completeness auto
termination
  by (relation "measure length") (auto dest!: utf8_step_pos [OF sym])

declare utf8_valid.simps [simp del] utf8_lossy.simps [simp del]

definition from_utf8 :: "bytes \<Rightarrow> string option" where
  "from_utf8 bs = (if utf8_valid bs then Some (bytes_str bs) else None)"

definition from_utf8_lossy :: "bytes \<Rightarrow> string" where
  "from_utf8_lossy bs = bytes_str (utf8_lossy bs)"

definition ascii :: "bytes \<Rightarrow> bool" where
  "ascii bs \<longleftrightarrow> (\<forall>b\<in>set bs. b < 128)"

lemma utf8_ascii: "ascii bs \<Longrightarrow> utf8_valid bs \<and> utf8_lossy bs = bs"
proof (induction bs)
  case (Cons b bs)
  then have "utf8_step (b # bs) = (1, True)" by (simp add: ascii_def utf8_step_def byte_at_def)
  with Cons show ?case
    by (simp add: ascii_def utf8_valid.simps [of "b # bs"] utf8_lossy.simps [of "b # bs"])
qed (simp add: utf8_valid.simps utf8_lossy.simps)

lemma utf8_lossy_valid: "utf8_valid bs \<Longrightarrow> utf8_lossy bs = bs"
proof (induction bs rule: utf8_lossy.induct)
  case (1 bs)
  then show ?case
    by (cases "bs = []"; cases "utf8_step bs")
      (auto simp: utf8_lossy.simps [of bs] utf8_lossy.simps [of "[]"] utf8_valid.simps [of bs])
qed

section \<open>Trimming and searching\<close>

text \<open>The characters of Unicode property \<open>White_Space\<close>, which \<open>str::trim\<close> removes, in UTF-8.\<close>

definition white_space :: "bytes list" where
  "white_space =
     [[9], [10], [11], [12], [13], [32], [0xC2, 0x85], [0xC2, 0xA0], [0xE1, 0x9A, 0x80],
      [0xE2, 0x80, 0x80], [0xE2, 0x80, 0x81], [0xE2, 0x80, 0x82], [0xE2, 0x80, 0x83], [0xE2, 0x80, 0x84],
      [0xE2, 0x80, 0x85], [0xE2, 0x80, 0x86], [0xE2, 0x80, 0x87], [0xE2, 0x80, 0x88], [0xE2, 0x80, 0x89],
      [0xE2, 0x80, 0x8A], [0xE2, 0x80, 0xA8], [0xE2, 0x80, 0xA9], [0xE2, 0x80, 0xAF], [0xE2, 0x81, 0x9F],
      [0xE3, 0x80, 0x80]]"

function strip_any :: "'a list list \<Rightarrow> 'a list \<Rightarrow> 'a list" where
  "strip_any ws s =
     (case find (\<lambda>w. w \<noteq> [] \<and> take (length w) s = w) ws of
        None \<Rightarrow> s
      | Some w \<Rightarrow> strip_any ws (drop (length w) s))"
  by pat_completeness auto
termination
  by (relation "measure (\<lambda>(ws, s). length s)") (auto simp: find_Some_iff intro!: diff_less)

declare strip_any.simps [simp del]

definition trim :: "string \<Rightarrow> string" where
  "trim s =
     (let b = strip_any white_space (as_bytes s)
      in bytes_str (rev (strip_any (map rev white_space) (rev b))))"

lemma strip_any_id: "(\<And>w. w \<in> set ws \<Longrightarrow> s = [] \<or> hd w \<noteq> hd s) \<Longrightarrow> strip_any ws s = s"
  by (subst strip_any.simps) (auto simp: find_Some_iff split: option.splits, metis hd_take length_greater_0_conv nth_mem take_eq_Nil)

text \<open>An ASCII text that neither starts nor ends with a control character or a blank is unchanged.\<close>

lemma trim_id:
  assumes "as_bytes s = bs" and "bs \<noteq> []" and "32 < hd bs" "hd bs < 128" "32 < last bs" "last bs < 128"
  shows "trim s = s"
proof -
  have a: "hd w \<noteq> hd bs" if "w \<in> set white_space" for w
    using that assms(3,4) by (auto simp: white_space_def word_less_nat_alt)
  have z: "hd w \<noteq> last bs" if "w \<in> set (map rev white_space)" for w
    using that assms(5,6) by (auto simp: white_space_def word_less_nat_alt)
  have "strip_any white_space bs = bs" using a by (intro strip_any_id) blast
  moreover have "strip_any (map rev white_space) (rev bs) = rev bs"
    using z assms(2) by (intro strip_any_id) (simp only: hd_rev, blast)
  ultimately show ?thesis using assms(1) by (auto simp: trim_def Let_def)
qed

definition trim_end_matches :: "char \<Rightarrow> string \<Rightarrow> string" where
  "trim_end_matches c s = rev (dropWhile (\<lambda>x. x = c) (rev s))"

definition trim_start_matches :: "char \<Rightarrow> string \<Rightarrow> string" where
  "trim_start_matches c s = dropWhile (\<lambda>x. x = c) s"

definition starts_with :: "string \<Rightarrow> string \<Rightarrow> bool" where
  "starts_with p s \<longleftrightarrow> take (length p) s = p"

definition strip_prefix :: "string \<Rightarrow> string \<Rightarrow> string option" where
  "strip_prefix p s = (if starts_with p s then Some (drop (length p) s) else None)"

text \<open>\<open>s.split(sep)\<close> for a separator string.\<close>

fun split_str_acc :: "string \<Rightarrow> nat \<Rightarrow> string \<Rightarrow> string \<Rightarrow> string list" where
  "split_str_acc sep skip acc [] = [rev acc]"
| "split_str_acc sep (Suc k) acc (x # xs) = split_str_acc sep k acc xs"
| "split_str_acc sep 0 acc (x # xs) =
     (if sep \<noteq> [] \<and> starts_with sep (x # xs) then rev acc # split_str_acc sep (length sep - 1) [] xs
      else split_str_acc sep 0 (x # acc) xs)"

definition split_str :: "string \<Rightarrow> string \<Rightarrow> string list" where
  "split_str sep s = split_str_acc sep 0 [] s"

definition to_lower :: "string \<Rightarrow> string" where
  "to_lower s = bytes_str (map to_ascii_lowercase_u8 (as_bytes s))"

lemma length_to_lower [simp]: "length (to_lower s) = length s"
  by (simp add: to_lower_def)

definition is_digit :: "char \<Rightarrow> bool" where
  "is_digit c \<longleftrightarrow> 48 \<le> (of_char c :: nat) \<and> (of_char c :: nat) \<le> 57"

definition is_alpha :: "char \<Rightarrow> bool" where
  "is_alpha c \<longleftrightarrow> (65 \<le> (of_char c :: nat) \<and> (of_char c :: nat) \<le> 90) \<or> (97 \<le> (of_char c :: nat) \<and> (of_char c :: nat) \<le> 122)"


section \<open>Splitting, lines and numbers\<close>

fun split_once :: "char \<Rightarrow> string \<Rightarrow> (string \<times> string) option" where
  "split_once c [] = None"
| "split_once c (x # xs) =
     (if x = c then Some ([], xs)
      else map_option (\<lambda>(a, b). (x # a, b)) (split_once c xs))"

lemma split_once_None: "split_once c s = None \<longleftrightarrow> c \<notin> set s"
  by (induction s) auto

lemma split_once_Some: "split_once c s = Some (a, b) \<Longrightarrow> s = a @ c # b \<and> c \<notin> set a"
  by (induction s arbitrary: a) (auto split: if_splits)

lemma split_once_app: "c \<notin> set a \<Longrightarrow> split_once c (a @ c # b) = Some (a, b)"
  by (induction a) auto

text \<open>\<open>s.split([..])\<close> for a set of separators.\<close>

fun split_any :: "char list \<Rightarrow> string \<Rightarrow> string list" where
  "split_any cs [] = [[]]"
| "split_any cs (x # xs) =
     (if x \<in> set cs then [] # split_any cs xs
      else (case split_any cs xs of [] \<Rightarrow> [[x]] | y # ys \<Rightarrow> (x # y) # ys))"

lemma split_any_none: "set cs \<inter> set s = {} \<Longrightarrow> split_any cs s = [s]"
  by (induction s) auto

text \<open>\<open>s.lines()\<close>: no empty piece after a final newline, one trailing carriage return dropped per line.\<close>

definition lines :: "string \<Rightarrow> string list" where
  "lines s =
     (let ps = split_char (CHR 10) s;
          ps = (if last ps = [] then butlast ps else ps)
      in map (\<lambda>l. if l \<noteq> [] \<and> last l = CHR 13 then butlast l else l) ps)"

fun contains :: "string \<Rightarrow> string \<Rightarrow> bool" where
  "contains needle [] \<longleftrightarrow> needle = []"
| "contains needle (x # xs) \<longleftrightarrow> starts_with needle (x # xs) \<or> contains needle xs"

definition ends_with :: "string \<Rightarrow> string \<Rightarrow> bool" where
  "ends_with p s \<longleftrightarrow> length p \<le> length s \<and> drop (length s - length p) s = p"

lemma ends_with_iff: "ends_with p s \<longleftrightarrow> (\<exists>a. s = a @ p)"
  by (auto simp: ends_with_def) (metis append_take_drop_id)

definition str_eq_ignore_case :: "string \<Rightarrow> string \<Rightarrow> bool" where
  "str_eq_ignore_case a b \<longleftrightarrow> to_lower a = to_lower b"

text \<open>\<open>s.parse::<uN>()\<close>: an optional plus sign, then decimal digits whose value fits.\<close>

definition parse_unsigned :: "nat \<Rightarrow> string \<Rightarrow> nat option" where
  "parse_unsigned max_value s =
     (let ds = (case s of CHR ''+'' # r \<Rightarrow> r | _ \<Rightarrow> s);
          v = foldl (\<lambda>acc c. acc * 10 + (of_char c - 48)) 0 ds
      in if ds = [] \<or> \<not> list_all is_digit ds \<or> max_value < v then None else Some v)"

text \<open>\<open>s.split_whitespace()\<close>: the nonempty pieces between white space.\<close>

fun split_ws_acc :: "nat \<Rightarrow> bytes \<Rightarrow> bytes \<Rightarrow> bytes list" where
  "split_ws_acc k acc [] = [rev acc]"
| "split_ws_acc (Suc k) acc (x # xs) = split_ws_acc k acc xs"
| "split_ws_acc 0 acc (x # xs) =
     (case find (\<lambda>w. take (length w) (x # xs) = w) white_space of
        Some w \<Rightarrow> rev acc # split_ws_acc (length w - 1) [] xs
      | None \<Rightarrow> split_ws_acc 0 (x # acc) xs)"

definition split_whitespace :: "string \<Rightarrow> string list" where
  "split_whitespace s = map bytes_str (filter (\<lambda>w. w \<noteq> []) (split_ws_acc 0 [] (as_bytes s)))"

text \<open>\<open>s.rsplit_once(c)\<close>.\<close>

definition rsplit_once :: "char \<Rightarrow> string \<Rightarrow> (string \<times> string) option" where
  "rsplit_once c s = map_option (\<lambda>(a, b). (rev b, rev a)) (split_once c (rev s))"

lemma rsplit_once_app: "c \<notin> set b \<Longrightarrow> rsplit_once c (a @ c # b) = Some (a, b)"
  by (simp add: rsplit_once_def split_once_app)

lemma rsplit_once_None: "rsplit_once c s = None \<longleftrightarrow> c \<notin> set s"
  by (simp add: rsplit_once_def split_once_None)

end
