(* ===== verification/Net.thy ===== *)
theory Net
  imports Prelude
begin

text \<open>
  Addresses as the standard library has them, and the error type of the core.
  An \<open>Ipv4Addr\<close> is its 32-bit value and an \<open>Ipv6Addr\<close> its 128-bit value, both in network order;
  \<open>octets()\<close> and the constructors from octets convert. \<open>aether_error\<close> is \<open>AetherError\<close> of
  \<open>core/aether/src/error.rs\<close>; the wrapped foreign errors are represented by the text they display.
\<close>

type_synonym u128 = "128 word"

datatype ip_addr = V4 u32 | V6 u128

record socket_addr =
  sa_ip :: ip_addr
  sa_port :: u16

datatype aether_error =
    ErrIo string
  | ErrQuic string
  | ErrH3 string
  | ErrTls string
  | ErrEch string
  | ErrMasque string
  | ErrNoCleanEndpoint
  | ErrCapsule string
  | ErrApi string
  | ErrIdentityRefused string
  | ErrCancelled
  | ErrOther string

type_synonym 'a result = "aether_error + 'a"

definition v4_octets :: "u32 \<Rightarrow> bytes" where
  "v4_octets a = be_bytes 4 (unat a)"

definition v4_new :: "u8 \<Rightarrow> u8 \<Rightarrow> u8 \<Rightarrow> u8 \<Rightarrow> u32" where
  "v4_new a b c d = of_nat (be_val [a, b, c, d])"

definition v4_of_bytes :: "bytes \<Rightarrow> u32" where
  "v4_of_bytes bs = of_nat (be_val bs)"

definition v6_octets :: "u128 \<Rightarrow> bytes" where
  "v6_octets a = be_bytes 16 (unat a)"

definition v6_of_bytes :: "bytes \<Rightarrow> u128" where
  "v6_of_bytes bs = of_nat (be_val bs)"

lemma length_v4_octets [simp]: "length (v4_octets a) = 4"
  by (simp add: v4_octets_def)

lemma length_v6_octets [simp]: "length (v6_octets a) = 16"
  by (simp add: v6_octets_def)

lemma v4_of_bytes_octets [simp]: "v4_of_bytes (v4_octets a) = a"
proof -
  have "unat a mod 256 ^ 4 = unat a" using unsigned_less [of a] by simp
  then show ?thesis by (simp only: v4_of_bytes_def v4_octets_def be_val_be_bytes) simp
qed

lemma v6_of_bytes_octets [simp]: "v6_of_bytes (v6_octets a) = a"
proof -
  have "unat a < 2 ^ LENGTH(128)" by (rule unsigned_less)
  then have "unat a mod 256 ^ 16 = unat a" by simp
  then show ?thesis by (simp only: v6_of_bytes_def v6_octets_def be_val_be_bytes) simp
qed

lemma v4_octets_of_bytes: "length bs = 4 \<Longrightarrow> v4_octets (v4_of_bytes bs) = bs"
proof -
  assume l: "length bs = 4"
  have "be_val bs < 4294967296" using be_val_less [of bs] by (simp add: l)
  then have "unat (of_nat (be_val bs) :: u32) = be_val bs" by (simp only: unat_of_nat_u32) simp
  then show ?thesis using be_bytes_be_val [of bs] by (simp add: v4_octets_def v4_of_bytes_def l)
qed

lemma v4_octets_inj: "v4_octets a = v4_octets b \<longleftrightarrow> a = b"
  by (metis v4_of_bytes_octets)

section \<open>Decimal display of unsigned integers\<close>

fun show_nat :: "nat \<Rightarrow> string" where
  "show_nat n =
     (if n < 10 then [char_of (48 + n)] else show_nat (n div 10) @ [char_of (48 + n mod 10)])"

declare show_nat.simps [simp del]

text \<open>The client name that the core gives in its requests (\<open>consts.rs\<close>).\<close>

definition UA_REGISTER :: string where "UA_REGISTER = ''WARP for Android''"

end
