(* ===== verification/AddrParse.thy ===== *)
theory AddrParse
  imports Text Net
begin

text \<open>
  The address parser of \<open>core::net\<close> (\<open>str::parse::<IpAddr>()\<close> and friends) and the decimal display of
  an IPv4 address. Every reader takes the remaining text and returns the value with what is left.
\<close>

section \<open>Readers\<close>

definition to_digit :: "nat \<Rightarrow> char \<Rightarrow> nat option" where
  "to_digit radix c =
     (let n = of_char c;
          v = (if 48 \<le> n \<and> n \<le> 57 then n - 48
               else if 97 \<le> n \<and> n \<le> 122 then n - 87
               else if 65 \<le> n \<and> n \<le> 90 then n - 55 else 99)
      in if v < radix then Some v else None)"

definition digits_val :: "nat \<Rightarrow> string \<Rightarrow> nat" where
  "digits_val radix ds = foldl (\<lambda>acc c. acc * radix + the (to_digit radix c)) 0 ds"

definition read_number :: "nat \<Rightarrow> nat option \<Rightarrow> bool \<Rightarrow> nat \<Rightarrow> string \<Rightarrow> (nat \<times> string) option" where
  "read_number radix max_digits allow_zero_prefix max_value s =
     (let ds = takeWhile (\<lambda>c. to_digit radix c \<noteq> None) s;
          r = dropWhile (\<lambda>c. to_digit radix c \<noteq> None) s
      in if ds = [] \<or> (case max_digits of None \<Rightarrow> False | Some n \<Rightarrow> n < length ds)
            \<or> (\<not> allow_zero_prefix \<and> hd ds = CHR ''0'' \<and> 1 < length ds) \<or> max_value < digits_val radix ds
         then None else Some (digits_val radix ds, r))"

definition read_given_char :: "char \<Rightarrow> string \<Rightarrow> string option" where
  "read_given_char c s = (case s of [] \<Rightarrow> None | x # r \<Rightarrow> if x = c then Some r else None)"

definition read_octet :: "string \<Rightarrow> (nat \<times> string) option" where
  "read_octet s = read_number 10 (Some 3) False 255 s"

definition read_ipv4_addr :: "string \<Rightarrow> (u32 \<times> string) option" where
  "read_ipv4_addr s = do {
     (a, s) \<leftarrow> read_octet s; s \<leftarrow> read_given_char CHR ''.'' s;
     (b, s) \<leftarrow> read_octet s; s \<leftarrow> read_given_char CHR ''.'' s;
     (c, s) \<leftarrow> read_octet s; s \<leftarrow> read_given_char CHR ''.'' s;
     (d, s) \<leftarrow> read_octet s;
     Some (v4_new (of_nat a) (of_nat b) (of_nat c) (of_nat d), s) }"

text \<open>
  \<open>read_groups\<close>: group number \<open>i\<close> is preceded by a colon unless \<open>i = 0\<close>; an embedded IPv4 address ends
  the list and needs room for two groups. The result is the groups, whether they ended with an
  IPv4 address, and the rest.
\<close>

definition read_sep :: "nat \<Rightarrow> string \<Rightarrow> string option" where
  "read_sep i s = (if i = 0 then Some s else read_given_char CHR '':'' s)"

fun read_groups :: "nat \<Rightarrow> nat \<Rightarrow> string \<Rightarrow> nat list \<times> bool \<times> string" where
  "read_groups i 0 s = ([], False, s)"
| "read_groups i (Suc left) s =
     (case (if left = 0 then None else Option.bind (read_sep i s) read_ipv4_addr) of
        Some (a, r) \<Rightarrow> ([unat (drop_bit 16 a), unat (take_bit 16 a)], True, r)
      | None \<Rightarrow>
          (case Option.bind (read_sep i s) (read_number 16 (Some 4) True 65535) of
             None \<Rightarrow> ([], False, s)
           | Some (g, r) \<Rightarrow>
               (case read_groups (Suc i) left r of (gs, v4, r') \<Rightarrow> (g # gs, v4, r'))))"

definition groups_addr :: "nat list \<Rightarrow> u128" where
  "groups_addr gs = foldl (\<lambda>acc g. acc * 65536 + of_nat g) 0 gs"

definition read_ipv6_addr :: "string \<Rightarrow> (u128 \<times> string) option" where
  "read_ipv6_addr s =
     (case read_groups 0 8 s of
        (front, v4, r) \<Rightarrow>
          if length front = 8 then Some (groups_addr front, r)
          else if v4 then None
          else do {
            r \<leftarrow> read_given_char CHR '':'' r;
            r \<leftarrow> read_given_char CHR '':'' r;
            (case read_groups 0 (8 - (length front + 1)) r of
               (tail, _, r) \<Rightarrow>
                 Some (groups_addr (front @ replicate (8 - length front - length tail) 0 @ tail), r)) })"

definition parse_with :: "(string \<Rightarrow> ('a \<times> string) option) \<Rightarrow> string \<Rightarrow> 'a option" where
  "parse_with p s = (case p s of Some (a, r) \<Rightarrow> if r = [] then Some a else None | None \<Rightarrow> None)"

definition parse_ipv4 :: "string \<Rightarrow> u32 option" where
  "parse_ipv4 s = (if 15 < length s then None else parse_with read_ipv4_addr s)"

definition parse_ipv6 :: "string \<Rightarrow> u128 option" where
  "parse_ipv6 s = parse_with read_ipv6_addr s"

definition read_ip_addr :: "string \<Rightarrow> (ip_addr \<times> string) option" where
  "read_ip_addr s =
     (case read_ipv4_addr s of
        Some (a, r) \<Rightarrow> Some (V4 a, r)
      | None \<Rightarrow> map_option (\<lambda>(a, r). (V6 a, r)) (read_ipv6_addr s))"

definition parse_ip_addr :: "string \<Rightarrow> ip_addr option" where
  "parse_ip_addr s = parse_with read_ip_addr s"

section \<open>Displaying an IPv4 address\<close>

definition show_v4 :: "u32 \<Rightarrow> string" where
  "show_v4 a =
     (case map (\<lambda>b. show_nat (unat b)) (v4_octets a) of
        [p, q, r, s] \<Rightarrow> p @ ''.'' @ q @ ''.'' @ r @ ''.'' @ s
      | _ \<Rightarrow> [])"


lemma to_digit_char: "k < 10 \<Longrightarrow> to_digit 10 (char_of (48 + k)) = Some k"
  by (simp add: to_digit_def Let_def of_char_of)

lemma show_nat_Cons: "show_nat n \<noteq> []"
  by (subst show_nat.simps) simp

lemma show_nat_digits: "c \<in> set (show_nat n) \<Longrightarrow> to_digit 10 c \<noteq> None"
proof (induction n rule: show_nat.induct)
  case (1 n)
  have m: "to_digit 10 (char_of (48 + n mod 10)) = Some (n mod 10)" by (rule to_digit_char) simp
  show ?case
  proof (cases "n < 10")
    case True
    with 1 have "c = char_of (48 + n)" by (simp add: show_nat.simps [of n])
    with to_digit_char [OF True] show ?thesis by simp
  next
    case False
    with 1 have "c \<in> set (show_nat (n div 10)) \<or> c = char_of (48 + n mod 10)"
      by (auto simp: show_nat.simps [of n])
    with 1 m False show ?thesis by auto
  qed
qed

lemma digits_val_append: "digits_val r (xs @ [c]) = digits_val r xs * r + the (to_digit r c)"
  by (simp add: digits_val_def)

lemma digits_val_show_nat: "digits_val 10 (show_nat n) = n"
proof (induction n rule: show_nat.induct)
  case (1 n)
  have m: "to_digit 10 (char_of (48 + n mod 10)) = Some (n mod 10)" by (rule to_digit_char) simp
  show ?case
  proof (cases "n < 10")
    case True
    then show ?thesis by (subst show_nat.simps) (simp add: digits_val_def to_digit_char)
  next
    case False
    with 1 m show ?thesis by (subst show_nat.simps) (simp add: digits_val_append)
  qed
qed

lemma show_nat_no_zero: "0 < n \<Longrightarrow> hd (show_nat n) \<noteq> CHR ''0''"
proof (induction n rule: show_nat.induct)
  case (1 n)
  show ?case
  proof (cases "n < 10")
    case True
    with 1 have "to_digit 10 (hd (show_nat n)) = Some n"
      by (subst show_nat.simps) (simp add: to_digit_char)
    moreover have "to_digit 10 CHR ''0'' = Some 0" by (simp add: to_digit_def)
    ultimately show ?thesis using 1 by auto
  next
    case False
    with 1 show ?thesis by (subst show_nat.simps) (simp add: show_nat_Cons)
  qed
qed

lemma length_show_nat: "n < 10 ^ Suc k \<Longrightarrow> length (show_nat n) \<le> Suc k"
proof (induction k arbitrary: n)
  case 0
  then show ?case by (subst show_nat.simps) simp
next
  case (Suc k)
  then have "n div 10 < 10 ^ Suc k" by auto
  with Suc.IH have "length (show_nat (n div 10)) \<le> Suc k" by blast
  then show ?case by (subst show_nat.simps) simp
qed

text \<open>Text that does not start with a decimal digit, so that a number read before it ends there.\<close>

definition no_digit :: "string \<Rightarrow> bool" where
  "no_digit s \<longleftrightarrow> s = [] \<or> to_digit 10 (hd s) = None"

lemma take_drop_digits:
  assumes "no_digit r"
  shows "takeWhile (\<lambda>c. to_digit 10 c \<noteq> None) (show_nat n @ r) = show_nat n"
    and "dropWhile (\<lambda>c. to_digit 10 c \<noteq> None) (show_nat n @ r) = r"
proof -
  have all: "\<And>c. c \<in> set (show_nat n) \<Longrightarrow> to_digit 10 c \<noteq> None" by (rule show_nat_digits)
  have r: "takeWhile (\<lambda>c. to_digit 10 c \<noteq> None) r = []" "dropWhile (\<lambda>c. to_digit 10 c \<noteq> None) r = r"
    using assms by (cases r; simp add: no_digit_def)+
  show "takeWhile (\<lambda>c. to_digit 10 c \<noteq> None) (show_nat n @ r) = show_nat n"
    using all r(1) by (subst takeWhile_append2) auto
  show "dropWhile (\<lambda>c. to_digit 10 c \<noteq> None) (show_nat n @ r) = r"
    using all r(2) by (subst dropWhile_append2) auto
qed

lemma read_number_show_nat:
  assumes "no_digit r" and "n \<le> max_value"
    and "case max_digits of None \<Rightarrow> True | Some k \<Rightarrow> length (show_nat n) \<le> k"
  shows "read_number 10 max_digits allow max_value (show_nat n @ r) = Some (n, r)"
proof -
  have "hd (show_nat n) = CHR ''0'' \<Longrightarrow> length (show_nat n) = 1"
    using show_nat_no_zero [of n] by (cases "n = 0") (simp_all add: show_nat.simps [of 0])
  with assms show ?thesis
    unfolding read_number_def take_drop_digits [OF assms(1)] Let_def
    by (auto simp: show_nat_Cons digits_val_show_nat split: option.splits)
qed

lemma read_octet_show: "no_digit r \<Longrightarrow> read_octet (show_nat (unat (b::u8)) @ r) = Some (unat b, r)"
proof -
  have b: "unat b < 256" by simp
  then have "unat b < 10 ^ Suc 2" by (rule less_trans) simp
  then have "length (show_nat (unat b)) \<le> Suc 2" by (rule length_show_nat)
  moreover have "unat b \<le> 255" using b by linarith
  moreover assume "no_digit r"
  ultimately show ?thesis unfolding read_octet_def by (intro read_number_show_nat) simp_all
qed

lemma length_show_octet: "length (show_nat (unat (b::u8))) \<le> 3"
proof -
  have "unat b < 256" by simp
  then have "unat b < 10 ^ Suc 2" by (rule less_trans) simp
  then have "length (show_nat (unat b)) \<le> Suc 2" by (rule length_show_nat)
  then show ?thesis by simp
qed

lemma v4_octets_cases: obtains a b c d where "v4_octets w = [a, b, c, d]" and "w = v4_new a b c d"
proof -
  have four: "(4::nat) = Suc (Suc (Suc (Suc 0)))" by simp
  obtain a b c d where o: "v4_octets w = [a, b, c, d]"
    unfolding v4_octets_def four by simp
  then have "w = v4_new a b c d" by (metis v4_of_bytes_octets v4_new_def v4_of_bytes_def)
  with o that show ?thesis by blast
qed

lemma read_ipv4_show:
  assumes "no_digit r"
  shows "read_ipv4_addr (show_v4 w @ r) = Some (w, r)"
proof -
  obtain a b c d where o: "v4_octets w = [a, b, c, d]" and w: "w = v4_new a b c d" by (rule v4_octets_cases)
  have dot: "no_digit (CHR ''.'' # x)" for x by (simp add: no_digit_def to_digit_def)
  have g: "read_given_char CHR ''.'' (CHR ''.'' # x) = Some x" for x by (simp add: read_given_char_def)
  show ?thesis
    using o w assms by (simp add: show_v4_def read_ipv4_addr_def read_octet_show dot g)
qed

lemma parse_ipv4_show: "parse_ipv4 (show_v4 w) = Some w"
proof -
  obtain a b c d where o: "v4_octets w = [a, b, c, d]" by (rule v4_octets_cases)
  have "length (show_v4 w) \<le> 15"
    using length_show_octet [of a] length_show_octet [of b] length_show_octet [of c] length_show_octet [of d]
    by (simp add: show_v4_def o)
  moreover have "read_ipv4_addr (show_v4 w) = Some (w, [])"
    using read_ipv4_show [of "[]" w] by (simp add: no_digit_def)
  ultimately show ?thesis by (simp add: parse_ipv4_def parse_with_def)
qed

text \<open>The displayed address is printable ASCII, so trimming and decoding leave it as it is.\<close>

lemma to_digit_ascii: "to_digit 10 c \<noteq> None \<Longrightarrow> 48 \<le> (of_char c :: nat) \<and> (of_char c :: nat) \<le> 57"
  by (auto simp: to_digit_def Let_def split: if_splits)

lemma show_v4_ascii: "c \<in> set (show_v4 w) \<Longrightarrow> 46 \<le> (of_char c :: nat) \<and> (of_char c :: nat) \<le> 57"
proof -
  obtain a b c' d where o: "v4_octets w = [a, b, c', d]" by (rule v4_octets_cases)
  assume "c \<in> set (show_v4 w)"
  then have "c = CHR ''.'' \<or> to_digit 10 c \<noteq> None"
    by (auto simp: show_v4_def o dest: show_nat_digits)
  then show ?thesis using to_digit_ascii by fastforce
qed

lemma show_v4_ne: "show_v4 w \<noteq> []"
  by (rule v4_octets_cases [of w]) (simp add: show_v4_def)

lemma show_v4_bytes:
  assumes "b \<in> set (as_bytes (show_v4 w))"
  shows "46 \<le> unat b" and "unat b \<le> 57"
proof -
  from assms obtain c where "c \<in> set (show_v4 w)" and "b = of_nat (of_char c)"
    by (auto simp: as_bytes_def)
  with show_v4_ascii [of c w] show "46 \<le> unat b" and "unat b \<le> 57" by simp_all
qed

lemma from_utf8_lossy_show_v4: "from_utf8_lossy (as_bytes (show_v4 w)) = show_v4 w"
proof -
  have "ascii (as_bytes (show_v4 w))"
    using show_v4_bytes(2) by (fastforce simp: ascii_def word_less_nat_alt)
  then show ?thesis by (simp add: from_utf8_lossy_def utf8_ascii)
qed

lemma trim_show_v4: "trim (show_v4 w) = show_v4 w"
proof (rule trim_id [OF refl])
  show ne: "as_bytes (show_v4 w) \<noteq> []" using show_v4_ne by (metis length_0_conv length_as_bytes)
  from show_v4_bytes [OF hd_in_set [OF ne]] show "32 < hd (as_bytes (show_v4 w))" "hd (as_bytes (show_v4 w)) < 128"
    by (simp_all add: word_less_nat_alt)
  from show_v4_bytes [OF last_in_set [OF ne]] show "32 < last (as_bytes (show_v4 w))" "last (as_bytes (show_v4 w)) < 128"
    by (simp_all add: word_less_nat_alt)
qed

end
