(* ===== verification/Routing.thy ===== *)
theory Routing
  imports AddrParse
begin

text \<open>
  The routing rules of \<open>routing.rs\<close>: the parser of a rule, the matcher, the decision, the rule files.
  The regular expressions (crate \<open>regex\<close>), the address prefixes (crate \<open>ipnet\<close>) and the Unicode lower-case
  mapping are arguments of the definitions, collected in a record.
\<close>

section \<open>Model\<close>

record ('r, 'n) routing_ext =
  rx_new :: "string \<Rightarrow> 'r option"
  rx_is_match :: "'r \<Rightarrow> string \<Rightarrow> bool"
  net_parse :: "string \<Rightarrow> 'n option"
  net_of_ip :: "ip_addr \<Rightarrow> 'n"
  net_contains :: "'n \<Rightarrow> ip_addr \<Rightarrow> bool"
  lowercase :: "string \<Rightarrow> string"

datatype action = Proxy | Direct | Block

datatype host = Domain string | HostIp ip_addr

datatype ('r, 'n) matcher =
    DomainSuffix string
  | DomainFull string
  | DomainKeyword string
  | DomainRegex 'r
  | Net 'n
  | Ports u16 u16
  | Private

definition normalize_domain :: "('r, 'n) routing_ext \<Rightarrow> string \<Rightarrow> string option" where
  "normalize_domain X value =
     (let cleaned = lowercase X (trim_end_matches CHR ''.'' (trim_start_matches CHR ''.''
                      (trim_start_matches CHR ''*'' (trim value))))
      in if cleaned = [] then None else Some cleaned)"

definition parse_net :: "('r, 'n) routing_ext \<Rightarrow> string \<Rightarrow> 'n option" where
  "parse_net X value =
     (let value = trim value in
      case net_parse X value of
        Some net \<Rightarrow> Some net
      | None \<Rightarrow> map_option (net_of_ip X) (parse_ip_addr value))"

definition parse_port :: "string \<Rightarrow> u16 option" where
  "parse_port s = map_option of_nat (parse_unsigned 65535 s)"

definition parse_ports :: "string \<Rightarrow> (u16 \<times> u16) option" where
  "parse_ports value =
     (let value = trim value in
      case split_once CHR ''-'' value of
        Some (lo, hi) \<Rightarrow> do {
          lo \<leftarrow> parse_port (trim lo);
          hi \<leftarrow> parse_port (trim hi);
          Some (if hi < lo then (hi, lo) else (lo, hi)) }
      | None \<Rightarrow> do { single \<leftarrow> parse_port value; Some (single, single) })"

definition matcher_kind :: "('r, 'n) routing_ext \<Rightarrow> string \<Rightarrow> string \<times> string" where
  "matcher_kind X entry =
     (case split_once CHR '':'' entry of
        Some (kind, value) \<Rightarrow>
          if CHR ''.'' \<notin> set kind \<and> CHR ''/'' \<notin> set kind then (lowercase X (trim kind), trim value)
          else ([], entry)
      | None \<Rightarrow> ([], entry))"

definition matcher_parse :: "('r, 'n) routing_ext \<Rightarrow> string \<Rightarrow> ('r, 'n) matcher option" where
  "matcher_parse X entry =
     (let entry = trim entry in
      if entry = [] \<or> starts_with ''#'' entry then None
      else case matcher_kind X entry of (kind, value) \<Rightarrow>
        if kind = ''domain'' \<or> kind = ''suffix'' then map_option DomainSuffix (normalize_domain X value)
        else if kind = ''full'' \<or> kind = ''exact'' then map_option DomainFull (normalize_domain X value)
        else if kind = ''keyword'' then
          (let needle = lowercase X (trim value) in if needle = [] then None else Some (DomainKeyword needle))
        else if kind = ''regexp'' \<or> kind = ''regex'' then map_option DomainRegex (rx_new X value)
        else if kind = ''ip'' \<or> kind = ''cidr'' then map_option Net (parse_net X value)
        else if kind = ''port'' then map_option (\<lambda>(lo, hi). Ports lo hi) (parse_ports value)
        else if kind = ''geoip'' \<or> kind = ''geosite'' then
          (if str_eq_ignore_case value ''private'' then Some Private else None)
        else if kind = [] then
          (if str_eq_ignore_case value ''private'' then Some Private
           else case parse_net X value of
                  Some net \<Rightarrow> Some (Net net)
                | None \<Rightarrow> map_option DomainSuffix (normalize_domain X value))
        else None)"

section \<open>Private addresses\<close>

definition is_private_v4 :: "u32 \<Rightarrow> bool" where
  "is_private_v4 a \<longleftrightarrow>
     (case v4_octets a of
        [o0, o1, o2, o3] \<Rightarrow>
          (o0 = 10 \<or> (o0 = 172 \<and> 16 \<le> o1 \<and> o1 \<le> 31) \<or> (o0 = 192 \<and> o1 = 168))
          \<or> o0 = 127
          \<or> (o0 = 169 \<and> o1 = 254)
          \<or> (o0 = 255 \<and> o1 = 255 \<and> o2 = 255 \<and> o3 = 255)
          \<or> ((o0 = 192 \<and> o1 = 0 \<and> o2 = 2) \<or> (o0 = 198 \<and> o1 = 51 \<and> o2 = 100) \<or> (o0 = 203 \<and> o1 = 0 \<and> o2 = 113))
          \<or> (o0 = 0 \<and> o1 = 0 \<and> o2 = 0 \<and> o3 = 0)
          \<or> (o0 = 100 \<and> 64 \<le> o1 \<and> o1 < 128)
      | _ \<Rightarrow> False)"

definition segment0 :: "u128 \<Rightarrow> u16" where
  "segment0 a = ucast (drop_bit 112 a)"

definition is_private :: "ip_addr \<Rightarrow> bool" where
  "is_private ip =
     (case ip of
        V4 v4 \<Rightarrow> is_private_v4 v4
      | V6 v6 \<Rightarrow> v6 = 1 \<or> v6 = 0 \<or> segment0 v6 AND 0xfe00 = 0xfc00 \<or> segment0 v6 AND 0xffc0 = 0xfe80)"

section \<open>Matching and deciding\<close>

definition matcher_matches :: "('r, 'n) routing_ext \<Rightarrow> ('r, 'n) matcher \<Rightarrow> host \<Rightarrow> u16 \<Rightarrow> bool" where
  "matcher_matches X m h port =
     (case m of
        Ports lo hi \<Rightarrow> lo \<le> port \<and> port \<le> hi
      | Private \<Rightarrow> (case h of HostIp ip \<Rightarrow> is_private ip | Domain name \<Rightarrow> str_eq_ignore_case name ''localhost'')
      | Net net \<Rightarrow> (case h of HostIp ip \<Rightarrow> net_contains X net ip | Domain _ \<Rightarrow> False)
      | DomainSuffix suffix \<Rightarrow>
          (case h of
             Domain name \<Rightarrow> (let name = lowercase X name in name = suffix \<or> ends_with (CHR ''.'' # suffix) name)
           | HostIp _ \<Rightarrow> False)
      | DomainFull full \<Rightarrow> (case h of Domain name \<Rightarrow> str_eq_ignore_case name full | HostIp _ \<Rightarrow> False)
      | DomainKeyword needle \<Rightarrow> (case h of Domain name \<Rightarrow> contains needle (lowercase X name) | HostIp _ \<Rightarrow> False)
      | DomainRegex pattern \<Rightarrow> (case h of Domain name \<Rightarrow> rx_is_match X pattern name | HostIp _ \<Rightarrow> False))"

record ('r, 'n) rule_set =
  rs_block :: "('r, 'n) matcher list"
  rs_direct :: "('r, 'n) matcher list"

definition parse_list :: "('r, 'n) routing_ext \<Rightarrow> string \<Rightarrow> ('r, 'n) matcher list" where
  "parse_list X raw = List.map_filter (matcher_parse X) (split_any [CHR 10, CHR '','', CHR '';''] raw)"

definition rule_set_parse :: "('r, 'n) routing_ext \<Rightarrow> string \<Rightarrow> string \<Rightarrow> ('r, 'n) rule_set" where
  "rule_set_parse X block direct = \<lparr>rs_block = parse_list X block, rs_direct = parse_list X direct\<rparr>"

definition rule_set_is_empty :: "('r, 'n) rule_set \<Rightarrow> bool" where
  "rule_set_is_empty s \<longleftrightarrow> rs_block s = [] \<and> rs_direct s = []"

definition has_domain_rules :: "('r, 'n) rule_set \<Rightarrow> bool" where
  "has_domain_rules s \<longleftrightarrow>
     list_ex (\<lambda>r. case r of DomainSuffix _ \<Rightarrow> True | DomainFull _ \<Rightarrow> True | DomainKeyword _ \<Rightarrow> True
                          | DomainRegex _ \<Rightarrow> True | _ \<Rightarrow> False) (rs_block s @ rs_direct s)"

definition decide :: "('r, 'n) routing_ext \<Rightarrow> ('r, 'n) rule_set \<Rightarrow> host \<Rightarrow> u16 \<Rightarrow> action" where
  "decide X s h port =
     (if list_ex (\<lambda>r. matcher_matches X r h port) (rs_block s) then Block
      else if list_ex (\<lambda>r. matcher_matches X r h port) (rs_direct s) then Direct
      else Proxy)"

definition push_list :: "string \<Rightarrow> string \<Rightarrow> string" where
  "push_list target extra =
     (if trim extra = [] then target
      else (if trim target \<noteq> [] then target @ [CHR 10] else target) @ extra)"

datatype section_of = NoSection | BlockSection | DirectSection

fun split_sections_loop ::
  "('r, 'n) routing_ext \<Rightarrow> string list \<Rightarrow> section_of \<Rightarrow> string \<Rightarrow> string \<Rightarrow> string \<times> string" where
  "split_sections_loop X [] current block direct = (block, direct)"
| "split_sections_loop X (line # ls) current block direct =
     (let trimmed = trim line in
      if trimmed = [] \<or> starts_with ''#'' trimmed then split_sections_loop X ls current block direct
      else let lowered = lowercase X trimmed in
      if lowered = ''[block]'' then split_sections_loop X ls BlockSection block direct
      else if lowered = ''[direct]'' then split_sections_loop X ls DirectSection block direct
      else if starts_with ''['' lowered then split_sections_loop X ls NoSection block direct
      else (case current of
              NoSection \<Rightarrow> split_sections_loop X ls current block direct
            | BlockSection \<Rightarrow> split_sections_loop X ls current (block @ trimmed @ [CHR 10]) direct
            | DirectSection \<Rightarrow> split_sections_loop X ls current block (direct @ trimmed @ [CHR 10])))"

definition split_sections :: "('r, 'n) routing_ext \<Rightarrow> string \<Rightarrow> string \<times> string" where
  "split_sections X text = split_sections_loop X (lines text) NoSection [] []"

text \<open>\<open>RuleSet::from_env\<close>; the variables and the file contents are arguments, an unreadable file is \<open>None\<close>.\<close>

definition rule_set_from_env :: "('r, 'n) routing_ext \<Rightarrow> string \<Rightarrow> string \<Rightarrow> string option \<Rightarrow> ('r, 'n) rule_set" where
  "rule_set_from_env X block direct file =
     (case file of
        None \<Rightarrow> rule_set_parse X block direct
      | Some text \<Rightarrow>
          (case split_sections X text of
             (file_block, file_direct) \<Rightarrow>
               rule_set_parse X (push_list block file_block) (push_list direct file_direct)))"


section \<open>A bare domain rule\<close>

text \<open>The characters of a lower-case host name.\<close>

definition host_char :: "char \<Rightarrow> bool" where
  "host_char c \<longleftrightarrow> (let n = of_char c :: nat in n = 45 \<or> n = 46 \<or> (48 \<le> n \<and> n \<le> 57) \<or> (97 \<le> n \<and> n \<le> 122))"

definition plain_domain :: "string \<Rightarrow> bool" where
  "plain_domain d \<longleftrightarrow> d \<noteq> [] \<and> list_all host_char d \<and> hd d \<noteq> CHR ''.'' \<and> last d \<noteq> CHR ''.''"

lemma unat_char_byte: "unat (of_nat (of_char c) :: u8) = of_char c"
  using nat_of_char_less_256 [of c] by simp

lemma host_char_range: "host_char c \<Longrightarrow> 45 \<le> (of_char c :: nat) \<and> (of_char c :: nat) \<le> 122"
  by (auto simp: host_char_def Let_def)

lemma plain_not: "plain_domain d \<Longrightarrow> c \<in> set d \<Longrightarrow> host_char c"
  by (auto simp: plain_domain_def list_all_iff)

lemma as_bytes_hd_last:
  "s \<noteq> [] \<Longrightarrow> hd (as_bytes s) = of_nat (of_char (hd s)) \<and> last (as_bytes s) = of_nat (of_char (last s))"
  by (simp add: as_bytes_def hd_map last_map)

lemma trim_plain: "plain_domain d \<Longrightarrow> trim d = d"
proof -
  assume d: "plain_domain d"
  then have ne: "d \<noteq> []" by (simp add: plain_domain_def)
  have "host_char (hd d)" "host_char (last d)" using d ne plain_not by auto
  then have "45 \<le> (of_char (hd d) :: nat)" "(of_char (hd d) :: nat) \<le> 122"
    "45 \<le> (of_char (last d) :: nat)" "(of_char (last d) :: nat) \<le> 122"
    using host_char_range by auto
  then show ?thesis
    using ne as_bytes_hd_last [OF ne]
    by (intro trim_id [OF refl]) (simp_all add: word_less_nat_alt unat_char_byte as_bytes_def)
qed

lemma to_lower_plain: "list_all host_char d \<Longrightarrow> to_lower d = d"
proof -
  assume d: "list_all host_char d"
  have "to_ascii_lowercase_u8 (of_nat (of_char c)) = of_nat (of_char c)" if "host_char c" for c
  proof -
    have "\<not> (65 \<le> (of_char c :: nat) \<and> (of_char c :: nat) \<le> 90)" using that by (auto simp: host_char_def Let_def)
    then have "\<not> (65 \<le> (of_nat (of_char c) :: u8) \<and> (of_nat (of_char c) :: u8) \<le> 90)"
      by (simp add: word_le_nat_alt unat_char_byte)
    then show ?thesis by (simp add: to_ascii_lowercase_u8_def)
  qed
  with d have "map to_ascii_lowercase_u8 (as_bytes d) = as_bytes d"
    by (auto simp: as_bytes_def list_all_iff)
  then show ?thesis by (simp add: to_lower_def)
qed

lemma not_host_char: "\<not> host_char CHR '':''" "\<not> host_char CHR ''#''" "\<not> host_char CHR ''*''" "\<not> host_char CHR '',''"
  "\<not> host_char CHR '';''" "\<not> host_char (CHR 10)"
  by (simp_all add: host_char_def)

lemma normalize_plain:
  assumes "plain_domain d" and "lowercase X d = d"
  shows "normalize_domain X d = Some d"
proof -
  have ne: "d \<noteq> []" "hd d \<noteq> CHR ''.''" "last d \<noteq> CHR ''.''" using assms(1) by (simp_all add: plain_domain_def)
  have "hd d \<noteq> CHR ''*''" using plain_not [OF assms(1), of "hd d"] ne not_host_char by auto
  with ne have "trim_start_matches CHR ''*'' d = d" "trim_start_matches CHR ''.'' d = d"
    by (simp_all add: trim_start_matches_def dropWhile_eq_self_iff)
  moreover have "dropWhile (\<lambda>x. x = CHR ''.'') (rev d) = rev d"
    using ne by (subst dropWhile_eq_self_iff) (simp add: hd_rev)
  then have "trim_end_matches CHR ''.'' d = d" by (simp add: trim_end_matches_def)
  ultimately show ?thesis using assms ne by (simp add: normalize_domain_def trim_plain)
qed

lemma matcher_parse_plain:
  assumes "plain_domain d" and "lowercase X d = d" and "d \<noteq> ''private''" and "net_parse X d = None"
    and "parse_ip_addr d = None"
  shows "matcher_parse X d = Some (DomainSuffix d)"
proof -
  have ne: "d \<noteq> []" using assms(1) by (simp add: plain_domain_def)
  have nc: "CHR '':'' \<notin> set d" using plain_not [OF assms(1)] not_host_char by blast
  have "hd d \<noteq> CHR ''#''" using plain_not [OF assms(1), of "hd d"] ne not_host_char by auto
  then have nh: "\<not> starts_with ''#'' d" using ne by (cases d) (auto simp: starts_with_def)
  have "split_once CHR '':'' d = None" using nc by (simp add: split_once_None)
  then have k: "matcher_kind X d = ([], d)" by (simp add: matcher_kind_def)
  have "list_all host_char ''private''" by (simp add: host_char_def)
  then have "to_lower ''private'' = ''private''" by (rule to_lower_plain)
  moreover have "to_lower d = d" using assms(1) to_lower_plain by (simp add: plain_domain_def)
  ultimately have np: "\<not> str_eq_ignore_case d ''private''" using assms(3) by (simp add: str_eq_ignore_case_def)
  have "parse_net X d = None" using assms(4,5) by (simp add: parse_net_def trim_plain [OF assms(1)])
  with ne nh k np normalize_plain [OF assms(1,2)] trim_plain [OF assms(1)] show ?thesis
    by (simp add: matcher_parse_def)
qed

text \<open>
  A bare domain in the block list blocks exactly that name and its subdomains. For every host name
  written in lower case that is neither an address, a prefix nor the word \<open>private\<close>, a connection to a
  domain is blocked if and only if its lower-case form is the name itself or ends with a dot and the name;
  every other domain goes through the proxy, and so does every connection to an address.
\<close>

lemma bare_domain_rule:
  assumes "plain_domain d" and "lowercase X d = d" and "d \<noteq> ''private''" and "net_parse X d = None"
    and "parse_ip_addr d = None"
  shows "(decide X (rule_set_parse X d []) (Domain n) port = Block
        \<longleftrightarrow> lowercase X n = d \<or> (\<exists>sub. lowercase X n = sub @ ''.'' @ d))
     \<and> (decide X (rule_set_parse X d []) (Domain n) port \<noteq> Block
        \<longrightarrow> decide X (rule_set_parse X d []) (Domain n) port = Proxy)
     \<and> decide X (rule_set_parse X d []) (HostIp ip) port = Proxy"
proof -
  have "set [CHR 10, CHR '','', CHR '';''] \<inter> set d = {}" using plain_not [OF assms(1)] not_host_char by auto
  then have "split_any [CHR 10, CHR '','', CHR '';''] d = [d]" by (rule split_any_none)
  then have b: "parse_list X d = [DomainSuffix d]"
    by (simp add: parse_list_def List.map_filter_simps matcher_parse_plain [OF assms])
  have "trim [] = []" by (simp add: trim_def strip_any_id bytes_str_def)
  then have "matcher_parse X [] = None" by (simp add: matcher_parse_def)
  then have e: "parse_list X [] = []" by (simp add: parse_list_def List.map_filter_simps)
  show ?thesis
    by (auto simp: decide_def rule_set_parse_def b e matcher_matches_def ends_with_iff Let_def)
qed

text \<open>An environment without regular expressions and prefixes, with ASCII lower-casing.\<close>

definition ascii_ext :: "(unit, ip_addr) routing_ext" where
  "ascii_ext = \<lparr>rx_new = \<lambda>_. None, rx_is_match = \<lambda>_ _. False, net_parse = \<lambda>_. None,
     net_of_ip = \<lambda>ip. ip, net_contains = \<lambda>a b. a = b, lowercase = to_lower\<rparr>"

lemma bare_domain_rule_witness:
  "decide ascii_ext (rule_set_parse ascii_ext ''tracker.example'' []) (Domain ''x.tracker.example'') 443 = Block"
proof -
  have p: "plain_domain ''tracker.example''" by (simp add: plain_domain_def host_char_def)
  have l: "lowercase ascii_ext ''tracker.example'' = ''tracker.example''"
    using to_lower_plain p by (simp add: ascii_ext_def plain_domain_def)
  have v4: "read_ipv4_addr ''tracker.example'' = None"
    by (simp add: read_ipv4_addr_def read_octet_def read_number_def to_digit_def)
  have "read_groups 0 (Suc 7) ''tracker.example'' = ([], False, ''tracker.example'')"
    by (subst read_groups.simps(2)) (simp add: v4 read_number_def to_digit_def read_sep_def)
  then have "read_ipv6_addr ''tracker.example'' = None"
    by (simp add: read_ipv6_addr_def read_given_char_def)
  with v4 have i: "parse_ip_addr ''tracker.example'' = None"
    by (simp add: parse_ip_addr_def parse_with_def read_ip_addr_def)
  have n: "lowercase ascii_ext ''x.tracker.example'' = ''x'' @ ''.'' @ ''tracker.example''"
    using to_lower_plain [of "''x.tracker.example''"] by (simp add: ascii_ext_def host_char_def)
  have "net_parse ascii_ext ''tracker.example'' = None" by (simp add: ascii_ext_def)
  from bare_domain_rule [OF p l _ this i] n show ?thesis by blast
qed


section \<open>Private IPv4 ranges\<close>

lemma octets_value:
  assumes "v4_octets w = [a, b, c, d]"
  shows "unat w = unat a * 16777216 + unat b * 65536 + unat c * 256 + unat d"
proof -
  have "unat w mod 256 ^ 4 = unat w" using unat_u32_less [of w] by simp
  then have "unat w = be_val (v4_octets w)" by (simp only: v4_octets_def be_val_be_bytes)
  then show ?thesis unfolding assms by simp
qed

text \<open>The address \<open>a\<close> lies in the prefix \<open>base/len\<close>.\<close>

definition in_prefix :: "u32 \<Rightarrow> u32 \<Rightarrow> nat \<Rightarrow> bool" where
  "in_prefix a base len \<longleftrightarrow> unat a div 2 ^ (32 - len) = unat base div 2 ^ (32 - len)"

lemma octets_div:
  fixes a b c d :: nat
  assumes "a < 256" "b < 256" "c < 256" "d < 256" and "n = a * 16777216 + b * 65536 + c * 256 + d"
  shows "n div 16777216 = a" and "n div 65536 = a * 256 + b" and "n div 256 = a * 65536 + b * 256 + c"
    and "n div 1048576 = a * 16 + b div 16" and "n div 4194304 = a * 4 + b div 64"
proof -
  have q: "n div k = t" if "t * k \<le> n" "n < t * k + k" for k t
    using that by (intro div_nat_eqI) (simp_all add: algebra_simps)
  show "n div 16777216 = a" using assms by (intro q) (simp_all add: add_mult_distrib)
  show "n div 65536 = a * 256 + b" using assms by (intro q) (simp_all add: add_mult_distrib)
  show "n div 256 = a * 65536 + b * 256 + c" using assms by (intro q) (simp_all add: add_mult_distrib)
  have b1: "b = 16 * (b div 16) + b mod 16" "b mod 16 < 16" by simp_all
  show "n div 1048576 = a * 16 + b div 16" using assms b1 by (intro q) (simp_all add: add_mult_distrib)
  have b2: "b = 64 * (b div 64) + b mod 64" "b mod 64 < 64" by simp_all
  show "n div 4194304 = a * 4 + b div 64" using assms b2 by (intro q) (simp_all add: add_mult_distrib)
qed

lemma digits2:
  fixes a b c k l m :: nat
  assumes "b < n" "l < n"
  shows "a * n + b = k * n + l \<longleftrightarrow> a = k \<and> b = l"
proof
  assume e: "a * n + b = k * n + l"
  have "(a * n + b) div n = a" "(k * n + l) div n = k" using assms by simp_all
  with e have "a = k" by metis
  with e show "a = k \<and> b = l" by simp
qed simp

lemma digits3:
  fixes a b c :: nat
  assumes "b < 256" "c < 256" "l < 256" "m < 256"
  shows "a * 65536 + b * 256 + c = k * 65536 + l * 256 + m \<longleftrightarrow> a = k \<and> b = l \<and> c = m"
  using assms digits2 [of "b * 256 + c" 65536 "l * 256 + m" a k] digits2 [of c 256 m b l]
  by (simp add: add.assoc)

lemma div_range:
  fixes b k n :: nat
  assumes "0 < n"
  shows "b div n = k \<longleftrightarrow> k * n \<le> b \<and> b < k * n + n"
proof -
  have "b div n = k \<longleftrightarrow> k \<le> b div n \<and> b div n < Suc k" by auto
  then show ?thesis
    using assms by (simp add: less_eq_div_iff_mult_less_eq div_less_iff_less_mult add.commute)
qed

lemma unat_v4_new: "unat (v4_new a b c d) = unat a * 16777216 + unat b * 65536 + unat c * 256 + unat d"
proof -
  have "be_val [a, b, c, d] < 4294967296" using be_val_less [of "[a, b, c, d]"] by simp
  then have "unat (v4_new a b c d) = be_val [a, b, c, d]" by (simp only: v4_new_def unat_of_nat_u32) simp
  then show ?thesis by simp
qed

lemma all_ones:
  fixes A B C D :: nat
  assumes lt: "A < 256" "B < 256" "C < 256" "D < 256"
  shows "A * 16777216 + B * 65536 + C * 256 + D = 4294967295 \<longleftrightarrow> A = 255 \<and> B = 255 \<and> C = 255 \<and> D = 255"
proof -
  let ?r = "B * 65536 + C * 256 + D"
  have "?r < 16777216" using lt by linarith
  then have "A * 16777216 + ?r = 255 * 16777216 + 16777215 \<longleftrightarrow> A = 255 \<and> ?r = 16777215"
    by (rule digits2) simp
  moreover have "?r = 255 * 65536 + 255 * 256 + 255 \<longleftrightarrow> B = 255 \<and> C = 255 \<and> D = 255"
    using lt by (intro digits3) simp_all
  ultimately show ?thesis by (simp only: add.assoc) simp
qed

text \<open>
  The addresses that the keyword \<open>private\<close> covers are, for IPv4, exactly the addresses of these prefixes:
  10/8, 172.16/12, 192.168/16, loopback 127/8, link-local 169.254/16, broadcast, the documentation
  networks 192.0.2/24, 198.51.100/24 and 203.0.113/24, the unspecified address, and the carrier-grade
  NAT range 100.64/10.
\<close>

lemma private_v4_prefixes:
  "is_private (V4 w) \<longleftrightarrow>
     in_prefix w (v4_new 10 0 0 0) 8 \<or> in_prefix w (v4_new 172 16 0 0) 12 \<or> in_prefix w (v4_new 192 168 0 0) 16
     \<or> in_prefix w (v4_new 127 0 0 0) 8 \<or> in_prefix w (v4_new 169 254 0 0) 16
     \<or> in_prefix w (v4_new 255 255 255 255) 32
     \<or> in_prefix w (v4_new 192 0 2 0) 24 \<or> in_prefix w (v4_new 198 51 100 0) 24 \<or> in_prefix w (v4_new 203 0 113 0) 24
     \<or> in_prefix w (v4_new 0 0 0 0) 32 \<or> in_prefix w (v4_new 100 64 0 0) 10"
proof -
  obtain a b c d where o: "v4_octets w = [a, b, c, d]" and w: "w = v4_new a b c d" by (rule v4_octets_cases)
  define A B C D where "A = unat a" and "B = unat b" and "C = unat c" and "D = unat d"
  have lt: "A < 256" "B < 256" "C < 256" "D < 256" by (simp_all add: A_def B_def C_def D_def)
  have n: "unat w = A * 16777216 + B * 65536 + C * 256 + D"
    using octets_value [OF o] by (simp add: A_def B_def C_def D_def)
  note dv = octets_div [OF lt n]
  have lhs: "is_private (V4 w) \<longleftrightarrow>
      (A = 10 \<or> (A = 172 \<and> 16 \<le> B \<and> B < 32) \<or> (A = 192 \<and> B = 168)) \<or> A = 127 \<or> (A = 169 \<and> B = 254)
      \<or> (A = 255 \<and> B = 255 \<and> C = 255 \<and> D = 255)
      \<or> ((A = 192 \<and> B = 0 \<and> C = 2) \<or> (A = 198 \<and> B = 51 \<and> C = 100) \<or> (A = 203 \<and> B = 0 \<and> C = 113))
      \<or> (A = 0 \<and> B = 0 \<and> C = 0 \<and> D = 0) \<or> (A = 100 \<and> 64 \<le> B \<and> B < 128)"
    using less_Suc_eq_le [of B 31]
    by (simp add: is_private_def is_private_v4_def o word_unat_eq_iff word_le_nat_alt word_less_nat_alt
        A_def B_def C_def D_def)
  have e: "in_prefix w (v4_new 10 0 0 0) 8 \<longleftrightarrow> A = 10" "in_prefix w (v4_new 127 0 0 0) 8 \<longleftrightarrow> A = 127"
    by (simp_all add: in_prefix_def unat_v4_new dv)
  have f: "in_prefix w (v4_new 192 168 0 0) 16 \<longleftrightarrow> A = 192 \<and> B = 168" "in_prefix w (v4_new 169 254 0 0) 16 \<longleftrightarrow> A = 169 \<and> B = 254"
    using lt digits2 [of B 256 168 A 192] digits2 [of B 256 254 A 169]
    by (simp_all add: in_prefix_def unat_v4_new dv)
  have g: "in_prefix w (v4_new 192 0 2 0) 24 \<longleftrightarrow> A = 192 \<and> B = 0 \<and> C = 2"
    "in_prefix w (v4_new 198 51 100 0) 24 \<longleftrightarrow> A = 198 \<and> B = 51 \<and> C = 100"
    "in_prefix w (v4_new 203 0 113 0) 24 \<longleftrightarrow> A = 203 \<and> B = 0 \<and> C = 113"
    using lt digits3 [of B C 0 2 A 192] digits3 [of B C 51 100 A 198] digits3 [of B C 0 113 A 203]
    by (simp_all add: in_prefix_def unat_v4_new dv)
  have "B div 16 < 16" "B div 64 < 64" using lt by (simp_all add: div_less_iff_less_mult)
  then have h: "in_prefix w (v4_new 172 16 0 0) 12 \<longleftrightarrow> A = 172 \<and> 16 \<le> B \<and> B < 32"
    "in_prefix w (v4_new 100 64 0 0) 10 \<longleftrightarrow> A = 100 \<and> 64 \<le> B \<and> B < 128"
    using lt digits2 [of "B div 16" 16 1 A 172] digits2 [of "B div 64" 4 1 A 100]
      div_range [of 16 B 1] div_range [of 64 B 1]
    by (simp_all add: in_prefix_def unat_v4_new dv div_less_iff_less_mult)
  have u: "unat (v4_new 255 255 255 255) = 4294967295" "unat (v4_new 0 0 0 0) = 0" by (simp_all add: unat_v4_new)
  note all_ones [OF lt]
  then have i: "in_prefix w (v4_new 255 255 255 255) 32 \<longleftrightarrow> A = 255 \<and> B = 255 \<and> C = 255 \<and> D = 255"
    by (simp only: in_prefix_def diff_self_eq_0 power_0 div_by_1 n u)
  have j: "in_prefix w (v4_new 0 0 0 0) 32 \<longleftrightarrow> A = 0 \<and> B = 0 \<and> C = 0 \<and> D = 0"
    by (simp only: in_prefix_def diff_self_eq_0 power_0 div_by_1 n u) simp
  show ?thesis unfolding lhs e f g h i j by (simp only: disj_assoc)
qed


section \<open>Bare IPv6 rules\<close>

definition hex_char :: "char \<Rightarrow> bool" where
  "hex_char c \<longleftrightarrow> (let n = of_char c :: nat in (48 \<le> n \<and> n \<le> 57) \<or> (97 \<le> n \<and> n \<le> 102))"

lemma hex_host: "list_all hex_char g \<Longrightarrow> list_all host_char g"
  by (auto simp: list_all_iff hex_char_def host_char_def Let_def)

lemma hex_group:
  assumes "g \<noteq> []" and "list_all hex_char g"
  shows "plain_domain g" and "CHR ''.'' \<notin> set g" and "CHR ''/'' \<notin> set g" and "CHR '':'' \<notin> set g"
    and "hd g \<noteq> CHR ''#''"
proof -
  have nd: "\<not> hex_char CHR ''.''" "\<not> hex_char CHR ''/''" "\<not> hex_char CHR '':''" "\<not> hex_char CHR ''#''"
    by (simp_all add: hex_char_def)
  have all: "c \<in> set g \<Longrightarrow> hex_char c" for c using assms(2) by (auto simp: list_all_iff)
  show "CHR ''.'' \<notin> set g" "CHR ''/'' \<notin> set g" "CHR '':'' \<notin> set g" using all nd by blast+
  then show "plain_domain g"
    using assms hex_host by (auto simp: plain_domain_def) (metis hd_in_set, metis last_in_set)
  show "hd g \<noteq> CHR ''#''" using all nd assms(1) by (metis hd_in_set)
qed

text \<open>No keyword of the rule language consists of hexadecimal digits only.\<close>

lemma hex_no_keyword:
  "list_all hex_char g \<Longrightarrow> g \<notin> {''domain'', ''suffix'', ''full'', ''exact'', ''keyword'', ''regexp'', ''regex'',
     ''ip'', ''cidr'', ''port'', ''geoip'', ''geosite''}"
  by (auto simp: hex_char_def)

lemma bare_ipv6_entry:
  assumes "g \<noteq> []" and "list_all hex_char g" and "lowercase X g = g" and "trim (g @ '':'' @ rest) = g @ '':'' @ rest"
  shows "matcher_parse X (g @ '':'' @ rest) = None"
proof -
  note hx = hex_group [OF assms(1,2)]
  have "split_once CHR '':'' (g @ CHR '':'' # rest) = Some (g, rest)" by (rule split_once_app [OF hx(4)])
  then have k: "matcher_kind X (g @ CHR '':'' # rest) = (g, trim rest)"
    using hx(2,3) by (simp add: matcher_kind_def trim_plain [OF hx(1)] assms(3))
  have "\<not> starts_with ''#'' (g @ CHR '':'' # rest)"
    using hx(5) assms(1) by (cases g) (auto simp: starts_with_def)
  then show ?thesis
    using assms(1,4) k hex_no_keyword [OF assms(2)] by (simp add: matcher_parse_def)
qed

text \<open>
  A bare IPv6 address in a rule list is silently dropped. The text before its first colon is taken for
  the kind of the rule, which no group of hexadecimal digits is, so the entry produces no rule, and a
  connection to that very address still goes through the proxy although the address is on the block
  list; the address parser that handles bare IPv4 entries accepts the same text.
\<close>

lemma bare_ipv6_rule_dropped:
  assumes "g \<noteq> []" and "list_all hex_char g" and "lowercase X g = g" and "trim (g @ '':'' @ rest) = g @ '':'' @ rest"
    and "set [CHR 10, CHR '','', CHR '';''] \<inter> set (g @ '':'' @ rest) = {}"
    and "parse_ip_addr (g @ '':'' @ rest) = Some ip" and "net_parse X (g @ '':'' @ rest) = None"
  shows "parse_net X (g @ '':'' @ rest) = Some (net_of_ip X ip)
     \<and> decide X (rule_set_parse X (g @ '':'' @ rest) []) (HostIp ip) port = Proxy"
proof
  show "parse_net X (g @ '':'' @ rest) = Some (net_of_ip X ip)"
    using assms(4,6,7) by (simp add: parse_net_def)
  have "matcher_parse X [] = None" by (simp add: matcher_parse_def trim_def strip_any_id bytes_str_def)
  then show "decide X (rule_set_parse X (g @ '':'' @ rest) []) (HostIp ip) port = Proxy"
    unfolding decide_def rule_set_parse_def parse_list_def split_any_none [OF assms(5)]
    using bare_ipv6_entry [OF assms(1-4)] by (simp add: List.map_filter_simps)
qed


lemma bare_ipv6_rule_dropped_witness:
  "\<exists>ip. parse_ip_addr ''1::1'' = Some ip
     \<and> decide ascii_ext (rule_set_parse ascii_ext ''1::1'' []) (HostIp ip) 443 = Proxy"
proof -
  have v4: "read_ipv4_addr ''1::1'' = None" "read_ipv4_addr '':1'' = None" "read_ipv4_addr ''1'' = None"
    by (simp_all add: read_ipv4_addr_def read_octet_def read_number_def to_digit_def digits_val_def read_given_char_def)
  have n1: "read_number 16 (Some 4) True 65535 ''1::1'' = Some (1, ''::1'')"
    "read_number 16 (Some 4) True 65535 '':1'' = None" "read_number 16 (Some 4) True 65535 ''1'' = Some (1, [])"
    by (simp_all add: read_number_def to_digit_def digits_val_def)
  have g1: "read_groups 1 (Suc 6) ''::1'' = ([], False, ''::1'')"
    by (subst read_groups.simps(2)) (simp add: v4 n1 read_sep_def read_given_char_def)
  have g0: "read_groups 0 (Suc 7) ''1::1'' = ([1], False, ''::1'')"
    by (subst read_groups.simps(2)) (use g1 in \<open>simp add: v4 n1 read_sep_def\<close>)
  have t1: "read_groups 1 (Suc 4) [] = ([], False, [])"
    by (subst read_groups.simps(2)) (simp add: read_sep_def read_given_char_def)
  have t0: "read_groups 0 (Suc 5) ''1'' = ([1], False, [])"
    by (subst read_groups.simps(2)) (use t1 in \<open>simp add: v4 n1 read_sep_def\<close>)
  obtain ip where "read_ipv6_addr ''1::1'' = Some (ip, [])"
    using g0 t0 by (simp add: read_ipv6_addr_def read_given_char_def)
  then have ip: "parse_ip_addr (''1'' @ '':'' @ '':1'') = Some (V6 ip)"
    using v4 by (simp add: parse_ip_addr_def parse_with_def read_ip_addr_def)
  have tr: "trim (''1'' @ '':'' @ '':1'') = ''1'' @ '':'' @ '':1''"
    by (rule trim_id [OF refl]) (simp_all add: as_bytes_def)
  have "decide ascii_ext (rule_set_parse ascii_ext (''1'' @ '':'' @ '':1'') []) (HostIp (V6 ip)) 443 = Proxy"
    by (rule bare_ipv6_rule_dropped [THEN conjunct2, OF _ _ _ tr _ ip])
      (simp_all add: hex_char_def ascii_ext_def to_lower_plain host_char_def)
  with ip show ?thesis by auto
qed

end
