(* ===== verification/SocksServer.thy ===== *)
theory SocksServer
  imports Routing
begin

text \<open>
  The local SOCKS5 server (\<open>socks.rs\<close>): the handshake and the request of a client, the UDP
  association with its admission rule, and the datagram format. The client is the bytes it will send.
  A socket address is an address and a port; the flow label and the scope of an IPv6 socket address
  are not represented. Routing decisions, name resolution and the sockets are parameters.
\<close>

section \<open>Requests\<close>

definition VER :: u8 where "VER = 0x05"
definition CMD_CONNECT :: u8 where "CMD_CONNECT = 0x01"
definition CMD_UDP_ASSOCIATE :: u8 where "CMD_UDP_ASSOCIATE = 0x03"
definition ATYP_V4 :: u8 where "ATYP_V4 = 0x01"
definition ATYP_DOMAIN :: u8 where "ATYP_DOMAIN = 0x03"
definition ATYP_V6 :: u8 where "ATYP_V6 = 0x04"
definition REP_OK :: u8 where "REP_OK = 0x00"
definition REP_NOT_SUPPORTED :: u8 where "REP_NOT_SUPPORTED = 0x07"

datatype target = TargetIp ip_addr | TargetDomain string

definition host_of :: "target \<Rightarrow> host" where
  "host_of t = (case t of TargetDomain name \<Rightarrow> Domain name | TargetIp ip \<Rightarrow> HostIp ip)"

text \<open>Reading \<open>n\<close> bytes; a client that closes early is an I/O error.\<close>

definition recv_exact :: "nat \<Rightarrow> bytes \<Rightarrow> (bytes \<times> bytes) result" where
  "recv_exact n input = (if n \<le> length input then Inr (take n input, drop n input) else Inl (ErrIo ''early eof''))"

definition res_bind :: "'a result \<Rightarrow> ('a \<Rightarrow> 'b result) \<Rightarrow> 'b result" where
  "res_bind r f = (case r of Inl e \<Rightarrow> Inl e | Inr v \<Rightarrow> f v)"

lemma res_bind_simps [simp]: "res_bind (Inr v) f = f v" "res_bind (Inl e) f = Inl e"
  by (simp_all add: res_bind_def)

lemma recv_exact_app [simp]: "length a = n \<Longrightarrow> recv_exact n (a @ b) = Inr (a, b)"
  by (simp add: recv_exact_def)

text \<open>The handshake reads the greeting; what it writes is \<open>handshake_reply\<close>, after the greeting was read.\<close>

definition handshake_reply :: bytes where "handshake_reply = [VER, 0x00]"

definition handshake :: "bytes \<Rightarrow> bytes result" where
  "handshake input =
     res_bind (recv_exact 2 input) (\<lambda>(prefix, input).
       if prefix ! 0 \<noteq> VER then Inl (ErrOther ''bad greeting version'')
       else res_bind (recv_exact (unat (prefix ! 1)) input) (\<lambda>(_, input). Inr input))"

definition read_target :: "u8 \<Rightarrow> bytes \<Rightarrow> (target \<times> u16 \<times> bytes) result" where
  "read_target atyp input =
     res_bind
       (if atyp = ATYP_V4 then res_bind (recv_exact 4 input) (\<lambda>(b, input). Inr (TargetIp (V4 (v4_of_bytes b)), input))
        else if atyp = ATYP_V6 then res_bind (recv_exact 16 input) (\<lambda>(b, input). Inr (TargetIp (V6 (v6_of_bytes b)), input))
        else if atyp = ATYP_DOMAIN then
          res_bind (recv_exact 1 input) (\<lambda>(len, input).
            res_bind (recv_exact (unat (len ! 0)) input) (\<lambda>(name, input). Inr (TargetDomain (from_utf8_lossy name), input)))
        else Inl (ErrOther ''bad atyp''))
       (\<lambda>(target, input). res_bind (recv_exact 2 input) (\<lambda>(port, input). Inr (target, be_u16 (port ! 0) (port ! 1), input)))"

definition reply :: "u8 \<Rightarrow> bytes" where
  "reply code = [VER, code, 0x00, ATYP_V4, 0, 0, 0, 0, 0, 0]"

definition addr_field :: "socket_addr \<Rightarrow> bytes" where
  "addr_field a =
     (case sa_ip a of V4 v4 \<Rightarrow> ATYP_V4 # v4_octets v4 | V6 v6 \<Rightarrow> ATYP_V6 # v6_octets v6) @ u16_bytes (sa_port a)"

definition reply_bound :: "socket_addr \<Rightarrow> bytes" where
  "reply_bound bound = [VER, REP_OK, 0x00] @ addr_field bound"

datatype client_command = Connect target u16 | UdpAssociate target u16

text \<open>What was written to the client, and the command with the unread input or the error.\<close>

definition handle_client :: "bytes \<Rightarrow> bytes \<times> (client_command \<times> bytes) result" where
  "handle_client input =
     (case handshake input of
        Inl e \<Rightarrow> ([], Inl e)
      | Inr input \<Rightarrow>
          (case res_bind (recv_exact 4 input) (\<lambda>(head, input).
              if head ! 0 \<noteq> VER then Inl (ErrOther ''bad socks version'')
              else res_bind (read_target (head ! 3) input) (\<lambda>r. Inr (head ! 1, r))) of
             Inl e \<Rightarrow> (handshake_reply, Inl e)
           | Inr (cmd, target, port, input) \<Rightarrow>
               if cmd = CMD_CONNECT then (handshake_reply, Inr (Connect target port, input))
               else if cmd = CMD_UDP_ASSOCIATE then (handshake_reply, Inr (UdpAssociate target port, input))
               else (handshake_reply @ reply REP_NOT_SUPPORTED, Inl (ErrOther ''unsupported socks command''))))"

section \<open>Datagrams\<close>

definition udp_target :: "u8 \<Rightarrow> bytes \<Rightarrow> nat \<Rightarrow> (target \<times> nat) option rust" where
  "udp_target atyp buf pos =
     (if atyp = ATYP_V4 then
        if length buf < pos + 4 then Some None
        else do {
          a \<leftarrow> idx buf pos; b \<leftarrow> idx buf (pos + 1); c \<leftarrow> idx buf (pos + 2); d \<leftarrow> idx buf (pos + 3);
          Some (Some (TargetIp (V4 (v4_new a b c d)), pos + 4)) }
      else if atyp = ATYP_V6 then
        if length buf < pos + 16 then Some None
        else do { b \<leftarrow> slice_of buf pos (pos + 16); Some (Some (TargetIp (V6 (v6_of_bytes b)), pos + 16)) }
      else if atyp = ATYP_DOMAIN then
        (case get_at buf pos of
           None \<Rightarrow> Some None
         | Some l \<Rightarrow>
             if length buf < pos + 1 + unat l then Some None
             else do { name \<leftarrow> slice_of buf (pos + 1) (pos + 1 + unat l);
                       Some (Some (TargetDomain (from_utf8_lossy name), pos + 1 + unat l)) })
      else Some None)"

definition parse_udp_request :: "bytes \<Rightarrow> (target \<times> u16 \<times> bytes) option rust" where
  "parse_udp_request buf =
     (if length buf < 4 then Some None
      else do {
        frag \<leftarrow> idx buf 2;
        if frag \<noteq> 0 then Some None
        else do {
          atyp \<leftarrow> idx buf 3;
          r \<leftarrow> udp_target atyp buf 4;
          case r of
            None \<Rightarrow> Some None
          | Some (target, pos) \<Rightarrow>
              if length buf < pos + 2 then Some None
              else do {
                port \<leftarrow> field16 buf pos;
                data \<leftarrow> slice_from buf (pos + 2);
                Some (Some (target, port, data)) } } })"

definition build_udp_reply :: "socket_addr \<Rightarrow> bytes \<Rightarrow> bytes" where
  "build_udp_reply src data = [0x00, 0x00, 0x00] @ addr_field src @ data"

lemma udp_target_total: "udp_target atyp buf pos \<noteq> None"
  by (auto simp: udp_target_def idx_in slice_of_in get_at_def)

lemma udp_target_pos: "udp_target atyp buf pos = Some (Some (t, p)) \<Longrightarrow> p \<le> length buf"
  by (auto simp: udp_target_def bind_eq_Some_conv get_at_def split: if_splits option.splits)

lemma parse_udp_request_total: "parse_udp_request buf \<noteq> None"
proof -
  obtain r where "length buf < 4 \<or> udp_target (buf ! 3) buf 4 = Some r"
    using udp_target_total [of "buf ! 3" buf 4] by auto
  then show ?thesis
    by (cases "length buf < 4") (auto simp: parse_udp_request_def idx_in field16_in slice_from_in split: option.split)
qed

text \<open>
  The datagram header of the UDP relay is read back exactly. No datagram makes the parser panic,
  and a reply that the relay builds for any source address and payload is, read as a request, that
  very address, port and payload; a datagram with a nonzero fragment field is refused.
\<close>

lemma udp_header_roundtrip:
  "parse_udp_request buf \<noteq> None
   \<and> parse_udp_request (build_udp_reply src data) = Some (Some (TargetIp (sa_ip src), sa_port src, data))
   \<and> (frag \<noteq> 0 \<longrightarrow> parse_udp_request (a # b # frag # r) = Some None)"
proof (intro conjI impI)
  show "parse_udp_request buf \<noteq> None" by (rule parse_udp_request_total)
  show "parse_udp_request (a # b # frag # r) = Some None" if "frag \<noteq> 0"
    using that by (cases r) (auto simp: parse_udp_request_def idx_def)
  have 2: "u16_bytes w @ data = of_nat (unat w div 256) # of_nat (unat w) # data" for w by (simp add: u16_bytes_eq)
  show "parse_udp_request (build_udp_reply src data) = Some (Some (TargetIp (sa_ip src), sa_port src, data))"
  proof (cases "sa_ip src")
    case (V4 v)
    obtain x y z w where o: "v4_octets v = [x, y, z, w]"
      by (rule v4_octets_cases)
    let ?m = "0 # 0 # 0 # ATYP_V4 # x # y # z # w # of_nat (unat (sa_port src) div 256) # of_nat (unat (sa_port src)) # data"
    have v: "v4_new x y z w = v" using v4_of_bytes_octets [of v] by (simp add: o v4_new_def v4_of_bytes_def)
    have m: "build_udp_reply src data = ?m" using V4 by (simp add: build_udp_reply_def addr_field_def o 2)
    have "udp_target (?m ! 3) ?m 4 = Some (Some (TargetIp (V4 v), 8))"
      by (simp add: udp_target_def idx_def v)
    moreover have "field16 ?m 8 = Some (sa_port src)" "slice_from ?m 10 = Some data"
      by (simp_all add: field16_def idx_def slice_from_def)
    ultimately show ?thesis unfolding m parse_udp_request_def using V4 by (simp add: idx_def)
  next
    case (V6 v)
    let ?m = "0 # 0 # 0 # ATYP_V6 # v6_octets v @ of_nat (unat (sa_port src) div 256) # of_nat (unat (sa_port src)) # data"
    have m: "build_udp_reply src data = ?m" using V6 by (simp add: build_udp_reply_def addr_field_def 2)
    have "udp_target (?m ! 3) ?m 4 = Some (Some (TargetIp (V6 v), 20))"
      by (simp add: udp_target_def ATYP_V4_def ATYP_V6_def slice_of_def)
    moreover have "field16 ?m 20 = Some (sa_port src)" "slice_from ?m 22 = Some data"
      using slice_from_mid [of "0 # 0 # 0 # ATYP_V6 # v6_octets v" "u16_bytes (sa_port src)" data]
      by (simp_all add: field16_def idx_def nth_Cons' nth_append u16_bytes_eq)
    ultimately show ?thesis unfolding m parse_udp_request_def using V6 by (simp add: idx_def)
  qed
qed

lemma udp_header_roundtrip_witness:
  "parse_udp_request (build_udp_reply \<lparr>sa_ip = V4 5, sa_port = 53\<rparr> [1, 2]) = Some (Some (TargetIp (V4 5), 53, [1, 2]))
   \<and> parse_udp_request [0, 0, 1, 1] = Some None"
  using udp_header_roundtrip [of "[]" "\<lparr>sa_ip = V4 5, sa_port = 53\<rparr>" "[1, 2]" 1 0 0 "[1]"] by simp


section \<open>UDP association\<close>

text \<open>\<open>Ipv6Addr::to_ipv4_mapped\<close>: the addresses \<open>::ffff:a.b.c.d\<close>.\<close>

definition to_ipv4_mapped :: "u128 \<Rightarrow> u32 option" where
  "to_ipv4_mapped a = (if drop_bit 32 a = 0xffff then Some (of_nat (unat (take_bit 32 a))) else None)"

definition normalize_ip :: "ip_addr \<Rightarrow> ip_addr" where
  "normalize_ip ip =
     (case ip of
        V6 v6 \<Rightarrow> (case to_ipv4_mapped v6 of Some v4 \<Rightarrow> V4 v4 | None \<Rightarrow> V6 v6)
      | V4 v4 \<Rightarrow> V4 v4)"

definition is_unspecified :: "ip_addr \<Rightarrow> bool" where
  "is_unspecified ip \<longleftrightarrow> ip = V4 0 \<or> ip = V6 0"

definition expected_udp_source :: "socket_addr \<Rightarrow> target \<Rightarrow> ip_addr" where
  "expected_udp_source control_peer requested =
     (case requested of
        TargetIp ip \<Rightarrow> if \<not> is_unspecified ip then normalize_ip ip else normalize_ip (sa_ip control_peer)
      | TargetDomain _ \<Rightarrow> normalize_ip (sa_ip control_peer))"

definition udp_source_allowed :: "ip_addr \<Rightarrow> socket_addr option \<Rightarrow> socket_addr \<Rightarrow> bool" where
  "udp_source_allowed expected_ip latched from \<longleftrightarrow>
     (case latched of Some known \<Rightarrow> known = from | None \<Rightarrow> normalize_ip (sa_ip from) = normalize_ip expected_ip)"

text \<open>
  The routing decision, the system resolver and the resolver through the tunnel; what the loop sent to the tunnel, to
  the direct socket and to the client.
\<close>

record udp_env =
  ue_route :: "host \<Rightarrow> u16 \<Rightarrow> action"
  ue_lookup_host :: "string \<Rightarrow> u16 \<Rightarrow> socket_addr option"
  ue_dns_resolve :: "string \<Rightarrow> ip_addr option"

record udp_assoc =
  ua_client :: "socket_addr option"
  ua_refused :: u64
  ua_to_stack :: "(socket_addr \<times> bytes) list"
  ua_to_direct :: "(socket_addr \<times> bytes) list"
  ua_to_client :: "(socket_addr \<times> bytes) list"

datatype udp_event =
    RelayRecv socket_addr bytes | RelayError
  | StackRecv socket_addr bytes | StackClosed
  | DirectRecv socket_addr bytes | DirectError
  | ControlData | ControlClosed

definition udp_assoc_new :: udp_assoc where
  "udp_assoc_new = \<lparr>ua_client = None, ua_refused = 0, ua_to_stack = [], ua_to_direct = [], ua_to_client = []\<rparr>"

definition forward_datagram :: "udp_env \<Rightarrow> target \<Rightarrow> u16 \<Rightarrow> bytes \<Rightarrow> udp_assoc \<Rightarrow> udp_assoc" where
  "forward_datagram env dst dst_port data st =
     (case ue_route env (host_of dst) dst_port of
        Block \<Rightarrow> st
      | Direct \<Rightarrow>
          (case (case dst of TargetIp ip \<Rightarrow> Some \<lparr>sa_ip = ip, sa_port = dst_port\<rparr> | TargetDomain name \<Rightarrow> ue_lookup_host env name dst_port) of
             Some addr \<Rightarrow> st\<lparr>ua_to_direct := ua_to_direct st @ [(addr, data)]\<rparr>
           | None \<Rightarrow> st)
      | Proxy \<Rightarrow>
          (case (case dst of TargetIp ip \<Rightarrow> Some ip | TargetDomain name \<Rightarrow> ue_dns_resolve env name) of
             Some ip \<Rightarrow> st\<lparr>ua_to_stack := ua_to_stack st @ [(\<lparr>sa_ip = ip, sa_port = dst_port\<rparr>, data)]\<rparr>
           | None \<Rightarrow> st))"

definition on_relay :: "udp_env \<Rightarrow> ip_addr \<Rightarrow> socket_addr \<Rightarrow> bytes \<Rightarrow> udp_assoc \<Rightarrow> udp_assoc rust" where
  "on_relay env expected_ip peer buf st =
     (if \<not> udp_source_allowed expected_ip (ua_client st) peer then Some (st\<lparr>ua_refused := ua_refused st + 1\<rparr>)
      else do {
        let st = (if ua_client st = None then st\<lparr>ua_client := Some peer\<rparr> else st);
        r \<leftarrow> parse_udp_request buf;
        Some (case r of None \<Rightarrow> st | Some (dst, dst_port, data) \<Rightarrow> forward_datagram env dst dst_port data st) })"

definition to_client :: "socket_addr \<Rightarrow> bytes \<Rightarrow> udp_assoc \<Rightarrow> udp_assoc" where
  "to_client src data st =
     (case ua_client st of
        Some c \<Rightarrow> st\<lparr>ua_to_client := ua_to_client st @ [(c, build_udp_reply src data)]\<rparr>
      | None \<Rightarrow> st)"

text \<open>One iteration of the loop; the flag says whether it goes on.\<close>

fun udp_step :: "udp_env \<Rightarrow> ip_addr \<Rightarrow> udp_event \<Rightarrow> udp_assoc \<Rightarrow> (bool \<times> udp_assoc) rust" where
  "udp_step env ex (RelayRecv from buf) st = map_option (\<lambda>st. (True, st)) (on_relay env ex from buf st)"
| "udp_step env ex RelayError st = Some (False, st)"
| "udp_step env ex (StackRecv src data) st = Some (True, to_client src data st)"
| "udp_step env ex StackClosed st = Some (False, st)"
| "udp_step env ex (DirectRecv from data) st = Some (True, to_client from data st)"
| "udp_step env ex DirectError st = Some (True, st)"
| "udp_step env ex ControlData st = Some (True, st)"
| "udp_step env ex ControlClosed st = Some (False, st)"

fun udp_run :: "udp_env \<Rightarrow> ip_addr \<Rightarrow> udp_event list \<Rightarrow> udp_assoc \<Rightarrow> udp_assoc rust" where
  "udp_run env ex [] st = Some st"
| "udp_run env ex (e # es) st = do { (go, st) \<leftarrow> udp_step env ex e st; if go then udp_run env ex es st else Some st }"

text \<open>The event list explains everything that left the relay.\<close>

definition relayed :: "udp_env \<Rightarrow> udp_event list \<Rightarrow> socket_addr \<Rightarrow> action \<Rightarrow> bytes \<Rightarrow> bool" where
  "relayed env evs c act data \<longleftrightarrow>
     (\<exists>buf dst port. RelayRecv c buf \<in> set evs \<and> parse_udp_request buf = Some (Some (dst, port, data))
        \<and> ue_route env (host_of dst) port = act)"

definition assoc_ok :: "udp_env \<Rightarrow> ip_addr \<Rightarrow> udp_event list \<Rightarrow> udp_assoc \<Rightarrow> bool" where
  "assoc_ok env ex evs st \<longleftrightarrow>
     (case ua_client st of
        None \<Rightarrow> ua_to_stack st = [] \<and> ua_to_direct st = [] \<and> ua_to_client st = []
      | Some c \<Rightarrow> normalize_ip (sa_ip c) = normalize_ip ex
          \<and> (\<forall>(to, p) \<in> set (ua_to_client st). to = c)
          \<and> (\<forall>(to, data) \<in> set (ua_to_stack st). relayed env evs c Proxy data)
          \<and> (\<forall>(to, data) \<in> set (ua_to_direct st). relayed env evs c Direct data))"

lemma relayed_mono: "relayed env evs c act data \<Longrightarrow> set evs \<subseteq> set evs' \<Longrightarrow> relayed env evs' c act data"
  unfolding relayed_def by blast

lemma assoc_ok_mono: "assoc_ok env ex evs st \<Longrightarrow> set evs \<subseteq> set evs' \<Longrightarrow> assoc_ok env ex evs' st"
  using relayed_mono [of env evs _ _ _ evs'] unfolding assoc_ok_def by (fastforce split: option.splits)

lemma forward_datagram_ok:
  assumes "assoc_ok env ex evs st" "ua_client st = Some c" "RelayRecv c buf \<in> set evs"
    "parse_udp_request buf = Some (Some (dst, port, data))"
  shows "assoc_ok env ex evs (forward_datagram env dst port data st)"
proof -
  have "relayed env evs c (ue_route env (host_of dst) port) data" using assms(3,4) by (auto simp: relayed_def)
  then show ?thesis using assms(1,2)
    by (auto simp: forward_datagram_def assoc_ok_def split: action.splits option.splits)
qed

lemma on_relay_ok:
  assumes "assoc_ok env ex evs st" "on_relay env ex peer buf st = Some st'" "RelayRecv peer buf \<in> set evs"
  shows "assoc_ok env ex evs st'"
proof (cases "udp_source_allowed ex (ua_client st) peer")
  case False
  then show ?thesis using assms(1,2) by (auto simp: on_relay_def assoc_ok_def split: option.splits)
next
  case True
  define st0 where "st0 = (if ua_client st = None then st\<lparr>ua_client := Some peer\<rparr> else st)"
  have c: "ua_client st0 = Some peer" "assoc_ok env ex evs st0"
    using True assms(1) by (auto simp: st0_def udp_source_allowed_def assoc_ok_def split: option.splits)
  obtain r where "parse_udp_request buf = Some r"
    "st' = (case r of None \<Rightarrow> st0 | Some (dst, port, data) \<Rightarrow> forward_datagram env dst port data st0)"
    using True assms(2) unfolding on_relay_def Let_def st0_def by (auto simp: bind_eq_Some_conv)
  then show ?thesis using c forward_datagram_ok [OF c(2,1) assms(3)] by (auto split: option.split)
qed

lemma udp_step_total: "udp_step env ex e st \<noteq> None"
proof (cases e)
  case (RelayRecv peer buf)
  then show ?thesis using parse_udp_request_total [of buf]
    by (auto simp: on_relay_def Let_def)
qed simp_all

lemma udp_step_ok:
  assumes "assoc_ok env ex evs st" "udp_step env ex e st = Some (go, st')"
  shows "assoc_ok env ex (evs @ [e]) st'"
proof -
  have m: "assoc_ok env ex (evs @ [e]) st" using assms(1) by (rule assoc_ok_mono) auto
  show ?thesis
  proof (cases e)
    case (RelayRecv peer buf)
    then show ?thesis using m assms(2) by (auto intro: on_relay_ok)
  qed (use m assms(2) in \<open>auto simp: to_client_def assoc_ok_def split: option.splits\<close>)
qed

lemma udp_run_ok:
  "assoc_ok env ex evs st \<Longrightarrow> \<exists>st'. udp_run env ex es st = Some st' \<and> assoc_ok env ex (evs @ es) st'"
proof (induction es arbitrary: evs st)
  case (Cons e es)
  obtain go st1 where s: "udp_step env ex e st = Some (go, st1)" using udp_step_total [of env ex e st] by auto
  have ok: "assoc_ok env ex (evs @ [e]) st1" by (rule udp_step_ok [OF Cons.prems s])
  show ?case
  proof (cases go)
    case True
    then show ?thesis using Cons.IH [OF ok] s by simp
  next
    case False
    moreover have "assoc_ok env ex (evs @ e # es) st1" using ok by (rule assoc_ok_mono) auto
    ultimately show ?thesis using s by simp
  qed
qed simp

text \<open>
  C37: a UDP association serves one client only. Whatever datagrams arrive at the relay, from whomever
  and in whatever order, the loop does not panic; the first admitted sender has the expected address
  and is the only one served from then on. Every reply goes to that client; every datagram that
  enters the tunnel, and every datagram sent around it, is the payload of a request that this client
  sent and that the rules assign to the tunnel, or to the direct socket. Blocked requests leave
  nothing behind, and before a client is admitted nothing is sent at all.
\<close>

theorem udp_relay_serves_one_client:
  "\<exists>st. udp_run env ex evs udp_assoc_new = Some st \<and>
     (case ua_client st of
        None \<Rightarrow> ua_to_stack st = [] \<and> ua_to_direct st = [] \<and> ua_to_client st = []
      | Some c \<Rightarrow> normalize_ip (sa_ip c) = normalize_ip ex
          \<and> (\<forall>(to, p) \<in> set (ua_to_client st). to = c)
          \<and> (\<forall>(to, data) \<in> set (ua_to_stack st). relayed env evs c Proxy data)
          \<and> (\<forall>(to, data) \<in> set (ua_to_direct st). relayed env evs c Direct data))"
proof -
  have "assoc_ok env ex [] udp_assoc_new" by (simp add: assoc_ok_def udp_assoc_new_def)
  from udp_run_ok [OF this, of evs] show ?thesis by (simp add: assoc_ok_def)
qed

theorem udp_relay_serves_one_client_witness:
  "\<exists>st. udp_run \<lparr>ue_route = (\<lambda>_ _. Proxy), ue_lookup_host = (\<lambda>_ _. None), ue_dns_resolve = (\<lambda>_. None)\<rparr> (V4 1)
      [RelayRecv \<lparr>sa_ip = V4 1, sa_port = 9\<rparr> [0, 0, 0, 1, 8, 8, 8, 8, 0, 53, 7]] udp_assoc_new = Some st"
  using udp_relay_serves_one_client
    [of "\<lparr>ue_route = (\<lambda>_ _. Proxy), ue_lookup_host = (\<lambda>_ _. None), ue_dns_resolve = (\<lambda>_. None)\<rparr>" "V4 1"
      "[RelayRecv \<lparr>sa_ip = V4 1, sa_port = 9\<rparr> [0, 0, 0, 1, 8, 8, 8, 8, 0, 53, 7]]"]
  by blast

end
