(* ===== verification/HttpProxy.thy ===== *)
theory HttpProxy
  imports SocksServer
begin

text \<open>
  The local HTTP proxy and the gateway client (\<open>socks.rs\<close>): reading a request head in chunks, the
  request line, the authority, and the \<open>CONNECT\<close> exchange with an upstream gateway. The socket is the
  list of chunks that successive reads return, the empty chunk being the end of the stream.
\<close>

definition HTTP_HEAD_LIMIT :: nat where "HTTP_HEAD_LIMIT = 16 * 1024"
definition GATEWAY_HEAD_LIMIT :: nat where "GATEWAY_HEAD_LIMIT = 8192"

definition crlf2 :: bytes where "crlf2 = [13, 10, 13, 10]"

section \<open>The end of a head\<close>

text \<open>\<open>buffer.windows(4).position(..)\<close>.\<close>

fun window_pos :: "bytes \<Rightarrow> nat option" where
  "window_pos [] = None"
| "window_pos (x # xs) = (if take 4 (x # xs) = crlf2 then Some 0 else map_option Suc (window_pos xs))"

definition find_head_end :: "bytes \<Rightarrow> nat option" where
  "find_head_end buffer = map_option (\<lambda>at. at + 4) (window_pos buffer)"

definition window_at :: "bytes \<Rightarrow> nat \<Rightarrow> bool" where
  "window_at xs i \<longleftrightarrow> take 4 (drop i xs) = crlf2"

lemma window_at_length: "window_at xs i \<Longrightarrow> i + 4 \<le> length xs"
  by (drule arg_cong [of _ _ length, OF window_at_def [THEN iffD1]]) (simp add: crlf2_def min_def split: if_splits)

lemma window_pos_None: "window_pos xs = None \<longleftrightarrow> (\<forall>i. \<not> window_at xs i)"
proof (induction xs)
  case Nil
  then show ?case by (simp add: window_at_def crlf2_def)
next
  case (Cons x xs)
  have "(\<forall>i. \<not> window_at (x # xs) i) \<longleftrightarrow> \<not> window_at (x # xs) 0 \<and> (\<forall>i. \<not> window_at xs i)"
    by (metis not0_implies_Suc window_at_def drop_Suc_Cons)
  then show ?case using Cons by (simp add: window_at_def)
qed

lemma window_pos_Some: "window_pos xs = Some i \<longleftrightarrow> window_at xs i \<and> (\<forall>j < i. \<not> window_at xs j)"
proof (induction xs arbitrary: i)
  case Nil
  then show ?case by (simp add: window_at_def crlf2_def)
next
  case (Cons x xs)
  show ?case
  proof (cases i)
    case 0
    then show ?thesis by (auto simp: window_at_def)
  next
    case (Suc k)
    have "(\<forall>j < Suc k. \<not> window_at (x # xs) j) \<longleftrightarrow> \<not> window_at (x # xs) 0 \<and> (\<forall>j < k. \<not> window_at xs j)"
      by (simp only: All_less_Suc2 window_at_def drop_Suc_Cons)
    then show ?thesis using Suc Cons by (auto simp: window_at_def)
  qed
qed

text \<open>Searching only from a point before which there is no terminator.\<close>

lemma window_pos_drop:
  assumes "\<And>j. j < from \<Longrightarrow> \<not> window_at xs j"
  shows "window_pos xs = map_option (\<lambda>p. from + p) (window_pos (drop from xs))"
proof (cases "window_pos (drop from xs)")
  case None
  have "\<not> window_at xs i" for i
  proof (cases "i < from")
    case False
    then have "window_at (drop from xs) (i - from) = window_at xs i" by (simp add: window_at_def)
    then show ?thesis using None by (simp add: window_pos_None)
  qed (simp add: assms)
  then have "window_pos xs = None" by (simp add: window_pos_None)
  then show ?thesis using None by simp
next
  case (Some p)
  have s: "window_at (drop from xs) q = window_at xs (from + q)" for q by (simp add: window_at_def add.commute)
  have "\<not> window_at xs j" if "j < from + p" for j
    using that assms [of j] Some s [of "j - from"] by (cases "j < from") (auto simp: window_pos_Some)
  then have "window_pos xs = Some (from + p)" using Some s by (simp add: window_pos_Some)
  then show ?thesis using Some by simp
qed

lemma window_at_prefix: "window_at (xs @ ys) i \<Longrightarrow> i + 4 \<le> length xs \<Longrightarrow> window_at xs i"
  by (simp add: window_at_def)

section \<open>Reading the head\<close>

fun read_head_loop :: "bytes \<Rightarrow> nat \<Rightarrow> bytes list \<Rightarrow> (bytes \<times> bytes) result option" where
  "read_head_loop head searched [] = None"
| "read_head_loop head searched (chunk # chunks) =
     (if chunk = [] then Some (Inl (ErrOther ''the http client closed before sending a request''))
      else
        let head = head @ chunk; from = searched - 3 in
        case window_pos (drop from head) of
          Some pos \<Rightarrow> Some (Inr (take (from + pos + 4) head, drop (from + pos + 4) head))
        | None \<Rightarrow>
            if length head > HTTP_HEAD_LIMIT then Some (Inl (ErrOther ''http request head too large''))
            else read_head_loop head (length head) chunks)"

definition read_head :: "bytes list \<Rightarrow> (bytes \<times> bytes) result option" where
  "read_head chunks = read_head_loop [] 0 chunks"

text \<open>The reference searches the whole buffer after every read.\<close>

fun read_head_ref :: "bytes \<Rightarrow> bytes list \<Rightarrow> (bytes \<times> bytes) result option" where
  "read_head_ref head [] = None"
| "read_head_ref head (chunk # chunks) =
     (if chunk = [] then Some (Inl (ErrOther ''the http client closed before sending a request''))
      else case find_head_end (head @ chunk) of
          Some e \<Rightarrow> Some (Inr (take e (head @ chunk), drop e (head @ chunk)))
        | None \<Rightarrow>
            if length (head @ chunk) > HTTP_HEAD_LIMIT then Some (Inl (ErrOther ''http request head too large''))
            else read_head_ref (head @ chunk) chunks)"

lemma read_head_loop_ref:
  "window_pos head = None \<Longrightarrow> read_head_loop head (length head) chunks = read_head_ref head chunks"
proof (induction chunks arbitrary: head)
  case (Cons chunk chunks)
  have "\<not> window_at (head @ chunk) j" if "j < length head - 3" for j
    using window_at_prefix [of head chunk j] Cons.prems less_diff_conv [of j "length head" 3] that by (auto simp: window_pos_None)
  then have "window_pos (head @ chunk) = map_option (\<lambda>p. length head - 3 + p) (window_pos (drop (length head - 3) (head @ chunk)))"
    by (rule window_pos_drop)
  then show ?case using Cons.IH [of "head @ chunk"]
    by (auto simp: find_head_end_def Let_def split: option.split)
qed simp

lemma read_head_ref_ok:
  "window_pos head = None \<Longrightarrow> read_head_ref head chunks = Some (Inr (h, p)) \<Longrightarrow>
     \<exists>k. h @ p = head @ concat (take k chunks) \<and> find_head_end (h @ p) = Some (length h)"
proof (induction chunks arbitrary: head)
  case (Cons chunk chunks)
  show ?case
  proof (cases "find_head_end (head @ chunk)")
    case None
    then have "window_pos (head @ chunk) = None" "read_head_ref (head @ chunk) chunks = Some (Inr (h, p))"
      using Cons.prems(2) by (simp_all add: find_head_end_def split: if_splits)
    from Cons.IH [OF this] have "\<exists>k. h @ p = (head @ chunk) @ concat (take k chunks) \<and> find_head_end (h @ p) = Some (length h)" .
    then obtain k where "h @ p = head @ concat (take (Suc k) (chunk # chunks))" "find_head_end (h @ p) = Some (length h)" by auto
    then show ?thesis by blast
  next
    case (Some e)
    then have "e \<le> length (head @ chunk)"
      by (auto simp: find_head_end_def window_pos_Some dest: window_at_length)
    moreover have "h = take e (head @ chunk)" "p = drop e (head @ chunk)"
      using Some Cons.prems(2) by (simp_all del: take_append drop_append split: if_splits)
    ultimately have "h @ p = head @ concat (take 1 (chunk # chunks))" "length h = e"
      by (simp_all del: take_append drop_append)
    then show ?thesis using Some by (intro exI [of _ 1]) auto
  qed
qed simp

text \<open>
  C38: reading a request head in chunks loses nothing. The loop, which looks only at the last three
  bytes of what it has already searched, behaves exactly like one that searches the whole buffer
  after every read, for every way the bytes are cut into reads; and when it succeeds, the head it
  returns together with the surplus is everything read so far, and the head ends with the first
  blank line.
\<close>

theorem read_head_loses_nothing:
  "read_head chunks = read_head_ref [] chunks
   \<and> (read_head chunks = Some (Inr (head, pipelined)) \<longrightarrow>
        (\<exists>k. head @ pipelined = concat (take k chunks)) \<and> find_head_end (head @ pipelined) = Some (length head))"
proof
  show eq: "read_head chunks = read_head_ref [] chunks"
    using read_head_loop_ref [of "[]" chunks] by (simp add: read_head_def)
  show "read_head chunks = Some (Inr (head, pipelined)) \<longrightarrow>
        (\<exists>k. head @ pipelined = concat (take k chunks)) \<and> find_head_end (head @ pipelined) = Some (length head)"
    unfolding eq using read_head_ref_ok [of "[]" chunks head pipelined] by auto
qed

theorem read_head_loses_nothing_witness:
  "find_head_end ([71, 13, 10, 13, 10] @ [9]) = Some (length [71, 13, 10, 13, 10 :: u8])"
proof -
  have "read_head [[71, 13, 10], [13, 10, 9]] = Some (Inr ([71, 13, 10, 13, 10], [9]))"
    by (simp add: read_head_def crlf2_def Let_def HTTP_HEAD_LIMIT_def)
  then show ?thesis using read_head_loses_nothing [of "[[71, 13, 10], [13, 10, 9]]" "[71, 13, 10, 13, 10]" "[9]"] by blast
qed


section \<open>The request line\<close>

record http_request_line =
  hr_method :: string
  hr_authority :: string
  hr_port :: u16
  hr_rewritten :: "string option"

definition parse_u16 :: "string \<Rightarrow> u16 option" where
  "parse_u16 s = map_option of_nat (parse_unsigned 65535 s)"

definition parse_authority :: "string \<Rightarrow> u16 \<Rightarrow> (string \<times> u16) option" where
  "parse_authority raw default_port =
     (let raw = trim raw in
      if raw = [] then None
      else (case strip_prefix ''['' raw of
        Some rest \<Rightarrow> do {
          (host, tail) \<leftarrow> split_once (CHR '']'') rest;
          if host = [] then None
          else (case strip_prefix '':'' tail of
                  Some v \<Rightarrow> map_option (\<lambda>port. (host, port)) (parse_u16 v)
                | None \<Rightarrow> Some (host, default_port)) }
      | None \<Rightarrow>
          (case rsplit_once (CHR '':'') raw of
             Some (host, port) \<Rightarrow>
               if \<not> contains '':'' host then (if host = [] then None else map_option (\<lambda>port. (host, port)) (parse_u16 port))
               else Some (raw, default_port)
           | None \<Rightarrow> Some (raw, default_port))))"

definition crlf :: string where "crlf = [CHR 13, CHR 10]"

definition split_path :: "string \<Rightarrow> string \<times> string" where
  "split_path s = (case split_once (CHR ''/'') s of Some (a, b) \<Rightarrow> (a, CHR ''/'' # b) | None \<Rightarrow> (s, ''/''))"

definition parse_request_line :: "string \<Rightarrow> http_request_line option" where
  "parse_request_line line =
     (case split_whitespace line of
        method # target # rest \<Rightarrow>
          (let version = (case rest of v # _ \<Rightarrow> v | [] \<Rightarrow> ''HTTP/1.1'') in
           if str_eq_ignore_case method ''CONNECT'' then do {
             (authority, port) \<leftarrow> parse_authority target 443;
             Some \<lparr>hr_method = method, hr_authority = authority, hr_port = port, hr_rewritten = None\<rparr> }
           else do {
             without_scheme \<leftarrow> (case strip_prefix ''http://'' target of Some r \<Rightarrow> Some r | None \<Rightarrow> strip_prefix ''HTTP://'' target);
             let (authority_part, path) = split_path without_scheme;
             (authority, port) \<leftarrow> parse_authority authority_part 80;
             Some \<lparr>hr_method = method, hr_authority = authority, hr_port = port,
                   hr_rewritten = Some (method @ '' '' @ path @ '' '' @ version @ crlf)\<rparr> })
      | _ \<Rightarrow> None)"

section \<open>The upstream gateway\<close>

definition proxy_authority :: "string \<Rightarrow> u16 \<Rightarrow> string" where
  "proxy_authority target port =
     (if contains '':'' target \<and> \<not> starts_with ''['' target then ''['' @ target @ '']:'' @ show_nat (unat port)
      else target @ '':'' @ show_nat (unat port))"

definition build_proxy_connect :: "string \<Rightarrow> u16 \<Rightarrow> bytes" where
  "build_proxy_connect target port =
     (let authority = proxy_authority target port
      in as_bytes (''CONNECT '' @ authority @ '' HTTP/1.1'' @ crlf @ ''Host: '' @ authority @ crlf
                   @ ''User-Agent: '' @ UA_REGISTER @ crlf @ crlf))"

fun find_crlf :: "string \<Rightarrow> nat option" where
  "find_crlf [] = None"
| "find_crlf (x # xs) = (if starts_with crlf (x # xs) then Some 0 else map_option Suc (find_crlf xs))"

definition proxy_connect_succeeded :: "bytes \<Rightarrow> bool option" where
  "proxy_connect_succeeded head =
     (let txt = from_utf8_lossy head in do {
        line_end \<leftarrow> find_crlf txt;
        word \<leftarrow> get_at (split_whitespace (take line_end txt)) 1;
        status \<leftarrow> parse_unsigned 65535 word;
        Some (200 \<le> status \<and> status < 300) })"

text \<open>What the gateway does between two reads: a chunk, silence until the timeout, or a close.\<close>

datatype gateway_read = GwChunk bytes | GwTimeout | GwClosed

definition gateway_status :: "bytes \<Rightarrow> string" where
  "gateway_status head = (case lines (from_utf8_lossy head) of [] \<Rightarrow> ''no status'' | l # _ \<Rightarrow> trim l)"

fun gateway_loop :: "string \<Rightarrow> string \<Rightarrow> u16 \<Rightarrow> bytes \<Rightarrow> gateway_read list \<Rightarrow> (bytes \<times> gateway_read list) result option" where
  "gateway_loop proxy authority port head [] = None"
| "gateway_loop proxy authority port head (GwTimeout # reads) =
     Some (Inl (ErrOther (''gateway '' @ proxy @ '' did not answer in time'')))"
| "gateway_loop proxy authority port head (GwClosed # reads) =
     Some (Inl (ErrOther (''gateway '' @ proxy @ '' closed the connection'')))"
| "gateway_loop proxy authority port head (GwChunk chunk # reads) =
     (let head = head @ chunk in
      case find_head_end head of
        Some at \<Rightarrow>
          (case proxy_connect_succeeded head of
             None \<Rightarrow> Some (Inl (ErrOther (''gateway '' @ proxy @ '' sent a malformed response'')))
           | Some False \<Rightarrow>
               Some (Inl (ErrOther (''gateway refused '' @ authority @ '':'' @ show_nat (unat port) @ '' ('' @ gateway_status (take at head) @ '')'')))
           | Some True \<Rightarrow> Some (Inr (drop at head, reads)))
      | None \<Rightarrow>
          if length head > GATEWAY_HEAD_LIMIT then Some (Inl (ErrOther (''gateway '' @ proxy @ '' sent an oversized response head'')))
          else gateway_loop proxy authority port head reads)"

end
