(* ===== verification/Fragment.thy ===== *)
theory Fragment
  imports Text
begin

text \<open>
  The write fragmentation of \<open>fragment.rs\<close>: until the first read, what is written to the stream goes out in
  small chunks of random size with random pauses. The wrapped stream and the random numbers are
  arguments; \<open>random_range\<close> panics on an empty range. Times are milliseconds.
\<close>

section \<open>Configuration\<close>

record fragment_config =
  fc_enabled :: bool
  fc_size_min :: nat
  fc_size_max :: nat
  fc_delay_min_ms :: nat
  fc_delay_max_ms :: nat

definition fragment_disabled :: fragment_config where
  "fragment_disabled = \<lparr>fc_enabled = False, fc_size_min = 1, fc_size_max = 1, fc_delay_min_ms = 0, fc_delay_max_ms = 0\<rparr>"

text \<open>
  Only the ASCII letters matter here: no other character has one of the letters of these words as
  its lower-case form.
\<close>

definition is_truthy :: "string \<Rightarrow> bool" where
  "is_truthy v \<longleftrightarrow> to_lower (trim v) \<in> {''1'', ''true'', ''yes'', ''on''}"

definition parse_u64 :: "string \<Rightarrow> nat option" where
  "parse_u64 s = parse_unsigned 18446744073709551615 s"

definition unwrap_or :: "'a \<Rightarrow> 'a option \<Rightarrow> 'a" where
  "unwrap_or d x = (case x of None \<Rightarrow> d | Some v \<Rightarrow> v)"

definition parse_range :: "string \<Rightarrow> nat \<times> nat \<Rightarrow> nat \<times> nat" where
  "parse_range spec dflt =
     (let spec = trim spec in
      if spec = [] then dflt
      else case split_once CHR ''-'' spec of
             Some (a, b) \<Rightarrow>
               (let lo = unwrap_or (fst dflt) (parse_u64 (trim a));
                    hi = unwrap_or (snd dflt) (parse_u64 (trim b))
                in if hi < lo then (hi, lo) else (lo, hi))
           | None \<Rightarrow> (let v = unwrap_or (fst dflt) (parse_u64 spec) in (v, v)))"

text \<open>\<open>FragmentConfig::from_env\<close>; an absent variable is \<open>None\<close>.\<close>

definition fragment_from_env :: "string option \<Rightarrow> string option \<Rightarrow> string option \<Rightarrow> fragment_config" where
  "fragment_from_env enabled_var size_var delay_var =
     (let enabled = (case enabled_var of None \<Rightarrow> False | Some v \<Rightarrow> is_truthy v);
          (size_min, size_max) = parse_range (unwrap_or [] size_var) (16, 32);
          (delay_min_ms, delay_max_ms) = parse_range (unwrap_or [] delay_var) (2, 10);
          size_min = max size_min 1;
          size_max = max size_max size_min
      in \<lparr>fc_enabled = enabled, fc_size_min = size_min, fc_size_max = size_max,
          fc_delay_min_ms = delay_min_ms, fc_delay_max_ms = max delay_max_ms delay_min_ms\<rparr>)"

section \<open>Picking sizes and pauses\<close>

definition random_range :: "nat \<Rightarrow> nat \<Rightarrow> nat \<Rightarrow> nat rust" where
  "random_range r lo hi = (if lo \<le> hi then Some (lo + r mod (hi - lo + 1)) else None)"

definition pick_chunk_len :: "nat \<Rightarrow> fragment_config \<Rightarrow> nat \<Rightarrow> nat rust" where
  "pick_chunk_len r cfg remaining =
     (let hi = min (max (fc_size_max cfg) 1) remaining;
          lo = min (max (fc_size_min cfg) 1) hi
      in if lo \<ge> hi then Some hi else random_range r lo hi)"

definition pick_delay :: "nat \<Rightarrow> fragment_config \<Rightarrow> nat rust" where
  "pick_delay r cfg =
     (if fc_delay_max_ms cfg = 0 then Some 0
      else if fc_delay_max_ms cfg \<le> fc_delay_min_ms cfg then Some (fc_delay_min_ms cfg)
      else random_range r (fc_delay_min_ms cfg) (fc_delay_max_ms cfg))"

section \<open>The stream\<close>

datatype 'a poll = Pending | Ready 'a

text \<open>\<open>fs_pending_delay\<close> is the instant at which the pause ends.\<close>

record 's fragmenting_stream =
  fs_inner :: 's
  fs_cfg :: fragment_config
  fs_fragmenting :: bool
  fs_pending_delay :: "nat option"

definition fragmenting_stream_new :: "'s \<Rightarrow> fragment_config \<Rightarrow> 's fragmenting_stream" where
  "fragmenting_stream_new inner cfg =
     \<lparr>fs_inner = inner, fs_cfg = cfg, fs_fragmenting = fc_enabled cfg, fs_pending_delay = None\<rparr>"

definition poll_read :: "('s \<Rightarrow> 'r \<times> 's) \<Rightarrow> 's fragmenting_stream \<Rightarrow> 'r \<times> 's fragmenting_stream" where
  "poll_read inner_read fs =
     (case inner_read (fs_inner fs) of (r, s) \<Rightarrow> (r, fs\<lparr>fs_fragmenting := False, fs_inner := s\<rparr>))"

text \<open>The wrapped stream takes some bytes, fails, or is not ready.\<close>

type_synonym ('s, 'e) writer = "bytes \<Rightarrow> 's \<Rightarrow> ('e + nat) poll \<times> 's"

definition poll_write ::
  "('s, 'e) writer \<Rightarrow> nat \<Rightarrow> nat \<Rightarrow> nat \<Rightarrow> bytes \<Rightarrow> 's fragmenting_stream \<Rightarrow> (('e + nat) poll \<times> 's fragmenting_stream) rust" where
  "poll_write inner_write now r1 r2 buf fs =
     (if buf = [] \<or> \<not> fs_fragmenting fs then
        (case inner_write buf (fs_inner fs) of (res, s) \<Rightarrow> Some (res, fs\<lparr>fs_inner := s\<rparr>))
      else if (case fs_pending_delay fs of None \<Rightarrow> False | Some at \<Rightarrow> now < at) then Some (Pending, fs)
      else do {
        let fs = fs\<lparr>fs_pending_delay := None\<rparr>;
        chunk_len \<leftarrow> pick_chunk_len r1 (fs_cfg fs) (length buf);
        chunk \<leftarrow> slice_of buf 0 chunk_len;
        case inner_write chunk (fs_inner fs) of
          (Ready (Inr n), s) \<Rightarrow>
            if n > 0 then do {
              delay \<leftarrow> pick_delay r2 (fs_cfg fs);
              Some (Ready (Inr n),
                    fs\<lparr>fs_inner := s, fs_pending_delay := (if delay \<noteq> 0 then Some (now + delay) else None)\<rparr>) }
            else Some (Ready (Inr n), fs\<lparr>fs_inner := s\<rparr>)
        | (other, s) \<Rightarrow> Some (other, fs\<lparr>fs_inner := s\<rparr>) })"

section \<open>Properties\<close>

lemma range_bound:
  fixes lo hi r :: nat
  assumes "lo \<le> hi"
  shows "lo + r mod (hi - lo + 1) \<le> hi"
proof -
  have "r mod (hi - lo + 1) < hi - lo + 1" by (rule mod_less_divisor) simp
  then have "r mod (hi - lo + 1) \<le> hi - lo" by simp
  then show ?thesis using assms by (simp only: le_diff_conv2 add.commute)
qed

lemma pick_chunk_len_range:
  defines "hi \<equiv> \<lambda>cfg m. min (max (fc_size_max cfg) 1) m" and "lo \<equiv> \<lambda>cfg m. min (max (fc_size_min cfg) 1) (min (max (fc_size_max cfg) 1) m)"
  obtains n where "pick_chunk_len r cfg m = Some n" and "lo cfg m \<le> n" and "n \<le> hi cfg m"
proof -
  have "lo cfg m \<le> hi cfg m" unfolding lo_def hi_def by (rule min.cobounded2)
  moreover have "pick_chunk_len r cfg m
      = (if lo cfg m \<ge> hi cfg m then Some (hi cfg m) else random_range r (lo cfg m) (hi cfg m))"
    by (simp only: pick_chunk_len_def Let_def lo_def hi_def)
  ultimately show ?thesis
    using that range_bound [of "lo cfg m" "hi cfg m" r] by (simp add: random_range_def split: if_splits)
qed

lemma parse_range_ordered: "fst dflt \<le> snd dflt \<Longrightarrow> fst (parse_range spec dflt) \<le> snd (parse_range spec dflt)"
  by (auto simp: parse_range_def Let_def split: option.splits)

text \<open>
  Every configuration read from the environment has a smallest chunk of at least one byte, chunk
  sizes and pauses in order, and for every non-empty write the chunk it picks is between one byte and
  the smaller of the write and the largest chunk, and the pause lies in the configured range.
\<close>

lemma fragment_config_sound:
  assumes "cfg = fragment_from_env enabled_var size_var delay_var" and "0 < remaining"
  shows "1 \<le> fc_size_min cfg \<and> fc_size_min cfg \<le> fc_size_max cfg \<and> fc_delay_min_ms cfg \<le> fc_delay_max_ms cfg
     \<and> (\<exists>n. pick_chunk_len r cfg remaining = Some n \<and> 1 \<le> n \<and> n \<le> remaining \<and> n \<le> fc_size_max cfg
          \<and> min (fc_size_min cfg) remaining \<le> n)
     \<and> (\<exists>d. pick_delay r cfg = Some d \<and> d \<le> fc_delay_max_ms cfg)"
proof -
  have c: "1 \<le> fc_size_min cfg" "fc_size_min cfg \<le> fc_size_max cfg" "fc_delay_min_ms cfg \<le> fc_delay_max_ms cfg"
    unfolding assms(1) by (auto simp: fragment_from_env_def Let_def split: prod.splits)
  note m = range_bound
  obtain n where n: "pick_chunk_len r cfg remaining = Some n"
    "min (max (fc_size_min cfg) 1) (min (max (fc_size_max cfg) 1) remaining) \<le> n"
    "n \<le> min (max (fc_size_max cfg) 1) remaining"
    by (rule pick_chunk_len_range)
  then have "1 \<le> n" "n \<le> remaining" "n \<le> fc_size_max cfg" "min (fc_size_min cfg) remaining \<le> n"
    using c assms(2) by auto
  with n(1) have "\<exists>n. pick_chunk_len r cfg remaining = Some n \<and> 1 \<le> n \<and> n \<le> remaining \<and> n \<le> fc_size_max cfg
      \<and> min (fc_size_min cfg) remaining \<le> n"
    by blast
  moreover have "\<exists>d. pick_delay r cfg = Some d \<and> d \<le> fc_delay_max_ms cfg"
    using c(3) m [of "fc_delay_min_ms cfg" "fc_delay_max_ms cfg" r] by (auto simp: pick_delay_def random_range_def)
  ultimately show ?thesis using c by blast
qed

text \<open>
  A caller that writes a buffer out: it calls \<open>poll_write\<close> with what is left until nothing is left, with any
  clock and random numbers. \<open>taken\<close> collects what the wrapped stream accepted.
\<close>

inductive write_all ::
  "('s, 'e) writer \<Rightarrow> 's fragmenting_stream \<Rightarrow> bytes \<Rightarrow> 's fragmenting_stream \<Rightarrow> bytes \<Rightarrow> bytes list \<Rightarrow> bool" for w where
  wa_start: "write_all w fs buf fs buf []"
| wa_pending: "write_all w fs buf fs' left taken \<Longrightarrow> poll_write w now r1 r2 left fs' = Some (Pending, fs'') \<Longrightarrow>
     write_all w fs buf fs'' left taken"
| wa_some: "write_all w fs buf fs' left taken \<Longrightarrow> left \<noteq> [] \<Longrightarrow>
     poll_write w now r1 r2 left fs' = Some (Ready (Inr n), fs'') \<Longrightarrow>
     write_all w fs buf fs'' (drop n left) (taken @ [take n left])"

definition writer_ok :: "('s, 'e) writer \<Rightarrow> bool" where
  "writer_ok w \<longleftrightarrow> (\<forall>b s n s'. w b s = (Ready (Inr n), s') \<longrightarrow> n \<le> length b)"


lemma pick_chunk_len_bound: "pick_chunk_len r cfg m = Some n \<Longrightarrow> n \<le> m \<and> n \<le> max (fc_size_max cfg) 1"
  by (rule pick_chunk_len_range [of r cfg m]) simp

text \<open>The branch that really fragments.\<close>

lemma poll_write_cases:
  assumes "poll_write w now r1 r2 buf fs = Some (res, fs')"
  obtains (pass) s where "buf = [] \<or> \<not> fs_fragmenting fs" "w buf (fs_inner fs) = (res, s)" "fs' = fs\<lparr>fs_inner := s\<rparr>"
  | (pause) "res = Pending" "fs' = fs"
  | (chunk) k s d where "buf \<noteq> []" "fs_fragmenting fs" "pick_chunk_len r1 (fs_cfg fs) (length buf) = Some k"
      "w (take k buf) (fs_inner fs) = (res, s)" "fs' = fs\<lparr>fs_inner := s, fs_pending_delay := d\<rparr>"
proof (cases "buf = [] \<or> \<not> fs_fragmenting fs")
  case True
  then show ?thesis using assms pass by (auto simp: poll_write_def split: prod.splits)
next
  case False
  show ?thesis
  proof (cases "case fs_pending_delay fs of None \<Rightarrow> False | Some at \<Rightarrow> now < at")
    case True
    then show ?thesis using assms False pause by (auto simp: poll_write_def)
  next
    case ready: False
    obtain k where k: "pick_chunk_len r1 (fs_cfg fs) (length buf) = Some k"
      using assms False ready by (cases "pick_chunk_len r1 (fs_cfg fs) (length buf)") (auto simp: poll_write_def)
    have sl: "slice_of buf 0 k = Some (take k buf)" using pick_chunk_len_bound [OF k] by (simp add: slice_of_def)
    obtain r0 s where w: "w (take k buf) (fs_inner fs) = (r0, s)" by (cases "w (take k buf) (fs_inner fs)")
    have eq: "poll_write w now r1 r2 buf fs =
        (case r0 of Ready (Inr n) \<Rightarrow>
            (if n > 0 then do {
               delay \<leftarrow> pick_delay r2 (fs_cfg fs);
               Some (Ready (Inr n), fs\<lparr>fs_inner := s, fs_pending_delay := (if delay \<noteq> 0 then Some (now + delay) else None)\<rparr>) }
             else Some (Ready (Inr n), fs\<lparr>fs_inner := s, fs_pending_delay := None\<rparr>))
         | _ \<Rightarrow> Some (r0, fs\<lparr>fs_inner := s, fs_pending_delay := None\<rparr>))"
      using False ready by (simp add: poll_write_def k sl w split: poll.splits sum.splits)
    have "res = r0 \<and> (\<exists>d. fs' = fs\<lparr>fs_inner := s, fs_pending_delay := d\<rparr>)"
      using assms unfolding eq by (auto simp: bind_eq_Some_conv split: poll.splits sum.splits if_splits)
    then show ?thesis using False k w chunk by blast
  qed
qed

lemma poll_write_config:
  "poll_write w now r1 r2 buf fs = Some (res, fs') \<Longrightarrow> fs_cfg fs' = fs_cfg fs \<and> fs_fragmenting fs' = fs_fragmenting fs"
  by (erule poll_write_cases) auto

lemma poll_write_taken:
  assumes "writer_ok w" and "poll_write w now r1 r2 buf fs = Some (Ready (Inr n), fs')"
    and "fs_fragmenting fs" and "buf \<noteq> []"
  shows "n \<le> length buf \<and> n \<le> max (fc_size_max (fs_cfg fs)) 1"
  using assms(2)
proof (cases rule: poll_write_cases)
  case (chunk k s d)
  from assms(1) chunk(4) have "n \<le> length (take k buf)" unfolding writer_ok_def by blast
  with pick_chunk_len_bound [OF chunk(3)] show ?thesis by auto
qed (use assms(3,4) in auto)

lemma write_all_inv:
  assumes "writer_ok w"
  shows "write_all w fs buf fs' left taken \<Longrightarrow> fs_fragmenting fs \<Longrightarrow>
     concat taken @ left = buf \<and> fs_cfg fs' = fs_cfg fs \<and> fs_fragmenting fs'
     \<and> (\<forall>c\<in>set taken. length c \<le> max (fc_size_max (fs_cfg fs)) 1)"
proof (induction rule: write_all.induct)
  case (wa_pending fs buf fs' left taken now r1 r2 fs'')
  then show ?case using poll_write_config by fastforce
next
  case (wa_some fs buf fs' left taken now r1 r2 n fs'')
  then have "n \<le> length left \<and> n \<le> max (fc_size_max (fs_cfg fs)) 1"
    using poll_write_taken [OF assms] by metis
  with wa_some poll_write_config [OF wa_some.hyps(3)] show ?case by auto
qed simp

lemma pick_delay_total: "pick_delay r cfg \<noteq> None"
  by (simp add: pick_delay_def random_range_def)

lemma poll_write_total: "poll_write w now r1 r2 buf fs \<noteq> None"
proof -
  obtain k where k: "pick_chunk_len r1 (fs_cfg fs) (length buf) = Some k" by (rule pick_chunk_len_range)
  have "slice_of buf 0 k = Some (take k buf)" using pick_chunk_len_bound [OF k] by (simp add: slice_of_def)
  then show ?thesis using k pick_delay_total [of r2 "fs_cfg fs"]
    by (cases "w (take k buf) (fs_inner fs)")
      (auto simp: poll_write_def Let_def split: prod.split poll.split sum.split option.split)
qed


text \<open>A wrapped stream that accepts everything and remembers it.\<close>

definition sink :: "(bytes, unit) writer" where
  "sink b s = (Ready (Inr (length b)), s @ b)"


end
