(* ===== verification/Apifront.thy ===== *)
theory Apifront
  imports HttpProxy Fragment
begin

text \<open>
  The client for the provider's API (\<open>apifront.rs\<close>): the request it writes, the addresses and TLS
  profiles it tries in turn, and the parser of the answer with the reassembly of a chunked body. A
  \<open>str\<close> may only be cut between characters, so slices of the text go through \<open>str_slice\<close>, which makes
  the panic visible. All addresses are IPv4; connections, TLS and random draws are parameters.
\<close>

section \<open>Requests and routes\<close>

definition EDGE_PREFIX :: "u8 list" where "EDGE_PREFIX = [141, 101, 113]"
definition EDGE_SAMPLES :: nat where "EDGE_SAMPLES = 3"
definition RESOLVED_SAMPLES :: nat where "RESOLVED_SAMPLES = 2"
definition MAX_BODY :: nat where "MAX_BODY = 512 * 1024"

datatype fingerprint = SplitLegacy | Modern | ChromeLike

definition fingerprint_label :: "fingerprint \<Rightarrow> string" where
  "fingerprint_label f = (case f of SplitLegacy \<Rightarrow> ''split-tls12'' | Modern \<Rightarrow> ''plain-tls13'' | ChromeLike \<Rightarrow> ''chrome'')"

definition fingerprint_all :: "fingerprint list" where
  "fingerprint_all = [SplitLegacy, Modern, ChromeLike]"

definition fingerprint_fragments :: "fingerprint \<Rightarrow> fragment_config" where
  "fingerprint_fragments f = (case f of
       SplitLegacy \<Rightarrow> \<lparr>fc_enabled = True, fc_size_min = 24, fc_size_max = 48, fc_delay_min_ms = 2, fc_delay_max_ms = 8\<rparr>
     | _ \<Rightarrow> fragment_disabled)"

record api_request =
  rq_method :: string
  rq_host :: string
  rq_path :: string
  rq_headers :: "(string \<times> string) list"
  rq_body :: "bytes option"

record api_response =
  rs_status :: nat
  rs_body :: string
  rs_route :: string

type_synonym edge_addr = "u32 \<times> u16"

definition show_edge :: "edge_addr \<Rightarrow> string" where
  "show_edge a = show_v4 (fst a) @ '':'' @ show_nat (unat (snd a))"

definition random_edge_address :: "u8 \<Rightarrow> edge_addr" where
  "random_edge_address host = (v4_new (EDGE_PREFIX ! 0) (EDGE_PREFIX ! 1) (EDGE_PREFIX ! 2) host, 443)"

text \<open>The draws are a list; \<open>None\<close> when it ends before three different addresses came up.\<close>

fun edge_loop :: "edge_addr list \<Rightarrow> u8 list \<Rightarrow> edge_addr list option" where
  "edge_loop out [] = (if length out < EDGE_SAMPLES then None else Some out)"
| "edge_loop out (h # hs) =
     (if length out < EDGE_SAMPLES then
        edge_loop (if random_edge_address h \<in> set out then out else out @ [random_edge_address h]) hs
      else Some out)"

definition candidates :: "u8 list \<Rightarrow> edge_addr list option \<Rightarrow> edge_addr list option" where
  "candidates draws resolved = do {
     out \<leftarrow> edge_loop [] draws;
     Some (fold (\<lambda>a out. if a \<in> set out then out else out @ [a])
       (case resolved of None \<Rightarrow> [] | Some rs \<Rightarrow> take RESOLVED_SAMPLES rs) out) }"

definition render_request :: "api_request \<Rightarrow> bytes" where
  "render_request rq =
     as_bytes (rq_method rq @ '' '' @ rq_path rq @ '' HTTP/1.1'' @ crlf
       @ ''Host: '' @ rq_host rq @ crlf
       @ concat (map (\<lambda>(name, value). name @ '': '' @ value @ crlf) (rq_headers rq))
       @ ''Accept-Encoding: identity'' @ crlf
       @ ''Content-Length: '' @ show_nat (case rq_body rq of None \<Rightarrow> 0 | Some b \<Rightarrow> length b) @ crlf
       @ ''Connection: close'' @ crlf @ crlf)
     @ (case rq_body rq of None \<Rightarrow> [] | Some b \<Rightarrow> b)"

section \<open>Responses\<close>

definition char_boundary :: "string \<Rightarrow> nat \<Rightarrow> bool" where
  "char_boundary s i \<longleftrightarrow> i = 0 \<or> i = length s \<or> (i < length s \<and> \<not> is_cont (of_nat (of_char (s ! i))))"

definition str_slice :: "string \<Rightarrow> nat \<Rightarrow> nat \<Rightarrow> string rust" where
  "str_slice s a b =
     (if a \<le> b \<and> b \<le> length s \<and> char_boundary s a \<and> char_boundary s b then Some (take (b - a) (drop a s)) else None)"

fun find_str :: "string \<Rightarrow> string \<Rightarrow> nat option" where
  "find_str pat [] = (if pat = [] then Some 0 else None)"
| "find_str pat (x # xs) = (if starts_with pat (x # xs) then Some 0 else map_option Suc (find_str pat xs))"

text \<open>\<open>usize::from_str_radix(token, 16)\<close>.\<close>

definition parse_hex_usize :: "string \<Rightarrow> nat option" where
  "parse_hex_usize s =
     (let ds = (case s of CHR ''+'' # r \<Rightarrow> r | _ \<Rightarrow> s);
          v = foldl (\<lambda>acc c. acc * 16 + (case to_digit 16 c of Some d \<Rightarrow> d | None \<Rightarrow> 0)) 0 ds
      in if ds = [] \<or> list_ex (\<lambda>c. to_digit 16 c = None) ds \<or> v \<ge> 2 ^ 64 then None else Some v)"

text \<open>
  The loop over the chunks. The sum that gives the end of a chunk wraps at 64 bits; when it does, the
  end lies before the start and the slice panics.
\<close>

function dechunk_loop :: "string \<Rightarrow> nat \<Rightarrow> string \<Rightarrow> string rust" where
  "dechunk_loop body cursor out =
     (if cursor < length body then do {
        rest \<leftarrow> str_slice body cursor (length body);
        case find_str crlf rest of
          None \<Rightarrow> Some out
        | Some offset \<Rightarrow> do {
            line \<leftarrow> str_slice body cursor (cursor + offset);
            (case parse_hex_usize (trim (hd (split_char CHR '';'' line))) of
               None \<Rightarrow> Some out
             | Some n \<Rightarrow>
                 if n = 0 then Some out
                 else if (cursor + offset + 2 + n) mod 2 ^ 64 > length body then Some out
                 else do {
                   chunk \<leftarrow> str_slice body (cursor + offset + 2) ((cursor + offset + 2 + n) mod 2 ^ 64);
                   dechunk_loop body ((cursor + offset + 2 + n) mod 2 ^ 64 + 2) (out @ chunk) }) } }
      else Some out)"
  by pat_completeness auto
termination
  by (relation "measure (\<lambda>(body, cursor, _). length body - cursor)") (auto simp: str_slice_def split: if_splits)

declare dechunk_loop.simps [simp del]

definition dechunk :: "string \<Rightarrow> string rust" where
  "dechunk body = dechunk_loop body 0 []"

definition is_chunked_header :: "(string \<Rightarrow> string) \<Rightarrow> string \<Rightarrow> bool" where
  "is_chunked_header lower line =
     (let lowered = lower line in starts_with ''transfer-encoding:'' lowered \<and> contains ''chunked'' lowered)"

text \<open>The separator is found at a character boundary, so the two slices around it are total.\<close>

definition parse_response :: "(string \<Rightarrow> string) \<Rightarrow> bytes \<Rightarrow> (nat \<times> string) result rust" where
  "parse_response lower raw =
     (let txt = from_utf8_lossy raw in
      case find_str (crlf @ crlf) txt of
        None \<Rightarrow> Some (Inl (ErrApi ''truncated response head''))
      | Some at \<Rightarrow>
          let body = drop (at + 4) txt; lines = split_str crlf (take at txt); status_line = hd lines in
          (case do { token \<leftarrow> get_at (split_whitespace status_line) 1; parse_unsigned 65535 token } of
             None \<Rightarrow> Some (Inl (ErrApi (''bad status line: '' @ status_line)))
           | Some status \<Rightarrow>
               if list_ex (is_chunked_header lower) (tl lines)
               then do { body \<leftarrow> dechunk body; Some (Inr (status, body)) }
               else Some (Inr (status, body))))"

section \<open>Trying the routes\<close>

datatype exchange_io =
    ConnectTimeout | ConnectError string | ConfigError aether_error | HandshakeTimeout | HandshakeError string
  | Http2 | ExchangeTimeout | ExchangeError string | Exchanged "bytes list"

fun collect_body :: "bytes \<Rightarrow> bytes list \<Rightarrow> bytes" where
  "collect_body buffer [] = buffer"
| "collect_body buffer (chunk # chunks) =
     (if chunk = [] then buffer
      else let buffer = buffer @ chunk in if length buffer > MAX_BODY then buffer else collect_body buffer chunks)"

definition exchange :: "(string \<Rightarrow> string) \<Rightarrow> exchange_io \<Rightarrow> edge_addr \<Rightarrow> fingerprint \<Rightarrow> api_response result rust" where
  "exchange lower io address fingerprint =
     (let fail = (\<lambda>t. Some (Inl (ErrApi t))); at = show_edge address in
      case io of
        ConnectTimeout \<Rightarrow> fail (''connect to '' @ at @ '' timed out'')
      | ConnectError e \<Rightarrow> fail (''connect to '' @ at @ '': '' @ e)
      | ConfigError e \<Rightarrow> Some (Inl e)
      | HandshakeTimeout \<Rightarrow> fail (''tls handshake with '' @ at @ '' timed out'')
      | HandshakeError e \<Rightarrow> fail (''tls handshake with '' @ at @ '': '' @ e)
      | Http2 \<Rightarrow> fail (at @ '' negotiated http/2 which this path does not speak'')
      | ExchangeTimeout \<Rightarrow> fail (''exchange with '' @ at @ '' timed out'')
      | ExchangeError e \<Rightarrow> fail (''exchange with '' @ at @ '': '' @ e)
      | Exchanged chunks \<Rightarrow> do {
          r \<leftarrow> parse_response lower (collect_body [] chunks);
          Some (case r of
             Inl e \<Rightarrow> Inl e
           | Inr (status, body) \<Rightarrow>
               Inr \<lparr>rs_status = status, rs_body = body, rs_route = at @ '' / '' @ fingerprint_label fingerprint\<rparr>) })"

fun fetch_loop ::
  "(fingerprint \<times> edge_addr \<Rightarrow> api_response result rust) \<Rightarrow> (fingerprint \<times> edge_addr) list \<Rightarrow> api_response option
     \<Rightarrow> aether_error option \<Rightarrow> api_response result rust" where
  "fetch_loop attempt [] rejection failure =
     Some (case rejection of
        Some response \<Rightarrow> Inr response
      | None \<Rightarrow> Inl (case failure of Some e \<Rightarrow> e | None \<Rightarrow> ErrApi ''every camouflaged route failed''))"
| "fetch_loop attempt (x # xs) rejection failure = do {
     r \<leftarrow> attempt x;
     case r of
       Inr response \<Rightarrow>
         if 200 \<le> rs_status response \<and> rs_status response < 300 then Some (Inr response)
         else fetch_loop attempt xs (if rejection = None \<or> rs_status response \<noteq> 403 then Some response else rejection) failure
     | Inl e \<Rightarrow> fetch_loop attempt xs rejection (Some e) }"

definition fetch :: "(fingerprint \<times> edge_addr \<Rightarrow> api_response result rust) \<Rightarrow> edge_addr list \<Rightarrow> api_response result rust" where
  "fetch attempt addresses =
     (if addresses = [] then Some (Inl (ErrApi ''no camouflaged route to the api was available''))
      else fetch_loop attempt (concat (map (\<lambda>f. map (\<lambda>a. (f, a)) addresses) fingerprint_all)) None None)"

section \<open>Chunked bodies\<close>

definition starts_char :: "string \<Rightarrow> bool" where
  "starts_char s \<longleftrightarrow> s = [] \<or> \<not> is_cont (of_nat (of_char (hd s)))"

lemma char_boundary_app: "starts_char b \<Longrightarrow> char_boundary (a @ b) (length a)"
  by (cases b) (auto simp: char_boundary_def starts_char_def)

lemma str_slice_mid:
  assumes "body = a @ b @ c" "starts_char (b @ c)" "starts_char c"
  shows "str_slice body (length a) (length a + length b) = Some b"
proof -
  have "char_boundary body (length a)" using assms(1,2) char_boundary_app by simp
  moreover have "char_boundary body (length a + length b)" using assms(1,3) char_boundary_app [of c "a @ b"] by simp
  ultimately show ?thesis using assms(1) by (simp add: str_slice_def)
qed

lemma str_slice_rest: "body = a @ b \<Longrightarrow> starts_char b \<Longrightarrow> str_slice body (length a) (length body) = Some b"
  using str_slice_mid [of body a b "[]"] by (simp add: starts_char_def)

lemma crlf_simps [simp]: "length crlf = 2" "crlf \<noteq> []" "starts_char (crlf @ s)" "starts_with crlf (crlf @ s)"
  by (simp_all add: crlf_def starts_char_def starts_with_def is_cont_def)

lemma find_str_skip:
  "pat \<noteq> [] \<Longrightarrow> hd pat \<notin> set l \<Longrightarrow> find_str pat (l @ rest) = map_option ((+) (length l)) (find_str pat rest)"
proof (induction l)
  case (Cons x l)
  then have "\<not> starts_with pat (x # l @ rest)" by (cases pat) (auto simp: starts_with_def)
  then show ?case using Cons by (simp add: option.map_comp o_def)
qed (simp add: option.map_ident_strong)

lemma find_str_here: "pat \<noteq> [] \<Longrightarrow> find_str pat (pat @ rest) = Some 0"
  by (cases pat) (auto simp: starts_with_def)

lemma find_crlf_line: "CHR 13 \<notin> set l \<Longrightarrow> find_str crlf (l @ crlf @ rest) = Some (length l)"
  using find_str_skip [of crlf l] find_str_here [of crlf rest] by (simp add: crlf_def)

text \<open>A chunk: its size line, with the size in any spelling and perhaps extensions, and its data.\<close>

definition chunk_size :: "string \<Rightarrow> nat option" where
  "chunk_size line = parse_hex_usize (trim (hd (split_char CHR '';'' line)))"

definition chunk_ok :: "string \<times> string \<Rightarrow> bool" where
  "chunk_ok c \<longleftrightarrow> CHR 13 \<notin> set (fst c) \<and> starts_char (fst c @ crlf) \<and> chunk_size (fst c) = Some (length (snd c))
     \<and> snd c \<noteq> [] \<and> starts_char (snd c)"

definition chunk_enc :: "string \<times> string \<Rightarrow> string" where
  "chunk_enc c = fst c @ crlf @ snd c @ crlf"

definition last_chunk_ok :: "string \<Rightarrow> bool" where
  "last_chunk_ok line \<longleftrightarrow> CHR 13 \<notin> set line \<and> starts_char (line @ crlf) \<and> chunk_size line = Some 0"

lemma starts_char_app: "starts_char (a @ b) \<Longrightarrow> b \<noteq> [] \<Longrightarrow> starts_char (a @ b @ c)"
  by (cases a; cases b) (auto simp: starts_char_def)

lemma dechunk_step:
  assumes "body = pre @ line @ crlf @ rest" "CHR 13 \<notin> set line" "starts_char (line @ crlf)"
  shows "dechunk_loop body (length pre) out =
     (case chunk_size line of
        None \<Rightarrow> Some out
      | Some n \<Rightarrow>
          if n = 0 then Some out
          else let start = length pre + length line + 2; end' = (start + n) mod 2 ^ 64 in
               if end' > length body then Some out
               else do { chunk \<leftarrow> str_slice body start end'; dechunk_loop body (end' + 2) (out @ chunk) })"
proof -
  have c: "length pre < length body" by (simp add: assms(1))
  have l: "starts_char (line @ crlf @ rest)" using starts_char_app [OF assms(3)] by simp
  have r: "str_slice body (length pre) (length body) = Some (line @ crlf @ rest)" by (rule str_slice_rest [OF assms(1) l])
  have f: "find_str crlf (line @ crlf @ rest) = Some (length line)" by (rule find_crlf_line [OF assms(2)])
  have "str_slice body (length pre) (length pre + length line) = Some line" by (rule str_slice_mid [OF assms(1) l]) simp
  then show ?thesis
    by (subst dechunk_loop.simps) (simp add: c r f chunk_size_def Let_def split: option.split)
qed

lemma dechunk_chunks:
  assumes "list_all chunk_ok cs" "last_chunk_ok l" "body = pre @ concat (map chunk_enc cs) @ l @ crlf @ tail" "length body < 2 ^ 64"
  shows "dechunk_loop body (length pre) out = Some (out @ concat (map snd cs))"
  using assms
proof (induction cs arbitrary: pre out)
  case Nil
  then show ?case using dechunk_step [of body pre l tail out] by (simp add: last_chunk_ok_def)
next
  case (Cons c cs)
  obtain line data where c: "c = (line, data)" by (cases c)
  have ok: "CHR 13 \<notin> set line" "starts_char (line @ crlf)" "chunk_size line = Some (length data)" "data \<noteq> []" "starts_char data"
    using Cons.prems(1) c by (simp_all add: chunk_ok_def)
  let ?rest = "concat (map chunk_enc cs) @ l @ crlf @ tail" and ?pre = "pre @ line @ crlf"
  have b: "body = pre @ line @ crlf @ (data @ crlf @ ?rest)" using Cons.prems(3) by (simp add: c chunk_enc_def [of "(line, data)"])
  have e: "(length pre + length line + 2 + length data) mod 2 ^ 64 = length pre + length line + 2 + length data"
    using Cons.prems(4) b by simp
  have s: "str_slice body (length ?pre) (length ?pre + length data) = Some data"
    using ok(4,5) b starts_char_app [of "[]" data] by (intro str_slice_mid [of _ _ _ "crlf @ ?rest"]) simp_all
  have "dechunk_loop body (length (?pre @ data @ crlf)) (out @ data) = Some ((out @ data) @ concat (map snd cs))"
    using Cons.prems b by (intro Cons.IH) simp_all
  then show ?case
    using dechunk_step [OF b ok(1,2), of out] ok(3,4) e s b c by (simp add: Let_def add.assoc)
qed

section \<open>The head of a response\<close>

fun join_lines :: "string list \<Rightarrow> string" where
  "join_lines [] = []"
| "join_lines [l] = l"
| "join_lines (l # ls) = l @ crlf @ join_lines ls"

definition line_ok :: "string \<Rightarrow> bool" where
  "line_ok l \<longleftrightarrow> l \<noteq> [] \<and> CHR 13 \<notin> set l"

lemma join_lines_Cons: "ls \<noteq> [] \<Longrightarrow> join_lines (l # ls) = l @ crlf @ join_lines ls"
  by (cases ls) simp_all

lemma find_head_sep:
  "list_all line_ok ls \<Longrightarrow> ls \<noteq> [] \<Longrightarrow> find_str (crlf @ crlf) (join_lines ls @ crlf @ crlf @ body) = Some (length (join_lines ls))"
proof (induction ls)
  case (Cons l ls)
  have l: "CHR 13 \<notin> set l" using Cons.prems(1) by (simp add: line_ok_def)
  have skip: "find_str (crlf @ crlf) (l @ rest) = map_option ((+) (length l)) (find_str (crlf @ crlf) rest)" for rest
    using l by (intro find_str_skip) (simp_all add: crlf_def)
  show ?case
  proof (cases "ls = []")
    case True
    then show ?thesis using skip find_str_here [of "crlf @ crlf" body] by simp
  next
    case False
    then obtain x xs ls' where ls: "ls = (x # xs) # ls'" using Cons.prems(1) by (cases ls; cases "hd ls") (auto simp: line_ok_def)
    then have "x \<noteq> CHR 13" using Cons.prems(1) by (auto simp: line_ok_def)
    moreover obtain ys where "join_lines ls @ crlf @ crlf @ body = x # ys" using ls by (cases ls') auto
    ultimately have "find_str (crlf @ crlf) (crlf @ join_lines ls @ crlf @ crlf @ body)
        = map_option ((+) 2) (find_str (crlf @ crlf) (join_lines ls @ crlf @ crlf @ body))"
      by (simp add: crlf_def starts_with_def option.map_comp o_def)
    then show ?thesis using Cons False skip by (simp add: join_lines_Cons)
  qed
qed simp

lemma split_str_line:
  "CHR 13 \<notin> set l \<Longrightarrow> split_str_acc crlf 0 acc (l @ crlf @ rest) = (rev acc @ l) # split_str_acc crlf 0 [] rest"
  "CHR 13 \<notin> set l \<Longrightarrow> split_str_acc crlf 0 acc l = [rev acc @ l]"
  by (induction l arbitrary: acc) (auto simp: crlf_def starts_with_def)

lemma split_head: "list_all line_ok ls \<Longrightarrow> ls \<noteq> [] \<Longrightarrow> split_str crlf (join_lines ls) = ls"
  unfolding split_str_def
proof (induction ls)
  case (Cons l ls)
  then show ?case by (cases "ls = []") (auto simp: line_ok_def split_str_line join_lines_Cons)
qed simp

definition status_of :: "string \<Rightarrow> nat option" where
  "status_of line = do { token \<leftarrow> get_at (split_whitespace line) 1; parse_unsigned 65535 token }"

lemma parse_response_head:
  assumes "from_utf8_lossy raw = join_lines (sl # hs) @ crlf @ crlf @ body" "list_all line_ok (sl # hs)" "status_of sl = Some status"
  shows "parse_response lower raw =
     (if list_ex (is_chunked_header lower) hs then do { body \<leftarrow> dechunk body; Some (Inr (status, body)) } else Some (Inr (status, body)))"
proof -
  have "find_str (crlf @ crlf) (join_lines (sl # hs) @ crlf @ crlf @ body) = Some (length (join_lines (sl # hs)))"
    by (rule find_head_sep [OF assms(2)]) simp
  moreover have "split_str crlf (join_lines (sl # hs)) = sl # hs" by (rule split_head [OF assms(2)]) simp
  moreover have "drop (length (join_lines (sl # hs)) + 4) (join_lines (sl # hs) @ crlf @ crlf @ body) = body"
    by (simp add: crlf_def)
  ultimately show ?thesis
    using assms(3) by (simp add: parse_response_def assms(1) status_of_def Let_def del: join_lines.simps)
qed

text \<open>
  The answer of the API is read back exactly. For a response in valid UTF-8 with any status line and
  headers, the status is returned together with the body; if a header announces the chunked encoding and
  the body is any sequence of chunks, with sizes in any spelling, each of them starting with a whole
  character, then a last chunk and any trailer, the body that is returned is the concatenation of their data.
\<close>

lemma chunked_response_roundtrip:
  assumes "list_all line_ok (sl # hs)" "status_of sl = Some status" "list_all chunk_ok cs" "last_chunk_ok l"
    and "body = concat (map chunk_enc cs) @ l @ crlf @ tail" "length body < 2 ^ 64"
    and "raw = as_bytes (join_lines (sl # hs) @ crlf @ crlf @ body)" "utf8_valid raw"
  shows "parse_response lower raw =
     Some (Inr (status, if list_ex (is_chunked_header lower) hs then concat (map snd cs) else body))"
proof -
  have "from_utf8_lossy raw = join_lines (sl # hs) @ crlf @ crlf @ body"
    using utf8_lossy_valid [OF assms(8)] by (simp only: from_utf8_lossy_def assms(7) bytes_str_as_bytes)
  note parse_response_head [OF this assms(1,2), of lower]
  moreover have "dechunk body = Some (concat (map snd cs))"
    using dechunk_chunks [OF assms(3,4), of body "[]" tail "[]"] assms(5,6) by (simp add: dechunk_def)
  ultimately show ?thesis by simp
qed

lemma chunked_response_roundtrip_witness:
  "parse_response to_lower (as_bytes (''HTTP/1.1 200 OK'' @ crlf @ ''Transfer-Encoding: chunked'' @ crlf @ crlf
      @ ''3'' @ crlf @ ''abc'' @ crlf @ ''02;x'' @ crlf @ ''de'' @ crlf @ ''0'' @ crlf @ crlf)) = Some (Inr (200, ''abcde''))"
proof -
  let ?sl = "''HTTP/1.1 200 OK''" and ?hs = "[''Transfer-Encoding: chunked'']" and ?cs = "[(''3'', ''abc''), (''02;x'', ''de'')]"
  let ?body = "concat (map chunk_enc ?cs) @ ''0'' @ crlf @ crlf"
  let ?raw = "as_bytes (join_lines (?sl # ?hs) @ crlf @ crlf @ ?body)"
  have 1: "list_all line_ok (?sl # ?hs)" by code_simp
  have t: "trim ''3'' = ''3''" "trim ''02'' = ''02''" "trim ''0'' = ''0''" by (simp_all add: trim_id as_bytes_def)
  have ch: "char_of (50::nat) = CHR ''2''" "char_of (48::nat) = CHR ''0''" by code_simp+
  have 2: "status_of ?sl = Some 200"
    by (simp add: ch status_of_def split_whitespace_def white_space_def as_bytes_def bytes_str_def get_at_def parse_unsigned_def is_digit_def)
  have 3: "list_all chunk_ok ?cs" "last_chunk_ok ''0''"
    by (simp_all add: chunk_ok_def last_chunk_ok_def chunk_size_def t parse_hex_usize_def to_digit_def starts_char_def is_cont_def)
  have 4: "length ?body < 2 ^ 64" by (simp add: chunk_enc_def)
  have "ascii ?raw" by (simp add: ascii_def as_bytes_def chunk_enc_def crlf_def)
  then have 5: "utf8_valid ?raw" using utf8_ascii by blast
  have "list_ex (is_chunked_header to_lower) ?hs" by code_simp
  with chunked_response_roundtrip [OF 1 2 3 refl 4 refl 5, of to_lower] show ?thesis by (simp add: chunk_enc_def)
qed

section \<open>A character cut in two\<close>

lemma utf8_lossy_app: "ascii xs \<Longrightarrow> utf8_lossy (xs @ ys) = xs @ utf8_lossy ys"
proof (induction xs)
  case (Cons x xs)
  then have "utf8_step (x # xs @ ys) = (1, True)" by (simp add: ascii_def utf8_step_def byte_at_def)
  with Cons show ?case by (simp add: ascii_def utf8_lossy.simps [of "x # xs @ ys"])
qed simp

lemma utf8_lossy_broken:
  assumes "0xC2 \<le> b" "b \<le> 0xDF" "\<not> is_cont x"
  shows "utf8_lossy (b # x # ys) = [0xEF, 0xBF, 0xBD] @ utf8_lossy (x # ys)"
proof -
  have "\<not> b < 128" using assms(1) by (auto simp: word_less_nat_alt word_le_nat_alt)
  then have "utf8_step (b # x # ys) = (1, False)" using assms by (simp add: utf8_step_def byte_at_def Let_def)
  then show ?thesis by (simp add: utf8_lossy.simps [of "b # x # ys"])
qed

lemma bytes_str_append: "bytes_str (a @ b) = bytes_str a @ bytes_str b"
  by (simp add: bytes_str_def)

lemma cut_inside_char:
  assumes "body = a @ d @ bytes_str [0xEF, 0xBF, 0xBD] @ c"
  shows "str_slice body (length a) (length a + length d + 1) = None"
proof -
  have "body ! (length a + length d + 1) = bytes_str [0xEF, 0xBF, 0xBD] ! 1"
    by (simp add: assms nth_append bytes_str_def)
  then have "is_cont (of_nat (of_char (body ! (length a + length d + 1))))"
    by (simp add: bytes_str_def is_cont_def)
  moreover have "length a + length d + 1 < length body" by (simp add: assms)
  ultimately show ?thesis by (simp add: str_slice_def char_boundary_def)
qed

text \<open>
  A chunked answer whose chunks cut a character in two brings the client down. Chunks are measured
  in bytes, so a server may end a chunk after the first byte of a two-byte character. For every such
  response, whatever its headers, whatever precedes that byte in the first chunk and whatever follows,
  the parser panics: the text was repaired before the chunks were taken apart, so the end of the
  chunk now falls inside a replacement character.
\<close>

lemma split_character_panics:
  assumes "list_all line_ok (sl # hs)" "status_of sl = Some status" "list_ex (is_chunked_header lower) hs"
    and "CHR 13 \<notin> set line" "starts_char (line @ crlf)" "chunk_size line = Some (length d + 1)"
    and "ascii (as_bytes (join_lines (sl # hs) @ crlf @ crlf @ line @ crlf @ d))" "0xC2 \<le> b" "b \<le> 0xDF"
    and "raw = as_bytes (join_lines (sl # hs) @ crlf @ crlf @ line @ crlf @ d) @ [b] @ [13, 10] @ rest" "length raw < 2 ^ 63"
  shows "parse_response lower raw = None"
proof -
  let ?A = "join_lines (sl # hs) @ crlf @ crlf @ line @ crlf @ d"
  let ?body = "line @ crlf @ d @ bytes_str [0xEF, 0xBF, 0xBD] @ bytes_str (utf8_lossy (13 # 10 # rest))"
  have "\<not> is_cont 13" by (simp add: is_cont_def)
  then have "utf8_lossy raw = as_bytes ?A @ [0xEF, 0xBF, 0xBD] @ utf8_lossy (13 # 10 # rest)"
    using utf8_lossy_app [OF assms(7), of "[b] @ [13, 10] @ rest"] utf8_lossy_broken [OF assms(8,9), of 13 "10 # rest"]
    by (simp only: assms(10)) simp
  then have "from_utf8_lossy raw = join_lines (sl # hs) @ crlf @ crlf @ ?body"
    by (simp only: from_utf8_lossy_def bytes_str_append bytes_str_as_bytes append_assoc)
  note h = parse_response_head [OF this assms(1,2), of lower]
  have "length line + length d < 2 ^ 63" using assms(10,11) by simp
  then have e: "(length line + 2 + (length d + 1)) mod 2 ^ 64 = length (line @ crlf) + length d + 1" by simp
  have "dechunk ?body = None"
    using dechunk_step [of ?body "[]" line "d @ bytes_str [0xEF, 0xBF, 0xBD] @ bytes_str (utf8_lossy (13 # 10 # rest))" "[]"]
      assms(4-6) e cut_inside_char [of ?body "line @ crlf" d]
    by (simp add: dechunk_def Let_def)
  then show ?thesis using h assms(3) by simp
qed

lemma split_character_panics_witness:
  "parse_response to_lower (as_bytes (''HTTP/1.1 200 OK'' @ crlf @ ''Transfer-Encoding: chunked'' @ crlf @ crlf @ ''2'' @ crlf @ ''a'')
      @ [0xC3] @ [13, 10] @ [49, 13, 10, 0xA9, 13, 10]) = None"
proof -
  let ?sl = "''HTTP/1.1 200 OK''" and ?hs = "[''Transfer-Encoding: chunked'']"
  have 1: "list_all line_ok (?sl # ?hs)" by code_simp
  have ch: "char_of (50::nat) = CHR ''2''" "char_of (48::nat) = CHR ''0''" by code_simp+
  have 2: "status_of ?sl = Some 200"
    by (simp add: ch status_of_def split_whitespace_def white_space_def as_bytes_def bytes_str_def get_at_def parse_unsigned_def is_digit_def)
  have 3: "list_ex (is_chunked_header to_lower) ?hs" by code_simp
  have "trim ''2'' = ''2''" by (simp add: trim_id as_bytes_def)
  then have 4: "chunk_size ''2'' = Some (length ''a'' + 1)" by (simp add: chunk_size_def parse_hex_usize_def to_digit_def)
  have 5: "ascii (as_bytes (join_lines (?sl # ?hs) @ crlf @ crlf @ ''2'' @ crlf @ ''a''))"
    by (simp add: ascii_def as_bytes_def crlf_def)
  have "starts_char (''2'' @ crlf)" by (simp add: starts_char_def is_cont_def)
  from split_character_panics [OF 1 2 3 _ this 4 5 _ _ refl, of "0xC3" "[49, 13, 10, 0xA9, 13, 10]"] show ?thesis
    by (simp add: as_bytes_def crlf_def)
qed

end
