(* ===== verification/ZeroTrust.thy ===== *)
theory ZeroTrust
  imports Json Apifront
begin

text \<open>
  Signing in to a Zero Trust organization (\<open>zerotrust.rs\<close>): team names, tokens in pages and cookies, HTML
  entities and query strings, the token cache of the session, and the sign-in with a supplied token, a
  service token or a code sent by mail.

  Unicode lower case, URL-safe base64, JSON and the HTTP client are external: \<open>lower\<close>, the fields of
  \<open>jwt_ext\<close> and the outcomes of the requests are arguments. A slice at the place where an ASCII pattern
  was found, or just behind it, is at a character boundary, so these slices are total.
\<close>

section \<open>Teams\<close>

definition TEAM_SUFFIX :: string where "TEAM_SUFFIX = ''cloudflareaccess.com''"
definition ENROLL_PATH :: string where "ENROLL_PATH = ''/warp''"
definition CODE_ATTEMPTS :: nat where "CODE_ATTEMPTS = 3"
definition INSTALL_ID_LEN :: nat where "INSTALL_ID_LEN = 22"
definition FCM_SUFFIX_LEN :: nat where "FCM_SUFFIX_LEN = 134"
definition ALPHANUM :: string where
  "ALPHANUM = ''abcdefghijklmnopqrstuvwxyzABCDEFGHIJKLMNOPQRSTUVWXYZ0123456789''"

record team_settings =
  ts_team :: string
  ts_client_id :: "string option"
  ts_client_secret :: "string option"
  ts_token :: "string option"
  ts_email :: "string option"

definition is_alnum :: "char \<Rightarrow> bool" where
  "is_alnum c \<longleftrightarrow> is_alpha c \<or> is_digit c"

definition strip_suffix :: "string \<Rightarrow> string \<Rightarrow> string option" where
  "strip_suffix p s = (if ends_with p s then Some (take (length s - length p) s) else None)"

definition normalize_team :: "(string \<Rightarrow> string) \<Rightarrow> string \<Rightarrow> string option" where
  "normalize_team lower raw =
     (let value = lower (trim raw) in
      if value = [] then None
      else
        let value = fold (\<lambda>prefix value. case strip_prefix prefix value of Some rest \<Rightarrow> rest | None \<Rightarrow> value)
                      [''https://'', ''http://''] value;
            value = hd (split_char CHR ''/'' (trim_end_matches CHR ''/'' value));
            value = (case strip_suffix TEAM_SUFFIX value of Some head \<Rightarrow> trim_end_matches CHR ''.'' head | None \<Rightarrow> value)
        in if value = [] then None
           else if \<not> list_all (\<lambda>c. is_alnum c \<or> c = CHR ''-'' \<or> c = CHR ''_'') value then None
           else Some value)"

text \<open>\<open>TeamSettings::from_env\<close>; the environment maps names to values that are valid UTF-8.\<close>

definition non_empty :: "(string \<rightharpoonup> string) \<Rightarrow> string \<Rightarrow> string option" where
  "non_empty env key = (case env key of None \<Rightarrow> None | Some value \<Rightarrow> if trim value = [] then None else Some (trim value))"

definition team_from_env :: "(string \<Rightarrow> string) \<Rightarrow> (string \<rightharpoonup> string) \<Rightarrow> team_settings option" where
  "team_from_env lower env = do {
     team \<leftarrow> normalize_team lower (case env ''AETHER_TEAM'' of Some v \<Rightarrow> v | None \<Rightarrow> []);
     Some \<lparr>ts_team = team, ts_client_id = non_empty env ''AETHER_ACCESS_CLIENT_ID'',
           ts_client_secret = non_empty env ''AETHER_ACCESS_CLIENT_SECRET'', ts_token = non_empty env ''AETHER_ACCESS_TOKEN'',
           ts_email = non_empty env ''AETHER_ACCESS_EMAIL''\<rparr> }"

definition has_service_token :: "team_settings \<Rightarrow> bool" where
  "has_service_token s \<longleftrightarrow> ts_client_id s \<noteq> None \<and> ts_client_secret s \<noteq> None"

definition team_domain :: "string \<Rightarrow> string" where
  "team_domain team = ''https://'' @ team @ ''.'' @ TEAM_SUFFIX"

definition login_url :: "team_settings \<Rightarrow> string" where
  "login_url s = team_domain (ts_team s) @ ENROLL_PATH"


section \<open>Tokens\<close>

record jwt_ext =
  jx_decode :: "string \<Rightarrow> bytes option"
  jx_json :: "bytes \<Rightarrow> json option"

definition looks_like_jwt :: "jwt_ext \<Rightarrow> string \<Rightarrow> bool" where
  "looks_like_jwt J token =
     (let token = trim token; segments = split_char CHR ''.'' token in
      \<not> length token < 32 \<and> length segments = 3 \<and> \<not> list_ex (\<lambda>s. s = []) segments
      \<and> list_all (\<lambda>c. is_alnum c \<or> c = CHR ''.'' \<or> c = CHR ''-'' \<or> c = CHR ''_'') token
      \<and> jx_decode J (segments ! 0) \<noteq> None)"

text \<open>The first place where a character ends the token: a quote, \<open>&\<close>, \<open><\<close> or white space.\<close>

fun find_token_end :: "bytes \<Rightarrow> nat" where
  "find_token_end [] = 0"
| "find_token_end (b # bs) =
     (if b = 34 \<or> b = 39 \<or> b = 38 \<or> b = 60 \<or> list_ex (\<lambda>w. take (length w) (b # bs) = w) white_space then 0
      else Suc (find_token_end bs))"

definition extract_jwt_from_html :: "jwt_ext \<Rightarrow> string \<Rightarrow> string option" where
  "extract_jwt_from_html J html = do {
     at \<leftarrow> find_str ''token='' html;
     let rest = drop (at + length ''token='') html;
     let candidate = trim (take (find_token_end (as_bytes rest)) rest);
     if looks_like_jwt J candidate then Some candidate else None }"

fun jwt_from_parts :: "jwt_ext \<Rightarrow> string list \<Rightarrow> string option" where
  "jwt_from_parts J [] = None"
| "jwt_from_parts J (part # parts) =
     (let entry = trim part in
      case (case strip_prefix ''CF_Authorization='' entry of
              Some v \<Rightarrow> Some v | None \<Rightarrow> strip_prefix ''cf_authorization='' entry) of
        None \<Rightarrow> None
      | Some value \<Rightarrow> if looks_like_jwt J value then Some value else jwt_from_parts J parts)"

definition extract_jwt_from_cookie :: "jwt_ext \<Rightarrow> string \<Rightarrow> string option" where
  "extract_jwt_from_cookie J header = jwt_from_parts J (split_char CHR '';'' header)"

definition jwt_expiry :: "jwt_ext \<Rightarrow> string \<Rightarrow> u64 option" where
  "jwt_expiry J token =
     (let segments = split_char CHR ''.'' token in
      if length segments \<noteq> 3 then None
      else do {
        payload \<leftarrow> jx_decode J (segments ! 1);
        value \<leftarrow> jx_json J payload;
        e \<leftarrow> json_get ''exp'' value;
        as_u64 e })"

definition jwt_expired :: "jwt_ext \<Rightarrow> string \<Rightarrow> u64 \<Rightarrow> bool" where
  "jwt_expired J token now = (case jwt_expiry J token of Some e \<Rightarrow> e \<le> now | None \<Rightarrow> False)"

text \<open>A draw of \<open>random_range(0..n)\<close> is below \<open>n\<close>: the reduction changes no such draw.\<close>

definition random_alphanumeric :: "nat \<Rightarrow> (nat \<Rightarrow> nat) \<Rightarrow> string" where
  "random_alphanumeric len draw = map (\<lambda>k. ALPHANUM ! (draw k mod length ALPHANUM)) [0..<len]"

definition generate_install_id :: "(nat \<Rightarrow> nat) \<Rightarrow> string" where
  "generate_install_id draw = random_alphanumeric INSTALL_ID_LEN draw"

definition generate_fcm_token :: "string \<Rightarrow> (nat \<Rightarrow> nat) \<Rightarrow> string" where
  "generate_fcm_token install_id draw = install_id @ '':APA91b'' @ random_alphanumeric FCM_SUFFIX_LEN draw"


section \<open>Entities and query strings\<close>

definition parse_hex_max :: "nat \<Rightarrow> string \<Rightarrow> nat option" where
  "parse_hex_max m s = (case parse_hex_usize s of Some v \<Rightarrow> if v \<le> m then Some v else None | None \<Rightarrow> None)"

text \<open>\<open>char::from_u32\<close>, and the UTF-8 bytes of a character.\<close>

definition char_from_u32 :: "nat \<Rightarrow> nat option" where
  "char_from_u32 n = (if n < 0xD800 \<or> (0xE000 \<le> n \<and> n \<le> 0x10FFFF) then Some n else None)"

definition utf8_char :: "nat \<Rightarrow> bytes" where
  "utf8_char n =
     (if n < 0x80 then [of_nat n]
      else if n < 0x800 then [of_nat (0xC0 + n div 64), of_nat (0x80 + n mod 64)]
      else if n < 0x10000 then [of_nat (0xE0 + n div 4096), of_nat (0x80 + n div 64 mod 64), of_nat (0x80 + n mod 64)]
      else [of_nat (0xF0 + n div 262144), of_nat (0x80 + n div 4096 mod 64), of_nat (0x80 + n div 64 mod 64),
            of_nat (0x80 + n mod 64)])"

definition decode_entity :: "string \<Rightarrow> nat option" where
  "decode_entity entity =
     (if entity = ''amp'' then Some 38
      else if entity = ''lt'' then Some 60
      else if entity = ''gt'' then Some 62
      else if entity = ''quot'' then Some 34
      else if entity = ''apos'' \<or> entity = ''#39'' then Some 39
      else
        let hex = (case strip_prefix ''#x'' entity of Some h \<Rightarrow> Some h | None \<Rightarrow> strip_prefix ''#X'' entity);
            code = Option.bind hex (parse_hex_max (2 ^ 32 - 1));
            code = (case code of Some c \<Rightarrow> Some c
                    | None \<Rightarrow> Option.bind (strip_prefix ''#'' entity) (parse_unsigned (2 ^ 32 - 1)))
        in Option.bind code char_from_u32)"

text \<open>One pass of the loop at an ampersand: what is put out and what remains.\<close>

definition entity_step :: "string \<Rightarrow> string \<times> string" where
  "entity_step rest =
     (case find_str '';'' rest of
        Some index \<Rightarrow>
          if index \<le> 8 then
            (case decode_entity (take (index - 1) (drop 1 rest)) of
               Some c \<Rightarrow> (bytes_str (utf8_char c), drop (index + 1) rest)
             | None \<Rightarrow> (''&'', drop 1 rest))
          else (''&'', drop 1 rest)
      | None \<Rightarrow> (''&'', drop 1 rest))"

lemma find_str_bound: "find_str pat s = Some i \<Longrightarrow> i + length pat \<le> length s"
  by (induction s arbitrary: i) (auto simp: starts_with_def min_def split: if_splits dest: arg_cong [where f = length])

lemma entity_step_less: "s \<noteq> [] \<Longrightarrow> length (snd (entity_step s)) < length s"
  by (auto simp: entity_step_def Let_def split: option.splits if_splits intro!: diff_less)

function decode_entities_loop :: "string \<Rightarrow> string \<Rightarrow> string" where
  "decode_entities_loop out rest =
     (case find_str ''&'' rest of
        None \<Rightarrow> out @ rest
      | Some at \<Rightarrow>
          (case entity_step (drop at rest) of
             (c, rest') \<Rightarrow> decode_entities_loop (out @ take at rest @ c) rest'))"
  by pat_completeness auto
termination
proof (relation "measure (\<lambda>(_, rest). length rest)", goal_cases)
  case (2 out rest at c rest')
  then have "at < length rest" using find_str_bound [of "''&''" rest at] by simp
  moreover have "snd (entity_step (drop at rest)) = rest'" using 2(2) by (metis snd_conv)
  ultimately show ?case using entity_step_less [of "drop at rest"] by simp
qed simp

declare decode_entities_loop.simps [simp del]

definition decode_entities :: "string \<Rightarrow> string" where
  "decode_entities raw = decode_entities_loop [] raw"

text \<open>\<open>s.rfind(pat)\<close>.\<close>

fun rfind_str :: "string \<Rightarrow> string \<Rightarrow> nat option" where
  "rfind_str pat [] = (if pat = [] then Some 0 else None)"
| "rfind_str pat (x # xs) =
     (case rfind_str pat xs of
        Some i \<Rightarrow> Some (Suc i)
      | None \<Rightarrow> if starts_with pat (x # xs) then Some 0 else None)"

definition extract_totp_form_action :: "string \<Rightarrow> string option" where
  "extract_totp_form_action html = do {
     anchor \<leftarrow> find_str (''id='' @ [CHR 34] @ ''totp-form'' @ [CHR 34]) html;
     form_start \<leftarrow> rfind_str ''<form'' (take anchor html);
     len \<leftarrow> find_str ''>'' (drop form_start html);
     let tag = take len (drop form_start html);
     key_at \<leftarrow> find_str ''action='' tag;
     let rest = bytes_str (strip_any white_space (as_bytes (drop (key_at + length ''action='') tag)));
     quote \<leftarrow> (case rest of [] \<Rightarrow> None | c # _ \<Rightarrow> Some c);
     if quote \<noteq> CHR 39 \<and> quote \<noteq> CHR 34 then None
     else do {
       end_at \<leftarrow> find_str [quote] (drop 1 rest);
       let action = decode_entities (take end_at (drop 1 rest));
       if starts_with ''https://'' action then Some action else None } }"

function percent_loop :: "bytes \<Rightarrow> bytes \<Rightarrow> bytes" where
  "percent_loop out bs =
     (case bs of
        [] \<Rightarrow> out
      | b # rest \<Rightarrow>
          if b = 37 \<and> 2 \<le> length rest then
            (case parse_hex_max 255 (case from_utf8 (take 2 rest) of Some h \<Rightarrow> h | None \<Rightarrow> []) of
               Some byte \<Rightarrow> percent_loop (out @ [of_nat byte]) (drop 2 rest)
             | None \<Rightarrow> percent_loop (out @ [37]) rest)
          else if b = 43 then percent_loop (out @ [32]) rest
          else percent_loop (out @ [b]) rest)"
  by pat_completeness auto
termination
  by (relation "measure (\<lambda>(_, bs). length bs)") auto

declare percent_loop.simps [simp del]

definition percent_decode :: "string \<Rightarrow> string" where
  "percent_decode raw = from_utf8_lossy (percent_loop [] (as_bytes raw))"

fun query_pairs :: "string \<Rightarrow> string list \<Rightarrow> string option" where
  "query_pairs key [] = None"
| "query_pairs key (pair # pairs) =
     (case split_once CHR ''='' pair of
        None \<Rightarrow> None
      | Some (name, value) \<Rightarrow> if name = key then Some (percent_decode value) else query_pairs key pairs)"

definition query_value :: "string \<Rightarrow> string \<Rightarrow> string option" where
  "query_value url key = do {
     (_, query) \<leftarrow> split_once CHR ''?'' url;
     query_pairs key (split_char CHR ''&'' query) }"


section \<open>Signing in\<close>

text \<open>
  The session of a sign-in by mail; the HTTP client in it, with its cookies, is the environment that gives
  the outcomes of the requests. \<open>zt_state\<close> is the two process-wide variables of the file.
\<close>

record email_signin =
  es_team :: string
  es_email :: string
  es_nonce :: string
  es_verify_url :: string

record zt_state =
  zt_cache :: "(string \<times> string) option"
  zt_pending :: "email_signin option"

datatype code_outcome = CodeToken string | CodeRejected nat

datatype svc_end = SvcClientFails string | SvcSendFails string | SvcAnswers nat "string list" string

text \<open>
  The outside world of a sign-in: whether a client can be built, the enrolment page with the URL it was
  served from, the request for a code (the URL it ended at, and the status), the confirmation of a code, the
  request with a service token (status, the \<open>Set-Cookie\<close> headers that are visible ASCII, and the body, empty
  when it cannot be read), and the codes that are entered. An error is the text it displays.
\<close>

record zt_world =
  zw_show_status :: "nat \<Rightarrow> string"
  zw_client :: "string option"
  zw_landing :: "string \<Rightarrow> string + string \<times> (string + string)"
  zw_send_code :: "string \<Rightarrow> string \<Rightarrow> string + string \<times> nat"
  zw_confirm :: "string \<Rightarrow> string \<Rightarrow> string \<Rightarrow> string + nat \<times> (string + string)"
  zw_service :: "string \<Rightarrow> string \<Rightarrow> string \<Rightarrow> svc_end"
  zw_prompt :: "string \<Rightarrow> nat \<Rightarrow> string result"

definition send_email_code :: "zt_world \<Rightarrow> string \<Rightarrow> string \<Rightarrow> string option \<Rightarrow> string option result" where
  "send_email_code W verify_url email fallback_url =
     (case zw_send_code W verify_url email of
        Inl e \<Rightarrow> Inl (ErrApi (''requesting a login code: '' @ e))
      | Inr (sent_url, status) \<Rightarrow>
          if \<not> (200 \<le> status \<and> status < 300) then
            Inl (ErrApi (''cloudflare refused to send a login code (status '' @ zw_show_status W status @ '')''))
          else Inr (case query_value sent_url ''nonce'' of
              Some n \<Rightarrow> Some n
            | None \<Rightarrow> Option.bind fallback_url (\<lambda>url. query_value url ''nonce'')))"

definition resend_code :: "zt_world \<Rightarrow> email_signin \<Rightarrow> email_signin result" where
  "resend_code W es =
     (case send_email_code W (es_verify_url es) (es_email es) None of
        Inl e \<Rightarrow> Inl e
      | Inr (Some nonce) \<Rightarrow> Inr (es\<lparr>es_nonce := nonce\<rparr>)
      | Inr None \<Rightarrow> Inr es)"

definition submit_code :: "jwt_ext \<Rightarrow> zt_world \<Rightarrow> email_signin \<Rightarrow> string \<Rightarrow> code_outcome result" where
  "submit_code J W es code =
     (let code = trim code in
      if code = [] then Inl (ErrApi ''no login code was entered'')
      else case zw_confirm W (team_domain (es_team es) @ ''/cdn-cgi/access/callback'') code (es_nonce es) of
        Inl e \<Rightarrow> Inl (ErrApi (''confirming the login code: '' @ e))
      | Inr (status, Inl e) \<Rightarrow> Inl (ErrApi (''callback body: '' @ e))
      | Inr (status, Inr body) \<Rightarrow>
          Inr (case extract_jwt_from_html J body of Some token \<Rightarrow> CodeToken token | None \<Rightarrow> CodeRejected status))"

definition begin_email_signin :: "zt_world \<Rightarrow> team_settings \<Rightarrow> string \<Rightarrow> email_signin result" where
  "begin_email_signin W settings email =
     (let email = trim email in
      if email = [] then Inl (ErrApi ''an email address is needed to request a login code'')
      else case zw_client W of
        Some e \<Rightarrow> Inl (ErrApi (''access client: '' @ e))
      | None \<Rightarrow>
          (case zw_landing W (login_url settings) of
             Inl e \<Rightarrow> Inl (ErrApi (''enrolment page: '' @ e))
           | Inr (final_url, Inl e) \<Rightarrow> Inl (ErrApi (''enrolment page body: '' @ e))
           | Inr (final_url, Inr body) \<Rightarrow>
               (case extract_totp_form_action body of
                  None \<Rightarrow> Inl (ErrApi (''team '' @ ts_team settings
                    @ '' does not offer an email one-time code on its enrolment page; use a service token or sign in at ''
                    @ login_url settings))
                | Some verify_url \<Rightarrow>
                    (case send_email_code W verify_url email (Some final_url) of
                       Inl e \<Rightarrow> Inl e
                     | Inr None \<Rightarrow> Inl (ErrApi
                         ''cloudflare did not return a nonce for the login code; the enrolment flow may have changed'')
                     | Inr (Some nonce) \<Rightarrow>
                         Inr \<lparr>es_team = ts_team settings, es_email = email, es_nonce = nonce, es_verify_url = verify_url\<rparr>))))"

text \<open>The attempts that are left, and the status of the last rejection.\<close>

fun code_loop :: "jwt_ext \<Rightarrow> zt_world \<Rightarrow> email_signin \<Rightarrow> nat list \<Rightarrow> nat option \<Rightarrow> string result" where
  "code_loop J W es [] last_status =
     Inl (ErrApi (''the login code was not accepted after '' @ show_nat CODE_ATTEMPTS @ '' attempts (last status ''
       @ (case last_status of Some st \<Rightarrow> show_nat st | None \<Rightarrow> ''unknown'') @ ''); request a fresh code and try again''))"
| "code_loop J W es (attempt # attempts) last_status =
     (case zw_prompt W (es_email es) attempt of
        Inl e \<Rightarrow> Inl e
      | Inr code \<Rightarrow>
          (case submit_code J W es code of
             Inl e \<Rightarrow> Inl e
           | Inr (CodeToken token) \<Rightarrow> Inr token
           | Inr (CodeRejected st) \<Rightarrow> code_loop J W es attempts (Some st)))"

definition fetch_token_with_email_code :: "jwt_ext \<Rightarrow> zt_world \<Rightarrow> team_settings \<Rightarrow> string \<Rightarrow> string result" where
  "fetch_token_with_email_code J W settings email =
     (case begin_email_signin W settings email of
        Inl e \<Rightarrow> Inl e
      | Inr es \<Rightarrow> code_loop J W es [1..<Suc CODE_ATTEMPTS] None)"

definition service_failure :: "zt_world \<Rightarrow> team_settings \<Rightarrow> nat \<Rightarrow> aether_error" where
  "service_failure W settings status =
     ErrApi (''access did not return a device enrolment token (status '' @ zw_show_status W status
       @ ''); confirm the service token has Service Auth device enrolment permission for team '' @ ts_team settings)"

definition fetch_token_with_service_token :: "jwt_ext \<Rightarrow> zt_world \<Rightarrow> team_settings \<Rightarrow> string result" where
  "fetch_token_with_service_token J W settings =
     (case ts_client_id settings of
        None \<Rightarrow> Inl (ErrApi ''missing access client id'')
      | Some client_id \<Rightarrow>
          (case ts_client_secret settings of
             None \<Rightarrow> Inl (ErrApi ''missing access client secret'')
           | Some client_secret \<Rightarrow>
               (case zw_service W (login_url settings) client_id client_secret of
                  SvcClientFails e \<Rightarrow> Inl (ErrApi (''access client: '' @ e))
                | SvcSendFails e \<Rightarrow> Inl (ErrApi (''access request: '' @ e))
                | SvcAnswers status cookies body \<Rightarrow>
                    (case List.map_filter (extract_jwt_from_cookie J) cookies of
                       token # _ \<Rightarrow> Inr token
                     | [] \<Rightarrow>
                         (case extract_jwt_from_html J body of
                            Some token \<Rightarrow> Inr token
                          | None \<Rightarrow> Inl (service_failure W settings status))))))"

definition sign_in :: "jwt_ext \<Rightarrow> zt_world \<Rightarrow> u64 \<Rightarrow> team_settings \<Rightarrow> string result" where
  "sign_in J W now settings =
     (case ts_token settings of
        Some token \<Rightarrow>
          if \<not> looks_like_jwt J token then
            Inl (ErrApi ''the supplied access token is not a jwt; copy the value that follows token= on the enrolment page'')
          else if jwt_expired J token now then
            Inl (ErrApi ''the supplied access token has expired; sign in again to get a fresh one'')
          else Inr token
      | None \<Rightarrow>
          if has_service_token settings then fetch_token_with_service_token J W settings
          else (case ts_email settings of
             Some email \<Rightarrow> fetch_token_with_email_code J W settings email
           | None \<Rightarrow> Inl (ErrApi (''team '' @ ts_team settings
               @ '' needs a way to sign in. pick one: a service token via AETHER_ACCESS_CLIENT_ID and AETHER_ACCESS_CLIENT_SECRET, an email one-time code via AETHER_ACCESS_EMAIL, or a token you already hold via AETHER_ACCESS_TOKEN (sign in at ''
               @ login_url settings @ '')''))))"

section \<open>The session state\<close>

text \<open>
  The operations on the token cache and on the pending sign-in by mail, run one after the other. While
  \<open>resolve_token\<close> signs in it does not hold the lock; what it stores afterwards replaces whatever another
  call stored meanwhile.
\<close>

definition resolve_token :: "jwt_ext \<Rightarrow> zt_world \<Rightarrow> u64 \<Rightarrow> u64 \<Rightarrow> team_settings \<Rightarrow> zt_state \<Rightarrow> zt_state \<times> string result" where
  "resolve_token J W now now' settings s =
     (case (case zt_cache s of
              Some (team, cached) \<Rightarrow> if team = ts_team settings \<and> \<not> jwt_expired J cached now then Some cached else None
            | None \<Rightarrow> None) of
        Some cached \<Rightarrow> (s, Inr cached)
      | None \<Rightarrow>
          let s = s\<lparr>zt_cache := None\<rparr> in
          (case sign_in J W now' settings of
             Inl e \<Rightarrow> (s, Inl e)
           | Inr token \<Rightarrow> (s\<lparr>zt_cache := Some (ts_team settings, token)\<rparr>, Inr token)))"

definition store_token :: "jwt_ext \<Rightarrow> u64 \<Rightarrow> string \<Rightarrow> zt_state \<Rightarrow> zt_state \<times> unit result" where
  "store_token J now token s =
     (let token = trim token in
      if \<not> looks_like_jwt J token then
        (s, Inl (ErrApi ''that value is not a jwt; copy the value that follows token= on the enrolment page''))
      else if jwt_expired J token now then
        (s, Inl (ErrApi ''that token has already expired; sign in again to get a fresh one''))
      else (s\<lparr>zt_cache := Some ([], token)\<rparr>, Inr ()))"

definition cached_token :: "jwt_ext \<Rightarrow> u64 \<Rightarrow> zt_state \<Rightarrow> string option" where
  "cached_token J now s =
     (case zt_cache s of Some (_, token) \<Rightarrow> if \<not> jwt_expired J token now then Some token else None | None \<Rightarrow> None)"

definition clear_token :: "zt_state \<Rightarrow> zt_state" where
  "clear_token s = s\<lparr>zt_cache := None\<rparr>"

definition request_email_code :: "(string \<Rightarrow> string) \<Rightarrow> zt_world \<Rightarrow> string \<Rightarrow> string \<Rightarrow> zt_state \<Rightarrow> zt_state \<times> unit result" where
  "request_email_code lower W team email s =
     (case normalize_team lower team of
        None \<Rightarrow> (s, Inl (ErrApi ''enter a valid Zero Trust team name''))
      | Some team \<Rightarrow>
          let email = trim email in
          if email = [] \<or> CHR 64 \<notin> set email then (s, Inl (ErrApi ''enter a valid email address''))
          else
            (case begin_email_signin W \<lparr>ts_team = team, ts_client_id = None, ts_client_secret = None, ts_token = None,
                                        ts_email = Some email\<rparr> email of
               Inl e \<Rightarrow> (s, Inl e)
             | Inr es \<Rightarrow> (s\<lparr>zt_pending := Some es\<rparr>, Inr ())))"

definition confirm_email_code :: "jwt_ext \<Rightarrow> zt_world \<Rightarrow> string \<Rightarrow> zt_state \<Rightarrow> zt_state \<times> string result" where
  "confirm_email_code J W code s =
     (case zt_pending s of
        None \<Rightarrow> (s, Inl (ErrApi ''request a fresh email code before confirming it''))
      | Some es \<Rightarrow>
          (case submit_code J W es code of
             Inl e \<Rightarrow> (s, Inl e)
           | Inr (CodeToken token) \<Rightarrow> (s\<lparr>zt_cache := Some (es_team es, token), zt_pending := None\<rparr>, Inr token)
           | Inr (CodeRejected status) \<Rightarrow>
               (s, Inl (ErrApi (''the login code was not accepted (status '' @ show_nat status
                  @ ''); check it or request a fresh code'')))))"

text \<open>The line that is read for a code; end of file is the empty line read.\<close>

datatype line_read = LineTimeout | LineError | LineRead string

definition prompt_login_code :: "bool \<Rightarrow> string \<Rightarrow> line_read \<Rightarrow> string result" where
  "prompt_login_code interactive email read =
     (let failed = Inl (ErrApi (if interactive then ''no login code was entered''
             else ''a login code was emailed to '' @ email @ '' but nothing was sent back to answer it'')) in
      case read of
        LineTimeout \<Rightarrow> Inl (ErrApi ''no login code arrived within 300s; request a fresh code and try again'')
      | LineError \<Rightarrow> failed
      | LineRead line \<Rightarrow>
          if line = [] then failed
          else if trim line = [] then Inl (ErrApi ''no login code was entered'')
          else Inr (trim line))"

datatype zt_op =
    OpResolve zt_world u64 u64 team_settings
  | OpStore u64 string
  | OpClear
  | OpRequest zt_world string string
  | OpConfirm zt_world string

fun zt_run :: "(string \<Rightarrow> string) \<Rightarrow> jwt_ext \<Rightarrow> zt_op \<Rightarrow> zt_state \<Rightarrow> zt_state" where
  "zt_run lower J (OpResolve W now now' settings) s = fst (resolve_token J W now now' settings s)"
| "zt_run lower J (OpStore now token) s = fst (store_token J now token s)"
| "zt_run lower J OpClear s = clear_token s"
| "zt_run lower J (OpRequest W team email) s = fst (request_email_code lower W team email s)"
| "zt_run lower J (OpConfirm W code) s = fst (confirm_email_code J W code s)"

section \<open>Tokens that are handed out\<close>

lemma jwt_from_parts_jwt: "jwt_from_parts J ps = Some t \<Longrightarrow> looks_like_jwt J t"
  by (induction ps) (auto simp: Let_def split: option.splits if_splits)

lemma extract_cookie_jwt: "extract_jwt_from_cookie J h = Some t \<Longrightarrow> looks_like_jwt J t"
  by (simp add: extract_jwt_from_cookie_def jwt_from_parts_jwt)

lemma extract_html_jwt: "extract_jwt_from_html J h = Some t \<Longrightarrow> looks_like_jwt J t"
  by (auto simp: extract_jwt_from_html_def Let_def bind_eq_Some_conv split: if_splits)

lemma submit_code_jwt: "submit_code J W es c = Inr (CodeToken t) \<Longrightarrow> looks_like_jwt J t"
  by (auto simp: submit_code_def Let_def extract_html_jwt split: if_splits sum.splits option.splits)

lemma code_loop_jwt: "code_loop J W es as st = Inr t \<Longrightarrow> looks_like_jwt J t"
  by (induction as arbitrary: st) (auto simp: submit_code_jwt split: sum.splits code_outcome.splits)

lemma map_filter_head: "List.map_filter f xs = y # ys \<Longrightarrow> \<exists>x\<in>set xs. f x = Some y"
  by (induction xs) (auto simp: List.map_filter_simps split: option.splits)

lemma service_token_jwt: "fetch_token_with_service_token J W s = Inr t \<Longrightarrow> looks_like_jwt J t"
  by (auto simp: fetch_token_with_service_token_def extract_html_jwt
      dest!: map_filter_head extract_cookie_jwt split: option.splits svc_end.splits list.splits)

lemma sign_in_jwt: "sign_in J W now s = Inr t \<Longrightarrow> looks_like_jwt J t"
  by (auto simp: sign_in_def fetch_token_with_email_code_def service_token_jwt code_loop_jwt
      split: option.splits if_splits sum.splits)

definition zt_ok :: "jwt_ext \<Rightarrow> zt_state \<Rightarrow> bool" where
  "zt_ok J s \<longleftrightarrow> (case zt_cache s of None \<Rightarrow> True | Some (team, token) \<Rightarrow> looks_like_jwt J token)"

lemma zt_run_ok: "zt_ok J s \<Longrightarrow> zt_ok J (zt_run lower J op s)"
proof (cases op)
  case (OpResolve W now now' settings)
  assume "zt_ok J s"
  then show ?thesis using OpResolve
    by (auto simp: zt_ok_def resolve_token_def Let_def sign_in_jwt split: option.splits sum.splits if_splits)
next
  case (OpStore now token)
  assume "zt_ok J s"
  then show ?thesis using OpStore by (auto simp: zt_ok_def store_token_def Let_def)
next
  case OpClear
  then show ?thesis by (simp add: zt_ok_def clear_token_def)
next
  case (OpRequest W team email)
  assume "zt_ok J s"
  then show ?thesis using OpRequest
    by (auto simp: zt_ok_def request_email_code_def Let_def split: option.splits sum.splits)
next
  case (OpConfirm W code)
  assume "zt_ok J s"
  then show ?thesis using OpConfirm
    by (auto simp: zt_ok_def confirm_email_code_def submit_code_jwt split: option.splits sum.splits code_outcome.splits)
qed

lemma zt_fold_ok: "zt_ok J s \<Longrightarrow> zt_ok J (fold (zt_run lower J) ops s)"
  by (induction ops arbitrary: s) (simp_all add: zt_run_ok)

definition zt_init :: zt_state where
  "zt_init = \<lparr>zt_cache = None, zt_pending = None\<rparr>"

lemma resolve_token_cases:
  "resolve_token J W now now' settings s = (s', Inr t) \<Longrightarrow>
     (zt_cache s = Some (ts_team settings, t) \<and> \<not> jwt_expired J t now \<and> s' = s)
     \<or> (sign_in J W now' settings = Inr t \<and> zt_cache s' = Some (ts_team settings, t))"
  by (auto simp: resolve_token_def Let_def split: option.splits sum.splits if_splits)

lemma normalize_team_chars:
  "normalize_team lower raw = Some t \<Longrightarrow> t \<noteq> [] \<and> list_all (\<lambda>c. is_alnum c \<or> c = CHR ''-'' \<or> c = CHR ''_'') t"
  by (auto simp: normalize_team_def Let_def split: if_splits)


section \<open>Query strings\<close>

text \<open>The usual encoder of query strings: the unreserved characters stand for themselves.\<close>

definition hex_digit :: "nat \<Rightarrow> char" where
  "hex_digit n = char_of (if n < 10 then 48 + n else 55 + n)"

definition unreserved :: "char \<Rightarrow> bool" where
  "unreserved c \<longleftrightarrow> is_alnum c \<or> c = CHR ''-'' \<or> c = CHR ''.'' \<or> c = CHR ''_'' \<or> c = CHR 126"

definition percent_char :: "char \<Rightarrow> string" where
  "percent_char c = (if unreserved c then [c] else [CHR 37, hex_digit (of_char c div 16), hex_digit (of_char c mod 16)])"

definition percent_encode :: "string \<Rightarrow> string" where
  "percent_encode s = concat (map percent_char s)"

lemma of_char_hex_digit: "n < 16 \<Longrightarrow> (of_char (hex_digit n) :: nat) = (if n < 10 then 48 + n else 55 + n)"
  by (simp add: hex_digit_def of_char_of)

lemma to_digit_hex [simp]: "n < 16 \<Longrightarrow> to_digit 16 (hex_digit n) = Some n"
  by (simp add: to_digit_def of_char_hex_digit Let_def)

lemma hex_digit_plus: "n < 16 \<Longrightarrow> hex_digit n \<noteq> CHR 43"
  by (auto dest: arg_cong [where f = "of_char :: char \<Rightarrow> nat"] simp: of_char_hex_digit split: if_splits)

lemma plus_case: "c \<noteq> CHR 43 \<Longrightarrow> (case c # cs of CHR 43 # r \<Rightarrow> r | _ \<Rightarrow> t) = t"
  by (cases c) (auto split: bool.split)

lemma parse_hex_pair:
  assumes "a < 16" "b < 16"
  shows "parse_hex_max 255 [hex_digit a, hex_digit b] = Some (16 * a + b)"
proof -
  have "parse_hex_usize [hex_digit a, hex_digit b] = Some (16 * a + b)"
    unfolding parse_hex_usize_def plus_case [OF hex_digit_plus [OF assms(1)]] using assms by simp
  then show ?thesis using assms by (simp add: parse_hex_max_def)
qed

lemma percent_loop_acc: "percent_loop out bs = out @ percent_loop [] bs"
proof (induction "length bs" arbitrary: out bs rule: less_induct)
  case less
  show ?case
  proof (cases bs)
    case (Cons b rest)
    have r: "percent_loop o' rest = o' @ percent_loop [] rest" for o' by (rule less.hyps) (simp add: Cons)
    have d: "percent_loop o' (drop 2 rest) = o' @ percent_loop [] (drop 2 rest)" for o' by (rule less.hyps) (simp add: Cons)
    show ?thesis
      unfolding Cons percent_loop.simps [of _ "b # rest"] list.case append_Nil
        r [of "out @ [37]"] r [of "out @ [32]"] r [of "out @ [b]"] r [of "[37]"] r [of "[32]"] r [of "[b]"]
        d [of "out @ [of_nat n]" for n] d [of "[of_nat n]" for n]
      by (auto split: option.split)
  qed (simp add: percent_loop.simps)
qed

lemma as_bytes_Cons: "as_bytes (c # s) = of_nat (of_char c) # as_bytes s"
  by (simp add: as_bytes_def)

lemma byte_eq_char: "(of_nat (of_char c) :: u8) = of_nat n \<longleftrightarrow> of_char c = n" if "n < 256"
  using that by (simp add: unat_of_nat word_unat_eq_iff)

lemma percent_plain:
  assumes "unreserved c"
  shows "percent_loop [] (of_nat (of_char c) # bs) = of_nat (of_char c) # percent_loop [] bs"
proof -
  have "of_char c \<noteq> (37 :: nat)" "of_char c \<noteq> (43 :: nat)"
    using assms by (auto simp: unreserved_def is_alnum_def is_alpha_def is_digit_def)
  then have "(of_nat (of_char c) :: u8) \<noteq> 37" "(of_nat (of_char c) :: u8) \<noteq> 43"
    using byte_eq_char [of 37 c] byte_eq_char [of 43 c] by simp_all
  then show ?thesis by (subst percent_loop.simps) (simp add: percent_loop_acc [of "[_]"])
qed

lemma percent_escape:
  assumes "a < 16" "b < 16"
  shows "percent_loop [] (37 # as_bytes [hex_digit a, hex_digit b] @ bs) = of_nat (16 * a + b) # percent_loop [] bs"
proof -
  let ?h = "as_bytes [hex_digit a, hex_digit b]"
  have "ascii ?h" using assms
    by (auto simp: ascii_def as_bytes_def of_char_hex_digit word_less_nat_alt)
  then have "from_utf8 ?h = Some [hex_digit a, hex_digit b]" by (simp add: from_utf8_def utf8_ascii)
  moreover have "take 2 (?h @ bs) = ?h" "drop 2 (?h @ bs) = bs" by (simp_all add: as_bytes_def)
  ultimately show ?thesis
    by (subst percent_loop.simps) (simp add: parse_hex_pair assms percent_loop_acc [of "[_]"])
qed

lemma percent_loop_char: "percent_loop [] (as_bytes (percent_char c) @ bs) = of_nat (of_char c) # percent_loop [] bs"
proof (cases "unreserved c")
  case True
  then show ?thesis by (simp add: percent_char_def as_bytes_Cons percent_plain)
next
  case False
  have e: "16 * (of_char c div 16) + of_char c mod 16 = (of_char c :: nat)" by simp
  have l: "(of_char c :: nat) div 16 < 16" using nat_of_char_less_256 [of c] by linarith
  show ?thesis
    using percent_escape [OF l, of "of_char c mod 16" bs] False by (simp only: percent_char_def as_bytes_Cons e) (simp add: as_bytes_Cons)
qed

lemma percent_loop_encode: "percent_loop [] (as_bytes (percent_encode s)) = as_bytes s"
  by (induction s) (simp_all add: percent_encode_def percent_loop_char as_bytes_Cons percent_loop.simps [of _ "[]"])

lemma percent_roundtrip: "utf8_valid (as_bytes s) \<Longrightarrow> percent_decode (percent_encode s) = s"
  by (simp add: percent_decode_def percent_loop_encode from_utf8_lossy_def utf8_lossy_valid)

lemma split_char_plain: "c \<notin> set a \<Longrightarrow> split_char c a = [a]"
  by (induction a) auto

lemma split_char_app: "c \<notin> set a \<Longrightarrow> split_char c (a @ c # b) = a # split_char c b"
  by (induction a) auto

fun encode_query :: "(string \<times> string) list \<Rightarrow> string" where
  "encode_query [] = []"
| "encode_query [(k, v)] = k @ ''='' @ percent_encode v"
| "encode_query ((k, v) # kv # kvs) = k @ ''='' @ percent_encode v @ ''&'' @ encode_query (kv # kvs)"

lemma percent_encode_chars: "c \<in> set (percent_encode s) \<Longrightarrow> c = CHR 37 \<or> unreserved c"
proof -
  have "unreserved (hex_digit n)" if "n < 16" for n
    using that by (auto simp: unreserved_def is_alnum_def is_alpha_def is_digit_def of_char_hex_digit)
  moreover have "(of_char d :: nat) div 16 < 16" for d using nat_of_char_less_256 [of d] by linarith
  ultimately show "c \<in> set (percent_encode s) \<Longrightarrow> c = CHR 37 \<or> unreserved c"
    by (auto simp: percent_encode_def percent_char_def split: if_splits)
qed

lemma percent_encode_no_amp: "CHR ''&'' \<notin> set (percent_encode s)"
  using percent_encode_chars [of "CHR ''&''" s] by (auto simp: unreserved_def is_alnum_def is_alpha_def is_digit_def)

definition plain_key :: "string \<Rightarrow> bool" where
  "plain_key k \<longleftrightarrow> CHR ''='' \<notin> set k \<and> CHR ''&'' \<notin> set k"

lemma query_pairs_encode:
  "kvs \<noteq> [] \<Longrightarrow> list_all (\<lambda>(k, v). plain_key k \<and> utf8_valid (as_bytes v)) kvs
     \<Longrightarrow> query_pairs key (split_char CHR ''&'' (encode_query kvs)) = map_of kvs key"
proof (induction kvs rule: encode_query.induct)
  case (2 k v)
  have "CHR ''&'' \<notin> set (k @ ''='' @ percent_encode v)" using 2 percent_encode_no_amp by (auto simp: plain_key_def)
  from split_char_plain [OF this] show ?case
    using 2 by (simp add: split_once_app plain_key_def percent_roundtrip)
next
  case (3 k v kv kvs)
  have "CHR ''&'' \<notin> set (k @ ''='' @ percent_encode v)" using 3 percent_encode_no_amp by (auto simp: plain_key_def)
  from split_char_app [OF this, of "encode_query (kv # kvs)"] show ?case
    using 3 by (simp add: split_once_app plain_key_def percent_roundtrip)
qed simp

text \<open>
  Query parameters survive the trip through a URL: from a URL that is built of a base without a
  question mark and of a list of parameters with percent-encoded values, \<open>query_value\<close> reads back, for every
  key, the value of the first parameter with that key, and nothing when there is none.
\<close>

lemma query_value_roundtrip:
  assumes "CHR ''?'' \<notin> set url" "kvs \<noteq> []" "list_all (\<lambda>(k, v). plain_key k \<and> utf8_valid (as_bytes v)) kvs"
  shows "query_value (url @ ''?'' @ encode_query kvs) key = map_of kvs key"
  using split_once_app [OF assms(1), of "encode_query kvs"] query_pairs_encode [OF assms(2,3), of key]
  by (simp add: query_value_def)

lemma query_value_roundtrip_witness:
  "query_value ''https://t/x?kid=1&nonce=a%20b'' ''nonce'' = Some ''a b''"
proof -
  have v: "utf8_valid (as_bytes ''1'')" "utf8_valid (as_bytes ''a b'')"
    by (rule utf8_ascii [THEN conjunct1], simp add: ascii_def as_bytes_def)+
  have "query_value (''https://t/x'' @ ''?'' @ encode_query [(''kid'', ''1''), (''nonce'', ''a b'')]) ''nonce''
      = map_of [(''kid'', ''1''), (''nonce'', ''a b'')] ''nonce''"
    by (rule query_value_roundtrip) (simp_all add: v plain_key_def)
  then show ?thesis
    by (simp add: percent_encode_def percent_char_def unreserved_def is_alnum_def is_alpha_def is_digit_def hex_digit_def
        of_char_def char_of_def bit_0)
qed


section \<open>Entities\<close>

text \<open>The escapes that the enrolment page uses.\<close>

definition escape_char :: "char \<Rightarrow> string" where
  "escape_char c =
     (if c = CHR ''&'' then ''&amp;'' else if c = CHR ''<'' then ''&lt;'' else if c = CHR ''>'' then ''&gt;''
      else if c = CHR 34 then ''&quot;'' else if c = CHR 39 then ''&#39;'' else if c = CHR ''/'' then ''&#x2F;''
      else if c = CHR ''='' then ''&#x3D;'' else [c])"

definition escape_html :: "string \<Rightarrow> string" where
  "escape_html s = concat (map escape_char s)"

lemma decode_plain: "c \<noteq> CHR ''&'' \<Longrightarrow> decode_entities_loop out (c # r) = decode_entities_loop (out @ [c]) r"
  by (subst (1 2) decode_entities_loop.simps) (auto simp: starts_with_def split: option.split)

lemma decode_at_amp:
  "entity_step (CHR ''&'' # r) = (c, r') \<Longrightarrow> decode_entities_loop out (CHR ''&'' # r) = decode_entities_loop (out @ c) r'"
  by (subst decode_entities_loop.simps) (simp add: starts_with_def)

lemma entity_step_known:
  assumes "CHR '';'' \<notin> set e" "length e \<le> 7" "decode_entity e = Some n"
  shows "entity_step (CHR ''&'' # e @ CHR '';'' # r) = (bytes_str (utf8_char n), r)"
proof -
  have "find_str '';'' ((CHR ''&'' # e) @ '';'' @ r) = Some (length (CHR ''&'' # e))"
    using find_str_skip [of "'';''" "CHR ''&'' # e"] find_str_here [of "'';''" r] assms(1) by simp
  then show ?thesis using assms by (simp add: entity_step_def)
qed

lemma decode_entity_known:
  "decode_entity ''amp'' = Some 38" "decode_entity ''lt'' = Some 60" "decode_entity ''gt'' = Some 62"
  "decode_entity ''quot'' = Some 34" "decode_entity ''#39'' = Some 39" "decode_entity ''#x2F'' = Some 47"
  "decode_entity ''#x3D'' = Some 61"
  by (simp_all add: decode_entity_def strip_prefix_def starts_with_def parse_hex_max_def parse_hex_usize_def to_digit_def
      char_from_u32_def)

lemma decode_escaped: "decode_entities_loop out (escape_char c @ r) = decode_entities_loop (out @ [c]) r"
proof -
  have k: "decode_entities_loop out (CHR ''&'' # e @ CHR '';'' # r) = decode_entities_loop (out @ [c]) r"
    if "CHR '';'' \<notin> set e" "length e \<le> 7" "decode_entity e = Some (of_char c)" "(of_char c :: nat) < 128" for e
    using decode_at_amp [OF entity_step_known [OF that(1-3), of r], of out] that(4)
    by (simp add: utf8_char_def bytes_str_def unat_of_nat)
  note K = k [of "''amp''"] k [of "''lt''"] k [of "''gt''"] k [of "''quot''"] k [of "''#39''"] k [of "''#x2F''"] k [of "''#x3D''"]
  show ?thesis
    using K decode_plain [of c out r]
    by (simp add: escape_char_def decode_entity_known split: if_splits)
qed

lemma decode_escape_loop: "decode_entities_loop out (escape_html s) = out @ s"
  by (induction s arbitrary: out) (simp_all add: escape_html_def decode_escaped decode_entities_loop.simps [of _ "[]"])

lemma entities_roundtrip: "decode_entities (escape_html s) = s"
  by (simp add: decode_entities_def decode_escape_loop)

text \<open>
  C14: Only tokens leave the session: whatever was asked of it before, a token that \<open>resolve_token\<close> returns
  has the shape of a JWT, is the one the session keeps for that team from then on, and is either the kept
  token of this very team, not expired at that moment, or the one that signing in gave.
\<close>

theorem resolved_token_is_jwt:
  assumes "resolve_token J W now now' settings (fold (zt_run lower J) ops zt_init) = (s', Inr t)"
  shows "looks_like_jwt J t \<and> zt_cache s' = Some (ts_team settings, t)
    \<and> (zt_cache (fold (zt_run lower J) ops zt_init) = Some (ts_team settings, t) \<and> \<not> jwt_expired J t now
        \<or> sign_in J W now' settings = Inr t)"
proof -
  have "zt_ok J (fold (zt_run lower J) ops zt_init)" by (rule zt_fold_ok) (simp add: zt_ok_def zt_init_def)
  with resolve_token_cases [OF assms] show ?thesis by (auto simp: zt_ok_def sign_in_jwt)
qed

definition demo_jwt :: string where
  "demo_jwt = ''aaaaaaaaaaaa.bbbbbbbbbbbb.cccccccccccc''"

definition demo_ext :: jwt_ext where
  "demo_ext = \<lparr>jx_decode = \<lambda>_. Some [], jx_json = \<lambda>_. None\<rparr>"

definition demo_world :: zt_world where
  "demo_world = \<lparr>zw_show_status = show_nat, zw_client = None, zw_landing = \<lambda>_. Inl [], zw_send_code = \<lambda>_ _. Inl [],
     zw_confirm = \<lambda>_ _ _. Inl [], zw_service = \<lambda>_ _ _. SvcSendFails [], zw_prompt = \<lambda>_ _. Inr []\<rparr>"

lemma demo_jwt_ok: "looks_like_jwt demo_ext demo_jwt"
proof -
  have "trim demo_jwt = demo_jwt"
    by (rule trim_id [OF refl]) (simp_all add: demo_jwt_def as_bytes_def)
  then show ?thesis
    by (simp add: looks_like_jwt_def Let_def) (simp add: demo_jwt_def demo_ext_def is_alnum_def is_alpha_def is_digit_def)
qed

theorem resolved_token_is_jwt_witness:
  "looks_like_jwt demo_ext demo_jwt
   \<and> zt_cache (fst (resolve_token demo_ext demo_world 0 0
        \<lparr>ts_team = ''acme'', ts_client_id = None, ts_client_secret = None, ts_token = Some demo_jwt, ts_email = None\<rparr> zt_init))
     = Some (''acme'', demo_jwt)"
proof -
  let ?st = "\<lparr>ts_team = ''acme'', ts_client_id = None, ts_client_secret = None, ts_token = Some demo_jwt, ts_email = None\<rparr>"
  have "\<not> jwt_expired demo_ext demo_jwt 0"
    by (simp add: jwt_expired_def jwt_expiry_def demo_ext_def Let_def Option.bind_def split: option.split)
  then have "sign_in demo_ext demo_world 0 ?st = Inr demo_jwt" by (simp add: sign_in_def demo_jwt_ok)
  then have r: "resolve_token demo_ext demo_world 0 0 ?st (fold (zt_run (\<lambda>s. s) demo_ext) [OpClear] zt_init)
      = (zt_init\<lparr>zt_cache := Some (''acme'', demo_jwt)\<rparr>, Inr demo_jwt)"
    by (simp add: resolve_token_def zt_init_def clear_token_def Let_def)
  show ?thesis using resolved_token_is_jwt [OF r] r by (simp add: zt_init_def clear_token_def)
qed

text \<open>
  A token that was stored by hand is kept under the empty team name, which no team of the environment
  has: \<open>resolve_token\<close> drops it and signs in instead.
\<close>

lemma stored_token_is_dropped:
  assumes "store_token J now token s = (s1, Inr ())" "team_from_env lower env = Some settings"
  shows "snd (resolve_token J W now1 now2 settings s1) = sign_in J W now2 settings
    \<and> zt_cache (fst (resolve_token J W now1 now2 settings s1)) \<noteq> Some ([], trim token)"
proof -
  have "ts_team settings \<noteq> []" using assms(2) normalize_team_chars by (fastforce simp: team_from_env_def bind_eq_Some_conv)
  moreover have "zt_cache s1 = Some ([], trim token)" using assms(1) by (auto simp: store_token_def Let_def split: if_splits)
  ultimately show ?thesis by (auto simp: resolve_token_def Let_def split: sum.splits)
qed

end
