(* ===== verification/Checksum.thy ===== *)
theory Checksum
  imports Net
begin

text \<open>
  The Internet checksum. The core has six copies of the same loop (\<open>exitip.rs\<close>, \<open>tun.rs\<close>,
  \<open>masque.rs\<close>, two in \<open>wireguard.rs\<close>, \<open>socks_upstream.rs\<close>); each is a definition here, built from the
  two loops \<open>ones_complement_sum\<close> and \<open>fold_sum\<close>. The accumulator is a \<open>u32\<close>, so that overflow
  is part of the model. The interface \<open>internet_checksum\<close> states what a checksum function
  promises; what follows from it (a receiver that sums a packet whose checksum field was filled in
  gets zero) is proved once and holds of every copy.
\<close>

section \<open>The loops\<close>

fun ones_complement_sum :: "bytes \<Rightarrow> u32 \<Rightarrow> u32" where
  "ones_complement_sum (a # b # r) acc = ones_complement_sum r (acc + ucast (be_u16 a b))"
| "ones_complement_sum [a] acc = acc + push_bit 8 (ucast a)"
| "ones_complement_sum [] acc = acc"

lemma fold_sum_decreases:
  assumes "drop_bit 16 (acc::u32) \<noteq> 0"
  shows "unat ((acc AND 0xffff) + drop_bit 16 acc) < unat acc"
    and "unat ((acc AND 0xffff) + drop_bit 16 acc) = unat acc mod 65536 + unat acc div 65536"
proof -
  have lo: "unat (acc AND 0xffff) = unat acc mod 65536"
    using unat_and_mask [of acc 16] by (simp add: mask_eq_exp_minus_1)
  have hi: "unat (drop_bit 16 acc) = unat acc div 65536"
    by (simp only: unat_drop_bit_eq drop_bit_eq_div [of 16 "unat acc"]) simp
  have "unat acc div 65536 < 65536" using unat_u32_less [of acc] by linarith
  then have "unat acc mod 65536 + unat acc div 65536 < 2 ^ LENGTH(32)"
    using mod_less_divisor [of 65536 "unat acc"] by simp
  then show eq: "unat ((acc AND 0xffff) + drop_bit 16 acc) = unat acc mod 65536 + unat acc div 65536"
    by (simp add: unat_word_ariths lo hi)
  have "unat acc div 65536 \<noteq> 0"
    using assms hi by (metis unat_eq_zero)
  then have "unat acc div 65536 < 65536 * (unat acc div 65536)" by linarith
  then show "unat ((acc AND 0xffff) + drop_bit 16 acc) < unat acc"
    unfolding eq using mult_div_mod_eq [of 65536 "unat acc"] by linarith
qed

function fold_sum :: "u32 \<Rightarrow> u16" where
  "fold_sum acc =
     (if drop_bit 16 acc \<noteq> 0 then fold_sum ((acc AND 0xffff) + drop_bit 16 acc)
      else NOT (ucast acc))"
  by pat_completeness auto
termination
  by (relation "measure unat") (use fold_sum_decreases in auto)

declare fold_sum.simps [simp del]

section \<open>The checksum functions of the sources\<close>

text \<open>\<open>masque.rs\<close>, \<open>wireguard.rs\<close> (IPv4 header and ICMP body), \<open>socks_upstream.rs\<close>.\<close>

definition ipv4_header_checksum :: "bytes \<Rightarrow> u16" where
  "ipv4_header_checksum header = fold_sum (ones_complement_sum header 0)"

definition ipv4_checksum :: "bytes \<Rightarrow> u16" where
  "ipv4_checksum header = fold_sum (ones_complement_sum header 0)"

definition icmp_checksum :: "bytes \<Rightarrow> u16" where
  "icmp_checksum body = fold_sum (ones_complement_sum body 0)"

definition su_ones_complement_sum :: "bytes \<Rightarrow> u16" where
  "su_ones_complement_sum data = fold_sum (ones_complement_sum data 0)"

definition ip_checksum :: "bytes \<Rightarrow> u16 rust" where
  "ip_checksum pkt = do { h \<leftarrow> slice_of pkt 0 20; Some (su_ones_complement_sum h) }"

definition pseudo_header :: "u32 \<Rightarrow> u32 \<Rightarrow> u8 \<Rightarrow> bytes \<Rightarrow> bytes" where
  "pseudo_header src dst proto segment =
     v4_octets src @ v4_octets dst @ [0, proto] @ u16_bytes (of_nat (length segment)) @ segment"

definition tcp_checksum :: "u32 \<Rightarrow> u32 \<Rightarrow> bytes \<Rightarrow> u16" where
  "tcp_checksum src_ip dst_ip tcp_segment =
     su_ones_complement_sum (pseudo_header src_ip dst_ip 6 tcp_segment)"

definition udp_checksum :: "u32 \<Rightarrow> u32 \<Rightarrow> bytes \<Rightarrow> u16" where
  "udp_checksum src_ip dst_ip udp_segment =
     (let cksum = su_ones_complement_sum (pseudo_header src_ip dst_ip 17 udp_segment)
      in if cksum = 0 then 0xFFFF else cksum)"

section \<open>Specification: sums modulo 65535\<close>

fun sum16 :: "bytes \<Rightarrow> nat" where
  "sum16 (a # b # r) = unat a * 256 + unat b + sum16 r"
| "sum16 [a] = unat a * 256"
| "sum16 [] = 0"

text \<open>The representative of a one's complement sum: 0 only for 0, otherwise in 1..65535.\<close>

definition oc_norm :: "nat \<Rightarrow> nat" where
  "oc_norm s = (if s = 0 then 0 else (s - 1) mod 65535 + 1)"

lemma oc_norm_le: "oc_norm s \<le> 65535"
proof -
  have "(s - 1) mod 65535 < 65535" by (rule mod_less_divisor) simp
  then show ?thesis unfolding oc_norm_def by (simp only: split: if_split) linarith
qed

lemma oc_norm_small: "s < 65536 \<Longrightarrow> oc_norm s = s"
  by (auto simp: oc_norm_def)

lemma oc_norm_cong: "s mod 65535 = t mod 65535 \<Longrightarrow> s \<noteq> 0 \<Longrightarrow> t \<noteq> 0 \<Longrightarrow> oc_norm s = oc_norm t"
proof -
  have pred: "(u - 1) mod 65535 = (u + 65534) mod 65535" if "u \<noteq> 0" for u :: nat
  proof -
    from that obtain k where "u = Suc k" using not0_implies_Suc by blast
    then show ?thesis by simp
  qed
  assume "s mod 65535 = t mod 65535" "s \<noteq> 0" "t \<noteq> 0"
  then have "(s - 1) mod 65535 = (t - 1) mod 65535"
    by (metis pred mod_add_left_eq)
  then show ?thesis using \<open>s \<noteq> 0\<close> \<open>t \<noteq> 0\<close> by (simp add: oc_norm_def)
qed

lemma oc_norm_mod: "oc_norm s mod 65535 = s mod 65535"
proof (cases s)
  case 0
  then show ?thesis by (simp add: oc_norm_def)
next
  case (Suc k)
  then show ?thesis by (simp add: oc_norm_def mod_Suc_eq)
qed

lemma sum16_append: "even (length xs) \<Longrightarrow> sum16 (xs @ ys) = sum16 xs + sum16 ys"
  by (induction xs rule: sum16.induct) simp_all

lemma sum16_bound: "sum16 xs \<le> 65535 * ((length xs + 1) div 2)"
proof (induction xs rule: sum16.induct)
  case (1 a b r)
  have "unat a * 256 + unat b \<le> 65535" using unat_u8_less [of a] unat_u8_less [of b] by linarith
  with 1 show ?case by simp
next
  case (2 a)
  have "unat a * 256 \<le> 65535" using unat_u8_less [of a] by linarith
  then show ?case by simp
qed simp

lemma sum16_u16_bytes: "sum16 (u16_bytes w) = unat w"
proof -
  have "unat w div 256 < 256" using unat_u16_less [of w] by linarith
  then show ?thesis by (simp add: u16_bytes_eq)
qed

lemma ones_complement_sum_spec:
  "unat s + sum16 xs < 4294967296 \<Longrightarrow> unat (ones_complement_sum xs s) = unat s + sum16 xs"
proof (induction xs s rule: ones_complement_sum.induct)
  case (1 a b r s)
  have w: "unat (ucast (be_u16 a b) :: u32) = unat a * 256 + unat b"
  proof -
    have "unat (be_u16 a b) < 4294967296" using unat_u16_less [of "be_u16 a b"] by linarith
    then show ?thesis
      by (simp only: unsigned_ucast_eq) (simp add: take_bit_eq_mod unat_be_u16)
  qed
  have "unat (s + ucast (be_u16 a b)) = unat s + (unat a * 256 + unat b)"
    using "1.prems" by (simp add: unat_word_ariths w)
  with "1.IH" "1.prems" show ?case by simp
next
  case (2 a s)
  have "unat (push_bit 8 (ucast a) :: u32) = unat a * 256"
  proof -
    have "unat a * 256 < 4294967296" using unat_u8_less [of a] by linarith
    then show ?thesis
      by (simp add: push_bit_eq_mult unat_word_ariths unsigned_ucast_eq take_bit_eq_mod)
  qed
  with 2 show ?case by (simp add: unat_word_ariths)
qed simp

lemma unat_NOT_u16: "unat (NOT (w::u16)) = 65535 - unat w"
proof -
  have "NOT w = - w - 1" by (simp add: not_eq_complement)
  then have "NOT w = (- 1) - w" by simp
  moreover have "w \<le> - 1" by simp
  then have "unat (- 1 - w) = unat (- 1 :: u16) - unat w" by (simp add: word_le_nat_alt unat_sub)
  moreover have "unat (- 1 :: u16) = 65535"
    by (simp add: unsigned_minus_1_eq_mask mask_eq_exp_minus_1)
  ultimately show ?thesis by simp
qed

lemma fold_sum_spec: "unat (fold_sum s) = 65535 - oc_norm (unat s)"
proof (induction s rule: fold_sum.induct)
  case (1 s)
  show ?case
  proof (cases "drop_bit 16 s = 0")
    case True
    have "unat (drop_bit 16 s) = unat s div 65536"
      by (simp only: unat_drop_bit_eq drop_bit_eq_div [of 16 "unat s"]) simp
    with True have small: "unat s < 65536" by simp
    then have "unat (ucast s :: u16) = unat s"
      by (simp add: unsigned_ucast_eq take_bit_eq_mod)
    with True small show ?thesis
      by (simp add: fold_sum.simps [of s] unat_NOT_u16 oc_norm_small)
  next
    case False
    let ?t = "unat s mod 65536 + unat s div 65536"
    have t: "unat ((s AND 0xffff) + drop_bit 16 s) = ?t" by (rule fold_sum_decreases(2) [OF False])
    have s: "unat s = 65536 * (unat s div 65536) + unat s mod 65536" by simp
    have "unat s = ?t + 65535 * (unat s div 65536)" using s by linarith
    then have "unat s mod 65535 = ?t mod 65535" by (metis mod_mult_self2)
    moreover have "unat s \<noteq> 0" using False by (metis drop_bit_of_0 unat_eq_zero)
    moreover from this have "?t \<noteq> 0" using s by auto
    ultimately have "oc_norm (unat s) = oc_norm ?t" by (rule oc_norm_cong)
    with "1.IH" [OF False] t False show ?thesis by (simp add: fold_sum.simps [of s])
  qed
qed

section \<open>The interface of a checksum\<close>

text \<open>A buffer of at most 131070 bytes cannot overflow the 32-bit accumulator.\<close>

lemma sum16_no_overflow: "length xs \<le> 131070 \<Longrightarrow> sum16 xs < 4294967296"
proof -
  assume "length xs \<le> 131070"
  then have "65535 * ((length xs + 1) div 2) \<le> 65535 * 65535" by (intro mult_le_mono2) linarith
  with sum16_bound [of xs] show ?thesis by linarith
qed

locale internet_checksum =
  fixes csum :: "bytes \<Rightarrow> u16"
  assumes csum_spec: "length xs \<le> 131070 \<Longrightarrow> unat (csum xs) = 65535 - oc_norm (sum16 xs)"
begin

lemma csum_zero_iff: "length xs \<le> 131070 \<Longrightarrow> csum xs = 0 \<longleftrightarrow> oc_norm (sum16 xs) = 65535"
  using csum_spec [of xs] oc_norm_le [of "sum16 xs"]
  by (metis diff_is_0_eq le_antisym le_refl unat_eq_zero diff_self_eq_0)

lemma csum_cong: "length xs \<le> 131070 \<Longrightarrow> length ys \<le> 131070 \<Longrightarrow> sum16 xs = sum16 ys \<Longrightarrow> csum xs = csum ys"
  by (metis csum_spec word_unat_eq_iff)

text \<open>
  Filling the checksum into a field that held zero makes the whole buffer sum to zero:
  what a receiver checks.
\<close>

lemma filled_sum:
  assumes "even (length pre)" and "length (pre @ [0, 0] @ post) \<le> 131070"
    and "c = csum (pre @ [0, 0] @ post)"
  shows "csum (pre @ u16_bytes c @ post) = 0"
proof -
  let ?s = "sum16 (pre @ [0, 0] @ post)"
  have s: "?s = sum16 pre + sum16 post" using assms(1) by (simp add: sum16_append)
  have "unat c = 65535 - oc_norm ?s" using assms(2,3) csum_spec by simp
  then have c: "unat c + oc_norm ?s = 65535" using oc_norm_le [of ?s] by linarith
  have t: "sum16 (pre @ u16_bytes c @ post) = ?s + unat c"
    using assms(1) s by (simp add: sum16_append sum16_u16_bytes)
  have "(?s + unat c) mod 65535 = (oc_norm ?s + unat c) mod 65535"
    by (metis mod_add_left_eq oc_norm_mod)
  also have "\<dots> = 65535 mod 65535" using c by (simp add: add.commute)
  finally have "(?s + unat c) mod 65535 = 65535 mod 65535" .
  moreover have "?s + unat c \<noteq> 0"
  proof
    assume "?s + unat c = 0"
    then have "?s = 0" "unat c = 0" by simp_all
    with c show False by (simp add: oc_norm_def)
  qed
  ultimately have "oc_norm (?s + unat c) = oc_norm 65535" by (rule oc_norm_cong) simp
  then have "oc_norm (sum16 (pre @ u16_bytes c @ post)) = 65535" by (simp add: t oc_norm_def)
  then show ?thesis using assms(2) by (simp add: csum_zero_iff)
qed

end

lemma fold_ones_complement_spec:
  "length xs \<le> 131070 \<Longrightarrow> unat (fold_sum (ones_complement_sum xs 0)) = 65535 - oc_norm (sum16 xs)"
  using ones_complement_sum_spec [of 0 xs] sum16_no_overflow [of xs] by (simp add: fold_sum_spec)

interpretation ex_ck: internet_checksum "\<lambda>xs. fold_sum (ones_complement_sum xs 0)"
  by unfold_locales (rule fold_ones_complement_spec)

interpretation mq_ck: internet_checksum ipv4_header_checksum
  by unfold_locales (simp add: ipv4_header_checksum_def fold_ones_complement_spec)

interpretation wg_ck: internet_checksum ipv4_checksum
  by unfold_locales (simp add: ipv4_checksum_def fold_ones_complement_spec)

interpretation icmp_ck: internet_checksum icmp_checksum
  by unfold_locales (simp add: icmp_checksum_def fold_ones_complement_spec)

interpretation su_ck: internet_checksum su_ones_complement_sum
  by unfold_locales (simp add: su_ones_complement_sum_def fold_ones_complement_spec)

text \<open>An accumulator that already holds other sums: the pseudo-header case.\<close>

lemma fold_sum_zero_iff: "fold_sum s = 0 \<longleftrightarrow> oc_norm (unat s) = 65535"
  using fold_sum_spec [of s] oc_norm_le [of "unat s"]
  by (metis diff_is_0_eq le_antisym le_refl unat_eq_zero diff_self_eq_0)

lemma fold_sum_filled:
  assumes "unat t = unat s + unat (fold_sum s)"
  shows "fold_sum t = 0"
proof -
  have c: "unat (fold_sum s) + oc_norm (unat s) = 65535"
    using fold_sum_spec [of s] oc_norm_le [of "unat s"] by linarith
  have "(unat s + unat (fold_sum s)) mod 65535 = (oc_norm (unat s) + unat (fold_sum s)) mod 65535"
    by (metis mod_add_left_eq oc_norm_mod)
  also have "\<dots> = 65535 mod 65535" using c by (simp add: add.commute)
  finally have "unat t mod 65535 = 65535 mod 65535" using assms by simp
  moreover have "unat t \<noteq> 0"
  proof
    assume "unat t = 0"
    then have "unat s = 0" "unat (fold_sum s) = 0" using assms by simp_all
    with c show False by (simp add: oc_norm_def)
  qed
  ultimately have "oc_norm (unat t) = oc_norm 65535" by (rule oc_norm_cong) simp
  then show ?thesis by (simp add: fold_sum_zero_iff oc_norm_def)
qed


text \<open>UDP writes 0xffff for a checksum of zero; the receiver's sum is the same.\<close>

lemma fold_sum_filled_udp:
  assumes "unat t = unat s + unat (if fold_sum s = 0 then 0xffff else fold_sum s)"
  shows "fold_sum t = 0"
proof (cases "fold_sum s = 0")
  case True
  then have s: "oc_norm (unat s) = 65535" by (simp add: fold_sum_zero_iff)
  have t: "unat t = unat s + 65535" using assms True by simp
  then have "unat t mod 65535 = unat s mod 65535" by simp
  moreover have "unat s \<noteq> 0"
  proof
    assume "unat s = 0"
    with s show False by (simp only: oc_norm_def) simp
  qed
  ultimately have "oc_norm (unat t) = oc_norm (unat s)" using t by (intro oc_norm_cong) auto
  then show ?thesis by (simp add: fold_sum_zero_iff s)
next
  case False
  with assms show ?thesis by (intro fold_sum_filled) simp
qed


text \<open>A checksum field in the middle of a segment, summed on top of a pseudo-header.\<close>

lemma sum_with_field:
  assumes "even (length pre)" and "unat acc + sum16 pre + unat c + sum16 post < 4294967296"
  shows "unat (ones_complement_sum (pre @ u16_bytes c @ post) acc)
     = unat (ones_complement_sum (pre @ [0, 0] @ post) acc) + unat c"
proof -
  have "sum16 (pre @ u16_bytes c @ post) = sum16 pre + unat c + sum16 post"
    "sum16 (pre @ [0, 0] @ post) = sum16 pre + sum16 post"
    using assms(1) by (simp_all add: sum16_append sum16_u16_bytes)
  with assms(2) show ?thesis by (simp add: ones_complement_sum_spec del: append_Cons)
qed

lemma field_filled:
  assumes "even (length pre)" and "unat acc + sum16 pre + 65535 + sum16 post < 4294967296"
    and "c = fold_sum (ones_complement_sum (pre @ [0, 0] @ post) acc)"
  shows "fold_sum (ones_complement_sum (pre @ u16_bytes c @ post) acc) = 0"
proof -
  have "unat c \<le> 65535" using unat_u16_less [of c] by linarith
  then have "unat acc + sum16 pre + unat c + sum16 post < 4294967296" using assms(2) by linarith
  from sum_with_field [OF assms(1) this] show ?thesis unfolding assms(3) by (rule fold_sum_filled)
qed

lemma field_filled_udp:
  assumes "even (length pre)" and "unat acc + sum16 pre + 65535 + sum16 post < 4294967296"
    and "s = ones_complement_sum (pre @ [0, 0] @ post) acc" and "c = (if fold_sum s = 0 then 0xffff else fold_sum s)"
  shows "fold_sum (ones_complement_sum (pre @ u16_bytes c @ post) acc) = 0"
proof -
  have "unat c \<le> 65535" using unat_u16_less [of c] by linarith
  then have "unat acc + sum16 pre + unat c + sum16 post < 4294967296" using assms(2) by linarith
  from sum_with_field [OF assms(1) this] show ?thesis
    unfolding assms(3) [symmetric] unfolding assms(4) by (rule fold_sum_filled_udp)
qed

end
