(* ===== verification/SocksUpstream.thy ===== *)
theory SocksUpstream
  imports Checksum Text
begin

text \<open>
  The bridge from a TUN device to an upstream SOCKS5 proxy (\<open>socks_upstream.rs\<close>): the client side of the
  SOCKS5 handshake, the construction of TCP and UDP packets, the user-space TCP endpoint with its
  connection table, and the DNS forwarder with its cache.

  The table maps a source port to a connection. The two counters of a connection are shared between
  the packet handler and the task that reads from the proxy, also after the table entry has been
  replaced, so they are cells of an explicit store, as are the channels to the writer tasks. Tasks
  that the code spawns are entries of the state until a step completes them.
\<close>

section \<open>SOCKS5 client\<close>

definition read_exact :: "nat \<Rightarrow> bytes \<Rightarrow> (bytes \<times> bytes) option" where
  "read_exact n input = (if n \<le> length input then Some (take n input, drop n input) else None)"

definition show_bytes :: "bytes \<Rightarrow> string" where
  "show_bytes bs = ''['' @ (case map (\<lambda>b. show_nat (unat b)) bs of [] \<Rightarrow> [] | x # xs \<Rightarrow> x @ concat (map (\<lambda>y. '', '' @ y) xs)) @ '']''"

text \<open>
  The peer is the bytes it will send; the result is what was written, what came of it and the unread
  rest. A connection that ends early is an I/O error.
\<close>

definition eof_error :: aether_error where "eof_error = ErrIo ''early eof''"

definition socks5_handshake :: "bytes \<Rightarrow> bytes \<times> unit result \<times> bytes" where
  "socks5_handshake input =
     ([0x05, 0x01, 0x00],
      case read_exact 2 input of
        None \<Rightarrow> (Inl eof_error, input)
      | Some (buf, rest) \<Rightarrow>
          (if buf \<noteq> [0x05, 0x00] then Inl (ErrOther (''SOCKS5 auth failure: '' @ show_bytes buf)) else Inr (), rest))"

definition socks5_request :: "ip_addr \<Rightarrow> u16 \<Rightarrow> bytes" where
  "socks5_request ip port =
     [0x05, 0x01, 0x00]
     @ (case ip of V4 v4 \<Rightarrow> 0x01 # v4_octets v4 | V6 v6 \<Rightarrow> 0x04 # v6_octets v6)
     @ u16_bytes port"

definition socks5_skip_addr :: "u8 \<Rightarrow> bytes \<Rightarrow> bytes option" where
  "socks5_skip_addr atyp input =
     (if atyp = 0x01 then map_option snd (read_exact 4 input)
      else if atyp = 0x03 then
        (case read_exact 1 input of
           None \<Rightarrow> None
         | Some (l, rest) \<Rightarrow> map_option snd (read_exact (unat (hd l)) rest))
      else if atyp = 0x04 then map_option snd (read_exact 16 input)
      else Some input)"

definition socks5_connect :: "ip_addr \<Rightarrow> u16 \<Rightarrow> bytes \<Rightarrow> bytes \<times> unit result \<times> bytes" where
  "socks5_connect ip port input =
     (socks5_request ip port,
      case read_exact 4 input of
        None \<Rightarrow> (Inl eof_error, input)
      | Some (hdr, rest) \<Rightarrow>
          if hdr ! 1 \<noteq> 0x00 then (Inl (ErrOther (''SOCKS5 CONNECT reply: '' @ show_nat (unat (hdr ! 1)))), rest)
          else (case socks5_skip_addr (hdr ! 3) rest of
                  None \<Rightarrow> (Inl eof_error, rest)
                | Some rest \<Rightarrow>
                    (case read_exact 2 rest of
                       None \<Rightarrow> (Inl eof_error, rest)
                     | Some (_, rest) \<Rightarrow> (Inr (), rest))))"

text \<open>Errors after which the connect is tried again.\<close>

definition transient_error :: "string \<Rightarrow> bool" where
  "transient_error err_str \<longleftrightarrow> contains ''Connection refused'' err_str \<or> contains ''reset'' err_str
     \<or> contains ''reply: 1'' err_str \<or> contains ''reply: 4'' err_str \<or> contains ''reply: 5'' err_str"

section \<open>Packets\<close>

definition su_tcp_flags :: "bytes \<Rightarrow> nat \<Rightarrow> (bool \<times> bool \<times> bool) rust" where
  "su_tcp_flags buf ihl =
     (if length buf < ihl + 14 then Some (False, False, False)
      else do {
        flags \<leftarrow> idx buf (ihl + 13);
        Some (flags AND 0x02 \<noteq> 0, flags AND 0x10 \<noteq> 0, flags AND 0x01 \<noteq> 0) })"

definition is_rst_flag :: "bytes \<Rightarrow> bool" where
  "is_rst_flag tcp \<longleftrightarrow> length tcp > 13 \<and> tcp ! 13 AND 0x04 \<noteq> 0"

text \<open>
  The packets are laid out field by field; the checksum field is zero while the checksum is computed.
\<close>

definition su_ip_header :: "nat \<Rightarrow> u8 \<Rightarrow> u32 \<Rightarrow> u32 \<Rightarrow> bytes \<Rightarrow> bytes" where
  "su_ip_header ip_len proto src_ip dst_ip cksum =
     [0x45, 0x00] @ u16_bytes (of_nat ip_len) @ [0, 0] @ [0x40, 0x00] @ [64, proto] @ cksum
     @ v4_octets src_ip @ v4_octets dst_ip"

definition tcp_segment ::
  "u16 \<Rightarrow> u16 \<Rightarrow> u32 \<Rightarrow> u32 \<Rightarrow> u8 \<Rightarrow> bytes \<Rightarrow> bool \<Rightarrow> bytes \<Rightarrow> bytes" where
  "tcp_segment src_port dst_port seq ack flags payload with_mss cksum =
     u16_bytes src_port @ u16_bytes dst_port @ u32_bytes seq @ u32_bytes ack
     @ [push_bit 4 (of_nat ((20 + (if with_mss then 4 else 0)) div 4)), flags] @ u16_bytes 65535 @ cksum
     @ u16_bytes 0 @ (if with_mss then [0x02, 0x04] @ u16_bytes 1240 else []) @ payload"

definition send_tcp_ex ::
  "u32 \<Rightarrow> u32 \<Rightarrow> u16 \<Rightarrow> u16 \<Rightarrow> u32 \<Rightarrow> u32 \<Rightarrow> u8 \<Rightarrow> bytes \<Rightarrow> bool \<Rightarrow> bytes rust" where
  "send_tcp_ex src_ip dst_ip src_port dst_port seq ack flags payload with_mss =
     (let tcp_hdr_len = 20 + (if with_mss then 4 else 0);
          ip_len = 20 + (tcp_hdr_len + length payload);
          seg = tcp_segment src_port dst_port seq ack flags payload with_mss
      in do {
        ip_cksum \<leftarrow> ip_checksum (su_ip_header ip_len 6 src_ip dst_ip [0, 0]);
        Some (su_ip_header ip_len 6 src_ip dst_ip (u16_bytes ip_cksum)
              @ seg (u16_bytes (tcp_checksum src_ip dst_ip (seg [0, 0])))) })"

definition send_tcp :: "u32 \<Rightarrow> u32 \<Rightarrow> u16 \<Rightarrow> u16 \<Rightarrow> u32 \<Rightarrow> u32 \<Rightarrow> u8 \<Rightarrow> bytes \<Rightarrow> bytes rust" where
  "send_tcp src_ip dst_ip src_port dst_port seq ack flags payload =
     send_tcp_ex src_ip dst_ip src_port dst_port seq ack flags payload False"

definition udp_segment :: "u16 \<Rightarrow> u16 \<Rightarrow> bytes \<Rightarrow> bytes \<Rightarrow> bytes" where
  "udp_segment src_port dst_port payload cksum =
     u16_bytes src_port @ u16_bytes dst_port @ u16_bytes (of_nat (8 + length payload)) @ cksum @ payload"

definition send_udp :: "u32 \<Rightarrow> u32 \<Rightarrow> u16 \<Rightarrow> u16 \<Rightarrow> bytes \<Rightarrow> bytes rust" where
  "send_udp src_ip dst_ip src_port dst_port payload =
     (let ip_len = 20 + (8 + length payload);
          seg = udp_segment src_port dst_port payload
      in do {
        ip_cksum \<leftarrow> ip_checksum (su_ip_header ip_len 17 src_ip dst_ip [0, 0]);
        Some (su_ip_header ip_len 17 src_ip dst_ip (u16_bytes ip_cksum)
              @ seg (u16_bytes (udp_checksum src_ip dst_ip (seg [0, 0])))) })"

section \<open>State\<close>

record tcp_conn =
  tc_data_tx :: "nat option"
  tc_ack_shared :: nat
  tc_seq_shared :: nat
  tc_isn :: u32
  tc_connecting :: bool

text \<open>A spawned connect task and a spawned reader task remember the addresses, ports and cells they captured.\<close>

record connect_task =
  ct_src :: u32
  ct_dst :: u32
  ct_sport :: u16
  ct_dport :: u16
  ct_seq_num :: u32
  ct_isn :: u32
  ct_ack :: nat
  ct_seq :: nat

record reader_task =
  rt_tun_ip :: u32
  rt_remote_ip :: u32
  rt_tun_port :: u16
  rt_remote_port :: u16
  rt_seq :: nat
  rt_ack :: nat

text \<open>
  \<open>su_queue\<close> is the content of a channel to a writer task, \<open>su_closed\<close> whether that task has ended, \<open>su_sent\<close> what that task has already written to the
  proxy, \<open>su_tun\<close> the packets written to the device.
\<close>

record su_state =
  su_conns :: "u16 \<Rightarrow> tcp_conn option"
  su_cells :: "nat \<Rightarrow> u32"
  su_queue :: "nat \<Rightarrow> bytes list"
  su_closed :: "nat \<Rightarrow> bool"
  su_sent :: "nat \<Rightarrow> bytes"
  su_next :: nat
  su_connects :: "connect_task list"
  su_readers :: "reader_task list"
  su_tun :: "bytes list"

definition CHANNEL_CAP :: nat where "CHANNEL_CAP = 128"

definition emit_packet :: "bytes rust \<Rightarrow> su_state \<Rightarrow> su_state rust" where
  "emit_packet pkt st = do { p \<leftarrow> pkt; Some (st\<lparr>su_tun := su_tun st @ [p]\<rparr>) }"

definition v4_is_private :: "u32 \<Rightarrow> bool" where
  "v4_is_private a \<longleftrightarrow>
     (case v4_octets a of
        [o0, o1, o2, o3] \<Rightarrow> o0 = 10 \<or> (o0 = 172 \<and> 16 \<le> o1 \<and> o1 \<le> 31) \<or> (o0 = 192 \<and> o1 = 168)
      | _ \<Rightarrow> False)"


section \<open>The packet handler\<close>

definition on_syn :: "u32 \<Rightarrow> u32 \<Rightarrow> u16 \<Rightarrow> u16 \<Rightarrow> u32 \<Rightarrow> u32 \<Rightarrow> su_state \<Rightarrow> (u64 \<times> su_state) rust" where
  "on_syn src_ip dst_ip sport dport seq_num isn st =
     (if v4_is_private dst_ip then do {
        st \<leftarrow> emit_packet (send_tcp dst_ip src_ip dport sport 0 (seq_num + 1) 0x14 []) st;
        Some (64, st) }
      else (case su_conns st sport of
        Some conn \<Rightarrow>
          if \<not> tc_connecting conn then do {
            st \<leftarrow> emit_packet (send_tcp_ex dst_ip src_ip dport sport (tc_isn conn)
                                (su_cells st (tc_ack_shared conn)) 0x12 [] True) st;
            Some (64, st) }
          else Some (64, st)
      | None \<Rightarrow>
          (let a = su_next st; s = a + 1 in
           Some (64, st\<lparr>su_cells := (su_cells st)(a := seq_num + 1, s := isn), su_next := a + 2,
                        su_conns := (su_conns st)(sport \<mapsto>
                          \<lparr>tc_data_tx = None, tc_ack_shared = a, tc_seq_shared = s, tc_isn = isn, tc_connecting = True\<rparr>),
                        su_connects := su_connects st @
                          [\<lparr>ct_src = src_ip, ct_dst = dst_ip, ct_sport = sport, ct_dport = dport,
                            ct_seq_num = seq_num, ct_isn = isn, ct_ack = a, ct_seq = s\<rparr>]\<rparr>))))"

datatype su_action = Forward nat "nat option" | AckOnly

text \<open>What of a data segment is new, and the acknowledgement that goes with it.\<close>

definition data_action :: "u32 \<Rightarrow> nat \<Rightarrow> tcp_conn \<Rightarrow> (nat \<Rightarrow> u32) \<Rightarrow> su_action \<times> (nat \<Rightarrow> u32)" where
  "data_action seq_num payload_len conn cells =
     (let expected = cells (tc_ack_shared conn);
          behind = sint (expected - seq_num);
          advanced = cells(tc_ack_shared conn := seq_num + of_nat payload_len)
      in if behind = 0 then (Forward 0 (tc_data_tx conn), advanced)
         else if behind > 0 then
           (if nat behind \<ge> payload_len then (AckOnly, cells)
            else (Forward (nat behind) (tc_data_tx conn), advanced))
         else (AckOnly, cells))"

text \<open>\<open>try_send\<close>: a full or closed channel drops the message, which the code only logs.\<close>

definition try_send :: "nat \<Rightarrow> bytes \<Rightarrow> su_state \<Rightarrow> su_state" where
  "try_send ch data st =
     (if length (su_queue st ch) < CHANNEL_CAP \<and> \<not> su_closed st ch
      then st\<lparr>su_queue := (su_queue st)(ch := su_queue st ch @ [data])\<rparr> else st)"

definition on_data :: "u32 \<Rightarrow> u32 \<Rightarrow> u16 \<Rightarrow> u16 \<Rightarrow> u32 \<Rightarrow> bytes \<Rightarrow> su_state \<Rightarrow> (u64 \<times> su_state) rust" where
  "on_data src_ip dst_ip sport dport seq_num payload st =
     (case su_conns st sport of
        None \<Rightarrow> Some (0, st)
      | Some conn \<Rightarrow>
          if tc_connecting conn then Some (0, st)
          else (case data_action seq_num (length payload) conn (su_cells st) of (act, cells) \<Rightarrow> do {
            let st = st\<lparr>su_cells := cells\<rparr>;
            st \<leftarrow> (case act of
                    Forward off (Some ch) \<Rightarrow> do { slice \<leftarrow> slice_from payload off; Some (try_send ch slice st) }
                  | _ \<Rightarrow> Some st);
            case su_conns st sport of
              None \<Rightarrow> Some (of_nat (length payload), st)
            | Some conn \<Rightarrow> do {
                st \<leftarrow> emit_packet (send_tcp dst_ip src_ip dport sport (su_cells st (tc_seq_shared conn))
                                    (su_cells st (tc_ack_shared conn)) 0x10 []) st;
                Some (of_nat (length payload), st) } }))"

definition be_u32 :: "u8 \<Rightarrow> u8 \<Rightarrow> u8 \<Rightarrow> u8 \<Rightarrow> u32" where
  "be_u32 a b c d = of_nat (be_val [a, b, c, d])"

definition field32 :: "bytes \<Rightarrow> nat \<Rightarrow> u32 rust" where
  "field32 msg i = do {
     a \<leftarrow> idx msg i; b \<leftarrow> idx msg (i + 1); c \<leftarrow> idx msg (i + 2); d \<leftarrow> idx msg (i + 3); Some (be_u32 a b c d) }"

definition handle_tcp :: "bytes \<Rightarrow> nat \<Rightarrow> u32 \<Rightarrow> u32 \<Rightarrow> u32 \<Rightarrow> su_state \<Rightarrow> (u64 \<times> su_state) rust" where
  "handle_tcp packet ihl src_ip dst_ip isn st =
     (if length packet < ihl + 20 then Some (0, st)
      else do {
        tcp \<leftarrow> slice_from packet ihl;
        sport \<leftarrow> field16 tcp 0;
        dport \<leftarrow> field16 tcp 2;
        seq_num \<leftarrow> field32 tcp 4;
        ack_num \<leftarrow> field32 tcp 8;
        b12 \<leftarrow> idx tcp 12;
        let tcp_hdr_len = unat (drop_bit 4 b12) * 4;
        (is_syn, is_ack, is_fin) \<leftarrow> su_tcp_flags packet ihl;
        let payload_len = (if length tcp > tcp_hdr_len then length tcp - tcp_hdr_len else 0);
        payload \<leftarrow> slice_of tcp tcp_hdr_len (length tcp);
        if is_fin \<or> is_rst_flag tcp then Some (0, st\<lparr>su_conns := (su_conns st)(sport := None)\<rparr>)
        else if is_syn then on_syn src_ip dst_ip sport dport seq_num isn st
        else if is_ack \<and> payload_len > 0 then on_data src_ip dst_ip sport dport seq_num payload st
        else Some (0, st) })"

section \<open>The spawned tasks\<close>

definition connect_ok :: "connect_task \<Rightarrow> su_state \<Rightarrow> su_state rust" where
  "connect_ok ct st =
     (case su_conns st (ct_sport ct) of
        Some c \<Rightarrow>
          if tc_connecting c then
            (let ch = su_next st;
                 st = st\<lparr>su_next := ch + 1, su_queue := (su_queue st)(ch := []), su_closed := (su_closed st)(ch := False),
                         su_sent := (su_sent st)(ch := []),
                         su_cells := (su_cells st)(ct_seq ct := ct_isn ct + 1),
                         su_conns := (su_conns st)(ct_sport ct \<mapsto>
                           \<lparr>tc_data_tx = Some ch, tc_ack_shared = ct_ack ct, tc_seq_shared = ct_seq ct,
                             tc_isn = ct_isn ct, tc_connecting = False\<rparr>),
                         su_readers := su_readers st @
                           [\<lparr>rt_tun_ip = ct_src ct, rt_remote_ip = ct_dst ct, rt_tun_port = ct_sport ct,
                             rt_remote_port = ct_dport ct, rt_seq = ct_seq ct, rt_ack = ct_ack ct\<rparr>]\<rparr>
             in emit_packet (send_tcp_ex (ct_dst ct) (ct_src ct) (ct_dport ct) (ct_sport ct) (ct_isn ct)
                               (su_cells st (ct_ack ct)) 0x12 [] True) st)
          else Some st
      | None \<Rightarrow> Some st)"

definition connect_err :: "connect_task \<Rightarrow> su_state \<Rightarrow> su_state rust" where
  "connect_err ct st = do {
     st \<leftarrow> emit_packet (send_tcp (ct_dst ct) (ct_src ct) (ct_dport ct) (ct_sport ct) 0 (ct_seq_num ct + 1) 0x04 []) st;
     Some (st\<lparr>su_conns := (su_conns st)(ct_sport ct := None)\<rparr>) }"

text \<open>One read from the proxy: a timeout, some bytes (none at the end of the stream) or an error.\<close>

datatype read_event = ReadTimeout | ReadBytes bytes | ReadError

text \<open>The result says whether the reader goes on.\<close>

definition response_reader :: "reader_task \<Rightarrow> read_event \<Rightarrow> su_state \<Rightarrow> (bool \<times> su_state) rust" where
  "response_reader rt ev st =
     (let ack = su_cells st (rt_ack rt);
          seq = su_cells st (rt_seq rt);
          reply = (\<lambda>flags data. send_tcp (rt_remote_ip rt) (rt_tun_ip rt) (rt_remote_port rt) (rt_tun_port rt) seq ack flags data);
          gone = (\<lambda>st. (False, st\<lparr>su_conns := (su_conns st)(rt_tun_port rt := None)\<rparr>))
      in case ev of
           ReadTimeout \<Rightarrow> map_option gone (emit_packet (reply 0x11 []) st)
         | ReadError \<Rightarrow> map_option gone (emit_packet (reply 0x04 []) st)
         | ReadBytes data \<Rightarrow>
             if data = [] then map_option gone (emit_packet (reply 0x11 []) st)
             else map_option (\<lambda>st. (True, st\<lparr>su_cells := (su_cells st)(rt_seq rt := seq + of_nat (length data))\<rparr>))
                    (emit_packet (reply 0x18 data) st))"

text \<open>The writer task takes one message; a failed write ends it.\<close>

definition socks_writer :: "nat \<Rightarrow> bool \<Rightarrow> su_state \<Rightarrow> su_state" where
  "socks_writer ch write_ok st =
     (case su_queue st ch of
        [] \<Rightarrow> st
      | data # r \<Rightarrow>
          if su_closed st ch then st
          else if write_ok then st\<lparr>su_queue := (su_queue st)(ch := r), su_sent := (su_sent st)(ch := su_sent st ch @ data)\<rparr>
          else st\<lparr>su_closed := (su_closed st)(ch := True)\<rparr>)"


section \<open>Packets are valid\<close>

lemma length_su_ip_header [simp]: "length (su_ip_header n proto src dst c) = 18 + length c"
  by (simp add: su_ip_header_def)

lemma length_tcp_segment [simp]:
  "length (tcp_segment sp dp seq ack fl payload mss c) = 18 + (if mss then 4 else 0) + length c + length payload"
  by (simp add: tcp_segment_def)

lemma length_udp_segment [simp]: "length (udp_segment sp dp payload c) = 6 + length c + length payload"
  by (simp add: udp_segment_def)

lemma ip_checksum_header:
  "ip_checksum (su_ip_header n proto src dst [0, 0]) = Some (su_ones_complement_sum (su_ip_header n proto src dst [0, 0]))"
  by (simp add: ip_checksum_def slice_of_def)

lemma ip_header_valid:
  "su_ones_complement_sum (su_ip_header n proto src dst
     (u16_bytes (su_ones_complement_sum (su_ip_header n proto src dst [0, 0])))) = 0"
  using su_ck.filled_sum [of "[0x45, 0x00] @ u16_bytes (of_nat n) @ [0, 0] @ [0x40, 0x00] @ [64, proto]"
      "v4_octets src @ v4_octets dst"]
  by (simp add: su_ip_header_def)

lemma tcp_segment_valid:
  assumes "length payload \<le> 65000"
  shows "tcp_checksum src dst (tcp_segment sp dp seq ack fl payload mss
     (u16_bytes (tcp_checksum src dst (tcp_segment sp dp seq ack fl payload mss [0, 0])))) = 0"
proof -
  define n where "n = (of_nat (20 + (if mss then 4 else 0) + length payload) :: u16)"
  define off where "off = (push_bit 4 (of_nat ((20 + (if mss then 4 else 0)) div 4)) :: u8)"
  let ?pre = "v4_octets src @ v4_octets dst @ [0, 6] @ u16_bytes n @ u16_bytes sp @ u16_bytes dp @ u32_bytes seq
     @ u32_bytes ack @ [off, fl] @ u16_bytes 65535"
  let ?post = "u16_bytes 0 @ (if mss then [0x02, 0x04] @ u16_bytes 1240 else []) @ payload"
  have ph: "pseudo_header src dst 6 (tcp_segment sp dp seq ack fl payload mss c) = ?pre @ c @ ?post" if "length c = 2" for c
    using that by (simp add: pseudo_header_def tcp_segment_def n_def off_def add.assoc)
  have "length (?pre @ [0, 0] @ ?post) \<le> 131070" using assms by simp
  from su_ck.filled_sum [OF _ this refl] show ?thesis
    by (simp add: tcp_checksum_def ph)
qed

lemma udp_segment_valid:
  assumes "length payload \<le> 65000"
  shows "su_ones_complement_sum (pseudo_header src dst 17 (udp_segment sp dp payload
     (u16_bytes (udp_checksum src dst (udp_segment sp dp payload [0, 0]))))) = 0"
proof -
  define n where "n = (of_nat (8 + length payload) :: u16)"
  let ?pre = "v4_octets src @ v4_octets dst @ [0, 17] @ u16_bytes n @ u16_bytes sp @ u16_bytes dp @ u16_bytes n"
  have ph: "pseudo_header src dst 17 (udp_segment sp dp payload c) = ?pre @ c @ payload" if "length c = 2" for c
    using that by (simp add: pseudo_header_def udp_segment_def n_def add.assoc)
  let ?s = "ones_complement_sum (?pre @ [0, 0] @ payload) 0"
  have "sum16 ?pre \<le> 65535 * 10" using sum16_bound [of ?pre] by simp
  moreover have "65535 * ((length payload + 1) div 2) \<le> 65535 * 32500" using assms by (intro mult_le_mono2) simp
  then have "sum16 payload \<le> 65535 * 32500" using sum16_bound [of payload] by linarith
  ultimately have b: "unat (0::u32) + sum16 ?pre + 65535 + sum16 payload < 4294967296" by simp
  have "udp_checksum src dst (udp_segment sp dp payload [0, 0]) = (if fold_sum ?s = 0 then 0xffff else fold_sum ?s)"
    by (simp add: udp_checksum_def ph su_ones_complement_sum_def)
  then show ?thesis
    using field_filled_udp [OF _ b refl refl] by (simp add: ph su_ones_complement_sum_def)
qed

text \<open>
  Every packet that this bridge writes to the device is well formed for the receiving stack. For
  any payload of at most 65000 bytes, building a TCP packet (with or without the MSS option) and a
  UDP packet succeeds, the IPv4 header sums to zero, and so do the TCP and UDP segments with their
  pseudo-headers.
\<close>

lemma su_packets_valid:
  assumes "length payload \<le> 65000"
  shows "(\<exists>ip seg. send_tcp_ex src dst sp dp seq ack fl payload mss = Some (ip @ seg) \<and> length ip = 20
       \<and> length seg = 20 + (if mss then 4 else 0) + length payload
       \<and> su_ones_complement_sum ip = 0 \<and> tcp_checksum src dst seg = 0)
     \<and> (\<exists>ip seg. send_udp src dst sp dp payload = Some (ip @ seg) \<and> length ip = 20 \<and> length seg = 8 + length payload
       \<and> su_ones_complement_sum ip = 0 \<and> su_ones_complement_sum (pseudo_header src dst 17 seg) = 0)"
proof
  let ?ip = "\<lambda>n proto. su_ip_header n proto src dst (u16_bytes (su_ones_complement_sum (su_ip_header n proto src dst [0, 0])))"
  let ?t = "tcp_segment sp dp seq ack fl payload mss"
  let ?n = "20 + ((20 + (if mss then 4 else 0)) + length payload)"
  have "send_tcp_ex src dst sp dp seq ack fl payload mss
      = Some (?ip ?n 6 @ ?t (u16_bytes (tcp_checksum src dst (?t [0, 0]))))"
    by (simp add: send_tcp_ex_def ip_checksum_header Let_def)
  moreover have "length (?t (u16_bytes (tcp_checksum src dst (?t [0, 0])))) = 20 + (if mss then 4 else 0) + length payload"
    by simp
  ultimately show "\<exists>ip seg. send_tcp_ex src dst sp dp seq ack fl payload mss = Some (ip @ seg) \<and> length ip = 20
       \<and> length seg = 20 + (if mss then 4 else 0) + length payload
       \<and> su_ones_complement_sum ip = 0 \<and> tcp_checksum src dst seg = 0"
    using ip_header_valid [of ?n 6 src dst] tcp_segment_valid [OF assms, of src dst sp dp seq ack fl mss]
    by (intro exI [of _ "?ip ?n 6"] exI [of _ "?t (u16_bytes (tcp_checksum src dst (?t [0, 0])))"] conjI) simp_all
  let ?u = "udp_segment sp dp payload"
  let ?m = "20 + (8 + length payload)"
  have "send_udp src dst sp dp payload = Some (?ip ?m 17 @ ?u (u16_bytes (udp_checksum src dst (?u [0, 0]))))"
    by (simp add: send_udp_def ip_checksum_header Let_def)
  then show "\<exists>ip seg. send_udp src dst sp dp payload = Some (ip @ seg) \<and> length ip = 20 \<and> length seg = 8 + length payload
       \<and> su_ones_complement_sum ip = 0 \<and> su_ones_complement_sum (pseudo_header src dst 17 seg) = 0"
    using ip_header_valid [of ?m 17 src dst] udp_segment_valid [OF assms, of src dst sp dp]
    by (intro exI [of _ "?ip ?m 17"] exI [of _ "?u (u16_bytes (udp_checksum src dst (?u [0, 0])))"] conjI) simp_all
qed

lemma su_packets_valid_witness:
  "\<exists>ip seg. send_udp 1 2 53 4000 [7] = Some (ip @ seg) \<and> length seg = 9"
  using su_packets_valid [of "[7]" 1 2 53 4000 0 0 0 False] by auto


section \<open>When the handler panics\<close>

lemma send_tcp_ex_Some: obtains p where "send_tcp_ex a b c d e f g h i = Some p"
  by (simp add: send_tcp_ex_def ip_checksum_header Let_def)

lemma emit_total_ex: "\<exists>st'. emit_packet (send_tcp_ex src dst sp dp seq ack fl payload mss) st = Some st'"
  by (rule send_tcp_ex_Some [of src dst sp dp seq ack fl payload mss]) (simp add: emit_packet_def)

lemma emit_total: "\<exists>st'. emit_packet (send_tcp src dst sp dp seq ack fl payload) st = Some st'"
  unfolding send_tcp_def by (rule emit_total_ex)

lemma on_syn_total: "on_syn src dst sp dp n isn st \<noteq> None"
proof (cases "v4_is_private dst")
  case True
  obtain st' where "emit_packet (send_tcp dst src dp sp 0 (n + 1) 0x14 []) st = Some st'"
    using emit_total by blast
  with True show ?thesis by (simp add: on_syn_def)
next
  case False
  show ?thesis
  proof (cases "su_conns st sp")
    case (Some conn)
    obtain st' where "emit_packet (send_tcp_ex dst src dp sp (tc_isn conn) (su_cells st (tc_ack_shared conn)) 0x12 [] True) st
        = Some st'"
      using emit_total_ex by blast
    with False Some show ?thesis by (simp add: on_syn_def)
  qed (use False in \<open>simp add: on_syn_def Let_def\<close>)
qed

lemma data_action_offset:
  "data_action n len conn cells = (Forward off tx, cells') \<Longrightarrow> 0 < len \<Longrightarrow> off < len"
  by (auto simp: data_action_def Let_def split: if_splits)

lemma on_data_total:
  assumes "payload \<noteq> []"
  shows "on_data src dst sp dp n payload st \<noteq> None"
proof (cases "su_conns st sp")
  case (Some conn)
  obtain act cells where a: "data_action n (length payload) conn (su_cells st) = (act, cells)"
    by (cases "data_action n (length payload) conn (su_cells st)")
  have "\<exists>st'. (case act of
                    Forward off (Some ch) \<Rightarrow> do { slice \<leftarrow> slice_from payload off; Some (try_send ch slice (st\<lparr>su_cells := cells\<rparr>)) }
                  | _ \<Rightarrow> Some (st\<lparr>su_cells := cells\<rparr>)) = Some st'"
  proof (cases act)
    case (Forward off tx)
    with a assms have "off \<le> length payload" using data_action_offset [of n "length payload"] by fastforce
    with Forward show ?thesis by (auto simp: slice_from_in split: option.splits)
  qed simp
  then obtain st' where st': "(case act of
                    Forward off (Some ch) \<Rightarrow> do { slice \<leftarrow> slice_from payload off; Some (try_send ch slice (st\<lparr>su_cells := cells\<rparr>)) }
                  | _ \<Rightarrow> Some (st\<lparr>su_cells := cells\<rparr>)) = Some st'" by blast
  have "emit_packet (send_tcp dst src dp sp (su_cells st' (tc_seq_shared c)) (su_cells st' (tc_ack_shared c)) 0x10 []) st' \<noteq> None"
    for c :: tcp_conn using emit_total by (simp only: not_None_eq)
  then show ?thesis
    unfolding on_data_def Some option.case a prod.case Let_def st' bind.bind_lunit
    by (simp add: bind_eq_None_conv del: not_None_eq split: option.split)
qed (simp add: on_data_def)

definition data_offset_field :: "bytes \<Rightarrow> nat \<Rightarrow> nat" where
  "data_offset_field packet ihl = unat (drop_bit 4 (packet ! (ihl + 12))) * 4"

lemma handle_tcp_fields:
  assumes "ihl + 20 \<le> length packet"
  obtains sport dport seq_num ack_num fl where
    "\<And>isn st. handle_tcp packet ihl src dst isn st =
       (case slice_of (drop ihl packet) (data_offset_field packet ihl) (length packet - ihl) of
          None \<Rightarrow> None
        | Some payload \<Rightarrow>
            if fl AND 0x01 \<noteq> 0 \<or> fl AND 0x04 \<noteq> 0 then Some (0, st\<lparr>su_conns := (su_conns st)(sport := None)\<rparr>)
            else if fl AND 0x02 \<noteq> 0 then on_syn src dst sport dport seq_num isn st
            else if fl AND 0x10 \<noteq> 0 \<and> data_offset_field packet ihl < length packet - ihl
              then on_data src dst sport dport seq_num payload st
            else Some (0, st))"
    and "fl = packet ! (ihl + 13)" and "field16 (drop ihl packet) 0 = Some sport" and "field16 (drop ihl packet) 2 = Some dport"
    and "field32 (drop ihl packet) 4 = Some seq_num"
proof -
  let ?tcp = "drop ihl packet"
  have l: "20 \<le> length ?tcp" "ihl \<le> length packet" using assms by simp_all
  obtain sport dport where p: "field16 ?tcp 0 = Some sport" "field16 ?tcp 2 = Some dport"
    using l field16_in [of 0 ?tcp] field16_in [of 2 ?tcp] by simp
  obtain sq ak where q: "field32 ?tcp 4 = Some sq" "field32 ?tcp 8 = Some ak"
    using l by (simp add: field32_def idx_in)
  have i: "idx ?tcp 12 = Some (packet ! (ihl + 12))" "slice_from packet ihl = Some ?tcp"
    using l assms by (simp_all add: idx_in slice_from_in)
  let ?fl = "packet ! (ihl + 13)"
  have f: "su_tcp_flags packet ihl = Some (?fl AND 0x02 \<noteq> 0, ?fl AND 0x10 \<noteq> 0, ?fl AND 0x01 \<noteq> 0)"
    "is_rst_flag ?tcp \<longleftrightarrow> ?fl AND 0x04 \<noteq> 0"
    using l assms by (auto simp: su_tcp_flags_def idx_in is_rst_flag_def)
  show ?thesis
  proof (rule that [of ?fl sport dport sq])
    fix isn st
    show "handle_tcp packet ihl src dst isn st =
       (case slice_of ?tcp (data_offset_field packet ihl) (length packet - ihl) of
          None \<Rightarrow> None
        | Some payload \<Rightarrow>
            if ?fl AND 0x01 \<noteq> 0 \<or> ?fl AND 0x04 \<noteq> 0 then Some (0, st\<lparr>su_conns := (su_conns st)(sport := None)\<rparr>)
            else if ?fl AND 0x02 \<noteq> 0 then on_syn src dst sport dport sq isn st
            else if ?fl AND 0x10 \<noteq> 0 \<and> data_offset_field packet ihl < length packet - ihl
              then on_data src dst sport dport sq payload st
            else Some (0, st))"
      using assms by (simp add: handle_tcp_def i p q f data_offset_field_def Let_def less_diff_conv add.commute split: option.splits)
  qed (use p q in simp_all)
qed

lemma handle_tcp_None_iff:
  "handle_tcp packet ihl src dst isn st = None
     \<longleftrightarrow> ihl + 20 \<le> length packet \<and> length packet - ihl < data_offset_field packet ihl"
proof (cases "ihl + 20 \<le> length packet")
  case True
  obtain sport dport sq and fl :: u8 where h: "\<And>isn st. handle_tcp packet ihl src dst isn st =
       (case slice_of (drop ihl packet) (data_offset_field packet ihl) (length packet - ihl) of
          None \<Rightarrow> None
        | Some payload \<Rightarrow>
            if fl AND 0x01 \<noteq> 0 \<or> fl AND 0x04 \<noteq> 0 then Some (0, st\<lparr>su_conns := (su_conns st)(sport := None)\<rparr>)
            else if fl AND 0x02 \<noteq> 0 then on_syn src dst sport dport sq isn st
            else if fl AND 0x10 \<noteq> 0 \<and> data_offset_field packet ihl < length packet - ihl
              then on_data src dst sport dport sq payload st
            else Some (0, st))"
    by (rule handle_tcp_fields [OF True, of src dst]) blast
  show ?thesis
  proof (cases "data_offset_field packet ihl \<le> length packet - ihl")
    case ok: True
    let ?pl = "drop (data_offset_field packet ihl) (drop ihl packet)"
    have sl: "slice_of (drop ihl packet) (data_offset_field packet ihl) (length packet - ihl) = Some ?pl"
      using ok by (simp add: slice_of_def)
    have "?pl \<noteq> []" if "data_offset_field packet ihl < length packet - ihl" using that by simp
    then show ?thesis
      using ok on_syn_total on_data_total unfolding h sl by (simp split: if_splits)
  next
    case False
    then show ?thesis using True unfolding h by (simp add: slice_of_def)
  qed
qed (simp add: handle_tcp_def)

text \<open>
  The packet handler panics on exactly the packets whose TCP data offset points past the end of
  the segment. Such a packet is long enough to pass the length check, and the slice of its payload is
  then taken from a start that lies behind its end. On every other packet, in every state, the
  handler returns.
\<close>

lemma handle_tcp_panics_iff:
  "handle_tcp packet ihl src dst isn st = None
     \<longleftrightarrow> ihl + 20 \<le> length packet \<and> length packet - ihl < data_offset_field packet ihl"
  by (rule handle_tcp_None_iff)

end
