(* ===== verification/SocksFlow.thy ===== *)
theory SocksFlow
  imports SocksUpstream
begin

text \<open>
  The SOCKS bridge as a whole: the handlers of \<open>socks_upstream.rs\<close> as events that the runtime may
  interleave in any order, what each of them may touch, and what that means for a byte stream that an
  application sends over one connection while all the others go on.
\<close>

section \<open>Interleavings\<close>

text \<open>
  The events that the runtime interleaves: a packet from the device, the end of a connect task, a
  read from the proxy and a turn of a writer task. Each runs one handler; a finished task leaves the
  list of its kind.
\<close>

datatype su_event =
    PacketEv bytes nat u32 u32 u32
  | ConnectedEv connect_task
  | FailedEv connect_task
  | ReadEv reader_task read_event
  | WriteEv nat bool

fun su_exec :: "su_event \<Rightarrow> su_state \<Rightarrow> su_state rust" where
  "su_exec (PacketEv packet ihl src dst isn) st = map_option snd (handle_tcp packet ihl src dst isn st)"
| "su_exec (ConnectedEv ct) st = connect_ok ct (st\<lparr>su_connects := remove1 ct (su_connects st)\<rparr>)"
| "su_exec (FailedEv ct) st = connect_err ct (st\<lparr>su_connects := remove1 ct (su_connects st)\<rparr>)"
| "su_exec (ReadEv rt e) st =
     map_option (\<lambda>(go, st'). if go then st' else st'\<lparr>su_readers := remove1 rt (su_readers st')\<rparr>) (response_reader rt e st)"
| "su_exec (WriteEv ch ok) st = Some (socks_writer ch ok st)"

fun su_run :: "su_event list \<Rightarrow> su_state \<Rightarrow> su_state rust" where
  "su_run [] st = Some st"
| "su_run (e # es) st = do { st \<leftarrow> su_exec e st; su_run es st }"

text \<open>The cells and channels that belong to a port, through its table entry or through a task.\<close>

definition conn_ids :: "tcp_conn \<Rightarrow> nat set" where
  "conn_ids c = {tc_ack_shared c, tc_seq_shared c} \<union> set_option (tc_data_tx c)"

definition connect_ids :: "u16 \<Rightarrow> connect_task list \<Rightarrow> nat set" where
  "connect_ids p cts = (\<Union>ct \<in> {ct \<in> set cts. ct_sport ct = p}. {ct_ack ct, ct_seq ct})"

definition reader_ids :: "u16 \<Rightarrow> reader_task list \<Rightarrow> nat set" where
  "reader_ids p rts = (\<Union>rt \<in> {rt \<in> set rts. rt_tun_port rt = p}. {rt_ack rt, rt_seq rt})"

definition port_ids :: "su_state \<Rightarrow> u16 \<Rightarrow> nat set" where
  "port_ids st p = (case su_conns st p of None \<Rightarrow> {} | Some c \<Rightarrow> conn_ids c)
     \<union> connect_ids p (su_connects st) \<union> reader_ids p (su_readers st)"

lemma connect_ids_snoc [simp]:
  "connect_ids p (cts @ [ct]) = connect_ids p cts \<union> (if ct_sport ct = p then {ct_ack ct, ct_seq ct} else {})"
  by (auto simp: connect_ids_def)

lemma reader_ids_snoc [simp]:
  "reader_ids p (rts @ [rt]) = reader_ids p rts \<union> (if rt_tun_port rt = p then {rt_ack rt, rt_seq rt} else {})"
  by (auto simp: reader_ids_def)

lemma remove1_other_keys: "p \<noteq> f x \<Longrightarrow> {y \<in> set (remove1 x xs). f y = p} = {y \<in> set xs. f y = p}"
  by (induction xs) auto

lemma connect_ids_remove1:
  "connect_ids p (remove1 ct cts) \<subseteq> connect_ids p cts" "p \<noteq> ct_sport ct \<Longrightarrow> connect_ids p (remove1 ct cts) = connect_ids p cts"
proof -
  show "connect_ids p (remove1 ct cts) \<subseteq> connect_ids p cts"
    using set_remove1_subset [of ct cts] by (auto simp: connect_ids_def)
  assume "p \<noteq> ct_sport ct"
  then have "{y \<in> set (remove1 ct cts). ct_sport y = p} = {y \<in> set cts. ct_sport y = p}"
    by (rule remove1_other_keys)
  then show "connect_ids p (remove1 ct cts) = connect_ids p cts" by (simp add: connect_ids_def)
qed

lemma reader_ids_remove1:
  "reader_ids p (remove1 rt rts) \<subseteq> reader_ids p rts" "p \<noteq> rt_tun_port rt \<Longrightarrow> reader_ids p (remove1 rt rts) = reader_ids p rts"
proof -
  show "reader_ids p (remove1 rt rts) \<subseteq> reader_ids p rts"
    using set_remove1_subset [of rt rts] by (auto simp: reader_ids_def)
  assume "p \<noteq> rt_tun_port rt"
  then have "{y \<in> set (remove1 rt rts). rt_tun_port y = p} = {y \<in> set rts. rt_tun_port y = p}"
    by (rule remove1_other_keys)
  then show "reader_ids p (remove1 rt rts) = reader_ids p rts" by (simp add: reader_ids_def)
qed

text \<open>No cell or channel belongs to two ports, and all of them have been allocated.\<close>

definition isolated :: "su_state \<Rightarrow> bool" where
  "isolated st \<longleftrightarrow> (\<forall>p. \<forall>i \<in> port_ids st p. i < su_next st)
     \<and> (\<forall>p q. p \<noteq> q \<longrightarrow> port_ids st p \<inter> port_ids st q = {})"

lemma isolatedD: "isolated st \<Longrightarrow> i \<in> port_ids st p \<Longrightarrow> i \<in> port_ids st q \<Longrightarrow> p = q"
  unfolding isolated_def by blast

text \<open>The frame of a handler that works for port \<open>p\<close>.\<close>

definition touches :: "u16 \<Rightarrow> su_state \<Rightarrow> su_state \<Rightarrow> bool" where
  "touches p st st' \<longleftrightarrow> su_next st \<le> su_next st'
     \<and> port_ids st' p \<subseteq> port_ids st p \<union> {su_next st..<su_next st'}
     \<and> (\<forall>q. q \<noteq> p \<longrightarrow> su_conns st' q = su_conns st q \<and> port_ids st' q = port_ids st q)
     \<and> (\<forall>i. i \<notin> port_ids st p \<longrightarrow> i < su_next st \<longrightarrow>
          su_cells st' i = su_cells st i \<and> su_queue st' i = su_queue st i
          \<and> su_closed st' i = su_closed st i \<and> su_sent st' i = su_sent st i)"

lemma touches_refl [simp]: "touches p st st"
  by (simp add: touches_def)

lemma touches_trans:
  assumes 1: "touches p st1 st2" and 2: "touches p st2 st3"
  shows "touches p st1 st3"
proof -
  have n: "su_next st1 \<le> su_next st2" "su_next st2 \<le> su_next st3" using 1 2 by (simp_all add: touches_def)
  have s: "port_ids st2 p \<subseteq> port_ids st1 p \<union> {su_next st1..<su_next st2}"
    "port_ids st3 p \<subseteq> port_ids st2 p \<union> {su_next st2..<su_next st3}"
    using 1 2 by (simp_all add: touches_def)
  have "{su_next st1..<su_next st2} \<union> {su_next st2..<su_next st3} = {su_next st1..<su_next st3}"
    using n by (rule ivl_disj_un_two(3))
  with s have s13: "port_ids st3 p \<subseteq> port_ids st1 p \<union> {su_next st1..<su_next st3}" by blast
  have o: "i \<notin> port_ids st2 p" "i < su_next st2" if "i \<notin> port_ids st1 p" "i < su_next st1" for i
    using s(1) n that by auto
  show ?thesis unfolding touches_def
  proof (intro conjI allI impI)
    show "su_next st1 \<le> su_next st3" using n by simp
  qed (use s13 o 1 2 in \<open>simp_all add: touches_def\<close>)
qed

lemma isolated_touches:
  assumes "isolated st" "touches p st st'"
  shows "isolated st'"
proof -
  have q: "port_ids st' q = port_ids st q" if "q \<noteq> p" for q using assms(2) that by (simp add: touches_def)
  have p: "i \<in> port_ids st p \<or> su_next st \<le> i" "i < su_next st'" if "i \<in> port_ids st' p" for i
    using assms that by (fastforce simp: touches_def isolated_def subset_iff)+
  have n: "i < su_next st" "i < su_next st'" if "i \<in> port_ids st q" for i q
    using assms that by (fastforce simp: touches_def isolated_def)+
  have d: "port_ids st' q \<inter> port_ids st' p = {}" if "q \<noteq> p" for q
    using assms(1) q [OF that] that p(1) n(1) by (fastforce simp: isolated_def)
  show ?thesis unfolding isolated_def
  proof (intro conjI allI ballI impI)
    fix r i assume "i \<in> port_ids st' r"
    then show "i < su_next st'" using p(2) n(2) q by (cases "r = p") auto
  next
    fix r q :: u16 assume "r \<noteq> q"
    then show "port_ids st' r \<inter> port_ids st' q = {}"
      using d q assms(1) by (cases "r = p"; cases "q = p") (auto simp: isolated_def)
  qed
qed


section \<open>Every handler stays within its port\<close>

lemma emit_packetE:
  assumes "emit_packet pkt st = Some st'"
  obtains p where "pkt = Some p" "st' = st\<lparr>su_tun := su_tun st @ [p]\<rparr>"
  using assms by (auto simp: emit_packet_def bind_eq_Some_conv)

lemma touches_tun: "touches p st (st\<lparr>su_tun := t\<rparr>)"
  by (simp add: touches_def port_ids_def)

lemma touches_remove: "touches p st (st\<lparr>su_conns := (su_conns st)(p := None)\<rparr>)"
  by (auto simp: touches_def port_ids_def)

lemma touches_emit: "emit_packet pkt st = Some st' \<Longrightarrow> touches p st st'"
  by (auto elim!: emit_packetE simp: touches_tun)

lemma touches_connects: "touches (ct_sport ct) st (st\<lparr>su_connects := remove1 ct (su_connects st)\<rparr>)"
  using connect_ids_remove1 by (auto simp: touches_def port_ids_def)

lemma touches_readers: "touches (rt_tun_port rt) st (st\<lparr>su_readers := remove1 rt (su_readers st)\<rparr>)"
  using reader_ids_remove1 by (auto simp: touches_def port_ids_def)

lemma touches_on_syn:
  assumes "on_syn src dst sp dp n isn st = Some (r, st')"
  shows "touches sp st st'"
proof (cases "v4_is_private dst \<or> su_conns st sp \<noteq> None")
  case True
  then show ?thesis using assms
    by (auto simp: on_syn_def bind_eq_Some_conv intro: touches_emit split: if_splits option.splits)
next
  case False
  then show ?thesis using assms
    by (auto simp: on_syn_def Let_def touches_def port_ids_def conn_ids_def)
qed

lemma touches_cells: "i \<in> port_ids st p \<Longrightarrow> touches p st (st\<lparr>su_cells := (su_cells st)(i := v)\<rparr>)"
  by (auto simp: touches_def port_ids_def)

lemma touches_try_send: "ch \<in> port_ids st p \<Longrightarrow> touches p st (try_send ch data st)"
  by (auto simp: try_send_def touches_def port_ids_def)

lemma port_ids_conn:
  assumes "su_conns st p = Some c"
  shows "tc_ack_shared c \<in> port_ids st p" "tc_seq_shared c \<in> port_ids st p" "tc_data_tx c = Some ch \<Longrightarrow> ch \<in> port_ids st p"
  using assms by (auto simp: port_ids_def conn_ids_def)

lemma touches_on_data:
  assumes "on_data src dst sp dp n payload st = Some (r, st')"
  shows "touches sp st st'"
proof (cases "su_conns st sp")
  case (Some conn)
  obtain act cells where a: "data_action n (length payload) conn (su_cells st) = (act, cells)"
    by (cases "data_action n (length payload) conn (su_cells st)")
  let ?st1 = "st\<lparr>su_cells := cells\<rparr>"
  have t1: "touches sp st ?st1" if "su_cells st = cells \<or> (\<exists>v. cells = (su_cells st)(tc_ack_shared conn := v))"
    using that touches_cells [OF port_ids_conn(1) [OF Some]] by auto
  have "su_cells st = cells \<or> (\<exists>v. cells = (su_cells st)(tc_ack_shared conn := v))"
    using a by (auto simp: data_action_def Let_def split: if_splits)
  note t1 = t1 [OF this]
  have t2: "touches sp ?st1 (try_send ch d ?st1)" if "act = Forward off (Some ch)" for off ch d
  proof (rule touches_try_send)
    have "tc_data_tx conn = Some ch" using a that by (auto simp: data_action_def Let_def split: if_splits)
    then have "ch \<in> port_ids st sp" by (rule port_ids_conn(3) [OF Some])
    then show "ch \<in> port_ids ?st1 sp" by (simp add: port_ids_def)
  qed
  let ?go = "\<lambda>st. case su_conns st sp of
      None \<Rightarrow> Some (of_nat (length payload) :: u64, st)
    | Some conn \<Rightarrow> do {
        st \<leftarrow> emit_packet (send_tcp dst src dp sp (su_cells st (tc_seq_shared conn))
                            (su_cells st (tc_ack_shared conn)) 0x10 []) st;
        Some (of_nat (length payload), st) }"
  have t3: "touches sp s1 s2" if "?go s1 = Some (r, s2)" for s1 s2
    using that by (auto simp: bind_eq_Some_conv intro: touches_emit split: option.splits)
  show ?thesis
  proof (cases "tc_connecting conn")
    case False
    with assms Some a obtain st2 where 2: "(case act of
          Forward off (Some ch) \<Rightarrow> do { slice \<leftarrow> slice_from payload off; Some (try_send ch slice ?st1) }
        | _ \<Rightarrow> Some ?st1) = Some st2" and 3: "?go st2 = Some (r, st')"
      by (auto simp: on_data_def Let_def bind_eq_Some_conv)
    from 2 t1 t2 have "touches sp st st2"
      by (auto simp: bind_eq_Some_conv intro: touches_trans [OF t1] split: su_action.splits option.splits)
    then show ?thesis using t3 [OF 3] by (rule touches_trans)
  qed (use assms Some in \<open>simp add: on_data_def\<close>)
qed (use assms in \<open>simp add: on_data_def\<close>)


lemma touches_handle_tcp:
  assumes "handle_tcp packet ihl src dst isn st = Some (r, st')" "ihl + 20 \<le> length packet"
  shows "touches (be_u16 (packet ! ihl) (packet ! (ihl + 1))) st st'"
proof -
  obtain sport dport sq and fl :: u8 where h: "handle_tcp packet ihl src dst isn st =
       (case slice_of (drop ihl packet) (data_offset_field packet ihl) (length packet - ihl) of
          None \<Rightarrow> None
        | Some payload \<Rightarrow>
            if fl AND 0x01 \<noteq> 0 \<or> fl AND 0x04 \<noteq> 0 then Some (0, st\<lparr>su_conns := (su_conns st)(sport := None)\<rparr>)
            else if fl AND 0x02 \<noteq> 0 then on_syn src dst sport dport sq isn st
            else if fl AND 0x10 \<noteq> 0 \<and> data_offset_field packet ihl < length packet - ihl
              then on_data src dst sport dport sq payload st
            else Some (0, st))" and p: "field16 (drop ihl packet) 0 = Some sport"
    by (rule handle_tcp_fields [OF assms(2), of src dst]) blast
  have "sport = be_u16 (packet ! ihl) (packet ! (ihl + 1))"
    using p assms(2) by (simp add: field16_in)
  then show ?thesis using assms(1) unfolding h
    by (auto simp: touches_remove touches_on_syn touches_on_data split: option.splits if_splits)
qed

lemma handle_tcp_short: "length packet < ihl + 20 \<Longrightarrow> handle_tcp packet ihl src dst isn st = Some (0, st)"
  by (simp add: handle_tcp_def)

lemma connect_ids_mem:
  assumes "ct \<in> set cts"
  shows "ct_ack ct \<in> connect_ids (ct_sport ct) cts" "ct_seq ct \<in> connect_ids (ct_sport ct) cts"
  using assms by (auto simp: connect_ids_def)

lemma reader_ids_mem:
  assumes "rt \<in> set rts"
  shows "rt_ack rt \<in> reader_ids (rt_tun_port rt) rts" "rt_seq rt \<in> reader_ids (rt_tun_port rt) rts"
  using assms by (auto simp: reader_ids_def)

lemma touches_connect_ok:
  assumes "connect_ok ct (st\<lparr>su_connects := remove1 ct (su_connects st)\<rparr>) = Some st'" "ct \<in> set (su_connects st)"
  shows "touches (ct_sport ct) st st'"
proof (cases "\<exists>c. su_conns st (ct_sport ct) = Some c \<and> tc_connecting c")
  case True
  let ?new = "st\<lparr>su_connects := remove1 ct (su_connects st), su_next := su_next st + 1, su_queue := (su_queue st)(su_next st := []),
      su_closed := (su_closed st)(su_next st := False), su_sent := (su_sent st)(su_next st := []),
      su_cells := (su_cells st)(ct_seq ct := ct_isn ct + 1),
      su_conns := (su_conns st)(ct_sport ct \<mapsto> \<lparr>tc_data_tx = Some (su_next st), tc_ack_shared = ct_ack ct,
        tc_seq_shared = ct_seq ct, tc_isn = ct_isn ct, tc_connecting = False\<rparr>),
      su_readers := su_readers st @ [\<lparr>rt_tun_ip = ct_src ct, rt_remote_ip = ct_dst ct, rt_tun_port = ct_sport ct,
        rt_remote_port = ct_dport ct, rt_seq = ct_seq ct, rt_ack = ct_ack ct\<rparr>]\<rparr>"
  have "touches (ct_sport ct) st ?new"
    using connect_ids_mem [OF assms(2)] connect_ids_remove1 [of _ ct "su_connects st"]
    by (auto simp: touches_def port_ids_def conn_ids_def)
  moreover have "touches (ct_sport ct) ?new st'"
    using assms(1) True by (auto simp: connect_ok_def Let_def intro!: touches_emit)
  ultimately show ?thesis by (rule touches_trans)
next
  case False
  then have "st' = st\<lparr>su_connects := remove1 ct (su_connects st)\<rparr>"
    using assms(1) by (auto simp: connect_ok_def split: option.splits)
  then show ?thesis by (simp add: touches_connects)
qed

lemma touches_connect_err:
  assumes "connect_err ct st = Some st'"
  shows "touches (ct_sport ct) st st'"
  using assms touches_remove by (auto simp: connect_err_def bind_eq_Some_conv intro: touches_trans [OF touches_emit])

lemma touches_response_reader:
  assumes "response_reader rt e st = Some (go, st')" "rt \<in> set (su_readers st)"
  shows "touches (rt_tun_port rt) st st'"
proof -
  have "rt_seq rt \<in> port_ids st (rt_tun_port rt)" using reader_ids_mem(2) [OF assms(2)] by (simp add: port_ids_def)
  then have "touches (rt_tun_port rt) s1 (s1\<lparr>su_cells := (su_cells s1)(rt_seq rt := v)\<rparr>)" if "emit_packet pkt st = Some s1" for s1 v pkt
    using that by (auto elim!: emit_packetE intro!: touches_cells simp: port_ids_def)
  then show ?thesis
    using assms(1) touches_remove
    by (auto simp: response_reader_def Let_def intro: touches_trans [OF touches_emit] split: read_event.splits if_splits)
qed

text \<open>The port an event works for, if any, and the events that can happen in a state.\<close>

fun event_port :: "su_event \<Rightarrow> u16 option" where
  "event_port (PacketEv packet ihl src dst isn) =
     (if ihl + 20 \<le> length packet then Some (be_u16 (packet ! ihl) (packet ! (ihl + 1))) else None)"
| "event_port (ConnectedEv ct) = Some (ct_sport ct)"
| "event_port (FailedEv ct) = Some (ct_sport ct)"
| "event_port (ReadEv rt e) = Some (rt_tun_port rt)"
| "event_port (WriteEv ch ok) = None"

fun enabled :: "su_state \<Rightarrow> su_event \<Rightarrow> bool" where
  "enabled st (PacketEv packet ihl src dst isn) \<longleftrightarrow>
     (ihl + 20 \<le> length packet \<longrightarrow> data_offset_field packet ihl \<le> length packet - ihl)"
| "enabled st (ConnectedEv ct) \<longleftrightarrow> ct \<in> set (su_connects st)"
| "enabled st (FailedEv ct) \<longleftrightarrow> ct \<in> set (su_connects st)"
| "enabled st (ReadEv rt e) \<longleftrightarrow> rt \<in> set (su_readers st)"
| "enabled st (WriteEv ch ok) \<longleftrightarrow> True"

lemma exec_touches:
  assumes "su_exec e st = Some st'" "enabled st e" "event_port e = Some p"
  shows "touches p st st'"
proof (cases e)
  case (PacketEv packet ihl src dst isn)
  then obtain r where "handle_tcp packet ihl src dst isn st = Some (r, st')" using assms(1) by auto
  from touches_handle_tcp [OF this] show ?thesis using assms(3) PacketEv by (auto split: if_splits)
next
  case (ConnectedEv ct)
  then show ?thesis using assms touches_connect_ok by auto
next
  case (FailedEv ct)
  then show ?thesis using assms by (auto intro: touches_trans [OF touches_connects touches_connect_err])
next
  case (ReadEv rt ev)
  then show ?thesis using assms
    by (auto intro: touches_trans [OF touches_response_reader touches_readers] touches_response_reader split: if_splits)
qed (use assms in simp_all)


lemma exec_total:
  assumes "enabled st e"
  shows "\<exists>st'. su_exec e st = Some st'"
proof (cases e)
  case (PacketEv packet ihl src dst isn)
  then have "handle_tcp packet ihl src dst isn st \<noteq> None"
    unfolding handle_tcp_None_iff using assms by auto
  then show ?thesis using PacketEv by auto
next
  case (ConnectedEv ct)
  then show ?thesis
    using emit_total_ex by (auto simp: connect_ok_def Let_def split: option.split)
next
  case (FailedEv ct)
  let ?st = "st\<lparr>su_connects := remove1 ct (su_connects st)\<rparr>"
  obtain st' where "emit_packet (send_tcp (ct_dst ct) (ct_src ct) (ct_dport ct) (ct_sport ct) 0 (ct_seq_num ct + 1) 0x04 []) ?st = Some st'"
    using emit_total by blast
  with FailedEv show ?thesis by (simp add: connect_err_def)
next
  case (ReadEv rt ev)
  have "emit_packet (send_tcp a b c d sq ak fl data) st \<noteq> None" for a b c d sq ak fl data
    using emit_total by (simp only: not_None_eq)
  then have "response_reader rt ev st \<noteq> None"
    by (auto simp: response_reader_def Let_def simp del: not_None_eq split: read_event.split)
  with ReadEv show ?thesis by auto
qed simp

lemma writer_frame [simp]:
  "su_conns (socks_writer ch ok st) = su_conns st" "su_cells (socks_writer ch ok st) = su_cells st"
  "su_next (socks_writer ch ok st) = su_next st" "port_ids (socks_writer ch ok st) p = port_ids st p"
  by (auto simp: socks_writer_def port_ids_def split: list.split)

lemma isolated_writer [simp]: "isolated (socks_writer ch ok st) = isolated st"
  by (simp add: isolated_def)

lemma writer_other:
  assumes "c \<noteq> ch"
  shows "su_queue (socks_writer c ok st) ch = su_queue st ch" "su_sent (socks_writer c ok st) ch = su_sent st ch"
    "su_closed (socks_writer c ok st) ch = su_closed st ch"
  using assms by (auto simp: socks_writer_def split: list.split)

lemma writer_own:
  assumes "\<not> su_closed st ch"
  shows "\<not> su_closed (socks_writer ch True st) ch"
    "su_sent (socks_writer ch True st) ch @ concat (su_queue (socks_writer ch True st) ch) = su_sent st ch @ concat (su_queue st ch)"
  using assms by (cases "su_queue st ch"; simp add: socks_writer_def)+

lemma exec_isolated:
  assumes "su_exec e st = Some st'" "enabled st e" "isolated st"
  shows "isolated st'"
proof (cases "event_port e")
  case None
  then consider (short) packet ihl src dst isn where "e = PacketEv packet ihl src dst isn" "length packet < ihl + 20"
    | (writing) ch ok where "e = WriteEv ch ok"
    by (cases e) (auto split: if_splits)
  then show ?thesis using assms by cases (auto simp: handle_tcp_short)
qed (use assms isolated_touches exec_touches in blast)


section \<open>One byte stream\<close>

text \<open>
  The application sends the stream \<open>S\<close>, whose first byte has sequence number \<open>s0\<close>. A segment carries the
  bytes at its own position; segments may be lost, repeated, reordered and cut anew. The position of a
  receiver that accepts exactly the next bytes and remembers nothing else is the specification.
\<close>

definition seg_payload :: "bytes \<Rightarrow> nat \<Rightarrow> bytes" where
  "seg_payload packet ihl = drop (data_offset_field packet ihl) (drop ihl packet)"

definition seg_pos :: "u32 \<Rightarrow> bytes \<Rightarrow> nat \<Rightarrow> nat" where
  "seg_pos s0 packet ihl =
     unat (be_u32 (packet ! (ihl + 4)) (packet ! (ihl + 5)) (packet ! (ihl + 6)) (packet ! (ihl + 7)) - s0)"

definition stream_segment :: "bytes \<Rightarrow> u32 \<Rightarrow> bytes \<Rightarrow> nat \<Rightarrow> bool" where
  "stream_segment S s0 packet ihl \<longleftrightarrow>
     (let fl = packet ! (ihl + 13); k = seg_pos s0 packet ihl; payload = seg_payload packet ihl
      in fl AND 0x01 = 0 \<and> fl AND 0x02 = 0 \<and> fl AND 0x04 = 0
         \<and> k + length payload \<le> length S \<and> payload = take (length payload) (drop k S))"

definition accept_range :: "nat \<Rightarrow> nat \<Rightarrow> nat \<Rightarrow> nat" where
  "accept_range k n m = (if k \<le> m \<and> m < k + n then k + n else m)"

fun receiver_pos :: "u32 \<Rightarrow> u16 \<Rightarrow> su_event list \<Rightarrow> nat \<Rightarrow> nat" where
  "receiver_pos s0 sp [] m = m"
| "receiver_pos s0 sp (PacketEv packet ihl src dst isn # es) m =
     receiver_pos s0 sp es
       (if event_port (PacketEv packet ihl src dst isn) = Some sp \<and> packet ! (ihl + 13) AND 0x10 \<noteq> 0
        then accept_range (seg_pos s0 packet ihl) (length (seg_payload packet ihl)) m else m)"
| "receiver_pos s0 sp (e # es) m = receiver_pos s0 sp es m"

lemma sint_pos_diff:
  assumes "m < 2 ^ 31" "k < 2 ^ 31"
  shows "sint ((s + of_nat m) - (s + of_nat k) :: u32) = int m - int k"
proof -
  have "sint (word_of_int (int m - int k) :: u32) = signed_take_bit 31 (int m - int k)"
    by (simp add: sint_sbintrunc' del: of_int_diff)
  also have "\<dots> = int m - int k"
    using assms by (intro signed_take_bit_int_eq_self) simp_all
  finally show ?thesis by simp
qed

text \<open>
  The connection in the middle of the stream: position \<open>m\<close> has been acknowledged, and the channel together
  with what the writer has passed on is the stream up to there.
\<close>

definition flow_inv :: "bytes \<Rightarrow> u32 \<Rightarrow> u16 \<Rightarrow> tcp_conn \<Rightarrow> nat \<Rightarrow> nat \<Rightarrow> su_state \<Rightarrow> bool" where
  "flow_inv S s0 sp conn ch m st \<longleftrightarrow>
     isolated st \<and> su_conns st sp = Some conn \<and> \<not> tc_connecting conn \<and> tc_data_tx conn = Some ch
     \<and> tc_ack_shared conn \<noteq> tc_seq_shared conn \<and> length S < 2 ^ 31 \<and> m \<le> length S
     \<and> su_cells st (tc_ack_shared conn) = s0 + of_nat m \<and> \<not> su_closed st ch
     \<and> su_sent st ch @ concat (su_queue st ch) = take m S"

lemma flow_frame:
  assumes "flow_inv S s0 sp conn ch m st" "touches p st st'" "p \<noteq> sp"
  shows "flow_inv S s0 sp conn ch m st'"
proof -
  have c: "su_conns st sp = Some conn" "tc_data_tx conn = Some ch" and i: "isolated st"
    using assms(1) by (simp_all add: flow_inv_def)
  have "j \<notin> port_ids st p" "j < su_next st" if "j \<in> port_ids st sp" for j
    using isolatedD [OF i that, of p] assms(3) i that by (auto simp: isolated_def)
  note o = this [OF port_ids_conn(1) [OF c(1)]] this [OF port_ids_conn(3) [OF c]]
  have k: "isolated st'" using isolated_touches [OF i assms(2)] .
  have "su_conns st' sp = su_conns st sp" using assms(2,3) by (simp add: touches_def)
  moreover have "su_cells st' (tc_ack_shared conn) = su_cells st (tc_ack_shared conn)"
    "su_queue st' ch = su_queue st ch" "su_closed st' ch = su_closed st ch" "su_sent st' ch = su_sent st ch"
    using assms(2) o by (simp_all add: touches_def)
  ultimately show ?thesis using assms(1) k by (simp add: flow_inv_def)
qed


lemma segment_append:
  assumes "k \<le> m" "m < k + n" "k + n \<le> length S"
  shows "take m S @ drop (m - k) (take n (drop k S)) = take (k + n) S"
proof -
  have "drop (m - k) (take n (drop k S)) = take (k + n - m) (drop m S)"
    using assms by (simp add: drop_take add.commute)
  then show ?thesis using take_add [of m "k + n - m" S] assms by simp
qed

lemma data_action_stream:
  assumes "m < 2 ^ 31" "k < 2 ^ 31" "cells (tc_ack_shared conn) = s0 + of_nat m" "0 < n"
  shows "data_action (s0 + of_nat k) n conn cells =
    (if k \<le> m \<and> m < k + n then (Forward (m - k) (tc_data_tx conn), cells(tc_ack_shared conn := s0 + of_nat (k + n)))
     else (AckOnly, cells))"
proof -
  have "sint (cells (tc_ack_shared conn) - (s0 + of_nat k)) = int m - int k"
    unfolding assms(3) by (rule sint_pos_diff [OF assms(1,2)])
  then show ?thesis using assms(4) by (auto simp: data_action_def Let_def nat_diff_distrib' ac_simps)
qed

lemma flow_emit:
  assumes "flow_inv S s0 sp conn ch m st" "emit_packet pkt st = Some st'"
  shows "flow_inv S s0 sp conn ch m st'"
proof -
  have "isolated st'" using isolated_touches [OF _ touches_emit [OF assms(2)]] assms(1) by (simp add: flow_inv_def)
  then show ?thesis using assms by (auto simp: flow_inv_def elim!: emit_packetE)
qed

lemma flow_on_data:
  assumes inv: "flow_inv S s0 sp conn ch m st" and room: "length (su_queue st ch) < CHANNEL_CAP"
    and pl: "payload \<noteq> []" "k + length payload \<le> length S" "payload = take (length payload) (drop k S)"
    and run: "on_data src dst sp dp (s0 + of_nat k) payload st = Some (r, st')"
  shows "flow_inv S s0 sp conn ch (accept_range k (length payload) m) st'"
proof -
  let ?n = "length payload" and ?a = "tc_ack_shared conn"
  have i: "isolated st'" using isolated_touches [OF _ touches_on_data [OF run]] inv by (simp add: flow_inv_def)
  have c: "su_conns st sp = Some conn" "\<not> tc_connecting conn" "tc_data_tx conn = Some ch" "length S < 2 ^ 31" "m \<le> length S"
    "su_cells st ?a = s0 + of_nat m"
    using inv by (simp_all add: flow_inv_def)
  have act: "data_action (s0 + of_nat k) ?n conn (su_cells st) =
    (if k \<le> m \<and> m < k + ?n then (Forward (m - k) (Some ch), (su_cells st)(?a := s0 + of_nat (k + ?n))) else (AckOnly, su_cells st))"
    using data_action_stream [of m k "su_cells st" conn s0 ?n] c pl by simp
  show ?thesis
  proof (cases "k \<le> m \<and> m < k + ?n")
    case True
    let ?q = "st\<lparr>su_cells := (su_cells st)(?a := s0 + of_nat (k + ?n)),
        su_queue := (su_queue st)(ch := su_queue st ch @ [drop (m - k) payload])\<rparr>"
    have "try_send ch (drop (m - k) payload) (st\<lparr>su_cells := (su_cells st)(?a := s0 + of_nat (k + ?n))\<rparr>) = ?q"
      using room inv by (simp add: try_send_def flow_inv_def)
    then obtain pkt where "emit_packet pkt ?q = Some st'"
      using run act True c by (auto simp: on_data_def Let_def slice_from_in bind_eq_Some_conv)
    moreover have "su_sent st ch @ concat (su_queue st ch) = take m S" using inv by (simp add: flow_inv_def)
    then have "su_sent st ch @ concat (su_queue st ch) @ drop (m - k) payload = take (k + ?n) S"
      using segment_append [of k m ?n S] True pl by (metis append_assoc)
    ultimately show ?thesis
      using inv i True pl(2) by (auto simp: flow_inv_def accept_range_def elim!: emit_packetE)
  next
    case False
    then obtain pkt where "emit_packet pkt st = Some st'"
      using run act c by (auto simp: on_data_def Let_def bind_eq_Some_conv)
    from flow_emit [OF inv this] False show ?thesis by (auto simp: accept_range_def)
  qed
qed


lemma flow_handle_tcp:
  assumes inv: "flow_inv S s0 sp conn ch m st" and room: "length (su_queue st ch) < CHANNEL_CAP"
    and len: "ihl + 20 \<le> length packet" and port: "be_u16 (packet ! ihl) (packet ! (ihl + 1)) = sp"
    and seg: "stream_segment S s0 packet ihl" and run: "handle_tcp packet ihl src dst isn st = Some (r, st')"
  shows "flow_inv S s0 sp conn ch (if packet ! (ihl + 13) AND 0x10 \<noteq> 0
    then accept_range (seg_pos s0 packet ihl) (length (seg_payload packet ihl)) m else m) st'"
proof -
  let ?off = "data_offset_field packet ihl" and ?fl = "packet ! (ihl + 13)" and ?k = "seg_pos s0 packet ihl"
  obtain sport dport sq and fl :: u8 where h: "handle_tcp packet ihl src dst isn st =
       (case slice_of (drop ihl packet) ?off (length packet - ihl) of
          None \<Rightarrow> None
        | Some payload \<Rightarrow>
            if fl AND 0x01 \<noteq> 0 \<or> fl AND 0x04 \<noteq> 0 then Some (0, st\<lparr>su_conns := (su_conns st)(sport := None)\<rparr>)
            else if fl AND 0x02 \<noteq> 0 then on_syn src dst sport dport sq isn st
            else if fl AND 0x10 \<noteq> 0 \<and> ?off < length packet - ihl
              then on_data src dst sport dport sq payload st
            else Some (0, st))" and fl: "fl = ?fl" and p: "field16 (drop ihl packet) 0 = Some sport" and q: "field32 (drop ihl packet) 4 = Some sq"
    by (rule handle_tcp_fields [OF len, of src dst]) blast
  have sp: "sport = sp" using p port len by (simp add: field16_in)
  have sq: "sq = s0 + of_nat ?k" using q len by (simp add: field32_def idx_in seg_pos_def)
  have off: "?off \<le> length packet - ihl" using run handle_tcp_None_iff [of packet ihl src dst isn st] len by auto
  have sl: "slice_of (drop ihl packet) ?off (length packet - ihl) = Some (seg_payload packet ihl)"
    using off by (simp add: slice_of_def seg_payload_def)
  have s: "fl AND 0x01 = 0" "fl AND 0x02 = 0" "fl AND 0x04 = 0" "?k + length (seg_payload packet ihl) \<le> length S"
      "seg_payload packet ihl = take (length (seg_payload packet ihl)) (drop ?k S)"
    using seg by (simp_all add: stream_segment_def Let_def fl)
  have ne: "seg_payload packet ihl \<noteq> [] \<longleftrightarrow> ?off < length packet - ihl" by (auto simp: seg_payload_def)
  show ?thesis
  proof (cases "fl AND 0x10 \<noteq> 0 \<and> seg_payload packet ihl \<noteq> []")
    case True
    then have "on_data src dst sp dport (s0 + of_nat ?k) (seg_payload packet ihl) st = Some (r, st')"
      using run s ne unfolding h sl by (simp add: sp sq)
    from flow_on_data [OF inv room _ s(4,5) this] True show ?thesis by (simp add: fl)
  next
    case False
    then have "st' = st" using run s(1-3) ne unfolding h sl by (auto split: if_splits)
    with False inv show ?thesis by (auto simp: fl accept_range_def)
  qed
qed

text \<open>
  Events that the stream can live with: any event of another port; for its own port segments of the
  stream that find room in the channel, replies from the proxy and writes that succeed.
\<close>

fun benign :: "bytes \<Rightarrow> u32 \<Rightarrow> u16 \<Rightarrow> tcp_conn \<Rightarrow> nat \<Rightarrow> su_state \<Rightarrow> su_event \<Rightarrow> bool" where
  "benign S s0 sp conn ch st (PacketEv packet ihl src dst isn) \<longleftrightarrow>
     (event_port (PacketEv packet ihl src dst isn) = Some sp \<longrightarrow>
        stream_segment S s0 packet ihl \<and> length (su_queue st ch) < CHANNEL_CAP)"
| "benign S s0 sp conn ch st (ConnectedEv ct) \<longleftrightarrow> ct_sport ct \<noteq> sp"
| "benign S s0 sp conn ch st (FailedEv ct) \<longleftrightarrow> ct_sport ct \<noteq> sp"
| "benign S s0 sp conn ch st (ReadEv rt e) \<longleftrightarrow>
     (rt_tun_port rt = sp \<longrightarrow> rt_seq rt = tc_seq_shared conn \<and> (case e of ReadBytes data \<Rightarrow> data \<noteq> [] | _ \<Rightarrow> False))"
| "benign S s0 sp conn ch st (WriteEv c ok) \<longleftrightarrow> (c = ch \<longrightarrow> ok)"

fun benign_run :: "bytes \<Rightarrow> u32 \<Rightarrow> u16 \<Rightarrow> tcp_conn \<Rightarrow> nat \<Rightarrow> su_event list \<Rightarrow> su_state \<Rightarrow> bool" where
  "benign_run S s0 sp conn ch [] st \<longleftrightarrow> True"
| "benign_run S s0 sp conn ch (e # es) st \<longleftrightarrow> enabled st e \<and> benign S s0 sp conn ch st e
     \<and> (case su_exec e st of None \<Rightarrow> True | Some st' \<Rightarrow> benign_run S s0 sp conn ch es st')"

lemma flow_reader:
  assumes "flow_inv S s0 sp conn ch m st" "rt \<in> set (su_readers st)" "rt_seq rt = tc_seq_shared conn" "data \<noteq> []"
    "response_reader rt (ReadBytes data) st = Some (go, st')"
  shows "flow_inv S s0 sp conn ch m st'" "go"
proof -
  have "isolated st'" using isolated_touches [OF _ touches_response_reader [OF assms(5,2)]] assms(1) by (simp add: flow_inv_def)
  then show "flow_inv S s0 sp conn ch m st'"
    using assms by (auto simp: flow_inv_def response_reader_def Let_def elim!: emit_packetE)
  show go using assms(4,5) by (auto simp: response_reader_def Let_def)
qed

lemma flow_exec:
  assumes inv: "flow_inv S s0 sp conn ch m st" and ex: "su_exec e st = Some st'" "enabled st e" "benign S s0 sp conn ch st e"
  shows "flow_inv S s0 sp conn ch (receiver_pos s0 sp [e] m) st'"
proof (cases "event_port e = Some sp")
  case True
  with ex(3) consider (packet) packet ihl src dst isn where "e = PacketEv packet ihl src dst isn"
    | (reading) rt data where "e = ReadEv rt (ReadBytes data)" "data \<noteq> []" "rt_seq rt = tc_seq_shared conn"
    by (cases e) (auto split: read_event.splits)
  then show ?thesis
  proof cases
    case packet
    obtain r where "handle_tcp packet ihl src dst isn st = Some (r, st')" using ex(1) packet by auto
    moreover have "ihl + 20 \<le> length packet" "be_u16 (packet ! ihl) (packet ! (ihl + 1)) = sp"
      "stream_segment S s0 packet ihl" "length (su_queue st ch) < CHANNEL_CAP"
      using True ex(3) packet by (auto split: if_splits)
    ultimately show ?thesis using flow_handle_tcp [OF inv] packet True by (simp del: event_port.simps)
  next
    case reading
    obtain go st1 where r: "response_reader rt (ReadBytes data) st = Some (go, st1)" using ex(1) reading(1) by auto
    have "rt \<in> set (su_readers st)" using ex(2) reading(1) by simp
    from flow_reader [OF inv this reading(3,2) r] show ?thesis using ex(1) reading(1) r by simp
  qed
next
  case False
  then have m: "receiver_pos s0 sp [e] m = m" by (cases e) auto
  show ?thesis
  proof (cases "event_port e")
    case None
    then consider (short) packet ihl src dst isn where "e = PacketEv packet ihl src dst isn" "length packet < ihl + 20"
      | (writing) c ok where "e = WriteEv c ok"
      by (cases e) (auto split: if_splits)
    then show ?thesis
    proof cases
      case writing
      then have "flow_inv S s0 sp conn ch m (socks_writer c ok st)"
        using inv ex(3) by (cases "c = ch") (auto simp: flow_inv_def writer_other writer_own)
      then show ?thesis using ex(1) writing m by simp
    qed (use inv ex m in \<open>auto simp: handle_tcp_short\<close>)
  next
    case (Some p)
    then show ?thesis using flow_frame [OF inv exec_touches [OF ex(1,2)]] False m by simp
  qed
qed


lemma receiver_pos_Cons: "receiver_pos s0 sp (e # es) m = receiver_pos s0 sp es (receiver_pos s0 sp [e] m)"
  by (cases e) simp_all

lemma flow_run:
  "flow_inv S s0 sp conn ch m st \<Longrightarrow> benign_run S s0 sp conn ch evs st \<Longrightarrow>
     \<exists>st'. su_run evs st = Some st' \<and> flow_inv S s0 sp conn ch (receiver_pos s0 sp evs m) st'"
proof (induction evs arbitrary: st m)
  case (Cons e es)
  from Cons.prems(2) have e: "enabled st e" "benign S s0 sp conn ch st e" by simp_all
  from exec_total [OF e(1)] obtain st1 where x: "su_exec e st = Some st1" by blast
  with Cons.prems(2) have "benign_run S s0 sp conn ch es st1" by simp
  from Cons.IH [OF flow_exec [OF Cons.prems(1) x e] this] x show ?case
    by (simp add: receiver_pos_Cons [of s0 sp e es])
qed simp

definition established :: "u16 \<Rightarrow> tcp_conn \<Rightarrow> nat \<Rightarrow> u32 \<Rightarrow> su_state \<Rightarrow> bool" where
  "established sp conn ch s0 st \<longleftrightarrow>
     isolated st \<and> su_conns st sp = Some conn \<and> \<not> tc_connecting conn \<and> tc_data_tx conn = Some ch
     \<and> tc_ack_shared conn \<noteq> tc_seq_shared conn \<and> su_cells st (tc_ack_shared conn) = s0
     \<and> \<not> su_closed st ch \<and> su_queue st ch = [] \<and> su_sent st ch = []"



definition su_init :: su_state where
  "su_init = \<lparr>su_conns = (\<lambda>_. None), su_cells = (\<lambda>_. 0), su_queue = (\<lambda>_. []), su_closed = (\<lambda>_. False),
     su_sent = (\<lambda>_. []), su_next = 0, su_connects = [], su_readers = [], su_tun = []\<rparr>"

lemma isolated_su_init [simp]: "isolated su_init"
  by (simp add: isolated_def su_init_def port_ids_def connect_ids_def reader_ids_def)

definition sample_conn :: tcp_conn where
  "sample_conn = \<lparr>tc_data_tx = Some 2, tc_ack_shared = 0, tc_seq_shared = 1, tc_isn = 9, tc_connecting = False\<rparr>"

definition sample_state :: su_state where
  "sample_state = su_init\<lparr>su_conns := [4000 \<mapsto> sample_conn], su_cells := (\<lambda>_. 0)(0 := 100, 1 := 10), su_next := 3\<rparr>"

lemma established_sample: "established 4000 sample_conn 2 100 sample_state"
  by (auto simp: established_def sample_state_def sample_conn_def su_init_def isolated_def port_ids_def conn_ids_def
      connect_ids_def reader_ids_def split: if_splits)

definition sample_segment :: bytes where
  "sample_segment = [0x0f, 0xa0, 1, 187, 0, 0, 0, 100, 0, 0, 0, 10, 0x50, 0x18, 255, 255, 0, 0, 0, 0, 71, 69, 84]"



section \<open>Setting up a connection\<close>

text \<open>
  The handshake sets up exactly the state that the stream needs. For a SYN from a free port to a
  public address, in any state in which ports do not share cells, the handler starts a connect task,
  and when the proxy has accepted, the connection is established with the sequence number after the
  SYN as the next one expected and with an empty channel; the device gets one packet, a SYN-ACK that
  carries the initial sequence number and acknowledges the SYN, and everything sent later starts one
  above it.
\<close>

lemma handshake_establishes:
  assumes "isolated st" "su_conns st sp = None" "\<not> v4_is_private dst"
  shows "\<exists>st1 ct st2 conn ch pkt. on_syn src dst sp dp n isn st = Some (64, st1) \<and> su_connects st1 = su_connects st @ [ct]
     \<and> su_exec (ConnectedEv ct) st1 = Some st2 \<and> established sp conn ch (n + 1) st2 \<and> tc_isn conn = isn
     \<and> su_cells st2 (tc_seq_shared conn) = isn + 1
     \<and> send_tcp_ex dst src dp sp isn (n + 1) 0x12 [] True = Some pkt \<and> su_tun st2 = su_tun st @ [pkt]"
proof -
  obtain st1 where s1: "on_syn src dst sp dp n isn st = Some (64, st1)"
    using assms by (simp add: on_syn_def Let_def)
  let ?a = "su_next st"
  define ct where "ct = \<lparr>ct_src = src, ct_dst = dst, ct_sport = sp, ct_dport = dp, ct_seq_num = n, ct_isn = isn, ct_ack = ?a, ct_seq = ?a + 1\<rparr>"
  have f: "su_connects st1 = su_connects st @ [ct]" "su_cells st1 = (su_cells st)(?a := n + 1, ?a + 1 := isn)" "su_tun st1 = su_tun st"
    "su_conns st1 sp = Some \<lparr>tc_data_tx = None, tc_ack_shared = ?a, tc_seq_shared = ?a + 1, tc_isn = isn, tc_connecting = True\<rparr>"
    using s1 assms by (auto simp: on_syn_def Let_def ct_def)
  obtain pkt where pkt: "send_tcp_ex dst src dp sp isn (n + 1) 0x12 [] True = Some pkt" by (rule send_tcp_ex_Some)
  have e: "enabled st1 (ConnectedEv ct)" by (simp add: f)
  from exec_total [OF this] obtain st2 where s2: "su_exec (ConnectedEv ct) st1 = Some st2" by blast
  have "isolated st2"
    using exec_isolated [OF s2 e] isolated_touches [OF assms(1) touches_on_syn [OF s1]] by simp
  moreover have "su_conns st2 sp = Some \<lparr>tc_data_tx = Some (su_next st1), tc_ack_shared = ?a, tc_seq_shared = ?a + 1, tc_isn = isn, tc_connecting = False\<rparr>"
    "su_queue st2 (su_next st1) = []" "su_sent st2 (su_next st1) = []" "\<not> su_closed st2 (su_next st1)"
    "su_cells st2 ?a = n + 1" "su_cells st2 (?a + 1) = isn + 1" "su_tun st2 = su_tun st @ [pkt]"
    using s2 pkt by (auto simp: connect_ok_def f Let_def ct_def emit_packet_def)
  ultimately have "established sp \<lparr>tc_data_tx = Some (su_next st1), tc_ack_shared = ?a, tc_seq_shared = ?a + 1, tc_isn = isn, tc_connecting = False\<rparr>
      (su_next st1) (n + 1) st2" "su_cells st2 (?a + 1) = isn + 1" "su_tun st2 = su_tun st @ [pkt]"
    by (simp_all add: established_def)
  then show ?thesis using s1 f(1) s2 pkt by (intro exI conjI) (assumption | simp)+
qed

lemma handshake_establishes_witness:
  "\<exists>st1 ct st2 conn ch. on_syn 1 (v4_new 8 8 8 8) 4000 443 99 7 su_init = Some (64, st1)
     \<and> su_exec (ConnectedEv ct) st1 = Some st2 \<and> established 4000 conn ch 100 st2"
proof -
  have "\<not> v4_is_private (v4_new 8 8 8 8)" using v4_octets_of_bytes [of "[8, 8, 8, 8]"] by (simp add: v4_is_private_def v4_new_def v4_of_bytes_def)
  from handshake_establishes [OF isolated_su_init _ this, of 4000 1 443 99 7] show ?thesis
    by (fastforce simp: su_init_def)
qed

section \<open>A full channel\<close>

text \<open>
  C33: when the channel to the writer is full, data is lost for good. The segment that comes next in
  the stream is acknowledged to the application in full, yet none of its bytes reaches the channel,
  and a retransmission of the same segment in any later state with this acknowledgement position
  changes no channel either.
\<close>

theorem full_channel_loses_data:
  assumes "su_conns st sp = Some conn" "\<not> tc_connecting conn" "tc_data_tx conn = Some ch"
    "su_cells st (tc_ack_shared conn) = n" "payload \<noteq> []" "length payload < 2 ^ 31" "CHANNEL_CAP \<le> length (su_queue st ch)"
  shows "\<exists>st' pkt. on_data src dst sp dp n payload st = Some (of_nat (length payload), st')
     \<and> su_queue st' = su_queue st \<and> su_sent st' = su_sent st \<and> su_tun st' = su_tun st @ [pkt]
     \<and> send_tcp dst src dp sp (su_cells st' (tc_seq_shared conn)) (n + of_nat (length payload)) 0x10 [] = Some pkt
     \<and> (\<forall>later. su_conns later sp = Some conn \<longrightarrow> su_cells later (tc_ack_shared conn) = su_cells st' (tc_ack_shared conn) \<longrightarrow>
          (\<exists>r st''. on_data src dst sp dp n payload later = Some (r, st'') \<and> su_queue st'' = su_queue later))"
proof -
  let ?a = "tc_ack_shared conn" and ?len = "length payload"
  let ?st1 = "st\<lparr>su_cells := (su_cells st)(?a := n + of_nat ?len)\<rparr>"
  have act: "data_action n ?len conn (su_cells st) = (Forward 0 (Some ch), (su_cells st)(?a := n + of_nat ?len))"
    using assms(3,4) by (simp add: data_action_def Let_def)
  have ts: "try_send ch payload ?st1 = ?st1" using assms(7) by (simp add: try_send_def)
  obtain pkt where pkt: "send_tcp dst src dp sp (su_cells ?st1 (tc_seq_shared conn)) (n + of_nat ?len) 0x10 [] = Some pkt"
    unfolding send_tcp_def by (rule send_tcp_ex_Some)
  have run: "on_data src dst sp dp n payload st = Some (of_nat ?len, ?st1\<lparr>su_tun := su_tun st @ [pkt]\<rparr>)"
    using assms(1,2) act ts pkt by (simp add: on_data_def Let_def slice_from_def emit_packet_def)
  have re: "\<exists>r st''. on_data src dst sp dp n payload later = Some (r, st'') \<and> su_queue st'' = su_queue later"
    if "su_conns later sp = Some conn" "su_cells later ?a = n + of_nat ?len" for later
  proof -
    have "data_action (n + of_nat 0) ?len conn (su_cells later) = (AckOnly, su_cells later)"
      using data_action_stream [of ?len 0 "su_cells later" conn n ?len] that assms(5,6) by simp
    moreover obtain st'' where "emit_packet (send_tcp dst src dp sp (su_cells later (tc_seq_shared conn)) (su_cells later ?a) 0x10 []) later = Some st''"
      using emit_total by blast
    moreover from this have "su_queue st'' = su_queue later" by (auto elim!: emit_packetE)
    ultimately show ?thesis using that assms(2) by (simp add: on_data_def Let_def)
  qed
  show ?thesis
    by (rule exI [of _ "?st1\<lparr>su_tun := su_tun st @ [pkt]\<rparr>"], rule exI [of _ pkt]) (use run pkt re in simp)
qed

theorem full_channel_loses_data_witness:
  "\<exists>st'. on_data 1 2 4000 443 100 [71] (sample_state\<lparr>su_queue := (\<lambda>_. replicate 128 [0])\<rparr>) = Some (1, st')
     \<and> su_queue st' 2 = replicate 128 [0]"
proof -
  let ?st = "sample_state\<lparr>su_queue := (\<lambda>_. replicate 128 [0])\<rparr>"
  have "su_conns ?st 4000 = Some sample_conn" "su_cells ?st (tc_ack_shared sample_conn) = 100"
    "\<not> tc_connecting sample_conn" "tc_data_tx sample_conn = Some 2" "CHANNEL_CAP \<le> length (su_queue ?st 2)"
    by (simp_all add: sample_state_def sample_conn_def CHANNEL_CAP_def)
  from full_channel_loses_data [OF this(1,3,4,2) _ _ this(5), of "[71]" 1 2 443] show ?thesis by auto
qed

end
