(* ===== verification/SocksDns.thy ===== *)
theory SocksDns
  imports SocksFlow
begin

text \<open>
  The rest of the SOCKS bridge of \<open>socks_upstream.rs\<close>: connecting through the proxy with retries until
  a deadline, the DNS forwarder with its cache and its limit of concurrent lookups, and the dispatch
  of a packet read from the device. Time is in milliseconds. The counter of transmitted bytes and
  the log are left out.
\<close>

section \<open>Connecting with retries\<close>

definition show_error :: "aether_error \<Rightarrow> string" where
  "show_error e = (case e of
       ErrIo m \<Rightarrow> ''io: '' @ m | ErrQuic m \<Rightarrow> ''quic: '' @ m | ErrH3 m \<Rightarrow> ''h3: '' @ m | ErrTls m \<Rightarrow> ''tls: '' @ m
     | ErrEch m \<Rightarrow> ''ech: '' @ m | ErrMasque m \<Rightarrow> ''masque: '' @ m
     | ErrNoCleanEndpoint \<Rightarrow> ''prober: no clean endpoint found'' | ErrCapsule m \<Rightarrow> ''capsule: '' @ m
     | ErrApi m \<Rightarrow> ''api: '' @ m | ErrIdentityRefused m \<Rightarrow> ''identity refused: '' @ m
     | ErrCancelled \<Rightarrow> ''cancelled'' | ErrOther m \<Rightarrow> ''other: '' @ m)"

text \<open>
  What one turn of the loop observes: the clock at the loop condition, after the pause and when the
  timeout is computed, and how the attempt ends, given its timeout.
\<close>

datatype 's attempt_end = Connected 's | Refused aether_error | TimedOut

record 's attempt =
  at_check :: nat
  at_slept :: nat
  at_tried :: nat
  at_end :: "nat \<Rightarrow> 's attempt_end"

definition connect_failed :: "string \<Rightarrow> nat \<Rightarrow> string option \<Rightarrow> aether_error" where
  "connect_failed target attempt last_err =
     ErrOther (''SOCKS5 connect failed for '' @ target @ '' within 4s ('' @ show_nat attempt @ '' attempts): ''
               @ (case last_err of None \<Rightarrow> [] | Some e \<Rightarrow> e))"

partial_function (option) connect_loop ::
  "string \<Rightarrow> nat \<Rightarrow> (nat \<Rightarrow> 's attempt) \<Rightarrow> nat \<Rightarrow> string option \<Rightarrow> ('s result \<times> nat) option" where
  "connect_loop target deadline obs attempt last_err =
     (let ob = obs attempt; fail = (\<lambda>n. Some (Inl (connect_failed target n last_err), n)) in
      if \<not> at_check ob < deadline then fail attempt
      else if attempt > 0 \<and> at_slept ob \<ge> deadline then fail attempt
      else let per_try = min (deadline - at_tried ob) 1500 in
        if per_try = 0 then fail (attempt + 1)
        else (case at_end ob per_try of
            Connected s \<Rightarrow> Some (Inr s, attempt + 1)
          | Refused e \<Rightarrow>
              if \<not> transient_error (show_error e) then Some (Inl e, attempt + 1)
              else connect_loop target deadline obs (attempt + 1) (Some (show_error e))
          | TimedOut \<Rightarrow> connect_loop target deadline obs (attempt + 1) (Some ''timeout'')))"

definition connect_through_socks :: "string \<Rightarrow> nat \<Rightarrow> (nat \<Rightarrow> 's attempt) \<Rightarrow> ('s result \<times> nat) option" where
  "connect_through_socks target start obs = connect_loop target (start + 4000) obs 0 None"

text \<open>The clock never goes back, and the pause before every attempt but the first lasts 150 ms or longer.\<close>

definition clock_ok :: "nat \<Rightarrow> (nat \<Rightarrow> 's attempt) \<Rightarrow> bool" where
  "clock_ok start obs \<longleftrightarrow> (\<forall>i. start \<le> at_check (obs i)
     \<and> at_check (obs i) + (if i = 0 then 0 else 150) \<le> at_slept (obs i)
     \<and> at_slept (obs i) \<le> at_tried (obs i) \<and> at_tried (obs i) \<le> at_check (obs (Suc i)))"

lemma clock_advances: "clock_ok start obs \<Longrightarrow> start + 150 * i \<le> at_check (obs (Suc i))"
proof (induction i)
  case 0
  have "start \<le> at_check (obs 0)" "at_check (obs 0) \<le> at_slept (obs 0)" "at_slept (obs 0) \<le> at_tried (obs 0)"
    "at_tried (obs 0) \<le> at_check (obs (Suc 0))"
    using 0 by (auto simp: clock_ok_def dest: spec [of _ 0])
  then show ?case by simp
next
  case (Suc i)
  have "at_check (obs (Suc i)) + 150 \<le> at_slept (obs (Suc i))" "at_slept (obs (Suc i)) \<le> at_tried (obs (Suc i))"
    "at_tried (obs (Suc i)) \<le> at_check (obs (Suc (Suc i)))"
    using Suc.prems by (auto simp: clock_ok_def dest: spec [of _ "Suc i"])
  then show ?case using Suc by simp
qed

lemma connect_loop_returns:
  assumes "clock_ok start obs" "attempt \<le> 28"
  shows "\<exists>r n. connect_loop target (start + 4000) obs attempt last_err = Some (r, n) \<and> n \<le> 28
     \<and> (\<forall>s. r = Inr s \<longrightarrow> (\<exists>i < n. \<exists>t \<le> 1500. 0 < t \<and> at_end (obs i) t = Connected s))"
  using assms(2)
proof (induction "28 - attempt" arbitrary: attempt last_err)
  case 0
  then have "attempt = 28" by simp
  moreover have "start + 150 * 27 \<le> at_check (obs (Suc 27))" by (rule clock_advances [OF assms(1)])
  ultimately have "\<not> at_check (obs attempt) < start + 4000" by simp
  then show ?case using \<open>attempt = 28\<close> by (subst connect_loop.simps) (simp add: Let_def)
next
  case (Suc d)
  then have IH: "\<exists>r n. connect_loop target (start + 4000) obs (Suc attempt) e = Some (r, n) \<and> n \<le> 28
     \<and> (\<forall>s. r = Inr s \<longrightarrow> (\<exists>i < n. \<exists>t \<le> 1500. 0 < t \<and> at_end (obs i) t = Connected s))" for e
    by simp
  let ?t = "min (start + 4000 - at_tried (obs attempt)) 1500"
  show ?case
  proof (cases "at_check (obs attempt) < start + 4000 \<and> \<not> (attempt > 0 \<and> at_slept (obs attempt) \<ge> start + 4000) \<and> ?t \<noteq> 0")
    case True
    then have c: "\<exists>i < Suc attempt. \<exists>t \<le> 1500. 0 < t \<and> at_end (obs i) t = Connected s" if "at_end (obs attempt) ?t = Connected s" for s
      using that by (intro exI [of _ attempt] exI [of _ ?t] conjI) simp_all
    have "attempt \<le> 27" using Suc.hyps(2) by simp
    then show ?thesis
      using True IH c
      by (cases "at_end (obs attempt) ?t") (simp_all add: connect_loop.simps [of _ _ _ attempt] Let_def)
  next
    case False
    then show ?thesis using Suc.hyps(2) Suc.prems by (auto simp: connect_loop.simps [of _ _ _ attempt] Let_def)
  qed
qed

text \<open>
  C34: connecting through the proxy always comes to an end. If the clock never goes back and the
  pause between two attempts lasts at least as long as asked for, the retry loop returns after at
  most 28 attempts, whatever the proxy does; a stream that it returns comes from one of these
  attempts, which had a timeout of at most 1.5 seconds.
\<close>

theorem connect_through_socks_returns:
  assumes "clock_ok start obs"
  shows "\<exists>r n. connect_through_socks target start obs = Some (r, n) \<and> n \<le> 28
     \<and> (\<forall>s. r = Inr s \<longrightarrow> (\<exists>i < n. \<exists>t \<le> 1500. 0 < t \<and> at_end (obs i) t = Connected s))"
  unfolding connect_through_socks_def by (rule connect_loop_returns [OF assms]) simp

definition sample_attempts :: "nat \<Rightarrow> nat attempt" where
  "sample_attempts i = \<lparr>at_check = 200 * i, at_slept = 200 * i + 150, at_tried = 200 * i + 160, at_end = (\<lambda>_. TimedOut)\<rparr>"

theorem connect_through_socks_returns_witness:
  "\<exists>r n. connect_through_socks ''1.1.1.1:53'' 0 sample_attempts = Some (r, n) \<and> n \<le> 28"
proof -
  have "clock_ok 0 sample_attempts" by (auto simp: clock_ok_def sample_attempts_def)
  from connect_through_socks_returns [OF this, of "''1.1.1.1:53''"] show ?thesis by blast
qed


section \<open>DNS\<close>

text \<open>One lookup over TCP: the query and the answer are preceded by their lengths.\<close>

definition dns_exchange :: "bytes \<Rightarrow> bytes \<Rightarrow> bytes \<times> bytes result" where
  "dns_exchange query input =
     (u16_bytes (of_nat (length query)) @ query,
      case read_exact 2 input of
        None \<Rightarrow> Inl eof_error
      | Some (len_buf, rest) \<Rightarrow>
          (case read_exact (be_val len_buf) rest of None \<Rightarrow> Inl eof_error | Some (resp, _) \<Rightarrow> Inr resp))"

text \<open>A connected stream is the bytes that the server will send.\<close>

definition forward_dns_tcp :: "string \<Rightarrow> nat \<Rightarrow> (nat \<Rightarrow> bytes attempt) \<Rightarrow> bytes \<Rightarrow> bytes result option" where
  "forward_dns_tcp target start obs query =
     map_option (\<lambda>(r, _). case r of Inl e \<Rightarrow> Inl e | Inr input \<Rightarrow> snd (dns_exchange query input))
       (connect_through_socks target start obs)"

definition dns_cache_key :: "u32 \<Rightarrow> bytes \<Rightarrow> bytes" where
  "dns_cache_key dns_server query = v4_octets dns_server @ (if length query > 2 then drop 2 query else [])"

record udp_task =
  ut_src_ip :: u32
  ut_dst_ip :: u32
  ut_src_port :: u16
  ut_payload :: bytes

definition handle_udp :: "bytes \<Rightarrow> nat \<Rightarrow> u32 \<Rightarrow> u32 \<Rightarrow> udp_task option rust" where
  "handle_udp packet ihl src_ip dst_ip =
     (if length packet < ihl + 8 then Some None
      else do {
        udp \<leftarrow> slice_from packet ihl;
        src_port \<leftarrow> field16 udp 0;
        dst_port \<leftarrow> field16 udp 2;
        if dst_port \<noteq> 53 \<or> length udp \<le> 8 then Some None
        else do {
          payload \<leftarrow> slice_from udp 8;
          Some (Some \<lparr>ut_src_ip = src_ip, ut_dst_ip = dst_ip, ut_src_port = src_port, ut_payload = payload\<rparr>) } })"

text \<open>The cache is an association list with distinct keys; an entry is a response and its expiry time.\<close>

type_synonym dns_cache = "(bytes \<times> bytes \<times> nat) list"

definition DNS_CACHE_TTL :: nat where "DNS_CACHE_TTL = 60000"

definition DNS_MAX_INFLIGHT :: nat where "DNS_MAX_INFLIGHT = 8"

definition cache_remove :: "bytes \<Rightarrow> dns_cache \<Rightarrow> dns_cache" where
  "cache_remove key c = filter (\<lambda>e. fst e \<noteq> key) c"

definition cache_lookup :: "nat \<Rightarrow> bytes \<Rightarrow> dns_cache \<Rightarrow> bytes option \<times> dns_cache" where
  "cache_lookup now key c =
     (case map_of c key of
        Some (resp, expiry) \<Rightarrow> if expiry > now then (Some resp, c) else (None, cache_remove key c)
      | None \<Rightarrow> (None, c))"

definition cache_insert :: "nat \<Rightarrow> bytes \<Rightarrow> bytes \<Rightarrow> dns_cache \<Rightarrow> dns_cache" where
  "cache_insert now key resp c =
     (let c = (if length c > 512 then [] else c)
      in (key, resp, now + DNS_CACHE_TTL) # cache_remove key c)"

definition restore_id :: "bytes \<Rightarrow> bytes \<Rightarrow> bytes" where
  "restore_id payload resp =
     (if length resp \<ge> 2 \<and> length payload \<ge> 2 then resp[0 := payload ! 0, 1 := payload ! 1] else resp)"

text \<open>
  \<open>dn_pending\<close> are the lookups that hold a permit; \<open>dn_replies\<close> what was sent to the device: the task and
  the DNS message; \<open>dn_tun\<close> the packets.
\<close>

record dns_state =
  dn_cache :: dns_cache
  dn_permits :: nat
  dn_pending :: "udp_task list"
  dn_replies :: "(udp_task \<times> bytes) list"
  dn_tun :: "bytes list"

definition dns_init :: dns_state where
  "dns_init = \<lparr>dn_cache = [], dn_permits = DNS_MAX_INFLIGHT, dn_pending = [], dn_replies = [], dn_tun = []\<rparr>"

definition dns_reply :: "udp_task \<Rightarrow> bytes \<Rightarrow> dns_state \<Rightarrow> dns_state rust" where
  "dns_reply task resp st = do {
     pkt \<leftarrow> send_udp (ut_dst_ip task) (ut_src_ip task) 53 (ut_src_port task) resp;
     Some (st\<lparr>dn_replies := dn_replies st @ [(task, resp)], dn_tun := dn_tun st @ [pkt]\<rparr>) }"

text \<open>The spawned task up to its lookup, and after the lookup.\<close>

definition dns_start :: "nat \<Rightarrow> udp_task \<Rightarrow> dns_state \<Rightarrow> dns_state rust" where
  "dns_start now task st =
     (case cache_lookup now (dns_cache_key (ut_dst_ip task) (ut_payload task)) (dn_cache st) of
        (Some resp, c) \<Rightarrow> dns_reply task (restore_id (ut_payload task) resp) (st\<lparr>dn_cache := c\<rparr>)
      | (None, c) \<Rightarrow>
          if dn_permits st = 0 then Some (st\<lparr>dn_cache := c\<rparr>)
          else Some (st\<lparr>dn_cache := c, dn_permits := dn_permits st - 1, dn_pending := dn_pending st @ [task]\<rparr>))"

definition dns_finish :: "nat \<Rightarrow> udp_task \<Rightarrow> bytes result \<Rightarrow> dns_state \<Rightarrow> dns_state rust" where
  "dns_finish now task r st =
     (let st = st\<lparr>dn_permits := dn_permits st + 1, dn_pending := remove1 task (dn_pending st)\<rparr> in
      case r of
        Inl e \<Rightarrow> Some st
      | Inr response \<Rightarrow>
          dns_reply task response
            (st\<lparr>dn_cache := cache_insert now (dns_cache_key (ut_dst_ip task) (ut_payload task)) response (dn_cache st)\<rparr>))"

section \<open>Dispatch\<close>

text \<open>One packet read from the device, as far as the protocol match.\<close>

datatype dispatch = Ignored | ToTcp nat u32 u32 | ToUdp nat u32 u32

definition serve_dispatch :: "bytes \<Rightarrow> dispatch rust" where
  "serve_dispatch packet =
     (if length packet < 20 then Some Ignored
      else do {
        b0 \<leftarrow> idx packet 0;
        if drop_bit 4 b0 \<noteq> 4 then Some Ignored
        else do {
          proto \<leftarrow> idx packet 9;
          src \<leftarrow> slice_of packet 12 16;
          dst \<leftarrow> slice_of packet 16 20;
          let ihl = unat (b0 AND 0x0f) * 4;
          Some (if proto = 6 then ToTcp ihl (v4_of_bytes src) (v4_of_bytes dst)
                else if proto = 17 then ToUdp ihl (v4_of_bytes src) (v4_of_bytes dst) else Ignored) } })"


section \<open>The cache answers only what was asked\<close>

lemma dns_cache_key_eq: "dns_cache_key srv q = v4_octets srv @ drop 2 q"
  by (simp add: dns_cache_key_def)

lemma dns_cache_key_inj: "dns_cache_key srv q = dns_cache_key srv' q' \<longleftrightarrow> srv = srv' \<and> drop 2 q = drop 2 q'"
  by (auto simp: dns_cache_key_eq append_eq_append_conv v4_octets_inj)

lemma restore_id_spec:
  assumes "2 \<le> length payload" "2 \<le> length resp"
  shows "restore_id payload resp = take 2 payload @ drop 2 resp"
proof -
  obtain a b p where "payload = a # b # p" using assms(1) by (cases payload; cases "drop 1 payload") auto
  moreover obtain c d r where "resp = c # d # r" using assms(2) by (cases resp; cases "drop 1 resp") auto
  ultimately show ?thesis by (simp add: restore_id_def)
qed

text \<open>A lookup that was answered: when, by which server, for which query and with which message.\<close>

type_synonym resolved = "nat \<times> u32 \<times> bytes \<times> bytes"

inductive dns_reach :: "resolved list \<Rightarrow> dns_state \<Rightarrow> bool" where
  init: "dns_reach [] dns_init"
| start: "dns_reach H st \<Longrightarrow> dns_start now task st = Some st' \<Longrightarrow> dns_reach H st'"
| failed: "dns_reach H st \<Longrightarrow> task \<in> set (dn_pending st) \<Longrightarrow> dns_finish now task (Inl e) st = Some st' \<Longrightarrow> dns_reach H st'"
| answered: "dns_reach H st \<Longrightarrow> task \<in> set (dn_pending st) \<Longrightarrow> dns_finish now task (Inr resp) st = Some st' \<Longrightarrow>
     dns_reach ((now, ut_dst_ip task, ut_payload task, resp) # H) st'"

definition cache_sound :: "resolved list \<Rightarrow> dns_cache \<Rightarrow> bool" where
  "cache_sound H c \<longleftrightarrow> distinct (map fst c) \<and> length c \<le> 513
     \<and> (\<forall>(key, resp, expiry) \<in> set c. \<exists>(t, srv, q, r) \<in> set H. key = dns_cache_key srv q \<and> resp = r \<and> expiry = t + DNS_CACHE_TTL)"

lemma length_cache_remove: "length (cache_remove key c) \<le> length c"
  by (simp add: cache_remove_def)

lemma cache_sound_remove: "cache_sound H c \<Longrightarrow> cache_sound H (cache_remove key c)"
  by (auto simp: cache_sound_def cache_remove_def distinct_map_filter intro: le_trans [OF length_filter_le])

lemma cache_sound_lookup: "cache_sound H c \<Longrightarrow> cache_sound H (snd (cache_lookup now key c))"
  by (auto simp: cache_lookup_def cache_sound_remove split: option.split)

lemma cache_sound_insert:
  assumes "cache_sound H c"
  shows "cache_sound ((now, srv, q, resp) # H) (cache_insert now (dns_cache_key srv q) resp c)"
proof -
  let ?c = "if length c > 512 then [] else c"
  have "cache_sound H ?c" using assms by (simp add: cache_sound_def)
  then have s: "cache_sound H (cache_remove (dns_cache_key srv q) ?c)" by (rule cache_sound_remove)
  have "length (cache_remove (dns_cache_key srv q) ?c) \<le> 512"
    using length_cache_remove [of "dns_cache_key srv q" ?c] by (simp split: if_splits)
  moreover have "dns_cache_key srv q \<notin> fst ` set (cache_remove (dns_cache_key srv q) ?c)" by (auto simp: cache_remove_def)
  ultimately show ?thesis using s by (fastforce simp: cache_insert_def Let_def cache_sound_def)
qed

lemma dns_reply_cache:
  assumes "dns_reply task resp st = Some st'"
  shows "dn_cache st' = dn_cache st" "dn_permits st' = dn_permits st" "dn_pending st' = dn_pending st"
    "dn_replies st' = dn_replies st @ [(task, resp)]"
  using assms by (auto simp: dns_reply_def bind_eq_Some_conv)

lemma length_pending: "task \<in> set p \<Longrightarrow> Suc (length (remove1 task p)) = length p"
  by (induction p) auto

lemma dns_reach_inv:
  "dns_reach H st \<Longrightarrow> cache_sound H (dn_cache st) \<and> dn_permits st + length (dn_pending st) = DNS_MAX_INFLIGHT"
proof (induction rule: dns_reach.induct)
  case init
  then show ?case by (simp add: dns_init_def cache_sound_def)
next
  case (start H st now task st')
  let ?key = "dns_cache_key (ut_dst_ip task) (ut_payload task)"
  show ?case
  proof (cases "fst (cache_lookup now ?key (dn_cache st))")
    case None
    with start show ?thesis using cache_sound_lookup [of H "dn_cache st" now ?key]
      by (auto simp: dns_start_def split: prod.splits option.splits if_splits)
  next
    case (Some resp)
    with start(2) have "dns_reply task (restore_id (ut_payload task) resp) (st\<lparr>dn_cache := snd (cache_lookup now ?key (dn_cache st))\<rparr>) = Some st'"
      by (auto simp: dns_start_def split: prod.splits option.splits)
    from dns_reply_cache [OF this] start(3) show ?thesis
      using cache_sound_lookup [of H "dn_cache st" now ?key] by simp
  qed
next
  case (failed H st task now e st')
  then show ?case using length_pending [OF failed(2)] by (auto simp: dns_finish_def)
next
  case (answered H st task now resp st')
  note r = dns_reply_cache [OF answered(3) [unfolded dns_finish_def Let_def sum.case]]
  show ?case
    using cache_sound_insert [of H "dn_cache st" now "ut_dst_ip task" "ut_payload task" resp]
      length_pending [OF answered(2)] answered(4) by (simp add: r(1-3))
qed


lemma cache_hit_resolved:
  assumes "cache_sound H c" "fst (cache_lookup now (dns_cache_key srv q) c) = Some resp"
  shows "\<exists>t q'. (t, srv, q', resp) \<in> set H \<and> drop 2 q' = drop 2 q \<and> now < t + DNS_CACHE_TTL"
proof -
  obtain expiry where "map_of c (dns_cache_key srv q) = Some (resp, expiry)" "now < expiry"
    using assms(2) by (auto simp: cache_lookup_def split: option.splits if_splits)
  then have "(dns_cache_key srv q, resp, expiry) \<in> set c" by (simp add: map_of_SomeD)
  with assms(1) have "\<exists>(t, srv', q', r) \<in> set H. dns_cache_key srv q = dns_cache_key srv' q' \<and> resp = r \<and> expiry = t + DNS_CACHE_TTL"
    by (fastforce simp: cache_sound_def)
  then obtain t srv' q' where "(t, srv', q', resp) \<in> set H" "dns_cache_key srv q = dns_cache_key srv' q'" "expiry = t + DNS_CACHE_TTL"
    by blast
  then show ?thesis using \<open>now < expiry\<close> by (auto simp: dns_cache_key_inj)
qed

text \<open>
  C35: the DNS cache is sound, bounded and never over-commits. In every reachable state it holds at
  most 513 entries, one per question, and the lookups in flight together with the free permits are
  the eight of the semaphore. A query that is answered without a lookup gets a message that the same
  server gave to the same question less than sixty seconds before, with the transaction id of the
  new query in place of the old one; every other query starts a lookup or is dropped.
\<close>

theorem dns_cache_answers_the_question:
  assumes "dns_reach H st" "2 \<le> length (ut_payload task)"
  shows "length (dn_cache st) \<le> 513 \<and> distinct (map fst (dn_cache st))
     \<and> dn_permits st + length (dn_pending st) = DNS_MAX_INFLIGHT
     \<and> (\<exists>st'. dns_start now task st = Some st' \<and>
         ((\<exists>t q resp. (t, ut_dst_ip task, q, resp) \<in> set H \<and> drop 2 q = drop 2 (ut_payload task) \<and> now < t + DNS_CACHE_TTL
             \<and> dn_replies st' = dn_replies st @ [(task, if 2 \<le> length resp then take 2 (ut_payload task) @ drop 2 resp else resp)])
          \<or> dn_replies st' = dn_replies st \<and> (dn_pending st' = dn_pending st @ [task] \<or> dn_permits st = 0)))"
proof -
  let ?key = "dns_cache_key (ut_dst_ip task) (ut_payload task)"
  have inv: "cache_sound H (dn_cache st)" "dn_permits st + length (dn_pending st) = DNS_MAX_INFLIGHT"
    using dns_reach_inv [OF assms(1)] by simp_all
  obtain hit c where l: "cache_lookup now ?key (dn_cache st) = (hit, c)" by fastforce
  have "\<exists>st'. dns_start now task st = Some st' \<and>
         ((\<exists>t q resp. (t, ut_dst_ip task, q, resp) \<in> set H \<and> drop 2 q = drop 2 (ut_payload task) \<and> now < t + DNS_CACHE_TTL
             \<and> dn_replies st' = dn_replies st @ [(task, if 2 \<le> length resp then take 2 (ut_payload task) @ drop 2 resp else resp)])
          \<or> dn_replies st' = dn_replies st \<and> (dn_pending st' = dn_pending st @ [task] \<or> dn_permits st = 0))"
  proof (cases hit)
    case None
    then show ?thesis using l by (simp add: dns_start_def)
  next
    case (Some resp)
    have r: "restore_id (ut_payload task) resp = (if 2 \<le> length resp then take 2 (ut_payload task) @ drop 2 resp else resp)"
      using restore_id_spec [OF assms(2), of resp] by (simp add: restore_id_def)
    from Some l have hit: "fst (cache_lookup now ?key (dn_cache st)) = Some resp" by simp
    obtain pkt where pkt: "send_udp (ut_dst_ip task) (ut_src_ip task) 53 (ut_src_port task) (restore_id (ut_payload task) resp) = Some pkt"
      by (simp add: send_udp_def Let_def ip_checksum_header)
    let ?msg = "if 2 \<le> length resp then take 2 (ut_payload task) @ drop 2 resp else resp"
    obtain st' where "dns_start now task st = Some st'" "dn_replies st' = dn_replies st @ [(task, ?msg)]"
      using l Some pkt by (simp add: dns_start_def dns_reply_def flip: r)
    then show ?thesis using cache_hit_resolved [OF inv(1) hit] by blast
  qed
  then show ?thesis using inv by (simp add: cache_sound_def)
qed

theorem dns_cache_answers_the_question_witness:
  "\<exists>st'. dns_start 5 \<lparr>ut_src_ip = 1, ut_dst_ip = 2, ut_src_port = 3, ut_payload = [0, 1, 2]\<rparr> dns_init = Some st'"
  using dns_cache_answers_the_question
    [OF dns_reach.init, of "\<lparr>ut_src_ip = 1, ut_dst_ip = 2, ut_src_port = 3, ut_payload = [0, 1, 2]\<rparr>" 5]
  by auto

end
