(* ===== verification/Account.thy ===== *)
theory Account
  imports ZeroTrust SocksDns
begin

text \<open>
  The account client (\<open>account.rs\<close>): the exchange with the provider over the direct route with retries and
  over the camouflaged route of \<open>Apifront\<close>, registration and enrolment of a device, the refresh of a saved
  profile and the lifetime of the MASQUE certificate.

  JSON, base64, hexadecimal text, the key agreement, the text of a status code and the HTTP client are
  external crates: they are the fields of \<open>api_ext\<close> and of \<open>api_net\<close>, which also holds the random draws.
  A call that reads the clock takes the time it reads as an argument, in seconds. The log is left out.
\<close>

section \<open>Data\<close>

record registration =
  rg_key :: string
  rg_install_id :: string
  rg_fcm_token :: string
  rg_tos :: string
  rg_model :: string
  rg_serial_number :: string
  rg_os_version :: string
  rg_key_type :: string
  rg_tunnel_type :: string
  rg_locale :: string

record team_registration =
  tg_key :: string
  tg_install_id :: string
  tg_fcm_token :: string
  tg_tos :: string
  tg_model :: string
  tg_name :: string
  tg_serial_number :: string
  tg_locale :: string

record device_update =
  du_key :: string
  du_key_type :: string
  du_tunnel_type :: string
  du_name :: "string option"

record peer_endpoint =
  pe_v4 :: string
  pe_v6 :: string
  pe_host :: string

record account_peer =
  ap_public_key :: string
  ap_endpoint :: peer_endpoint

record account_addresses =
  aa_v4 :: string
  aa_v6 :: string

record account_interface =
  if_addresses :: account_addresses

record account_services =
  sv_http_proxy :: string

record account_config =
  ac_interface :: account_interface
  ac_peers :: "account_peer list"
  ac_client_id :: string
  ac_services :: account_services

record account_info =
  ai_id :: string
  ai_account_type :: string
  ai_organization :: string

record account_data =
  ad_id :: string
  ad_token :: string
  ad_config :: account_config
  ad_account :: account_info

record identity =
  i_device_id :: string
  i_access_token :: string
  i_cert_pem :: bytes
  i_key_pem :: bytes
  i_cert_issued_at :: u64
  i_ipv4 :: string
  i_ipv6 :: string
  i_wg_private_key :: bytes
  i_wg_peer_public_key :: bytes
  i_client_id :: bytes
  i_organization :: string
  i_gateway_proxy :: string
  i_assigned_endpoint :: string
  i_refused :: bool

record masque_key_pair =
  mk_key_pem :: bytes
  mk_cert_pem :: bytes
  mk_spki_der :: bytes

record masque_enrollment =
  me_cert_pem :: bytes
  me_key_pem :: bytes
  me_issued_at :: u64
  me_renewed :: bool
  me_assigned_endpoint :: string

datatype api_body = BodyRegistration registration | BodyTeam team_registration | BodyUpdate device_update

record api_ext =
  ext_show_status :: "nat \<Rightarrow> string"
  ext_json :: "string \<Rightarrow> json option"
  ext_decode_account :: "string \<Rightarrow> string + account_data"
  ext_to_vec :: "api_body \<Rightarrow> string + bytes"
  ext_b64_encode :: "bytes \<Rightarrow> string"
  ext_b64_decode :: "string \<Rightarrow> string + bytes"
  ext_x25519_public :: "bytes \<Rightarrow> bytes"
  ext_hex :: "bytes \<Rightarrow> string"

text \<open>
  One request over the direct route: building the client fails, sending fails, or an answer arrives. The
  answer carries the value of \<open>Retry-After\<close> when that header is present and visible ASCII, and the body or
  the text of the failure to read it.
\<close>

record http_answer =
  ha_status :: nat
  ha_retry_after :: "string option"
  ha_body :: "string + string"

datatype api_attempt = BuildFails aether_error | SendFails string | Answers http_answer

record direct_request =
  dq_method :: string
  dq_url :: string
  dq_headers :: "(string \<times> string) list"
  dq_bearer :: "string option"
  dq_body :: "api_body option"

record api_net =
  net_direct :: "direct_request \<Rightarrow> nat \<Rightarrow> api_attempt"
  net_rng :: "nat \<Rightarrow> u32"
  net_edges :: "edge_addr list"
  net_front :: "api_request \<Rightarrow> fingerprint \<times> edge_addr \<Rightarrow> api_response result rust"


section \<open>Constants and classification\<close>

definition API_URL :: string where "API_URL = ''https://api.cloudflareclient.com''"
definition API_VERSION :: string where "API_VERSION = ''v0a4471''"
definition KEY_TYPE_MASQUE :: string where "KEY_TYPE_MASQUE = ''secp256r1''"
definition TUN_TYPE_MASQUE :: string where "TUN_TYPE_MASQUE = ''masque''"
definition CF_CLIENT_VERSION :: string where "CF_CLIENT_VERSION = ''a-6.35-4471''"
definition API_ATTEMPTS :: nat where "API_ATTEMPTS = 5"
definition API_BACKOFF_BASE_MS :: nat where "API_BACKOFF_BASE_MS = 900"
definition API_BACKOFF_CAP_MS :: nat where "API_BACKOFF_CAP_MS = 15000"
definition API_RETRY_AFTER_CAP_SECS :: nat where "API_RETRY_AFTER_CAP_SECS = 30"
definition MASQUE_CERT_LIFETIME_SECS :: u64 where "MASQUE_CERT_LIFETIME_SECS = 365 * 86400"
definition MASQUE_CERT_RENEW_BEFORE_SECS :: u64 where "MASQUE_CERT_RENEW_BEFORE_SECS = 7 * 86400"

definition backoff_delay :: "nat \<Rightarrow> u32 \<Rightarrow> nat" where
  "backoff_delay attempt draw =
     (let exponential = min (API_BACKOFF_BASE_MS * 2 ^ min attempt 5) (2 ^ 64 - 1);
          capped = min exponential API_BACKOFF_CAP_MS
      in capped div 2 + unat draw mod (capped div 3 + 1))"

definition retry_after :: "string option \<Rightarrow> nat option" where
  "retry_after header = do {
     raw \<leftarrow> header;
     seconds \<leftarrow> parse_unsigned (2 ^ 64 - 1) (trim raw);
     Some (min seconds API_RETRY_AFTER_CAP_SECS) }"

definition worth_retrying :: "nat \<Rightarrow> bool" where
  "worth_retrying status \<longleftrightarrow> status = 429 \<or> status = 408 \<or> (500 \<le> status \<and> status < 600)"

definition refuses_identity :: "nat \<Rightarrow> bool" where
  "refuses_identity status \<longleftrightarrow> status = 401 \<or> status = 404 \<or> status = 410"

definition is_success :: "nat \<Rightarrow> bool" where
  "is_success status \<longleftrightarrow> 200 \<le> status \<and> status < 300"

text \<open>\<open>trim_start_matches\<close> with a string removes it as often as it occurs.\<close>

function trim_start_str :: "string \<Rightarrow> string \<Rightarrow> string" where
  "trim_start_str p s = (if p \<noteq> [] \<and> starts_with p s then trim_start_str p (drop (length p) s) else s)"
  by pat_completeness auto
termination
  by (relation "measure (\<lambda>(p, s). length s)") (auto simp: starts_with_def intro!: diff_less)

declare trim_start_str.simps [simp del]

definition api_host :: string where
  "api_host = hd (split_char CHR ''/'' (trim_start_str ''http://'' (trim_start_str ''https://'' API_URL)))"

definition front_headers :: "string option \<Rightarrow> string option \<Rightarrow> (string \<times> string) list" where
  "front_headers bearer jwt =
     [(''Content-Type'', ''application/json; charset=UTF-8''), (''User-Agent'', UA_REGISTER),
      (''CF-Client-Version'', CF_CLIENT_VERSION), (''Accept'', ''application/json'')]
     @ (case bearer of Some token \<Rightarrow> [(''Authorization'', ''Bearer '' @ token)] | None \<Rightarrow> [])
     @ (case jwt of Some token \<Rightarrow> [(''CF-Access-Jwt-Assertion'', token)] | None \<Rightarrow> [])"

definition base_headers :: "(string \<times> string) list" where
  "base_headers =
     [(''content-type'', ''application/json; charset=UTF-8''), (''connection'', ''Keep-Alive''),
      (''CF-Client-Version'', CF_CLIENT_VERSION)]"


section \<open>Describing a rejection\<close>

definition show_int :: "int \<Rightarrow> string" where
  "show_int i = (if i < 0 then ''-'' @ show_nat (nat (- i)) else show_nat (nat i))"

definition api_error_part :: "json \<Rightarrow> string" where
  "api_error_part entry =
     (let message = (case Option.bind (json_get ''message'' entry) as_str of Some m \<Rightarrow> m | None \<Rightarrow> ''unknown'') in
      case Option.bind (json_get ''code'' entry) as_i64 of
        Some code \<Rightarrow> message @ '' (code '' @ show_int code @ '')''
      | None \<Rightarrow> message)"

fun join_with :: "string \<Rightarrow> string list \<Rightarrow> string" where
  "join_with sep [] = []"
| "join_with sep [x] = x"
| "join_with sep (x # y # ys) = x @ sep @ join_with sep (y # ys)"

definition extract_api_error :: "api_ext \<Rightarrow> string \<Rightarrow> string option" where
  "extract_api_error X body = do {
     v \<leftarrow> ext_json X body;
     errors \<leftarrow> Option.bind (json_get ''errors'' v) as_array;
     let parts = map api_error_part errors;
     if parts = [] then None else Some (join_with ''; '' parts) }"

definition ellipsis :: string where "ellipsis = bytes_str [0xE2, 0x80, 0xA6]"

definition rejection_detail :: "api_ext \<Rightarrow> string \<Rightarrow> string rust" where
  "rejection_detail X body =
     (case extract_api_error X body of
        Some d \<Rightarrow> Some d
      | None \<Rightarrow>
          let trimmed = trim body in
          if trimmed = [] then Some ''no details returned''
          else if length trimmed > 220 then do { s \<leftarrow> str_slice trimmed 0 220; Some (s @ ellipsis) }
          else Some trimmed)"

definition rejection_hint :: "nat \<Rightarrow> string" where
  "rejection_hint status =
     (if status = 403 then
        '' (cloudflare refused this network; the address looks flagged, try again later, switch network, or import an existing identity)''
      else if status = 429 then
        '' (too many registrations from this address; wait a few minutes before trying again)''
      else [])"

definition describe_rejection :: "api_ext \<Rightarrow> nat \<Rightarrow> string \<Rightarrow> string rust" where
  "describe_rejection X status body = do {
     detail \<leftarrow> rejection_detail X body;
     Some (''status '' @ ext_show_status X status @ '': '' @ detail @ rejection_hint status) }"

text \<open>\<open>StatusCode::from_u16\<close> accepts 100 to 999.\<close>

definition describe_status :: "api_ext \<Rightarrow> nat \<Rightarrow> string \<Rightarrow> string rust" where
  "describe_status X status body =
     (if 100 \<le> status \<and> status < 1000 then describe_rejection X status body
      else Some (''status '' @ show_nat status @ '': '' @ body))"


section \<open>The two routes\<close>

text \<open>
  The direct route. The first component of the result is the pauses made, in milliseconds. The list is
  the attempts still to come.
\<close>

fun retry_loop ::
  "api_ext \<Rightarrow> (nat \<Rightarrow> u32) \<Rightarrow> string \<Rightarrow> (nat \<Rightarrow> api_attempt) \<Rightarrow> nat list \<Rightarrow> nat list \<Rightarrow> aether_error
     \<Rightarrow> (nat list \<times> account_data result) rust" where
  "retry_loop X rng label send [] waits last_error = Some (waits, Inl last_error)"
| "retry_loop X rng label send (attempt # rest) waits last_error =
     (let waits = (if attempt > 0 then waits @ [backoff_delay (attempt - 1) (rng attempt)] else waits) in
      case send attempt of
        BuildFails e \<Rightarrow> Some (waits, Inl e)
      | SendFails e \<Rightarrow> retry_loop X rng label send rest waits (ErrApi (label @ '': '' @ e))
      | Answers a \<Rightarrow>
          (case ha_body a of
             Inl e \<Rightarrow> Some (waits, Inl (ErrApi (label @ '': '' @ e)))
           | Inr body \<Rightarrow>
               if is_success (ha_status a) then
                 Some (waits, case ext_decode_account X body of
                    Inr d \<Rightarrow> Inr d
                  | Inl e \<Rightarrow> Inl (ErrApi (label @ '' decode: '' @ e @ ''; body='' @ body)))
               else do {
                 d \<leftarrow> describe_rejection X (ha_status a) body;
                 if refuses_identity (ha_status a) then Some (waits, Inl (ErrIdentityRefused (label @ '': '' @ d)))
                 else if \<not> worth_retrying (ha_status a) then Some (waits, Inl (ErrApi (label @ '': '' @ d)))
                 else retry_loop X rng label send rest
                        (waits @ (case retry_after (ha_retry_after a) of Some s \<Rightarrow> [1000 * s] | None \<Rightarrow> []))
                        (ErrApi (label @ '': '' @ d)) }))"

definition send_with_retry ::
  "api_ext \<Rightarrow> (nat \<Rightarrow> u32) \<Rightarrow> string \<Rightarrow> (nat \<Rightarrow> api_attempt) \<Rightarrow> (nat list \<times> account_data result) rust" where
  "send_with_retry X rng label send =
     retry_loop X rng label send [0..<API_ATTEMPTS] [] (ErrApi (label @ '': no attempt was made''))"

definition fallback_call ::
  "api_ext \<Rightarrow> api_net \<Rightarrow> string \<Rightarrow> string \<Rightarrow> string \<Rightarrow> bytes option \<Rightarrow> string option \<Rightarrow> string option
     \<Rightarrow> account_data result rust" where
  "fallback_call X N label meth path body bearer jwt = do {
     let request = \<lparr>rq_method = meth, rq_host = api_host, rq_path = path, rq_headers = front_headers bearer jwt,
                    rq_body = body\<rparr>;
     r \<leftarrow> fetch (net_front N request) (net_edges N);
     case r of
       Inl e \<Rightarrow> Some (Inl e)
     | Inr response \<Rightarrow>
         if is_success (rs_status response) then
           Some (case ext_decode_account X (rs_body response) of
              Inr d \<Rightarrow> Inr d
            | Inl e \<Rightarrow> Inl (ErrApi (label @ '' decode over '' @ rs_route response @ '': '' @ e @ ''; body='' @ rs_body response)))
         else do {
           d \<leftarrow> describe_status X (rs_status response) (rs_body response);
           let described = label @ '' over '' @ rs_route response @ '': '' @ d;
           Some (Inl (if refuses_identity (rs_status response) then ErrIdentityRefused described else ErrApi described)) } }"

text \<open>What the direct route gives for a request, without its pauses.\<close>

definition direct_call :: "api_ext \<Rightarrow> api_net \<Rightarrow> string \<Rightarrow> direct_request \<Rightarrow> account_data result rust" where
  "direct_call X N label rq = map_option snd (send_with_retry X (net_rng N) label (net_direct N rq))"


section \<open>Registration and enrolment\<close>

text \<open>The private key is drawn at random and clamped.\<close>

definition clamp :: "bytes \<Rightarrow> bytes" where
  "clamp k = k[0 := k ! 0 AND 248, 31 := (k ! 31 AND 127) OR 64]"

definition generate_x25519_keypair :: "api_ext \<Rightarrow> bytes \<Rightarrow> bytes \<times> string" where
  "generate_x25519_keypair X draw =
     (let private = clamp draw in (private, ext_b64_encode X (ext_x25519_public X private)))"

definition registration_body :: "api_ext \<Rightarrow> string \<Rightarrow> string \<Rightarrow> string \<Rightarrow> bytes \<Rightarrow> string \<Rightarrow> registration" where
  "registration_body X key tos model serial locale =
     \<lparr>rg_key = key, rg_install_id = [], rg_fcm_token = [], rg_tos = tos, rg_model = model, rg_serial_number = ext_hex X serial,
      rg_os_version = [], rg_key_type = ''curve25519'', rg_tunnel_type = ''wireguard'', rg_locale = locale\<rparr>"

definition team_registration_body :: "string \<Rightarrow> string \<Rightarrow> string \<Rightarrow> string \<Rightarrow> (nat \<Rightarrow> nat) \<Rightarrow> (nat \<Rightarrow> nat) \<Rightarrow> team_registration" where
  "team_registration_body key tos model locale draw draw' =
     (let install_id = generate_install_id draw; fcm_token = generate_fcm_token install_id draw' in
      \<lparr>tg_key = key, tg_install_id = install_id, tg_fcm_token = fcm_token, tg_tos = tos, tg_model = model, tg_name = install_id,
       tg_serial_number = install_id, tg_locale = locale\<rparr>)"

definition reg_path :: "string option \<Rightarrow> string" where
  "reg_path device = ''/'' @ API_VERSION @ ''/reg'' @ (case device of None \<Rightarrow> [] | Some d \<Rightarrow> ''/'' @ d)"

definition both_routes :: "string \<Rightarrow> aether_error \<Rightarrow> aether_error \<Rightarrow> string" where
  "both_routes label primary secondary =
     label @ '': direct route -> '' @ show_error primary @ ''; camouflaged route -> '' @ show_error secondary"

text \<open>What \<open>register\<close> and \<open>register_with_team\<close> share: the direct route, then the camouflaged one.\<close>

definition register_over ::
  "api_ext \<Rightarrow> api_net \<Rightarrow> string \<Rightarrow> api_body \<Rightarrow> string option \<Rightarrow> account_data result rust" where
  "register_over X N label body jwt =
     (case ext_to_vec X body of
        Inl e \<Rightarrow> Some (Inl (ErrApi (''encode: '' @ e)))
      | Inr encoded \<Rightarrow> do {
          direct \<leftarrow> direct_call X N label
            \<lparr>dq_method = ''POST'', dq_url = API_URL @ reg_path None,
             dq_headers = base_headers @ (case jwt of Some t \<Rightarrow> [(''CF-Access-Jwt-Assertion'', t)] | None \<Rightarrow> []),
             dq_bearer = None, dq_body = Some body\<rparr>;
          case direct of
            Inr account \<Rightarrow> Some (Inr account)
          | Inl primary \<Rightarrow> do {
              second \<leftarrow> fallback_call X N label ''POST'' (reg_path None) (Some encoded) None jwt;
              Some (case second of
                 Inr account \<Rightarrow> Inr account
               | Inl secondary \<Rightarrow> Inl (ErrApi (both_routes label primary secondary))) } })"

record draws =
  dr_key :: bytes
  dr_serial :: bytes
  dr_install :: "nat \<Rightarrow> nat"
  dr_fcm :: "nat \<Rightarrow> nat"
  dr_tos :: string

definition register ::
  "api_ext \<Rightarrow> api_net \<Rightarrow> draws \<Rightarrow> string \<Rightarrow> string \<Rightarrow> string option \<Rightarrow> (account_data \<times> bytes) result rust" where
  "register X N D model locale jwt = do {
     let (private, public) = generate_x25519_keypair X (dr_key D);
     account \<leftarrow> register_over X N ''registration''
       (BodyRegistration (registration_body X public (dr_tos D) model (dr_serial D) locale)) jwt;
     Some (map_sum id (\<lambda>a. (a, private)) account) }"

definition register_with_team ::
  "api_ext \<Rightarrow> api_net \<Rightarrow> draws \<Rightarrow> string \<Rightarrow> string \<Rightarrow> string \<Rightarrow> (account_data \<times> bytes) result rust" where
  "register_with_team X N D model locale token = do {
     let (private, public) = generate_x25519_keypair X (dr_key D);
     account \<leftarrow> register_over X N ''team registration''
       (BodyTeam (team_registration_body public (dr_tos D) model locale (dr_install D) (dr_fcm D))) (Some token);
     Some (map_sum id (\<lambda>a. (a, private)) account) }"

definition is_refused :: "aether_error \<Rightarrow> bool" where
  "is_refused e \<longleftrightarrow> (case e of ErrIdentityRefused _ \<Rightarrow> True | _ \<Rightarrow> False)"

definition enroll_key ::
  "api_ext \<Rightarrow> api_net \<Rightarrow> string \<Rightarrow> string \<Rightarrow> bytes \<Rightarrow> string option \<Rightarrow> account_data result rust" where
  "enroll_key X N device_id token spki_der name =
     (let body = BodyUpdate \<lparr>du_key = ext_b64_encode X spki_der, du_key_type = KEY_TYPE_MASQUE, du_tunnel_type = TUN_TYPE_MASQUE,
                            du_name = name\<rparr>;
          label = ''key enrollment'' in
      case ext_to_vec X body of
        Inl e \<Rightarrow> Some (Inl (ErrApi (''encode: '' @ e)))
      | Inr encoded \<Rightarrow> do {
          direct \<leftarrow> direct_call X N label
            \<lparr>dq_method = ''PATCH'', dq_url = API_URL @ reg_path (Some device_id), dq_headers = base_headers,
             dq_bearer = Some token, dq_body = Some body\<rparr>;
          case direct of
            Inr account \<Rightarrow> Some (Inr account)
          | Inl primary \<Rightarrow> do {
              second \<leftarrow> fallback_call X N label ''PATCH'' (reg_path (Some device_id)) (Some encoded) (Some token) None;
              Some (case second of
                 Inr account \<Rightarrow> Inr account
               | Inl secondary \<Rightarrow>
                   Inl (if is_refused primary \<or> is_refused secondary then ErrIdentityRefused (both_routes label primary secondary)
                        else ErrApi (both_routes label primary secondary))) } })"

definition fetch_device :: "api_ext \<Rightarrow> api_net \<Rightarrow> string \<Rightarrow> string \<Rightarrow> account_data result rust" where
  "fetch_device X N device_id token = do {
     let label = ''device refresh'';
     direct \<leftarrow> direct_call X N label
       \<lparr>dq_method = ''GET'', dq_url = API_URL @ reg_path (Some device_id), dq_headers = base_headers, dq_bearer = Some token,
        dq_body = None\<rparr>;
     case direct of
       Inr account \<Rightarrow> Some (Inr account)
     | Inl primary \<Rightarrow> fallback_call X N label ''GET'' (reg_path (Some device_id)) None (Some token) None }"


section \<open>Identities\<close>

definition extract_wg_peer :: "api_ext \<Rightarrow> account_data \<Rightarrow> bytes result" where
  "extract_wg_peer X reg =
     (case ac_peers (ad_config reg) of
        [] \<Rightarrow> Inl (ErrApi ''no peers in registration response'')
      | peer # _ \<Rightarrow>
          (case ext_b64_decode X (ap_public_key peer) of
             Inl e \<Rightarrow> Inl (ErrApi (''decode peer pubkey: '' @ e))
           | Inr decoded \<Rightarrow> if length decoded \<noteq> 32 then Inl (ErrApi ''invalid peer pubkey length'') else Inr decoded))"

definition endpoint_from :: "account_data \<Rightarrow> string" where
  "endpoint_from reg =
     (let raw = (case ac_peers (ad_config reg) of [] \<Rightarrow> [] | peer # _ \<Rightarrow> trim (pe_v4 (ap_endpoint peer))) in
      case rsplit_once CHR '':'' raw of
        Some (host, _) \<Rightarrow> if host \<noteq> [] then host else raw
      | None \<Rightarrow> raw)"

definition decode_client_id :: "api_ext \<Rightarrow> string \<Rightarrow> bytes" where
  "decode_client_id X c =
     (if c \<noteq> [] then (case ext_b64_decode X c of
          Inr decoded \<Rightarrow> if length decoded = 3 then decoded else [0, 0, 0]
        | Inl _ \<Rightarrow> [0, 0, 0])
      else [0, 0, 0])"

definition finish_provision :: "api_ext \<Rightarrow> account_data \<Rightarrow> bytes \<Rightarrow> identity result" where
  "finish_provision X reg wg_private =
     (if ad_token reg = [] then Inl (ErrApi ''registration returned empty token'')
      else case extract_wg_peer X reg of
        Inl e \<Rightarrow> Inl e
      | Inr wg_peer_public \<Rightarrow>
          Inr \<lparr>i_device_id = ad_id reg, i_access_token = ad_token reg, i_cert_pem = [], i_key_pem = [], i_cert_issued_at = 0,
               i_ipv4 = aa_v4 (if_addresses (ac_interface (ad_config reg))),
               i_ipv6 = aa_v6 (if_addresses (ac_interface (ad_config reg))),
               i_wg_private_key = wg_private, i_wg_peer_public_key = wg_peer_public,
               i_client_id = decode_client_id X (ac_client_id (ad_config reg)),
               i_organization = trim (ai_organization (ad_account reg)),
               i_gateway_proxy = trim (sv_http_proxy (ac_services (ad_config reg))),
               i_assigned_endpoint = endpoint_from reg, i_refused = False\<rparr>)"

definition provision_wg :: "api_ext \<Rightarrow> api_net \<Rightarrow> draws \<Rightarrow> string \<Rightarrow> string \<Rightarrow> string option \<Rightarrow> identity result rust" where
  "provision_wg X N D model locale jwt = do {
     r \<leftarrow> register X N D model locale jwt;
     Some (case r of Inl e \<Rightarrow> Inl e | Inr (reg, private) \<Rightarrow> finish_provision X reg private) }"

definition provision_team ::
  "api_ext \<Rightarrow> api_net \<Rightarrow> draws \<Rightarrow> jwt_ext \<Rightarrow> zt_world \<Rightarrow> u64 \<Rightarrow> u64 \<Rightarrow> string \<Rightarrow> string \<Rightarrow> team_settings \<Rightarrow> zt_state
     \<Rightarrow> (zt_state \<times> identity result) rust" where
  "provision_team X N D J W now now' model locale settings z =
     (case resolve_token J W now now' settings z of
        (z, Inl e) \<Rightarrow> Some (z, Inl e)
      | (z, Inr token) \<Rightarrow> do {
          r \<leftarrow> register_with_team X N D model locale token;
          Some (z, case r of Inl e \<Rightarrow> Inl e | Inr (reg, private) \<Rightarrow> finish_provision X reg private) })"

definition adopt_account :: "account_data \<Rightarrow> identity \<Rightarrow> identity" where
  "adopt_account reg ident =
     (let ipv4 = trim (aa_v4 (if_addresses (ac_interface (ad_config reg))));
          ipv6 = trim (aa_v6 (if_addresses (ac_interface (ad_config reg)))) in
      ident\<lparr>i_ipv4 := if ipv4 = [] then i_ipv4 ident else ipv4, i_ipv6 := if ipv6 = [] then i_ipv6 ident else ipv6,
            i_organization := trim (ai_organization (ad_account reg)),
            i_gateway_proxy := trim (sv_http_proxy (ac_services (ad_config reg))),
            i_assigned_endpoint := endpoint_from reg, i_refused := False\<rparr>)"

definition refresh_profile :: "api_ext \<Rightarrow> api_net \<Rightarrow> identity \<Rightarrow> identity rust" where
  "refresh_profile X N ident = do {
     r \<leftarrow> fetch_device X N (i_device_id ident) (i_access_token ident);
     Some (case r of
        Inr reg \<Rightarrow> adopt_account reg ident
      | Inl e \<Rightarrow> if is_refused e then ident\<lparr>i_refused := True\<rparr> else ident) }"


section \<open>The MASQUE certificate\<close>

definition masque_cert_expiring :: "u64 \<Rightarrow> u64 \<Rightarrow> bool" where
  "masque_cert_expiring now issued_at \<longleftrightarrow>
     issued_at = 0 \<or> now < issued_at \<or> MASQUE_CERT_LIFETIME_SECS \<le> (now - issued_at) + MASQUE_CERT_RENEW_BEFORE_SECS"

definition cert_still_usable :: "u64 \<Rightarrow> identity \<Rightarrow> bool" where
  "cert_still_usable now ident \<longleftrightarrow>
     \<not> (i_cert_pem ident = [] \<or> i_key_pem ident = []) \<and> i_cert_issued_at ident \<noteq> 0 \<and> \<not> now < i_cert_issued_at ident
     \<and> now - i_cert_issued_at ident < MASQUE_CERT_LIFETIME_SECS"

definition has_masque_credentials :: "u64 \<Rightarrow> identity \<Rightarrow> bool" where
  "has_masque_credentials now ident \<longleftrightarrow>
     i_cert_pem ident \<noteq> [] \<and> i_key_pem ident \<noteq> [] \<and> \<not> masque_cert_expiring now (i_cert_issued_at ident)"

definition saved_enrollment :: "identity \<Rightarrow> masque_enrollment" where
  "saved_enrollment ident =
     \<lparr>me_cert_pem = i_cert_pem ident, me_key_pem = i_key_pem ident, me_issued_at = i_cert_issued_at ident, me_renewed = False,
      me_assigned_endpoint = i_assigned_endpoint ident\<rparr>"

text \<open>The key pair is generated by the TLS library. The clock is read once, on the way out.\<close>

definition renew_masque_certificate ::
  "api_ext \<Rightarrow> api_net \<Rightarrow> masque_key_pair result \<Rightarrow> u64 \<Rightarrow> identity \<Rightarrow> masque_enrollment result rust" where
  "renew_masque_certificate X N keypair now ident =
     (case keypair of
        Inl e \<Rightarrow> Some (Inl e)
      | Inr kp \<Rightarrow> do {
          r \<leftarrow> enroll_key X N (i_device_id ident) (i_access_token ident) (mk_spki_der kp) None;
          Some (case r of
             Inr updated \<Rightarrow>
               Inr \<lparr>me_cert_pem = mk_cert_pem kp, me_key_pem = mk_key_pem kp, me_issued_at = now, me_renewed = True,
                    me_assigned_endpoint = endpoint_from updated\<rparr>
           | Inl e \<Rightarrow>
               if is_refused e then Inl e
               else if cert_still_usable now ident then Inr (saved_enrollment ident)
               else Inl e) })"

definition ensure_masque_enrolled ::
  "api_ext \<Rightarrow> api_net \<Rightarrow> masque_key_pair result \<Rightarrow> u64 \<Rightarrow> u64 \<Rightarrow> identity \<Rightarrow> masque_enrollment result rust" where
  "ensure_masque_enrolled X N keypair now now' ident =
     (let usable = (i_cert_pem ident \<noteq> [] \<and> i_key_pem ident \<noteq> []) in
      if usable \<and> \<not> masque_cert_expiring now (i_cert_issued_at ident) then Some (Inr (saved_enrollment ident))
      else renew_masque_certificate X N keypair now' ident)"

section \<open>Retries\<close>

text \<open>What one attempt gives when it ends the loop, and whether it is one that the loop goes on after.\<close>

definition attempt_error :: "api_ext \<Rightarrow> string \<Rightarrow> api_attempt \<Rightarrow> aether_error rust" where
  "attempt_error X label a =
     (case a of
        BuildFails e \<Rightarrow> Some e
      | SendFails e \<Rightarrow> Some (ErrApi (label @ '': '' @ e))
      | Answers h \<Rightarrow>
          (case ha_body h of
             Inl e \<Rightarrow> Some (ErrApi (label @ '': '' @ e))
           | Inr body \<Rightarrow> do {
               d \<leftarrow> describe_rejection X (ha_status h) body;
               Some ((if refuses_identity (ha_status h) then ErrIdentityRefused else ErrApi) (label @ '': '' @ d)) }))"

definition attempt_result :: "api_ext \<Rightarrow> string \<Rightarrow> api_attempt \<Rightarrow> account_data result rust" where
  "attempt_result X label a =
     (let failed = map_option Inl (attempt_error X label a) in
      case a of
        Answers h \<Rightarrow>
          (case ha_body h of
             Inr body \<Rightarrow>
               if is_success (ha_status h) then
                 Some (case ext_decode_account X body of
                    Inr d \<Rightarrow> Inr d
                  | Inl e \<Rightarrow> Inl (ErrApi (label @ '' decode: '' @ e @ ''; body='' @ body)))
               else failed
           | Inl _ \<Rightarrow> failed)
      | _ \<Rightarrow> failed)"

definition inconclusive :: "api_attempt \<Rightarrow> bool" where
  "inconclusive a \<longleftrightarrow>
     (case a of
        BuildFails _ \<Rightarrow> False
      | SendFails _ \<Rightarrow> True
      | Answers h \<Rightarrow> (\<exists>body. ha_body h = Inr body) \<and> worth_retrying (ha_status h))"

lemma worth_retrying_classes: "worth_retrying st \<Longrightarrow> \<not> refuses_identity st \<and> \<not> is_success st"
  by (auto simp: worth_retrying_def refuses_identity_def is_success_def)

lemma refuses_not_success: "refuses_identity st \<Longrightarrow> \<not> is_success st"
  by (auto simp: refuses_identity_def is_success_def)

text \<open>The loop goes on after an inconclusive attempt, with its error as the last one, and ends with any other.\<close>

lemma retry_inconclusive:
  assumes "inconclusive (send a)" "attempt_error X label (send a) = Some e"
  shows "\<exists>ws. retry_loop X rng label send (a # as) waits e0 = retry_loop X rng label send as ws e"
proof (cases "send a")
  case (Answers h)
  then obtain body where "ha_body h = Inr body" "worth_retrying (ha_status h)"
    using assms(1) by (auto simp: inconclusive_def)
  with Answers assms(2) worth_retrying_classes [of "ha_status h"] show ?thesis
    by (auto simp: attempt_error_def Let_def bind_eq_Some_conv split del: if_split)
qed (use assms in \<open>auto simp: inconclusive_def attempt_error_def Let_def split del: if_split\<close>)

lemma retry_panics:
  assumes "inconclusive (send a)" "attempt_error X label (send a) = None"
  shows "retry_loop X rng label send (a # as) waits e0 = None"
proof (cases "send a")
  case (Answers h)
  then obtain body where "ha_body h = Inr body" "worth_retrying (ha_status h)"
    using assms(1) by (auto simp: inconclusive_def)
  with Answers assms(2) worth_retrying_classes [of "ha_status h"] show ?thesis
    by (simp add: attempt_error_def Let_def bind_eq_None_conv split del: if_split)
qed (use assms in \<open>simp_all add: inconclusive_def attempt_error_def\<close>)

lemma retry_conclusive:
  assumes "\<not> inconclusive (send a)"
  shows "map_option snd (retry_loop X rng label send (a # as) waits e0) = attempt_result X label (send a)"
proof (cases "send a")
  case (Answers h)
  show ?thesis
  proof (cases "ha_body h")
    case (Inr body)
    then have "\<not> worth_retrying (ha_status h)" using assms Answers by (simp add: inconclusive_def)
    with Answers Inr show ?thesis
      by (cases "is_success (ha_status h)"; cases "describe_rejection X (ha_status h) body")
        (simp_all add: attempt_error_def attempt_result_def Let_def)
  qed (use Answers in \<open>simp add: attempt_error_def attempt_result_def\<close>)
qed (use assms in \<open>simp_all add: inconclusive_def attempt_error_def attempt_result_def\<close>)

lemma attempt_result_panic:
  assumes "inconclusive a" "attempt_error X label a = None"
  shows "attempt_result X label a = None"
  using assms worth_retrying_classes
  by (auto simp: attempt_result_def inconclusive_def Let_def split: api_attempt.splits sum.splits)

definition ends_loop :: "api_ext \<Rightarrow> string \<Rightarrow> api_attempt \<Rightarrow> bool" where
  "ends_loop X label a \<longleftrightarrow> \<not> inconclusive a \<or> attempt_error X label a = None"

lemma retry_loop_result:
  "map_option snd (retry_loop X rng label send as waits e) =
     (case find (\<lambda>i. ends_loop X label (send i)) as of
        Some i \<Rightarrow> attempt_result X label (send i)
      | None \<Rightarrow> if as = [] then Some (Inl e) else map_option Inl (attempt_error X label (send (last as))))"
proof (induction as arbitrary: waits e)
  case (Cons a as)
  show ?case
  proof (cases "ends_loop X label (send a)")
    case True
    then show ?thesis
      using retry_conclusive [of send a] retry_panics [of send a] attempt_result_panic [of "send a"]
      by (cases "inconclusive (send a)") (simp_all add: ends_loop_def del: retry_loop.simps)
  next
    case False
    then obtain e' where e: "inconclusive (send a)" "attempt_error X label (send a) = Some e'" by (auto simp: ends_loop_def)
    from retry_inconclusive [of send a, OF e] obtain ws
      where "retry_loop X rng label send (a # as) waits e = retry_loop X rng label send as ws e'" by blast
    then show ?thesis using Cons.IH [of ws e'] False e by (simp del: retry_loop.simps split: option.split)
  qed
qed simp

text \<open>
  C29: The retry loop of the API client is equivalent to taking the first of at most five attempts that
  settles the matter: a success, a refusal of the identity, any answer that is not worth a retry, an
  unreadable body or a client that cannot be built. The attempts before it count for nothing, and when none
  settles it the error is that of the fifth. A rejection whose description panics ends it as well.
\<close>

theorem send_with_retry_is_first_conclusive:
  "map_option snd (send_with_retry X rng label send) =
     (case find (\<lambda>i. ends_loop X label (send i)) [0..<API_ATTEMPTS] of
        Some i \<Rightarrow> attempt_result X label (send i)
      | None \<Rightarrow> map_option Inl (attempt_error X label (send (API_ATTEMPTS - 1))))"
  unfolding send_with_retry_def retry_loop_result by (simp add: API_ATTEMPTS_def split: option.split)

lemma backoff_bounds:
  "backoff_delay n d \<le> (min (900 * 2 ^ n) 15000) div 2 + (min (900 * 2 ^ n) 15000) div 3"
proof -
  let ?c = "min (min (900 * 2 ^ min n 5) (2 ^ 64 - 1)) (15000 :: nat)"
  have "(2::nat) ^ min n 5 \<le> 2 ^ 5" by (rule power_increasing) simp_all
  then have c: "?c = min (900 * 2 ^ n) 15000"
  proof (cases "n \<le> 5")
    case False
    then have "(2::nat) ^ 5 \<le> 2 ^ n" by (intro power_increasing) simp_all
    then show ?thesis using False by (simp add: min_def)
  qed (simp add: min_def)
  have "unat d mod (?c div 3 + 1) \<le> ?c div 3" using mod_less_divisor [of "?c div 3 + 1" "unat d"] by simp
  then show ?thesis
    unfolding backoff_delay_def API_BACKOFF_BASE_MS_def API_BACKOFF_CAP_MS_def Let_def c by simp
qed

definition pause_bound :: "nat \<Rightarrow> nat" where
  "pause_bound a =
     (if a = 0 then 0 else (min (900 * 2 ^ (a - 1)) 15000) div 2 + (min (900 * 2 ^ (a - 1)) 15000) div 3) + 30000"

lemma retry_after_bound: "retry_after h = Some s \<Longrightarrow> s \<le> 30"
  by (auto simp: retry_after_def bind_eq_Some_conv API_RETRY_AFTER_CAP_SECS_def)

lemma retry_loop_pauses:
  "retry_loop X rng label send as waits e = Some (ws, r) \<Longrightarrow> sum_list ws \<le> sum_list waits + sum_list (map pause_bound as)"
proof (induction as arbitrary: waits e)
  case (Cons a as)
  define w where "w = (if a > 0 then waits @ [backoff_delay (a - 1) (rng a)] else waits)"
  have w: "sum_list w + 30000 \<le> sum_list waits + pause_bound a"
    using backoff_bounds [of "a - 1" "rng a"] by (simp add: pause_bound_def w_def)
  have p: "sum_list (case retry_after h of Some s \<Rightarrow> [1000 * s] | None \<Rightarrow> []) \<le> 30000" for h
    using retry_after_bound [of h] by (auto split: option.split)
  have "ws = w \<or> (\<exists>v e'. retry_loop X rng label send as (w @ v) e' = Some (ws, r) \<and> sum_list v \<le> 30000)"
  proof (cases "send a")
    case (SendFails m)
    then have "retry_loop X rng label send as (w @ []) (ErrApi (label @ '': '' @ m)) = Some (ws, r)"
      using Cons.prems by (simp add: w_def Let_def)
    then show ?thesis by fastforce
  next
    case (Answers h)
    then show ?thesis using Cons.prems [unfolded retry_loop.simps, folded w_def] p [of "ha_retry_after h"]
      by (auto simp: bind_eq_Some_conv Let_def split: sum.splits if_splits)
  qed (use Cons.prems in \<open>simp add: w_def\<close>)
  then show ?case using Cons.IH w by fastforce
qed simp

text \<open>
  The pauses of one call: at most 750, 1500, 3000 and 6000 milliseconds between the attempts, and at most
  thirty seconds after each of the five answers that asks for it.
\<close>

lemma send_with_retry_pauses:
  assumes "send_with_retry X rng label send = Some (ws, r)"
  shows "sum_list ws \<le> 161250"
proof -
  have "sum_list (map pause_bound [0..<API_ATTEMPTS]) = 161250"
    by (simp add: API_ATTEMPTS_def pause_bound_def upt_rec)
  then show ?thesis using retry_loop_pauses [OF assms [unfolded send_with_retry_def]] by simp
qed


section \<open>Refusals\<close>

text \<open>
  Describing a rejection panics on exactly the bodies that are no error report and whose 220th byte is inside
  a character.
\<close>

lemma describe_rejection_panics_iff:
  "describe_rejection X status body = None \<longleftrightarrow>
     extract_api_error X body = None \<and> 220 < length (trim body) \<and> \<not> char_boundary (trim body) 220"
  by (auto simp: describe_rejection_def rejection_detail_def Let_def str_slice_def char_boundary_def bind_eq_None_conv
      split: option.splits if_splits)

text \<open>An answer over the direct route that refuses the identity, in a body that can be described.\<close>

definition refusal :: "api_attempt \<Rightarrow> bool" where
  "refusal a \<longleftrightarrow> (case a of
       Answers h \<Rightarrow> refuses_identity (ha_status h) \<and> (\<exists>body. ha_body h = Inr body \<and> length (trim body) \<le> 220)
     | _ \<Rightarrow> False)"

lemma direct_call_refused:
  assumes "refusal (net_direct N rq 0)"
  shows "\<exists>m. direct_call X N label rq = Some (Inl (ErrIdentityRefused m))"
proof -
  obtain h body where h: "net_direct N rq 0 = Answers h" "refuses_identity (ha_status h)" "ha_body h = Inr body" "length (trim body) \<le> 220"
    using assms by (auto simp: refusal_def split: api_attempt.splits)
  have "describe_rejection X (ha_status h) body \<noteq> None" using h(4) by (simp add: describe_rejection_panics_iff)
  then obtain d where "describe_rejection X (ha_status h) body = Some d" by blast
  with h refuses_not_success [OF h(2)] show ?thesis
    by (simp add: direct_call_def send_with_retry_def API_ATTEMPTS_def upt_rec)
qed

lemma fetch_loop_fails:
  "(\<And>x. \<exists>m. attempt x = Some (Inl (ErrApi m))) \<Longrightarrow> \<exists>m. fetch_loop attempt xs None (map_option ErrApi f) = Some (Inl (ErrApi m))"
proof (induction xs arbitrary: f)
  case (Cons x xs)
  obtain m where "attempt x = Some (Inl (ErrApi m))" using Cons.prems by blast
  then show ?case using Cons.IH [OF Cons.prems, of "Some m"] by simp
qed (simp split: option.split)

lemma fallback_fails:
  assumes "\<And>rq x. \<exists>m. net_front N rq x = Some (Inl (ErrApi m))"
  shows "\<exists>m. fallback_call X N label meth path body bearer jwt = Some (Inl (ErrApi m))"
proof -
  have "\<exists>m. fetch (net_front N rq) (net_edges N) = Some (Inl (ErrApi m))" for rq
    using fetch_loop_fails [of "net_front N rq" _ None] assms by (simp add: fetch_def)
  then obtain F where "\<And>rq. fetch (net_front N rq) (net_edges N) = Some (Inl (ErrApi (F rq)))" by metis
  then show ?thesis by (simp add: fallback_call_def)
qed

text \<open>
  C27: A device that the provider no longer knows is recognised when a key is enrolled and overlooked when the
  profile is refreshed. When the direct route answers every request with such a refusal and no camouflaged
  route gets through, enrolment reports the refusal, whatever the certificate on disk, but the refresh
  returns the identity as it was, not marked as refused, since it keeps only the error of the second route.
\<close>

theorem refusal_is_lost_on_refresh:
  assumes "\<And>rq. refusal (net_direct N rq 0)" "\<And>rq x. \<exists>m. net_front N rq x = Some (Inl (ErrApi m))"
    and "\<And>b. \<exists>v. ext_to_vec X b = Inr v"
  shows "(\<exists>m. renew_masque_certificate X N (Inr kp) now ident = Some (Inl (ErrIdentityRefused m)))
     \<and> refresh_profile X N ident = Some ident"
proof
  obtain v where v: "ext_to_vec X (BodyUpdate \<lparr>du_key = ext_b64_encode X (mk_spki_der kp), du_key_type = KEY_TYPE_MASQUE,
      du_tunnel_type = TUN_TYPE_MASQUE, du_name = None\<rparr>) = Inr v" using assms(3) by blast
  obtain D where d: "\<And>label rq. direct_call X N label rq = Some (Inl (ErrIdentityRefused (D label rq)))"
    using direct_call_refused [OF assms(1)] by metis
  obtain F where f: "\<And>label meth path body bearer jwt.
      fallback_call X N label meth path body bearer jwt = Some (Inl (ErrApi (F label meth path body bearer jwt)))"
    using fallback_fails [OF assms(2)] by metis
  show "\<exists>m. renew_masque_certificate X N (Inr kp) now ident = Some (Inl (ErrIdentityRefused m))"
    by (simp add: renew_masque_certificate_def enroll_key_def d f v is_refused_def Let_def)
  show "refresh_profile X N ident = Some ident"
    by (simp add: refresh_profile_def fetch_device_def d f is_refused_def)
qed

definition demo_identity :: identity where
  "demo_identity = \<lparr>i_device_id = ''d'', i_access_token = ''t'', i_cert_pem = [1], i_key_pem = [2], i_cert_issued_at = 1000000000,
     i_ipv4 = ''172.16.0.2'', i_ipv6 = [], i_wg_private_key = replicate 32 7, i_wg_peer_public_key = replicate 32 9,
     i_client_id = [1, 2, 3], i_organization = [], i_gateway_proxy = [], i_assigned_endpoint = [], i_refused = False\<rparr>"

definition demo_api :: api_ext where
  "demo_api = \<lparr>ext_show_status = show_nat, ext_json = \<lambda>_. None, ext_decode_account = \<lambda>_. Inl [], ext_to_vec = \<lambda>_. Inr [],
     ext_b64_encode = \<lambda>bs. bytes_str bs, ext_b64_decode = \<lambda>s. Inr (as_bytes s), ext_x25519_public = \<lambda>k. k, ext_hex = \<lambda>_. []\<rparr>"

definition demo_net :: api_net where
  "demo_net = \<lparr>net_direct = \<lambda>_ _. Answers \<lparr>ha_status = 404, ha_retry_after = None, ha_body = Inr []\<rparr>, net_rng = \<lambda>_. 0,
     net_edges = [], net_front = \<lambda>_ _. Some (Inl (ErrApi ''down''))\<rparr>"

lemma trim_Nil [simp]: "trim [] = []"
proof -
  have "strip_any ws [] = []" for ws :: "u8 list list" by (rule strip_any_id) simp
  then show ?thesis by (simp add: trim_def bytes_str_def)
qed

theorem refusal_is_lost_on_refresh_witness:
  "(\<exists>m. renew_masque_certificate demo_api demo_net (Inr \<lparr>mk_key_pem = [], mk_cert_pem = [], mk_spki_der = []\<rparr>) 1000000000 demo_identity
       = Some (Inl (ErrIdentityRefused m)))
   \<and> refresh_profile demo_api demo_net demo_identity = Some demo_identity"
  by (rule refusal_is_lost_on_refresh) (simp_all add: demo_net_def demo_api_def refusal_def refuses_identity_def)


section \<open>Enrolment\<close>

lemma not_expiring_usable:
  assumes "unat now < 2 ^ 63" "\<not> masque_cert_expiring now issued"
  shows "issued \<noteq> 0 \<and> \<not> now < issued \<and> now - issued < MASQUE_CERT_LIFETIME_SECS"
proof -
  have *: "issued \<noteq> 0" "issued \<le> now" "(now - issued) + MASQUE_CERT_RENEW_BEFORE_SECS < MASQUE_CERT_LIFETIME_SECS"
    using assms(2) by (simp_all add: masque_cert_expiring_def not_less not_le)
  have u: "unat (now - issued) = unat now - unat issued" using *(2) by (rule unat_sub)
  have "unat (now - issued) + 604800 < 31536000"
    using *(3) assms(1) u by (simp add: word_less_nat_alt unat_word_ariths MASQUE_CERT_RENEW_BEFORE_SECS_def MASQUE_CERT_LIFETIME_SECS_def)
  then have "now - issued < MASQUE_CERT_LIFETIME_SECS" by (simp add: word_less_nat_alt MASQUE_CERT_LIFETIME_SECS_def)
  then show ?thesis using * by (simp add: not_less)
qed

lemma enrollment_cases:
  assumes "ensure_masque_enrolled X N kp now now' ident = Some (Inr e)" "unat now < 2 ^ 63"
  shows "(\<exists>k acc. kp = Inr k \<and> enroll_key X N (i_device_id ident) (i_access_token ident) (mk_spki_der k) None = Some (Inr acc)
            \<and> e = \<lparr>me_cert_pem = mk_cert_pem k, me_key_pem = mk_key_pem k, me_issued_at = now', me_renewed = True,
                   me_assigned_endpoint = endpoint_from acc\<rparr>)
       \<or> (e = saved_enrollment ident \<and> (cert_still_usable now ident \<or> cert_still_usable now' ident))"
proof (cases "i_cert_pem ident \<noteq> [] \<and> i_key_pem ident \<noteq> [] \<and> \<not> masque_cert_expiring now (i_cert_issued_at ident)")
  case True
  then have "e = saved_enrollment ident" using assms(1) by (simp add: ensure_masque_enrolled_def)
  moreover have "cert_still_usable now ident" using True not_expiring_usable [OF assms(2)] by (simp add: cert_still_usable_def)
  ultimately show ?thesis by simp
next
  case False
  then have r: "renew_masque_certificate X N kp now' ident = Some (Inr e)" using assms(1) by (auto simp: ensure_masque_enrolled_def)
  then obtain k where k: "kp = Inr k" by (cases kp) (auto simp: renew_masque_certificate_def)
  with r obtain y where y: "enroll_key X N (i_device_id ident) (i_access_token ident) (mk_spki_der k) None = Some y"
    by (cases "enroll_key X N (i_device_id ident) (i_access_token ident) (mk_spki_der k) None")
      (simp_all add: renew_masque_certificate_def)
  show ?thesis using r k y by (cases y) (auto simp: renew_masque_certificate_def split: if_splits)
qed

text \<open>
  C26: A MASQUE enrolment that is handed out is valid. It is either a new certificate, the one that was
  just generated and accepted by the provider, dated now, or the saved one, and then the saved one is
  complete and has not outlived its year at the time of the check.
\<close>

theorem enrollment_is_valid:
  assumes "ensure_masque_enrolled X N kp now now' ident = Some (Inr e)" "unat now < 2 ^ 63"
  shows "(\<exists>k acc. kp = Inr k \<and> enroll_key X N (i_device_id ident) (i_access_token ident) (mk_spki_der k) None = Some (Inr acc)
            \<and> e = \<lparr>me_cert_pem = mk_cert_pem k, me_key_pem = mk_key_pem k, me_issued_at = now', me_renewed = True,
                   me_assigned_endpoint = endpoint_from acc\<rparr>)
       \<or> (e = saved_enrollment ident \<and> (cert_still_usable now ident \<or> cert_still_usable now' ident))"
  by (rule enrollment_cases [OF assms])

theorem enrollment_is_valid_witness:
  "ensure_masque_enrolled demo_api demo_net (Inl (ErrTls [])) 1000000001 1000000001 demo_identity
     = Some (Inr (saved_enrollment demo_identity))
   \<and> (cert_still_usable 1000000001 demo_identity \<or> cert_still_usable 1000000001 demo_identity)"
proof -
  have r: "ensure_masque_enrolled demo_api demo_net (Inl (ErrTls [])) 1000000001 1000000001 demo_identity
      = Some (Inr (saved_enrollment demo_identity))"
    by (simp add: ensure_masque_enrolled_def demo_identity_def masque_cert_expiring_def MASQUE_CERT_LIFETIME_SECS_def
        MASQUE_CERT_RENEW_BEFORE_SECS_def)
  show ?thesis using r enrollment_is_valid [OF r] by simp
qed

end
