(* ===== verification/ConfigFile.thy ===== *)
theory ConfigFile
  imports Account
begin

text \<open>
  The saved identity (\<open>config.rs\<close>): its textual form, loading with quarantine of a damaged file, and the
  replacement of the file through a temporary one.

  A path is its directory prefix (empty or ending in a slash) and its file name, so the defaults for a path
  without a file name do not arise. The file system is a partial map from paths to files with contents and
  permission bits; \<open>fs_io\<close> holds the failures of the calls of one operation, and base64 and TOML are external.
\<close>

section \<open>Files\<close>

type_synonym path = "string \<times> string"

record fnode =
  fn_data :: bytes
  fn_mode :: nat

type_synonym fs = "path \<rightharpoonup> fnode"

text \<open>A failed call is given by the text of its error; a failed write also by what it had written before.\<close>

record fs_io =
  io_read :: "string option"
  io_mkdir :: "string option"
  io_open :: "string option"
  io_write :: "(nat \<times> string) option"
  io_sync :: "string option"
  io_chmod :: "string option"
  io_rename :: "string option"
  io_remove :: "string option"

definition show_path :: "path \<Rightarrow> string" where
  "show_path p = fst p @ snd p"

definition quarantine_path :: "path \<Rightarrow> path" where
  "quarantine_path p = (fst p, snd p @ ''.corrupt'')"

definition temporary_path :: "nat \<Rightarrow> path \<Rightarrow> path" where
  "temporary_path pid p = (fst p, ''.'' @ snd p @ ''.'' @ show_nat pid @ ''.tmp'')"

definition rename_file :: "path \<Rightarrow> path \<Rightarrow> fs \<Rightarrow> fs" where
  "rename_file a b f = (f(a := None))(b := f a)"

definition quarantine :: "fs_io \<Rightarrow> path \<Rightarrow> fs \<Rightarrow> fs \<times> path option" where
  "quarantine io p f =
     (let target = quarantine_path p in
      case io_rename io of None \<Rightarrow> (rename_file p target f, Some target) | Some _ \<Rightarrow> (f, None))"

definition OWNER_ONLY :: nat where "OWNER_ONLY = 6 * 64"

definition open_temporary :: "path \<Rightarrow> fs \<Rightarrow> fs" where
  "open_temporary t f = f(t \<mapsto> \<lparr>fn_data = [], fn_mode = (case f t of Some n \<Rightarrow> fn_mode n | None \<Rightarrow> OWNER_ONLY)\<rparr>)"

definition write_data :: "path \<Rightarrow> bytes \<Rightarrow> fs \<Rightarrow> fs" where
  "write_data t bs f = (case f t of None \<Rightarrow> f | Some n \<Rightarrow> f(t \<mapsto> n\<lparr>fn_data := bs\<rparr>))"

definition set_mode :: "path \<Rightarrow> nat \<Rightarrow> fs \<Rightarrow> fs" where
  "set_mode t md f = (case f t of None \<Rightarrow> f | Some n \<Rightarrow> f(t \<mapsto> n\<lparr>fn_mode := md\<rparr>))"

text \<open>
  The operations that write give the list of the states that the file system goes through, one for each
  call that changes it, and the outcome: the last state is the one they leave.
\<close>

definition write_and_rename :: "fs_io \<Rightarrow> path \<Rightarrow> path \<Rightarrow> bytes \<Rightarrow> fs \<Rightarrow> fs list \<times> unit result" where
  "write_and_rename io t path contents f =
     (case io_open io of
        Some e \<Rightarrow> ([], Inl (ErrIo e))
      | None \<Rightarrow>
          let f1 = open_temporary t f in
          (case io_write io of
             Some (k, e) \<Rightarrow> ([f1, write_data t (take k contents) f1], Inl (ErrIo e))
           | None \<Rightarrow>
               let f2 = write_data t contents f1 in
               (case io_sync io of
                  Some e \<Rightarrow> ([f1, f2], Inl (ErrIo e))
                | None \<Rightarrow>
                    (case io_chmod io of
                       Some e \<Rightarrow> ([f1, f2], Inl (ErrIo e))
                     | None \<Rightarrow>
                         let f3 = set_mode t OWNER_ONLY f2 in
                         (case io_rename io of
                            Some e \<Rightarrow> ([f1, f2, f3], Inl (ErrIo e))
                          | None \<Rightarrow> ([f1, f2, f3, rename_file t path f3], Inr ()))))))"

definition write_private :: "fs_io \<Rightarrow> nat \<Rightarrow> path \<Rightarrow> bytes \<Rightarrow> fs \<Rightarrow> fs list \<times> unit result" where
  "write_private io pid path contents f =
     (case (if fst path = [] then None else io_mkdir io) of
        Some e \<Rightarrow> ([], Inl (ErrIo e))
      | None \<Rightarrow>
          let t = temporary_path pid path in
          (case write_and_rename io t path contents f of
             (tr, Inr u) \<Rightarrow> (tr, Inr u)
           | (tr, Inl e) \<Rightarrow>
               (tr @ (case io_remove io of None \<Rightarrow> [(last (f # tr))(t := None)] | Some _ \<Rightarrow> []), Inl e)))"


section \<open>The saved form\<close>

record persisted_identity =
  pi_device_id :: string
  pi_access_token :: string
  pi_cert_pem :: string
  pi_key_pem :: string
  pi_cert_issued_at :: u64
  pi_ipv4 :: string
  pi_ipv6 :: string
  pi_wg_private_key :: string
  pi_wg_peer_public_key :: string
  pi_client_id :: string
  pi_organization :: string
  pi_gateway_proxy :: string
  pi_assigned_endpoint :: string

record toml_ext =
  tx_encode :: "bytes \<Rightarrow> string"
  tx_decode :: "string \<Rightarrow> string + bytes"
  tx_parse :: "string \<Rightarrow> string + persisted_identity"
  tx_print :: "persisted_identity \<Rightarrow> string + string"

definition persist :: "toml_ext \<Rightarrow> identity \<Rightarrow> persisted_identity" where
  "persist T i =
     \<lparr>pi_device_id = i_device_id i, pi_access_token = i_access_token i, pi_cert_pem = from_utf8_lossy (i_cert_pem i),
      pi_key_pem = from_utf8_lossy (i_key_pem i), pi_cert_issued_at = i_cert_issued_at i, pi_ipv4 = i_ipv4 i, pi_ipv6 = i_ipv6 i,
      pi_wg_private_key = tx_encode T (i_wg_private_key i), pi_wg_peer_public_key = tx_encode T (i_wg_peer_public_key i),
      pi_client_id = tx_encode T (i_client_id i), pi_organization = i_organization i, pi_gateway_proxy = i_gateway_proxy i,
      pi_assigned_endpoint = i_assigned_endpoint i\<rparr>"

definition decode_fixed :: "toml_ext \<Rightarrow> nat \<Rightarrow> string \<Rightarrow> string \<Rightarrow> bytes result" where
  "decode_fixed T n field v =
     (case tx_decode T v of
        Inl e \<Rightarrow> Inl (ErrOther (''config field '' @ field @ '' is not valid base64: '' @ e))
      | Inr decoded \<Rightarrow>
          if length decoded \<noteq> n then
            Inl (ErrOther (''config field '' @ field @ '' must decode to '' @ show_nat n @ '' bytes, found '' @ show_nat (length decoded)))
          else Inr decoded)"

definition identity_try_from :: "toml_ext \<Rightarrow> persisted_identity \<Rightarrow> identity result" where
  "identity_try_from T p =
     (case decode_fixed T 32 ''wg_private_key'' (pi_wg_private_key p) of
        Inl e \<Rightarrow> Inl e
      | Inr private \<Rightarrow>
          (case decode_fixed T 32 ''wg_peer_public_key'' (pi_wg_peer_public_key p) of
             Inl e \<Rightarrow> Inl e
           | Inr public \<Rightarrow>
               let cid = (if pi_client_id p = [] then [0, 0, 0]
                          else case decode_fixed T 3 ''client_id'' (pi_client_id p) of Inr c \<Rightarrow> c | Inl _ \<Rightarrow> [0, 0, 0]) in
               Inr \<lparr>i_device_id = pi_device_id p, i_access_token = pi_access_token p, i_cert_pem = as_bytes (pi_cert_pem p),
                    i_key_pem = as_bytes (pi_key_pem p), i_cert_issued_at = pi_cert_issued_at p, i_ipv4 = pi_ipv4 p, i_ipv6 = pi_ipv6 p,
                    i_wg_private_key = private, i_wg_peer_public_key = public, i_client_id = cid,
                    i_organization = pi_organization p, i_gateway_proxy = pi_gateway_proxy p,
                    i_assigned_endpoint = pi_assigned_endpoint p, i_refused = False\<rparr>))"

definition damaged :: "path \<Rightarrow> string \<Rightarrow> path option \<Rightarrow> aether_error" where
  "damaged p e moved =
     ErrOther (case moved of
        Some target \<Rightarrow> e @ ''; the damaged file was moved to '' @ show_path target @ '' so a fresh identity can be provisioned''
      | None \<Rightarrow> e @ ''; delete '' @ show_path p @ '' to provision a fresh identity'')"

definition read_to_string :: "fs_io \<Rightarrow> path \<Rightarrow> fs \<Rightarrow> string result" where
  "read_to_string io p f =
     (case io_read io of
        Some e \<Rightarrow> Inl (ErrIo e)
      | None \<Rightarrow>
          (case f p of
             None \<Rightarrow> Inl (ErrIo ''No such file or directory (os error 2)'')
           | Some n \<Rightarrow> (case from_utf8 (fn_data n) of None \<Rightarrow> Inl (ErrIo ''stream did not contain valid UTF-8'') | Some s \<Rightarrow> Inr s)))"

definition config_load :: "toml_ext \<Rightarrow> fs_io \<Rightarrow> path \<Rightarrow> fs \<Rightarrow> fs \<times> identity option result" where
  "config_load T io p f =
     (if f p = None then (f, Inr None)
      else case read_to_string io p f of
        Inl e \<Rightarrow> (f, Inl e)
      | Inr contents \<Rightarrow>
          (case tx_parse T contents of
             Inl e \<Rightarrow> (case quarantine io p f of (f, moved) \<Rightarrow> (f, Inl (damaged p (''config parse: '' @ e) moved)))
           | Inr persisted \<Rightarrow>
               (case identity_try_from T persisted of
                  Inr i \<Rightarrow> (f, Inr (Some i))
                | Inl e \<Rightarrow> (case quarantine io p f of (f, moved) \<Rightarrow> (f, Inl (damaged p (show_error e) moved))))))"

definition config_save :: "toml_ext \<Rightarrow> fs_io \<Rightarrow> nat \<Rightarrow> path \<Rightarrow> identity \<Rightarrow> fs \<Rightarrow> fs list \<times> unit result" where
  "config_save T io pid p i f =
     (case tx_print T (persist T i) of
        Inl e \<Rightarrow> ([], Inl (ErrOther (''config encode: '' @ e)))
      | Inr contents \<Rightarrow> write_private io pid p (as_bytes contents) f)"

definition save_masque_creds ::
  "toml_ext \<Rightarrow> fs_io \<Rightarrow> nat \<Rightarrow> path \<Rightarrow> bytes \<Rightarrow> bytes \<Rightarrow> u64 \<Rightarrow> fs \<Rightarrow> fs list \<times> unit result" where
  "save_masque_creds T io pid p cert key issued_at f =
     (if f p = None then ([], Inr ())
      else case read_to_string io p f of
        Inl e \<Rightarrow> ([], Inl e)
      | Inr contents \<Rightarrow>
          (case tx_parse T contents of
             Inl e \<Rightarrow> ([], Inl (ErrOther (''config parse: '' @ e)))
           | Inr persisted \<Rightarrow>
               (case tx_print T (persisted\<lparr>pi_cert_pem := from_utf8_lossy cert, pi_key_pem := from_utf8_lossy key,
                                          pi_cert_issued_at := issued_at\<rparr>) of
                  Inl e \<Rightarrow> ([], Inl (ErrOther (''config encode: '' @ e)))
                | Inr updated \<Rightarrow> write_private io pid p (as_bytes updated) f)))"


section \<open>Replacing the file\<close>

lemma temporary_ne: "temporary_path pid p \<noteq> p"
proof
  assume "temporary_path pid p = p"
  then have "''.'' @ snd p @ ''.'' @ show_nat pid @ ''.tmp'' = snd p" by (cases p) (simp add: temporary_path_def)
  from arg_cong [OF this, of length] show False by simp
qed

lemma write_and_rename_states:
  assumes "write_and_rename io t path contents f = (tr, r)" "t \<noteq> path"
  shows "list_all (\<lambda>g. g path = f path \<or> g path = Some \<lparr>fn_data = contents, fn_mode = OWNER_ONLY\<rparr>) tr
     \<and> list_all (\<lambda>g. \<forall>q. q \<noteq> path \<and> q \<noteq> t \<longrightarrow> g q = f q) tr
     \<and> (case r of
          Inr _ \<Rightarrow> last (f # tr) path = Some \<lparr>fn_data = contents, fn_mode = OWNER_ONLY\<rparr> \<and> last (f # tr) t = None
        | Inl _ \<Rightarrow> last (f # tr) path = f path)"
  using assms
  by (auto simp: write_and_rename_def Let_def open_temporary_def write_data_def set_mode_def rename_file_def
      split: option.splits prod.splits)

lemma write_private_states:
  assumes "write_private io pid path contents f = (tr, r)"
  shows "list_all (\<lambda>g. g path = f path \<or> g path = Some \<lparr>fn_data = contents, fn_mode = OWNER_ONLY\<rparr>) tr
     \<and> list_all (\<lambda>g. \<forall>q. q \<noteq> path \<and> q \<noteq> temporary_path pid path \<longrightarrow> g q = f q) tr
     \<and> (case r of
          Inr _ \<Rightarrow> last (f # tr) path = Some \<lparr>fn_data = contents, fn_mode = OWNER_ONLY\<rparr>
                   \<and> last (f # tr) (temporary_path pid path) = None
        | Inl _ \<Rightarrow> last (f # tr) path = f path)"
proof (cases "(if fst path = [] then None else io_mkdir io)")
  case None
  let ?t = "temporary_path pid path"
  obtain tr' r' where w: "write_and_rename io ?t path contents f = (tr', r')" by fastforce
  note s = write_and_rename_states [OF w temporary_ne]
  have o: "last (f # tr') q = f q" if "q \<noteq> path" "q \<noteq> ?t" for q
    using s that by (cases tr' rule: rev_cases; cases q) auto
  show ?thesis
  proof (cases r')
    case (Inl e)
    have "last (f # tr') path = f path" using s Inl by simp
    then show ?thesis
      using assms None w Inl s o temporary_ne [of pid path] by (auto simp: write_private_def Let_def split: option.splits)
  next
    case (Inr u)
    then show ?thesis using assms None w s by (auto simp: write_private_def Let_def)
  qed
next
  case (Some e)
  then show ?thesis using assms by (auto simp: write_private_def)
qed

lemma write_private_last:
  assumes "write_private io pid path contents f = (tr, Inr u)"
  shows "last (f # tr) path = Some \<lparr>fn_data = contents, fn_mode = OWNER_ONLY\<rparr>"
  using write_private_states [OF assms] by simp

text \<open>
  C39: Saving is atomic. Through every state that the file system passes, whichever of the calls fails, the
  file holds either exactly what it held before or the complete new contents, readable by its owner only, and
  no file other than it and the temporary one changes. At the end it is the new contents, with no temporary
  file left, exactly when the operation succeeds, and the old contents when it fails.
\<close>

theorem write_private_atomic:
  assumes "write_private io pid path contents f = (tr, r)"
  shows "list_all (\<lambda>g. g path = f path \<or> g path = Some \<lparr>fn_data = contents, fn_mode = OWNER_ONLY\<rparr>) tr
     \<and> list_all (\<lambda>g. \<forall>q. q \<noteq> path \<and> q \<noteq> temporary_path pid path \<longrightarrow> g q = f q) tr
     \<and> (case r of
          Inr _ \<Rightarrow> last (f # tr) path = Some \<lparr>fn_data = contents, fn_mode = OWNER_ONLY\<rparr>
                   \<and> last (f # tr) (temporary_path pid path) = None
        | Inl _ \<Rightarrow> last (f # tr) path = f path)"
  by (rule write_private_states [OF assms])

definition demo_io :: fs_io where
  "demo_io = \<lparr>io_read = None, io_mkdir = None, io_open = None, io_write = Some (1, ''disk full''), io_sync = None, io_chmod = None,
     io_rename = None, io_remove = None\<rparr>"

theorem write_private_atomic_witness:
  "case write_private demo_io 7 ([], ''a.toml'') [1, 2] (Map.empty(([], ''a.toml'') \<mapsto> \<lparr>fn_data = [9], fn_mode = OWNER_ONLY\<rparr>)) of
     (tr, r) \<Rightarrow> length tr = 3 \<and> last tr ([], ''a.toml'') = Some \<lparr>fn_data = [9], fn_mode = OWNER_ONLY\<rparr>"
proof -
  let ?f = "Map.empty(([], ''a.toml'') \<mapsto> \<lparr>fn_data = [9], fn_mode = OWNER_ONLY\<rparr>) :: fs"
  obtain tr where w: "write_private demo_io 7 ([], ''a.toml'') [1, 2] ?f = (tr, Inl (ErrIo ''disk full''))" "length tr = 3"
    by (simp add: write_private_def write_and_rename_def demo_io_def Let_def)
  then have "last tr = last (?f # tr)" by auto
  then show ?thesis using w write_private_atomic [OF w(1)] by simp
qed


section \<open>Saving and loading\<close>

definition identity_wf :: "identity \<Rightarrow> bool" where
  "identity_wf i \<longleftrightarrow> length (i_wg_private_key i) = 32 \<and> length (i_wg_peer_public_key i) = 32 \<and> length (i_client_id i) = 3
     \<and> utf8_valid (i_cert_pem i) \<and> utf8_valid (i_key_pem i)"

text \<open>What the code relies on in the base64 and TOML crates: what is written is read back.\<close>

definition toml_lawful :: "toml_ext \<Rightarrow> bool" where
  "toml_lawful T \<longleftrightarrow> (\<forall>bs. tx_decode T (tx_encode T bs) = Inr bs \<and> (tx_encode T bs = [] \<longleftrightarrow> bs = []))
     \<and> (\<forall>p s. tx_print T p = Inr s \<longrightarrow> tx_parse T s = Inr p \<and> utf8_valid (as_bytes s))"

lemma try_from_persist:
  assumes "toml_lawful T" "identity_wf i"
  shows "identity_try_from T (persist T i) = Inr (i\<lparr>i_refused := False\<rparr>)"
proof -
  have "tx_decode T (tx_encode T bs) = Inr bs" "tx_encode T bs = [] \<longleftrightarrow> bs = []" for bs
    using assms(1) by (simp_all add: toml_lawful_def)
  then show ?thesis using assms(2)
    by (auto simp: identity_try_from_def persist_def decode_fixed_def identity_wf_def from_utf8_lossy_def utf8_lossy_valid Let_def)
qed

lemma saved_is_loaded:
  assumes "toml_lawful T" "identity_wf i" "config_save T io pid p i f = (tr, Inr ())" "io_read io' = None"
  shows "config_load T io' p (last (f # tr)) = (last (f # tr), Inr (Some (i\<lparr>i_refused := False\<rparr>)))"
proof -
  obtain s where s: "tx_print T (persist T i) = Inr s" "write_private io pid p (as_bytes s) f = (tr, Inr ())"
    using assms(3) by (auto simp: config_save_def split: sum.splits)
  have "last (f # tr) p = Some \<lparr>fn_data = as_bytes s, fn_mode = OWNER_ONLY\<rparr>"
    using write_private_last [OF s(2)] by simp
  moreover have "tx_parse T s = Inr (persist T i)" "utf8_valid (as_bytes s)" using assms(1) s(1) by (auto simp: toml_lawful_def)
  ultimately show ?thesis
    using try_from_persist [OF assms(1,2)] assms(4) by (simp add: config_load_def read_to_string_def from_utf8_def)
qed

text \<open>
  C30: What is saved is loaded. After a successful save, loading gives back the same identity in every field,
  except that it is never marked as refused, and leaves the file system as it is.
\<close>

theorem config_save_load:
  assumes "toml_lawful T" "identity_wf i" "config_save T io pid p i f = (tr, Inr ())" "io_read io' = None"
  shows "config_load T io' p (last (f # tr)) = (last (f # tr), Inr (Some (i\<lparr>i_refused := False\<rparr>)))"
  by (rule saved_is_loaded [OF assms])

definition demo_saved :: persisted_identity where
  "demo_saved = persist \<lparr>tx_encode = bytes_str, tx_decode = \<lambda>s. Inr (as_bytes s), tx_parse = \<lambda>_. Inl [], tx_print = \<lambda>_. Inl []\<rparr> demo_identity"

definition demo_toml :: toml_ext where
  "demo_toml = \<lparr>tx_encode = bytes_str, tx_decode = \<lambda>s. Inr (as_bytes s), tx_parse = \<lambda>s. if s = ''x'' then Inr demo_saved else Inl [],
     tx_print = \<lambda>p. if p = demo_saved then Inr ''x'' else Inl []\<rparr>"

lemma demo_toml_lawful: "toml_lawful demo_toml"
proof -
  have "utf8_valid (as_bytes ''x'')" by (rule utf8_ascii [THEN conjunct1]) (simp add: ascii_def as_bytes_def)
  moreover have "bytes_str bs = [] \<longleftrightarrow> bs = []" for bs by (simp add: bytes_str_def)
  ultimately show ?thesis by (auto simp: toml_lawful_def demo_toml_def split: if_splits)
qed

theorem config_save_load_witness:
  "case config_save demo_toml (demo_io\<lparr>io_write := None\<rparr>) 7 ([], ''a.toml'') demo_identity Map.empty of
     (tr, r) \<Rightarrow> config_load demo_toml demo_io ([], ''a.toml'') (last tr) = (last tr, Inr (Some demo_identity))"
proof -
  have wf: "identity_wf demo_identity"
    using utf8_ascii [of "[1]"] utf8_ascii [of "[2]"] by (simp add: identity_wf_def demo_identity_def ascii_def)
  obtain tr where w: "config_save demo_toml (demo_io\<lparr>io_write := None\<rparr>) 7 ([], ''a.toml'') demo_identity Map.empty = (tr, Inr ())" "tr \<noteq> []"
    by (simp add: config_save_def demo_toml_def demo_saved_def persist_def write_private_def write_and_rename_def demo_io_def Let_def)
  have "demo_identity\<lparr>i_refused := False\<rparr> = demo_identity" by (simp add: demo_identity_def)
  then show ?thesis
    using config_save_load [OF demo_toml_lawful wf w(1), of demo_io] w by (simp add: demo_io_def)
qed

text \<open>A file that cannot be understood is moved aside with its contents, unless the move itself fails.\<close>

lemma damaged_file_is_kept:
  assumes "f p = Some n" "io_read io = None" "from_utf8 (fn_data n) = Some s"
    and "tx_parse T s = Inl e \<or> (\<exists>q e'. tx_parse T s = Inr q \<and> identity_try_from T q = Inl e')"
  shows "(\<exists>e'. snd (config_load T io p f) = Inl e')
     \<and> (io_rename io = None \<longrightarrow> fst (config_load T io p f) p = None \<and> fst (config_load T io p f) (quarantine_path p) = Some n)
     \<and> (io_rename io \<noteq> None \<longrightarrow> fst (config_load T io p f) = f)"
proof -
  have "quarantine_path p \<noteq> p" by (cases p) (simp add: quarantine_path_def)
  then show ?thesis using assms
    by (auto simp: config_load_def read_to_string_def quarantine_def rename_file_def Let_def split: option.splits)
qed

end
