(* ===== verification/Lifecycle.thy ===== *)
theory Lifecycle
  imports ConfigFile
begin

text \<open>
  The identity at start-up (\<open>main.rs\<close>): where it is kept, adopting what the organization assigns, loading or
  provisioning it for WARP and for MASQUE, and replacing one that was refused.

  The state is the environment variables, the file system, the session of \<open>ZeroTrust\<close> and the gateway proxy
  of the SOCKS server. \<open>start_world\<close> is everything outside: the external crates, and for each numbered
  exchange with the provider its network, for each numbered file operation its failures, and the clock
  readings. The log and the messages to the application are left out.
\<close>

section \<open>Socket addresses\<close>

definition read_port :: "string \<Rightarrow> (u16 \<times> string) option" where
  "read_port s = do {
     s \<leftarrow> read_given_char CHR '':'' s;
     (n, r) \<leftarrow> read_number 10 None True 65535 s;
     Some (of_nat n, r) }"

definition read_scope :: "string \<Rightarrow> string option" where
  "read_scope s =
     (case do { r \<leftarrow> read_given_char CHR 37 s; (_, r) \<leftarrow> read_number 10 None True (2 ^ 32 - 1) r; Some r } of
        Some r \<Rightarrow> Some r
      | None \<Rightarrow> Some s)"

text \<open>\<open>s.parse::<SocketAddr>()\<close>; a scope of an IPv6 address is read and not kept.\<close>

definition read_socket_addr :: "string \<Rightarrow> (socket_addr \<times> string) option" where
  "read_socket_addr s =
     (case do { (a, r) \<leftarrow> read_ipv4_addr s; (p, r) \<leftarrow> read_port r; Some (\<lparr>sa_ip = V4 a, sa_port = p\<rparr>, r) } of
        Some x \<Rightarrow> Some x
      | None \<Rightarrow> do {
          r \<leftarrow> read_given_char CHR ''['' s;
          (a, r) \<leftarrow> read_ipv6_addr r;
          r \<leftarrow> read_scope r;
          r \<leftarrow> read_given_char CHR '']'' r;
          (p, r) \<leftarrow> read_port r;
          Some (\<lparr>sa_ip = V6 a, sa_port = p\<rparr>, r) })"

definition parse_socket_addr :: "string \<Rightarrow> socket_addr option" where
  "parse_socket_addr s = parse_with read_socket_addr s"


section \<open>Paths\<close>

text \<open>The place behind the last separator, and the last dot behind that place.\<close>

definition dir_end :: "string \<Rightarrow> nat" where
  "dir_end base = length base - length (takeWhile (\<lambda>c. c \<noteq> CHR ''/'' \<and> c \<noteq> CHR 92) (rev base))"

definition rfind_char :: "char \<Rightarrow> string \<Rightarrow> nat option" where
  "rfind_char c s = map_option (\<lambda>(a, b). length a) (rsplit_once c s)"

definition derive_sibling_path :: "string \<Rightarrow> string \<Rightarrow> string" where
  "derive_sibling_path base suffix =
     (case rfind_char CHR ''.'' (drop (dir_end base) base) of
        Some rel \<Rightarrow> let dot = dir_end base + rel in take dot base @ ''-'' @ suffix @ drop dot base
      | None \<Rightarrow> base @ ''-'' @ suffix)"

record path_options =
  po_config_path :: string
  po_wireguard_config_path :: "string option"
  po_masque_config_path :: "string option"

definition warp_config_path :: "string option \<Rightarrow> path_options \<Rightarrow> string" where
  "warp_config_path team o' =
     (case po_wireguard_config_path o' of
        Some p \<Rightarrow> p
      | None \<Rightarrow> (case team of
           Some t \<Rightarrow> derive_sibling_path (po_config_path o') (''team-'' @ t)
         | None \<Rightarrow> po_config_path o'))"

definition masque_config_path :: "string option \<Rightarrow> path_options \<Rightarrow> string" where
  "masque_config_path team o' =
     (case po_masque_config_path o' of
        Some p \<Rightarrow> p
      | None \<Rightarrow> (case team of
           Some t \<Rightarrow> derive_sibling_path (po_config_path o') (''team-'' @ t)
         | None \<Rightarrow> derive_sibling_path (po_config_path o') ''masque''))"

definition lastconn_path :: "string \<Rightarrow> string" where
  "lastconn_path config_path = derive_sibling_path config_path ''lastconn''"

definition gool_lastconn_path :: "string \<Rightarrow> string" where
  "gool_lastconn_path config_path = derive_sibling_path config_path ''gool-lastconn''"


section \<open>Start-up\<close>

record start_world =
  sw_api :: api_ext
  sw_jwt :: jwt_ext
  sw_zt :: zt_world
  sw_toml :: toml_ext
  sw_lower :: "string \<Rightarrow> string"
  sw_draws :: draws
  sw_keypair :: "masque_key_pair result"
  sw_net :: "nat \<Rightarrow> api_net"
  sw_io :: "nat \<Rightarrow> fs_io"
  sw_now :: "nat \<Rightarrow> u64"
  sw_pid :: nat

record start_state =
  ss_env :: "string \<rightharpoonup> string"
  ss_fs :: fs
  ss_zt :: zt_state
  ss_gateway :: "socket_addr option"
  ss_gateway_healthy :: bool

definition DEFAULT_MODEL :: string where "DEFAULT_MODEL = ''PC''"
definition DEFAULT_LOCALE :: string where "DEFAULT_LOCALE = ''en_US''"

definition set_gateway_proxy :: "string \<Rightarrow> start_state \<Rightarrow> start_state" where
  "set_gateway_proxy address s =
     (let trimmed = trim address in
      if trimmed = [] then s
      else case parse_socket_addr trimmed of
        Some a \<Rightarrow> s\<lparr>ss_gateway := Some a, ss_gateway_healthy := True\<rparr>
      | None \<Rightarrow> s)"

definition clear_gateway_proxy :: "start_state \<Rightarrow> start_state" where
  "clear_gateway_proxy s = s\<lparr>ss_gateway := None, ss_gateway_healthy := True\<rparr>"

definition team_scope :: "start_world \<Rightarrow> start_state \<Rightarrow> string option" where
  "team_scope W s = map_option ts_team (team_from_env (sw_lower W) (ss_env s))"

definition keep_saved_identity :: "start_state \<Rightarrow> bool" where
  "keep_saved_identity s \<longleftrightarrow> ss_env s ''AETHER_REPROVISION'' \<notin> {Some ''0'', Some ''off'', Some ''false''}"

definition team_port :: "start_state \<Rightarrow> nat" where
  "team_port s =
     (case ss_env s ''AETHER_PROTOCOL'' of Some v \<Rightarrow> if v = ''wg'' \<or> v = ''gool'' then 2408 else 443 | None \<Rightarrow> 443)"

definition publish_gateway :: "identity \<Rightarrow> start_state \<Rightarrow> start_state" where
  "publish_gateway i s =
     (if i_gateway_proxy i \<noteq> [] \<and> ss_env s ''AETHER_GATEWAY'' \<noteq> None then set_gateway_proxy (i_gateway_proxy i) s else s)"

definition publish_endpoint :: "identity \<Rightarrow> start_state \<Rightarrow> start_state" where
  "publish_endpoint i s =
     (if i_assigned_endpoint i \<noteq> [] \<and> ss_env s ''AETHER_PEER'' = None then
        let peer = i_assigned_endpoint i @ '':'' @ show_nat (team_port s) in
        if parse_socket_addr peer \<noteq> None then s\<lparr>ss_env := (ss_env s)(''AETHER_TEAM_ENDPOINT'' \<mapsto> peer)\<rparr> else s
      else s)"

definition adopt_team_profile :: "start_world \<Rightarrow> nat \<Rightarrow> identity \<Rightarrow> start_state \<Rightarrow> (start_state \<times> identity) rust" where
  "adopt_team_profile W k i s =
     (if team_scope W s = None then Some (s, i)
      else do {
        i \<leftarrow> refresh_profile (sw_api W) (sw_net W k) i;
        Some (publish_endpoint i (publish_gateway i s), i) })"

definition provision_account :: "start_world \<Rightarrow> nat \<Rightarrow> nat \<Rightarrow> start_state \<Rightarrow> (start_state \<times> identity result) rust" where
  "provision_account W k t s =
     (case team_from_env (sw_lower W) (ss_env s) of
        Some settings \<Rightarrow> do {
          (z, r) \<leftarrow> provision_team (sw_api W) (sw_net W k) (sw_draws W) (sw_jwt W) (sw_zt W) (sw_now W t) (sw_now W (t + 1))
            DEFAULT_MODEL DEFAULT_LOCALE settings (ss_zt s);
          let s = s\<lparr>ss_zt := z\<rparr>;
          case r of
            Inl e \<Rightarrow> Some (s, Inl e)
          | Inr i \<Rightarrow> do { i \<leftarrow> refresh_profile (sw_api W) (sw_net W (k + 1)) i; Some (s, Inr i) } }
      | None \<Rightarrow> do {
          r \<leftarrow> provision_wg (sw_api W) (sw_net W k) (sw_draws W) DEFAULT_MODEL DEFAULT_LOCALE None;
          Some (s, r) })"

definition apply_masque_enrollment :: "identity \<Rightarrow> masque_enrollment \<Rightarrow> identity" where
  "apply_masque_enrollment i e =
     i\<lparr>i_cert_pem := me_cert_pem e, i_key_pem := me_key_pem e, i_cert_issued_at := me_issued_at e,
       i_assigned_endpoint := if me_assigned_endpoint e = [] then i_assigned_endpoint i else me_assigned_endpoint e\<rparr>"

text \<open>\<open>config::save(path, &identity)?; Ok(identity)\<close>\<close>

definition save_and_return :: "start_world \<Rightarrow> nat \<Rightarrow> path \<Rightarrow> identity \<Rightarrow> start_state \<Rightarrow> start_state \<times> identity result" where
  "save_and_return W k p i s =
     (case config_save (sw_toml W) (sw_io W k) (sw_pid W) p i (ss_fs s) of
        (tr, r) \<Rightarrow> (s\<lparr>ss_fs := last (ss_fs s # tr)\<rparr>, case r of Inl e \<Rightarrow> Inl e | Inr _ \<Rightarrow> Inr i))"

definition provision_warp :: "start_world \<Rightarrow> path \<Rightarrow> start_state \<Rightarrow> (start_state \<times> identity result) rust" where
  "provision_warp W p s = do {
     (s, r) \<leftarrow> provision_account W 1 0 s;
     case r of
       Inl e \<Rightarrow> Some (s, Inl e)
     | Inr i \<Rightarrow> do {
         (s, i) \<leftarrow> adopt_team_profile W 3 i s;
         Some (save_and_return W 2 p i s) } }"

definition load_or_provision_warp :: "start_world \<Rightarrow> path \<Rightarrow> start_state \<Rightarrow> (start_state \<times> identity result) rust" where
  "load_or_provision_warp W p s =
     (case config_load (sw_toml W) (sw_io W 0) p (ss_fs s) of
        (f, Inl e) \<Rightarrow> Some (s\<lparr>ss_fs := f\<rparr>, Inl e)
      | (f, Inr None) \<Rightarrow> provision_warp W p (s\<lparr>ss_fs := f\<rparr>)
      | (f, Inr (Some i)) \<Rightarrow> do {
          (s, i) \<leftarrow> adopt_team_profile W 0 i (s\<lparr>ss_fs := f\<rparr>);
          if \<not> i_refused i then Some (save_and_return W 1 p i s)
          else if \<not> keep_saved_identity s then Some (s, Inr i)
          else provision_warp W p s })"

definition provision_masque :: "start_world \<Rightarrow> path \<Rightarrow> start_state \<Rightarrow> (start_state \<times> identity result) rust" where
  "provision_masque W p s = do {
     (s, r) \<leftarrow> provision_account W 1 0 s;
     case r of
       Inl e \<Rightarrow> Some (s, Inl e)
     | Inr i \<Rightarrow> do {
         en \<leftarrow> ensure_masque_enrolled (sw_api W) (sw_net W 3) (sw_keypair W) (sw_now W 2) (sw_now W 3) i;
         case en of
           Inl e \<Rightarrow> Some (s, Inl e)
         | Inr en \<Rightarrow> do {
             (s, i) \<leftarrow> adopt_team_profile W 4 (apply_masque_enrollment i en) s;
             Some (save_and_return W 2 p i s) } } }"

definition replace_refused :: "start_world \<Rightarrow> path \<Rightarrow> identity \<Rightarrow> start_state \<Rightarrow> (start_state \<times> identity result) rust" where
  "replace_refused W p i s = (if \<not> keep_saved_identity s then Some (s, Inr i) else provision_masque W p s)"

definition load_or_provision_masque :: "start_world \<Rightarrow> path \<Rightarrow> start_state \<Rightarrow> (start_state \<times> identity result) rust" where
  "load_or_provision_masque W p s =
     (case config_load (sw_toml W) (sw_io W 0) p (ss_fs s) of
        (f, Inl e) \<Rightarrow> Some (s\<lparr>ss_fs := f\<rparr>, Inl e)
      | (f, Inr None) \<Rightarrow> provision_masque W p (s\<lparr>ss_fs := f\<rparr>)
      | (f, Inr (Some i)) \<Rightarrow>
          let s = s\<lparr>ss_fs := f\<rparr> in
          if has_masque_credentials (sw_now W 4) i then do {
            (s, i) \<leftarrow> adopt_team_profile W 0 i s;
            if \<not> i_refused i then Some (save_and_return W 1 p i s) else replace_refused W p i s }
          else do {
            en \<leftarrow> ensure_masque_enrolled (sw_api W) (sw_net W 0) (sw_keypair W) (sw_now W 5) (sw_now W 6) i;
            case en of
              Inr en \<Rightarrow> Some (save_and_return W 1 p (apply_masque_enrollment i en) s)
            | Inl e \<Rightarrow> if is_refused e then replace_refused W p (i\<lparr>i_refused := True\<rparr>) s else Some (s, Inl e) })"

text \<open>After gateways refused the certificate: a new one, or nothing when the old one would be returned.\<close>

definition refresh_refused_masque_identity :: "start_world \<Rightarrow> nat \<Rightarrow> path \<Rightarrow> identity \<Rightarrow> start_state \<Rightarrow> (start_state \<times> identity option) rust" where
  "refresh_refused_masque_identity W k p i s = do {
     r \<leftarrow> renew_masque_certificate (sw_api W) (sw_net W k) (sw_keypair W) (sw_now W k) i;
     Some (case r of
        Inl _ \<Rightarrow> (s, None)
      | Inr en \<Rightarrow>
          if \<not> me_renewed en then (s, None)
          else
            let fresh = apply_masque_enrollment i en in
            (fst (save_and_return W k p fresh s), Some fresh)) }"

section \<open>What start-up leaves behind\<close>

lemma save_and_returnD:
  assumes "save_and_return W k p i s = (s', Inr j)"
  shows "j = i" "\<exists>tr. config_save (sw_toml W) (sw_io W k) (sw_pid W) p i (ss_fs s) = (tr, Inr ()) \<and> ss_fs s' = last (ss_fs s # tr)"
proof -
  obtain tr r where c: "config_save (sw_toml W) (sw_io W k) (sw_pid W) p i (ss_fs s) = (tr, r)" by (meson surj_pair)
  have e: "(s\<lparr>ss_fs := last (ss_fs s # tr)\<rparr>, case r of Inl e \<Rightarrow> Inl e | Inr _ \<Rightarrow> Inr i) = (s', Inr j)"
    using assms by (simp only: save_and_return_def c prod.case)
  then have r: "r = Inr ()" "j = i" by (cases r; simp)+
  show "j = i" by (rule r(2))
  have "ss_fs s' = last (ss_fs s # tr)" using arg_cong [OF e, of "\<lambda>x. ss_fs (fst x)"] by simp
  then show "\<exists>tr. config_save (sw_toml W) (sw_io W k) (sw_pid W) p i (ss_fs s) = (tr, Inr ()) \<and> ss_fs s' = last (ss_fs s # tr)"
    using c r(1) by blast
qed

lemma bind_pairD: "Option.bind m (\<lambda>(a, b). f a b) = Some r \<Longrightarrow> \<exists>a b. m = Some (a, b) \<and> f a b = Some r"
  by (auto simp: bind_eq_Some_conv)

definition loads :: "start_world \<Rightarrow> path \<Rightarrow> identity \<Rightarrow> start_state \<Rightarrow> bool" where
  "loads W p i s \<longleftrightarrow> (\<forall>io. io_read io = None \<longrightarrow>
     config_load (sw_toml W) io p (ss_fs s) = (ss_fs s, Inr (Some (i\<lparr>i_refused := False\<rparr>))))"

lemma save_and_return_loads:
  assumes "toml_lawful (sw_toml W)" "identity_wf j" "save_and_return W k p i s = (s', Inr j)"
  shows "j = i \<and> loads W p j s'"
proof -
  obtain tr where t: "config_save (sw_toml W) (sw_io W k) (sw_pid W) p i (ss_fs s) = (tr, Inr ())" "ss_fs s' = last (ss_fs s # tr)"
    using save_and_returnD(2) [OF assms(3)] by blast
  have j: "j = i" by (rule save_and_returnD(1) [OF assms(3)])
  have "config_load (sw_toml W) io p (ss_fs s') = (ss_fs s', Inr (Some (i\<lparr>i_refused := False\<rparr>)))" if "io_read io = None" for io
    using saved_is_loaded [OF assms(1) assms(2) [unfolded j] t(1) that] t(2) by simp
  then show ?thesis using j by (simp add: loads_def)
qed

lemma publish_env:
  "k \<noteq> ''AETHER_TEAM_ENDPOINT'' \<Longrightarrow> ss_env (publish_endpoint i (publish_gateway i s)) k = ss_env s k"
  by (simp add: publish_endpoint_def publish_gateway_def set_gateway_proxy_def Let_def split: option.split)

lemma adopt_keep: "adopt_team_profile W k i s = Some (s', j) \<Longrightarrow> keep_saved_identity s' = keep_saved_identity s"
  by (auto simp: adopt_team_profile_def keep_saved_identity_def publish_env bind_eq_Some_conv split: if_splits)

lemma adopt_personal: "team_scope W s = None \<Longrightarrow> adopt_team_profile W k i s = Some (s, i)"
  by (simp add: adopt_team_profile_def)

lemma load_not_refused: "config_load T io p f = (f', Inr (Some i)) \<Longrightarrow> \<not> i_refused i"
  by (auto simp: config_load_def identity_try_from_def Let_def split: if_splits sum.splits prod.splits)

lemma finish_not_refused: "finish_provision X reg k = Inr i \<Longrightarrow> \<not> i_refused i \<and> i_cert_pem i = []"
  by (auto simp: finish_provision_def split: if_splits sum.splits)

lemma provision_wg_fresh: "provision_wg X N D model locale jwt = Some (Inr i) \<Longrightarrow> \<not> i_refused i"
proof -
  assume "provision_wg X N D model locale jwt = Some (Inr i)"
  then obtain y where "(case y of Inl e \<Rightarrow> Inl e | Inr (reg, private) \<Rightarrow> finish_provision X reg private) = Inr i"
    by (auto simp: provision_wg_def bind_eq_Some_conv)
  then show ?thesis using finish_not_refused by (cases y) auto
qed

lemma provision_account_personal:
  assumes "team_scope W s = None" "provision_account W k t s = Some (s', Inr i)"
  shows "s' = s \<and> \<not> i_refused i"
proof -
  have "team_from_env (sw_lower W) (ss_env s) = None" using assms(1) by (simp add: team_scope_def)
  then show ?thesis using assms(2) provision_wg_fresh by (auto simp: provision_account_def bind_eq_Some_conv)
qed

lemma provision_warp_saved:
  assumes "provision_warp W p s = Some (s', Inr i)" "toml_lawful (sw_toml W)" "identity_wf i"
  shows "loads W p i s' \<and> (team_scope W s = None \<longrightarrow> \<not> i_refused i)"
proof -
  obtain s1 j s2 where 1: "provision_account W 1 0 s = Some (s1, Inr j)" "adopt_team_profile W 3 j s1 = Some (s2, i)"
      "save_and_return W 2 p i s2 = (s', Inr i)"
  proof -
    obtain s1 r where a: "provision_account W 1 0 s = Some (s1, r)"
        "(case r of Inl e \<Rightarrow> Some (s1, Inl e) | Inr i \<Rightarrow> Option.bind (adopt_team_profile W 3 i s1) (\<lambda>(s, i). Some (save_and_return W 2 p i s))) = Some (s', Inr i)"
      using bind_pairD [OF assms(1) [unfolded provision_warp_def]] by blast
    then obtain j where j: "r = Inr j" by (cases r) simp_all
    then obtain s2 i2 where "adopt_team_profile W 3 j s1 = Some (s2, i2)" "save_and_return W 2 p i2 s2 = (s', Inr i)"
      using bind_pairD [OF a(2) [unfolded j sum.case]] by auto
    then show thesis using that a(1) j save_and_returnD(1) by blast
  qed
  have "\<not> i_refused i" if "team_scope W s = None"
    using provision_account_personal [OF that 1(1)] adopt_personal that 1(2) by simp
  then show ?thesis using save_and_return_loads [OF assms(2,3) 1(3)] by simp
qed

lemma provision_masque_saved:
  assumes "provision_masque W p s = Some (s', Inr i)" "toml_lawful (sw_toml W)" "identity_wf i"
  shows "loads W p i s' \<and> (team_scope W s = None \<longrightarrow> \<not> i_refused i)"
proof -
  obtain s1 j en s2 where 1: "provision_account W 1 0 s = Some (s1, Inr j)"
      "adopt_team_profile W 4 (apply_masque_enrollment j en) s1 = Some (s2, i)" "save_and_return W 2 p i s2 = (s', Inr i)"
  proof -
    let ?k = "\<lambda>s en i. Option.bind (adopt_team_profile W 4 (apply_masque_enrollment i en) s) (\<lambda>(s, i). Some (save_and_return W 2 p i s))"
    obtain s1 r where a: "provision_account W 1 0 s = Some (s1, r)"
        "(case r of Inl e \<Rightarrow> Some (s1, Inl e)
          | Inr i \<Rightarrow> Option.bind (ensure_masque_enrolled (sw_api W) (sw_net W 3) (sw_keypair W) (sw_now W 2) (sw_now W 3) i)
              (\<lambda>en. case en of Inl e \<Rightarrow> Some (s1, Inl e) | Inr en \<Rightarrow> ?k s1 en i)) = Some (s', Inr i)"
      using bind_pairD [OF assms(1) [unfolded provision_masque_def]] by blast
    then obtain j where j: "r = Inr j" by (cases r) simp_all
    obtain y where "(case y of Inl e \<Rightarrow> Some (s1, Inl e) | Inr en \<Rightarrow> ?k s1 en j) = Some (s', Inr i)"
      using a(2) [unfolded j sum.case bind_eq_Some_conv] by blast
    then obtain en where "?k s1 en j = Some (s', Inr i)" by (cases y) simp_all
    then obtain s2 i2 where "adopt_team_profile W 4 (apply_masque_enrollment j en) s1 = Some (s2, i2)" "save_and_return W 2 p i2 s2 = (s', Inr i)"
      using bind_pairD by fast
    then show thesis using that a(1) j save_and_returnD(1) by blast
  qed
  have "\<not> i_refused i" if "team_scope W s = None"
    using provision_account_personal [OF that 1(1)] adopt_personal that 1(2) by (auto simp: apply_masque_enrollment_def)
  then show ?thesis using save_and_return_loads [OF assms(2,3) 1(3)] by simp
qed

lemma team_scope_fs [simp]: "team_scope W (s\<lparr>ss_fs := f\<rparr>) = team_scope W s"
  by (simp add: team_scope_def)

lemma keep_fs [simp]: "keep_saved_identity (s\<lparr>ss_fs := f\<rparr>) = keep_saved_identity s"
  by (simp add: keep_saved_identity_def)

text \<open>What the two start-up operations guarantee of the state and the identity they return.\<close>

definition startup_ok :: "start_world \<Rightarrow> path \<Rightarrow> start_state \<Rightarrow> start_state \<Rightarrow> identity \<Rightarrow> bool" where
  "startup_ok W p s s' i \<longleftrightarrow> (i_refused i \<and> \<not> keep_saved_identity s \<or> loads W p i s')
     \<and> (team_scope W s = None \<and> keep_saved_identity s \<longrightarrow> \<not> i_refused i)"

lemma startup_saved:
  assumes "toml_lawful (sw_toml W)" "identity_wf i" "save_and_return W k p j t = (s', Inr i)" "\<not> i_refused j"
  shows "startup_ok W p s s' i"
  using save_and_return_loads [OF assms(1-3)] assms(4) by (auto simp: startup_ok_def)

text \<open>\<open>t\<close> is the state after the profile was adopted, or the one before.\<close>

definition same_scope :: "start_world \<Rightarrow> start_state \<Rightarrow> start_state \<Rightarrow> bool" where
  "same_scope W s t \<longleftrightarrow> (team_scope W s = None \<longrightarrow> team_scope W t = None) \<and> keep_saved_identity t = keep_saved_identity s"

lemma adopt_scope: "adopt_team_profile W k j (s\<lparr>ss_fs := f\<rparr>) = Some (t, i) \<Longrightarrow> same_scope W s t"
  using adopt_keep [of W k j "s\<lparr>ss_fs := f\<rparr>" t i] adopt_personal [of W "s\<lparr>ss_fs := f\<rparr>" k j] by (auto simp: same_scope_def)

lemma startup_refused_warp:
  assumes "toml_lawful (sw_toml W)" "identity_wf i" "same_scope W s t" "i_refused j"
    and "(if \<not> keep_saved_identity t then Some (t, Inr j) else provision_warp W p t) = Some (s', Inr i)"
  shows "startup_ok W p s s' i"
  using provision_warp_saved [of W p t s' i] assms by (auto simp: startup_ok_def same_scope_def split: if_splits)

lemma startup_refused_masque:
  assumes "toml_lawful (sw_toml W)" "identity_wf i" "same_scope W s t" "i_refused j" "replace_refused W p j t = Some (s', Inr i)"
  shows "startup_ok W p s s' i"
  using provision_masque_saved [of W p t s' i] assms by (auto simp: startup_ok_def same_scope_def replace_refused_def split: if_splits)

lemma startup_fresh:
  assumes "toml_lawful (sw_toml W)" "identity_wf i"
    and "provision_warp W p (s\<lparr>ss_fs := f\<rparr>) = Some (s', Inr i) \<or> provision_masque W p (s\<lparr>ss_fs := f\<rparr>) = Some (s', Inr i)"
  shows "startup_ok W p s s' i"
  using provision_masque_saved [of W p "s\<lparr>ss_fs := f\<rparr>" s' i] provision_warp_saved [of W p "s\<lparr>ss_fs := f\<rparr>" s' i] assms
  by (auto simp: startup_ok_def)

lemma startup_warp:
  assumes "toml_lawful (sw_toml W)" "identity_wf i" "load_or_provision_warp W p s = Some (s', Inr i)"
  shows "startup_ok W p s s' i"
proof -
  obtain f r where l: "config_load (sw_toml W) (sw_io W 0) p (ss_fs s) = (f, r)" by (meson surj_pair)
  let ?s = "s\<lparr>ss_fs := f\<rparr>"
  consider "r = Inr None" | j where "r = Inr (Some j)"
    using assms(3) l by (cases r) (auto simp: load_or_provision_warp_def)
  then show ?thesis
  proof cases
    case 1
    then show ?thesis using startup_fresh [OF assms(1,2), of p f s s'] assms(3) l by (simp add: load_or_provision_warp_def)
  next
    case 2
    then have b: "Option.bind (adopt_team_profile W 0 j ?s) (\<lambda>(s, i). if \<not> i_refused i then Some (save_and_return W 1 p i s)
        else if \<not> keep_saved_identity s then Some (s, Inr i) else provision_warp W p s) = Some (s', Inr i)"
      using assms(3) l by (simp add: load_or_provision_warp_def)
    from bind_pairD [OF b] obtain t i2 where t: "adopt_team_profile W 0 j ?s = Some (t, i2)"
        "(if \<not> i_refused i2 then Some (save_and_return W 1 p i2 t)
          else if \<not> keep_saved_identity t then Some (t, Inr i2) else provision_warp W p t) = Some (s', Inr i)" by blast
    show ?thesis
      using t(2) startup_saved [OF assms(1,2)] startup_refused_warp [OF assms(1,2) adopt_scope [OF t(1)]]
      by (cases "i_refused i2") auto
  qed
qed

text \<open>The ways in which start-up for MASQUE succeeds.\<close>

lemma masque_start_cases:
  assumes "load_or_provision_masque W p s = Some (s', Inr i)"
  obtains (fresh) f where "provision_masque W p (s\<lparr>ss_fs := f\<rparr>) = Some (s', Inr i)"
    | (adopted) f j t i2 where "has_masque_credentials (sw_now W 4) j" "adopt_team_profile W 0 j (s\<lparr>ss_fs := f\<rparr>) = Some (t, i2)"
        "\<not> i_refused i2" "save_and_return W 1 p i2 t = (s', Inr i)"
    | (dropped) f j t i2 where "has_masque_credentials (sw_now W 4) j" "adopt_team_profile W 0 j (s\<lparr>ss_fs := f\<rparr>) = Some (t, i2)"
        "i_refused i2" "replace_refused W p i2 t = Some (s', Inr i)"
    | (enrolled) f j en where "\<not> i_refused j" "save_and_return W 1 p (apply_masque_enrollment j en) (s\<lparr>ss_fs := f\<rparr>) = (s', Inr i)"
        "ensure_masque_enrolled (sw_api W) (sw_net W 0) (sw_keypair W) (sw_now W 5) (sw_now W 6) j = Some (Inr en)"
    | (refused) f j where "replace_refused W p (j\<lparr>i_refused := True\<rparr>) (s\<lparr>ss_fs := f\<rparr>) = Some (s', Inr i)"
proof -
  obtain f r where l: "config_load (sw_toml W) (sw_io W 0) p (ss_fs s) = (f, r)" by (meson surj_pair)
  let ?s = "s\<lparr>ss_fs := f\<rparr>"
  consider "r = Inr None" | j where "r = Inr (Some j)" "has_masque_credentials (sw_now W 4) j"
    | j where "r = Inr (Some j)" "\<not> has_masque_credentials (sw_now W 4) j"
    using assms l by (cases r) (auto simp: load_or_provision_masque_def)
  then show thesis
  proof cases
    case 1
    then show ?thesis using fresh assms l by (simp add: load_or_provision_masque_def)
  next
    case 2
    then have b: "Option.bind (adopt_team_profile W 0 j ?s) (\<lambda>(s, i). if \<not> i_refused i then Some (save_and_return W 1 p i s)
        else replace_refused W p i s) = Some (s', Inr i)"
      using assms l by (simp add: load_or_provision_masque_def Let_def)
    from bind_pairD [OF b] obtain t i2 where t: "adopt_team_profile W 0 j ?s = Some (t, i2)"
        "(if \<not> i_refused i2 then Some (save_and_return W 1 p i2 t) else replace_refused W p i2 t) = Some (s', Inr i)" by blast
    then show ?thesis using adopted [OF 2(2) t(1)] dropped [OF 2(2) t(1)] by (cases "i_refused i2") simp_all
  next
    case 3
    have nr: "\<not> i_refused j" using l 3(1) load_not_refused by blast
    let ?e = "ensure_masque_enrolled (sw_api W) (sw_net W 0) (sw_keypair W) (sw_now W 5) (sw_now W 6) j"
    obtain en where en: "?e = Some en" "(case en of
          Inr en \<Rightarrow> Some (save_and_return W 1 p (apply_masque_enrollment j en) ?s)
        | Inl e \<Rightarrow> if is_refused e then replace_refused W p (j\<lparr>i_refused := True\<rparr>) ?s else Some (?s, Inl e)) = Some (s', Inr i)"
      using assms l 3 by (auto simp: load_or_provision_masque_def Let_def bind_eq_Some_conv simp del: One_nat_def)
    show ?thesis
    proof (cases en)
      case (Inl e)
      then show ?thesis using en(2) refused by (simp split: if_splits)
    qed (use en enrolled [OF nr] in simp)
  qed
qed

lemma startup_masque:
  assumes "toml_lawful (sw_toml W)" "identity_wf i" "load_or_provision_masque W p s = Some (s', Inr i)"
  shows "startup_ok W p s s' i"
  using assms(3)
proof (cases rule: masque_start_cases)
  case (fresh f)
  then show ?thesis using startup_fresh [OF assms(1,2), of p f s s'] by simp
next
  case (adopted f j t i2)
  then show ?thesis using startup_saved [OF assms(1,2) adopted(4,3)] by simp
next
  case (dropped f j t i2)
  then show ?thesis using startup_refused_masque [OF assms(1,2) adopt_scope [OF dropped(2)] dropped(3,4)] by simp
next
  case (enrolled f j en)
  have "\<not> i_refused (apply_masque_enrollment j en)" using enrolled(1) by (simp add: apply_masque_enrollment_def)
  then show ?thesis using startup_saved [OF assms(1,2) enrolled(2)] by simp
next
  case (refused f j)
  have sc: "same_scope W s (s\<lparr>ss_fs := f\<rparr>)" by (simp add: same_scope_def)
  show ?thesis by (rule startup_refused_masque [OF assms(1,2) sc _ refused]) simp
qed

text \<open>
  C2: Start-up returns the identity it has saved. When the identity for WARP or for MASQUE has been loaded,
  renewed or provisioned, loading the file afterwards gives back exactly the identity returned; the only
  exception is a refused identity that is returned because replacing it was switched off. For a
  personal account, with replacing switched on, the identity returned is never a refused one.
\<close>

theorem startup_returns_what_it_saved:
  assumes "toml_lawful (sw_toml W)" "identity_wf i" "io_read io = None"
    and "load_or_provision_warp W p s = Some (s', Inr i) \<or> load_or_provision_masque W p s = Some (s', Inr i)"
  shows "(i_refused i \<and> \<not> keep_saved_identity s
          \<or> config_load (sw_toml W) io p (ss_fs s') = (ss_fs s', Inr (Some (i\<lparr>i_refused := False\<rparr>))))
     \<and> (team_scope W s = None \<and> keep_saved_identity s \<longrightarrow> \<not> i_refused i)"
proof -
  have "startup_ok W p s s' i"
    using assms(4) startup_warp [OF assms(1,2)] startup_masque [OF assms(1,2)] by blast
  then show ?thesis using assms(3) by (auto simp: startup_ok_def loads_def)
qed

definition demo_start :: start_world where
  "demo_start = \<lparr>sw_api = demo_api, sw_jwt = demo_ext, sw_zt = demo_world, sw_toml = demo_toml, sw_lower = \<lambda>s. s,
     sw_draws = \<lparr>dr_key = [], dr_serial = [], dr_install = \<lambda>_. 0, dr_fcm = \<lambda>_. 0, dr_tos = []\<rparr>, sw_keypair = Inl (ErrTls []),
     sw_net = \<lambda>_. demo_net, sw_io = \<lambda>_. demo_io\<lparr>io_write := None\<rparr>, sw_now = \<lambda>_. 1000000001, sw_pid = 7\<rparr>"

definition demo_path :: path where "demo_path = ([], ''a.toml'')"

definition demo_state :: start_state where
  "demo_state = \<lparr>ss_env = Map.empty, ss_fs = Map.empty(demo_path \<mapsto> \<lparr>fn_data = as_bytes ''x'', fn_mode = OWNER_ONLY\<rparr>),
     ss_zt = zt_init, ss_gateway = None, ss_gateway_healthy = True\<rparr>"

lemma demo_personal: "team_scope demo_start (demo_state\<lparr>ss_fs := f\<rparr>) = None"
  by (simp add: team_scope_def team_from_env_def normalize_team_def demo_start_def demo_state_def Let_def)

lemma demo_loads: "config_load demo_toml (demo_io\<lparr>io_write := None\<rparr>) demo_path (ss_fs demo_state) = (ss_fs demo_state, Inr (Some demo_identity))"
proof -
  have wf: "identity_wf demo_identity"
    using utf8_ascii [of "[1]"] utf8_ascii [of "[2]"] by (simp add: identity_wf_def demo_identity_def ascii_def)
  have "persist demo_toml demo_identity = demo_saved" by (simp add: demo_saved_def demo_toml_def persist_def)
  with try_from_persist [OF demo_toml_lawful wf] have "identity_try_from demo_toml demo_saved = Inr demo_identity"
    by (simp add: demo_identity_def)
  moreover have "utf8_valid (as_bytes ''x'')" by (rule utf8_ascii [THEN conjunct1]) (simp add: ascii_def as_bytes_def)
  ultimately show ?thesis
    by (simp add: config_load_def read_to_string_def demo_state_def demo_io_def from_utf8_def) (simp add: demo_toml_def)
qed

theorem startup_returns_what_it_saved_witness:
  "case load_or_provision_warp demo_start demo_path demo_state of
     None \<Rightarrow> False
   | Some (s', r) \<Rightarrow> r = Inr demo_identity \<and> config_load demo_toml demo_io demo_path (ss_fs s') = (ss_fs s', Inr (Some demo_identity))"
proof -
  have wf: "identity_wf demo_identity"
    using utf8_ascii [of "[1]"] utf8_ascii [of "[2]"] by (simp add: identity_wf_def demo_identity_def ascii_def)
  have d: "\<not> i_refused demo_identity" "demo_identity\<lparr>i_refused := False\<rparr> = demo_identity" by (simp_all add: demo_identity_def)
  have t: "sw_toml demo_start = demo_toml" by (simp add: demo_start_def)
  obtain tr where "config_save demo_toml (demo_io\<lparr>io_write := None\<rparr>) 7 demo_path demo_identity (ss_fs demo_state) = (tr, Inr ())"
    by (simp add: config_save_def demo_toml_def demo_saved_def persist_def write_private_def write_and_rename_def demo_io_def demo_path_def Let_def)
  then have "snd (save_and_return demo_start 1 demo_path demo_identity demo_state) = Inr demo_identity"
    by (simp add: save_and_return_def demo_start_def)
  then obtain s' where sv: "save_and_return demo_start 1 demo_path demo_identity demo_state = (s', Inr demo_identity)"
    by (metis prod.collapse)
  have "config_load (sw_toml demo_start) (sw_io demo_start 0) demo_path (ss_fs demo_state) = (ss_fs demo_state, Inr (Some demo_identity))"
    using demo_loads by (simp add: demo_start_def)
  then have l: "load_or_provision_warp demo_start demo_path demo_state = Some (s', Inr demo_identity)"
    using sv d(1) adopt_personal [OF demo_personal [of "ss_fs demo_state"]] by (simp add: load_or_provision_warp_def)
  then show ?thesis
    using startup_returns_what_it_saved [of demo_start demo_identity demo_io demo_path demo_state s'] demo_toml_lawful wf d
    by (simp add: t demo_io_def)
qed


section \<open>Certificates at start-up\<close>

definition has_certificate :: "start_world \<Rightarrow> identity \<Rightarrow> bool" where
  "has_certificate W i \<longleftrightarrow> (\<exists>k. cert_still_usable (sw_now W k) i)"

text \<open>The clock is past the epoch and before the year 292277026596, and a generated key pair has both parts.\<close>

definition sane_world :: "start_world \<Rightarrow> bool" where
  "sane_world W \<longleftrightarrow> (\<forall>k. sw_now W k \<noteq> 0 \<and> unat (sw_now W k) < 2 ^ 63)
     \<and> (\<forall>kp. sw_keypair W = Inr kp \<longrightarrow> mk_cert_pem kp \<noteq> [] \<and> mk_key_pem kp \<noteq> [])"

lemma refresh_certificate: "refresh_profile X N i = Some j \<Longrightarrow> cert_still_usable now j = cert_still_usable now i"
proof -
  assume "refresh_profile X N i = Some j"
  then obtain r where j: "j = (case r of Inr reg \<Rightarrow> adopt_account reg i | Inl e \<Rightarrow> if is_refused e then i\<lparr>i_refused := True\<rparr> else i)"
    by (auto simp: refresh_profile_def bind_eq_Some_conv)
  show ?thesis by (cases r) (simp_all add: j adopt_account_def cert_still_usable_def Let_def)
qed

lemma adopt_certificate: "adopt_team_profile W k i s = Some (s', j) \<Longrightarrow> has_certificate W j = has_certificate W i"
  by (auto simp: adopt_team_profile_def has_certificate_def refresh_certificate bind_eq_Some_conv split: if_splits)

lemma enrolled_certificate:
  assumes "sane_world W" "ensure_masque_enrolled X N (sw_keypair W) (sw_now W a) (sw_now W b) i = Some (Inr en)"
  shows "has_certificate W (apply_masque_enrollment i en)"
proof -
  have n: "unat (sw_now W a) < 2 ^ 63" "sw_now W b \<noteq> 0" using assms(1) by (simp_all add: sane_world_def)
  have l: "(0::u64) < MASQUE_CERT_LIFETIME_SECS" by (simp add: MASQUE_CERT_LIFETIME_SECS_def)
  from enrollment_cases [OF assms(2) n(1)] consider
      (renewed) kp acc where "sw_keypair W = Inr kp" "en = \<lparr>me_cert_pem = mk_cert_pem kp, me_key_pem = mk_key_pem kp,
         me_issued_at = sw_now W b, me_renewed = True, me_assigned_endpoint = endpoint_from acc\<rparr>"
    | (kept) "en = saved_enrollment i" "cert_still_usable (sw_now W a) i \<or> cert_still_usable (sw_now W b) i" by blast
  then show ?thesis
  proof cases
    case renewed
    have "mk_cert_pem kp \<noteq> []" "mk_key_pem kp \<noteq> []" using assms(1) renewed(1) by (simp_all add: sane_world_def)
    then have "cert_still_usable (sw_now W b) (apply_masque_enrollment i en)"
      using n(2) l by (simp add: renewed(2) cert_still_usable_def apply_masque_enrollment_def)
    then show ?thesis by (auto simp: has_certificate_def)
  next
    case kept
    have "cert_still_usable now (apply_masque_enrollment i en) = cert_still_usable now i" for now
      by (simp add: kept(1) saved_enrollment_def apply_masque_enrollment_def cert_still_usable_def)
    then show ?thesis using kept(2) by (auto simp: has_certificate_def)
  qed
qed

lemma provision_masque_certificate:
  assumes "sane_world W" "provision_masque W p s = Some (s', Inr i)"
  shows "has_certificate W i"
proof -
  let ?e = "\<lambda>i. ensure_masque_enrolled (sw_api W) (sw_net W 3) (sw_keypair W) (sw_now W 2) (sw_now W 3) i"
  let ?k = "\<lambda>s i en. case en of Inl e \<Rightarrow> Some (s, Inl e)
      | Inr en \<Rightarrow> Option.bind (adopt_team_profile W 4 (apply_masque_enrollment i en) s) (\<lambda>(s, i). Some (save_and_return W 2 p i s))"
  obtain s1 r where a: "(case r of Inl e \<Rightarrow> Some (s1, Inl e) | Inr i \<Rightarrow> Option.bind (?e i) (?k s1 i)) = Some (s', Inr i)"
    using bind_pairD [OF assms(2) [unfolded provision_masque_def]] by blast
  then obtain j where "Option.bind (?e j) (?k s1 j) = Some (s', Inr i)" by (cases r) simp_all
  then obtain y where y: "?e j = Some y" "?k s1 j y = Some (s', Inr i)" unfolding bind_eq_Some_conv by blast
  then obtain en where en: "y = Inr en" by (cases y) simp_all
  then obtain s2 i2 where "adopt_team_profile W 4 (apply_masque_enrollment j en) s1 = Some (s2, i2)" "save_and_return W 2 p i2 s2 = (s', Inr i)"
    using bind_pairD [OF y(2) [unfolded en sum.case]] by auto
  then show ?thesis
    using adopt_certificate enrolled_certificate [OF assms(1) y(1) [unfolded en]] save_and_returnD(1) by blast
qed

lemma loaded_certificate:
  assumes "sane_world W" "has_masque_credentials (sw_now W k) i"
  shows "has_certificate W i"
proof -
  have "unat (sw_now W k) < 2 ^ 63" using assms(1) by (simp add: sane_world_def)
  with assms(2) not_expiring_usable show ?thesis
    by (auto simp: has_certificate_def has_masque_credentials_def cert_still_usable_def)
qed

text \<open>
  C1: MASQUE starts with a valid certificate. The identity that start-up returns for MASQUE, loaded, renewed
  or newly registered, has a certificate and a key, and the certificate had not outlived its year when the
  clock was read; unless replacing a refused identity is switched off.
\<close>

theorem masque_starts_with_certificate:
  assumes "load_or_provision_masque W p s = Some (s', Inr i)" "sane_world W" "keep_saved_identity s"
  shows "\<exists>k. cert_still_usable (sw_now W k) i"
proof -
  have r: "has_certificate W i" if "replace_refused W p j t = Some (s', Inr i)" "keep_saved_identity t" for j t
    using that provision_masque_certificate [OF assms(2), of p t s' i] by (simp add: replace_refused_def)
  from assms(1) have "has_certificate W i"
  proof (cases rule: masque_start_cases)
    case (fresh f)
    then show ?thesis by (rule provision_masque_certificate [OF assms(2)])
  next
    case (adopted f j t i2)
    then show ?thesis
      using adopt_certificate [OF adopted(2)] loaded_certificate [OF assms(2)] save_and_returnD(1) [OF adopted(4)] by simp
  next
    case (dropped f j t i2)
    then show ?thesis using r adopt_keep [OF dropped(2)] assms(3) by simp
  next
    case (enrolled f j en)
    then show ?thesis using enrolled_certificate [OF assms(2) enrolled(3)] save_and_returnD(1) [OF enrolled(2)] by simp
  next
    case (refused f j)
    then show ?thesis using r assms(3) by simp
  qed
  then show ?thesis by (simp add: has_certificate_def)
qed

theorem masque_starts_with_certificate_witness:
  "case load_or_provision_masque demo_start demo_path demo_state of
     None \<Rightarrow> False
   | Some (s', r) \<Rightarrow> r = Inr demo_identity \<and> (\<exists>k. cert_still_usable (sw_now demo_start k) demo_identity)"
proof -
  obtain tr where "config_save demo_toml (demo_io\<lparr>io_write := None\<rparr>) 7 demo_path demo_identity (ss_fs demo_state) = (tr, Inr ())"
    by (simp add: config_save_def demo_toml_def demo_saved_def persist_def write_private_def write_and_rename_def demo_io_def demo_path_def Let_def)
  then have "snd (save_and_return demo_start 1 demo_path demo_identity demo_state) = Inr demo_identity"
    by (simp add: save_and_return_def demo_start_def)
  then obtain s' where sv: "save_and_return demo_start 1 demo_path demo_identity demo_state = (s', Inr demo_identity)"
    by (metis prod.collapse)
  have c: "config_load (sw_toml demo_start) (sw_io demo_start 0) demo_path (ss_fs demo_state) = (ss_fs demo_state, Inr (Some demo_identity))"
    using demo_loads by (simp add: demo_start_def)
  have "has_masque_credentials (sw_now demo_start 4) demo_identity" "\<not> i_refused demo_identity"
    by (simp_all add: demo_start_def has_masque_credentials_def demo_identity_def masque_cert_expiring_def
        MASQUE_CERT_LIFETIME_SECS_def MASQUE_CERT_RENEW_BEFORE_SECS_def)
  then have l: "load_or_provision_masque demo_start demo_path demo_state = Some (s', Inr demo_identity)"
    using sv c adopt_personal [OF demo_personal [of "ss_fs demo_state"]] by (simp add: load_or_provision_masque_def Let_def)
  have "sane_world demo_start" by (simp add: sane_world_def demo_start_def)
  moreover have "keep_saved_identity demo_state" by (simp add: keep_saved_identity_def demo_state_def)
  ultimately show ?thesis using masque_starts_with_certificate [OF l] l by simp
qed

end
