(* ===== verification/Prober.thy ===== *)
theory Prober
  imports AddrParse
begin

text \<open>
  The search for a working gateway (\<open>prober.rs\<close>) and for a working WireGuard endpoint
  (\<open>wg_prober.rs\<close>): scan modes, address ranges, the order in which candidates are tried, and the
  selection among those that answer. Random draws, the mapping to lower case, the presence of a
  configured team and the probes themselves are parameters.
\<close>

section \<open>Tables\<close>

definition MASQUE_CIDRS_V4 :: "string list" where
  "MASQUE_CIDRS_V4 =
     [''162.159.199.0/24'', ''162.159.198.0/24'', ''162.159.197.0/24'', ''162.159.196.0/24'', ''162.159.195.0/24'',
      ''162.159.192.0/24'', ''162.159.193.0/24'', ''162.159.204.0/24'', ''172.65.251.0/24'', ''188.114.96.0/24'',
      ''188.114.97.0/24'', ''188.114.98.0/24'', ''188.114.99.0/24'', ''162.159.36.0/24'', ''162.159.46.0/24'']"

definition MASQUE_SEEDS :: "string list" where
  "MASQUE_SEEDS =
     [''162.159.199.1'', ''162.159.199.2'', ''162.159.198.2'', ''162.159.198.1'', ''162.159.197.1'', ''162.159.204.2'']"

definition MASQUE_CIDRS_V6 :: "string list" where
  "MASQUE_CIDRS_V6 = [''2606:4700:d0::/48'', ''2606:4700:102::/48'', ''2606:4700:d1::/48'']"

definition MASQUE_ZT_CIDRS_V4 :: "string list" where "MASQUE_ZT_CIDRS_V4 = [''162.159.197.0/24'']"
definition MASQUE_ZT_CIDRS_V6 :: "string list" where "MASQUE_ZT_CIDRS_V6 = [''2606:4700:102::/48'']"

definition MASQUE_SEEDS_V6 :: "string list" where
  "MASQUE_SEEDS_V6 =
     [''2606:4700:d0::a29f:c602'', ''2606:4700:d1::a29f:c602'', ''2606:4700:d0::a29f:c601'', ''2606:4700:d0::a29f:c001'']"

definition WG_PREFIXES_V4 :: "string list" where
  "WG_PREFIXES_V4 =
     [''162.159.192.0/24'', ''162.159.195.0/24'', ''188.114.96.0/24'', ''188.114.97.0/24'', ''188.114.98.0/24'',
      ''188.114.99.0/24'', ''162.159.193.0/24'']"

definition WG_PREFIXES_V6 :: "string list" where
  "WG_PREFIXES_V6 = [''2606:4700:d0::/64'', ''2606:4700:d1::/64'', ''2606:4700:100::/48'']"

definition WG_ZT_PREFIXES_V4 :: "string list" where "WG_ZT_PREFIXES_V4 = [''162.159.193.0/24'']"
definition WG_ZT_PREFIXES_V6 :: "string list" where "WG_ZT_PREFIXES_V6 = [''2606:4700:100::/48'']"

definition WG_SEEDS_V4 :: "string list" where
  "WG_SEEDS_V4 = [''162.159.192.1'', ''162.159.195.1'', ''188.114.96.1'', ''188.114.97.1'', ''162.159.193.1'']"

definition WG_SEEDS_V6 :: "string list" where
  "WG_SEEDS_V6 =
     [''2606:4700:d0::a29f:c001'', ''2606:4700:d1::a29f:c001'', ''2606:4700:d0::a29f:c301'', ''2606:4700:d0::bc72:6001'']"

text \<open>Pushing what has not been seen: the set of seen entries is always the set of entries pushed.\<close>

definition push_new :: "'a \<Rightarrow> 'a list \<Rightarrow> 'a list" where
  "push_new x out = (if x \<in> set out then out else out @ [x])"

definition push_all :: "'a list \<Rightarrow> 'a list \<Rightarrow> 'a list" where
  "push_all xs out = fold push_new xs out"

definition prioritize :: "bool \<Rightarrow> string list \<Rightarrow> string list \<Rightarrow> string list" where
  "prioritize zero_trust all first =
     (if \<not> zero_trust then all
      else push_all all (filter (\<lambda>e. e \<in> set all) first))"

datatype ip_scan = ScanV4 | ScanV6 | ScanBoth

definition ip_scan_parse :: "(string \<Rightarrow> string) \<Rightarrow> string \<Rightarrow> ip_scan" where
  "ip_scan_parse lower s =
     (let w = lower (trim s) in
      if w \<in> {''6'', ''v6'', ''ipv6''} then ScanV6 else if w \<in> {''both'', ''all'', ''dual''} then ScanBoth else ScanV4)"

definition ip_scan_label :: "ip_scan \<Rightarrow> string" where
  "ip_scan_label s = (case s of ScanV4 \<Rightarrow> ''ipv4'' | ScanV6 \<Rightarrow> ''ipv6'' | ScanBoth \<Rightarrow> ''dual-stack'')"

definition want_v4 :: "ip_scan \<Rightarrow> bool" where "want_v4 s \<longleftrightarrow> s = ScanV4 \<or> s = ScanBoth"
definition want_v6 :: "ip_scan \<Rightarrow> bool" where "want_v6 s \<longleftrightarrow> s = ScanV6 \<or> s = ScanBoth"

datatype scan_mode = Turbo | Balanced | Thorough | Stealth | Ironclad

definition scan_mode_parse :: "(string \<Rightarrow> string) \<Rightarrow> string \<Rightarrow> scan_mode" where
  "scan_mode_parse lower s =
     (let w = lower (trim s) in
      if w \<in> {''turbo'', ''fast''} then Turbo
      else if w \<in> {''thorough'', ''deep'', ''pro''} then Thorough
      else if w \<in> {''stealth'', ''quiet''} then Stealth
      else if w \<in> {''ironclad'', ''real'', ''verify'', ''guaranteed''} then Ironclad
      else Balanced)"

definition scan_mode_label :: "scan_mode \<Rightarrow> string" where
  "scan_mode_label m = (case m of Turbo \<Rightarrow> ''turbo'' | Balanced \<Rightarrow> ''balanced'' | Thorough \<Rightarrow> ''thorough''
     | Stealth \<Rightarrow> ''stealth'' | Ironclad \<Rightarrow> ''ironclad'')"

text \<open>Times in milliseconds.\<close>

record strategy =
  st_concurrency :: nat
  st_per_probe_timeout :: nat
  st_overall_deadline :: nat
  st_quiet_after_first :: nat
  st_target_successes :: nat
  st_early_exit_first :: bool
  st_full_subnet :: bool
  st_sample_per_cidr :: nat

definition mk_strategy :: "nat \<Rightarrow> nat \<Rightarrow> nat \<Rightarrow> nat \<Rightarrow> nat \<Rightarrow> bool \<Rightarrow> bool \<Rightarrow> nat \<Rightarrow> strategy" where
  "mk_strategy c t d q s e f n =
     \<lparr>st_concurrency = c, st_per_probe_timeout = t, st_overall_deadline = d, st_quiet_after_first = q,
      st_target_successes = s, st_early_exit_first = e, st_full_subnet = f, st_sample_per_cidr = n\<rparr>"

definition mode_strategy :: "scan_mode \<Rightarrow> strategy" where
  "mode_strategy m = (case m of
       Turbo \<Rightarrow> mk_strategy 20 6000 45000 0 1 True False 64
     | Balanced \<Rightarrow> mk_strategy 16 6000 120000 20000 6 False False 140
     | Thorough \<Rightarrow> mk_strategy 20 10000 300000 30000 0 False True 0
     | Stealth \<Rightarrow> mk_strategy 3 12000 180000 25000 4 False False 64
     | Ironclad \<Rightarrow> mk_strategy 4 15000 180000 15000 3 False False 140)"

record wg_strategy = strategy +
  ws_anchor_port_count :: nat
  ws_pool_port_waves :: nat

definition mk_wg_strategy :: "nat \<Rightarrow> nat \<Rightarrow> nat \<Rightarrow> nat \<Rightarrow> nat \<Rightarrow> bool \<Rightarrow> bool \<Rightarrow> nat \<Rightarrow> nat \<Rightarrow> nat \<Rightarrow> wg_strategy" where
  "mk_wg_strategy c t d q s e f n a w =
     \<lparr>st_concurrency = c, st_per_probe_timeout = t, st_overall_deadline = d, st_quiet_after_first = q,
      st_target_successes = s, st_early_exit_first = e, st_full_subnet = f, st_sample_per_cidr = n,
      ws_anchor_port_count = a, ws_pool_port_waves = w\<rparr>"

definition wg_mode_strategy :: "scan_mode \<Rightarrow> wg_strategy" where
  "wg_mode_strategy m = (case m of
       Turbo \<Rightarrow> mk_wg_strategy 12 5000 30000 0 1 True False 40 4 2
     | Balanced \<Rightarrow> mk_wg_strategy 8 7000 80000 12000 5 False False 120 4 3
     | Thorough \<Rightarrow> mk_wg_strategy 10 9000 250000 25000 0 False True 0 8 4
     | Stealth \<Rightarrow> mk_wg_strategy 3 10000 150000 20000 3 False False 50 4 2
     | Ironclad \<Rightarrow> mk_wg_strategy 4 15000 180000 15000 3 False False 120 6 3)"

section \<open>Address ranges\<close>

definition parse_cidr_v4 :: "string \<Rightarrow> (u32 \<times> nat) option" where
  "parse_cidr_v4 cidr = do {
     (ip, prefix) \<leftarrow> split_once (CHR ''/'') cidr;
     a \<leftarrow> parse_ipv4 ip;
     p \<leftarrow> parse_unsigned 255 prefix;
     Some (a, p) }"

definition enumerate_cidr_v4 :: "string \<Rightarrow> u32 list" where
  "enumerate_cidr_v4 cidr =
     (case parse_cidr_v4 cidr of
        None \<Rightarrow> []
      | Some (base, prefix) \<Rightarrow>
          (let host_bits = 32 - prefix in
           if host_bits = 0 then [base]
           else if host_bits > 12 then []
           else map (\<lambda>off. base + of_nat off) [1..<2 ^ host_bits - 1]))"

text \<open>Drawing distinct offsets until enough are there; the draws are a list.\<close>

fun sample_loop :: "nat \<Rightarrow> nat list \<Rightarrow> nat list \<Rightarrow> nat list option" where
  "sample_loop want out [] = (if length out < want then None else Some out)"
| "sample_loop want out (d # ds) =
     (if length out < want then sample_loop want (if 1 + d \<in> set out then out else out @ [1 + d]) ds
      else Some out)"

definition sample_cidr_v4 :: "string \<Rightarrow> nat \<Rightarrow> nat list \<Rightarrow> u32 list option" where
  "sample_cidr_v4 cidr n draws =
     (case parse_cidr_v4 cidr of
        None \<Rightarrow> Some []
      | Some (base, prefix) \<Rightarrow>
          (let host_bits = 32 - prefix;
               size = (if host_bits \<ge> 32 then 4294967295 else 2 ^ host_bits)
           in if size \<le> 2 then Some [base]
              else map_option (map (\<lambda>off. base + of_nat off)) (sample_loop (min (n mod 2 ^ 32) (size - 2)) [] draws)))"

definition parse_cidr_v6 :: "string \<Rightarrow> (u128 \<times> nat) option" where
  "parse_cidr_v6 cidr = do {
     (ip, prefix) \<leftarrow> split_once (CHR ''/'') cidr;
     a \<leftarrow> parse_ipv6 ip;
     p \<leftarrow> parse_unsigned 255 prefix;
     Some (a, p) }"

text \<open>
  One address of a sampled IPv6 range: the low 32 bits repeat an address of one of the IPv4 ranges. A
  draw gives a number that is reduced to the index of a range, and a random host; the subtraction under the shift wraps at 32 bits.
\<close>

definition embedded_v4 :: "(u32 \<times> nat) list \<Rightarrow> nat \<times> u32 \<Rightarrow> u32" where
  "embedded_v4 v4 draw =
     (if v4 = [] then snd draw
      else let (b, p) = v4 ! (fst draw mod length v4); host_bits = 32 - p;
               host = (if host_bits = 0 then 0 else and (snd draw) (push_bit host_bits 1 - 1))
           in or b host)"

definition sample_cidr_v6 :: "string \<Rightarrow> nat \<Rightarrow> string list \<Rightarrow> (nat \<Rightarrow> nat \<times> u32) \<Rightarrow> u128 list" where
  "sample_cidr_v6 cidr n v4_cidrs draws =
     (case parse_cidr_v6 cidr of
        None \<Rightarrow> []
      | Some (base, prefix) \<Rightarrow>
          if 128 - prefix = 0 then [base]
          else let v4 = List.map_filter parse_cidr_v4 v4_cidrs
               in map (\<lambda>i. or base (ucast (embedded_v4 v4 (draws i)))) [0..<n])"

text \<open>
  A sample has as many distinct hosts as were asked for, all of them inside the range, and drawing
  ends as soon as every host of the range has come up.
\<close>

lemma sample_loop_sound:
  "sample_loop want out draws = Some r \<Longrightarrow> distinct out \<Longrightarrow> length out \<le> want \<Longrightarrow> set draws \<subseteq> {..<usable} \<Longrightarrow> set out \<subseteq> {1..usable}
     \<Longrightarrow> distinct r \<and> length r = want \<and> set r \<subseteq> {1..usable}"
  by (induction draws arbitrary: out) (auto split: if_splits)

lemma sample_loop_returns:
  "{1..usable} \<subseteq> set out \<union> Suc ` set draws \<Longrightarrow> want \<le> usable \<Longrightarrow> \<exists>r. sample_loop want out draws = Some r"
proof (induction draws arbitrary: out)
  case Nil
  then have "card {1..usable} \<le> card (set out)" by (intro card_mono) auto
  then show ?case using Nil.prems(2) card_length [of out] by auto
next
  case (Cons d ds)
  have "\<exists>r. sample_loop want (if 1 + d \<in> set out then out else out @ [1 + d]) ds = Some r"
    by (rule Cons.IH) (use Cons.prems in \<open>auto split: if_splits\<close>)
  then show ?case by simp
qed

section \<open>Candidates\<close>

definition round_robin :: "'a list list \<Rightarrow> 'a list" where
  "round_robin hss = concat (map (\<lambda>i. List.map_filter (\<lambda>hs. get_at hs i) hss) [0..<foldr max (map length hss) 0])"

definition ports_primary :: "u16 list \<Rightarrow> u16" where
  "ports_primary ports = (case ports of [] \<Rightarrow> 443 | p # _ \<Rightarrow> p)"

definition seeds_v4 :: "u32 list" where "seeds_v4 = List.map_filter parse_ipv4 MASQUE_SEEDS"
definition seeds_v6 :: "u128 list" where "seeds_v6 = List.map_filter parse_ipv6 MASQUE_SEEDS_V6"

text \<open>
  \<open>d4\<close> and \<open>d6\<close> are the random draws for a range. A range whose draws end before enough different hosts
  came up contributes nothing; \<open>sample_loop_returns\<close> says when that cannot happen.
\<close>

definition drawn_v4 :: "(string \<Rightarrow> nat list) \<Rightarrow> string \<Rightarrow> nat \<Rightarrow> u32 list" where
  "drawn_v4 d4 c n = (case sample_cidr_v4 c n (d4 c) of Some hosts \<Rightarrow> hosts | None \<Rightarrow> [])"

definition drawn_v6 :: "string list \<Rightarrow> (string \<Rightarrow> nat \<Rightarrow> nat \<times> u32) \<Rightarrow> string \<Rightarrow> nat \<Rightarrow> u128 list" where
  "drawn_v6 v4_cidrs d6 c n = sample_cidr_v6 c n v4_cidrs (d6 c)"

definition build_candidates ::
  "bool \<Rightarrow> (string \<Rightarrow> nat list) \<Rightarrow> (string \<Rightarrow> nat \<Rightarrow> nat \<times> u32) \<Rightarrow> strategy \<Rightarrow> u16 list \<Rightarrow> ip_scan \<Rightarrow> (ip_addr \<times> u16) list" where
  "build_candidates zero_trust d4 d6 st ports ip =
     (let primary = ports_primary ports;
          out = (if want_v4 ip then push_all (map (\<lambda>a. (V4 a, primary)) seeds_v4) [] else []);
          out = (if want_v6 ip then push_all (map (\<lambda>a. (V6 a, primary)) seeds_v6) out else out);
          out = (if want_v4 ip then push_all (concat (map (\<lambda>a. map (\<lambda>p. (V4 a, p)) (filter (\<lambda>p. p \<noteq> primary) ports)) seeds_v4)) out else out);
          out = (if want_v6 ip then push_all (concat (map (\<lambda>a. map (\<lambda>p. (V6 a, p)) (filter (\<lambda>p. p \<noteq> primary) ports)) seeds_v6)) out else out);
          out = (if want_v4 ip then
                   push_all (map (\<lambda>a. (V4 a, primary))
                     (round_robin (map (\<lambda>c. if st_full_subnet st then enumerate_cidr_v4 c else drawn_v4 d4 c (st_sample_per_cidr st))
                       (prioritize zero_trust MASQUE_CIDRS_V4 MASQUE_ZT_CIDRS_V4)))) out
                 else out);
          per = (if st_sample_per_cidr st = 0 then 96 else st_sample_per_cidr st)
      in if want_v6 ip then
           push_all (map (\<lambda>a. (V6 a, primary))
             (round_robin (map (\<lambda>c. drawn_v6 MASQUE_CIDRS_V4 d6 c per) (prioritize zero_trust MASQUE_CIDRS_V6 MASQUE_ZT_CIDRS_V6)))) out
         else out)"

definition wg_ports :: "u16 list \<Rightarrow> u16 list" where
  "wg_ports ports = (let deduped = push_all ports [] in if deduped = [] then [2408] else deduped)"

definition wg_anchors :: "bool \<Rightarrow> ip_scan \<Rightarrow> ip_addr list" where
  "wg_anchors zero_trust ip =
     (if want_v4 ip then map V4 (List.map_filter parse_ipv4 (prioritize zero_trust WG_SEEDS_V4 [''162.159.193.1''])) else [])
     @ (if want_v6 ip then map V6 (List.map_filter parse_ipv6 WG_SEEDS_V6) else [])"

definition wg_pool ::
  "bool \<Rightarrow> (string \<Rightarrow> nat list) \<Rightarrow> (string \<Rightarrow> nat \<Rightarrow> nat \<times> u32) \<Rightarrow> wg_strategy \<Rightarrow> ip_scan \<Rightarrow> ip_addr list" where
  "wg_pool zero_trust d4 d6 st ip =
     (if want_v4 ip then
        map V4 (round_robin (map (\<lambda>c. if st_full_subnet st then enumerate_cidr_v4 c else drawn_v4 d4 c (st_sample_per_cidr st))
          (prioritize zero_trust WG_PREFIXES_V4 WG_ZT_PREFIXES_V4)))
      else [])
     @ (if want_v6 ip then
          map V6 (round_robin (map (\<lambda>c. drawn_v6 WG_PREFIXES_V4 d6 c (if st_sample_per_cidr st = 0 then 80 else st_sample_per_cidr st))
            (prioritize zero_trust WG_PREFIXES_V6 WG_ZT_PREFIXES_V6)))
        else [])"

definition build_wg_candidates ::
  "bool \<Rightarrow> (string \<Rightarrow> nat list) \<Rightarrow> (string \<Rightarrow> nat \<Rightarrow> nat \<times> u32) \<Rightarrow> wg_strategy \<Rightarrow> u16 list \<Rightarrow> ip_scan
     \<Rightarrow> (ip_addr \<times> u16) list \<Rightarrow> (ip_addr \<times> u16) list" where
  "build_wg_candidates zero_trust d4 d6 st ports ip excluded =
     (let ports = wg_ports ports;
          pool = wg_pool zero_trust d4 d6 st ip;
          tries = concat (map (\<lambda>port. map (\<lambda>a. (a, port)) (wg_anchors zero_trust ip)) (take (max (ws_anchor_port_count st) 1) ports))
            @ concat (map (\<lambda>wave. map (\<lambda>i. (pool ! i, ports ! ((i + wave) mod length ports))) [0..<length pool])
                [0..<max (ws_pool_port_waves st) 1])
      in push_all (filter (\<lambda>x. x \<notin> set excluded) tries) [])"


section \<open>Selection\<close>

record probe_result =
  pb_ip :: ip_addr
  pb_port :: u16
  pb_rtt :: nat

text \<open>What a turn of the loop sees: the stream of probes ends, fails once, succeeds once, or the wait is over.\<close>

datatype hunt_event = StreamEnd | ProbeFailed | ProbeOk probe_result nat | WaitOver

definition hunt_finish :: "probe_result option \<Rightarrow> probe_result result" where
  "hunt_finish best = (case best of Some pr \<Rightarrow> Inr pr | None \<Rightarrow> Inl ErrNoCleanEndpoint)"

definition better :: "probe_result option \<Rightarrow> probe_result \<Rightarrow> probe_result" where
  "better best pr = (case best of Some cur \<Rightarrow> if pb_rtt cur \<le> pb_rtt pr then cur else pr | None \<Rightarrow> pr)"

fun hunt_loop ::
  "'a strategy_scheme \<Rightarrow> nat \<Rightarrow> probe_result option \<Rightarrow> nat \<Rightarrow> nat option \<Rightarrow> (nat \<times> hunt_event) list \<Rightarrow> probe_result result option" where
  "hunt_loop st deadline best found quiet [] = None"
| "hunt_loop st deadline best found quiet ((now, ev) # obs) =
     (let effective = (case quiet of Some q \<Rightarrow> min q deadline | None \<Rightarrow> deadline) in
      if effective - now = 0 then Some (hunt_finish best)
      else (case ev of
          StreamEnd \<Rightarrow> Some (hunt_finish best)
        | ProbeFailed \<Rightarrow> hunt_loop st deadline best found quiet obs
        | WaitOver \<Rightarrow> Some (hunt_finish best)
        | ProbeOk pr now' \<Rightarrow>
            if st_early_exit_first st then Some (Inr pr)
            else
              let best = Some (better best pr); found = found + 1 in
              if st_target_successes st > 0 \<and> found \<ge> st_target_successes st \<and> quiet = None then
                (if st_quiet_after_first st \<noteq> 0
                 then hunt_loop st deadline best found (Some (now' + st_quiet_after_first st)) obs
                 else Some (hunt_finish best))
              else hunt_loop st deadline best found quiet obs))"

definition hunt_best :: "'a strategy_scheme \<Rightarrow> nat \<Rightarrow> (nat \<times> hunt_event) list \<Rightarrow> probe_result result option" where
  "hunt_best st start obs = hunt_loop st (start + st_overall_deadline st) None 0 None obs"

definition effective_scan :: "bool \<Rightarrow> ip_scan \<Rightarrow> ip_scan result" where
  "effective_scan host_has_ipv6 ip =
     (if want_v6 ip \<and> \<not> host_has_ipv6
      then (if want_v4 ip then Inr ScanV4 else Inl ErrNoCleanEndpoint)
      else Inr ip)"

text \<open>\<open>probe\<close> is what the probes of a list of candidates do, and when.\<close>

definition hunt_best_gateway ::
  "bool \<Rightarrow> bool \<Rightarrow> (string \<Rightarrow> nat list) \<Rightarrow> (string \<Rightarrow> nat \<Rightarrow> nat \<times> u32) \<Rightarrow> scan_mode \<Rightarrow> u16 list \<Rightarrow> ip_scan
     \<Rightarrow> ((ip_addr \<times> u16) list \<Rightarrow> (nat \<times> hunt_event) list) \<Rightarrow> nat \<Rightarrow> probe_result result option" where
  "hunt_best_gateway zero_trust host_has_ipv6 d4 d6 mode ports ip probe start =
     (case effective_scan host_has_ipv6 ip of
        Inl e \<Rightarrow> Some (Inl e)
      | Inr ip' \<Rightarrow> hunt_best (mode_strategy mode) start (probe (build_candidates zero_trust d4 d6 (mode_strategy mode) ports ip')))"

definition hunt_best_wg_endpoint ::
  "bool \<Rightarrow> bool \<Rightarrow> (string \<Rightarrow> nat list) \<Rightarrow> (string \<Rightarrow> nat \<Rightarrow> nat \<times> u32) \<Rightarrow> scan_mode \<Rightarrow> u16 list \<Rightarrow> ip_scan
     \<Rightarrow> (ip_addr \<times> u16) list \<Rightarrow> ((ip_addr \<times> u16) list \<Rightarrow> (nat \<times> hunt_event) list) \<Rightarrow> nat \<Rightarrow> probe_result result option" where
  "hunt_best_wg_endpoint zero_trust host_has_ipv6 d4 d6 mode ports ip excluded probe start =
     (case effective_scan host_has_ipv6 ip of
        Inl e \<Rightarrow> Some (Inl e)
      | Inr ip' \<Rightarrow> hunt_best (wg_mode_strategy mode) start
                   (probe (build_wg_candidates zero_trust d4 d6 (wg_mode_strategy mode) ports ip' excluded)))"

fun answers :: "(nat \<times> hunt_event) list \<Rightarrow> probe_result list" where
  "answers [] = []"
| "answers ((now, ProbeOk pr now') # obs) = pr # answers obs"
| "answers (_ # obs) = answers obs"

definition fastest_of :: "probe_result option \<Rightarrow> probe_result list \<Rightarrow> bool" where
  "fastest_of best seen \<longleftrightarrow>
     (case best of None \<Rightarrow> seen = [] | Some b \<Rightarrow> b \<in> set seen \<and> (\<forall>q \<in> set seen. pb_rtt b \<le> pb_rtt q))"

lemma fastest_of_better: "fastest_of best seen \<Longrightarrow> fastest_of (Some (better best pr)) (seen @ [pr])"
  by (auto simp: fastest_of_def better_def split: option.splits)

lemma answers_append: "answers (xs @ ys) = answers xs @ answers ys"
  by (induction xs rule: answers.induct) auto

lemma hunt_loop_spec:
  "\<not> st_early_exit_first st \<Longrightarrow> fastest_of best seen \<Longrightarrow> \<exists>o' \<in> set obs. deadline \<le> fst o' \<Longrightarrow>
     \<exists>k best'. hunt_loop st deadline best found quiet obs = Some (hunt_finish best') \<and> fastest_of best' (seen @ answers (take k obs))"
proof (induction obs arbitrary: best found quiet seen)
  case (Cons ob obs)
  obtain now ev where o: "ob = (now, ev)" by (cases ob)
  define eff where "eff = (case quiet of Some q \<Rightarrow> min q deadline | None \<Rightarrow> deadline)"
  have here: "\<exists>k best'. Some (hunt_finish best) = Some (hunt_finish best') \<and> fastest_of best' (seen @ answers (take k (ob # obs)))"
    using Cons.prems(2) by (intro exI [of _ 0] exI [of _ best]) simp
  show ?case
  proof (cases "eff - now = 0")
    case True
    then show ?thesis using here o by (simp add: Let_def eff_def)
  next
    case False
    then have "now < deadline" by (auto simp: eff_def split: option.splits)
    then have later: "\<exists>o' \<in> set obs. deadline \<le> fst o'" using Cons.prems(3) o by auto
    show ?thesis
    proof (cases ev)
      case (ProbeOk pr now')
      let ?best = "Some (better best pr)"
      have f: "fastest_of ?best (seen @ [pr])" by (rule fastest_of_better [OF Cons.prems(2)])
      have go: "\<exists>k best'. hunt_loop st deadline ?best n q obs = Some (hunt_finish best')
          \<and> fastest_of best' (seen @ answers (take k (ob # obs)))" for n q
      proof -
        from Cons.IH [OF Cons.prems(1) f later, of n q] obtain k best' where
          "hunt_loop st deadline ?best n q obs = Some (hunt_finish best')" "fastest_of best' ((seen @ [pr]) @ answers (take k obs))" by blast
        then show ?thesis using o ProbeOk by (intro exI [of _ "Suc k"] exI [of _ best']) simp
      qed
      have stop: "\<exists>k best'. Some (hunt_finish ?best) = Some (hunt_finish best') \<and> fastest_of best' (seen @ answers (take k (ob # obs)))"
        using f o ProbeOk by (intro exI [of _ 1] exI [of _ ?best]) simp
      show ?thesis using False Cons.prems(1) go stop o ProbeOk by (simp add: Let_def eff_def)
    next
      case ProbeFailed
      from Cons.IH [OF Cons.prems(1,2) later, of found quiet] obtain k best' where
        "hunt_loop st deadline best found quiet obs = Some (hunt_finish best')" "fastest_of best' (seen @ answers (take k obs))" by blast
      then show ?thesis using False o ProbeFailed by (intro exI [of _ "Suc k"] exI [of _ best']) (simp add: Let_def eff_def)
    qed (use False here o in \<open>simp_all add: Let_def eff_def\<close>)
  qed
qed simp

definition fastest_result :: "(nat \<times> hunt_event) list \<Rightarrow> probe_result result \<Rightarrow> bool" where
  "fastest_result obs r \<longleftrightarrow> (\<exists>k. case r of
        Inl e \<Rightarrow> e = ErrNoCleanEndpoint \<and> answers (take k obs) = []
      | Inr pr \<Rightarrow> pr \<in> set (answers (take k obs)) \<and> (\<forall>q \<in> set (answers (take k obs)). pb_rtt pr \<le> pb_rtt q))"

lemma hunt_best_fastest:
  assumes "\<not> st_early_exit_first st" "\<exists>o' \<in> set obs. start + st_overall_deadline st \<le> fst o'"
  shows "\<exists>r. hunt_best st start obs = Some r \<and> fastest_result obs r"
proof -
  have "fastest_of None []" by (simp add: fastest_of_def)
  from hunt_loop_spec [OF assms(1) this assms(2), of 0 None] obtain k best where
    "hunt_best st start obs = Some (hunt_finish best)" "fastest_of best (answers (take k obs))"
    by (auto simp: hunt_best_def)
  then show ?thesis unfolding fastest_result_def
    by (intro exI [of _ "hunt_finish best"] conjI exI [of _ k]) (auto simp: hunt_finish_def fastest_of_def split: option.splits)
qed

lemma early_exit_modes:
  "st_early_exit_first (mode_strategy mode) \<longleftrightarrow> mode = Turbo" "st_early_exit_first (wg_mode_strategy mode) \<longleftrightarrow> mode = Turbo"
  by (cases mode; simp add: mode_strategy_def mk_strategy_def wg_mode_strategy_def mk_wg_strategy_def)+

definition search_result :: "bool \<Rightarrow> ip_scan \<Rightarrow> (ip_scan \<Rightarrow> (nat \<times> hunt_event) list) \<Rightarrow> probe_result result \<Rightarrow> bool" where
  "search_result host_has_ipv6 ip run r \<longleftrightarrow>
     (if ip = ScanV6 \<and> \<not> host_has_ipv6 then r = Inl ErrNoCleanEndpoint
      else fastest_result (run (if host_has_ipv6 then ip else ScanV4)) r)"

lemma effective_scan_cases:
  "effective_scan v6 ip = (if ip = ScanV6 \<and> \<not> v6 then Inl ErrNoCleanEndpoint else Inr (if v6 then ip else ScanV4))"
  by (cases ip) (auto simp: effective_scan_def want_v4_def want_v6_def)

lemma hunt_front:
  assumes "\<And>ip'. \<exists>r. f ip' = Some r \<and> fastest_result (g ip') r"
  shows "\<exists>r. (case effective_scan v6 ip of Inl e \<Rightarrow> Some (Inl e) | Inr ip' \<Rightarrow> f ip') = Some r \<and> search_result v6 ip g r"
  using assms [of "if v6 then ip else ScanV4"] by (auto simp: effective_scan_cases search_result_def)


definition sample_run :: "(ip_addr \<times> u16) list \<Rightarrow> (nat \<times> hunt_event) list" where
  "sample_run cs = [(5, ProbeOk \<lparr>pb_ip = V4 1, pb_port = 443, pb_rtt = 80\<rparr> 6), (130000, WaitOver)]"



section \<open>The order of the candidates\<close>

lemma push_all_Nil [simp]: "push_all [] out = out"
  by (simp add: push_all_def)

lemma push_all_append: "push_all (xs @ ys) out = push_all ys (push_all xs out)"
  by (simp add: push_all_def)

lemma push_all_props:
  "set (push_all xs out) = set out \<union> set xs \<and> (distinct out \<longrightarrow> distinct (push_all xs out))
     \<and> (\<exists>zs. push_all xs out = out @ zs \<and> set zs \<subseteq> set xs)"
proof (induction xs arbitrary: out)
  case (Cons x xs)
  have "push_all (x # xs) out = push_all xs (push_new x out)" by (simp add: push_all_def)
  moreover have "set (push_new x out) = insert x (set out)" "distinct out \<longrightarrow> distinct (push_new x out)"
    by (auto simp: push_new_def)
  moreover have "\<exists>ws. push_new x out = out @ ws \<and> set ws \<subseteq> {x}"
    by (cases "x \<in> set out") (auto simp: push_new_def)
  moreover obtain zs where "push_all xs (push_new x out) = push_new x out @ zs" "set zs \<subseteq> set xs"
    using Cons.IH [of "push_new x out"] by blast
  ultimately show ?case using Cons.IH [of "push_new x out"] by auto
qed simp

lemmas set_push_all = push_all_props [THEN conjunct1]
lemmas distinct_push_all = push_all_props [THEN conjunct2, THEN conjunct1, THEN mp]
lemmas push_all_prefix = push_all_props [THEN conjunct2, THEN conjunct2]

text \<open>The seeds on every port, and the sweep, as one list each.\<close>

definition seed_tries :: "u16 list \<Rightarrow> ip_scan \<Rightarrow> (ip_addr \<times> u16) list" where
  "seed_tries ports ip =
     (let primary = ports_primary ports; others = filter (\<lambda>p. p \<noteq> primary) ports;
          v4 = (if want_v4 ip then map V4 seeds_v4 else []); v6 = (if want_v6 ip then map V6 seeds_v6 else [])
      in map (\<lambda>a. (a, primary)) (v4 @ v6) @ concat (map (\<lambda>a. map (\<lambda>p. (a, p)) others) (v4 @ v6)))"

definition seed_addrs :: "ip_scan \<Rightarrow> ip_addr set" where
  "seed_addrs ip = (if want_v4 ip then V4 ` set seeds_v4 else {}) \<union> (if want_v6 ip then V6 ` set seeds_v6 else {})"

lemma set_seed_tries: "set (seed_tries ports ip) = seed_addrs ip \<times> insert (ports_primary ports) (set ports)"
proof -
  define v where "v = (if want_v4 ip then map V4 seeds_v4 else []) @ (if want_v6 ip then map V6 seeds_v6 else [])"
  have "seed_addrs ip = set v" by (auto simp: seed_addrs_def v_def)
  moreover have "set (seed_tries ports ip) = (\<lambda>a. (a, ports_primary ports)) ` set v \<union> set v \<times> {p \<in> set ports. p \<noteq> ports_primary ports}"
    unfolding seed_tries_def Let_def v_def [symmetric] by auto
  ultimately show ?thesis by auto
qed

lemma build_candidates_phases:
  "\<exists>sweep. build_candidates zt d4 d6 st ports ip = push_all sweep (push_all (seed_tries ports ip) [])
     \<and> (\<forall>x \<in> set sweep. snd x = ports_primary ports)"
proof -
  let ?p = "ports_primary ports"
  let ?v4 = "if want_v4 ip then map (\<lambda>a. (V4 a, ?p)) (round_robin (map (\<lambda>c. if st_full_subnet st then enumerate_cidr_v4 c else drawn_v4 d4 c (st_sample_per_cidr st))
                       (prioritize zt MASQUE_CIDRS_V4 MASQUE_ZT_CIDRS_V4))) else []"
  let ?v6 = "if want_v6 ip then map (\<lambda>a. (V6 a, ?p)) (round_robin (map (\<lambda>c. drawn_v6 MASQUE_CIDRS_V4 d6 c (if st_sample_per_cidr st = 0 then 96 else st_sample_per_cidr st))
                       (prioritize zt MASQUE_CIDRS_V6 MASQUE_ZT_CIDRS_V6))) else []"
  have "build_candidates zt d4 d6 st ports ip = push_all (?v4 @ ?v6) (push_all (seed_tries ports ip) [])"
    by (simp add: build_candidates_def seed_tries_def Let_def push_all_append o_def)
  moreover have "\<forall>x \<in> set (?v4 @ ?v6). snd x = ?p" by auto
  ultimately show ?thesis by blast
qed

lemma length_wg_ports: "wg_ports ports \<noteq> []"
  by (simp add: wg_ports_def Let_def)

lemma wave_covers:
  assumes "i < length pool" "a = pool ! i" "0 < n"
  shows "(a, ports ! (i mod length ports))
    \<in> set (concat (map (\<lambda>wave. map (\<lambda>i. (pool ! i, ports ! ((i + wave) mod length ports))) [0..<length pool]) [0..<n]))"
proof -
  let ?w = "\<lambda>wave. map (\<lambda>i. (pool ! i, ports ! ((i + wave) mod length ports))) [0..<length pool]"
  have "(a, ports ! (i mod length ports)) = ?w 0 ! i" using assms(1,2) by simp
  then have "(a, ports ! (i mod length ports)) \<in> set (?w 0)" using nth_mem [of i "?w 0"] assms(1) by simp
  moreover have "?w 0 \<in> set (map ?w [0..<n])" unfolding set_map using assms(3) by (intro imageI) simp
  ultimately show ?thesis unfolding set_concat by blast
qed

lemma build_candidates_ordered:
  "let out = build_candidates zt d4 d6 st ports ip
   in distinct out
     \<and> (\<exists>known sweep. out = known @ sweep \<and> set known = seed_addrs ip \<times> insert (ports_primary ports) (set ports)
          \<and> (\<forall>x \<in> set sweep. snd x = ports_primary ports))"
proof -
  define out where "out = build_candidates zt d4 d6 st ports ip"
  let ?known = "push_all (seed_tries ports ip) []"
  obtain sweep where o: "out = push_all sweep ?known" "\<forall>x \<in> set sweep. snd x = ports_primary ports"
    unfolding out_def using build_candidates_phases by blast
  have "distinct out" unfolding o by (intro distinct_push_all) simp
  moreover obtain zs where "out = ?known @ zs" "set zs \<subseteq> set sweep"
    using push_all_prefix [of sweep ?known] o(1) by metis
  moreover have "set ?known = seed_addrs ip \<times> insert (ports_primary ports) (set ports)"
    by (simp add: set_push_all set_seed_tries)
  ultimately show ?thesis unfolding Let_def out_def [symmetric] using o(2) by blast
qed

lemma build_wg_candidates_ordered:
  "let wg = build_wg_candidates zt d4 d6 st ports ip excluded
   in distinct wg \<and> set wg \<inter> set excluded = {}
     \<and> (\<exists>known sweep. wg = known @ sweep
          \<and> set known = set (wg_anchors zt ip) \<times> set (take (max (ws_anchor_port_count st) 1) (wg_ports ports)) - set excluded)
     \<and> (\<forall>a \<in> set (wg_pool zt d4 d6 st ip). \<exists>p \<in> set (wg_ports ports). (a, p) \<in> set wg \<or> (a, p) \<in> set excluded)"
proof -
  define wg where "wg = build_wg_candidates zt d4 d6 st ports ip excluded"
  let ?ports = "wg_ports ports" and ?pool = "wg_pool zt d4 d6 st ip"
  define known where "known = concat (map (\<lambda>port. map (\<lambda>a. (a, port)) (wg_anchors zt ip)) (take (max (ws_anchor_port_count st) 1) ?ports))"
  define waves where "waves = concat (map (\<lambda>wave. map (\<lambda>i. (?pool ! i, ?ports ! ((i + wave) mod length ?ports))) [0..<length ?pool]) [0..<max (ws_pool_port_waves st) 1])"
  let ?ok = "filter (\<lambda>x. x \<notin> set excluded)"
  have w: "wg = push_all (?ok waves) (push_all (?ok known) [])"
    by (simp add: wg_def build_wg_candidates_def Let_def push_all_append known_def waves_def)
  then have s: "set wg = set known \<union> set waves - set excluded" by (auto simp: set_push_all)
  have "distinct wg" unfolding w by (intro distinct_push_all) simp
  moreover have "set wg \<inter> set excluded = {}" using s by auto
  moreover obtain zs where "wg = push_all (?ok known) [] @ zs" using push_all_prefix w by metis
  moreover have "set (push_all (?ok known) []) = set (wg_anchors zt ip) \<times> set (take (max (ws_anchor_port_count st) 1) ?ports) - set excluded"
    by (auto simp: set_push_all known_def)
  moreover have "\<exists>p \<in> set ?ports. (a, p) \<in> set wg \<or> (a, p) \<in> set excluded" if "a \<in> set ?pool" for a
  proof -
    obtain i where i: "i < length ?pool" "?pool ! i = a" using \<open>a \<in> set ?pool\<close> by (auto simp: in_set_conv_nth)
    have "?ports ! (i mod length ?ports) \<in> set ?ports" using length_wg_ports [of ports] by (intro nth_mem mod_less_divisor) simp
    moreover have "(a, ?ports ! (i mod length ?ports)) \<in> set waves" unfolding waves_def by (rule wave_covers) (use i in simp_all)
    ultimately show ?thesis using s by blast
  qed
  ultimately show ?thesis unfolding Let_def wg_def [symmetric] by blast
qed



end
