(* ===== verification/Dial.thy ===== *)
theory Dial
  imports Lifecycle Prober "HOL-Library.Multiset"
begin

text \<open>
  Finding a MASQUE gateway at start-up (\<open>main.rs\<close>): the ladder of gateways, the switch to HTTP/2
  (\<open>masque_h2.rs\<close>), the passes over the candidates with their count of rejected identities, the renewal of a
  refused certificate, the search with its fallback, and the cache of gateways.

  Verifying a gateway is a parameter: the outcome of the \<open>n\<close>-th verification, given the transport, the
  identity and the address. So are the search of \<open>Prober\<close> and the check of several gateways at once.
\<close>

section \<open>Options\<close>

datatype protocol = Masque | MasqueInMasque | WireGuard | WarpInWarp | Psiphon

definition protocol_parse :: "(string \<Rightarrow> string) \<Rightarrow> string \<Rightarrow> protocol" where
  "protocol_parse lower s =
     (let v = lower (trim s) in
      if v \<in> {''mim'', ''m2'', ''masque-in-masque'', ''masqueinmasque''} then MasqueInMasque
      else if v \<in> {''wg'', ''wireguard''} then WireGuard
      else if v \<in> {''gool'', ''wiw'', ''warp-in-warp'', ''warpinwarp''} then WarpInWarp
      else if v = ''psiphon'' then Psiphon
      else Masque)"

definition protocol_label :: "protocol \<Rightarrow> string" where
  "protocol_label p = (case p of
       Masque \<Rightarrow> ''MASQUE'' | MasqueInMasque \<Rightarrow> ''MASQUE-in-MASQUE'' | WireGuard \<Rightarrow> ''WireGuard''
     | WarpInWarp \<Rightarrow> ''WARP-in-WARP (gool)'' | Psiphon \<Rightarrow> ''Psiphon'')"

datatype masque_transport = H3 | H2

definition masque_transport_parse :: "(string \<Rightarrow> string) \<Rightarrow> string \<Rightarrow> masque_transport" where
  "masque_transport_parse lower s = (if lower (trim s) \<in> {''h2'', ''http2'', ''http/2''} then H2 else H3)"

datatype endpoint_discovery = DiscoverCache | DiscoverFresh

definition endpoint_discovery_parse :: "(string \<Rightarrow> string) \<Rightarrow> string \<Rightarrow> endpoint_discovery" where
  "endpoint_discovery_parse lower s = (if lower (trim s) \<in> {''fresh'', ''fresh_scan''} then DiscoverFresh else DiscoverCache)"

datatype tls_curve_preset = CurveChrome | CurveCompatibility

definition tls_curve_preset_parse :: "(string \<Rightarrow> string) \<Rightarrow> string \<Rightarrow> tls_curve_preset" where
  "tls_curve_preset_parse lower s = (if lower (trim s) \<in> {''compatibility'', ''compatible''} then CurveCompatibility else CurveChrome)"

definition parse_local_v4 :: "string \<Rightarrow> u32" where
  "parse_local_v4 s = (case parse_ipv4 (hd (split_char CHR ''/'' s)) of Some a \<Rightarrow> a | None \<Rightarrow> 0)"

definition address_host :: "string \<Rightarrow> string" where
  "address_host raw = trim (hd (split_char CHR ''/'' raw))"

text \<open>A positive number of seconds from the environment, or the default.\<close>

definition env_secs :: "(string \<rightharpoonup> string) \<Rightarrow> string \<Rightarrow> nat \<Rightarrow> nat" where
  "env_secs env key dflt =
     (case Option.bind (env key) (parse_unsigned (2 ^ 64 - 1)) of Some v \<Rightarrow> if v > 0 then v else dflt | None \<Rightarrow> dflt)"

definition masque_reconnect_delay :: "(string \<rightharpoonup> string) \<Rightarrow> nat" where
  "masque_reconnect_delay env = env_secs env ''AETHER_MASQUE_RECONNECT_SECS'' 2"

definition masque_startup_timeout :: "(string \<rightharpoonup> string) \<Rightarrow> nat" where
  "masque_startup_timeout env = env_secs env ''AETHER_MASQUE_STARTUP_SECS'' 10"


section \<open>The ladder\<close>

definition QUIC_PORT :: u16 where "QUIC_PORT = 443"
definition MASQUE_VERIFIED_GATEWAYS :: "string list" where
  "MASQUE_VERIFIED_GATEWAYS = [''162.159.199.1'', ''162.159.199.2'', ''162.159.198.2'', ''162.159.198.1'']"
definition MASQUE_ALT_PORTS :: "u16 list" where "MASQUE_ALT_PORTS = [1701, 8095, 500, 4500]"
definition MASQUE_PORTS :: "u16 list" where "MASQUE_PORTS = [443, 500, 1701, 4500, 4443, 8443, 8095]"
definition IDENTITY_REJECTED_LIMIT :: nat where "IDENTITY_REJECTED_LIMIT = 2"
definition MASQUE_H3_PROBE_LIMIT :: nat where "MASQUE_H3_PROBE_LIMIT = 12"
definition MASQUE_H2_PROBE_LIMIT :: nat where "MASQUE_H2_PROBE_LIMIT = 4"

definition at_port :: "u16 \<Rightarrow> u32 \<Rightarrow> socket_addr" where
  "at_port port ip = \<lparr>sa_ip = V4 ip, sa_port = port\<rparr>"

definition cidr_gateways :: "string \<Rightarrow> socket_addr list" where
  "cidr_gateways cidr =
     (case parse_ipv4 (hd (split_char CHR ''/'' cidr)) of
        None \<Rightarrow> []
      | Some base \<Rightarrow> map (\<lambda>h. at_port QUIC_PORT (v4_new (v4_octets base ! 0) (v4_octets base ! 1) (v4_octets base ! 2) h)) [1, 2])"

definition masque_gateway_peers :: "bool \<Rightarrow> socket_addr list" where
  "masque_gateway_peers zero_trust =
     (let verified = List.map_filter parse_ipv4 MASQUE_VERIFIED_GATEWAYS;
          out = push_all (map (at_port QUIC_PORT) verified) [];
          alt_gateways = (if length MASQUE_ALT_PORTS = 0 then 0
                          else (MASQUE_H3_PROBE_LIMIT - length verified) div length MASQUE_ALT_PORTS);
          out = push_all (concat (map (\<lambda>port. map (at_port port) (take alt_gateways verified)) MASQUE_ALT_PORTS)) out;
          out = push_all (map (at_port QUIC_PORT) (List.map_filter parse_ipv4 MASQUE_SEEDS)) out
      in push_all (concat (map cidr_gateways (prioritize zero_trust MASQUE_CIDRS_V4 MASQUE_ZT_CIDRS_V4))) out)"

definition masque_h2_gateway_peers :: "bool \<Rightarrow> socket_addr list" where
  "masque_h2_gateway_peers zero_trust = filter (\<lambda>p. sa_port p = QUIC_PORT) (masque_gateway_peers zero_trust)"

definition masque_h2_ports :: "u16 list \<Rightarrow> u16 list" where
  "masque_h2_ports base = push_all [2053, 2083, 2087, 2096, 8880] base"

definition assigned_masque_peer :: "identity \<Rightarrow> socket_addr option" where
  "assigned_masque_peer i =
     (let host = trim (i_assigned_endpoint i) in
      if host = [] then None
      else case parse_socket_addr host of Some a \<Rightarrow> Some a | None \<Rightarrow> parse_socket_addr (host @ '':443''))"


section \<open>The transport\<close>

record h2_flags =
  h2_preferred :: bool
  h2_fallback :: bool

definition h2_env :: "(string \<Rightarrow> string) \<Rightarrow> (string \<rightharpoonup> string) \<Rightarrow> bool" where
  "h2_env lower env =
     (case env ''AETHER_MASQUE_HTTP2'' of
        Some v \<Rightarrow> lower (trim v) \<in> {''1'', ''true'', ''h2'', ''yes'', ''on''}
      | None \<Rightarrow> False)"

definition h2_enabled :: "(string \<Rightarrow> string) \<Rightarrow> (string \<rightharpoonup> string) \<Rightarrow> h2_flags \<Rightarrow> bool" where
  "h2_enabled lower env fl \<longleftrightarrow> h2_preferred fl \<or> h2_fallback fl \<or> h2_env lower env"

definition set_preferred :: "bool \<Rightarrow> h2_flags \<Rightarrow> h2_flags" where
  "set_preferred b fl = fl\<lparr>h2_preferred := b, h2_fallback := False\<rparr>"

definition enable_fallback :: "h2_flags \<Rightarrow> h2_flags" where
  "enable_fallback fl = fl\<lparr>h2_fallback := True\<rparr>"

definition clear_fallback :: "h2_flags \<Rightarrow> h2_flags" where
  "clear_fallback fl = fl\<lparr>h2_fallback := False\<rparr>"

definition set_default :: "string \<Rightarrow> string \<Rightarrow> (string \<rightharpoonup> string) \<Rightarrow> (string \<rightharpoonup> string)" where
  "set_default k v env = (if env k = None then env(k \<mapsto> v) else env)"

definition fragment_env :: "(string \<rightharpoonup> string) \<Rightarrow> (string \<rightharpoonup> string)" where
  "fragment_env env =
     set_default ''AETHER_MASQUE_H2_FRAGMENT_DELAY'' ''5-15''
       (set_default ''AETHER_MASQUE_H2_FRAGMENT_SIZE'' ''8-24'' (env(''AETHER_MASQUE_H2_FRAGMENT'' \<mapsto> ''1'')))"

text \<open>What the dialler keeps: the start-up state, the flags, the identity, and the number of verifications made.\<close>

record dial_state =
  ds_start :: start_state
  ds_flags :: h2_flags
  ds_ident :: identity
  ds_dials :: nat

definition ds_h2 :: "start_world \<Rightarrow> dial_state \<Rightarrow> bool" where
  "ds_h2 W d = h2_enabled (sw_lower W) (ss_env (ds_start d)) (ds_flags d)"

definition enable_restricted_h2 :: "dial_state \<Rightarrow> dial_state" where
  "enable_restricted_h2 d =
     d\<lparr>ds_flags := enable_fallback (ds_flags d), ds_start := (ds_start d)\<lparr>ss_env := fragment_env (ss_env (ds_start d))\<rparr>\<rparr>"


section \<open>Passes over the candidates\<close>

definition CONNECT_STAGE_AFTER_REQUEST :: string where
  "CONNECT_STAGE_AFTER_REQUEST = ''after the connect-ip request, before any :status''"

definition is_identity_rejection :: "aether_error \<Rightarrow> bool" where
  "is_identity_rejection e =
     (let msg = show_error e in
      (case do {
         rest \<leftarrow> get_at (split_str ''connect-ip status '' msg) 1;
         code \<leftarrow> get_at (split_whitespace rest) 0;
         parse_unsigned 65535 code } of
         Some code \<Rightarrow> code = 401 \<or> code = 403
       | None \<Rightarrow> False)
      \<or> contains CONNECT_STAGE_AFTER_REQUEST msg \<and> contains ''TLS alert 49'' msg)"

datatype peer_outcome = PeerAccepted | PeerIdentityRejected | PeerUnreachable

datatype pass_outcome = PassConnected socket_addr | PassIdentityRejected nat | PassExhausted

type_synonym verifier = "nat \<Rightarrow> bool \<Rightarrow> identity \<Rightarrow> socket_addr \<Rightarrow> unit result"

definition try_masque_peer :: "start_world \<Rightarrow> verifier \<Rightarrow> socket_addr \<Rightarrow> dial_state \<Rightarrow> dial_state \<times> peer_outcome" where
  "try_masque_peer W V peer d =
     (d\<lparr>ds_dials := Suc (ds_dials d)\<rparr>,
      case V (ds_dials d) (ds_h2 W d) (ds_ident d) peer of
        Inr _ \<Rightarrow> PeerAccepted
      | Inl e \<Rightarrow> if is_identity_rejection e then PeerIdentityRejected else PeerUnreachable)"

fun dial_masque_pass_from :: "start_world \<Rightarrow> verifier \<Rightarrow> (socket_addr \<times> string) list \<Rightarrow> nat \<Rightarrow> dial_state \<Rightarrow> dial_state \<times> pass_outcome" where
  "dial_masque_pass_from W V [] n d = (d, if n > 0 then PassIdentityRejected n else PassExhausted)"
| "dial_masque_pass_from W V ((peer, source) # cs) n d =
     (case try_masque_peer W V peer d of
        (d, PeerAccepted) \<Rightarrow> (d, PassConnected peer)
      | (d, PeerIdentityRejected) \<Rightarrow>
          if n + 1 \<ge> IDENTITY_REJECTED_LIMIT then (d, PassIdentityRejected (n + 1)) else dial_masque_pass_from W V cs (n + 1) d
      | (d, PeerUnreachable) \<Rightarrow> dial_masque_pass_from W V cs n d)"

definition dial_masque_pass :: "start_world \<Rightarrow> verifier \<Rightarrow> (socket_addr \<times> string) list \<Rightarrow> dial_state \<Rightarrow> dial_state \<times> pass_outcome" where
  "dial_masque_pass W V cs d = dial_masque_pass_from W V cs 0 d"

definition identity_rejected_error :: aether_error where
  "identity_rejected_error =
     ErrMasque ''MASQUE identity rejected by every gateway that answered; re-register the WARP device''"

text \<open>
  A pass that ended with too many rejections is repeated with a new certificate. The count that goes with
  the error appears only in the log. \<open>k\<close> numbers the exchange and the file operation of the renewal.
\<close>

definition renew_and_redial ::
  "start_world \<Rightarrow> verifier \<Rightarrow> nat \<Rightarrow> path \<Rightarrow> (socket_addr \<times> string) list \<Rightarrow> dial_state \<Rightarrow> (dial_state \<times> socket_addr option result) rust" where
  "renew_and_redial W V k p cs d = do {
     (s, r) \<leftarrow> refresh_refused_masque_identity W k p (ds_ident d) (ds_start d);
     let d = d\<lparr>ds_start := s\<rparr>;
     case r of
       None \<Rightarrow> Some (d, Inl identity_rejected_error)
     | Some fresh \<Rightarrow>
         Some (case dial_masque_pass W V cs (d\<lparr>ds_ident := fresh\<rparr>) of
            (d, PassConnected peer) \<Rightarrow> (d, Inr (Some peer))
          | (d, PassIdentityRejected n) \<Rightarrow> (d, Inl identity_rejected_error)
          | (d, PassExhausted) \<Rightarrow> (d, Inr None)) }"



section \<open>The start of a MASQUE session\<close>

definition push_known :: "socket_addr \<Rightarrow> string \<Rightarrow> (socket_addr \<times> string) list \<Rightarrow> (socket_addr \<times> string) list" where
  "push_known peer source known = (if peer \<in> fst ` set known then known else known @ [(peer, source)])"

definition push_gateways :: "socket_addr list \<Rightarrow> string \<Rightarrow> (socket_addr \<times> string) list \<Rightarrow> (socket_addr \<times> string) list" where
  "push_gateways peers source known = fold (\<lambda>peer. push_known peer source) peers known"

text \<open>Whether to reconnect to the last gateway; \<open>answer\<close> is the line entered at the prompt, if any.\<close>

definition want_quick_reconnect :: "(string \<rightharpoonup> string) \<Rightarrow> string option \<Rightarrow> bool" where
  "want_quick_reconnect env answer =
     (let v = env ''AETHER_QUICK_RECONNECT'' in
      if v \<in> {Some ''1'', Some ''true'', Some ''yes'', Some ''on''} then True
      else if v \<in> {Some ''0'', Some ''false'', Some ''no'', Some ''off''} then False
      else case answer of
        Some a \<Rightarrow> \<not> (str_eq_ignore_case a ''n'' \<or> str_eq_ignore_case a ''no'')
      | None \<Rightarrow> True)"

definition known_peers ::
  "endpoint_discovery \<Rightarrow> string option \<Rightarrow> string option \<Rightarrow> socket_addr list \<Rightarrow> identity \<Rightarrow> (string \<rightharpoonup> string)
     \<Rightarrow> (socket_addr \<times> string) list" where
  "known_peers discovery last_peer answer cached i env =
     (let known = (case Option.bind (env ''AETHER_TEAM_ENDPOINT'') parse_socket_addr of
                     Some a \<Rightarrow> push_known a ''organization'' [] | None \<Rightarrow> []);
          known = (if discovery = DiscoverCache then
                     case Option.bind last_peer parse_socket_addr of
                       Some a \<Rightarrow> if want_quick_reconnect env answer then push_known a ''last working'' known else known
                     | None \<Rightarrow> known
                   else known);
          known = (case assigned_masque_peer i of Some a \<Rightarrow> push_known a ''account'' known | None \<Rightarrow> known)
      in if discovery = DiscoverCache then push_gateways cached ''cached'' known else known)"

definition pass_one ::
  "start_world \<Rightarrow> verifier \<Rightarrow> path \<Rightarrow> (socket_addr \<times> string) list \<Rightarrow> dial_state \<Rightarrow> (dial_state \<times> socket_addr option result \<times> nat) rust" where
  "pass_one W V p cs d =
     (case dial_masque_pass W V cs d of
        (d, PassConnected peer) \<Rightarrow> Some (d, Inr (Some peer), 0)
      | (d, PassIdentityRejected n) \<Rightarrow>
          if n \<ge> IDENTITY_REJECTED_LIMIT then do { (d, r) \<leftarrow> renew_and_redial W V 7 p cs d; Some (d, r, 0) }
          else Some (d, Inr None, n)
      | (d, PassExhausted) \<Rightarrow> Some (d, Inr None, 0))"

definition pass_two ::
  "start_world \<Rightarrow> verifier \<Rightarrow> path \<Rightarrow> (socket_addr \<times> string) list \<Rightarrow> nat \<Rightarrow> dial_state \<Rightarrow> (dial_state \<times> socket_addr option result) rust" where
  "pass_two W V p cs n d =
     (case dial_masque_pass_from W V cs n d of
        (d, PassConnected peer) \<Rightarrow> Some (d, Inr (Some peer))
      | (d, PassIdentityRejected n) \<Rightarrow> renew_and_redial W V 8 p cs d
      | (d, PassExhausted) \<Rightarrow> Some (d, Inr None))"

text \<open>The first part of \<open>run_masque\<close>, without a forced peer: the peer to use, or none when all failed.\<close>

definition masque_first_peer ::
  "start_world \<Rightarrow> verifier \<Rightarrow> path \<Rightarrow> bool \<Rightarrow> (socket_addr \<times> string) list \<Rightarrow> dial_state \<Rightarrow> (dial_state \<times> socket_addr option result) rust" where
  "masque_first_peer W V p zero_trust known d = do {
     let h3_candidates = push_gateways (take MASQUE_H3_PROBE_LIMIT (masque_gateway_peers zero_trust)) ''masque gateway'' known;
     (d, r, n) \<leftarrow> pass_one W V p h3_candidates d;
     case r of
       Inl e \<Rightarrow> Some (d, Inl e)
     | Inr quick \<Rightarrow>
         if quick = None \<and> \<not> ds_h2 W d then do {
           let d = enable_restricted_h2 d;
           let known = push_gateways (take MASQUE_H2_PROBE_LIMIT (masque_h2_gateway_peers zero_trust)) ''masque gateway'' known;
           (d, r) \<leftarrow> pass_two W V p known n d;
           Some (case r of
              Inl e \<Rightarrow> (d, Inl e)
            | Inr (Some peer) \<Rightarrow> (d, Inr (Some peer))
            | Inr None \<Rightarrow> (d\<lparr>ds_flags := clear_fallback (ds_flags d)\<rparr>, Inr None)) }
         else Some (d, Inr quick) }"

text \<open>
  The search when no peer is at hand: \<open>hunt\<close> is the outcome of the search for each transport, \<open>check\<close> that
  of verifying a list of gateways over HTTP/2.
\<close>

definition hunt_masque_peer ::
  "start_world \<Rightarrow> (bool \<Rightarrow> u16 list \<Rightarrow> probe_result result) \<Rightarrow> (u16 list \<Rightarrow> socket_addr list \<Rightarrow> probe_result option) \<Rightarrow> bool
     \<Rightarrow> dial_state \<Rightarrow> dial_state \<times> socket_addr result" where
  "hunt_masque_peer W hunt check zero_trust d =
     (let h2 = ds_h2 W d;
          ports = (if h2 then masque_h2_ports MASQUE_PORTS else MASQUE_PORTS);
          selected = (\<lambda>best. Inr \<lparr>sa_ip = pb_ip best, sa_port = pb_port best\<rparr>) in
      case hunt h2 ports of
        Inr best \<Rightarrow> (d, selected best)
      | Inl e \<Rightarrow>
          if h2 then (d, Inl e)
          else
            let d = enable_restricted_h2 d in
            (case check (masque_h2_ports ports) (masque_gateway_peers zero_trust) of
               Some best \<Rightarrow> (d, selected best)
             | None \<Rightarrow> (d\<lparr>ds_flags := clear_fallback (ds_flags d)\<rparr>, Inl e)))"

text \<open>One turn of the loop of \<open>run_masque\<close>: the peer that is dialled next, if any.\<close>

definition next_peer ::
  "start_world \<Rightarrow> verifier \<Rightarrow> (bool \<Rightarrow> u16 list \<Rightarrow> probe_result result) \<Rightarrow> (u16 list \<Rightarrow> socket_addr list \<Rightarrow> probe_result option) \<Rightarrow> bool
     \<Rightarrow> socket_addr option \<Rightarrow> socket_addr option \<Rightarrow> socket_addr option \<Rightarrow> dial_state \<Rightarrow> dial_state \<times> socket_addr result" where
  "next_peer W V hunt check zero_trust forced quick last_good d =
     (case quick of
        Some peer \<Rightarrow> (d, Inr peer)
      | None \<Rightarrow>
          (case (case last_good of
                   Some peer \<Rightarrow> (case try_masque_peer W V peer d of (d, o') \<Rightarrow> (d, if o' = PeerAccepted then Some peer else None))
                 | None \<Rightarrow> (d, None)) of
             (d, Some peer) \<Rightarrow> (d, Inr peer)
           | (d, None) \<Rightarrow>
               (case forced of
                  Some peer \<Rightarrow> (d, Inr peer)
                | None \<Rightarrow> hunt_masque_peer W hunt check zero_trust d)))"


section \<open>The cache of gateways\<close>

text \<open>The display of an IPv6 address: the first longest run of at least two zero groups is compressed.\<close>

function show_hex :: "nat \<Rightarrow> string" where
  "show_hex n = (if n < 16 then [] else show_hex (n div 16)) @ [char_of (if n mod 16 < 10 then 48 + n mod 16 else 87 + n mod 16)]"
  by pat_completeness auto
termination
  by (relation "measure (\<lambda>n. n)") auto

declare show_hex.simps [simp del]

definition v6_segments :: "u128 \<Rightarrow> nat list" where
  "v6_segments a = map (\<lambda>i. unat a div 65536 ^ (7 - i) mod 65536) [0..<8]"

definition zero_run :: "nat list \<Rightarrow> nat \<Rightarrow> nat" where
  "zero_run segs i = length (takeWhile (\<lambda>n. n = 0) (drop i segs))"

definition longest_zeros :: "nat list \<Rightarrow> nat \<times> nat" where
  "longest_zeros segs =
     fold (\<lambda>i best. if zero_run segs i > snd best then (i, zero_run segs i) else best) [0..<length segs] (0, 0)"

definition show_segments :: "nat list \<Rightarrow> string" where
  "show_segments segs = join_with '':'' (map show_hex segs)"

definition show_v6 :: "u128 \<Rightarrow> string" where
  "show_v6 a =
     (let segs = v6_segments a; (start, len) = longest_zeros segs in
      if take 6 segs = [0, 0, 0, 0, 0, 0xFFFF] then ''::ffff:'' @ show_v4 (of_nat (unat a))
      else if len > 1 then show_segments (take start segs) @ ''::'' @ show_segments (drop (start + len) segs)
      else show_segments segs)"

definition show_ip :: "ip_addr \<Rightarrow> string" where
  "show_ip a = (case a of V4 x \<Rightarrow> show_v4 x | V6 x \<Rightarrow> show_v6 x)"

definition MAX_CACHED_MASQUE_GATEWAYS :: nat where "MAX_CACHED_MASQUE_GATEWAYS = 12"
definition MASQUE_CACHE_WARM_ENOUGH :: nat where "MASQUE_CACHE_WARM_ENOUGH = 4"

record cached_gateway =
  cg_ip :: string
  cg_port :: u16
  cg_rtt_ms :: nat

text \<open>The cache as read from its file; a file that is missing or cannot be understood reads as empty.\<close>

definition cached_masque_gateways :: "ip_scan \<Rightarrow> cached_gateway list \<Rightarrow> socket_addr list" where
  "cached_masque_gateways scan gs =
     take MAX_CACHED_MASQUE_GATEWAYS
       (List.map_filter (\<lambda>g. case parse_ip_addr (cg_ip g) of
            Some (V4 a) \<Rightarrow> if want_v4 scan then Some \<lparr>sa_ip = V4 a, sa_port = cg_port g\<rparr> else None
          | Some (V6 a) \<Rightarrow> if want_v6 scan then Some \<lparr>sa_ip = V6 a, sa_port = cg_port g\<rparr> else None
          | None \<Rightarrow> None) gs)"

text \<open>The round-trip time is in milliseconds, at most what 64 bits hold.\<close>

definition cache_masque_gateway :: "probe_result \<Rightarrow> cached_gateway list \<Rightarrow> cached_gateway list" where
  "cache_masque_gateway best gs =
     (let kept = filter (\<lambda>g. \<not> (cg_ip g = show_ip (pb_ip best) \<and> cg_port g = pb_port best)) gs;
          entry = \<lparr>cg_ip = show_ip (pb_ip best), cg_port = pb_port best, cg_rtt_ms = min (pb_rtt best) (2 ^ 64 - 1)\<rparr>
      in take MAX_CACHED_MASQUE_GATEWAYS (sort_key cg_rtt_ms (kept @ [entry])))"

definition masque_cache_needs_refresh :: "ip_scan \<Rightarrow> cached_gateway list \<Rightarrow> bool" where
  "masque_cache_needs_refresh scan gs \<longleftrightarrow> length (cached_masque_gateways scan gs) < MASQUE_CACHE_WARM_ENOUGH"


section \<open>The rungs\<close>

lemmas ipv4_eval = parse_ipv4_def parse_with_def read_ipv4_addr_def read_octet_def read_number_def read_given_char_def to_digit_def
  digits_val_def v4_new_def

lemma verified_gateways: "List.map_filter parse_ipv4 MASQUE_VERIFIED_GATEWAYS = [2728380161, 2728380162, 2728379906, 2728379905]"
proof -
  have "parse_ipv4 ''162.159.199.1'' = Some 2728380161" "parse_ipv4 ''162.159.199.2'' = Some 2728380162"
    "parse_ipv4 ''162.159.198.2'' = Some 2728379906" "parse_ipv4 ''162.159.198.1'' = Some 2728379905"
    by (simp_all add: ipv4_eval Let_def)
  then show ?thesis by (simp add: MASQUE_VERIFIED_GATEWAYS_def List.map_filter_simps)
qed

definition ladder_rungs :: "socket_addr list" where
  "ladder_rungs =
     (let vs = [2728380161, 2728380162, 2728379906, 2728379905]
      in map (at_port 443) vs @ concat (map (\<lambda>port. map (at_port port) (take 2 vs)) MASQUE_ALT_PORTS))"

lemma push_all_rungs: "distinct xs \<Longrightarrow> push_all xs [] = xs"
  by (induction xs rule: rev_induct) (simp_all add: push_all_append, simp add: push_all_def push_new_def)

text \<open>
  The HTTP/3 budget of twelve is exactly the four verified gateways on port 443 and then, port by port, the
  first two of them on the four alternate ports; everything behind is on port 443, and nothing occurs twice.
\<close>

lemma ladder_fits:
  "take MASQUE_H3_PROBE_LIMIT (masque_gateway_peers zt) = ladder_rungs \<and> distinct (masque_gateway_peers zt)
   \<and> list_all (\<lambda>q. sa_port q = QUIC_PORT) (drop MASQUE_H3_PROBE_LIMIT (masque_gateway_peers zt))"
proof -
  let ?a = "map (at_port QUIC_PORT) (List.map_filter parse_ipv4 MASQUE_SEEDS)"
    and ?b = "concat (map cidr_gateways (prioritize zt MASQUE_CIDRS_V4 MASQUE_ZT_CIDRS_V4))"
  have d: "distinct ladder_rungs" "length ladder_rungs = 12"
    by (simp_all add: ladder_rungs_def at_port_def MASQUE_ALT_PORTS_def)
  have p: "masque_gateway_peers zt = push_all (?a @ ?b) (push_all ladder_rungs [])"
    by (simp add: masque_gateway_peers_def verified_gateways ladder_rungs_def MASQUE_H3_PROBE_LIMIT_def
        MASQUE_ALT_PORTS_def QUIC_PORT_def Let_def flip: push_all_append)
  have q: "sa_port x = QUIC_PORT" if "x \<in> set (?a @ ?b)" for x
    using that by (auto simp: at_port_def cidr_gateways_def split: option.splits)
  obtain rest where r: "masque_gateway_peers zt = ladder_rungs @ rest" "set rest \<subseteq> set (?a @ ?b)"
    using push_all_prefix [of "?a @ ?b" ladder_rungs] unfolding p push_all_rungs [OF d(1)] by blast
  have ds: "distinct (masque_gateway_peers zt)" unfolding p by (intro distinct_push_all) simp
  have "list_all (\<lambda>x. sa_port x = QUIC_PORT) rest" unfolding list_all_iff using q r(2) by blast
  then show ?thesis using r d ds by (simp add: MASQUE_H3_PROBE_LIMIT_def)
qed

section \<open>What the passes guarantee\<close>

text \<open>The state after a number of verifications; the rest of it has not changed.\<close>

definition dialled :: "nat \<Rightarrow> dial_state \<Rightarrow> dial_state \<Rightarrow> bool" where
  "dialled k d d' \<longleftrightarrow> ds_start d' = ds_start d \<and> ds_flags d' = ds_flags d \<and> ds_ident d' = ds_ident d
     \<and> ds_dials d \<le> ds_dials d' \<and> ds_dials d' \<le> ds_dials d + k"

definition verified :: "start_world \<Rightarrow> verifier \<Rightarrow> dial_state \<Rightarrow> socket_addr \<Rightarrow> bool" where
  "verified W V d peer \<longleftrightarrow> 0 < ds_dials d \<and> V (ds_dials d - 1) (ds_h2 W d) (ds_ident d) peer = Inr ()"

lemma dialled_refl: "dialled 0 d d" by (simp add: dialled_def)

lemma dialled_trans: "dialled a d d1 \<Longrightarrow> dialled b d1 d2 \<Longrightarrow> dialled (a + b) d d2"
  by (simp add: dialled_def)

lemma try_dialled: "try_masque_peer W V peer d = (d', o') \<Longrightarrow> dialled 1 d d'"
  by (auto simp: try_masque_peer_def dialled_def)

lemma try_accepted: "try_masque_peer W V peer d = (d', PeerAccepted) \<Longrightarrow> verified W V d' peer"
  by (auto simp: try_masque_peer_def verified_def ds_h2_def split: sum.splits if_splits)

lemma pass_dialled:
  "dial_masque_pass_from W V cs n d = (d', r) \<Longrightarrow>
     dialled (length cs) d d' \<and> (case r of PassConnected peer \<Rightarrow> verified W V d' peer | PassIdentityRejected m \<Rightarrow> 0 < m | PassExhausted \<Rightarrow> True)"
proof (induction cs arbitrary: n d)
  case Nil
  then show ?case by (auto simp: dialled_refl split: if_splits)
next
  case (Cons c cs)
  obtain peer src where c: "c = (peer, src)" by (cases c)
  obtain d1 r1 where t: "try_masque_peer W V peer d = (d1, r1)" by (meson surj_pair)
  have one: "dialled 1 d d1" by (rule try_dialled [OF t])
  have step: ?case if "dial_masque_pass_from W V cs m d1 = (d', r)" for m
    using Cons.IH [OF that] dialled_trans [OF one] by auto
  have last: "dialled (length (c # cs)) d d1" using one by (simp add: dialled_def)
  show ?case
  proof (cases r1)
    case PeerAccepted
    then show ?thesis using Cons.prems c t last try_accepted by auto
  next
    case PeerIdentityRejected
    then show ?thesis using Cons.prems c t last step by (auto split: if_splits)
  next
    case PeerUnreachable
    then show ?thesis using Cons.prems c t step by auto
  qed
qed

lemma ds_h2_cong: "dialled k d d' \<Longrightarrow> ds_h2 W d' = ds_h2 W d"
  by (simp add: dialled_def ds_h2_def)

text \<open>
  What a step of the start guarantees of its outcome: \<open>k\<close> bounds the verifications made. The environment
  and the flags, and with them the transport, stay as they are.
\<close>

definition outcome_ok :: "start_world \<Rightarrow> verifier \<Rightarrow> nat \<Rightarrow> dial_state \<Rightarrow> dial_state \<Rightarrow> socket_addr option result \<Rightarrow> bool" where
  "outcome_ok W V k d d' r \<longleftrightarrow> ds_dials d' \<le> ds_dials d + k \<and> ds_flags d' = ds_flags d \<and> ss_env (ds_start d') = ss_env (ds_start d)
     \<and> (case r of Inr (Some peer) \<Rightarrow> verified W V d' peer | Inr None \<Rightarrow> True | Inl e \<Rightarrow> e = identity_rejected_error)"

lemma save_and_return_env: "ss_env (fst (save_and_return W k p i s)) = ss_env s"
  by (simp add: save_and_return_def split: prod.split)

lemma refresh_env: "refresh_refused_masque_identity W k p i s = Some (s', r) \<Longrightarrow> ss_env s' = ss_env s"
proof -
  assume "refresh_refused_masque_identity W k p i s = Some (s', r)"
  then obtain y :: "masque_enrollment result" where "(case y of Inl _ \<Rightarrow> (s, None) | Inr en \<Rightarrow> if \<not> me_renewed en then (s, None)
      else let fresh = apply_masque_enrollment i en in (fst (save_and_return W k p fresh s), Some fresh)) = (s', r)"
    by (auto simp: refresh_refused_masque_identity_def bind_eq_Some_conv)
  then show ?thesis by (cases y) (auto simp: Let_def save_and_return_env split: if_splits)
qed

lemma renew_ok:
  assumes "renew_and_redial W V k p cs d = Some (d', r)"
  shows "outcome_ok W V (length cs) d d' r"
proof -
  obtain s o' where a: "refresh_refused_masque_identity W k p (ds_ident d) (ds_start d) = Some (s, o')"
    using bind_pairD [OF assms [unfolded renew_and_redial_def]] by blast
  have e: "ss_env s = ss_env (ds_start d)" by (rule refresh_env [OF a])
  show ?thesis
  proof (cases o')
    case None
    then show ?thesis using assms a e by (auto simp: renew_and_redial_def outcome_ok_def Let_def)
  next
    case (Some fresh)
    obtain d2 r2 where b: "dial_masque_pass_from W V cs 0 (d\<lparr>ds_start := s, ds_ident := fresh\<rparr>) = (d2, r2)" by (meson surj_pair)
    have "(d', r) = (case (d2, r2) of (d, PassConnected peer) \<Rightarrow> (d, Inr (Some peer))
        | (d, PassIdentityRejected n) \<Rightarrow> (d, Inl identity_rejected_error) | (d, PassExhausted) \<Rightarrow> (d, Inr None))"
      using assms a b Some by (simp add: renew_and_redial_def dial_masque_pass_def Let_def)
    then show ?thesis using pass_dialled [OF b] e by (cases r2) (simp_all add: outcome_ok_def dialled_def)
  qed
qed

lemma outcome_after:
  assumes "dialled a d d1" "outcome_ok W V b d1 d' r"
  shows "outcome_ok W V (a + b) d d' r"
  using assms by (auto simp: outcome_ok_def dialled_def)

lemma pass_one_ok:
  assumes "pass_one W V p cs d = Some (d', r, n)"
  shows "outcome_ok W V (2 * length cs) d d' r"
proof -
  obtain d1 o' where a: "dial_masque_pass_from W V cs 0 d = (d1, o')" by (meson surj_pair)
  note P = pass_dialled [OF a]
  have renew: ?thesis if "renew_and_redial W V 7 p cs d1 = Some (d', r)"
    using outcome_after [OF _ renew_ok [OF that], of "length cs" d] P by (simp add: mult_2)
  show ?thesis
  proof (cases o')
    case (PassIdentityRejected m)
    show ?thesis
    proof (cases "m \<ge> IDENTITY_REJECTED_LIMIT")
      case True
      then have "renew_and_redial W V 7 p cs d1 = Some (d', r)"
        using assms a PassIdentityRejected by (auto simp: pass_one_def dial_masque_pass_def bind_eq_Some_conv)
      then show ?thesis by (rule renew)
    next
      case False
      then show ?thesis using assms a P PassIdentityRejected by (auto simp: pass_one_def dial_masque_pass_def outcome_ok_def dialled_def)
    qed
  qed (use assms a P in \<open>auto simp: pass_one_def dial_masque_pass_def outcome_ok_def dialled_def\<close>)
qed

lemma pass_two_ok:
  assumes "pass_two W V p cs n d = Some (d', r)"
  shows "outcome_ok W V (2 * length cs) d d' r"
proof -
  obtain d1 o' where a: "dial_masque_pass_from W V cs n d = (d1, o')" by (meson surj_pair)
  note P = pass_dialled [OF a]
  have renew: ?thesis if "renew_and_redial W V 8 p cs d1 = Some (d', r)"
    using outcome_after [OF _ renew_ok [OF that], of "length cs" d] P by (simp add: mult_2)
  show ?thesis
    using assms a P renew by (cases o') (auto simp: pass_two_def outcome_ok_def dialled_def)
qed

lemma push_gateways_length: "length (push_gateways ps l known) \<le> length known + length ps"
proof (induction ps arbitrary: known)
  case (Cons q ps)
  show ?case using Cons.IH [of "push_known q l known"] by (simp add: push_gateways_def push_known_def split: if_splits)
qed (simp add: push_gateways_def)

lemma restricted_env: "ss_env (ds_start (enable_restricted_h2 d)) ''AETHER_MASQUE_HTTP2'' = ss_env (ds_start d) ''AETHER_MASQUE_HTTP2''"
  by (simp add: enable_restricted_h2_def fragment_env_def set_default_def)

lemma fallback_cleared:
  assumes "outcome_ok W V k (enable_restricted_h2 d) d' r" "\<not> ds_h2 W d"
  shows "\<not> ds_h2 W (d'\<lparr>ds_flags := clear_fallback (ds_flags d')\<rparr>)"
  using assms restricted_env [of d]
  by (auto simp: outcome_ok_def ds_h2_def h2_enabled_def h2_env_def clear_fallback_def enable_restricted_h2_def enable_fallback_def)

text \<open>
  C19: The start of a MASQUE session hands over verified gateways only. The gateway it returns passed its
  verification as the very last step, over the transport and with the identity that the session will use.
  When it finds none, the transport is the one it started with, so that the search begins on HTTP/3
  again. It fails only because the identity was rejected, and it makes at most
  \<open>4 * length known + 32\<close> verifications.
\<close>

theorem first_peer_is_verified:
  assumes "masque_first_peer W V p zero_trust known d = Some (d', r)"
  shows "ds_dials d' \<le> ds_dials d + 4 * length known + 32
     \<and> (case r of
          Inr (Some peer) \<Rightarrow> 0 < ds_dials d' \<and> V (ds_dials d' - 1) (ds_h2 W d') (ds_ident d') peer = Inr ()
        | Inr None \<Rightarrow> ds_h2 W d' = ds_h2 W d
        | Inl e \<Rightarrow> e = identity_rejected_error)"
proof -
  let ?h3 = "push_gateways (take MASQUE_H3_PROBE_LIMIT (masque_gateway_peers zero_trust)) ''masque gateway'' known"
  let ?h2 = "push_gateways (take MASQUE_H2_PROBE_LIMIT (masque_h2_gateway_peers zero_trust)) ''masque gateway'' known"
  have len: "length ?h3 \<le> length known + 12" "length ?h2 \<le> length known + 4"
    by (rule order_trans [OF push_gateways_length]; simp add: MASQUE_H3_PROBE_LIMIT_def MASQUE_H2_PROBE_LIMIT_def)+
  obtain x where x: "pass_one W V p ?h3 d = Some x"
    using assms by (cases "pass_one W V p ?h3 d") (simp_all add: masque_first_peer_def)
  obtain d1 r1 n where x1: "x = (d1, r1, n)" by (cases x)
  note one = pass_one_ok [OF x [unfolded x1]]
  have h: "ds_h2 W d1 = ds_h2 W d" using one by (simp add: outcome_ok_def ds_h2_def)
  show ?thesis
  proof (cases "r1 = Inr None \<and> \<not> ds_h2 W d1")
    case False
    then have "d' = d1 \<and> r = r1" using assms x x1 by (auto simp: masque_first_peer_def split: sum.splits)
    then show ?thesis using one len(1) h by (auto simp: outcome_ok_def verified_def split: sum.splits option.splits)
  next
    case True
    obtain d2 r2 where b: "pass_two W V p ?h2 n (enable_restricted_h2 d1) = Some (d2, r2)"
      using assms x x1 True by (cases "pass_two W V p ?h2 n (enable_restricted_h2 d1)") (auto simp: masque_first_peer_def)
    note two = pass_two_ok [OF b]
    have q: "(d', r) = (case r2 of Inl e \<Rightarrow> (d2, Inl e) | Inr (Some peer) \<Rightarrow> (d2, Inr (Some peer))
        | Inr None \<Rightarrow> (d2\<lparr>ds_flags := clear_fallback (ds_flags d2)\<rparr>, Inr None))"
      using assms x x1 True b by (simp add: masque_first_peer_def)
    have e: "ds_dials d2 \<le> ds_dials d + 4 * length known + 32"
      using one two len by (simp add: outcome_ok_def enable_restricted_h2_def)
    have f: "\<not> ds_h2 W (d2\<lparr>ds_flags := clear_fallback (ds_flags d2)\<rparr>)" using fallback_cleared [OF two] True by simp
    have o: "case r2 of Inr (Some peer) \<Rightarrow> verified W V d2 peer | Inr None \<Rightarrow> True | Inl e \<Rightarrow> e = identity_rejected_error"
      using two by (simp add: outcome_ok_def)
    show ?thesis
    proof (cases r2)
      case (Inl e')
      then show ?thesis using q e o by simp
    next
      case (Inr m)
      then show ?thesis using q e o f h True by (cases m) (simp_all add: verified_def)
    qed
  qed
qed

definition demo_dial :: dial_state where
  "demo_dial = \<lparr>ds_start = demo_state, ds_flags = \<lparr>h2_preferred = False, h2_fallback = False\<rparr>, ds_ident = demo_identity, ds_dials = 0\<rparr>"

theorem first_peer_is_verified_witness:
  "case masque_first_peer demo_start (\<lambda>_ _ _ _. Inr ()) demo_path False [(at_port 443 7, ''account'')] demo_dial of
     None \<Rightarrow> False
   | Some (d', r) \<Rightarrow> r = Inr (Some (at_port 443 7)) \<and> ds_dials d' \<le> 36 \<and> 0 < ds_dials d'"
proof -
  let ?V = "\<lambda>_ _ _ _. Inr ()" and ?k = "[(at_port 443 7, ''account'')]"
  have "\<exists>rest. push_gateways ps l ((a, b) # c) = (a, b) # rest" for ps l a b and c :: "(socket_addr \<times> string) list"
    by (induction ps arbitrary: c) (auto simp: push_gateways_def push_known_def)
  then obtain rest where
    "push_gateways (take MASQUE_H3_PROBE_LIMIT (masque_gateway_peers False)) ''masque gateway'' ?k = (at_port 443 7, ''account'') # rest" by blast
  then obtain d' where r: "masque_first_peer demo_start ?V demo_path False ?k demo_dial = Some (d', Inr (Some (at_port 443 7)))"
    by (simp add: masque_first_peer_def pass_one_def dial_masque_pass_def try_masque_peer_def)
  show ?thesis using first_peer_is_verified [OF r] r by (simp add: demo_dial_def)
qed


section \<open>A single rejection\<close>

lemma push_gateways_prefix:
  "\<exists>rest. push_gateways ps l known = known @ rest \<and> (\<forall>c\<in>set rest. fst c \<notin> fst ` set known)"
proof (induction ps arbitrary: known)
  case (Cons q ps)
  obtain rest where r: "push_gateways ps l (push_known q l known) = push_known q l known @ rest"
      "\<forall>c\<in>set rest. fst c \<notin> fst ` set (push_known q l known)" using Cons.IH by blast
  have "push_gateways (q # ps) l known = push_gateways ps l (push_known q l known)" by (simp add: push_gateways_def)
  then show ?case using r by (cases "q \<in> fst ` set known") (auto simp: push_known_def)
qed (simp add: push_gateways_def)

lemma pass_unreachable:
  assumes "\<not> is_identity_rejection e" "\<And>c n. c \<in> set cs \<Longrightarrow> V n (ds_h2 W d) (ds_ident d) (fst c) = Inl e"
  shows "\<exists>d'. dial_masque_pass_from W V cs n d = (d', if n > 0 then PassIdentityRejected n else PassExhausted)"
  using assms(2)
proof (induction cs arbitrary: d)
  case (Cons c cs)
  obtain peer src where c: "c = (peer, src)" by (cases c)
  let ?d = "d\<lparr>ds_dials := Suc (ds_dials d)\<rparr>"
  have "try_masque_peer W V peer d = (?d, PeerUnreachable)"
    using Cons.prems [of c] c assms(1) by (simp add: try_masque_peer_def)
  moreover have "\<exists>d'. dial_masque_pass_from W V cs n ?d = (d', if n > 0 then PassIdentityRejected n else PassExhausted)"
    using Cons.prems by (intro Cons.IH) (simp add: ds_h2_def)
  ultimately show ?case by (simp add: c)
qed simp

text \<open>
  One gateway that rejects the certificate once is enough to end the start: the pass over HTTP/2 takes over
  the count of one, finds no gateway at all and still ends as a rejection, so that a new certificate is
  requested, and when that is not possible the start fails, although the limit is two gateways.
\<close>

lemma one_rejection_ends_the_start:
  assumes "is_identity_rejection e1" "\<not> is_identity_rejection e2"
    and "\<And>n i q. V n False i q = Inl (if q = A then e1 else e2)" "\<And>n i q. V n True i q = Inl e2"
    and "\<not> ds_h2 W d" "sw_keypair W = Inl e3"
  shows "\<exists>d'. masque_first_peer W V p zero_trust [(A, l)] d = Some (d', Inl identity_rejected_error)"
proof -
  let ?h3 = "push_gateways (take MASQUE_H3_PROBE_LIMIT (masque_gateway_peers zero_trust)) ''masque gateway'' [(A, l)]"
  let ?h2 = "push_gateways (take MASQUE_H2_PROBE_LIMIT (masque_h2_gateway_peers zero_trust)) ''masque gateway'' [(A, l)]"
  obtain rest where h3: "?h3 = [(A, l)] @ rest" "\<forall>c\<in>set rest. fst c \<noteq> A" using push_gateways_prefix by fastforce
  let ?d1 = "d\<lparr>ds_dials := Suc (ds_dials d)\<rparr>"
  have h: "ds_h2 W ?d1 = False" using assms(5) by (simp add: ds_h2_def)
  obtain d2 where d2: "dial_masque_pass_from W V rest 1 ?d1 = (d2, PassIdentityRejected 1)"
    using pass_unreachable [OF assms(2), of rest V W ?d1 1] h3(2) assms(3) h by auto
  have "dial_masque_pass W V ?h3 d = (d2, PassIdentityRejected 1)"
    using d2 assms(1,3,5) by (simp add: dial_masque_pass_def h3(1) try_masque_peer_def IDENTITY_REJECTED_LIMIT_def)
  then have one: "pass_one W V p ?h3 d = Some (d2, Inr None, 1)" by (simp add: pass_one_def IDENTITY_REJECTED_LIMIT_def)
  have n2: "\<not> ds_h2 W d2" using pass_dialled [OF d2] h by (auto simp: ds_h2_cong)
  have on: "ds_h2 W (enable_restricted_h2 d2)" by (simp add: ds_h2_def h2_enabled_def enable_restricted_h2_def enable_fallback_def)
  obtain d3 where d3: "dial_masque_pass_from W V ?h2 1 (enable_restricted_h2 d2) = (d3, PassIdentityRejected 1)"
    using pass_unreachable [OF assms(2), of ?h2 V W "enable_restricted_h2 d2" 1] assms(4) on by auto
  have "refresh_refused_masque_identity W 8 p i s = Some (s, None)" for i s
    by (simp add: refresh_refused_masque_identity_def renew_masque_certificate_def assms(6))
  then have "pass_two W V p ?h2 1 (enable_restricted_h2 d2) = Some (d3, Inl identity_rejected_error)"
    using d3 by (simp add: pass_two_def renew_and_redial_def)
  then show ?thesis using one n2 by (simp add: masque_first_peer_def)
qed


section \<open>Caching\<close>

lemma sort_key_last:
  "sort_key f (xs @ [x]) = filter (\<lambda>y. f y \<le> f x) (sort_key f xs) @ [x] @ filter (\<lambda>y. f x < f y) (sort_key f xs)"
proof (rule properties_for_sort_key)
  show "mset (filter (\<lambda>y. f y \<le> f x) (sort_key f xs) @ [x] @ filter (\<lambda>y. f x < f y) (sort_key f xs)) = mset (xs @ [x])"
    by (rule multiset_eqI) (auto simp: not_le)
  have "sorted (map f (filter P (sort_key f xs)))" for P by (simp add: sorted_filter)
  then show "sorted (map f (filter (\<lambda>y. f y \<le> f x) (sort_key f xs) @ [x] @ filter (\<lambda>y. f x < f y) (sort_key f xs)))"
    by (auto simp: sorted_append)
next
  fix k
  have a: "filter (\<lambda>y. f k = f y) (sort_key f xs) = filter (\<lambda>y. f k = f y) xs"
    using sort_key_stable [of f "f k" xs] by (simp add: eq_commute)
  have F: "filter (\<lambda>y. f k = f y) (filter (\<lambda>y. f y \<le> f x) ys) = (if f k \<le> f x then filter (\<lambda>y. f k = f y) ys else [])"
    "filter (\<lambda>y. f k = f y) (filter (\<lambda>y. f x < f y) ys) = (if f x < f k then filter (\<lambda>y. f k = f y) ys else [])" for ys
    by (induction ys) auto
  show "filter (\<lambda>y. f k = f y) (filter (\<lambda>y. f y \<le> f x) (sort_key f xs) @ [x] @ filter (\<lambda>y. f x < f y) (sort_key f xs))
      = filter (\<lambda>y. f k = f y) (xs @ [x])"
    unfolding filter_append F a by (auto simp: not_le)
qed

lemma length_filter_sort: "length (filter P (sort_key f xs)) = length (filter P xs)"
  by (metis mset_filter mset_sort size_mset)

text \<open>
  The cache is bounded and in the order of the round-trip times, and the gateway that was just selected is
  in it exactly when fewer than twelve others are as fast: in a full cache a slower gateway is dropped at once.
\<close>

lemma cache_masque_gateway_correct:
  fixes best gs
  defines "entry \<equiv> \<lparr>cg_ip = show_ip (pb_ip best), cg_port = pb_port best, cg_rtt_ms = min (pb_rtt best) (2 ^ 64 - 1)\<rparr>"
    and "kept \<equiv> filter (\<lambda>g. \<not> (cg_ip g = show_ip (pb_ip best) \<and> cg_port g = pb_port best)) gs"
  shows "length (cache_masque_gateway best gs) \<le> 12 \<and> sorted (map cg_rtt_ms (cache_masque_gateway best gs))
    \<and> (entry \<in> set (cache_masque_gateway best gs) \<longleftrightarrow> length (filter (\<lambda>g. cg_rtt_ms g \<le> cg_rtt_ms entry) kept) < 12)"
proof -
  let ?A = "filter (\<lambda>g. cg_rtt_ms g \<le> cg_rtt_ms entry) (sort_key cg_rtt_ms kept)"
    and ?B = "filter (\<lambda>g. cg_rtt_ms entry < cg_rtt_ms g) (sort_key cg_rtt_ms kept)"
  have c: "cache_masque_gateway best gs = take 12 (sort_key cg_rtt_ms (kept @ [entry]))"
    by (simp add: cache_masque_gateway_def entry_def kept_def MAX_CACHED_MASQUE_GATEWAYS_def)
  have n: "entry \<notin> set ?A" "entry \<notin> set ?B" by (auto simp: kept_def entry_def)
  have "sorted (map cg_rtt_ms (take 12 (sort_key cg_rtt_ms (kept @ [entry]))))"
    by (metis sorted_sort_key sorted_wrt_take take_map)
  moreover have "entry \<in> set (take 12 (?A @ [entry] @ ?B)) \<longleftrightarrow> length ?A < 12"
    using n by (auto simp: take_Cons' dest: in_set_takeD split: if_splits)
  ultimately show ?thesis unfolding c sort_key_last by (simp add: length_filter_sort)
qed

end
