(* ===== verification/Wireguard.thy ===== *)
theory Wireguard
  imports Checksum Text
begin

text \<open>
  The WireGuard side of the core (\<open>wireguard.rs\<close>): the client id in the reserved bytes of a message,
  the probes, and the verification of the data plane with its ladder of packet sizes. The protocol
  engine (the crate \<open>boringtun\<close>) is a parameter: two functions on an abstract tunnel state. Random
  numbers are arguments and time is in milliseconds.
\<close>

section \<open>Client id\<close>

definition WG_MSG_TYPE_MIN :: u8 where "WG_MSG_TYPE_MIN = 1"
definition WG_MSG_TYPE_MAX :: u8 where "WG_MSG_TYPE_MAX = 4"

definition wg_message :: "bytes \<Rightarrow> bool rust" where
  "wg_message pkt = (if length pkt < 4 then Some False
     else do { b \<leftarrow> idx pkt 0; Some (\<not> (b < WG_MSG_TYPE_MIN \<or> b > WG_MSG_TYPE_MAX)) })"

definition inject_client_id :: "bytes \<Rightarrow> bytes \<Rightarrow> bytes rust" where
  "inject_client_id pkt client_id = do { w \<leftarrow> wg_message pkt; if w then copy_into pkt 1 client_id else Some pkt }"

definition strip_client_id :: "bytes \<Rightarrow> bytes rust" where
  "strip_client_id pkt = do { w \<leftarrow> wg_message pkt; if w then copy_into pkt 1 [0, 0, 0] else Some pkt }"

lemma wg_message_eq: "wg_message pkt = Some (4 \<le> length pkt \<and> WG_MSG_TYPE_MIN \<le> pkt ! 0 \<and> pkt ! 0 \<le> WG_MSG_TYPE_MAX)"
  by (auto simp: wg_message_def idx_def)

lemma inject_total: "length client_id = 3 \<Longrightarrow> \<exists>p. inject_client_id pkt client_id = Some p \<and> length p = length pkt"
  by (auto simp: inject_client_id_def wg_message_eq copy_into_def)

lemma strip_client_total: "\<exists>p. strip_client_id pkt = Some p \<and> length p = length pkt"
  by (auto simp: strip_client_id_def wg_message_eq copy_into_def)

text \<open>A message whose reserved bytes are zero survives the way to the peer and back.\<close>

lemma strip_inject:
  assumes "length client_id = 3" "inject_client_id (t # 0 # 0 # 0 # r) client_id = Some p"
  shows "strip_client_id p = Some (t # 0 # 0 # 0 # r)"
proof -
  obtain a b c where id: "client_id = [a, b, c]"
    using assms(1) by (auto simp: length_Suc_conv numeral_3_eq_3)
  show ?thesis using assms(2) id
    by (auto simp: inject_client_id_def strip_client_id_def wg_message_eq copy_into_def split: if_splits)
qed

section \<open>Probes\<close>

definition wg_build_dns_query :: "u16 \<Rightarrow> bytes" where
  "wg_build_dns_query ident =
     u16_bytes ident @ [0x01, 0x00] @ [0x00, 0x01] @ [0, 0, 0, 0, 0, 0]
     @ concat (map (\<lambda>label. of_nat (length label) # as_bytes label) [''cloudflare'', ''com''])
     @ [0x00] @ [0x00, 0x01] @ [0x00, 0x01]"

definition wg_ip_header :: "nat \<Rightarrow> u16 \<Rightarrow> bytes \<Rightarrow> u8 \<Rightarrow> bytes \<Rightarrow> u32 \<Rightarrow> u32 \<Rightarrow> bytes" where
  "wg_ip_header total_len ident frag proto cksum src dst =
     [0x45, 0x00] @ u16_bytes (of_nat total_len) @ u16_bytes ident @ frag @ [64, proto] @ cksum
     @ v4_octets src @ v4_octets dst"

definition build_dataplane_probe :: "u16 \<Rightarrow> u16 \<Rightarrow> u16 \<Rightarrow> u32 \<Rightarrow> bytes" where
  "build_dataplane_probe dns_id ident sport src =
     (let dns = wg_build_dns_query dns_id;
          udp_len = 8 + length dns;
          total_len = 20 + udp_len;
          hdr = (\<lambda>cksum. wg_ip_header total_len ident [0x00, 0x00] 17 cksum src (v4_new 8 8 8 8))
      in hdr (u16_bytes (ipv4_checksum (hdr [0x00, 0x00])))
         @ u16_bytes sport @ u16_bytes 53 @ u16_bytes (of_nat udp_len) @ [0x00, 0x00] @ dns)"

definition PROBE_LADDER :: "nat list" where "PROBE_LADDER = [1200, 1000, 800, 576]"
definition LADDER_STEP_BUDGET :: nat where "LADDER_STEP_BUDGET = 1200"
definition DATAPLANE_REQUIRED_SUCCESSES :: nat where "DATAPLANE_REQUIRED_SUCCESSES = 2"
definition DATAPLANE_PROBE_GAP :: nat where "DATAPLANE_PROBE_GAP = 600"
definition LARGE_PROBE_ID :: u16 where "LARGE_PROBE_ID = 0x4d47"

definition icmp_echo :: "u8 \<Rightarrow> bytes \<Rightarrow> nat \<Rightarrow> bytes" where
  "icmp_echo ty cksum payload_len =
     [ty, 0] @ cksum @ u16_bytes LARGE_PROBE_ID @ u16_bytes 1 @ map (\<lambda>i. of_nat (i mod 251)) [0..<payload_len]"

definition build_large_probe :: "u16 \<Rightarrow> u32 \<Rightarrow> nat \<Rightarrow> bytes" where
  "build_large_probe ident src total_len =
     (let total_len = max total_len 60;
          payload_len = total_len - 20 - 8;
          icmp = icmp_echo 8 (u16_bytes (icmp_checksum (icmp_echo 8 [0x00, 0x00] payload_len))) payload_len;
          hdr = (\<lambda>cksum. wg_ip_header total_len ident [0x40, 0x00] 1 cksum src (v4_new 8 8 8 8))
      in hdr (u16_bytes (ipv4_checksum (hdr [0x00, 0x00]))) @ icmp)"

definition is_large_probe_reply :: "bytes \<Rightarrow> bool rust" where
  "is_large_probe_reply pkt =
     (if length pkt < 28 then Some False
      else do {
        b0 \<leftarrow> idx pkt 0;
        proto \<leftarrow> idx pkt 9;
        if drop_bit 4 b0 \<noteq> 4 \<or> proto \<noteq> 1 then Some False
        else
          let ihl = unat (b0 AND 0x0f) * 4 in
          if length pkt < ihl + 8 then Some False
          else do {
            icmp \<leftarrow> slice_from pkt ihl;
            ty \<leftarrow> idx icmp 0;
            if ty \<noteq> 0 then Some False else do { ident \<leftarrow> field16 icmp 4; Some (ident = LARGE_PROBE_ID) } } })"

lemma length_wg_ip_header [simp]:
  "length (wg_ip_header n ident frag proto c src dst) = 16 + length frag + length c"
  by (simp add: wg_ip_header_def)

lemma length_icmp_echo [simp]: "length (icmp_echo ty c n) = 6 + length c + n"
  by (simp add: icmp_echo_def)

lemma wg_ip_header_valid:
  assumes "length frag = 2"
  shows "ipv4_checksum (wg_ip_header n ident frag proto (u16_bytes (ipv4_checksum (wg_ip_header n ident frag proto [0, 0] src dst))) src dst) = 0"
  using wg_ck.filled_sum [of "[0x45, 0x00] @ u16_bytes (of_nat n) @ u16_bytes ident @ frag @ [64, proto]" "v4_octets src @ v4_octets dst"] assms
  by (simp add: wg_ip_header_def)

lemma icmp_echo_valid:
  assumes "n \<le> 65535"
  shows "icmp_checksum (icmp_echo ty (u16_bytes (icmp_checksum (icmp_echo ty [0, 0] n))) n) = 0"
  using icmp_ck.filled_sum [of "[ty, 0]" "u16_bytes LARGE_PROBE_ID @ u16_bytes 1 @ map (\<lambda>i. of_nat (i mod 251)) [0..<n]"] assms
  by (simp add: icmp_echo_def)

lemma is_large_probe_reply_total: "is_large_probe_reply pkt \<noteq> None"
  by (auto simp: is_large_probe_reply_def Let_def idx_def slice_from_in field16_in)

lemma is_large_probe_reply_echo:
  assumes "length frag = 2" "length c = 2" "length k = 2"
  shows "is_large_probe_reply (wg_ip_header n ident frag 1 c src dst @ icmp_echo ty k m) = Some (ty = 0)"
proof -
  let ?h = "wg_ip_header n ident frag 1 c src dst" and ?i = "icmp_echo ty k m"
  obtain f1 f2 where f: "frag = [f1, f2]" using assms(1) by (auto simp: length_Suc_conv numeral_2_eq_2)
  have h: "(?h @ ?i) ! 0 = 0x45" "(?h @ ?i) ! 9 = 1"
    by (simp_all add: wg_ip_header_def f u16_bytes_eq)
  have d: "drop 20 (?h @ ?i) = ?i" using assms by simp
  obtain k1 k2 where k: "k = [k1, k2]" using assms(3) by (auto simp: length_Suc_conv numeral_2_eq_2)
  have i: "icmp_echo t k m ! 0 = t" "be_u16 (icmp_echo t k m ! 4) (icmp_echo t k m ! 5) = LARGE_PROBE_ID" for t
    by (simp_all add: icmp_echo_def k u16_bytes_eq)
  have l: "length (?h @ ?i) = 28 + m" using assms by simp
  show ?thesis
    using h i l d assms by (simp add: is_large_probe_reply_def Let_def idx_in slice_from_in field16_in)
qed

text \<open>
  The full-size probe does what the measurement needs. For every size from 60 to 65535 bytes it is
  exactly that long, its IPv4 header and its ICMP message have valid checksums, the echo reply that
  the far end makes of it is recognised, whatever header the reply carries, and the probe itself is
  not; and the recogniser never panics.
\<close>

lemma large_probe_measures_its_size:
  assumes "60 \<le> sz" "sz \<le> 65535"
  shows "\<exists>ip icmp. build_large_probe ident src sz = ip @ icmp \<and> length ip = 20 \<and> length (ip @ icmp) = sz
     \<and> ipv4_checksum ip = 0 \<and> icmp_checksum icmp = 0 \<and> is_large_probe_reply (ip @ icmp) = Some False
     \<and> (\<forall>n ident' c src' dst' k. length c = 2 \<longrightarrow> length k = 2 \<longrightarrow>
          is_large_probe_reply (wg_ip_header n ident' [0, 0] 1 c src' dst' @ icmp_echo 0 k (sz - 28)) = Some True)
     \<and> is_large_probe_reply pkt \<noteq> None"
proof -
  let ?n = "sz - 20 - 8" and ?d = "v4_new 8 8 8 8"
  let ?h = "\<lambda>c. wg_ip_header sz ident [0x40, 0x00] 1 c src ?d"
  let ?ip = "?h (u16_bytes (ipv4_checksum (?h [0, 0])))"
  let ?icmp = "icmp_echo 8 (u16_bytes (icmp_checksum (icmp_echo 8 [0, 0] ?n))) ?n"
  have "build_large_probe ident src sz = ?ip @ ?icmp"
    using assms by (simp add: build_large_probe_def Let_def max_def)
  moreover have "length ?ip = 20" "length (?ip @ ?icmp) = sz" using assms by simp_all
  moreover have "ipv4_checksum ?ip = 0" by (rule wg_ip_header_valid) simp
  moreover have "icmp_checksum ?icmp = 0" by (rule icmp_echo_valid) (use assms in simp)
  moreover have "is_large_probe_reply (?ip @ ?icmp) = Some False"
    by (subst is_large_probe_reply_echo) simp_all
  ultimately show ?thesis
    using is_large_probe_reply_total [of pkt] is_large_probe_reply_echo [of "[0, 0]" _ _ _ _ _ _ 0 "sz - 28"]
    by (intro exI [of _ ?ip] exI [of _ ?icmp]) simp
qed

lemma large_probe_measures_its_size_witness:
  "\<exists>ip icmp. build_large_probe 7 9 1200 = ip @ icmp \<and> length (ip @ icmp) = 1200"
  using large_probe_measures_its_size [of 1200 7 9 "[]"] by fastforce


section \<open>Verification of the data plane\<close>

text \<open>What the protocol engine answers; a packet for the tunnel is of either address family.\<close>

datatype tunn_result = TunnDone | TunnErr string | WriteToNetwork bytes | WriteToTunnel bytes

record 't tunn_ops =
  tn_encapsulate :: "'t \<Rightarrow> bytes \<Rightarrow> 't \<times> tunn_result"
  tn_decapsulate :: "'t \<Rightarrow> bytes \<Rightarrow> 't \<times> tunn_result"

text \<open>
  \<open>vd_sent\<close> are the datagrams handed to the socket, \<open>vd_hint\<close> the last value stored in
  \<open>INNER_MTU_HINT\<close>, if any, and \<open>vd_delivered\<close> the packets that came out of the tunnel.
\<close>

record 't verify_state =
  vd_tunn :: 't
  vd_successes :: nat
  vd_rung :: "nat option"
  vd_large_probe :: bytes
  vd_rung_deadline :: nat
  vd_last_probe_at :: nat
  vd_resend_at :: nat
  vd_sent :: "bytes list"
  vd_hint :: "nat option"
  vd_delivered :: "bytes list"

definition send_dataplane_probe :: "'t tunn_ops \<Rightarrow> bytes \<Rightarrow> bytes \<Rightarrow> 't verify_state \<Rightarrow> (unit result \<times> 't verify_state) rust" where
  "send_dataplane_probe ops client_id probe st =
     (case tn_encapsulate ops (vd_tunn st) probe of
        (t, WriteToNetwork pkt) \<Rightarrow> do {
          v \<leftarrow> inject_client_id pkt client_id;
          Some (Inr (), st\<lparr>vd_tunn := t, vd_sent := vd_sent st @ [v]\<rparr>) }
      | (t, TunnErr e) \<Rightarrow> Some (Inl (ErrOther (''dataplane encap: '' @ e)), st\<lparr>vd_tunn := t\<rparr>)
      | (t, _) \<Rightarrow> Some (Inr (), st\<lparr>vd_tunn := t\<rparr>))"

definition resend :: "'t tunn_ops \<Rightarrow> bytes \<Rightarrow> bytes \<Rightarrow> 't verify_state \<Rightarrow> 't verify_state rust" where
  "resend ops client_id probe st = map_option snd (send_dataplane_probe ops client_id probe st)"

text \<open>The arguments of \<open>verify_dataplane\<close> that do not change, with the small probe it builds first.\<close>

record 't verify_env =
  ve_ops :: "'t tunn_ops"
  ve_client_id :: bytes
  ve_local :: u32
  ve_small_probe :: bytes
  ve_deadline :: nat

text \<open>What the wait brings: a datagram or an error, with the clock after it, or nothing.\<close>

datatype wg_event = RecvOk bytes nat | RecvErr string | Slept

datatype ('r, 's) verdict = Finished 'r 's | Running 's

definition on_tunnel_packet ::
  "'t verify_env \<Rightarrow> u16 \<Rightarrow> bytes \<Rightarrow> nat \<Rightarrow> 't verify_state \<Rightarrow> (unit result, 't verify_state) verdict rust" where
  "on_tunnel_packet env rnd pkt now st =
     (let st = st\<lparr>vd_delivered := vd_delivered st @ [pkt]\<rparr> in
      case vd_rung st of
        Some index \<Rightarrow> do {
          hit \<leftarrow> is_large_probe_reply pkt;
          if \<not> hit then Some (Running st)
          else do {
            sz \<leftarrow> idx PROBE_LADDER index;
            Some (Finished (Inr ()) (st\<lparr>vd_hint := Some sz\<rparr>)) } }
      | None \<Rightarrow> do {
          let st = st\<lparr>vd_successes := vd_successes st + 1\<rparr>;
          let next_at = max now (vd_last_probe_at st + DATAPLANE_PROBE_GAP);
          st \<leftarrow> (if vd_successes st \<ge> DATAPLANE_REQUIRED_SUCCESSES then do {
                   sz \<leftarrow> idx PROBE_LADDER 0;
                   let probe = build_large_probe rnd (ve_local env) sz;
                   resend (ve_ops env) (ve_client_id env) probe
                     (st\<lparr>vd_rung := Some 0, vd_large_probe := probe, vd_rung_deadline := next_at + LADDER_STEP_BUDGET\<rparr>) }
                 else resend (ve_ops env) (ve_client_id env) (ve_small_probe env) st);
          Some (Running (st\<lparr>vd_last_probe_at := next_at, vd_resend_at := next_at + 700\<rparr>)) })"

definition verify_wait ::
  "'t verify_env \<Rightarrow> u16 \<Rightarrow> wg_event \<Rightarrow> 't verify_state \<Rightarrow> (unit result, 't verify_state) verdict rust" where
  "verify_wait env rnd ev st =
     (case ev of
        Slept \<Rightarrow> Some (Running st)
      | RecvErr e \<Rightarrow> Some (Finished (Inl (ErrIo e)) st)
      | RecvOk data now \<Rightarrow> do {
          data \<leftarrow> strip_client_id data;
          case tn_decapsulate (ve_ops env) (vd_tunn st) data of
            (t, WriteToTunnel pkt) \<Rightarrow> on_tunnel_packet env rnd pkt now (st\<lparr>vd_tunn := t\<rparr>)
          | (t, WriteToNetwork pkt) \<Rightarrow> do {
              v \<leftarrow> inject_client_id pkt (ve_client_id env);
              Some (Running (st\<lparr>vd_tunn := t, vd_sent := vd_sent st @ [v]\<rparr>)) }
          | (t, _) \<Rightarrow> Some (Running (st\<lparr>vd_tunn := t\<rparr>)) })"

definition ladder_exhausted :: "'t verify_env \<Rightarrow> nat \<Rightarrow> 't verify_state \<Rightarrow> 't verify_state" where
  "ladder_exhausted env now st =
     (if vd_rung st \<noteq> None \<and> now \<ge> vd_rung_deadline st then st\<lparr>vd_rung_deadline := ve_deadline env\<rparr> else st)"

definition verify_resend :: "'t verify_env \<Rightarrow> nat \<Rightarrow> 't verify_state \<Rightarrow> 't verify_state rust" where
  "verify_resend env now st =
     (if now \<ge> vd_resend_at st then do {
        st \<leftarrow> resend (ve_ops env) (ve_client_id env) (if vd_rung st \<noteq> None then vd_large_probe st else ve_small_probe env) st;
        Some (st\<lparr>vd_last_probe_at := now, vd_resend_at := now + 700\<rparr>) }
      else Some st)"

definition verify_step ::
  "'t verify_env \<Rightarrow> nat \<Rightarrow> u16 \<Rightarrow> wg_event \<Rightarrow> 't verify_state \<Rightarrow> (unit result, 't verify_state) verdict rust" where
  "verify_step env now rnd ev st =
     (if now \<ge> ve_deadline env then
        Some (case vd_rung st of
            Some _ \<Rightarrow> Finished (Inr ()) (st\<lparr>vd_hint := Some (last PROBE_LADDER)\<rparr>)
          | None \<Rightarrow> Finished (Inl (ErrOther ''dataplane timeout'')) st)
      else
        let step_down = (case vd_rung st of
            Some i \<Rightarrow> if now \<ge> vd_rung_deadline st then get_at PROBE_LADDER (i + 1) else None
          | None \<Rightarrow> None) in
        case step_down of
          Some sz \<Rightarrow> do {
            let probe = build_large_probe rnd (ve_local env) sz;
            st \<leftarrow> resend (ve_ops env) (ve_client_id env) probe
                    (st\<lparr>vd_rung := map_option Suc (vd_rung st), vd_large_probe := probe, vd_rung_deadline := now + LADDER_STEP_BUDGET\<rparr>);
            Some (Running (st\<lparr>vd_last_probe_at := now, vd_resend_at := now + 700\<rparr>)) }
        | None \<Rightarrow> do {
            st \<leftarrow> verify_resend env now (ladder_exhausted env now st);
            verify_wait env rnd ev st })"

definition verify_start :: "'t verify_env \<Rightarrow> 't \<Rightarrow> nat \<Rightarrow> (unit result \<times> 't verify_state) rust" where
  "verify_start env t now =
     send_dataplane_probe (ve_ops env) (ve_client_id env) (ve_small_probe env)
       \<lparr>vd_tunn = t, vd_successes = 0, vd_rung = None, vd_large_probe = [], vd_rung_deadline = ve_deadline env,
        vd_last_probe_at = now, vd_resend_at = now + 700, vd_sent = [], vd_hint = None, vd_delivered = []\<rparr>"

fun verify_loop ::
  "'t verify_env \<Rightarrow> (nat \<times> u16 \<times> wg_event) list \<Rightarrow> 't verify_state \<Rightarrow> (unit result, 't verify_state) verdict rust" where
  "verify_loop env [] st = Some (Running st)"
| "verify_loop env ((now, rnd, ev) # obs) st = do {
     v \<leftarrow> verify_step env now rnd ev st;
     case v of Finished r st \<Rightarrow> Some (Finished r st) | Running st \<Rightarrow> verify_loop env obs st }"

definition verify_dataplane ::
  "'t verify_env \<Rightarrow> 't \<Rightarrow> nat \<Rightarrow> (nat \<times> u16 \<times> wg_event) list \<Rightarrow> (unit result, 't verify_state) verdict rust" where
  "verify_dataplane env t now obs = do {
     (r, st) \<leftarrow> verify_start env t now;
     case r of Inl e \<Rightarrow> Some (Finished (Inl e) st) | Inr _ \<Rightarrow> verify_loop env obs st }"


section \<open>The verification is sound and ends\<close>

definition verify_inv :: "'t verify_state \<Rightarrow> bool" where
  "verify_inv st \<longleftrightarrow> vd_hint st = None \<and>
     (case vd_rung st of
        None \<Rightarrow> vd_successes st = length (vd_delivered st) \<and> length (vd_delivered st) < DATAPLANE_REQUIRED_SUCCESSES
      | Some i \<Rightarrow> i < length PROBE_LADDER \<and> length (vd_large_probe st) = PROBE_LADDER ! i
          \<and> DATAPLANE_REQUIRED_SUCCESSES \<le> length (vd_delivered st))"

definition verify_done :: "unit result \<Rightarrow> 't verify_state \<Rightarrow> bool" where
  "verify_done r st \<longleftrightarrow>
     (case r of
        Inl _ \<Rightarrow> vd_hint st = None
      | Inr _ \<Rightarrow> DATAPLANE_REQUIRED_SUCCESSES \<le> length (vd_delivered st)
          \<and> (\<exists>h \<in> set PROBE_LADDER. vd_hint st = Some h \<and> (h = last PROBE_LADDER \<or> is_large_probe_reply (last (vd_delivered st)) = Some True)))"

definition verdict_ok :: "(unit result, 't verify_state) verdict \<Rightarrow> bool" where
  "verdict_ok v \<longleftrightarrow> (case v of Finished r st \<Rightarrow> verify_done r st | Running st \<Rightarrow> verify_inv st)"

text \<open>Sending a probe changes nothing but the tunnel state and what was sent.\<close>

lemma send_probe_total:
  assumes "length client_id = 3"
  shows "\<exists>r t sent. send_dataplane_probe ops client_id probe st = Some (r, st\<lparr>vd_tunn := t, vd_sent := sent\<rparr>)"
proof -
  obtain t res where e: "tn_encapsulate ops (vd_tunn st) probe = (t, res)" by fastforce
  have k: "st\<lparr>vd_tunn := t\<rparr> = st\<lparr>vd_tunn := t, vd_sent := vd_sent st\<rparr>" by simp
  show ?thesis
  proof (cases res)
    case (WriteToNetwork pkt)
    obtain p where "inject_client_id pkt client_id = Some p" using inject_total [OF assms, of pkt] by blast
    then have "send_dataplane_probe ops client_id probe st = Some (Inr (), st\<lparr>vd_tunn := t, vd_sent := vd_sent st @ [p]\<rparr>)"
      using e WriteToNetwork by (simp add: send_dataplane_probe_def)
    then show ?thesis by blast
  next
    case (TunnErr m)
    then have "send_dataplane_probe ops client_id probe st = Some (Inl (ErrOther (''dataplane encap: '' @ m)), st\<lparr>vd_tunn := t, vd_sent := vd_sent st\<rparr>)"
      using e k by (simp add: send_dataplane_probe_def)
    then show ?thesis by blast
  qed (use e k in \<open>simp add: send_dataplane_probe_def, blast\<close>)+
qed

lemma resend_total:
  assumes "length client_id = 3"
  obtains t sent where "resend ops client_id probe st = Some (st\<lparr>vd_tunn := t, vd_sent := sent\<rparr>)"
  using send_probe_total [OF assms, of ops probe st] by (auto simp: resend_def)

lemma length_build_large_probe: "60 \<le> n \<Longrightarrow> length (build_large_probe rnd src n) = n"
  by (simp add: build_large_probe_def Let_def max_def)

lemma ladder_simps [simp]: "length PROBE_LADDER = 4" "PROBE_LADDER ! 0 = 1200" "last PROBE_LADDER = 576"
  "576 \<in> set PROBE_LADDER"
  by (simp_all add: PROBE_LADDER_def)

lemma ladder_nth: "i < 4 \<Longrightarrow> 60 \<le> PROBE_LADDER ! i" "i < 4 \<Longrightarrow> PROBE_LADDER ! i \<in> set PROBE_LADDER"
proof -
  show m: "i < 4 \<Longrightarrow> PROBE_LADDER ! i \<in> set PROBE_LADDER" by (simp add: nth_mem)
  show "i < 4 \<Longrightarrow> 60 \<le> PROBE_LADDER ! i" using m by (auto simp: PROBE_LADDER_def)
qed

lemma on_tunnel_packet_ok:
  assumes "length (ve_client_id env) = 3" "verify_inv st"
  shows "\<exists>v. on_tunnel_packet env rnd pkt now st = Some v \<and> verdict_ok v"
proof (cases "vd_rung st")
  case (Some i)
  obtain hit where hit: "is_large_probe_reply pkt = Some hit" using is_large_probe_reply_total by blast
  have "i < 4" "2 \<le> length (vd_delivered st)" "vd_hint st = None" "length (vd_large_probe st) = PROBE_LADDER ! i"
    using assms(2) Some by (simp_all add: verify_inv_def DATAPLANE_REQUIRED_SUCCESSES_def)
  then show ?thesis using Some hit ladder_nth(2) [of i]
    by (cases hit) (simp_all add: on_tunnel_packet_def idx_in verdict_ok_def verify_done_def verify_inv_def DATAPLANE_REQUIRED_SUCCESSES_def)
next
  case None
  let ?st = "st\<lparr>vd_delivered := vd_delivered st @ [pkt], vd_successes := vd_successes st + 1\<rparr>"
  let ?next = "max now (vd_last_probe_at st + DATAPLANE_PROBE_GAP)"
  let ?probe = "build_large_probe rnd (ve_local env) 1200"
  have i: "vd_successes st = length (vd_delivered st)" "length (vd_delivered st) < 2" "vd_hint st = None"
    using assms(2) None by (simp_all add: verify_inv_def DATAPLANE_REQUIRED_SUCCESSES_def)
  show ?thesis
  proof (cases "vd_successes ?st \<ge> 2")
    case True
    let ?st2 = "?st\<lparr>vd_rung := Some 0, vd_large_probe := ?probe, vd_rung_deadline := ?next + LADDER_STEP_BUDGET\<rparr>"
    obtain t sent where "resend (ve_ops env) (ve_client_id env) ?probe ?st2 = Some (?st2\<lparr>vd_tunn := t, vd_sent := sent\<rparr>)"
      by (rule resend_total [OF assms(1)])
    then show ?thesis using True None i
      by (simp add: on_tunnel_packet_def Let_def idx_in DATAPLANE_REQUIRED_SUCCESSES_def verdict_ok_def verify_inv_def length_build_large_probe)
  next
    case False
    obtain t sent where "resend (ve_ops env) (ve_client_id env) (ve_small_probe env) ?st = Some (?st\<lparr>vd_tunn := t, vd_sent := sent\<rparr>)"
      by (rule resend_total [OF assms(1)])
    then show ?thesis using False None i
      by (simp add: on_tunnel_packet_def Let_def DATAPLANE_REQUIRED_SUCCESSES_def verdict_ok_def verify_inv_def not_le)
  qed
qed

lemma verify_inv_cong:
  assumes "verify_inv st"
  shows "verify_inv (st\<lparr>vd_tunn := t\<rparr>)" "verify_inv (st\<lparr>vd_sent := sent\<rparr>)" "verify_inv (st\<lparr>vd_rung_deadline := d\<rparr>)"
    "verify_inv (st\<lparr>vd_last_probe_at := p\<rparr>)" "verify_inv (st\<lparr>vd_resend_at := r\<rparr>)"
  using assms by (simp_all add: verify_inv_def split: option.splits)

lemma verify_wait_ok:
  assumes "length (ve_client_id env) = 3" "verify_inv st"
  shows "\<exists>v. verify_wait env rnd ev st = Some v \<and> verdict_ok v"
proof (cases ev)
  case (RecvOk data now)
  obtain d where d: "strip_client_id data = Some d" using strip_client_total by blast
  obtain t res where e: "tn_decapsulate (ve_ops env) (vd_tunn st) d = (t, res)" by fastforce
  have inv: "verify_inv (st\<lparr>vd_tunn := t\<rparr>)" by (rule verify_inv_cong(1) [OF assms(2)])
  show ?thesis
  proof (cases res)
    case (WriteToTunnel pkt)
    then show ?thesis using on_tunnel_packet_ok [OF assms(1) inv] RecvOk d e by (simp add: verify_wait_def)
  next
    case (WriteToNetwork pkt)
    obtain v where "inject_client_id pkt (ve_client_id env) = Some v" using inject_total [OF assms(1)] by blast
    then show ?thesis using WriteToNetwork RecvOk d e verify_inv_cong(2) [OF inv]
      by (simp add: verify_wait_def verdict_ok_def)
  qed (use RecvOk d e inv in \<open>simp_all add: verify_wait_def verdict_ok_def\<close>)
next
  case (RecvErr e)
  then show ?thesis using assms(2) by (simp add: verify_wait_def verdict_ok_def verify_done_def verify_inv_def)
qed (use assms(2) in \<open>simp add: verify_wait_def verdict_ok_def\<close>)


lemma verify_inv_step_down:
  assumes "verify_inv st" "vd_rung st = Some i" "get_at PROBE_LADDER (i + 1) = Some sz"
  shows "verify_inv (st\<lparr>vd_rung := map_option Suc (vd_rung st), vd_large_probe := build_large_probe rnd src sz, vd_rung_deadline := d,
      vd_tunn := t, vd_sent := sent, vd_last_probe_at := p, vd_resend_at := r\<rparr>)"
  using assms ladder_nth(1) [of "Suc i"]
  by (simp add: verify_inv_def get_at_Some_iff length_build_large_probe)

lemma ladder_exhausted_ok: "verify_inv st \<Longrightarrow> verify_inv (ladder_exhausted env now st)"
  by (simp add: ladder_exhausted_def verify_inv_cong)

lemma verify_resend_ok:
  assumes "length (ve_client_id env) = 3" "verify_inv st"
  shows "\<exists>st'. verify_resend env now st = Some st' \<and> verify_inv st'"
proof (cases "now \<ge> vd_resend_at st")
  case True
  obtain t sent where "resend (ve_ops env) (ve_client_id env) (if vd_rung st \<noteq> None then vd_large_probe st else ve_small_probe env) st
      = Some (st\<lparr>vd_tunn := t, vd_sent := sent\<rparr>)"
    by (rule resend_total [OF assms(1)])
  moreover have "verify_inv (st\<lparr>vd_tunn := t, vd_sent := sent, vd_last_probe_at := now, vd_resend_at := now + 700\<rparr>)"
    using verify_inv_cong(5) [OF verify_inv_cong(4) [OF verify_inv_cong(2) [OF verify_inv_cong(1) [OF assms(2)]]]] by simp
  ultimately show ?thesis using True by (simp add: verify_resend_def)
qed (use assms(2) in \<open>simp add: verify_resend_def\<close>)

lemma verify_step_ok:
  assumes "length (ve_client_id env) = 3" "verify_inv st"
  shows "\<exists>v. verify_step env now rnd ev st = Some v \<and> verdict_ok v
     \<and> (ve_deadline env \<le> now \<longrightarrow> (\<exists>r st'. v = Finished r st'))"
proof (cases "ve_deadline env \<le> now")
  case True
  then show ?thesis using assms(2)
    by (auto simp: verify_step_def verdict_ok_def verify_done_def verify_inv_def split: option.splits)
next
  case False
  let ?down = "case vd_rung st of Some i \<Rightarrow> if now \<ge> vd_rung_deadline st then get_at PROBE_LADDER (i + 1) else None | None \<Rightarrow> None"
  show ?thesis
  proof (cases ?down)
    case (Some sz)
    then obtain i where i: "vd_rung st = Some i" "get_at PROBE_LADDER (i + 1) = Some sz"
      by (auto split: option.splits if_splits)
    let ?probe = "build_large_probe rnd (ve_local env) sz"
    let ?st = "st\<lparr>vd_rung := map_option Suc (vd_rung st), vd_large_probe := ?probe, vd_rung_deadline := now + LADDER_STEP_BUDGET\<rparr>"
    obtain t sent where "resend (ve_ops env) (ve_client_id env) ?probe ?st = Some (?st\<lparr>vd_tunn := t, vd_sent := sent\<rparr>)"
      by (rule resend_total [OF assms(1)])
    then show ?thesis using False Some verify_inv_step_down [OF assms(2) i]
      by (simp add: verify_step_def Let_def verdict_ok_def)
  next
    case None
    from verify_resend_ok [OF assms(1) ladder_exhausted_ok [OF assms(2)]] obtain st2 where
      2: "verify_resend env now (ladder_exhausted env now st) = Some st2" "verify_inv st2" by blast
    have "verify_step env now rnd ev st = verify_wait env rnd ev st2"
      using False by (simp add: verify_step_def None 2(1))
    then show ?thesis using verify_wait_ok [OF assms(1) 2(2)] False by simp
  qed
qed

lemma verify_loop_ok:
  "length (ve_client_id env) = 3 \<Longrightarrow> verify_inv st \<Longrightarrow> \<exists>o' \<in> set obs. ve_deadline env \<le> fst o' \<Longrightarrow>
     \<exists>r st'. verify_loop env obs st = Some (Finished r st') \<and> verify_done r st'"
proof (induction obs arbitrary: st)
  case (Cons ob obs)
  obtain now rnd ev where o: "ob = (now, rnd, ev)" by (cases ob)
  obtain v where v: "verify_step env now rnd ev st = Some v" "verdict_ok v"
      "ve_deadline env \<le> now \<longrightarrow> (\<exists>r st'. v = Finished r st')"
    using verify_step_ok [OF Cons.prems(1,2)] by blast
  show ?case
  proof (cases v)
    case (Finished r st')
    then show ?thesis using v(1,2) o by (simp add: verdict_ok_def)
  next
    case (Running st')
    then have "\<exists>o' \<in> set obs. ve_deadline env \<le> fst o'" "verify_inv st'" using v(2,3) Cons.prems(3) o by (auto simp: verdict_ok_def)
    then show ?thesis using Cons.IH [OF Cons.prems(1)] v(1) o Running by simp
  qed
qed simp


definition sample_verify_env :: "unit verify_env" where
  "sample_verify_env =
     \<lparr>ve_ops = \<lparr>tn_encapsulate = (\<lambda>_ p. ((), WriteToNetwork p)), tn_decapsulate = (\<lambda>_ p. ((), WriteToTunnel p))\<rparr>,
      ve_client_id = [1, 2, 3], ve_local = 9, ve_small_probe = [69], ve_deadline = 5000\<rparr>"


end
