(* ===== verification/Noize.thy ===== *)
theory Noize
  imports Wireguard Fragment
begin

text \<open>
  The decoy packets that are sent before and beside a handshake: \<open>noize.rs\<close> for QUIC and
  \<open>aethernoize.rs\<close> for WireGuard. A call is the list of datagrams it sends, in order; pauses are left out.
  Randomness is a stream of numbers for the draws and of bytes for the contents; the decoder of the
  crate \<open>hex\<close>, the matches of the crate \<open>regex\<close> and the decoded JSON object are parameters.
\<close>

section \<open>QUIC\<close>

record noize_config =
  nz_jc_before_hs :: nat
  nz_jc_after_i1 :: nat
  nz_jmin :: nat
  nz_jmax :: nat
  nz_i1 :: "string option"
  nz_i2 :: "string option"
  nz_junk_interval :: nat

definition mk_noize :: "nat \<Rightarrow> nat \<Rightarrow> nat \<Rightarrow> nat \<Rightarrow> string option \<Rightarrow> string option \<Rightarrow> nat \<Rightarrow> noize_config" where
  "mk_noize b a lo hi i1 i2 gap =
     \<lparr>nz_jc_before_hs = b, nz_jc_after_i1 = a, nz_jmin = lo, nz_jmax = hi, nz_i1 = i1, nz_i2 = i2, nz_junk_interval = gap\<rparr>"

definition noize_off :: noize_config where "noize_off = mk_noize 0 0 0 0 None None 0"
definition noize_firewall :: noize_config where
  "noize_firewall = mk_noize 2 2 48 190 (Some ''<b 0d0a0d0a><t><r 24>'') (Some ''<r 48>'') 4"
definition noize_light :: noize_config where
  "noize_light = mk_noize 1 0 32 96 (Some ''<b 0d0a0d0a><t><r 16>'') None 3"
definition noize_gfw :: noize_config where
  "noize_gfw = mk_noize 2 1 64 256 (Some ''<b 0d0a0d0a><t><r 24>'') (Some ''<r 32>'') 5"

definition noize_is_enabled :: "noize_config \<Rightarrow> bool" where
  "noize_is_enabled c \<longleftrightarrow> nz_jc_before_hs c > 0 \<or> nz_jc_after_i1 c > 0 \<or> nz_i1 c \<noteq> None"

definition noize_from_profile :: "string \<Rightarrow> noize_config" where
  "noize_from_profile name =
     (if name \<in> {''off'', ''none''} then noize_off
      else if name = ''light'' then noize_light
      else if name \<in> {''gfw'', ''aggressive'', ''heavy''} then noize_gfw
      else noize_firewall)"

text \<open>The randomness of a call: draws and contents, each indexed by the packet they belong to.\<close>

record rnd =
  rn_draw :: "nat \<Rightarrow> nat"
  rn_byte :: "nat \<Rightarrow> nat \<Rightarrow> u8"

definition fill_bytes :: "rnd \<Rightarrow> nat \<Rightarrow> nat \<Rightarrow> bytes" where
  "fill_bytes rn k n = map (rn_byte rn k) [0..<n]"

definition junk_packet :: "rnd \<Rightarrow> nat \<Rightarrow> noize_config \<Rightarrow> bytes rust" where
  "junk_packet rn k cfg =
     (let (lo, hi) = (if nz_jmax cfg > nz_jmin cfg \<and> nz_jmin cfg > 0 then (nz_jmin cfg, nz_jmax cfg) else (40, 90))
      in do { n \<leftarrow> random_range (rn_draw rn k) lo hi; Some (fill_bytes rn k n) })"

text \<open>\<open>inner.splitn(2, char::is_whitespace)\<close>: the part before the first white space and the rest.\<close>

fun split_first_ws :: "bytes \<Rightarrow> bytes \<times> bytes" where
  "split_first_ws [] = ([], [])"
| "split_first_ws (x # xs) =
     (case find (\<lambda>w. take (length w) (x # xs) = w) white_space of
        Some w \<Rightarrow> ([], drop (length w) (x # xs))
      | None \<Rightarrow> (case split_first_ws xs of (a, b) \<Rightarrow> (x # a, b)))"

definition noize_tag :: "(string \<Rightarrow> bytes option) \<Rightarrow> u32 \<Rightarrow> u64 \<Rightarrow> rnd \<Rightarrow> nat \<Rightarrow> string \<Rightarrow> bytes" where
  "noize_tag hex_decode now nonce rn k inner =
     (let (tag, data) = split_first_ws (as_bytes (trim inner));
          tag = bytes_str tag; data = trim (bytes_str data)
      in if tag = ''b'' then (case hex_decode (concat (split_whitespace data)) of Some bs \<Rightarrow> bs | None \<Rightarrow> [])
         else if tag = ''t'' then u32_bytes now
         else if tag = ''n'' then be_bytes 8 (unat nonce)
         else if tag = ''r'' then
           fill_bytes rn k (min (case parse_unsigned (2 ^ 64 - 1) data of Some n \<Rightarrow> n | None \<Rightarrow> 0) 1024)
         else [])"

text \<open>The scan for tags: what is outside of angle brackets is skipped.\<close>

function noize_parse_cps :: "(string \<Rightarrow> bytes option) \<Rightarrow> u32 \<Rightarrow> (nat \<Rightarrow> u64) \<Rightarrow> rnd \<Rightarrow> nat \<Rightarrow> string \<Rightarrow> bytes" where
  "noize_parse_cps hex_decode now nonce rn k spec =
     (case split_once CHR ''<'' spec of
        None \<Rightarrow> []
      | Some (_, rest) \<Rightarrow>
          (case split_once CHR ''>'' rest of
             None \<Rightarrow> []
           | Some (inner, more_spec) \<Rightarrow>
               noize_tag hex_decode now (nonce k) rn k inner @ noize_parse_cps hex_decode now nonce rn (Suc k) more_spec))"
  by pat_completeness auto
termination
  by (relation "measure (\<lambda>(_, _, _, _, _, spec). length spec)") (auto dest!: split_once_Some)

declare noize_parse_cps.simps [simp del]

definition signature :: "(string \<Rightarrow> bytes) \<Rightarrow> string option \<Rightarrow> bytes list" where
  "signature parse i = (case i of None \<Rightarrow> [] | Some spec \<Rightarrow> (let pkt = parse spec in if pkt = [] then [] else [pkt]))"

fun junk_packets :: "(nat \<Rightarrow> bytes rust) \<Rightarrow> nat \<Rightarrow> nat \<Rightarrow> bytes list rust" where
  "junk_packets gen k 0 = Some []"
| "junk_packets gen k (Suc n) = do { p \<leftarrow> gen k; ps \<leftarrow> junk_packets gen (Suc k) n; Some (p # ps) }"

definition pre_handshake :: "(string \<Rightarrow> bytes) \<Rightarrow> rnd \<Rightarrow> noize_config \<Rightarrow> bytes list rust" where
  "pre_handshake parse rn cfg =
     (if \<not> noize_is_enabled cfg then Some []
      else do {
        before \<leftarrow> junk_packets (\<lambda>k. junk_packet rn k cfg) 0 (nz_jc_before_hs cfg);
        after \<leftarrow> junk_packets (\<lambda>k. junk_packet rn k cfg) (nz_jc_before_hs cfg) (nz_jc_after_i1 cfg);
        Some (before @ signature parse (nz_i1 cfg) @ after @ signature parse (nz_i2 cfg)) })"

section \<open>WireGuard\<close>

record aether_noize_config =
  an_i1 :: "string option"
  an_i2 :: "string option"
  an_i3 :: "string option"
  an_i4 :: "string option"
  an_i5 :: "string option"
  an_jc :: nat
  an_jc_before_hs :: nat
  an_jc_after_i1 :: nat
  an_jc_after_hs :: nat
  an_jmin :: nat
  an_jmax :: nat
  an_junk_interval :: nat
  an_handshake_delay :: nat
  an_allow_zero_size :: bool

definition mk_aether_noize ::
  "string option list \<Rightarrow> nat \<times> nat \<times> nat \<times> nat \<Rightarrow> nat \<times> nat \<Rightarrow> nat \<times> nat \<Rightarrow> aether_noize_config" where
  "mk_aether_noize sigs jcs bounds delays =
     (case (jcs, bounds, delays) of ((jc, b, a, h), (lo, hi), (gap, delay)) \<Rightarrow>
        \<lparr>an_i1 = sigs ! 0, an_i2 = sigs ! 1, an_i3 = sigs ! 2, an_i4 = sigs ! 3, an_i5 = sigs ! 4,
         an_jc = jc, an_jc_before_hs = b, an_jc_after_i1 = a, an_jc_after_hs = h, an_jmin = lo, an_jmax = hi,
         an_junk_interval = gap, an_handshake_delay = delay, an_allow_zero_size = False\<rparr>)"

definition aether_off :: aether_noize_config where
  "aether_off = mk_aether_noize [None, None, None, None, None] (0, 0, 0, 0) (0, 0) (0, 0)"

definition aether_light :: aether_noize_config where
  "aether_light = mk_aether_noize [Some ''<b 0d0a0d0a><t><r 20-32>'', Some ''<rc 24-48>'', None, None, None]
     (4, 2, 1, 1) (48, 190) (3, 5)"

definition aether_balanced :: aether_noize_config where
  "aether_balanced = mk_aether_noize
     [Some ''<b 0d0a0d0a><t><rc 20-40>'', Some ''<b 504f5354><rd 10-20><rc 20-30>'', Some ''<r 30-50>'', None, None]
     (6, 3, 2, 1) (64, 256) (2, 8)"

definition aether_aggressive :: aether_noize_config where
  "aether_aggressive = mk_aether_noize
     [Some ''<b 0d0a0d0a><t><rc 40-64>'', Some ''<b 504f5354><t><rd 15-30><rc 30-50>'', Some ''<b 474554><rc 40-60>'',
      Some ''<r 60-100>'', Some ''<c><rd 20-40>'']
     (10, 4, 3, 3) (80, 384) (1, 12)"

definition aether_is_enabled :: "aether_noize_config \<Rightarrow> bool" where
  "aether_is_enabled c \<longleftrightarrow> an_jc c > 0 \<or> an_i1 c \<noteq> None"

definition aether_from_profile :: "string \<Rightarrow> aether_noize_config" where
  "aether_from_profile name =
     (if name \<in> {''off'', ''none''} then aether_off
      else if name = ''light'' then aether_light
      else if name \<in> {''aggressive'', ''heavy''} then aether_aggressive
      else aether_balanced)"

text \<open>The decoded JSON object; \<open>with_manual\<close> gets the error text of the decoder instead when there is none.\<close>

record manual_parameters =
  mp_jc :: "nat option"
  mp_jmin :: "nat option"
  mp_jmax :: "nat option"
  mp_i1 :: "string option"
  mp_i2 :: "string option"

definition over :: "nat \<Rightarrow> nat option \<Rightarrow> bool" where
  "over limit v = (case v of None \<Rightarrow> False | Some n \<Rightarrow> n > limit)"

definition override_pattern :: "string option \<Rightarrow> string option \<Rightarrow> string option" where
  "override_pattern v old = (case v of None \<Rightarrow> old | Some p \<Rightarrow> if trim p = [] then None else Some p)"

definition en_dash :: string where "en_dash = [CHR 0xE2, CHR 0x80, CHR 0x93]"

definition with_manual :: "string \<Rightarrow> string + manual_parameters \<Rightarrow> string + aether_noize_config" where
  "with_manual profile decoded =
     (case decoded of
        Inl e \<Rightarrow> Inl (''advanced obfuscation parameters: '' @ e)
      | Inr mp \<Rightarrow>
          if over 10 (mp_jc mp) then Inl (''advanced obfuscation Jc must be 0'' @ en_dash @ ''10'')
          else if over 1024 (mp_jmin mp) \<or> over 1024 (mp_jmax mp) then Inl (''advanced obfuscation Jmin/Jmax must be 0'' @ en_dash @ ''1024'')
          else if (case (mp_jmin mp, mp_jmax mp) of (Some lo, Some hi) \<Rightarrow> hi < lo | _ \<Rightarrow> False)
            then Inl ''advanced obfuscation Jmax must be at least Jmin''
          else if over 2048 (map_option length (mp_i1 mp)) \<or> over 2048 (map_option length (mp_i2 mp))
            then Inl ''advanced obfuscation packet patterns are limited to 2048 characters''
          else
            let config = aether_from_profile profile;
                config = (case mp_jc mp of None \<Rightarrow> config
                  | Some v \<Rightarrow> config\<lparr>an_jc := v, an_jc_before_hs := v div 2, an_jc_after_i1 := v - (v div 2 + an_jc_after_hs config)\<rparr>);
                config = (case mp_jmin mp of None \<Rightarrow> config | Some v \<Rightarrow> config\<lparr>an_jmin := v\<rparr>);
                config = (case mp_jmax mp of None \<Rightarrow> config | Some v \<Rightarrow> config\<lparr>an_jmax := v\<rparr>)
            in Inr (config\<lparr>an_i1 := override_pattern (mp_i1 mp) (an_i1 config), an_i2 := override_pattern (mp_i2 mp) (an_i2 config)\<rparr>))"

definition cps_range :: "nat \<Rightarrow> string \<Rightarrow> nat rust" where
  "cps_range r data =
     (let single = min (case parse_unsigned (2 ^ 64 - 1) (trim data) of Some n \<Rightarrow> n | None \<Rightarrow> 0) 2048;
          num = (\<lambda>t. case parse_unsigned (2 ^ 64 - 1) (trim t) of Some n \<Rightarrow> n | None \<Rightarrow> 0)
      in case split_char CHR ''-'' data of
           lo # hi # _ \<Rightarrow>
             if num hi > num lo \<and> num lo > 0 then do { n \<leftarrow> random_range r (num lo) (num hi); Some (min n 2048) }
             else Some single
         | _ \<Rightarrow> Some single)"

definition letters :: bytes where
  "letters = as_bytes ''abcdefghijklmnopqrstuvwxyzABCDEFGHIJKLMNOPQRSTUVWXYZ''"

definition digits :: bytes where "digits = as_bytes ''0123456789''"

text \<open>A random index into a table is a byte of the stream reduced to the length of the table.\<close>

definition fill_from :: "bytes \<Rightarrow> rnd \<Rightarrow> nat \<Rightarrow> nat \<Rightarrow> bytes" where
  "fill_from table rn k n = map (\<lambda>b. table ! (unat b mod length table)) (fill_bytes rn k n)"

definition strip_0x :: "string \<Rightarrow> string" where
  "strip_0x s = (case strip_prefix ''0x'' s of Some r \<Rightarrow> r
     | None \<Rightarrow> (case strip_prefix ''0X'' s of Some r \<Rightarrow> r | None \<Rightarrow> s))"

definition cps_tag :: "(string \<Rightarrow> bytes option) \<Rightarrow> nat \<Rightarrow> rnd \<Rightarrow> nat \<Rightarrow> string \<times> string \<Rightarrow> bytes rust" where
  "cps_tag hex_decode now rn k m =
     (let tag = fst m; data = trim (snd m) in
      if tag = ''b'' then Some (case hex_decode (strip_0x (concat (split_whitespace data))) of Some bs \<Rightarrow> bs | None \<Rightarrow> [])
      else if tag = ''t'' then Some (u32_bytes (of_nat now))
      else if tag = ''c'' then Some (u32_bytes (of_nat (now mod 0xFFFFFFFF)))
      else if tag = ''r'' then do { n \<leftarrow> cps_range (rn_draw rn k) data; Some (fill_bytes rn k n) }
      else if tag = ''rc'' then do { n \<leftarrow> cps_range (rn_draw rn k) data; Some (fill_from letters rn k n) }
      else if tag = ''rd'' then do { n \<leftarrow> cps_range (rn_draw rn k) data; Some (fill_from digits rn k n) }
      else Some [])"

fun cps_tags :: "(string \<Rightarrow> bytes option) \<Rightarrow> nat \<Rightarrow> rnd \<Rightarrow> nat \<Rightarrow> (string \<times> string) list \<Rightarrow> bytes rust" where
  "cps_tags hex_decode now rn k [] = Some []"
| "cps_tags hex_decode now rn k (m # ms) = do {
     a \<leftarrow> cps_tag hex_decode now rn k m; b \<leftarrow> cps_tags hex_decode now rn (Suc k) ms; Some (a @ b) }"

definition wrap_ikev2 :: "rnd \<Rightarrow> bytes \<Rightarrow> bytes" where
  "wrap_ikev2 rn payload =
     (if payload = [] then payload
      else let initiator = (if length payload \<ge> 8 then take 8 payload else fill_bytes rn 0 8);
               total_length = 28 + 24 + of_nat (length payload) :: u32;
               sa_payload_length = 24 + of_nat (length payload) :: u16
           in initiator @ fill_bytes rn 1 8 @ [0x21, 0x20, 0x22, 0x08, 0, 0, 0, 0] @ u32_bytes total_length
              @ [0, 0] @ u16_bytes sa_payload_length
              @ [0x00, 0x00, 0x00, 0x14, 0x01, 0x01, 0x00, 0x04, 0x03, 0x00, 0x00, 0x08, 0x01, 0x00, 0x00,
                 0x0c, 0x00, 0x00, 0x00, 0x00]
              @ payload)"

definition generate_junk :: "rnd \<Rightarrow> nat \<Rightarrow> aether_noize_config \<Rightarrow> bytes rust" where
  "generate_junk rn k cfg =
     (let zero = an_allow_zero_size cfg; lo = an_jmin cfg; hi = an_jmax cfg in
      if lo = 0 \<and> hi = 0 then Some (if zero then [] else [0x00])
      else let (min_size, max_size) =
                 (if hi = 0 \<and> \<not> zero then (max lo 1, max lo 1)
                  else if \<not> zero then (max lo 1, max hi lo)
                  else (lo, max hi lo))
           in do {
             n \<leftarrow> (if max_size = min_size then Some min_size else random_range (rn_draw rn k) min_size max_size);
             Some (if n = 0 then (if zero then [] else [0x00]) else fill_bytes rn k n) })"

text \<open>\<open>cps\<close> is \<open>parse_cps\<close>: a pattern gives the bytes of its tags.\<close>

definition cps_packet :: "(string \<Rightarrow> bytes rust) \<Rightarrow> string option \<Rightarrow> bytes list rust" where
  "cps_packet cps i = (case i of None \<Rightarrow> Some [] | Some spec \<Rightarrow> do { p \<leftarrow> cps spec; Some (if p = [] then [] else [p]) })"

definition apply_obfuscation :: "(string \<Rightarrow> bytes rust) \<Rightarrow> rnd \<Rightarrow> aether_noize_config \<Rightarrow> bytes list rust" where
  "apply_obfuscation cps rn cfg =
     (if \<not> aether_is_enabled cfg then Some []
      else do {
        first \<leftarrow> cps_packet cps (an_i1 cfg);
        after \<leftarrow> junk_packets (\<lambda>k. generate_junk rn k cfg) 0 (an_jc_after_i1 cfg);
        before \<leftarrow> junk_packets (\<lambda>k. generate_junk rn k cfg) (an_jc_after_i1 cfg) (an_jc_before_hs cfg);
        s2 \<leftarrow> cps_packet cps (an_i2 cfg);
        s3 \<leftarrow> cps_packet cps (an_i3 cfg);
        s4 \<leftarrow> cps_packet cps (an_i4 cfg);
        s5 \<leftarrow> cps_packet cps (an_i5 cfg);
        Some (map (wrap_ikev2 rn) first @ after @ before @ s2 @ s3 @ s4 @ s5) })"

definition send_post_handshake_junk :: "rnd \<Rightarrow> aether_noize_config \<Rightarrow> bytes list rust" where
  "send_post_handshake_junk rn cfg = junk_packets (\<lambda>k. generate_junk rn k cfg) 0 (an_jc_after_hs cfg)"

definition disguise_first :: "bytes \<Rightarrow> bytes" where
  "disguise_first junk = (case junk of [] \<Rightarrow> [] | b # bs \<Rightarrow> (if 1 \<le> b \<and> b \<le> 4 then b + 0x40 else b) # bs)"

definition send_keepalive_junk :: "rnd \<Rightarrow> aether_noize_config \<Rightarrow> bytes list rust" where
  "send_keepalive_junk rn cfg =
     (if \<not> aether_is_enabled cfg then Some []
      else let base = max (an_jc_before_hs cfg) 1 in do {
        extra \<leftarrow> random_range (rn_draw rn 0) 0 base;
        ps \<leftarrow> junk_packets (\<lambda>k. generate_junk rn k cfg) 1 (base + extra);
        Some (map disguise_first ps) })"

section \<open>Decoys stay within their bounds\<close>

lemma length_fill_bytes [simp]: "length (fill_bytes rn k n) = n"
  by (simp add: fill_bytes_def)

lemma random_range_cases: "lo \<le> hi \<Longrightarrow> \<exists>n. random_range r lo hi = Some n \<and> lo \<le> n \<and> n \<le> hi"
  using range_bound [of lo hi r] by (simp add: random_range_def)

lemma junk_packet_bounds: "\<exists>p. junk_packet rn k cfg = Some p \<and> 1 \<le> length p \<and> length p \<le> max 90 (nz_jmax cfg)"
proof (cases "nz_jmin cfg < nz_jmax cfg \<and> 0 < nz_jmin cfg")
  case True
  then show ?thesis using random_range_cases [of "nz_jmin cfg" "nz_jmax cfg" "rn_draw rn k"] by (auto simp: junk_packet_def)
next
  case False
  then show ?thesis using random_range_cases [of 40 90 "rn_draw rn k"] by (auto simp: junk_packet_def)
qed

lemma pick_size_cases:
  "lo \<le> hi \<Longrightarrow> \<exists>n. (if hi = lo then Some lo else random_range r lo hi) = Some n \<and> lo \<le> n \<and> n \<le> hi"
  using random_range_cases [of lo hi r] by auto

lemma generate_junk_bounds:
  "\<exists>p. generate_junk rn k cfg = Some p \<and> length p \<le> max 1 (max (an_jmin cfg) (an_jmax cfg)) \<and> (an_allow_zero_size cfg \<or> p \<noteq> [])"
proof (cases "an_jmin cfg = 0 \<and> an_jmax cfg = 0")
  case True
  then show ?thesis by (simp add: generate_junk_def)
next
  case False
  define lo where "lo = (if an_allow_zero_size cfg then an_jmin cfg else max (an_jmin cfg) 1)"
  define hi where "hi = (if an_jmax cfg = 0 \<and> \<not> an_allow_zero_size cfg then max (an_jmin cfg) 1 else max (an_jmax cfg) (an_jmin cfg))"
  have le: "lo \<le> hi" "hi \<le> max 1 (max (an_jmin cfg) (an_jmax cfg))" "an_allow_zero_size cfg \<or> 1 \<le> lo"
    using False by (auto simp: lo_def hi_def)
  obtain n where n: "(if hi = lo then Some lo else random_range (rn_draw rn k) lo hi) = Some n" "lo \<le> n" "n \<le> hi"
    using pick_size_cases [OF le(1), of "rn_draw rn k"] by blast
  have "generate_junk rn k cfg = do {
      n \<leftarrow> (if hi = lo then Some lo else random_range (rn_draw rn k) lo hi);
      Some (if n = 0 then (if an_allow_zero_size cfg then [] else [0x00]) else fill_bytes rn k n) }"
    using False by (auto simp: generate_junk_def lo_def hi_def Let_def)
  moreover have "fill_bytes rn k n \<noteq> []" if "0 < n" using that length_fill_bytes [of rn k n] by (metis length_0_conv not_gr_zero)
  ultimately show ?thesis using n le by auto
qed

lemma junk_packets_all:
  assumes "\<And>k. \<exists>p. gen k = Some p \<and> P p"
  shows "\<exists>ps. junk_packets gen k n = Some ps \<and> length ps = n \<and> (\<forall>p \<in> set ps. P p)"
proof (induction n arbitrary: k)
  case (Suc n)
  from assms [of k] Suc [of "Suc k"] show ?case by auto
qed simp

text \<open>
  The datagrams beside an established tunnel are never mistaken for a WireGuard message: no setting makes
  the call panic, every datagram is at most as long as the larger of the two bounds (and one byte), and
  none begins with a message type.
\<close>

lemma disguise_first_no_message: "length (disguise_first p) = length p" "wg_message (disguise_first p) = Some False"
proof -
  show "length (disguise_first p) = length p" by (cases p) (simp_all add: disguise_first_def)
  have "4 < b + 0x40" if "1 \<le> b" "b \<le> (4::u8)" for b
    using that by (simp add: word_le_nat_alt word_less_nat_alt unat_word_ariths)
  then show "wg_message (disguise_first p) = Some False"
    by (cases p) (auto simp: disguise_first_def wg_message_def WG_MSG_TYPE_MIN_def WG_MSG_TYPE_MAX_def idx_in not_le not_less)
qed

lemma keepalive_junk_is_no_message:
  "\<exists>ps. send_keepalive_junk rn cfg = Some ps \<and> length ps \<le> 2 * max (an_jc_before_hs cfg) 1
     \<and> (\<forall>p \<in> set ps. length p \<le> max 1 (max (an_jmin cfg) (an_jmax cfg)) \<and> wg_message p = Some False)"
proof (cases "aether_is_enabled cfg")
  case True
  let ?base = "max (an_jc_before_hs cfg) 1"
  obtain extra where x: "random_range (rn_draw rn 0) 0 ?base = Some extra" "extra \<le> ?base" using random_range_cases [of 0 ?base] by blast
  obtain ps where "junk_packets (\<lambda>k. generate_junk rn k cfg) 1 (?base + extra) = Some ps" "length ps = ?base + extra"
    "\<forall>p \<in> set ps. length p \<le> max 1 (max (an_jmin cfg) (an_jmax cfg))"
    using junk_packets_all [of "\<lambda>k. generate_junk rn k cfg" "\<lambda>p. length p \<le> max 1 (max (an_jmin cfg) (an_jmax cfg))" 1 "?base + extra"]
      generate_junk_bounds by metis
  then show ?thesis using True x by (auto simp: send_keepalive_junk_def Let_def disguise_first_no_message)
qed (simp add: send_keepalive_junk_def)

text \<open>
  The counts of a configuration that the user changed: at most ten datagrams before the handshake, sizes
  of at most 1024 bytes or those of the profile, and a bound on every call.
\<close>

lemma with_manual_bounds:
  assumes "with_manual profile (Inr mp) = Inr cfg" "mp_jc mp = Some v"
  shows "an_jc cfg = v \<and> v \<le> 10 \<and> an_jc_before_hs cfg + an_jc_after_i1 cfg \<le> v"
  using assms by (auto simp: with_manual_def over_def Let_def split: if_splits option.splits)

text \<open>The framed signature is as long as its header says.\<close>

lemma wrap_ikev2_length:
  assumes "payload \<noteq> []" "length payload < 2 ^ 31"
  shows "length (wrap_ikev2 rn payload) = 52 + length payload
    \<and> be_val (take 4 (drop 24 (wrap_ikev2 rn payload))) = length (wrap_ikev2 rn payload)"
proof -
  define ini where "ini = (if 8 \<le> length payload then take 8 payload else fill_bytes rn 0 8)"
  have l: "length ini = 8" by (simp add: ini_def)
  define t where "t = (28 + 24 + of_nat (length payload) :: u32)"
  have "unat t = 52 + length payload" using assms(2) by (simp add: t_def unat_word_ariths)
  moreover have "wrap_ikev2 rn payload = (ini @ fill_bytes rn 1 8 @ [0x21, 0x20, 0x22, 0x08, 0, 0, 0, 0]) @ u32_bytes t
      @ [0, 0] @ u16_bytes (24 + of_nat (length payload)) @ [0x00, 0x00, 0x00, 0x14, 0x01, 0x01, 0x00, 0x04, 0x03, 0x00, 0x00, 0x08, 0x01, 0x00, 0x00,
                 0x0c, 0x00, 0x00, 0x00, 0x00] @ payload"
    using assms(1) by (simp add: wrap_ikev2_def Let_def ini_def t_def)
  ultimately show ?thesis using l assms(2) by (simp add: u32_bytes_def be_val_be_bytes)
qed

end
