(* ===== verification/Session.thy ===== *)
theory Session
  imports Dial Noize
begin

text \<open>
  The connect loops of \<open>core/aether/src/main.rs\<close>: plain WireGuard with its obfuscation profiles, the endpoint
  that rests after two failures and the search that leaves it out; WARP in WARP; and MASQUE in
  MASQUE, with the choice of an inner edge. The endpoint of the last connection is kept in a file
  (\<open>lastconn.rs\<close>). Each loop runs until the process ends, so it is modelled as one turn, and a run is a list
  of turns, each with the time at which it begins. What one verification, one search or one tunnel gives
  is a parameter, numbered by the call.
\<close>

section \<open>The last connection\<close>

record last_connection =
  lc_peer :: string
  lc_profile :: string

definition write_file :: "fs_io \<Rightarrow> path \<Rightarrow> bytes \<Rightarrow> fs \<Rightarrow> fs" where
  "write_file io p bs f =
     (case io_open io of
        Some _ \<Rightarrow> f
      | None \<Rightarrow>
          let f = f(p \<mapsto> \<lparr>fn_data = [], fn_mode = (case f p of Some n \<Rightarrow> fn_mode n | None \<Rightarrow> 6 * 64 + 4 * 8 + 4)\<rparr>) in
          (case io_write io of Some (k, _) \<Rightarrow> write_data p (take k bs) f | None \<Rightarrow> write_data p bs f))"

definition lastconn_load :: "(string \<Rightarrow> last_connection option) \<Rightarrow> fs_io \<Rightarrow> path \<Rightarrow> fs \<Rightarrow> last_connection option" where
  "lastconn_load parse io p f = (case read_to_string io p f of Inl _ \<Rightarrow> None | Inr s \<Rightarrow> parse s)"

definition lastconn_save ::
  "(last_connection \<Rightarrow> string option) \<Rightarrow> fs_io \<Rightarrow> path \<Rightarrow> string \<Rightarrow> string \<Rightarrow> fs \<Rightarrow> fs" where
  "lastconn_save print io p peer profile f =
     (case print \<lparr>lc_peer = peer, lc_profile = profile\<rparr> of
        Some s \<Rightarrow> write_file io p (as_bytes s) f
      | None \<Rightarrow> f)"

lemma lastconn_roundtrip:
  assumes "print \<lparr>lc_peer = peer, lc_profile = profile\<rparr> = Some s" "parse s = Some \<lparr>lc_peer = peer, lc_profile = profile\<rparr>"
    and "utf8_valid (as_bytes s)" "io_open io = None" "io_write io = None" "io_read io' = None"
  shows "lastconn_load parse io' p (lastconn_save print io p peer profile f) = Some \<lparr>lc_peer = peer, lc_profile = profile\<rparr>"
  using assms by (simp add: lastconn_load_def lastconn_save_def write_file_def write_data_def read_to_string_def from_utf8_def Let_def)


section \<open>Plain WireGuard: profiles and the search\<close>

definition WG_PORTS :: "u16 list" where
  "WG_PORTS =
     [2408, 500, 1701, 4500, 854, 859, 864, 878, 880, 890, 891, 894, 903, 908, 928, 934, 939, 942,
      943, 945, 946, 955, 968, 987, 988, 1002, 1010, 1014, 1018, 1070, 1074, 1180, 1387, 1843, 2371,
      2506, 3138, 3476, 3581, 3854, 4177, 4198, 4233, 5279, 5956, 7103, 7152, 7156, 7281, 7559, 8319,
      8742, 8854, 8886]"

definition wg_keepalive_secs :: "(string \<rightharpoonup> string) \<Rightarrow> nat" where
  "wg_keepalive_secs env =
     (case Option.bind (env ''AETHER_WG_KEEPALIVE'') (parse_unsigned 65535) of Some v \<Rightarrow> if v > 0 then v else 5 | None \<Rightarrow> 5)"

definition wg_reconnect_delay :: "(string \<rightharpoonup> string) \<Rightarrow> nat" where
  "wg_reconnect_delay env = env_secs env ''AETHER_WG_RECONNECT_SECS'' 2"

definition wg_endpoint_cooldown :: "(string \<rightharpoonup> string) \<Rightarrow> nat" where
  "wg_endpoint_cooldown env = env_secs env ''AETHER_WG_ENDPOINT_COOLDOWN_SECS'' 300"

definition wg_tunnel_validate_timeout :: "(string \<rightharpoonup> string) \<Rightarrow> nat" where
  "wg_tunnel_validate_timeout env = env_secs env ''AETHER_WG_VALIDATE_SECS'' 10"

definition add_profile :: "string \<Rightarrow> string list \<Rightarrow> string list" where
  "add_profile fallback names = (if list_ex (\<lambda>n. str_eq_ignore_case n fallback) names then names else names @ [fallback])"

text \<open>\<open>manual\<close> is the decoded JSON object of the advanced parameters, or the error of the decoder.\<close>

definition wg_profile_candidates ::
  "string \<Rightarrow> (string + manual_parameters) option \<Rightarrow> bool \<Rightarrow> (string \<times> aether_noize_config) list result" where
  "wg_profile_candidates primary manual retry_fallbacks =
     (case manual of
        Some raw \<Rightarrow> (case with_manual primary raw of Inl e \<Rightarrow> Inl (ErrOther e) | Inr config \<Rightarrow> Inr [(''manual'', config)])
      | None \<Rightarrow>
          let names = (if retry_fallbacks then fold add_profile [''balanced'', ''aggressive'', ''light'', ''off''] [primary]
                       else [primary])
          in Inr (map (\<lambda>n. (n, aether_from_profile n)) names))"

type_synonym wg_choice = "socket_addr \<times> aether_noize_config \<times> string"

text \<open>
  The surroundings of a WireGuard session: the outcome of each verification (of an endpoint, with a
  profile, within a number of seconds), and for each search its random draws, what its probes do and
  when it begins.
\<close>

record wg_world =
  ww_verify :: "nat \<Rightarrow> socket_addr \<Rightarrow> aether_noize_config \<Rightarrow> nat \<Rightarrow> nat result"
  ww_zero_trust :: bool
  ww_has_ipv6 :: bool
  ww_d4 :: "nat \<Rightarrow> string \<Rightarrow> nat list"
  ww_d6 :: "nat \<Rightarrow> string \<Rightarrow> nat \<Rightarrow> nat \<times> u32"
  ww_probe :: "nat \<Rightarrow> aether_noize_config \<Rightarrow> (ip_addr \<times> u16) list \<Rightarrow> (nat \<times> hunt_event) list"
  ww_begins :: "nat \<Rightarrow> nat"
  ww_lower :: "string \<Rightarrow> string"

definition hunt_wg_peer_with_profile ::
  "wg_world \<Rightarrow> nat \<Rightarrow> identity \<Rightarrow> string \<Rightarrow> ip_scan \<Rightarrow> aether_noize_config \<Rightarrow> (ip_addr \<times> u16) list \<Rightarrow> socket_addr result option" where
  "hunt_wg_peer_with_profile W k i mode_str ip profile excluded =
     (case parse_ipv4 (i_ipv4 i) of
        None \<Rightarrow> Some (Inl (ErrOther ''invalid ipv4''))
      | Some _ \<Rightarrow>
          map_option (map_sum id (\<lambda>best. \<lparr>sa_ip = pb_ip best, sa_port = pb_port best\<rparr>))
            (hunt_best_wg_endpoint (ww_zero_trust W) (ww_has_ipv6 W) (ww_d4 W k) (ww_d6 W k)
               (scan_mode_parse (ww_lower W) mode_str) WG_PORTS ip excluded (ww_probe W k profile) (ww_begins W k)))"

text \<open>The number of calls made so far is handed through.\<close>

fun hunt_wg_peer ::
  "wg_world \<Rightarrow> identity \<Rightarrow> string \<Rightarrow> ip_scan \<Rightarrow> (ip_addr \<times> u16) list \<Rightarrow> (string \<times> aether_noize_config) list \<Rightarrow> nat
     \<Rightarrow> (nat \<times> wg_choice result) option" where
  "hunt_wg_peer W i mode_str ip excluded [] k = Some (k, Inl ErrNoCleanEndpoint)"
| "hunt_wg_peer W i mode_str ip excluded ((name, profile) # cs) k =
     (case hunt_wg_peer_with_profile W k i mode_str ip profile excluded of
        None \<Rightarrow> None
      | Some (Inr peer) \<Rightarrow> Some (Suc k, Inr (peer, profile, name))
      | Some (Inl _) \<Rightarrow> hunt_wg_peer W i mode_str ip excluded cs (Suc k))"

text \<open>An endpoint is tried with one profile after the other.\<close>

fun first_profile ::
  "wg_world \<Rightarrow> nat \<Rightarrow> socket_addr \<Rightarrow> (string \<times> aether_noize_config) list \<Rightarrow> nat \<Rightarrow> nat \<times> wg_choice option" where
  "first_profile W secs peer [] k = (k, None)"
| "first_profile W secs peer ((name, profile) # cs) k =
     (case ww_verify W k peer profile secs of
        Inr _ \<Rightarrow> (Suc k, Some (peer, profile, name))
      | Inl _ \<Rightarrow> first_profile W secs peer cs (Suc k))"


section \<open>Plain WireGuard: the loop\<close>

record wg_loop =
  wl_quick :: "wg_choice option"
  wl_last_good :: "wg_choice option"
  wl_fails :: nat
  wl_cooldowns :: "(socket_addr \<times> nat) list"
  wl_calls :: nat
  wl_saved :: "last_connection option"

record wg_options =
  wo_identity :: identity
  wo_forced :: "socket_addr option"
  wo_candidates :: "(string \<times> aether_noize_config) list"
  wo_manual :: bool
  wo_mode :: string
  wo_ip :: ip_scan
  wo_env :: "string \<rightharpoonup> string"
  wo_show :: "socket_addr \<Rightarrow> string"

definition MAX_CONSECUTIVE_FAILS :: nat where "MAX_CONSECUTIVE_FAILS = 2"

definition wg_start :: "wg_loop" where
  "wg_start = \<lparr>wl_quick = None, wl_last_good = None, wl_fails = 0, wl_cooldowns = [], wl_calls = 0, wl_saved = None\<rparr>"

definition wg_try_assigned :: "wg_world \<Rightarrow> wg_options \<Rightarrow> wg_loop \<Rightarrow> wg_loop" where
  "wg_try_assigned W opts s =
     (if wo_forced opts \<noteq> None then s
      else case Option.bind (wo_env opts ''AETHER_TEAM_ENDPOINT'') parse_socket_addr of
        None \<Rightarrow> s
      | Some assigned \<Rightarrow>
          (case first_profile W 8 assigned (wo_candidates opts) (wl_calls s) of
             (k, q) \<Rightarrow> s\<lparr>wl_quick := q, wl_calls := k\<rparr>))"

definition wg_try_cached :: "wg_world \<Rightarrow> wg_options \<Rightarrow> last_connection option \<Rightarrow> string option \<Rightarrow> wg_loop \<Rightarrow> wg_loop" where
  "wg_try_cached W opts cached answer s =
     (if wo_forced opts \<noteq> None \<or> wl_quick s \<noteq> None \<or> wo_manual opts then s
      else case cached of
        None \<Rightarrow> s
      | Some c \<Rightarrow>
          (case parse_socket_addr (lc_peer c) of
             None \<Rightarrow> s
           | Some peer \<Rightarrow>
               if want_quick_reconnect (wo_env opts) answer then
                 let profile = aether_from_profile (lc_profile c) in
                 (case ww_verify W (wl_calls s) peer profile 6 of
                    Inr _ \<Rightarrow> s\<lparr>wl_quick := Some (peer, profile, lc_profile c), wl_calls := Suc (wl_calls s)\<rparr>
                  | Inl _ \<Rightarrow> s\<lparr>wl_calls := Suc (wl_calls s)\<rparr>)
               else s))"

definition wg_cool :: "wg_options \<Rightarrow> nat \<Rightarrow> wg_loop \<Rightarrow> wg_loop" where
  "wg_cool opts now s =
     (let s = s\<lparr>wl_cooldowns := filter (\<lambda>(_, t). now < t) (wl_cooldowns s)\<rparr> in
      if wl_fails s \<ge> MAX_CONSECUTIVE_FAILS then
        (case wl_last_good s of
           Some (peer, _) \<Rightarrow>
             s\<lparr>wl_last_good := None, wl_fails := 0,
               wl_cooldowns := (peer, now + 1000 * wg_endpoint_cooldown (wo_env opts)) # filter (\<lambda>(p, _). p \<noteq> peer) (wl_cooldowns s)\<rparr>
         | None \<Rightarrow> s\<lparr>wl_fails := 0\<rparr>)
      else s)"

definition wg_excluded :: "wg_loop \<Rightarrow> (ip_addr \<times> u16) list" where
  "wg_excluded s = map (\<lambda>(p, _). (sa_ip p, sa_port p)) (wl_cooldowns s)"

definition wg_hunt :: "wg_world \<Rightarrow> wg_options \<Rightarrow> wg_loop \<Rightarrow> (wg_loop \<times> wg_choice option) option" where
  "wg_hunt W opts s =
     map_option (\<lambda>(k, r). (s\<lparr>wl_calls := k\<rparr>, case r of Inr c \<Rightarrow> Some c | Inl _ \<Rightarrow> None))
       (hunt_wg_peer W (wo_identity opts) (wo_mode opts) (wo_ip opts) (wg_excluded s) (wo_candidates opts) (wl_calls s))"

text \<open>The endpoint of this turn; none when a search failed, and then the loop begins again after a pause.\<close>

definition wg_retry :: "wg_world \<Rightarrow> wg_loop \<Rightarrow> wg_loop \<times> wg_choice option" where
  "wg_retry W s =
     (case wl_last_good s of
        Some (peer, profile, name) \<Rightarrow>
          (s\<lparr>wl_calls := Suc (wl_calls s)\<rparr>,
           case ww_verify W (wl_calls s) peer profile 6 of Inr _ \<Rightarrow> Some (peer, profile, name) | Inl _ \<Rightarrow> None)
      | None \<Rightarrow> (s, None))"

definition wg_pick :: "wg_world \<Rightarrow> wg_options \<Rightarrow> wg_loop \<Rightarrow> (wg_loop \<times> wg_choice option) option" where
  "wg_pick W opts s =
     (case wl_quick s of
        Some q \<Rightarrow> Some (s\<lparr>wl_quick := None\<rparr>, Some q)
      | None \<Rightarrow>
          (case wg_retry W s of
             (s, Some c) \<Rightarrow> Some (s, Some c)
           | (s, None) \<Rightarrow>
               (case wo_forced opts of
                  None \<Rightarrow> wg_hunt W opts s
                | Some peer \<Rightarrow>
                    (case first_profile W 10 peer (wo_candidates opts) (wl_calls s) of
                       (k, Some c) \<Rightarrow> Some (s\<lparr>wl_calls := k\<rparr>, Some c)
                     | (k, None) \<Rightarrow> wg_hunt W opts (s\<lparr>wl_calls := k\<rparr>)))))"

text \<open>The tunnel counts as failed when it ends, whether with an error or not.\<close>

definition wg_dial :: "wg_options \<Rightarrow> wg_choice \<Rightarrow> wg_loop \<Rightarrow> wg_loop" where
  "wg_dial opts c s =
     (case c of (peer, profile, name) \<Rightarrow>
        let s = (if wo_forced opts = None then s\<lparr>wl_saved := Some \<lparr>lc_peer = wo_show opts peer, lc_profile = name\<rparr>\<rparr> else s);
            same = (map_option fst (wl_last_good s) = Some peer);
            s = (if same then s else s\<lparr>wl_fails := 0\<rparr>)
        in s\<lparr>wl_last_good := Some c, wl_fails := wl_fails s + 1\<rparr>)"

definition wg_turn :: "wg_world \<Rightarrow> wg_options \<Rightarrow> nat \<Rightarrow> wg_loop \<Rightarrow> (wg_loop \<times> wg_choice option) option" where
  "wg_turn W opts now s =
     (case wg_pick W opts (wg_cool opts now s) of
        None \<Rightarrow> None
      | Some (s, None) \<Rightarrow> Some (s, None)
      | Some (s, Some c) \<Rightarrow> Some (wg_dial opts c s, Some c))"

text \<open>A run gives the endpoints that were dialled, with the time of their turn.\<close>

fun wg_run :: "wg_world \<Rightarrow> wg_options \<Rightarrow> nat list \<Rightarrow> wg_loop \<Rightarrow> (wg_loop \<times> (nat \<times> wg_choice) list) option" where
  "wg_run W opts [] s = Some (s, [])"
| "wg_run W opts (now # ts) s =
     (case wg_turn W opts now s of
        None \<Rightarrow> None
      | Some (s, c) \<Rightarrow>
          map_option (\<lambda>(s, tr). (s, case c of None \<Rightarrow> tr | Some c \<Rightarrow> (now, c) # tr)) (wg_run W opts ts s))"

text \<open>
  Before the loop. \<open>asked\<close> is the mode and the address family that the user chooses; they are not asked for
  when there is an endpoint to begin with, and then every later search uses the defaults.
\<close>

definition wg_prepare ::
  "wg_world \<Rightarrow> wg_options \<Rightarrow> string \<Rightarrow> (string + manual_parameters) option \<Rightarrow> bool \<Rightarrow> last_connection option \<Rightarrow> string option \<Rightarrow> string \<times> ip_scan
     \<Rightarrow> (wg_options \<times> wg_loop) result" where
  "wg_prepare W opts primary manual retry cached answer asked =
     (case wg_profile_candidates primary manual retry of
        Inl e \<Rightarrow> Inl e
      | Inr cs \<Rightarrow>
          if parse_ipv4 (i_ipv4 (wo_identity opts)) = None then Inl (ErrOther ''invalid ipv4'')
          else
            let opts = opts\<lparr>wo_candidates := cs, wo_manual := manual \<noteq> None\<rparr>;
                s = wg_try_cached W opts cached answer (wg_try_assigned W opts wg_start);
                (mode, ip) = (if wo_forced opts \<noteq> None \<or> wl_quick s \<noteq> None then ([], ScanV4) else asked)
            in Inr (opts\<lparr>wo_mode := mode, wo_ip := ip\<rparr>, s))"


section \<open>A failing endpoint rests\<close>

text \<open>A probe answers for the candidate it was started on.\<close>

definition honest_probes :: "wg_world \<Rightarrow> bool" where
  "honest_probes W \<longleftrightarrow>
     (\<forall>k profile cs. \<forall>pr \<in> set (answers (ww_probe W k profile cs)). (pb_ip pr, pb_port pr) \<in> set cs)"

lemma hunt_loop_answer:
  "hunt_loop st deadline best found quiet obs = Some (Inr pr) \<Longrightarrow> best = Some pr \<or> pr \<in> set (answers obs)"
proof (induction st deadline best found quiet obs rule: hunt_loop.induct)
  case (2 st deadline best found quiet now ev obs)
  have fin: "hunt_finish b = Inr pr \<longleftrightarrow> b = Some pr" for b by (simp add: hunt_finish_def split: option.splits)
  show ?case
  proof (cases ev)
    case (ProbeOk x now')
    have better: "better best x = pr \<Longrightarrow> best = Some pr \<or> pr = x" by (auto simp: better_def split: option.splits if_splits)
    show ?thesis using 2 ProbeOk better by (auto simp: Let_def fin split: if_splits option.splits)
  qed (use 2 in \<open>auto simp: Let_def fin split: if_splits option.splits\<close>)
qed simp

lemma hunted_is_candidate:
  assumes "hunt_best_wg_endpoint zt v6 d4 d6 mode ports ip excluded probe start = Some (Inr pr)"
    and "\<And>cs. \<forall>pr \<in> set (answers (probe cs)). (pb_ip pr, pb_port pr) \<in> set cs"
  shows "(pb_ip pr, pb_port pr) \<notin> set excluded"
proof -
  from assms(1) obtain ip' where
    "hunt_best (wg_mode_strategy mode) start (probe (build_wg_candidates zt d4 d6 (wg_mode_strategy mode) ports ip' excluded)) = Some (Inr pr)"
    by (auto simp: hunt_best_wg_endpoint_def split: sum.splits)
  from hunt_loop_answer [OF this [unfolded hunt_best_def]] assms(2)
  have "(pb_ip pr, pb_port pr) \<in> set (build_wg_candidates zt d4 d6 (wg_mode_strategy mode) ports ip' excluded)" by auto
  then show ?thesis using build_wg_candidates_ordered [of zt d4 d6 "wg_mode_strategy mode" ports ip' excluded]
    unfolding Let_def by blast
qed

lemma hunt_wg_peer_not_excluded:
  assumes "honest_probes W" "hunt_wg_peer W i mode_str ip excluded cs k = Some (k', Inr c)"
  shows "(sa_ip (fst c), sa_port (fst c)) \<notin> set excluded"
  using assms(2)
proof (induction cs arbitrary: k)
  case (Cons np cs)
  obtain name profile where np: "np = (name, profile)" by (cases np)
  show ?case
  proof (cases "hunt_wg_peer_with_profile W k i mode_str ip profile excluded")
    case (Some r)
    show ?thesis
    proof (cases r)
      case (Inr peer)
      with Some obtain pr where
        h: "hunt_best_wg_endpoint (ww_zero_trust W) (ww_has_ipv6 W) (ww_d4 W k) (ww_d6 W k)
               (scan_mode_parse (ww_lower W) mode_str) WG_PORTS ip excluded (ww_probe W k profile) (ww_begins W k) = Some (Inr pr)"
        and "peer = \<lparr>sa_ip = pb_ip pr, sa_port = pb_port pr\<rparr>"
        by (auto simp: hunt_wg_peer_with_profile_def split: option.splits) (case_tac z; auto)
      moreover have "(pb_ip pr, pb_port pr) \<notin> set excluded"
        using assms(1) by (intro hunted_is_candidate [OF h]) (simp add: honest_probes_def)
      ultimately show ?thesis using Cons.prems Some Inr np by auto
    qed (use Cons Some np in auto)
  qed (use Cons.prems np in simp)
qed simp

text \<open>
  The turns of a run, the last one first: of three dials in a row to the same endpoint, the third comes at
  least \<open>cd\<close> after the first.
\<close>

fun paced :: "nat \<Rightarrow> (nat \<times> socket_addr) list \<Rightarrow> bool" where
  "paced cd ((t2, p2) # (t1, p1) # (t0, p0) # h) \<longleftrightarrow>
     (p2 = p1 \<and> p1 = p0 \<longrightarrow> t0 + cd \<le> t2) \<and> paced cd ((t1, p1) # (t0, p0) # h)"
| "paced cd h \<longleftrightarrow> True"

text \<open>What holds between two turns: \<open>h\<close> are the dials so far and \<open>clock\<close> the time of the last turn.\<close>

definition resting :: "nat \<Rightarrow> (nat \<times> socket_addr) list \<Rightarrow> nat \<Rightarrow> wg_loop \<Rightarrow> bool" where
  "resting cd h clock s \<longleftrightarrow>
     wl_fails s = 0
     \<and> (h = [] \<or> (\<exists>t p t' r. h = (t, p) # (t', p) # r \<and> t' \<le> t
                  \<and> (t + cd \<le> clock \<or> (\<exists>u. (p, u) \<in> set (wl_cooldowns s) \<and> t + cd \<le> u))))"

definition trying :: "nat \<Rightarrow> (nat \<times> socket_addr) list \<Rightarrow> nat \<Rightarrow> socket_addr \<Rightarrow> wg_loop \<Rightarrow> bool" where
  "trying cd h clock p s \<longleftrightarrow>
     (\<exists>t r. h = (t, p) # r \<and> t \<le> clock
        \<and> (wl_fails s = 1 \<and> (\<forall>t' r'. r = (t', p) # r' \<longrightarrow> t' + cd \<le> t)
           \<or> wl_fails s = 2 \<and> (\<exists>t' r'. r = (t', p) # r' \<and> t' \<le> t)))"

definition wg_inv :: "nat \<Rightarrow> (nat \<times> socket_addr) list \<Rightarrow> nat \<Rightarrow> wg_loop \<Rightarrow> bool" where
  "wg_inv cd h clock s \<longleftrightarrow>
     (wl_quick s \<noteq> None \<longrightarrow> h = [])
     \<and> (case wl_last_good s of None \<Rightarrow> resting cd h clock s | Some c \<Rightarrow> trying cd h clock (fst c) s)"

lemma cool_inv:
  assumes "wg_inv (1000 * wg_endpoint_cooldown (wo_env opts)) h clock s" "clock \<le> now"
  shows "wg_inv (1000 * wg_endpoint_cooldown (wo_env opts)) h now (wg_cool opts now s) \<and> wl_fails (wg_cool opts now s) < 2"
proof (cases "wl_last_good s")
  case None
  then have r: "resting (1000 * wg_endpoint_cooldown (wo_env opts)) h clock s" using assms(1) by (simp add: wg_inv_def)
  then have c: "wg_cool opts now s = s\<lparr>wl_cooldowns := filter (\<lambda>(_, t). now < t) (wl_cooldowns s)\<rparr>"
    by (simp add: wg_cool_def Let_def MAX_CONSECUTIVE_FAILS_def resting_def)
  have "resting (1000 * wg_endpoint_cooldown (wo_env opts)) h now (wg_cool opts now s)"
    using r assms(2) unfolding c resting_def by (auto simp: not_less) (meson le_trans not_le)+
  then show ?thesis using assms(1) None r unfolding c by (simp add: wg_inv_def resting_def)
next
  case (Some ch)
  then have t: "trying (1000 * wg_endpoint_cooldown (wo_env opts)) h clock (fst ch) s" using assms(1) by (simp add: wg_inv_def)
  show ?thesis
  proof (cases "wl_fails s = 2")
    case True
    with t obtain u r t' where h: "h = (u, fst ch) # (t', fst ch) # r" "u \<le> clock" "t' \<le> u" by (auto simp: trying_def)
    then show ?thesis using assms Some True
      by (cases ch) (auto simp: wg_inv_def wg_cool_def Let_def MAX_CONSECUTIVE_FAILS_def resting_def)
  next
    case False
    then show ?thesis using assms Some t
      by (auto simp: wg_inv_def wg_cool_def Let_def MAX_CONSECUTIVE_FAILS_def trying_def)
  qed
qed

text \<open>Where the endpoint of a turn comes from, and what a turn does with the rest of the state.\<close>

definition wg_source :: "wg_world \<Rightarrow> wg_loop \<Rightarrow> wg_choice \<Rightarrow> bool" where
  "wg_source W s c \<longleftrightarrow>
     wl_quick s = Some c
     \<or> wl_quick s = None \<and> (wl_last_good s = Some c \<or> (sa_ip (fst c), sa_port (fst c)) \<notin> set (wg_excluded s))"

lemma wg_excluded_upd [simp]:
  "wg_excluded (s\<lparr>wl_calls := k\<rparr>) = wg_excluded s" "wg_excluded (s\<lparr>wl_quick := q\<rparr>) = wg_excluded s"
  by (simp_all add: wg_excluded_def)

lemma wg_hunt_cases:
  assumes "honest_probes W" "wg_hunt W opts s = Some (s', r)"
  shows "\<exists>k. s' = s\<lparr>wl_calls := k\<rparr> \<and> (\<forall>c. r = Some c \<longrightarrow> (sa_ip (fst c), sa_port (fst c)) \<notin> set (wg_excluded s))"
proof -
  obtain k x where h: "hunt_wg_peer W (wo_identity opts) (wo_mode opts) (wo_ip opts) (wg_excluded s) (wo_candidates opts) (wl_calls s) = Some (k, x)"
    and r: "s' = s\<lparr>wl_calls := k\<rparr>" "r = (case x of Inr c \<Rightarrow> Some c | Inl _ \<Rightarrow> None)"
    using assms(2) by (auto simp: wg_hunt_def)
  have "(sa_ip (fst c), sa_port (fst c)) \<notin> set (wg_excluded s)" if "r = Some c" for c
  proof -
    have "x = Inr c" using that r(2) by (simp split: sum.splits)
    then show ?thesis using hunt_wg_peer_not_excluded [OF assms(1)] h by simp
  qed
  then show ?thesis using r(1) by blast
qed

lemma wg_pick_cases:
  assumes "honest_probes W" "wo_forced opts = None" "wg_pick W opts s = Some (s', r)"
  shows "\<exists>k. s' = s\<lparr>wl_quick := None, wl_calls := k\<rparr> \<and> (\<forall>c. r = Some c \<longrightarrow> wg_source W s c)"
proof (cases "wl_quick s")
  case (Some q)
  then show ?thesis using assms(3) by (intro exI [of _ "wl_calls s"]) (auto simp: wg_pick_def wg_source_def)
next
  case None
  have q: "s\<lparr>wl_calls := k\<rparr> = s\<lparr>wl_quick := None, wl_calls := k\<rparr>" for k using None by (cases s) simp
  obtain t x where t: "wg_retry W s = (t, x)" by (cases "wg_retry W s")
  have tk: "\<exists>k. t = s\<lparr>wl_calls := k\<rparr> \<and> (x = None \<or> x = wl_last_good s)"
    using t by (cases "wl_last_good s") (auto simp: wg_retry_def split: sum.splits intro: exI [of _ "wl_calls s"])
  then obtain k where k: "t = s\<lparr>wl_calls := k\<rparr>" "x = None \<or> x = wl_last_good s" by blast
  show ?thesis
  proof (cases x)
    case (Some c)
    then show ?thesis using assms(3) None t k q by (intro exI [of _ k]) (auto simp: wg_pick_def wg_source_def)
  next
    case None2: None
    then have "wg_hunt W opts t = Some (s', r)" using assms(2,3) None t by (simp add: wg_pick_def)
    from wg_hunt_cases [OF assms(1) this] obtain k' where
      "s' = t\<lparr>wl_calls := k'\<rparr>" "\<And>c. r = Some c \<Longrightarrow> (sa_ip (fst c), sa_port (fst c)) \<notin> set (wg_excluded t)" by blast
    then show ?thesis using None k(1) q by (intro exI [of _ k']) (auto simp: wg_source_def)
  qed
qed

lemma not_excluded: "(sa_ip p, sa_port p) \<notin> set (wg_excluded s) \<Longrightarrow> (p, u) \<notin> set (wl_cooldowns s)"
  by (force simp: wg_excluded_def)

text \<open>A dial, seen from the two counters that it changes.\<close>

lemma wg_dial_simps:
  "wl_quick (wg_dial opts c s) = wl_quick s" "wl_cooldowns (wg_dial opts c s) = wl_cooldowns s"
  "wl_last_good (wg_dial opts c s) = Some c"
  "wl_fails (wg_dial opts c s) = (if map_option fst (wl_last_good s) = Some (fst c) then wl_fails s + 1 else 1)"
  by (auto simp: wg_dial_def Let_def split: prod.split)

lemma dial_inv:
  assumes "wg_inv cd h now s" "wl_fails s < 2" "wg_source W s c" "paced cd h"
  shows "wg_inv cd ((now, fst c) # h) now (wg_dial opts c (s\<lparr>wl_quick := None, wl_calls := k\<rparr>)) \<and> paced cd ((now, fst c) # h)"
proof (cases "wl_last_good s")
  case (Some b)
  then have t: "trying cd h now (fst b) s" using assms(1) by (simp add: wg_inv_def)
  then obtain t r where h: "h = (t, fst b) # r" "t \<le> now" "wl_fails s = 1" "\<And>t' r'. r = (t', fst b) # r' \<Longrightarrow> t' + cd \<le> t"
    using assms(2) by (auto simp: trying_def)
  have "paced cd ((now, fst c) # h)"
    using h(2,4) assms(4) unfolding h(1) by (cases r) fastforce+
  moreover have "trying cd ((now, fst c) # h) now (fst c) (wg_dial opts c (s\<lparr>wl_quick := None, wl_calls := k\<rparr>))"
    using h Some by (auto simp: trying_def wg_dial_simps)
  ultimately show ?thesis by (simp add: wg_inv_def wg_dial_simps)
next
  case None
  then have r: "resting cd h now s" using assms(1) by (simp add: wg_inv_def)
  have one: "wl_fails (wg_dial opts c (s\<lparr>wl_quick := None, wl_calls := k\<rparr>)) = 1" using None by (simp add: wg_dial_simps)
  show ?thesis
  proof (cases "h = []")
    case True
    then show ?thesis using one by (simp add: wg_inv_def wg_dial_simps(1,3) trying_def)
  next
    case False
    with r obtain t p t' r' where h: "h = (t, p) # (t', p) # r'" "t' \<le> t"
      and w: "t + cd \<le> now \<or> (\<exists>u. (p, u) \<in> set (wl_cooldowns s) \<and> t + cd \<le> u)"
      unfolding resting_def by blast
    have "wl_quick s = None" using assms(1) False unfolding wg_inv_def by blast
    then have "(sa_ip (fst c), sa_port (fst c)) \<notin> set (wg_excluded s)" using assms(3) None by (simp add: wg_source_def)
    then have l: "t + cd \<le> now" if "fst c = p" using w not_excluded that by blast
    then show ?thesis using h one assms(4)
      by (auto simp: wg_inv_def wg_dial_simps(1,3) trying_def)
  qed
qed

lemma turn_inv:
  assumes "honest_probes W" "wo_forced opts = None" "cd = 1000 * wg_endpoint_cooldown (wo_env opts)"
    and "wg_inv cd h clock s" "clock \<le> now" "paced cd h" "wg_turn W opts now s = Some (s', r)"
  shows "case r of None \<Rightarrow> wg_inv cd h now s' | Some c \<Rightarrow> wg_inv cd ((now, fst c) # h) now s' \<and> paced cd ((now, fst c) # h)"
proof -
  let ?s = "wg_cool opts now s"
  have c: "wg_inv cd h now ?s" "wl_fails ?s < 2" using cool_inv [of opts h clock s now] assms(3-5) by simp_all
  obtain t x where t: "wg_pick W opts ?s = Some (t, x)"
    using assms(7) by (cases "wg_pick W opts ?s") (auto simp: wg_turn_def)
  from wg_pick_cases [OF assms(1,2) t] obtain k where
    k: "t = ?s\<lparr>wl_quick := None, wl_calls := k\<rparr>" "\<And>c. x = Some c \<Longrightarrow> wg_source W ?s c" by blast
  show ?thesis
  proof (cases x)
    case None
    then have "s' = t" "r = None" using assms(7) t by (simp_all add: wg_turn_def)
    then show ?thesis using c(1) k(1) by (auto simp: wg_inv_def resting_def trying_def split: option.splits)
  next
    case (Some ch)
    then have "s' = wg_dial opts ch t" "r = Some ch" using assms(7) t by (simp_all add: wg_turn_def)
    then show ?thesis using dial_inv [OF c k(2) [OF Some] assms(6)] k(1) by simp
  qed
qed

lemma run_paced:
  assumes "honest_probes W" "wo_forced opts = None" "cd = 1000 * wg_endpoint_cooldown (wo_env opts)"
  shows "wg_inv cd h clock s \<Longrightarrow> paced cd h \<Longrightarrow> sorted (clock # ts) \<Longrightarrow> wg_run W opts ts s = Some (s', tr)
    \<Longrightarrow> paced cd (rev (map (\<lambda>(t, c). (t, fst c)) tr) @ h)"
proof (induction ts arbitrary: s h clock tr)
  case (Cons now ts)
  obtain t r where t: "wg_turn W opts now s = Some (t, r)" using Cons.prems(4) by (cases "wg_turn W opts now s") auto
  obtain tr' where tr: "wg_run W opts ts t = Some (s', tr')" "tr = (case r of None \<Rightarrow> tr' | Some c \<Rightarrow> (now, c) # tr')"
    using Cons.prems(4) t by auto
  note st = turn_inv [OF assms Cons.prems(1) _ Cons.prems(2) t]
  have so: "clock \<le> now" "sorted (now # ts)" using Cons.prems(3) by auto
  show ?case
  proof (cases r)
    case None
    then show ?thesis using st so Cons.IH [of h now t tr'] Cons.prems(2) tr by simp
  next
    case (Some c)
    then show ?thesis using st so Cons.IH [of "(now, fst c) # h" now t tr'] tr by simp
  qed
qed simp

lemma paced_nth:
  "paced cd (rev xs) \<Longrightarrow> Suc (Suc i) < length xs \<Longrightarrow> snd (xs ! i) = snd (xs ! Suc i) \<Longrightarrow> snd (xs ! Suc i) = snd (xs ! Suc (Suc i))
    \<Longrightarrow> fst (xs ! i) + cd \<le> fst (xs ! Suc (Suc i))"
proof (induction xs rule: rev_induct)
  case (snoc x xs)
  have tl: "paced cd (rev xs)" using snoc.prems(1) by (cases "rev xs" rule: list.exhaust; cases x) (auto elim: paced.elims)
  show ?case
  proof (cases "Suc (Suc i) < length xs")
    case True
    then show ?thesis using snoc tl by (simp add: nth_append)
  next
    case False
    then have n: "length xs = Suc (Suc i)" using snoc.prems(2) by simp
    then have "xs = take i xs @ [xs ! i, xs ! Suc i]"
      using take_Suc_conv_app_nth [of i xs] take_Suc_conv_app_nth [of "Suc i" xs] by simp
    then have l: "rev xs = xs ! Suc i # xs ! i # rev (take i xs)" by (metis append_Cons append_Nil rev.simps rev_append)
    show ?thesis using snoc.prems(1,3,4) n l
      by (cases x; cases "xs ! Suc i"; cases "xs ! i") (auto simp: nth_append)
  qed
qed simp

lemma wg_prepareD:
  assumes "wg_prepare W opts0 primary manual retry cached answer asked = Inr (opts, s)"
  shows "wo_forced opts = wo_forced opts0" "wo_env opts = wo_env opts0" "wl_last_good s = None" "wl_fails s = 0" "wl_cooldowns s = []"
proof -
  have a: "wl_last_good (wg_try_assigned W x t) = wl_last_good t" "wl_fails (wg_try_assigned W x t) = wl_fails t"
    "wl_cooldowns (wg_try_assigned W x t) = wl_cooldowns t" for x t
    by (simp_all add: wg_try_assigned_def split: option.split prod.split)
  have c: "wl_last_good (wg_try_cached W x cached answer t) = wl_last_good t" "wl_fails (wg_try_cached W x cached answer t) = wl_fails t"
    "wl_cooldowns (wg_try_cached W x cached answer t) = wl_cooldowns t" for x t
    by (simp_all add: wg_try_cached_def Let_def split: option.split sum.split)
  show "wo_forced opts = wo_forced opts0" "wo_env opts = wo_env opts0" "wl_last_good s = None" "wl_fails s = 0" "wl_cooldowns s = []"
    using assms by (auto simp: wg_prepare_def Let_def a c wg_start_def split: sum.splits if_splits prod.splits)
qed

text \<open>
  C12: A failing WireGuard endpoint rests. In every session without a pinned endpoint, whatever the
  verifications, the searches and the tunnels give, of three successive dials of the same endpoint the third
  comes no sooner than the configured rest after the first: after two failures in a row the endpoint is left
  out of the searches until its rest is over.
\<close>

theorem failing_endpoint_rests:
  assumes "wg_prepare W opts0 primary manual retry cached answer asked = Inr (opts, s)" "wo_forced opts0 = None"
    and "honest_probes W" "sorted ts" "wg_run W opts ts s = Some (s', tr)" "Suc (Suc i) < length tr"
    and "fst (snd (tr ! i)) = fst (snd (tr ! Suc i))" "fst (snd (tr ! Suc i)) = fst (snd (tr ! Suc (Suc i)))"
  shows "fst (tr ! i) + 1000 * wg_endpoint_cooldown (wo_env opts0) \<le> fst (tr ! Suc (Suc i))"
proof -
  note p = wg_prepareD [OF assms(1)]
  let ?tr = "map (\<lambda>(t, c). (t, fst c)) tr"
  have n: "?tr ! j = (fst (tr ! j), fst (snd (tr ! j)))" if "j < length tr" for j using that by (simp add: case_prod_beta)
  have "wg_inv (1000 * wg_endpoint_cooldown (wo_env opts)) [] 0 s" using p by (simp add: wg_inv_def resting_def)
  from run_paced [OF assms(3) _ refl this _ _ assms(5)] p(1,2) assms(2,4)
  have "paced (1000 * wg_endpoint_cooldown (wo_env opts0)) (rev ?tr)" by simp
  from paced_nth [OF this, of i] show ?thesis using assms(6-8) n [of i] n [of "Suc i"] n [of "Suc (Suc i)"] by simp
qed

definition demo_edge :: socket_addr where
  "demo_edge = \<lparr>sa_ip = V4 2728378369, sa_port = 2408\<rparr>"

definition demo_wg :: wg_world where
  "demo_wg = \<lparr>ww_verify = \<lambda>_ _ _ _. Inr 5, ww_zero_trust = False, ww_has_ipv6 = False, ww_d4 = \<lambda>_ _. [], ww_d6 = \<lambda>_ _ _. (0, 0),
     ww_probe = \<lambda>_ _ cs. if (V4 2728378369, 2408) \<in> set cs
        then [(1, ProbeOk \<lparr>pb_ip = V4 2728378369, pb_port = 2408, pb_rtt = 7\<rparr> 2), (100000, WaitOver)] else [(1, WaitOver)],
     ww_begins = \<lambda>_. 0, ww_lower = \<lambda>s. s\<rparr>"

definition demo_wg_options :: wg_options where
  "demo_wg_options = \<lparr>wo_identity = demo_identity, wo_forced = None, wo_candidates = [], wo_manual = False, wo_mode = [], wo_ip = ScanV4,
     wo_env = Map.empty, wo_show = \<lambda>_. []\<rparr>"

lemma demo_honest: "honest_probes demo_wg"
  by (simp add: honest_probes_def demo_wg_def)

lemma demo_candidate:
  "(V4 2728378369, 2408) \<in> set (build_wg_candidates False d4 d6 (wg_mode_strategy Balanced) WG_PORTS ScanV4 ex)
     \<longleftrightarrow> (V4 2728378369, 2408) \<notin> set ex"
proof -
  let ?wg = "build_wg_candidates False d4 d6 (wg_mode_strategy Balanced) WG_PORTS ScanV4 ex"
  have "parse_ipv4 ''162.159.192.1'' = Some 2728378369" by (simp add: ipv4_eval Let_def)
  then have a: "V4 2728378369 \<in> set (wg_anchors False ScanV4)"
    by (simp add: wg_anchors_def prioritize_def WG_SEEDS_V4_def want_v4_def want_v6_def List.map_filter_simps)
  obtain zs where "wg_ports WG_PORTS = [2408] @ zs"
    using push_all_prefix [of "tl WG_PORTS" "[2408]"] by (auto simp: wg_ports_def WG_PORTS_def Let_def push_all_def push_new_def)
  then have b: "2408 \<in> set (take (max (ws_anchor_port_count (wg_mode_strategy Balanced)) 1) (wg_ports WG_PORTS))"
    by (simp add: wg_mode_strategy_def mk_wg_strategy_def)
  show ?thesis using build_wg_candidates_ordered [of False d4 d6 "wg_mode_strategy Balanced" WG_PORTS ScanV4 ex] a b
    unfolding Let_def by auto
qed

lemma demo_hunt:
  assumes "parse_ipv4 (i_ipv4 i) \<noteq> None"
  shows "hunt_wg_peer_with_profile demo_wg k i [] ScanV4 profile ex =
     Some (if (V4 2728378369, 2408) \<in> set ex then Inl ErrNoCleanEndpoint else Inr demo_edge)"
proof -
  have m: "scan_mode_parse (ww_lower demo_wg) [] = Balanced" by (simp add: scan_mode_parse_def demo_wg_def)
  show ?thesis using assms demo_candidate [of "\<lambda>_. []" "\<lambda>_ _. (0, 0)" ex]
    by (auto simp: hunt_wg_peer_with_profile_def hunt_best_wg_endpoint_def effective_scan_def want_v4_def want_v6_def hunt_best_def
        hunt_finish_def better_def demo_edge_def m) (simp_all add: demo_wg_def wg_mode_strategy_def mk_wg_strategy_def hunt_finish_def better_def)
qed

lemma demo_prepared:
  "\<exists>opts c. wg_prepare demo_wg demo_wg_options ''off'' None False (Some \<lparr>lc_peer = ''162.159.192.1:2408'', lc_profile = ''off''\<rparr>) None ([], ScanBoth)
     = Inr (opts, wg_start\<lparr>wl_quick := Some (demo_edge, c), wl_calls := 1\<rparr>)
   \<and> wo_identity opts = demo_identity \<and> wo_forced opts = None \<and> wo_mode opts = [] \<and> wo_ip opts = ScanV4 \<and> wo_env opts = Map.empty
   \<and> wo_candidates opts = [(''off'', aether_off)]"
proof -
  have e: "parse_socket_addr ''162.159.192.1:2408'' = Some demo_edge"
    by (simp add: parse_socket_addr_def read_socket_addr_def read_port_def ipv4_eval Let_def demo_edge_def)
  have i: "parse_ipv4 ''172.16.0.2'' \<noteq> None" by (simp add: ipv4_eval Let_def)
  show ?thesis using e i
    by (simp add: wg_prepare_def wg_profile_candidates_def wg_try_cached_def wg_try_assigned_def want_quick_reconnect_def Let_def
        demo_wg_options_def demo_identity_def wg_start_def) (simp add: demo_wg_def aether_from_profile_def)
qed

lemma demo_run:
  assumes "wo_identity opts = demo_identity" "wo_forced opts = None" "wo_mode opts = []" "wo_ip opts = ScanV4" "wo_env opts = Map.empty"
    and "wo_candidates opts = [(''off'', aether_off)]"
  shows "\<exists>s' c2 c3. wg_run demo_wg opts [0, 10, 20, 400000] (wg_start\<lparr>wl_quick := Some (demo_edge, c), wl_calls := 1\<rparr>)
     = Some (s', [(0, demo_edge, c), (10, demo_edge, c2), (400000, demo_edge, c3)])"
proof -
  have i: "parse_ipv4 (i_ipv4 demo_identity) \<noteq> None" by (simp add: demo_identity_def ipv4_eval Let_def)
  have cd: "wg_endpoint_cooldown Map.empty = 300" by (simp add: wg_endpoint_cooldown_def env_secs_def)
  have v: "ww_verify demo_wg k p f n = Inr 5" for k p f n by (simp add: demo_wg_def)
  show ?thesis
    by (simp add: assms wg_turn_def wg_cool_def wg_pick_def wg_retry_def wg_hunt_def wg_dial_def wg_start_def MAX_CONSECUTIVE_FAILS_def Let_def
        demo_hunt [OF i] wg_excluded_def cd v split: prod.split) (simp add: demo_edge_def)
qed

theorem failing_endpoint_rests_witness:
  "\<exists>opts s s' tr. wg_prepare demo_wg demo_wg_options ''off'' None False (Some \<lparr>lc_peer = ''162.159.192.1:2408'', lc_profile = ''off''\<rparr>) None ([], ScanBoth) = Inr (opts, s)
     \<and> wg_run demo_wg opts [0, 10, 20, 400000] s = Some (s', tr) \<and> length tr = 3
     \<and> fst (tr ! 0) + 1000 * wg_endpoint_cooldown Map.empty \<le> fst (tr ! Suc (Suc 0))"
proof -
  obtain opts c where p: "wg_prepare demo_wg demo_wg_options ''off'' None False (Some \<lparr>lc_peer = ''162.159.192.1:2408'', lc_profile = ''off''\<rparr>) None ([], ScanBoth)
     = Inr (opts, wg_start\<lparr>wl_quick := Some (demo_edge, c), wl_calls := 1\<rparr>)"
    and o': "wo_identity opts = demo_identity" "wo_forced opts = None" "wo_mode opts = []" "wo_ip opts = ScanV4" "wo_env opts = Map.empty"
    "wo_candidates opts = [(''off'', aether_off)]"
    using demo_prepared by blast
  obtain s' c2 c3 where r: "wg_run demo_wg opts [0, 10, 20, 400000] (wg_start\<lparr>wl_quick := Some (demo_edge, c), wl_calls := 1\<rparr>)
     = Some (s', [(0, demo_edge, c), (10, demo_edge, c2), (400000, demo_edge, c3)])" using demo_run [OF o'] by blast
  have "fst ([(0, demo_edge, c), (10, demo_edge, c2), (400000, demo_edge, c3)] ! 0) + 1000 * wg_endpoint_cooldown (wo_env demo_wg_options)
      \<le> fst ([(0, demo_edge, c), (10, demo_edge, c2), (400000, demo_edge, c3)] ! Suc (Suc 0))"
    by (rule failing_endpoint_rests [OF p _ demo_honest _ r]) (simp_all add: demo_wg_options_def)
  with p r show ?thesis by (auto simp: demo_wg_options_def)
qed

text \<open>Every endpoint that is dialled has passed a verification or a search with the profile it is dialled with.\<close>

definition passed :: "wg_world \<Rightarrow> wg_choice \<Rightarrow> bool" where
  "passed W c \<longleftrightarrow>
     (\<exists>k secs v. ww_verify W k (fst c) (fst (snd c)) secs = Inr v)
     \<or> (\<exists>k i mode ip ex. hunt_wg_peer_with_profile W k i mode ip (fst (snd c)) ex = Some (Inr (fst c)))"

lemma first_profile_passed: "first_profile W secs peer cs k = (k', Some c) \<Longrightarrow> passed W c"
proof (induction cs arbitrary: k)
  case (Cons np cs)
  then show ?case by (cases np; cases "ww_verify W k peer (snd np) secs") (auto simp: passed_def)
qed simp

lemma hunt_wg_peer_passed: "hunt_wg_peer W i mode_str ip ex cs k = Some (k', Inr c) \<Longrightarrow> passed W c"
proof (induction cs arbitrary: k)
  case (Cons np cs)
  obtain x where x: "hunt_wg_peer_with_profile W k i mode_str ip (snd np) ex = Some x"
    using Cons.prems by (cases np; cases "hunt_wg_peer_with_profile W k i mode_str ip (snd np) ex") auto
  then show ?case using Cons by (cases np; cases x) (auto simp: passed_def)
qed simp

lemma wg_hunt_passed: "wg_hunt W opts s = Some (s', Some c) \<Longrightarrow> passed W c"
proof -
  assume "wg_hunt W opts s = Some (s', Some c)"
  then obtain k x where "hunt_wg_peer W (wo_identity opts) (wo_mode opts) (wo_ip opts) (wg_excluded s) (wo_candidates opts) (wl_calls s) = Some (k, x)"
    "(case x of Inr c \<Rightarrow> Some c | Inl _ \<Rightarrow> None) = Some c" by (auto simp: wg_hunt_def)
  then show ?thesis using hunt_wg_peer_passed by (cases x) auto
qed

lemma wg_hunt_quick: "wg_hunt W opts s = Some (s', r) \<Longrightarrow> wl_quick s' = wl_quick s"
  by (auto simp: wg_hunt_def)

lemma wg_pick_passed:
  assumes "wg_pick W opts s = Some (s', r)"
  shows "wl_quick s' = None \<and> (\<forall>c. r = Some c \<longrightarrow> wl_quick s = Some c \<or> passed W c)"
proof (cases "wl_quick s")
  case None
  obtain t x where t: "wg_retry W s = (t, x)" by (cases "wg_retry W s")
  have x: "wl_quick t = None" "x = Some c \<Longrightarrow> passed W c" for c
    using t None by (cases "wl_last_good s"; auto simp: wg_retry_def passed_def split: sum.splits)+
  show ?thesis
  proof (cases x)
    case None2: None
    show ?thesis
    proof (cases "wo_forced opts")
      case None3: None
      then have "wg_hunt W opts t = Some (s', r)" using assms None None2 t by (simp add: wg_pick_def)
      then show ?thesis using wg_hunt_passed wg_hunt_quick x(1) by metis
    next
      case (Some peer)
      obtain k y where y: "first_profile W 10 peer (wo_candidates opts) (wl_calls t) = (k, y)"
        by (cases "first_profile W 10 peer (wo_candidates opts) (wl_calls t)")
      have h: "wg_hunt W opts (t\<lparr>wl_calls := k\<rparr>) = Some (s', r) \<Longrightarrow> wl_quick s' = None \<and> (\<forall>c. r = Some c \<longrightarrow> passed W c)"
        using wg_hunt_passed wg_hunt_quick x(1) by force
      show ?thesis using assms None None2 t Some y h first_profile_passed [of W 10 peer] x(1)
        by (cases y) (auto simp: wg_pick_def)
    qed
  qed (use assms None t x in \<open>auto simp: wg_pick_def\<close>)
qed (use assms in \<open>auto simp: wg_pick_def\<close>)

lemma wg_turn_passed:
  assumes "wg_turn W opts now s = Some (s', r)"
  shows "wl_quick s' = None \<and> (\<forall>c. r = Some c \<longrightarrow> wl_quick s = Some c \<or> passed W c)"
proof -
  have q: "wl_quick (wg_cool opts now s) = wl_quick s" by (simp add: wg_cool_def Let_def split: option.split)
  obtain t x where t: "wg_pick W opts (wg_cool opts now s) = Some (t, x)"
    using assms by (cases "wg_pick W opts (wg_cool opts now s)") (auto simp: wg_turn_def)
  note wg_pick_passed [OF this, unfolded q]
  then show ?thesis using assms t by (cases x) (simp_all add: wg_turn_def, auto simp: wg_dial_simps)
qed

lemma dialled_endpoints_passed:
  assumes "wg_run W opts ts s = Some (s', tr)" "\<forall>q. wl_quick s = Some q \<longrightarrow> passed W q"
  shows "\<forall>x \<in> set tr. passed W (snd x)"
  using assms
proof (induction ts arbitrary: s tr)
  case (Cons now ts)
  obtain t r where t: "wg_turn W opts now s = Some (t, r)" using Cons.prems(1) by (cases "wg_turn W opts now s") auto
  then obtain tr' where tr: "wg_run W opts ts t = Some (s', tr')" "tr = (case r of None \<Rightarrow> tr' | Some c \<Rightarrow> (now, c) # tr')"
    using Cons.prems(1) by auto
  show ?case using Cons.IH [OF tr(1)] tr(2) wg_turn_passed [OF t] Cons.prems(2) by (auto split: option.splits)
qed simp

text \<open>The rest does not hold for a pinned endpoint: as long as it answers, it is dialled in every turn.\<close>

lemma pinned_endpoint_never_rests:
  assumes "wo_forced opts = Some peer" "\<And>k p c n. ww_verify W k p c n = Inr (v k)" "wo_candidates opts = (name, profile) # cs"
  shows "wl_quick s = None \<Longrightarrow> wl_last_good s = None \<or> wl_last_good s = Some (peer, profile, name)
     \<Longrightarrow> \<exists>s'. wg_run W opts ts s = Some (s', map (\<lambda>t. (t, peer, profile, name)) ts)"
proof (induction ts arbitrary: s)
  case (Cons now ts)
  let ?c = "wg_cool opts now s"
  have c: "wl_quick ?c = None" "wl_last_good ?c = None \<or> wl_last_good ?c = Some (peer, profile, name)"
    using Cons.prems by (auto simp: wg_cool_def Let_def split: option.split)
  then obtain k where "wg_pick W opts ?c = Some (?c\<lparr>wl_calls := k\<rparr>, Some (peer, profile, name))"
    using assms by (cases "wl_last_good ?c") (auto simp: wg_pick_def wg_retry_def)
  then have "wg_turn W opts now s = Some (wg_dial opts (peer, profile, name) (?c\<lparr>wl_calls := k\<rparr>), Some (peer, profile, name))"
    by (simp add: wg_turn_def)
  then show ?case using Cons.IH [of "wg_dial opts (peer, profile, name) (?c\<lparr>wl_calls := k\<rparr>)"] c(1) by (auto simp: wg_dial_simps)
qed simp

end
