(* ===== verification/Hops.thy ===== *)
theory Hops
  imports Session
begin

text \<open>
  The sessions with two hops of \<open>core/aether/src/main.rs\<close>: WARP in WARP (\<open>run_gool\<close>) and MASQUE in MASQUE
  (\<open>run_mim\<close>, \<open>run_masque_in_masque\<close>), with the selection of the outer peer (\<open>select_peer\<close>), the candidates and
  the sizes of the inner hop. As in \<open>Session\<close> a loop is one turn, and what a search, a hop or the end of a
  session gives is a parameter.
\<close>

section \<open>The outer peer\<close>

definition select_wg_peer ::
  "wg_world \<Rightarrow> nat \<Rightarrow> identity \<Rightarrow> string \<Rightarrow> scan_mode \<Rightarrow> ip_scan \<Rightarrow> socket_addr option \<Rightarrow> socket_addr result option" where
  "select_wg_peer W k i profile mode ip forced =
     (case forced of
        Some peer \<Rightarrow> Some (Inr peer)
      | None \<Rightarrow> hunt_wg_peer_with_profile W k i (scan_mode_label mode) ip (aether_from_profile profile) [])"

text \<open>
  For MASQUE, \<open>hunt\<close> is the search over a transport and \<open>check\<close> the verification of a list of gateways, as in
  \<open>hunt_masque_peer\<close>. The cache is refreshed in the background afterwards, which does not change the choice.
\<close>

definition select_masque_peer ::
  "start_world \<Rightarrow> (bool \<Rightarrow> u16 list \<Rightarrow> probe_result result) \<Rightarrow> (u16 list \<Rightarrow> socket_addr list \<Rightarrow> probe_result option) \<Rightarrow> bool
     \<Rightarrow> endpoint_discovery \<Rightarrow> ip_scan \<Rightarrow> socket_addr option \<Rightarrow> cached_gateway list \<Rightarrow> dial_state
     \<Rightarrow> dial_state \<times> cached_gateway list \<times> socket_addr result" where
  "select_masque_peer W hunt check zero_trust discovery scan forced gs d =
     (case forced of
        Some peer \<Rightarrow> (d, gs, Inr peer)
      | None \<Rightarrow>
          let cached = cached_masque_gateways scan gs;
              chosen = (\<lambda>d best. (d, cache_masque_gateway best gs, Inr \<lparr>sa_ip = pb_ip best, sa_port = pb_port best\<rparr>)) in
          (case (if discovery = DiscoverCache \<and> cached \<noteq> [] then check MASQUE_PORTS cached else None) of
             Some best \<Rightarrow> chosen d best
           | None \<Rightarrow>
               (case hunt (ds_h2 W d) MASQUE_PORTS of
                  Inr best \<Rightarrow> chosen d best
                | Inl e \<Rightarrow>
                    if ds_h2 W d then (d, gs, Inl e)
                    else
                      let d = enable_restricted_h2 d in
                      (case check (masque_h2_ports MASQUE_PORTS) (masque_h2_gateway_peers zero_trust) of
                         Some best \<Rightarrow> chosen d best
                       | None \<Rightarrow> (d\<lparr>ds_flags := clear_fallback (ds_flags d)\<rparr>, gs, Inl e)))))"

definition GOOL_OUTER_PROFILE :: string where "GOOL_OUTER_PROFILE = ''balanced''"

definition load_cached_gool_peer ::
  "wg_world \<Rightarrow> nat \<Rightarrow> (string \<rightharpoonup> string) \<Rightarrow> string option \<Rightarrow> identity \<Rightarrow> last_connection option \<Rightarrow> socket_addr option" where
  "load_cached_gool_peer W k env answer i cached =
     (case Option.bind cached (\<lambda>c. parse_socket_addr (lc_peer c)) of
        None \<Rightarrow> None
      | Some peer \<Rightarrow>
          if \<not> want_quick_reconnect env answer \<or> parse_ipv4 (i_ipv4 i) = None then None
          else case ww_verify W k peer (aether_from_profile GOOL_OUTER_PROFILE) 6 of Inr _ \<Rightarrow> Some peer | Inl _ \<Rightarrow> None)"

definition load_cached_mim_peer ::
  "(socket_addr \<Rightarrow> unit result) \<Rightarrow> (string \<rightharpoonup> string) \<Rightarrow> string option \<Rightarrow> last_connection option \<Rightarrow> socket_addr option" where
  "load_cached_mim_peer verify env answer cached =
     (case Option.bind cached (\<lambda>c. parse_socket_addr (lc_peer c)) of
        None \<Rightarrow> None
      | Some peer \<Rightarrow>
          if \<not> want_quick_reconnect env answer then None
          else case verify peer of Inr _ \<Rightarrow> Some peer | Inl _ \<Rightarrow> None)"


section \<open>WARP in WARP\<close>

record gool_loop =
  gl_last :: "socket_addr option"
  gl_cached :: "socket_addr option"
  gl_fails :: nat

text \<open>
  The outer endpoint of a turn, and whether it comes from a new search; \<open>sel\<close> is what the search gives, if it is
  made. The session that follows counts as a failure when it ends.
\<close>

definition outer_known :: "nat \<Rightarrow> 'a gool_loop_scheme \<Rightarrow> 'a gool_loop_scheme \<times> socket_addr option" where
  "outer_known limit s =
     (if gl_fails s < limit then (s, case gl_last s of Some p \<Rightarrow> Some p | None \<Rightarrow> gl_cached s)
      else (s\<lparr>gl_cached := None\<rparr>, None))"

definition outer_pick :: "nat \<Rightarrow> socket_addr result \<Rightarrow> 'a gool_loop_scheme \<Rightarrow> 'a gool_loop_scheme \<times> (socket_addr \<times> bool) option" where
  "outer_pick limit sel s =
     (case outer_known limit s of
        (s, Some p) \<Rightarrow> (s, Some (p, False))
      | (s, None) \<Rightarrow> (case sel of Inl _ \<Rightarrow> (s, None) | Inr p \<Rightarrow> (s\<lparr>gl_fails := 0\<rparr>, Some (p, True))))"

definition gool_turn :: "socket_addr result \<Rightarrow> gool_loop \<Rightarrow> gool_loop \<times> (socket_addr \<times> bool) option" where
  "gool_turn sel s =
     (case outer_pick MAX_CONSECUTIVE_FAILS sel s of
        (s, None) \<Rightarrow> (s, None)
      | (s, Some (p, fresh)) \<Rightarrow> (s\<lparr>gl_last := Some p, gl_fails := gl_fails s + 1\<rparr>, Some (p, fresh)))"

fun gool_run :: "socket_addr result list \<Rightarrow> gool_loop \<Rightarrow> (socket_addr \<times> bool) list" where
  "gool_run [] s = []"
| "gool_run (sel # sels) s =
     (case gool_turn sel s of (s, d) \<Rightarrow> (case d of None \<Rightarrow> gool_run sels s | Some x \<Rightarrow> x # gool_run sels s))"

text \<open>No outer endpoint is dialled more than twice without a new search.\<close>

lemma gool_two_dials:
  "length (takeWhile (\<lambda>x. \<not> snd x) (gool_run sels s)) \<le> 2 - gl_fails s"
proof (induction sels arbitrary: s)
  case (Cons sel sels)
  show ?case
    using Cons.IH [of "fst (gool_turn sel s)"]
    by (auto simp: gool_turn_def outer_pick_def outer_known_def MAX_CONSECUTIVE_FAILS_def split: option.splits sum.splits if_splits prod.splits)
qed simp

lemma gool_run_suffix: "\<exists>sels' s'. drop n (gool_run sels s) = gool_run sels' s'"
proof (induction sels arbitrary: s n)
  case (Cons sel sels)
  obtain t d where t: "gool_turn sel s = (t, d)" by (cases "gool_turn sel s")
  show ?case
  proof (cases d)
    case (Some x)
    show ?thesis
    proof (cases n)
      case 0
      then show ?thesis by (metis drop0)
    next
      case (Suc m)
      then show ?thesis using Some t Cons.IH [of m t] by simp
    qed
  qed (use t Cons.IH [of n t] in auto)
qed (auto intro: exI [of _ "[]"])

lemma gool_rescans: "length (takeWhile (\<lambda>x. \<not> snd x) (drop n (gool_run sels s))) \<le> 2"
  using gool_run_suffix [of n sels s] gool_two_dials by (metis diff_le_self le_trans)


section \<open>MASQUE in MASQUE: the inner hop\<close>

definition TUNNEL_MTU :: nat where "TUNNEL_MTU = 1280"
definition MAX_DATAGRAM_SIZE :: nat where "MAX_DATAGRAM_SIZE = 1350"
definition MIN_DATAGRAM_SIZE :: nat where "MIN_DATAGRAM_SIZE = 1200"
definition MIM_INNER_TRIES :: nat where "MIM_INNER_TRIES = 4"

text \<open>\<open>usize::clamp\<close> with bounds that are in order.\<close>

definition clamp_nat :: "nat \<Rightarrow> nat \<Rightarrow> nat \<Rightarrow> nat" where
  "clamp_nat lo hi n = min hi (max lo n)"

definition mim_inner_startup :: "(string \<rightharpoonup> string) \<Rightarrow> nat" where
  "mim_inner_startup env = min (masque_startup_timeout env) 12"

definition mim_lastconn_path :: "string \<Rightarrow> string" where
  "mim_lastconn_path config_path = derive_sibling_path config_path ''mim-lastconn''"

definition mim_inner_budget :: "nat \<Rightarrow> socket_addr \<Rightarrow> bool \<Rightarrow> nat \<times> nat" where
  "mim_inner_budget outer_mtu inner_peer h2 =
     (if h2 then (MAX_DATAGRAM_SIZE, clamp_nat 576 1500 (outer_mtu - 100))
      else
        let headers = (case sa_ip inner_peer of V4 _ \<Rightarrow> 28 | V6 _ \<Rightarrow> 48);
            datagram = clamp_nat MIN_DATAGRAM_SIZE MAX_DATAGRAM_SIZE (outer_mtu - headers);
            capsule_overhead = MAX_DATAGRAM_SIZE - TUNNEL_MTU
        in (datagram, clamp_nat 576 1500 (datagram - capsule_overhead)))"

lemma clamp_nat_bounds: "lo \<le> hi \<Longrightarrow> lo \<le> clamp_nat lo hi n \<and> clamp_nat lo hi n \<le> hi"
  by (simp add: clamp_nat_def)

lemma clamp_nat_fits: "lo \<le> hi \<Longrightarrow> clamp_nat lo hi (m - h) + h \<le> m \<longleftrightarrow> lo + h \<le> (m :: nat)"
  by (auto simp: clamp_nat_def min_def max_def)

lemma clamp_nat_id: "lo \<le> n \<Longrightarrow> n \<le> hi \<Longrightarrow> clamp_nat lo hi n = n"
  by (simp add: clamp_nat_def)

lemma mim_budget_fits:
  assumes "mim_inner_budget outer_mtu inner False = (datagram, mtu)"
  shows "datagram + (case sa_ip inner of V4 _ \<Rightarrow> 28 | V6 _ \<Rightarrow> 48) \<le> outer_mtu
           \<longleftrightarrow> MIN_DATAGRAM_SIZE + (case sa_ip inner of V4 _ \<Rightarrow> 28 | V6 _ \<Rightarrow> 48) \<le> outer_mtu"
    and "mtu + (MAX_DATAGRAM_SIZE - TUNNEL_MTU) = datagram" "mtu \<le> TUNNEL_MTU"
proof -
  define h where "h = (case sa_ip inner of V4 _ \<Rightarrow> 28 | V6 _ \<Rightarrow> (48::nat))"
  have d: "datagram = clamp_nat 1200 1350 (outer_mtu - h)" "mtu = clamp_nat 576 1500 (datagram - 70)"
    using assms by (auto simp: mim_inner_budget_def Let_def h_def MIN_DATAGRAM_SIZE_def MAX_DATAGRAM_SIZE_def TUNNEL_MTU_def)
  have b: "1200 \<le> datagram" "datagram \<le> 1350" using clamp_nat_bounds [of 1200 1350] unfolding d(1) by simp_all
  then have m: "mtu = datagram - 70" unfolding d(2) by (intro clamp_nat_id) simp_all
  show "mtu + (MAX_DATAGRAM_SIZE - TUNNEL_MTU) = datagram" "mtu \<le> TUNNEL_MTU"
    using m b by (simp_all add: MAX_DATAGRAM_SIZE_def TUNNEL_MTU_def)
  show "datagram + (case sa_ip inner of V4 _ \<Rightarrow> 28 | V6 _ \<Rightarrow> 48) \<le> outer_mtu
           \<longleftrightarrow> MIN_DATAGRAM_SIZE + (case sa_ip inner of V4 _ \<Rightarrow> 28 | V6 _ \<Rightarrow> 48) \<le> outer_mtu"
    using clamp_nat_fits [of 1200 1350 outer_mtu h] unfolding h_def [symmetric] d(1) MIN_DATAGRAM_SIZE_def by simp
qed

definition inner_masque_candidates :: "socket_addr \<Rightarrow> socket_addr list \<Rightarrow> bool \<Rightarrow> nat \<Rightarrow> socket_addr list" where
  "inner_masque_candidates outer cached zero_trust tries =
     take (max tries 1)
       (push_all (filter (\<lambda>peer. sa_ip peer \<noteq> sa_ip outer)
          (map (\<lambda>peer. \<lparr>sa_ip = sa_ip peer, sa_port = QUIC_PORT\<rparr>) (cached @ masque_gateway_peers zero_trust))) [])"

datatype mim_failure = MimOuter string | MimInner string

datatype mim_winner = WinOuter | WinInner | WinLocal

text \<open>How a task ended: with its own result, cancelled, or with a panic.\<close>

datatype task_end = TaskResult "unit result" | TaskCancelled | TaskPanicked string

definition join_outcome :: "string \<Rightarrow> task_end \<Rightarrow> unit result" where
  "join_outcome what r =
     (case r of
        TaskResult (Inr _) \<Rightarrow> Inl (ErrOther (what @ '' stopped''))
      | TaskResult (Inl e) \<Rightarrow> Inl e
      | TaskCancelled \<Rightarrow> Inl (ErrOther (what @ '' was cancelled''))
      | TaskPanicked e \<Rightarrow> Inl (ErrOther (what @ '' panicked: '' @ e)))"

record mim_world =
  mw_outer :: "nat \<Rightarrow> socket_addr \<Rightarrow> unit result"
  mw_forward :: "nat \<Rightarrow> socket_addr \<Rightarrow> unit result"
  mw_inner :: "nat \<Rightarrow> socket_addr \<Rightarrow> nat \<times> nat \<Rightarrow> unit result"
  mw_end :: "nat \<Rightarrow> mim_winner \<times> task_end"

text \<open>The first inner edge that can be reached and carries a tunnel of the given sizes.\<close>

definition inner_answers :: "mim_world \<Rightarrow> nat \<Rightarrow> bool \<Rightarrow> socket_addr \<Rightarrow> bool" where
  "inner_answers M k h2 inner \<longleftrightarrow>
     mw_forward M k inner = Inr () \<and> mw_inner M k inner (mim_inner_budget TUNNEL_MTU inner h2) = Inr ()"

definition winner_name :: "mim_winner \<Rightarrow> string" where
  "winner_name w = (case w of WinOuter \<Rightarrow> ''outer masque tunnel'' | WinInner \<Rightarrow> ''inner masque tunnel'' | WinLocal \<Rightarrow> ''socks5 server'')"

definition run_masque_in_masque ::
  "mim_world \<Rightarrow> nat \<Rightarrow> bool \<Rightarrow> socket_addr \<Rightarrow> socket_addr list \<Rightarrow> mim_failure + socket_addr" where
  "run_masque_in_masque M k h2 peer inner_peers =
     (case mw_outer M k peer of
        Inl e \<Rightarrow> Inl (MimOuter (show_error e))
      | Inr _ \<Rightarrow>
          (case List.find (inner_answers M k h2) (filter (\<lambda>c. sa_ip c \<noteq> sa_ip peer) inner_peers) of
             None \<Rightarrow> Inl (MimInner ''no verified inner edge answered through the outer tunnel'')
           | Some inner \<Rightarrow>
               (case mw_end M k of (w, r) \<Rightarrow>
                  (case join_outcome (winner_name w) r of
                     Inr _ \<Rightarrow> Inr inner
                   | Inl e \<Rightarrow> Inl (if w = WinOuter then MimOuter (show_error e) else MimInner (show_error e))))))"


section \<open>MASQUE in MASQUE: the loop\<close>

record mim_loop = gool_loop +
  ml_inner :: "socket_addr option"

definition MAX_OUTER_FAILS :: nat where "MAX_OUTER_FAILS = 2"

definition mim_start :: "socket_addr option \<Rightarrow> mim_loop" where
  "mim_start cached = \<lparr>gl_last = None, gl_cached = cached, gl_fails = 0, ml_inner = None\<rparr>"

definition mim_candidates :: "socket_addr option \<Rightarrow> socket_addr list \<Rightarrow> socket_addr list" where
  "mim_candidates last_inner pool =
     (case last_inner of Some preferred \<Rightarrow> if preferred \<in> set pool then pool else preferred # pool | None \<Rightarrow> pool)"

definition mim_turn ::
  "mim_world \<Rightarrow> bool \<Rightarrow> nat \<Rightarrow> bool \<Rightarrow> socket_addr list \<Rightarrow> socket_addr result \<Rightarrow> mim_loop
     \<Rightarrow> (mim_loop \<times> (socket_addr \<times> socket_addr list \<times> (mim_failure + socket_addr)) option) result" where
  "mim_turn M zero_trust k h2 cached sel s =
     (case outer_pick MAX_OUTER_FAILS sel s of
        (s, None) \<Rightarrow> Inr (s, None)
      | (s, Some (peer, fresh)) \<Rightarrow>
          let s = s\<lparr>gl_last := Some peer\<rparr>;
              cs = mim_candidates (ml_inner s) (inner_masque_candidates peer cached zero_trust MIM_INNER_TRIES) in
          if cs = [] then Inl (ErrOther ''no second masque edge is known for the inner hop'')
          else
            let r = run_masque_in_masque M k h2 peer cs in
            Inr (case r of
                Inr inner_edge \<Rightarrow> s\<lparr>ml_inner := Some inner_edge, gl_fails := 0\<rparr>
              | Inl (MimOuter _) \<Rightarrow> s\<lparr>gl_fails := gl_fails s + 1\<rparr>
              | Inl (MimInner _) \<Rightarrow> s\<lparr>ml_inner := None\<rparr>, Some (peer, cs, r)))"

text \<open>A run: for each turn the active transport, the cached gateways and what a search would give.\<close>

fun mim_run ::
  "mim_world \<Rightarrow> bool \<Rightarrow> nat \<Rightarrow> (bool \<times> socket_addr list \<times> socket_addr result) list \<Rightarrow> mim_loop
     \<Rightarrow> (mim_loop \<times> (socket_addr \<times> socket_addr list \<times> (mim_failure + socket_addr)) list) result" where
  "mim_run M zero_trust k [] s = Inr (s, [])"
| "mim_run M zero_trust k ((h2, cached, sel) # ins) s =
     (case mim_turn M zero_trust k h2 cached sel s of
        Inl e \<Rightarrow> Inl e
      | Inr (s, d) \<Rightarrow>
          map_sum id (\<lambda>(s, tr). (s, case d of None \<Rightarrow> tr | Some x \<Rightarrow> x # tr)) (mim_run M zero_trust (Suc k) ins s))"


section \<open>The inner edges of a session\<close>

lemma join_outcome_fails: "\<exists>e. join_outcome what r = Inl e"
  by (simp add: join_outcome_def split: task_end.split sum.split)

lemma mim_never_succeeds: "\<exists>f. run_masque_in_masque M k h2 peer inner_peers = Inl f"
proof -
  obtain J where "\<And>what r. join_outcome what r = Inl (J what r)" using join_outcome_fails by metis
  then show ?thesis by (simp add: run_masque_in_masque_def split: sum.split option.split prod.split)
qed

text \<open>The candidates: at most four, each once, none at the address of the outer edge, and never none at all.\<close>

lemma inner_candidates_ok:
  "inner_masque_candidates outer cached zt tries \<noteq> [] \<and> distinct (inner_masque_candidates outer cached zt tries)
   \<and> length (inner_masque_candidates outer cached zt tries) \<le> max tries 1
   \<and> list_all (\<lambda>c. sa_ip c \<noteq> sa_ip outer \<and> sa_port c = QUIC_PORT) (inner_masque_candidates outer cached zt tries)"
proof -
  let ?xs = "filter (\<lambda>peer. sa_ip peer \<noteq> sa_ip outer) (map (\<lambda>peer. \<lparr>sa_ip = sa_ip peer, sa_port = QUIC_PORT\<rparr>) (cached @ masque_gateway_peers zt))"
  have "set (map (at_port QUIC_PORT) [2728380161, 2728380162, 2728379906, 2728379905]) \<subseteq> set (masque_gateway_peers zt)"
    unfolding masque_gateway_peers_def Let_def verified_gateways by (auto simp: set_push_all)
  then have two: "at_port QUIC_PORT 2728380161 \<in> set (masque_gateway_peers zt)" "at_port QUIC_PORT 2728380162 \<in> set (masque_gateway_peers zt)"
    by auto
  obtain a where a: "a \<in> {2728380161, 2728380162}" "V4 a \<noteq> sa_ip outer" 
  proof (cases "sa_ip outer = V4 2728380161")
    case True
    show ?thesis by (rule that [of 2728380162]) (simp_all add: True)
  next
    case False
    show ?thesis by (rule that [of 2728380161]) (use False in auto)
  qed
  then have "at_port QUIC_PORT a \<in> set (masque_gateway_peers zt)" using two by auto
  then have "at_port QUIC_PORT a \<in> set ?xs" using a(2) by (force simp: at_port_def)
  then have "push_all ?xs [] \<noteq> []" using set_push_all [of ?xs "[]"] by (metis empty_iff empty_set Un_iff)
  moreover have "distinct (push_all ?xs [])" by (rule distinct_push_all) simp
  moreover have "\<forall>c \<in> set (push_all ?xs []). sa_ip c \<noteq> sa_ip outer \<and> sa_port c = QUIC_PORT" by (auto simp: set_push_all)
  ultimately have "take (max tries 1) ys \<noteq> [] \<and> distinct (take (max tries 1) ys) \<and> length (take (max tries 1) ys) \<le> max tries 1
     \<and> list_all (\<lambda>c. sa_ip c \<noteq> sa_ip outer \<and> sa_port c = QUIC_PORT) (take (max tries 1) ys)" if "ys = push_all ?xs []" for ys
    unfolding that [symmetric] by (simp add: list_all_iff) (meson in_set_takeD)
  then show ?thesis unfolding inner_masque_candidates_def by blast
qed

lemma mim_turn_forgets:
  assumes "ml_inner s = None"
  shows "\<exists>s' d. mim_turn M zt k h2 cached sel s = Inr (s', d) \<and> ml_inner s' = None
     \<and> (case d of None \<Rightarrow> True
        | Some (peer, cs, r) \<Rightarrow> isl r \<and> cs = inner_masque_candidates peer cached zt MIM_INNER_TRIES)"
proof -
  obtain t x where t: "outer_pick MAX_OUTER_FAILS sel s = (t, x)" by (cases "outer_pick MAX_OUTER_FAILS sel s")
  then have i: "ml_inner t = None" using assms
    by (auto simp: outer_pick_def outer_known_def split: if_splits option.splits sum.splits)
  show ?thesis
  proof (cases x)
    case (Some px)
    obtain peer fresh where px: "px = (peer, fresh)" by (cases px)
    let ?c = "inner_masque_candidates peer cached zt MIM_INNER_TRIES"
    obtain f where f: "run_masque_in_masque M k h2 peer ?c = Inl f" using mim_never_succeeds by blast
    show ?thesis using t Some px i f inner_candidates_ok [of peer cached zt MIM_INNER_TRIES]
      by (simp add: mim_turn_def mim_candidates_def Let_def split: mim_failure.split)
  qed (use t i in \<open>simp add: mim_turn_def\<close>)
qed

text \<open>
  C25: A MASQUE-in-MASQUE session that worked is never recorded as one. Whatever the two hops and the tasks
  do, the end of a session is reported as a failure, since \<open>join_outcome\<close> turns also a clean end into an
  error; so in every run of the loop the inner edge that carried the traffic is forgotten, and the branch that
  prefers it is dead. The loop itself never gives up: there is always an inner candidate to try.
\<close>

theorem working_session_is_forgotten:
  "\<exists>s' tr. mim_run M zt k ins (mim_start outer) = Inr (s', tr) \<and> ml_inner s' = None
     \<and> list_all (\<lambda>(peer, cs, r). isl r \<and> cs \<noteq> [] \<and> length cs \<le> MIM_INNER_TRIES
          \<and> list_all (\<lambda>c. sa_ip c \<noteq> sa_ip peer) cs) tr"
proof -
  have "ml_inner s = None \<Longrightarrow> \<exists>s' tr. mim_run M zt k ins s = Inr (s', tr) \<and> ml_inner s' = None
     \<and> list_all (\<lambda>(peer, cs, r). isl r \<and> (\<exists>cached. cs = inner_masque_candidates peer cached zt MIM_INNER_TRIES)) tr" for s
  proof (induction ins arbitrary: k s)
    case (Cons y ins)
    obtain h2 cached sel where y: "y = (h2, cached, sel)" by (cases y)
    from mim_turn_forgets [OF Cons.prems, of M zt k h2 cached sel] obtain t d where
      t: "mim_turn M zt k h2 cached sel s = Inr (t, d)" "ml_inner t = None"
      and d: "case d of None \<Rightarrow> True | Some (peer, cs, r) \<Rightarrow> isl r \<and> cs = inner_masque_candidates peer cached zt MIM_INNER_TRIES"
      by blast
    from Cons.IH [OF t(2), of "Suc k"] t(1) d y show ?case by (cases d) auto
  qed simp
  from this [of "mim_start outer"] obtain s' tr where
    r: "mim_run M zt k ins (mim_start outer) = Inr (s', tr)" "ml_inner s' = None"
    "list_all (\<lambda>(peer, cs, r). isl r \<and> (\<exists>cached. cs = inner_masque_candidates peer cached zt MIM_INNER_TRIES)) tr"
    by (auto simp: mim_start_def)
  have "list_all (\<lambda>(peer, cs, r). isl r \<and> cs \<noteq> [] \<and> length cs \<le> MIM_INNER_TRIES
          \<and> list_all (\<lambda>c. sa_ip c \<noteq> sa_ip peer) cs) tr"
    using r(3)
  proof (rule list.pred_mono_strong)
    fix x assume x: "case x of (peer, cs, r) \<Rightarrow> isl r \<and> (\<exists>cached. cs = inner_masque_candidates peer cached zt MIM_INNER_TRIES)"
    then show "case x of (peer, cs, r) \<Rightarrow> isl r \<and> cs \<noteq> [] \<and> length cs \<le> MIM_INNER_TRIES
          \<and> list_all (\<lambda>c. sa_ip c \<noteq> sa_ip peer) cs"
    proof (cases x)
      case (fields peer cs r)
      then obtain cached where "cs = inner_masque_candidates peer cached zt MIM_INNER_TRIES" "isl r" using x by auto
      then show ?thesis using fields inner_candidates_ok [of peer cached zt MIM_INNER_TRIES]
        by (simp add: list_all_iff) (simp add: MIM_INNER_TRIES_def)
    qed
  qed
  with r show ?thesis by blast
qed

end
