(* ===== verification/CommandLine.thy ===== *)
theory CommandLine
  imports Dial "HOL-Library.List_Lexorder" "HOL-Library.Char_ord"
begin

text \<open>
  From the command line to a session: the arguments (\<open>core/aether/src/cli.rs\<close>), which only set environment
  variables; the options that \<open>run_cli\<close> of \<open>main.rs\<close> builds from the variables and from what the user answers;
  and \<open>apply_runtime_options\<close>, which writes the options back into the environment, where the rest of the core
  reads them. The environment is a map from names to values.
\<close>

section \<open>Arguments\<close>

type_synonym env_vars = "string \<rightharpoonup> string"

datatype cli_option = CliExit | CliFlag "(string \<times> string) list" | CliValue "string list"

definition CLI_OPTIONS :: "(string \<times> cli_option) list" where
  "CLI_OPTIONS =
     [(''-v'', CliExit), (''--version'', CliExit), (''-h'', CliExit), (''--help'', CliExit), (''--bind'', CliValue [''AETHER_SOCKS'']),
      (''--http-proxy'', CliValue [''AETHER_HTTP_PROXY'']), (''--quick-reconnect'', CliFlag [(''AETHER_QUICK_RECONNECT'', ''1'')]),
      (''--no-quick-reconnect'', CliFlag [(''AETHER_QUICK_RECONNECT'', ''0'')]), (''-4'', CliFlag [(''AETHER_IP'', ''v4'')]),
      (''-6'', CliFlag [(''AETHER_IP'', ''v6'')]), (''--dual'', CliFlag [(''AETHER_IP'', ''both'')]),
      (''--ip'', CliValue [''AETHER_IP'']), (''--peer'', CliValue [''AETHER_PEER'']), (''--wg-peer'', CliValue [''AETHER_WG_PEER'']),
      (''--masque'', CliFlag [(''AETHER_PROTOCOL'', ''masque'')]), (''--wg'', CliFlag [(''AETHER_PROTOCOL'', ''wg'')]),
      (''--wireguard'', CliFlag [(''AETHER_PROTOCOL'', ''wg'')]), (''--warp'', CliFlag [(''AETHER_PROTOCOL'', ''wg'')]),
      (''--gool'', CliFlag [(''AETHER_PROTOCOL'', ''gool'')]), (''--wiw'', CliFlag [(''AETHER_PROTOCOL'', ''gool'')]),
      (''--protocol'', CliValue [''AETHER_PROTOCOL'']), (''--scan'', CliValue [''AETHER_SCAN'']),
      (''--turbo'', CliFlag [(''AETHER_SCAN'', ''turbo'')]), (''--balanced'', CliFlag [(''AETHER_SCAN'', ''balanced'')]),
      (''--thorough'', CliFlag [(''AETHER_SCAN'', ''thorough'')]), (''--stealth'', CliFlag [(''AETHER_SCAN'', ''stealth'')]),
      (''--ironclad'', CliFlag [(''AETHER_SCAN'', ''ironclad'')]), (''--noize'', CliValue [''AETHER_NOIZE'']),
      (''--h2'', CliFlag [(''AETHER_MASQUE_HTTP2'', ''1'')]), (''--http2'', CliFlag [(''AETHER_MASQUE_HTTP2'', ''1'')]),
      (''--h2-peer'', CliValue [''AETHER_MASQUE_H2_PEER'']), (''--ech'', CliValue [''AETHER_ECH'']),
      (''--no-data-check'', CliFlag [(''AETHER_MASQUE_NO_DATA_CHECK'', ''1''), (''AETHER_WG_NO_DATA_CHECK'', ''1'')]),
      (''--validate-secs'', CliValue [''AETHER_MASQUE_VALIDATE_SECS'', ''AETHER_WG_VALIDATE_SECS'']),
      (''--startup-secs'', CliValue [''AETHER_MASQUE_STARTUP_SECS'']),
      (''--reconnect-secs'', CliValue [''AETHER_MASQUE_RECONNECT_SECS'', ''AETHER_WG_RECONNECT_SECS'']),
      (''--dns'', CliValue [''AETHER_DNS'']), (''--fragment'', CliFlag [(''AETHER_MASQUE_H2_FRAGMENT'', ''1'')]),
      (''--fragment-size'', CliValue [''AETHER_MASQUE_H2_FRAGMENT_SIZE'']),
      (''--fragment-delay'', CliValue [''AETHER_MASQUE_H2_FRAGMENT_DELAY'']), (''--keepalive'', CliValue [''AETHER_WG_KEEPALIVE'']),
      (''--no-profile-retry'', CliFlag [(''AETHER_WG_NO_PROFILE_RETRY'', ''1'')]), (''--config'', CliValue [''AETHER_CONFIG'']),
      (''--wg-config'', CliValue [''AETHER_WG_CONFIG'']), (''--masque-config'', CliValue [''AETHER_MASQUE_CONFIG'']),
      (''--team'', CliValue [''AETHER_TEAM'']), (''--organization'', CliValue [''AETHER_TEAM'']),
      (''--access-id'', CliValue [''AETHER_ACCESS_CLIENT_ID'']), (''--access-secret'', CliValue [''AETHER_ACCESS_CLIENT_SECRET'']),
      (''--access-token'', CliValue [''AETHER_ACCESS_TOKEN'']), (''--access-email'', CliValue [''AETHER_ACCESS_EMAIL'']),
      (''--gateway'', CliFlag [(''AETHER_GATEWAY'', ''1'')]), (''--route-block'', CliValue [''AETHER_ROUTE_BLOCK'']),
      (''--route-direct'', CliValue [''AETHER_ROUTE_DIRECT'']), (''--routes'', CliValue [''AETHER_ROUTES_FILE'']),
      (''--tls-groups'', CliValue [''AETHER_TLS_GROUPS'']), (''--perf'', CliValue [''AETHER_PERF_PROFILE'']),
      (''--log-level'', CliValue [''AETHER_LOG_LEVEL'']), (''--verbose'', CliFlag [(''AETHER_LOG_LEVEL'', ''debug'')])]"

datatype cli_end = CliDone | CliStop

definition set_vars :: "(string \<times> string) list \<Rightarrow> env_vars \<Rightarrow> env_vars" where
  "set_vars kvs env = fold (\<lambda>(k, v) e. e(k \<mapsto> v)) kvs env"

text \<open>\<open>usage\<close> is the help text. The process ends after the version or the help text has been printed.\<close>

fun parse_args :: "string \<Rightarrow> string list \<Rightarrow> env_vars \<Rightarrow> env_vars \<times> cli_end result" where
  "parse_args usage [] env = (env, Inr CliDone)"
| "parse_args usage (arg # args) env =
     (case map_of CLI_OPTIONS arg of
        None \<Rightarrow> (env, Inl (ErrOther (''unknown option '' @ [CHR 39] @ arg @ [CHR 39, CHR 10, CHR 10] @ usage)))
      | Some CliExit \<Rightarrow> (env, Inr CliStop)
      | Some (CliFlag kvs) \<Rightarrow> parse_args usage args (set_vars kvs env)
      | Some (CliValue ks) \<Rightarrow>
          (case args of
             [] \<Rightarrow> (env, Inl (ErrOther (arg @ '' requires a value'')))
           | v # rest \<Rightarrow> parse_args usage rest (set_vars (map (\<lambda>k. (k, v)) ks) env)))"

text \<open>The assignments an argument list stands for; a later one overrides an earlier one.\<close>

fun assignments :: "string list \<Rightarrow> (string \<times> string) list" where
  "assignments [] = []"
| "assignments (arg # args) =
     (case map_of CLI_OPTIONS arg of
        Some (CliFlag kvs) \<Rightarrow> kvs @ assignments args
      | Some (CliValue ks) \<Rightarrow> (case args of [] \<Rightarrow> [] | v # rest \<Rightarrow> map (\<lambda>k. (k, v)) ks @ assignments rest)
      | _ \<Rightarrow> [])"

lemma set_vars_map_of: "set_vars kvs env = env ++ map_of (rev kvs)"
  by (induction kvs rule: rev_induct) (auto simp: set_vars_def fun_eq_iff map_add_def)

lemma parse_args_assigns: "fst (parse_args usage args env) = env ++ map_of (rev (assignments args))"
proof (induction usage args env rule: parse_args.induct)
  case (2 usage arg args env)
  show ?case
  proof (cases "map_of CLI_OPTIONS arg")
    case (Some c)
    then show ?thesis using 2 by (cases c; cases args) (auto simp: set_vars_map_of)
  qed simp
qed simp


section \<open>Teams that were enrolled before\<close>

definition path_stem :: "string \<Rightarrow> string" where
  "path_stem base =
     (let name = drop (dir_end base) base in
      case rfind_char CHR ''.'' name of Some rel \<Rightarrow> take rel name | None \<Rightarrow> name)"

definition team_of_file :: "string \<Rightarrow> string \<Rightarrow> string option" where
  "team_of_file prefix name =
     (case Option.bind (strip_prefix prefix name) (strip_suffix ''.toml'') of
        Some team \<Rightarrow> if team = [] \<or> ends_with ''-secondary'' team \<or> ends_with ''-lastconn'' team then None else Some team
      | None \<Rightarrow> None)"

text \<open>\<open>names\<close> are the entries of the directory; none when it cannot be read.\<close>

definition enrolled_teams :: "string \<Rightarrow> string list \<Rightarrow> string list" where
  "enrolled_teams base names = sort (push_all (List.map_filter (team_of_file (path_stem base @ ''-team-'')) names) [])"

lemma strip_prefix_app [simp]: "strip_prefix p (p @ s) = Some s"
  by (simp add: strip_prefix_def starts_with_def)

lemma strip_suffix_app [simp]: "strip_suffix p (s @ p) = Some s"
  by (simp add: strip_suffix_def ends_with_def)

lemma enrolled_teams_iff:
  "t \<in> set (enrolled_teams base names) \<longleftrightarrow> (\<exists>name \<in> set names. team_of_file (path_stem base @ ''-team-'') name = Some t)"
  by (force simp: enrolled_teams_def set_push_all List.map_filter_def)

lemma enrolled_teams_sorted: "sorted (enrolled_teams base names)" "distinct (enrolled_teams base names)"
  by (simp_all add: enrolled_teams_def distinct_push_all)


section \<open>Files of a session\<close>

text \<open>A configuration path with its directory, its stem and the usual extension.\<close>

definition config_parts :: "string \<Rightarrow> string \<Rightarrow> string \<Rightarrow> bool" where
  "config_parts base dir stem \<longleftrightarrow>
     base = dir @ stem @ ''.toml'' \<and> CHR ''/'' \<notin> set stem \<and> CHR 92 \<notin> set stem
     \<and> (dir = [] \<or> last dir = CHR ''/'' \<or> last dir = CHR 92)"

lemma config_parts_paths:
  assumes "config_parts base dir stem"
  shows "dir_end base = length dir" "path_stem base = stem" "derive_sibling_path base suffix = dir @ stem @ ''-'' @ suffix @ ''.toml''"
proof -
  let ?name = "stem @ ''.toml''" and ?sep = "\<lambda>c. c \<noteq> CHR ''/'' \<and> c \<noteq> CHR 92"
  have b: "base = dir @ ?name" and n: "CHR ''/'' \<notin> set ?name" "CHR 92 \<notin> set ?name"
    and d: "dir = [] \<or> last dir = CHR ''/'' \<or> last dir = CHR 92" using assms by (auto simp: config_parts_def)
  have "takeWhile ?sep (rev ?name @ rev dir) = rev ?name @ takeWhile ?sep (rev dir)" using n by (intro takeWhile_append2) auto
  moreover have "takeWhile ?sep (rev dir) = []" using d by (cases dir rule: rev_cases) auto
  ultimately have "takeWhile ?sep (rev base) = rev ?name" unfolding b rev_append [of dir] by simp
  then show de: "dir_end base = length dir" unfolding dir_end_def by (simp add: b)
  then have dr: "drop (dir_end base) base = ?name" by (simp add: b)
  have "CHR ''.'' \<notin> set ''toml''" by simp
  from rsplit_once_app [OF this, of stem] have r: "rfind_char CHR ''.'' ?name = Some (length stem)" by (simp add: rfind_char_def)
  show "path_stem base = stem" unfolding path_stem_def dr Let_def r by simp
  show "derive_sibling_path base suffix = dir @ stem @ ''-'' @ suffix @ ''.toml''"
    unfolding derive_sibling_path_def dr unfolding r de Let_def by (simp add: b)
qed

text \<open>The file in which a team's identity is saved is the one by which the team is found again.\<close>

lemma saved_team_is_found:
  assumes "config_parts base dir stem" "stem @ ''-team-'' @ t @ ''.toml'' \<in> set names"
    and "t \<noteq> []" "\<not> ends_with ''-secondary'' t" "\<not> ends_with ''-lastconn'' t"
  shows "derive_sibling_path base (''team-'' @ t) = dir @ stem @ ''-team-'' @ t @ ''.toml'' \<and> t \<in> set (enrolled_teams base names)"
proof -
  have "team_of_file (stem @ ''-team-'') ((stem @ ''-team-'') @ t @ ''.toml'') = Some t"
    using assms(3-5) unfolding team_of_file_def strip_prefix_app by simp
  then show ?thesis using assms(2) config_parts_paths [OF assms(1)] by (auto simp: enrolled_teams_iff intro!: bexI [of _ "stem @ ''-team-'' @ t @ ''.toml''"])
qed

text \<open>
  The files of two teams can be the same: what one team keeps beside its identity is the identity of another team
  whose name ends accordingly.
\<close>

lemma team_files_collide:
  assumes "config_parts base dir stem" "CHR ''/'' \<notin> set t" "CHR 92 \<notin> set t"
  shows "derive_sibling_path (derive_sibling_path base (''team-'' @ t)) x = derive_sibling_path base (''team-'' @ t @ ''-'' @ x)"
proof -
  have p: "derive_sibling_path base (''team-'' @ t) = dir @ (stem @ ''-team-'' @ t) @ ''.toml''"
    using config_parts_paths(3) [OF assms(1), of "''team-'' @ t"] by simp
  have "config_parts (derive_sibling_path base (''team-'' @ t)) dir (stem @ ''-team-'' @ t)"
    using assms unfolding config_parts_def p by auto
  from config_parts_paths(3) [OF this, of x] show ?thesis
    using config_parts_paths(3) [OF assms(1), of "''team-'' @ t @ ''-'' @ x"] by simp
qed


section \<open>What the user is asked\<close>

text \<open>
  An answer is the line that was entered, trimmed, or nothing when there is no terminal. The variables come
  first: what is set there is not asked for.
\<close>

definition select_scan_mode :: "(string \<Rightarrow> string) \<Rightarrow> env_vars \<Rightarrow> string option \<Rightarrow> scan_mode" where
  "select_scan_mode lower env answer =
     (case env ''AETHER_SCAN'' of
        Some v \<Rightarrow> scan_mode_parse lower v
      | None \<Rightarrow>
          if answer = Some ''1'' then Turbo else if answer = Some ''3'' then Thorough
          else if answer = Some ''4'' then Stealth else if answer = Some ''5'' then Ironclad else Balanced)"

definition select_scan_mode_str :: "env_vars \<Rightarrow> string option \<Rightarrow> string" where
  "select_scan_mode_str env answer =
     (case env ''AETHER_SCAN'' of
        Some v \<Rightarrow> v
      | None \<Rightarrow>
          if answer = Some ''1'' then ''turbo'' else if answer = Some ''3'' then ''thorough''
          else if answer = Some ''4'' then ''stealth'' else if answer = Some ''5'' then ''ironclad'' else ''balanced'')"

lemma scan_modes_agree:
  "lower ''turbo'' = ''turbo'' \<Longrightarrow> lower ''thorough'' = ''thorough'' \<Longrightarrow> lower ''stealth'' = ''stealth'' \<Longrightarrow> lower ''ironclad'' = ''ironclad''
    \<Longrightarrow> lower ''balanced'' = ''balanced'' \<Longrightarrow> scan_mode_parse lower (select_scan_mode_str env answer) = select_scan_mode lower env answer"
  by (simp add: select_scan_mode_def select_scan_mode_str_def scan_mode_parse_def trim_id as_bytes_def split: option.split)

definition select_ip_version :: "(string \<Rightarrow> string) \<Rightarrow> env_vars \<Rightarrow> string option \<Rightarrow> ip_scan" where
  "select_ip_version lower env answer =
     (case env ''AETHER_IP'' of
        Some v \<Rightarrow> ip_scan_parse lower v
      | None \<Rightarrow> if answer = Some ''2'' then ScanV6 else if answer = Some ''3'' then ScanBoth else ScanV4)"

definition select_masque_transport :: "env_vars \<Rightarrow> string option \<Rightarrow> env_vars" where
  "select_masque_transport env answer =
     (if env ''AETHER_MASQUE_HTTP2'' \<noteq> None \<or> env ''AETHER_PEER'' \<noteq> None then env
      else if answer = Some ''2'' then env(''AETHER_MASQUE_HTTP2'' \<mapsto> ''1'') else env)"

text \<open>The answers of one turn of the protocol menu: the choice, the team and the mail address; and the clock.\<close>

record menu_turn =
  mt_choice :: "string option"
  mt_team :: "string option"
  mt_email :: "string option"
  mt_names :: "string list"
  mt_now :: u64
  mt_later :: u64

definition unset :: "string \<Rightarrow> start_state \<Rightarrow> start_state" where
  "unset k s = s\<lparr>ss_env := (ss_env s)(k := None)\<rparr>"

definition answer_text :: "string option \<Rightarrow> string" where
  "answer_text a = (case a of Some t \<Rightarrow> trim t | None \<Rightarrow> [])"

definition needs_method :: "team_settings \<Rightarrow> bool" where
  "needs_method ts \<longleftrightarrow> \<not> (ts_token ts \<noteq> None \<or> has_service_token ts \<or> ts_email ts \<noteq> None)"

definition enrol_sign_in :: "start_world \<Rightarrow> menu_turn \<Rightarrow> start_state \<Rightarrow> start_state" where
  "enrol_sign_in W m s =
     (case team_from_env (sw_lower W) (ss_env s) of
        None \<Rightarrow> unset ''AETHER_TEAM'' s
      | Some settings \<Rightarrow>
          (case resolve_token (sw_jwt W) (sw_zt W) (mt_now m) (mt_later m) settings (ss_zt s) of
             (z, Inr _) \<Rightarrow> s\<lparr>ss_zt := z\<rparr>
           | (z, Inl _) \<Rightarrow> unset ''AETHER_ACCESS_EMAIL'' (unset ''AETHER_TEAM'' (s\<lparr>ss_zt := z\<rparr>))))"

definition enrol_zero_trust :: "start_world \<Rightarrow> string \<Rightarrow> menu_turn \<Rightarrow> start_state \<Rightarrow> start_state" where
  "enrol_zero_trust W base m s =
     (let known = enrolled_teams base (mt_names m);
          answer = answer_text (mt_team m) in
      case (if answer = [] then get_at known 0 else normalize_team (sw_lower W) answer) of
        None \<Rightarrow> s
      | Some team \<Rightarrow>
          let s = s\<lparr>ss_env := (ss_env s)(''AETHER_TEAM'' \<mapsto> team)\<rparr> in
          if team \<in> set known then s
          else case team_from_env (sw_lower W) (ss_env s) of
            None \<Rightarrow> unset ''AETHER_TEAM'' s
          | Some settings \<Rightarrow>
              if needs_method settings then
                (let email = answer_text (mt_email m) in
                 if email = [] then unset ''AETHER_TEAM'' s
                 else enrol_sign_in W m (s\<lparr>ss_env := (ss_env s)(''AETHER_ACCESS_EMAIL'' \<mapsto> email)\<rparr>))
              else enrol_sign_in W m s)"

text \<open>The menu comes back until something other than signing in is chosen; without answers it gives MASQUE.\<close>

fun select_protocol :: "start_world \<Rightarrow> string \<Rightarrow> menu_turn list \<Rightarrow> start_state \<Rightarrow> start_state \<times> protocol" where
  "select_protocol W base [] s =
     (s, case ss_env s ''AETHER_PROTOCOL'' of Some v \<Rightarrow> protocol_parse (sw_lower W) v | None \<Rightarrow> Masque)"
| "select_protocol W base (m # ms) s =
     (case ss_env s ''AETHER_PROTOCOL'' of
        Some v \<Rightarrow> (s, protocol_parse (sw_lower W) v)
      | None \<Rightarrow>
          if mt_choice m = Some ''2'' then (s, WireGuard)
          else if mt_choice m = Some ''3'' then (s, WarpInWarp)
          else if mt_choice m = Some ''4'' then select_protocol W base ms (enrol_zero_trust W base m s)
          else (s, Masque))"

text \<open>
  After the enrolment the core is in a team only if it was enrolled before or a token of the team is at hand,
  or the team was set already and nothing usable was entered.
\<close>

lemma sign_in_result:
  "ss_env (enrol_sign_in W m s) ''AETHER_TEAM'' = None
   \<or> (\<exists>t token. team_scope W (enrol_sign_in W m s) = Some t \<and> zt_cache (ss_zt (enrol_sign_in W m s)) = Some (t, token))"
proof (cases "team_from_env (sw_lower W) (ss_env s)")
  case (Some settings)
  obtain z r where r: "resolve_token (sw_jwt W) (sw_zt W) (mt_now m) (mt_later m) settings (ss_zt s) = (z, r)"
    by (cases "resolve_token (sw_jwt W) (sw_zt W) (mt_now m) (mt_later m) settings (ss_zt s)")
  show ?thesis
  proof (cases r)
    case (Inr token)
    then show ?thesis using Some r resolve_token_cases [of "sw_jwt W" "sw_zt W" "mt_now m" "mt_later m" settings "ss_zt s" z token]
      by (auto simp: enrol_sign_in_def team_scope_def)
  qed (use Some r in \<open>simp add: enrol_sign_in_def unset_def\<close>)
qed (simp add: enrol_sign_in_def unset_def)

lemma enrol_signs_in:
  assumes "enrol_zero_trust W base m s = s'" "s' \<noteq> s" "ss_env s' ''AETHER_TEAM'' = Some t"
  shows "t \<in> set (enrolled_teams base (mt_names m)) \<or> (\<exists>t' token. team_scope W s' = Some t' \<and> zt_cache (ss_zt s') = Some (t', token))"
proof -
  define known where "known = enrolled_teams base (mt_names m)"
  define team where "team = (if answer_text (mt_team m) = [] then get_at known 0 else normalize_team (sw_lower W) (answer_text (mt_team m)))"
  note e = assms(1) [unfolded enrol_zero_trust_def Let_def, folded known_def, folded team_def]
  show ?thesis
  proof (cases team)
    case None
    then show ?thesis using e assms(2) by simp
  next
    case (Some x)
    let ?s = "s\<lparr>ss_env := (ss_env s)(''AETHER_TEAM'' \<mapsto> x)\<rparr>"
    have s': "s' = (if x \<in> set known then ?s
       else case team_from_env (sw_lower W) (ss_env ?s) of
            None \<Rightarrow> unset ''AETHER_TEAM'' ?s
          | Some settings \<Rightarrow>
              if needs_method settings then
                (let email = answer_text (mt_email m) in
                 if email = [] then unset ''AETHER_TEAM'' ?s
                 else enrol_sign_in W m (?s\<lparr>ss_env := (ss_env ?s)(''AETHER_ACCESS_EMAIL'' \<mapsto> email)\<rparr>))
              else enrol_sign_in W m ?s)"
      using e [unfolded Some option.case, symmetric] by (simp only: Let_def)
    have signed: "s' = enrol_sign_in W m u \<Longrightarrow> ?thesis" for u using sign_in_result [of W m u] assms(3) by auto
    have left: "s' = unset ''AETHER_TEAM'' ?s \<Longrightarrow> ?thesis" using assms(3) by (simp add: unset_def)
    have kept: "x \<in> set known \<Longrightarrow> ?thesis" using s' assms(3) by (simp add: known_def)
    show ?thesis using s' signed left kept by (auto simp: Let_def split: if_splits option.splits)
  qed
qed


section \<open>Options\<close>

record start_options =
  so_listen :: socket_addr
  so_config_path :: string
  so_wireguard_config_path :: "string option"
  so_masque_config_path :: "string option"
  so_protocol :: protocol
  so_forced_peer :: "socket_addr option"
  so_scan_mode :: scan_mode
  so_ip_scan :: ip_scan
  so_obfuscation_profile :: "string option"
  so_obfuscation_parameters :: "string option"
  so_retry_obfuscation_profiles :: bool
  so_endpoint_cache_path :: "string option"
  so_endpoint_discovery :: endpoint_discovery
  so_masque_transport :: masque_transport
  so_tls_curve_preset :: tls_curve_preset
  so_wireguard_data_check :: bool
  so_tun_fd :: "int option"
  so_log_level :: "string option"
  so_perf_profile :: "string option"
  so_h2_fragmentation :: "bool option"
  so_mixed_case_sni :: "bool option"
  so_dns_servers :: "string option"
  so_route_block :: "string option"
  so_route_direct :: "string option"
  so_routes_file :: "string option"
  so_team :: "string option"
  so_access_client_id :: "string option"
  so_access_client_secret :: "string option"
  so_access_token :: "string option"
  so_access_email :: "string option"
  so_gateway :: bool
  so_upstream_proxy :: "string option"
  so_http_proxy :: "socket_addr option"
  so_smart_dns :: bool
  so_smart_dns_servers :: "string option"
  so_dns_servers_dot :: "string option"
  so_dns_servers_doh :: "string option"
  so_exit_loc :: "string option"
  so_exit_loc_secs :: nat
  so_stats :: bool
  so_psiphon_region :: "string option"
  so_psiphon_mode :: "string option"
  so_psiphon_http :: "socket_addr option"
  so_tor_bridge_file :: "string option"
  so_tor_relays :: "string option"

text \<open>The display of a socket address (standard library).\<close>

definition show_socket_addr :: "socket_addr \<Rightarrow> string" where
  "show_socket_addr a =
     (case sa_ip a of
        V4 x \<Rightarrow> show_v4 x @ '':'' @ show_nat (unat (sa_port a))
      | V6 x \<Rightarrow> ''['' @ show_v6 x @ '']:'' @ show_nat (unat (sa_port a)))"

definition DEFAULT_CONFIG :: string where "DEFAULT_CONFIG = ''aether.toml''"

definition DEFAULT_LISTEN :: socket_addr where
  "DEFAULT_LISTEN = \<lparr>sa_ip = V4 (v4_new 127 0 0 1), sa_port = 1819\<rparr>"

definition start_options_new :: "protocol \<Rightarrow> string \<Rightarrow> start_options" where
  "start_options_new protocol config_path =
     \<lparr>so_listen = DEFAULT_LISTEN, so_config_path = config_path, so_wireguard_config_path = None, so_masque_config_path = None,
      so_protocol = protocol, so_forced_peer = None, so_scan_mode = Balanced, so_ip_scan = ScanV4, so_obfuscation_profile = None,
      so_obfuscation_parameters = None, so_retry_obfuscation_profiles = True, so_endpoint_cache_path = None,
      so_endpoint_discovery = DiscoverCache, so_masque_transport = H3, so_tls_curve_preset = CurveChrome,
      so_wireguard_data_check = True, so_tun_fd = None, so_log_level = None, so_perf_profile = None, so_h2_fragmentation = None,
      so_mixed_case_sni = None, so_dns_servers = None, so_route_block = None, so_route_direct = None, so_routes_file = None,
      so_team = None, so_access_client_id = None, so_access_client_secret = None, so_access_token = None, so_access_email = None,
      so_gateway = False, so_upstream_proxy = None, so_http_proxy = None, so_smart_dns = False, so_smart_dns_servers = None,
      so_dns_servers_dot = None, so_dns_servers_doh = None, so_exit_loc = None, so_exit_loc_secs = 60, so_stats = False,
      so_psiphon_region = None, so_psiphon_mode = None, so_psiphon_http = None, so_tor_bridge_file = None, so_tor_relays = None\<rparr>"

definition masque_profile :: "start_options \<Rightarrow> string" where
  "masque_profile o' = (case so_obfuscation_profile o' of Some p \<Rightarrow> p | None \<Rightarrow> ''firewall'')"

definition wireguard_profile :: "start_options \<Rightarrow> string" where
  "wireguard_profile o' = (case so_obfuscation_profile o' of Some p \<Rightarrow> p | None \<Rightarrow> ''balanced'')"

definition http_proxy_listen :: "start_options \<Rightarrow> env_vars \<Rightarrow> socket_addr option" where
  "http_proxy_listen o' env =
     (case so_http_proxy o' of
        Some a \<Rightarrow> Some a
      | None \<Rightarrow>
          (case env ''AETHER_HTTP_PROXY'' of
             None \<Rightarrow> None
           | Some raw \<Rightarrow> if trim raw = [] then None else parse_socket_addr (trim raw)))"

definition cli_listen :: "env_vars \<Rightarrow> socket_addr" where
  "cli_listen env = (case Option.bind (env ''AETHER_SOCKS'') parse_socket_addr of Some a \<Rightarrow> a | None \<Rightarrow> DEFAULT_LISTEN)"

definition cli_forced_peer :: "protocol \<Rightarrow> env_vars \<Rightarrow> socket_addr option result" where
  "cli_forced_peer protocol env =
     (let raw = (case protocol of
           Masque \<Rightarrow> env ''AETHER_PEER''
         | MasqueInMasque \<Rightarrow> env ''AETHER_PEER''
         | WireGuard \<Rightarrow> (case env ''AETHER_WG_PEER'' of Some p \<Rightarrow> Some p | None \<Rightarrow> env ''AETHER_PEER'')
         | WarpInWarp \<Rightarrow> (case env ''AETHER_WG_PEER'' of Some p \<Rightarrow> Some p | None \<Rightarrow> env ''AETHER_PEER'')
         | Psiphon \<Rightarrow> None) in
      case raw of
        None \<Rightarrow> Inr None
      | Some peer \<Rightarrow> (case parse_socket_addr peer of Some a \<Rightarrow> Inr (Some a) | None \<Rightarrow> Inl (ErrOther (''bad peer address '' @ peer))))"

definition cli_exit_loc_secs :: "env_vars \<Rightarrow> nat" where
  "cli_exit_loc_secs env =
     (case Option.bind (env ''AETHER_EXIT_LOC_SECS'') (parse_unsigned (2 ^ 64 - 1)) of
        Some v \<Rightarrow> if 10 \<le> v \<and> v \<le> 3600 then v else 60
      | None \<Rightarrow> 60)"

definition cli_psiphon_http :: "env_vars \<Rightarrow> socket_addr option result" where
  "cli_psiphon_http env =
     (case env ''AETHER_PSIPHON_HTTP'' of
        None \<Rightarrow> Inr None
      | Some v \<Rightarrow> (case parse_socket_addr v of Some a \<Rightarrow> Inr (Some a) | None \<Rightarrow> Inl (ErrOther ''bad AETHER_PSIPHON_HTTP address'')))"

definition is_set :: "env_vars \<Rightarrow> string \<Rightarrow> bool" where
  "is_set env k \<longleftrightarrow> env k \<noteq> None"

definition cli_options ::
  "protocol \<Rightarrow> string \<Rightarrow> socket_addr option \<Rightarrow> scan_mode \<Rightarrow> ip_scan \<Rightarrow> socket_addr option \<Rightarrow> masque_transport \<Rightarrow> env_vars \<Rightarrow> start_options" where
  "cli_options protocol base forced mode ip psiphon_http transport env =
     (start_options_new protocol base)
       \<lparr>so_listen := cli_listen env, so_wireguard_config_path := env ''AETHER_WG_CONFIG'',
        so_masque_config_path := env ''AETHER_MASQUE_CONFIG'', so_forced_peer := forced, so_scan_mode := mode, so_ip_scan := ip,
        so_obfuscation_profile := env ''AETHER_NOIZE'', so_obfuscation_parameters := env ''AETHER_NOIZE_PARAMETERS'',
        so_retry_obfuscation_profiles := \<not> is_set env ''AETHER_WG_NO_PROFILE_RETRY'',
        so_wireguard_data_check := \<not> is_set env ''AETHER_WG_NO_DATA_CHECK'', so_log_level := env ''AETHER_LOG_LEVEL'',
        so_perf_profile := env ''AETHER_PERF_PROFILE'', so_h2_fragmentation := Some (is_set env ''AETHER_MASQUE_H2_FRAGMENT''),
        so_mixed_case_sni := Some (is_set env ''AETHER_MIXED_CASE_SNI''), so_dns_servers := env ''AETHER_DNS'',
        so_route_block := env ''AETHER_ROUTE_BLOCK'', so_route_direct := env ''AETHER_ROUTE_DIRECT'',
        so_routes_file := env ''AETHER_ROUTES_FILE'', so_team := env ''AETHER_TEAM'',
        so_access_client_id := env ''AETHER_ACCESS_CLIENT_ID'', so_access_client_secret := env ''AETHER_ACCESS_CLIENT_SECRET'',
        so_access_token := env ''AETHER_ACCESS_TOKEN'', so_access_email := env ''AETHER_ACCESS_EMAIL'',
        so_gateway := is_set env ''AETHER_GATEWAY'', so_exit_loc := env ''AETHER_EXIT_LOC'',
        so_exit_loc_secs := cli_exit_loc_secs env, so_stats := is_set env ''AETHER_STATS'',
        so_psiphon_region := env ''AETHER_PSIPHON_REGION'', so_psiphon_mode := env ''AETHER_PSIPHON_MODE'',
        so_psiphon_http := psiphon_http, so_tor_bridge_file := env ''AETHER_TOR_BRIDGE_FILE'',
        so_tor_relays := env ''AETHER_TOR_RELAYS'', so_masque_transport := transport\<rparr>"

text \<open>\<open>run_cli\<close> after the arguments, up to \<open>start\<close>; the answers are those to the questions on mode, family and transport.\<close>

definition cli_protocol :: "start_world \<Rightarrow> string \<Rightarrow> menu_turn list \<Rightarrow> start_state \<Rightarrow> start_state \<times> protocol" where
  "cli_protocol W base ms s =
     (if is_set (ss_env s) ''AETHER_PEER'' \<or> is_set (ss_env s) ''AETHER_WG_PEER'' then
        (s, case ss_env s ''AETHER_PROTOCOL'' of Some v \<Rightarrow> protocol_parse (sw_lower W) v | None \<Rightarrow> Masque)
      else select_protocol W base ms s)"

definition run_cli ::
  "start_world \<Rightarrow> menu_turn list \<Rightarrow> string option \<Rightarrow> string option \<Rightarrow> string option \<Rightarrow> start_state \<Rightarrow> start_state \<times> start_options result" where
  "run_cli W ms scan_answer ip_answer h2_answer s =
     (let base = (case ss_env s ''AETHER_CONFIG'' of Some p \<Rightarrow> p | None \<Rightarrow> DEFAULT_CONFIG) in
      case cli_protocol W base ms s of (s, protocol) \<Rightarrow>
        (case cli_forced_peer protocol (ss_env s) of
           Inl e \<Rightarrow> (s, Inl e)
         | Inr forced \<Rightarrow>
             (case cli_psiphon_http (ss_env s) of
                Inl e \<Rightarrow> (s, Inl e)
              | Inr http \<Rightarrow>
                  let env = ss_env s;
                      env' = select_masque_transport env h2_answer;
                      transport = (if is_set env' ''AETHER_MASQUE_HTTP2'' then H2 else H3)
                  in (s\<lparr>ss_env := env'\<rparr>,
                      Inr (cli_options protocol base forced (select_scan_mode (sw_lower W) env scan_answer)
                             (select_ip_version (sw_lower W) env ip_answer) http transport env)))))"


section \<open>The options in the environment\<close>

definition set_optional :: "string \<Rightarrow> string option \<Rightarrow> string \<times> string option" where
  "set_optional key v = (key, case v of Some t \<Rightarrow> if trim t = [] then None else Some (trim t) | None \<Rightarrow> None)"

definition set_flag :: "string \<Rightarrow> bool \<Rightarrow> string \<times> string option" where
  "set_flag key b = (key, if b then Some ''1'' else None)"

definition runtime_vars :: "start_options \<Rightarrow> (string \<times> string option) list" where
  "runtime_vars o' =
     [(''AETHER_LOG_LEVEL'', so_log_level o'), (''AETHER_PERF_PROFILE'', so_perf_profile o'),
      set_flag ''AETHER_MASQUE_H2_FRAGMENT'' (so_h2_fragmentation o' = Some True),
      set_flag ''AETHER_MIXED_CASE_SNI'' (so_mixed_case_sni o' = Some True),
      set_optional ''AETHER_NOIZE_PARAMETERS'' (so_obfuscation_parameters o'), set_optional ''AETHER_DNS'' (so_dns_servers o'),
      set_optional ''AETHER_ROUTE_BLOCK'' (so_route_block o'), set_optional ''AETHER_ROUTE_DIRECT'' (so_route_direct o'),
      set_optional ''AETHER_ROUTES_FILE'' (so_routes_file o'), set_optional ''AETHER_TEAM'' (so_team o'),
      set_optional ''AETHER_ACCESS_CLIENT_ID'' (so_access_client_id o'),
      set_optional ''AETHER_ACCESS_CLIENT_SECRET'' (so_access_client_secret o'),
      set_optional ''AETHER_ACCESS_TOKEN'' (so_access_token o'), set_optional ''AETHER_ACCESS_EMAIL'' (so_access_email o'),
      set_optional ''AETHER_EXIT_LOC'' (so_exit_loc o'), set_optional ''AETHER_PSIPHON_REGION'' (so_psiphon_region o'),
      set_optional ''AETHER_PSIPHON_MODE'' (so_psiphon_mode o'), set_optional ''AETHER_TOR_BRIDGE_FILE'' (so_tor_bridge_file o'),
      set_optional ''AETHER_TOR_RELAYS'' (so_tor_relays o'),
      (''AETHER_EXIT_LOC_SECS'', if so_exit_loc_secs o' \<noteq> 60 then Some (show_nat (so_exit_loc_secs o')) else None),
      set_flag ''AETHER_STATS'' (so_stats o'), (''AETHER_PSIPHON_HTTP'', map_option show_socket_addr (so_psiphon_http o')),
      (''AETHER_TEAM_ENDPOINT'', None), set_flag ''AETHER_GATEWAY'' (so_gateway o')]"

text \<open>Afterwards the routing rules are read again (\<open>Routing\<close>), from the variables that were just set.\<close>

definition apply_runtime_options :: "start_options \<Rightarrow> start_state \<Rightarrow> start_state" where
  "apply_runtime_options o' s =
     clear_gateway_proxy (s\<lparr>ss_env := fold (\<lambda>(k, v) e. e(k := v)) (runtime_vars o') (ss_env s)\<rparr>)"

lemma fold_updates: "fold (\<lambda>(k, v) e. e(k := v)) kvs env k = (case map_of (rev kvs) k of Some v \<Rightarrow> v | None \<Rightarrow> env k)"
  by (induction kvs rule: rev_induct) auto

definition FLAG_VARS :: "string list" where
  "FLAG_VARS = [''AETHER_MASQUE_H2_FRAGMENT'', ''AETHER_MIXED_CASE_SNI'', ''AETHER_STATS'', ''AETHER_GATEWAY'']"

definition TEXT_VARS :: "string list" where
  "TEXT_VARS =
     [''AETHER_NOIZE_PARAMETERS'', ''AETHER_DNS'', ''AETHER_ROUTE_BLOCK'', ''AETHER_ROUTE_DIRECT'', ''AETHER_ROUTES_FILE'', ''AETHER_TEAM'',
      ''AETHER_ACCESS_CLIENT_ID'', ''AETHER_ACCESS_CLIENT_SECRET'', ''AETHER_ACCESS_TOKEN'', ''AETHER_ACCESS_EMAIL'', ''AETHER_EXIT_LOC'',
      ''AETHER_PSIPHON_REGION'', ''AETHER_PSIPHON_MODE'', ''AETHER_TOR_BRIDGE_FILE'', ''AETHER_TOR_RELAYS'']"

definition OTHER_VARS :: "string list" where
  "OTHER_VARS = [''AETHER_EXIT_LOC_SECS'', ''AETHER_PSIPHON_HTTP'', ''AETHER_TEAM_ENDPOINT'']"

lemma runtime_vars_fst: "map fst (runtime_vars o') =
     [''AETHER_LOG_LEVEL'', ''AETHER_PERF_PROFILE'', ''AETHER_MASQUE_H2_FRAGMENT'', ''AETHER_MIXED_CASE_SNI''] @ TEXT_VARS @
     [''AETHER_EXIT_LOC_SECS'', ''AETHER_STATS'', ''AETHER_PSIPHON_HTTP'', ''AETHER_TEAM_ENDPOINT'', ''AETHER_GATEWAY'']"
  by (simp add: runtime_vars_def set_flag_def set_optional_def TEXT_VARS_def)

lemma runtime_distinct: "distinct (map fst (runtime_vars o'))"
  unfolding runtime_vars_fst TEXT_VARS_def by simp

lemma runtime_keys:
  "set (map fst (runtime_vars o')) = {''AETHER_LOG_LEVEL'', ''AETHER_PERF_PROFILE''} \<union> set FLAG_VARS \<union> set TEXT_VARS \<union> set OTHER_VARS"
proof -
  have "set ([a, b, c, d] @ T @ [e, f, g, h, i]) = {a, b} \<union> set [c, d, f, i] \<union> set T \<union> set [e, g, h]" for a b c d e f g h i :: string and T
    by auto
  then show ?thesis unfolding runtime_vars_fst FLAG_VARS_def OTHER_VARS_def by (simp only:)
qed

lemma runtime_lookup: "(k, v) \<in> set (runtime_vars o') \<Longrightarrow> map_of (rev (runtime_vars o')) k = Some v"
  by (rule map_of_is_SomeI) (simp_all add: runtime_distinct rev_map [symmetric])

lemma cli_options_fields:
  "so_log_level (cli_options protocol base forced mode ip http transport env) = env ''AETHER_LOG_LEVEL''"
  "so_perf_profile (cli_options protocol base forced mode ip http transport env) = env ''AETHER_PERF_PROFILE''"
  "so_h2_fragmentation (cli_options protocol base forced mode ip http transport env) = Some (is_set env ''AETHER_MASQUE_H2_FRAGMENT'')"
  "so_mixed_case_sni (cli_options protocol base forced mode ip http transport env) = Some (is_set env ''AETHER_MIXED_CASE_SNI'')"
  "so_stats (cli_options protocol base forced mode ip http transport env) = is_set env ''AETHER_STATS''"
  "so_gateway (cli_options protocol base forced mode ip http transport env) = is_set env ''AETHER_GATEWAY''"
  by (simp_all add: cli_options_def)

lemma cli_options_texts:
  "so_obfuscation_parameters (cli_options protocol base forced mode ip http transport env) = env ''AETHER_NOIZE_PARAMETERS''"
  "so_dns_servers (cli_options protocol base forced mode ip http transport env) = env ''AETHER_DNS''"
  "so_route_block (cli_options protocol base forced mode ip http transport env) = env ''AETHER_ROUTE_BLOCK''"
  "so_route_direct (cli_options protocol base forced mode ip http transport env) = env ''AETHER_ROUTE_DIRECT''"
  "so_routes_file (cli_options protocol base forced mode ip http transport env) = env ''AETHER_ROUTES_FILE''"
  "so_team (cli_options protocol base forced mode ip http transport env) = env ''AETHER_TEAM''"
  "so_access_client_id (cli_options protocol base forced mode ip http transport env) = env ''AETHER_ACCESS_CLIENT_ID''"
  "so_access_client_secret (cli_options protocol base forced mode ip http transport env) = env ''AETHER_ACCESS_CLIENT_SECRET''"
  "so_access_token (cli_options protocol base forced mode ip http transport env) = env ''AETHER_ACCESS_TOKEN''"
  "so_access_email (cli_options protocol base forced mode ip http transport env) = env ''AETHER_ACCESS_EMAIL''"
  "so_exit_loc (cli_options protocol base forced mode ip http transport env) = env ''AETHER_EXIT_LOC''"
  "so_psiphon_region (cli_options protocol base forced mode ip http transport env) = env ''AETHER_PSIPHON_REGION''"
  "so_psiphon_mode (cli_options protocol base forced mode ip http transport env) = env ''AETHER_PSIPHON_MODE''"
  "so_tor_bridge_file (cli_options protocol base forced mode ip http transport env) = env ''AETHER_TOR_BRIDGE_FILE''"
  "so_tor_relays (cli_options protocol base forced mode ip http transport env) = env ''AETHER_TOR_RELAYS''"
  by (simp_all add: cli_options_def)

lemma settled_flag:
  assumes "k \<in> set FLAG_VARS"
  shows "set_flag k (is_set env k) \<in> set (runtime_vars (cli_options protocol base forced mode ip http transport env))"
proof -
  have "k = ''AETHER_MASQUE_H2_FRAGMENT'' \<or> k = ''AETHER_MIXED_CASE_SNI'' \<or> k = ''AETHER_STATS'' \<or> k = ''AETHER_GATEWAY''"
    using assms unfolding FLAG_VARS_def by (simp only: set_simps insert_iff empty_iff simp_thms)
  then show ?thesis unfolding runtime_vars_def cli_options_fields by (elim disjE) (simp_all only: set_simps insert_iff simp_thms option.inject)
qed

lemma settled_text:
  assumes "k \<in> set TEXT_VARS"
  shows "set_optional k (env k) \<in> set (runtime_vars (cli_options protocol base forced mode ip http transport env))"
proof -
  have "set (map (\<lambda>k. set_optional k (env k)) TEXT_VARS) \<subseteq> set (runtime_vars (cli_options protocol base forced mode ip http transport env))"
    unfolding runtime_vars_def cli_options_texts TEXT_VARS_def list.map set_simps by blast
  then show ?thesis using assms by auto
qed

text \<open>
  Starting from the command line leaves the environment settled. Every variable that the options cover has after
  \<open>apply_runtime_options\<close> the value it had before, trimmed, or \<open>1\<close> for a switch, and blank ones are removed; the
  endpoint of an organization is forgotten; and no other variable changes.
\<close>

lemma environment_settles:
  assumes "run_cli W ms a1 a2 a3 s = (s1, Inr o')"
  shows "ss_env (apply_runtime_options o' s1) k =
     (if k \<in> set FLAG_VARS then map_option (\<lambda>_. ''1'') (ss_env s1 k)
      else if k \<in> set TEXT_VARS then snd (set_optional k (ss_env s1 k))
      else if k \<in> set OTHER_VARS then ss_env (apply_runtime_options o' s1) k
      else ss_env s1 k)"
    and "ss_env (apply_runtime_options o' s1) ''AETHER_TEAM_ENDPOINT'' = None"
proof -
  obtain t protocol where t: "cli_protocol W (case ss_env s ''AETHER_CONFIG'' of Some p \<Rightarrow> p | None \<Rightarrow> DEFAULT_CONFIG) ms s = (t, protocol)"
    by (cases "cli_protocol W (case ss_env s ''AETHER_CONFIG'' of Some p \<Rightarrow> p | None \<Rightarrow> DEFAULT_CONFIG) ms s")
  define env where "env = ss_env t"
  obtain base forced mode ip http transport where
    o': "o' = cli_options protocol base forced mode ip http transport env" and s1: "ss_env s1 = select_masque_transport env a3"
    using assms t by (auto simp: run_cli_def Let_def env_def split: sum.splits)
  have e: "ss_env s1 k = env k" if "k \<noteq> ''AETHER_MASQUE_HTTP2''" for k using that s1 by (simp add: select_masque_transport_def)
  have a: "ss_env (apply_runtime_options o' s1) k = (case map_of (rev (runtime_vars o')) k of Some v \<Rightarrow> v | None \<Rightarrow> ss_env s1 k)" for k
    by (simp add: apply_runtime_options_def clear_gateway_proxy_def fold_updates)
  show "ss_env (apply_runtime_options o' s1) ''AETHER_TEAM_ENDPOINT'' = None"
    using runtime_lookup [of "''AETHER_TEAM_ENDPOINT''" None o'] unfolding a by (simp add: runtime_vars_def)
  have n: "''AETHER_MASQUE_HTTP2'' \<notin> set FLAG_VARS" "''AETHER_MASQUE_HTTP2'' \<notin> set TEXT_VARS" by (simp_all add: FLAG_VARS_def TEXT_VARS_def)
  show "ss_env (apply_runtime_options o' s1) k =
     (if k \<in> set FLAG_VARS then map_option (\<lambda>_. ''1'') (ss_env s1 k)
      else if k \<in> set TEXT_VARS then snd (set_optional k (ss_env s1 k))
      else if k \<in> set OTHER_VARS then ss_env (apply_runtime_options o' s1) k
      else ss_env s1 k)"
  proof (cases "k \<in> set FLAG_VARS \<or> k \<in> set TEXT_VARS")
    case True
    then have "ss_env s1 k = env k" using e n by metis
    moreover have "map_of (rev (runtime_vars o')) k = Some (map_option (\<lambda>_. ''1'') (env k))" if "k \<in> set FLAG_VARS"
      using runtime_lookup [OF settled_flag [OF that, of env, unfolded set_flag_def]] unfolding o' by (cases "env k") (simp_all add: is_set_def)
    moreover have "map_of (rev (runtime_vars o')) k = Some (snd (set_optional k (env k)))" if "k \<in> set TEXT_VARS"
      using runtime_lookup [OF settled_text [OF that, of env, unfolded set_optional_def]] unfolding o' by (simp add: set_optional_def)
    ultimately show ?thesis using True unfolding a by (cases "k \<in> set FLAG_VARS") simp_all
  next
    case False
    consider "k = ''AETHER_LOG_LEVEL''" | "k = ''AETHER_PERF_PROFILE''" | "k \<in> set OTHER_VARS" | "k \<notin> set (map fst (runtime_vars o'))"
      using False runtime_keys [of o'] by blast
    then show ?thesis
    proof cases
      case 1
      have "(k, env k) \<in> set (runtime_vars o')" unfolding 1 o' runtime_vars_def cli_options_fields by simp
      from runtime_lookup [OF this] show ?thesis using False e [of k] 1 unfolding a by (simp add: OTHER_VARS_def)
    next
      case 2
      have "(k, env k) \<in> set (runtime_vars o')" unfolding 2 o' runtime_vars_def cli_options_fields by simp
      from runtime_lookup [OF this] show ?thesis using False e [of k] 2 unfolding a by (simp add: OTHER_VARS_def)
    next
      case 3
      then show ?thesis using False by simp
    next
      case 4
      then have "map_of (rev (runtime_vars o')) k = None" by (simp add: map_of_eq_None_iff)
      then show ?thesis using False unfolding a by simp
    qed
  qed
qed

text \<open>
  Any value of the switch for HTTP/2 selects HTTP/2, also the values that \<open>masque_h2::enabled\<close> reads as off.
\<close>

lemma http2_cannot_be_switched_off:
  assumes "run_cli W ms a1 a2 a3 s = (s1, Inr o')" "ss_env s1 ''AETHER_MASQUE_HTTP2'' = Some v"
  shows "so_masque_transport o' = H2 \<and> h2_enabled lower env (set_preferred (so_masque_transport o' = H2) fl)"
  using assms
  by (auto simp: run_cli_def Let_def cli_options_def is_set_def h2_enabled_def set_preferred_def split: sum.splits prod.splits)

section \<open>Files and addresses of a session\<close>

definition session_paths :: "string option \<Rightarrow> start_options \<Rightarrow> string list" where
  "session_paths team o' =
     (let paths = \<lparr>po_config_path = so_config_path o', po_wireguard_config_path = so_wireguard_config_path o',
                   po_masque_config_path = so_masque_config_path o'\<rparr> in
      case so_protocol o' of
        Masque \<Rightarrow> [masque_config_path team paths]
      | WireGuard \<Rightarrow> [warp_config_path team paths]
      | WarpInWarp \<Rightarrow> [warp_config_path team paths, derive_sibling_path (warp_config_path team paths) ''secondary'']
      | MasqueInMasque \<Rightarrow> [masque_config_path team paths, derive_sibling_path (masque_config_path team paths) ''secondary'']
      | Psiphon \<Rightarrow> [])"

record tunnel_addresses =
  ta_ipv4 :: string
  ta_ipv6 :: string
  ta_gateway_proxy :: string
  ta_organization :: string

text \<open>
  \<open>prepare\<close>: the addresses of the tunnel come from the identity of the innermost hop, in the last of the files.
  \<open>load\<close> is \<open>load_or_provision_masque\<close> or \<open>load_or_provision_warp\<close> on that file.
\<close>

definition addresses_of :: "identity \<Rightarrow> tunnel_addresses" where
  "addresses_of i = \<lparr>ta_ipv4 = address_host (i_ipv4 i), ta_ipv6 = address_host (i_ipv6 i), ta_gateway_proxy = i_gateway_proxy i,
     ta_organization = i_organization i\<rparr>"

definition prepare :: "start_world \<Rightarrow> (string \<Rightarrow> path) \<Rightarrow> start_options \<Rightarrow> start_state \<Rightarrow> (start_state \<times> tunnel_addresses result) rust" where
  "prepare W path_of o' s =
     (let s = apply_runtime_options o' s in
      if so_protocol o' = Psiphon then
        Some (s, Inr \<lparr>ta_ipv4 = ''198.18.0.1'', ta_ipv6 = ''fc00::1'', ta_gateway_proxy = [], ta_organization = []\<rparr>)
      else
        let p = path_of (last (session_paths (team_scope W s) o')) in
        map_option (\<lambda>(s, r). (s, map_sum id addresses_of r))
          (if so_protocol o' = Masque \<or> so_protocol o' = MasqueInMasque then load_or_provision_masque W p s
           else load_or_provision_warp W p s))"

end
