(* ===== verification/SysProfile.thy ===== *)
theory SysProfile
  imports Text
begin

text \<open>
  The performance profile of the host (\<open>sysprofile.rs\<close>): from the number of processors, the size of the
  memory as \<open>/proc/meminfo\<close> reports it and four environment variables to the sizes of buffers, windows and
  queues. The profile is computed once per process; the contents of the file and of the variables are
  arguments.
\<close>

datatype tier = Low | Medium | High

record tuning =
  tn_tier :: tier
  tn_cpus :: nat
  tn_mem_mb :: "nat option"
  tn_scan_concurrency_cap :: nat
  tn_udp_socket_buf :: nat
  tn_netstack_tcp_rx_buf :: nat
  tn_netstack_tcp_tx_buf :: nat
  tn_netstack_udp_buf :: nat
  tn_channel_capacity :: nat
  tn_h2_stream_window :: u32
  tn_h2_connection_window :: u32

definition trim_end_str :: "string \<Rightarrow> string \<Rightarrow> string" where
  "trim_end_str p s = rev (strip_any [rev p] (rev s))"

text \<open>The first line with the prefix decides, even when its number cannot be read.\<close>

definition total_mem_mb :: "string option \<Rightarrow> nat option" where
  "total_mem_mb meminfo = do {
     data \<leftarrow> meminfo;
     rest \<leftarrow> (case List.map_filter (strip_prefix ''MemTotal:'') (lines data) of [] \<Rightarrow> None | r # _ \<Rightarrow> Some r);
     kb \<leftarrow> parse_unsigned (2 ^ 64 - 1) (trim (trim_end_str ''kB'' (trim rest)));
     Some (kb div 1024) }"

definition detect_tier :: "(string \<Rightarrow> string) \<Rightarrow> string option \<Rightarrow> nat \<Rightarrow> nat option \<Rightarrow> tier" where
  "detect_tier lower profile cpus mem_mb =
     (let named = (case profile of None \<Rightarrow> None
             | Some v \<Rightarrow> (let w = lower (trim v) in
                 if w = ''low'' then Some Low else if w \<in> {''medium'', ''mid''} then Some Medium
                 else if w = ''high'' then Some High else None));
          at_most = (\<lambda>limit. case mem_mb of None \<Rightarrow> False | Some m \<Rightarrow> m \<le> limit)
      in case named of
           Some t \<Rightarrow> t
         | None \<Rightarrow> if cpus \<le> 2 \<or> at_most 384 then Low else if cpus \<le> 4 \<or> at_most 1536 then Medium else High)"

definition buffer_override :: "string option \<Rightarrow> nat \<Rightarrow> nat" where
  "buffer_override var fallback =
     (case do { v \<leftarrow> var; n \<leftarrow> parse_unsigned (2 ^ 64 - 1) (trim v);
                if 16 * 1024 \<le> n \<and> n \<le> 64 * 1024 * 1024 then Some n else None } of
        Some n \<Rightarrow> n
      | None \<Rightarrow> fallback)"

definition build_tuning ::
  "(string \<Rightarrow> string) \<Rightarrow> string option \<Rightarrow> string option \<Rightarrow> string option \<Rightarrow> nat \<Rightarrow> nat option \<Rightarrow> tuning" where
  "build_tuning lower profile rx_var tx_var cpus mem_mb =
     (let t = detect_tier lower profile cpus mem_mb;
          (cap, udp, nudp, chan) = (case t of
              Low \<Rightarrow> (4, 256 * 1024, 32 * 1024, 128)
            | Medium \<Rightarrow> (10, 2 * 1024 * 1024, 64 * 1024, 512)
            | High \<Rightarrow> (2 ^ 64 - 1, 7 * 1024 * 1024, 128 * 1024, 1024));
          (rx, tx) = (case t of
              Low \<Rightarrow> (256 * 1024, 128 * 1024)
            | Medium \<Rightarrow> (1024 * 1024, 256 * 1024)
            | High \<Rightarrow> (2 * 1024 * 1024, 512 * 1024));
          (stream, conn) = (case t of
              Low \<Rightarrow> (2 * 1024 * 1024, 4 * 1024 * 1024)
            | Medium \<Rightarrow> (8 * 1024 * 1024, 16 * 1024 * 1024)
            | High \<Rightarrow> (16 * 1024 * 1024, 32 * 1024 * 1024))
      in \<lparr>tn_tier = t, tn_cpus = cpus, tn_mem_mb = mem_mb, tn_scan_concurrency_cap = cap, tn_udp_socket_buf = udp,
          tn_netstack_tcp_rx_buf = buffer_override rx_var rx, tn_netstack_tcp_tx_buf = buffer_override tx_var tx,
          tn_netstack_udp_buf = nudp, tn_channel_capacity = chan, tn_h2_stream_window = stream, tn_h2_connection_window = conn\<rparr>)"

definition cap_concurrency :: "tuning \<Rightarrow> nat \<Rightarrow> nat" where
  "cap_concurrency tn requested = min requested (tn_scan_concurrency_cap tn)"

text \<open>
  No setting makes a buffer unusable or a search stall: both TCP buffers stay between 16 KiB and 64 MiB,
  the stream window fits into the connection window, and a search with at least one probe in flight
  keeps at least one and never gets more than it asked for.
\<close>

lemma buffer_override_bounds:
  "16 * 1024 \<le> fallback \<Longrightarrow> fallback \<le> 64 * 1024 * 1024 \<Longrightarrow> 16 * 1024 \<le> buffer_override var fallback \<and> buffer_override var fallback \<le> 64 * 1024 * 1024"
  by (auto simp: buffer_override_def bind_eq_Some_conv split: option.split if_splits)

lemma build_tuning_bounds:
  assumes tn_def: "tn = build_tuning lower profile rx tx cpus mem"
  shows "16 * 1024 \<le> tn_netstack_tcp_rx_buf tn \<and> tn_netstack_tcp_rx_buf tn \<le> 64 * 1024 * 1024"
    and "16 * 1024 \<le> tn_netstack_tcp_tx_buf tn \<and> tn_netstack_tcp_tx_buf tn \<le> 64 * 1024 * 1024"
    and "tn_h2_stream_window tn \<le> tn_h2_connection_window tn"
    and "1 \<le> requested \<Longrightarrow> 1 \<le> cap_concurrency tn requested \<and> cap_concurrency tn requested \<le> requested"
proof -
  note bo = buffer_override_bounds
  show "16 * 1024 \<le> tn_netstack_tcp_rx_buf tn \<and> tn_netstack_tcp_rx_buf tn \<le> 64 * 1024 * 1024"
    unfolding tn_def build_tuning_def Let_def
    by (cases "detect_tier lower profile cpus mem") (simp_all add: bo [simplified])
  show "16 * 1024 \<le> tn_netstack_tcp_tx_buf tn \<and> tn_netstack_tcp_tx_buf tn \<le> 64 * 1024 * 1024"
    unfolding tn_def build_tuning_def Let_def
    by (cases "detect_tier lower profile cpus mem") (simp_all add: bo [simplified])
  show "tn_h2_stream_window tn \<le> tn_h2_connection_window tn"
    unfolding tn_def build_tuning_def Let_def by (cases "detect_tier lower profile cpus mem") simp_all
  show "1 \<le> requested \<Longrightarrow> 1 \<le> cap_concurrency tn requested \<and> cap_concurrency tn requested \<le> requested"
    unfolding tn_def build_tuning_def Let_def cap_concurrency_def by (cases "detect_tier lower profile cpus mem") simp_all
qed

end
