(* ===== verification/Netstack.thy ===== *)
theory Netstack
  imports SysProfile AddrParse
begin

text \<open>
  The user-space network stack (\<open>netstack.rs\<close>): it keeps a socket of the crate \<open>smoltcp\<close> for every TCP
  connection and UDP association that the proxies open, and moves bytes between these sockets and the
  channels of the applications.

  \<open>smoltcp\<close> is a parameter: a record of the operations the code calls, over abstract types for the
  interface, for TCP and UDP sockets and for the socket set. Access to a handle that the set does not hold,
  or holds with another kind of socket, panics, as its documentation says. The state holds, beside the
  fields of \<open>NetStack\<close>, what the channels contain and whether their receivers are alive, and the replies
  that were sent; a receiver that is dropped closes its channel.
\<close>

section \<open>The interface of the TCP/IP crate\<close>

datatype tcp_fsm = TcpClosed | TcpListen | TcpSynSent | TcpSynReceived | TcpEstablished | TcpFinWait1 | TcpFinWait2
  | TcpCloseWait | TcpClosing | TcpLastAck | TcpTimeWait

record ('i, 't, 'u, 's) smoltcp =
  sm_poll :: "nat \<Rightarrow> 'i \<Rightarrow> bytes list \<Rightarrow> 's \<Rightarrow> bool \<times> 'i \<times> bytes list \<times> bytes list \<times> 's"
  sm_poll_delay :: "nat \<Rightarrow> 'i \<Rightarrow> 's \<Rightarrow> nat option"
  sm_update_ip_addrs :: "(ip_addr \<times> u8) list \<Rightarrow> 'i \<Rightarrow> 'i"
  sm_default_ipv4_route :: "u32 \<Rightarrow> 'i \<Rightarrow> 'i"
  sm_default_ipv6_route :: "u128 \<Rightarrow> 'i \<Rightarrow> 'i"
  sm_add :: "'t + 'u \<Rightarrow> 's \<Rightarrow> nat \<times> 's"
  sm_get :: "'s \<Rightarrow> nat \<Rightarrow> ('t + 'u) option"
  sm_put :: "nat \<Rightarrow> 't + 'u \<Rightarrow> 's \<Rightarrow> 's"
  sm_remove :: "nat \<Rightarrow> 's \<Rightarrow> 's rust"
  tcp_new :: "nat \<Rightarrow> nat \<Rightarrow> 't"
  tcp_connect :: "'i \<Rightarrow> socket_addr \<Rightarrow> u16 \<Rightarrow> 't \<Rightarrow> (string + unit) \<times> 't"
  tcp_listen :: "socket_addr \<Rightarrow> 't \<Rightarrow> (string + unit) \<times> 't"
  tcp_fsm_state :: "'t \<Rightarrow> tcp_fsm"
  tcp_can_send :: "'t \<Rightarrow> bool"
  tcp_send_slice :: "bytes \<Rightarrow> 't \<Rightarrow> (unit + nat) \<times> 't"
  tcp_can_recv :: "'t \<Rightarrow> bool"
  tcp_recv :: "'t \<Rightarrow> (unit + bytes) \<times> 't"
  tcp_close :: "'t \<Rightarrow> 't"
  tcp_remote_endpoint :: "'t \<Rightarrow> socket_addr option"
  tcp_local_endpoint :: "'t \<Rightarrow> socket_addr option"
  udp_new :: "nat \<Rightarrow> nat \<Rightarrow> 'u"
  udp_bind :: "u16 \<Rightarrow> 'u \<Rightarrow> (string + unit) \<times> 'u"
  udp_send_slice :: "bytes \<Rightarrow> socket_addr \<Rightarrow> 'u \<Rightarrow> 'u"
  udp_can_recv :: "'u \<Rightarrow> bool"
  udp_recv :: "'u \<Rightarrow> (unit + bytes \<times> socket_addr) \<times> 'u"

section \<open>State\<close>

definition udp_meta :: "tuning \<Rightarrow> nat" where
  "udp_meta t = (case tn_tier t of Low \<Rightarrow> 32 | Medium \<Rightarrow> 64 | High \<Rightarrow> 128)"

definition MAX_INGEST_PER_TICK :: nat where
  "MAX_INGEST_PER_TICK = 512"

definition MAX_RECV_CHUNKS :: nat where
  "MAX_RECV_CHUNKS = 128"

text \<open>Durations in microseconds.\<close>

definition BACKPRESSURE_RETRY :: nat where
  "BACKPRESSURE_RETRY = 2000"

definition MAX_IDLE_TICK :: nat where
  "MAX_IDLE_TICK = 250000"

datatype stack_cmd =
    OpenTcp socket_addr nat
  | OpenUdp nat
  | SetAddrs "(u32 \<times> u8) option" "(u128 \<times> u8) option"
  | EnableAccept

datatype data_in =
    DataTcp nat bytes
  | DataTcpClose nat
  | DataUdp nat socket_addr bytes
  | DataUdpClose nat

record accepted_tcp =
  ac_remote :: socket_addr
  ac_local :: socket_addr
  ac_id :: nat

record tcp_state =
  ts_handle :: nat
  ts_from_stack_rx :: bool
  ts_connect_resp :: "nat option"
  ts_pending :: bytes
  ts_established :: bool
  ts_half_closed :: bool

text \<open>A bounded channel: what it holds, and whether its receiver exists.\<close>

record 'a app_chan =
  ch_items :: "'a list"
  ch_open :: bool

record ('i, 's) net_stack =
  ns_iface :: 'i
  ns_rx :: "bytes list"
  ns_tx :: "bytes list"
  ns_sockets :: 's
  ns_tcp :: "nat \<rightharpoonup> tcp_state"
  ns_udp :: "nat \<rightharpoonup> nat"
  ns_next_id :: nat
  ns_next_port :: u16
  ns_accept :: "accepted_tcp app_chan option"
  ns_tcp_chan :: "nat \<Rightarrow> bytes app_chan"
  ns_udp_chan :: "nat \<Rightarrow> (socket_addr \<times> bytes) app_chan"
  ns_waiting :: "nat \<Rightarrow> bool"
  ns_replies :: "(nat \<times> (string + nat)) list"

section \<open>Addresses\<close>

definition strip_cidr :: "string \<Rightarrow> string" where
  "strip_cidr s = (case split_once CHR ''/'' s of Some (ip, _) \<Rightarrow> ip | None \<Rightarrow> s)"

definition cidr_prefix :: "string \<Rightarrow> u8 option" where
  "cidr_prefix s = do { (_, p) \<leftarrow> split_once CHR ''/'' s; n \<leftarrow> parse_unsigned 255 p; Some (of_nat n) }"

definition parse_v4 :: "string \<Rightarrow> (u32 \<times> u8) option result" where
  "parse_v4 s =
     (if s = [] then Inr None
      else case parse_ipv4 (strip_cidr s) of
             None \<Rightarrow> Inl (ErrOther (''bad ipv4 '' @ s))
           | Some ip \<Rightarrow> Inr (Some (ip, case cidr_prefix s of Some p \<Rightarrow> p | None \<Rightarrow> 32)))"

definition parse_v6 :: "string \<Rightarrow> (u128 \<times> u8) option result" where
  "parse_v6 s =
     (if s = [] then Inr None
      else case parse_ipv6 (strip_cidr s) of
             None \<Rightarrow> Inl (ErrOther (''bad ipv6 '' @ s))
           | Some ip \<Rightarrow> Inr (Some (ip, case cidr_prefix s of Some p \<Rightarrow> p | None \<Rightarrow> 128)))"

definition routable_prefix_v4 :: "u8 \<Rightarrow> u8" where
  "routable_prefix_v4 p = (if p \<ge> 31 then 24 else p)"

definition routable_prefix_v6 :: "u8 \<Rightarrow> u8" where
  "routable_prefix_v6 p = (if p \<ge> 127 then 64 else p)"

text \<open>The gateway is made up: the first host of the address's own block, or the second.\<close>

definition gateway_v4 :: "u32 \<Rightarrow> u32" where
  "gateway_v4 ip = (let o4 = v4_octets ip in v4_of_bytes (o4[3 := (if o4 ! 3 = 1 then 2 else 1)]))"

definition gateway_v6 :: "u128 \<Rightarrow> u128" where
  "gateway_v6 ip = (let o6 = v6_octets ip in v6_of_bytes (o6[15 := (if o6 ! 15 = 1 then 2 else 1)]))"

definition apply_addrs ::
  "('i, 't, 'u, 's) smoltcp \<Rightarrow> (u32 \<times> u8) option \<Rightarrow> (u128 \<times> u8) option \<Rightarrow> 'i \<Rightarrow> 'i" where
  "apply_addrs S v4 v6 iface =
     (let addrs = (case v4 of Some (ip, p) \<Rightarrow> [(V4 ip, routable_prefix_v4 p)] | None \<Rightarrow> [])
                @ (case v6 of Some (ip, p) \<Rightarrow> [(V6 ip, routable_prefix_v6 p)] | None \<Rightarrow> []);
          iface = sm_update_ip_addrs S addrs iface;
          iface = (case v4 of Some (ip, _) \<Rightarrow> sm_default_ipv4_route S (gateway_v4 ip) iface | None \<Rightarrow> iface)
      in case v6 of Some (ip, _) \<Rightarrow> sm_default_ipv6_route S (gateway_v6 ip) iface | None \<Rightarrow> iface)"

definition alloc_port :: "u16 \<Rightarrow> u16 \<times> u16" where
  "alloc_port p = (p, if p \<ge> 65000 then 49152 else p + 1)"

text \<open>\<open>spawn\<close>: the state in which the loop starts.\<close>

definition stack_spawn ::
  "('i, 't, 'u, 's) smoltcp \<Rightarrow> 'i \<Rightarrow> 's \<Rightarrow> string \<Rightarrow> string \<Rightarrow> ('i, 's) net_stack result" where
  "stack_spawn S iface sockets ipv4 ipv6 =
     (case parse_v4 ipv4 of Inl e \<Rightarrow> Inl e | Inr v4 \<Rightarrow>
      case parse_v6 ipv6 of Inl e \<Rightarrow> Inl e | Inr v6 \<Rightarrow>
        Inr \<lparr>ns_iface = apply_addrs S v4 v6 iface, ns_rx = [], ns_tx = [], ns_sockets = sockets, ns_tcp = Map.empty,
             ns_udp = Map.empty, ns_next_id = 1, ns_next_port = 49152, ns_accept = None,
             ns_tcp_chan = (\<lambda>_. \<lparr>ch_items = [], ch_open = False\<rparr>), ns_udp_chan = (\<lambda>_. \<lparr>ch_items = [], ch_open = False\<rparr>),
             ns_waiting = (\<lambda>_. True), ns_replies = []\<rparr>)"

section \<open>Commands and data of the applications\<close>

text \<open>A reply on a one-shot channel; the result says whether somebody was waiting for it.\<close>

definition resp_send :: "nat \<Rightarrow> string + nat \<Rightarrow> ('i, 's) net_stack \<Rightarrow> bool \<times> ('i, 's) net_stack" where
  "resp_send req r st =
     (if ns_waiting st req then (True, st\<lparr>ns_replies := ns_replies st @ [(req, r)], ns_waiting := (ns_waiting st)(req := False)\<rparr>)
      else (False, st))"

definition close_tcp_chan :: "nat \<Rightarrow> ('i, 's) net_stack \<Rightarrow> ('i, 's) net_stack" where
  "close_tcp_chan cid st = st\<lparr>ns_tcp_chan := (ns_tcp_chan st)(cid := (ns_tcp_chan st cid)\<lparr>ch_open := False\<rparr>)\<rparr>"

definition close_udp_chan :: "nat \<Rightarrow> ('i, 's) net_stack \<Rightarrow> ('i, 's) net_stack" where
  "close_udp_chan cid st = st\<lparr>ns_udp_chan := (ns_udp_chan st)(cid := (ns_udp_chan st cid)\<lparr>ch_open := False\<rparr>)\<rparr>"

text \<open>A new connection in the table, with a fresh channel whose receiver the table keeps for now.\<close>

definition insert_tcp :: "nat \<Rightarrow> nat option \<Rightarrow> ('i, 's) net_stack \<Rightarrow> ('i, 's) net_stack" where
  "insert_tcp handle resp st =
     (let cid = ns_next_id st in
      st\<lparr>ns_next_id := cid + 1,
         ns_tcp_chan := (ns_tcp_chan st)(cid := \<lparr>ch_items = [], ch_open = True\<rparr>),
         ns_tcp := (ns_tcp st)(cid \<mapsto>
           \<lparr>ts_handle = handle, ts_from_stack_rx = True, ts_connect_resp = resp, ts_pending = [],
            ts_established = False, ts_half_closed = False\<rparr>)\<rparr>)"

definition new_tcp_socket :: "('i, 't, 'u, 's) smoltcp \<Rightarrow> tuning \<Rightarrow> 't" where
  "new_tcp_socket S t = tcp_new S (tn_netstack_tcp_rx_buf t) (tn_netstack_tcp_tx_buf t)"

definition handle_cmd ::
  "('i, 't, 'u, 's) smoltcp \<Rightarrow> tuning \<Rightarrow> stack_cmd \<Rightarrow> ('i, 's) net_stack \<Rightarrow> ('i, 's) net_stack" where
  "handle_cmd S t cmd st =
     (case cmd of
        OpenTcp dst resp \<Rightarrow>
          (let (local_port, next) = alloc_port (ns_next_port st);
               st = st\<lparr>ns_next_port := next\<rparr>;
               (r, socket) = tcp_connect S (ns_iface st) dst local_port (new_tcp_socket S t)
           in case r of
                Inl e \<Rightarrow> snd (resp_send resp (Inl (''connect: '' @ e)) st)
              | Inr _ \<Rightarrow>
                  (let (handle, sockets) = sm_add S (Inl socket) (ns_sockets st) in
                   insert_tcp handle (Some resp) (st\<lparr>ns_sockets := sockets\<rparr>)))
      | OpenUdp resp \<Rightarrow>
          (let (local_port, next) = alloc_port (ns_next_port st);
               st = st\<lparr>ns_next_port := next\<rparr>;
               (r, socket) = udp_bind S local_port (udp_new S (udp_meta t) (tn_netstack_udp_buf t))
           in case r of
                Inl e \<Rightarrow> snd (resp_send resp (Inl (''bind: '' @ e)) st)
              | Inr _ \<Rightarrow>
                  (let (handle, sockets) = sm_add S (Inr socket) (ns_sockets st);
                       cid = ns_next_id st;
                       st = st\<lparr>ns_sockets := sockets, ns_next_id := cid + 1,
                               ns_udp_chan := (ns_udp_chan st)(cid := \<lparr>ch_items = [], ch_open = True\<rparr>),
                               ns_udp := (ns_udp st)(cid \<mapsto> handle)\<rparr>;
                       (delivered, st) = resp_send resp (Inr cid) st
                   in if delivered then st else close_udp_chan cid st))
      | SetAddrs v4 v6 \<Rightarrow> st\<lparr>ns_iface := apply_addrs S v4 v6 (ns_iface st)\<rparr>
      | EnableAccept \<Rightarrow> st\<lparr>ns_accept := Some \<lparr>ch_items = [], ch_open = True\<rparr>\<rparr>)"

text \<open>\<open>get_mut\<close> on the socket set, for either kind of socket.\<close>

definition tcp_at :: "('i, 't, 'u, 's) smoltcp \<Rightarrow> nat \<Rightarrow> ('i, 's) net_stack \<Rightarrow> 't rust" where
  "tcp_at S handle st = (case sm_get S (ns_sockets st) handle of Some (Inl x) \<Rightarrow> Some x | _ \<Rightarrow> None)"

definition udp_at :: "('i, 't, 'u, 's) smoltcp \<Rightarrow> nat \<Rightarrow> ('i, 's) net_stack \<Rightarrow> 'u rust" where
  "udp_at S handle st = (case sm_get S (ns_sockets st) handle of Some (Inr x) \<Rightarrow> Some x | _ \<Rightarrow> None)"

definition set_tcp :: "('i, 't, 'u, 's) smoltcp \<Rightarrow> nat \<Rightarrow> 't \<Rightarrow> ('i, 's) net_stack \<Rightarrow> ('i, 's) net_stack" where
  "set_tcp S handle x st = st\<lparr>ns_sockets := sm_put S handle (Inl x) (ns_sockets st)\<rparr>"

definition set_udp :: "('i, 't, 'u, 's) smoltcp \<Rightarrow> nat \<Rightarrow> 'u \<Rightarrow> ('i, 's) net_stack \<Rightarrow> ('i, 's) net_stack" where
  "set_udp S handle x st = st\<lparr>ns_sockets := sm_put S handle (Inr x) (ns_sockets st)\<rparr>"

definition drop_socket :: "('i, 't, 'u, 's) smoltcp \<Rightarrow> nat \<Rightarrow> ('i, 's) net_stack \<Rightarrow> ('i, 's) net_stack rust" where
  "drop_socket S handle st = do { sockets \<leftarrow> sm_remove S handle (ns_sockets st); Some (st\<lparr>ns_sockets := sockets\<rparr>) }"

definition update_tcp :: "nat \<Rightarrow> (tcp_state \<Rightarrow> tcp_state) \<Rightarrow> ('i, 's) net_stack \<Rightarrow> ('i, 's) net_stack" where
  "update_tcp cid f st = st\<lparr>ns_tcp := (ns_tcp st)(cid := map_option f (ns_tcp st cid))\<rparr>"

definition handle_data ::
  "('i, 't, 'u, 's) smoltcp \<Rightarrow> data_in \<Rightarrow> ('i, 's) net_stack \<Rightarrow> ('i, 's) net_stack rust" where
  "handle_data S d st =
     (case d of
        DataTcp cid data \<Rightarrow> Some (update_tcp cid (\<lambda>ts. ts\<lparr>ts_pending := ts_pending ts @ data\<rparr>) st)
      | DataTcpClose cid \<Rightarrow> Some (update_tcp cid (\<lambda>ts. ts\<lparr>ts_half_closed := True\<rparr>) st)
      | DataUdp cid dst data \<Rightarrow>
          (case ns_udp st cid of
             None \<Rightarrow> Some st
           | Some handle \<Rightarrow> do { sock \<leftarrow> udp_at S handle st; Some (set_udp S handle (udp_send_slice S data dst sock) st) })
      | DataUdpClose cid \<Rightarrow>
          (case ns_udp st cid of
             None \<Rightarrow> Some st
           | Some handle \<Rightarrow> drop_socket S handle (st\<lparr>ns_udp := (ns_udp st)(cid := None)\<rparr>)))"

section \<open>Serving the TCP connections\<close>

text \<open>
  A connection that became established is handed over. The pair of the two \<open>take\<close> calls empties both
  options before the pattern is tried, so the receiver is gone when the first pattern does not match: the
  second branch, for accepted connections, is never entered, and the receiver is dropped with the pair.
\<close>

definition tcp_handover :: "('i, 't, 'u, 's) smoltcp \<Rightarrow> nat \<Rightarrow> nat \<Rightarrow> tcp_state \<Rightarrow> 't \<Rightarrow> ('i, 's) net_stack \<Rightarrow> ('i, 's) net_stack" where
  "tcp_handover S capacity cid ts socket st =
     (let resp = ts_connect_resp ts; rx = ts_from_stack_rx ts;
          ts = ts\<lparr>ts_established := True, ts_connect_resp := None, ts_from_stack_rx := False\<rparr>;
          st = st\<lparr>ns_tcp := (ns_tcp st)(cid \<mapsto> ts)\<rparr>
      in case resp of
           Some req \<Rightarrow>
             if rx then
               (let (delivered, st) = resp_send req (Inr cid) st in if delivered then st else close_tcp_chan cid st)
             else st
         | None \<Rightarrow>
             (let st = (if rx then close_tcp_chan cid st else st) in
              if ts_from_stack_rx ts then
                (case ns_accept st of
                   None \<Rightarrow> close_tcp_chan cid st
                 | Some ch \<Rightarrow>
                     (let nowhere = \<lparr>sa_ip = V4 0, sa_port = 0\<rparr>;
                          accepted = \<lparr>ac_remote = (case tcp_remote_endpoint S socket of Some a \<Rightarrow> a | None \<Rightarrow> nowhere),
                                      ac_local = (case tcp_local_endpoint S socket of Some a \<Rightarrow> a | None \<Rightarrow> nowhere), ac_id = cid\<rparr>
                      in if ch_open ch \<and> length (ch_items ch) < capacity
                         then st\<lparr>ns_accept := Some (ch\<lparr>ch_items := ch_items ch @ [accepted]\<rparr>)\<rparr>
                         else close_tcp_chan cid st))
              else st))"

definition svc_establish :: "('i, 't, 'u, 's) smoltcp \<Rightarrow> nat \<Rightarrow> nat \<Rightarrow> tcp_fsm \<Rightarrow> 't \<Rightarrow> ('i, 's) net_stack \<Rightarrow> ('i, 's) net_stack" where
  "svc_establish S capacity cid state socket st =
     (case ns_tcp st cid of
        None \<Rightarrow> st
      | Some ts \<Rightarrow> if \<not> ts_established ts \<and> state = TcpEstablished then tcp_handover S capacity cid ts socket st else st)"

text \<open>A connection that never became established and is over; the result says whether the loop continues.\<close>

definition svc_refused ::
  "('i, 't, 'u, 's) smoltcp \<Rightarrow> nat \<Rightarrow> nat \<Rightarrow> tcp_fsm \<Rightarrow> ('i, 's) net_stack \<Rightarrow> (bool \<times> ('i, 's) net_stack) rust" where
  "svc_refused S cid handle state st =
     (if (case ns_tcp st cid of None \<Rightarrow> True | Some ts \<Rightarrow> \<not> ts_established ts) \<and> state \<in> {TcpClosed, TcpTimeWait} then
        do { let st = (case ns_tcp st cid of
                Some ts \<Rightarrow> (case ts_connect_resp ts of
                    Some req \<Rightarrow> snd (resp_send req (Inl ''connection refused'') (update_tcp cid (\<lambda>ts. ts\<lparr>ts_connect_resp := None\<rparr>) st))
                  | None \<Rightarrow> st)
              | None \<Rightarrow> st);
             st \<leftarrow> drop_socket S handle st;
             Some (True, close_tcp_chan cid (st\<lparr>ns_tcp := (ns_tcp st)(cid := None)\<rparr>)) }
      else Some (False, st))"

definition svc_send :: "('i, 't, 'u, 's) smoltcp \<Rightarrow> nat \<Rightarrow> nat \<Rightarrow> ('i, 's) net_stack \<Rightarrow> ('i, 's) net_stack rust" where
  "svc_send S cid handle st =
     do { socket \<leftarrow> tcp_at S handle st;
          (case ns_tcp st cid of
             Some ts \<Rightarrow>
               if tcp_can_send S socket \<and> ts_pending ts \<noteq> [] then
                 (let (r, socket) = tcp_send_slice S (ts_pending ts) socket;
                      sent = (case r of Inr n \<Rightarrow> n | Inl _ \<Rightarrow> 0);
                      st = set_tcp S handle socket st
                  in if sent > length (ts_pending ts) then None
                     else Some (update_tcp cid (\<lambda>ts. ts\<lparr>ts_pending := drop sent (ts_pending ts)\<rparr>) st))
               else Some st
           | None \<Rightarrow> Some st) }"

definition close_at :: "('i, 't, 'u, 's) smoltcp \<Rightarrow> nat \<Rightarrow> ('i, 's) net_stack \<Rightarrow> ('i, 's) net_stack rust" where
  "close_at S handle st = do { socket \<leftarrow> tcp_at S handle st; Some (set_tcp S handle (tcp_close S socket) st) }"

definition svc_half_close :: "('i, 't, 'u, 's) smoltcp \<Rightarrow> nat \<Rightarrow> nat \<Rightarrow> ('i, 's) net_stack \<Rightarrow> ('i, 's) net_stack rust" where
  "svc_half_close S cid handle st =
     (case ns_tcp st cid of
        Some ts \<Rightarrow> if ts_half_closed ts \<and> ts_pending ts = [] then close_at S handle st else Some st
      | None \<Rightarrow> Some st)"

text \<open>The receiving loop: whether the channel was full, whether its receiver is gone.\<close>

primrec svc_recv ::
  "nat \<Rightarrow> ('i, 't, 'u, 's) smoltcp \<Rightarrow> nat \<Rightarrow> nat \<Rightarrow> nat \<Rightarrow> ('i, 's) net_stack \<Rightarrow> (bool \<times> bool \<times> ('i, 's) net_stack) rust" where
  "svc_recv 0 S capacity cid handle st = Some (False, False, st)"
| "svc_recv (Suc n) S capacity cid handle st =
     (let ch = ns_tcp_chan st cid in
      if \<not> ch_open ch then Some (False, True, st)
      else if length (ch_items ch) \<ge> capacity then Some (True, False, st)
      else do {
        socket \<leftarrow> tcp_at S handle st;
        if \<not> tcp_can_recv S socket then Some (False, False, st)
        else
          (let (r, socket) = tcp_recv S socket;
               st = set_tcp S handle socket st
           in case r of
                Inr (b # bs) \<Rightarrow>
                  svc_recv n S capacity cid handle
                    (st\<lparr>ns_tcp_chan := (ns_tcp_chan st)(cid := ch\<lparr>ch_items := ch_items ch @ [b # bs]\<rparr>)\<rparr>)
              | _ \<Rightarrow> Some (False, False, st)) })"

definition svc_finish :: "('i, 't, 'u, 's) smoltcp \<Rightarrow> nat \<Rightarrow> nat \<Rightarrow> bool \<Rightarrow> ('i, 's) net_stack \<Rightarrow> ('i, 's) net_stack rust" where
  "svc_finish S cid handle app_gone st =
     do { st \<leftarrow> (if app_gone then close_at S handle st else Some st);
          socket \<leftarrow> tcp_at S handle st;
          let st_state = tcp_fsm_state S socket;
          st \<leftarrow> (if st_state = TcpCloseWait then close_at S handle st else Some st);
          if st_state = TcpClosed \<and> (case ns_tcp st cid of Some ts \<Rightarrow> ts_established ts | None \<Rightarrow> False)
          then do { st \<leftarrow> drop_socket S handle st; Some (st\<lparr>ns_tcp := (ns_tcp st)(cid := None)\<rparr>) }
          else Some st }"

definition service_one ::
  "('i, 't, 'u, 's) smoltcp \<Rightarrow> tuning \<Rightarrow> nat \<Rightarrow> ('i, 's) net_stack \<Rightarrow> (bool \<times> ('i, 's) net_stack) rust" where
  "service_one S t cid st =
     (case ns_tcp st cid of
        None \<Rightarrow> Some (False, st)
      | Some ts \<Rightarrow>
          do { let handle = ts_handle ts;
               socket \<leftarrow> tcp_at S handle st;
               let state = tcp_fsm_state S socket;
               let st = svc_establish S (tn_channel_capacity t) cid state socket st;
               (over, st) \<leftarrow> svc_refused S cid handle state st;
               if over then Some (False, st)
               else do {
                 st \<leftarrow> svc_send S cid handle st;
                 if ns_tcp st cid = None then Some (False, st) else do {
                 st \<leftarrow> svc_half_close S cid handle st;
                 (full, app_gone, st) \<leftarrow> svc_recv MAX_RECV_CHUNKS S (tn_channel_capacity t) cid handle st;
                 st \<leftarrow> svc_finish S cid handle app_gone st;
                 Some (full, st) } } })"

text \<open>\<open>service_tcp\<close> walks a snapshot of the keys of the hash map, in whatever order it has them.\<close>

primrec service_tcp ::
  "('i, 't, 'u, 's) smoltcp \<Rightarrow> tuning \<Rightarrow> nat list \<Rightarrow> ('i, 's) net_stack \<Rightarrow> (bool \<times> ('i, 's) net_stack) rust" where
  "service_tcp S t [] st = Some (False, st)"
| "service_tcp S t (cid # ids) st =
     do { (full, st) \<leftarrow> service_one S t cid st;
          (more_full, st) \<leftarrow> service_tcp S t ids st;
          Some (full \<or> more_full, st) }"

section \<open>Serving the UDP associations\<close>

primrec udp_drain ::
  "nat \<Rightarrow> ('i, 't, 'u, 's) smoltcp \<Rightarrow> nat \<Rightarrow> nat \<Rightarrow> nat \<Rightarrow> ('i, 's) net_stack \<Rightarrow> (bool \<times> ('i, 's) net_stack) rust" where
  "udp_drain 0 S capacity cid handle st = Some (False, st)"
| "udp_drain (Suc n) S capacity cid handle st =
     (let ch = ns_udp_chan st cid in
      if \<not> ch_open ch then Some (False, st)
      else if length (ch_items ch) \<ge> capacity then Some (True, st)
      else do {
        socket \<leftarrow> udp_at S handle st;
        if \<not> udp_can_recv S socket then Some (False, st)
        else
          (let (r, socket) = udp_recv S socket;
               st = set_udp S handle socket st
           in case r of
                Inr (data, from_ep) \<Rightarrow>
                  udp_drain n S capacity cid handle
                    (st\<lparr>ns_udp_chan := (ns_udp_chan st)(cid := ch\<lparr>ch_items := ch_items ch @ [(from_ep, data)]\<rparr>)\<rparr>)
              | Inl _ \<Rightarrow> Some (False, st)) })"

primrec service_udp ::
  "('i, 't, 'u, 's) smoltcp \<Rightarrow> tuning \<Rightarrow> nat list \<Rightarrow> ('i, 's) net_stack \<Rightarrow> (bool \<times> ('i, 's) net_stack) rust" where
  "service_udp S t [] st = Some (False, st)"
| "service_udp S t (cid # ids) st =
     do { (full, st) \<leftarrow> (case ns_udp st cid of
              None \<Rightarrow> Some (False, st)
            | Some handle \<Rightarrow> udp_drain MAX_RECV_CHUNKS S (tn_channel_capacity t) cid handle st);
          (more_full, st) \<leftarrow> service_udp S t ids st;
          Some (full \<or> more_full, st) }"

section \<open>Packets\<close>

definition is_tcp_syn :: "bytes \<Rightarrow> bool rust" where
  "is_tcp_syn pkt =
     (if length pkt < 40 then Some False
      else do {
        p0 \<leftarrow> idx pkt 0;
        if drop_bit 4 p0 \<noteq> 4 then Some False
        else do {
          proto \<leftarrow> idx pkt 9;
          if proto \<noteq> 6 then Some False
          else
            (let ihl = unat (p0 AND 0x0f) * 4 in
             if length pkt < ihl + 20 then Some False
             else do {
               tcp \<leftarrow> slice_from pkt ihl;
               flags \<leftarrow> idx tcp 13;
               Some (flags AND 0x02 \<noteq> 0 \<and> flags AND 0x10 = 0) }) } })"

definition parse_tcp_syn :: "bytes \<Rightarrow> (u32 \<times> u16 \<times> u32 \<times> u16) option rust" where
  "parse_tcp_syn pkt =
     (if length pkt < 40 then Some None
      else do {
        p0 \<leftarrow> idx pkt 0;
        if drop_bit 4 p0 \<noteq> 4 then Some None
        else
          (let ihl = unat (p0 AND 0x0f) * 4 in
           if length pkt < ihl + 20 then Some None
           else do {
             src_ip \<leftarrow> slice_of pkt 12 16;
             dst_ip \<leftarrow> slice_of pkt 16 20;
             tcp \<leftarrow> slice_from pkt ihl;
             src_port \<leftarrow> field16 tcp 0;
             dst_port \<leftarrow> field16 tcp 2;
             Some (Some (v4_of_bytes dst_ip, dst_port, v4_of_bytes src_ip, src_port)) }) })"

text \<open>What \<open>try_send\<close> to the tunnel answers for the packets of a flush, one answer per packet, counted from 0.\<close>

datatype put_outcome = PutOk | PutFull | PutClosed

primrec flush_loop :: "(nat \<Rightarrow> put_outcome) \<Rightarrow> bytes list \<Rightarrow> nat \<Rightarrow> nat \<Rightarrow> nat \<Rightarrow> bytes list \<times> nat \<times> nat \<times> bytes list" where
  "flush_loop outs [] k sent dropped = ([], sent, dropped, [])"
| "flush_loop outs (pkt # tx) k sent dropped =
     (case outs k of
        PutOk \<Rightarrow>
          (let (out, sent, dropped, rest) = flush_loop outs tx (k + 1) (min (sent + length pkt) 18446744073709551615) dropped
           in (pkt # out, sent, dropped, rest))
      | PutFull \<Rightarrow> flush_loop outs tx (k + 1) sent (dropped + 1)
      | PutClosed \<Rightarrow> ([], sent, dropped, tx))"

definition flush_tx :: "(nat \<Rightarrow> put_outcome) \<Rightarrow> ('i, 's) net_stack \<Rightarrow> bytes list \<times> nat \<times> nat \<times> ('i, 's) net_stack" where
  "flush_tx outs st =
     (let (out, sent, dropped, rest) = flush_loop outs (ns_tx st) 0 0 0 in (out, sent, dropped, st\<lparr>ns_tx := rest\<rparr>))"

text \<open>Transparent accept: a listening socket for the destination of a SYN.\<close>

definition listen_for :: "('i, 't, 'u, 's) smoltcp \<Rightarrow> tuning \<Rightarrow> socket_addr \<Rightarrow> ('i, 's) net_stack \<Rightarrow> ('i, 's) net_stack" where
  "listen_for S t dst st =
     (case tcp_listen S dst (new_tcp_socket S t) of
        (Inl _, _) \<Rightarrow> st
      | (Inr _, socket) \<Rightarrow>
          (let (handle, sockets) = sm_add S (Inl socket) (ns_sockets st) in
           insert_tcp handle None (st\<lparr>ns_sockets := sockets\<rparr>)))"

definition on_first_packet :: "('i, 't, 'u, 's) smoltcp \<Rightarrow> tuning \<Rightarrow> bytes \<Rightarrow> ('i, 's) net_stack \<Rightarrow> ('i, 's) net_stack rust" where
  "on_first_packet S t pkt st =
     do { syn \<leftarrow> (if ns_accept st \<noteq> None then is_tcp_syn pkt else Some False);
          st \<leftarrow> (if syn then
                   do { r \<leftarrow> parse_tcp_syn pkt;
                        Some (case r of
                          Some (dst_ip, dst_port, _, _) \<Rightarrow> listen_for S t \<lparr>sa_ip = V4 dst_ip, sa_port = dst_port\<rparr> st
                        | None \<Rightarrow> st) }
                 else Some st);
          Some (st\<lparr>ns_rx := ns_rx st @ [pkt]\<rparr>) }"

section \<open>The loop\<close>

text \<open>
  One round of the loop. The environment of a round is the time, the order in which the hash maps list
  their keys, the answers of the channel to the tunnel, and what the \<open>select!\<close> at its end yields: a packet
  with those that are already waiting behind it, a command, the data of the applications, nothing until
  the timer fires, or the end of a channel. Between rounds applications take chunks off their channels or
  go away.
\<close>

datatype stack_event =
    InboundEv bytes "bytes list"
  | InboundEnd
  | CmdEv stack_cmd
  | CmdEnd
  | DataEv "data_in list"
  | TimerEv

record round_env =
  re_now :: nat
  re_tcp_ids :: "nat list"
  re_udp_ids :: "nat list"
  re_outs :: "nat \<Rightarrow> put_outcome"
  re_event :: stack_event

record stack_totals =
  st_rx_total :: nat
  st_tx_total :: nat
  st_tx_dropped :: nat

definition poll_stack :: "('i, 't, 'u, 's) smoltcp \<Rightarrow> nat \<Rightarrow> ('i, 's) net_stack \<Rightarrow> ('i, 's) net_stack" where
  "poll_stack S now st =
     (let (panicked, iface, rx, tx, sockets) = sm_poll S now (ns_iface st) (ns_rx st) (ns_sockets st);
          st = st\<lparr>ns_iface := iface, ns_rx := rx, ns_tx := ns_tx st @ tx, ns_sockets := sockets\<rparr>
      in if panicked then st\<lparr>ns_rx := [], ns_tx := []\<rparr> else st)"

definition stack_delay :: "('i, 't, 'u, 's) smoltcp \<Rightarrow> nat \<Rightarrow> bool \<Rightarrow> bool \<Rightarrow> ('i, 's) net_stack \<Rightarrow> nat option" where
  "stack_delay S now tcp_busy udp_busy st =
     (if tcp_busy \<or> udp_busy then Some BACKPRESSURE_RETRY
      else
        (let polled = sm_poll_delay S now (ns_iface st) (ns_sockets st) in
         if ns_tcp st = Map.empty \<and> ns_udp st = Map.empty then polled
         else Some (case polled of None \<Rightarrow> MAX_IDLE_TICK | Some d \<Rightarrow> min d MAX_IDLE_TICK)))"

primrec handle_all :: "('i, 't, 'u, 's) smoltcp \<Rightarrow> data_in list \<Rightarrow> ('i, 's) net_stack \<Rightarrow> ('i, 's) net_stack rust" where
  "handle_all S [] st = Some st"
| "handle_all S (d # ds) st = do { st \<leftarrow> handle_data S d st; handle_all S ds st }"

text \<open>The outer option is a panic, the inner one the end of the loop.\<close>

definition on_event ::
  "('i, 't, 'u, 's) smoltcp \<Rightarrow> tuning \<Rightarrow> stack_event \<Rightarrow> ('i, 's) net_stack \<Rightarrow> (nat \<times> ('i, 's) net_stack) option rust" where
  "on_event S t ev st =
     (case ev of
        InboundEv pkt waiting \<Rightarrow>
          do { st \<leftarrow> on_first_packet S t pkt st;
               let batch = take MAX_INGEST_PER_TICK waiting;
               Some (Some (length pkt + sum_list (map length batch), st\<lparr>ns_rx := ns_rx st @ batch\<rparr>)) }
      | InboundEnd \<Rightarrow> Some None
      | CmdEv cmd \<Rightarrow> Some (Some (0, handle_cmd S t cmd st))
      | CmdEnd \<Rightarrow> Some None
      | DataEv ds \<Rightarrow> do { st \<leftarrow> handle_all S ds st; Some (Some (0, st)) }
      | TimerEv \<Rightarrow> Some (Some (0, st)))"

text \<open>What a round does before it waits: the packets sent, how long it may wait, and the new state.\<close>

definition stack_serve ::
  "('i, 't, 'u, 's) smoltcp \<Rightarrow> tuning \<Rightarrow> round_env \<Rightarrow> stack_totals \<Rightarrow> ('i, 's) net_stack
     \<Rightarrow> (bytes list \<times> nat option \<times> stack_totals \<times> ('i, 's) net_stack) rust" where
  "stack_serve S t env totals st =
     do { let st = poll_stack S (re_now env) st;
          (tcp_busy, st) \<leftarrow> service_tcp S t (re_tcp_ids env) st;
          (udp_busy, st) \<leftarrow> service_udp S t (re_udp_ids env) st;
          let (out, sent, dropped, st) = flush_tx (re_outs env) st;
          let totals = totals\<lparr>st_tx_total := min (st_tx_total totals + sent) 18446744073709551615,
                              st_tx_dropped := st_tx_dropped totals + dropped\<rparr>;
          Some (out, stack_delay S (re_now env) tcp_busy udp_busy st, totals, st) }"

text \<open>What the applications do between rounds.\<close>

datatype app_action = TakeTcp nat | TakeUdp nat | TakeAccepted | DropTcp nat | DropUdp nat | DropAccepted | Abandon nat

definition app_act :: "app_action \<Rightarrow> ('i, 's) net_stack \<Rightarrow> ('i, 's) net_stack" where
  "app_act a st =
     (case a of
        TakeTcp cid \<Rightarrow> st\<lparr>ns_tcp_chan := (ns_tcp_chan st)(cid := (ns_tcp_chan st cid)\<lparr>ch_items := drop 1 (ch_items (ns_tcp_chan st cid))\<rparr>)\<rparr>
      | TakeUdp cid \<Rightarrow> st\<lparr>ns_udp_chan := (ns_udp_chan st)(cid := (ns_udp_chan st cid)\<lparr>ch_items := drop 1 (ch_items (ns_udp_chan st cid))\<rparr>)\<rparr>
      | TakeAccepted \<Rightarrow> st\<lparr>ns_accept := map_option (\<lambda>ch. ch\<lparr>ch_items := drop 1 (ch_items ch)\<rparr>) (ns_accept st)\<rparr>
      | DropTcp cid \<Rightarrow> close_tcp_chan cid st
      | DropUdp cid \<Rightarrow> close_udp_chan cid st
      | DropAccepted \<Rightarrow> st\<lparr>ns_accept := map_option (\<lambda>ch. ch\<lparr>ch_open := False\<rparr>) (ns_accept st)\<rparr>
      | Abandon req \<Rightarrow> st\<lparr>ns_waiting := (ns_waiting st)(req := False)\<rparr>)"

section \<open>Runs\<close>

text \<open>
  A run with its history: what the applications gave the stack for every connection while it was in the
  table, what they took from it, and the packets that went to the tunnel.
\<close>

record ('i, 's) stack_world =
  sw_totals :: stack_totals
  sw_stack :: "('i, 's) net_stack"
  sw_given :: "nat \<Rightarrow> bytes"
  sw_taken :: "nat \<Rightarrow> bytes"
  sw_out :: "bytes list"

definition world_start :: "('i, 's) net_stack \<Rightarrow> ('i, 's) stack_world" where
  "world_start st = \<lparr>sw_totals = \<lparr>st_rx_total = 0, st_tx_total = 0, st_tx_dropped = 0\<rparr>, sw_stack = st,
     sw_given = (\<lambda>_. []), sw_taken = (\<lambda>_. []), sw_out = []\<rparr>"

fun data_for :: "nat \<Rightarrow> data_in \<Rightarrow> bytes" where
  "data_for cid (DataTcp c data) = (if c = cid then data else [])"
| "data_for cid _ = []"

definition data_given :: "stack_event \<Rightarrow> nat \<Rightarrow> bytes" where
  "data_given ev cid = (case ev of DataEv ds \<Rightarrow> concat (map (data_for cid) ds) | _ \<Rightarrow> [])"

datatype stack_step = RoundStep round_env | AppStep app_action

definition app_step :: "app_action \<Rightarrow> ('i, 's) stack_world \<Rightarrow> ('i, 's) stack_world" where
  "app_step a w =
     w\<lparr>sw_stack := app_act a (sw_stack w),
       sw_taken := (case a of
          TakeTcp cid \<Rightarrow> (sw_taken w)(cid := sw_taken w cid @ concat (take 1 (ch_items (ns_tcp_chan (sw_stack w) cid))))
        | _ \<Rightarrow> sw_taken w)\<rparr>"

fun stack_run :: "('i, 't, 'u, 's) smoltcp \<Rightarrow> tuning \<Rightarrow> stack_step list \<Rightarrow> ('i, 's) stack_world \<Rightarrow> ('i, 's) stack_world rust" where
  "stack_run S t [] w = Some w"
| "stack_run S t (AppStep a # steps) w = stack_run S t steps (app_step a w)"
| "stack_run S t (RoundStep env # steps) w =
     do { (out, delay, totals, st) \<leftarrow> stack_serve S t env (sw_totals w) (sw_stack w);
          r \<leftarrow> on_event S t (re_event env) st;
          let w = w\<lparr>sw_out := sw_out w @ out\<rparr>;
          case r of
            None \<Rightarrow> Some (w\<lparr>sw_totals := totals, sw_stack := st\<rparr>)
          | Some (received, st') \<Rightarrow>
              stack_run S t steps
                (w\<lparr>sw_totals := totals\<lparr>st_rx_total := st_rx_total totals + received\<rparr>, sw_stack := st',
                   sw_given := (\<lambda>cid. sw_given w cid @ (if ns_tcp st cid = None then [] else data_given (re_event env) cid))\<rparr>) }"

section \<open>What the crate promises\<close>

definition same_kind :: "('t + 'u) option \<Rightarrow> ('t + 'u) option \<Rightarrow> bool" where
  "same_kind a b \<longleftrightarrow> map_option isl a = map_option isl b"

text \<open>
  The socket set is a map from handles to sockets that adds under a fresh handle; polling changes
  sockets but adds and removes none; a send takes at most the bytes it was given.
\<close>

definition smol_laws :: "('i, 't, 'u, 's) smoltcp \<Rightarrow> bool" where
  "smol_laws S \<longleftrightarrow>
     (\<forall>x s h s'. sm_add S x s = (h, s') \<longrightarrow> sm_get S s h = None \<and> sm_get S s' = (sm_get S s)(h \<mapsto> x))
   \<and> (\<forall>h x s. sm_get S s h \<noteq> None \<longrightarrow> sm_get S (sm_put S h x s) = (sm_get S s)(h \<mapsto> x))
   \<and> (\<forall>h s. sm_get S s h \<noteq> None \<longrightarrow> (\<exists>s'. sm_remove S h s = Some s' \<and> sm_get S s' = (sm_get S s)(h := None)))
   \<and> (\<forall>now i rx s p i' rx' tx s'. sm_poll S now i rx s = (p, i', rx', tx, s') \<longrightarrow> (\<forall>h. same_kind (sm_get S s' h) (sm_get S s h)))
   \<and> (\<forall>bs x n x'. tcp_send_slice S bs x = (Inr n, x') \<longrightarrow> n \<le> length bs)"

text \<open>
  \<open>acc\<close> is what a TCP socket has accepted for sending so far, \<open>got\<close> what was read from it: a send appends
  the bytes it took, a read what it returned, and nothing else changes them.
\<close>

definition stream_laws :: "('i, 't, 'u, 's) smoltcp \<Rightarrow> ('t \<Rightarrow> bytes) \<Rightarrow> ('t \<Rightarrow> bytes) \<Rightarrow> bool" where
  "stream_laws S acc got \<longleftrightarrow>
     (\<forall>m n. acc (tcp_new S m n) = [] \<and> got (tcp_new S m n) = [])
   \<and> (\<forall>i a p x. acc (snd (tcp_connect S i a p x)) = acc x \<and> got (snd (tcp_connect S i a p x)) = got x)
   \<and> (\<forall>a x. acc (snd (tcp_listen S a x)) = acc x \<and> got (snd (tcp_listen S a x)) = got x)
   \<and> (\<forall>bs x r x'. tcp_send_slice S bs x = (r, x') \<longrightarrow>
        acc x' = acc x @ (case r of Inr n \<Rightarrow> take n bs | Inl _ \<Rightarrow> []) \<and> got x' = got x)
   \<and> (\<forall>x r x'. tcp_recv S x = (r, x') \<longrightarrow> acc x' = acc x \<and> got x' = got x @ (case r of Inr bs \<Rightarrow> bs | Inl _ \<Rightarrow> []))
   \<and> (\<forall>x. acc (tcp_close S x) = acc x \<and> got (tcp_close S x) = got x)
   \<and> (\<forall>now i rx s p i' rx' tx s' h x x'. sm_poll S now i rx s = (p, i', rx', tx, s') \<longrightarrow>
        sm_get S s h = Some (Inl x) \<longrightarrow> sm_get S s' h = Some (Inl x') \<longrightarrow> acc x' = acc x \<and> got x' = got x)"

section \<open>The invariant\<close>

definition kinds :: "('i, 't, 'u, 's) smoltcp \<Rightarrow> ('i, 's) net_stack \<Rightarrow> nat \<Rightarrow> bool option" where
  "kinds S st h = map_option isl (sm_get S (ns_sockets st) h)"

definition hmap :: "('i, 's) net_stack \<Rightarrow> nat \<rightharpoonup> nat" where
  "hmap st cid = map_option ts_handle (ns_tcp st cid)"

text \<open>
  The tables and the socket set agree: every connection has a socket of its kind, no two share one, every
  socket belongs to a connection, and numbers not yet given are unused.
\<close>

definition table_ok :: "('i, 't, 'u, 's) smoltcp \<Rightarrow> ('i, 's) net_stack \<Rightarrow> bool" where
  "table_ok S st \<longleftrightarrow>
     (\<forall>c h. hmap st c = Some h \<longrightarrow> kinds S st h = Some True)
   \<and> (\<forall>c h. ns_udp st c = Some h \<longrightarrow> kinds S st h = Some False)
   \<and> (\<forall>c d h. hmap st c = Some h \<longrightarrow> hmap st d = Some h \<longrightarrow> c = d)
   \<and> (\<forall>c d h. ns_udp st c = Some h \<longrightarrow> ns_udp st d = Some h \<longrightarrow> c = d)
   \<and> (\<forall>h. kinds S st h \<noteq> None \<longrightarrow> (\<exists>c. hmap st c = Some h) \<or> (\<exists>c. ns_udp st c = Some h))
   \<and> (\<forall>c \<ge> ns_next_id st. hmap st c = None \<and> ns_udp st c = None)"

text \<open>The two directions of a connection: accepted by the socket and still pending, and read from it.\<close>

definition flows :: "('i, 't, 'u, 's) smoltcp \<Rightarrow> ('t \<Rightarrow> bytes) \<Rightarrow> ('t \<Rightarrow> bytes) \<Rightarrow> ('i, 's) net_stack \<Rightarrow> nat \<Rightarrow> (bytes \<times> bytes) option" where
  "flows S acc got st cid =
     (case ns_tcp st cid of
        None \<Rightarrow> None
      | Some ts \<Rightarrow> (case tcp_at S (ts_handle ts) st of None \<Rightarrow> None | Some x \<Rightarrow> Some (acc x @ ts_pending ts, got x)))"

definition chan_bytes :: "('i, 's) net_stack \<Rightarrow> nat \<Rightarrow> bytes" where
  "chan_bytes st cid = concat (ch_items (ns_tcp_chan st cid))"

text \<open>A step that keeps the tables and moves bytes only forward, from a socket to its channel.\<close>

definition step_ok :: "('i, 't, 'u, 's) smoltcp \<Rightarrow> ('t \<Rightarrow> bytes) \<Rightarrow> ('t \<Rightarrow> bytes) \<Rightarrow> ('i, 's) net_stack \<Rightarrow> ('i, 's) net_stack \<Rightarrow> bool" where
  "step_ok S acc got st st' \<longleftrightarrow>
     kinds S st' = kinds S st \<and> hmap st' = hmap st \<and> ns_udp st' = ns_udp st \<and> ns_next_id st' = ns_next_id st
   \<and> (\<forall>c. hmap st c = None \<longrightarrow> chan_bytes st' c = chan_bytes st c)
   \<and> (\<forall>c up down. flows S acc got st c = Some (up, down) \<longrightarrow>
        (\<exists>ds. flows S acc got st' c = Some (up, down @ ds) \<and> chan_bytes st' c = chan_bytes st c @ ds))"

lemma step_ok_refl [simp]: "step_ok S acc got st st"
  by (simp add: step_ok_def)

lemma step_ok_trans [trans]:
  assumes "step_ok S acc got st st1" and "step_ok S acc got st1 st2"
  shows "step_ok S acc got st st2"
proof -
  have "\<exists>ds. flows S acc got st2 c = Some (up, down @ ds) \<and> chan_bytes st2 c = chan_bytes st c @ ds"
    if "flows S acc got st c = Some (up, down)" for c up down
  proof -
    from that assms(1) obtain ds where d: "flows S acc got st1 c = Some (up, down @ ds)" "chan_bytes st1 c = chan_bytes st c @ ds"
      unfolding step_ok_def by blast
    with assms(2) obtain es where "flows S acc got st2 c = Some (up, (down @ ds) @ es)" "chan_bytes st2 c = chan_bytes st1 c @ es"
      unfolding step_ok_def by blast
    with d show ?thesis by auto
  qed
  with assms show ?thesis by (simp add: step_ok_def)
qed

lemma step_ok_table: "step_ok S acc got st st' \<Longrightarrow> table_ok S st \<Longrightarrow> table_ok S st'"
  by (simp add: step_ok_def table_ok_def)

section \<open>Steps that keep the tables\<close>

lemma smol_add: "smol_laws S \<Longrightarrow> sm_add S x s = (h, s') \<Longrightarrow> sm_get S s h = None \<and> sm_get S s' = (sm_get S s)(h \<mapsto> x)"
  by (simp add: smol_laws_def)

lemma smol_put: "smol_laws S \<Longrightarrow> sm_get S s h \<noteq> None \<Longrightarrow> sm_get S (sm_put S h x s) = (sm_get S s)(h \<mapsto> x)"
  unfolding smol_laws_def by blast

lemma smol_remove:
  "smol_laws S \<Longrightarrow> sm_get S s h \<noteq> None \<Longrightarrow> \<exists>s'. sm_remove S h s = Some s' \<and> sm_get S s' = (sm_get S s)(h := None)"
  unfolding smol_laws_def by blast

lemma smol_send: "smol_laws S \<Longrightarrow> tcp_send_slice S bs x = (Inr n, x') \<Longrightarrow> n \<le> length bs"
  unfolding smol_laws_def by blast

lemma tcp_at_kinds: "(\<exists>x. tcp_at S h st = Some x) \<longleftrightarrow> kinds S st h = Some True"
  by (auto simp: tcp_at_def kinds_def split: option.splits sum.splits)

lemma tcp_at_get: "tcp_at S h st = Some x \<longleftrightarrow> sm_get S (ns_sockets st) h = Some (Inl x)"
  by (auto simp: tcp_at_def split: option.splits sum.splits)

lemma udp_at_get: "udp_at S h st = Some x \<longleftrightarrow> sm_get S (ns_sockets st) h = Some (Inr x)"
  by (auto simp: udp_at_def split: option.splits sum.splits)

lemma table_okD:
  assumes "table_ok S st"
  shows "hmap st c = Some h \<Longrightarrow> kinds S st h = Some True" and "ns_udp st c = Some h \<Longrightarrow> kinds S st h = Some False"
    and "hmap st c = Some h \<Longrightarrow> hmap st d = Some h \<Longrightarrow> c = d" and "ns_udp st c = Some h \<Longrightarrow> ns_udp st d = Some h \<Longrightarrow> c = d"
    and "kinds S st h \<noteq> None \<Longrightarrow> (\<exists>c. hmap st c = Some h) \<or> (\<exists>c. ns_udp st c = Some h)"
    and "c \<ge> ns_next_id st \<Longrightarrow> hmap st c = None" and "c \<ge> ns_next_id st \<Longrightarrow> ns_udp st c = None"
  using assms unfolding table_ok_def by blast+

lemma hmap_Some: "ns_tcp st c = Some ts \<Longrightarrow> hmap st c = Some (ts_handle ts)"
  by (simp add: hmap_def)

lemma hmap_None: "hmap st c = None \<longleftrightarrow> ns_tcp st c = None"
  by (simp add: hmap_def)

lemma table_tcp_at: "table_ok S st \<Longrightarrow> ns_tcp st c = Some ts \<Longrightarrow> \<exists>x. tcp_at S (ts_handle ts) st = Some x"
  using table_okD(1) [OF _ hmap_Some] by (simp only: tcp_at_kinds)

lemma udp_at_kinds: "(\<exists>x. udp_at S h st = Some x) \<longleftrightarrow> kinds S st h = Some False"
  by (auto simp: udp_at_def kinds_def split: option.splits sum.splits)

lemma table_udp_at: "table_ok S st \<Longrightarrow> ns_udp st c = Some h \<Longrightarrow> \<exists>x. udp_at S h st = Some x"
  using table_okD(2) by (simp only: udp_at_kinds)

lemma flows_None: "table_ok S st \<Longrightarrow> flows S acc got st c = None \<longleftrightarrow> ns_tcp st c = None"
  using table_tcp_at [of S st c] by (auto simp: flows_def split: option.splits)

lemma flows_fields:
  "ns_sockets st' = ns_sockets st \<Longrightarrow> ns_tcp st' = ns_tcp st \<Longrightarrow> flows S acc got st' = flows S acc got st"
  by (rule ext) (auto simp: flows_def tcp_at_def split: option.splits)

lemma flows_Some: "ns_tcp st c = Some ts \<Longrightarrow> tcp_at S (ts_handle ts) st = Some x \<Longrightarrow>
    flows S acc got st c = Some (acc x @ ts_pending ts, got x)"
  by (simp add: flows_def)

lemma table_inj: "table_ok S st \<Longrightarrow> ns_tcp st c = Some ts \<Longrightarrow> ns_tcp st d = Some ts' \<Longrightarrow> ts_handle ts' = ts_handle ts \<Longrightarrow> d = c"
  using table_okD(3) [of S st d "ts_handle ts" c] hmap_Some [of st c ts] hmap_Some [of st d ts'] by metis

text \<open>Fields that no table and no stream depends on.\<close>

lemma step_ok_fields:
  assumes "ns_sockets st' = ns_sockets st" and "ns_udp st' = ns_udp st" and "ns_next_id st' = ns_next_id st"
    and "\<And>c. map_option (\<lambda>ts. (ts_handle ts, ts_pending ts)) (ns_tcp st' c) = map_option (\<lambda>ts. (ts_handle ts, ts_pending ts)) (ns_tcp st c)"
    and "\<And>c. ch_items (ns_tcp_chan st' c) = ch_items (ns_tcp_chan st c)"
  shows "step_ok S acc got st st'"
proof -
  have "hmap st' c = hmap st c" for c
    using assms(4) [of c] by (auto simp: hmap_def map_option_case split: option.splits)
  moreover have "flows S acc got st' c = flows S acc got st c" for c
    using assms(4) [of c] assms(1) by (auto simp: flows_def tcp_at_def map_option_case split: option.splits)
  ultimately show ?thesis using assms(1-3,5) by (auto simp: step_ok_def kinds_def chan_bytes_def)
qed

text \<open>A step on the socket of one connection.\<close>

lemma step_ok_socket:
  assumes laws: "smol_laws S" and ok: "table_ok S st" and c: "ns_tcp st c = Some ts" and x: "tcp_at S (ts_handle ts) st = Some x"
    and st': "ns_sockets st' = sm_put S (ts_handle ts) (Inl x') (ns_sockets st)"
      "ns_tcp st' = (ns_tcp st)(c \<mapsto> ts')" "ts_handle ts' = ts_handle ts" "ns_udp st' = ns_udp st" "ns_next_id st' = ns_next_id st"
    and up: "acc x' @ ts_pending ts' = acc x @ ts_pending ts" and down: "got x' = got x @ ds"
    and chan: "chan_bytes st' c = chan_bytes st c @ ds" "\<And>d. d \<noteq> c \<Longrightarrow> chan_bytes st' d = chan_bytes st d"
  shows "step_ok S acc got st st'"
proof -
  have get: "sm_get S (ns_sockets st') = (sm_get S (ns_sockets st))(ts_handle ts \<mapsto> Inl x')"
    using smol_put [OF laws] x st'(1) by (simp add: tcp_at_get)
  have k: "kinds S st' = kinds S st"
    using x by (auto simp: kinds_def get tcp_at_get fun_eq_iff)
  have h: "hmap st' = hmap st" using st'(2,3) c by (auto simp: hmap_def fun_eq_iff)
  have own: "flows S acc got st' c = Some (acc x @ ts_pending ts, got x @ ds)"
    using st'(2,3) up down by (simp add: flows_def tcp_at_def get)
  have other: "flows S acc got st' d = flows S acc got st d" if "d \<noteq> c" for d
    using table_inj [OF ok c, of d] that st'(2) by (auto simp: flows_def tcp_at_def get split: option.splits)
  have "\<exists>es. flows S acc got st' d = Some (up, down @ es) \<and> chan_bytes st' d = chan_bytes st d @ es"
    if "flows S acc got st d = Some (up, down)" for d up down
  proof (cases "d = c")
    case True
    then show ?thesis using own chan(1) that c x by (intro exI [of _ ds]) (simp add: flows_def)
  next
    case False
    then show ?thesis using other chan(2) that by simp
  qed
  moreover have "chan_bytes st' d = chan_bytes st d" if "hmap st d = None" for d
    using that hmap_Some [OF c] chan(2) [of d] by (cases "d = c") auto
  ultimately show ?thesis using k h st'(4,5) by (simp add: step_ok_def)
qed

lemma step_ok_close_at:
  assumes "smol_laws S" "stream_laws S acc got" "table_ok S st" "ns_tcp st c = Some ts"
  shows "\<exists>st'. close_at S (ts_handle ts) st = Some st' \<and> step_ok S acc got st st' \<and> ns_tcp st' = ns_tcp st"
proof -
  obtain x where x: "tcp_at S (ts_handle ts) st = Some x" using table_tcp_at [OF assms(3,4)] by blast
  have "acc (tcp_close S x) = acc x" "got (tcp_close S x) = got x" using assms(2) by (simp_all add: stream_laws_def)
  then have "step_ok S acc got st (set_tcp S (ts_handle ts) (tcp_close S x) st)"
    using assms(4) by (intro step_ok_socket [OF assms(1,3,4) x, where x' = "tcp_close S x" and ts' = ts and ds = "[]"])
      (auto simp: set_tcp_def chan_bytes_def)
  then show ?thesis using x by (simp add: close_at_def set_tcp_def)
qed

lemma svc_send_ok:
  assumes "smol_laws S" "stream_laws S acc got" "table_ok S st" "ns_tcp st c = Some ts"
  shows "\<exists>st' ts'. svc_send S c (ts_handle ts) st = Some st' \<and> step_ok S acc got st st' \<and> ns_tcp st' c = Some ts'
    \<and> ts_handle ts' = ts_handle ts \<and> ts_established ts' = ts_established ts"
proof -
  obtain x where x: "tcp_at S (ts_handle ts) st = Some x" using table_tcp_at [OF assms(3,4)] by blast
  show ?thesis
  proof (cases "tcp_can_send S x \<and> ts_pending ts \<noteq> []")
    case True
    obtain r x' where r: "tcp_send_slice S (ts_pending ts) x = (r, x')" by (cases "tcp_send_slice S (ts_pending ts) x")
    let ?n = "case r of Inr n \<Rightarrow> n | Inl _ \<Rightarrow> 0"
    let ?ts = "ts\<lparr>ts_pending := drop ?n (ts_pending ts)\<rparr>"
    let ?st = "update_tcp c (\<lambda>ts. ts\<lparr>ts_pending := drop ?n (ts_pending ts)\<rparr>) (set_tcp S (ts_handle ts) x' st)"
    have n: "?n \<le> length (ts_pending ts)" using smol_send [OF assms(1), of "ts_pending ts" x _ x'] r by (auto split: sum.splits)
    have sent: "acc x' = acc x @ (case r of Inr n \<Rightarrow> take n (ts_pending ts) | Inl _ \<Rightarrow> [])" "got x' = got x"
      using assms(2) r unfolding stream_laws_def by blast+
    have "step_ok S acc got st ?st"
      using assms(4) sent by (intro step_ok_socket [OF assms(1,3,4) x, where x' = x' and ts' = ?ts and ds = "[]"])
        (auto simp: set_tcp_def update_tcp_def chan_bytes_def split: sum.splits)
    then show ?thesis
      using True x r n assms(4) by (auto simp: svc_send_def update_tcp_def set_tcp_def)
  next
    case False
    then show ?thesis using x assms(4) by (auto simp: svc_send_def)
  qed
qed

lemma svc_half_close_ok:
  assumes "smol_laws S" "stream_laws S acc got" "table_ok S st" "ns_tcp st c = Some ts"
  shows "\<exists>st'. svc_half_close S c (ts_handle ts) st = Some st' \<and> step_ok S acc got st st' \<and> ns_tcp st' = ns_tcp st"
  using step_ok_close_at [OF assms] assms(4) by (auto simp: svc_half_close_def)

lemma svc_recv_ok:
  assumes "smol_laws S" "stream_laws S acc got" "table_ok S st" "ns_tcp st c = Some ts"
  shows "\<exists>full gone st'. svc_recv n S capacity c (ts_handle ts) st = Some (full, gone, st') \<and> step_ok S acc got st st' \<and> ns_tcp st' = ns_tcp st"
  using assms(3,4)
proof (induction n arbitrary: st)
  case 0
  then show ?case by auto
next
  case (Suc n)
  let ?ch = "ns_tcp_chan st c"
  obtain x where x: "tcp_at S (ts_handle ts) st = Some x" using table_tcp_at [OF Suc.prems] by blast
  obtain r x' where r: "tcp_recv S x = (r, x')" by (cases "tcp_recv S x")
  have law: "acc x' = acc x" "got x' = got x @ (case r of Inr bs \<Rightarrow> bs | Inl _ \<Rightarrow> [])"
    using assms(2) r unfolding stream_laws_def by blast+
  let ?st = "set_tcp S (ts_handle ts) x' st"
  show ?case
  proof (cases "ch_open ?ch \<and> \<not> length (ch_items ?ch) \<ge> capacity \<and> tcp_can_recv S x \<and> (\<exists>b bs. r = Inr (b # bs))")
    case True
    then obtain b bs where r': "r = Inr (b # bs)" by blast
    let ?st1 = "?st\<lparr>ns_tcp_chan := (ns_tcp_chan st)(c := ?ch\<lparr>ch_items := ch_items ?ch @ [b # bs]\<rparr>)\<rparr>"
    have step: "step_ok S acc got st ?st1"
      using Suc.prems(2) law r' by (intro step_ok_socket [OF assms(1) Suc.prems x, where x' = x' and ts' = ts and ds = "b # bs"])
        (auto simp: set_tcp_def chan_bytes_def)
    have "ns_tcp ?st1 = ns_tcp st" by (simp add: set_tcp_def)
    with Suc.IH [OF step_ok_table [OF step Suc.prems(1)]] Suc.prems(2) step_ok_trans [OF step] True x r r'
    show ?thesis by (fastforce simp: set_tcp_def)
  next
    case False
    have "step_ok S acc got st ?st" if "r = Inl u \<or> r = Inr []" for u
      using Suc.prems(2) law that by (intro step_ok_socket [OF assms(1) Suc.prems x, where x' = x' and ts' = ts and ds = "[]"])
        (auto simp: set_tcp_def chan_bytes_def)
    then show ?thesis using False x r by (auto simp: set_tcp_def Let_def split: sum.splits list.splits)
  qed
qed

lemma resp_send_fields [simp]:
  "ns_sockets (snd (resp_send req r st)) = ns_sockets st" "ns_tcp (snd (resp_send req r st)) = ns_tcp st"
  "ns_udp (snd (resp_send req r st)) = ns_udp st" "ns_next_id (snd (resp_send req r st)) = ns_next_id st"
  "ns_tcp_chan (snd (resp_send req r st)) = ns_tcp_chan st" "ns_accept (snd (resp_send req r st)) = ns_accept st"
  by (simp_all add: resp_send_def)

lemma close_chan_fields [simp]:
  "ns_sockets (close_tcp_chan c st) = ns_sockets st" "ns_tcp (close_tcp_chan c st) = ns_tcp st" "ns_udp (close_tcp_chan c st) = ns_udp st"
  "ns_next_id (close_tcp_chan c st) = ns_next_id st" "ch_items (ns_tcp_chan (close_tcp_chan c st) d) = ch_items (ns_tcp_chan st d)"
  "ns_accept (close_tcp_chan c st) = ns_accept st"
  "ns_sockets (close_udp_chan c st) = ns_sockets st" "ns_tcp (close_udp_chan c st) = ns_tcp st" "ns_udp (close_udp_chan c st) = ns_udp st"
  "ns_next_id (close_udp_chan c st) = ns_next_id st" "ns_tcp_chan (close_udp_chan c st) = ns_tcp_chan st"
  "ns_accept (close_udp_chan c st) = ns_accept st"
  by (simp_all add: close_tcp_chan_def close_udp_chan_def)

lemma tcp_handover_fields:
  "ns_sockets (tcp_handover S capacity c ts x st) = ns_sockets st" "ns_udp (tcp_handover S capacity c ts x st) = ns_udp st"
  "ns_next_id (tcp_handover S capacity c ts x st) = ns_next_id st"
  "ns_tcp (tcp_handover S capacity c ts x st) =
     (ns_tcp st)(c \<mapsto> ts\<lparr>ts_established := True, ts_connect_resp := None, ts_from_stack_rx := False\<rparr>)"
  "ch_items (ns_tcp_chan (tcp_handover S capacity c ts x st) d) = ch_items (ns_tcp_chan st d)"
  "ns_accept (tcp_handover S capacity c ts x st) = ns_accept st"
  by (auto simp: tcp_handover_def Let_def resp_send_def split: option.splits)

lemma svc_establish_ok:
  assumes "ns_tcp st c = Some ts"
  shows "step_ok S acc got st (svc_establish S capacity c state x st)"
    and "\<exists>ts'. ns_tcp (svc_establish S capacity c state x st) c = Some ts' \<and> ts_handle ts' = ts_handle ts"
    and "ns_accept (svc_establish S capacity c state x st) = ns_accept st"
  using assms by (auto simp: svc_establish_def tcp_handover_fields intro!: step_ok_fields)

section \<open>Serving ends a connection or moves its bytes forward\<close>

definition serve_ok :: "('i, 't, 'u, 's) smoltcp \<Rightarrow> ('t \<Rightarrow> bytes) \<Rightarrow> ('t \<Rightarrow> bytes) \<Rightarrow> ('i, 's) net_stack \<Rightarrow> ('i, 's) net_stack \<Rightarrow> bool" where
  "serve_ok S acc got st st' \<longleftrightarrow>
     table_ok S st' \<and> ns_next_id st' = ns_next_id st \<and> (\<forall>c. ns_tcp st c = None \<longrightarrow> ns_tcp st' c = None \<and> chan_bytes st' c = chan_bytes st c)
   \<and> (\<forall>c up down. flows S acc got st c = Some (up, down) \<longrightarrow> flows S acc got st' c = None \<or>
        (\<exists>ds. flows S acc got st' c = Some (up, down @ ds) \<and> chan_bytes st' c = chan_bytes st c @ ds))"

lemma serve_ok_refl [simp]: "table_ok S st \<Longrightarrow> serve_ok S acc got st st"
  by (simp add: serve_ok_def)

lemma serve_ok_step:
  assumes "step_ok S acc got st st'" and "table_ok S st"
  shows "serve_ok S acc got st st'"
proof -
  have "hmap st' = hmap st" using assms(1) by (simp add: step_ok_def)
  then have "ns_tcp st' c = None" if "ns_tcp st c = None" for c using that hmap_None by metis
  moreover have "chan_bytes st' c = chan_bytes st c" if "ns_tcp st c = None" for c
    using that assms(1) unfolding step_ok_def hmap_None by blast
  ultimately show ?thesis using assms(1) step_ok_table [OF assms] by (simp add: serve_ok_def step_ok_def)
qed

lemma serve_ok_trans [trans]:
  assumes "serve_ok S acc got st st1" and "serve_ok S acc got st1 st2"
  shows "serve_ok S acc got st st2"
proof -
  have "flows S acc got st2 c = None \<or> (\<exists>ds. flows S acc got st2 c = Some (up, down @ ds) \<and> chan_bytes st2 c = chan_bytes st c @ ds)"
    if f: "flows S acc got st c = Some (up, down)" for c up down
  proof (cases "flows S acc got st1 c")
    case None
    have "table_ok S st1" using assms(1) by (simp add: serve_ok_def)
    from flows_None [OF this, of acc got c] None have "ns_tcp st1 c = None" by simp
    then have "ns_tcp st2 c = None" using assms(2) by (simp add: serve_ok_def)
    then show ?thesis by (simp add: flows_def)
  next
    case (Some ud)
    then obtain ds where d: "flows S acc got st1 c = Some (up, down @ ds)" "chan_bytes st1 c = chan_bytes st c @ ds"
      using assms(1) f unfolding serve_ok_def by fastforce
    then have "flows S acc got st2 c = None \<or>
        (\<exists>es. flows S acc got st2 c = Some (up, (down @ ds) @ es) \<and> chan_bytes st2 c = chan_bytes st1 c @ es)"
      using assms(2) unfolding serve_ok_def by blast
    then show ?thesis using d(2) by auto
  qed
  with assms show ?thesis by (simp add: serve_ok_def)
qed

text \<open>A connection leaves both the table and the socket set.\<close>

lemma serve_ok_remove:
  assumes ok: "table_ok S st" and c: "ns_tcp st c = Some ts"
    and st': "sm_get S (ns_sockets st') = (sm_get S (ns_sockets st))(ts_handle ts := None)" "ns_tcp st' = (ns_tcp st)(c := None)"
      "ns_udp st' = ns_udp st" "ns_next_id st' = ns_next_id st" "\<And>d. ch_items (ns_tcp_chan st' d) = ch_items (ns_tcp_chan st d)"
  shows "serve_ok S acc got st st'"
proof -
  let ?h = "ts_handle ts"
  have h: "hmap st' = (hmap st)(c := None)" and k: "kinds S st' = (kinds S st)(?h := None)"
    using st'(1,2) by (auto simp: hmap_def kinds_def fun_eq_iff)
  have hc: "hmap st c = Some ?h" using c by (rule hmap_Some)
  have ne: "h' \<noteq> ?h" if "hmap st d = Some h'" "d \<noteq> c" for d h' using table_okD(3) [OF ok hc, of d] that by auto
  have ne_udp: "h' \<noteq> ?h" if "ns_udp st d = Some h'" for d h'
    using table_okD(1) [OF ok hc] table_okD(2) [OF ok that] by auto
  have tcp: "kinds S st' h' = Some True" if "hmap st' d = Some h'" for d h'
    using that ne [of d h'] table_okD(1) [OF ok, of d h'] by (auto simp: h k split: if_splits)
  have udp: "kinds S st' h' = Some False" if "ns_udp st d = Some h'" for d h'
    using that ne_udp [of d h'] table_okD(2) [OF ok, of d h'] by (simp add: k)
  have inj: "d = e" if "hmap st' d = Some h'" "hmap st' e = Some h'" for d e h'
    using that table_okD(3) [OF ok, of d h' e] by (auto simp: h split: if_splits)
  have leak: "(\<exists>d. hmap st' d = Some h') \<or> (\<exists>d. ns_udp st d = Some h')" if "kinds S st' h' \<noteq> None" for h'
  proof -
    have "h' \<noteq> ?h" "kinds S st h' \<noteq> None" using that by (auto simp: k split: if_splits)
    with table_okD(5) [OF ok, of h'] hc show ?thesis by (auto simp: h) (metis option.inject)
  qed
  have low: "\<forall>d\<ge>ns_next_id st. hmap st' d = None \<and> ns_udp st d = None" using table_okD(6,7) [OF ok] by (simp add: h)
  have "table_ok S st'"
    unfolding table_ok_def st'(3,4) using tcp udp inj table_okD(4) [OF ok] leak low by (intro conjI) blast+
  moreover have "flows S acc got st' d = flows S acc got st d" if "d \<noteq> c" for d
    using table_inj [OF ok c, of d] that st'(1,2) by (auto simp: flows_def tcp_at_def split: option.splits)
  moreover have "flows S acc got st' c = None" using st'(2) by (simp add: flows_def)
  ultimately show ?thesis
    unfolding serve_ok_def using st'(2,4,5) by (auto simp: chan_bytes_def) metis
qed

lemma svc_refused_ok:
  assumes "smol_laws S" "table_ok S st" "ns_tcp st c = Some ts"
  shows "\<exists>over st'. svc_refused S c (ts_handle ts) state st = Some (over, st') \<and> serve_ok S acc got st st'
    \<and> (\<not> over \<longrightarrow> st' = st) \<and> ns_udp st' = ns_udp st \<and> ns_accept st' = ns_accept st"
proof (cases "\<not> ts_established ts \<and> state \<in> {TcpClosed, TcpTimeWait}")
  case True
  define st0 where "st0 = (case ts_connect_resp ts of
      Some req \<Rightarrow> snd (resp_send req (Inl ''connection refused'') (update_tcp c (\<lambda>ts. ts\<lparr>ts_connect_resp := None\<rparr>) st))
    | None \<Rightarrow> st)"
  have f: "ns_sockets st0 = ns_sockets st" "(ns_tcp st0)(c := None) = (ns_tcp st)(c := None)" "ns_udp st0 = ns_udp st"
    "ns_next_id st0 = ns_next_id st" "\<And>d. ns_tcp_chan st0 d = ns_tcp_chan st d" "ns_accept st0 = ns_accept st"
    by (auto simp: st0_def update_tcp_def split: option.splits)
  obtain x where "tcp_at S (ts_handle ts) st = Some x" using table_tcp_at [OF assms(2,3)] by blast
  then obtain s' where s': "sm_remove S (ts_handle ts) (ns_sockets st) = Some s'" "sm_get S s' = (sm_get S (ns_sockets st))(ts_handle ts := None)"
    using smol_remove [OF assms(1), of "ns_sockets st" "ts_handle ts"] by (auto simp: tcp_at_get)
  let ?st' = "close_tcp_chan c (st0\<lparr>ns_sockets := s', ns_tcp := (ns_tcp st0)(c := None)\<rparr>)"
  have "serve_ok S acc got st ?st'"
    by (rule serve_ok_remove [OF assms(2,3)]) (use s' f in simp_all)
  moreover have "svc_refused S c (ts_handle ts) state st = Some (True, ?st')"
    using True assms(3) s'(1) f(1) unfolding st0_def by (simp add: svc_refused_def drop_socket_def Let_def split: option.splits)
  moreover have "ns_udp ?st' = ns_udp st" "ns_accept ?st' = ns_accept st" using f by simp_all
  ultimately show ?thesis by blast
next
  case False
  then show ?thesis using assms(2,3) by (auto simp: svc_refused_def)
qed

lemma svc_finish_ok:
  assumes "smol_laws S" "stream_laws S acc got" "table_ok S st" "ns_tcp st c = Some ts"
  shows "\<exists>st'. svc_finish S c (ts_handle ts) gone st = Some st' \<and> serve_ok S acc got st st'"
proof -
  obtain st1 where st1: "(if gone then close_at S (ts_handle ts) st else Some st) = Some st1" "step_ok S acc got st st1" "ns_tcp st1 = ns_tcp st"
    using step_ok_close_at [OF assms] by (cases gone) auto
  have ok1: "table_ok S st1" using step_ok_table [OF st1(2) assms(3)] .
  have c1: "ns_tcp st1 c = Some ts" using st1(3) assms(4) by simp
  obtain x where x: "tcp_at S (ts_handle ts) st1 = Some x" using table_tcp_at [OF ok1 c1] by blast
  obtain st2 where st2: "(if tcp_fsm_state S x = TcpCloseWait then close_at S (ts_handle ts) st1 else Some st1) = Some st2"
      "step_ok S acc got st1 st2" "ns_tcp st2 = ns_tcp st1"
    using step_ok_close_at [OF assms(1,2) ok1 c1] by (cases "tcp_fsm_state S x = TcpCloseWait") auto
  have ok2: "table_ok S st2" using step_ok_table [OF st2(2) ok1] .
  have c2: "ns_tcp st2 c = Some ts" using st2(3) c1 by simp
  have s2: "serve_ok S acc got st st2"
    using serve_ok_trans [OF serve_ok_step [OF st1(2) assms(3)] serve_ok_step [OF st2(2) ok1]] .
  obtain x2 where "tcp_at S (ts_handle ts) st2 = Some x2" using table_tcp_at [OF ok2 c2] by blast
  then obtain s' where s': "sm_remove S (ts_handle ts) (ns_sockets st2) = Some s'" "sm_get S s' = (sm_get S (ns_sockets st2))(ts_handle ts := None)"
    using smol_remove [OF assms(1), of "ns_sockets st2" "ts_handle ts"] by (auto simp: tcp_at_get)
  have s3: "serve_ok S acc got st2 (st2\<lparr>ns_sockets := s', ns_tcp := (ns_tcp st2)(c := None)\<rparr>)"
    by (rule serve_ok_remove [OF ok2 c2]) (use s' in simp_all)
  show ?thesis
  proof (cases "tcp_fsm_state S x = TcpClosed \<and> ts_established ts")
    case True
    then show ?thesis
      using st1(1) x st2(1) s'(1) c2 serve_ok_trans [OF s2 s3]
      by (simp add: svc_finish_def drop_socket_def Let_def)
  next
    case False
    then have "\<not> (tcp_fsm_state S x = TcpClosed \<and> (case ns_tcp st2 c of Some ts \<Rightarrow> ts_established ts | None \<Rightarrow> False))" using c2 by simp
    then show ?thesis using st1(1) x st2(1) s2 by (simp add: svc_finish_def Let_def del: de_Morgan_conj)
  qed
qed

lemma service_one_ok:
  assumes laws: "smol_laws S" "stream_laws S acc got" and ok: "table_ok S st"
  shows "\<exists>full st'. service_one S t c st = Some (full, st') \<and> serve_ok S acc got st st'"
proof (cases "ns_tcp st c")
  case None
  then show ?thesis using ok by (auto simp: service_one_def)
next
  case (Some ts)
  obtain x where x: "tcp_at S (ts_handle ts) st = Some x" using table_tcp_at [OF ok Some] by blast
  let ?st1 = "svc_establish S (tn_channel_capacity t) c (tcp_fsm_state S x) x st"
  have e: "step_ok S acc got st ?st1" by (rule svc_establish_ok(1) [OF Some])
  obtain ts1 where ts1: "ns_tcp ?st1 c = Some ts1" "ts_handle ts1 = ts_handle ts"
    using svc_establish_ok(2) [OF Some, of S "tn_channel_capacity t" "tcp_fsm_state S x" x] by blast
  have ok1: "table_ok S ?st1" using step_ok_table [OF e ok] .
  obtain over st2 where st2: "svc_refused S c (ts_handle ts) (tcp_fsm_state S x) ?st1 = Some (over, st2)" "serve_ok S acc got ?st1 st2"
      "\<not> over \<longrightarrow> st2 = ?st1"
    using svc_refused_ok [OF laws(1) ok1 ts1(1), of "tcp_fsm_state S x" acc got] ts1(2) by auto
  have s2: "serve_ok S acc got st st2" using serve_ok_trans [OF serve_ok_step [OF e ok] st2(2)] .
  show ?thesis
  proof (cases over)
    case True
    then show ?thesis using Some x st2(1) s2 by (auto simp: service_one_def Let_def)
  next
    case False
    then have st2_eq: "st2 = ?st1" using st2(3) by simp
    obtain st3 ts3 where st3: "svc_send S c (ts_handle ts) st2 = Some st3" "step_ok S acc got st2 st3" "ns_tcp st3 c = Some ts3"
        "ts_handle ts3 = ts_handle ts"
      using svc_send_ok [OF laws ok1 ts1(1)] ts1(2) st2_eq by auto
    have ok3: "table_ok S st3" using step_ok_table [OF st3(2)] ok1 st2_eq by simp
    obtain st4 where st4: "svc_half_close S c (ts_handle ts) st3 = Some st4" "step_ok S acc got st3 st4" "ns_tcp st4 = ns_tcp st3"
      using svc_half_close_ok [OF laws ok3 st3(3)] st3(4) by auto
    have ok4: "table_ok S st4" using step_ok_table [OF st4(2) ok3] .
    have c4: "ns_tcp st4 c = Some ts3" using st4(3) st3(3) by simp
    obtain full gone st5 where st5: "svc_recv MAX_RECV_CHUNKS S (tn_channel_capacity t) c (ts_handle ts) st4 = Some (full, gone, st5)"
        "step_ok S acc got st4 st5" "ns_tcp st5 = ns_tcp st4"
      using svc_recv_ok [OF laws ok4 c4] st3(4) by auto blast
    have ok5: "table_ok S st5" using step_ok_table [OF st5(2) ok4] .
    obtain st6 where st6: "svc_finish S c (ts_handle ts) gone st5 = Some st6" "serve_ok S acc got st5 st6"
      using svc_finish_ok [OF laws ok5, of c ts3 gone] st5(3) c4 st3(4) by auto
    have "step_ok S acc got st2 st5" using step_ok_trans [OF step_ok_trans [OF st3(2) st4(2)] st5(2)] .
    then have "serve_ok S acc got st2 st5" using serve_ok_step ok1 st2_eq by blast
    then have "serve_ok S acc got st st6" using serve_ok_trans [OF serve_ok_trans [OF s2] st6(2)] by blast
    moreover have "service_one S t c st = Some (full, st6)"
      using Some x st2(1) False st3(1,3) st4(1) st5(1) st6(1) by (simp add: service_one_def Let_def)
    ultimately show ?thesis by blast
  qed
qed

lemma service_tcp_ok:
  assumes "smol_laws S" "stream_laws S acc got" "table_ok S st"
  shows "\<exists>full st'. service_tcp S t ids st = Some (full, st') \<and> serve_ok S acc got st st'"
  using assms(3)
proof (induction ids arbitrary: st)
  case Nil
  then show ?case by auto
next
  case (Cons c ids)
  obtain full st1 where st1: "service_one S t c st = Some (full, st1)" "serve_ok S acc got st st1"
    using service_one_ok [OF assms(1,2) Cons.prems] by blast
  have "table_ok S st1" using st1(2) by (simp add: serve_ok_def)
  from Cons.IH [OF this] obtain full' st2 where "service_tcp S t ids st1 = Some (full', st2)" "serve_ok S acc got st1 st2" by blast
  then show ?case using st1 serve_ok_trans [OF st1(2)] by auto
qed

text \<open>UDP sockets have handles of their own.\<close>

lemma step_ok_udp_socket:
  assumes "smol_laws S" "udp_at S h st = Some x" "ns_sockets st' = sm_put S h (Inr x') (ns_sockets st)"
    "ns_tcp st' = ns_tcp st" "ns_udp st' = ns_udp st" "ns_next_id st' = ns_next_id st" "ns_tcp_chan st' = ns_tcp_chan st"
  shows "step_ok S acc got st st'"
proof -
  have get: "sm_get S (ns_sockets st') = (sm_get S (ns_sockets st))(h \<mapsto> Inr x')"
    using smol_put [OF assms(1)] assms(2,3) by (simp add: udp_at_get)
  have "flows S acc got st' c = flows S acc got st c" for c
    using assms(2,4) by (auto simp: flows_def tcp_at_def get udp_at_get split: option.splits)
  moreover have "kinds S st' = kinds S st" using assms(2) by (auto simp: kinds_def get udp_at_get fun_eq_iff)
  moreover have "hmap st' = hmap st" using assms(4) by (simp add: hmap_def fun_eq_iff)
  ultimately show ?thesis using assms(5-7) by (auto simp: step_ok_def chan_bytes_def)
qed

lemma udp_drain_ok:
  assumes "smol_laws S" "table_ok S st" "ns_udp st c = Some h"
  shows "\<exists>full st'. udp_drain n S capacity c h st = Some (full, st') \<and> step_ok S acc got st st'"
  using assms(2,3)
proof (induction n arbitrary: st)
  case 0
  then show ?case by auto
next
  case (Suc n)
  let ?ch = "ns_udp_chan st c"
  obtain x where x: "udp_at S h st = Some x" using table_udp_at [OF Suc.prems] by blast
  obtain r x' where r: "udp_recv S x = (r, x')" by (cases "udp_recv S x")
  let ?st = "set_udp S h x' st"
  show ?case
  proof (cases "ch_open ?ch \<and> \<not> length (ch_items ?ch) \<ge> capacity \<and> udp_can_recv S x \<and> (\<exists>d. r = Inr d)")
    case True
    then obtain data ep where r': "r = Inr (data, ep)" by auto
    let ?st1 = "?st\<lparr>ns_udp_chan := (ns_udp_chan st)(c := ?ch\<lparr>ch_items := ch_items ?ch @ [(ep, data)]\<rparr>)\<rparr>"
    have step: "step_ok S acc got st ?st1"
      by (rule step_ok_udp_socket [OF assms(1) x, where x' = x']) (simp_all add: set_udp_def)
    have "ns_udp ?st1 c = Some h" using Suc.prems(2) by (simp add: set_udp_def)
    from Suc.IH [OF step_ok_table [OF step Suc.prems(1)] this] step_ok_trans [OF step] True x r r'
    show ?thesis by (fastforce simp: set_udp_def)
  next
    case False
    have "step_ok S acc got st ?st"
      by (rule step_ok_udp_socket [OF assms(1) x, where x' = x']) (simp_all add: set_udp_def)
    then show ?thesis using False x r by (auto simp: set_udp_def Let_def split: sum.splits)
  qed
qed

lemma service_udp_ok:
  assumes "smol_laws S" "table_ok S st"
  shows "\<exists>full st'. service_udp S t ids st = Some (full, st') \<and> step_ok S acc got st st'"
  using assms(2)
proof (induction ids arbitrary: st)
  case Nil
  then show ?case by auto
next
  case (Cons c ids)
  obtain full st1 where st1: "(case ns_udp st c of None \<Rightarrow> Some (False, st)
      | Some h \<Rightarrow> udp_drain MAX_RECV_CHUNKS S (tn_channel_capacity t) c h st) = Some (full, st1)" "step_ok S acc got st st1"
    using udp_drain_ok [OF assms(1) Cons.prems, of c _ MAX_RECV_CHUNKS "tn_channel_capacity t" acc got] that
    by (cases "ns_udp st c") auto
  from Cons.IH [OF step_ok_table [OF st1(2) Cons.prems]]
  obtain full' st2 where "service_udp S t ids st1 = Some (full', st2)" "step_ok S acc got st1 st2" by blast
  then show ?case using st1 step_ok_trans [OF st1(2)] by auto
qed

lemma poll_stack_ok:
  assumes "smol_laws S" "stream_laws S acc got" "table_ok S st"
  shows "step_ok S acc got st (poll_stack S now st)"
proof -
  obtain p i rx tx s where poll: "sm_poll S now (ns_iface st) (ns_rx st) (ns_sockets st) = (p, i, rx, tx, s)"
    by (metis prod_cases5)
  have k: "same_kind (sm_get S s h) (sm_get S (ns_sockets st) h)" for h
    using assms(1) poll unfolding smol_laws_def by blast
  have str: "acc x' = acc x \<and> got x' = got x" if "sm_get S (ns_sockets st) h = Some (Inl x)" "sm_get S s h = Some (Inl x')" for h x x'
    using assms(2) poll that unfolding stream_laws_def by blast
  let ?st = "poll_stack S now st"
  have f: "ns_sockets ?st = s" "ns_tcp ?st = ns_tcp st" "ns_udp ?st = ns_udp st" "ns_next_id ?st = ns_next_id st" "ns_tcp_chan ?st = ns_tcp_chan st"
    using poll by (simp_all add: poll_stack_def Let_def)
  have kinds: "kinds S ?st = kinds S st" using k f(1) by (simp add: kinds_def same_kind_def fun_eq_iff)
  have "flows S acc got ?st c = flows S acc got st c" for c
  proof (cases "ns_tcp st c")
    case (Some ts)
    obtain x where x: "tcp_at S (ts_handle ts) st = Some x" using table_tcp_at [OF assms(3) Some] by blast
    then obtain x' where x': "tcp_at S (ts_handle ts) ?st = Some x'" using kinds by (metis tcp_at_kinds)
    then have "acc x' = acc x \<and> got x' = got x" using str x f(1) by (simp add: tcp_at_get)
    then show ?thesis using Some x x' f(2) by (simp add: flows_def)
  qed (simp add: flows_def f)
  then show ?thesis using kinds f by (simp add: step_ok_def hmap_def fun_eq_iff chan_bytes_def)
qed

section \<open>Commands and data\<close>

definition cmd_ok :: "('i, 't, 'u, 's) smoltcp \<Rightarrow> ('t \<Rightarrow> bytes) \<Rightarrow> ('t \<Rightarrow> bytes) \<Rightarrow> ('i, 's) net_stack \<Rightarrow> ('i, 's) net_stack \<Rightarrow> bool" where
  "cmd_ok S acc got st st' \<longleftrightarrow>
     table_ok S st' \<and> ns_next_id st \<le> ns_next_id st'
   \<and> (\<forall>c. flows S acc got st' c = flows S acc got st c \<or> (ns_next_id st \<le> c \<and> flows S acc got st' c = Some ([], [])))
   \<and> (\<forall>c. chan_bytes st' c = chan_bytes st c \<or> (ns_next_id st \<le> c \<and> chan_bytes st' c = []))"

lemma cmd_ok_fields:
  assumes "table_ok S st" "ns_sockets st' = ns_sockets st" "ns_udp st' = ns_udp st" "ns_next_id st' = ns_next_id st"
    "ns_tcp st' = ns_tcp st" "ns_tcp_chan st' = ns_tcp_chan st"
  shows "cmd_ok S acc got st st'"
proof -
  have "step_ok S acc got st st'" by (rule step_ok_fields) (use assms in simp_all)
  moreover have "flows S acc got st' = flows S acc got st" using assms by (intro flows_fields)
  ultimately show ?thesis using step_ok_table assms by (auto simp: cmd_ok_def chan_bytes_def)
qed

lemma table_ok_insert:
  assumes ok: "table_ok S st" and fresh: "kinds S st h = None"
    and st': "kinds S st' = (kinds S st)(h := Some k)" "ns_next_id st' = Suc (ns_next_id st)"
      "hmap st' = (if k then (hmap st)(ns_next_id st \<mapsto> h) else hmap st)"
      "ns_udp st' = (if k then ns_udp st else (ns_udp st)(ns_next_id st \<mapsto> h))"
  shows "table_ok S st'"
proof -
  have old: "h' \<noteq> h" if "hmap st d = Some h' \<or> ns_udp st d = Some h'" for d h'
    using that table_okD(1,2) [OF ok, of d h'] fresh by auto
  have tcp: "kinds S st' h' = Some True" if "hmap st' d = Some h'" for d h'
    using that old [of d h'] table_okD(1) [OF ok, of d h'] by (auto simp: st' split: if_splits)
  have udp: "kinds S st' h' = Some False" if "ns_udp st' d = Some h'" for d h'
    using that old [of d h'] table_okD(2) [OF ok, of d h'] by (auto simp: st' split: if_splits)
  have inj: "d = e" if "hmap st' d = Some h'" "hmap st' e = Some h'" for d e h'
    using that table_okD(3) [OF ok, of d h' e] old [of d h'] old [of e h'] by (auto simp: st' split: if_splits)
  have inju: "d = e" if "ns_udp st' d = Some h'" "ns_udp st' e = Some h'" for d e h'
    using that table_okD(4) [OF ok, of d h' e] old [of d h'] old [of e h'] by (auto simp: st' split: if_splits)
  have n: "hmap st (ns_next_id st) = None" "ns_udp st (ns_next_id st) = None" using table_okD(6,7) [OF ok] by simp_all
  have leak: "(\<exists>d. hmap st' d = Some h') \<or> (\<exists>d. ns_udp st' d = Some h')" if "kinds S st' h' \<noteq> None" for h'
  proof (cases "h' = h")
    case True
    then have "hmap st' (ns_next_id st) = Some h' \<or> ns_udp st' (ns_next_id st) = Some h'" by (simp add: st')
    then show ?thesis by blast
  next
    case False
    then have "kinds S st h' \<noteq> None" using that by (simp add: st')
    then obtain d where d: "hmap st d = Some h' \<or> ns_udp st d = Some h'" using table_okD(5) [OF ok, of h'] by blast
    then have "d \<noteq> ns_next_id st" using n by auto
    then have "hmap st' d = Some h' \<or> ns_udp st' d = Some h'" using d by (simp add: st')
    then show ?thesis by blast
  qed
  have low: "\<forall>d\<ge>ns_next_id st'. hmap st' d = None \<and> ns_udp st' d = None" using table_okD(6,7) [OF ok] by (simp add: st')
  show ?thesis unfolding table_ok_def using tcp udp inj inju leak low by (intro conjI) blast+
qed

lemma insert_tcp_ok:
  assumes laws: "smol_laws S" and ok: "table_ok S st" and add: "sm_add S (Inl x) (ns_sockets st) = (h, sockets)"
    and empty: "acc x = []" "got x = []"
  shows "cmd_ok S acc got st (insert_tcp h resp (st\<lparr>ns_sockets := sockets\<rparr>))"
proof -
  let ?st = "insert_tcp h resp (st\<lparr>ns_sockets := sockets\<rparr>)" and ?n = "ns_next_id st"
  have get: "sm_get S (ns_sockets st) h = None" "sm_get S sockets = (sm_get S (ns_sockets st))(h \<mapsto> Inl x)"
    using smol_add [OF laws add] by simp_all
  have f: "ns_sockets ?st = sockets" "ns_next_id ?st = Suc ?n" "ns_udp ?st = ns_udp st"
    by (simp_all add: insert_tcp_def Let_def)
  have k: "kinds S ?st = (kinds S st)(h := Some True)" "kinds S st h = None"
    using get f(1) by (auto simp: kinds_def fun_eq_iff)
  have hm: "hmap ?st = (hmap st)(?n \<mapsto> h)" by (auto simp: hmap_def insert_tcp_def Let_def fun_eq_iff)
  have "table_ok S ?st" by (rule table_ok_insert [OF ok k(2) k(1) f(2)]) (simp_all add: hm f)
  moreover have "flows S acc got ?st ?n = Some ([], [])"
    using get(2) empty by (simp add: flows_def tcp_at_def insert_tcp_def Let_def)
  moreover have "flows S acc got ?st c = flows S acc got st c" if "c \<noteq> ?n" for c
  proof -
    have "ts_handle ts \<noteq> h" if "ns_tcp st c = Some ts" for ts
      using table_tcp_at [OF ok that] get(1) by (auto simp: tcp_at_get)
    then show ?thesis using that get by (auto simp: flows_def tcp_at_def insert_tcp_def Let_def split: option.splits)
  qed
  moreover have "chan_bytes ?st c = (if c = ?n then [] else chan_bytes st c)" for c
    by (simp add: chan_bytes_def insert_tcp_def Let_def)
  ultimately show ?thesis unfolding cmd_ok_def f(2) by (metis le_refl le_SucI)
qed

lemma cmd_ok_weaken:
  assumes "ns_sockets st0 = ns_sockets st" "ns_udp st0 = ns_udp st" "ns_next_id st0 = ns_next_id st" "ns_tcp st0 = ns_tcp st"
    "ns_tcp_chan st0 = ns_tcp_chan st" "cmd_ok S acc got st0 st'"
  shows "cmd_ok S acc got st st'"
  using assms flows_fields [OF assms(1,4), of S acc got] by (simp add: cmd_ok_def chan_bytes_def)

lemma table_ok_fields:
  "ns_sockets st' = ns_sockets st \<Longrightarrow> ns_udp st' = ns_udp st \<Longrightarrow> ns_next_id st' = ns_next_id st \<Longrightarrow> ns_tcp st' = ns_tcp st \<Longrightarrow>
    table_ok S st' = table_ok S st"
  by (simp add: table_ok_def kinds_def hmap_def)

lemma new_tcp_socket_empty:
  assumes "stream_laws S acc got"
  shows "tcp_connect S i dst port (new_tcp_socket S t) = (r, x) \<Longrightarrow> acc x = [] \<and> got x = []"
    and "tcp_listen S dst (new_tcp_socket S t) = (r, x) \<Longrightarrow> acc x = [] \<and> got x = []"
proof -
  have new: "acc (new_tcp_socket S t) = []" "got (new_tcp_socket S t) = []"
    using assms by (simp_all add: stream_laws_def new_tcp_socket_def)
  have c: "acc (snd (tcp_connect S i dst port y)) = acc y \<and> got (snd (tcp_connect S i dst port y)) = got y"
    and l: "acc (snd (tcp_listen S dst y)) = acc y \<and> got (snd (tcp_listen S dst y)) = got y" for y
    using assms by (simp_all add: stream_laws_def)
  show "tcp_connect S i dst port (new_tcp_socket S t) = (r, x) \<Longrightarrow> acc x = [] \<and> got x = []"
    using c [of "new_tcp_socket S t"] new by simp
  show "tcp_listen S dst (new_tcp_socket S t) = (r, x) \<Longrightarrow> acc x = [] \<and> got x = []"
    using l [of "new_tcp_socket S t"] new by simp
qed

lemma insert_udp_ok:
  assumes laws: "smol_laws S" and ok: "table_ok S st" and add: "sm_add S (Inr x) (ns_sockets st) = (h, sockets)"
    and st': "ns_sockets st' = sockets" "ns_next_id st' = Suc (ns_next_id st)" "ns_udp st' = (ns_udp st)(ns_next_id st \<mapsto> h)"
      "ns_tcp st' = ns_tcp st" "ns_tcp_chan st' = ns_tcp_chan st"
  shows "cmd_ok S acc got st st'"
proof -
  have get: "sm_get S (ns_sockets st) h = None" "sm_get S sockets = (sm_get S (ns_sockets st))(h \<mapsto> Inr x)"
    using smol_add [OF laws add] by simp_all
  have k: "kinds S st' = (kinds S st)(h := Some False)" "kinds S st h = None"
    using get st'(1) by (auto simp: kinds_def fun_eq_iff)
  have "hmap st' = hmap st" using st'(4) by (simp add: hmap_def fun_eq_iff)
  then have "table_ok S st'" by (intro table_ok_insert [OF ok k(2) k(1) st'(2)]) (simp_all add: st')
  moreover have "flows S acc got st' c = flows S acc got st c" for c
    using get st'(1,4) by (auto simp: flows_def tcp_at_def split: option.splits)
  ultimately show ?thesis using st'(2,5) by (simp add: cmd_ok_def chan_bytes_def)
qed

lemma handle_cmd_ok:
  assumes laws: "smol_laws S" "stream_laws S acc got" and ok: "table_ok S st"
  shows "cmd_ok S acc got st (handle_cmd S t cmd st)"
proof (cases cmd)
  case (OpenTcp dst resp)
  obtain r x where r: "tcp_connect S (ns_iface st) dst (ns_next_port st) (new_tcp_socket S t) = (r, x)" by fastforce
  let ?st = "st\<lparr>ns_next_port := snd (alloc_port (ns_next_port st))\<rparr>"
  have ok1: "table_ok S ?st" using ok by (subst table_ok_fields [of _ st]) simp_all
  obtain h sockets where add: "sm_add S (Inl x) (ns_sockets ?st) = (h, sockets)" by fastforce
  show ?thesis
  proof (cases r)
    case (Inl e)
    then show ?thesis unfolding OpenTcp using r ok
      by (intro cmd_ok_fields [OF ok]) (simp_all add: handle_cmd_def alloc_port_def)
  next
    case (Inr u)
    have "cmd_ok S acc got ?st (insert_tcp h (Some resp) (?st\<lparr>ns_sockets := sockets\<rparr>))"
      using new_tcp_socket_empty(1) [OF laws(2) r] by (intro insert_tcp_ok [OF laws(1) ok1 add]) simp_all
    then have "cmd_ok S acc got st (insert_tcp h (Some resp) (?st\<lparr>ns_sockets := sockets\<rparr>))"
      by (rule cmd_ok_weaken [rotated 5]) simp_all
    then show ?thesis unfolding OpenTcp using r Inr add by (simp add: handle_cmd_def alloc_port_def)
  qed
next
  case (OpenUdp resp)
  obtain r x where r: "udp_bind S (ns_next_port st) (udp_new S (udp_meta t) (tn_netstack_udp_buf t)) = (r, x)" by fastforce
  obtain h sockets where add: "sm_add S (Inr x) (ns_sockets st) = (h, sockets)" by fastforce
  show ?thesis
  proof (cases r)
    case (Inl e)
    then show ?thesis unfolding OpenUdp using r
      by (intro cmd_ok_fields [OF ok]) (simp_all add: handle_cmd_def alloc_port_def)
  next
    case (Inr u)
    show ?thesis unfolding OpenUdp using r Inr add
      by (intro insert_udp_ok [OF laws(1) ok add]) (simp_all add: handle_cmd_def alloc_port_def resp_send_def Let_def)
  qed
next
  case (SetAddrs v4 v6)
  then show ?thesis by (intro cmd_ok_fields [OF ok]) (simp_all add: handle_cmd_def)
next
  case EnableAccept
  then show ?thesis by (intro cmd_ok_fields [OF ok]) (simp_all add: handle_cmd_def)
qed

text \<open>Data of the applications goes behind what is already pending; closing a UDP association removes its socket.\<close>

definition data_ok ::
  "('i, 't, 'u, 's) smoltcp \<Rightarrow> ('t \<Rightarrow> bytes) \<Rightarrow> ('t \<Rightarrow> bytes) \<Rightarrow> (nat \<Rightarrow> bytes) \<Rightarrow> ('i, 's) net_stack \<Rightarrow> ('i, 's) net_stack \<Rightarrow> bool" where
  "data_ok S acc got more_data st st' \<longleftrightarrow>
     table_ok S st' \<and> ns_next_id st' = ns_next_id st \<and> ns_tcp_chan st' = ns_tcp_chan st
   \<and> (\<forall>c. flows S acc got st' c = map_option (\<lambda>x. (fst x @ more_data c, snd x)) (flows S acc got st c))"

lemma data_ok_tcp:
  assumes "table_ok S st" and f: "\<And>ts. ts_handle (f ts) = ts_handle ts" "\<And>ts. ts_pending (f ts) = ts_pending ts @ data"
  shows "data_ok S acc got (\<lambda>d. if d = c then data else []) st (update_tcp c f st)"
proof -
  have h: "hmap (update_tcp c f st) = hmap st" using f(1) by (auto simp: hmap_def update_tcp_def fun_eq_iff map_option_case split: option.splits)
  have s: "ns_sockets (update_tcp c f st) = ns_sockets st" by (simp add: update_tcp_def)
  have "table_ok S (update_tcp c f st)"
    using assms(1) h by (simp add: table_ok_def kinds_def s) (simp add: update_tcp_def)
  moreover have "flows S acc got (update_tcp c f st) d
      = map_option (\<lambda>x. (fst x @ (if d = c then data else []), snd x)) (flows S acc got st d)" for d
  proof -
    have at: "tcp_at S h (update_tcp c f st) = tcp_at S h st" for h by (simp add: tcp_at_def s)
    have "ns_tcp (update_tcp c f st) d = (if d = c then map_option f (ns_tcp st c) else ns_tcp st d)" by (simp add: update_tcp_def)
    then show ?thesis using f by (auto simp: flows_def at split: option.splits)
  qed
  ultimately show ?thesis by (simp add: data_ok_def) (simp add: update_tcp_def)
qed

lemma data_ok_step:
  assumes "step_ok S acc got st st'" "table_ok S st" "ns_tcp_chan st' = ns_tcp_chan st"
  shows "data_ok S acc got (\<lambda>_. []) st st'"
proof -
  have "flows S acc got st' c = flows S acc got st c" for c
  proof (cases "flows S acc got st c")
    case None
    then have "hmap st c = None" using flows_None [OF assms(2)] by (simp add: hmap_None)
    then have "ns_tcp st' c = None" using assms(1) by (simp add: step_ok_def hmap_None [symmetric])
    then show ?thesis using None by (simp add: flows_def)
  next
    case (Some ud)
    obtain up down where ud: "ud = (up, down)" by (cases ud)
    then obtain ds where "flows S acc got st' c = Some (up, down @ ds)" "chan_bytes st' c = chan_bytes st c @ ds"
      using assms(1) Some unfolding step_ok_def by blast
    then show ?thesis using assms(3) Some ud by (simp add: chan_bytes_def)
  qed
  moreover have "map_option (\<lambda>x. (fst x @ [], snd x)) z = z" for z :: "(bytes \<times> bytes) option"
    by (cases z) auto
  ultimately show ?thesis using assms step_ok_table [OF assms(1,2)] by (simp add: data_ok_def step_ok_def)
qed

lemma data_ok_udp_close:
  assumes laws: "smol_laws S" and ok: "table_ok S st" and c: "ns_udp st c = Some h"
  shows "\<exists>st'. drop_socket S h (st\<lparr>ns_udp := (ns_udp st)(c := None)\<rparr>) = Some st' \<and> data_ok S acc got (\<lambda>_. []) st st'"
proof -
  obtain x where x: "udp_at S h st = Some x" using table_udp_at [OF ok c] by blast
  then obtain s' where s': "sm_remove S h (ns_sockets st) = Some s'" "sm_get S s' = (sm_get S (ns_sockets st))(h := None)"
    using smol_remove [OF laws, of "ns_sockets st" h] by (auto simp: udp_at_get)
  let ?st = "st\<lparr>ns_udp := (ns_udp st)(c := None), ns_sockets := s'\<rparr>"
  have hm: "hmap ?st = hmap st" by (simp add: hmap_def fun_eq_iff)
  have k: "kinds S ?st = (kinds S st)(h := None)" using s'(2) by (auto simp: kinds_def fun_eq_iff)
  have ne: "h' \<noteq> h" if "hmap st d = Some h'" for d h' using table_okD(1) [OF ok that] table_okD(2) [OF ok c] by auto
  have tcp: "kinds S ?st h' = Some True" if "hmap st d = Some h'" for d h'
    using that ne [OF that] table_okD(1) [OF ok, of d h'] by (simp add: k)
  have udp: "kinds S ?st h' = Some False" if "ns_udp ?st d = Some h'" for d h'
    using that table_okD(2) [OF ok, of d h'] table_okD(4) [OF ok c, of d] by (auto simp: k split: if_splits)
  have inj: "d = e" if "ns_udp ?st d = Some h'" "ns_udp ?st e = Some h'" for d e h'
    using that table_okD(4) [OF ok, of d h' e] by (auto split: if_splits)
  have leak: "(\<exists>d. hmap st d = Some h') \<or> (\<exists>d. ns_udp ?st d = Some h')" if "kinds S ?st h' \<noteq> None" for h'
  proof -
    have "h' \<noteq> h" "kinds S st h' \<noteq> None" using that by (auto simp: k split: if_splits)
    with table_okD(5) [OF ok, of h'] obtain d where "hmap st d = Some h' \<or> ns_udp st d = Some h'" by blast
    with c \<open>h' \<noteq> h\<close> show ?thesis by (cases "d = c") auto
  qed
  have low: "\<forall>d\<ge>ns_next_id ?st. hmap st d = None \<and> ns_udp ?st d = None" using table_okD(6,7) [OF ok] by simp
  have "table_ok S ?st" unfolding table_ok_def hm using tcp udp inj table_okD(3) [OF ok] leak low by (intro conjI) blast+
  moreover have "flows S acc got ?st d = flows S acc got st d" for d
  proof -
    have "ts_handle ts \<noteq> h" if "ns_tcp st d = Some ts" for ts using ne [OF hmap_Some [OF that]] .
    then show ?thesis using s'(2) by (auto simp: flows_def tcp_at_def split: option.splits)
  qed
  moreover have "map_option (\<lambda>x. (fst x @ [], snd x)) z = z" for z :: "(bytes \<times> bytes) option"
    by (cases z) auto
  ultimately have "data_ok S acc got (\<lambda>_. []) st ?st" by (simp add: data_ok_def)
  then show ?thesis using s'(1) by (simp add: drop_socket_def)
qed

lemma handle_data_ok:
  assumes laws: "smol_laws S" and ok: "table_ok S st"
  shows "\<exists>st'. handle_data S d st = Some st' \<and> data_ok S acc got (\<lambda>c. data_for c d) st st'"
proof (cases d)
  case (DataTcp c data)
  have "(\<lambda>e. data_for e d) = (\<lambda>e. if e = c then data else [])" using DataTcp by auto
  then show ?thesis
    using data_ok_tcp [OF ok, of "\<lambda>ts. ts\<lparr>ts_pending := ts_pending ts @ data\<rparr>" data acc got c] DataTcp
    by (simp add: handle_data_def)
next
  case (DataTcpClose c)
  have "(\<lambda>e. data_for e d) = (\<lambda>e. if e = c then [] else [])" using DataTcpClose by auto
  then show ?thesis
    using data_ok_tcp [OF ok, of "\<lambda>ts. ts\<lparr>ts_half_closed := True\<rparr>" "[]" acc got c] DataTcpClose
    by (simp add: handle_data_def)
next
  case (DataUdp c dst data)
  show ?thesis
  proof (cases "ns_udp st c")
    case None
    then show ?thesis using DataUdp data_ok_step [OF step_ok_refl ok refl] by (simp add: handle_data_def)
  next
    case (Some h)
    obtain x where x: "udp_at S h st = Some x" using table_udp_at [OF ok Some] by blast
    let ?st = "set_udp S h (udp_send_slice S data dst x) st"
    have "step_ok S acc got st ?st"
      by (rule step_ok_udp_socket [OF laws x, where x' = "udp_send_slice S data dst x"]) (simp_all add: set_udp_def)
    then have "data_ok S acc got (\<lambda>_. []) st ?st" by (rule data_ok_step [OF _ ok]) (simp add: set_udp_def)
    then show ?thesis using DataUdp Some x by (simp add: handle_data_def)
  qed
next
  case (DataUdpClose c)
  show ?thesis
  proof (cases "ns_udp st c")
    case None
    then show ?thesis using DataUdpClose data_ok_step [OF step_ok_refl ok refl] by (simp add: handle_data_def)
  next
    case (Some h)
    then show ?thesis using DataUdpClose data_ok_udp_close [OF laws ok Some] by (simp add: handle_data_def)
  qed
qed

lemma handle_all_ok:
  assumes "smol_laws S" "table_ok S st"
  shows "\<exists>st'. handle_all S ds st = Some st' \<and> data_ok S acc got (\<lambda>c. concat (map (data_for c) ds)) st st'"
  using assms(2)
proof (induction ds arbitrary: st)
  case Nil
  then show ?case using data_ok_step [OF step_ok_refl Nil refl] by simp
next
  case (Cons d ds)
  obtain st1 where st1: "handle_data S d st = Some st1" "data_ok S acc got (\<lambda>c. data_for c d) st st1"
    using handle_data_ok [OF assms(1) Cons.prems] by blast
  have "table_ok S st1" using st1(2) by (simp add: data_ok_def)
  from Cons.IH [OF this] obtain st2 where "handle_all S ds st1 = Some st2"
      "data_ok S acc got (\<lambda>c. concat (map (data_for c) ds)) st1 st2" by blast
  then show ?case using st1 by (auto simp: data_ok_def option.map_comp o_def)
qed

section \<open>The loop keeps the invariant\<close>

lemma is_tcp_syn_total: "is_tcp_syn pkt \<noteq> None"
proof (cases "length pkt < 40")
  case False
  then have i: "idx pkt 0 = Some (pkt ! 0)" "idx pkt 9 = Some (pkt ! 9)" by (auto simp: idx_def)
  let ?ihl = "unat (pkt ! 0 AND 0x0f) * 4"
  have "slice_from pkt ?ihl = Some (drop ?ihl pkt) \<and> idx (drop ?ihl pkt) 13 = Some (pkt ! (?ihl + 13))"
    if "\<not> length pkt < ?ihl + 20"
    using that by (simp add: slice_from_in idx_in)
  then show ?thesis using i by (auto simp: is_tcp_syn_def Let_def)
qed (simp add: is_tcp_syn_def)

lemma parse_tcp_syn_total: "parse_tcp_syn pkt \<noteq> None"
proof (cases "length pkt < 40")
  case False
  then have i: "idx pkt 0 = Some (pkt ! 0)" by (auto simp: idx_def)
  have sl: "\<exists>a. slice_of pkt 12 16 = Some a" "\<exists>a. slice_of pkt 16 20 = Some a"
    using False by (simp_all add: slice_of_in)
  let ?ihl = "unat (pkt ! 0 AND 0x0f) * 4"
  show ?thesis
  proof (cases "length pkt < ?ihl + 20")
    case False
    then have "slice_from pkt ?ihl = Some (drop ?ihl pkt)" by (simp add: slice_from_in)
    moreover have "\<exists>p. field16 (drop ?ihl pkt) 0 = Some p" "\<exists>p. field16 (drop ?ihl pkt) 2 = Some p"
      using False by (simp_all add: field16_in)
    ultimately show ?thesis using i sl by (auto simp: parse_tcp_syn_def Let_def)
  qed (use i in \<open>simp add: parse_tcp_syn_def Let_def\<close>)
qed (simp add: parse_tcp_syn_def)

lemma cmd_ok_refl: "table_ok S st \<Longrightarrow> cmd_ok S acc got st st"
  by (simp add: cmd_ok_def)

lemma listen_for_ok:
  assumes "smol_laws S" "stream_laws S acc got" "table_ok S st"
  shows "cmd_ok S acc got st (listen_for S t dst st)"
proof -
  obtain r x where r: "tcp_listen S dst (new_tcp_socket S t) = (r, x)" by fastforce
  obtain h sockets where add: "sm_add S (Inl x) (ns_sockets st) = (h, sockets)" by fastforce
  show ?thesis
    using new_tcp_socket_empty(2) [OF assms(2) r] insert_tcp_ok [OF assms(1,3) add, of acc got] cmd_ok_refl [OF assms(3)] r add
    by (cases r) (simp_all add: listen_for_def)
qed

lemma cmd_ok_rx: "cmd_ok S acc got st st' \<Longrightarrow> cmd_ok S acc got st (st'\<lparr>ns_rx := rx\<rparr>)"
  using table_ok_fields [of "st'\<lparr>ns_rx := rx\<rparr>" st' S] flows_fields [of "st'\<lparr>ns_rx := rx\<rparr>" st' S acc got]
  by (simp add: cmd_ok_def chan_bytes_def)

lemma on_first_packet_ok:
  assumes "smol_laws S" "stream_laws S acc got" "table_ok S st"
  shows "\<exists>st'. on_first_packet S t pkt st = Some st' \<and> cmd_ok S acc got st st'"
proof -
  obtain b where b: "is_tcp_syn pkt = Some b" using is_tcp_syn_total by auto
  obtain r where r: "parse_tcp_syn pkt = Some r" using parse_tcp_syn_total by auto
  show ?thesis
    using b r cmd_ok_rx [OF cmd_ok_refl [OF assms(3)]] cmd_ok_rx [OF listen_for_ok [OF assms]]
    by (auto simp: on_first_packet_def split: option.splits prod.splits)
qed

text \<open>The invariant of a run with its history.\<close>

definition world_ok :: "('i, 't, 'u, 's) smoltcp \<Rightarrow> ('t \<Rightarrow> bytes) \<Rightarrow> ('t \<Rightarrow> bytes) \<Rightarrow> ('i, 's) stack_world \<Rightarrow> bool" where
  "world_ok S acc got w \<longleftrightarrow>
     table_ok S (sw_stack w)
   \<and> (\<forall>c up down. flows S acc got (sw_stack w) c = Some (up, down) \<longrightarrow>
        up = sw_given w c \<and> down = sw_taken w c @ chan_bytes (sw_stack w) c)
   \<and> (\<forall>c \<ge> ns_next_id (sw_stack w). sw_given w c = [] \<and> sw_taken w c = [] \<and> chan_bytes (sw_stack w) c = [])"

lemma world_ok_app:
  assumes "world_ok S acc got w"
  shows "world_ok S acc got (app_step a w)"
proof (cases "\<exists>c. a = TakeTcp c")
  case True
  then obtain c where a: "a = TakeTcp c" by blast
  let ?st = "sw_stack w" and ?w = "app_step a w"
  have f: "ns_sockets (sw_stack ?w) = ns_sockets ?st" "ns_tcp (sw_stack ?w) = ns_tcp ?st" "ns_udp (sw_stack ?w) = ns_udp ?st"
    "ns_next_id (sw_stack ?w) = ns_next_id ?st" "sw_given ?w = sw_given w"
    by (simp_all add: app_step_def app_act_def a)
  have t: "sw_taken ?w d @ chan_bytes (sw_stack ?w) d = sw_taken w d @ chan_bytes ?st d" for d
  proof (cases "d = c")
    case True
    have "concat (take 1 items) @ concat (drop 1 items) = concat items" for items :: "bytes list"
      by (cases items) simp_all
    then show ?thesis using True by (simp add: app_step_def app_act_def a chan_bytes_def)
  qed (simp add: app_step_def app_act_def a chan_bytes_def)
  have z: "sw_taken ?w d = [] \<and> chan_bytes (sw_stack ?w) d = []" if "sw_taken w d = []" "chan_bytes ?st d = []" for d
    using t [of d] that by simp
  show ?thesis
    using assms table_ok_fields [OF f(1,3,4,2), of S] flows_fields [OF f(1,2), of S acc got] t z f(4,5)
    unfolding world_ok_def by simp
next
  case False
  let ?st = "sw_stack w" and ?w = "app_step a w"
  have f: "ns_sockets (sw_stack ?w) = ns_sockets ?st" "ns_tcp (sw_stack ?w) = ns_tcp ?st" "ns_udp (sw_stack ?w) = ns_udp ?st"
    "ns_next_id (sw_stack ?w) = ns_next_id ?st" "sw_given ?w = sw_given w" "sw_taken ?w = sw_taken w"
    "chan_bytes (sw_stack ?w) = chan_bytes ?st"
    using False by (cases a; simp add: app_step_def app_act_def chan_bytes_def fun_eq_iff)+
  show ?thesis
    using assms table_ok_fields [OF f(1,3,4,2), of S] flows_fields [OF f(1,2), of S acc got] f(4-7)
    unfolding world_ok_def by simp
qed

lemma serve_okD:
  assumes "serve_ok S acc got st st'"
  shows "table_ok S st'" and "ns_next_id st' = ns_next_id st" and "ns_tcp st c = None \<Longrightarrow> ns_tcp st' c = None"
    and "ns_tcp st c = None \<Longrightarrow> chan_bytes st' c = chan_bytes st c"
    and "flows S acc got st c = Some (up, down) \<Longrightarrow> flows S acc got st' c = None \<or>
        (\<exists>ds. flows S acc got st' c = Some (up, down @ ds) \<and> chan_bytes st' c = chan_bytes st c @ ds)"
  using assms by (simp_all add: serve_ok_def)

lemma world_okD:
  assumes "world_ok S acc got w"
  shows "table_ok S (sw_stack w)"
    and "flows S acc got (sw_stack w) c = Some (up, down) \<Longrightarrow> up = sw_given w c \<and> down = sw_taken w c @ chan_bytes (sw_stack w) c"
    and "ns_next_id (sw_stack w) \<le> c \<Longrightarrow> sw_given w c = [] \<and> sw_taken w c = [] \<and> chan_bytes (sw_stack w) c = []"
  using assms by (simp_all add: world_ok_def)

lemma flows_entry: "flows S acc got st c = Some f \<Longrightarrow> ns_tcp st c \<noteq> None"
  by (cases "ns_tcp st c") (simp_all add: flows_def)

lemma world_ok_serve:
  assumes w: "world_ok S acc got w" and s: "serve_ok S acc got (sw_stack w) st'"
  shows "world_ok S acc got (w\<lparr>sw_stack := st', sw_totals := totals, sw_out := out\<rparr>)"
proof -
  have fl: "up = sw_given w c \<and> down = sw_taken w c @ chan_bytes st' c" if f: "flows S acc got st' c = Some (up, down)" for c up down
  proof -
    have "ns_tcp (sw_stack w) c \<noteq> None" using serve_okD(3) [OF s, of c] flows_entry [OF f] by blast
    then have "flows S acc got (sw_stack w) c \<noteq> None" using flows_None [OF world_okD(1) [OF w]] by simp
    then obtain up0 down0 where f0: "flows S acc got (sw_stack w) c = Some (up0, down0)" by auto
    then obtain ds where ds: "up = up0" "down = down0 @ ds" "chan_bytes st' c = chan_bytes (sw_stack w) c @ ds"
      using serve_okD(5) [OF s f0] f by auto
    then show ?thesis using world_okD(2) [OF w f0] by simp
  qed
  have "chan_bytes st' c = chan_bytes (sw_stack w) c" if "ns_next_id (sw_stack w) \<le> c" for c
    using serve_okD(4) [OF s] table_okD(6) [OF world_okD(1) [OF w] that] by (simp add: hmap_None)
  then show ?thesis
    using fl serve_okD(1,2) [OF s] world_okD(3) [OF w] by (simp add: world_ok_def)
qed

lemma stack_serve_ok:
  assumes "smol_laws S" "stream_laws S acc got" "table_ok S st"
  shows "\<exists>out delay totals' st'. stack_serve S t env totals st = Some (out, delay, totals', st') \<and> serve_ok S acc got st st'"
proof -
  let ?st1 = "poll_stack S (re_now env) st"
  have p: "step_ok S acc got st ?st1" by (rule poll_stack_ok [OF assms])
  have ok1: "table_ok S ?st1" using step_ok_table [OF p assms(3)] .
  obtain b2 st2 where st2: "service_tcp S t (re_tcp_ids env) ?st1 = Some (b2, st2)" "serve_ok S acc got ?st1 st2"
    using service_tcp_ok [OF assms(1,2) ok1] by blast
  have ok2: "table_ok S st2" using serve_okD(1) [OF st2(2)] .
  obtain b3 st3 where st3: "service_udp S t (re_udp_ids env) st2 = Some (b3, st3)" "step_ok S acc got st2 st3"
    using service_udp_ok [OF assms(1) ok2] by blast
  obtain out sent dropped rest where fl: "flush_loop (re_outs env) (ns_tx st3) 0 0 0 = (out, sent, dropped, rest)"
    by (metis prod_cases4)
  have "step_ok S acc got st3 (st3\<lparr>ns_tx := rest\<rparr>)" by (rule step_ok_fields) simp_all
  with serve_ok_trans [OF serve_ok_trans [OF serve_ok_step [OF p assms(3)] st2(2)] serve_ok_step [OF step_ok_trans [OF st3(2)] ok2]]
  have "serve_ok S acc got st (st3\<lparr>ns_tx := rest\<rparr>)" .
  then show ?thesis using st2(1) st3(1) fl by (simp add: stack_serve_def flush_tx_def Let_def)
qed

lemma world_ok_cmd:
  assumes w: "world_ok S acc got w" and c: "cmd_ok S acc got (sw_stack w) st'"
  shows "world_ok S acc got (w\<lparr>sw_stack := st', sw_totals := totals\<rparr>)"
proof -
  have fl: "flows S acc got st' d = flows S acc got (sw_stack w) d \<or> ns_next_id (sw_stack w) \<le> d \<and> flows S acc got st' d = Some ([], [])"
    and ch: "chan_bytes st' d = chan_bytes (sw_stack w) d \<or> ns_next_id (sw_stack w) \<le> d \<and> chan_bytes st' d = []"
    and n: "ns_next_id (sw_stack w) \<le> ns_next_id st'" and t: "table_ok S st'" for d
    using c by (simp_all add: cmd_ok_def)
  have new: "sw_given w d = []" "sw_taken w d = []" "chan_bytes st' d = []" if "ns_next_id (sw_stack w) \<le> d" for d
    using world_okD(3) [OF w that] ch [of d] by auto
  have "up = sw_given w d \<and> down = sw_taken w d @ chan_bytes st' d" if f: "flows S acc got st' d = Some (up, down)" for d up down
  proof (cases "ns_next_id (sw_stack w) \<le> d")
    case True
    then have "flows S acc got (sw_stack w) d = None"
      using table_okD(6) [OF world_okD(1) [OF w]] flows_None [OF world_okD(1) [OF w]] by (simp add: hmap_None)
    then show ?thesis using f fl [of d] new [OF True] by auto
  next
    case False
    then show ?thesis using world_okD(2) [OF w, of d up down] f fl [of d] ch [of d] by auto
  qed
  then show ?thesis using t n new by (simp add: world_ok_def)
qed

lemma world_ok_data:
  assumes w: "world_ok S acc got w" and d: "data_ok S acc got more_data (sw_stack w) st'"
  shows "world_ok S acc got (w\<lparr>sw_stack := st', sw_totals := totals,
    sw_given := (\<lambda>c. sw_given w c @ (if ns_tcp (sw_stack w) c = None then [] else more_data c))\<rparr>)"
proof -
  have t: "table_ok S st'" "ns_next_id st' = ns_next_id (sw_stack w)" "ns_tcp_chan st' = ns_tcp_chan (sw_stack w)"
    and fl: "flows S acc got st' c = map_option (\<lambda>x. (fst x @ more_data c, snd x)) (flows S acc got (sw_stack w) c)" for c
    using d by (simp_all add: data_ok_def)
  have f: "up = sw_given w c @ (if ns_tcp (sw_stack w) c = None then [] else more_data c) \<and> down = sw_taken w c @ chan_bytes st' c"
    if g: "flows S acc got st' c = Some (up, down)" for c up down
  proof -
    obtain up0 where f0: "flows S acc got (sw_stack w) c = Some (up0, down)" "up = up0 @ more_data c"
      using fl [of c] g by (auto simp: map_option_case split: option.splits)
    then show ?thesis using world_okD(2) [OF w f0(1)] flows_entry [OF f0(1)] t(3) by (auto simp: chan_bytes_def)
  qed
  have z: "ns_tcp (sw_stack w) c = None" if "ns_next_id (sw_stack w) \<le> c" for c
    using table_okD(6) [OF world_okD(1) [OF w] that] by (simp add: hmap_None)
  show ?thesis using t f z world_okD(3) [OF w] by (simp add: world_ok_def chan_bytes_def)
qed

lemma world_ok_cong:
  "sw_stack w' = sw_stack w \<Longrightarrow> sw_given w' = sw_given w \<Longrightarrow> sw_taken w' = sw_taken w \<Longrightarrow> world_ok S acc got w \<Longrightarrow> world_ok S acc got w'"
  by (simp add: world_ok_def)

lemma world_ok_event:
  assumes laws: "smol_laws S" "stream_laws S acc got" and w: "world_ok S acc got w"
  shows "on_event S t ev (sw_stack w) = Some None \<or> (\<exists>received st'. on_event S t ev (sw_stack w) = Some (Some (received, st'))
    \<and> world_ok S acc got (w\<lparr>sw_totals := totals, sw_stack := st',
        sw_given := (\<lambda>c. sw_given w c @ (if ns_tcp (sw_stack w) c = None then [] else data_given ev c))\<rparr>))"
proof -
  have given: "(\<lambda>c. sw_given w c @ (if ns_tcp (sw_stack w) c = None then [] else data_given ev c)) = sw_given w"
    if "\<forall>ds. ev \<noteq> DataEv ds"
    using that by (cases ev) (simp_all add: data_given_def fun_eq_iff)
  have same: "world_ok S acc got (w\<lparr>sw_totals := totals, sw_stack := st', sw_given := sw_given w\<rparr>)"
    if "cmd_ok S acc got (sw_stack w) st'" for st'
    using world_ok_cmd [OF w that, of totals] by (simp add: world_ok_def)
  note ok = world_okD(1) [OF w]
  show ?thesis
  proof (cases ev)
    case (InboundEv pkt waiting)
    obtain st1 where st1: "on_first_packet S t pkt (sw_stack w) = Some st1" "cmd_ok S acc got (sw_stack w) st1"
      using on_first_packet_ok [OF laws ok] by blast
    show ?thesis
      using st1(1) same [OF cmd_ok_rx [OF st1(2)]] given InboundEv by (simp add: on_event_def Let_def)
  next
    case (CmdEv cmd)
    then show ?thesis using same [OF handle_cmd_ok [OF laws ok]] given by (simp add: on_event_def)
  next
    case (DataEv ds)
    obtain st1 where st1: "handle_all S ds (sw_stack w) = Some st1"
        "data_ok S acc got (\<lambda>c. concat (map (data_for c) ds)) (sw_stack w) st1"
      using handle_all_ok [OF laws(1) ok] by blast
    have given_eq: "data_given ev c = concat (map (data_for c) ds)" for c by (simp add: data_given_def DataEv)
    have "world_ok S acc got (w\<lparr>sw_totals := totals, sw_stack := st1,
        sw_given := (\<lambda>c. sw_given w c @ (if ns_tcp (sw_stack w) c = None then [] else data_given ev c))\<rparr>)"
      unfolding given_eq by (rule world_ok_cong [OF _ _ _ world_ok_data [OF w st1(2), of totals]]) simp_all
    then show ?thesis using st1(1) DataEv by (simp add: on_event_def)
  next
    case TimerEv
    then show ?thesis using same [OF cmd_ok_refl [OF ok]] given by (simp add: on_event_def)
  qed (simp_all add: on_event_def)
qed

lemma stack_run_ok:
  assumes laws: "smol_laws S" "stream_laws S acc got"
  shows "world_ok S acc got w \<Longrightarrow> \<exists>w'. stack_run S t steps w = Some w' \<and> world_ok S acc got w'"
proof (induction steps arbitrary: w)
  case Nil
  then show ?case by simp
next
  case (Cons step steps)
  show ?case
  proof (cases step)
    case (AppStep a)
    then show ?thesis using Cons.IH [OF world_ok_app [OF Cons.prems]] by simp
  next
    case (RoundStep env)
    obtain out delay totals st where serve: "stack_serve S t env (sw_totals w) (sw_stack w) = Some (out, delay, totals, st)"
        "serve_ok S acc got (sw_stack w) st"
      using stack_serve_ok [OF laws world_okD(1) [OF Cons.prems]] by blast
    let ?w1 = "w\<lparr>sw_stack := st, sw_totals := totals, sw_out := sw_out w @ out\<rparr>"
    have w1: "world_ok S acc got ?w1" by (rule world_ok_serve [OF Cons.prems serve(2)])
    consider "on_event S t (re_event env) st = Some None"
      | received st' where "on_event S t (re_event env) st = Some (Some (received, st'))"
          "world_ok S acc got (?w1\<lparr>sw_totals := totals, sw_stack := st',
             sw_given := (\<lambda>c. sw_given w c @ (if ns_tcp st c = None then [] else data_given (re_event env) c))\<rparr>)"
      using world_ok_event [OF laws w1, of t "re_event env" totals] by auto
    then show ?thesis
    proof cases
      case 1
      have "world_ok S acc got (w\<lparr>sw_out := sw_out w @ out, sw_totals := totals, sw_stack := st\<rparr>)"
        by (rule world_ok_cong [OF _ _ _ w1]) simp_all
      then show ?thesis using RoundStep serve(1) 1 by (simp add: Let_def)
    next
      case 2
      let ?w2 = "w\<lparr>sw_out := sw_out w @ out, sw_totals := totals\<lparr>st_rx_total := st_rx_total totals + received\<rparr>, sw_stack := st',
        sw_given := (\<lambda>c. sw_given w c @ (if ns_tcp st c = None then [] else data_given (re_event env) c))\<rparr>"
      have "world_ok S acc got ?w2" by (rule world_ok_cong [OF _ _ _ 2(2)]) simp_all
      from Cons.IH [OF this] show ?thesis using RoundStep serve(1) 2(1) by (simp add: Let_def)
    qed
  qed
qed

lemma world_ok_start:
  assumes "stack_spawn S iface sockets ipv4 ipv6 = Inr st" and "\<forall>h. sm_get S sockets h = None"
  shows "world_ok S acc got (world_start st)"
proof -
  have st: "ns_sockets st = sockets" "ns_tcp st = Map.empty" "ns_udp st = Map.empty" "\<And>c. ch_items (ns_tcp_chan st c) = []"
    using assms(1) by (auto simp: stack_spawn_def split: sum.splits)
  have "table_ok S st" using assms(2) by (simp add: table_ok_def kinds_def hmap_def st)
  then show ?thesis by (simp add: world_ok_def world_start_def flows_def chan_bytes_def st)
qed

section \<open>What accept mode yields\<close>

text \<open>No step but the handover could touch the channel of accepted connections, and the handover does not.\<close>

lemma accept_unchanged:
  "close_at S h st = Some st' \<Longrightarrow> ns_accept st' = ns_accept st"
  "drop_socket S h st = Some st' \<Longrightarrow> ns_accept st' = ns_accept st"
  "svc_send S c h st = Some st' \<Longrightarrow> ns_accept st' = ns_accept st"
  "svc_half_close S c h st = Some st' \<Longrightarrow> ns_accept st' = ns_accept st"
proof -
  show close: "close_at S h st = Some st' \<Longrightarrow> ns_accept st' = ns_accept st" for st
    by (auto simp: close_at_def set_tcp_def split: Option.bind_splits)
  show "drop_socket S h st = Some st' \<Longrightarrow> ns_accept st' = ns_accept st"
    by (auto simp: drop_socket_def split: Option.bind_splits)
  show "svc_send S c h st = Some st' \<Longrightarrow> ns_accept st' = ns_accept st"
    by (auto simp: svc_send_def set_tcp_def update_tcp_def Let_def split: Option.bind_splits option.splits if_splits prod.splits)
  show "svc_half_close S c h st = Some st' \<Longrightarrow> ns_accept st' = ns_accept st"
    using close by (auto simp: svc_half_close_def split: option.splits if_splits)
qed

lemma accept_recv: "svc_recv n S capacity c h st = Some (full, gone, st') \<Longrightarrow> ns_accept st' = ns_accept st"
proof (induction n arbitrary: st)
  case (Suc n)
  from Suc.prems show ?case
    by (auto simp: Let_def set_tcp_def split: if_splits Option.bind_splits prod.splits sum.splits list.splits dest!: Suc.IH)
qed simp

lemma accept_finish: "svc_finish S c h gone st = Some st' \<Longrightarrow> ns_accept st' = ns_accept st"
  by (auto simp: svc_finish_def Let_def split: if_splits Option.bind_splits dest!: accept_unchanged(1,2))

lemma accept_establish: "ns_accept (svc_establish S capacity c state x st) = ns_accept st"
  by (auto simp: svc_establish_def tcp_handover_fields split: option.splits)

lemma accept_refused: "svc_refused S c h state st = Some (over, st') \<Longrightarrow> ns_accept st' = ns_accept st"
  by (auto simp: svc_refused_def Let_def update_tcp_def split: if_splits Option.bind_splits option.splits dest!: accept_unchanged(2))

lemma accept_service_one: "service_one S t c st = Some (full, st') \<Longrightarrow> ns_accept st' = ns_accept st"
  by (auto simp: service_one_def Let_def accept_establish split: if_splits Option.bind_splits option.splits
      dest!: accept_refused accept_unchanged accept_recv accept_finish)

lemma accept_service_tcp: "service_tcp S t ids st = Some (full, st') \<Longrightarrow> ns_accept st' = ns_accept st"
  by (induction ids arbitrary: st full) (auto split: Option.bind_splits dest!: accept_service_one)

lemma accept_udp_drain: "udp_drain n S capacity c h st = Some (full, st') \<Longrightarrow> ns_accept st' = ns_accept st"
proof (induction n arbitrary: st)
  case (Suc n)
  from Suc.prems show ?case
    by (auto simp: Let_def set_udp_def split: if_splits Option.bind_splits prod.splits sum.splits dest!: Suc.IH)
qed simp

lemma accept_service_udp: "service_udp S t ids st = Some (full, st') \<Longrightarrow> ns_accept st' = ns_accept st"
  by (induction ids arbitrary: st full) (auto split: Option.bind_splits option.splits dest!: accept_udp_drain)

definition accept_empty :: "('i, 's) net_stack \<Rightarrow> bool" where
  "accept_empty st \<longleftrightarrow> (case ns_accept st of None \<Rightarrow> True | Some ch \<Rightarrow> ch_items ch = [])"

lemma accept_serve: "stack_serve S t env totals st = Some (out, delay, totals', st') \<Longrightarrow> ns_accept st' = ns_accept st"
  by (auto simp: stack_serve_def flush_tx_def poll_stack_def Let_def split: Option.bind_splits prod.splits if_splits
      dest!: accept_service_tcp accept_service_udp)

lemma accept_handle_all: "handle_all S ds st = Some st' \<Longrightarrow> ns_accept st' = ns_accept st"
proof (induction ds arbitrary: st)
  case (Cons d ds)
  have "ns_accept st1 = ns_accept st" if "handle_data S d st = Some st1" for st1
    using that by (cases d) (auto simp: handle_data_def update_tcp_def set_udp_def split: option.splits Option.bind_splits dest!: accept_unchanged(2))
  with Cons show ?case by (auto split: Option.bind_splits)
qed simp

lemma accept_event: "on_event S t ev st = Some (Some (received, st')) \<Longrightarrow> accept_empty st \<Longrightarrow> accept_empty st'"
proof (cases ev)
  case (InboundEv pkt waiting)
  assume a: "on_event S t ev st = Some (Some (received, st'))" and e: "accept_empty st"
  have "ns_accept (listen_for S t dst st) = ns_accept st" for dst
    by (auto simp: listen_for_def insert_tcp_def Let_def split: prod.splits sum.splits)
  with a have "ns_accept st' = ns_accept st"
    by (auto simp: InboundEv on_event_def on_first_packet_def Let_def split: Option.bind_splits option.splits prod.splits if_splits)
  with e show ?thesis by (simp add: accept_empty_def)
next
  case (CmdEv cmd)
  assume a: "on_event S t ev st = Some (Some (received, st'))" and e: "accept_empty st"
  have "cmd = EnableAccept \<or> ns_accept (handle_cmd S t cmd st) = ns_accept st"
    by (cases cmd) (auto simp: handle_cmd_def insert_tcp_def resp_send_def Let_def split: prod.splits sum.splits)
  with a e show ?thesis by (auto simp: CmdEv on_event_def accept_empty_def handle_cmd_def)
next
  case (DataEv ds)
  assume a: "on_event S t ev st = Some (Some (received, st'))" and e: "accept_empty st"
  then show ?thesis
    by (auto simp: DataEv on_event_def accept_empty_def split: Option.bind_splits dest!: accept_handle_all)
qed (simp_all add: on_event_def)

lemma accept_app: "accept_empty (sw_stack w) \<Longrightarrow> accept_empty (sw_stack (app_step a w))"
  by (cases a) (auto simp: app_step_def app_act_def accept_empty_def split: option.splits)

lemma accept_run: "stack_run S t steps w = Some w' \<Longrightarrow> accept_empty (sw_stack w) \<Longrightarrow> accept_empty (sw_stack w')"
proof (induction steps arbitrary: w)
  case (Cons step steps)
  show ?case
  proof (cases step)
    case (AppStep a)
    then show ?thesis using Cons.IH [OF _ accept_app [OF Cons.prems(2)]] Cons.prems(1) by simp
  next
    case (RoundStep env)
    obtain out delay totals st where s: "stack_serve S t env (sw_totals w) (sw_stack w) = Some (out, delay, totals, st)"
      using Cons.prems(1) RoundStep by (auto split: Option.bind_splits)
    have e: "accept_empty st" using accept_serve [OF s] Cons.prems(2) by (simp add: accept_empty_def)
    obtain r where r: "on_event S t (re_event env) st = Some r"
      using Cons.prems(1) RoundStep s by (auto split: Option.bind_splits)
    show ?thesis
    proof (cases r)
      case None
      then show ?thesis using Cons.prems(1) RoundStep s r e by (auto simp: Let_def)
    next
      case (Some q)
      obtain received st' where q: "q = (received, st')" by (cases q)
      have "accept_empty st'" using accept_event r Some q e by blast
      then show ?thesis using Cons.IH Cons.prems(1) RoundStep s r Some q by (auto simp: Let_def)
    qed
  qed
qed simp

section \<open>A sample crate\<close>

text \<open>
  A crate that keeps the promises: the socket set is a map with a counter, and polling completes a
  handshake. A socket is its state, the bytes accepted, the bytes read and the bytes waiting to be read.
\<close>

record sample_tcp =
  sx_state :: tcp_fsm
  sx_acc :: bytes
  sx_got :: bytes
  sx_in :: bytes

type_synonym sample_set = "(sample_tcp + unit) option list"

fun sample_advance :: "sample_tcp + unit \<Rightarrow> sample_tcp + unit" where
  "sample_advance (Inl x) = Inl (if sx_state x \<in> {TcpSynSent, TcpListen} then x\<lparr>sx_state := TcpEstablished\<rparr> else x)"
| "sample_advance (Inr u) = Inr u"

definition sample_smol :: "(unit, sample_tcp, unit, sample_set) smoltcp" where
  "sample_smol =
     \<lparr>sm_poll = (\<lambda>now i rx s. (False, i, [], rx, map (map_option sample_advance) s)),
      sm_poll_delay = (\<lambda>now i s. None), sm_update_ip_addrs = (\<lambda>a i. i), sm_default_ipv4_route = (\<lambda>a i. i),
      sm_default_ipv6_route = (\<lambda>a i. i),
      sm_add = (\<lambda>x s. (length s, s @ [Some x])), sm_get = (\<lambda>s h. if h < length s then s ! h else None),
      sm_put = (\<lambda>h x s. s[h := Some x]), sm_remove = (\<lambda>h s. Some (s[h := None])),
      tcp_new = (\<lambda>m n. \<lparr>sx_state = TcpClosed, sx_acc = [], sx_got = [], sx_in = []\<rparr>),
      tcp_connect = (\<lambda>i a p x. (Inr (), x\<lparr>sx_state := TcpSynSent\<rparr>)), tcp_listen = (\<lambda>a x. (Inr (), x\<lparr>sx_state := TcpListen\<rparr>)),
      tcp_fsm_state = sx_state, tcp_can_send = (\<lambda>x. sx_state x = TcpEstablished),
      tcp_send_slice = (\<lambda>bs x. (Inr (length bs), x\<lparr>sx_acc := sx_acc x @ bs\<rparr>)),
      tcp_can_recv = (\<lambda>x. sx_in x \<noteq> []), tcp_recv = (\<lambda>x. (Inr (sx_in x), x\<lparr>sx_got := sx_got x @ sx_in x, sx_in := []\<rparr>)),
      tcp_close = (\<lambda>x. x\<lparr>sx_state := TcpClosed\<rparr>), tcp_remote_endpoint = (\<lambda>x. None), tcp_local_endpoint = (\<lambda>x. None),
      udp_new = (\<lambda>m n. ()), udp_bind = (\<lambda>p u. (Inr (), u)), udp_send_slice = (\<lambda>bs a u. u), udp_can_recv = (\<lambda>u. False),
      udp_recv = (\<lambda>u. (Inl (), u))\<rparr>"

lemma sample_advance_kind: "isl (sample_advance x) = isl x"
  by (cases x) simp_all

lemma sample_smol_laws: "smol_laws sample_smol"
proof -
  have "sm_get sample_smol s' = (sm_get sample_smol s)(h \<mapsto> x)" "sm_get sample_smol s h = None"
    if "sm_add sample_smol x s = (h, s')" for x s h s'
    using that by (auto simp: sample_smol_def fun_eq_iff nth_append)
  moreover have "sm_get sample_smol (sm_put sample_smol h x s) = (sm_get sample_smol s)(h \<mapsto> x)"
    "sm_get sample_smol (s[h := None]) = (sm_get sample_smol s)(h := None)"
    if "sm_get sample_smol s h \<noteq> None" for h x s
    using that by (auto simp: sample_smol_def fun_eq_iff nth_list_update split: if_splits)
  moreover have "sm_remove sample_smol h s = Some (s[h := None])" for h s by (simp add: sample_smol_def)
  moreover have "same_kind (sm_get sample_smol (map (map_option sample_advance) s) h) (sm_get sample_smol s h)" for s h
    by (simp add: sample_smol_def same_kind_def option.map_comp o_def sample_advance_kind)
  moreover have "sm_poll sample_smol now i rx s = (False, i, [], rx, map (map_option sample_advance) s)" for now i rx s
    by (simp add: sample_smol_def)
  moreover have "tcp_send_slice sample_smol bs x = (Inr (length bs), x\<lparr>sx_acc := sx_acc x @ bs\<rparr>)" for bs x
    by (simp add: sample_smol_def)
  ultimately show ?thesis unfolding smol_laws_def by auto
qed

lemma sample_stream_laws: "stream_laws sample_smol sx_acc sx_got"
proof -
  have "sx_acc x' = sx_acc x \<and> sx_got x' = sx_got x"
    if "sm_get sample_smol s h = Some (Inl x)" "sm_get sample_smol (map (map_option sample_advance) s) h = Some (Inl x')" for s h x x'
    using that by (auto simp: sample_smol_def split: if_splits)
  moreover have "sm_poll sample_smol now i rx s = (False, i, [], rx, map (map_option sample_advance) s)" for now i rx s
    by (simp add: sample_smol_def)
  ultimately show ?thesis unfolding stream_laws_def by (auto simp: sample_smol_def)
qed

section \<open>Correctness\<close>

text \<open>
  C23: The socket tables are well typed, and well-typed tables never get stuck. In every run of the
  stack (any packets, commands and data, any order in which the hash maps list their keys, any state of
  the channels, polls that panic included) the loop never panics on a socket handle, and at its end every
  entry of the TCP table holds a TCP socket and every entry of the UDP table a UDP socket, no two entries
  share one, and every socket of the set belongs to an entry, so none is leaked.
\<close>

theorem stack_well_typed:
  assumes "smol_laws S" and "stream_laws S acc got" and "stack_spawn S iface sockets ipv4 ipv6 = Inr st"
    and "\<forall>h. sm_get S sockets h = None"
  shows "\<exists>w. stack_run S t steps (world_start st) = Some w \<and> table_ok S (sw_stack w)"
  using stack_run_ok [OF assms(1,2) world_ok_start [OF assms(3,4)]] world_okD(1) by blast

lemma sample_spawn: "\<exists>st. stack_spawn sample_smol () [] [] [] = Inr st"
  by (simp add: stack_spawn_def parse_v4_def parse_v6_def)

lemma sample_set_empty: "\<forall>h. sm_get sample_smol [] h = None"
  by (simp add: sample_smol_def)

definition sample_tuning :: tuning where
  "sample_tuning = \<lparr>tn_tier = Low, tn_cpus = 1, tn_mem_mb = None, tn_scan_concurrency_cap = 1, tn_udp_socket_buf = 1,
     tn_netstack_tcp_rx_buf = 1, tn_netstack_tcp_tx_buf = 1, tn_netstack_udp_buf = 1, tn_channel_capacity = 1,
     tn_h2_stream_window = 1, tn_h2_connection_window = 1\<rparr>"

definition sample_round :: "stack_event \<Rightarrow> stack_step" where
  "sample_round ev = RoundStep \<lparr>re_now = 0, re_tcp_ids = [1, 7], re_udp_ids = [2], re_outs = (\<lambda>_. PutOk), re_event = ev\<rparr>"

theorem stack_well_typed_witness:
  "\<exists>st w. stack_spawn sample_smol () [] [] [] = Inr st
    \<and> stack_run sample_smol sample_tuning
        (map sample_round [CmdEv (OpenTcp \<lparr>sa_ip = V4 1, sa_port = 80\<rparr> 5), TimerEv, DataEv [DataTcp 1 [7, 8], DataTcpClose 1], TimerEv])
        (world_start st) = Some w \<and> table_ok sample_smol (sw_stack w)"
  using sample_spawn stack_well_typed [OF sample_smol_laws sample_stream_laws _ sample_set_empty] by blast

text \<open>
  C15: Bytes keep their order in both directions. Take any socket implementation that appends what it
  accepts and hands out what it received. In every run, for every connection in the table, what its socket
  has accepted for sending followed by what is still pending is exactly what the application gave, and
  what was read from the socket is exactly what the application took off its channel followed by what the
  channel still holds. Nothing is lost, repeated, reordered or mixed between connections while a
  connection lives, whatever the channels and the socket buffers hold back.
\<close>

theorem stack_streams_faithful:
  assumes "smol_laws S" and "stream_laws S acc got" and "stack_spawn S iface sockets ipv4 ipv6 = Inr st"
    and "\<forall>h. sm_get S sockets h = None"
  shows "\<exists>w. stack_run S t steps (world_start st) = Some w
    \<and> (\<forall>c ts. ns_tcp (sw_stack w) c = Some ts \<longrightarrow>
        (\<exists>x. tcp_at S (ts_handle ts) (sw_stack w) = Some x \<and> acc x @ ts_pending ts = sw_given w c
           \<and> got x = sw_taken w c @ concat (ch_items (ns_tcp_chan (sw_stack w) c))))"
proof -
  obtain w where w: "stack_run S t steps (world_start st) = Some w" "world_ok S acc got w"
    using stack_run_ok [OF assms(1,2) world_ok_start [OF assms(3,4)]] by blast
  have "\<exists>x. tcp_at S (ts_handle ts) (sw_stack w) = Some x \<and> acc x @ ts_pending ts = sw_given w c
      \<and> got x = sw_taken w c @ concat (ch_items (ns_tcp_chan (sw_stack w) c))" if c: "ns_tcp (sw_stack w) c = Some ts" for c ts
  proof -
    obtain x where x: "tcp_at S (ts_handle ts) (sw_stack w) = Some x" using table_tcp_at [OF world_okD(1) [OF w(2)] c] by blast
    from world_okD(2) [OF w(2) flows_Some [OF c x]] x show ?thesis by (simp add: chan_bytes_def)
  qed
  with w(1) show ?thesis by blast
qed

theorem stack_streams_faithful_witness:
  "\<exists>st w. stack_spawn sample_smol () [] [] [] = Inr st
    \<and> stack_run sample_smol sample_tuning
        (map sample_round [CmdEv (OpenTcp \<lparr>sa_ip = V4 1, sa_port = 80\<rparr> 5), TimerEv, DataEv [DataTcp 1 [7, 8], DataTcp 1 [9]], TimerEv])
        (world_start st) = Some w
    \<and> (\<forall>c ts. ns_tcp (sw_stack w) c = Some ts \<longrightarrow>
        (\<exists>x. tcp_at sample_smol (ts_handle ts) (sw_stack w) = Some x \<and> sx_acc x @ ts_pending ts = sw_given w c
           \<and> sx_got x = sw_taken w c @ concat (ch_items (ns_tcp_chan (sw_stack w) c))))"
  using sample_spawn stack_streams_faithful [OF sample_smol_laws sample_stream_laws _ sample_set_empty] by blast

text \<open>
  C22: The end of a download can be lost. When the connection is closed on the wire while the channel of
  the application is full, the pass that meets it removes the connection although its socket still holds
  received bytes: they are not in the channel, the socket is gone from the set, and so they can never be
  delivered.
\<close>

theorem closed_socket_drops_unread:
  assumes "smol_laws S" and "table_ok S st" and "ns_tcp st c = Some ts" and "ts_established ts" and "ts_pending ts = []"
    and "\<not> ts_half_closed ts" and "tcp_at S (ts_handle ts) st = Some x" and "tcp_fsm_state S x = TcpClosed"
    and "tcp_can_recv S x" and "tcp_recv S x = (Inr unread, x')" and "unread \<noteq> []"
    and "ch_open (ns_tcp_chan st c)" and "tn_channel_capacity t \<le> length (ch_items (ns_tcp_chan st c))"
  shows "\<exists>st'. service_one S t c st = Some (True, st') \<and> ns_tcp st' c = None
    \<and> sm_get S (ns_sockets st') (ts_handle ts) = None \<and> ns_tcp_chan st' = ns_tcp_chan st"
proof -
  obtain s' where s': "sm_remove S (ts_handle ts) (ns_sockets st) = Some s'" "sm_get S s' = (sm_get S (ns_sockets st))(ts_handle ts := None)"
    using smol_remove [OF assms(1), of "ns_sockets st" "ts_handle ts"] assms(7) by (auto simp: tcp_at_get)
  have est: "svc_establish S capacity c TcpClosed x st = st" for capacity using assms(3) by (simp add: svc_establish_def)
  have ref: "svc_refused S c (ts_handle ts) TcpClosed st = Some (False, st)" using assms(3,4) by (simp add: svc_refused_def)
  have snd_eq: "svc_send S c (ts_handle ts) st = Some st" using assms(3,5,7) by (simp add: svc_send_def)
  have half: "svc_half_close S c (ts_handle ts) st = Some st" using assms(3,6) by (simp add: svc_half_close_def)
  have full: "svc_recv MAX_RECV_CHUNKS S (tn_channel_capacity t) c (ts_handle ts) st = Some (True, False, st)"
    using assms(12,13) svc_recv.simps(2) [of 127 S "tn_channel_capacity t" c "ts_handle ts" st] by (simp add: MAX_RECV_CHUNKS_def numeral_eq_Suc)
  have fin: "svc_finish S c (ts_handle ts) False st = Some (st\<lparr>ns_sockets := s', ns_tcp := (ns_tcp st)(c := None)\<rparr>)"
    using assms(3,4,7,8) s'(1) by (simp add: svc_finish_def drop_socket_def Let_def)
  show ?thesis using assms(3,7,8) est ref snd_eq half full fin s'(2) by (simp add: service_one_def Let_def)
qed

definition sample_closing :: "(unit, sample_set) net_stack" where
  "sample_closing =
     \<lparr>ns_iface = (), ns_rx = [], ns_tx = [],
      ns_sockets = [Some (Inl \<lparr>sx_state = TcpClosed, sx_acc = [], sx_got = [1], sx_in = [2, 3]\<rparr>)],
      ns_tcp = [1 \<mapsto> \<lparr>ts_handle = 0, ts_from_stack_rx = False, ts_connect_resp = None, ts_pending = [], ts_established = True, ts_half_closed = False\<rparr>],
      ns_udp = Map.empty, ns_next_id = 2, ns_next_port = 49153, ns_accept = None,
      ns_tcp_chan = (\<lambda>_. \<lparr>ch_items = [[1]], ch_open = True\<rparr>), ns_udp_chan = (\<lambda>_. \<lparr>ch_items = [], ch_open = False\<rparr>),
      ns_waiting = (\<lambda>_. True), ns_replies = []\<rparr>"

theorem closed_socket_drops_unread_witness:
  "\<exists>st'. service_one sample_smol sample_tuning 1 sample_closing = Some (True, st') \<and> ns_tcp st' 1 = None
    \<and> sm_get sample_smol (ns_sockets st') 0 = None \<and> ns_tcp_chan st' = ns_tcp_chan sample_closing"
proof -
  let ?x = "\<lparr>sx_state = TcpClosed, sx_acc = [], sx_got = [1], sx_in = [2, 3]\<rparr>"
  let ?ts = "\<lparr>ts_handle = 0, ts_from_stack_rx = False, ts_connect_resp = None, ts_pending = [], ts_established = True, ts_half_closed = False\<rparr>"
  have "table_ok sample_smol sample_closing"
    by (auto simp: table_ok_def kinds_def hmap_def sample_closing_def sample_smol_def)
  then show ?thesis
    using closed_socket_drops_unread [OF sample_smol_laws, of sample_closing 1 ?ts ?x "[2, 3]" "?x\<lparr>sx_got := [1, 2, 3], sx_in := []\<rparr>" sample_tuning]
    by (simp add: sample_closing_def sample_smol_def sample_tuning_def tcp_at_def)
qed

text \<open>
  C13: Transparent accept never yields a connection. In every run, with any TCP crate, the channel of
  accepted connections stays empty: the pair of \<open>take\<close> calls of the first branch has emptied the option
  that the branch for accepted connections tests. Worse, the receiver is dropped with the pair, so that a
  connection accepted in this mode loses its channel in the very step in which it becomes established,
  and the same pass closes it.
\<close>

theorem transparent_accept_never_delivers:
  assumes "stack_spawn S iface sockets ipv4 ipv6 = Inr st" and "stack_run S t steps (world_start st) = Some w"
    and "ns_accept (sw_stack w) = Some ch"
  shows "ch_items ch = []
    \<and> (\<forall>st1 c ts x capacity. ns_tcp st1 c = Some ts \<and> ts_connect_resp ts = None \<and> ts_from_stack_rx ts \<and> \<not> ts_established ts \<longrightarrow>
        \<not> ch_open (ns_tcp_chan (svc_establish S capacity c TcpEstablished x st1) c))"
proof
  have "accept_empty (sw_stack (world_start st))"
    using assms(1) by (auto simp: accept_empty_def world_start_def stack_spawn_def split: sum.splits)
  from accept_run [OF assms(2) this] show "ch_items ch = []" using assms(3) by (simp add: accept_empty_def)
  show "\<forall>st1 c ts x capacity. ns_tcp st1 c = Some ts \<and> ts_connect_resp ts = None \<and> ts_from_stack_rx ts \<and> \<not> ts_established ts \<longrightarrow>
        \<not> ch_open (ns_tcp_chan (svc_establish S capacity c TcpEstablished x st1) c)"
    by (auto simp: svc_establish_def tcp_handover_def close_tcp_chan_def)
qed

text \<open>A SYN from port 4660 to port 80 of the address 1.2.3.4.\<close>

definition sample_syn_packet :: bytes where
  "sample_syn_packet = [69, 0, 0, 40, 0, 0, 0, 0, 64, 6, 0, 0, 9, 9, 9, 9, 1, 2, 3, 4,
     18, 52, 0, 80, 0, 0, 0, 1, 0, 0, 0, 0, 80, 2, 255, 255, 0, 0, 0, 0]"

lemma sample_syn_parsed:
  "is_tcp_syn sample_syn_packet = Some True" "parse_tcp_syn sample_syn_packet = Some (Some (0x01020304, 80, 0x09090909, 4660))"
  by (simp_all add: is_tcp_syn_def parse_tcp_syn_def sample_syn_packet_def idx_def slice_from_def slice_of_def field16_def be_u16_def
      v4_of_bytes_def be_val_def)

lemma svc_recv_closed: "\<not> ch_open (ns_tcp_chan st c) \<Longrightarrow> svc_recv (numeral k) S capacity c h st = Some (False, True, st)"
  by (simp add: numeral_eq_Suc)

theorem transparent_accept_never_delivers_witness:
  "\<exists>st w ch. stack_spawn sample_smol () [] [] [] = Inr st
    \<and> stack_run sample_smol sample_tuning (map sample_round [CmdEv EnableAccept, InboundEv sample_syn_packet [], TimerEv]) (world_start st) = Some w
    \<and> ns_accept (sw_stack w) = Some ch \<and> ch_items ch = []"
proof -
  obtain st where st: "stack_spawn sample_smol () [] [] [] = Inr st" using sample_spawn by blast
  then have st_eq: "Inr st = (Inr \<lparr>ns_iface = (), ns_rx = [], ns_tx = [], ns_sockets = [], ns_tcp = Map.empty, ns_udp = Map.empty,
      ns_next_id = 1, ns_next_port = 49152, ns_accept = None, ns_tcp_chan = (\<lambda>_. \<lparr>ch_items = [], ch_open = False\<rparr>),
      ns_udp_chan = (\<lambda>_. \<lparr>ch_items = [], ch_open = False\<rparr>), ns_waiting = (\<lambda>_. True), ns_replies = []\<rparr> :: (unit, sample_set) net_stack result)"
    by (simp add: stack_spawn_def parse_v4_def parse_v6_def apply_addrs_def sample_smol_def)
  have "\<exists>w ch. stack_run sample_smol sample_tuning (map sample_round [CmdEv EnableAccept, InboundEv sample_syn_packet [], TimerEv]) (world_start st) = Some w
      \<and> ns_accept (sw_stack w) = Some ch"
    using st_eq
    by (simp add: sample_round_def stack_serve_def poll_stack_def world_start_def flush_tx_def on_event_def handle_cmd_def on_first_packet_def
      sample_syn_parsed listen_for_def insert_tcp_def new_tcp_socket_def service_one_def tcp_at_def svc_establish_def tcp_handover_def close_tcp_chan_def
      svc_refused_def svc_send_def svc_half_close_def svc_recv_closed svc_finish_def close_at_def set_tcp_def drop_socket_def
      sample_smol_def Let_def MAX_RECV_CHUNKS_def)
  then show ?thesis using st transparent_accept_never_delivers [OF st] by blast
qed

end
