(* ===== verification/RangeBuf.thy ===== *)
theory RangeBuf
  imports Prelude
begin

text \<open>
  Buffers at a stream offset (\<open>core/quiche/quiche/src/range_buf.rs\<close>), the receive window
  (\<open>flowcontrol.rs\<close>) and the error type (\<open>error.rs\<close>) of the QUIC library. A \<open>RangeBuf\<close> is a view of
  a shared byte vector: \<open>start\<close> and \<open>len\<close> select the slice, \<open>pos\<close> counts what was consumed of it,
  \<open>off\<close> is the stream offset of the byte at \<open>start\<close>. Offsets are natural numbers: the frame parser
  refuses data at or above offset \<open>2 ^ 62\<close>, so none of these sums reaches \<open>2 ^ 64\<close>. An \<open>Instant\<close> and a
  \<open>Duration\<close> are natural numbers, and the difference of two instants saturates at zero.
\<close>

section \<open>Errors\<close>

datatype quic_error =
    EDone
  | EBufferTooShort
  | EUnknownVersion
  | EInvalidFrame
  | EInvalidPacket
  | EInvalidState
  | EInvalidStreamState nat
  | EInvalidTransportParam
  | ECryptoFail
  | ETlsFail
  | EFlowControl
  | EStreamLimit
  | EStreamStopped nat
  | EStreamReset nat
  | EFinalSize
  | ECongestionControl
  | EIdLimit
  | EOutOfIdentifiers
  | EKeyUpdate
  | ECryptoBufferExceeded
  | EInvalidAckRange
  | EOptimisticAckDetected
  | EInvalidDcidInitialization

section \<open>Range buffers\<close>

record range_buf =
  rb_data :: bytes
  rb_start :: nat
  rb_pos :: nat
  rb_size :: nat
  rb_base :: nat
  rb_fin :: bool

definition rb_from :: "bytes \<Rightarrow> nat \<Rightarrow> bool \<Rightarrow> range_buf" where
  "rb_from buf off fin =
     \<lparr>rb_data = buf, rb_start = 0, rb_pos = 0, rb_size = length buf, rb_base = off, rb_fin = fin\<rparr>"

definition rb_off :: "range_buf \<Rightarrow> nat" where
  "rb_off b = (rb_base b - rb_start b) + rb_pos b"

definition rb_len :: "range_buf \<Rightarrow> nat" where
  "rb_len b = rb_size b - (rb_pos b - rb_start b)"

definition rb_max_off :: "range_buf \<Rightarrow> nat" where
  "rb_max_off b = rb_off b + rb_len b"

definition rb_is_empty :: "range_buf \<Rightarrow> bool" where
  "rb_is_empty b \<longleftrightarrow> rb_len b = 0"

definition rb_consume :: "nat \<Rightarrow> range_buf \<Rightarrow> range_buf" where
  "rb_consume count b = b\<lparr>rb_pos := rb_pos b + count\<rparr>"

text \<open>The buffer that stays and the one that is split off; the assertion may panic.\<close>

definition rb_split_off :: "nat \<Rightarrow> range_buf \<Rightarrow> (range_buf \<times> range_buf) rust" where
  "rb_split_off at b =
     (if at \<le> rb_size b
      then Some (b\<lparr>rb_pos := min (rb_pos b) (rb_start b + at), rb_size := at, rb_fin := False\<rparr>,
                 \<lparr>rb_data = rb_data b, rb_start = rb_start b + at, rb_pos = max (rb_pos b) (rb_start b + at),
                  rb_size = rb_size b - at, rb_base = rb_base b + at, rb_fin = rb_fin b\<rparr>)
      else None)"

definition rb_deref :: "range_buf \<Rightarrow> bytes rust" where
  "rb_deref b = slice_of (rb_data b) (rb_pos b) (rb_start b + rb_size b)"

text \<open>
  The view lies inside the vector. A buffer on the stream \<open>stream\<close> holds the bytes of that stream at
  its offsets, those already consumed included.
\<close>

definition rb_wf :: "range_buf \<Rightarrow> bool" where
  "rb_wf b \<longleftrightarrow> rb_start b \<le> rb_pos b \<and> rb_pos b \<le> rb_start b + rb_size b
     \<and> rb_start b + rb_size b \<le> length (rb_data b) \<and> rb_start b \<le> rb_base b"

definition rb_of :: "(nat \<Rightarrow> u8) \<Rightarrow> range_buf \<Rightarrow> bool" where
  "rb_of stream b \<longleftrightarrow> (\<forall>i < rb_size b. rb_data b ! (rb_start b + i) = stream (rb_base b + i))"

abbreviation rb_fresh :: "range_buf \<Rightarrow> bool" where
  "rb_fresh b \<equiv> rb_pos b = rb_start b"

lemmas rb_defs = rb_off_def rb_len_def rb_max_off_def rb_wf_def rb_is_empty_def

lemma rb_from_simps [simp]:
  "rb_off (rb_from buf off fin) = off" "rb_len (rb_from buf off fin) = length buf"
  "rb_max_off (rb_from buf off fin) = off + length buf" "rb_fin (rb_from buf off fin) = fin"
  "rb_wf (rb_from buf off fin)" "rb_fresh (rb_from buf off fin)"
  by (simp_all add: rb_defs rb_from_def)

lemma rb_of_from: "\<forall>i < length buf. buf ! i = stream (off + i) \<Longrightarrow> rb_of stream (rb_from buf off fin)"
  by (simp add: rb_of_def rb_from_def)

text \<open>The bytes of the view are those of the stream between its offsets.\<close>

definition stream_range :: "(nat \<Rightarrow> u8) \<Rightarrow> nat \<Rightarrow> nat \<Rightarrow> bytes" where
  "stream_range stream a b = map stream [a..<b]"

lemma stream_range_append: "a \<le> b \<Longrightarrow> b \<le> c \<Longrightarrow> stream_range stream a b @ stream_range stream b c = stream_range stream a c"
  by (metis stream_range_def map_append upt_add_eq_append le_add_diff_inverse)

lemma length_stream_range [simp]: "length (stream_range stream a b) = b - a"
  by (simp add: stream_range_def)

lemma rb_deref_of:
  assumes "rb_wf b" and "rb_of stream b"
  shows "rb_deref b = Some (stream_range stream (rb_off b) (rb_max_off b))"
proof -
  obtain d where d: "rb_pos b = rb_start b + d" "d \<le> rb_size b"
    using assms(1) unfolding rb_wf_def by (metis add_le_cancel_left le_iff_add)
  have off: "rb_off b = rb_base b + d" "rb_max_off b = rb_base b + rb_size b"
    using assms(1) d by (auto simp: rb_defs)
  have "take (rb_size b - d) (drop (rb_start b + d) (rb_data b)) = stream_range stream (rb_off b) (rb_max_off b)"
  proof (rule nth_equalityI)
    show "length (take (rb_size b - d) (drop (rb_start b + d) (rb_data b)))
        = length (stream_range stream (rb_off b) (rb_max_off b))"
      using assms(1) d off by (auto simp: rb_wf_def)
    fix i assume "i < length (take (rb_size b - d) (drop (rb_start b + d) (rb_data b)))"
    then have i: "d + i < rb_size b" "i < rb_size b - d" by auto
    have "rb_start b + d + i < length (rb_data b)" using i assms(1) by (simp add: rb_wf_def)
    moreover have "rb_data b ! (rb_start b + (d + i)) = stream (rb_base b + (d + i))"
      using assms(2) i by (simp add: rb_of_def)
    ultimately show "take (rb_size b - d) (drop (rb_start b + d) (rb_data b)) ! i
        = stream_range stream (rb_off b) (rb_max_off b) ! i"
      using i by (simp add: stream_range_def off add.assoc)
  qed
  with assms(1) d show ?thesis by (simp add: rb_deref_def slice_of_def rb_wf_def)
qed

lemma rb_consume_simps:
  assumes "rb_wf b" and "n \<le> rb_len b"
  shows "rb_wf (rb_consume n b)" and "rb_off (rb_consume n b) = rb_off b + n"
    and "rb_max_off (rb_consume n b) = rb_max_off b" and "rb_len (rb_consume n b) = rb_len b - n"
  using assms by (auto simp: rb_defs rb_consume_def)

lemma rb_of_consume [simp]: "rb_of stream (rb_consume n b) = rb_of stream b"
  by (simp add: rb_of_def rb_consume_def)

text \<open>Splitting a fresh buffer.\<close>

lemma rb_split_fresh:
  assumes "rb_wf b" and "rb_fresh b" and "at \<le> rb_len b"
  shows "\<exists>front rest. rb_split_off at b = Some (front, rest) \<and> rb_wf front \<and> rb_fresh front
    \<and> rb_off front = rb_off b \<and> rb_max_off front = rb_off b + at \<and> rb_len front = at
    \<and> rb_wf rest \<and> rb_fresh rest \<and> rb_off rest = rb_off b + at \<and> rb_max_off rest = rb_max_off b
    \<and> rb_len rest = rb_len b - at \<and> (\<forall>stream. rb_of stream b \<longrightarrow> rb_of stream front \<and> rb_of stream rest)
    \<and> rb_fin front = False \<and> rb_fin rest = rb_fin b"
proof -
  let ?f = "b\<lparr>rb_pos := min (rb_pos b) (rb_start b + at), rb_size := at, rb_fin := False\<rparr>"
  let ?g = "\<lparr>rb_data = rb_data b, rb_start = rb_start b + at, rb_pos = max (rb_pos b) (rb_start b + at),
                  rb_size = rb_size b - at, rb_base = rb_base b + at, rb_fin = rb_fin b\<rparr>"
  have "rb_of stream ?f \<and> rb_of stream ?g" if "rb_of stream b" for stream
  proof -
    have "rb_data b ! (rb_start b + (at + i)) = stream (rb_base b + (at + i))" if "i < rb_size b - at" for i
      using \<open>rb_of stream b\<close> that by (simp add: rb_of_def)
    then show ?thesis using that assms by (auto simp: rb_of_def rb_defs add.assoc)
  qed
  then show ?thesis
    using assms by (intro exI [of _ ?f] exI [of _ ?g]) (auto simp: rb_split_off_def rb_defs)
qed

text \<open>The end of a buffer does not depend on what was consumed; splitting a buffer in use.\<close>

lemma rb_max_off_wf: "rb_wf b \<Longrightarrow> rb_max_off b = rb_base b + rb_size b"
  by (auto simp: rb_defs)

lemma rb_split_used:
  assumes "rb_wf b" and "0 < at" and "at < rb_size b"
  shows "\<exists>front rest. rb_split_off at b = Some (front, rest) \<and> rb_wf front \<and> rb_wf rest
    \<and> rb_base front = rb_base b \<and> rb_size front = at \<and> rb_base rest = rb_base b + at \<and> rb_size rest = rb_size b - at
    \<and> rb_len front + rb_len rest = rb_len b
    \<and> (\<forall>stream. rb_of stream b \<longrightarrow> rb_of stream front \<and> rb_of stream rest)"
proof -
  have "rb_of stream (b\<lparr>rb_pos := p, rb_size := at, rb_fin := False\<rparr>) \<and>
      rb_of stream \<lparr>rb_data = rb_data b, rb_start = rb_start b + at, rb_pos = q,
        rb_size = rb_size b - at, rb_base = rb_base b + at, rb_fin = rb_fin b\<rparr>" if "rb_of stream b" for stream p q
  proof -
    have "rb_data b ! (rb_start b + (at + i)) = stream (rb_base b + (at + i))" if "i < rb_size b - at" for i
      using \<open>rb_of stream b\<close> that by (simp add: rb_of_def)
    then show ?thesis using that assms by (auto simp: rb_of_def add.assoc)
  qed
  then show ?thesis using assms by (auto simp: rb_split_off_def rb_defs)
qed

end
