(* ===== verification/FlowControl.thy ===== *)
theory FlowControl
  imports RangeBuf
begin

text \<open>
  The receive window of \<open>core/quiche/quiche/src/flowcontrol.rs\<close>, one per stream and one per
  connection. Every addition and multiplication of \<open>u64\<close> values is written modulo \<open>2 ^ 64\<close>, as in
  a release build. The lemmas show that the window stays below its maximum, that the limit is
  raised only, and that an update always leaves a full window of credit.
\<close>

definition WINDOW_INCREASE_FACTOR :: nat where
  "WINDOW_INCREASE_FACTOR = 2"

definition WINDOW_TRIGGER_FACTOR :: nat where
  "WINDOW_TRIGGER_FACTOR = 2"

record flow_control =
  fc_consumed :: nat
  fc_max_data :: nat
  fc_window :: nat
  fc_max_window :: nat
  fc_last_update :: "nat option"

definition u64_mod :: nat where
  "u64_mod = 18446744073709551616"

definition fc_new :: "nat \<Rightarrow> nat \<Rightarrow> nat \<Rightarrow> flow_control" where
  "fc_new max_data window max_window =
     \<lparr>fc_consumed = 0, fc_max_data = max_data, fc_window = min window max_window,
      fc_max_window = max_window, fc_last_update = None\<rparr>"

definition fc_add_consumed :: "nat \<Rightarrow> flow_control \<Rightarrow> flow_control" where
  "fc_add_consumed n fc = fc\<lparr>fc_consumed := (fc_consumed fc + n) mod u64_mod\<rparr>"

definition fc_should_update_max_data :: "flow_control \<Rightarrow> bool" where
  "fc_should_update_max_data fc \<longleftrightarrow>
     (fc_max_data fc + u64_mod - fc_consumed fc) mod u64_mod < fc_window fc div 2"

definition fc_max_data_next :: "flow_control \<Rightarrow> nat" where
  "fc_max_data_next fc = (fc_consumed fc + fc_window fc) mod u64_mod"

definition fc_update_max_data :: "nat \<Rightarrow> flow_control \<Rightarrow> flow_control" where
  "fc_update_max_data now fc = fc\<lparr>fc_max_data := fc_max_data_next fc, fc_last_update := Some now\<rparr>"

definition fc_set_window :: "nat \<Rightarrow> flow_control \<Rightarrow> flow_control" where
  "fc_set_window window fc = fc\<lparr>fc_window := min window (fc_max_window fc)\<rparr>"

definition fc_autotune_window :: "nat \<Rightarrow> nat \<Rightarrow> flow_control \<Rightarrow> flow_control" where
  "fc_autotune_window now rtt fc =
     (case fc_last_update fc of
        None \<Rightarrow> fc
      | Some last_update \<Rightarrow>
          if now - last_update < rtt * WINDOW_TRIGGER_FACTOR
          then fc_set_window ((fc_window fc * WINDOW_INCREASE_FACTOR) mod u64_mod) fc
          else fc)"

definition fc_ensure_window_lower_bound :: "nat \<Rightarrow> flow_control \<Rightarrow> flow_control" where
  "fc_ensure_window_lower_bound min_window fc =
     (if min_window > fc_window fc then fc_set_window min_window fc else fc)"

text \<open>
  The window is at most its maximum, what was consumed was allowed, and the sums stay below
  \<open>2 ^ 62\<close>, the largest value a MAX_DATA frame can carry.
\<close>

definition fc_inv :: "flow_control \<Rightarrow> bool" where
  "fc_inv fc \<longleftrightarrow> fc_window fc \<le> fc_max_window fc \<and> fc_consumed fc \<le> fc_max_data fc
     \<and> fc_max_data fc < 4611686018427387904 \<and> fc_max_window fc < 4611686018427387904"

lemma fc_new_inv:
  "max_data < 4611686018427387904 \<Longrightarrow> max_window < 4611686018427387904 \<Longrightarrow> fc_inv (fc_new max_data window max_window)"
  by (simp add: fc_inv_def fc_new_def)

text \<open>Consumption within the limit, and an update that the code makes, keep the invariant.\<close>

lemma fc_add_consumed_inv:
  "fc_inv fc \<Longrightarrow> fc_consumed fc + n \<le> fc_max_data fc \<Longrightarrow>
     fc_inv (fc_add_consumed n fc) \<and> fc_consumed (fc_add_consumed n fc) = fc_consumed fc + n
     \<and> fc_max_data (fc_add_consumed n fc) = fc_max_data fc"
  by (simp add: fc_inv_def fc_add_consumed_def u64_mod_def)

lemma fc_should_update_iff:
  "fc_inv fc \<Longrightarrow> fc_should_update_max_data fc \<longleftrightarrow> fc_max_data fc - fc_consumed fc < fc_window fc div 2"
proof -
  assume inv: "fc_inv fc"
  then have "fc_max_data fc + u64_mod - fc_consumed fc = (fc_max_data fc - fc_consumed fc) + u64_mod"
    by (simp add: fc_inv_def)
  moreover have "fc_max_data fc - fc_consumed fc < u64_mod" using inv
    by (intro le_less_trans [OF diff_le_self]) (simp add: fc_inv_def u64_mod_def)
  ultimately show ?thesis by (simp only: fc_should_update_max_data_def mod_add_self2 mod_less)
qed

lemma fc_update_raises:
  assumes "fc_inv fc" and "fc_should_update_max_data fc"
  shows "fc_max_data fc < fc_max_data (fc_update_max_data now fc)"
    and "fc_max_data (fc_update_max_data now fc) - fc_consumed (fc_update_max_data now fc) = fc_window fc"
    and "\<not> fc_should_update_max_data (fc_update_max_data now fc)"
proof -
  have lt: "fc_consumed fc + fc_window fc < u64_mod" using assms(1) by (simp add: fc_inv_def u64_mod_def)
  have up: "fc_max_data fc - fc_consumed fc < fc_window fc div 2" using assms fc_should_update_iff by blast
  then show "fc_max_data fc < fc_max_data (fc_update_max_data now fc)"
    using lt assms(1) by (simp add: fc_update_max_data_def fc_max_data_next_def fc_inv_def)
  show "fc_max_data (fc_update_max_data now fc) - fc_consumed (fc_update_max_data now fc) = fc_window fc"
    using lt by (simp add: fc_update_max_data_def fc_max_data_next_def)
  show "\<not> fc_should_update_max_data (fc_update_max_data now fc)"
    using lt div_le_dividend [of "fc_window fc" 2]
    by (simp add: fc_update_max_data_def fc_max_data_next_def fc_should_update_max_data_def del: div_le_dividend)
qed

lemma fc_autotune_inv:
  assumes "fc_inv fc"
  shows "fc_inv (fc_autotune_window now rtt fc)" and "fc_window fc \<le> fc_window (fc_autotune_window now rtt fc)"
  using assms
  by (auto simp: fc_autotune_window_def fc_set_window_def fc_inv_def u64_mod_def WINDOW_INCREASE_FACTOR_def
      split: option.splits)

lemma fc_ensure_window_inv:
  assumes "fc_inv fc"
  shows "fc_inv (fc_ensure_window_lower_bound w fc)"
    and "min w (fc_max_window fc) \<le> fc_window (fc_ensure_window_lower_bound w fc)"
  using assms by (auto simp: fc_ensure_window_lower_bound_def fc_set_window_def fc_inv_def)

end
