(* ===== verification/RecvBuf.thy ===== *)
theory RecvBuf
  imports FlowControl
begin

text \<open>
  The receive side of a QUIC stream (\<open>core/quiche/quiche/src/stream/recv_buf.rs\<close>): chunks that arrive
  in any order, with overlaps and repetitions, are kept in a \<open>BTreeMap\<close> from their end offset and read
  in order. An operation that returns a \<open>Result\<close> yields the sum and the new state, inside the option
  whose \<open>None\<close> is a panic or, for the loop over the temporary queue, a run that does not end.

  The theory fixes a stream, a function from offsets to bytes, and shows for any sequence of
  operations that the chunks are disjoint pieces of the stream, that a write makes exactly the
  offsets of its buffer available, and that reads yield the bytes of the stream in order.
\<close>

type_synonym chunks = "(nat \<times> range_buf) list"

record recv_buf =
  rcv_data :: chunks
  rcv_off :: nat
  rcv_len :: nat
  rcv_flow :: flow_control
  rcv_fin_off :: "nat option"
  rcv_error :: "nat option"
  rcv_drain :: bool

definition recv_new :: "nat \<Rightarrow> nat \<Rightarrow> nat \<Rightarrow> recv_buf" where
  "recv_new max_data initial_window max_window =
     \<lparr>rcv_data = [], rcv_off = 0, rcv_len = 0, rcv_flow = fc_new max_data initial_window max_window,
      rcv_fin_off = None, rcv_error = None, rcv_drain = False\<rparr>"

section \<open>Writing\<close>

text \<open>
  The inner loop of \<open>write\<close> over the chunks that end at or after the buffer: what is left of the buffer,
  or \<open>None\<close> for \<open>continue 'tmp\<close> when a chunk contains it, and the queue.
\<close>

fun recv_overlap :: "range_buf list \<Rightarrow> range_buf \<Rightarrow> range_buf list \<Rightarrow> (range_buf option \<times> range_buf list) rust" where
  "recv_overlap [] buf tmp = Some (Some buf, tmp)"
| "recv_overlap (b # bs) buf tmp =
     (let off = rb_off buf in
      if rb_off b > rb_max_off buf then Some (Some buf, tmp)
      else if off \<ge> rb_off b \<and> rb_max_off buf \<le> rb_max_off b then Some (None, tmp)
      else do {
        buf \<leftarrow> (if off \<ge> rb_off b \<and> off < rb_max_off b
               then map_option snd (rb_split_off (rb_max_off b - off) buf) else Some buf);
        (buf, tmp) \<leftarrow> (if off < rb_off b \<and> rb_max_off buf > rb_off b
               then map_option (\<lambda>(front, rest). (front, tmp @ [rest])) (rb_split_off (rb_off b - off) buf)
               else Some (buf, tmp));
        recv_overlap bs buf tmp
      })"

definition recv_store :: "range_buf \<Rightarrow> recv_buf \<Rightarrow> recv_buf" where
  "recv_store buf st =
     (let st = st\<lparr>rcv_len := max (rcv_len st) (rb_max_off buf)\<rparr> in
      if \<not> rcv_drain st then st\<lparr>rcv_data := btm_insert (rb_max_off buf) buf (rcv_data st)\<rparr>
      else st\<lparr>rcv_off := rcv_len st\<rparr>)"

text \<open>The head of the outer loop: discard what was already read.\<close>

definition recv_discard_front :: "range_buf \<Rightarrow> recv_buf \<Rightarrow> range_buf rust" where
  "recv_discard_front buf st =
     (if rcv_off st > rb_off buf
      then map_option snd (rb_split_off (rcv_off st - rb_off buf) buf) else Some buf)"

partial_function (option) recv_tmp :: "range_buf list \<Rightarrow> recv_buf \<Rightarrow> recv_buf option" where
  "recv_tmp tmp_bufs st =
     (case tmp_bufs of
        [] \<Rightarrow> Some st
      | buf # tmp \<Rightarrow>
          do { buf \<leftarrow> recv_discard_front buf st;
               (kept, tmp) \<leftarrow> (if rb_off buf < rcv_len st \<or> rb_is_empty buf
                     then recv_overlap (map snd (filter (\<lambda>(k, _). rb_off buf \<le> k) (rcv_data st))) buf tmp
                     else Some (Some buf, tmp));
               (case kept of
                  None \<Rightarrow> recv_tmp tmp st
                | Some buf \<Rightarrow> recv_tmp tmp (recv_store buf st)) })"

definition recv_write :: "range_buf \<Rightarrow> recv_buf \<Rightarrow> ((quic_error + unit) \<times> recv_buf) rust" where
  "recv_write buf st =
     (if rb_max_off buf > fc_max_data (rcv_flow st) then Some (Inl EFlowControl, st)
      else if (case rcv_fin_off st of
                 Some fin_off \<Rightarrow> rb_max_off buf > fin_off \<or> rb_fin buf \<and> fin_off \<noteq> rb_max_off buf
               | None \<Rightarrow> False) then Some (Inl EFinalSize, st)
      else if rb_fin buf \<and> rb_max_off buf < rcv_len st then Some (Inl EFinalSize, st)
      else if rcv_fin_off st \<noteq> None \<and> rb_is_empty buf then Some (Inr (), st)
      else
        (let st = (if rb_fin buf then st\<lparr>rcv_fin_off := Some (rb_max_off buf)\<rparr> else st) in
         if \<not> rb_fin buf \<and> rb_is_empty buf then Some (Inr (), st)
         else if rcv_off st \<ge> rb_max_off buf \<and> \<not> rb_is_empty buf then Some (Inr (), st)
         else map_option (Pair (Inr ())) (recv_tmp [buf] st)))"

section \<open>Reading\<close>

datatype recv_action = Emit nat | Discard nat

definition recv_ready :: "recv_buf \<Rightarrow> bool" where
  "recv_ready st = (case rcv_data st of [] \<Rightarrow> False | (_, buf) # _ \<Rightarrow> rb_off buf = rcv_off st)"

definition recv_is_fin :: "recv_buf \<Rightarrow> bool" where
  "recv_is_fin st \<longleftrightarrow> rcv_fin_off st = Some (rcv_off st)"

text \<open>The loop of \<open>emit_or_discard\<close>: the bytes put into \<open>out\<close>, their number, and what is left.\<close>

fun emit_loop :: "bool \<Rightarrow> nat \<Rightarrow> chunks \<Rightarrow> nat \<Rightarrow> (bytes \<times> nat \<times> chunks \<times> nat) rust" where
  "emit_loop emit capacity [] off = Some ([], 0, [], off)"
| "emit_loop emit capacity ((k, buf) # data) off =
     (if capacity > 0 \<and> rb_off buf = off then
        (let buf_len = min (rb_len buf) capacity in
         do { out \<leftarrow> (if emit then do { bs \<leftarrow> rb_deref buf; slice_of bs 0 buf_len } else Some []);
              if buf_len < rb_len buf then Some (out, buf_len, (k, rb_consume buf_len buf) # data, off + buf_len)
              else do { (out', len, data', off') \<leftarrow> emit_loop emit (capacity - buf_len) data (off + buf_len);
                        Some (out @ out', buf_len + len, data', off') } })
      else Some ([], 0, (k, buf) # data, off))"

definition recv_emit_or_discard ::
  "recv_action \<Rightarrow> recv_buf \<Rightarrow> ((quic_error + bytes \<times> nat \<times> bool) \<times> recv_buf) rust" where
  "recv_emit_or_discard action st =
     (if \<not> recv_ready st then Some (Inl EDone, st)
      else (case rcv_error st of
        Some e \<Rightarrow> Some (Inl (EStreamReset e), st\<lparr>rcv_data := []\<rparr>)
      | None \<Rightarrow>
          do { (out, len, data, off) \<leftarrow>
                 (case action of
                    Emit n \<Rightarrow> emit_loop True n (rcv_data st) (rcv_off st)
                  | Discard n \<Rightarrow> emit_loop False n (rcv_data st) (rcv_off st));
               let st = st\<lparr>rcv_data := data, rcv_off := off, rcv_flow := fc_add_consumed len (rcv_flow st)\<rparr>;
               Some (Inr (out, len, recv_is_fin st), st) }))"

definition recv_emit :: "nat \<Rightarrow> recv_buf \<Rightarrow> ((quic_error + bytes \<times> nat \<times> bool) \<times> recv_buf) rust" where
  "recv_emit n st = recv_emit_or_discard (Emit n) st"

section \<open>Reset and shutdown\<close>

record recv_reset_return =
  max_data_delta :: nat
  consumed_flowcontrol :: nat

definition recv_reset :: "nat \<Rightarrow> nat \<Rightarrow> recv_buf \<Rightarrow> ((quic_error + recv_reset_return) \<times> recv_buf) rust" where
  "recv_reset error_code final_size st =
     (if (case rcv_fin_off st of Some fin_off \<Rightarrow> fin_off \<noteq> final_size | None \<Rightarrow> False)
      then Some (Inl EFinalSize, st)
      else if final_size < rcv_len st then Some (Inl EFinalSize, st)
      else if rcv_error st \<noteq> None
      then Some (Inr \<lparr>max_data_delta = 0, consumed_flowcontrol = 0\<rparr>, st)
      else
        (let result = \<lparr>max_data_delta = final_size - rcv_len st,
                       consumed_flowcontrol = final_size - rcv_off st\<rparr>;
             st = st\<lparr>rcv_error := Some error_code, rcv_off := final_size, rcv_data := []\<rparr>
         in do { (r, st) \<leftarrow> recv_write (rb_from [] final_size True) st;
                 Some (case r of Inl e \<Rightarrow> (Inl e, st) | Inr _ \<Rightarrow> (Inr result, st)) }))"

definition recv_shutdown :: "recv_buf \<Rightarrow> (quic_error + nat) \<times> recv_buf" where
  "recv_shutdown st =
     (if rcv_drain st then (Inl EDone, st)
      else (Inr (rcv_len st - rcv_off st),
            st\<lparr>rcv_drain := True, rcv_data := [], rcv_off := rcv_len st\<rparr>))"

definition recv_almost_full :: "recv_buf \<Rightarrow> bool" where
  "recv_almost_full st \<longleftrightarrow> rcv_fin_off st = None \<and> fc_should_update_max_data (rcv_flow st)"

definition recv_update_max_data :: "nat \<Rightarrow> recv_buf \<Rightarrow> recv_buf" where
  "recv_update_max_data now st = st\<lparr>rcv_flow := fc_update_max_data now (rcv_flow st)\<rparr>"

definition recv_autotune_window :: "nat \<Rightarrow> nat \<Rightarrow> recv_buf \<Rightarrow> recv_buf" where
  "recv_autotune_window now rtt st = st\<lparr>rcv_flow := fc_autotune_window now rtt (rcv_flow st)\<rparr>"

section \<open>Overlaps\<close>

definition rb_set :: "range_buf \<Rightarrow> nat set" where
  "rb_set b = {rb_off b..<rb_max_off b}"

definition rbs_set :: "range_buf list \<Rightarrow> nat set" where
  "rbs_set bs = (\<Union>b\<in>set bs. rb_set b)"

lemma rbs_set_simps [simp]:
  "rbs_set [] = {}" "rbs_set (b # bs) = rb_set b \<union> rbs_set bs" "rbs_set (bs @ cs) = rbs_set bs \<union> rbs_set cs"
  by (auto simp: rbs_set_def)

text \<open>A non-empty piece of the stream that has not been read from.\<close>

definition piece :: "(nat \<Rightarrow> u8) \<Rightarrow> range_buf \<Rightarrow> bool" where
  "piece stream b \<longleftrightarrow> rb_wf b \<and> rb_fresh b \<and> rb_len b > 0 \<and> rb_of stream b"

lemma piece_less: "piece stream b \<Longrightarrow> rb_off b < rb_max_off b"
  by (simp add: piece_def rb_max_off_def)

lemma piece_cut:
  assumes "piece stream b" and "rb_off b < c" and "c < rb_max_off b"
  shows "\<exists>front rest. rb_split_off (c - rb_off b) b = Some (front, rest) \<and> piece stream front \<and> piece stream rest
    \<and> rb_off front = rb_off b \<and> rb_max_off front = c \<and> rb_off rest = c \<and> rb_max_off rest = rb_max_off b
    \<and> rb_len front + rb_len rest = rb_len b \<and> rb_set b = rb_set front \<union> rb_set rest"
proof -
  have at: "0 < c - rb_off b" "c - rb_off b < rb_len b" using assms(2,3) by (auto simp: rb_max_off_def)
  obtain front rest where fr: "rb_split_off (c - rb_off b) b = Some (front, rest)"
    "rb_wf front" "rb_fresh front" "rb_off front = rb_off b" "rb_max_off front = rb_off b + (c - rb_off b)"
    "rb_len front = c - rb_off b" "rb_wf rest" "rb_fresh rest" "rb_off rest = rb_off b + (c - rb_off b)"
    "rb_max_off rest = rb_max_off b" "rb_len rest = rb_len b - (c - rb_off b)" "rb_of stream front" "rb_of stream rest"
    using rb_split_fresh [of b "c - rb_off b"] assms(1) at unfolding piece_def by auto
  have "rb_set b = rb_set front \<union> rb_set rest"
    using fr assms(2,3) by (auto simp: rb_set_def)
  then show ?thesis using fr assms at by (intro exI [of _ front] exI [of _ rest]) (auto simp: piece_def)
qed

definition chunk_order :: "range_buf list \<Rightarrow> bool" where
  "chunk_order bs \<longleftrightarrow> sorted_wrt (\<lambda>b c. rb_max_off b < rb_max_off c \<and> rb_max_off b \<le> rb_off c) bs
     \<and> (\<forall>b\<in>set bs. rb_wf b)"

lemma chunk_order_Cons:
  "chunk_order (b # bs) \<longleftrightarrow> rb_wf b \<and> (\<forall>c\<in>set bs. rb_max_off b < rb_max_off c \<and> rb_max_off b \<le> rb_off c) \<and> chunk_order bs"
  by (auto simp: chunk_order_def)

lemma rb_off_le_max: "rb_off b \<le> rb_max_off b"
  by (simp add: rb_max_off_def)

text \<open>
  What the inner loop leaves: the queue grows by pieces strictly shorter in total than the buffer;
  what is kept of the buffer meets no chunk; and nothing of the buffer is lost.
\<close>

definition overlap_result ::
  "(nat \<Rightarrow> u8) \<Rightarrow> range_buf list \<Rightarrow> range_buf \<Rightarrow> range_buf option \<Rightarrow> range_buf list \<Rightarrow> bool" where
  "overlap_result stream bs buf kept extra \<longleftrightarrow>
     (\<forall>e\<in>set extra. piece stream e \<and> rb_off buf \<le> rb_off e \<and> rb_max_off e \<le> rb_max_off buf)
     \<and> sum_list (map rb_len extra) < rb_len buf
     \<and> rb_set buf \<subseteq> rbs_set bs \<union> rbs_set extra \<union> (case kept of None \<Rightarrow> {} | Some b' \<Rightarrow> rb_set b')
     \<and> (\<forall>b'. kept = Some b' \<longrightarrow> piece stream b' \<and> rb_off buf \<le> rb_off b' \<and> rb_max_off b' \<le> rb_max_off buf
          \<and> (\<forall>b\<in>set bs. rb_max_off b \<le> rb_off b' \<or> rb_max_off b' \<le> rb_off b))"

lemma recv_overlap_ok:
  assumes "chunk_order bs" and "piece stream buf" and "\<forall>b\<in>set bs. rb_off buf \<le> rb_max_off b"
  shows "\<exists>kept extra. recv_overlap bs buf tmp = Some (kept, tmp @ extra) \<and> overlap_result stream bs buf kept extra"
  using assms
proof (induction bs arbitrary: buf tmp)
  case Nil
  then show ?case by (auto simp: overlap_result_def piece_def)
next
  case (Cons b bs)
  note ord = Cons.prems(1) [unfolded chunk_order_Cons]
  have buf: "rb_off buf < rb_max_off buf" "rb_len buf = rb_max_off buf - rb_off buf"
    using piece_less [OF Cons.prems(2)] by (auto simp: rb_max_off_def)
  have key: "rb_off buf \<le> rb_max_off b" using Cons.prems(3) by simp
  consider (past) "rb_off b > rb_max_off buf"
    | (inside) "rb_off b \<le> rb_off buf" "rb_max_off buf \<le> rb_max_off b"
    | (start) "rb_off b \<le> rb_off buf" "rb_off buf < rb_max_off b" "rb_max_off b < rb_max_off buf"
    | (stop) "rb_off buf < rb_off b" "rb_off b < rb_max_off buf"
    | (apart) "rb_off b \<le> rb_max_off buf" "\<not> (rb_off b \<le> rb_off buf \<and> rb_max_off buf \<le> rb_max_off b)"
       "\<not> (rb_off b \<le> rb_off buf \<and> rb_off buf < rb_max_off b)" "\<not> (rb_off buf < rb_off b \<and> rb_off b < rb_max_off buf)"
    by linarith
  then show ?case
  proof cases
    case past
    then show ?thesis
      using Cons.prems(2) buf ord rb_off_le_max [of b] by (fastforce simp: overlap_result_def)
  next
    case inside
    then show ?thesis using buf by (auto simp: overlap_result_def rb_set_def)
  next
    case start
    obtain front rest where s: "rb_split_off (rb_max_off b - rb_off buf) buf = Some (front, rest)"
        "piece stream rest" "rb_off rest = rb_max_off b" "rb_max_off rest = rb_max_off buf"
        "rb_len rest \<le> rb_len buf" "rb_set buf = rb_set front \<union> rb_set rest"
        "rb_off front = rb_off buf" "rb_max_off front = rb_max_off b"
      using piece_cut [OF Cons.prems(2) start(2,3)] by auto
    have sub: "rb_set front \<subseteq> rb_set b" using s start by (auto simp: rb_set_def)
    obtain kept extra where ih: "recv_overlap bs rest tmp = Some (kept, tmp @ extra)" "overlap_result stream bs rest kept extra"
      using Cons.IH [of rest tmp] ord s(2,3) less_imp_le by metis
    have "recv_overlap (b # bs) buf tmp = Some (kept, tmp @ extra)"
      using start s(1) ih(1) by simp
    moreover have "overlap_result stream (b # bs) buf kept extra"
      using ih(2) s start sub unfolding overlap_result_def by auto
    ultimately show ?thesis by blast
  next
    case stop
    obtain front rest where s: "rb_split_off (rb_off b - rb_off buf) buf = Some (front, rest)"
        "piece stream front" "piece stream rest" "rb_off front = rb_off buf" "rb_max_off front = rb_off b"
        "rb_off rest = rb_off b" "rb_max_off rest = rb_max_off buf" "rb_len front + rb_len rest = rb_len buf"
        "rb_set buf = rb_set front \<union> rb_set rest"
      using piece_cut [OF Cons.prems(2) stop] by auto
    obtain kept extra where ih: "recv_overlap bs front (tmp @ [rest]) = Some (kept, (tmp @ [rest]) @ extra)"
        "overlap_result stream bs front kept extra"
      using Cons.IH [of front "tmp @ [rest]"] ord s(2,4) Cons.prems(3) by (metis list.set_intros(2))
    have "recv_overlap (b # bs) buf tmp = Some (kept, tmp @ (rest # extra))"
      using stop s(1) ih(1) by simp
    moreover have "overlap_result stream (b # bs) buf kept (rest # extra)"
      using ih(2) s stop unfolding overlap_result_def by auto
    ultimately show ?thesis by blast
  next
    case apart
    obtain kept extra where ih: "recv_overlap bs buf tmp = Some (kept, tmp @ extra)" "overlap_result stream bs buf kept extra"
      using Cons.IH [of buf tmp] ord Cons.prems by auto
    have "recv_overlap (b # bs) buf tmp = Some (kept, tmp @ extra)"
      using apart ih(1) by (auto simp: Let_def)
    moreover have "overlap_result stream (b # bs) buf kept extra"
      using ih(2) apart key unfolding overlap_result_def by auto
    ultimately show ?thesis by blast
  qed
qed

section \<open>The chunk map\<close>

abbreviation avail :: "recv_buf \<Rightarrow> nat set" where
  "avail st \<equiv> rbs_set (map snd (rcv_data st))"

definition chunks_ok :: "(nat \<Rightarrow> u8) \<Rightarrow> nat \<Rightarrow> nat \<Rightarrow> chunks \<Rightarrow> bool" where
  "chunks_ok stream off len data \<longleftrightarrow> chunk_order (map snd data)
     \<and> (\<forall>c\<in>set data. fst c = rb_max_off (snd c) \<and> rb_of stream (snd c) \<and> off \<le> rb_off (snd c)
          \<and> fst c \<le> len \<and> (rb_len (snd c) = 0 \<longrightarrow> fst c = len))"

text \<open>An empty chunk marks the end of the stream: nothing beyond \<open>hi\<close> may then exceed the length.\<close>

definition ends_by :: "recv_buf \<Rightarrow> nat \<Rightarrow> bool" where
  "ends_by st hi \<longleftrightarrow> ((\<exists>c\<in>set (rcv_data st). rb_len (snd c) = 0) \<longrightarrow> hi \<le> rcv_len st)"

lemma chunks_ok_Cons:
  "chunks_ok stream off len ((k, b) # data) \<longleftrightarrow> k = rb_max_off b \<and> rb_wf b \<and> rb_of stream b \<and> off \<le> rb_off b
     \<and> k \<le> len \<and> (rb_len b = 0 \<longrightarrow> k = len) \<and> (\<forall>c\<in>set data. k < fst c \<and> k \<le> rb_off (snd c)) \<and> chunks_ok stream off len data"
  by (simp add: chunks_ok_def chunk_order_Cons) metis

lemma set_btm_insert: "set (btm_insert k v m) \<subseteq> insert (k, v) (set m)"
  by (induction k v m rule: btm_insert.induct) auto

lemma chunks_ok_grow:
  "chunks_ok stream off len data \<Longrightarrow> len \<le> len' \<Longrightarrow> (\<forall>c\<in>set data. rb_len (snd c) = 0 \<longrightarrow> len = len') \<Longrightarrow>
     chunks_ok stream off len' data"
  by (auto simp: chunks_ok_def)

lemma rb_set_empty: "rb_len b = 0 \<Longrightarrow> rb_set b = {}"
  by (simp add: rb_set_def rb_max_off_def)

lemma btm_insert_chunks:
  assumes "chunks_ok stream off len data" and "rb_wf b" and "rb_of stream b" and "rb_len b > 0 \<or> rb_max_off b = len"
    and "off \<le> rb_off b" and "rb_max_off b \<le> len"
    and "\<forall>c\<in>set data. fst c \<le> rb_off b \<and> fst c < rb_max_off b \<or> rb_max_off b \<le> rb_off (snd c)"
  shows "chunks_ok stream off len (btm_insert (rb_max_off b) b data)"
    and "rbs_set (map snd (btm_insert (rb_max_off b) b data)) = rbs_set (map snd data) \<union> rb_set b"
proof -
  have "chunks_ok stream off len (btm_insert (rb_max_off b) b data)
    \<and> rbs_set (map snd (btm_insert (rb_max_off b) b data)) = rbs_set (map snd data) \<union> rb_set b"
    using assms(1,7)
  proof (induction data)
    case Nil
    with assms show ?case by (auto simp: chunks_ok_def chunk_order_def)
  next
    case (Cons c data)
    obtain k b' where c: "c = (k, b')" by (cases c)
    note ok = Cons.prems(1) [unfolded c chunks_ok_Cons]
    have ih: "chunks_ok stream off len (btm_insert (rb_max_off b) b data)
        \<and> rbs_set (map snd (btm_insert (rb_max_off b) b data)) = rbs_set (map snd data) \<union> rb_set b"
      using Cons ok by simp
    have sep: "k \<le> rb_off b \<and> k < rb_max_off b \<or> rb_max_off b \<le> rb_off b'" using Cons.prems(2) c by simp
    have le: "rb_off b' \<le> k" "rb_off b \<le> rb_max_off b" using ok rb_off_le_max by auto
    consider "rb_max_off b < k" | "rb_max_off b = k" | "k < rb_max_off b" by linarith
    then show ?case
    proof cases
      case 1
      then have "rb_max_off b \<le> rb_off b'" using sep le by linarith
      with 1 ok assms c show ?thesis by (fastforce simp: chunks_ok_Cons)
    next
      case 2
      then have "rb_len b' = 0" using sep le ok by (simp add: rb_max_off_def)
      with 2 ok assms c show ?thesis by (auto simp: chunks_ok_Cons rb_set_empty)
    next
      case 3
      then have "k \<le> rb_off b" using sep le by linarith
      with 3 ok ih c set_btm_insert [of "rb_max_off b" b data] show ?thesis
        by (fastforce simp: chunks_ok_Cons)
    qed
  qed
  then show "chunks_ok stream off len (btm_insert (rb_max_off b) b data)"
    and "rbs_set (map snd (btm_insert (rb_max_off b) b data)) = rbs_set (map snd data) \<union> rb_set b" by auto
qed

section \<open>The loop over the queue\<close>

definition loop_inv :: "(nat \<Rightarrow> u8) \<Rightarrow> recv_buf \<Rightarrow> bool" where
  "loop_inv stream st \<longleftrightarrow> chunks_ok stream (rcv_off st) (rcv_len st) (rcv_data st) \<and> rcv_off st \<le> rcv_len st"

definition same_frame :: "recv_buf \<Rightarrow> recv_buf \<Rightarrow> bool" where
  "same_frame st st' \<longleftrightarrow> rcv_flow st' = rcv_flow st \<and> rcv_fin_off st' = rcv_fin_off st \<and> rcv_error st' = rcv_error st
     \<and> rcv_drain st' = rcv_drain st"

lemma recv_discard_front_ok:
  assumes "piece stream buf" and "rcv_off st < rb_max_off buf"
  shows "\<exists>b. recv_discard_front buf st = Some b \<and> piece stream b \<and> rcv_off st \<le> rb_off b
    \<and> rb_off buf \<le> rb_off b \<and> rb_max_off b = rb_max_off buf \<and> rb_len b \<le> rb_len buf \<and> rb_set b = rb_set buf \<inter> {rcv_off st..}"
proof (cases "rcv_off st > rb_off buf")
  case True
  obtain front rest where s: "rb_split_off (rcv_off st - rb_off buf) buf = Some (front, rest)" "piece stream rest"
      "rb_off rest = rcv_off st" "rb_max_off rest = rb_max_off buf" "rb_len front + rb_len rest = rb_len buf"
    using piece_cut [OF assms(1) True assms(2)] by auto
  with True show ?thesis by (auto simp: recv_discard_front_def rb_set_def)
next
  case False
  with assms show ?thesis by (auto simp: recv_discard_front_def rb_set_def)
qed

text \<open>The overlap check of one round, whether or not the inner loop runs.\<close>

definition round_overlap :: "range_buf \<Rightarrow> range_buf list \<Rightarrow> recv_buf \<Rightarrow> (range_buf option \<times> range_buf list) rust" where
  "round_overlap buf tmp st =
     (if rb_off buf < rcv_len st \<or> rb_is_empty buf
      then recv_overlap (map snd (filter (\<lambda>(k, _). rb_off buf \<le> k) (rcv_data st))) buf tmp
      else Some (Some buf, tmp))"

lemma recv_tmp_Nil [simp]: "recv_tmp [] st = Some st"
  by (simp add: recv_tmp.simps)

lemma recv_tmp_Cons:
  "recv_tmp (buf # tmp) st =
     do { buf \<leftarrow> recv_discard_front buf st;
          (kept, tmp) \<leftarrow> round_overlap buf tmp st;
          (case kept of None \<Rightarrow> recv_tmp tmp st | Some buf \<Rightarrow> recv_tmp tmp (recv_store buf st)) }"
  by (subst recv_tmp.simps) (simp add: round_overlap_def)

declare recv_tmp_Nil [code] recv_tmp_Cons [code]

lemma round_overlap_ok:
  assumes inv: "loop_inv stream st" and buf: "piece stream buf" and lo: "rcv_off st \<le> rb_off buf"
  shows "\<exists>kept extra. round_overlap buf tmp st = Some (kept, tmp @ extra)
    \<and> overlap_result stream (map snd (rcv_data st)) buf kept extra"
proof (cases "rb_off buf < rcv_len st")
  case False
  have "rb_max_off (snd c) \<le> rb_off buf" if "c \<in> set (rcv_data st)" for c
    using inv that False by (fastforce simp: loop_inv_def chunks_ok_def)
  with False buf show ?thesis
    by (auto simp: round_overlap_def overlap_result_def piece_def rb_is_empty_def)
next
  case True
  let ?near = "filter (\<lambda>(k, _). rb_off buf \<le> k) (rcv_data st)"
  have keys: "fst c = rb_max_off (snd c)" if "c \<in> set (rcv_data st)" for c
    using inv that by (auto simp: loop_inv_def chunks_ok_def)
  have "chunk_order (map snd ?near)"
    using inv by (auto simp: loop_inv_def chunks_ok_def chunk_order_def sorted_wrt_map sorted_wrt_filter)
  moreover have near: "\<forall>b\<in>set (map snd ?near). rb_off buf \<le> rb_max_off b" using keys by fastforce
  ultimately obtain kept extra where r: "recv_overlap (map snd ?near) buf tmp = Some (kept, tmp @ extra)"
      "overlap_result stream (map snd ?near) buf kept extra"
    using recv_overlap_ok [OF _ buf] by blast
  have sub: "rbs_set (map snd ?near) \<subseteq> avail st" by (auto simp: rbs_set_def)
  have far: "rb_max_off (snd c) \<le> rb_off b' \<or> rb_max_off b' \<le> rb_off (snd c)"
    if "c \<in> set (rcv_data st)" "kept = Some b'" for c b'
  proof (cases "rb_off buf \<le> fst c")
    case True
    then have "snd c \<in> set (map snd ?near)" using that(1) by force
    with r(2) that(2) show ?thesis unfolding overlap_result_def by blast
  next
    case False
    with r(2) that keys [OF that(1)] show ?thesis by (auto simp: overlap_result_def)
  qed
  have "overlap_result stream (map snd (rcv_data st)) buf kept extra"
    using r(2) sub far unfolding overlap_result_def by auto
  with r(1) True show ?thesis by (auto simp: round_overlap_def)
qed

lemma recv_store_ok:
  assumes inv: "loop_inv stream st" and b: "piece stream b" "rcv_off st \<le> rb_off b" and drain: "\<not> rcv_drain st"
    and apart: "\<forall>c\<in>set (rcv_data st). rb_max_off (snd c) \<le> rb_off b \<or> rb_max_off b \<le> rb_off (snd c)"
    and ends: "ends_by st (rb_max_off b)"
  shows "loop_inv stream (recv_store b st)" and "avail (recv_store b st) = avail st \<union> rb_set b"
    and "rcv_off (recv_store b st) = rcv_off st" and "same_frame st (recv_store b st)"
    and "rcv_len (recv_store b st) = max (rcv_len st) (rb_max_off b)"
proof -
  let ?len = "max (rcv_len st) (rb_max_off b)"
  have grow: "chunks_ok stream (rcv_off st) ?len (rcv_data st)"
  proof (rule chunks_ok_grow)
    show "chunks_ok stream (rcv_off st) (rcv_len st) (rcv_data st)" using inv by (simp add: loop_inv_def)
    show "\<forall>c\<in>set (rcv_data st). rb_len (snd c) = 0 \<longrightarrow> rcv_len st = ?len"
      using ends unfolding ends_by_def by (metis max.absorb1)
  qed simp
  have keys: "fst c = rb_max_off (snd c)" if "c \<in> set (rcv_data st)" for c
    using inv that by (auto simp: loop_inv_def chunks_ok_def)
  have "\<forall>c\<in>set (rcv_data st). fst c \<le> rb_off b \<and> fst c < rb_max_off b \<or> rb_max_off b \<le> rb_off (snd c)"
  proof
    fix c assume c: "c \<in> set (rcv_data st)"
    show "fst c \<le> rb_off b \<and> fst c < rb_max_off b \<or> rb_max_off b \<le> rb_off (snd c)"
      using bspec [OF apart c] keys [OF c] piece_less [OF b(1)] by linarith
  qed
  note ins = btm_insert_chunks [OF grow _ _ _ b(2) _ this]
  show "loop_inv stream (recv_store b st)" and "avail (recv_store b st) = avail st \<union> rb_set b"
    using ins b inv drain by (auto simp: recv_store_def loop_inv_def piece_def)
  show "rcv_off (recv_store b st) = rcv_off st" and "same_frame st (recv_store b st)"
    and "rcv_len (recv_store b st) = ?len"
    using drain by (auto simp: recv_store_def same_frame_def)
qed

lemma recv_store_empties:
  "rb_len b > 0 \<Longrightarrow> c \<in> set (rcv_data (recv_store b st)) \<Longrightarrow> rb_len (snd c) = 0 \<Longrightarrow> c \<in> set (rcv_data st)"
  using set_btm_insert [of "rb_max_off b" b "rcv_data st"]
  by (auto simp: recv_store_def Let_def split: if_splits)

text \<open>One round: the loop goes on with a shorter queue and a state that together hold the same offsets.\<close>

definition queue_ok :: "(nat \<Rightarrow> u8) \<Rightarrow> nat \<Rightarrow> range_buf list \<Rightarrow> recv_buf \<Rightarrow> bool" where
  "queue_ok stream hi tmp st \<longleftrightarrow> loop_inv stream st \<and> \<not> rcv_drain st \<and> ends_by st hi
     \<and> (\<forall>e\<in>set tmp. piece stream e \<and> rcv_off st < rb_max_off e \<and> rb_max_off e \<le> hi)"

definition loop_step :: "nat \<Rightarrow> recv_buf \<Rightarrow> recv_buf \<Rightarrow> bool" where
  "loop_step hi st st' \<longleftrightarrow> same_frame st st' \<and> rcv_off st' = rcv_off st \<and> rcv_len st \<le> rcv_len st'
     \<and> rcv_len st' \<le> max (rcv_len st) hi
     \<and> (\<forall>c\<in>set (rcv_data st'). rb_len (snd c) = 0 \<longrightarrow> c \<in> set (rcv_data st))"

lemma loop_step_refl: "loop_step hi st st"
  by (simp add: loop_step_def same_frame_def)

lemma loop_step_trans: "loop_step hi st st' \<Longrightarrow> loop_step hi st' st'' \<Longrightarrow> loop_step hi st st''"
  by (auto simp: loop_step_def same_frame_def)

lemma recv_round_store:
  assumes inv: "queue_ok stream hi tmp st" and b': "piece stream b'" "rcv_off st \<le> rb_off b'" "rb_max_off b' \<le> hi"
    and apart: "\<forall>c\<in>set (rcv_data st). rb_max_off (snd c) \<le> rb_off b' \<or> rb_max_off b' \<le> rb_off (snd c)"
  shows "queue_ok stream hi tmp (recv_store b' st)" and "loop_step hi st (recv_store b' st)"
    and "avail (recv_store b' st) = avail st \<union> rb_set b'"
proof -
  have st: "loop_inv stream st" "\<not> rcv_drain st" "ends_by st hi" using inv by (simp_all add: queue_ok_def)
  have "ends_by st (rb_max_off b')" using st(3) b'(3) by (auto simp: ends_by_def)
  note st1 = recv_store_ok [OF st(1) b'(1,2) st(2) apart this]
  have b'_len: "rb_len b' > 0" using b'(1) by (simp add: piece_def)
  note emp = recv_store_empties [OF b'_len]
  have "ends_by (recv_store b' st) hi"
    using st(3) st1(5) unfolding ends_by_def by (metis emp le_max_iff_disj)
  moreover have "\<not> rcv_drain (recv_store b' st)" using st1(4) st(2) by (simp add: same_frame_def)
  ultimately show "queue_ok stream hi tmp (recv_store b' st)" using st1(1,3) inv by (simp add: queue_ok_def)
  show "loop_step hi st (recv_store b' st)" using st1(3-5) b'(3) emp by (auto simp: loop_step_def)
  show "avail (recv_store b' st) = avail st \<union> rb_set b'" by (rule st1(2))
qed

lemma recv_round:
  assumes "queue_ok stream hi (buf # rest) st"
  shows "\<exists>tmp' st'. recv_tmp (buf # rest) st = recv_tmp tmp' st' \<and> queue_ok stream hi tmp' st' \<and> loop_step hi st st'
    \<and> sum_list (map rb_len tmp') < sum_list (map rb_len (buf # rest))
    \<and> avail st' \<union> (rbs_set tmp' \<inter> {rcv_off st..}) = avail st \<union> (rbs_set (buf # rest) \<inter> {rcv_off st..})"
proof -
  have buf: "piece stream buf" "rcv_off st < rb_max_off buf" "rb_max_off buf \<le> hi" "loop_inv stream st"
    using assms by (simp_all add: queue_ok_def)
  obtain b where b: "recv_discard_front buf st = Some b" "piece stream b" "rcv_off st \<le> rb_off b"
      "rb_off buf \<le> rb_off b" "rb_max_off b = rb_max_off buf" "rb_len b \<le> rb_len buf"
      "rb_set b = rb_set buf \<inter> {rcv_off st..}"
    using recv_discard_front_ok [OF buf(1,2)] by blast
  obtain kept extra where r: "round_overlap b rest st = Some (kept, rest @ extra)"
      "overlap_result stream (map snd (rcv_data st)) b kept extra"
    using round_overlap_ok [OF buf(4) b(2,3)] by blast
  have extra: "\<forall>e\<in>set extra. piece stream e \<and> rb_off b \<le> rb_off e \<and> rb_max_off e \<le> rb_max_off b"
    and len: "sum_list (map rb_len (rest @ extra)) < sum_list (map rb_len (buf # rest))"
    using r(2) b(6) by (auto simp: overlap_result_def)
  have queue: "queue_ok stream hi (rest @ extra) st"
    using assms extra b(3,5) buf(3) piece_less by (fastforce simp: queue_ok_def)
  have sub: "rbs_set extra \<subseteq> rb_set b" using extra by (fastforce simp: rbs_set_def rb_set_def)
  show ?thesis
  proof (cases kept)
    case None
    have "rb_set b \<subseteq> avail st \<union> rbs_set extra" using r(2) None by (simp add: overlap_result_def)
    then have "avail st \<union> (rbs_set (rest @ extra) \<inter> {rcv_off st..}) = avail st \<union> (rbs_set (buf # rest) \<inter> {rcv_off st..})"
      using sub b(7) by auto
    with queue len b(1) r(1) None loop_step_refl show ?thesis
      by (intro exI [of _ "rest @ extra"] exI [of _ st]) (simp add: recv_tmp_Cons)
  next
    case (Some b')
    have b': "piece stream b'" "rb_off b \<le> rb_off b'" "rb_max_off b' \<le> rb_max_off b"
        "\<forall>c\<in>set (rcv_data st). rb_max_off (snd c) \<le> rb_off b' \<or> rb_max_off b' \<le> rb_off (snd c)"
        "rb_set b \<subseteq> avail st \<union> rbs_set extra \<union> rb_set b'"
      using r(2) Some by (auto simp: overlap_result_def)
    have "rcv_off st \<le> rb_off b'" "rb_max_off b' \<le> hi" using b(3,5) b'(2,3) buf(3) by auto
    note st1 = recv_round_store [OF queue b'(1) this b'(4)]
    have "rb_set b' \<subseteq> rb_set b" using b' by (auto simp: rb_set_def)
    then have "avail st \<union> rb_set b' \<union> (rbs_set (rest @ extra) \<inter> {rcv_off st..})
        = avail st \<union> (rbs_set (buf # rest) \<inter> {rcv_off st..})"
      using b'(5) sub b(7) by auto
    with st1 len b(1) r(1) Some show ?thesis
      by (intro exI [of _ "rest @ extra"] exI [of _ "recv_store b' st"]) (simp add: recv_tmp_Cons)
  qed
qed

text \<open>The loop ends, and makes exactly the offsets of the queue available.\<close>

lemma recv_tmp_ok:
  assumes "queue_ok stream hi tmp st"
  shows "\<exists>st'. recv_tmp tmp st = Some st' \<and> loop_inv stream st' \<and> loop_step hi st st'
    \<and> avail st' = avail st \<union> (rbs_set tmp \<inter> {rcv_off st..})"
  using assms
proof (induction "sum_list (map rb_len tmp)" arbitrary: tmp st rule: less_induct)
  case less
  show ?case
  proof (cases tmp)
    case Nil
    with less.prems show ?thesis by (simp add: queue_ok_def loop_step_refl)
  next
    case (Cons buf rest)
    obtain tmp' st' where r: "recv_tmp tmp st = recv_tmp tmp' st'" "queue_ok stream hi tmp' st'" "loop_step hi st st'"
      "sum_list (map rb_len tmp') < sum_list (map rb_len tmp)"
      "avail st' \<union> (rbs_set tmp' \<inter> {rcv_off st..}) = avail st \<union> (rbs_set tmp \<inter> {rcv_off st..})"
      using recv_round less.prems unfolding Cons by blast
    have "rcv_off st' = rcv_off st" using r(3) by (simp add: loop_step_def)
    with less.hyps [OF r(4,2)] r(1,3,5) loop_step_trans show ?thesis by metis
  qed
qed

section \<open>The invariant of a receive buffer\<close>

definition recv_inv :: "(nat \<Rightarrow> u8) \<Rightarrow> recv_buf \<Rightarrow> bool" where
  "recv_inv stream st \<longleftrightarrow> loop_inv stream st \<and> (rcv_drain st \<longrightarrow> rcv_data st = [] \<and> rcv_off st = rcv_len st)
     \<and> (\<forall>f. rcv_fin_off st = Some f \<longrightarrow> f = rcv_len st)
     \<and> (rcv_fin_off st = None \<longrightarrow> (\<forall>c\<in>set (rcv_data st). rb_len (snd c) \<noteq> 0))"

text \<open>The offsets of the stream that were read or can be read.\<close>

definition received :: "recv_buf \<Rightarrow> nat set" where
  "received st = {..<rcv_off st} \<union> avail st"

lemma avail_below: "loop_inv stream st \<Longrightarrow> avail st \<subseteq> {rcv_off st..<rcv_len st}"
  by (force simp: loop_inv_def chunks_ok_def rbs_set_def rb_set_def)

lemma recv_new_inv: "recv_inv stream (recv_new max_data w m)"
  by (simp add: recv_inv_def recv_new_def loop_inv_def chunks_ok_def chunk_order_def)

definition accepts :: "range_buf \<Rightarrow> recv_buf \<Rightarrow> bool" where
  "accepts buf st \<longleftrightarrow> rb_max_off buf \<le> fc_max_data (rcv_flow st)
     \<and> (\<forall>f. rcv_fin_off st = Some f \<longrightarrow> rb_max_off buf \<le> f \<and> (rb_fin buf \<longrightarrow> f = rb_max_off buf))
     \<and> (rb_fin buf \<longrightarrow> rcv_len st \<le> rb_max_off buf)"

definition mark_fin :: "range_buf \<Rightarrow> recv_buf \<Rightarrow> recv_buf" where
  "mark_fin buf st = (if rb_fin buf then st\<lparr>rcv_fin_off := Some (rb_max_off buf)\<rparr> else st)"

lemma mark_fin_simps [simp]:
  "rcv_data (mark_fin buf st) = rcv_data st" "rcv_off (mark_fin buf st) = rcv_off st"
  "rcv_len (mark_fin buf st) = rcv_len st" "rcv_drain (mark_fin buf st) = rcv_drain st"
  "rcv_flow (mark_fin buf st) = rcv_flow st" "rcv_error (mark_fin buf st) = rcv_error st"
  "loop_inv stream (mark_fin buf st) = loop_inv stream st" "ends_by (mark_fin buf st) hi = ends_by st hi"
  by (simp_all add: mark_fin_def loop_inv_def ends_by_def)

lemma rcv_fin_off_mark_fin: "rcv_fin_off (mark_fin buf st) = (if rb_fin buf then Some (rb_max_off buf) else rcv_fin_off st)"
  by (simp add: mark_fin_def)

lemma recv_write_accepted:
  "accepts buf st \<Longrightarrow> recv_write buf st =
     (if rcv_fin_off st \<noteq> None \<and> rb_is_empty buf \<or> \<not> rb_fin buf \<and> rb_is_empty buf then Some (Inr (), st)
      else if rcv_off st \<ge> rb_max_off buf \<and> \<not> rb_is_empty buf then Some (Inr (), mark_fin buf st)
      else map_option (Pair (Inr ())) (recv_tmp [buf] (mark_fin buf st)))"
  by (auto simp: recv_write_def accepts_def mark_fin_def Let_def split: option.splits)

lemma recv_write_refused:
  "\<not> accepts buf st \<Longrightarrow>
     recv_write buf st = Some (Inl (if rb_max_off buf > fc_max_data (rcv_flow st) then EFlowControl else EFinalSize), st)"
  by (auto simp: recv_write_def accepts_def split: option.splits)

text \<open>Non-empty data on a stream that stores it.\<close>

lemma recv_write_data:
  assumes inv: "recv_inv stream st" and ok: "accepts buf st" and buf: "piece stream buf"
    and new: "rcv_off st < rb_max_off buf" and drain: "\<not> rcv_drain st"
  shows "\<exists>st'. recv_tmp [buf] (mark_fin buf st) = Some st' \<and> recv_inv stream st' \<and> same_frame (mark_fin buf st) st'
    \<and> rcv_off st' = rcv_off st \<and> received st' = received st \<union> rb_set buf"
proof -
  let ?st = "mark_fin buf st" and ?m = "rb_max_off buf"
  have st: "loop_inv stream st" "\<forall>f. rcv_fin_off st = Some f \<longrightarrow> f = rcv_len st"
      "rcv_fin_off st = None \<longrightarrow> (\<forall>c\<in>set (rcv_data st). rb_len (snd c) \<noteq> 0)"
    using inv by (simp_all add: recv_inv_def)
  have known: "rcv_fin_off st \<noteq> None \<Longrightarrow> ?m \<le> rcv_len st" using st(2) ok by (auto simp: accepts_def)
  then have "queue_ok stream ?m [buf] ?st"
    using st(1,3) buf new drain by (auto simp: queue_ok_def ends_by_def)
  then obtain st' where r: "recv_tmp [buf] ?st = Some st'" "loop_inv stream st'" "loop_step ?m ?st st'"
      "avail st' = avail st \<union> (rb_set buf \<inter> {rcv_off st..})"
    using recv_tmp_ok by fastforce
  have step: "same_frame ?st st'" "rcv_off st' = rcv_off st" "rcv_len st \<le> rcv_len st'"
      "rcv_len st' \<le> max (rcv_len st) ?m"
      "\<And>c. c \<in> set (rcv_data st') \<Longrightarrow> rb_len (snd c) = 0 \<Longrightarrow> c \<in> set (rcv_data st)"
    using r(3) by (auto simp: loop_step_def)
  have "?m - 1 \<in> rb_set buf \<inter> {rcv_off st..}" using piece_less [OF buf] new by (auto simp: rb_set_def)
  then have "?m - 1 < rcv_len st'" using avail_below [OF r(2)] r(4) by auto
  then have m: "?m \<le> rcv_len st'" by simp
  have "f = rcv_len st'" if f: "rcv_fin_off st' = Some f" for f
  proof (cases "rb_fin buf")
    case True
    then have "f = ?m" "rcv_len st \<le> ?m"
      using f step(1) ok by (auto simp: same_frame_def rcv_fin_off_mark_fin accepts_def)
    with step(4) m show ?thesis by (simp add: max_def)
  next
    case False
    then have "rcv_fin_off st = Some f" using f step(1) by (simp add: same_frame_def rcv_fin_off_mark_fin)
    with known st(2) step(3,4) show ?thesis by (simp add: max_def split: if_splits)
  qed
  moreover have "\<forall>c\<in>set (rcv_data st'). rb_len (snd c) \<noteq> 0" if "rcv_fin_off st' = None"
    using that step(1,5) st(3) by (auto simp: same_frame_def rcv_fin_off_mark_fin split: if_splits)
  ultimately have "recv_inv stream st'"
    using r(2) step(1) drain by (auto simp: recv_inv_def same_frame_def)
  moreover have "received st' = received st \<union> rb_set buf"
    unfolding received_def r(4) step(2) by auto
  ultimately show ?thesis using r(1) step(1,2) by blast
qed

text \<open>Data on a stream that only counts it.\<close>

lemma recv_write_drain:
  assumes inv: "recv_inv stream st" and ok: "accepts buf st" and buf: "piece stream buf"
    and new: "rcv_off st < rb_max_off buf" and drain: "rcv_drain st"
  shows "\<exists>st'. recv_tmp [buf] (mark_fin buf st) = Some st' \<and> recv_inv stream st' \<and> same_frame (mark_fin buf st) st'
    \<and> rcv_off st \<le> rcv_off st' \<and> received st \<union> rb_set buf \<subseteq> received st'"
proof -
  let ?st = "mark_fin buf st" and ?m = "rb_max_off buf"
  have st: "rcv_data st = []" "rcv_off st = rcv_len st" "\<forall>f. rcv_fin_off st = Some f \<longrightarrow> f = rcv_len st"
    using inv drain by (simp_all add: recv_inv_def)
  have none: "rcv_fin_off st = None" using ok st new by (cases "rcv_fin_off st") (auto simp: accepts_def)
  obtain b where b: "recv_discard_front buf ?st = Some b" "piece stream b" "rcv_len st \<le> rb_off b" "rb_max_off b = ?m"
    using recv_discard_front_ok [OF buf, of ?st] new st(2) by auto
  have "round_overlap b [] ?st = Some (Some b, [])"
    using b by (simp add: round_overlap_def piece_def rb_is_empty_def)
  then have "recv_tmp [buf] ?st = Some (?st\<lparr>rcv_len := ?m, rcv_off := ?m\<rparr>)"
    using b new st drain by (simp add: recv_tmp_Cons recv_store_def max_def)
  moreover have "recv_inv stream (?st\<lparr>rcv_len := ?m, rcv_off := ?m\<rparr>)"
    using st none by (simp add: recv_inv_def loop_inv_def chunks_ok_def chunk_order_def rcv_fin_off_mark_fin)
  moreover have "received st \<union> rb_set buf \<subseteq> received (?st\<lparr>rcv_len := ?m, rcv_off := ?m\<rparr>)"
    using st new by (auto simp: received_def rb_set_def)
  ultimately show ?thesis using new by (auto simp: same_frame_def)
qed

text \<open>An empty buffer that ends the stream.\<close>

lemma recv_overlap_empty:
  assumes "rb_len buf = 0" and "\<forall>b\<in>set bs. rb_max_off b = rb_off buf"
  shows "recv_overlap bs buf [] = Some (if bs = [] then Some buf else None, [])"
  using assms rb_off_le_max [of "hd bs"] by (cases bs) (auto simp: rb_max_off_def)

lemma recv_write_end:
  assumes inv: "recv_inv stream st" and ok: "accepts buf st" and buf: "rb_wf buf" "rb_fin buf" "rb_len buf = 0" "rb_of stream buf"
    and none: "rcv_fin_off st = None"
  shows "\<exists>st'. recv_tmp [buf] (mark_fin buf st) = Some st' \<and> recv_inv stream st' \<and> same_frame (mark_fin buf st) st'
    \<and> rcv_off st \<le> rcv_off st' \<and> (\<not> rcv_drain st \<longrightarrow> rcv_off st' = rcv_off st \<and> received st' = received st)
    \<and> received st \<subseteq> received st'"
proof -
  let ?st = "mark_fin buf st" and ?m = "rb_max_off buf"
  have st: "loop_inv stream st" "\<forall>c\<in>set (rcv_data st). rb_len (snd c) \<noteq> 0" "rcv_off st \<le> rcv_len st"
      "rcv_drain st \<Longrightarrow> rcv_data st = [] \<and> rcv_off st = rcv_len st"
    using inv none by (simp_all add: recv_inv_def loop_inv_def)
  have m: "rcv_len st \<le> ?m" "rb_off buf = ?m" using ok buf by (auto simp: accepts_def rb_max_off_def)
  let ?near = "filter (\<lambda>(k, _). rb_off buf \<le> k) (rcv_data st)"
  have keys: "fst c = rb_max_off (snd c)" "fst c \<le> rcv_len st" "rb_off (snd c) \<le> fst c" if "c \<in> set (rcv_data st)" for c
    using st(1) that rb_off_le_max [of "snd c"] by (auto simp: loop_inv_def chunks_ok_def)
  have near: "\<forall>b\<in>set (map snd ?near). rb_max_off b = rb_off buf" using keys m by fastforce
  have front: "recv_discard_front buf ?st = Some buf" using st(3) m by (simp add: recv_discard_front_def)
  have over: "round_overlap buf [] ?st = Some (if ?near = [] then Some buf else None, [])"
    using recv_overlap_empty [OF buf(3) near] buf(3) by (simp add: round_overlap_def rb_is_empty_def)
  show ?thesis
  proof (cases "?near = []")
    case False
    then have len: "rcv_len st = ?m" using keys m by (fastforce simp: filter_empty_conv)
    then have "recv_inv stream ?st" using inv buf(2) by (simp add: recv_inv_def rcv_fin_off_mark_fin)
    with False front over buf(2) show ?thesis
      by (auto simp: recv_tmp_Cons same_frame_def received_def)
  next
    case True
    have run: "recv_tmp [buf] ?st = Some (recv_store buf ?st)" using True front over by (simp add: recv_tmp_Cons)
    have below: "\<forall>c\<in>set (rcv_data st). fst c \<le> rb_off buf \<and> fst c < ?m"
      using True m by (auto simp: filter_empty_conv)
    have grow: "chunks_ok stream (rcv_off st) ?m (rcv_data st)"
      using st(1,2) m(1) chunks_ok_grow by (metis loop_inv_def)
    have "chunks_ok stream (rcv_off st) ?m (btm_insert ?m buf (rcv_data st))"
         "rbs_set (map snd (btm_insert ?m buf (rcv_data st))) = avail st"
      using btm_insert_chunks [OF grow buf(1,4)] below m st(3) rb_set_empty [OF buf(3)] by auto
    with run st m buf(2) show ?thesis
      by (cases "rcv_drain st")
        (auto simp: recv_store_def recv_inv_def loop_inv_def rcv_fin_off_mark_fin max_def received_def same_frame_def
          chunks_ok_def chunk_order_def)
  qed
qed

text \<open>Every accepted write: the offsets of the buffer become available and nothing is lost.\<close>

lemma recv_write_ok:
  assumes inv: "recv_inv stream st" and ok: "accepts buf st" and buf: "rb_wf buf" "rb_fresh buf" "rb_of stream buf"
  shows "\<exists>st'. recv_write buf st = Some (Inr (), st') \<and> recv_inv stream st' \<and> rcv_off st \<le> rcv_off st'
    \<and> rcv_fin_off st' = (if rb_fin buf then Some (rb_max_off buf) else rcv_fin_off st)
    \<and> rcv_flow st' = rcv_flow st \<and> rcv_error st' = rcv_error st \<and> rcv_drain st' = rcv_drain st
    \<and> received st \<union> rb_set buf \<subseteq> received st'
    \<and> (\<not> rcv_drain st \<longrightarrow> rcv_off st' = rcv_off st \<and> received st' = received st \<union> rb_set buf)"
proof -
  note wr = recv_write_accepted [OF ok]
  consider (idle) "rcv_fin_off st \<noteq> None \<and> rb_is_empty buf \<or> \<not> rb_fin buf \<and> rb_is_empty buf"
    | (dup) "\<not> rb_is_empty buf" "rb_max_off buf \<le> rcv_off st"
    | (stop) "rb_is_empty buf" "rb_fin buf" "rcv_fin_off st = None"
    | (data) "\<not> rb_is_empty buf" "rcv_off st < rb_max_off buf"
    by linarith
  then show ?thesis
  proof cases
    case idle
    have "rb_set buf = {}" using idle by (auto simp: rb_is_empty_def rb_set_empty)
    moreover have "rcv_fin_off st = (if rb_fin buf then Some (rb_max_off buf) else rcv_fin_off st)"
      using idle ok by (auto simp: accepts_def)
    ultimately show ?thesis using wr idle inv by simp
  next
    case dup
    have "rb_set buf \<subseteq> {..<rcv_off st}" using dup(2) by (auto simp: rb_set_def)
    moreover have "recv_inv stream (mark_fin buf st)"
      using inv ok dup(2) by (auto simp: recv_inv_def loop_inv_def accepts_def rcv_fin_off_mark_fin)
    ultimately show ?thesis using wr dup
      by (auto simp: received_def rcv_fin_off_mark_fin)
  next
    case stop
    then have "rb_len buf = 0" "rb_set buf = {}" by (auto simp: rb_is_empty_def rb_set_empty)
    with wr stop recv_write_end [OF inv ok buf(1) stop(2) _ buf(3) stop(3)] show ?thesis
      by (auto simp: same_frame_def rcv_fin_off_mark_fin)
  next
    case data
    have p: "piece stream buf" using buf data(1) by (simp add: piece_def rb_is_empty_def)
    show ?thesis
    proof (cases "rcv_drain st")
      case True
      with wr data recv_write_drain [OF inv ok p data(2)] show ?thesis
        by (auto simp: same_frame_def rcv_fin_off_mark_fin)
    next
      case False
      with wr data recv_write_data [OF inv ok p data(2)] show ?thesis
        by (auto simp: same_frame_def rcv_fin_off_mark_fin)
    qed
  qed
qed

section \<open>Reads deliver the stream\<close>

lemma chunks_ok_above:
  "chunks_ok stream off len ((k, b) # data) \<Longrightarrow> chunks_ok stream k len data"
  unfolding chunks_ok_Cons by (auto simp: chunks_ok_def)

lemma chunks_ok_lower: "chunks_ok stream off len data \<Longrightarrow> off' \<le> off \<Longrightarrow> chunks_ok stream off' len data"
  unfolding chunks_ok_def by (meson order_trans)

lemma chunks_ok_offs: "chunks_ok stream off len data \<Longrightarrow> rbs_set (map snd data) \<subseteq> {off..<len}"
  by (force simp: chunks_ok_def rbs_set_def rb_set_def)

text \<open>What one call of the loop yields: a run of the stream that ends at the capacity or at a gap.\<close>

definition emitted :: "(nat \<Rightarrow> u8) \<Rightarrow> nat \<Rightarrow> chunks \<Rightarrow> nat \<Rightarrow> nat \<Rightarrow> nat \<Rightarrow> chunks \<Rightarrow> bool" where
  "emitted stream len data capacity off n data' \<longleftrightarrow> n \<le> capacity \<and> chunks_ok stream (off + n) len data'
     \<and> rbs_set (map snd data) = {off..<off + n} \<union> rbs_set (map snd data')
     \<and> (n = capacity \<or> off + n \<notin> rbs_set (map snd data'))
     \<and> (\<forall>c\<in>set data'. rb_len (snd c) = 0 \<longrightarrow> c \<in> set data)"

lemma emit_loop_ok:
  assumes "chunks_ok stream off len data"
  shows "\<exists>n data'. emit_loop emit capacity data off =
      Some (if emit then stream_range stream off (off + n) else [], n, data', off + n)
    \<and> emitted stream len data capacity off n data'"
  using assms
proof (induction data arbitrary: capacity off)
  case Nil
  then show ?case by (auto simp: emitted_def chunks_ok_def stream_range_def)
next
  case (Cons c data)
  obtain k b where c: "c = (k, b)" by (cases c)
  note ok = Cons.prems [unfolded c chunks_ok_Cons]
  have b: "k = rb_max_off b" "rb_wf b" "rb_of stream b" "off \<le> rb_off b" using ok by auto
  have rest: "rbs_set (map snd data) \<subseteq> {k..<len}"
    using chunks_ok_offs [OF chunks_ok_above] Cons.prems c by blast
  show ?case
  proof (cases "capacity > 0 \<and> rb_off b = off")
    case False
    have "off \<notin> rbs_set (map snd (c # data))" if "capacity \<noteq> 0"
      using False that b rest rb_off_le_max [of b] unfolding c by (auto simp: rb_set_def)
    with False Cons.prems show ?thesis
      unfolding c by (auto simp: emitted_def stream_range_def)
  next
    case True
    let ?n = "min (rb_len b) capacity"
    have off: "rb_off b = off" "k = off + rb_len b" using True b by (auto simp: rb_max_off_def)
    have out: "(if emit then do { bs \<leftarrow> rb_deref b; slice_of bs 0 ?n } else Some [])
        = Some (if emit then stream_range stream off (off + ?n) else [])"
      using rb_deref_of [OF b(2,3)] off b(1)
      by (auto simp: slice_of_def stream_range_def take_map)
    let ?out = "if emit then stream_range stream off (off + ?n) else []"
    have step: "emit_loop emit capacity (c # data) off =
        (if ?n < rb_len b then Some (?out, ?n, (k, rb_consume ?n b) # data, off + ?n)
         else do { (out', len, data', off') \<leftarrow> emit_loop emit (capacity - ?n) data (off + ?n);
                   Some (?out @ out', ?n + len, data', off') })"
      unfolding c emit_loop.simps Let_def out if_P [OF True] by simp
    show ?thesis
    proof (cases "?n < rb_len b")
      case part: True
      let ?d = "(k, rb_consume ?n b) # data"
      note con = rb_consume_simps [OF b(2), of ?n, OF min.cobounded1]
      have "chunks_ok stream (off + ?n) len data"
        using chunks_ok_lower [OF chunks_ok_above [OF Cons.prems [unfolded c]]] part off by simp
      then have "chunks_ok stream (off + ?n) len ?d"
        unfolding chunks_ok_Cons con rb_of_consume using ok part off(1) con(1) by auto
      moreover have "rbs_set (map snd (c # data)) = {off..<off + ?n} \<union> rbs_set (map snd ?d)"
        using con part off b(1) unfolding c by (auto simp: rb_set_def)
      ultimately have "emitted stream len (c # data) capacity off ?n ?d"
        using part con by (auto simp: emitted_def)
      with step [unfolded if_P [OF part]] show ?thesis by blast
    next
      case full: False
      then have n: "?n = rb_len b" by simp
      obtain m data' where ih: "emit_loop emit (capacity - rb_len b) data k =
            Some (if emit then stream_range stream k (k + m) else [], m, data', k + m)"
          "emitted stream len data (capacity - rb_len b) k m data'"
        using Cons.IH [OF chunks_ok_above [OF Cons.prems [unfolded c]]] by blast
      have "emitted stream len (c # data) capacity off (rb_len b + m) data'"
        using ih(2) full off b(1) unfolding c emitted_def by (auto simp: rb_set_def add.assoc)
      moreover have "emit_loop emit capacity (c # data) off =
          Some (if emit then stream_range stream off (off + (rb_len b + m)) else [], rb_len b + m, data', off + (rb_len b + m))"
        using ih(1) off(2) stream_range_append [of off k "k + m" stream]
        unfolding step n by (simp add: add.assoc)
      ultimately show ?thesis by blast
    qed
  qed
qed

lemma recv_emit_or_discard_ok:
  assumes inv: "recv_inv stream st" and err: "rcv_error st = None" and ready: "recv_ready st"
    and n_def: "n = (case action of Emit n \<Rightarrow> n | Discard n \<Rightarrow> n)"
  shows "\<exists>k st'. recv_emit_or_discard action st =
      Some (Inr (case action of Emit _ \<Rightarrow> stream_range stream (rcv_off st) (rcv_off st + k) | Discard _ \<Rightarrow> [], k, recv_is_fin st'), st')
    \<and> recv_inv stream st' \<and> rcv_off st' = rcv_off st + k \<and> k \<le> n \<and> received st' = received st
    \<and> (k = n \<or> rcv_off st' \<notin> received st) \<and> rcv_error st' = None \<and> rcv_drain st' = rcv_drain st"
proof -
  have chunks: "chunks_ok stream (rcv_off st) (rcv_len st) (rcv_data st)" and "rcv_data st \<noteq> []"
    using inv ready by (auto simp: recv_inv_def loop_inv_def recv_ready_def split: list.splits)
  then have drain: "\<not> rcv_drain st" using inv by (auto simp: recv_inv_def)
  let ?e = "case action of Emit _ \<Rightarrow> True | Discard _ \<Rightarrow> False"
  obtain k data' where e: "emit_loop ?e n (rcv_data st) (rcv_off st) =
        Some (if ?e then stream_range stream (rcv_off st) (rcv_off st + k) else [], k, data', rcv_off st + k)"
      "emitted stream (rcv_len st) (rcv_data st) n (rcv_off st) k data'"
    using emit_loop_ok [OF chunks] by blast
  let ?st = "st\<lparr>rcv_data := data', rcv_off := rcv_off st + k, rcv_flow := fc_add_consumed k (rcv_flow st)\<rparr>"
  have em: "k \<le> n" "chunks_ok stream (rcv_off st + k) (rcv_len st) data'"
      "avail st = {rcv_off st..<rcv_off st + k} \<union> avail ?st" "k = n \<or> rcv_off st + k \<notin> avail ?st"
      "\<And>c. c \<in> set data' \<Longrightarrow> rb_len (snd c) = 0 \<Longrightarrow> c \<in> set (rcv_data st)"
    using e(2) by (simp_all add: emitted_def)
  have "rcv_off st + k \<le> rcv_len st"
    using em(3) avail_below [of stream st] inv by (cases k) (auto simp: recv_inv_def loop_inv_def Suc_le_eq)
  then have "recv_inv stream ?st" using inv em(2,5) drain by (auto simp: recv_inv_def loop_inv_def)
  moreover have rec: "received ?st = received st" using em(3) by (auto simp: received_def)
  moreover have "k = n \<or> rcv_off ?st \<notin> received st"
    using em(4) unfolding rec [symmetric] by (auto simp: received_def)
  moreover have "recv_emit_or_discard action st =
      Some (Inr (case action of Emit _ \<Rightarrow> stream_range stream (rcv_off st) (rcv_off st + k) | Discard _ \<Rightarrow> [], k, recv_is_fin ?st), ?st)"
    using e(1) ready err by (cases action) (simp_all add: recv_emit_or_discard_def n_def Let_def)
  ultimately show ?thesis using em(1) err by (intro exI [of _ k] exI [of _ ?st]) simp
qed

section \<open>Runs\<close>

datatype recv_op = RecvWrite range_buf | RecvRead nat | RecvUpdate nat | RecvTune nat nat

text \<open>The bytes an operation hands out and the buffer it accepted, if any.\<close>

fun recv_step :: "recv_op \<Rightarrow> recv_buf \<Rightarrow> (bytes \<times> range_buf list \<times> recv_buf) rust" where
  "recv_step (RecvWrite buf) st =
     do { (r, st') \<leftarrow> recv_write buf st; Some ([], case r of Inl _ \<Rightarrow> [] | Inr _ \<Rightarrow> [buf], st') }"
| "recv_step (RecvRead n) st =
     do { (r, st') \<leftarrow> recv_emit n st; Some (case r of Inl _ \<Rightarrow> [] | Inr (out, _, _) \<Rightarrow> out, [], st') }"
| "recv_step (RecvUpdate now) st = Some ([], [], recv_update_max_data now st)"
| "recv_step (RecvTune now rtt) st = Some ([], [], recv_autotune_window now rtt st)"

fun recv_run :: "recv_op list \<Rightarrow> recv_buf \<Rightarrow> (bytes \<times> range_buf list \<times> recv_buf) rust" where
  "recv_run [] st = Some ([], [], st)"
| "recv_run (op # ops) st =
     do { (out, acc, st) \<leftarrow> recv_step op st;
          (out', acc', st) \<leftarrow> recv_run ops st;
          Some (out @ out', acc @ acc', st) }"

definition op_of_stream :: "(nat \<Rightarrow> u8) \<Rightarrow> recv_op \<Rightarrow> bool" where
  "op_of_stream stream op = (case op of RecvWrite b \<Rightarrow> rb_wf b \<and> rb_fresh b \<and> rb_of stream b | _ \<Rightarrow> True)"

definition live :: "(nat \<Rightarrow> u8) \<Rightarrow> recv_buf \<Rightarrow> bool" where
  "live stream st \<longleftrightarrow> recv_inv stream st \<and> rcv_error st = None \<and> \<not> rcv_drain st"

lemma recv_emit_live:
  assumes "live stream st"
  shows "\<exists>r k st'. recv_emit n st = Some (r, st') \<and> live stream st' \<and> rcv_off st' = rcv_off st + k \<and> k \<le> n
    \<and> (case r of Inl e \<Rightarrow> e = EDone \<and> k = 0 | Inr (out, len, fin) \<Rightarrow> len = k \<and> fin = recv_is_fin st' \<and>
         out = stream_range stream (rcv_off st) (rcv_off st + k))
    \<and> received st' = received st \<and> (k = n \<or> rcv_off st' \<notin> received st)"
proof (cases "recv_ready st")
  case True
  with assms recv_emit_or_discard_ok [of stream st n "Emit n"] show ?thesis
    by (force simp: recv_emit_def live_def)
next
  case False
  have chunks: "chunks_ok stream (rcv_off st) (rcv_len st) (rcv_data st)"
    using assms by (simp add: live_def recv_inv_def loop_inv_def)
  have "rcv_off st \<notin> avail st"
  proof (cases "rcv_data st")
    case (Cons c data)
    obtain k b where c: "c = (k, b)" by (cases c)
    have "rcv_off st < rb_off b" using False chunks Cons c by (auto simp: recv_ready_def chunks_ok_Cons)
    moreover have "rbs_set (map snd data) \<subseteq> {k..<rcv_len st}"
      by (rule chunks_ok_offs [OF chunks_ok_above [OF chunks [unfolded Cons c]]])
    moreover have "rb_off b \<le> k" using chunks Cons c rb_off_le_max [of b] by (simp add: chunks_ok_Cons)
    ultimately show ?thesis using Cons c by (auto simp: rb_set_def)
  qed simp
  with False assms show ?thesis
    by (auto simp: recv_emit_def recv_emit_or_discard_def received_def)
qed

lemma live_flow: "live stream (st\<lparr>rcv_flow := fc\<rparr>) = live stream st" "received (st\<lparr>rcv_flow := fc\<rparr>) = received st"
  by (simp_all add: live_def recv_inv_def loop_inv_def received_def)

lemma recv_step_ok:
  assumes st: "live stream st" and op: "op_of_stream stream op"
  shows "\<exists>out acc st'. recv_step op st = Some (out, acc, st') \<and> live stream st' \<and> rcv_off st \<le> rcv_off st'
    \<and> out = stream_range stream (rcv_off st) (rcv_off st') \<and> received st' = received st \<union> rbs_set acc"
proof (cases op)
  case (RecvWrite buf)
  have inv: "recv_inv stream st" "rcv_error st = None" "\<not> rcv_drain st" using st by (simp_all add: live_def)
  have buf: "rb_wf buf" "rb_fresh buf" "rb_of stream buf" using op RecvWrite by (simp_all add: op_of_stream_def)
  show ?thesis
  proof (cases "accepts buf st")
    case True
    obtain st' where w: "recv_write buf st = Some (Inr (), st')" "recv_inv stream st'" "rcv_off st' = rcv_off st"
        "received st' = received st \<union> rb_set buf" "rcv_error st' = rcv_error st" "rcv_drain st' = rcv_drain st"
      using recv_write_ok [OF inv(1) True buf] inv(3) by blast
    then show ?thesis using inv RecvWrite by (simp add: live_def stream_range_def)
  next
    case False
    then show ?thesis using st RecvWrite by (simp add: recv_write_refused stream_range_def)
  qed
next
  case (RecvRead n)
  obtain r k st' where e: "recv_emit n st = Some (r, st')" "live stream st'" "rcv_off st' = rcv_off st + k"
      "case r of Inl e \<Rightarrow> e = EDone \<and> k = 0 | Inr (out, len, fin) \<Rightarrow> len = k \<and> fin = recv_is_fin st' \<and>
         out = stream_range stream (rcv_off st) (rcv_off st + k)" "received st' = received st"
    using recv_emit_live [OF st, of n] by blast
  then show ?thesis using RecvRead by (auto simp: stream_range_def split: sum.splits)
qed (use st in \<open>simp_all add: recv_update_max_data_def recv_autotune_window_def live_flow stream_range_def\<close>)

lemma recv_run_ok:
  assumes "live stream st" and "\<forall>op\<in>set ops. op_of_stream stream op"
  shows "\<exists>out acc st'. recv_run ops st = Some (out, acc, st') \<and> live stream st' \<and> rcv_off st \<le> rcv_off st'
    \<and> out = stream_range stream (rcv_off st) (rcv_off st') \<and> received st' = received st \<union> rbs_set acc"
  using assms
proof (induction ops arbitrary: st)
  case Nil
  then show ?case by (simp add: stream_range_def)
next
  case (Cons op ops)
  obtain out acc st1 where s: "recv_step op st = Some (out, acc, st1)" "live stream st1" "rcv_off st \<le> rcv_off st1"
      "out = stream_range stream (rcv_off st) (rcv_off st1)" "received st1 = received st \<union> rbs_set acc"
    using recv_step_ok [of stream st op] Cons.prems by auto
  obtain out' acc' st' where r: "recv_run ops st1 = Some (out', acc', st')" "live stream st'" "rcv_off st1 \<le> rcv_off st'"
      "out' = stream_range stream (rcv_off st1) (rcv_off st')" "received st' = received st1 \<union> rbs_set acc'"
    using Cons.IH [OF s(2)] Cons.prems by auto
  then show ?case
    using s stream_range_append [OF s(3) r(3), of stream] by (auto simp: Un_assoc)
qed

lemma live_new: "live stream (recv_new max_data w m)" "rcv_off (recv_new max_data w m) = 0"
    "received (recv_new max_data w m) = {}"
  by (simp_all add: live_def recv_new_inv) (simp_all add: recv_new_def received_def)

section \<open>Correctness\<close>

text \<open>
  C4: Reassembly. Take any stream and any sequence of writes of pieces of it, in any order and with
  any overlaps and repetitions, mixed with reads of any size and with window updates. Then no
  operation panics or runs forever; the bytes handed out so far are exactly the beginning of the
  stream up to the read offset; the offsets read or readable are exactly those of the accepted
  buffers; and one more read hands out the following bytes of the stream, as many as it asked for or
  up to the first offset that no accepted buffer covers.
\<close>

theorem stream_reassembled:
  assumes "\<forall>op\<in>set ops. op_of_stream stream op"
  shows "\<exists>out acc st. recv_run ops (recv_new max_data window max_window) = Some (out, acc, st)
    \<and> out = stream_range stream 0 (rcv_off st) \<and> received st = rbs_set acc
    \<and> (\<exists>r k st'. recv_emit n st = Some (r, st') \<and> rcv_off st' = rcv_off st + k
        \<and> (case r of Inl e \<Rightarrow> e = EDone \<and> k = 0
            | Inr (bs, len, fin) \<Rightarrow> len = k \<and> bs = stream_range stream (rcv_off st) (rcv_off st + k)
                \<and> (fin \<longleftrightarrow> rcv_fin_off st' = Some (rcv_off st')))
        \<and> k \<le> n \<and> (k = n \<or> rcv_off st + k \<notin> rbs_set acc))"
proof -
  obtain out acc st where r: "recv_run ops (recv_new max_data window max_window) = Some (out, acc, st)" "live stream st"
      "out = stream_range stream 0 (rcv_off st)" "received st = rbs_set acc"
    using recv_run_ok [OF live_new(1) assms] live_new by (metis Un_empty_left)
  show ?thesis
    using recv_emit_live [OF r(2), of n] r unfolding recv_is_fin_def
    by (fastforce split: sum.splits prod.splits)
qed

theorem stream_reassembled_witness:
  "\<exists>out acc st. recv_run [RecvWrite (rb_from [3, 4] 2 True), RecvRead 9, RecvWrite (rb_from [1, 2, 3] 0 False), RecvRead 3]
       (recv_new 10 10 10) = Some (out, acc, st)
    \<and> out = stream_range (\<lambda>i. of_nat (i + 1)) 0 (rcv_off st) \<and> received st = rbs_set acc"
proof -
  have "\<forall>op\<in>set [RecvWrite (rb_from [3, 4] 2 True), RecvRead 9, RecvWrite (rb_from [1, 2, 3] 0 False), RecvRead 3].
      op_of_stream (\<lambda>i. of_nat (i + 1)) op"
    by (simp add: op_of_stream_def rb_of_def rb_from_def rb_wf_def All_less_Suc numeral_eq_Suc)
  from stream_reassembled [OF this, of 10 10 10 5] show ?thesis by blast
qed

text \<open>What the writes and reads of the example yield.\<close>

lemma recv_run_example:
  "map_option fst (recv_run [RecvWrite (rb_from [3, 4] 2 True), RecvRead 9, RecvWrite (rb_from [1, 2, 3] 0 False), RecvRead 3]
     (recv_new 10 10 10)) = Some [1, 2, 3]"
  by (simp add: recv_write_def recv_new_def fc_new_def rb_is_empty_def recv_tmp_Cons recv_discard_front_def
      round_overlap_def recv_store_def recv_emit_def recv_emit_or_discard_def recv_ready_def rb_split_off_def
      rb_from_def rb_off_def rb_len_def rb_max_off_def rb_deref_def slice_of_def Let_def max_def)

section \<open>Reset and shutdown\<close>

text \<open>The states a reset that is neither refused nor repeated leaves behind.\<close>

lemma recv_reset_state:
  assumes "rcv_error st = None" and "rcv_len st \<le> final" and "final \<le> fc_max_data (rcv_flow st)"
    and "recv_inv stream st" and "rcv_fin_off st = None \<or> rcv_fin_off st = Some final"
    and base_def: "base = st\<lparr>rcv_error := Some e, rcv_off := final, rcv_len := final, rcv_data := [], rcv_fin_off := Some final\<rparr>"
  shows "recv_reset e final st =
    Some (Inr \<lparr>max_data_delta = final - rcv_len st, consumed_flowcontrol = final - rcv_off st\<rparr>,
      if rcv_fin_off st = None \<and> \<not> rcv_drain st then base\<lparr>rcv_data := [(final, rb_from [] final True)]\<rparr> else base)"
proof (cases "rcv_fin_off st")
  case (Some f)
  then have "f = final" "rcv_len st = final" using assms(4,5) by (auto simp: recv_inv_def)
  moreover have "rb_is_empty (rb_from [] final True)" by (simp add: rb_is_empty_def)
  ultimately show ?thesis using assms(1-3) Some by (simp add: recv_reset_def recv_write_def base_def)
next
  case None
  let ?b = "rb_from [] final True"
  have acc: "accepts ?b (st\<lparr>rcv_error := Some e, rcv_off := final, rcv_data := []\<rparr>)"
    using assms(2,3) None by (simp add: accepts_def)
  have emp: "rb_is_empty ?b" by (simp add: rb_is_empty_def)
  show ?thesis
    using assms(1,2) None emp
    by (simp add: recv_reset_def recv_write_accepted [OF acc] recv_tmp_Cons recv_discard_front_def round_overlap_def
        recv_store_def mark_fin_def base_def max_def Let_def)
qed

lemma recv_reset_inv:
  assumes "rcv_error st = None" and "rcv_len st \<le> final" and "final \<le> fc_max_data (rcv_flow st)"
    and "recv_inv stream st" and "rcv_fin_off st = None \<or> rcv_fin_off st = Some final"
  shows "\<exists>r st'. recv_reset e final st = Some (Inr r, st') \<and> recv_inv stream st'"
  using assms
  by (simp add: recv_reset_state [OF assms refl] recv_inv_def loop_inv_def chunks_ok_def chunk_order_def rb_of_def)
    (auto simp: rb_from_def)

lemma recv_shutdown_inv: "recv_inv stream st \<Longrightarrow> recv_inv stream (snd (recv_shutdown st))"
  by (auto simp: recv_shutdown_def recv_inv_def loop_inv_def chunks_ok_def chunk_order_def)

text \<open>
  C36: The application learns of a reset only when the end of the stream was not known before. On a
  stream that is not being drained, a reset frame with an admissible final size is accepted; the next
  read then reports it exactly if no FIN had been received. After a FIN the zero-length buffer that
  should announce the reset is not queued, the unread data are dropped, and the read only says that
  there is nothing to do.
\<close>

theorem reset_after_fin_is_silent:
  assumes "recv_inv stream st" and "rcv_error st = None" and "\<not> rcv_drain st" and "rcv_len st \<le> final"
    and "final \<le> fc_max_data (rcv_flow st)" and "rcv_fin_off st = None \<or> rcv_fin_off st = Some final"
  shows "\<exists>r st'. recv_reset e final st = Some (Inr r, st')
    \<and> recv_emit n st' = Some (if rcv_fin_off st = None then (Inl (EStreamReset e), st'\<lparr>rcv_data := []\<rparr>) else (Inl EDone, st'))"
  using assms recv_reset_state [OF assms(2,4,5,1,6) refl, of e]
  by (simp add: recv_emit_def recv_emit_or_discard_def recv_ready_def)

theorem reset_after_fin_is_silent_witness:
  "\<exists>st r st'. rcv_data st = [(5, rb_from [1, 2] 3 True)] \<and> recv_reset 7 5 st = Some (Inr r, st') \<and> recv_emit 10 st' = Some (Inl EDone, st')"
proof -
  let ?st = "(recv_new 100 50 50)\<lparr>rcv_data := [(5, rb_from [1, 2] 3 True)], rcv_len := 5, rcv_fin_off := Some 5\<rparr>"
  have inv: "recv_inv (\<lambda>i. of_nat (i - 2)) ?st"
    by (simp add: recv_inv_def loop_inv_def chunks_ok_def chunk_order_def recv_new_def rb_of_def)
      (simp add: rb_from_def All_less_Suc numeral_eq_Suc)
  have side: "rcv_error ?st = None" "\<not> rcv_drain ?st" "rcv_len ?st \<le> 5" "5 \<le> fc_max_data (rcv_flow ?st)"
      "rcv_fin_off ?st = None \<or> rcv_fin_off ?st = Some 5"
    by (simp_all add: recv_new_def fc_new_def)
  from reset_after_fin_is_silent [OF inv side, of 7 10]
  obtain r st' where "recv_reset 7 5 ?st = Some (Inr r, st')" "recv_emit 10 st' = Some (Inl EDone, st')"
    by (auto simp: recv_new_def)
  then show ?thesis by (intro exI [of _ ?st]) (auto simp: recv_new_def)
qed

end
