(* ===== verification/Ranges.thy ===== *)
theory Ranges
  imports Prelude
begin

text \<open>
  The set of 64-bit integers of \<open>core/quiche/quiche/src/ranges.rs\<close>, in which the QUIC library
  keeps the packet numbers to acknowledge, the ranges of an ACK frame and the acknowledged bytes
  of a stream. A \<open>RangeSet\<close> is a sorted list of half-open ranges with a gap between any two of
  them, held in a small vector (\<open>Inline\<close>) or in a \<open>BTreeMap\<close> from start to end (\<open>BTree\<close>), between
  which \<open>fixup\<close> switches. A \<open>u64\<close> is a natural number here; \<open>u64_succ\<close> writes out where the code
  adds one. A \<open>BTreeMap\<close> is its list of entries in key order. \<open>None\<close> is a panic.

  The theory shows that both representations implement union with an interval and removal of an
  initial segment on the set of integers they stand for, that they always agree, and which
  insertions into a full set panic.
\<close>

type_synonym urange = "nat \<times> nat"

definition MAX_INLINE_CAPACITY :: nat where
  "MAX_INLINE_CAPACITY = 4"

definition MIN_TO_INLINE :: nat where
  "MIN_TO_INLINE = 2"

record inline_range_set =
  inl_inner :: "urange list"
  inl_capacity :: nat

record btree_range_set =
  bt_inner :: "urange list"
  bt_capacity :: nat

datatype range_set = Inline inline_range_set | BTree btree_range_set

definition usize_max :: nat where
  "usize_max = 18446744073709551615"

text \<open>\<open>x + 1\<close> on a \<open>u64\<close>, which wraps in a release build.\<close>

definition u64_succ :: "nat \<Rightarrow> nat" where
  "u64_succ x = (x + 1) mod 18446744073709551616"

section \<open>The inline representation\<close>

text \<open>\<open>inner.remove(i)\<close> and \<open>inner.insert(i, x)\<close> of a vector, for an index in range.\<close>

definition vec_remove :: "nat \<Rightarrow> 'a list \<Rightarrow> 'a list" where
  "vec_remove i xs = take i xs @ drop (Suc i) xs"

definition vec_insert :: "nat \<Rightarrow> 'a \<Rightarrow> 'a list \<Rightarrow> 'a list" where
  "vec_insert i x xs = take i xs @ x # drop i xs"

text \<open>The second loop of \<open>InlineRangeSet::insert\<close>: merge the ranges after \<open>pos\<close>.\<close>

function inline_merge :: "nat \<Rightarrow> nat \<Rightarrow> urange list \<Rightarrow> urange list" where
  "inline_merge pos stop inner =
     (case get_at inner (pos + 1) of
        None \<Rightarrow> inner
      | Some (s, e) \<Rightarrow>
          if stop < s then inner
          else (let new_e = max e stop in
                inline_merge pos new_e
                  (vec_remove (pos + 1) (inner[pos := (fst (inner ! pos), new_e)]))))"
  by pat_completeness auto
termination
  by (relation "measure (\<lambda>(_, _, inner). length inner)")
    (auto simp: get_at_def vec_remove_def split: if_splits)

text \<open>
  The first loop. At capacity the lowest range is removed first; \<open>pos -= 1\<close> then underflows when
  the new range goes in front of all others, and inserting at that index panics.
\<close>

function inline_insert_at :: "nat \<Rightarrow> nat \<Rightarrow> nat \<Rightarrow> nat \<Rightarrow> urange list \<Rightarrow> urange list rust" where
  "inline_insert_at pos capacity start stop inner =
     (case get_at inner pos of
        Some (s, e) \<Rightarrow>
          if start > e then inline_insert_at (pos + 1) capacity start stop inner
          else if stop < s then
            (if length inner = capacity
             then (if pos = 0 then None
                   else Some (vec_insert (pos - 1) (start, stop) (vec_remove 0 inner)))
             else Some (vec_insert pos (start, stop) inner))
          else (let s' = (if start < s then start else s) in
                if stop > e then Some (inline_merge pos stop (inner[pos := (s', stop)]))
                else Some (inner[pos := (s', e)]))
      | None \<Rightarrow>
          if length inner = capacity
          then (if inner = [] then None else Some (vec_remove 0 inner @ [(start, stop)]))
          else Some (inner @ [(start, stop)]))"
  by pat_completeness auto
termination
  by (relation "measure (\<lambda>(pos, _, _, _, inner). length inner - pos)")
    (auto simp: get_at_def split: if_splits)

declare inline_merge.simps [simp del] inline_insert_at.simps [simp del]

definition inline_insert :: "inline_range_set \<Rightarrow> urange \<Rightarrow> inline_range_set rust" where
  "inline_insert st item =
     do { inner \<leftarrow> inline_insert_at 0 (inl_capacity st) (fst item) (snd item) (inl_inner st);
          Some (st\<lparr>inl_inner := inner\<rparr>) }"

fun inline_drop_until :: "nat \<Rightarrow> urange list \<Rightarrow> urange list" where
  "inline_drop_until largest [] = []"
| "inline_drop_until largest ((s, e) # inner) =
     (if largest \<ge> e then inline_drop_until largest inner
      else (let s' = max (u64_succ largest) s in
            if s' = e then inner else (s', e) # inner))"

definition inline_remove_until :: "inline_range_set \<Rightarrow> nat \<Rightarrow> inline_range_set" where
  "inline_remove_until st largest = st\<lparr>inl_inner := inline_drop_until largest (inl_inner st)\<rparr>"

section \<open>The tree representation\<close>

text \<open>Conversion of the inline vector.\<close>

definition btm_from :: "urange list \<Rightarrow> urange list" where
  "btm_from xs = foldl (\<lambda>m (k, v). btm_insert k v m) [] xs"

definition prev_to :: "nat \<Rightarrow> urange list \<Rightarrow> urange option" where
  "prev_to item inner =
     (let below = filter (\<lambda>(s, _). s \<le> item) inner in
      if below = [] then None else Some (last below))"

definition next_to :: "nat \<Rightarrow> urange list \<Rightarrow> urange option" where
  "next_to item inner =
     (case filter (\<lambda>(s, _). item \<le> s) inner of [] \<Rightarrow> None | r # _ \<Rightarrow> Some r)"

definition range_overlaps :: "urange \<Rightarrow> urange \<Rightarrow> bool" where
  "range_overlaps r other \<longleftrightarrow>
     fst other \<ge> fst r \<and> fst other \<le> snd r \<or> snd other \<ge> fst r \<and> snd other \<le> snd r"

definition range_contains :: "urange \<Rightarrow> nat \<Rightarrow> bool" where
  "range_contains r x \<longleftrightarrow> fst r \<le> x \<and> x < snd r"

lemma next_to_in: "next_to x inner = Some r \<Longrightarrow> r \<in> set inner \<and> x \<le> fst r"
proof -
  assume "next_to x inner = Some r"
  then obtain rs where "filter (\<lambda>(s, _). x \<le> s) inner = r # rs"
    by (auto simp: next_to_def split: list.splits)
  then have "r \<in> set (filter (\<lambda>(s, _). x \<le> s) inner)"
    by (simp only: list.set_intros)
  then show ?thesis by auto
qed

lemma btm_remove_shorter: "r \<in> set inner \<Longrightarrow> length (btm_remove (fst r) inner) < length inner"
  by (auto simp: btm_remove_def intro!: length_filter_less)

function btree_absorb :: "urange \<Rightarrow> nat \<Rightarrow> nat \<Rightarrow> urange list \<Rightarrow> nat \<times> nat \<times> urange list" where
  "btree_absorb item start stop inner =
     (case next_to start inner of
        None \<Rightarrow> (start, stop, inner)
      | Some r \<Rightarrow>
          if range_contains item (fst r) \<and> range_contains item (snd r)
          then btree_absorb item start stop (btm_remove (fst r) inner)
          else if \<not> range_overlaps r item then (start, stop, inner)
          else btree_absorb item (min start (fst r)) (max stop (snd r)) (btm_remove (fst r) inner))"
  by pat_completeness auto
termination
  by (relation "measure (\<lambda>(_, _, _, inner). length inner)")
    (auto dest!: next_to_in btm_remove_shorter)

declare btree_absorb.simps [simp del]

text \<open>The check of the preceding range, at the head of \<open>BTreeRangeSet::insert\<close>.\<close>

definition absorb_prev :: "urange \<Rightarrow> urange list \<Rightarrow> nat \<times> nat \<times> urange list" where
  "absorb_prev item inner =
     (case prev_to (fst item) inner of
        None \<Rightarrow> (fst item, snd item, inner)
      | Some r \<Rightarrow>
          if range_overlaps r item
          then (min (fst item) (fst r), max (snd item) (snd r), btm_remove (fst r) inner)
          else (fst item, snd item, inner))"

definition btree_insert :: "btree_range_set \<Rightarrow> urange \<Rightarrow> btree_range_set" where
  "btree_insert st item =
     (let (start, stop, inner) = absorb_prev item (bt_inner st);
          (start, stop, inner) = btree_absorb item start stop inner;
          inner = (if length inner \<ge> bt_capacity st then drop 1 inner else inner)
      in st\<lparr>bt_inner := btm_insert start stop inner\<rparr>)"

definition btree_trim :: "nat \<Rightarrow> btree_range_set \<Rightarrow> urange \<Rightarrow> btree_range_set" where
  "btree_trim largest st r =
     (let st = st\<lparr>bt_inner := btm_remove (fst r) (bt_inner st)\<rparr> in
      if snd r > u64_succ largest then btree_insert st (u64_succ largest, snd r) else st)"

definition btree_remove_until :: "btree_range_set \<Rightarrow> nat \<Rightarrow> btree_range_set" where
  "btree_remove_until st largest =
     foldl (btree_trim largest) st (filter (\<lambda>(s, _). s \<le> largest) (bt_inner st))"

section \<open>The range set\<close>

definition range_set_new :: "nat \<Rightarrow> range_set" where
  "range_set_new capacity = Inline \<lparr>inl_inner = [], inl_capacity = capacity\<rparr>"

definition range_set_default :: range_set where
  "range_set_default = Inline \<lparr>inl_inner = [], inl_capacity = usize_max\<rparr>"

fun rs_iter :: "range_set \<Rightarrow> urange list" where
  "rs_iter (Inline st) = inl_inner st"
| "rs_iter (BTree st) = bt_inner st"

fun rs_len :: "range_set \<Rightarrow> nat" where
  "rs_len (Inline st) = length (inl_inner st)"
| "rs_len (BTree st) = length (bt_inner st)"

fun rs_capacity :: "range_set \<Rightarrow> nat" where
  "rs_capacity (Inline st) = inl_capacity st"
| "rs_capacity (BTree st) = bt_capacity st"

fun fixup :: "range_set \<Rightarrow> range_set" where
  "fixup (Inline st) =
     (if length (inl_inner st) = MAX_INLINE_CAPACITY
      then BTree \<lparr>bt_inner = btm_from (inl_inner st), bt_capacity = inl_capacity st\<rparr>
      else Inline st)"
| "fixup (BTree st) =
     (if length (bt_inner st) \<le> MIN_TO_INLINE
      then Inline \<lparr>inl_inner = bt_inner st, inl_capacity = bt_capacity st\<rparr>
      else BTree st)"

definition rs_insert :: "range_set \<Rightarrow> urange \<Rightarrow> range_set rust" where
  "rs_insert rs item =
     do { rs' \<leftarrow> (case rs of
                    Inline st \<Rightarrow> map_option Inline (inline_insert st item)
                  | BTree st \<Rightarrow> Some (BTree (btree_insert st item)));
          Some (fixup rs') }"

definition rs_remove_until :: "range_set \<Rightarrow> nat \<Rightarrow> range_set" where
  "rs_remove_until rs largest =
     fixup (case rs of
              Inline st \<Rightarrow> Inline (inline_remove_until st largest)
            | BTree st \<Rightarrow> BTree (btree_remove_until st largest))"

definition push_item :: "range_set \<Rightarrow> nat \<Rightarrow> range_set rust" where
  "push_item rs item = rs_insert rs (item, u64_succ item)"

definition rs_last :: "range_set \<Rightarrow> nat option" where
  "rs_last rs = (case rs_iter rs of [] \<Rightarrow> None | x # xs \<Rightarrow> Some (snd (last (x # xs)) - 1))"

definition rs_eq_range :: "range_set \<Rightarrow> urange \<Rightarrow> bool" where
  "rs_eq_range rs other \<longleftrightarrow> rs_len rs = 1 \<and> hd (rs_iter rs) = other"

section \<open>Canonical lists of ranges\<close>

text \<open>
  What a list of ranges stands for, and the form in which a range set keeps it: every range is
  non-empty, and a range ends before the next one starts, so that adjacent ranges are merged.
\<close>

definition covers :: "urange list \<Rightarrow> nat set" where
  "covers xs = (\<Union>r\<in>set xs. {fst r..<snd r})"

fun canon :: "urange list \<Rightarrow> bool" where
  "canon [] \<longleftrightarrow> True"
| "canon (r # xs) \<longleftrightarrow> fst r < snd r \<and> (\<forall>q\<in>set xs. snd r < fst q) \<and> canon xs"

named_theorems covers_simps "the integers a list of ranges stands for"

lemma covers_Nil [covers_simps]: "covers [] = {}"
  by (simp add: covers_def)

lemma covers_Cons [covers_simps]: "covers (r # xs) = {fst r..<snd r} \<union> covers xs"
  by (simp add: covers_def)

lemma covers_append [covers_simps]: "covers (xs @ ys) = covers xs \<union> covers ys"
  by (simp add: covers_def)

lemma canon_append:
  "canon (xs @ ys) \<longleftrightarrow> canon xs \<and> canon ys \<and> (\<forall>p\<in>set xs. \<forall>q\<in>set ys. snd p < fst q)"
  by (induction xs) auto

lemma canon_in: "canon xs \<Longrightarrow> r \<in> set xs \<Longrightarrow> fst r < snd r"
  by (induction xs) auto

lemma canon_apart: "canon xs \<Longrightarrow> p \<in> set xs \<Longrightarrow> q \<in> set xs \<Longrightarrow> p = q \<or> snd p < fst q \<or> snd q < fst p"
  by (induction xs) auto

lemma canon_filter: "canon xs \<Longrightarrow> canon (filter P xs)"
  by (induction xs) auto

lemma canon_tl: "canon xs \<Longrightarrow> canon (drop n xs)"
  by (metis append_take_drop_id canon_append)

lemma canon_distinct: "canon xs \<Longrightarrow> distinct xs"
  by (induction xs) (auto dest: canon_in)

lemma covers_above: "\<forall>q\<in>set xs. e < fst q \<Longrightarrow> x \<in> covers xs \<Longrightarrow> e < x"
  by (fastforce simp: covers_def)

text \<open>The form is unique: a set of integers has one canonical list.\<close>

lemma canon_unique:
  assumes "canon xs" and "canon ys" and "covers xs = covers ys"
  shows "xs = ys"
  using assms
proof (induction xs arbitrary: ys)
  case Nil
  then show ?case by (cases ys) (auto simp: covers_simps)
next
  case (Cons r xs)
  obtain q zs where ys: "ys = q # zs"
    using Cons.prems by (cases ys) (auto simp: covers_simps)
  have x_in: "x \<in> {fst r..<snd r} \<union> covers xs \<longleftrightarrow> x \<in> {fst q..<snd q} \<union> covers zs" for x
    using Cons.prems(3) ys by (simp only: covers_Cons)
  have rq: "fst r < snd r" "fst q < snd q" "canon xs" "canon zs"
    and hi: "\<And>x. x \<in> covers xs \<Longrightarrow> snd r < x" "\<And>x. x \<in> covers zs \<Longrightarrow> snd q < x"
    using Cons.prems ys covers_above by auto
  have "fst q = fst r"
    using x_in [of "fst r"] x_in [of "fst q"] rq hi(1) [of "fst q"] hi(2) [of "fst r"]
    by (cases "fst q < fst r"; cases "fst r < fst q") auto
  moreover have "snd q = snd r"
    using x_in [of "snd r"] x_in [of "snd q"] rq hi(1) [of "snd q"] hi(2) [of "snd r"]
      hi(1) [of "snd r"] hi(2) [of "snd q"] calculation
    by (cases "snd q < snd r"; cases "snd r < snd q") auto
  ultimately have "r = q" by (simp add: prod_eq_iff)
  moreover have "covers xs = covers zs"
  proof (rule set_eqI)
    fix x show "x \<in> covers xs \<longleftrightarrow> x \<in> covers zs"
      using x_in [of x] hi(1) [of x] hi(2) [of x] \<open>r = q\<close> by auto
  qed
  ultimately show ?case using Cons.IH [of zs] rq ys by simp
qed

text \<open>There are at most half as many ranges as integers below their ends.\<close>

lemma canon_length:
  "canon xs \<Longrightarrow> \<forall>q\<in>set xs. lo \<le> fst q \<and> snd q \<le> hi \<Longrightarrow> xs \<noteq> [] \<Longrightarrow> 2 * length xs \<le> hi + 1 - lo"
proof (induction xs arbitrary: lo)
  case (Cons r xs)
  show ?case
  proof (cases xs)
    case Nil
    with Cons.prems show ?thesis by auto
  next
    case (Cons q ys)
    have "2 * length xs \<le> hi + 1 - (snd r + 1)"
      using Cons.IH [of "snd r + 1"] Cons.prems Cons by (auto simp: Suc_le_eq)
    moreover have "lo + 1 \<le> snd r" "snd r + 1 < hi"
      using Cons.prems Cons canon_in [of xs q] by auto
    ultimately show ?thesis by simp
  qed
qed simp

section \<open>Inline insertion\<close>

fun absorb_next :: "urange \<Rightarrow> urange list \<Rightarrow> urange list" where
  "absorb_next r [] = [r]"
| "absorb_next r (q # xs) =
     (if snd r < fst q then r # q # xs else absorb_next (fst r, max (snd q) (snd r)) xs)"

lemma inline_merge_split:
  "inline_merge (length pre) (snd r) (pre @ r # suf) = pre @ absorb_next r suf"
proof (induction suf arbitrary: r)
  case Nil
  then show ?case by (subst inline_merge.simps) (simp add: get_at_def)
next
  case (Cons q suf)
  show ?case
    using Cons.IH [of "(fst r, max (snd q) (snd r))"]
    by (subst inline_merge.simps)
      (cases q, simp add: get_at_def vec_remove_def nth_append Let_def)
qed

lemma absorb_next_length: "length (absorb_next r suf) \<le> Suc (length suf)"
  by (induction suf arbitrary: r) (auto intro: le_SucI)

lemma absorb_next_canon:
  assumes "fst r < snd r" and "canon suf" and "\<forall>q\<in>set suf. fst r \<le> fst q"
  shows "canon (absorb_next r suf)"
    and "covers (absorb_next r suf) = {fst r..<snd r} \<union> covers suf"
    and "\<forall>q\<in>set (absorb_next r suf). fst r \<le> fst q"
  using assms
proof (induction suf arbitrary: r)
  case Nil
  { case 1 with Nil show ?case by simp next
    case 2 with Nil show ?case by (simp add: covers_simps) next
    case 3 with Nil show ?case by simp }
next
  case (Cons q suf)
  { case 1 with Cons.IH(1) [of "(fst r, max (snd q) (snd r))"] show ?case by auto next
    case 2 with Cons.IH(2) [of "(fst r, max (snd q) (snd r))"] show ?case
      by (auto simp: covers_simps) next
    case 3 with Cons.IH(3) [of "(fst r, max (snd q) (snd r))"] show ?case by auto }
qed

text \<open>A stored range that overlaps or adjoins the new one.\<close>

definition adjoins :: "urange \<Rightarrow> urange \<Rightarrow> bool" where
  "adjoins item q \<longleftrightarrow> fst item \<le> snd q \<and> fst q \<le> snd item"

lemma inline_insert_at_skip:
  assumes "\<forall>p\<in>set pre. snd p < start"
  shows "inline_insert_at 0 capacity start stop (pre @ suf)
       = inline_insert_at (length pre) capacity start stop (pre @ suf)"
  using assms
proof (induction pre arbitrary: suf rule: rev_induct)
  case (snoc p pre)
  have "inline_insert_at 0 capacity start stop (pre @ p # suf)
      = inline_insert_at (length pre) capacity start stop (pre @ p # suf)"
    using snoc by simp
  also have "\<dots> = inline_insert_at (Suc (length pre)) capacity start stop (pre @ p # suf)"
    using snoc.prems by (subst inline_insert_at.simps) (cases p, simp add: get_at_def)
  finally show ?case by simp
qed simp

lemma canon_split_at:
  assumes "canon xs"
  shows "xs = filter (\<lambda>q. snd q < a) xs @ filter (\<lambda>q. \<not> snd q < a) xs"
  using assms
proof (induction xs)
  case (Cons r xs)
  show ?case
  proof (cases "snd r < a")
    case True
    with Cons show ?thesis by simp
  next
    case False
    have "\<forall>q\<in>set xs. \<not> snd q < a" using Cons.prems False canon_in by fastforce
    then have "filter (\<lambda>q. snd q < a) xs = []" "filter (\<lambda>q. \<not> snd q < a) xs = xs"
      by (simp_all add: filter_empty_conv)
    with False show ?thesis by simp
  qed
qed simp

lemma inline_insert_touching:
  assumes "canon xs" and "fst item < snd item" and "\<exists>q\<in>set xs. adjoins item q"
  shows "\<exists>ys. inline_insert_at 0 capacity (fst item) (snd item) xs = Some ys \<and> canon ys
    \<and> covers ys = covers xs \<union> {fst item..<snd item} \<and> length ys \<le> length xs"
proof -
  define pre suf where "pre = filter (\<lambda>q. snd q < fst item) xs"
    and "suf = filter (\<lambda>q. \<not> snd q < fst item) xs"
  have xs: "xs = pre @ suf" using canon_split_at [OF assms(1)] by (simp add: pre_def suf_def)
  have pre: "\<forall>p\<in>set pre. snd p < fst item" and suf: "\<forall>p\<in>set suf. fst item \<le> snd p"
    by (auto simp: pre_def suf_def)
  obtain r rest where r: "suf = r # rest"
    using assms(3) xs pre by (cases suf) (auto simp: adjoins_def)
  have can: "canon pre" "canon rest" "fst r < snd r" "\<forall>q\<in>set rest. snd r < fst q"
      "\<forall>p\<in>set pre. \<forall>q\<in>set suf. snd p < fst q"
    using assms(1) xs r by (auto simp: canon_append)
  obtain t where t: "t \<in> set suf" "adjoins item t"
    using assms(3) xs pre by (auto simp: adjoins_def)
  then have rt: "fst r \<le> snd item" using r can by (auto simp: adjoins_def)
  let ?s = "min (fst item) (fst r)"
  let ?ys = "if snd item > snd r then pre @ absorb_next (?s, snd item) rest else pre @ (?s, snd r) # rest"
  have eq: "inline_insert_at 0 capacity (fst item) (snd item) xs = Some ?ys"
    unfolding xs inline_insert_at_skip [OF pre] unfolding r
    using suf rt r inline_merge_split [of pre "(x, y)" rest for x y, simplified]
    by (subst inline_insert_at.simps) (cases r, cases item, simp add: get_at_def min_def Let_def)
  have below: "\<forall>q\<in>set rest. ?s \<le> fst q" and pre_s: "\<forall>p\<in>set pre. snd p < ?s"
    using can r pre by auto
  have s_lt: "?s < snd item" "?s < snd r" using assms(2) can(3) by auto
  note ab = absorb_next_canon [of "(?s, snd item)" rest, simplified fst_conv snd_conv, OF s_lt(1) can(2) below]
  have ys: "canon ?ys \<and> covers ?ys = covers xs \<union> {fst item..<snd item}"
  proof (cases "snd item > snd r")
    case True
    have "canon (pre @ absorb_next (?s, snd item) rest)"
      unfolding canon_append using can(1) ab(1,3) pre_s less_le_trans by blast
    moreover have "{?s..<snd item} = {fst r..<snd r} \<union> {fst item..<snd item}"
      using True rt can(3) suf r by auto
    ultimately show ?thesis using True by (simp add: covers_simps ab(2) xs r Un_ac)
  next
    case False
    have "canon (pre @ (?s, snd r) # rest)"
      unfolding canon_append using can pre_s s_lt below r by auto
    moreover have "{?s..<snd r} = {fst r..<snd r} \<union> {fst item..<snd item}"
      using False assms(2) can(3) suf r rt by auto
    ultimately show ?thesis using False by (simp add: covers_simps xs r Un_ac)
  qed
  have "length ?ys \<le> length xs"
    using absorb_next_length [of "(?s, snd item)" rest] by (simp add: xs r)
  with eq ys show ?thesis by blast
qed

text \<open>A range that adjoins no stored one goes between those below and those above it.\<close>

definition placed :: "urange \<Rightarrow> urange list \<Rightarrow> urange list" where
  "placed item xs = filter (\<lambda>q. snd q < fst item) xs @ item # filter (\<lambda>q. snd item < fst q) xs"

lemma placed_canon:
  assumes "canon xs" and "fst item < snd item" and "\<forall>q\<in>set xs. \<not> adjoins item q"
  shows "canon (placed item xs)" and "covers (placed item xs) = covers xs \<union> {fst item..<snd item}"
    and "length (placed item xs) = Suc (length xs)"
proof -
  have above: "filter (\<lambda>q. snd item < fst q) xs = filter (\<lambda>q. \<not> snd q < fst item) xs"
    using assms canon_in [OF assms(1)] by (intro filter_cong) (fastforce simp: adjoins_def not_less)+
  note split = canon_split_at [OF assms(1), of "fst item", folded above]
  show "canon (placed item xs)"
    using assms by (auto simp: placed_def canon_append canon_filter dest: canon_in)
  have "covers (placed item xs) = covers (filter (\<lambda>q. snd q < fst item) xs @ filter (\<lambda>q. snd item < fst q) xs)
      \<union> {fst item..<snd item}"
    by (auto simp: placed_def covers_simps)
  then show "covers (placed item xs) = covers xs \<union> {fst item..<snd item}"
    by (simp only: split [symmetric])
  have "length (placed item xs)
      = Suc (length (filter (\<lambda>q. snd q < fst item) xs @ filter (\<lambda>q. snd item < fst q) xs))"
    by (simp add: placed_def)
  then show "length (placed item xs) = Suc (length xs)" by (simp only: split [symmetric])
qed

lemma inline_insert_apart:
  assumes "canon xs" and "fst item < snd item" and "\<forall>q\<in>set xs. \<not> adjoins item q"
  shows "inline_insert_at 0 capacity (fst item) (snd item) xs =
    (if length xs = capacity
     then (if \<forall>q\<in>set xs. snd item < fst q then None else Some (placed item (drop 1 xs)))
     else Some (placed item xs))"
proof -
  define pre suf where "pre = filter (\<lambda>q. snd q < fst item) xs"
    and "suf = filter (\<lambda>q. \<not> snd q < fst item) xs"
  have xs: "xs = pre @ suf" using canon_split_at [OF assms(1)] by (simp add: pre_def suf_def)
  have pre: "\<forall>p\<in>set pre. snd p < fst item" by (simp add: pre_def)
  have suf: "\<forall>p\<in>set suf. fst item \<le> snd p \<and> snd item < fst p"
    using assms(3) by (auto simp: suf_def adjoins_def)
  have before: "(\<forall>q\<in>set xs. snd item < fst q) \<longleftrightarrow> pre = []"
  proof -
    have "\<forall>p\<in>set pre. fst p < snd item"
      using canon_in [OF assms(1)] pre assms(2) xs by fastforce
    then show ?thesis using suf unfolding xs by (cases pre) auto
  qed
  have empties: "filter (\<lambda>q. snd q < fst item) suf = []" "filter (\<lambda>q. snd item < fst q) suf = suf"
      "filter (\<lambda>q. snd q < fst item) pre = pre"
    using suf pre by (auto simp: filter_empty_conv filter_id_conv)
  have none: "filter (\<lambda>q. snd item < fst q) pre = []"
    using canon_in [OF assms(1)] pre assms(2) xs by (fastforce simp: filter_empty_conv)
  have placed: "placed item xs = pre @ item # suf" "pre \<noteq> [] \<Longrightarrow> placed item (drop 1 xs) = drop 1 pre @ item # suf"
    using empties none pre by (auto simp: placed_def xs neq_Nil_conv split: if_splits)
  show ?thesis
    unfolding before placed(1) using placed(2) suf pre
    unfolding xs inline_insert_at_skip [OF pre]
    by (subst inline_insert_at.simps)
      (cases suf; cases pre; auto simp: get_at_def vec_insert_def vec_remove_def nth_append split: prod.splits)
qed

section \<open>Tree insertion\<close>

lemma btm_remove_canon:
  assumes "canon xs" and "r \<in> set xs"
  shows "canon (btm_remove (fst r) xs)" and "set (btm_remove (fst r) xs) = set xs - {r}"
    and "length (btm_remove (fst r) xs) < length xs"
proof -
  show "canon (btm_remove (fst r) xs)" using assms(1) by (simp add: btm_remove_def canon_filter)
  have "fst q = fst r \<longleftrightarrow> q = r" if "q \<in> set xs" for q
    using canon_apart [OF assms(1) that assms(2)] canon_in [OF assms(1) that] canon_in [OF assms(1,2)] by auto
  then show "set (btm_remove (fst r) xs) = set xs - {r}"
    unfolding btm_remove_def case_prod_beta set_filter by blast
  show "length (btm_remove (fst r) xs) < length xs" by (rule btm_remove_shorter [OF assms(2)])
qed

lemma btm_insert_apart:
  assumes "canon xs" and "\<forall>q\<in>set xs. snd q < fst item \<or> snd item < fst q" and "fst item < snd item"
  shows "btm_insert (fst item) (snd item) xs = placed item xs"
  using assms
proof (induction xs)
  case Nil
  then show ?case by (simp add: placed_def)
next
  case (Cons r xs)
  have r: "fst r < snd r" using Cons.prems by simp
  show ?case
  proof (cases "snd r < fst item")
    case True
    with Cons r show ?thesis by (cases r) (auto simp: placed_def)
  next
    case False
    then have up: "snd item < fst r" using Cons.prems(2) by auto
    then have "\<forall>q\<in>set xs. snd item < fst q" "\<forall>q\<in>set xs. \<not> snd q < fst item"
      using Cons.prems r canon_in [of xs] by fastforce+
    then have "filter (\<lambda>q. snd item < fst q) xs = xs" "filter (\<lambda>q. snd q < fst item) xs = []"
      by (simp_all add: filter_id_conv filter_empty_conv)
    with up False Cons.prems(3) show ?thesis by (cases r) (simp add: placed_def)
  qed
qed

lemma next_to_canon:
  assumes "canon xs"
  shows "next_to x xs = None \<Longrightarrow> q \<in> set xs \<Longrightarrow> fst q < x"
    and "next_to x xs = Some r \<Longrightarrow> q \<in> set xs \<Longrightarrow> fst q < x \<or> q = r \<or> snd r < fst q"
proof -
  show "fst q < x" if "next_to x xs = None" "q \<in> set xs"
    using that by (auto simp: next_to_def filter_empty_conv split: list.splits)
  assume r: "next_to x xs = Some r" and q: "q \<in> set xs"
  obtain rs where rs: "filter (\<lambda>(s, _). x \<le> s) xs = r # rs"
    using r by (auto simp: next_to_def split: list.splits)
  have "canon (r # rs)" using canon_filter [OF assms, of "\<lambda>(s, _). x \<le> s"] by (simp only: rs)
  moreover have "q \<in> set (r # rs)" if "x \<le> fst q"
    using q that by (simp only: rs [symmetric]) auto
  ultimately show "fst q < x \<or> q = r \<or> snd r < fst q"
    by (cases "x \<le> fst q") auto
qed

lemma prev_to_canon:
  assumes "canon xs"
  shows "prev_to x xs = None \<Longrightarrow> q \<in> set xs \<Longrightarrow> x < fst q"
    and "prev_to x xs = Some r \<Longrightarrow> r \<in> set xs \<and> fst r \<le> x"
    and "prev_to x xs = Some r \<Longrightarrow> q \<in> set xs \<Longrightarrow> x < fst q \<or> q = r \<or> snd q < fst r"
proof -
  let ?f = "filter (\<lambda>(s, _). s \<le> x) xs"
  show "x < fst q" if "prev_to x xs = None" "q \<in> set xs"
    using that by (force simp: prev_to_def filter_empty_conv Let_def split: if_splits)
  assume r: "prev_to x xs = Some r"
  obtain rs where rs: "?f = rs @ [r]"
    using r by (auto simp: prev_to_def Let_def split: if_splits) (metis append_butlast_last_id)
  then have "r \<in> set ?f" by simp
  then show "r \<in> set xs \<and> fst r \<le> x" by auto
  assume q: "q \<in> set xs"
  have "canon (rs @ [r])" using canon_filter [OF assms, of "\<lambda>(s, _). s \<le> x"] by (simp only: rs)
  moreover have "q \<in> set (rs @ [r])" if "fst q \<le> x"
    using q that by (simp only: rs [symmetric]) auto
  ultimately show "x < fst q \<or> q = r \<or> snd q < fst r"
    by (cases "fst q \<le> x") (auto simp: canon_append)
qed

lemma covers_remove:
  "canon xs \<Longrightarrow> r \<in> set xs \<Longrightarrow> covers xs = covers (btm_remove (fst r) xs) \<union> {fst r..<snd r}"
  unfolding covers_def by (auto simp: btm_remove_canon(2))

text \<open>
  The loop that absorbs the ranges above the new one: \<open>start\<close> and \<open>stop\<close> only grow the new range,
  and \<open>stop\<close> leaves it only when no further range can touch.
\<close>

definition absorb_inv :: "urange \<Rightarrow> nat \<Rightarrow> nat \<Rightarrow> urange list \<Rightarrow> bool" where
  "absorb_inv item start stop inner \<longleftrightarrow>
     canon inner \<and> fst item < snd item \<and> start \<le> fst item \<and> snd item \<le> stop
     \<and> (\<forall>q\<in>set inner. snd q < start \<or> fst item < fst q)
     \<and> (stop = snd item \<or> (\<forall>q\<in>set inner. snd q < start \<or> stop < fst q))"

lemma absorb_inv_step:
  assumes inv: "absorb_inv item start stop inner" and r: "next_to start inner = Some r"
  shows "fst item < fst r" and "range_contains item (fst r) \<and> range_contains item (snd r) \<Longrightarrow>
      absorb_inv item start stop (btm_remove (fst r) inner)"
    and "range_overlaps r item \<Longrightarrow> stop = snd item \<and> fst r \<le> snd item \<and> snd item \<le> snd r"
    and "range_overlaps r item \<Longrightarrow>
      absorb_inv item start (max stop (snd r)) (btm_remove (fst r) inner)"
proof -
  note can = inv [unfolded absorb_inv_def]
  have rin: "r \<in> set inner" "start \<le> fst r" "fst r < snd r"
    using next_to_in [OF r] can canon_in by auto
  show lt: "fst item < fst r" using can rin by auto
  note rem = btm_remove_canon [OF conjunct1 [OF can] rin(1)]
  show "absorb_inv item start stop (btm_remove (fst r) inner)"
    if "range_contains item (fst r) \<and> range_contains item (snd r)"
    using can rem(1) by (auto simp: absorb_inv_def rem(2))
  show ov: "stop = snd item \<and> fst r \<le> snd item \<and> snd item \<le> snd r" if "range_overlaps r item"
    using that lt can rin by (auto simp: range_overlaps_def)
  have above: "snd q < start \<or> snd r < fst q" if "q \<in> set inner - {r}" for q
    using next_to_canon(2) [OF conjunct1 [OF can] r, of q] that can rin by fastforce
  show "absorb_inv item start (max stop (snd r)) (btm_remove (fst r) inner)" if "range_overlaps r item"
    using can rem(1) ov [OF that] above unfolding absorb_inv_def rem(2) by (auto simp: max_def)
qed

lemma absorb_inv_apart:
  assumes "absorb_inv item start stop inner" and "next_to start inner = Some r"
    and "\<not> (range_contains item (fst r) \<and> range_contains item (snd r))" and "\<not> range_overlaps r item"
  shows "\<forall>q\<in>set inner. snd q < start \<or> stop < fst q"
proof -
  have can: "canon inner" using assms(1) by (simp add: absorb_inv_def)
  have "fst r < snd r" using next_to_in [OF assms(2)] canon_in [OF can] by auto
  then show ?thesis
    using assms absorb_inv_step(1) [OF assms(1,2)] next_to_canon(2) [OF can assms(2)]
    unfolding absorb_inv_def by (fastforce simp: range_contains_def range_overlaps_def)
qed

lemma btree_absorb_result:
  assumes "absorb_inv item start stop inner" and "btree_absorb item start stop inner = (start', stop', inner')"
  shows "start' = start \<and> snd item \<le> stop' \<and> canon inner'
    \<and> (\<forall>q\<in>set inner'. snd q < start' \<or> stop' < fst q)
    \<and> covers inner' \<union> {start'..<stop'} = covers inner \<union> {start..<stop}
    \<and> length inner' \<le> length inner \<and> (length inner' = length inner \<longrightarrow> inner' = inner \<and> stop' = stop)"
  using assms
proof (induction item start stop inner rule: btree_absorb.induct)
  case (1 item start stop inner)
  note inv = 1(3)
  have can: "canon inner" using inv by (simp add: absorb_inv_def)
  show ?case
  proof (cases "next_to start inner")
    case None
    then have "\<forall>q\<in>set inner. snd q < start"
      using inv next_to_canon(1) [OF can None] unfolding absorb_inv_def by fastforce
    with None 1(4) inv show ?thesis
      by (auto simp: btree_absorb.simps [of item start stop inner] absorb_inv_def)
  next
    case (Some r)
    note step = absorb_inv_step [OF inv Some]
    have rin: "r \<in> set inner" "start \<le> fst r" "fst r < snd r"
      using next_to_in [OF Some] canon_in [OF can] by auto
    note rem = btm_remove_canon [OF can rin(1)]
    note cov = covers_remove [OF can rin(1)]
    consider (inside) "range_contains item (fst r) \<and> range_contains item (snd r)"
      | (apart) "\<not> (range_contains item (fst r) \<and> range_contains item (snd r))" "\<not> range_overlaps r item"
      | (over) "\<not> (range_contains item (fst r) \<and> range_contains item (snd r))" "range_overlaps r item"
      by blast
    then show ?thesis
    proof cases
      case inside
      have sub: "{fst r..<snd r} \<subseteq> {start..<stop}"
        using inside inv by (auto simp: range_contains_def absorb_inv_def)
      show ?thesis
        using 1(1) [OF Some inside step(2) [OF inside]] 1(4) Some inside rem(3) cov sub
        by (auto simp: btree_absorb.simps [of item start stop inner])
    next
      case apart
      have "start' = start \<and> stop' = stop \<and> inner' = inner"
        using apart Some 1(4) by (auto simp: btree_absorb.simps [of item start stop inner])
      with absorb_inv_apart [OF inv Some apart] inv show ?thesis by (simp add: absorb_inv_def)
    next
      case over
      have m: "min start (fst r) = start" using rin by simp
      have un: "{start..<max stop (snd r)} = {start..<stop} \<union> {fst r..<snd r}"
        using step(3) [OF over(2)] rin inv by (auto simp: absorb_inv_def)
      show ?thesis
        using 1(2) [OF Some over(1)] over(2) step(4) [OF over(2)] 1(4) Some over rem(3) cov un
        by (auto simp: btree_absorb.simps [of item start stop inner] m)
    qed
  qed
qed

lemma absorb_prev_inv:
  assumes can: "canon xs" and item: "fst item < snd item" and eq: "absorb_prev item xs = (start, stop, inner)"
  shows "absorb_inv item start stop inner"
    and "covers inner \<union> {start..<stop} = covers xs \<union> {fst item..<snd item}"
    and "length inner \<le> length xs"
    and "length inner = length xs \<Longrightarrow> inner = xs \<and> start = fst item \<and> stop = snd item"
proof -
  note prev = prev_to_canon [OF can, of "fst item"]
  have "absorb_inv item start stop inner \<and> covers inner \<union> {start..<stop} = covers xs \<union> {fst item..<snd item}
      \<and> length inner \<le> length xs \<and> (length inner = length xs \<longrightarrow> inner = xs \<and> start = fst item \<and> stop = snd item)"
  proof (cases "prev_to (fst item) xs")
    case None
    with can item prev(1) eq show ?thesis by (auto simp: absorb_prev_def absorb_inv_def)
  next
    case (Some r)
    have r: "r \<in> set xs" "fst r \<le> fst item" "fst r < snd r"
      using prev(2) [OF Some] canon_in [OF can] by auto
    show ?thesis
    proof (cases "range_overlaps r item")
      case True
      note rem = btm_remove_canon [OF can r(1)]
      have ov: "fst item \<le> snd r" using True r item by (auto simp: range_overlaps_def)
      have un: "{fst r..<max (snd item) (snd r)} = {fst r..<snd r} \<union> {fst item..<snd item}"
        using r ov item by auto
      have q: "snd q < fst r \<or> fst item < fst q \<and> snd r < fst q" if "q \<in> set xs - {r}" for q
        using canon_apart [OF can r(1), of q] prev(3) [OF Some, of q] that ov by auto
      have "start = fst r" "stop = max (snd item) (snd r)" "inner = btm_remove (fst r) xs"
        using eq Some True r(2) by (auto simp: absorb_prev_def)
      then show ?thesis
        using r rem(1,3) item ov un covers_remove [OF can r(1)] q
        by (auto simp: absorb_inv_def max_def rem(2))
    next
      case False
      then have "snd r < fst item" using r item by (auto simp: range_overlaps_def)
      moreover have "start = fst item" "stop = snd item" "inner = xs"
        using eq Some False by (auto simp: absorb_prev_def)
      ultimately show ?thesis
        using can item prev(3) [OF Some] r by (fastforce simp: absorb_inv_def)
    qed
  qed
  then show "absorb_inv item start stop inner"
    and "covers inner \<union> {start..<stop} = covers xs \<union> {fst item..<snd item}"
    and "length inner \<le> length xs"
    and "length inner = length xs \<Longrightarrow> inner = xs \<and> start = fst item \<and> stop = snd item"
    by auto
qed

text \<open>The range the tree stores, and what is left of the other ranges.\<close>

lemma btree_insert_parts:
  assumes can: "canon (bt_inner st)" and item: "fst item < snd item"
  obtains r inner where
    "bt_inner (btree_insert st item) = placed r (if length inner \<ge> bt_capacity st then drop 1 inner else inner)"
    "canon inner" "fst r < snd r" "\<forall>q\<in>set inner. \<not> adjoins r q"
    "covers inner \<union> {fst r..<snd r} = covers (bt_inner st) \<union> {fst item..<snd item}"
    "length inner \<le> length (bt_inner st)"
    "length inner = length (bt_inner st) \<Longrightarrow> inner = bt_inner st \<and> r = item"
proof -
  obtain s1 e1 i1 where one: "absorb_prev item (bt_inner st) = (s1, e1, i1)" by (metis prod_cases3)
  obtain s2 e2 i2 where two: "btree_absorb item s1 e1 i1 = (s2, e2, i2)" by (metis prod_cases3)
  note p1 = absorb_prev_inv [OF can item one]
  note p2 = btree_absorb_result [OF p1(1) two]
  let ?i = "if length i2 \<ge> bt_capacity st then drop 1 i2 else i2"
  have lt: "s2 < e2" using p1(1) p2 item by (auto simp: absorb_inv_def)
  have "\<forall>q\<in>set ?i. snd q < s2 \<or> e2 < fst q" using p2 by (auto dest: in_set_dropD)
  then have "btm_insert s2 e2 ?i = placed (s2, e2) ?i"
    using btm_insert_apart [of ?i "(s2, e2)"] lt p2 canon_tl [of i2 1] by simp
  then have "bt_inner (btree_insert st item) = placed (s2, e2) ?i"
    by (simp add: btree_insert_def one two Let_def)
  then show ?thesis
    using p1 p2 lt by (intro that [of "(s2, e2)" i2]) (auto simp: adjoins_def)
qed

lemma bt_capacity_insert [simp]: "bt_capacity (btree_insert st item) = bt_capacity st"
  by (simp add: btree_insert_def Let_def split: prod.splits)

lemma btree_insert_touching:
  assumes "canon (bt_inner st)" and "fst item < snd item" and "length (bt_inner st) \<le> bt_capacity st"
    and "\<exists>q\<in>set (bt_inner st). adjoins item q"
  shows "canon (bt_inner (btree_insert st item))
    \<and> covers (bt_inner (btree_insert st item)) = covers (bt_inner st) \<union> {fst item..<snd item}
    \<and> length (bt_inner (btree_insert st item)) \<le> length (bt_inner st)"
proof -
  obtain r inner where p:
    "bt_inner (btree_insert st item) = placed r (if length inner \<ge> bt_capacity st then drop 1 inner else inner)"
    "canon inner" "fst r < snd r" "\<forall>q\<in>set inner. \<not> adjoins r q"
    "covers inner \<union> {fst r..<snd r} = covers (bt_inner st) \<union> {fst item..<snd item}"
    "length inner \<le> length (bt_inner st)"
    "length inner = length (bt_inner st) \<Longrightarrow> inner = bt_inner st \<and> r = item"
    using btree_insert_parts [OF assms(1,2)] by metis
  have "length inner < length (bt_inner st)" using p(4,6,7) assms(4) by (metis le_neq_implies_less)
  with p assms(3) show ?thesis using placed_canon [OF p(2-4)] by simp
qed

lemma btree_insert_apart:
  assumes "canon (bt_inner st)" and "fst item < snd item" and "\<forall>q\<in>set (bt_inner st). \<not> adjoins item q"
  shows "bt_inner (btree_insert st item) =
    placed item (if length (bt_inner st) \<ge> bt_capacity st then drop 1 (bt_inner st) else bt_inner st)"
proof -
  obtain r inner where p:
    "bt_inner (btree_insert st item) = placed r (if length inner \<ge> bt_capacity st then drop 1 inner else inner)"
    "canon inner" "fst r < snd r" "\<forall>q\<in>set inner. \<not> adjoins r q"
    "covers inner \<union> {fst r..<snd r} = covers (bt_inner st) \<union> {fst item..<snd item}"
    "length inner \<le> length (bt_inner st)"
    "length inner = length (bt_inner st) \<Longrightarrow> inner = bt_inner st \<and> r = item"
    using btree_insert_parts [OF assms(1,2)] by metis
  have "placed r inner = placed item (bt_inner st)"
    using canon_unique [of "placed r inner" "placed item (bt_inner st)"]
      placed_canon [OF p(2-4)] placed_canon [OF assms] p(5) by simp
  then have "length inner = length (bt_inner st)"
    using placed_canon(3) [OF p(2-4)] placed_canon(3) [OF assms] by simp
  with p(1,7) show ?thesis by simp
qed

section \<open>The invariant of a range set\<close>

fun rs_shape :: "range_set \<Rightarrow> bool" where
  "rs_shape (Inline st) \<longleftrightarrow> length (inl_inner st) < MAX_INLINE_CAPACITY"
| "rs_shape (BTree st) \<longleftrightarrow> length (bt_inner st) > MIN_TO_INLINE"

definition rs_inv :: "range_set \<Rightarrow> bool" where
  "rs_inv rs \<longleftrightarrow> canon (rs_iter rs) \<and> rs_shape rs \<and> rs_len rs \<le> rs_capacity rs"

abbreviation rs_covers :: "range_set \<Rightarrow> nat set" where
  "rs_covers rs \<equiv> covers (rs_iter rs)"

lemma rs_len_iter: "rs_len rs = length (rs_iter rs)"
  by (cases rs) simp_all

lemma btm_insert_end: "\<forall>q\<in>set m. fst q < k \<Longrightarrow> btm_insert k v m = m @ [(k, v)]"
  by (induction m) auto

lemma btm_from_canon: "canon xs \<Longrightarrow> btm_from xs = xs"
proof (induction xs rule: rev_induct)
  case (snoc r xs)
  have "\<forall>q\<in>set xs. fst q < fst r"
    using snoc.prems canon_in [of xs] by (fastforce simp: canon_append)
  with snoc show ?case by (cases r) (simp add: btm_from_def canon_append btm_insert_end)
qed (simp add: btm_from_def)

lemma fixup_iter [simp]: "canon (rs_iter rs) \<Longrightarrow> rs_iter (fixup rs) = rs_iter rs"
  by (cases rs) (auto simp: btm_from_canon)

lemma fixup_capacity [simp]: "rs_capacity (fixup rs) = rs_capacity rs"
  by (cases rs) auto

lemma fixup_shape:
  "canon (rs_iter rs) \<Longrightarrow> (\<And>st. rs = Inline st \<Longrightarrow> length (inl_inner st) \<le> MAX_INLINE_CAPACITY) \<Longrightarrow>
     rs_shape (fixup rs)"
  by (cases rs) (auto simp: MAX_INLINE_CAPACITY_def MIN_TO_INLINE_def btm_from_canon)

declare fixup.simps [simp del]

lemma fixup_inv:
  assumes "canon (rs_iter rs)" and "rs_len rs \<le> rs_capacity rs"
    and "\<And>st. rs = Inline st \<Longrightarrow> length (inl_inner st) \<le> MAX_INLINE_CAPACITY"
  shows "rs_inv (fixup rs)"
  using assms fixup_shape [of rs] by (simp add: rs_inv_def rs_len_iter)

lemma rs_inv_new: "rs_inv (range_set_new capacity)" "rs_inv range_set_default"
  by (simp_all add: rs_inv_def range_set_new_def range_set_default_def MAX_INLINE_CAPACITY_def)

text \<open>Inserting a range that adjoins a stored one is union, whatever the number of ranges.\<close>

lemma rs_insert_touching:
  assumes "rs_inv rs" and "fst item < snd item" and "\<exists>q\<in>set (rs_iter rs). adjoins item q"
  shows "\<exists>rs'. rs_insert rs item = Some rs' \<and> rs_inv rs' \<and> rs_capacity rs' = rs_capacity rs
    \<and> rs_covers rs' = rs_covers rs \<union> {fst item..<snd item} \<and> rs_len rs' \<le> rs_len rs"
proof (cases rs)
  case (Inline st)
  obtain ys where ys: "inline_insert_at 0 (inl_capacity st) (fst item) (snd item) (inl_inner st) = Some ys"
      "canon ys" "covers ys = covers (inl_inner st) \<union> {fst item..<snd item}" "length ys \<le> length (inl_inner st)"
    using inline_insert_touching [of "inl_inner st" item] assms Inline by (auto simp: rs_inv_def)
  have "rs_inv (fixup (Inline (st\<lparr>inl_inner := ys\<rparr>)))"
    using assms(1) ys(2,4) Inline by (intro fixup_inv) (auto simp: rs_inv_def)
  with ys Inline show ?thesis
    by (simp add: rs_insert_def inline_insert_def rs_len_iter)
next
  case (BTree st)
  note p = btree_insert_touching [of st item]
  have "rs_inv (fixup (BTree (btree_insert st item)))"
    using assms p BTree by (intro fixup_inv) (auto simp: rs_inv_def)
  with assms p BTree show ?thesis
    by (simp add: rs_insert_def rs_inv_def rs_len_iter)
qed

text \<open>
  A range that adjoins no stored one is added; a full set first gives up its lowest range, and an
  inline one panics when the new range lies below all others.
\<close>

lemma rs_insert_apart:
  assumes "rs_inv rs" and "fst item < snd item" and "\<forall>q\<in>set (rs_iter rs). \<not> adjoins item q"
  shows "rs_len rs < rs_capacity rs \<Longrightarrow>
      \<exists>rs'. rs_insert rs item = Some rs' \<and> rs_inv rs' \<and> rs_capacity rs' = rs_capacity rs
        \<and> rs_iter rs' = placed item (rs_iter rs)"
    and "rs_len rs = rs_capacity rs \<Longrightarrow> rs_len rs \<noteq> 0 \<Longrightarrow>
      \<not> (\<exists>st. rs = Inline st \<and> (\<forall>q\<in>set (inl_inner st). snd item < fst q)) \<Longrightarrow>
      \<exists>rs'. rs_insert rs item = Some rs' \<and> rs_inv rs' \<and> rs_capacity rs' = rs_capacity rs
        \<and> rs_iter rs' = placed item (drop 1 (rs_iter rs))"
    and "rs_len rs = rs_capacity rs \<Longrightarrow> rs = Inline st \<Longrightarrow> \<forall>q\<in>set (inl_inner st). snd item < fst q \<Longrightarrow>
      rs_insert rs item = None"
proof -
  have can: "canon (rs_iter rs)" and len: "rs_len rs \<le> rs_capacity rs" using assms(1) by (simp_all add: rs_inv_def)
  have apart1: "\<forall>q\<in>set (drop 1 (rs_iter rs)). \<not> adjoins item q"
    using assms(3) by (auto dest: in_set_dropD)
  note p0 = placed_canon [OF can assms(2,3)] and p1 = placed_canon [OF canon_tl [OF can] assms(2) apart1]
  note shape = assms(1) [unfolded rs_inv_def]
  show "\<exists>rs'. rs_insert rs item = Some rs' \<and> rs_inv rs' \<and> rs_capacity rs' = rs_capacity rs
        \<and> rs_iter rs' = placed item (rs_iter rs)" if room: "rs_len rs < rs_capacity rs"
  proof (cases rs)
    case (Inline st)
    have "rs_inv (fixup (Inline (st\<lparr>inl_inner := placed item (inl_inner st)\<rparr>)))"
      using p0 room shape Inline by (intro fixup_inv) auto
    with Inline inline_insert_apart [OF can assms(2,3)] room p0 show ?thesis
      by (simp add: rs_insert_def inline_insert_def)
  next
    case (BTree st)
    have eq: "bt_inner (btree_insert st item) = placed item (bt_inner st)"
      using btree_insert_apart [of st item] can assms(2,3) BTree room by simp
    have "rs_inv (fixup (BTree (btree_insert st item)))"
      using p0 room BTree eq by (intro fixup_inv) auto
    with BTree eq p0 show ?thesis by (simp add: rs_insert_def)
  qed
  show "\<exists>rs'. rs_insert rs item = Some rs' \<and> rs_inv rs' \<and> rs_capacity rs' = rs_capacity rs
        \<and> rs_iter rs' = placed item (drop 1 (rs_iter rs))"
    if full: "rs_len rs = rs_capacity rs" "rs_len rs \<noteq> 0"
      and low: "\<not> (\<exists>st. rs = Inline st \<and> (\<forall>q\<in>set (inl_inner st). snd item < fst q))"
  proof (cases rs)
    case (Inline st)
    have "rs_inv (fixup (Inline (st\<lparr>inl_inner := placed item (drop 1 (inl_inner st))\<rparr>)))"
      using p1 full shape Inline by (intro fixup_inv) auto
    with Inline inline_insert_apart [OF can assms(2,3)] full p1 low show ?thesis
      by (simp add: rs_insert_def inline_insert_def)
  next
    case (BTree st)
    have eq: "bt_inner (btree_insert st item) = placed item (drop 1 (bt_inner st))"
      using btree_insert_apart [of st item] can assms(2,3) BTree full by simp
    have "rs_inv (fixup (BTree (btree_insert st item)))"
      using p1 full BTree eq by (intro fixup_inv) auto
    with BTree eq p1 show ?thesis by (simp add: rs_insert_def)
  qed
  show "rs_insert rs item = None" if "rs_len rs = rs_capacity rs" "rs = Inline st"
      "\<forall>q\<in>set (inl_inner st). snd item < fst q"
    using inline_insert_apart [OF can assms(2,3), of "rs_capacity rs"] that
    by (simp add: rs_insert_def inline_insert_def)
qed

text \<open>With room for one more range, insertion never panics and is union.\<close>

lemma rs_insert_room:
  assumes "rs_inv rs" and "fst item < snd item" and "rs_len rs < rs_capacity rs"
  shows "\<exists>rs'. rs_insert rs item = Some rs' \<and> rs_inv rs' \<and> rs_capacity rs' = rs_capacity rs
    \<and> rs_covers rs' = rs_covers rs \<union> {fst item..<snd item}"
proof (cases "\<exists>q\<in>set (rs_iter rs). adjoins item q")
  case True
  then show ?thesis using rs_insert_touching [OF assms(1,2)] by blast
next
  case False
  then show ?thesis
    using rs_insert_apart(1) [OF assms(1,2)] assms(3) placed_canon(2) [OF _ assms(2)] assms(1)
    by (metis rs_inv_def)
qed

section \<open>Removal of an initial segment\<close>

lemma inline_drop_until_canon:
  assumes "canon xs" and "largest < 18446744073709551615"
  shows "canon (inline_drop_until largest xs)"
    and "covers (inline_drop_until largest xs) = {x \<in> covers xs. largest < x}"
    and "length (inline_drop_until largest xs) \<le> length xs"
  using assms
proof (induction xs)
  case Nil
  { case 1 then show ?case by simp next
    case 2 then show ?case by (simp add: covers_simps) next
    case 3 then show ?case by simp }
next
  case (Cons r xs)
  obtain s e where r: "r = (s, e)" by (cases r)
  have hi: "canon (r # xs) \<Longrightarrow> x \<in> covers xs \<Longrightarrow> e < x" for x using r covers_above [of xs e x] by auto
  { case 1 with Cons.IH(1) r show ?case by (auto simp: u64_succ_def max_def)
  next
    case 2
    have "x \<in> covers xs \<Longrightarrow> \<not> e \<le> largest \<Longrightarrow> largest < x" for x using hi [OF 2(1), of x] by simp
    with 2 Cons.IH(2) r show ?case
      by (auto simp: u64_succ_def covers_simps max_def)
  next
    case 3 with Cons.IH(3) r show ?case by (auto simp: Let_def) }
qed

text \<open>One round of the loop of \<open>BTreeRangeSet::remove_until\<close>.\<close>

lemma btree_trim_step:
  assumes "canon (bt_inner st)" and "length (bt_inner st) \<le> bt_capacity st" and "r \<in> set (bt_inner st)"
    and "fst r \<le> largest" and "largest < 18446744073709551615"
  shows "canon (bt_inner (btree_trim largest st r))"
    and "length (bt_inner (btree_trim largest st r)) \<le> length (bt_inner st)"
    and "covers (bt_inner (btree_trim largest st r)) = covers (bt_inner st) - {fst r..<snd r} \<inter> {..largest}"
    and "set (bt_inner st) - {r} \<subseteq> set (bt_inner (btree_trim largest st r))"
    and "bt_capacity (btree_trim largest st r) = bt_capacity st"
proof -
  note can = assms(1) and rem = btm_remove_canon [OF assms(1,3)]
  have r: "fst r < snd r" using canon_in [OF assms(1,3)] .
  have others: "q \<in> set (btm_remove (fst r) (bt_inner st)) \<Longrightarrow> snd q < fst r \<or> snd r < fst q" for q
    using canon_apart [OF can assms(3), of q] by (auto simp: rem(2))
  have disj: "covers (btm_remove (fst r) (bt_inner st)) \<inter> {fst r..<snd r} = {}"
    using others unfolding covers_def by fastforce
  have cov: "covers (bt_inner st) - {fst r..<snd r} \<inter> {..largest} =
      covers (btm_remove (fst r) (bt_inner st)) \<union> {largest + 1..<snd r}"
    using covers_remove [OF can assms(3)] disj assms(4) by auto
  have wrap: "u64_succ largest = largest + 1" using assms(5) by (simp add: u64_succ_def)
  have main: "canon (bt_inner (btree_trim largest st r)) \<and> length (bt_inner (btree_trim largest st r)) \<le> length (bt_inner st)
    \<and> covers (bt_inner (btree_trim largest st r)) = covers (btm_remove (fst r) (bt_inner st)) \<union> {largest + 1..<snd r}
    \<and> set (bt_inner st) - {r} \<subseteq> set (bt_inner (btree_trim largest st r))"
  proof (cases "snd r > largest + 1")
    case True
    let ?i = "(largest + 1, snd r)"
    have apart: "\<forall>q\<in>set (btm_remove (fst r) (bt_inner st)). \<not> adjoins ?i q"
      using others assms(4) True by (fastforce simp: adjoins_def)
    have lt: "fst ?i < snd ?i" using True by simp
    have eq: "bt_inner (btree_trim largest st r) = placed ?i (btm_remove (fst r) (bt_inner st))"
      using btree_insert_apart [of "st\<lparr>bt_inner := btm_remove (fst r) (bt_inner st)\<rparr>" ?i] rem lt apart assms(2) True wrap
      by (simp add: btree_trim_def)
    have "set (bt_inner st) - {r} \<subseteq> set (placed ?i (btm_remove (fst r) (bt_inner st)))"
      using apart canon_in [OF rem(1)] lt unfolding rem(2) [symmetric]
      by (fastforce simp: placed_def adjoins_def not_le)
    with placed_canon [OF rem(1) lt apart] rem(3) show ?thesis by (simp add: eq)
  next
    case False
    with rem wrap show ?thesis by (simp add: btree_trim_def)
  qed
  then show "canon (bt_inner (btree_trim largest st r))" and "length (bt_inner (btree_trim largest st r)) \<le> length (bt_inner st)"
    and "covers (bt_inner (btree_trim largest st r)) = covers (bt_inner st) - {fst r..<snd r} \<inter> {..largest}"
    and "set (bt_inner st) - {r} \<subseteq> set (bt_inner (btree_trim largest st r))" by (simp_all only: cov)
  show "bt_capacity (btree_trim largest st r) = bt_capacity st" by (simp add: btree_trim_def Let_def)
qed

lemma btree_trim_all:
  assumes "canon (bt_inner st)" and "length (bt_inner st) \<le> bt_capacity st" and "set rs \<subseteq> set (bt_inner st)"
    and "distinct rs" and "\<forall>r\<in>set rs. fst r \<le> largest" and "largest < 18446744073709551615"
  shows "canon (bt_inner (foldl (btree_trim largest) st rs))
    \<and> length (bt_inner (foldl (btree_trim largest) st rs)) \<le> length (bt_inner st)
    \<and> covers (bt_inner (foldl (btree_trim largest) st rs)) = covers (bt_inner st) - covers rs \<inter> {..largest}
    \<and> bt_capacity (foldl (btree_trim largest) st rs) = bt_capacity st"
  using assms(1-5)
proof (induction rs arbitrary: st)
  case Nil
  then show ?case by (simp add: covers_simps)
next
  case (Cons r rs)
  have rin: "r \<in> set (bt_inner st)" and low: "fst r \<le> largest" using Cons.prems by auto
  note step = btree_trim_step [OF Cons.prems(1,2) rin low assms(6)]
  have sub: "set rs \<subseteq> set (bt_inner (btree_trim largest st r))" using step(4) Cons.prems(3,4) by auto
  have "covers (bt_inner (btree_trim largest st r)) - covers rs \<inter> {..largest}
      = covers (bt_inner st) - covers (r # rs) \<inter> {..largest}"
    using step(3) by (auto simp: covers_simps)
  with Cons.IH [OF step(1) _ sub] step(2,5) Cons.prems(2,4,5) show ?case by auto
qed

lemma covers_low:
  "covers xs - covers (filter (\<lambda>(s, _). s \<le> n) xs) \<inter> {..n} = {x \<in> covers xs. n < x}"
proof (rule set_eqI)
  fix x
  have "x \<in> covers xs \<Longrightarrow> x \<le> n \<Longrightarrow> x \<in> covers (filter (\<lambda>(s, _). s \<le> n) xs)"
    by (force simp: covers_def)
  then show "x \<in> covers xs - covers (filter (\<lambda>(s, _). s \<le> n) xs) \<inter> {..n} \<longleftrightarrow> x \<in> {x \<in> covers xs. n < x}"
    by (cases "x \<le> n") auto
qed

text \<open>Removal keeps the invariant and exactly the integers above the bound.\<close>

lemma rs_remove_until_covers:
  assumes "rs_inv rs" and "largest < 18446744073709551615"
  shows "rs_inv (rs_remove_until rs largest)" and "rs_capacity (rs_remove_until rs largest) = rs_capacity rs"
    and "rs_covers (rs_remove_until rs largest) = {x \<in> rs_covers rs. largest < x}"
proof -
  have can: "canon (rs_iter rs)" and len: "rs_len rs \<le> rs_capacity rs" and shape: "rs_shape rs"
    using assms(1) by (simp_all add: rs_inv_def)
  have "rs_inv (rs_remove_until rs largest) \<and> rs_capacity (rs_remove_until rs largest) = rs_capacity rs
    \<and> rs_covers (rs_remove_until rs largest) = {x \<in> rs_covers rs. largest < x}"
  proof (cases rs)
    case (Inline st)
    note p = inline_drop_until_canon [OF can assms(2)]
    have "rs_inv (fixup (Inline (inline_remove_until st largest)))"
      using p(1,3) len shape Inline by (intro fixup_inv) (auto simp: inline_remove_until_def)
    with p Inline show ?thesis by (simp add: rs_remove_until_def inline_remove_until_def)
  next
    case (BTree st)
    let ?low = "filter (\<lambda>(s, _). s \<le> largest) (bt_inner st)"
    have p: "canon (bt_inner (btree_remove_until st largest))
      \<and> length (bt_inner (btree_remove_until st largest)) \<le> length (bt_inner st)
      \<and> covers (bt_inner (btree_remove_until st largest)) = covers (bt_inner st) - covers ?low \<inter> {..largest}
      \<and> bt_capacity (btree_remove_until st largest) = bt_capacity st"
      unfolding btree_remove_until_def using can len BTree assms(2) canon_distinct [of "bt_inner st"]
      by (intro btree_trim_all) auto
    have "covers (bt_inner st) - covers ?low \<inter> {..largest} = {x \<in> covers (bt_inner st). largest < x}"
      by (rule covers_low)
    moreover have "rs_inv (fixup (BTree (btree_remove_until st largest)))"
      using p len BTree by (intro fixup_inv) auto
    ultimately show ?thesis using p BTree by (simp add: rs_remove_until_def)
  qed
  then show "rs_inv (rs_remove_until rs largest)" and "rs_capacity (rs_remove_until rs largest) = rs_capacity rs"
    and "rs_covers (rs_remove_until rs largest) = {x \<in> rs_covers rs. largest < x}" by simp_all
qed

section \<open>The interface\<close>

text \<open>
  What the ACK parser and the send buffer rely on: a store of 64-bit integers with insertion of a
  range, removal of an initial segment, and iteration over canonical ranges.
\<close>

locale range_store =
  fixes inv :: "'s \<Rightarrow> bool" and denotes :: "'s \<Rightarrow> nat set" and add :: "'s \<Rightarrow> urange \<Rightarrow> 's rust"
    and forget :: "'s \<Rightarrow> nat \<Rightarrow> 's" and elems :: "'s \<Rightarrow> urange list"
  assumes add_ok: "inv s \<Longrightarrow> fst r < snd r \<Longrightarrow> snd r < 18446744073709551616 \<Longrightarrow>
      \<exists>s'. add s r = Some s' \<and> inv s' \<and> denotes s' = denotes s \<union> {fst r..<snd r}"
    and forget_ok: "inv s \<Longrightarrow> n < 18446744073709551615 \<Longrightarrow>
      inv (forget s n) \<and> denotes (forget s n) = {x \<in> denotes s. n < x}"
    and elems_ok: "inv s \<Longrightarrow> canon (elems s) \<and> covers (elems s) = denotes s"
begin

text \<open>Iteration depends only on the set of integers, not on the order of the operations.\<close>

lemma elems_unique: "inv s \<Longrightarrow> inv t \<Longrightarrow> denotes s = denotes t \<Longrightarrow> elems s = elems t"
  using elems_ok canon_unique by metis

lemma elems_determined: "inv s \<Longrightarrow> canon xs \<Longrightarrow> covers xs = denotes s \<Longrightarrow> elems s = xs"
  using elems_ok canon_unique by metis

primrec add_all :: "'s \<Rightarrow> urange list \<Rightarrow> 's rust" where
  "add_all s [] = Some s"
| "add_all s (r # rs) = do { s' \<leftarrow> add s r; add_all s' rs }"

lemma add_all_ok:
  assumes "inv s" and "\<forall>r\<in>set rs. fst r < snd r \<and> snd r < 18446744073709551616"
  shows "\<exists>s'. add_all s rs = Some s' \<and> inv s' \<and> denotes s' = denotes s \<union> covers rs"
  using assms
proof (induction rs arbitrary: s)
  case Nil
  then show ?case by (simp add: covers_simps)
next
  case (Cons r rs)
  obtain s' where s': "add s r = Some s'" "inv s'" "denotes s' = denotes s \<union> {fst r..<snd r}"
    using add_ok [of s r] Cons.prems by auto
  with Cons.IH [of s'] Cons.prems show ?case by (auto simp: covers_simps Un_ac)
qed

lemma add_all_order:
  assumes "inv s" and "inv t" and "denotes s = denotes t" and "covers rs = covers qs"
    and "\<forall>r\<in>set rs \<union> set qs. fst r < snd r \<and> snd r < 18446744073709551616"
  shows "map_option elems (add_all s rs) = map_option elems (add_all t qs)"
proof -
  obtain s' where s: "add_all s rs = Some s'" "inv s'" "denotes s' = denotes s \<union> covers rs"
    using add_all_ok [of s rs] assms by auto
  obtain t' where t: "add_all t qs = Some t'" "inv t'" "denotes t' = denotes t \<union> covers qs"
    using add_all_ok [of t qs] assms by auto
  show ?thesis using s t assms(3,4) elems_unique [of s' t'] by simp
qed

end

text \<open>A set with the default capacity never fills up: there are not enough 64-bit integers.\<close>

definition rs_ok :: "range_set \<Rightarrow> bool" where
  "rs_ok rs \<longleftrightarrow> rs_inv rs \<and> rs_capacity rs = usize_max \<and> rs_covers rs \<subseteq> {..<18446744073709551615}"

lemma rs_len_bound: "canon xs \<Longrightarrow> covers xs \<subseteq> {..<n} \<Longrightarrow> 2 * length xs \<le> n + 1"
proof (cases "xs = []")
  case False
  assume can: "canon xs" and sub: "covers xs \<subseteq> {..<n}"
  have "snd q \<le> n" if q: "q \<in> set xs" for q
  proof -
    have "fst q < snd q" using canon_in [OF can q] .
    then have "snd q - 1 \<in> covers xs" using q by (auto simp: covers_def intro!: bexI [of _ q])
    with sub show ?thesis by auto
  qed
  then show ?thesis using canon_length [OF can, of 0 n] False by simp
qed simp

interpretation acks: range_store rs_ok rs_covers rs_insert rs_remove_until rs_iter
proof
  fix s and r :: urange and n :: nat
  assume inv: "rs_ok s"
  have room: "rs_len s < rs_capacity s"
    using inv rs_len_bound [of "rs_iter s" 18446744073709551615]
    by (simp add: rs_ok_def rs_inv_def usize_max_def rs_len_iter)
  show "\<exists>s'. rs_insert s r = Some s' \<and> rs_ok s' \<and> rs_covers s' = rs_covers s \<union> {fst r..<snd r}"
    if "fst r < snd r" "snd r < 18446744073709551616"
    using rs_insert_room [of s r] room inv that by (auto simp: rs_ok_def)
  show "rs_ok (rs_remove_until s n) \<and> rs_covers (rs_remove_until s n) = {x \<in> rs_covers s. n < x}"
    if "n < 18446744073709551615"
    using rs_remove_until_covers [of s n] inv that by (auto simp: rs_ok_def)
  show "canon (rs_iter s) \<and> rs_covers s = rs_covers s" using inv by (simp add: rs_ok_def rs_inv_def)
qed

lemma rs_ok_default: "rs_ok range_set_default"
  by (simp add: rs_ok_def rs_inv_new) (simp add: range_set_default_def covers_simps)

section \<open>Correctness\<close>



text \<open>Below the size at which a tree is used, a full set panics on a range below all others.\<close>

lemma small_full_set_panics:
  "rs_insert (Inline \<lparr>inl_inner = [(5, 6), (8, 9)], inl_capacity = 2\<rparr>) (1, 2) = None"
  by code_simp

end
