(* ===== verification/SendBuf.thy ===== *)
theory SendBuf
  imports RecvBuf Ranges
begin

text \<open>
  The send side of a QUIC stream (\<open>core/quiche/quiche/src/stream/send_buf.rs\<close>): data that the
  application writes is queued in buffers, emitted into packets, and kept until it is acknowledged
  so that lost ranges can be emitted again. \<open>None\<close> is a panic. \<open>SendReserve\<close> is the pair of the
  reserved length and the fin flag that \<open>reserve_for_write\<close> computes.

  The theory shows, for any sequence of writes, emissions, acknowledgements, losses and limit
  updates, that what is emitted at an offset is what was written there, that the peer's limit is
  never exceeded, that the count of buffered bytes is exact, and, with the receive side, that the
  bytes the peer's application reads are a prefix of the bytes written, whatever the network does.
\<close>

definition SEND_BUFFER_SIZE :: nat where
  "SEND_BUFFER_SIZE = 4096"

record send_buf =
  snd_data :: "range_buf list"
  snd_pos :: nat
  snd_off :: nat
  snd_emit_off :: nat
  snd_buffered :: nat
  snd_max_data :: nat
  snd_blocked_at :: "nat option"
  snd_fin_off :: "nat option"
  snd_shutdown :: bool
  snd_acked :: range_set
  snd_error :: "nat option"

definition send_new :: "nat \<Rightarrow> send_buf" where
  "send_new max_data =
     \<lparr>snd_data = [], snd_pos = 0, snd_off = 0, snd_emit_off = 0, snd_buffered = 0, snd_max_data = max_data,
      snd_blocked_at = None, snd_fin_off = None, snd_shutdown = False, snd_acked = range_set_default, snd_error = None\<rparr>"

section \<open>Observers\<close>

text \<open>The first buffer from \<open>pos\<close> on that is not empty.\<close>

fun first_unsent :: "range_buf list \<Rightarrow> nat option" where
  "first_unsent [] = None"
| "first_unsent (b # bs) = (if \<not> rb_is_empty b then Some (rb_off b) else first_unsent bs)"

definition send_off_front :: "send_buf \<Rightarrow> nat" where
  "send_off_front st = (case first_unsent (drop (snd_pos st) (snd_data st)) of Some off \<Rightarrow> off | None \<Rightarrow> snd_off st)"

definition send_off_back :: "send_buf \<Rightarrow> nat" where
  "send_off_back st = snd_off st"

definition send_is_fin :: "send_buf \<Rightarrow> bool" where
  "send_is_fin st \<longleftrightarrow> snd_fin_off st = Some (snd_off st)"

definition send_is_complete :: "send_buf \<Rightarrow> bool" where
  "send_is_complete st = (case snd_fin_off st of None \<Rightarrow> False | Some fin_off \<Rightarrow> rs_eq_range (snd_acked st) (0, fin_off))"

definition send_ack_off :: "send_buf \<Rightarrow> nat" where
  "send_ack_off st = (case rs_iter (snd_acked st) of (s, e) # _ \<Rightarrow> if s = 0 then e else 0 | [] \<Rightarrow> 0)"

definition send_cap :: "send_buf \<Rightarrow> quic_error + nat" where
  "send_cap st = (case snd_error st of Some e \<Rightarrow> Inl (EStreamStopped e) | None \<Rightarrow> Inr (snd_max_data st - snd_off st))"

section \<open>Writing\<close>

definition reserve_for_write :: "nat \<Rightarrow> bool \<Rightarrow> send_buf \<Rightarrow> (quic_error + nat \<times> bool) \<times> send_buf" where
  "reserve_for_write len fin st =
     (let max_off = snd_off st + len in
      case send_cap st of
        Inl e \<Rightarrow> (Inl e, st)
      | Inr c \<Rightarrow>
          (let (len, fin) = (if len > c then (c, False) else (len, fin)) in
           if (case snd_fin_off st of
                 Some fin_off \<Rightarrow> max_off > fin_off \<or> max_off = fin_off \<and> \<not> fin
               | None \<Rightarrow> False) then (Inl EFinalSize, st)
           else
             (let st = (if fin then st\<lparr>snd_fin_off := Some max_off\<rparr> else st) in
              if send_ack_off st \<ge> max_off then (Inr (0, fin), st) else (Inr (len, fin), st))))"

text \<open>\<open>SendReserve::append_buf\<close>, with what is left of the reservation.\<close>

definition reserve_append :: "bytes \<Rightarrow> nat \<Rightarrow> bool \<Rightarrow> send_buf \<Rightarrow> (quic_error + nat) \<times> send_buf" where
  "reserve_append buf reserved fin st =
     (let len = length buf in
      if len > reserved then (Inl EBufferTooShort, st)
      else (Inr (reserved - len),
            st\<lparr>snd_data := snd_data st @ [rb_from buf (snd_off st) (reserved = len \<and> fin)],
               snd_off := snd_off st + len, snd_buffered := snd_buffered st + len\<rparr>))"

text \<open>\<open>data.chunks(n)\<close>, for a positive size.\<close>

function chunks_of :: "nat \<Rightarrow> bytes \<Rightarrow> bytes list" where
  "chunks_of n xs = (if xs = [] \<or> n = 0 then [] else take n xs # chunks_of n (drop n xs))"
  by pat_completeness auto
termination
  by (relation "measure (\<lambda>(_, xs). length xs)") auto

declare chunks_of.simps [simp del]

text \<open>The drop of a reservation that is not used up panics, also after an error.\<close>

fun append_chunks :: "bytes list \<Rightarrow> nat \<Rightarrow> bool \<Rightarrow> send_buf \<Rightarrow> send_buf rust" where
  "append_chunks [] reserved fin st = (if reserved = 0 then Some st else None)"
| "append_chunks (c # cs) reserved fin st =
     (case reserve_append c reserved fin st of
        (Inl e, st) \<Rightarrow> None
      | (Inr left, st) \<Rightarrow> append_chunks cs left fin st)"

definition send_write :: "bytes \<Rightarrow> bool \<Rightarrow> send_buf \<Rightarrow> ((quic_error + nat) \<times> send_buf) rust" where
  "send_write data fin st =
     (case reserve_for_write (length data) fin st of
        (Inl e, st) \<Rightarrow> Some (Inl e, st)
      | (Inr (reserved, fin), st) \<Rightarrow>
          if reserved = 0 then Some (Inr 0, st)
          else do { slice \<leftarrow> slice_of data 0 reserved;
                    st \<leftarrow> append_chunks (chunks_of SEND_BUFFER_SIZE slice) reserved fin st;
                    Some (Inr reserved, st) })"

text \<open>\<open>append_buf\<close> queues a buffer without copying and returns what did not fit.\<close>

definition send_append_buf ::
  "bytes \<Rightarrow> nat \<Rightarrow> bool \<Rightarrow> send_buf \<Rightarrow> ((quic_error + nat \<times> bytes option) \<times> send_buf) rust" where
  "send_append_buf data capacity fin st =
     (case reserve_for_write (min capacity (length data)) fin st of
        (Inl e, st) \<Rightarrow> Some (Inl e, st)
      | (Inr (reserved, fin), st) \<Rightarrow>
          if reserved = 0 then Some (Inr (0, Some data), st)
          else
            (let remainder = (if reserved < length data then Some (drop reserved data) else None) in
             do { st \<leftarrow> append_chunks [take reserved data] reserved fin st;
                  Some (Inr (reserved, remainder), st) }))"

section \<open>Emission\<close>

text \<open>
  The loop of \<open>emit\<close>: the bytes copied to \<open>out\<close> so far come back in order, because every copy starts
  where the previous one ended.
\<close>

function send_emit_loop :: "nat \<Rightarrow> nat \<Rightarrow> send_buf \<Rightarrow> (bytes \<times> nat \<times> send_buf) rust" where
  "send_emit_loop out_len next_off st =
     (let off_front = send_off_front st in
      if out_len = 0 \<or> snd_data st = [] \<or> off_front \<ge> snd_off st \<or> off_front \<noteq> next_off \<or> off_front \<ge> snd_max_data st
      then Some ([], next_off, st)
      else (case get_at (snd_data st) (snd_pos st) of
         None \<Rightarrow> Some ([], next_off, st)
       | Some buf \<Rightarrow>
           if rb_is_empty buf then send_emit_loop out_len next_off (st\<lparr>snd_pos := snd_pos st + 1\<rparr>)
           else
             (let buf_len = min (rb_len buf) out_len;
                  partial = (buf_len < rb_len buf);
                  next_off' = rb_off buf + buf_len;
                  st' = st\<lparr>snd_buffered := snd_buffered st - buf_len,
                           snd_data := (snd_data st)[snd_pos st := rb_consume buf_len buf]\<rparr>
              in do { bs \<leftarrow> rb_deref buf;
                      piece \<leftarrow> slice_of bs 0 buf_len;
                      if partial then Some (piece, next_off', st')
                      else do { (rest, off, st'') \<leftarrow>
                                  send_emit_loop (out_len - buf_len) next_off' (st'\<lparr>snd_pos := snd_pos st + 1\<rparr>);
                                Some (piece @ rest, off, st'') } })))"
  by pat_completeness auto
termination
  by (relation "measure (\<lambda>(_, _, st). length (snd_data st) - snd_pos st)")
    (auto simp: get_at_def Let_def split: if_splits)

declare send_emit_loop.simps [simp del]

definition send_emit :: "nat \<Rightarrow> send_buf \<Rightarrow> (bytes \<times> bool \<times> send_buf) rust" where
  "send_emit out_len st =
     do { (out, next_off, st) \<leftarrow> send_emit_loop out_len (send_off_front st) st;
          Some (out, snd_fin_off st = Some next_off, st\<lparr>snd_emit_off := max (snd_emit_off st) next_off\<rparr>) }"

section \<open>Acknowledgement and loss\<close>

definition send_update_max_data :: "nat \<Rightarrow> send_buf \<Rightarrow> send_buf" where
  "send_update_max_data max_data st = st\<lparr>snd_max_data := max (snd_max_data st) max_data\<rparr>"

definition send_update_blocked_at :: "nat option \<Rightarrow> send_buf \<Rightarrow> send_buf" where
  "send_update_blocked_at blocked_at st = st\<lparr>snd_blocked_at := blocked_at\<rparr>"

definition send_ack :: "nat \<Rightarrow> nat \<Rightarrow> send_buf \<Rightarrow> send_buf rust" where
  "send_ack off len st =
     do { acked \<leftarrow> rs_insert (snd_acked st) (off, off + len); Some (st\<lparr>snd_acked := acked\<rparr>) }"

text \<open>The number of buffers at the front that end at or below \<open>ack_off\<close>.\<close>

fun droppable :: "nat \<Rightarrow> range_buf list \<Rightarrow> nat" where
  "droppable ack_off [] = 0"
| "droppable ack_off (b # bs) =
     (if rb_base b \<ge> ack_off then 0
      else if rb_base b < ack_off \<and> ack_off < rb_max_off b then 0
      else Suc (droppable ack_off bs))"

definition send_ack_and_drop :: "nat \<Rightarrow> nat \<Rightarrow> send_buf \<Rightarrow> (nat \<times> send_buf) rust" where
  "send_ack_and_drop off len st =
     do { st \<leftarrow> send_ack off len st;
          let ack_off = send_ack_off st;
          if snd_data st = [] \<or> off > ack_off then Some (0, st)
          else
            (let n = droppable ack_off (snd_data st) in
             if n = 0 then Some (0, st)
             else
               (let dropped_len = sum_list (map rb_len (take n (snd_data st))) in
                Some (dropped_len,
                      st\<lparr>snd_buffered := snd_buffered st - dropped_len,
                         snd_data := drop n (snd_data st),
                         snd_pos := snd_pos st - n\<rparr>))) }"

text \<open>The read position a buffer is moved back to.\<close>

definition retransmit_pos :: "nat \<Rightarrow> range_buf \<Rightarrow> nat" where
  "retransmit_pos off buf =
     (if off > rb_base buf \<and> off \<le> rb_max_off buf
      then min (rb_pos buf) (rb_start buf + (off - rb_base buf)) else rb_start buf)"

text \<open>The loop of \<open>retransmit\<close> over the indices that existed when it started.\<close>

function retransmit_loop :: "nat \<Rightarrow> nat \<Rightarrow> nat \<Rightarrow> nat \<Rightarrow> send_buf \<Rightarrow> (nat \<times> send_buf) rust" where
  "retransmit_loop i n off max_off st =
     (if i \<ge> n then Some (0, st)
      else do {
        buf \<leftarrow> idx (snd_data st) i;
        if rb_base buf \<ge> max_off then Some (0, st)
        else if off > rb_max_off buf then retransmit_loop (i + 1) n off max_off st
        else do {
          (buf, new_buf) \<leftarrow>
            (if rb_base buf < max_off \<and> max_off < rb_max_off buf
             then map_option (\<lambda>(front, rest). (front, Some rest)) (rb_split_off (max_off - rb_base buf) buf)
             else Some (buf, None));
          let prev_pos = rb_pos buf;
          let buf = buf\<lparr>rb_pos := retransmit_pos off buf\<rparr>;
          let retransmitted = prev_pos - rb_pos buf;
          let data = (snd_data st)[i := buf];
          let st = st\<lparr>snd_pos := min (snd_pos st) i, snd_buffered := snd_buffered st + retransmitted,
                      snd_data := (case new_buf of None \<Rightarrow> data | Some b \<Rightarrow> vec_insert (i + 1) b data)\<rparr>;
          (total_rest, st) \<leftarrow> retransmit_loop (i + 1) n off max_off st;
          Some (retransmitted + total_rest, st)
        }
      })"
  by pat_completeness auto
termination
  by (relation "measure (\<lambda>(i, n, _). n - i)") auto

declare retransmit_loop.simps [simp del]

definition send_retransmit :: "nat \<Rightarrow> nat \<Rightarrow> send_buf \<Rightarrow> (nat \<times> send_buf) rust" where
  "send_retransmit off len st =
     (let max_off = off + len in
      if snd_data st = [] then Some (0, st)
      else if max_off \<le> send_ack_off st then Some (0, st)
      else retransmit_loop 0 (length (snd_data st)) off max_off st)"

section \<open>Reset\<close>

definition send_reset :: "send_buf \<Rightarrow> ((nat \<times> nat) \<times> send_buf) rust" where
  "send_reset st =
     (let unsent_off = max (send_off_front st) (snd_emit_off st);
          unsent_len = send_off_back st - unsent_off;
          st = st\<lparr>snd_fin_off := Some unsent_off, snd_data := [], snd_off := unsent_off\<rparr>
      in do { st \<leftarrow> send_ack 0 (snd_off st) st;
              Some ((snd_emit_off st, unsent_len), st\<lparr>snd_pos := 0, snd_buffered := 0\<rparr>) })"

definition send_stop :: "nat \<Rightarrow> send_buf \<Rightarrow> ((quic_error + nat \<times> nat) \<times> send_buf) rust" where
  "send_stop error_code st =
     (if snd_error st \<noteq> None then Some (Inl EDone, st)
      else do { (r, st) \<leftarrow> send_reset st; Some (Inr r, st\<lparr>snd_error := Some error_code\<rparr>) })"

definition send_do_shutdown :: "send_buf \<Rightarrow> ((quic_error + nat \<times> nat) \<times> send_buf) rust" where
  "send_do_shutdown st =
     (if snd_shutdown st then Some (Inl EDone, st)
      else do { (r, st) \<leftarrow> send_reset (st\<lparr>snd_shutdown := True\<rparr>); Some (Inr r, st) })"

section \<open>The queue\<close>

text \<open>The buffers cover one interval of the stream without gaps.\<close>

fun chain :: "nat \<Rightarrow> range_buf list \<Rightarrow> nat \<Rightarrow> bool" where
  "chain lo [] hi \<longleftrightarrow> lo = hi"
| "chain lo (b # bs) hi \<longleftrightarrow> rb_base b = lo \<and> rb_size b > 0 \<and> chain (lo + rb_size b) bs hi"

lemma chain_append: "chain lo (xs @ ys) hi \<longleftrightarrow> (\<exists>mid. chain lo xs mid \<and> chain mid ys hi)"
  by (induction xs arbitrary: lo) auto

lemma chain_le: "chain lo bs hi \<Longrightarrow> lo \<le> hi"
  by (induction bs arbitrary: lo) fastforce+

lemma chain_bounds: "chain lo bs hi \<Longrightarrow> b \<in> set bs \<Longrightarrow> lo \<le> rb_base b \<and> rb_base b + rb_size b \<le> hi"
proof (induction bs arbitrary: lo)
  case (Cons c bs)
  then show ?case using chain_le [of "lo + rb_size c" bs hi] by fastforce
qed simp

lemma chain_drop: "chain lo bs hi \<Longrightarrow> \<exists>lo'. chain lo' (drop n bs) hi"
  by (metis append_take_drop_id chain_append)

definition buf_ok :: "bytes \<Rightarrow> range_buf \<Rightarrow> bool" where
  "buf_ok w b \<longleftrightarrow> rb_wf b \<and> rb_of (nth w) b"

text \<open>
  The invariant, for the bytes \<open>w\<close> written so far: buffers hold the written bytes, those before the
  position are spent, and the counters are exact.
\<close>

definition send_inv :: "bytes \<Rightarrow> send_buf \<Rightarrow> bool" where
  "send_inv w st \<longleftrightarrow> snd_off st = length w \<and> (\<exists>lo. chain lo (snd_data st) (snd_off st))
     \<and> (\<forall>b\<in>set (snd_data st). buf_ok w b)
     \<and> snd_pos st \<le> length (snd_data st) \<and> (\<forall>b\<in>set (take (snd_pos st) (snd_data st)). rb_len b = 0)
     \<and> snd_buffered st = sum_list (map rb_len (snd_data st))
     \<and> snd_off st \<le> snd_max_data st \<and> snd_emit_off st \<le> snd_off st"

lemma send_new_inv: "send_inv [] (send_new max_data)"
  by (simp add: send_inv_def send_new_def)

lemma buf_ok_append: "buf_ok w b \<Longrightarrow> rb_base b + rb_size b \<le> length w \<Longrightarrow> buf_ok (w @ x) b"
  by (auto simp: buf_ok_def rb_of_def nth_append)

lemma buf_ok_new: "buf_ok (w @ x) (rb_from x (length w) fin)"
  by (auto simp: buf_ok_def rb_of_def rb_from_def nth_append rb_wf_def)

text \<open>Appending to the queue.\<close>

lemma append_inv:
  assumes "send_inv w st" and "x \<noteq> []" and "snd_off st + length x \<le> snd_max_data st"
  shows "send_inv (w @ x) (st\<lparr>snd_data := snd_data st @ [rb_from x (snd_off st) fin],
     snd_off := snd_off st + length x, snd_buffered := snd_buffered st + length x\<rparr>)"
proof -
  obtain lo where lo: "chain lo (snd_data st) (length w)" using assms(1) by (auto simp: send_inv_def)
  have "buf_ok (w @ x) b" if "b \<in> set (snd_data st)" for b
    using assms(1) chain_bounds [OF lo that] that by (auto simp: send_inv_def intro: buf_ok_append)
  moreover have "chain lo (snd_data st @ [rb_from x (length w) fin]) (length w + length x)"
    using lo assms(2) by (auto simp: chain_append rb_from_def)
  ultimately show ?thesis
    using assms buf_ok_new [of w x fin] by (auto simp: send_inv_def)
qed

lemma chunks_of_concat: "n > 0 \<Longrightarrow> concat (chunks_of n xs) = xs \<and> (\<forall>c\<in>set (chunks_of n xs). c \<noteq> [])"
proof (induction n xs rule: chunks_of.induct)
  case (1 n xs)
  then show ?case by (subst (1 2) chunks_of.simps) auto
qed

lemma append_chunks_inv:
  assumes "send_inv w st" and "\<forall>c\<in>set cs. c \<noteq> []" and "snd_off st + length (concat cs) \<le> snd_max_data st"
  shows "\<exists>st'. append_chunks cs (length (concat cs)) fin st = Some st' \<and> send_inv (w @ concat cs) st'
    \<and> snd_fin_off st' = snd_fin_off st \<and> snd_max_data st' = snd_max_data st \<and> snd_acked st' = snd_acked st"
  using assms
proof (induction cs arbitrary: w st)
  case (Cons c cs)
  let ?fin = "length (concat (c # cs)) = length c \<and> fin"
  let ?st = "st\<lparr>snd_data := snd_data st @ [rb_from c (snd_off st) ?fin],
      snd_off := snd_off st + length c, snd_buffered := snd_buffered st + length c\<rparr>"
  have "send_inv (w @ c) ?st" using append_inv [OF Cons.prems(1)] Cons.prems(2,3) by simp
  from Cons.IH [OF this] Cons.prems show ?case by (simp add: reserve_append_def Let_def)
qed simp

lemma send_inv_fin [simp]: "send_inv w (st\<lparr>snd_fin_off := f\<rparr>) = send_inv w st"
  by (simp add: send_inv_def)

text \<open>A write stores a prefix of the data, all of it when it fits, or is refused.\<close>

lemma reserve_ok:
  assumes "reserve_for_write len fin st = (r, st')"
  shows "st' = st \<or> st' = st\<lparr>snd_fin_off := Some (snd_off st + len)\<rparr> \<and> fin \<and> len \<le> snd_max_data st - snd_off st"
    and "\<And>n fin'. r = Inr (n, fin') \<Longrightarrow> n \<le> len \<and> n \<le> snd_max_data st - snd_off st"
  using assms
  by (auto simp: reserve_for_write_def send_cap_def Let_def split: option.splits if_splits sum.splits prod.splits)

lemma send_write_inv:
  assumes inv: "send_inv w st"
  shows "\<exists>r st'. send_write data fin st = Some (r, st')
    \<and> send_inv (w @ (case r of Inl _ \<Rightarrow> [] | Inr n \<Rightarrow> take n data)) st' \<and> (\<forall>n. r = Inr n \<longrightarrow> n \<le> length data)
    \<and> snd_acked st' = snd_acked st"
proof -
  obtain r st1 where res: "reserve_for_write (length data) fin st = (r, st1)" by fastforce
  note ok = reserve_ok [OF res]
  have st1: "send_inv w st1" "snd_off st1 = snd_off st" "snd_max_data st1 = snd_max_data st" "snd_acked st1 = snd_acked st"
    using ok(1) inv by auto
  show ?thesis
  proof (cases r)
    case (Inl e)
    then show ?thesis using res st1 by (simp add: send_write_def)
  next
    case (Inr p)
    obtain n fin' where p: "p = (n, fin')" by (cases p)
    have n: "n \<le> length data" "n \<le> snd_max_data st - snd_off st" using ok(2) Inr p by auto
    have limit: "snd_off st \<le> snd_max_data st" using inv by (simp add: send_inv_def)
    let ?cs = "chunks_of SEND_BUFFER_SIZE (take n data)"
    have cs: "concat ?cs = take n data" "\<forall>c\<in>set ?cs. c \<noteq> []"
      using chunks_of_concat [of SEND_BUFFER_SIZE "take n data"] by (auto simp: SEND_BUFFER_SIZE_def)
    have room: "snd_off st1 + length (concat ?cs) \<le> snd_max_data st1"
      using n st1(2,3) limit cs(1) by simp
    obtain st' where "append_chunks ?cs (length (concat ?cs)) fin' st1 = Some st'"
        "send_inv (w @ concat ?cs) st'" "snd_acked st' = snd_acked st1"
      using append_chunks_inv [OF st1(1) cs(2) room] by blast
    then show ?thesis using res Inr p n st1 cs(1)
      by (cases "n = 0") (auto simp: send_write_def slice_of_def)
  qed
qed

section \<open>Emission\<close>

lemma first_unsent_Some:
  "first_unsent bs = Some off \<Longrightarrow> \<exists>b\<in>set bs. rb_len b \<noteq> 0 \<and> off = rb_off b"
  by (induction bs) (auto simp: rb_is_empty_def split: if_splits)

lemma off_front_at:
  "snd_pos st < length (snd_data st) \<Longrightarrow> \<not> rb_is_empty (snd_data st ! snd_pos st) \<Longrightarrow>
     send_off_front st = rb_off (snd_data st ! snd_pos st)"
  by (simp add: send_off_front_def Cons_nth_drop_Suc [symmetric])

lemma off_front_skip:
  "snd_pos st < length (snd_data st) \<Longrightarrow> rb_is_empty (snd_data st ! snd_pos st) \<Longrightarrow>
     send_off_front (st\<lparr>snd_pos := snd_pos st + 1\<rparr>) = send_off_front st"
  by (simp add: send_off_front_def Cons_nth_drop_Suc [symmetric] split: option.splits)

lemma off_front_le: "send_inv w st \<Longrightarrow> send_off_front st \<le> snd_off st"
proof -
  assume inv: "send_inv w st"
  obtain lo where lo: "chain lo (snd_data st) (snd_off st)" using inv by (auto simp: send_inv_def)
  have "rb_off b \<le> snd_off st" if "b \<in> set (snd_data st)" for b
  proof -
    have "rb_wf b" using inv that by (auto simp: send_inv_def buf_ok_def)
    then show ?thesis using chain_bounds [OF lo that] rb_max_off_wf [of b] rb_off_le_max [of b] by simp
  qed
  then show ?thesis
    by (auto simp: send_off_front_def split: option.splits dest!: first_unsent_Some in_set_dropD)
qed

lemma chain_update: "i < length bs \<Longrightarrow> rb_base b = rb_base (bs ! i) \<Longrightarrow> rb_size b = rb_size (bs ! i) \<Longrightarrow>
    chain lo (bs[i := b]) hi = chain lo bs hi"
  by (induction bs arbitrary: i lo) (auto split: nat.splits)

lemma sum_list_replace:
  fixes f :: "'a \<Rightarrow> nat"
  shows "i < length xs \<Longrightarrow> f x + k = f (xs ! i) \<Longrightarrow> sum_list (map f (xs[i := x])) + k = sum_list (map f xs)"
  by (induction xs arbitrary: i) (auto split: nat.splits)

text \<open>Replacing a buffer by itself with \<open>n\<close> more bytes consumed, and moving past spent buffers.\<close>

lemma consume_send_inv:
  assumes inv: "send_inv w st" and i: "i < length (snd_data st)" and n: "n \<le> rb_len (snd_data st ! i)"
    and pos: "snd_pos st \<le> i"
  shows "send_inv w (st\<lparr>snd_buffered := snd_buffered st - n, snd_data := (snd_data st)[i := rb_consume n (snd_data st ! i)]\<rparr>)"
proof -
  let ?b = "snd_data st ! i"
  have b: "buf_ok w ?b" using inv i by (auto simp: send_inv_def)
  note con = rb_consume_simps [of ?b n]
  have ok: "buf_ok w (rb_consume n ?b)" using b con(1) n by (simp add: buf_ok_def)
  have "sum_list (map rb_len ((snd_data st)[i := rb_consume n ?b])) + n = sum_list (map rb_len (snd_data st))"
    using i n b con(4) by (intro sum_list_replace) (auto simp: buf_ok_def)
  then have "sum_list (map rb_len ((snd_data st)[i := rb_consume n ?b])) = sum_list (map rb_len (snd_data st)) - n" by simp
  moreover have "chain lo ((snd_data st)[i := rb_consume n ?b]) hi = chain lo (snd_data st) hi" for lo hi
    using i by (intro chain_update) (simp_all add: rb_consume_def)
  moreover have "\<forall>c\<in>set ((snd_data st)[i := rb_consume n ?b]). buf_ok w c"
    using inv ok set_update_subset_insert [of "snd_data st" i "rb_consume n ?b"] by (auto simp: send_inv_def)
  moreover have "take (snd_pos st) ((snd_data st)[i := rb_consume n ?b]) = take (snd_pos st) (snd_data st)"
    using pos by simp
  ultimately show ?thesis using inv unfolding send_inv_def by auto
qed

lemma advance_inv:
  assumes "send_inv w st" and "snd_pos st < length (snd_data st)" and "rb_len (snd_data st ! snd_pos st) = 0"
  shows "send_inv w (st\<lparr>snd_pos := snd_pos st + 1\<rparr>)"
  using assms by (auto simp: send_inv_def take_Suc_conv_app_nth)

text \<open>The fields that emission leaves alone.\<close>

definition same_send :: "send_buf \<Rightarrow> send_buf \<Rightarrow> bool" where
  "same_send st st' \<longleftrightarrow> snd_off st' = snd_off st \<and> snd_max_data st' = snd_max_data st \<and> snd_fin_off st' = snd_fin_off st
     \<and> snd_acked st' = snd_acked st \<and> snd_emit_off st' = snd_emit_off st \<and> snd_error st' = snd_error st"

text \<open>One copy of the loop.\<close>

definition emitted_from :: "nat \<Rightarrow> send_buf \<Rightarrow> send_buf" where
  "emitted_from n st = st\<lparr>snd_buffered := snd_buffered st - n,
     snd_data := (snd_data st)[snd_pos st := rb_consume n (snd_data st ! snd_pos st)]\<rparr>"

lemma send_emit_copy:
  assumes go: "\<not> (out_len = 0 \<or> snd_data st = [] \<or> send_off_front st \<ge> snd_off st \<or> send_off_front st \<noteq> next_off
     \<or> send_off_front st \<ge> snd_max_data st)" and i: "snd_pos st < length (snd_data st)"
    and b: "b = snd_data st ! snd_pos st" "\<not> rb_is_empty b" "rb_wf b" "rb_of (nth w) b"
    and n: "n = min (rb_len b) out_len"
  shows "rb_off b = next_off" and "send_emit_loop out_len next_off st =
    (if n < rb_len b then Some (stream_range (nth w) next_off (next_off + n), next_off + n, emitted_from n st)
     else do { (rest, off, st'') \<leftarrow> send_emit_loop (out_len - n) (next_off + n)
                  ((emitted_from n st)\<lparr>snd_pos := snd_pos st + 1\<rparr>);
               Some (stream_range (nth w) next_off (next_off + n) @ rest, off, st'') })"
proof -
  have off: "rb_off b = send_off_front st" using off_front_at [OF i] b by simp
  then show next_off: "rb_off b = next_off" using go by simp
  have at: "get_at (snd_data st) (snd_pos st) = Some b" using i b(1) by (simp add: get_at_def)
  have deref: "rb_deref b = Some (stream_range (nth w) next_off (rb_max_off b))"
    using rb_deref_of [OF b(3,4)] next_off by simp
  have piece: "slice_of (stream_range (nth w) next_off (rb_max_off b)) 0 n = Some (stream_range (nth w) next_off (next_off + n))"
    using next_off n by (auto simp: slice_of_def stream_range_def take_map rb_max_off_def)
  have cond: "\<not> (out_len = 0 \<or> snd_data st = [] \<or> next_off \<ge> snd_off st \<or> next_off \<ge> snd_max_data st)"
    using go by auto
  show "send_emit_loop out_len next_off st =
    (if n < rb_len b then Some (stream_range (nth w) next_off (next_off + n), next_off + n, emitted_from n st)
     else do { (rest, off, st'') \<leftarrow> send_emit_loop (out_len - n) (next_off + n)
                  ((emitted_from n st)\<lparr>snd_pos := snd_pos st + 1\<rparr>);
               Some (stream_range (nth w) next_off (next_off + n) @ rest, off, st'') })"
    unfolding send_emit_loop.simps [of out_len next_off st] Let_def if_not_P [OF go] at option.case if_not_P [OF b(2)]
      n [symmetric] next_off deref emitted_from_def b(1) [symmetric]
    by (simp add: piece)
qed

lemma send_emit_loop_ok:
  assumes "send_inv w st" and "next_off \<le> snd_off st"
  shows "\<exists>k st'. send_emit_loop out_len next_off st = Some (stream_range (nth w) next_off (next_off + k), next_off + k, st')
    \<and> send_inv w st' \<and> k \<le> out_len \<and> next_off + k \<le> snd_off st \<and> same_send st st'"
  using assms
proof (induction "length (snd_data st) - snd_pos st" arbitrary: out_len next_off st rule: less_induct)
  case less
  let ?halt = "out_len = 0 \<or> snd_data st = [] \<or> send_off_front st \<ge> snd_off st \<or> send_off_front st \<noteq> next_off
     \<or> send_off_front st \<ge> snd_max_data st"
  let ?b = "snd_data st ! snd_pos st"
  consider (halt) "?halt \<or> \<not> snd_pos st < length (snd_data st)"
    | (skip) "\<not> ?halt" "snd_pos st < length (snd_data st)" "rb_is_empty ?b"
    | (copy) "\<not> ?halt" "snd_pos st < length (snd_data st)" "\<not> rb_is_empty ?b" by blast
  then show ?case
  proof cases
    case halt
    then have "send_emit_loop out_len next_off st = Some ([], next_off, st)"
      by (subst send_emit_loop.simps) (auto simp: get_at_def Let_def)
    with less.prems show ?thesis by (auto simp: stream_range_def same_send_def intro!: exI [of _ 0])
  next
    case skip
    have step: "send_emit_loop out_len next_off st = send_emit_loop out_len next_off (st\<lparr>snd_pos := snd_pos st + 1\<rparr>)"
      using skip by (subst send_emit_loop.simps) (simp add: Let_def get_at_def)
    have "send_inv w (st\<lparr>snd_pos := snd_pos st + 1\<rparr>)"
      using advance_inv [OF less.prems(1) skip(2)] skip(3) by (simp add: rb_is_empty_def)
    with less.hyps [of "st\<lparr>snd_pos := snd_pos st + 1\<rparr>" next_off out_len] less.prems(2) skip(2) show ?thesis
      by (simp add: step same_send_def)
  next
    case copy
    have b: "rb_wf ?b" "rb_of (nth w) ?b" using less.prems(1) copy(2) by (auto simp: send_inv_def buf_ok_def)
    define n where "n = min (rb_len ?b) out_len"
    note step = send_emit_copy [OF copy(1,2) refl copy(3) b n_def]
    obtain lo where lo: "chain lo (snd_data st) (snd_off st)" using less.prems(1) by (auto simp: send_inv_def)
    have le: "next_off + rb_len ?b \<le> snd_off st"
      using chain_bounds [OF lo, of ?b] copy(2) rb_max_off_wf [OF b(1)] step(1) by (simp add: rb_max_off_def)
    have inv: "send_inv w (emitted_from n st)"
      unfolding emitted_from_def using consume_send_inv [OF less.prems(1) copy(2)] n_def by simp
    show ?thesis
    proof (cases "n < rb_len ?b")
      case True
      then show ?thesis
        using step(2) inv le n_def by (intro exI [of _ n]) (auto simp: same_send_def emitted_from_def)
    next
      case False
      then have nb: "n = rb_len ?b" by (simp add: n_def)
      let ?st = "(emitted_from n st)\<lparr>snd_pos := snd_pos st + 1\<rparr>"
      have "rb_len (snd_data (emitted_from n st) ! snd_pos (emitted_from n st)) = 0"
        using copy(2) rb_consume_simps(4) [OF b(1), of n] nb by (simp add: emitted_from_def)
      then have inv': "send_inv w ?st" using advance_inv [OF inv] copy(2) by (simp add: emitted_from_def)
      have same: "same_send st ?st" by (simp add: same_send_def emitted_from_def)
      have le': "next_off + n \<le> snd_off ?st" using le nb by (simp add: emitted_from_def)
      have small: "length (snd_data ?st) - snd_pos ?st < length (snd_data st) - snd_pos st"
        using copy(2) by (simp add: emitted_from_def)
      obtain k st' where ih: "send_emit_loop (out_len - n) (next_off + n) ?st =
            Some (stream_range (nth w) (next_off + n) (next_off + n + k), next_off + n + k, st')"
          "send_inv w st'" "k \<le> out_len - n" "next_off + n + k \<le> snd_off ?st" "same_send ?st st'"
        using less.hyps [OF small inv' le'] by blast
      have "n \<le> out_len" by (simp add: n_def)
      then show ?thesis
        using step(2) False ih same stream_range_append [of next_off "next_off + n" "next_off + n + k" "nth w"]
        by (intro exI [of _ "n + k"] exI [of _ st']) (auto simp: same_send_def add.assoc)
    qed
  qed
qed

lemma send_emit_ok:
  assumes "send_inv w st"
  shows "\<exists>k st'. send_emit out_len st = Some (stream_range (nth w) (send_off_front st) (send_off_front st + k),
        snd_fin_off st = Some (send_off_front st + k), st')
    \<and> send_inv w st' \<and> k \<le> out_len \<and> send_off_front st + k \<le> snd_off st \<and> snd_acked st' = snd_acked st
    \<and> snd_fin_off st' = snd_fin_off st"
proof -
  obtain k st' where "send_emit_loop out_len (send_off_front st) st =
        Some (stream_range (nth w) (send_off_front st) (send_off_front st + k), send_off_front st + k, st')"
      "send_inv w st'" "k \<le> out_len" "send_off_front st + k \<le> snd_off st" "same_send st st'"
    using send_emit_loop_ok [OF assms off_front_le [OF assms]] by blast
  then show ?thesis
    by (intro exI [of _ k] exI [of _ "st'\<lparr>snd_emit_off := max (snd_emit_off st') (send_off_front st + k)\<rparr>"])
      (auto simp: send_emit_def send_inv_def same_send_def)
qed

section \<open>Acknowledgement and loss\<close>

lemma drop_inv:
  assumes "send_inv w st"
  shows "send_inv w (st\<lparr>snd_buffered := snd_buffered st - sum_list (map rb_len (take n (snd_data st))),
     snd_data := drop n (snd_data st), snd_pos := snd_pos st - n\<rparr>)"
proof -
  have "sum_list (map rb_len (snd_data st)) = sum_list (map rb_len (take n (snd_data st))) + sum_list (map rb_len (drop n (snd_data st)))"
    by (metis append_take_drop_id map_append sum_list_append)
  moreover have "rb_len b = 0" if "b \<in> set (take (snd_pos st - n) (drop n (snd_data st)))" for b
  proof -
    have "b \<in> set (drop n (take (snd_pos st) (snd_data st)))" using that by (simp add: drop_take)
    with assms show ?thesis by (auto simp: send_inv_def dest: in_set_dropD)
  qed
  ultimately show ?thesis
    using assms chain_drop by (auto simp: send_inv_def dest: in_set_dropD)
qed

lemma send_inv_acked [simp]: "send_inv w (st\<lparr>snd_acked := a\<rparr>) = send_inv w st"
  by (simp add: send_inv_def)

lemma send_ack_and_drop_inv:
  assumes "send_inv w st" and "rs_insert (snd_acked st) (off, off + len) = Some acked"
  shows "\<exists>n st'. send_ack_and_drop off len st = Some (n, st') \<and> send_inv w st' \<and> snd_acked st' = acked
    \<and> snd_fin_off st' = snd_fin_off st"
  using assms drop_inv [of w "st\<lparr>snd_acked := acked\<rparr>"]
  by (auto simp: send_ack_and_drop_def send_ack_def Let_def)

text \<open>Moving the read position of a buffer back.\<close>

lemma rb_rewind:
  assumes "rb_wf b" and "rb_start b \<le> p" and "p \<le> rb_pos b"
  shows "rb_wf (b\<lparr>rb_pos := p\<rparr>)" and "rb_len (b\<lparr>rb_pos := p\<rparr>) = rb_len b + (rb_pos b - p)"
    and "rb_of s (b\<lparr>rb_pos := p\<rparr>) = rb_of s b"
  using assms by (auto simp: rb_defs rb_of_def)

lemma chain_split_at:
  assumes "i < length bs" and "rb_base f = rb_base (bs ! i)" and "rb_size f > 0" and "rb_base r = rb_base (bs ! i) + rb_size f"
    and "rb_size r > 0" and "rb_size f + rb_size r = rb_size (bs ! i)"
  shows "chain lo (vec_insert (i + 1) r (bs[i := f])) hi = chain lo bs hi"
  using assms
proof (induction bs arbitrary: i lo)
  case (Cons b bs)
  then show ?case by (cases i) (auto simp: vec_insert_def add.assoc)
qed simp

lemma sum_list_split_at:
  fixes g :: "'a \<Rightarrow> nat"
  assumes "i < length bs" and "g f + g r = g (bs ! i) + k"
  shows "sum_list (map g (vec_insert (i + 1) r (bs[i := f]))) = sum_list (map g bs) + k"
  using assms
proof (induction bs arbitrary: i)
  case (Cons b bs)
  then show ?case by (cases i) (auto simp: vec_insert_def)
qed simp

text \<open>The two ways in which one round of \<open>retransmit\<close> changes the queue.\<close>

lemma retransmit_inv_keep:
  assumes inv: "send_inv w st" and i: "i < length (snd_data st)" and b: "b = snd_data st ! i"
    and p: "rb_start b \<le> p" "p \<le> rb_pos b"
  shows "send_inv w (st\<lparr>snd_pos := min (snd_pos st) i, snd_buffered := snd_buffered st + (rb_pos b - p),
     snd_data := (snd_data st)[i := b\<lparr>rb_pos := p\<rparr>]\<rparr>)"
proof -
  have bok: "buf_ok w b" using inv i b by (auto simp: send_inv_def)
  then have rw: "buf_ok w (b\<lparr>rb_pos := p\<rparr>)" "rb_len (b\<lparr>rb_pos := p\<rparr>) = rb_len b + (rb_pos b - p)"
    using rb_rewind [of b p] p by (auto simp: buf_ok_def)
  have "sum_list (map rb_len (snd_data st)) + (rb_pos b - p) = sum_list (map rb_len ((snd_data st)[i := b\<lparr>rb_pos := p\<rparr>]))"
    using sum_list_replace [of i "(snd_data st)[i := b\<lparr>rb_pos := p\<rparr>]" rb_len b "rb_pos b - p"] i b rw(2) by simp
  moreover have "chain lo ((snd_data st)[i := b\<lparr>rb_pos := p\<rparr>]) hi = chain lo (snd_data st) hi" for lo hi
    using i b by (intro chain_update) simp_all
  moreover have "\<forall>c\<in>set ((snd_data st)[i := b\<lparr>rb_pos := p\<rparr>]). buf_ok w c"
    using inv rw(1) set_update_subset_insert [of "snd_data st" i "b\<lparr>rb_pos := p\<rparr>"] by (auto simp: send_inv_def)
  moreover have "take (min (snd_pos st) i) ((snd_data st)[i := b\<lparr>rb_pos := p\<rparr>]) = take (min (snd_pos st) i) (snd_data st)"
    by simp
  moreover have "\<forall>c\<in>set (take (min (snd_pos st) i) (snd_data st)). rb_len c = 0"
    using inv set_take_subset_set_take [of "min (snd_pos st) i" "snd_pos st" "snd_data st"] by (auto simp: send_inv_def)
  ultimately show ?thesis using inv i unfolding send_inv_def by auto
qed

lemma retransmit_inv_split:
  assumes inv: "send_inv w st" and i: "i < length (snd_data st)"
    and split: "rb_split_off at (snd_data st ! i) = Some (f, r)" and at: "0 < at" "at < rb_size (snd_data st ! i)"
    and p: "rb_start f \<le> p" "p \<le> rb_pos f"
  shows "send_inv w (st\<lparr>snd_pos := min (snd_pos st) i, snd_buffered := snd_buffered st + (rb_pos f - p),
     snd_data := vec_insert (i + 1) r ((snd_data st)[i := f\<lparr>rb_pos := p\<rparr>])\<rparr>)"
proof -
  let ?b = "snd_data st ! i" and ?f = "f\<lparr>rb_pos := p\<rparr>"
  let ?data = "vec_insert (i + 1) r ((snd_data st)[i := ?f])"
  have bok: "buf_ok w ?b" using inv i by (auto simp: send_inv_def)
  have fr: "rb_wf f" "rb_wf r" "rb_base f = rb_base ?b" "rb_size f = at" "rb_base r = rb_base ?b + at"
      "rb_size r = rb_size ?b - at" "rb_len f + rb_len r = rb_len ?b" "rb_of (nth w) f" "rb_of (nth w) r"
    using rb_split_used [of ?b at] bok at split by (auto simp: buf_ok_def)
  have ok: "buf_ok w ?f" "buf_ok w r" "rb_len ?f = rb_len f + (rb_pos f - p)"
    using rb_rewind [OF fr(1) p] fr by (auto simp: buf_ok_def)
  have "rb_len ?f + rb_len r = rb_len ?b + (rb_pos f - p)" using ok(3) fr(7) by simp
  then have "sum_list (map rb_len ?data) = sum_list (map rb_len (snd_data st)) + (rb_pos f - p)"
    by (rule sum_list_split_at [OF i])
  moreover have "chain lo ?data hi = chain lo (snd_data st) hi" for lo hi
    using i fr at by (intro chain_split_at) auto
  moreover have "set ?data \<subseteq> insert r (insert ?f (set (snd_data st)))"
    using set_update_subset_insert [of "snd_data st" i ?f]
    by (auto simp: vec_insert_def dest: in_set_takeD in_set_dropD)
  then have "\<forall>c\<in>set ?data. buf_ok w c" using inv ok by (auto simp: send_inv_def)
  moreover have "take (min (snd_pos st) i) ?data = take (min (snd_pos st) i) (snd_data st)"
    using i by (simp add: vec_insert_def)
  moreover have "\<forall>c\<in>set (take (min (snd_pos st) i) (snd_data st)). rb_len c = 0"
    using inv set_take_subset_set_take [of "min (snd_pos st) i" "snd_pos st" "snd_data st"] by (auto simp: send_inv_def)
  moreover have "min (snd_pos st) i \<le> length ?data" using i by (simp add: vec_insert_def)
  ultimately show ?thesis using inv unfolding send_inv_def by auto
qed

text \<open>One round: the queue keeps the invariant and does not shrink.\<close>

lemma retransmit_round:
  assumes inv: "send_inv w st" and i: "i < n" "n \<le> length (snd_data st)"
  shows "(\<exists>k. retransmit_loop i n off max_off st = Some (k, st)) \<or>
    (\<exists>k st'. send_inv w st' \<and> n \<le> length (snd_data st') \<and> snd_acked st' = snd_acked st \<and> snd_fin_off st' = snd_fin_off st
      \<and> retransmit_loop i n off max_off st =
          Option.bind (retransmit_loop (i + 1) n off max_off st') (\<lambda>(m, st''). Some (k + m, st'')))"
proof -
  let ?b = "snd_data st ! i"
  have il: "i < length (snd_data st)" using i by simp
  have at: "idx (snd_data st) i = Some ?b" using il by (simp add: idx_def)
  have wf: "rb_wf ?b" using inv il by (auto simp: send_inv_def buf_ok_def)
  consider (past) "rb_base ?b \<ge> max_off" | (before) "rb_base ?b < max_off" "off > rb_max_off ?b"
    | (split) "rb_base ?b < max_off" "\<not> off > rb_max_off ?b" "max_off < rb_max_off ?b"
    | (keep) "rb_base ?b < max_off" "\<not> off > rb_max_off ?b" "\<not> max_off < rb_max_off ?b" by linarith
  then show ?thesis
  proof cases
    case past
    then show ?thesis using i at by (subst retransmit_loop.simps) simp
  next
    case before
    have "retransmit_loop i n off max_off st = Option.bind (retransmit_loop (i + 1) n off max_off st) (\<lambda>(m, st''). Some (0 + m, st''))"
      using before i at
      by (subst retransmit_loop.simps) (cases "retransmit_loop (i + 1) n off max_off st", auto)
    then show ?thesis using inv i by blast
  next
    case split
    have len: "0 < max_off - rb_base ?b" "max_off - rb_base ?b < rb_size ?b"
      using split rb_max_off_wf [OF wf] by auto
    obtain f r where fr: "rb_split_off (max_off - rb_base ?b) ?b = Some (f, r)" "rb_wf f"
      using rb_split_used [OF wf len] by blast
    define p where "p = retransmit_pos off f"
    have p: "rb_start f \<le> p" "p \<le> rb_pos f" using fr(2) by (auto simp: p_def retransmit_pos_def rb_wf_def)
    let ?st = "st\<lparr>snd_pos := min (snd_pos st) i, snd_buffered := snd_buffered st + (rb_pos f - p),
        snd_data := vec_insert (i + 1) r ((snd_data st)[i := f\<lparr>rb_pos := p\<rparr>])\<rparr>"
    have "retransmit_loop i n off max_off st =
        Option.bind (retransmit_loop (i + 1) n off max_off ?st) (\<lambda>(m, st''). Some (rb_pos f - p + m, st''))"
      using split i at fr(1)
      by (subst retransmit_loop.simps) (simp add: Let_def p_def [symmetric])
    moreover have "send_inv w ?st" by (rule retransmit_inv_split [OF inv il fr(1) len p])
    moreover have "n \<le> length (snd_data ?st)" using i by (simp add: vec_insert_def)
    ultimately show ?thesis by fastforce
  next
    case keep
    define p where "p = retransmit_pos off ?b"
    have p: "rb_start ?b \<le> p" "p \<le> rb_pos ?b" using wf by (auto simp: p_def retransmit_pos_def rb_wf_def)
    let ?st = "st\<lparr>snd_pos := min (snd_pos st) i, snd_buffered := snd_buffered st + (rb_pos ?b - p),
        snd_data := (snd_data st)[i := ?b\<lparr>rb_pos := p\<rparr>]\<rparr>"
    have "retransmit_loop i n off max_off st =
        Option.bind (retransmit_loop (i + 1) n off max_off ?st) (\<lambda>(m, st''). Some (rb_pos ?b - p + m, st''))"
      using keep i at
      by (subst retransmit_loop.simps) (simp add: Let_def p_def [symmetric])
    moreover have "send_inv w ?st" by (rule retransmit_inv_keep [OF inv il refl p])
    moreover have "n \<le> length (snd_data ?st)" using i by simp
    ultimately show ?thesis by fastforce
  qed
qed

lemma retransmit_loop_ok:
  assumes "send_inv w st" and "n \<le> length (snd_data st)"
  shows "\<exists>k st'. retransmit_loop i n off max_off st = Some (k, st') \<and> send_inv w st' \<and> snd_acked st' = snd_acked st
    \<and> snd_fin_off st' = snd_fin_off st"
  using assms
proof (induction "n - i" arbitrary: i st rule: less_induct)
  case less
  show ?case
  proof (cases "i < n")
    case False
    then show ?thesis using less.prems by (subst retransmit_loop.simps) simp
  next
    case True
    from retransmit_round [OF less.prems(1) True less.prems(2)]
    show ?thesis
    proof
      assume "\<exists>k. retransmit_loop i n off max_off st = Some (k, st)"
      then show ?thesis using less.prems(1) by blast
    next
      assume "\<exists>k st'. send_inv w st' \<and> n \<le> length (snd_data st') \<and> snd_acked st' = snd_acked st
        \<and> snd_fin_off st' = snd_fin_off st \<and> retransmit_loop i n off max_off st =
          Option.bind (retransmit_loop (i + 1) n off max_off st') (\<lambda>(m, st''). Some (k + m, st''))"
      then show ?thesis using less.hyps [of "i + 1"] True by fastforce
    qed
  qed
qed

lemma send_retransmit_inv:
  assumes "send_inv w st"
  shows "\<exists>k st'. send_retransmit off len st = Some (k, st') \<and> send_inv w st' \<and> snd_acked st' = snd_acked st
    \<and> snd_fin_off st' = snd_fin_off st"
  using assms retransmit_loop_ok [OF assms, of "length (snd_data st)" 0 off "off + len"]
  by (simp add: send_retransmit_def Let_def)

section \<open>A set below its capacity never panics\<close>

text \<open>Acknowledgements of empty ranges reach the set too, so this does not ask for canonical ranges.\<close>

lemma inline_merge_length: "length (inline_merge pos stop inner) \<le> length inner"
proof (induction pos stop inner rule: inline_merge.induct)
  case (1 pos stop inner)
  show ?case
  proof (cases "get_at inner (pos + 1)")
    case None
    then show ?thesis by (subst inline_merge.simps) simp
  next
    case (Some r)
    obtain s e where r: "r = (s, e)" by (cases r)
    have "length (vec_remove (pos + 1) (inner[pos := (fst (inner ! pos), max e stop)])) \<le> length inner"
      by (simp add: vec_remove_def)
    then show ?thesis using 1 [OF Some r [symmetric]] Some r
      by (subst inline_merge.simps) (auto simp: Let_def intro: order_trans)
  qed
qed

lemma inline_insert_room:
  "length inner \<noteq> capacity \<Longrightarrow>
     \<exists>ys. inline_insert_at pos capacity start stop inner = Some ys \<and> length ys \<le> Suc (length inner)"
proof (induction pos capacity start stop inner rule: inline_insert_at.induct)
  case (1 pos capacity start stop inner)
  show ?case
  proof (cases "get_at inner pos")
    case None
    with 1(2) show ?thesis by (subst inline_insert_at.simps) simp
  next
    case (Some r)
    obtain s e where r: "r = (s, e)" by (cases r)
    show ?thesis
    proof (cases "start > e")
      case True
      then show ?thesis using 1(1) [OF Some r [symmetric] True 1(2)] Some r
        by (subst inline_insert_at.simps) simp
    next
      case False
      then show ?thesis
        using Some r 1(2) inline_merge_length [of pos stop "inner[pos := (x, stop)]" for x]
        by (subst inline_insert_at.simps) (auto simp: Let_def vec_insert_def intro: le_SucI)
    qed
  qed
qed

lemma btm_insert_length: "length (btm_insert k v m) \<le> Suc (length m)"
  by (induction k v m rule: btm_insert.induct) auto

lemma btm_from_length: "length (btm_from xs) \<le> length xs"
proof (induction xs rule: rev_induct)
  case (snoc x xs)
  then show ?case
    using btm_insert_length [of "fst x" "snd x" "btm_from xs"] by (simp add: btm_from_def case_prod_beta)
qed (simp add: btm_from_def)

lemma btm_remove_length: "length (btm_remove k m) \<le> length m"
  by (simp add: btm_remove_def)

lemma btree_absorb_length:
  "btree_absorb item start stop inner = (a, b, inner') \<Longrightarrow> length inner' \<le> length inner"
proof (induction item start stop inner rule: btree_absorb.induct)
  case (1 item start stop inner)
  show ?case
  proof (cases "next_to start inner")
    case None
    then show ?thesis using 1(3) by (simp add: btree_absorb.simps [of item start stop inner])
  next
    case (Some r)
    then show ?thesis
      using 1(1,2) [OF Some] 1(3) btm_remove_length [of "fst r" inner]
      by (auto simp: btree_absorb.simps [of item start stop inner] split: if_splits intro: order_trans)
  qed
qed

lemma btree_insert_length: "length (bt_inner (btree_insert st item)) \<le> Suc (length (bt_inner st))"
proof -
  obtain s e i where p: "absorb_prev item (bt_inner st) = (s, e, i)" by (metis prod_cases3)
  obtain s' e' i' where a: "btree_absorb item s e i = (s', e', i')" by (metis prod_cases3)
  have "length i \<le> length (bt_inner st)"
    using p btm_remove_length [of _ "bt_inner st"] by (auto simp: absorb_prev_def split: option.splits if_splits)
  with btree_absorb_length [OF a] have "length i' \<le> length (bt_inner st)" by simp
  then show ?thesis
    using btm_insert_length [of s' e' "drop 1 i'"] btm_insert_length [of s' e' i']
    by (auto simp: btree_insert_def p a)
qed

lemma rs_insert_below_capacity:
  assumes "rs_len rs < rs_capacity rs"
  shows "\<exists>rs'. rs_insert rs item = Some rs' \<and> rs_len rs' \<le> Suc (rs_len rs) \<and> rs_capacity rs' = rs_capacity rs"
proof (cases rs)
  case (Inline st)
  obtain ys where ys: "inline_insert_at 0 (inl_capacity st) (fst item) (snd item) (inl_inner st) = Some ys"
      "length ys \<le> Suc (length (inl_inner st))"
    using inline_insert_room [of "inl_inner st" "inl_capacity st" 0 "fst item" "snd item"] assms Inline by auto
  then show ?thesis using Inline btm_from_length [of ys]
    by (auto simp: rs_insert_def inline_insert_def fixup.simps)
next
  case (BTree st)
  then show ?thesis using btree_insert_length [of st item] by (auto simp: rs_insert_def fixup.simps)
qed

section \<open>Runs\<close>

datatype send_op = SendWrite bytes bool | SendEmit nat | SendAcked nat nat | SendLost nat nat | SendMaxData nat

text \<open>
  One operation: the bytes it accepts from the application and the STREAM frame it emits. The
  connection takes the offset of the frame from \<open>off_front\<close> before it emits.
\<close>

fun send_step :: "send_op \<Rightarrow> send_buf \<Rightarrow> (bytes \<times> range_buf list \<times> send_buf) rust" where
  "send_step (SendWrite data fin) st =
     do { (r, st) \<leftarrow> send_write data fin st; Some (case r of Inl _ \<Rightarrow> [] | Inr n \<Rightarrow> take n data, [], st) }"
| "send_step (SendEmit out_len) st =
     do { let off = send_off_front st;
          (out, fin, st) \<leftarrow> send_emit out_len st;
          Some ([], [rb_from out off fin], st) }"
| "send_step (SendAcked off len) st = do { (_, st) \<leftarrow> send_ack_and_drop off len st; Some ([], [], st) }"
| "send_step (SendLost off len) st = do { (_, st) \<leftarrow> send_retransmit off len st; Some ([], [], st) }"
| "send_step (SendMaxData max_data) st = Some ([], [], send_update_max_data max_data st)"

fun send_run :: "send_op list \<Rightarrow> send_buf \<Rightarrow> (bytes \<times> range_buf list \<times> send_buf) rust" where
  "send_run [] st = Some ([], [], st)"
| "send_run (op # ops) st =
     do { (w, fs, st) \<leftarrow> send_step op st;
          (w', fs', st) \<leftarrow> send_run ops st;
          Some (w @ w', fs @ fs', st) }"

text \<open>A frame that carries bytes of \<open>w\<close> at their place.\<close>

definition carried_ok :: "bytes \<Rightarrow> range_buf \<Rightarrow> bool" where
  "carried_ok w f \<longleftrightarrow> buf_ok w f \<and> rb_fresh f \<and> rb_max_off f \<le> length w"

lemma frame_ok_append: "carried_ok w f \<Longrightarrow> carried_ok (w @ x) f"
  using buf_ok_append [of w f x] rb_max_off_wf [of f] by (auto simp: carried_ok_def buf_ok_def)

lemma frame_ok_emitted:
  "off + k \<le> length w \<Longrightarrow> carried_ok w (rb_from (stream_range (nth w) off (off + k)) off fin)"
  by (simp add: carried_ok_def buf_ok_def rb_of_def) (simp add: rb_from_def stream_range_def)

lemma send_step_ok:
  assumes inv: "send_inv w st" and room: "rs_len (snd_acked st) < rs_capacity (snd_acked st)"
  shows "\<exists>x fs st'. send_step op st = Some (x, fs, st') \<and> send_inv (w @ x) st' \<and> (\<forall>f\<in>set fs. carried_ok (w @ x) f)
    \<and> rs_len (snd_acked st') \<le> Suc (rs_len (snd_acked st)) \<and> rs_capacity (snd_acked st') = rs_capacity (snd_acked st)"
proof (cases op)
  case (SendWrite data fin)
  then show ?thesis using send_write_inv [OF inv, of data fin] by (fastforce split: sum.splits)
next
  case (SendEmit out_len)
  obtain k st' where e: "send_emit out_len st = Some (stream_range (nth w) (send_off_front st) (send_off_front st + k),
        snd_fin_off st = Some (send_off_front st + k), st')" "send_inv w st'" "send_off_front st + k \<le> snd_off st"
      "snd_acked st' = snd_acked st"
    using send_emit_ok [OF inv, of out_len] by blast
  have "carried_ok w (rb_from (stream_range (nth w) (send_off_front st) (send_off_front st + k)) (send_off_front st) fin)" for fin
    using e(3) inv by (intro frame_ok_emitted) (simp add: send_inv_def)
  with e SendEmit show ?thesis by simp
next
  case (SendAcked off len)
  obtain a where a: "rs_insert (snd_acked st) (off, off + len) = Some a" "rs_len a \<le> Suc (rs_len (snd_acked st))"
      "rs_capacity a = rs_capacity (snd_acked st)"
    using rs_insert_below_capacity [OF room] by blast
  then show ?thesis using send_ack_and_drop_inv [OF inv a(1)] SendAcked by auto
next
  case (SendLost off len)
  then show ?thesis using send_retransmit_inv [OF inv, of off len] by auto
next
  case (SendMaxData m)
  then show ?thesis using inv by (auto simp: send_update_max_data_def send_inv_def)
qed

lemma send_run_ok:
  assumes "send_inv w st" and "rs_len (snd_acked st) + length ops < rs_capacity (snd_acked st)"
  shows "\<exists>x fs st'. send_run ops st = Some (x, fs, st') \<and> send_inv (w @ x) st' \<and> (\<forall>f\<in>set fs. carried_ok (w @ x) f)"
  using assms
proof (induction ops arbitrary: w st)
  case (Cons op ops)
  obtain x fs st1 where s: "send_step op st = Some (x, fs, st1)" "send_inv (w @ x) st1" "\<forall>f\<in>set fs. carried_ok (w @ x) f"
      "rs_len (snd_acked st1) \<le> Suc (rs_len (snd_acked st))" "rs_capacity (snd_acked st1) = rs_capacity (snd_acked st)"
    using send_step_ok [OF Cons.prems(1), of op] Cons.prems(2) by auto
  obtain y gs st' where r: "send_run ops st1 = Some (y, gs, st')" "send_inv (w @ x @ y) st'" "\<forall>f\<in>set gs. carried_ok (w @ x @ y) f"
    using Cons.IH [OF s(2)] Cons.prems(2) s(4,5) by auto
  have "carried_ok (w @ x @ y) f" if "f \<in> set fs" for f
    using s(3) that frame_ok_append [of "w @ x" f y] by simp
  with s(1) r show ?case by auto
qed simp

lemma send_run_new:
  assumes "length ops < usize_max"
  shows "\<exists>w fs st. send_run ops (send_new max_data) = Some (w, fs, st) \<and> send_inv w st \<and> (\<forall>f\<in>set fs. carried_ok w f)"
proof -
  have "rs_len (snd_acked (send_new max_data)) + length ops < rs_capacity (snd_acked (send_new max_data))"
    using assms by (simp add: send_new_def range_set_default_def)
  from send_run_ok [OF send_new_inv this] show ?thesis by simp
qed

section \<open>Correctness\<close>



lemma recv_run_accepts:
  "recv_run ops st = Some (out, acc, st') \<Longrightarrow> b \<in> set acc \<Longrightarrow> RecvWrite b \<in> set ops"
proof (induction ops arbitrary: st out acc)
  case (Cons op ops)
  obtain o1 a1 st1 where s: "recv_step op st = Some (o1, a1, st1)"
    using Cons.prems(1) by (cases "recv_step op st") auto
  obtain o2 a2 where r: "recv_run ops st1 = Some (o2, a2, st')" "acc = a1 @ a2"
    using Cons.prems(1) s by (cases "recv_run ops st1") auto
  have "b \<in> set a1 \<Longrightarrow> op = RecvWrite b"
    using s by (cases op) (auto split: sum.splits Option.bind_splits)
  with Cons.IH [OF r(1)] Cons.prems(2) r(2) show ?case by auto
qed simp

text \<open>
  C32: End to end. Whatever the sending application writes and however the sender emits, repeats and
  forgets data, and whatever the network does with the frames - loss, duplication, any order, and
  reads and window updates of the receiver in between - the receiver never panics, and the bytes its
  application has read are a prefix of the bytes that were written.
\<close>

theorem stream_end_to_end:
  assumes "length ops < usize_max" and "send_run ops (send_new max_data) = Some (w, frames, st)"
    and "\<forall>b. RecvWrite b \<in> set rops \<longrightarrow> b \<in> set frames"
  shows "\<exists>out acc rst. recv_run rops (recv_new limit window max_window) = Some (out, acc, rst)
    \<and> out = take (rcv_off rst) w \<and> rcv_off rst \<le> length w"
proof -
  have frames: "\<forall>f\<in>set frames. carried_ok w f"
    using send_run_new [OF assms(1), of max_data] assms(2) by auto
  then have "\<forall>op\<in>set rops. op_of_stream (nth w) op"
    using assms(3) by (auto simp: op_of_stream_def carried_ok_def buf_ok_def split: recv_op.splits)
  then obtain out acc rst where r: "recv_run rops (recv_new limit window max_window) = Some (out, acc, rst)"
      "out = stream_range (nth w) 0 (rcv_off rst)" "received rst = rbs_set acc"
    using recv_run_ok [OF live_new(1), of rops "nth w" limit window max_window] live_new by (metis Un_empty_left)
  have "rbs_set acc \<subseteq> {..<length w}"
    using recv_run_accepts [OF r(1)] assms(3) frames by (fastforce simp: rbs_set_def rb_set_def carried_ok_def)
  then have "{..<rcv_off rst} \<subseteq> {..<length w}" using r(3) by (auto simp: received_def)
  then have "rcv_off rst \<le> length w" by simp
  moreover from this have "out = take (rcv_off rst) w"
    unfolding r(2) stream_range_def by (intro nth_equalityI) auto
  ultimately show ?thesis using r(1) by blast
qed

theorem stream_end_to_end_witness:
  "\<exists>w frames st out acc rst. send_run [SendWrite [7, 8] True, SendEmit 1, SendEmit 5] (send_new 10) = Some (w, frames, st)
     \<and> recv_run (map RecvWrite (rev frames) @ [RecvRead 5] @ map RecvWrite frames) (recv_new 10 10 10) = Some (out, acc, rst)
     \<and> out = take (rcv_off rst) w"
proof -
  let ?ops = "[SendWrite [7, 8] True, SendEmit 1, SendEmit 5]"
  have len: "length ?ops < usize_max" by (simp add: usize_max_def)
  obtain w frames st where r: "send_run ?ops (send_new 10) = Some (w, frames, st)" using send_run_new [OF len] by blast
  have "\<forall>b. RecvWrite b \<in> set (map RecvWrite (rev frames) @ [RecvRead 5] @ map RecvWrite frames) \<longrightarrow> b \<in> set frames"
    by auto
  from stream_end_to_end [OF len r this, of 10 10 10] r show ?thesis by blast
qed

text \<open>
  Data are dropped only when they are acknowledged: with non-empty acknowledgements, every offset
  below \<open>ack_off\<close> was acknowledged, and no further one.
\<close>

lemma ack_off_correct:
  assumes "rs_ok (snd_acked st)"
  shows "{..<send_ack_off st} \<subseteq> rs_covers (snd_acked st)" and "send_ack_off st \<notin> rs_covers (snd_acked st)"
proof -
  have can: "canon (rs_iter (snd_acked st))" using assms by (simp add: rs_ok_def rs_inv_def)
  show "{..<send_ack_off st} \<subseteq> rs_covers (snd_acked st)"
    by (auto simp: send_ack_off_def covers_simps split: list.splits if_splits)
  show "send_ack_off st \<notin> rs_covers (snd_acked st)"
    using can covers_above
    by (fastforce simp: send_ack_off_def covers_simps split: list.splits if_splits)
qed

lemma send_ack_covers:
  assumes "rs_ok (snd_acked st)" and "0 < len" and "off + len < 18446744073709551616"
  shows "\<exists>st'. send_ack off len st = Some st' \<and> rs_ok (snd_acked st')
    \<and> rs_covers (snd_acked st') = rs_covers (snd_acked st) \<union> {off..<off + len}"
  using acks.add_ok [OF assms(1), of "(off, off + len)"] assms(2,3) by (auto simp: send_ack_def)

end
