(* ===== verification/Codec.thy ===== *)
theory Codec
  imports Prelude
begin

text \<open>
  Interfaces for wire formats. \<open>prefix_codec\<close> is what the framing code relies on: decoding undoes
  encoding, a successful decode does not look past the bytes it consumes, and it consumes at
  least one byte. From these laws follow, once and for all, that encodings are prefix-free, that
  a concatenation of encoded values is split back into the same values, and that a stream may be
  cut into arbitrary chunks and reassembled. \<open>decode_all\<close> is the loop that decodes until the
  decoder asks for more bytes; its fuel is the number of bytes, and \<open>decode_n_enough\<close> shows
  that this is always enough.
\<close>

fun decode_n :: "nat \<Rightarrow> (bytes \<Rightarrow> ('a \<times> bytes) option) \<Rightarrow> bytes \<Rightarrow> 'a list \<times> bytes" where
  "decode_n 0 dec xs = ([], xs)"
| "decode_n (Suc n) dec xs =
     (case dec xs of
        None \<Rightarrow> ([], xs)
      | Some (x, r) \<Rightarrow> (case decode_n n dec r of (ys, t) \<Rightarrow> (x # ys, t)))"

definition decode_all :: "(bytes \<Rightarrow> ('a \<times> bytes) option) \<Rightarrow> bytes \<Rightarrow> 'a list \<times> bytes" where
  "decode_all dec xs = decode_n (length xs) dec xs"

text \<open>Feeding a stream chunk by chunk: what is left of one chunk is put before the next one.\<close>

fun decode_chunks_from :: "(bytes \<Rightarrow> ('a \<times> bytes) option) \<Rightarrow> bytes \<Rightarrow> bytes list \<Rightarrow> 'a list \<times> bytes" where
  "decode_chunks_from dec rest [] = ([], rest)"
| "decode_chunks_from dec rest (c # cs) =
     (case decode_all dec (rest @ c) of
        (xs, r) \<Rightarrow> (case decode_chunks_from dec r cs of (ys, t) \<Rightarrow> (xs @ ys, t)))"

locale stream_decoder =
  fixes dec :: "bytes \<Rightarrow> ('a \<times> bytes) option"
  assumes dec_append: "dec xs = Some (x, r) \<Longrightarrow> dec (xs @ ys) = Some (x, r @ ys)"
    and dec_shorter: "dec xs = Some (x, r) \<Longrightarrow> length r < length xs"
begin

lemma dec_Nil: "dec [] = None"
  using dec_shorter [of "[]"] by (cases "dec []") auto

lemma decode_n_enough: "length xs \<le> n \<Longrightarrow> decode_n n dec xs = decode_all dec xs"
proof (induction n arbitrary: xs rule: less_induct)
  case (less n)
  show ?case
  proof (cases "dec xs")
    case None
    then show ?thesis by (cases n; cases "length xs") (simp_all add: decode_all_def)
  next
    case (Some p)
    obtain x r where xr: "dec xs = Some (x, r)" using Some by (cases p) auto
    then have len: "length r < length xs" by (rule dec_shorter)
    with less.prems obtain n' where n': "n = Suc n'" by (cases n) auto
    obtain m where m: "length xs = Suc m" using len by (cases "length xs") auto
    have "decode_n n' dec r = decode_all dec r"
      using len less.prems n' by (intro less.IH) simp_all
    moreover have "decode_n m dec r = decode_all dec r"
      using len less.prems n' m by (intro less.IH) simp_all
    ultimately show ?thesis
      by (simp add: decode_all_def [of dec xs] n' m xr)
  qed
qed

lemma decode_all_None: "dec xs = None \<Longrightarrow> decode_all dec xs = ([], xs)"
  by (cases xs) (simp_all add: decode_all_def)

lemma decode_all_Some:
  assumes "dec xs = Some (x, r)"
  shows "decode_all dec xs = (case decode_all dec r of (ys, t) \<Rightarrow> (x # ys, t))"
proof -
  have len: "length r < length xs" using assms by (rule dec_shorter)
  then obtain m where m: "length xs = Suc m" by (cases "length xs") auto
  have "decode_n m dec r = decode_all dec r"
    using len m by (intro decode_n_enough) simp
  then show ?thesis by (simp add: decode_all_def [of dec xs] m assms)
qed

lemma decode_all_rest: "decode_all dec xs = (ys, t) \<Longrightarrow> dec t = None"
proof (induction "length xs" arbitrary: xs ys rule: less_induct)
  case less
  show ?case
  proof (cases "dec xs")
    case None
    with less.prems show ?thesis by (simp add: decode_all_None)
  next
    case (Some p)
    obtain x r where xr: "dec xs = Some (x, r)" using Some by (cases p) auto
    obtain zs where "decode_all dec r = (zs, t)"
      using less.prems by (auto simp: decode_all_Some [OF xr] split: prod.splits)
    then show ?thesis by (rule less.hyps [OF dec_shorter [OF xr]])
  qed
qed

lemma decode_all_append:
  "decode_all dec (xs @ ys) =
     (case decode_all dec xs of (as, r) \<Rightarrow>
      case decode_all dec (r @ ys) of (bs, t) \<Rightarrow> (as @ bs, t))"
proof (induction "length xs" arbitrary: xs rule: less_induct)
  case less
  show ?case
  proof (cases "dec xs")
    case None
    then show ?thesis by (simp add: decode_all_None split: prod.splits)
  next
    case (Some p)
    obtain x r where xr: "dec xs = Some (x, r)" using Some by (cases p) auto
    then have "dec (xs @ ys) = Some (x, r @ ys)" by (rule dec_append)
    from decode_all_Some [OF this] decode_all_Some [OF xr] less.hyps [OF dec_shorter [OF xr]]
    show ?thesis by (simp split: prod.splits)
  qed
qed

text \<open>Reassembly: cutting a stream into chunks changes neither the values nor the remainder.\<close>

theorem decode_chunks_concat:
  "dec rest = None \<Longrightarrow> decode_chunks_from dec rest cs = decode_all dec (rest @ concat cs)"
proof (induction cs arbitrary: rest)
  case Nil
  then show ?case by (simp add: decode_all_None)
next
  case (Cons c cs)
  obtain as r where a: "decode_all dec (rest @ c) = (as, r)" by fastforce
  have "decode_chunks_from dec r cs = decode_all dec (r @ concat cs)"
    by (rule Cons.IH [OF decode_all_rest [OF a]])
  with a decode_all_append [of "rest @ c" "concat cs"] show ?case by simp
qed

end

locale prefix_codec = stream_decoder dec for dec :: "bytes \<Rightarrow> ('a \<times> bytes) option" +
  fixes enc :: "'a \<Rightarrow> bytes" and valid :: "'a \<Rightarrow> bool"
  assumes dec_enc: "valid x \<Longrightarrow> dec (enc x @ r) = Some (x, r)"
begin

lemma enc_prefix_free:
  assumes "valid x" and "valid y" and "enc x @ r = enc y @ s"
  shows "x = y \<and> r = s"
  by (metis assms dec_enc option.inject prod.inject)

lemma enc_nonempty: "valid x \<Longrightarrow> enc x \<noteq> []"
  using dec_enc [of x "[]"] dec_Nil by auto

lemma decode_all_enc:
  assumes "\<forall>x\<in>set xs. valid x" and "dec t = None"
  shows "decode_all dec (concat (map enc xs) @ t) = (xs, t)"
  using assms(1)
proof (induction xs)
  case Nil
  then show ?case using assms(2) by (simp add: decode_all_None)
next
  case (Cons x xs)
  have "dec (enc x @ (concat (map enc xs) @ t)) = Some (x, concat (map enc xs) @ t)"
    using Cons.prems by (intro dec_enc) simp
  from decode_all_Some [OF this] Cons show ?case by simp
qed

text \<open>Decoding a prefix of an encoded stream yields a prefix of the values and stops inside the next one.\<close>

lemma decode_all_prefix:
  assumes "\<forall>x\<in>set xs. valid x" and "us @ vs = concat (map enc xs)" and "decode_all dec us = (gs, r)"
  shows "\<exists>hs. xs = gs @ hs \<and> r @ vs = concat (map enc hs)"
  using assms
proof (induction xs arbitrary: us gs)
  case Nil
  then have "us = []" by simp
  with Nil.prems(2,3) show ?case by (simp add: decode_all_None dec_Nil)
next
  case (Cons x xs)
  show ?case
  proof (cases "dec us")
    case None
    with Cons.prems show ?thesis by (simp add: decode_all_None)
  next
    case (Some yr)
    obtain y t where y: "dec us = Some (y, t)" using Some by (cases yr) auto
    obtain gs' where gs: "decode_all dec t = (gs', r)" "gs = y # gs'"
      using Cons.prems(3) by (auto simp: decode_all_Some [OF y] split: prod.splits)
    have "dec (us @ vs) = Some (y, t @ vs)" by (rule dec_append [OF y])
    moreover have "dec (us @ vs) = Some (x, concat (map enc xs))"
      using Cons.prems(1,2) dec_enc [of x "concat (map enc xs)"] by simp
    ultimately have "y = x" "t @ vs = concat (map enc xs)" by simp_all
    with Cons.IH [of t gs'] Cons.prems(1) gs show ?thesis by simp
  qed
qed

text \<open>Bytes that do not decode yet, in front of an encoded stream, are shorter than its next value.\<close>

lemma undecoded_shorter:
  assumes "dec us = None" and "us @ vs = concat (map enc xs)" and "\<forall>x\<in>set xs. valid x" and "us \<noteq> []"
  shows "\<exists>x\<in>set xs. length us < length (enc x)"
proof (cases xs)
  case Nil
  with assms(2,4) show ?thesis by simp
next
  case (Cons x ys)
  have "length us < length (enc x)"
  proof (rule ccontr)
    assume len: "\<not> length us < length (enc x)"
    have "take (length (enc x)) (us @ vs) = enc x" using assms(2) Cons by simp
    then have "us = enc x @ drop (length (enc x)) us"
      using len by (metis append_take_drop_id le_add_diff_inverse linorder_not_less take_append
          append_Nil2 diff_is_0_eq take_0)
    with dec_enc [of x] assms(1,3) Cons show False by (metis list.set_intros(1) option.distinct(1))
  qed
  with Cons show ?thesis by auto
qed

text \<open>A stream of encoded values, cut anywhere, is decoded back into the values.\<close>

theorem chunked_roundtrip:
  assumes "\<forall>x\<in>set xs. valid x" and "concat cs = concat (map enc xs)"
  shows "decode_chunks_from dec [] cs = (xs, [])"
proof -
  have "decode_chunks_from dec [] cs = decode_all dec ([] @ concat cs)"
    by (rule decode_chunks_concat [OF dec_Nil])
  also have "\<dots> = decode_all dec (concat (map enc xs) @ [])"
    by (simp add: assms(2))
  also have "\<dots> = (xs, [])"
    by (rule decode_all_enc [OF assms(1) dec_Nil])
  finally show ?thesis .
qed

end

end
