(* ===== verification/Octets.thy ===== *)
theory Octets
  imports Codec
begin

text \<open>
  The byte cursor of \<open>core/quiche/octets/src/lib.rs\<close>, through which the core reads and writes
  every MASQUE capsule and HTTP datagram. \<open>Octets\<close> and \<open>OctetsMut\<close> have the same two fields, a
  buffer and an offset; both are the record \<open>octets\<close>. An operation returns its \<open>Result\<close> together
  with the cursor it leaves behind, because a failed read may already have advanced the offset
  (\<open>get_bytes_with_u8_length\<close>). A write returns the offset at which the slice it wrote starts.
  The theory shows that the offset never passes the end of the buffer, that reads and writes of
  variable-length integers are inverse to each other, and interprets the codec interface of
  the MASQUE layer.
\<close>

section \<open>The cursor\<close>

record octets =
  oct_buf :: bytes
  oct_off :: nat

datatype oct_error = BufferTooShortError

type_synonym 'a oct_result = "(oct_error + 'a) \<times> octets"

definition MAX_VAR_INT :: u64 where
  "MAX_VAR_INT = 4611686018427387903"

definition with_slice :: "bytes \<Rightarrow> octets" where
  "with_slice buf = \<lparr>oct_buf = buf, oct_off = 0\<rparr>"

definition cap :: "octets \<Rightarrow> nat" where
  "cap b = length (oct_buf b) - oct_off b"

definition oct_len :: "octets \<Rightarrow> nat" where
  "oct_len b = length (oct_buf b)"

definition oct_is_empty :: "octets \<Rightarrow> bool" where
  "oct_is_empty b = (length (oct_buf b) = 0)"

definition oct_to_vec :: "octets \<Rightarrow> bytes" where
  "oct_to_vec b = drop (oct_off b) (oct_buf b)"

text \<open>The offset stays inside the buffer: the invariant of both structs.\<close>

definition oct_wf :: "octets \<Rightarrow> bool" where
  "oct_wf b \<longleftrightarrow> oct_off b \<le> length (oct_buf b)"

text \<open>The macros \<open>peek_u!\<close>, \<open>get_u!\<close> and \<open>put_u!\<close>, for an integer of \<open>n\<close> bytes.\<close>

definition peek_u :: "nat \<Rightarrow> octets \<Rightarrow> oct_error + nat" where
  "peek_u n b =
     (let src = drop (oct_off b) (oct_buf b) in
      if length src < n then Inl BufferTooShortError else Inr (be_val (take n src)))"

definition get_u :: "nat \<Rightarrow> octets \<Rightarrow> nat oct_result" where
  "get_u n b =
     (case peek_u n b of
        Inl e \<Rightarrow> (Inl e, b)
      | Inr v \<Rightarrow> (Inr v, b\<lparr>oct_off := oct_off b + n\<rparr>))"

definition put_u :: "nat \<Rightarrow> nat \<Rightarrow> octets \<Rightarrow> nat oct_result" where
  "put_u n v b =
     (if length (oct_buf b) < oct_off b + n then (Inl BufferTooShortError, b)
      else (Inr (oct_off b),
            b\<lparr>oct_buf := take (oct_off b) (oct_buf b) @ be_bytes n v @ drop (oct_off b + n) (oct_buf b),
              oct_off := oct_off b + n\<rparr>))"

definition map_res :: "('a \<Rightarrow> 'b) \<Rightarrow> 'a oct_result \<Rightarrow> 'b oct_result" where
  "map_res f r = (case r of (Inl e, b) \<Rightarrow> (Inl e, b) | (Inr v, b) \<Rightarrow> (Inr (f v), b))"

definition oct_then :: "'a oct_result \<Rightarrow> ('a \<Rightarrow> octets \<Rightarrow> 'b oct_result) \<Rightarrow> 'b oct_result" where
  "oct_then r f = (case r of (Inl e, b) \<Rightarrow> (Inl e, b) | (Inr v, b) \<Rightarrow> f v b)"

section \<open>Reads\<close>

definition peek_u8 :: "octets \<Rightarrow> oct_error + u8" where
  "peek_u8 b = (case peek_u 1 b of Inl e \<Rightarrow> Inl e | Inr v \<Rightarrow> Inr (of_nat v))"

definition get_u8 :: "octets \<Rightarrow> u8 oct_result" where
  "get_u8 b = map_res of_nat (get_u 1 b)"

definition get_u16 :: "octets \<Rightarrow> u16 oct_result" where
  "get_u16 b = map_res of_nat (get_u 2 b)"

definition get_u24 :: "octets \<Rightarrow> u32 oct_result" where
  "get_u24 b = map_res of_nat (get_u 3 b)"

definition get_u32 :: "octets \<Rightarrow> u32 oct_result" where
  "get_u32 b = map_res of_nat (get_u 4 b)"

definition get_u64 :: "octets \<Rightarrow> u64 oct_result" where
  "get_u64 b = map_res of_nat (get_u 8 b)"

definition varint_parse_len :: "u8 \<Rightarrow> nat" where
  "varint_parse_len first =
     (let k = unat (drop_bit 6 first) in
      if k = 0 then 1 else if k = 1 then 2 else if k = 2 then 4 else 8)"

definition get_varint :: "octets \<Rightarrow> u64 oct_result" where
  "get_varint b =
     (case peek_u8 b of
        Inl e \<Rightarrow> (Inl e, b)
      | Inr first \<Rightarrow>
          (let len = varint_parse_len first in
           if len > cap b then (Inl BufferTooShortError, b)
           else if len = 1 then map_res ucast (get_u8 b)
           else if len = 2 then map_res (\<lambda>v. ucast (v AND 0x3fff)) (get_u16 b)
           else if len = 4 then map_res (\<lambda>v. ucast (v AND 0x3fffffff)) (get_u32 b)
           else map_res (\<lambda>v. v AND 0x3fffffffffffffff) (get_u64 b)))"

definition peek_bytes :: "nat \<Rightarrow> octets \<Rightarrow> oct_error + octets" where
  "peek_bytes len b =
     (if cap b < len then Inl BufferTooShortError
      else Inr (with_slice (take len (drop (oct_off b) (oct_buf b)))))"

definition get_bytes :: "nat \<Rightarrow> octets \<Rightarrow> octets oct_result" where
  "get_bytes len b =
     (if cap b < len then (Inl BufferTooShortError, b)
      else (Inr (with_slice (take len (drop (oct_off b) (oct_buf b)))),
            b\<lparr>oct_off := oct_off b + len\<rparr>))"

definition get_bytes_with_u8_length :: "octets \<Rightarrow> octets oct_result" where
  "get_bytes_with_u8_length b = oct_then (get_u8 b) (\<lambda>len. get_bytes (unat len))"

definition get_bytes_with_u16_length :: "octets \<Rightarrow> octets oct_result" where
  "get_bytes_with_u16_length b = oct_then (get_u16 b) (\<lambda>len. get_bytes (unat len))"

definition get_bytes_with_varint_length :: "octets \<Rightarrow> octets oct_result" where
  "get_bytes_with_varint_length b = oct_then (get_varint b) (\<lambda>len. get_bytes (unat len))"

definition rewind :: "nat \<Rightarrow> octets \<Rightarrow> unit oct_result" where
  "rewind len b =
     (if oct_off b < len then (Inl BufferTooShortError, b)
      else (Inr (), b\<lparr>oct_off := oct_off b - len\<rparr>))"

definition slice_oct :: "nat \<Rightarrow> octets \<Rightarrow> oct_error + bytes" where
  "slice_oct len b =
     (if len > cap b then Inl BufferTooShortError
      else Inr (take len (drop (oct_off b) (oct_buf b))))"

definition slice_last :: "nat \<Rightarrow> octets \<Rightarrow> oct_error + bytes" where
  "slice_last len b =
     (if len > cap b then Inl BufferTooShortError
      else Inr (drop (length (oct_buf b) - len) (oct_buf b)))"

definition skip_oct :: "nat \<Rightarrow> octets \<Rightarrow> unit oct_result" where
  "skip_oct n b =
     (if n > cap b then (Inl BufferTooShortError, b)
      else (Inr (), b\<lparr>oct_off := oct_off b + n\<rparr>))"

section \<open>Writes\<close>

definition put_u8 :: "u8 \<Rightarrow> octets \<Rightarrow> nat oct_result" where
  "put_u8 v b = put_u 1 (unat v) b"

definition put_u16 :: "u16 \<Rightarrow> octets \<Rightarrow> nat oct_result" where
  "put_u16 v b = put_u 2 (unat v) b"

definition put_u24 :: "u32 \<Rightarrow> octets \<Rightarrow> nat oct_result" where
  "put_u24 v b = put_u 3 (unat v) b"

definition put_u32 :: "u32 \<Rightarrow> octets \<Rightarrow> nat oct_result" where
  "put_u32 v b = put_u 4 (unat v) b"

definition put_u64 :: "u64 \<Rightarrow> octets \<Rightarrow> nat oct_result" where
  "put_u64 v b = put_u 8 (unat v) b"

text \<open>\<open>varint_len\<close> reaches \<open>unreachable!()\<close> above \<open>MAX_VAR_INT\<close>.\<close>

definition varint_len :: "u64 \<Rightarrow> nat rust" where
  "varint_len v =
     (if v \<le> 63 then Some 1
      else if v \<le> 16383 then Some 2
      else if v \<le> 1073741823 then Some 4
      else if v \<le> MAX_VAR_INT then Some 8
      else None)"

text \<open>\<open>buf[0] |= tag\<close> on the slice that starts at \<open>start\<close>.\<close>

definition tag_first :: "u8 \<Rightarrow> nat \<Rightarrow> octets \<Rightarrow> nat oct_result" where
  "tag_first tag start b =
     (Inr start, b\<lparr>oct_buf := (oct_buf b)[start := oct_buf b ! start OR tag]\<rparr>)"

definition put_varint_with_len :: "u64 \<Rightarrow> nat \<Rightarrow> octets \<Rightarrow> nat oct_result rust" where
  "put_varint_with_len v len b =
     (if cap b < len then Some (Inl BufferTooShortError, b)
      else if len = 1 then Some (put_u8 (ucast v) b)
      else if len = 2 then Some (oct_then (put_u16 (ucast v) b) (tag_first 0x40))
      else if len = 4 then Some (oct_then (put_u32 (ucast v) b) (tag_first 0x80))
      else if len = 8 then Some (oct_then (put_u64 v b) (tag_first 0xc0))
      else None)"

definition put_varint :: "u64 \<Rightarrow> octets \<Rightarrow> nat oct_result rust" where
  "put_varint v b = do { len \<leftarrow> varint_len v; put_varint_with_len v len b }"

definition put_bytes :: "bytes \<Rightarrow> octets \<Rightarrow> unit oct_result" where
  "put_bytes v b =
     (if cap b < length v then (Inl BufferTooShortError, b)
      else if length v = 0 then (Inr (), b)
      else (Inr (),
            b\<lparr>oct_buf := take (oct_off b) (oct_buf b) @ v @ drop (oct_off b + length v) (oct_buf b),
              oct_off := oct_off b + length v\<rparr>))"

definition split_at :: "nat \<Rightarrow> octets \<Rightarrow> oct_error + octets \<times> octets" where
  "split_at k b =
     (if length (oct_buf b) < k then Inl BufferTooShortError
      else Inr (with_slice (take k (oct_buf b)), with_slice (drop k (oct_buf b))))"

section \<open>The invariant\<close>

lemmas oct_defs = cap_def oct_wf_def with_slice_def oct_to_vec_def

lemma oct_to_vec_with_slice [simp]: "oct_to_vec (with_slice xs) = xs"
  by (simp add: oct_defs)

lemma oct_wf_with_slice [simp]: "oct_wf (with_slice xs)"
  by (simp add: oct_defs)

lemma cap_to_vec: "cap b = length (oct_to_vec b)"
  by (simp add: oct_defs)

lemma map_res_wf: "oct_wf (snd (map_res f r)) = oct_wf (snd r)"
  by (cases r; cases "fst r") (auto simp: map_res_def)

lemma get_u_wf: "oct_wf b \<Longrightarrow> oct_wf (snd (get_u n b))"
  by (auto simp: get_u_def peek_u_def oct_defs)

lemma get_varint_wf: "oct_wf b \<Longrightarrow> oct_wf (snd (get_varint b))"
  by (auto simp: get_varint_def get_u8_def get_u16_def get_u32_def get_u64_def map_res_wf get_u_wf
      Let_def split: sum.splits)

lemma put_u_wf: "oct_wf b \<Longrightarrow> oct_wf (snd (put_u n v b))"
  by (auto simp: put_u_def oct_defs)

lemma put_u_length: "oct_wf b \<Longrightarrow> length (oct_buf (snd (put_u n v b))) = length (oct_buf b)"
  by (auto simp: put_u_def oct_defs)

lemma get_bytes_wf: "oct_wf b \<Longrightarrow> oct_wf (snd (get_bytes n b))"
  by (auto simp: get_bytes_def oct_defs)

lemma get_bytes_sub: "get_bytes n b = (Inr s, b') \<Longrightarrow>
    s = with_slice (take n (oct_to_vec b)) \<and> n \<le> cap b \<and> b' = b\<lparr>oct_off := oct_off b + n\<rparr>"
  by (auto simp: get_bytes_def oct_defs split: if_splits)

lemma get_bytes_enough: "n \<le> cap b \<Longrightarrow>
    get_bytes n b = (Inr (with_slice (take n (oct_to_vec b))), b\<lparr>oct_off := oct_off b + n\<rparr>)"
  by (simp add: get_bytes_def oct_to_vec_def)

lemma put_bytes_wf: "oct_wf b \<Longrightarrow> oct_wf (snd (put_bytes v b))"
  by (auto simp: put_bytes_def oct_defs)

section \<open>Variable-length integers on byte strings\<close>

text \<open>The wire format: the two top bits of the first byte select a length of 1, 2, 4 or 8.\<close>

definition varint_split :: "bytes \<Rightarrow> (nat \<times> nat) option" where
  "varint_split xs =
     (case xs of
        [] \<Rightarrow> None
      | f # _ \<Rightarrow>
          (let n = varint_parse_len f in
           if length xs < n then None else Some (be_val (take n xs) mod (64 * 256 ^ (n - 1)), n)))"

definition varint_enc :: "u64 \<Rightarrow> bytes" where
  "varint_enc v =
     (if unat v < 64 then be_bytes 1 (unat v)
      else if unat v < 16384 then be_bytes 2 (0x4000 + unat v)
      else if unat v < 1073741824 then be_bytes 4 (0x80000000 + unat v)
      else be_bytes 8 (0xC000000000000000 + unat v))"

definition varint_dec :: "bytes \<Rightarrow> (u64 \<times> bytes) option" where
  "varint_dec xs =
     (case get_varint (with_slice xs) of
        (Inl e, b) \<Rightarrow> None
      | (Inr v, b) \<Rightarrow> Some (v, oct_to_vec b))"

definition varint_ok :: "u64 \<Rightarrow> bool" where
  "varint_ok v \<longleftrightarrow> v \<le> MAX_VAR_INT"

lemma varint_ok_iff: "varint_ok v \<longleftrightarrow> unat v < 4611686018427387904"
proof -
  have "unat MAX_VAR_INT = 4611686018427387903" by (simp add: MAX_VAR_INT_def)
  then show ?thesis by (auto simp: varint_ok_def word_le_nat_alt)
qed

lemma varint_parse_len_eq:
  "varint_parse_len f = (if unat f < 64 then 1 else if unat f < 128 then 2
     else if unat f < 192 then 4 else 8)"
  using unat_u8_less [of f] by (auto simp add: varint_parse_len_def unat_drop_bit_u8 Let_def)

lemma varint_parse_len_cases:
  "varint_parse_len f = 1 \<or> varint_parse_len f = 2 \<or> varint_parse_len f = 4 \<or> varint_parse_len f = 8"
  by (simp add: varint_parse_len_eq)

lemma unat_mask_u16: "unat ((w::u16) AND 0x3fff) = unat w mod 16384"
  using unat_and_mask [of w 14] by (simp add: mask_eq_exp_minus_1)

lemma unat_mask_u32: "unat ((w::u32) AND 0x3fffffff) = unat w mod 1073741824"
  using unat_and_mask [of w 30] by (simp add: mask_eq_exp_minus_1)

lemma unat_mask_u64: "unat ((w::u64) AND 0x3fffffffffffffff) = unat w mod 4611686018427387904"
  using unat_and_mask [of w 62] by (simp add: mask_eq_exp_minus_1)

lemma u64_eqI: "unat v = unat w \<Longrightarrow> v = (w::u64)"
  by (simp add: word_unat_eq_iff)

lemma unat_ucast_u64: "unat (ucast (w :: 'a::len word) :: u64) = unat w mod 18446744073709551616"
  by (simp add: unsigned_ucast_eq take_bit_eq_mod)

lemma get_u_to_vec:
  "get_u n b = (if length (oct_to_vec b) < n then (Inl BufferTooShortError, b)
     else (Inr (be_val (take n (oct_to_vec b))), b\<lparr>oct_off := oct_off b + n\<rparr>))"
  by (simp add: get_u_def peek_u_def oct_to_vec_def Let_def)

lemma peek_u8_to_vec:
  "peek_u8 b = (case oct_to_vec b of [] \<Rightarrow> Inl BufferTooShortError | f # _ \<Rightarrow> Inr f)"
  by (cases "oct_to_vec b") (simp_all add: peek_u8_def peek_u_def oct_to_vec_def [symmetric] Let_def)

lemma be_val_take_bound: "n \<le> length xs \<Longrightarrow> be_val (take n xs) < 256 ^ n"
  using be_val_less [of "take n xs"] by simp

text \<open>Reading a variable-length integer, as a function of the unread bytes.\<close>

lemma varint_word1: "v < 64 \<Longrightarrow> (ucast (of_nat v :: u8) :: u64) = of_nat (v mod 64)"
  by (rule u64_eqI) (simp only: unat_ucast_u64 unat_of_nat_u8 unat_of_nat_u64 mod_less)

lemma varint_word2:
  "v < 65536 \<Longrightarrow> (ucast ((of_nat v :: u16) AND 0x3fff) :: u64) = of_nat (v mod 16384)"
  by (rule u64_eqI) (simp only: unat_ucast_u64 unat_mask_u16 unat_of_nat_u16 unat_of_nat_u64 mod_less)

lemma varint_word4:
  "v < 4294967296 \<Longrightarrow> (ucast ((of_nat v :: u32) AND 0x3fffffff) :: u64) = of_nat (v mod 1073741824)"
  by (rule u64_eqI) (simp only: unat_ucast_u64 unat_mask_u32 unat_of_nat_u32 unat_of_nat_u64 mod_less)

lemma varint_word8:
  "v < 18446744073709551616 \<Longrightarrow>
     ((of_nat v :: u64) AND 0x3fffffffffffffff) = of_nat (v mod 4611686018427387904)"
  by (rule u64_eqI) (simp add: unat_mask_u64 del: of_nat_mod)

lemma get_varint_enough:
  assumes "oct_to_vec b = f # r" and "varint_parse_len f \<le> length (oct_to_vec b)"
  shows "get_varint b =
     (if varint_parse_len f = 1 then map_res ucast (get_u8 b)
      else if varint_parse_len f = 2 then map_res (\<lambda>v. ucast (v AND 0x3fff)) (get_u16 b)
      else if varint_parse_len f = 4 then map_res (\<lambda>v. ucast (v AND 0x3fffffff)) (get_u32 b)
      else map_res (\<lambda>v. v AND 0x3fffffffffffffff) (get_u64 b))"
  using assms by (simp add: get_varint_def peek_u8_to_vec cap_to_vec Let_def)

lemma get_varint_split:
  "get_varint b =
     (case varint_split (oct_to_vec b) of
        None \<Rightarrow> (Inl BufferTooShortError, b)
      | Some (v, n) \<Rightarrow> (Inr (of_nat v), b\<lparr>oct_off := oct_off b + n\<rparr>))"
proof (cases "oct_to_vec b")
  case Nil
  then show ?thesis by (simp add: get_varint_def peek_u8_to_vec varint_split_def)
next
  case (Cons f r)
  let ?n = "varint_parse_len f" and ?xs = "oct_to_vec b"
  show ?thesis
  proof (cases "length ?xs < ?n")
    case True
    then show ?thesis
      using Cons by (simp add: get_varint_def peek_u8_to_vec varint_split_def Let_def cap_to_vec)
  next
    case False
    define v where "v = be_val (take ?n ?xs)"
    have lt: "v < 256 ^ ?n"
      unfolding v_def using False by (intro be_val_take_bound) simp
    have got: "get_u ?n b = (Inr v, b\<lparr>oct_off := oct_off b + ?n\<rparr>)"
      using False by (simp add: get_u_to_vec v_def)
    have split: "varint_split ?xs = Some (v mod (64 * 256 ^ (?n - 1)), ?n)"
      using Cons False by (simp add: varint_split_def Let_def v_def)
    have get: "get_varint b =
       (if ?n = 1 then map_res ucast (get_u8 b)
        else if ?n = 2 then map_res (\<lambda>v. ucast (v AND 0x3fff)) (get_u16 b)
        else if ?n = 4 then map_res (\<lambda>v. ucast (v AND 0x3fffffff)) (get_u32 b)
        else map_res (\<lambda>v. v AND 0x3fffffffffffffff) (get_u64 b))"
      using Cons False by (intro get_varint_enough) simp_all
    consider "?n = 1" | "?n = 2" | "?n = 4" | "?n = 8"
      using varint_parse_len_cases [of f] by blast
    then show ?thesis
    proof cases
      case 1
      then have "unat f < 64" by (auto simp: varint_parse_len_eq split: if_splits)
      with Cons 1 have "v < 64" by (simp add: v_def)
      with 1 got show ?thesis
        unfolding get split by (simp add: get_u8_def map_res_def varint_word1 del: of_nat_mod)
    next
      case 2
      with got lt show ?thesis
        unfolding get split by (simp add: get_u16_def map_res_def varint_word2)
    next
      case 3
      with got lt show ?thesis
        unfolding get split by (simp add: get_u32_def map_res_def varint_word4)
    next
      case 4
      with got lt show ?thesis
        unfolding get split by (simp add: get_u64_def map_res_def varint_word8)
    qed
  qed
qed

section \<open>Encoding and decoding are inverse\<close>

lemma varint_dec_split:
  "varint_dec xs = map_option (\<lambda>(v, n). (of_nat v, drop n xs)) (varint_split xs)"
  by (cases "varint_split xs")
    (auto simp: varint_dec_def get_varint_split oct_defs split: prod.splits)

lemma varint_split_bounds: "varint_split xs = Some (v, n) \<Longrightarrow> 0 < n \<and> n \<le> length xs \<and> v < 4611686018427387904"
proof -
  assume "varint_split xs = Some (v, n)"
  then obtain f r where f: "xs = f # r" "n = varint_parse_len f" "\<not> length xs < n"
      "v = be_val (take n xs) mod (64 * 256 ^ (n - 1))"
    by (auto simp: varint_split_def Let_def split: list.splits if_splits)
  have "v < 64 * 256 ^ (n - 1)" unfolding f(4) by (rule mod_less_divisor) simp
  with f(2,3) varint_parse_len_cases [of f] show ?thesis by auto
qed

lemma varint_split_append:
  assumes "varint_split xs = Some (v, n)"
  shows "varint_split (xs @ ys) = Some (v, n)"
proof -
  obtain f r where f: "xs = f # r" "n = varint_parse_len f" "\<not> length xs < n"
      "v = be_val (take n xs) mod (64 * 256 ^ (n - 1))"
    using assms by (auto simp: varint_split_def Let_def split: list.splits if_splits)
  have "take n (xs @ ys) = take n xs" using f(3) by simp
  with f show ?thesis by (simp add: varint_split_def Let_def)
qed

lemma varint_dec_append:
  assumes "varint_dec xs = Some (v, r)"
  shows "varint_dec (xs @ ys) = Some (v, r @ ys)"
proof -
  obtain w n where w: "varint_split xs = Some (w, n)" "v = of_nat w" "r = drop n xs"
    using assms by (auto simp: varint_dec_split)
  with varint_split_bounds [OF w(1)] varint_split_append [OF w(1)] show ?thesis
    by (simp add: varint_dec_split)
qed

lemma varint_dec_shorter: "varint_dec xs = Some (v, r) \<Longrightarrow> length r < length xs"
  by (auto simp: varint_dec_split dest: varint_split_bounds)

text \<open>The first byte of an \<open>n\<close>-byte encoding carries the length tag.\<close>

lemma varint_split_be_bytes:
  assumes v: "v < 64 * 256 ^ m" and k: "k < 4" and n: "n = Suc m"
    and nk: "n = (if k = 0 then 1 else if k = 1 then 2 else if k = 2 then 4 else 8)"
  shows "varint_split (be_bytes n (64 * k * 256 ^ m + v) @ r) = Some (v, n)"
proof -
  let ?w = "64 * k * 256 ^ m + v"
  have vm: "v div 256 ^ m < 64" using v by (simp add: less_mult_imp_div_less)
  have hd: "?w div 256 ^ m = 64 * k + v div 256 ^ m" by simp
  have first: "unat (of_nat (?w div 256 ^ m) :: u8) = 64 * k + v div 256 ^ m"
    unfolding hd unat_of_nat_u8 using vm k by (intro mod_less) linarith
  have "varint_parse_len (of_nat (?w div 256 ^ m)) = n"
    unfolding varint_parse_len_eq first using vm k nk by (auto split: if_splits)
  moreover have "?w < 256 ^ n"
  proof -
    have "64 * k * 256 ^ m + v < 64 * k * 256 ^ m + 64 * 256 ^ m" using v by simp
    also have "\<dots> = (64 * (k + 1)) * 256 ^ m" by (simp add: algebra_simps)
    also have "\<dots> \<le> 256 * 256 ^ m" using k by (intro mult_le_mono1) simp
    finally show ?thesis by (simp add: n)
  qed
  then have "be_val (be_bytes n ?w) = ?w" by simp
  moreover have "?w mod (64 * 256 ^ m) = v"
  proof -
    have "?w = v + k * (64 * 256 ^ m)" by simp
    then show ?thesis using v by (simp only: mod_mult_self1 mod_less)
  qed
  ultimately show ?thesis
    by (simp add: varint_split_def Let_def n del: be_val_be_bytes be_val_Cons)
qed

lemma varint_split_enc:
  assumes "varint_ok v"
  shows "varint_split (varint_enc v @ r) = Some (unat v, length (varint_enc v))"
proof -
  consider "unat v < 64" | "\<not> unat v < 64" "unat v < 16384"
    | "\<not> unat v < 16384" "unat v < 1073741824" | "\<not> unat v < 1073741824" by blast
  then show ?thesis
  proof cases
    case 1
    have "varint_split (be_bytes 1 (64 * 0 * 256 ^ 0 + unat v) @ r) = Some (unat v, 1)"
      by (rule varint_split_be_bytes) (use 1 in simp_all)
    then have "varint_split (be_bytes 1 (unat v) @ r) = Some (unat v, 1)"
      by (simp only: mult_0_right mult_0 add_0)
    with 1 show ?thesis by (simp only: varint_enc_def if_True length_be_bytes)
  next
    case 2
    have "varint_split (be_bytes 2 (64 * 1 * 256 ^ 1 + unat v) @ r) = Some (unat v, 2)"
      by (rule varint_split_be_bytes) (use 2  in simp_all)
    moreover have "64 * 1 * 256 ^ 1 + unat v = 0x4000 + unat v" by simp
    ultimately have "varint_split (be_bytes 2 (0x4000 + unat v) @ r) = Some (unat v, 2)"
      by (simp only:)
    moreover have "varint_enc v = be_bytes 2 (0x4000 + unat v)"
      using 2 by (simp add: varint_enc_def)
    ultimately show ?thesis by (simp only: length_be_bytes)
  next
    case 3
    have "varint_split (be_bytes 4 (64 * 2 * 256 ^ 3 + unat v) @ r) = Some (unat v, 4)"
      by (rule varint_split_be_bytes) (use 3  in simp_all)
    moreover have "64 * 2 * 256 ^ 3 + unat v = 0x80000000 + unat v" by simp
    ultimately have "varint_split (be_bytes 4 (0x80000000 + unat v) @ r) = Some (unat v, 4)"
      by (simp only:)
    moreover have "varint_enc v = be_bytes 4 (0x80000000 + unat v)"
      using 3 by (simp add: varint_enc_def)
    ultimately show ?thesis by (simp only: length_be_bytes)
  next
    case 4
    have "varint_split (be_bytes 8 (64 * 3 * 256 ^ 7 + unat v) @ r) = Some (unat v, 8)"
      by (rule varint_split_be_bytes) (use 4 assms [unfolded varint_ok_iff] in simp_all)
    moreover have "64 * 3 * 256 ^ 7 + unat v = 0xC000000000000000 + unat v" by simp
    ultimately have "varint_split (be_bytes 8 (0xC000000000000000 + unat v) @ r) = Some (unat v, 8)"
      by (simp only:)
    moreover have "varint_enc v = be_bytes 8 (0xC000000000000000 + unat v)"
      using 4 by (simp add: varint_enc_def)
    ultimately show ?thesis by (simp only: length_be_bytes)
  qed
qed

lemma varint_dec_enc: "varint_ok v \<Longrightarrow> varint_dec (varint_enc v @ r) = Some (v, r)"
  by (simp add: varint_dec_split varint_split_enc)

interpretation vi: prefix_codec varint_dec varint_enc varint_ok
  by unfold_locales (rule varint_dec_append varint_dec_shorter varint_dec_enc; assumption)+

section \<open>Writing variable-length integers\<close>

lemma be_bytes_tag:
  assumes v: "v < 64 * 256 ^ m" and k: "k < 4" and n: "n = Suc m"
  shows "(be_bytes n v)[0 := be_bytes n v ! 0 OR of_nat (64 * k)] = be_bytes n (64 * k * 256 ^ m + v)"
proof -
  let ?w = "64 * k * 256 ^ m + v"
  have vm: "v div 256 ^ m < 64" using v by (simp add: less_mult_imp_div_less)
  have hd: "?w div 256 ^ m = 64 * k + v div 256 ^ m" by simp
  have b: "unat (of_nat (v div 256 ^ m) :: u8) = v div 256 ^ m"
    unfolding unat_of_nat_u8 using vm by (intro mod_less) linarith
  have "unat (of_nat (v div 256 ^ m) OR of_nat (64 * k) :: u8) = v div 256 ^ m + 64 * k"
    using unat_or_tag [of "of_nat (v div 256 ^ m)" k] vm k b by simp
  then have "(of_nat (v div 256 ^ m) OR of_nat (64 * k) :: u8) = of_nat (?w div 256 ^ m)"
    unfolding hd using vm k by (simp only: word_unat_eq_iff unat_of_nat_u8) simp
  moreover have "be_bytes m ?w = be_bytes m v"
  proof -
    have "?w mod 256 ^ m = v mod 256 ^ m" by simp
    then show ?thesis by (metis be_bytes_mod)
  qed
  ultimately show ?thesis by (simp add: n)
qed

text \<open>\<open>wrote xs b\<close> is the cursor after \<open>xs\<close> has been written at the offset of \<open>b\<close>.\<close>

definition wrote :: "bytes \<Rightarrow> octets \<Rightarrow> octets" where
  "wrote xs b =
     b\<lparr>oct_buf := take (oct_off b) (oct_buf b) @ xs @ drop (oct_off b + length xs) (oct_buf b),
       oct_off := oct_off b + length xs\<rparr>"

lemma put_u_wrote:
  "oct_wf b \<Longrightarrow> n \<le> cap b \<Longrightarrow> put_u n v b = (Inr (oct_off b), wrote (be_bytes n v) b)"
  by (auto simp: put_u_def wrote_def oct_defs)

lemma put_bytes_wrote: "length xs \<le> cap b \<Longrightarrow> put_bytes xs b = (Inr (), wrote xs b)"
  by (auto simp: put_bytes_def wrote_def oct_defs)

lemma wrote_wf: "oct_wf b \<Longrightarrow> length xs \<le> cap b \<Longrightarrow> oct_wf (wrote xs b)"
  by (auto simp: wrote_def oct_defs)

lemma cap_wrote: "oct_wf b \<Longrightarrow> length xs \<le> cap b \<Longrightarrow> cap (wrote xs b) = cap b - length xs"
  by (auto simp: wrote_def oct_defs)

lemma wrote_wrote:
  "oct_wf b \<Longrightarrow> length xs + length ys \<le> cap b \<Longrightarrow> wrote ys (wrote xs b) = wrote (xs @ ys) b"
  by (auto simp: wrote_def oct_defs ac_simps)

lemma wrote_all: "length xs = length buf \<Longrightarrow> oct_buf (wrote xs (with_slice buf)) = xs"
  by (simp add: wrote_def with_slice_def)

lemma tag_first_wrote:
  assumes "oct_wf b" and "length xs \<le> cap b" and "xs \<noteq> []"
  shows "tag_first t (oct_off b) (wrote xs b) = (Inr (oct_off b), wrote (xs[0 := xs ! 0 OR t]) b)"
proof -
  have l: "length (take (oct_off b) (oct_buf b)) = oct_off b"
    using assms(1) by (simp add: oct_defs)
  have nth: "(take (oct_off b) (oct_buf b) @ xs @ ds) ! oct_off b = xs ! 0" for ds
    using assms(3) l by (simp add: nth_append)
  have upd: "(take (oct_off b) (oct_buf b) @ xs @ ds)[oct_off b := y]
      = take (oct_off b) (oct_buf b) @ xs[0 := y] @ ds" for ds y
    using assms(3) l by (simp add: list_update_append)
  show ?thesis by (simp add: tag_first_def wrote_def nth upd)
qed

lemma put_tagged:
  assumes "oct_wf b" and "n \<le> cap b" and "v < 64 * 256 ^ m" and "k < 4" and "n = Suc m"
  shows "oct_then (put_u n v b) (tag_first (of_nat (64 * k)))
       = (Inr (oct_off b), wrote (be_bytes n (64 * k * 256 ^ m + v)) b)"
proof -
  have "tag_first (of_nat (64 * k)) (oct_off b) (wrote (be_bytes n v) b)
      = (Inr (oct_off b), wrote ((be_bytes n v)[0 := be_bytes n v ! 0 OR of_nat (64 * k)]) b)"
    using assms(1,2,5) by (intro tag_first_wrote) auto
  also have "(be_bytes n v)[0 := be_bytes n v ! 0 OR of_nat (64 * k)] = be_bytes n (64 * k * 256 ^ m + v)"
    by (rule be_bytes_tag [OF assms(3-5)])
  finally show ?thesis
    using assms(1,2) by (simp add: oct_then_def put_u_wrote)
qed

lemma varint_len_enc: "varint_ok v \<Longrightarrow> varint_len v = Some (length (varint_enc v))"
  by (auto simp: varint_len_def varint_enc_def varint_ok_def word_le_nat_alt)

lemma varint_len_panics_iff: "varint_len v = None \<longleftrightarrow> \<not> varint_ok v"
proof -
  have "unat MAX_VAR_INT = 4611686018427387903" by (simp add: MAX_VAR_INT_def)
  then show ?thesis by (auto simp: varint_len_def varint_ok_def word_le_nat_alt)
qed

lemma varint_enc_length_cases:
  "length (varint_enc v) = 1 \<or> length (varint_enc v) = 2 \<or> length (varint_enc v) = 4
     \<or> length (varint_enc v) = 8"
  by (simp add: varint_enc_def)

lemma put_varint_wrote:
  assumes "varint_ok v" and "oct_wf b" and "length (varint_enc v) \<le> cap b"
  shows "put_varint v b = Some (Inr (oct_off b), wrote (varint_enc v) b)"
proof -
  have put: "put_varint v b = put_varint_with_len v (length (varint_enc v)) b"
    by (simp add: put_varint_def varint_len_enc [OF assms(1)])
  consider "unat v < 64" | "\<not> unat v < 64" "unat v < 16384"
    | "\<not> unat v < 16384" "unat v < 1073741824"
    | "\<not> unat v < 1073741824" "unat v < 4611686018427387904"
    using assms(1) varint_ok_iff by blast
  then show ?thesis
  proof cases
    case 1
    then have e: "varint_enc v = be_bytes 1 (unat v)" by (simp only: varint_enc_def if_True)
    with assms(3) have c: "1 \<le> cap b" by simp
    with e 1 assms(2) show ?thesis
      by (simp add: put put_varint_with_len_def put_u8_def put_u_wrote mod_less del: be_bytes.simps)
  next
    case 2
    then have e: "varint_enc v = be_bytes 2 (64 * 1 * 256 ^ 1 + unat v)" by (simp add: varint_enc_def)
    with assms(3) have c: "2 \<le> cap b" by (simp only: length_be_bytes)
    have w: "unat (ucast v :: u16) = unat v"
      using 2 by (simp add: unsigned_ucast_eq take_bit_eq_mod)
    have "unat v < 64 * 256 ^ 1" using 2 by simp
    moreover have "(1::nat) < 4" "(2::nat) = Suc 1" by simp_all
    moreover have t: "(of_nat (64 * 1) :: u8) = 0x40" by simp
    ultimately have "oct_then (put_u 2 (unat v) b) (tag_first 0x40) = (Inr (oct_off b), wrote (varint_enc v) b)"
      unfolding e t [symmetric] by (intro put_tagged [OF assms(2) c])
    moreover have "put_varint v b = Some (oct_then (put_u16 (ucast v) b) (tag_first 0x40))"
      using c unfolding put e length_be_bytes by (simp add: put_varint_with_len_def)
    ultimately show ?thesis by (simp only: put_u16_def w)
  next
    case 3
    then have e: "varint_enc v = be_bytes 4 (64 * 2 * 256 ^ 3 + unat v)" by (simp add: varint_enc_def)
    with assms(3) have c: "4 \<le> cap b" by (simp only: length_be_bytes)
    have w: "unat (ucast v :: u32) = unat v"
      using 3 by (simp add: unsigned_ucast_eq take_bit_eq_mod)
    have "unat v < 64 * 256 ^ 3" using 3 by simp
    moreover have "(2::nat) < 4" "(4::nat) = Suc 3" by simp_all
    moreover have t: "(of_nat (64 * 2) :: u8) = 0x80" by simp
    ultimately have "oct_then (put_u 4 (unat v) b) (tag_first 0x80) = (Inr (oct_off b), wrote (varint_enc v) b)"
      unfolding e t [symmetric] by (intro put_tagged [OF assms(2) c])
    moreover have "put_varint v b = Some (oct_then (put_u32 (ucast v) b) (tag_first 0x80))"
      using c unfolding put e length_be_bytes by (simp add: put_varint_with_len_def)
    ultimately show ?thesis by (simp only: put_u32_def w)
  next
    case 4
    then have e: "varint_enc v = be_bytes 8 (64 * 3 * 256 ^ 7 + unat v)" by (simp add: varint_enc_def)
    with assms(3) have c: "8 \<le> cap b" by (simp only: length_be_bytes)
    have "unat v < 64 * 256 ^ 7" using 4 by simp
    moreover have "(3::nat) < 4" "(8::nat) = Suc 7" by simp_all
    moreover have t: "(of_nat (64 * 3) :: u8) = 0xc0" by simp
    ultimately have "oct_then (put_u 8 (unat v) b) (tag_first 0xc0) = (Inr (oct_off b), wrote (varint_enc v) b)"
      unfolding e t [symmetric] by (intro put_tagged [OF assms(2) c])
    moreover have "put_varint v b = Some (oct_then (put_u64 v b) (tag_first 0xc0))"
      using c unfolding put e length_be_bytes by (simp add: put_varint_with_len_def)
    ultimately show ?thesis by (simp only: put_u64_def)
  qed
qed

lemma put_varint_short:
  "varint_ok v \<Longrightarrow> cap b < length (varint_enc v) \<Longrightarrow> put_varint v b = Some (Inl BufferTooShortError, b)"
  by (simp add: put_varint_def varint_len_enc put_varint_with_len_def)

lemma put_varint_panics_iff: "put_varint v b = None \<longleftrightarrow> \<not> varint_ok v"
proof (cases "varint_ok v")
  case True
  have "varint_len v \<in> {Some 1, Some 2, Some 4, Some 8}"
    using varint_enc_length_cases [of v] by (auto simp: varint_len_enc [OF True])
  with True show ?thesis by (auto simp: put_varint_def put_varint_with_len_def)
next
  case False
  then have "varint_len v = None" by (simp add: varint_len_panics_iff)
  with False show ?thesis by (simp add: put_varint_def)
qed

text \<open>
  For every value up to \<open>MAX_VAR_INT\<close> and every cursor with room for it, \<open>put_varint\<close> succeeds,
  advances the cursor by the encoded length, and rewinding by that length and calling
  \<open>get_varint\<close> reads the same value back and leaves the cursor where the write left it.
\<close>

lemma varint_write_read:
  assumes "v \<le> MAX_VAR_INT" and "oct_wf b" and "varint_len v = Some n" and "n \<le> cap b"
  shows "\<exists>b'. put_varint v b = Some (Inr (oct_off b), b') \<and> oct_off b' = oct_off b + n
     \<and> length (oct_buf b') = length (oct_buf b)
     \<and> fst (rewind n b') = Inr ()
     \<and> get_varint (snd (rewind n b')) = (Inr v, b')"
proof -
  have ok: "varint_ok v" using assms(1) by (simp add: varint_ok_def)
  then have n: "n = length (varint_enc v)" using assms(3) by (simp add: varint_len_enc)
  let ?b' = "wrote (varint_enc v) b"
  have put: "put_varint v b = Some (Inr (oct_off b), ?b')"
    using put_varint_wrote [OF ok assms(2)] assms(4) n by simp
  have "oct_to_vec (?b'\<lparr>oct_off := oct_off b\<rparr>) = varint_enc v @ drop (oct_off b + n) (oct_buf b)"
    using assms(2) by (simp add: oct_to_vec_def wrote_def oct_wf_def n)
  then have "get_varint (?b'\<lparr>oct_off := oct_off b\<rparr>) = (Inr v, ?b')"
    by (simp add: get_varint_split varint_split_enc [OF ok]) (simp add: wrote_def)
  moreover have "rewind n ?b' = (Inr (), ?b'\<lparr>oct_off := oct_off b\<rparr>)"
    by (simp add: rewind_def wrote_def n)
  moreover have "length (oct_buf ?b') = length (oct_buf b)"
    using assms(2,4) n by (auto simp: wrote_def oct_defs)
  ultimately show ?thesis
    using put by (intro exI [of _ ?b']) (simp add: wrote_def n)
qed

lemma varint_write_read_witness:
  "\<exists>b'. put_varint 16384 (with_slice (replicate 6 0)) = Some (Inr 0, b') \<and> oct_off b' = 0 + 4
     \<and> length (oct_buf b') = length (oct_buf (with_slice (replicate 6 (0::u8))))
     \<and> fst (rewind 4 b') = Inr () \<and> get_varint (snd (rewind 4 b')) = (Inr 16384, b')"
  using varint_write_read [of 16384 "with_slice (replicate 6 0)" 4]
  by (simp add: MAX_VAR_INT_def varint_len_def oct_defs)

end
