(* ===== verification/Wire.thy ===== *)
theory Wire
  imports Octets RangeBuf
begin

text \<open>
  Sequences of reads and of writes on a byte cursor, as the QUIC frame and packet codecs make them.
  A reader returns a \<open>Result\<close> and the cursor it leaves, or panics; \<open>rd_bind\<close> is the \<open>?\<close> operator, and
  the octets error becomes \<open>BufferTooShort\<close>, as the \<open>From\<close> instance of the library says. A writer
  is the same without a value.

  \<open>reads m bs v\<close> says that \<open>m\<close>, on a cursor in front of the bytes \<open>bs\<close>, reads exactly these bytes and
  returns \<open>v\<close>; \<open>writes m bs\<close> says that \<open>m\<close> writes the bytes \<open>bs\<close> whenever they fit. Both compose, so
  that a codec is shown correct one field at a time.
\<close>

type_synonym 'a rd = "octets \<Rightarrow> ((quic_error + 'a) \<times> octets) rust"
type_synonym wr = "octets \<Rightarrow> ((quic_error + unit) \<times> octets) rust"

definition rd_ret :: "'a \<Rightarrow> 'a rd" where
  "rd_ret v b = Some (Inr v, b)"

definition rd_fail :: "quic_error \<Rightarrow> 'a rd" where
  "rd_fail e b = Some (Inl e, b)"

definition rd_bind :: "'a rd \<Rightarrow> ('a \<Rightarrow> 'b rd) \<Rightarrow> 'b rd" where
  "rd_bind m f b =
     do { (r, b) \<leftarrow> m b;
          case r of Inl e \<Rightarrow> Some (Inl e, b) | Inr v \<Rightarrow> f v b }"

definition lift_oct :: "(octets \<Rightarrow> 'a oct_result) \<Rightarrow> 'a rd" where
  "lift_oct m b = (case m b of (Inl _, b) \<Rightarrow> Some (Inl EBufferTooShort, b) | (Inr v, b) \<Rightarrow> Some (Inr v, b))"

definition rd_varint :: "u64 rd" where
  "rd_varint = lift_oct get_varint"

definition rd_u8 :: "u8 rd" where
  "rd_u8 = lift_oct get_u8"

definition rd_bytes :: "nat \<Rightarrow> bytes rd" where
  "rd_bytes n = lift_oct (\<lambda>b. map_res oct_to_vec (get_bytes n b))"

definition rd_bytes_varint :: "bytes rd" where
  "rd_bytes_varint = lift_oct (\<lambda>b. map_res oct_to_vec (get_bytes_with_varint_length b))"

definition rd_cap :: "nat rd" where
  "rd_cap b = Some (Inr (cap b), b)"

definition wr_skip :: wr where
  "wr_skip b = Some (Inr (), b)"

definition wr_seq :: "wr \<Rightarrow> wr \<Rightarrow> wr" where
  "wr_seq m n = rd_bind m (\<lambda>_. n)"

definition wr_oct :: "(octets \<Rightarrow> 'a oct_result rust) \<Rightarrow> wr" where
  "wr_oct m b = do { (r, b) \<leftarrow> m b; Some (case r of Inl _ \<Rightarrow> Inl EBufferTooShort | Inr _ \<Rightarrow> Inr (), b) }"

definition wr_varint :: "u64 \<Rightarrow> wr" where
  "wr_varint v = wr_oct (put_varint v)"

definition wr_varint2 :: "u64 \<Rightarrow> wr" where
  "wr_varint2 v = wr_oct (put_varint_with_len v 2)"

definition wr_u8 :: "u8 \<Rightarrow> wr" where
  "wr_u8 v = wr_oct (\<lambda>b. Some (put_u8 v b))"

definition wr_bytes :: "bytes \<Rightarrow> wr" where
  "wr_bytes bs = wr_oct (\<lambda>b. Some (put_bytes bs b))"

primrec wr_all :: "wr list \<Rightarrow> wr" where
  "wr_all [] = wr_skip"
| "wr_all (m # ms) = wr_seq m (wr_all ms)"

section \<open>Reading\<close>

named_theorems reads_rules "how the readers of the codecs compose"
named_theorems writes_rules "how the writers of the codecs compose"

definition reads :: "'a rd \<Rightarrow> bytes \<Rightarrow> 'a \<Rightarrow> bool" where
  "reads m bs v \<longleftrightarrow> (\<forall>b rest. oct_wf b \<longrightarrow> oct_to_vec b = bs @ rest \<longrightarrow>
     (\<exists>b'. m b = Some (Inr v, b') \<and> oct_wf b' \<and> oct_to_vec b' = rest))"

lemma readsD: "reads m bs v \<Longrightarrow> oct_wf b \<Longrightarrow> oct_to_vec b = bs @ rest \<Longrightarrow>
    \<exists>b'. m b = Some (Inr v, b') \<and> oct_wf b' \<and> oct_to_vec b' = rest"
  by (simp add: reads_def)

lemma reads_ret [reads_rules]: "reads (rd_ret v) [] v"
  by (simp add: reads_def rd_ret_def)

lemma reads_bind:
  assumes "reads m bs v" and "reads (f v) cs w"
  shows "reads (rd_bind m f) (bs @ cs) w"
  unfolding reads_def
proof (intro allI impI)
  fix b rest
  assume wf: "oct_wf b" and vec: "oct_to_vec b = (bs @ cs) @ rest"
  obtain b1 where b1: "m b = Some (Inr v, b1)" "oct_wf b1" "oct_to_vec b1 = cs @ rest"
    using readsD [OF assms(1) wf, of "cs @ rest"] vec by auto
  with readsD [OF assms(2) b1(2,3)] show "\<exists>b'. rd_bind m f b = Some (Inr w, b') \<and> oct_wf b' \<and> oct_to_vec b' = rest"
    by (auto simp: rd_bind_def)
qed

lemma oct_advance:
  assumes "oct_wf b" and "oct_to_vec b = bs @ rest"
  shows "oct_wf (b\<lparr>oct_off := oct_off b + length bs\<rparr>)" and "oct_to_vec (b\<lparr>oct_off := oct_off b + length bs\<rparr>) = rest"
proof -
  have "length (oct_buf b) - oct_off b = length bs + length rest"
    using arg_cong [OF assms(2), of length] by (simp add: oct_to_vec_def)
  with assms(1) show "oct_wf (b\<lparr>oct_off := oct_off b + length bs\<rparr>)" by (simp add: oct_wf_def)
  have "drop (length bs) (drop (oct_off b) (oct_buf b)) = rest" using assms(2) by (simp add: oct_to_vec_def)
  then show "oct_to_vec (b\<lparr>oct_off := oct_off b + length bs\<rparr>) = rest"
    by (simp add: oct_to_vec_def drop_drop add.commute)
qed

lemma reads_varint [reads_rules]: "varint_ok v \<Longrightarrow> reads rd_varint (varint_enc v) v"
  unfolding reads_def
proof (intro allI impI)
  fix b rest
  assume v: "varint_ok v" and wf: "oct_wf b" and vec: "oct_to_vec b = varint_enc v @ rest"
  have "get_varint b = (Inr v, b\<lparr>oct_off := oct_off b + length (varint_enc v)\<rparr>)"
    by (simp add: get_varint_split vec varint_split_enc [OF v])
  with oct_advance [OF wf vec] show "\<exists>b'. rd_varint b = Some (Inr v, b') \<and> oct_wf b' \<and> oct_to_vec b' = rest"
    by (simp add: rd_varint_def lift_oct_def)
qed

lemma reads_bytes [reads_rules]: "n = length bs \<Longrightarrow> reads (rd_bytes n) bs bs"
  unfolding reads_def
proof (intro allI impI)
  fix b rest
  assume n: "n = length bs" and wf: "oct_wf b" and vec: "oct_to_vec b = bs @ rest"
  have "n \<le> cap b" using vec n by (simp add: cap_to_vec)
  with oct_advance [OF wf vec] show "\<exists>b'. rd_bytes n b = Some (Inr bs, b') \<and> oct_wf b' \<and> oct_to_vec b' = rest"
    by (simp add: rd_bytes_def lift_oct_def map_res_def get_bytes_enough vec n)
qed

lemma reads_u8 [reads_rules]: "reads rd_u8 [v] v"
  unfolding reads_def
proof (intro allI impI)
  fix b rest
  assume wf: "oct_wf b" and vec: "oct_to_vec b = [v] @ rest"
  have "get_u8 b = (Inr v, b\<lparr>oct_off := oct_off b + length [v]\<rparr>)"
    using vec by (simp add: get_u8_def get_u_def peek_u_def map_res_def oct_to_vec_def)
  with oct_advance [OF wf vec] show "\<exists>b'. rd_u8 b = Some (Inr v, b') \<and> oct_wf b' \<and> oct_to_vec b' = rest"
    by (simp add: rd_u8_def lift_oct_def)
qed

text \<open>The same, for a continuation: the next read consumes the front of what is left.\<close>

lemma reads_then [reads_rules]:
  "reads m bs v \<Longrightarrow> reads (f v) cs w \<Longrightarrow> ds = bs @ cs \<Longrightarrow> reads (rd_bind m f) ds w"
  by (simp add: reads_bind)

text \<open>One step per kind of field, for a known encoding of it.\<close>

lemma reads_step:
  "varint_ok v \<Longrightarrow> reads (f v) cs w \<Longrightarrow> reads (rd_bind rd_varint f) (varint_enc v @ cs) w"
  "varint_ok v \<Longrightarrow> reads (f v) [] w \<Longrightarrow> reads (rd_bind rd_varint f) (varint_enc v) w"
  "reads (g u) cs w \<Longrightarrow> reads (rd_bind rd_u8 g) (u # cs) w"
  "n = length bs \<Longrightarrow> reads (h bs) cs w \<Longrightarrow> reads (rd_bind (rd_bytes n) h) (bs @ cs) w"
  "n = length bs \<Longrightarrow> reads (h bs) [] w \<Longrightarrow> reads (rd_bind (rd_bytes n) h) bs w"
  using reads_bind [OF reads_varint [of v]] reads_bind [OF reads_varint [of v], of f "[]" w]
    reads_bind [OF reads_u8 [of u]] reads_bind [OF reads_bytes [of n bs]] reads_bind [OF reads_bytes [of n bs], of h "[]" w]
  by auto

section \<open>Writing\<close>

definition writes :: "wr \<Rightarrow> bytes \<Rightarrow> bool" where
  "writes m bs \<longleftrightarrow> (\<forall>b. oct_wf b \<longrightarrow> length bs \<le> cap b \<longrightarrow> m b = Some (Inr (), wrote bs b))"

lemma wrote_Nil [simp]: "oct_wf b \<Longrightarrow> wrote [] b = b"
  by (simp add: wrote_def)

lemma writes_skip [writes_rules]: "writes wr_skip []"
  by (simp add: writes_def wr_skip_def)

lemma writes_seq [writes_rules]:
  assumes "writes m bs" and "writes n cs" and "ds = bs @ cs"
  shows "writes (wr_seq m n) ds"
  unfolding writes_def
proof (intro allI impI)
  fix b
  assume wf: "oct_wf b" and len: "length ds \<le> cap b"
  have m: "m b = Some (Inr (), wrote bs b)" using assms(1,3) wf len by (simp add: writes_def)
  have "n (wrote bs b) = Some (Inr (), wrote cs (wrote bs b))"
    using assms(2,3) wf len by (simp add: writes_def wrote_wf cap_wrote)
  with m wrote_wrote [OF wf, of bs cs] len assms(3) show "wr_seq m n b = Some (Inr (), wrote ds b)"
    by (simp add: wr_seq_def rd_bind_def)
qed

lemma writes_varint [writes_rules]: "varint_ok v \<Longrightarrow> writes (wr_varint v) (varint_enc v)"
  by (simp add: writes_def wr_varint_def wr_oct_def put_varint_wrote)

lemma writes_bytes [writes_rules]: "writes (wr_bytes bs) bs"
  by (simp add: writes_def wr_bytes_def wr_oct_def put_bytes_wrote)

lemma writes_u8 [writes_rules]: "writes (wr_u8 v) [v]"
  by (simp add: writes_def wr_u8_def wr_oct_def put_u8_def put_u_wrote)

text \<open>The two-byte form of a length, which the frame headers always use.\<close>

definition varint2_enc :: "nat \<Rightarrow> bytes" where
  "varint2_enc n = be_bytes 2 (0x4000 + n)"

lemma writes_varint2 [writes_rules]:
  assumes "n < 16384"
  shows "writes (wr_varint2 (of_nat n)) (varint2_enc n)"
  unfolding writes_def
proof (intro allI impI)
  fix b
  assume wf: "oct_wf b" and len: "length (varint2_enc n) \<le> cap b"
  have c: "2 \<le> cap b" using len by (simp add: varint2_enc_def)
  have tag: "oct_then (put_u 2 n b) (tag_first (of_nat (64 * 1))) = (Inr (oct_off b), wrote (be_bytes 2 (64 * 1 * 256 ^ 1 + n)) b)"
    by (rule put_tagged [OF wf c]) (use assms in simp_all)
  have "unat (ucast (of_nat n :: u64) :: u16) = n"
    using assms by (simp add: unsigned_ucast_eq take_bit_eq_mod)
  then have "put_varint_with_len (of_nat n) 2 b = Some (Inr (oct_off b), wrote (varint2_enc n) b)"
    using tag c by (simp add: put_varint_with_len_def put_u16_def varint2_enc_def)
  then show "wr_varint2 (of_nat n) b = Some (Inr (), wrote (varint2_enc n) b)"
    by (simp add: wr_varint2_def wr_oct_def)
qed

lemma reads_varint2 [reads_rules]:
  assumes "n < 16384"
  shows "reads rd_varint (varint2_enc n) (of_nat n)"
  unfolding reads_def
proof (intro allI impI)
  fix b rest
  assume wf: "oct_wf b" and vec: "oct_to_vec b = varint2_enc n @ rest"
  have "varint_split (be_bytes 2 (64 * 1 * 256 ^ 1 + n) @ rest) = Some (n, 2)"
    by (rule varint_split_be_bytes) (use assms in simp_all)
  then have "varint_split (oct_to_vec b) = Some (n, length (varint2_enc n))"
    by (simp add: vec varint2_enc_def)
  then have "get_varint b = (Inr (of_nat n), b\<lparr>oct_off := oct_off b + length (varint2_enc n)\<rparr>)"
    by (simp add: get_varint_split)
  with oct_advance [OF wf vec] show "\<exists>b'. rd_varint b = Some (Inr (of_nat n), b') \<and> oct_wf b' \<and> oct_to_vec b' = rest"
    by (simp add: rd_varint_def lift_oct_def)
qed

lemma reads_bytes_varint [reads_rules]:
  assumes "reads rd_varint len (of_nat (length bs))" and "length bs < 18446744073709551616" and "ds = len @ bs"
  shows "reads rd_bytes_varint ds bs"
  unfolding reads_def
proof (intro allI impI)
  fix b rest
  assume wf: "oct_wf b" and vec: "oct_to_vec b = ds @ rest"
  obtain b1 where b1: "rd_varint b = Some (Inr (of_nat (length bs)), b1)" "oct_wf b1" "oct_to_vec b1 = bs @ rest"
    using readsD [OF assms(1) wf, of "bs @ rest"] vec assms(3) by auto
  then have "get_varint b = (Inr (of_nat (length bs)), b1)"
    by (auto simp: rd_varint_def lift_oct_def split: prod.splits sum.splits)
  moreover have "length bs \<le> cap b1" using b1(3) by (simp add: cap_to_vec)
  ultimately show "\<exists>b'. rd_bytes_varint b = Some (Inr bs, b') \<and> oct_wf b' \<and> oct_to_vec b' = rest"
    using oct_advance [OF b1(2,3)] b1(3) assms(2)
    by (simp add: rd_bytes_varint_def lift_oct_def get_bytes_with_varint_length_def oct_then_def map_res_def
        get_bytes_enough mod_less)
qed

text \<open>What a writer wrote into a buffer of exactly that size can be read back.\<close>

lemma writes_then_reads:
  assumes "writes m bs" and "reads r bs v" and "length bs \<le> length buf"
  shows "\<exists>b. m (with_slice buf) = Some (Inr (), b) \<and> oct_off b = length bs
    \<and> (\<exists>b'. r (with_slice (take (oct_off b) (oct_buf b))) = Some (Inr v, b') \<and> oct_to_vec b' = [])"
proof -
  have m: "m (with_slice buf) = Some (Inr (), wrote bs (with_slice buf))"
    using assms(1,3) by (simp add: writes_def cap_to_vec)
  have "take (oct_off (wrote bs (with_slice buf))) (oct_buf (wrote bs (with_slice buf))) = bs"
    by (simp add: wrote_def with_slice_def)
  with m readsD [OF assms(2) oct_wf_with_slice, of bs "[]"] show ?thesis
    by (auto simp: wrote_def with_slice_def oct_to_vec_def)
qed

end
