(* ===== verification/QuicFrame.thy ===== *)
theory QuicFrame
  imports Wire Ranges
begin

text \<open>
  The QUIC frames of \<open>core/quiche/quiche/src/frame.rs\<close>: the data type, the parser \<open>from_bytes\<close> with
  the check of the packet type, the serialiser \<open>to_bytes\<close> and the length \<open>wire_len\<close>. The two header
  frames, whose payload the connection writes itself, serialise to nothing, as in the source.
  Subtractions of packet numbers are those of the source; the range-set invariant keeps them from
  wrapping.

  The theory shows that every well-formed frame is parsed back from what is written for it, or is
  refused exactly in the packet types that may not carry it, and that \<open>wire_len\<close> is the number of
  bytes written.
\<close>

section \<open>Data\<close>

datatype packet_type = PktInitial | PktRetry | PktHandshake | PktZeroRTT | PktVersionNegotiation | PktShort

definition MAX_CID_LEN :: u8 where
  "MAX_CID_LEN = 20"

definition MAX_STREAM_SIZE :: nat where
  "MAX_STREAM_SIZE = 4611686018427387904"

record ecn_counts =
  ect0_count :: u64
  ect1_count :: u64
  ecn_ce_count :: u64

datatype frame =
    FPadding nat
  | FPing "nat option"
  | FAck u64 range_set "ecn_counts option"
  | FResetStream u64 u64 u64
  | FStopSending u64 u64
  | FCrypto range_buf
  | FCryptoHeader nat nat
  | FNewToken bytes
  | FStream u64 range_buf
  | FStreamHeader u64 nat nat bool
  | FMaxData u64
  | FMaxStreamData u64 u64
  | FMaxStreamsBidi u64
  | FMaxStreamsUni u64
  | FDataBlocked u64
  | FStreamDataBlocked u64 u64
  | FStreamsBlockedBidi u64
  | FStreamsBlockedUni u64
  | FNewConnectionId u64 u64 bytes bytes
  | FRetireConnectionId u64
  | FPathChallenge bytes
  | FPathResponse bytes
  | FConnectionClose u64 u64 bytes
  | FApplicationClose u64 bytes
  | FHandshakeDone
  | FDatagram bytes
  | FDatagramHeader nat

section \<open>Parsing\<close>

text \<open>The loop over further zero bytes of a PADDING frame.\<close>

function rd_zeros :: "nat \<Rightarrow> nat rd" where
  "rd_zeros len b =
     (if peek_u8 b = Inr 0
      then (case get_u8 b of
              (Inl _, b') \<Rightarrow> Some (Inl EBufferTooShort, b')
            | (Inr _, b') \<Rightarrow> rd_zeros (len + 1) b')
      else Some (Inr len, b))"
  by pat_completeness auto
termination
  by (relation "measure (\<lambda>(_, b). cap b)")
    (auto simp: peek_u8_def peek_u_def get_u8_def get_u_def map_res_def cap_def split: sum.splits if_splits)

declare rd_zeros.simps [simp del]

definition rd_insert :: "range_set \<Rightarrow> urange \<Rightarrow> range_set rd" where
  "rd_insert ranges item b = do { rs \<leftarrow> rs_insert ranges item; Some (Inr rs, b) }"

primrec rd_ack_blocks :: "nat \<Rightarrow> nat \<Rightarrow> range_set \<Rightarrow> range_set rd" where
  "rd_ack_blocks 0 smallest_ack ranges = rd_ret ranges"
| "rd_ack_blocks (Suc n) smallest_ack ranges =
     rd_bind rd_varint (\<lambda>gap.
       if smallest_ack < 2 + unat gap then rd_fail EInvalidFrame
       else
         (let largest_ack = (smallest_ack - unat gap) - 2 in
          rd_bind rd_varint (\<lambda>ack_block.
            if largest_ack < unat ack_block then rd_fail EInvalidFrame
            else
              (let smallest_ack = largest_ack - unat ack_block in
               rd_bind (rd_insert ranges (smallest_ack, largest_ack + 1)) (\<lambda>ranges.
                 rd_ack_blocks n smallest_ack ranges)))))"

definition rd_ecn :: "ecn_counts rd" where
  "rd_ecn = rd_bind rd_varint (\<lambda>a. rd_bind rd_varint (\<lambda>b. rd_bind rd_varint (\<lambda>c.
     rd_ret \<lparr>ect0_count = a, ect1_count = b, ecn_ce_count = c\<rparr>)))"

definition parse_ack_frame :: "u64 \<Rightarrow> frame rd" where
  "parse_ack_frame ty =
     (let first = (ucast ty :: u8) in
      rd_bind rd_varint (\<lambda>largest_ack. rd_bind rd_varint (\<lambda>ack_delay.
      rd_bind rd_varint (\<lambda>block_count. rd_bind rd_varint (\<lambda>ack_block.
        if unat largest_ack < unat ack_block then rd_fail EInvalidFrame
        else
          (let smallest_ack = unat largest_ack - unat ack_block in
           rd_bind (rd_insert range_set_default (smallest_ack, unat largest_ack + 1)) (\<lambda>ranges.
           rd_bind (rd_ack_blocks (unat block_count) smallest_ack ranges) (\<lambda>ranges.
           rd_bind (if first AND 1 \<noteq> 0 then rd_bind rd_ecn (\<lambda>ecn. rd_ret (Some ecn)) else rd_ret None) (\<lambda>ecn_counts.
             rd_ret (FAck ack_delay ranges ecn_counts)))))))))) "

definition parse_stream_frame :: "u64 \<Rightarrow> frame rd" where
  "parse_stream_frame ty =
     (let first = (ucast ty :: u8) in
      rd_bind rd_varint (\<lambda>stream_id.
      rd_bind (if first AND 4 \<noteq> 0 then rd_varint else rd_ret 0) (\<lambda>offset.
      rd_bind (if first AND 2 \<noteq> 0 then rd_bind rd_varint (\<lambda>v. rd_ret (unat v)) else rd_cap) (\<lambda>len.
        if unat offset + len \<ge> MAX_STREAM_SIZE then rd_fail EInvalidFrame
        else
          (let fin = (first AND 1 \<noteq> 0) in
           rd_bind (rd_bytes len) (\<lambda>data. rd_ret (FStream stream_id (rb_from data (unat offset) fin))))))))"

definition parse_datagram_frame :: "u64 \<Rightarrow> frame rd" where
  "parse_datagram_frame ty =
     (let first = (ucast ty :: u8) in
      rd_bind (if first AND 1 \<noteq> 0 then rd_bind rd_varint (\<lambda>v. rd_ret (unat v)) else rd_cap) (\<lambda>len.
      rd_bind (rd_bytes len) (\<lambda>data. rd_ret (FDatagram data))))"

definition rd1 :: "(u64 \<Rightarrow> 'a) \<Rightarrow> 'a rd" where
  "rd1 f = rd_bind rd_varint (\<lambda>a. rd_ret (f a))"

definition rd2 :: "(u64 \<Rightarrow> u64 \<Rightarrow> 'a) \<Rightarrow> 'a rd" where
  "rd2 f = rd_bind rd_varint (\<lambda>a. rd1 (f a))"

definition rd3 :: "(u64 \<Rightarrow> u64 \<Rightarrow> u64 \<Rightarrow> 'a) \<Rightarrow> 'a rd" where
  "rd3 f = rd_bind rd_varint (\<lambda>a. rd2 (f a))"

definition rd_frame_body :: "u64 \<Rightarrow> frame rd" where
  "rd_frame_body ty =
     (if ty = 0x00 then rd_bind (rd_zeros 1) (\<lambda>len. rd_ret (FPadding len))
      else if ty = 0x01 then rd_ret (FPing None)
      else if ty = 0x02 \<or> ty = 0x03 then parse_ack_frame ty
      else if ty = 0x04 then rd3 FResetStream
      else if ty = 0x05 then rd2 FStopSending
      else if ty = 0x06 then
        rd_bind rd_varint (\<lambda>offset. rd_bind rd_bytes_varint (\<lambda>data. rd_ret (FCrypto (rb_from data (unat offset) False))))
      else if ty = 0x07 then
        rd_bind rd_varint (\<lambda>len. if len = 0 then rd_fail EInvalidFrame
          else rd_bind (rd_bytes (unat len)) (\<lambda>token. rd_ret (FNewToken token)))
      else if 0x08 \<le> ty \<and> ty \<le> 0x0f then parse_stream_frame ty
      else if ty = 0x10 then rd1 FMaxData
      else if ty = 0x11 then rd2 FMaxStreamData
      else if ty = 0x12 then rd1 FMaxStreamsBidi
      else if ty = 0x13 then rd1 FMaxStreamsUni
      else if ty = 0x14 then rd1 FDataBlocked
      else if ty = 0x15 then rd2 FStreamDataBlocked
      else if ty = 0x16 then rd1 FStreamsBlockedBidi
      else if ty = 0x17 then rd1 FStreamsBlockedUni
      else if ty = 0x18 then
        rd_bind rd_varint (\<lambda>seq_num. rd_bind rd_varint (\<lambda>retire_prior_to. rd_bind rd_u8 (\<lambda>conn_id_len.
          if \<not> (1 \<le> conn_id_len \<and> conn_id_len \<le> MAX_CID_LEN) then rd_fail EInvalidFrame
          else rd_bind (rd_bytes (unat conn_id_len)) (\<lambda>conn_id. rd_bind (rd_bytes 16) (\<lambda>reset_token.
            rd_ret (FNewConnectionId seq_num retire_prior_to conn_id reset_token))))))
      else if ty = 0x19 then rd1 FRetireConnectionId
      else if ty = 0x1a then rd_bind (rd_bytes 8) (\<lambda>data. rd_ret (FPathChallenge data))
      else if ty = 0x1b then rd_bind (rd_bytes 8) (\<lambda>data. rd_ret (FPathResponse data))
      else if ty = 0x1c then
        rd_bind rd_varint (\<lambda>error_code. rd_bind rd_varint (\<lambda>frame_type. rd_bind rd_bytes_varint (\<lambda>reason.
          rd_ret (FConnectionClose error_code frame_type reason))))
      else if ty = 0x1d then
        rd_bind rd_varint (\<lambda>error_code. rd_bind rd_bytes_varint (\<lambda>reason. rd_ret (FApplicationClose error_code reason)))
      else if ty = 0x1e then rd_ret FHandshakeDone
      else if ty = 0x30 \<or> ty = 0x31 then parse_datagram_frame ty
      else rd_fail EInvalidFrame)"

text \<open>Which packets may carry which frames.\<close>

definition frame_allowed :: "packet_type \<Rightarrow> frame \<Rightarrow> bool" where
  "frame_allowed pkt frame =
     (if (case frame of FPadding _ \<Rightarrow> True | FPing _ \<Rightarrow> True | _ \<Rightarrow> False) then True
      else if pkt = PktZeroRTT \<and>
        (case frame of FAck _ _ _ \<Rightarrow> True | FCrypto _ \<Rightarrow> True | FHandshakeDone \<Rightarrow> True | FNewToken _ \<Rightarrow> True
         | FPathResponse _ \<Rightarrow> True | FRetireConnectionId _ \<Rightarrow> True | FConnectionClose _ _ _ \<Rightarrow> True | _ \<Rightarrow> False) then False
      else if (case frame of FAck _ _ _ \<Rightarrow> True | FCrypto _ \<Rightarrow> True | FConnectionClose _ _ _ \<Rightarrow> True | _ \<Rightarrow> False) then True
      else if pkt = PktShort then True
      else if pkt = PktZeroRTT then True
      else False)"

definition frame_from_bytes :: "packet_type \<Rightarrow> frame rd" where
  "frame_from_bytes pkt =
     rd_bind rd_varint (\<lambda>frame_type.
     rd_bind (rd_frame_body frame_type) (\<lambda>frame.
       if \<not> frame_allowed pkt frame then rd_fail EInvalidPacket else rd_ret frame))"

section \<open>Serialisation\<close>

definition encode_crypto_header :: "nat \<Rightarrow> nat \<Rightarrow> wr" where
  "encode_crypto_header offset len = wr_all [wr_varint 0x06, wr_varint (of_nat offset), wr_varint2 (of_nat len)]"

definition encode_stream_header :: "u64 \<Rightarrow> nat \<Rightarrow> nat \<Rightarrow> bool \<Rightarrow> wr" where
  "encode_stream_header stream_id offset len fin =
     (let ty = (0x08 :: u8) OR 0x04;
          ty = ty OR 0x02;
          ty = (if fin then ty OR 0x01 else ty)
      in wr_all [wr_varint (ucast ty), wr_varint stream_id, wr_varint (of_nat offset), wr_varint2 (of_nat len)])"

definition encode_dgram_header :: "nat \<Rightarrow> wr" where
  "encode_dgram_header len =
     (let ty = (0x30 :: u8) OR 0x01 in wr_all [wr_varint (ucast ty), wr_varint2 (of_nat len)])"

text \<open>Writing the bytes of a range buffer dereferences it, which may panic.\<close>

definition wr_rb :: "range_buf \<Rightarrow> wr" where
  "wr_rb data b = do { bs \<leftarrow> rb_deref data; wr_bytes bs b }"

text \<open>The blocks of an ACK frame after the first, from the highest range down.\<close>

fun wr_ack_blocks :: "nat \<Rightarrow> urange list \<Rightarrow> wr" where
  "wr_ack_blocks smallest_ack [] = wr_skip"
| "wr_ack_blocks smallest_ack ((start, stop) # blocks) =
     (let gap = smallest_ack - stop - 1;
          ack_block = (stop - 1) - start
      in wr_seq (wr_varint (of_nat gap)) (wr_seq (wr_varint (of_nat ack_block)) (wr_ack_blocks start blocks)))"

definition wr_ecn :: "ecn_counts option \<Rightarrow> wr" where
  "wr_ecn ecn =
     (case ecn of None \<Rightarrow> wr_skip
      | Some e \<Rightarrow> wr_all [wr_varint (ect0_count e), wr_varint (ect1_count e), wr_varint (ecn_ce_count e)])"

definition wr_ack :: "u64 \<Rightarrow> range_set \<Rightarrow> ecn_counts option \<Rightarrow> wr" where
  "wr_ack ack_delay ranges ecn b =
     (case rev (rs_iter ranges) of
        [] \<Rightarrow> do { (r, b) \<leftarrow> wr_varint (if ecn = None then 0x02 else 0x03) b;
                  case r of Inl e \<Rightarrow> Some (Inl e, b) | Inr _ \<Rightarrow> None }
      | (start, stop) # rest \<Rightarrow>
          wr_all [wr_varint (if ecn = None then 0x02 else 0x03),
                  wr_varint (of_nat (stop - 1)), wr_varint ack_delay, wr_varint (of_nat (length rest)),
                  wr_varint (of_nat ((stop - 1) - start)), wr_ack_blocks start rest, wr_ecn ecn] b)"

primrec wr_padding :: "nat \<Rightarrow> wr" where
  "wr_padding 0 = wr_skip"
| "wr_padding (Suc n) = wr_seq (wr_varint 0x00) (wr_padding n)"

fun wr_frame :: "frame \<Rightarrow> wr" where
  "wr_frame (FPadding len) = wr_padding len"
| "wr_frame (FPing _) = wr_varint 0x01"
| "wr_frame (FAck ack_delay ranges ecn) = wr_ack ack_delay ranges ecn"
| "wr_frame (FResetStream stream_id error_code final_size) =
     wr_all [wr_varint 0x04, wr_varint stream_id, wr_varint error_code, wr_varint final_size]"
| "wr_frame (FStopSending stream_id error_code) = wr_all [wr_varint 0x05, wr_varint stream_id, wr_varint error_code]"
| "wr_frame (FCrypto data) = wr_seq (encode_crypto_header (rb_off data) (rb_len data)) (wr_rb data)"
| "wr_frame (FCryptoHeader _ _) = wr_skip"
| "wr_frame (FNewToken token) = wr_all [wr_varint 0x07, wr_varint (of_nat (length token)), wr_bytes token]"
| "wr_frame (FStream stream_id data) =
     wr_seq (encode_stream_header stream_id (rb_off data) (rb_len data) (rb_fin data)) (wr_rb data)"
| "wr_frame (FStreamHeader _ _ _ _) = wr_skip"
| "wr_frame (FMaxData m) = wr_all [wr_varint 0x10, wr_varint m]"
| "wr_frame (FMaxStreamData stream_id m) = wr_all [wr_varint 0x11, wr_varint stream_id, wr_varint m]"
| "wr_frame (FMaxStreamsBidi m) = wr_all [wr_varint 0x12, wr_varint m]"
| "wr_frame (FMaxStreamsUni m) = wr_all [wr_varint 0x13, wr_varint m]"
| "wr_frame (FDataBlocked limit) = wr_all [wr_varint 0x14, wr_varint limit]"
| "wr_frame (FStreamDataBlocked stream_id limit) = wr_all [wr_varint 0x15, wr_varint stream_id, wr_varint limit]"
| "wr_frame (FStreamsBlockedBidi limit) = wr_all [wr_varint 0x16, wr_varint limit]"
| "wr_frame (FStreamsBlockedUni limit) = wr_all [wr_varint 0x17, wr_varint limit]"
| "wr_frame (FNewConnectionId seq_num retire_prior_to conn_id reset_token) =
     wr_all [wr_varint 0x18, wr_varint seq_num, wr_varint retire_prior_to, wr_u8 (of_nat (length conn_id)),
             wr_bytes conn_id, wr_bytes reset_token]"
| "wr_frame (FRetireConnectionId seq_num) = wr_all [wr_varint 0x19, wr_varint seq_num]"
| "wr_frame (FPathChallenge data) = wr_all [wr_varint 0x1a, wr_bytes data]"
| "wr_frame (FPathResponse data) = wr_all [wr_varint 0x1b, wr_bytes data]"
| "wr_frame (FConnectionClose error_code frame_type reason) =
     wr_all [wr_varint 0x1c, wr_varint error_code, wr_varint frame_type, wr_varint (of_nat (length reason)), wr_bytes reason]"
| "wr_frame (FApplicationClose error_code reason) =
     wr_all [wr_varint 0x1d, wr_varint error_code, wr_varint (of_nat (length reason)), wr_bytes reason]"
| "wr_frame FHandshakeDone = wr_varint 0x1e"
| "wr_frame (FDatagram data) = wr_seq (encode_dgram_header (length data)) (wr_bytes data)"
| "wr_frame (FDatagramHeader _) = wr_skip"

definition frame_to_bytes :: "frame \<Rightarrow> nat rd" where
  "frame_to_bytes frame b =
     do { (r, b') \<leftarrow> wr_frame frame b;
          case r of Inl e \<Rightarrow> Some (Inl e, b') | Inr _ \<Rightarrow> Some (Inr (cap b - cap b'), b') }"

text \<open>\<open>octets::varint_len\<close> summed over the fields of a frame.\<close>

primrec varints_len :: "u64 list \<Rightarrow> nat rust" where
  "varints_len [] = Some 0"
| "varints_len (v # vs) = do { n \<leftarrow> varint_len v; m \<leftarrow> varints_len vs; Some (n + m) }"

fun ack_block_fields :: "nat \<Rightarrow> urange list \<Rightarrow> u64 list" where
  "ack_block_fields smallest_ack [] = []"
| "ack_block_fields smallest_ack ((start, stop) # blocks) =
     of_nat (smallest_ack - stop - 1) # of_nat ((stop - 1) - start) # ack_block_fields start blocks"

definition ack_fields :: "u64 \<Rightarrow> range_set \<Rightarrow> ecn_counts option \<Rightarrow> u64 list rust" where
  "ack_fields ack_delay ranges ecn =
     (case rev (rs_iter ranges) of
        [] \<Rightarrow> None
      | (start, stop) # rest \<Rightarrow>
          Some ([of_nat (stop - 1), ack_delay, of_nat (length rest), of_nat ((stop - 1) - start)] @
                ack_block_fields start rest @
                (case ecn of None \<Rightarrow> [] | Some e \<Rightarrow> [ect0_count e, ect1_count e, ecn_ce_count e])))"

definition plus_len :: "nat \<Rightarrow> u64 list \<Rightarrow> nat rust" where
  "plus_len n vs = do { m \<leftarrow> varints_len vs; Some (n + m) }"

fun frame_wire_len :: "frame \<Rightarrow> nat rust" where
  "frame_wire_len (FPadding len) = Some len"
| "frame_wire_len (FPing _) = Some 1"
| "frame_wire_len (FAck ack_delay ranges ecn) = do { fs \<leftarrow> ack_fields ack_delay ranges ecn; plus_len 1 fs }"
| "frame_wire_len (FResetStream a b c) = plus_len 1 [a, b, c]"
| "frame_wire_len (FStopSending a b) = plus_len 1 [a, b]"
| "frame_wire_len (FCrypto data) = plus_len (1 + 2 + rb_len data) [of_nat (rb_off data)]"
| "frame_wire_len (FCryptoHeader offset len) = plus_len (1 + 2 + len) [of_nat offset]"
| "frame_wire_len (FNewToken token) = plus_len (1 + length token) [of_nat (length token)]"
| "frame_wire_len (FStream stream_id data) = plus_len (1 + 2 + rb_len data) [stream_id, of_nat (rb_off data)]"
| "frame_wire_len (FStreamHeader stream_id offset len _) = plus_len (1 + 2 + len) [stream_id, of_nat offset]"
| "frame_wire_len (FMaxData a) = plus_len 1 [a]"
| "frame_wire_len (FMaxStreamData a b) = plus_len 1 [a, b]"
| "frame_wire_len (FMaxStreamsBidi a) = plus_len 1 [a]"
| "frame_wire_len (FMaxStreamsUni a) = plus_len 1 [a]"
| "frame_wire_len (FDataBlocked a) = plus_len 1 [a]"
| "frame_wire_len (FStreamDataBlocked a b) = plus_len 1 [a, b]"
| "frame_wire_len (FStreamsBlockedBidi a) = plus_len 1 [a]"
| "frame_wire_len (FStreamsBlockedUni a) = plus_len 1 [a]"
| "frame_wire_len (FNewConnectionId a b conn_id reset_token) =
     plus_len (1 + 1 + length conn_id + length reset_token) [a, b]"
| "frame_wire_len (FRetireConnectionId a) = plus_len 1 [a]"
| "frame_wire_len (FPathChallenge _) = Some (1 + 8)"
| "frame_wire_len (FPathResponse _) = Some (1 + 8)"
| "frame_wire_len (FConnectionClose a b reason) = plus_len (1 + length reason) [a, b, of_nat (length reason)]"
| "frame_wire_len (FApplicationClose a reason) = plus_len (1 + length reason) [a, of_nat (length reason)]"
| "frame_wire_len FHandshakeDone = Some 1"
| "frame_wire_len (FDatagram data) = Some (1 + 2 + length data)"
| "frame_wire_len (FDatagramHeader len) = Some (1 + 2 + len)"

definition ack_eliciting :: "frame \<Rightarrow> bool" where
  "ack_eliciting frame =
     (\<not> (case frame of FPadding _ \<Rightarrow> True | FAck _ _ _ \<Rightarrow> True | FApplicationClose _ _ \<Rightarrow> True | FConnectionClose _ _ _ \<Rightarrow> True
         | _ \<Rightarrow> False))"

definition probing :: "frame \<Rightarrow> bool" where
  "probing frame =
     (case frame of FPadding _ \<Rightarrow> True | FNewConnectionId _ _ _ _ \<Rightarrow> True | FPathChallenge _ \<Rightarrow> True | FPathResponse _ \<Rightarrow> True
      | _ \<Rightarrow> False)"

section \<open>The wire format\<close>

definition enc_all :: "u64 list \<Rightarrow> bytes" where
  "enc_all vs = concat (map varint_enc vs)"

lemma enc_all_simps [simp]:
  "enc_all [] = []" "enc_all (v # vs) = varint_enc v @ enc_all vs" "enc_all (vs @ ws) = enc_all vs @ enc_all ws"
  by (simp_all add: enc_all_def)

fun enc_frame :: "frame \<Rightarrow> bytes" where
  "enc_frame (FPadding len) = replicate len 0"
| "enc_frame (FPing _) = enc_all [0x01]"
| "enc_frame (FAck d ranges ecn) = enc_all ((if ecn = None then 0x02 else 0x03) # the (ack_fields d ranges ecn))"
| "enc_frame (FResetStream a b c) = enc_all [0x04, a, b, c]"
| "enc_frame (FStopSending a b) = enc_all [0x05, a, b]"
| "enc_frame (FCrypto data) = enc_all [0x06, of_nat (rb_off data)] @ varint2_enc (rb_len data) @ the (rb_deref data)"
| "enc_frame (FCryptoHeader _ _) = []"
| "enc_frame (FNewToken token) = enc_all [0x07, of_nat (length token)] @ token"
| "enc_frame (FStream stream_id data) =
     enc_all [if rb_fin data then 0x0f else 0x0e, stream_id, of_nat (rb_off data)] @ varint2_enc (rb_len data) @ the (rb_deref data)"
| "enc_frame (FStreamHeader _ _ _ _) = []"
| "enc_frame (FMaxData a) = enc_all [0x10, a]"
| "enc_frame (FMaxStreamData a b) = enc_all [0x11, a, b]"
| "enc_frame (FMaxStreamsBidi a) = enc_all [0x12, a]"
| "enc_frame (FMaxStreamsUni a) = enc_all [0x13, a]"
| "enc_frame (FDataBlocked a) = enc_all [0x14, a]"
| "enc_frame (FStreamDataBlocked a b) = enc_all [0x15, a, b]"
| "enc_frame (FStreamsBlockedBidi a) = enc_all [0x16, a]"
| "enc_frame (FStreamsBlockedUni a) = enc_all [0x17, a]"
| "enc_frame (FNewConnectionId a b conn_id reset_token) =
     enc_all [0x18, a, b] @ [of_nat (length conn_id)] @ conn_id @ reset_token"
| "enc_frame (FRetireConnectionId a) = enc_all [0x19, a]"
| "enc_frame (FPathChallenge data) = enc_all [0x1a] @ data"
| "enc_frame (FPathResponse data) = enc_all [0x1b] @ data"
| "enc_frame (FConnectionClose a b reason) = enc_all [0x1c, a, b, of_nat (length reason)] @ reason"
| "enc_frame (FApplicationClose a reason) = enc_all [0x1d, a, of_nat (length reason)] @ reason"
| "enc_frame FHandshakeDone = enc_all [0x1e]"
| "enc_frame (FDatagram data) = enc_all [0x31] @ varint2_enc (length data) @ data"
| "enc_frame (FDatagramHeader _) = []"

text \<open>The frames the connection may send whole: every field fits its encoding.\<close>

abbreviation below62 :: "nat \<Rightarrow> bool" where
  "below62 n \<equiv> n < 4611686018427387904"

definition rb_sendable :: "range_buf \<Rightarrow> bool" where
  "rb_sendable data \<longleftrightarrow> rb_deref data \<noteq> None \<and> length (the (rb_deref data)) = rb_len data \<and> rb_len data < 16384
     \<and> below62 (rb_off data + rb_len data)"

definition ecn_ok :: "ecn_counts option \<Rightarrow> bool" where
  "ecn_ok ecn = (case ecn of None \<Rightarrow> True | Some e \<Rightarrow> varint_ok (ect0_count e) \<and> varint_ok (ect1_count e) \<and> varint_ok (ecn_ce_count e))"

fun frame_valid :: "frame \<Rightarrow> bool" where
  "frame_valid (FPadding len) \<longleftrightarrow> len > 0"
| "frame_valid (FPing p) \<longleftrightarrow> p = None"
| "frame_valid (FAck d ranges ecn) \<longleftrightarrow> varint_ok d \<and> canon (rs_iter ranges) \<and> rs_iter ranges \<noteq> []
     \<and> (\<forall>r\<in>set (rs_iter ranges). snd r \<le> 4611686018427387904) \<and> ecn_ok ecn"
| "frame_valid (FResetStream a b c) \<longleftrightarrow> varint_ok a \<and> varint_ok b \<and> varint_ok c"
| "frame_valid (FStopSending a b) \<longleftrightarrow> varint_ok a \<and> varint_ok b"
| "frame_valid (FCrypto data) \<longleftrightarrow> rb_sendable data \<and> \<not> rb_fin data"
| "frame_valid (FCryptoHeader _ _) \<longleftrightarrow> False"
| "frame_valid (FNewToken token) \<longleftrightarrow> token \<noteq> [] \<and> below62 (length token)"
| "frame_valid (FStream stream_id data) \<longleftrightarrow> varint_ok stream_id \<and> rb_sendable data"
| "frame_valid (FStreamHeader _ _ _ _) \<longleftrightarrow> False"
| "frame_valid (FMaxData a) \<longleftrightarrow> varint_ok a"
| "frame_valid (FMaxStreamData a b) \<longleftrightarrow> varint_ok a \<and> varint_ok b"
| "frame_valid (FMaxStreamsBidi a) \<longleftrightarrow> varint_ok a"
| "frame_valid (FMaxStreamsUni a) \<longleftrightarrow> varint_ok a"
| "frame_valid (FDataBlocked a) \<longleftrightarrow> varint_ok a"
| "frame_valid (FStreamDataBlocked a b) \<longleftrightarrow> varint_ok a \<and> varint_ok b"
| "frame_valid (FStreamsBlockedBidi a) \<longleftrightarrow> varint_ok a"
| "frame_valid (FStreamsBlockedUni a) \<longleftrightarrow> varint_ok a"
| "frame_valid (FNewConnectionId a b conn_id reset_token) \<longleftrightarrow> varint_ok a \<and> varint_ok b
     \<and> 1 \<le> length conn_id \<and> length conn_id \<le> 20 \<and> length reset_token = 16"
| "frame_valid (FRetireConnectionId a) \<longleftrightarrow> varint_ok a"
| "frame_valid (FPathChallenge data) \<longleftrightarrow> length data = 8"
| "frame_valid (FPathResponse data) \<longleftrightarrow> length data = 8"
| "frame_valid (FConnectionClose a b reason) \<longleftrightarrow> varint_ok a \<and> varint_ok b \<and> below62 (length reason)"
| "frame_valid (FApplicationClose a reason) \<longleftrightarrow> varint_ok a \<and> below62 (length reason)"
| "frame_valid FHandshakeDone \<longleftrightarrow> True"
| "frame_valid (FDatagram data) \<longleftrightarrow> length data < 16384"
| "frame_valid (FDatagramHeader _) \<longleftrightarrow> False"

text \<open>Two frames that mean the same: range sets and buffers are compared by content.\<close>

fun frame_same :: "frame \<Rightarrow> frame \<Rightarrow> bool" where
  "frame_same (FAck d ranges ecn) g \<longleftrightarrow> (\<exists>ranges'. g = FAck d ranges' ecn \<and> rs_ok ranges' \<and> rs_iter ranges' = rs_iter ranges)"
| "frame_same (FCrypto data) g \<longleftrightarrow>
     (\<exists>data'. g = FCrypto data' \<and> rb_off data' = rb_off data \<and> rb_deref data' = rb_deref data \<and> rb_fin data' = rb_fin data)"
| "frame_same (FStream stream_id data) g \<longleftrightarrow>
     (\<exists>data'. g = FStream stream_id data' \<and> rb_off data' = rb_off data \<and> rb_deref data' = rb_deref data \<and> rb_fin data' = rb_fin data)"
| "frame_same f g \<longleftrightarrow> g = f"

section \<open>Serialisation writes the wire format\<close>

lemma varint_ok_of_nat: "below62 n \<Longrightarrow> varint_ok (of_nat n)" "below62 n \<Longrightarrow> unat (of_nat n :: u64) = n"
proof -
  assume n: "below62 n"
  then show u: "unat (of_nat n :: u64) = n" by (simp add: mod_less)
  then show "varint_ok (of_nat n)" using n by (simp only: varint_ok_iff)
qed

lemma varint_ok_small [simp]:
  "varint_ok 0" "varint_ok 1" "v < 64 \<Longrightarrow> varint_ok v"
  by (simp_all add: varint_ok_def MAX_VAR_INT_def order_less_imp_le word_less_nat_alt word_le_nat_alt)

lemma writes_all_varints [writes_rules]:
  assumes "\<forall>v\<in>set vs. varint_ok v" and "writes (wr_all ms) bs"
  shows "writes (wr_all (map wr_varint vs @ ms)) (enc_all vs @ bs)"
  using assms(1)
proof (induction vs)
  case Nil
  then show ?case using assms(2) by simp
next
  case (Cons v vs)
  then show ?case by (auto intro!: writes_seq [of "wr_varint v"] writes_varint)
qed

lemma writes_fields:
  "\<forall>v\<in>set vs. varint_ok v \<Longrightarrow> writes (wr_all (map wr_varint vs)) (enc_all vs)"
  using writes_all_varints [of vs "[]" "[]"] by (simp add: writes_skip)

lemma writes_rb [writes_rules]: "rb_deref data = Some bs \<Longrightarrow> writes (wr_rb data) bs"
  using writes_bytes by (auto simp: writes_def wr_rb_def)

lemma varint_enc_0: "varint_enc 0 = [0]"
  by (simp add: varint_enc_def)

lemma writes_padding [writes_rules]: "writes (wr_padding n) (replicate n 0)"
proof (induction n)
  case 0
  then show ?case by (simp add: writes_skip)
next
  case (Suc n)
  have "writes (wr_varint 0) [0]" using writes_varint [of 0] by (simp add: varint_enc_0)
  from writes_seq [OF this Suc.IH refl] show ?case by simp
qed

lemma writes_ack_blocks:
  "\<forall>v\<in>set (ack_block_fields s blocks). varint_ok v \<Longrightarrow> writes (wr_ack_blocks s blocks) (enc_all (ack_block_fields s blocks))"
proof (induction s blocks rule: wr_ack_blocks.induct)
  case (1 s)
  then show ?case by (simp add: writes_skip)
next
  case (2 s a e blocks)
  then show ?case by (auto intro!: writes_seq writes_varint)
qed

lemma writes_ecn:
  "ecn_ok ecn \<Longrightarrow> writes (wr_ecn ecn) (enc_all (case ecn of None \<Rightarrow> [] | Some e \<Rightarrow> [ect0_count e, ect1_count e, ecn_ce_count e]))"
  using writes_fields [of "[ect0_count e, ect1_count e, ecn_ce_count e]" for e]
  by (auto simp: wr_ecn_def ecn_ok_def writes_skip split: option.splits)

text \<open>The blocks below the highest range, in descending order.\<close>

fun descending :: "nat \<Rightarrow> urange list \<Rightarrow> bool" where
  "descending s [] \<longleftrightarrow> True"
| "descending s ((a, e) # blocks) \<longleftrightarrow> a < e \<and> e < s \<and> descending a blocks"

lemma descending_append:
  "descending s (xs @ [(a, e)]) \<longleftrightarrow> descending s xs \<and> a < e \<and> e < (if xs = [] then s else fst (last xs))"
  by (induction s xs rule: descending.induct) auto

lemma canon_descending: "canon (xs @ [(s, e)]) \<Longrightarrow> descending s (rev xs)"
proof (induction xs)
  case (Cons r xs)
  obtain a b where r: "r = (a, b)" by (cases r)
  have ih: "descending s (rev xs)" using Cons by simp
  have "b < (if xs = [] then s else fst (hd xs))"
    using Cons.prems r by (cases xs) auto
  moreover have "a < b" using Cons.prems r by simp
  ultimately show ?case using ih r by (cases "xs = []") (simp_all add: descending_append last_rev)
qed simp

lemma descending_fields:
  "descending s blocks \<Longrightarrow> s \<le> 4611686018427387904 \<Longrightarrow> \<forall>v\<in>set (ack_block_fields s blocks). varint_ok v"
proof (induction s blocks rule: ack_block_fields.induct)
  case (2 s a e blocks)
  have "a < e" "e < s" using 2(2) by simp_all
  then have "s - e - 1 < 4611686018427387904" "(e - 1) - a < 4611686018427387904" using 2(3) by linarith+
  note bounds = this [THEN varint_ok_of_nat(1)]
  show ?case using 2 bounds by (simp only: ack_block_fields.simps list.set ball_simps descending.simps) simp
qed simp

lemma ack_parts:
  assumes "frame_valid (FAck d ranges ecn)"
  obtains s e rest where "rev (rs_iter ranges) = (s, e) # rest" "s < e" "e \<le> 4611686018427387904" "descending s rest"
    "ack_fields d ranges ecn = Some ([of_nat (e - 1), d, of_nat (length rest), of_nat (e - 1 - s)] @ ack_block_fields s rest @
       (case ecn of None \<Rightarrow> [] | Some x \<Rightarrow> [ect0_count x, ect1_count x, ecn_ce_count x]))"
    "below62 (length rest)"
proof -
  have v: "canon (rs_iter ranges)" "rs_iter ranges \<noteq> []" "\<forall>r\<in>set (rs_iter ranges). snd r \<le> 4611686018427387904"
    using assms by simp_all
  obtain s e rest where r: "rev (rs_iter ranges) = (s, e) # rest"
    using v(2) by (cases "rev (rs_iter ranges)") auto
  then have it: "rs_iter ranges = rev rest @ [(s, e)]" by (metis rev.simps(2) rev_rev_ident)
  have "s < e" "descending s rest" using v(1) canon_descending [of "rev rest" s e] unfolding it by (auto simp: canon_append)
  moreover have "e \<le> 4611686018427387904" using v(3) it by simp
  moreover have "below62 (length rest)"
    using canon_length [OF v(1), of 0 4611686018427387904] v(2,3) it by simp
  ultimately show thesis using r by (intro that [of s e rest]) (simp_all add: ack_fields_def)
qed

lemma writes_ack:
  assumes "frame_valid (FAck d ranges ecn)"
  shows "writes (wr_ack d ranges ecn) (enc_frame (FAck d ranges ecn))"
proof -
  obtain s e rest where p: "rev (rs_iter ranges) = (s, e) # rest" "s < e" "e \<le> 4611686018427387904" "descending s rest"
    "ack_fields d ranges ecn = Some ([of_nat (e - 1), d, of_nat (length rest), of_nat (e - 1 - s)] @ ack_block_fields s rest @
       (case ecn of None \<Rightarrow> [] | Some x \<Rightarrow> [ect0_count x, ect1_count x, ecn_ce_count x]))" "below62 (length rest)"
    by (rule ack_parts [OF assms])
  let ?ty = "if ecn = None then 0x02 else 0x03 :: u64"
  have ok: "\<forall>v\<in>set [?ty, of_nat (e - 1), d, of_nat (length rest), of_nat (e - 1 - s)]. varint_ok v"
  proof -
    have "e - 1 < 4611686018427387904" "e - 1 - s < 4611686018427387904" using p(2,3) by linarith+
    note bounds = this [THEN varint_ok_of_nat(1)] p(6) [THEN varint_ok_of_nat(1)]
    have "varint_ok d" using assms by simp
    moreover have "varint_ok ?ty" by simp
    ultimately show ?thesis using bounds by (simp only: list.set ball_simps simp_thms)
  qed
  have "writes (wr_ack_blocks s rest) (enc_all (ack_block_fields s rest))"
    using descending_fields [OF p(4)] p(2,3) by (intro writes_ack_blocks) simp
  moreover have "writes (wr_ecn ecn) (enc_all (case ecn of None \<Rightarrow> [] | Some x \<Rightarrow> [ect0_count x, ect1_count x, ecn_ce_count x]))"
    using assms by (intro writes_ecn) simp
  ultimately have "writes (wr_all [wr_ack_blocks s rest, wr_ecn ecn]) (enc_all (ack_block_fields s rest) @
      enc_all (case ecn of None \<Rightarrow> [] | Some x \<Rightarrow> [ect0_count x, ect1_count x, ecn_ce_count x]))"
    by (auto intro!: writes_seq writes_skip)
  note parts = writes_all_varints [OF ok this]
  have "wr_ack d ranges ecn = wr_all (map wr_varint [?ty, of_nat (e - 1), d, of_nat (length rest), of_nat (e - 1 - s)] @
      [wr_ack_blocks s rest, wr_ecn ecn])"
    by (rule ext) (simp only: wr_ack_def p(1) list.case prod.case list.map append.simps)
  moreover have "enc_frame (FAck d ranges ecn) = enc_all [?ty, of_nat (e - 1), d, of_nat (length rest), of_nat (e - 1 - s)] @
      enc_all (ack_block_fields s rest) @ enc_all (case ecn of None \<Rightarrow> [] | Some x \<Rightarrow> [ect0_count x, ect1_count x, ecn_ce_count x])"
    by (simp only: enc_frame.simps p(5) option.sel enc_all_simps append.simps append_assoc)
  ultimately show ?thesis using parts by (simp only:)
qed

lemma wr_frame_writes:
  assumes "frame_valid f"
  shows "writes (wr_frame f) (enc_frame f)"
proof (cases f)
  case (FAck d ranges ecn)
  then show ?thesis using writes_ack assms by simp
next
  case (FCrypto data)
  then obtain bs where "rb_deref data = Some bs" "length bs = rb_len data" "rb_len data < 16384" "below62 (rb_off data)"
    using assms by (auto simp: rb_sendable_def)
  then show ?thesis
    unfolding FCrypto wr_frame.simps enc_frame.simps encode_crypto_header_def wr_all.simps
    by (auto intro!: writes_rules varint_ok_of_nat(1))
next
  case (FStream stream_id data)
  then obtain bs where "rb_deref data = Some bs" "length bs = rb_len data" "rb_len data < 16384" "below62 (rb_off data)" "varint_ok stream_id"
    using assms by (auto simp: rb_sendable_def)
  then show ?thesis
    unfolding FStream wr_frame.simps enc_frame.simps encode_stream_header_def wr_all.simps Let_def
    by (auto intro!: writes_rules varint_ok_of_nat(1))
next
  case (FDatagram data)
  then show ?thesis
    using assms unfolding FDatagram wr_frame.simps enc_frame.simps encode_dgram_header_def wr_all.simps Let_def
    by (auto intro!: writes_rules)
qed (use assms in \<open>auto intro!: writes_rules varint_ok_of_nat(1)\<close>)

section \<open>Parsing reads the wire format\<close>

lemma reads_insert: "rs_insert rs item = Some rs' \<Longrightarrow> reads (rd_insert rs item) [] rs'"
  by (simp add: reads_def rd_insert_def)

lemma reads_ack_blocks:
  "descending s blocks \<Longrightarrow> s \<le> 4611686018427387904 \<Longrightarrow> rs_ok rs \<Longrightarrow>
    \<exists>rs'. reads (rd_ack_blocks (length blocks) s rs) (enc_all (ack_block_fields s blocks)) rs' \<and> rs_ok rs'
      \<and> rs_covers rs' = rs_covers rs \<union> covers blocks"
proof (induction s blocks arbitrary: rs rule: descending.induct)
  case (1 s)
  then show ?case by (auto simp: covers_simps intro: reads_ret)
next
  case (2 s a e blocks)
  have o: "a < e" "e < s" "descending a blocks" using 2(2) by simp_all
  have gap: "s - e - 1 < 4611686018427387904" and len: "(e - 1) - a < 4611686018427387904" using 2(3) o by linarith+
  obtain rs1 where rs1: "rs_insert rs (a, e) = Some rs1" "rs_ok rs1" "rs_covers rs1 = rs_covers rs \<union> {a..<e}"
    using acks.add_ok [OF 2(4), of "(a, e)"] o 2(3) by auto
  obtain rs2 where rs2: "reads (rd_ack_blocks (length blocks) a rs1) (enc_all (ack_block_fields a blocks)) rs2" "rs_ok rs2"
      "rs_covers rs2 = rs_covers rs1 \<union> covers blocks"
    using "2.IH" [OF o(3) _ rs1(2)] o 2(3) by auto
  have arith: "\<not> s < 2 + (s - e - 1)" "(s - (s - e - 1)) - 2 = e - 1" "\<not> e - 1 < e - 1 - a" "e - 1 - (e - 1 - a) = a" "e - 1 + 1 = e"
    using o by linarith+
  have "reads (rd_ack_blocks (Suc (length blocks)) s rs)
      (varint_enc (of_nat (s - e - 1)) @ varint_enc (of_nat (e - 1 - a)) @ enc_all (ack_block_fields a blocks)) rs2"
    unfolding rd_ack_blocks.simps
  proof (rule reads_bind [OF reads_varint [OF varint_ok_of_nat(1) [OF gap]]], unfold varint_ok_of_nat(2) [OF gap] arith if_not_P [OF arith(1)] Let_def,
      rule reads_bind [OF reads_varint [OF varint_ok_of_nat(1) [OF len]]], unfold varint_ok_of_nat(2) [OF len] arith if_not_P [OF arith(3)])
    show "reads (rd_bind (rd_insert rs (a, e)) (rd_ack_blocks (length blocks) a)) (enc_all (ack_block_fields a blocks)) rs2"
      using reads_bind [OF reads_insert [OF rs1(1)], of "rd_ack_blocks (length blocks) a"] rs2(1) by (simp add: eta_contract_eq)
  qed
  then have "reads (rd_ack_blocks (length ((a, e) # blocks)) s rs) (enc_all (ack_block_fields s ((a, e) # blocks))) rs2"
    by (simp only: ack_block_fields.simps enc_all_simps list.size add_0_right plus_1_eq_Suc add_Suc_right)
  with rs2 rs1(3) show ?case by (intro exI [of _ rs2]) (auto simp: covers_simps)
qed

lemma reads_fields [reads_rules]:
  "varint_ok a \<Longrightarrow> reads (rd1 k1) (varint_enc a) (k1 a)"
  "varint_ok a \<Longrightarrow> varint_ok b \<Longrightarrow> reads (rd2 k2) (varint_enc a @ varint_enc b) (k2 a b)"
  "varint_ok a \<Longrightarrow> varint_ok b \<Longrightarrow> varint_ok c \<Longrightarrow> reads (rd3 k3) (varint_enc a @ varint_enc b @ varint_enc c) (k3 a b c)"
  by (auto simp: rd1_def rd2_def rd3_def intro!: reads_step reads_ret)

lemma reads_ecn:
  "ecn_ok ecn \<Longrightarrow> ecn_present = (ecn \<noteq> None) \<Longrightarrow>
    reads (if ecn_present then rd_bind rd_ecn (\<lambda>ecn. rd_ret (Some ecn)) else rd_ret None)
      (enc_all (case ecn of None \<Rightarrow> [] | Some e \<Rightarrow> [ect0_count e, ect1_count e, ecn_ce_count e])) ecn"
proof (cases ecn)
  case (Some e)
  assume "ecn_ok ecn" "ecn_present = (ecn \<noteq> None)"
  moreover obtain a b c where e: "e = \<lparr>ect0_count = a, ect1_count = b, ecn_ce_count = c\<rparr>" by (cases e)
  ultimately have "reads rd_ecn (varint_enc a @ varint_enc b @ varint_enc c) e" "ecn_present"
    using Some by (auto simp: rd_ecn_def ecn_ok_def intro!: reads_step reads_ret)
  from reads_bind [OF this(1), of "\<lambda>ecn. rd_ret (Some ecn)" "[]" "Some e"] this(2) Some e show ?thesis by (simp add: reads_ret)
qed (simp add: reads_ret)

lemma reads_ack:
  assumes "frame_valid (FAck d ranges ecn)" and ty: "ty = (if ecn = None then 0x02 else 0x03)"
  shows "\<exists>ranges'. reads (parse_ack_frame ty) (enc_all (the (ack_fields d ranges ecn))) (FAck d ranges' ecn)
    \<and> rs_ok ranges' \<and> rs_iter ranges' = rs_iter ranges"
proof -
  obtain s e rest where p: "rev (rs_iter ranges) = (s, e) # rest" "s < e" "e \<le> 4611686018427387904" "descending s rest"
    "ack_fields d ranges ecn = Some ([of_nat (e - 1), d, of_nat (length rest), of_nat (e - 1 - s)] @ ack_block_fields s rest @
       (case ecn of None \<Rightarrow> [] | Some x \<Rightarrow> [ect0_count x, ect1_count x, ecn_ce_count x]))" "below62 (length rest)"
    by (rule ack_parts [OF assms(1)])
  have bound: "e - 1 < 4611686018427387904" "e - 1 - s < 4611686018427387904" using p(2,3) by linarith+
  note ok = bound [THEN varint_ok_of_nat(1)] p(6) [THEN varint_ok_of_nat(1)]
  note val = bound [THEN varint_ok_of_nat(2)] p(6) [THEN varint_ok_of_nat(2)]
  obtain rs1 where rs1: "rs_insert range_set_default (s, e) = Some rs1" "rs_ok rs1" "rs_covers rs1 = {s..<e}"
    using acks.add_ok [OF rs_ok_default, of "(s, e)"] p(2,3) by (auto simp: range_set_default_def covers_simps)
  obtain rs2 where rs2: "reads (rd_ack_blocks (length rest) s rs1) (enc_all (ack_block_fields s rest)) rs2" "rs_ok rs2"
      "rs_covers rs2 = rs_covers rs1 \<union> covers rest"
    using reads_ack_blocks [OF p(4) _ rs1(2)] p(2,3) by auto
  have arith: "\<not> e - 1 < e - 1 - s" "e - 1 - (e - 1 - s) = s" "e - 1 + 1 = e" using p(2) by linarith+
  have ecn: "reads (if (ucast ty :: u8) AND 1 \<noteq> 0 then rd_bind rd_ecn (\<lambda>ecn. rd_ret (Some ecn)) else rd_ret None)
      (enc_all (case ecn of None \<Rightarrow> [] | Some e \<Rightarrow> [ect0_count e, ect1_count e, ecn_ce_count e])) ecn"
    by (rule reads_ecn) (use assms in simp_all)
  have d: "varint_ok d" using assms(1) by simp
  have "reads (parse_ack_frame ty)
      (varint_enc (of_nat (e - 1)) @ varint_enc d @ varint_enc (of_nat (length rest)) @ varint_enc (of_nat (e - 1 - s)) @
       [] @ enc_all (ack_block_fields s rest) @
       enc_all (case ecn of None \<Rightarrow> [] | Some x \<Rightarrow> [ect0_count x, ect1_count x, ecn_ce_count x]) @ []) (FAck d rs2 ecn)"
    unfolding parse_ack_frame_def Let_def
    by (rule reads_bind [OF reads_varint [OF ok(1)]], rule reads_bind [OF reads_varint [OF d]],
        rule reads_bind [OF reads_varint [OF ok(3)]], rule reads_bind [OF reads_varint [OF ok(2)]],
        unfold val arith if_not_P [OF arith(1)], rule reads_bind [OF reads_insert [OF rs1(1)]],
        rule reads_bind [OF rs2(1)], rule reads_bind [OF ecn], rule reads_ret)
  then have "reads (parse_ack_frame ty) (enc_all (the (ack_fields d ranges ecn))) (FAck d rs2 ecn)"
    by (simp only: p(5) option.sel enc_all_simps append.simps append_assoc append_Nil2)
  moreover have "rs_iter rs2 = rs_iter ranges"
  proof (rule acks.elems_determined [OF rs2(2)])
    show "canon (rs_iter ranges)" using assms(1) by simp
    have "rs_iter ranges = rev rest @ [(s, e)]" using p(1) by (metis rev.simps(2) rev_rev_ident)
    then show "covers (rs_iter ranges) = rs_covers rs2" by (simp only: rs2(3) rs1(3)) (auto simp: covers_def)
  qed
  ultimately show ?thesis using rs2(2) by blast
qed

lemma reads_crypto:
  assumes "rb_sendable data" and "rb_deref data = Some bs"
  shows "reads (rd_frame_body 0x06) (varint_enc (of_nat (rb_off data)) @ varint2_enc (rb_len data) @ bs)
    (FCrypto (rb_from bs (rb_off data) False))"
proof -
  have b: "rb_len data < 16384" "below62 (rb_off data)" "length bs = rb_len data"
    using assms by (simp_all add: rb_sendable_def)
  have "reads rd_bytes_varint (varint2_enc (rb_len data) @ bs) bs"
    by (rule reads_bytes_varint [OF reads_varint2 [OF b(1), folded b(3)] _ refl, unfolded b(3)]) (use b in simp)
  from reads_bind [OF this reads_ret]
  have "reads (rd_bind rd_bytes_varint (\<lambda>x. rd_ret (FCrypto (rb_from x (rb_off data) False))))
      (varint2_enc (rb_len data) @ bs) (FCrypto (rb_from bs (rb_off data) False))" by simp
  then show ?thesis
    unfolding rd_frame_body_def using varint_ok_of_nat [OF b(2)] by (simp add: reads_step(1))
qed

lemma reads_stream:
  assumes "rb_sendable data" and "rb_deref data = Some bs" and "varint_ok stream_id"
  shows "reads (rd_frame_body (if rb_fin data then 0x0f else 0x0e))
    (varint_enc stream_id @ varint_enc (of_nat (rb_off data)) @ varint2_enc (rb_len data) @ bs)
    (FStream stream_id (rb_from bs (rb_off data) (rb_fin data)))"
proof -
  let ?ty = "if rb_fin data then 0x0f else 0x0e :: u64"
  have b: "rb_len data < 16384" "below62 (rb_off data)" "length bs = rb_len data" "\<not> MAX_STREAM_SIZE \<le> rb_off data + rb_len data"
    using assms by (simp_all add: rb_sendable_def MAX_STREAM_SIZE_def)
  have v: "unat (of_nat (rb_len data) :: u64) = rb_len data" using b(1) by (intro varint_ok_of_nat(2)) simp
  have len: "reads (rd_bind rd_varint (\<lambda>v. rd_ret (unat v))) (varint2_enc (rb_len data)) (rb_len data)"
    using reads_bind [OF reads_varint2 [OF b(1)], of "\<lambda>v. rd_ret (unat v)" "[]"] v by (simp add: reads_ret)
  have bits: "(ucast ?ty :: u8) AND 4 \<noteq> 0" "(ucast ?ty :: u8) AND 2 \<noteq> 0" "((ucast ?ty :: u8) AND 1 \<noteq> 0) = rb_fin data"
    by (cases "rb_fin data"; simp)+
  have "reads (parse_stream_frame ?ty)
    (varint_enc stream_id @ varint_enc (of_nat (rb_off data)) @ varint2_enc (rb_len data) @ bs)
    (FStream stream_id (rb_from bs (rb_off data) (rb_fin data)))"
    unfolding parse_stream_frame_def Let_def if_P [OF bits(1)] if_P [OF bits(2)] bits(3)
    by (rule reads_step(1) [OF assms(3)], rule reads_step(1) [OF varint_ok_of_nat(1) [OF b(2)]],
        unfold varint_ok_of_nat(2) [OF b(2)], rule reads_bind [OF len], unfold if_not_P [OF b(4)],
        rule reads_step(5) [OF b(3) [symmetric] reads_ret])
  then show ?thesis by (cases "rb_fin data") (simp_all add: rd_frame_body_def)
qed

lemma reads_datagram:
  assumes "length data < 16384"
  shows "reads (rd_frame_body 0x31) (varint2_enc (length data) @ data) (FDatagram data)"
proof -
  have v: "unat (of_nat (length data) :: u64) = length data" using assms by (intro varint_ok_of_nat(2)) simp
  have len: "reads (rd_bind rd_varint (\<lambda>v. rd_ret (unat v))) (varint2_enc (length data)) (length data)"
    using reads_bind [OF reads_varint2 [OF assms], of "\<lambda>v. rd_ret (unat v)" "[]"] v by (simp add: reads_ret)
  have bit: "(ucast (0x31 :: u64) :: u8) AND 1 \<noteq> 0" by simp
  have "reads (parse_datagram_frame 0x31) (varint2_enc (length data) @ data) (FDatagram data)"
    unfolding parse_datagram_frame_def Let_def if_P [OF bit]
    by (rule reads_bind [OF len], rule reads_step(5) [OF refl reads_ret])
  then show ?thesis by (simp add: rd_frame_body_def)
qed

text \<open>Every frame but PADDING is read back exactly, whatever follows it.\<close>

lemma rb_deref_from [simp]: "rb_deref (rb_from bs off fin) = Some bs"
  by (simp add: rb_deref_def rb_from_def slice_of_def)

lemma rd_frame_body_plain:
  "rd_frame_body 0x01 = rd_ret (FPing None)" "rd_frame_body 0x02 = parse_ack_frame 0x02"
  "rd_frame_body 0x03 = parse_ack_frame 0x03" "rd_frame_body 0x04 = rd3 FResetStream"
  "rd_frame_body 0x05 = rd2 FStopSending" "rd_frame_body 0x10 = rd1 FMaxData" "rd_frame_body 0x11 = rd2 FMaxStreamData"
  "rd_frame_body 0x12 = rd1 FMaxStreamsBidi" "rd_frame_body 0x13 = rd1 FMaxStreamsUni" "rd_frame_body 0x14 = rd1 FDataBlocked"
  "rd_frame_body 0x15 = rd2 FStreamDataBlocked" "rd_frame_body 0x16 = rd1 FStreamsBlockedBidi"
  "rd_frame_body 0x17 = rd1 FStreamsBlockedUni" "rd_frame_body 0x19 = rd1 FRetireConnectionId"
  "rd_frame_body 0x1e = rd_ret FHandshakeDone"
  by (simp_all add: rd_frame_body_def)

lemma reads_token:
  "below62 (length token) \<Longrightarrow> token \<noteq> [] \<Longrightarrow>
    reads (rd_frame_body 0x07) (varint_enc (of_nat (length token)) @ token) (FNewToken token)"
  using varint_ok_of_nat [of "length token"]
  by (auto simp: rd_frame_body_def unat_eq_0 [symmetric] intro!: reads_step reads_ret)

lemma reads_new_connection_id:
  assumes "varint_ok a" "varint_ok b" "1 \<le> length cid" "length cid \<le> 20" "length token = 16"
  shows "reads (rd_frame_body 0x18) (varint_enc a @ varint_enc b @ of_nat (length cid) # cid @ token) (FNewConnectionId a b cid token)"
proof -
  have u: "unat (of_nat (length cid) :: u8) = length cid" using assms(4) by (simp add: mod_less)
  have "1 \<le> (of_nat (length cid) :: u8) \<and> of_nat (length cid) \<le> MAX_CID_LEN"
    using u assms(3,4) by (simp add: word_le_nat_alt MAX_CID_LEN_def)
  then show ?thesis
    using assms u
    by (simp add: rd_frame_body_def) (intro reads_step(1,3), assumption+, simp, intro reads_step(4,5), simp_all add: reads_ret)
qed

lemma reads_close:
  assumes "below62 (length reason)" "varint_ok a" "varint_ok b"
  shows "reads (rd_frame_body 0x1c) (varint_enc a @ varint_enc b @ varint_enc (of_nat (length reason)) @ reason) (FConnectionClose a b reason)"
    and "reads (rd_frame_body 0x1d) (varint_enc a @ varint_enc (of_nat (length reason)) @ reason) (FApplicationClose a reason)"
proof -
  have r: "reads rd_bytes_varint (varint_enc (of_nat (length reason)) @ reason) reason"
    by (rule reads_bytes_varint [OF reads_varint [OF varint_ok_of_nat(1)] _ refl]) (use assms in simp_all)
  have k: "reads (rd_bind rd_bytes_varint (\<lambda>x. rd_ret (k x))) (varint_enc (of_nat (length reason)) @ reason) (k reason)" for k
    using reads_bind [OF r, of "\<lambda>x. rd_ret (k x)" "[]"] by (simp add: reads_ret)
  show "reads (rd_frame_body 0x1c) (varint_enc a @ varint_enc b @ varint_enc (of_nat (length reason)) @ reason) (FConnectionClose a b reason)"
    "reads (rd_frame_body 0x1d) (varint_enc a @ varint_enc (of_nat (length reason)) @ reason) (FApplicationClose a reason)"
    using assms k [of "FConnectionClose a b"] k [of "FApplicationClose a"] by (simp_all add: rd_frame_body_def reads_step(1))
qed

lemma reads_path:
  "length data = 8 \<Longrightarrow> reads (rd_frame_body 0x1a) data (FPathChallenge data)"
  "length data = 8 \<Longrightarrow> reads (rd_frame_body 0x1b) data (FPathResponse data)"
  by (auto simp: rd_frame_body_def intro!: reads_step reads_ret)

text \<open>A type byte and what follows it, for every frame but PADDING.\<close>

definition readable :: "frame \<Rightarrow> bool" where
  "readable f \<longleftrightarrow> (\<exists>ty bs g. varint_ok ty \<and> enc_frame f = varint_enc ty @ bs \<and> reads (rd_frame_body ty) bs g \<and> frame_same f g)"

lemma readableI:
  "enc_frame f = varint_enc ty @ bs \<Longrightarrow> varint_ok ty \<Longrightarrow> reads (rd_frame_body ty) bs g \<Longrightarrow> frame_same f g \<Longrightarrow> readable f"
  by (auto simp: readable_def)

lemma rd_frame_reads:
  assumes "frame_valid f" and "\<nexists>n. f = FPadding n"
  shows "readable f"
proof (cases f)
  case (FAck d ranges ecn)
  let ?ty = "if ecn = None then 0x02 else 0x03 :: u64"
  obtain rs where rs: "reads (parse_ack_frame ?ty) (enc_all (the (ack_fields d ranges ecn))) (FAck d rs ecn)" "rs_ok rs" "rs_iter rs = rs_iter ranges"
    using reads_ack [of d ranges ecn ?ty] assms(1) FAck by auto
  have "rd_frame_body ?ty = parse_ack_frame ?ty" by (simp add: rd_frame_body_plain)
  with rs show ?thesis unfolding FAck
    by (intro readableI [of _ ?ty "enc_all (the (ack_fields d ranges ecn))" "FAck d rs ecn"]) simp_all
next
  case (FCrypto data)
  then obtain bs where bs: "rb_deref data = Some bs" "rb_sendable data" "\<not> rb_fin data"
    using assms by (auto simp: rb_sendable_def)
  show ?thesis unfolding FCrypto
    by (rule readableI [OF _ _ reads_crypto [OF bs(2,1)]]) (use bs in \<open>simp_all add: varint_ok_def MAX_VAR_INT_def\<close>)
next
  case (FStream stream_id data)
  then obtain bs where bs: "rb_deref data = Some bs" "rb_sendable data" "varint_ok stream_id"
    using assms by (auto simp: rb_sendable_def)
  show ?thesis unfolding FStream
    by (rule readableI [OF _ _ reads_stream [OF bs(2,1,3)]]) (use bs in \<open>simp_all add: varint_ok_def MAX_VAR_INT_def\<close>)
next
  case (FNewToken token)
  then show ?thesis using assms by (intro readableI [OF _ _ reads_token]) (simp_all add: varint_ok_def MAX_VAR_INT_def)
next
  case (FNewConnectionId a b cid token)
  then show ?thesis
    using assms by (intro readableI [OF _ _ reads_new_connection_id]) (simp_all add: varint_ok_def MAX_VAR_INT_def)
next
  case (FConnectionClose a b reason)
  then show ?thesis using assms by (intro readableI [OF _ _ reads_close(1)]) (simp_all add: varint_ok_def MAX_VAR_INT_def)
next
  case (FApplicationClose a reason)
  then show ?thesis using assms by (intro readableI [OF _ _ reads_close(2) [of _ a 0]]) (simp_all add: varint_ok_def MAX_VAR_INT_def)
next
  case (FPathChallenge data)
  then show ?thesis using assms by (intro readableI [OF _ _ reads_path(1)]) (simp_all add: varint_ok_def MAX_VAR_INT_def)
next
  case (FPathResponse data)
  then show ?thesis using assms by (intro readableI [OF _ _ reads_path(2)]) (simp_all add: varint_ok_def MAX_VAR_INT_def)
next
  case (FDatagram data)
  then show ?thesis using assms by (intro readableI [OF _ _ reads_datagram]) (simp_all add: varint_ok_def MAX_VAR_INT_def)
qed (use assms in \<open>auto intro!: readableI reads_fields reads_ret simp: rd_frame_body_plain\<close>)

section \<open>Padding\<close>

lemma rd_zeros_run:
  assumes "oct_wf b" and "oct_to_vec b = replicate n 0 @ rest" and "\<nexists>tail. rest = 0 # tail"
  shows "\<exists>b'. rd_zeros len b = Some (Inr (len + n), b') \<and> oct_wf b' \<and> oct_to_vec b' = rest"
  using assms(1,2)
proof (induction n arbitrary: len b)
  case 0
  then have "peek_u8 b \<noteq> Inr 0" using assms(3) by (auto simp: peek_u8_to_vec split: list.splits)
  with 0 show ?case by (simp add: rd_zeros.simps)
next
  case (Suc n)
  then have vec: "oct_to_vec b = [0] @ replicate n 0 @ rest" by simp
  have peek: "peek_u8 b = Inr 0" by (simp add: peek_u8_to_vec vec)
  obtain b1 where b1: "rd_u8 b = Some (Inr 0, b1)" "oct_wf b1" "oct_to_vec b1 = replicate n 0 @ rest"
    using readsD [OF reads_u8 Suc.prems(1) vec] by auto
  then have "get_u8 b = (Inr 0, b1)" by (auto simp: rd_u8_def lift_oct_def split: prod.splits sum.splits)
  with Suc.IH [OF b1(2,3), of "len + 1"] peek show ?case by (simp add: rd_zeros.simps [of len b])
qed

section \<open>Lengths\<close>

lemma varints_len_enc: "\<forall>v\<in>set vs. varint_ok v \<Longrightarrow> varints_len vs = Some (length (enc_all vs))"
  by (induction vs) (simp_all add: varint_len_enc)

lemma plus_len_enc: "\<forall>v\<in>set vs. varint_ok v \<Longrightarrow> plus_len n vs = Some (n + length (enc_all vs))"
  by (simp add: plus_len_def varints_len_enc)

lemma varint_enc_small: "v < 64 \<Longrightarrow> length (varint_enc v) = 1"
  by (simp add: varint_enc_def word_less_nat_alt)

lemma varint2_enc_length [simp]: "length (varint2_enc n) = 2"
  by (simp add: varint2_enc_def)

lemma wire_len_ack:
  assumes "frame_valid (FAck d ranges ecn)"
  shows "frame_wire_len (FAck d ranges ecn) = Some (length (enc_frame (FAck d ranges ecn)))"
proof -
  obtain s e rest where p: "rev (rs_iter ranges) = (s, e) # rest" "s < e" "e \<le> 4611686018427387904" "descending s rest"
    "ack_fields d ranges ecn = Some ([of_nat (e - 1), d, of_nat (length rest), of_nat (e - 1 - s)] @ ack_block_fields s rest @
       (case ecn of None \<Rightarrow> [] | Some x \<Rightarrow> [ect0_count x, ect1_count x, ecn_ce_count x]))" "below62 (length rest)"
    by (rule ack_parts [OF assms])
  let ?fs = "[of_nat (e - 1), d, of_nat (length rest), of_nat (e - 1 - s)] @ ack_block_fields s rest @
       (case ecn of None \<Rightarrow> [] | Some x \<Rightarrow> [ect0_count x, ect1_count x, ecn_ce_count x])"
  have bound: "e - 1 < 4611686018427387904" "e - 1 - s < 4611686018427387904" using p(2,3) by linarith+
  note ok = bound [THEN varint_ok_of_nat(1)] p(6) [THEN varint_ok_of_nat(1)]
  have "\<forall>v\<in>set (ack_block_fields s rest). varint_ok v" using descending_fields [OF p(4)] p(2,3) by simp
  moreover have "\<forall>v\<in>set (case ecn of None \<Rightarrow> [] | Some x \<Rightarrow> [ect0_count x, ect1_count x, ecn_ce_count x]). varint_ok v"
    using assms by (auto simp: ecn_ok_def split: option.splits)
  moreover have "varint_ok d" using assms by simp
  ultimately have "\<forall>v\<in>set ?fs. varint_ok v"
    using ok by (simp only: set_append list.set ball_Un ball_simps simp_thms)
  then have "plus_len 1 ?fs = Some (1 + length (enc_all ?fs))" by (rule plus_len_enc)
  moreover have "length (varint_enc (if ecn = None then 0x02 else 0x03)) = 1" by (rule varint_enc_small) simp
  ultimately show ?thesis
    by (simp only: frame_wire_len.simps p(5) Option.bind.simps enc_frame.simps option.sel enc_all_simps(2) length_append)
qed

lemma wire_len_enc:
  assumes "frame_valid f"
  shows "frame_wire_len f = Some (length (enc_frame f))"
proof (cases f)
  case (FAck d ranges ecn)
  then show ?thesis using wire_len_ack assms by simp
next
  case (FCrypto data)
  then show ?thesis using assms by (auto simp: rb_sendable_def plus_len_enc varint_ok_of_nat varint_enc_small)
next
  case (FStream stream_id data)
  then show ?thesis using assms by (auto simp: rb_sendable_def plus_len_enc varint_ok_of_nat varint_enc_small)
qed (use assms in \<open>auto simp: plus_len_enc varint_ok_of_nat varint_enc_small\<close>)

section \<open>The round trip\<close>

lemma frame_same_allowed: "frame_same f g \<Longrightarrow> frame_allowed pkt g = frame_allowed pkt f"
  by (cases f) (auto simp: frame_allowed_def)

lemma frame_same_refl: "frame_valid f \<Longrightarrow> \<nexists>d r e. f = FAck d r e \<Longrightarrow> frame_same f f"
  by (cases f) auto

text \<open>Parsing what was written: the frame, or a refusal that depends on the packet type only.\<close>

lemma from_bytes_enc:
  assumes "frame_valid f" and "oct_wf b" and "oct_to_vec b = enc_frame f @ rest"
    and "(\<exists>n. f = FPadding n) \<longrightarrow> (\<nexists>tail. rest = 0 # tail)"
  shows "\<exists>g b'. frame_same f g \<and> oct_to_vec b' = rest
    \<and> frame_from_bytes pkt b = Some (if frame_allowed pkt f then Inr g else Inl EInvalidPacket, b')"
proof -
  have "\<exists>g b' b1 ty. frame_same f g \<and> oct_to_vec b' = rest \<and> rd_varint b = Some (Inr ty, b1) \<and> rd_frame_body ty b1 = Some (Inr g, b')"
  proof (cases "\<exists>n. f = FPadding n")
    case True
    then obtain n where f: "f = FPadding (Suc n)" using assms(1) by (auto simp: gr0_conv_Suc)
    then have vec: "oct_to_vec b = varint_enc 0 @ replicate n 0 @ rest" using assms(3) by (simp add: varint_enc_0)
    obtain b1 where b1: "rd_varint b = Some (Inr 0, b1)" "oct_wf b1" "oct_to_vec b1 = replicate n 0 @ rest"
      using readsD [OF reads_varint assms(2) vec] by auto
    with rd_zeros_run [OF b1(2,3), of 1] assms(4) True f show ?thesis
      by (auto simp: rd_frame_body_def rd_bind_def rd_ret_def)
  next
    case False
    then obtain ty bs g where r: "varint_ok ty" "enc_frame f = varint_enc ty @ bs" "reads (rd_frame_body ty) bs g" "frame_same f g"
      using rd_frame_reads [OF assms(1)] by (auto simp: readable_def)
    obtain b1 where b1: "rd_varint b = Some (Inr ty, b1)" "oct_wf b1" "oct_to_vec b1 = bs @ rest"
      using readsD [OF reads_varint [OF r(1)] assms(2), of "bs @ rest"] assms(3) r(2) by auto
    with readsD [OF r(3) b1(2,3)] r(4) show ?thesis by blast
  qed
  then obtain g b' b1 ty where g: "frame_same f g" "oct_to_vec b' = rest" "rd_varint b = Some (Inr ty, b1)"
      "rd_frame_body ty b1 = Some (Inr g, b')" by blast
  then have "frame_from_bytes pkt b = Some (if frame_allowed pkt f then Inr g else Inl EInvalidPacket, b')"
    by (simp add: frame_from_bytes_def rd_bind_def rd_fail_def rd_ret_def frame_same_allowed)
  with g(1,2) show ?thesis by blast
qed

text \<open>
  C24: Frames survive the wire. For every frame whose fields fit their encodings, \<open>wire_len\<close> is
  defined and is exactly the number of bytes that \<open>to_bytes\<close> writes into any buffer with that much
  room; parsing these bytes, whatever follows them, consumes exactly them and yields a frame with the
  same content (the ranges of an ACK frame and the offset, bytes and end marker of data frames
  compared by value) in every packet type that may carry the frame, and is refused as an invalid
  packet in every other one. Only PADDING needs its end marked: more zero bytes would be more of it.
\<close>

theorem frame_roundtrip:
  assumes "frame_valid f" and "the (frame_wire_len f) \<le> length buf"
    and "(\<exists>n. f = FPadding n) \<Longrightarrow> \<nexists>tail. rest = 0 # tail"
  shows "\<exists>n b. frame_wire_len f = Some n \<and> frame_to_bytes f (with_slice buf) = Some (Inr n, b)
    \<and> (\<exists>g b'. frame_same f g \<and> oct_to_vec b' = rest
        \<and> frame_from_bytes pkt (with_slice (take n (oct_buf b) @ rest)) =
            Some (if frame_allowed pkt f then Inr g else Inl EInvalidPacket, b'))"
proof -
  let ?bs = "enc_frame f" and ?b = "wrote (enc_frame f) (with_slice buf)"
  have n: "frame_wire_len f = Some (length ?bs)" by (rule wire_len_enc [OF assms(1)])
  have len: "length ?bs \<le> length buf" using assms(2) n by simp
  have "wr_frame f (with_slice buf) = Some (Inr (), ?b)"
    using wr_frame_writes [OF assms(1)] len by (simp add: writes_def cap_to_vec)
  then have "frame_to_bytes f (with_slice buf) = Some (Inr (length ?bs), ?b)"
    using len by (simp add: frame_to_bytes_def cap_wrote) (simp add: cap_def with_slice_def wrote_def)
  moreover have "take (length ?bs) (oct_buf ?b) = ?bs" by (simp add: wrote_def with_slice_def)
  moreover have "oct_to_vec (with_slice (?bs @ rest)) = ?bs @ rest" by (simp add: oct_to_vec_def with_slice_def)
  from from_bytes_enc [OF assms(1) oct_wf_with_slice this] assms(3)
  have "\<exists>g b'. frame_same f g \<and> oct_to_vec b' = rest \<and> frame_from_bytes pkt (with_slice (?bs @ rest)) =
      Some (if frame_allowed pkt f then Inr g else Inl EInvalidPacket, b')" by blast
  ultimately show ?thesis using n by (intro exI [of _ "length ?bs"] exI [of _ ?b]) simp
qed

theorem frame_roundtrip_witness:
  "\<exists>n b. frame_wire_len (FAck 3 (Inline \<lparr>inl_inner = [(2, 4), (7, 9)], inl_capacity = 8\<rparr>) None) = Some n
    \<and> frame_to_bytes (FAck 3 (Inline \<lparr>inl_inner = [(2, 4), (7, 9)], inl_capacity = 8\<rparr>) None) (with_slice (replicate 9 0)) = Some (Inr n, b)
    \<and> (\<exists>g b'. frame_same (FAck 3 (Inline \<lparr>inl_inner = [(2, 4), (7, 9)], inl_capacity = 8\<rparr>) None) g \<and> oct_to_vec b' = [1]
        \<and> frame_from_bytes PktShort (with_slice (take n (oct_buf b) @ [1])) = Some (Inr g, b'))"
  using frame_roundtrip [of "FAck 3 (Inline \<lparr>inl_inner = [(2, 4), (7, 9)], inl_capacity = 8\<rparr>) None" "replicate 9 0" "[1]" PktShort]
  by (simp add: ecn_ok_def ack_fields_def plus_len_def varint_len_def frame_allowed_def)

end
