(* ===== verification/Masque.thy ===== *)
theory Masque
  imports Octets Net
begin

text \<open>
  \<open>core/aether/src/masque.rs\<close>: the CONNECT-IP datagram and capsule formats, with the capsule
  reassembly buffer, and the two loops that drain it (\<open>drain_capsules\<close> of \<open>quic.rs\<close> and of
  \<open>masque_h2.rs\<close>). A bounded channel of the async runtime is a parameter: a state together with the
  function \<open>try_send\<close>, which answers one of the three documented outcomes.
\<close>

section \<open>Data\<close>

definition CAPSULE_ADDRESS_ASSIGN :: u64 where "CAPSULE_ADDRESS_ASSIGN = 0x01"
definition CAPSULE_ADDRESS_REQUEST :: u64 where "CAPSULE_ADDRESS_REQUEST = 0x02"
definition CAPSULE_ROUTE_ADVERTISEMENT :: u64 where "CAPSULE_ROUTE_ADVERTISEMENT = 0x03"
definition CAPSULE_DATAGRAM :: u64 where "CAPSULE_DATAGRAM = 0x00"
definition CONNECT_IP_CONTEXT_ID :: u64 where "CONNECT_IP_CONTEXT_ID = 0"
definition MAX_CAPSULE_BUF :: nat where "MAX_CAPSULE_BUF = 256 * 1024"

definition CF_CONNECT_PROTOCOL :: string where "CF_CONNECT_PROTOCOL = ''cf-connect-ip''"

lemmas capsule_kinds = CAPSULE_ADDRESS_ASSIGN_def CAPSULE_ADDRESS_REQUEST_def
  CAPSULE_ROUTE_ADVERTISEMENT_def CAPSULE_DATAGRAM_def

record assigned_address =
  aa_request_id :: u64
  aa_ip_version :: u8
  aa_address :: bytes
  aa_prefix_len :: u8

record route_advertisement =
  ra_ip_version :: u8
  ra_start :: bytes
  ra_end :: bytes
  ra_protocol :: u8

datatype capsule =
    AddressAssign "assigned_address list"
  | AddressRequest
  | Datagram bytes
  | RouteAdvertisement "route_advertisement list"
  | Unknown u64 bytes

definition oct :: "oct_error \<Rightarrow> aether_error" where
  "oct e = ErrCapsule ''BufferTooShortError''"

definition connect_ip_request :: "string \<Rightarrow> string \<Rightarrow> (string \<times> string) list" where
  "connect_ip_request authority path =
     [('':method'', ''CONNECT''),
      ('':protocol'', CF_CONNECT_PROTOCOL),
      ('':scheme'', ''https''),
      ('':authority'', authority),
      ('':path'', path),
      (''user-agent'', ''''),
      (''capsule-protocol'', ''?1'')]"

section \<open>HTTP/3 datagrams\<close>

definition quarter_stream_id :: "u64 \<Rightarrow> u64" where
  "quarter_stream_id stream_id = stream_id div 4"

definition masque_varint_len :: "u64 \<Rightarrow> nat" where
  "masque_varint_len v =
     (if v < 64 then 1 else if v < 16384 then 2 else if v < 1073741824 then 4 else 8)"

text \<open>\<open>map_err(oct)?\<close> on a write: the outer option is a panic of the write itself.\<close>

definition try_put :: "'a oct_result rust \<Rightarrow> (octets \<Rightarrow> 'b result rust) \<Rightarrow> 'b result rust" where
  "try_put r k = do { x \<leftarrow> r; case x of (Inl e, b) \<Rightarrow> Some (Inl (oct e)) | (Inr _, b) \<Rightarrow> k b }"

definition encode_ip_datagram :: "u64 \<Rightarrow> bytes \<Rightarrow> bytes result rust" where
  "encode_ip_datagram stream_id ip_packet =
     (let qsid = quarter_stream_id stream_id;
          ctx = CONNECT_IP_CONTEXT_ID;
          cap = masque_varint_len qsid + masque_varint_len ctx + length ip_packet
      in try_put (put_varint qsid (with_slice (replicate cap 0))) (\<lambda>b.
         try_put (put_varint ctx b) (\<lambda>b.
         try_put (Some (put_bytes ip_packet b)) (\<lambda>b.
           Some (Inr (oct_buf b))))))"

definition decode_ip_datagram :: "bytes \<Rightarrow> u64 \<Rightarrow> bytes option result" where
  "decode_ip_datagram datagram expect_stream_id =
     (case get_varint (with_slice datagram) of
        (Inl e, b) \<Rightarrow> Inl (oct e)
      | (Inr qsid, b) \<Rightarrow>
          if qsid \<noteq> quarter_stream_id expect_stream_id then Inr None
          else (case get_varint b of
                  (Inl e, b) \<Rightarrow> Inl (oct e)
                | (Inr ctx, b) \<Rightarrow>
                    if ctx \<noteq> CONNECT_IP_CONTEXT_ID then Inr None
                    else (case get_bytes (cap b) b of
                            (Inl e, b) \<Rightarrow> Inl (oct e)
                          | (Inr payload, b) \<Rightarrow> Inr (Some (oct_to_vec payload)))))"

section \<open>Capsules\<close>

text \<open>\<open>let _ = b.put_\<dots>\<close>: the result of a write is dropped, its panic is not.\<close>

definition encode_capsule :: "u64 \<Rightarrow> bytes \<Rightarrow> bytes rust" where
  "encode_capsule kind value =
     (let cap = masque_varint_len kind + masque_varint_len (of_nat (length value)) + length value in
      do { (_, b) \<leftarrow> put_varint kind (with_slice (replicate cap 0));
           (_, b) \<leftarrow> put_varint (of_nat (length value)) b;
           let (_, b) = put_bytes value b;
           Some (oct_buf b) })"

definition encode_address_request :: "u64 \<Rightarrow> u8 \<Rightarrow> u8 \<Rightarrow> bytes rust" where
  "encode_address_request request_id ip_version prefix_len =
     (let value_len = masque_varint_len request_id + 1 + 1 in
      do { (_, b) \<leftarrow> put_varint request_id (with_slice (replicate value_len 0));
           let (_, b) = put_u8 ip_version b;
           let (_, b) = put_u8 prefix_len b;
           encode_capsule CAPSULE_ADDRESS_REQUEST (oct_buf b) })"

definition encode_datagram_capsule :: "bytes \<Rightarrow> bytes rust" where
  "encode_datagram_capsule ip_packet = encode_capsule CAPSULE_DATAGRAM ip_packet"

definition looks_like_ip_packet :: "bytes \<Rightarrow> bool" where
  "looks_like_ip_packet data =
     (case data of
        first # _ \<Rightarrow> (drop_bit 4 first = 4 \<or> drop_bit 4 first = 6) \<and> length data \<ge> 20
      | [] \<Rightarrow> False)"

definition strip_datagram_context :: "bytes \<Rightarrow> bytes option rust" where
  "strip_datagram_context payload =
     (if payload = [] then Some None
      else let bare = (if looks_like_ip_packet payload then Some (Some payload) else Some None) in
      (case get_varint (with_slice payload) of
         (Inl e, b) \<Rightarrow> bare
       | (Inr ctx, b) \<Rightarrow>
           if ctx = CONNECT_IP_CONTEXT_ID then do {
             let consumed = length payload - cap b;
             inner \<leftarrow> slice_from payload consumed;
             if looks_like_ip_packet inner then Some (Some inner) else bare }
           else bare))"

section \<open>Capsule bodies\<close>

lemma cap_get_varint: "get_varint b = (Inr v, b') \<Longrightarrow> cap b' < cap b"
  by (auto simp: get_varint_split cap_to_vec oct_to_vec_def split: option.splits prod.splits
      dest: varint_split_bounds)

lemma cap_get_u8: "get_u8 b = (Inr v, b') \<Longrightarrow> cap b' < cap b"
  by (auto simp: get_u8_def get_u_to_vec map_res_def cap_to_vec oct_to_vec_def split: if_splits)

lemma cap_get_bytes: "get_bytes n b = (Inr v, b') \<Longrightarrow> cap b' \<le> cap b"
  by (auto simp: get_bytes_def cap_def split: if_splits)

definition addr_len_of :: "u8 \<Rightarrow> nat result" where
  "addr_len_of ip_version =
     (if ip_version = 4 then Inr 4 else if ip_version = 6 then Inr 16
      else Inl (ErrCapsule (''bad ip version '' @ show_nat (unat ip_version))))"

text \<open>The \<open>while b.cap() > 0\<close> loops, with the vector built so far as an argument.\<close>

function address_assign_loop :: "octets \<Rightarrow> assigned_address list \<Rightarrow> assigned_address list result" where
  "address_assign_loop b out =
     (if cap b > 0 then
        (case get_varint b of (Inl e, _) \<Rightarrow> Inl (oct e) | (Inr request_id, b1) \<Rightarrow>
        (case get_u8 b1 of (Inl e, _) \<Rightarrow> Inl (oct e) | (Inr ip_version, b2) \<Rightarrow>
        (case addr_len_of ip_version of Inl e \<Rightarrow> Inl e | Inr addr_len \<Rightarrow>
        (case get_bytes addr_len b2 of (Inl e, _) \<Rightarrow> Inl (oct e) | (Inr address, b3) \<Rightarrow>
        (case get_u8 b3 of (Inl e, _) \<Rightarrow> Inl (oct e) | (Inr prefix_len, b4) \<Rightarrow>
           address_assign_loop b4
             (out @ [\<lparr>aa_request_id = request_id, aa_ip_version = ip_version,
                      aa_address = oct_to_vec address, aa_prefix_len = prefix_len\<rparr>]))))))
      else Inr out)"
  by pat_completeness auto
termination
  by (relation "measure (\<lambda>(b, out). cap b)")
    (auto dest!: cap_get_varint [OF sym] cap_get_u8 [OF sym] cap_get_bytes [OF sym])

declare address_assign_loop.simps [simp del]

function route_advertisement_loop ::
  "octets \<Rightarrow> route_advertisement list \<Rightarrow> route_advertisement list result" where
  "route_advertisement_loop b out =
     (if cap b > 0 then
        (case get_u8 b of (Inl e, _) \<Rightarrow> Inl (oct e) | (Inr ip_version, b1) \<Rightarrow>
        (case addr_len_of ip_version of Inl e \<Rightarrow> Inl e | Inr addr_len \<Rightarrow>
        (case get_bytes addr_len b1 of (Inl e, _) \<Rightarrow> Inl (oct e) | (Inr start, b2) \<Rightarrow>
        (case get_bytes addr_len b2 of (Inl e, _) \<Rightarrow> Inl (oct e) | (Inr end', b3) \<Rightarrow>
        (case get_u8 b3 of (Inl e, _) \<Rightarrow> Inl (oct e) | (Inr protocol, b4) \<Rightarrow>
           route_advertisement_loop b4
             (out @ [\<lparr>ra_ip_version = ip_version, ra_start = oct_to_vec start,
                      ra_end = oct_to_vec end', ra_protocol = protocol\<rparr>]))))))
      else Inr out)"
  by pat_completeness auto
termination
  by (relation "measure (\<lambda>(b, out). cap b)")
    (auto dest!: cap_get_u8 [OF sym] cap_get_bytes [OF sym])

declare route_advertisement_loop.simps [simp del]

definition parse_address_assign :: "bytes \<Rightarrow> assigned_address list result" where
  "parse_address_assign value = address_assign_loop (with_slice value) []"

definition parse_route_advertisement :: "bytes \<Rightarrow> route_advertisement list result" where
  "parse_route_advertisement value = route_advertisement_loop (with_slice value) []"

section \<open>The reassembly buffer\<close>

record capsule_parser =
  cp_buf :: bytes

definition capsule_parser_new :: capsule_parser where
  "capsule_parser_new = \<lparr>cp_buf = []\<rparr>"

definition capsule_push :: "bytes \<Rightarrow> capsule_parser \<Rightarrow> capsule_parser" where
  "capsule_push data p =
     (if length (cp_buf p) + length data > MAX_CAPSULE_BUF then p\<lparr>cp_buf := []\<rparr>
      else p\<lparr>cp_buf := cp_buf p @ data\<rparr>)"

definition capsule_of :: "u64 \<Rightarrow> bytes \<Rightarrow> capsule result" where
  "capsule_of kind value =
     (if kind = CAPSULE_ADDRESS_ASSIGN then map_sum id AddressAssign (parse_address_assign value)
      else if kind = CAPSULE_ADDRESS_REQUEST then Inr AddressRequest
      else if kind = CAPSULE_ROUTE_ADVERTISEMENT
        then map_sum id RouteAdvertisement (parse_route_advertisement value)
      else if kind = CAPSULE_DATAGRAM then Inr (Datagram value)
      else Inr (Unknown kind value))"

definition capsule_next :: "capsule_parser \<Rightarrow> capsule option result \<times> capsule_parser" where
  "capsule_next p =
     (case get_varint (with_slice (cp_buf p)) of
        (Inl e, b) \<Rightarrow> (Inr None, p)
      | (Inr kind, b) \<Rightarrow>
          (case get_varint b of
             (Inl e, b) \<Rightarrow> (Inr None, p)
           | (Inr len, b) \<Rightarrow>
               if cap b < unat len then (Inr None, p)
               else (case get_bytes (unat len) b of
                       (Inl e, b) \<Rightarrow> (Inl (oct e), p)
                     | (Inr value, b) \<Rightarrow>
                         (map_sum id Some (capsule_of kind (oct_to_vec value)),
                          p\<lparr>cp_buf := drop (oct_off b) (cp_buf p)\<rparr>))))"

section \<open>Draining\<close>

datatype send_outcome = SendOk | SendFull | SendClosed

type_synonym ('c, 'a) sender = "'c \<Rightarrow> 'a \<Rightarrow> send_outcome \<times> 'c"

record assigned_addr =
  asg_ip :: ip_addr
  asg_prefix :: u8

definition bytes_to_ip :: "u8 \<Rightarrow> bytes \<Rightarrow> ip_addr option" where
  "bytes_to_ip version bs =
     (if version = 4 \<and> length bs = 4 then Some (V4 (v4_of_bytes bs))
      else if version = 6 \<and> length bs = 16 then Some (V6 (v6_of_bytes bs))
      else None)"

text \<open>\<open>for a in addrs { \<dots> tx.try_send(\<dots>) }\<close>: the outcome of the send is dropped.\<close>

fun send_addrs :: "('a, assigned_addr) sender option \<Rightarrow> 'a \<Rightarrow> assigned_address list \<Rightarrow> 'a" where
  "send_addrs addr_tx ac [] = ac"
| "send_addrs addr_tx ac (a # as) =
     (case bytes_to_ip (aa_ip_version a) (aa_address a) of
        None \<Rightarrow> send_addrs addr_tx ac as
      | Some ip \<Rightarrow>
          (case addr_tx of
             None \<Rightarrow> send_addrs addr_tx ac as
           | Some tx \<Rightarrow>
               send_addrs addr_tx (snd (tx ac \<lparr>asg_ip = ip, asg_prefix = aa_prefix_len a\<rparr>)) as))"

lemma capsule_next_shorter:
  "capsule_next p = (r, p') \<Longrightarrow> r \<noteq> Inr None \<Longrightarrow> length (cp_buf p') < length (cp_buf p)"
  by (auto simp: capsule_next_def get_varint_split oct_to_vec_def with_slice_def get_bytes_def cap_def
      split: option.splits prod.splits if_splits sum.splits dest: varint_split_bounds)

text \<open>\<open>drain_capsules\<close> of \<open>quic.rs\<close>: only address assignments have an effect.\<close>

function drain_capsules_h3 ::
  "('a, assigned_addr) sender option \<Rightarrow> capsule_parser \<Rightarrow> 'a \<Rightarrow> capsule_parser \<times> 'a" where
  "drain_capsules_h3 addr_tx p ac =
     (case capsule_next p of
        (Inr (Some (AddressAssign addrs)), p') \<Rightarrow> drain_capsules_h3 addr_tx p' (send_addrs addr_tx ac addrs)
      | (Inr (Some _), p') \<Rightarrow> drain_capsules_h3 addr_tx p' ac
      | (Inr None, p') \<Rightarrow> (p', ac)
      | (Inl e, p') \<Rightarrow> (p', ac))"
  by pat_completeness auto
termination
  by (relation "measure (\<lambda>(addr_tx, p, ac). length (cp_buf p))")
    (auto dest!: capsule_next_shorter [OF sym])

declare drain_capsules_h3.simps [simp del]

text \<open>\<open>drain_capsules\<close> of \<open>masque_h2.rs\<close>: datagrams are unwrapped and delivered as well.\<close>

function drain_capsules_h2 ::
  "('c, bytes) sender \<Rightarrow> ('a, assigned_addr) sender option \<Rightarrow> capsule_parser \<Rightarrow> 'c \<Rightarrow> 'a \<Rightarrow> bool
     \<Rightarrow> (bool \<times> capsule_parser \<times> 'c \<times> 'a) rust" where
  "drain_capsules_h2 inbound_tx addr_tx p ic ac delivered =
     (case capsule_next p of
        (Inr (Some (Datagram payload)), p') \<Rightarrow>
          (case strip_datagram_context payload of
             None \<Rightarrow> None
           | Some None \<Rightarrow> drain_capsules_h2 inbound_tx addr_tx p' ic ac delivered
           | Some (Some pkt) \<Rightarrow>
               (case inbound_tx ic pkt of
                  (SendClosed, ic') \<Rightarrow> Some (True, p', ic', ac)
                | (_, ic') \<Rightarrow> drain_capsules_h2 inbound_tx addr_tx p' ic' ac True))
      | (Inr (Some (AddressAssign addrs)), p') \<Rightarrow>
          drain_capsules_h2 inbound_tx addr_tx p' ic (send_addrs addr_tx ac addrs) delivered
      | (Inr (Some _), p') \<Rightarrow> drain_capsules_h2 inbound_tx addr_tx p' ic ac delivered
      | (Inr None, p') \<Rightarrow> Some (delivered, p', ic, ac)
      | (Inl e, p') \<Rightarrow> Some (delivered, p', ic, ac))"
  by pat_completeness auto
termination
  by (relation "measure (\<lambda>(inbound_tx, addr_tx, p, ic, ac, delivered). length (cp_buf p))")
    (auto dest!: capsule_next_shorter [OF sym])

declare drain_capsules_h2.simps [simp del]

text \<open>The receive step of the HTTP/2 tunnel: a body chunk is pushed, then the buffer is drained.\<close>

fun receive_chunks_h2 ::
  "('c, bytes) sender \<Rightarrow> ('a, assigned_addr) sender option \<Rightarrow> bytes list \<Rightarrow> capsule_parser \<Rightarrow> 'c \<Rightarrow> 'a
     \<Rightarrow> (capsule_parser \<times> 'c \<times> 'a) rust" where
  "receive_chunks_h2 inbound_tx addr_tx [] p ic ac = Some (p, ic, ac)"
| "receive_chunks_h2 inbound_tx addr_tx (c # cs) p ic ac =
     (case drain_capsules_h2 inbound_tx addr_tx (capsule_push c p) ic ac False of
        None \<Rightarrow> None
      | Some (_, p', ic', ac') \<Rightarrow> receive_chunks_h2 inbound_tx addr_tx cs p' ic' ac')"

section \<open>Datagram theorems\<close>

lemma masque_varint_len_enc: "varint_ok v \<Longrightarrow> masque_varint_len v = length (varint_enc v)"
  by (simp add: masque_varint_len_def varint_enc_def word_less_nat_alt)

lemma quarter_stream_id_ok: "varint_ok (quarter_stream_id s)"
proof -
  have "unat (s div 4) = unat s div 4" by (simp add: unat_div)
  moreover have "unat s div 4 < 4611686018427387904" using unat_u64_less [of s] by linarith
  ultimately show ?thesis by (simp add: varint_ok_iff quarter_stream_id_def)
qed

lemma context_id_ok: "varint_ok CONNECT_IP_CONTEXT_ID"
  by (simp add: varint_ok_iff CONNECT_IP_CONTEXT_ID_def)

lemma try_put_varint:
  assumes "varint_ok v" and "oct_wf b" and "length (varint_enc v) \<le> cap b"
  shows "try_put (put_varint v b) k = k (wrote (varint_enc v) b)"
  by (simp add: try_put_def put_varint_wrote [OF assms])

lemma encode_ip_datagram_eq:
  "encode_ip_datagram s pkt =
     Some (Inr (varint_enc (quarter_stream_id s) @ varint_enc CONNECT_IP_CONTEXT_ID @ pkt))"
proof -
  let ?q = "varint_enc (quarter_stream_id s)" and ?c = "varint_enc CONNECT_IP_CONTEXT_ID"
  let ?b = "with_slice (replicate (length ?q + length ?c + length pkt) 0)"
  have cap: "cap ?b = length ?q + length ?c + length pkt" by (simp add: oct_defs)
  have w: "oct_wf (wrote ?q ?b)" "cap (wrote ?q ?b) = length ?c + length pkt"
    by (simp_all add: wrote_wf cap_wrote cap)
  have ww: "oct_wf (wrote ?c (wrote ?q ?b))" "cap (wrote ?c (wrote ?q ?b)) = length pkt"
    using w by (simp_all add: wrote_wf cap_wrote)
  have "wrote pkt (wrote ?c (wrote ?q ?b)) = wrote (?q @ ?c @ pkt) ?b"
    using cap by (simp add: wrote_wrote)
  then show ?thesis
    using cap w ww
    by (simp add: encode_ip_datagram_def Let_def masque_varint_len_enc quarter_stream_id_ok
        context_id_ok try_put_varint put_bytes_wrote try_put_def [of "Some _"] wrote_all)
qed

text \<open>A cursor read and the codec agree on the unread bytes.\<close>

lemma get_varint_None:
  "varint_dec (oct_to_vec b) = None \<Longrightarrow> get_varint b = (Inl BufferTooShortError, b)"
  by (auto simp: varint_dec_split get_varint_split)

lemma get_varint_Some:
  assumes "varint_dec (oct_to_vec b) = Some (v, r)" and "oct_wf b"
  obtains b' where "get_varint b = (Inr v, b')" and "oct_to_vec b' = r"
    and "oct_buf b' = oct_buf b" and "oct_wf b'"
proof -
  obtain w n where w: "varint_split (oct_to_vec b) = Some (w, n)" "v = of_nat w"
      "r = drop n (oct_to_vec b)"
    using assms(1) by (auto simp: varint_dec_split)
  with varint_split_bounds [OF w(1)] assms(2) show ?thesis
    by (intro that [of "b\<lparr>oct_off := oct_off b + n\<rparr>"])
      (auto simp: get_varint_split oct_defs add.commute)
qed

lemma decode_ip_datagram_dec:
  "decode_ip_datagram d s =
     (case varint_dec d of
        None \<Rightarrow> Inl (oct BufferTooShortError)
      | Some (q, r) \<Rightarrow>
          if q \<noteq> quarter_stream_id s then Inr None
          else (case varint_dec r of
                  None \<Rightarrow> Inl (oct BufferTooShortError)
                | Some (c, pkt) \<Rightarrow> if c \<noteq> CONNECT_IP_CONTEXT_ID then Inr None else Inr (Some pkt)))"
proof (cases "varint_dec d")
  case None
  then show ?thesis by (simp add: decode_ip_datagram_def get_varint_None)
next
  case (Some qr)
  obtain q r where qr: "varint_dec d = Some (q, r)" using Some by (cases qr) auto
  then have "varint_dec (oct_to_vec (with_slice d)) = Some (q, r)" by simp
  then obtain b1 where b1: "get_varint (with_slice d) = (Inr q, b1)" "oct_to_vec b1 = r" "oct_wf b1"
    by (rule get_varint_Some) auto
  show ?thesis
  proof (cases "varint_dec r")
    case None
    then have "get_varint b1 = (Inl BufferTooShortError, b1)" using b1(2) by (simp add: get_varint_None)
    with None qr b1 show ?thesis by (simp add: decode_ip_datagram_def)
  next
    case (Some cp)
    obtain c pkt where cp: "varint_dec r = Some (c, pkt)" using Some by (cases cp) auto
    with b1(2) have "varint_dec (oct_to_vec b1) = Some (c, pkt)" by simp
    then obtain b2 where b2: "get_varint b1 = (Inr c, b2)" "oct_to_vec b2 = pkt"
      using b1(3) by (rule get_varint_Some) auto
    have "get_bytes (cap b2) b2 = (Inr (with_slice pkt), b2\<lparr>oct_off := oct_off b2 + cap b2\<rparr>)"
      using b2(2) by (simp add: get_bytes_enough cap_to_vec)
    with qr b1 cp b2 show ?thesis by (simp add: decode_ip_datagram_def)
  qed
qed

text \<open>
  An IP packet framed for HTTP/3 never makes the encoder fail or panic, whatever the stream id
  and the packet, and the receiver unframes exactly that packet when it expects a stream with
  the same quarter id, and ignores the datagram (without an error) for every other stream.
\<close>

lemma ip_datagram_roundtrip:
  "\<exists>d. encode_ip_datagram s pkt = Some (Inr d)
     \<and> decode_ip_datagram d s' =
         (if quarter_stream_id s' = quarter_stream_id s then Inr (Some pkt) else Inr None)"
proof (intro exI conjI)
  let ?d = "varint_enc (quarter_stream_id s) @ varint_enc CONNECT_IP_CONTEXT_ID @ pkt"
  show "encode_ip_datagram s pkt = Some (Inr ?d)" by (rule encode_ip_datagram_eq)
  show "decode_ip_datagram ?d s' =
      (if quarter_stream_id s' = quarter_stream_id s then Inr (Some pkt) else Inr None)"
    by (simp add: decode_ip_datagram_dec vi.dec_enc quarter_stream_id_ok context_id_ok)
qed

section \<open>Capsule framing\<close>

definition frame_enc :: "u64 \<times> bytes \<Rightarrow> bytes" where
  "frame_enc = (\<lambda>(kind, value). varint_enc kind @ varint_enc (of_nat (length value)) @ value)"

definition frame_ok :: "u64 \<times> bytes \<Rightarrow> bool" where
  "frame_ok = (\<lambda>(kind, value). varint_ok kind \<and> length value < 4611686018427387904)"

definition frame_dec :: "bytes \<Rightarrow> ((u64 \<times> bytes) \<times> bytes) option" where
  "frame_dec xs =
     (case varint_dec xs of
        None \<Rightarrow> None
      | Some (kind, r) \<Rightarrow>
          (case varint_dec r of
             None \<Rightarrow> None
           | Some (len, r) \<Rightarrow>
               if length r < unat len then None
               else Some ((kind, take (unat len) r), drop (unat len) r)))"

lemma frame_len_ok:
  assumes "length (value::bytes) < 4611686018427387904"
  shows "varint_ok (of_nat (length value))" "unat (of_nat (length value) :: u64) = length value"
proof -
  show u: "unat (of_nat (length value) :: u64) = length value"
    unfolding unat_of_nat_u64 using assms by (intro mod_less) linarith
  show "varint_ok (of_nat (length value))" unfolding varint_ok_iff u by (rule assms)
qed

lemma frame_dec_enc: "frame_ok f \<Longrightarrow> frame_dec (frame_enc f @ r) = Some (f, r)"
  by (cases f) (auto simp: frame_dec_def frame_enc_def frame_ok_def vi.dec_enc frame_len_ok)

lemma frame_dec_append:
  assumes "frame_dec xs = Some (f, r)"
  shows "frame_dec (xs @ ys) = Some (f, r @ ys)"
proof -
  obtain kind r1 len r2 where d: "varint_dec xs = Some (kind, r1)" "varint_dec r1 = Some (len, r2)"
      "\<not> length r2 < unat len" "f = (kind, take (unat len) r2)" "r = drop (unat len) r2"
    using assms by (auto simp: frame_dec_def split: option.splits prod.splits if_splits)
  from vi.dec_append [OF d(1)] vi.dec_append [OF d(2)] d(3-5) show ?thesis
    by (simp add: frame_dec_def)
qed

lemma frame_dec_shorter: "frame_dec xs = Some (f, r) \<Longrightarrow> length r < length xs"
  by (auto simp: frame_dec_def split: option.splits prod.splits if_splits dest!: vi.dec_shorter)

interpretation fr: prefix_codec frame_dec frame_enc frame_ok
  by unfold_locales (rule frame_dec_append frame_dec_shorter frame_dec_enc; assumption)+

lemma encode_capsule_frame:
  assumes "frame_ok (kind, value)"
  shows "encode_capsule kind value = Some (frame_enc (kind, value))"
proof -
  have ok: "varint_ok kind" "varint_ok (of_nat (length value))"
    using assms frame_len_ok(1) by (auto simp: frame_ok_def)
  let ?k = "varint_enc kind" and ?l = "varint_enc (of_nat (length value))"
  let ?b = "with_slice (replicate (length ?k + length ?l + length value) 0)"
  have cap: "cap ?b = length ?k + length ?l + length value" by (simp add: oct_defs)
  have w: "oct_wf (wrote ?k ?b)" "cap (wrote ?k ?b) = length ?l + length value"
    by (simp_all add: wrote_wf cap_wrote cap)
  have ww: "oct_wf (wrote ?l (wrote ?k ?b))" "cap (wrote ?l (wrote ?k ?b)) = length value"
    using w by (simp_all add: wrote_wf cap_wrote)
  have "wrote value (wrote ?l (wrote ?k ?b)) = wrote (?k @ ?l @ value) ?b"
    using cap by (simp add: wrote_wrote)
  then show ?thesis
    using cap w ww ok
    by (simp add: encode_capsule_def Let_def masque_varint_len_enc put_varint_wrote put_bytes_wrote
        wrote_all frame_enc_def)
qed

lemma capsule_next_frame:
  "capsule_next p =
     (case frame_dec (cp_buf p) of
        None \<Rightarrow> (Inr None, p)
      | Some ((kind, value), r) \<Rightarrow> (map_sum id Some (capsule_of kind value), p\<lparr>cp_buf := r\<rparr>))"
proof (cases "varint_dec (cp_buf p)")
  case None
  then show ?thesis by (simp add: capsule_next_def frame_dec_def get_varint_None)
next
  case (Some kr)
  obtain kind r1 where k: "varint_dec (cp_buf p) = Some (kind, r1)" using Some by (cases kr) auto
  then have "varint_dec (oct_to_vec (with_slice (cp_buf p))) = Some (kind, r1)" by simp
  then obtain b1 where b1: "get_varint (with_slice (cp_buf p)) = (Inr kind, b1)" "oct_to_vec b1 = r1"
      "oct_buf b1 = cp_buf p" "oct_wf b1"
    by (rule get_varint_Some) (auto simp: with_slice_def oct_wf_def)
  show ?thesis
  proof (cases "varint_dec r1")
    case None
    then have "get_varint b1 = (Inl BufferTooShortError, b1)" using b1(2) by (simp add: get_varint_None)
    with None k b1 show ?thesis by (simp add: capsule_next_def frame_dec_def)
  next
    case (Some lr)
    obtain len r2 where l: "varint_dec r1 = Some (len, r2)" using Some by (cases lr) auto
    with b1(2) have "varint_dec (oct_to_vec b1) = Some (len, r2)" by simp
    then obtain b2 where b2: "get_varint b1 = (Inr len, b2)" "oct_to_vec b2 = r2"
        "oct_buf b2 = oct_buf b1"
      using b1(4) by (rule get_varint_Some) auto
    note b2(3) [unfolded b1(3)]
    show ?thesis
    proof (cases "length r2 < unat len")
      case True
      with k l b1 b2 show ?thesis by (simp add: capsule_next_def frame_dec_def cap_to_vec)
    next
      case False
      have "drop (oct_off b2 + unat len) (cp_buf p) = drop (unat len) r2"
        using b2(2,3) b1(3) by (auto simp: oct_to_vec_def add.commute)
      with False k l b1 b2 show ?thesis
        by (simp add: capsule_next_def frame_dec_def cap_to_vec get_bytes_enough)
    qed
  qed
qed

section \<open>Reassembly and delivery\<close>

text \<open>The states a parser can be in: every push and every \<open>next\<close>, in any order.\<close>

inductive parser_reach :: "capsule_parser \<Rightarrow> bool" where
  new: "parser_reach capsule_parser_new"
| push: "parser_reach p \<Longrightarrow> parser_reach (capsule_push data p)"
| next_step: "parser_reach p \<Longrightarrow> parser_reach (snd (capsule_next p))"

lemma capsule_next_le: "length (cp_buf (snd (capsule_next p))) \<le> length (cp_buf p)"
  by (auto simp: capsule_next_frame dest: fr.dec_shorter split: option.splits prod.splits)

text \<open>
  C3: in every state that any sequence of pushes and \<open>next\<close> calls can produce, whatever bytes the
  gateway streams, the reassembly buffer holds at most \<open>MAX_CAPSULE_BUF\<close> bytes.
\<close>

theorem capsule_buffer_bounded:
  assumes "parser_reach p"
  shows "length (cp_buf p) \<le> MAX_CAPSULE_BUF"
  using assms
proof (induction rule: parser_reach.induct)
  case new
  show ?case by (simp add: capsule_parser_new_def)
next
  case (push p data)
  then show ?case by (simp add: capsule_push_def)
next
  case (next_step p)
  with capsule_next_le [of p] show ?case by linarith
qed

theorem capsule_buffer_bounded_witness:
  "length (cp_buf (capsule_push [0, 2, 7] capsule_parser_new)) \<le> MAX_CAPSULE_BUF"
  by (intro capsule_buffer_bounded parser_reach.push parser_reach.new)

text \<open>The effect of one frame on the two channels.\<close>

definition deliver_frame ::
  "('c, bytes) sender \<Rightarrow> ('a, assigned_addr) sender option \<Rightarrow> u64 \<times> bytes \<Rightarrow> 'c \<times> 'a \<Rightarrow> 'c \<times> 'a" where
  "deliver_frame tx atx f s =
     (case capsule_of (fst f) (snd f) of
        Inr (Datagram payload) \<Rightarrow>
          (case strip_datagram_context payload of
             Some (Some pkt) \<Rightarrow> (snd (tx (fst s) pkt), snd s)
           | _ \<Rightarrow> s)
      | Inr (AddressAssign addrs) \<Rightarrow> (fst s, send_addrs atx (snd s) addrs)
      | _ \<Rightarrow> s)"

lemma strip_total: "\<exists>r. strip_datagram_context payload = Some r"
  by (auto simp: strip_datagram_context_def Let_def slice_from_in split: sum.split prod.split)

lemma strip_datagram_context_dec:
  "strip_datagram_context payload =
     Some (case varint_dec payload of
             Some (c, inner) \<Rightarrow>
               if c = CONNECT_IP_CONTEXT_ID \<and> looks_like_ip_packet inner then Some inner
               else if looks_like_ip_packet payload then Some payload else None
           | None \<Rightarrow> if looks_like_ip_packet payload then Some payload else None)"
proof (cases "varint_dec payload")
  case None
  then show ?thesis
    by (auto simp: strip_datagram_context_def get_varint_None looks_like_ip_packet_def Let_def)
next
  case (Some cr)
  obtain c r where c: "varint_dec payload = Some (c, r)" using Some by (cases cr) auto
  then obtain n where n: "r = drop n payload" "n \<le> length payload"
    by (auto simp: varint_dec_split dest: varint_split_bounds)
  from c have "varint_dec (oct_to_vec (with_slice payload)) = Some (c, r)" by simp
  then obtain b where b: "get_varint (with_slice payload) = (Inr c, b)" "oct_to_vec b = r"
    by (rule get_varint_Some) auto
  have "payload \<noteq> []" using c by (auto simp: vi.dec_Nil)
  moreover have "slice_from payload (length payload - cap b) = Some r"
    using n b(2) by (simp add: slice_from_in cap_to_vec)
  ultimately show ?thesis
    using c b by (auto simp: strip_datagram_context_def Let_def)
qed

text \<open>A well-formed IP packet: version 4 with a header of at least five words, or version 6.\<close>

definition ip_packet_ok :: "bytes \<Rightarrow> bool" where
  "ip_packet_ok pkt \<longleftrightarrow> 20 \<le> length pkt \<and> pkt \<noteq> [] \<and>
     (69 \<le> unat (hd pkt) \<and> unat (hd pkt) < 80 \<or> 96 \<le> unat (hd pkt) \<and> unat (hd pkt) < 112)"

lemma ip_packet_ok_looks: "ip_packet_ok pkt \<Longrightarrow> looks_like_ip_packet pkt"
proof -
  assume "ip_packet_ok pkt"
  then obtain f r where f: "pkt = f # r" "20 \<le> length pkt"
    "69 \<le> unat f \<and> unat f < 80 \<or> 96 \<le> unat f \<and> unat f < 112"
    by (cases pkt) (auto simp: ip_packet_ok_def)
  have "unat (drop_bit 4 f) = unat f div 16" by (simp only: unat_drop_bit_u8) simp
  with f(3) have "unat (drop_bit 4 f) = 4 \<or> unat (drop_bit 4 f) = 6" by linarith
  then have "drop_bit 4 f = 4 \<or> drop_bit 4 f = 6" by (simp only: word_unat_eq_iff) simp
  with f show ?thesis by (simp add: looks_like_ip_packet_def)
qed

lemma ip_packet_ok_context:
  assumes "ip_packet_ok pkt" and "varint_dec pkt = Some (c, r)"
  shows "c \<noteq> CONNECT_IP_CONTEXT_ID"
proof -
  obtain f q where f: "pkt = f # q" "20 \<le> length pkt"
    "69 \<le> unat f \<and> unat f < 80 \<or> 96 \<le> unat f \<and> unat f < 112"
    using assms(1) by (cases pkt) (auto simp: ip_packet_ok_def)
  then have n: "varint_parse_len f = 2" by (auto simp: varint_parse_len_eq)
  obtain g q' where g: "q = g # q'" using f(1,2) by (cases q) auto
  have "varint_split pkt = Some ((unat f * 256 + unat g) mod 16384, 2)"
    using f g n by (simp add: varint_split_def Let_def)
  then have "c = of_nat ((unat f * 256 + unat g) mod 16384)"
    using assms(2) by (simp add: varint_dec_split del: of_nat_mod)
  then have c: "unat c = (unat f * 256 + unat g) mod 16384"
    by (simp del: of_nat_mod)
  have "(unat f * 256 + unat g) mod 16384 = (unat f - 64) * 256 + unat g"
  proof -
    have "unat f * 256 + unat g = (unat f - 64) * 256 + unat g + 16384" using f(3) by auto
    moreover have "(unat f - 64) * 256 + unat g < 16384"
      using f(3) unat_u8_less [of g] by linarith
    ultimately show ?thesis by (simp only: mod_add_self2 mod_less)
  qed
  then have "unat c \<noteq> 0" using c f(3) by auto
  then show ?thesis by (auto simp: CONNECT_IP_CONTEXT_ID_def)
qed

lemma strip_bare: "ip_packet_ok pkt \<Longrightarrow> strip_datagram_context pkt = Some (Some pkt)"
  by (auto simp: strip_datagram_context_dec ip_packet_ok_looks dest: ip_packet_ok_context
      split: option.split prod.split)

text \<open>
  The payload of a datagram capsule is unwrapped without a panic whatever the gateway sends;
  a well-formed IP packet comes out unchanged whether it is sent bare, as the Cloudflare edge does,
  or behind a context id of 0 in its one-byte form; and whatever is delivered looks like an IP
  packet and is a suffix of the payload.
\<close>

lemma strip_datagram_context_correct:
  "(ip_packet_ok pkt \<longrightarrow>
      strip_datagram_context pkt = Some (Some pkt) \<and> strip_datagram_context (0 # pkt) = Some (Some pkt))
   \<and> (\<exists>r. strip_datagram_context payload = Some r
        \<and> (\<forall>out. r = Some out \<longrightarrow> looks_like_ip_packet out \<and> (\<exists>pre. payload = pre @ out)))"
proof (intro conjI impI)
  assume ok: "ip_packet_ok pkt"
  then show "strip_datagram_context pkt = Some (Some pkt)" by (rule strip_bare)
  have "varint_enc 0 = [0]" by (simp add: varint_enc_def)
  with vi.dec_enc [of 0 pkt] have "varint_dec (0 # pkt) = Some (0, pkt)"
    by (simp add: varint_ok_iff)
  then show "strip_datagram_context (0 # pkt) = Some (Some pkt)"
    using ok by (simp add: strip_datagram_context_dec CONNECT_IP_CONTEXT_ID_def ip_packet_ok_looks)
next
  have "\<exists>pre. payload = pre @ inner" if "varint_dec payload = Some (c, inner)" for c inner
  proof -
    from that obtain n where "inner = drop n payload" by (auto simp: varint_dec_split)
    then show ?thesis by (metis append_take_drop_id)
  qed
  then show "\<exists>r. strip_datagram_context payload = Some r
        \<and> (\<forall>out. r = Some out \<longrightarrow> looks_like_ip_packet out \<and> (\<exists>pre. payload = pre @ out))"
    by (auto simp: strip_datagram_context_dec split: option.split prod.split if_splits)
qed

lemma strip_datagram_context_witness:
  "strip_datagram_context (0 # 69 # replicate 19 0) = Some (Some (69 # replicate 19 0))"
  using strip_datagram_context_correct [of "69 # replicate 19 0" "[]"] by (simp add: ip_packet_ok_def)

subsection \<open>The draining loop as a fold over the frames\<close>

text \<open>The receiving end of the channel stays open: \<open>try_send\<close> succeeds or finds the queue full.\<close>

definition open_sender :: "('c, 'x) sender \<Rightarrow> bool" where
  "open_sender tx \<longleftrightarrow> (\<forall>c x. fst (tx c x) \<noteq> SendClosed)"

lemma drain_h2_none:
  "frame_dec (cp_buf p) = None \<Longrightarrow> drain_capsules_h2 tx atx p ic ac d = Some (d, p, ic, ac)"
  by (simp add: drain_capsules_h2.simps [of tx atx p] capsule_next_frame)

lemma drain_h2_step:
  assumes "frame_dec (cp_buf p) = Some (f, r)" and "capsule_of (fst f) (snd f) = Inr cap'"
    and "open_sender tx"
  shows "\<exists>d'. drain_capsules_h2 tx atx p ic ac d =
     (case deliver_frame tx atx f (ic, ac) of (ic', ac') \<Rightarrow> drain_capsules_h2 tx atx (p\<lparr>cp_buf := r\<rparr>) ic' ac' d')"
proof -
  have nx: "capsule_next p = (Inr (Some cap'), p\<lparr>cp_buf := r\<rparr>)"
    using assms(1,2) by (cases f) (simp add: capsule_next_frame)
  show ?thesis
  proof (cases cap')
    case (Datagram payload)
    obtain r' where r': "strip_datagram_context payload = Some r'" using strip_total by blast
    show ?thesis
    proof (cases r')
      case None
      then show ?thesis
        using nx Datagram r' assms(2)
        by (intro exI [of _ d]) (simp add: drain_capsules_h2.simps [of tx atx p] deliver_frame_def)
    next
      case (Some pkt)
      have "fst (tx ic pkt) \<noteq> SendClosed" using assms(3) by (simp add: open_sender_def)
      then show ?thesis
        using nx Datagram r' assms(2) Some
        by (intro exI [of _ True])
          (cases "tx ic pkt"; cases "fst (tx ic pkt)";
            simp add: drain_capsules_h2.simps [of tx atx p] deliver_frame_def)
    qed
  qed (use nx assms(2) in \<open>auto intro!: exI [of _ d]
        simp: drain_capsules_h2.simps [of tx atx p] deliver_frame_def\<close>)
qed

lemma drain_h2_fold:
  assumes "decode_all frame_dec (cp_buf p) = (fs, r)"
    and "\<forall>f\<in>set fs. \<exists>c. capsule_of (fst f) (snd f) = Inr c"
    and "open_sender tx"
  shows "\<exists>d'. drain_capsules_h2 tx atx p ic ac d =
     Some (d', p\<lparr>cp_buf := r\<rparr>, fold (deliver_frame tx atx) fs (ic, ac))"
  using assms(1,2)
proof (induction fs arbitrary: p ic ac d)
  case Nil
  have "frame_dec (cp_buf p) = None"
    using Nil.prems(1) by (cases "frame_dec (cp_buf p)")
      (auto simp: fr.decode_all_Some split: prod.splits)
  moreover from this have "r = cp_buf p" using Nil.prems(1) by (simp add: fr.decode_all_None)
  ultimately show ?case by (simp add: drain_h2_none)
next
  case (Cons f fs)
  obtain r1 where f: "frame_dec (cp_buf p) = Some (f, r1)" and rest: "decode_all frame_dec r1 = (fs, r)"
    using Cons.prems(1) by (cases "frame_dec (cp_buf p)")
      (auto simp: fr.decode_all_Some fr.decode_all_None split: prod.splits)
  obtain c where c: "capsule_of (fst f) (snd f) = Inr c" using Cons.prems(2) by auto
  obtain d1 where d1: "drain_capsules_h2 tx atx p ic ac d =
     (case deliver_frame tx atx f (ic, ac) of (ic', ac') \<Rightarrow>
        drain_capsules_h2 tx atx (p\<lparr>cp_buf := r1\<rparr>) ic' ac' d1)"
    using drain_h2_step [OF f c assms(3), of atx ic ac d] by (elim exE) (rule that)
  obtain ic' ac' where s: "deliver_frame tx atx f (ic, ac) = (ic', ac')" by fastforce
  obtain d' where "drain_capsules_h2 tx atx (p\<lparr>cp_buf := r1\<rparr>) ic' ac' d1 =
     Some (d', p\<lparr>cp_buf := r\<rparr>, fold (deliver_frame tx atx) fs (ic', ac'))"
    using Cons.IH [of "p\<lparr>cp_buf := r1\<rparr>" ic' ac' d1] rest Cons.prems(2) by auto
  with d1 s show ?case by auto
qed

text \<open>
  What is left in the buffer after draining is a proper prefix of the next frame, so a push
  never overflows when a frame and a chunk fit into the buffer together.
\<close>

lemma receive_chunks_fold:
  assumes "frame_dec (cp_buf p) = None"
    and "cp_buf p @ concat cs = concat (map frame_enc fs)"
    and "\<forall>f\<in>set fs. frame_ok f \<and> (\<exists>c. capsule_of (fst f) (snd f) = Inr c)"
    and "\<forall>f\<in>set fs. \<forall>c\<in>set cs. length (frame_enc f) + length c \<le> MAX_CAPSULE_BUF"
    and "\<forall>c\<in>set cs. length c \<le> MAX_CAPSULE_BUF"
    and "open_sender tx"
  shows "receive_chunks_h2 tx atx cs p ic ac =
     Some (p\<lparr>cp_buf := []\<rparr>, fold (deliver_frame tx atx) fs (ic, ac))"
  using assms(1-5)
proof (induction cs arbitrary: p fs ic ac)
  case Nil
  then have "decode_all frame_dec (cp_buf p) = (fs, [])"
    using fr.decode_all_enc [of fs "[]"] fr.dec_Nil by auto
  then have "fs = []" "cp_buf p = []"
    using Nil.prems(1) by (simp_all add: fr.decode_all_None)
  then show ?case by simp
next
  case (Cons c cs)
  have ok: "\<forall>f\<in>set fs. frame_ok f" using Cons.prems(3) by blast
  have room: "length (cp_buf p) + length c \<le> MAX_CAPSULE_BUF"
  proof (cases "cp_buf p = []")
    case False
    then obtain f where "f \<in> set fs" "length (cp_buf p) < length (frame_enc f)"
      using fr.undecoded_shorter [OF Cons.prems(1,2) ok] by blast
    with Cons.prems(4) show ?thesis by fastforce
  qed (use Cons.prems(5) in simp)
  let ?p = "capsule_push c p"
  have push: "cp_buf ?p = cp_buf p @ c" using room by (simp add: capsule_push_def)
  obtain gs r where d: "decode_all frame_dec (cp_buf ?p) = (gs, r)" by fastforce
  obtain hs where hs: "fs = gs @ hs" "r @ concat cs = concat (map frame_enc hs)"
    using fr.decode_all_prefix [OF ok _ d, of "concat cs"] Cons.prems(2) push by auto
  obtain ic' ac' where s: "fold (deliver_frame tx atx) gs (ic, ac) = (ic', ac')" by fastforce
  obtain d' where dr: "drain_capsules_h2 tx atx ?p ic ac False = Some (d', ?p\<lparr>cp_buf := r\<rparr>, ic', ac')"
    using drain_h2_fold [OF d _ assms(6), of atx ic ac False] Cons.prems(3) hs(1) s by auto
  have "receive_chunks_h2 tx atx cs (?p\<lparr>cp_buf := r\<rparr>) ic' ac' =
      Some (?p\<lparr>cp_buf := r\<rparr>\<lparr>cp_buf := []\<rparr>, fold (deliver_frame tx atx) hs (ic', ac'))"
    using Cons.prems(3-5) hs fr.decode_all_rest [OF d] by (intro Cons.IH) auto
  with dr s hs(1) show ?case by (simp add: capsule_push_def)
qed

lemma datagram_frame:
  assumes "length pkt \<le> 65535"
  shows "frame_ok (CAPSULE_DATAGRAM, pkt)"
    and "encode_datagram_capsule pkt = Some (frame_enc (CAPSULE_DATAGRAM, pkt))"
    and "length (frame_enc (CAPSULE_DATAGRAM, pkt)) \<le> 65540"
proof -
  show ok: "frame_ok (CAPSULE_DATAGRAM, pkt)"
    using assms by (simp add: frame_ok_def varint_ok_iff capsule_kinds)
  show "encode_datagram_capsule pkt = Some (frame_enc (CAPSULE_DATAGRAM, pkt))"
    unfolding encode_datagram_capsule_def by (rule encode_capsule_frame [OF ok])
  have "unat (of_nat (length pkt) :: u64) = length pkt"
    using assms by (intro frame_len_ok(2)) simp
  then have "length (varint_enc (of_nat (length pkt))) \<le> 4"
    using assms by (simp add: varint_enc_def)
  then show "length (frame_enc (CAPSULE_DATAGRAM, pkt)) \<le> 65540"
    using assms by (simp add: frame_enc_def varint_enc_def capsule_kinds)
qed

lemma capsule_of_datagram: "capsule_of CAPSULE_DATAGRAM pkt = Inr (Datagram pkt)"
  by (simp add: capsule_of_def capsule_kinds)

lemma deliver_datagrams:
  "\<forall>p\<in>set pkts. ip_packet_ok p \<Longrightarrow>
     fold (deliver_frame tx atx) (map (Pair CAPSULE_DATAGRAM) pkts) (ic, ac)
       = (foldl (\<lambda>c p. snd (tx c p)) ic pkts, ac)"
  by (induction pkts arbitrary: ic) (simp_all add: deliver_frame_def capsule_of_datagram strip_bare)

text \<open>
  C5: end to end over HTTP/2. Any sequence of well-formed IP packets of at most 65535 bytes, each
  framed by \<open>encode_datagram_capsule\<close>, is delivered to the inbound channel complete, in order and
  unmodified, and leaves the parser empty, however the byte stream is cut into chunks of at most
  196604 bytes (so that a whole frame and a chunk fit into the buffer), as long as the receiving
  side of the channel is open. The channel itself is arbitrary.
\<close>

theorem h2_delivers_every_packet:
  assumes "\<forall>p\<in>set pkts. ip_packet_ok p \<and> length p \<le> 65535"
    and "map encode_datagram_capsule pkts = map Some frames" and "concat cs = concat frames"
    and "\<forall>c\<in>set cs. length c \<le> 196604"
    and "open_sender tx"
  shows "receive_chunks_h2 tx atx cs capsule_parser_new ic ac =
     Some (capsule_parser_new, foldl (\<lambda>c p. snd (tx c p)) ic pkts, ac)"
proof -
  let ?fs = "map (Pair CAPSULE_DATAGRAM) pkts"
  have "map Some frames = map Some (map frame_enc ?fs)"
    unfolding assms(2) [symmetric] using assms(1) datagram_frame(2) by simp
  then have frames: "frames = map frame_enc ?fs"
    by (rule map_injective) simp
  have "receive_chunks_h2 tx atx cs capsule_parser_new ic ac =
      Some (capsule_parser_new\<lparr>cp_buf := []\<rparr>, fold (deliver_frame tx atx) ?fs (ic, ac))"
  proof (rule receive_chunks_fold [OF _ _ _ _ _ assms(5)])
    show "frame_dec (cp_buf capsule_parser_new) = None"
      by (simp add: capsule_parser_new_def fr.dec_Nil)
    show "cp_buf capsule_parser_new @ concat cs = concat (map frame_enc ?fs)"
      using assms(3) frames by (simp add: capsule_parser_new_def)
    show "\<forall>f\<in>set ?fs. frame_ok f \<and> (\<exists>c. capsule_of (fst f) (snd f) = Inr c)"
      using assms(1) datagram_frame(1) by (auto simp: capsule_of_datagram)
    show "\<forall>f\<in>set ?fs. \<forall>c\<in>set cs. length (frame_enc f) + length c \<le> MAX_CAPSULE_BUF"
      using assms(1,4) datagram_frame(3) by (fastforce simp: MAX_CAPSULE_BUF_def)
    show "\<forall>c\<in>set cs. length c \<le> MAX_CAPSULE_BUF"
      using assms(4) by (auto simp: MAX_CAPSULE_BUF_def)
  qed
  then show ?thesis
    using assms(1) by (simp add: deliver_datagrams capsule_parser_new_def)
qed

theorem h2_delivers_every_packet_witness:
  "\<exists>a b. concat [a, b] = 0 # 20 # 69 # replicate 19 0 \<and>
     receive_chunks_h2 (\<lambda>q x. (SendOk, q @ [x])) (None :: (unit, assigned_addr) sender option) [a, b]
       capsule_parser_new [] () =
     Some (capsule_parser_new, [69 # replicate 19 0], ())"
proof -
  let ?pkt = "69 # replicate 19 (0::u8)"
  have "encode_datagram_capsule ?pkt = Some (0 # 20 # ?pkt)"
    using datagram_frame(2) [of ?pkt] by (simp add: frame_enc_def varint_enc_def capsule_kinds)
  then have "receive_chunks_h2 (\<lambda>q x. (SendOk, q @ [x])) (None :: (unit, assigned_addr) sender option)
       [[0, 20, 69], replicate 19 0] capsule_parser_new [] () =
     Some (capsule_parser_new, foldl (\<lambda>c p. snd (SendOk, c @ [p])) [] [?pkt], ())"
    by (intro h2_delivers_every_packet [where frames = "[0 # 20 # ?pkt]"])
      (simp_all add: ip_packet_ok_def open_sender_def)
  then show ?thesis by (intro exI [of _ "[0, 20, 69]"] exI [of _ "replicate 19 0"]) simp
qed

section \<open>Address assignments\<close>

definition entry_enc :: "assigned_address \<Rightarrow> bytes" where
  "entry_enc a = varint_enc (aa_request_id a) @ [aa_ip_version a] @ aa_address a @ [aa_prefix_len a]"

definition entry_ok :: "assigned_address \<Rightarrow> bool" where
  "entry_ok a \<longleftrightarrow> varint_ok (aa_request_id a) \<and>
     (aa_ip_version a = 4 \<and> length (aa_address a) = 4 \<or> aa_ip_version a = 6 \<and> length (aa_address a) = 16)"

lemma get_u8_Cons:
  assumes "oct_to_vec b = x # r"
  shows "get_u8 b = (Inr x, b\<lparr>oct_off := oct_off b + 1\<rparr>)"
    and "oct_to_vec (b\<lparr>oct_off := oct_off b + 1\<rparr>) = r"
proof -
  show "get_u8 b = (Inr x, b\<lparr>oct_off := oct_off b + 1\<rparr>)"
    using assms by (simp add: get_u8_def get_u_to_vec map_res_def)
  show "oct_to_vec (b\<lparr>oct_off := oct_off b + 1\<rparr>) = r"
    using assms by (simp add: oct_to_vec_def) (metis drop_Suc tl_drop list.sel(3))
qed

lemma oct_to_vec_skip: "oct_to_vec (b\<lparr>oct_off := oct_off b + n\<rparr>) = drop n (oct_to_vec b)"
  by (simp add: oct_to_vec_def add.commute)

lemma oct_wf_skip: "oct_wf b \<Longrightarrow> n \<le> length (oct_to_vec b) \<Longrightarrow> oct_wf (b\<lparr>oct_off := oct_off b + n\<rparr>)"
  by (auto simp: oct_defs)

lemma address_assign_step:
  assumes "entry_ok a" and "oct_wf b" and "oct_to_vec b = entry_enc a @ r"
  obtains b' where "address_assign_loop b out = address_assign_loop b' (out @ [a])"
    and "oct_to_vec b' = r" and "oct_wf b'"
proof -
  obtain len where len: "addr_len_of (aa_ip_version a) = Inr len" "length (aa_address a) = len"
    using assms(1) by (auto simp: entry_ok_def addr_len_of_def)
  have "varint_dec (oct_to_vec b) = Some (aa_request_id a, aa_ip_version a # aa_address a @ aa_prefix_len a # r)"
    using assms(1,3) by (simp add: entry_enc_def entry_ok_def vi.dec_enc)
  then obtain b1 where b1: "get_varint b = (Inr (aa_request_id a), b1)"
      "oct_to_vec b1 = aa_ip_version a # aa_address a @ aa_prefix_len a # r" "oct_wf b1"
    using assms(2) by (rule get_varint_Some) auto
  let ?b2 = "b1\<lparr>oct_off := oct_off b1 + 1\<rparr>"
  have b2: "get_u8 b1 = (Inr (aa_ip_version a), ?b2)" "oct_to_vec ?b2 = aa_address a @ aa_prefix_len a # r"
      "oct_wf ?b2"
    using get_u8_Cons [OF b1(2)] oct_wf_skip [OF b1(3), of 1] b1(2) by simp_all
  let ?b3 = "?b2\<lparr>oct_off := oct_off ?b2 + len\<rparr>"
  have b3: "get_bytes len ?b2 = (Inr (with_slice (aa_address a)), ?b3)"
    using len(2) b2(2) get_bytes_enough [of len ?b2] by (simp add: cap_to_vec)
  have v3: "oct_to_vec ?b3 = aa_prefix_len a # r"
    using len(2) b2(2) oct_to_vec_skip [of ?b2 len] by simp
  have w3: "oct_wf ?b3" using oct_wf_skip [OF b2(3), of len] len(2) b2(2) by simp
  let ?b4 = "?b3\<lparr>oct_off := oct_off ?b3 + 1\<rparr>"
  have b4: "get_u8 ?b3 = (Inr (aa_prefix_len a), ?b4)" "oct_to_vec ?b4 = r" "oct_wf ?b4"
    using get_u8_Cons [OF v3] oct_wf_skip [OF w3, of 1] v3 by simp_all
  have "cap b > 0" using assms(3) by (simp add: cap_to_vec entry_enc_def)
  then have "address_assign_loop b out = address_assign_loop ?b4 (out @ [a])"
    using b1(1) b2(1) len(1) b3 b4(1) by (subst address_assign_loop.simps) (cases a, simp)
  then show thesis using b4(2,3) by (rule that)
qed

lemma address_assign_loop_enc:
  "\<forall>a\<in>set as. entry_ok a \<Longrightarrow> oct_wf b \<Longrightarrow> oct_to_vec b = concat (map entry_enc as) \<Longrightarrow>
     address_assign_loop b out = Inr (out @ as)"
proof (induction as arbitrary: b out)
  case Nil
  then show ?case by (subst address_assign_loop.simps) (simp add: cap_to_vec)
next
  case (Cons a as)
  then have "entry_ok a" "oct_to_vec b = entry_enc a @ concat (map entry_enc as)" by simp_all
  then obtain b' where "address_assign_loop b out = address_assign_loop b' (out @ [a])"
      "oct_to_vec b' = concat (map entry_enc as)" "oct_wf b'"
    using address_assign_step Cons.prems(2) by metis
  with Cons.IH [of b' "out @ [a]"] Cons.prems(1) show ?case by simp
qed

text \<open>
  An ADDRESS_ASSIGN capsule that carries any list of well-formed assignments is parsed back into
  exactly that list, and the parser turns the capsule as it arrives from the wire into it.
\<close>

lemma address_assign_roundtrip:
  assumes "\<forall>a\<in>set as. entry_ok a" and "length (concat (map entry_enc as)) < 4611686018427387904"
    and "encode_capsule CAPSULE_ADDRESS_ASSIGN (concat (map entry_enc as)) = Some wire"
  shows "parse_address_assign (concat (map entry_enc as)) = Inr as
     \<and> capsule_next \<lparr>cp_buf = wire @ rest\<rparr> = (Inr (Some (AddressAssign as)), \<lparr>cp_buf = rest\<rparr>)"
proof -
  let ?v = "concat (map entry_enc as)"
  have parse: "parse_address_assign ?v = Inr as"
    unfolding parse_address_assign_def using address_assign_loop_enc [OF assms(1), of "with_slice ?v" "[]"]
    by simp
  have ok: "frame_ok (CAPSULE_ADDRESS_ASSIGN, ?v)"
    using assms(2) by (simp add: frame_ok_def varint_ok_iff capsule_kinds)
  then have "wire = frame_enc (CAPSULE_ADDRESS_ASSIGN, ?v)"
    using assms(3) encode_capsule_frame by simp
  with ok have "frame_dec (wire @ rest) = Some ((CAPSULE_ADDRESS_ASSIGN, ?v), rest)"
    by (simp add: fr.dec_enc)
  with parse show ?thesis by (simp add: capsule_next_frame capsule_of_def)
qed

lemma address_assign_roundtrip_witness:
  "parse_address_assign [1, 4, 172, 16, 0, 2, 32] =
     Inr [\<lparr>aa_request_id = 1, aa_ip_version = 4, aa_address = [172, 16, 0, 2], aa_prefix_len = 32\<rparr>]"
proof -
  let ?a = "\<lparr>aa_request_id = 1, aa_ip_version = 4, aa_address = [172, 16, 0, 2], aa_prefix_len = 32\<rparr>"
  have e: "concat (map entry_enc [?a]) = [1, 4, 172, 16, 0, 2, 32]"
    by (simp add: entry_enc_def varint_enc_def)
  have "frame_ok (CAPSULE_ADDRESS_ASSIGN, [1, 4, 172, 16, 0, 2, 32])"
    by (simp add: frame_ok_def varint_ok_iff capsule_kinds)
  note wire = encode_capsule_frame [OF this]
  show ?thesis
    using address_assign_roundtrip [of "[?a]", unfolded e, OF _ _ wire]
    by (simp add: entry_ok_def varint_ok_iff)
qed

end
