(* ===== verification/Dns.thy ===== *)
theory Dns
  imports Text Net
begin

text \<open>
  The hand-written DNS code of the core: the bootstrap resolver of \<open>dns.rs\<close> (HTTPS records with
  ECH parameters), the in-tunnel resolver of \<open>socks.rs\<close> (A records) and the message functions of
  \<open>smart_dns.rs\<close>. Random transaction ids are arguments. Message parsers index byte slices, so they
  return a value of type \<open>rust\<close>; the theorems show that no input makes them panic, that a reply is
  accepted exactly when it answers the question that was asked, and what the parsers extract.
\<close>

section \<open>Queries\<close>

definition RR_HTTPS :: u16 where "RR_HTTPS = 65"
definition SVCPARAM_ECH :: u16 where "SVCPARAM_ECH = 5"
definition QTYPE_A :: u16 where "QTYPE_A = 1"

definition enc_label :: "string \<Rightarrow> bytes" where
  "enc_label l = of_nat (length l) # as_bytes l"

definition query_header :: "u16 \<Rightarrow> bytes" where
  "query_header xid = u16_bytes xid @ [0x01, 0x00] @ [0x00, 0x01] @ [0x00, 0x00, 0x00, 0x00, 0x00, 0x00]"

text \<open>\<open>dns.rs\<close>: empty labels are skipped.\<close>

definition build_query :: "u16 \<Rightarrow> string \<Rightarrow> u16 \<Rightarrow> bytes \<times> u16" where
  "build_query xid name qtype =
     (query_header xid
        @ concat (map (\<lambda>label. if label = [] then [] else enc_label label) (split_char CHR ''.'' name))
        @ [0x00] @ u16_bytes qtype @ [0x00, 0x01], xid)"

text \<open>\<open>socks.rs\<close>: every label is written, the empty ones too.\<close>

definition build_dns_query :: "u16 \<Rightarrow> string \<Rightarrow> u16 \<Rightarrow> bytes \<times> u16" where
  "build_dns_query xid name qtype =
     (query_header xid @ concat (map enc_label (split_char CHR ''.'' name))
        @ [0x00] @ u16_bytes qtype @ [0x00, 0x01], xid)"

text \<open>\<open>smart_dns.rs\<close> has its own copy of the first form.\<close>

definition smart_build_query :: "u16 \<Rightarrow> string \<Rightarrow> u16 \<Rightarrow> bytes \<times> u16" where
  "smart_build_query xid name qtype =
     (query_header xid
        @ concat (map (\<lambda>label. if label = [] then [] else enc_label label) (split_char CHR ''.'' name))
        @ [0x00] @ u16_bytes qtype @ [0x00, 0x01], xid)"

section \<open>Matching a reply against the question\<close>

text \<open>
  The loop over the labels of the expected name. The inner option is the early \<open>return false\<close>,
  the outer one a panic of the slice expression.
\<close>

fun match_labels :: "bytes \<Rightarrow> nat \<Rightarrow> string list \<Rightarrow> nat option rust" where
  "match_labels msg pos [] = Some (Some pos)"
| "match_labels msg pos (label # ls) =
     (if label = [] then match_labels msg pos ls
      else (case get_at msg pos of
              None \<Rightarrow> Some None
            | Some v \<Rightarrow>
                let len = unat v in
                if len \<noteq> length label then Some None
                else let pos = pos + 1; end' = pos + len in
                if end' \<le> length msg then
                  (case slice_of msg pos end' of
                     None \<Rightarrow> None
                   | Some s \<Rightarrow>
                       if eq_ignore_ascii_case s (as_bytes label) then match_labels msg end' ls
                       else Some None)
                else Some None))"

definition header_matches :: "bytes \<Rightarrow> u16 \<Rightarrow> bool rust" where
  "header_matches msg expected_id = do {
     i \<leftarrow> field16 msg 0;
     if i \<noteq> expected_id then Some False else do {
       flags \<leftarrow> idx msg 2;
       if flags AND 0x80 = 0 then Some False else do {
         qd \<leftarrow> field16 msg 4;
         Some (qd = 1) } } }"

definition response_matches :: "bytes \<Rightarrow> u16 \<Rightarrow> string \<Rightarrow> u16 \<Rightarrow> bool rust" where
  "response_matches msg expected_id expected_name expected_qtype =
     (if length msg < 12 then Some False
      else do {
        h \<leftarrow> header_matches msg expected_id;
        if \<not> h then Some False else do {
          m \<leftarrow> match_labels msg 12 (split_char CHR ''.'' expected_name);
          case m of
            None \<Rightarrow> Some False
          | Some pos \<Rightarrow>
              if get_at msg pos \<noteq> Some 0 then Some False
              else let pos = pos + 1 in
              if pos + 4 > length msg then Some False
              else do { t \<leftarrow> field16 msg pos; Some (t = expected_qtype) } } })"

text \<open>\<open>socks.rs\<close> has a copy of the same function under another name.\<close>

definition dns_response_matches :: "bytes \<Rightarrow> u16 \<Rightarrow> string \<Rightarrow> u16 \<Rightarrow> bool rust" where
  "dns_response_matches resp expected_id expected_name expected_qtype =
     response_matches resp expected_id expected_name expected_qtype"

text \<open>
  The copy in \<open>smart_dns.rs\<close> does not check the terminating zero of the name and reads the type
  two bytes after the end of the labels instead of one.
\<close>

definition smart_response_matches :: "bytes \<Rightarrow> u16 \<Rightarrow> string \<Rightarrow> u16 \<Rightarrow> bool rust" where
  "smart_response_matches resp expected_id expected_name expected_qtype =
     (if length resp < 12 then Some False
      else do {
        h \<leftarrow> header_matches resp expected_id;
        if \<not> h then Some False else do {
          m \<leftarrow> match_labels resp 12 (split_char CHR ''.'' expected_name);
          case m of
            None \<Rightarrow> Some False
          | Some pos \<Rightarrow>
              if pos + 5 > length resp then Some False
              else do { qtype \<leftarrow> field16 resp (pos + 2); Some (qtype = expected_qtype) } } })"

section \<open>Walking a message\<close>

function skip_name :: "bytes \<Rightarrow> nat \<Rightarrow> nat option" where
  "skip_name buf pos =
     (case get_at buf pos of
        None \<Rightarrow> None
      | Some len \<Rightarrow>
          if len AND 0xc0 = 0xc0 then Some (pos + 2)
          else if len = 0 then Some (pos + 1)
          else skip_name buf (pos + (1 + unat len)))"
  by pat_completeness auto
termination
  by (relation "measure (\<lambda>(buf, pos). length buf - pos)") (auto simp: get_at_Some_iff)

declare skip_name.simps [simp del]

fun skip_questions :: "nat \<Rightarrow> bytes \<Rightarrow> nat \<Rightarrow> nat option" where
  "skip_questions 0 msg pos = Some pos"
| "skip_questions (Suc n) msg pos =
     (case skip_name msg pos of None \<Rightarrow> None | Some pos \<Rightarrow> skip_questions n msg (pos + 4))"

function svcparams_loop :: "bytes \<Rightarrow> nat \<Rightarrow> nat \<Rightarrow> bytes option rust" where
  "svcparams_loop msg end' p =
     (if p + 4 \<le> end' then
        (case (field16 msg p, field16 msg (p + 2)) of
           (Some key, Some len) \<Rightarrow>
             let p = p + 4 in
             if p + unat len > end' then Some None
             else if key = SVCPARAM_ECH then map_option Some (slice_of msg p (p + unat len))
             else svcparams_loop msg end' (p + unat len)
         | _ \<Rightarrow> None)
      else Some None)"
  by pat_completeness auto
termination
  by (relation "measure (\<lambda>(msg, end', p). end' - p)") auto

declare svcparams_loop.simps [simp del]

definition parse_svcparams_ech :: "bytes \<Rightarrow> nat \<Rightarrow> nat \<Rightarrow> bytes option rust" where
  "parse_svcparams_ech msg rdata_start rdlen =
     (let end' = rdata_start + rdlen in
      if rdata_start + 2 > end' then Some None
      else case skip_name msg (rdata_start + 2) of
             None \<Rightarrow> Some None
           | Some p \<Rightarrow> svcparams_loop msg end' p)"

text \<open>The answer loops: \<open>on_record rtype pos rdlen\<close> is the body that inspects one record.\<close>

fun answers_loop ::
  "(bytes \<Rightarrow> u16 \<Rightarrow> nat \<Rightarrow> nat \<Rightarrow> 'r option rust) \<Rightarrow> nat \<Rightarrow> bytes \<Rightarrow> nat \<Rightarrow> 'r option rust" where
  "answers_loop on_record 0 msg pos = Some None"
| "answers_loop on_record (Suc n) msg pos =
     (case skip_name msg pos of
        None \<Rightarrow> Some None
      | Some pos \<Rightarrow>
          if pos + 10 > length msg then Some None
          else (case (field16 msg pos, field16 msg (pos + 8)) of
                  (Some rtype, Some rdlen) \<Rightarrow>
                    let pos = pos + 10 in
                    if pos + unat rdlen > length msg then Some None
                    else (case on_record msg rtype pos (unat rdlen) of
                            None \<Rightarrow> None
                          | Some (Some r) \<Rightarrow> Some (Some r)
                          | Some None \<Rightarrow> answers_loop on_record n msg (pos + unat rdlen))
                | _ \<Rightarrow> None))"

definition parse_message ::
  "(bytes \<Rightarrow> u16 \<Rightarrow> nat \<Rightarrow> nat \<Rightarrow> 'r option rust) \<Rightarrow> bytes \<Rightarrow> 'r option rust" where
  "parse_message on_record msg =
     (if length msg < 12 then Some None
      else do {
        qd \<leftarrow> field16 msg 4;
        an \<leftarrow> field16 msg 6;
        case skip_questions (unat qd) msg 12 of
          None \<Rightarrow> Some None
        | Some pos \<Rightarrow> answers_loop on_record (unat an) msg pos })"

definition https_record :: "bytes \<Rightarrow> u16 \<Rightarrow> nat \<Rightarrow> nat \<Rightarrow> bytes option rust" where
  "https_record msg rtype pos rdlen =
     (if rtype = RR_HTTPS then parse_svcparams_ech msg pos rdlen else Some None)"

definition parse_https_ech :: "bytes \<Rightarrow> bytes option rust" where
  "parse_https_ech msg = parse_message https_record msg"

definition a_record :: "bytes \<Rightarrow> u16 \<Rightarrow> nat \<Rightarrow> nat \<Rightarrow> ip_addr option rust" where
  "a_record resp rtype pos rdlen =
     (if rtype = 1 \<and> rdlen = 4 then do {
        a \<leftarrow> idx resp pos; b \<leftarrow> idx resp (pos + 1); c \<leftarrow> idx resp (pos + 2); d \<leftarrow> idx resp (pos + 3);
        Some (Some (V4 (v4_new a b c d))) }
      else Some None)"

definition parse_dns_a :: "bytes \<Rightarrow> ip_addr option rust" where
  "parse_dns_a resp = parse_message a_record resp"

section \<open>No input panics\<close>

lemma match_labels_total: "match_labels msg pos ls \<noteq> None"
  by (induction ls arbitrary: pos) (auto simp: Let_def slice_of_in split: option.splits)

lemma match_labels_bound: "pos \<le> length msg \<Longrightarrow> match_labels msg pos ls = Some (Some e) \<Longrightarrow> pos \<le> e \<and> e \<le> length msg"
  by (induction ls arbitrary: pos) (fastforce simp: Let_def split: option.splits if_splits)+

lemma header_matches_eq:
  "12 \<le> length msg \<Longrightarrow> header_matches msg xid =
     Some (be_u16 (msg ! 0) (msg ! 1) = xid \<and> msg ! 2 AND 0x80 \<noteq> 0 \<and> be_u16 (msg ! 4) (msg ! 5) = 1)"
  by (simp add: header_matches_def field16_in idx_in)

lemma response_matches_total: "response_matches msg xid name qtype \<noteq> None"
proof -
  obtain m where m: "match_labels msg 12 (split_char CHR ''.'' name) = Some m"
    using match_labels_total by fastforce
  then show ?thesis
    by (cases "length msg < 12"; cases m)
      (auto simp: response_matches_def header_matches_eq field16_in)
qed

lemma smart_response_matches_total: "smart_response_matches msg xid name qtype \<noteq> None"
proof -
  obtain m where m: "match_labels msg 12 (split_char CHR ''.'' name) = Some m"
    using match_labels_total by fastforce
  then show ?thesis
    by (cases "length msg < 12"; cases m)
      (auto simp: smart_response_matches_def header_matches_eq field16_in)
qed

lemma svcparams_loop_total: "end' \<le> length msg \<Longrightarrow> svcparams_loop msg end' p \<noteq> None"
proof (induction msg end' p rule: svcparams_loop.induct)
  case (1 msg end' p)
  show ?case
  proof (cases "p + 4 \<le> end'")
    case True
    obtain key len where k: "field16 msg p = Some key" "field16 msg (p + 2) = Some len"
      using True "1.prems" by (simp add: field16_in)
    with True "1.prems" "1.IH" show ?thesis
      by (subst svcparams_loop.simps) (auto simp: Let_def slice_of_in)
  next
    case False
    then show ?thesis by (subst svcparams_loop.simps) simp
  qed
qed

text \<open>What a record body may rely on: the record lies inside the message.\<close>

definition record_safe :: "(bytes \<Rightarrow> u16 \<Rightarrow> nat \<Rightarrow> nat \<Rightarrow> 'r option rust) \<Rightarrow> bool" where
  "record_safe on_record \<longleftrightarrow>
     (\<forall>msg rtype pos rdlen. pos + rdlen \<le> length msg \<longrightarrow> on_record msg rtype pos rdlen \<noteq> None)"

lemma answers_loop_total: "record_safe on_record \<Longrightarrow> answers_loop on_record n msg pos \<noteq> None"
proof (induction n arbitrary: pos)
  case 0
  then show ?case by simp
next
  case (Suc n)
  show ?case
  proof (cases "skip_name msg pos")
    case None
    then show ?thesis by simp
  next
    case (Some q)
    show ?thesis
    proof (cases "q + 10 > length msg")
      case False
      then obtain t l where tl: "field16 msg q = Some t" "field16 msg (q + 8) = Some l"
        by (simp add: field16_in)
      show ?thesis
      proof (cases "q + 10 + unat l > length msg")
        case False
        then have "on_record msg t (q + 10) (unat l) \<noteq> None"
          using Suc.prems unfolding record_safe_def by (meson not_le)
        then obtain r where "on_record msg t (q + 10) (unat l) = Some r" by blast
        with Some tl False Suc show ?thesis
          by (cases "q + 10 > length msg"; cases r) (simp_all add: Let_def)
      qed (use Some tl in \<open>simp add: Let_def\<close>)
    qed (use Some in simp)
  qed
qed

lemma parse_message_total: "record_safe on_record \<Longrightarrow> parse_message on_record msg \<noteq> None"
  by (auto simp: parse_message_def field16_in split: option.splits
      intro!: answers_loop_total [unfolded not_None_eq])

lemma https_record_safe: "record_safe https_record"
  by (auto simp: record_safe_def https_record_def parse_svcparams_ech_def Let_def
      split: option.splits intro!: svcparams_loop_total [unfolded not_None_eq])

lemma a_record_safe: "record_safe a_record"
  by (auto simp: record_safe_def a_record_def idx_in)

lemma dns_parsers_total:
  "response_matches msg xid name qtype \<noteq> None \<and> dns_response_matches msg xid name qtype \<noteq> None
   \<and> smart_response_matches msg xid name qtype \<noteq> None
   \<and> parse_https_ech msg \<noteq> None \<and> parse_dns_a msg \<noteq> None"
  using response_matches_total smart_response_matches_total parse_message_total [OF https_record_safe]
    parse_message_total [OF a_record_safe]
  by (simp add: dns_response_matches_def parse_https_ech_def parse_dns_a_def)

section \<open>A reply is accepted exactly when it answers the question\<close>

definition qname :: "string list \<Rightarrow> bytes" where
  "qname ls = concat (map (\<lambda>label. if label = [] then [] else enc_label label) ls)"

definition dns_name_ok :: "string list \<Rightarrow> bool" where
  "dns_name_ok ls \<longleftrightarrow> (\<forall>l\<in>set ls. length l \<le> 63)"

lemma qname_simps [simp]:
  "qname [] = []" "qname ([] # ls) = qname ls" "l \<noteq> [] \<Longrightarrow> qname (l # ls) = enc_label l @ qname ls"
  by (simp_all add: qname_def)

lemma lower_len: "n \<le> 63 \<Longrightarrow> to_ascii_lowercase_u8 v = to_ascii_lowercase_u8 (of_nat n) \<longleftrightarrow> unat v = n"
proof -
  assume n: "n \<le> 63"
  then have u: "unat (of_nat n :: u8) = n" by simp
  then have id: "to_ascii_lowercase_u8 (of_nat n) = of_nat n"
    using n by (simp add: to_ascii_lowercase_u8_def word_le_nat_alt)
  have "unat (to_ascii_lowercase_u8 v) = (if 65 \<le> unat v \<and> unat v \<le> 90 then unat v + 32 else unat v)"
    by (auto simp: to_ascii_lowercase_u8_def word_le_nat_alt unat_word_ariths)
  with n u id show ?thesis by (simp only: word_unat_eq_iff) auto
qed

text \<open>The label loop succeeds exactly on the bytes of the name, compared without case.\<close>

lemma match_labels_iff:
  assumes "dns_name_ok ls" and "pos \<le> length msg"
  shows "match_labels msg pos ls = Some (Some e) \<longleftrightarrow>
     e = pos + length (qname ls) \<and> e \<le> length msg
     \<and> eq_ignore_ascii_case (take (length (qname ls)) (drop pos msg)) (qname ls)"
  using assms
proof (induction ls arbitrary: pos)
  case Nil
  then show ?case by auto
next
  case (Cons l ls)
  show ?case
  proof (cases "l = []")
    case True
    with Cons show ?thesis by (simp add: dns_name_ok_def)
  next
    case False
    have l63: "length l \<le> 63" and ok: "dns_name_ok ls" using Cons.prems(1) by (auto simp: dns_name_ok_def)
    show ?thesis
    proof (cases "pos + 1 + length l \<le> length msg")
      case True
      then have p: "pos < length msg" by simp
      let ?v = "msg ! pos" and ?s = "take (length l) (drop (pos + 1) msg)"
      have drop: "drop pos msg = ?v # drop (pos + 1) msg" using p by (simp add: Cons_nth_drop_Suc)
      have take: "take (length (qname (l # ls))) (drop pos msg)
          = ?v # ?s @ take (length (qname ls)) (drop (pos + 1 + length l) msg)"
        using False unfolding drop by (simp add: enc_label_def take_add add.commute drop_drop)
      have ls: "length ?s = length l" using True by simp
      have "eq_ignore_ascii_case (take (length (qname (l # ls))) (drop pos msg)) (qname (l # ls))
         \<longleftrightarrow> unat ?v = length l \<and> eq_ignore_ascii_case ?s (as_bytes l)
           \<and> eq_ignore_ascii_case (take (length (qname ls)) (drop (pos + 1 + length l) msg)) (qname ls)"
        unfolding take using False lower_len [OF l63, of ?v] ls
        by (simp add: eq_ignore_ascii_case_def enc_label_def append_eq_append_conv)
      with False p True Cons.IH [OF ok True] show ?thesis
        by (auto simp: get_at_in Let_def slice_of_in enc_label_def)
    next
      case short: False
      then show ?thesis
        using False by (auto simp: Let_def enc_label_def get_at_def split: if_splits)
    qed
  qed
qed

lemma match_labels_qname:
  assumes "dns_name_ok ls" and "length pre = pos"
  shows "match_labels (pre @ qname ls @ rest) pos ls = Some (Some (pos + length (qname ls)))"
  using match_labels_iff [of ls pos "pre @ qname ls @ rest"] assms by simp

lemma response_matches_spec:
  assumes "dns_name_ok (split_char CHR ''.'' name)"
    and "q = qname (split_char CHR ''.'' name)"
  shows "response_matches msg xid name qtype = Some True \<longleftrightarrow>
     12 + length q + 5 \<le> length msg
     \<and> be_u16 (msg ! 0) (msg ! 1) = xid \<and> msg ! 2 AND 0x80 \<noteq> 0 \<and> be_u16 (msg ! 4) (msg ! 5) = 1
     \<and> eq_ignore_ascii_case (take (length q) (drop 12 msg)) q
     \<and> msg ! (12 + length q) = 0
     \<and> be_u16 (msg ! (13 + length q)) (msg ! (14 + length q)) = qtype"
proof (cases "length msg < 12")
  case True
  then show ?thesis by (simp add: response_matches_def)
next
  case False
  then have len: "12 \<le> length msg" by simp
  note iff = match_labels_iff [OF assms(1) len, folded assms(2)]
  obtain m where m: "match_labels msg 12 (split_char CHR ''.'' name) = Some m"
    using match_labels_total by fastforce
  show ?thesis
  proof (cases m)
    case None
    with m iff have "\<not> (12 + length q \<le> length msg \<and> eq_ignore_ascii_case (take (length q) (drop 12 msg)) q)"
      by auto
    with None m len show ?thesis by (auto simp: response_matches_def header_matches_eq)
  next
    case (Some e)
    with m iff have e: "e = 12 + length q" "12 + length q \<le> length msg"
      "eq_ignore_ascii_case (take (length q) (drop 12 msg)) q" by auto
    with Some m len show ?thesis
      by (auto simp: response_matches_def header_matches_eq get_at_def field16_in Let_def)
  qed
qed

text \<open>
  C8: a reply is accepted if and only if it is long enough, carries the transaction id of the query,
  has the response bit set, has exactly one question, and that question is the name that was
  asked (compared without case) followed by the type that was asked. This is stated for names whose
  labels are at most 63 bytes long, the DNS limit.
\<close>

theorem response_matches_iff:
  assumes "dns_name_ok (split_char CHR ''.'' name)"
    and "q = qname (split_char CHR ''.'' name)"
  shows "response_matches msg xid name qtype = Some True \<longleftrightarrow>
     12 + length q + 5 \<le> length msg
     \<and> be_u16 (msg ! 0) (msg ! 1) = xid \<and> msg ! 2 AND 0x80 \<noteq> 0 \<and> be_u16 (msg ! 4) (msg ! 5) = 1
     \<and> eq_ignore_ascii_case (take (length q) (drop 12 msg)) q
     \<and> msg ! (12 + length q) = 0
     \<and> be_u16 (msg ! (13 + length q)) (msg ! (14 + length q)) = qtype"
  by (rule response_matches_spec [OF assms])

theorem response_matches_iff_witness:
  "response_matches [0, 7, 0x80, 0, 0, 1, 0, 0, 0, 0, 0, 0, 1, 0x41, 1, 98, 0, 0, 1, 0, 1] 7 ''a.b'' 1
     = Some True"
proof -
  let ?msg = "[0, 7, 0x80, 0, 0, 1, 0, 0, 0, 0, 0, 0, 1, 0x41, 1, 98, 0, 0, 1, 0, 1] :: bytes"
  have name: "split_char CHR ''.'' ''a.b'' = [''a'', ''b'']" by simp
  have q: "qname (split_char CHR ''.'' ''a.b'') = [1, 97, 1, 98]"
    unfolding name by (simp add: qname_def enc_label_def as_bytes_def)
  have ok: "dns_name_ok (split_char CHR ''.'' ''a.b'')" unfolding name by (simp add: dns_name_ok_def)
  show ?thesis
    unfolding response_matches_iff [OF ok refl] q
    by (simp add: be_u16_def eq_ignore_ascii_case_def to_ascii_lowercase_u8_def)
qed

section \<open>Replies that echo a query\<close>

text \<open>A reply with response flags \<open>f1 f2\<close>, the counts \<open>ns\<close>, a question and anything after it.\<close>

definition reply_with :: "u16 \<Rightarrow> u8 \<Rightarrow> u8 \<Rightarrow> bytes \<Rightarrow> bytes \<Rightarrow> bytes \<Rightarrow> bytes" where
  "reply_with xid f1 f2 ns question rest = u16_bytes xid @ [f1, f2, 0, 1] @ ns @ question @ rest"

definition question_of :: "bytes \<times> u16 \<Rightarrow> bytes" where
  "question_of q = drop 12 (fst q)"

lemma length_query_header [simp]: "length (query_header xid) = 12"
  by (simp add: query_header_def)

lemma question_of_build_query:
  "question_of (build_query xid name qtype) = qname (split_char CHR ''.'' name) @ [0] @ u16_bytes qtype @ [0, 1]"
  by (simp add: question_of_def build_query_def qname_def)

lemma question_of_build_dns_query:
  "question_of (build_dns_query xid name qtype) =
     concat (map enc_label (split_char CHR ''.'' name)) @ [0] @ u16_bytes qtype @ [0, 1]"
  by (simp add: question_of_def build_dns_query_def)

lemma nth_append_off: "length xs = n \<Longrightarrow> (xs @ ys) ! (n + k) = ys ! k"
  by (simp add: nth_append)

lemma reply_with_header:
  assumes "length ns = 6"
  shows "12 \<le> length (reply_with xid f1 f2 ns question rest)"
    and "drop 12 (reply_with xid f1 f2 ns question rest) = question @ rest"
    and "be_u16 (reply_with xid f1 f2 ns question rest ! 0) (reply_with xid f1 f2 ns question rest ! 1) = xid"
    and "reply_with xid f1 f2 ns question rest ! 2 = f1"
    and "be_u16 (reply_with xid f1 f2 ns question rest ! 4) (reply_with xid f1 f2 ns question rest ! 5) = 1"
proof -
  have be1: "be_u16 0 1 = 1" by (simp add: be_u16_def)
  show "12 \<le> length (reply_with xid f1 f2 ns question rest)"
    and "drop 12 (reply_with xid f1 f2 ns question rest) = question @ rest"
    and "be_u16 (reply_with xid f1 f2 ns question rest ! 0) (reply_with xid f1 f2 ns question rest ! 1) = xid"
    and "reply_with xid f1 f2 ns question rest ! 2 = f1"
    and "be_u16 (reply_with xid f1 f2 ns question rest ! 4) (reply_with xid f1 f2 ns question rest ! 5) = 1"
    using assms be1 by (simp_all add: reply_with_def u16_bytes_eq be_u16_u16_bytes)
qed

lemma nth_drop12: "12 \<le> length msg \<Longrightarrow> msg ! (12 + k) = drop 12 msg ! k"
  by simp

lemma reply_question_nth:
  assumes "length ns = 6"
  shows "reply_with xid f1 f2 ns (q @ qt) rest ! (12 + length q + k) = (qt @ rest) ! k"
proof -
  have "reply_with xid f1 f2 ns (q @ qt) rest ! (12 + (length q + k))
      = drop 12 (reply_with xid f1 f2 ns (q @ qt) rest) ! (length q + k)"
    using reply_with_header(1) [OF assms] by (intro nth_drop12)
  also have "\<dots> = (qt @ rest) ! k"
    unfolding reply_with_header(2) [OF assms] by (simp add: nth_append_off)
  finally show ?thesis by (simp add: add.assoc)
qed

lemma echo_accepted:
  assumes "dns_name_ok (split_char CHR ''.'' name)" and "f1 AND 0x80 \<noteq> 0" and "length ns = 6"
  shows "response_matches (reply_with xid f1 f2 ns (question_of (build_query xid name qtype)) rest)
     xid name qtype = Some True"
proof -
  let ?q = "qname (split_char CHR ''.'' name)"
  let ?m = "reply_with xid f1 f2 ns (?q @ [0] @ u16_bytes qtype @ [0, 1]) rest"
  have d: "drop 12 ?m = (?q @ [0] @ u16_bytes qtype @ [0, 1]) @ rest"
    by (rule reply_with_header(2) [OF assms(3)])
  have len: "12 + length ?q + 5 \<le> length ?m" using assms(3) by (simp add: reply_with_def)
  have n0: "?m ! (12 + length ?q) = 0" using reply_question_nth [OF assms(3), of _ _ _ ?q _ _ 0] by simp
  have n1: "?m ! (13 + length ?q) = of_nat (unat qtype div 256)"
    using reply_question_nth [OF assms(3), of xid f1 f2 ?q "[0] @ u16_bytes qtype @ [0, 1]" rest 1]
    by (simp add: u16_bytes_eq)
  have n2: "?m ! (14 + length ?q) = of_nat (unat qtype)"
    using reply_question_nth [OF assms(3), of xid f1 f2 ?q "[0] @ u16_bytes qtype @ [0, 1]" rest 2]
    by (simp add: u16_bytes_eq)
  have "eq_ignore_ascii_case (take (length ?q) (drop 12 ?m)) ?q" unfolding d by simp
  then show ?thesis
    unfolding question_of_build_query response_matches_spec [OF assms(1) refl] n1 n2
    using len n0 reply_with_header(3-5) [OF assms(3)] assms(2)
    by (simp only: be_u16_u16_bytes) simp
qed

section \<open>Where the copies differ\<close>

lemma be_u16_shifted:
  assumes "qtype \<noteq> 0"
  shows "be_u16 (of_nat (unat qtype)) 0 \<noteq> (qtype::u16)"
proof
  assume "be_u16 (of_nat (unat qtype)) 0 = qtype"
  then have "unat (be_u16 (of_nat (unat qtype)) 0) = unat qtype" by simp
  then have "(unat qtype mod 256) * 256 = unat qtype" by (simp only: unat_be_u16 unat_of_nat_u8) simp
  then have "unat qtype mod 256 = 0" by (metis mod_mult_self2_is_0)
  with \<open>(unat qtype mod 256) * 256 = unat qtype\<close> have "unat qtype = 0" by simp
  with assms show False by (simp add: unat_eq_zero)
qed

lemma smart_matches_reply:
  assumes "dns_name_ok (split_char CHR ''.'' name)" and "length ns = 6" and "f1 AND 0x80 \<noteq> 0"
  shows "smart_response_matches
       (reply_with xid f1 f2 ns (question_of (smart_build_query xid name qtype)) rest) xid name qtype
     = Some (be_u16 (of_nat (unat qtype)) 0 = qtype)"
proof -
  let ?q = "qname (split_char CHR ''.'' name)"
  let ?m = "reply_with xid f1 f2 ns (?q @ [0] @ u16_bytes qtype @ [0, 1]) rest"
  have m: "question_of (smart_build_query xid name qtype) = ?q @ [0] @ u16_bytes qtype @ [0, 1]"
    by (simp add: question_of_def smart_build_query_def qname_def)
  have l12: "12 \<le> length ?m" by (rule reply_with_header(1) [OF assms(2)])
  have "match_labels ?m 12 (split_char CHR ''.'' name) = Some (Some (12 + length ?q))"
    using reply_with_header(2) [OF assms(2), of xid f1 f2 "?q @ [0] @ u16_bytes qtype @ [0, 1]" rest] assms(2)
    by (subst match_labels_iff [OF assms(1) l12]) (simp add: reply_with_def)
  moreover have "?m ! (14 + length ?q) = of_nat (unat qtype)"
    using reply_question_nth [OF assms(2), of xid f1 f2 ?q "[0] @ u16_bytes qtype @ [0, 1]" rest 2]
    by (simp add: u16_bytes_eq)
  moreover have "?m ! (15 + length ?q) = 0"
    using reply_question_nth [OF assms(2), of xid f1 f2 ?q "[0] @ u16_bytes qtype @ [0, 1]" rest 3]
    by (simp add: u16_bytes_eq)
  moreover have "12 + length ?q + 5 \<le> length ?m" using assms(2) by (simp add: reply_with_def)
  ultimately show ?thesis
    using l12 reply_with_header(3-5) [OF assms(2)] assms(3)
    by (simp add: m smart_response_matches_def header_matches_eq field16_in add.commute)
qed

text \<open>
  The copy of the matcher in \<open>smart_dns.rs\<close> rejects every genuine reply: a reply that echoes the
  engine's own query is refused for every type except 0, because the type is read one byte too far,
  while the matcher of \<open>dns.rs\<close> accepts the same bytes.
\<close>

lemma smart_rejects_genuine:
  assumes "dns_name_ok (split_char CHR ''.'' name)" and "length ns = 6" and "f1 AND 0x80 \<noteq> 0" and "qtype \<noteq> 0"
  shows "smart_response_matches (reply_with xid f1 f2 ns (question_of (smart_build_query xid name qtype)) rest) xid name qtype = Some False"
    and "response_matches (reply_with xid f1 f2 ns (question_of (smart_build_query xid name qtype)) rest) xid name qtype = Some True"
proof -
  show "smart_response_matches (reply_with xid f1 f2 ns (question_of (smart_build_query xid name qtype)) rest) xid name qtype = Some False"
    unfolding smart_matches_reply [OF assms(1-3)] using be_u16_shifted [OF assms(4)] by simp
  have "question_of (smart_build_query xid name qtype) = question_of (build_query xid name qtype)"
    by (simp add: question_of_def smart_build_query_def build_query_def)
  then show "response_matches (reply_with xid f1 f2 ns (question_of (smart_build_query xid name qtype)) rest) xid name qtype = Some True"
    using echo_accepted [OF assms(1,3,2)] by simp
qed

lemma split_char_snoc_sep: "split_char c (s @ [c]) = split_char c s @ [[]]"
proof (induction s)
  case (Cons x s)
  then show ?case by (cases "split_char c s") auto
qed simp

lemma concat_enc_qname: "\<forall>l\<in>set ls. l \<noteq> [] \<Longrightarrow> concat (map enc_label ls) = qname ls"
  by (induction ls) auto

text \<open>
  The in-tunnel resolver of \<open>socks.rs\<close> writes empty labels into its query. For a name without
  empty labels the query is the same as that of \<open>dns.rs\<close>; for a name with a trailing dot (a fully
  qualified name) it contains a second terminating zero, and a reply that echoes this query is
  rejected by the resolver's own matcher for every type between 1 and 255, so the lookup can
  only time out.
\<close>

lemma socks_query_trailing_dot:
  assumes "dns_name_ok (split_char CHR ''.'' name)" and "\<forall>l\<in>set (split_char CHR ''.'' name). l \<noteq> []"
    and "length ns = 6" and "f1 AND 0x80 \<noteq> 0" and "0 < unat qtype" and "unat qtype < 256"
  shows "build_dns_query xid name qtype = build_query xid name qtype
     \<and> dns_response_matches
         (reply_with xid f1 f2 ns (question_of (build_dns_query xid (name @ ''.'') qtype)) rest)
         xid (name @ ''.'') qtype = Some False"
proof
  let ?ls = "split_char CHR ''.'' name"
  let ?q = "qname ?ls"
  show "build_dns_query xid name qtype = build_query xid name qtype"
    using concat_enc_qname [OF assms(2)] by (simp add: build_dns_query_def build_query_def qname_def)
  have ls: "split_char CHR ''.'' (name @ ''.'') = ?ls @ [[]]" by (rule split_char_snoc_sep)
  have q: "qname (?ls @ [[]]) = ?q" by (simp add: qname_def)
  have ok: "dns_name_ok (?ls @ [[]])" using assms(1) by (simp add: dns_name_ok_def)
  have e: "enc_label [] = [0]" by (simp add: enc_label_def)
  let ?m = "reply_with xid f1 f2 ns (?q @ [0, 0] @ u16_bytes qtype @ [0, 1]) rest"
  have m: "question_of (build_dns_query xid (name @ ''.'') qtype) = ?q @ [0, 0] @ u16_bytes qtype @ [0, 1]"
    using concat_enc_qname [OF assms(2)] by (simp add: question_of_build_dns_query ls e)
  have n1: "?m ! (13 + length ?q) = 0"
    using reply_question_nth [OF assms(3), of xid f1 f2 ?q "[0, 0] @ u16_bytes qtype @ [0, 1]" rest 1]
    by (simp add: u16_bytes_eq)
  have n2: "?m ! (14 + length ?q) = 0"
    using reply_question_nth [OF assms(3), of xid f1 f2 ?q "[0, 0] @ u16_bytes qtype @ [0, 1]" rest 2] assms(6)
    by (simp add: u16_bytes_eq)
  note n1 n2
  moreover have "be_u16 0 0 \<noteq> qtype" using assms(5) by (auto simp: be_u16_def)
  ultimately have "response_matches ?m xid (name @ ''.'') qtype \<noteq> Some True"
    unfolding response_matches_spec [OF ok [folded ls] refl] ls q by simp
  then show "dns_response_matches
         (reply_with xid f1 f2 ns (question_of (build_dns_query xid (name @ ''.'') qtype)) rest)
         xid (name @ ''.'') qtype = Some False"
    unfolding m dns_response_matches_def using response_matches_total by (metis (full_types) option.exhaust)
qed

lemma socks_query_trailing_dot_witness:
  "dns_response_matches
     (reply_with 7 0x81 0x80 [0, 0, 0, 0, 0, 0] (question_of (build_dns_query 7 (''a.b'' @ ''.'') QTYPE_A)) [])
     7 (''a.b'' @ ''.'') QTYPE_A = Some False"
  by (rule socks_query_trailing_dot [THEN conjunct2]) (simp_all add: dns_name_ok_def QTYPE_A_def)

end
