(* ===== verification/ExitIp.thy ===== *)
theory ExitIp
  imports Dns Checksum AddrParse
begin

text \<open>
  The exit-address probe of \<open>exitip.rs\<close>: a \<open>whoami.cloudflare\<close> TXT query in class CH, wrapped by hand
  in UDP and IPv4, and the recognition and reading of its answer among the packets that come out of
  the tunnel. The random numbers the code draws (transaction id, source port, IP identification)
  are arguments.
\<close>

section \<open>The probe\<close>

definition DNS_PORT :: u16 where "DNS_PORT = 53"
definition RESOLVER :: u32 where "RESOLVER = v4_new 1 1 1 1"
definition QTYPE_TXT :: u16 where "QTYPE_TXT = 16"
definition QCLASS_CH :: u16 where "QCLASS_CH = 3"
definition WHOAMI_NAME :: string where "WHOAMI_NAME = ''whoami.cloudflare''"

record probe =
  pr_packet :: bytes
  pr_sport :: u16
  pr_id :: u16
  pr_name :: string

definition ex_build_query :: "u16 \<Rightarrow> string \<Rightarrow> u16 \<Rightarrow> u16 \<Rightarrow> bytes" where
  "ex_build_query xid name qtype qclass =
     query_header xid
     @ concat (map (\<lambda>label. if label = [] then []
                            else of_nat (min (length label) 63) # take (min (length label) 63) (as_bytes label))
               (split_char CHR ''.'' name))
     @ [0] @ u16_bytes qtype @ u16_bytes qclass"

definition build_udp_ipv4 :: "u16 \<Rightarrow> u32 \<Rightarrow> u32 \<Rightarrow> u16 \<Rightarrow> u16 \<Rightarrow> bytes \<Rightarrow> bytes rust" where
  "build_udp_ipv4 ipid src dst sport dport payload =
     (let udp_len = 8 + length payload;
          total_len = 20 + udp_len;
          pkt = [0x45, 0x00] @ u16_bytes (of_nat total_len) @ u16_bytes ipid @ [0x00, 0x00] @ [64] @ [17]
                @ [0x00, 0x00] @ v4_octets src @ v4_octets dst
      in do {
        h \<leftarrow> slice_of pkt 0 20;
        pkt \<leftarrow> copy_into pkt 10 (u16_bytes (fold_sum (ones_complement_sum h 0)));
        let pkt = pkt @ u16_bytes sport @ u16_bytes dport @ u16_bytes (of_nat udp_len) @ [0x00, 0x00] @ payload;
        a \<leftarrow> slice_of pkt 12 20;
        u \<leftarrow> slice_from pkt 20;
        let acc = ones_complement_sum a 0 + 17 + of_nat udp_len;
        let udp_csum = fold_sum (ones_complement_sum u acc);
        copy_into pkt 26 (u16_bytes (if udp_csum = 0 then 0xffff else udp_csum)) })"

text \<open>\<open>Probe::whoami\<close>; \<open>r\<close> is the random number the source port is derived from.\<close>

definition whoami :: "u16 \<Rightarrow> u16 \<Rightarrow> u16 \<Rightarrow> u32 \<Rightarrow> probe rust" where
  "whoami xid r ipid src =
     (let sport = 20000 + (r mod 40000);
          query = ex_build_query xid WHOAMI_NAME QTYPE_TXT QCLASS_CH
      in do {
        packet \<leftarrow> build_udp_ipv4 ipid src RESOLVER sport DNS_PORT query;
        Some \<lparr>pr_packet = packet, pr_sport = sport, pr_id = xid, pr_name = WHOAMI_NAME\<rparr> })"

section \<open>Recognising the answer\<close>

definition udp_payload :: "bytes \<Rightarrow> u32 \<Rightarrow> u16 \<Rightarrow> u16 \<Rightarrow> bytes option rust" where
  "udp_payload packet src sport dport =
     (if length packet < 20 then Some None
      else do {
        b0 \<leftarrow> idx packet 0;
        if drop_bit 4 b0 \<noteq> 4 then Some None
        else let ihl = unat (b0 AND 0x0f) * 4 in
        if ihl < 20 \<or> length packet < ihl + 8 then Some None
        else do {
          proto \<leftarrow> idx packet 9;
          if proto \<noteq> 17 then Some None
          else do {
            frag \<leftarrow> field16 packet 6;
            if frag AND 0x1fff \<noteq> 0 then Some None
            else do {
              a \<leftarrow> idx packet 12; b \<leftarrow> idx packet 13; c \<leftarrow> idx packet 14; d \<leftarrow> idx packet 15;
              if v4_new a b c d \<noteq> src then Some None
              else do {
                udp \<leftarrow> slice_from packet ihl;
                sp \<leftarrow> field16 udp 0;
                dp \<leftarrow> field16 udp 2;
                if sp \<noteq> sport \<or> dp \<noteq> dport then Some None
                else do {
                  l \<leftarrow> field16 udp 4;
                  if unat l < 8 \<or> unat l > length udp then Some None
                  else map_option Some (slice_of udp 8 (unat l)) } } } } } })"

definition question_matches :: "bytes \<Rightarrow> u16 \<Rightarrow> string \<Rightarrow> u16 \<Rightarrow> u16 \<Rightarrow> bool rust" where
  "question_matches msg xid name qtype qclass =
     (if length msg < 12 then Some False
      else do {
        h \<leftarrow> header_matches msg xid;
        if \<not> h then Some False else do {
          m \<leftarrow> match_labels msg 12 (split_char CHR ''.'' name);
          case m of
            None \<Rightarrow> Some False
          | Some pos \<Rightarrow>
              if get_at msg pos \<noteq> Some 0 then Some False
              else let pos = pos + 1 in
              if pos + 4 > length msg then Some False
              else do {
                t \<leftarrow> field16 msg pos;
                c \<leftarrow> field16 msg (pos + 2);
                Some (t = qtype \<and> c = qclass) } } })"

definition probe_matches :: "probe \<Rightarrow> bytes \<Rightarrow> bool rust" where
  "probe_matches p packet = do {
     m \<leftarrow> udp_payload packet RESOLVER DNS_PORT (pr_sport p);
     case m of
       None \<Rightarrow> Some False
     | Some payload \<Rightarrow> question_matches payload (pr_id p) (pr_name p) QTYPE_TXT QCLASS_CH }"

section \<open>Reading the answer\<close>

function ex_skip_name :: "bytes \<Rightarrow> nat \<Rightarrow> nat option" where
  "ex_skip_name buf pos =
     (case get_at buf pos of
        None \<Rightarrow> None
      | Some len \<Rightarrow>
          if len AND 0xc0 = 0xc0 then (if pos + 2 \<le> length buf then Some (pos + 2) else None)
          else if len = 0 then (if pos + 1 \<le> length buf then Some (pos + 1) else None)
          else let pos' = pos + (1 + unat len) in
          if pos' > length buf then None else ex_skip_name buf pos')"
  by pat_completeness auto
termination
  by (relation "measure (\<lambda>(buf, pos). length buf - pos)") (auto simp: get_at_Some_iff)

declare ex_skip_name.simps [simp del]

fun ex_skip_questions :: "nat \<Rightarrow> bytes \<Rightarrow> nat \<Rightarrow> nat option" where
  "ex_skip_questions 0 msg pos = Some pos"
| "ex_skip_questions (Suc n) msg pos =
     (case ex_skip_name msg pos of None \<Rightarrow> None | Some pos \<Rightarrow> ex_skip_questions n msg (pos + 4))"

text \<open>The character-strings of one TXT record, joined.\<close>

function txt_loop :: "bytes \<Rightarrow> nat \<Rightarrow> nat \<Rightarrow> string \<Rightarrow> string option rust" where
  "txt_loop msg end' p out =
     (if p < end' then
        (case idx msg p of
           None \<Rightarrow> None
         | Some l \<Rightarrow>
             let start = p + 1; stop = start + unat l in
             if stop > end' then Some None
             else (case slice_of msg start stop of
                     None \<Rightarrow> None
                   | Some s \<Rightarrow> txt_loop msg end' stop (out @ from_utf8_lossy s)))
      else if out = [] then Some None else Some (Some out))"
  by pat_completeness auto
termination
  by (relation "measure (\<lambda>(msg, end', p, out). end' - p)") auto

declare txt_loop.simps [simp del]

fun txt_answers :: "nat \<Rightarrow> bytes \<Rightarrow> nat \<Rightarrow> string option rust" where
  "txt_answers 0 msg pos = Some None"
| "txt_answers (Suc n) msg pos =
     (case ex_skip_name msg pos of
        None \<Rightarrow> Some None
      | Some pos \<Rightarrow>
          if pos + 10 > length msg then Some None
          else (case (field16 msg pos, field16 msg (pos + 8)) of
                  (Some rtype, Some rdlen) \<Rightarrow>
                    let pos = pos + 10; end' = pos + unat rdlen in
                    if end' > length msg then Some None
                    else if rtype = QTYPE_TXT then txt_loop msg end' pos []
                    else txt_answers n msg end'
                | _ \<Rightarrow> None))"

definition first_txt_record :: "bytes \<Rightarrow> string option rust" where
  "first_txt_record msg =
     (if length msg < 12 then Some None
      else do {
        qd \<leftarrow> field16 msg 4;
        an \<leftarrow> field16 msg 6;
        case ex_skip_questions (unat qd) msg 12 of
          None \<Rightarrow> Some None
        | Some pos \<Rightarrow> txt_answers (unat an) msg pos })"

definition probe_read :: "probe \<Rightarrow> bytes \<Rightarrow> u32 option rust" where
  "probe_read p packet = do {
     m \<leftarrow> udp_payload packet RESOLVER DNS_PORT (pr_sport p);
     case m of
       None \<Rightarrow> Some None
     | Some payload \<Rightarrow> do {
         t \<leftarrow> first_txt_record payload;
         case t of
           None \<Rightarrow> Some None
         | Some s \<Rightarrow> Some (parse_ipv4 (trim s)) } }"

section \<open>No packet panics\<close>

text \<open>What \<open>udp_payload\<close> computes, in closed form.\<close>

definition ipv4_udp_from :: "bytes \<Rightarrow> u32 \<Rightarrow> u16 \<Rightarrow> u16 \<Rightarrow> nat \<Rightarrow> bytes \<Rightarrow> bool" where
  "ipv4_udp_from packet src sport dport ihl udp \<longleftrightarrow>
     20 \<le> length packet \<and> drop_bit 4 (packet ! 0) = 4 \<and> ihl = unat (packet ! 0 AND 0x0f) * 4
     \<and> 20 \<le> ihl \<and> ihl + 8 \<le> length packet \<and> packet ! 9 = 17
     \<and> be_u16 (packet ! 6) (packet ! 7) AND 0x1fff = 0
     \<and> v4_new (packet ! 12) (packet ! 13) (packet ! 14) (packet ! 15) = src
     \<and> udp = drop ihl packet \<and> be_u16 (udp ! 0) (udp ! 1) = sport \<and> be_u16 (udp ! 2) (udp ! 3) = dport"

lemma udp_payload_cases:
  fixes packet :: bytes and src :: u32 and sport dport :: u16
  defines "ihl \<equiv> unat (packet ! 0 AND 0x0f) * 4" and "udp \<equiv> drop (unat (packet ! 0 AND 0x0f) * 4) packet"
  shows "udp_payload packet src sport dport =
    Some (if ipv4_udp_from packet src sport dport ihl udp
             \<and> 8 \<le> unat (be_u16 (udp ! 4) (udp ! 5)) \<and> unat (be_u16 (udp ! 4) (udp ! 5)) \<le> length udp
          then Some (take (unat (be_u16 (udp ! 4) (udp ! 5)) - 8) (drop 8 udp)) else None)"
proof (cases "20 \<le> length packet")
  case True
  then have ne: "packet \<noteq> []" by auto
  show ?thesis
  proof (cases "drop_bit 4 (packet ! 0) = 4 \<and> 20 \<le> ihl \<and> ihl + 8 \<le> length packet")
    case True
    then have l: "8 \<le> length udp" "20 \<le> length packet" and ih: "ihl \<le> length packet"
      and c: "drop_bit 4 (packet ! 0) = 4" "20 \<le> ihl" "ihl + 8 \<le> length packet"
      by (auto simp: udp_def ihl_def)
    have u: "slice_from packet ihl = Some udp" using ih by (simp add: slice_from_in udp_def ihl_def)
    have f: "field16 udp 0 = Some (be_u16 (udp ! 0) (udp ! 1))" "field16 udp 2 = Some (be_u16 (udp ! 2) (udp ! 3))"
      "field16 udp 4 = Some (be_u16 (udp ! 4) (udp ! 5))" "field16 packet 6 = Some (be_u16 (packet ! 6) (packet ! 7))"
      using field16_in [of 0 udp] field16_in [of 2 udp] field16_in [of 4 udp] field16_in [of 6 packet] l
      by simp_all
    show ?thesis
      unfolding udp_payload_def ipv4_udp_from_def
      using c l ne by (simp add: idx_in f u slice_of_in ihl_def [symmetric] udp_def [folded ihl_def, symmetric])
  next
    case False
    with True ne show ?thesis
      by (auto simp: udp_payload_def ipv4_udp_from_def idx_in ihl_def Let_def)
  qed
qed (simp add: udp_payload_def ipv4_udp_from_def)

lemma udp_payload_total: "udp_payload packet src sport dport \<noteq> None"
  unfolding udp_payload_cases by simp

lemma question_matches_total: "question_matches msg xid name qtype qclass \<noteq> None"
proof -
  obtain m where m: "match_labels msg 12 (split_char CHR ''.'' name) = Some m"
    using match_labels_total by fastforce
  then show ?thesis
    by (cases "length msg < 12"; cases m) (auto simp: question_matches_def header_matches_eq field16_in)
qed

lemma txt_loop_total: "end' \<le> length msg \<Longrightarrow> txt_loop msg end' p out \<noteq> None"
proof (induction msg end' p out rule: txt_loop.induct)
  case (1 msg end' p out)
  then show ?case by (subst txt_loop.simps) (auto simp: idx_in slice_of_in Let_def)
qed

lemma txt_answers_total: "txt_answers n msg pos \<noteq> None"
proof (induction n msg pos rule: txt_answers.induct)
  case (2 n msg pos)
  then show ?case
    using txt_loop_total by (fastforce simp: field16_in Let_def split: option.splits)
qed simp

lemma first_txt_record_total: "first_txt_record msg \<noteq> None"
  using txt_answers_total by (auto simp: first_txt_record_def field16_in split: option.splits)

lemma probe_total: "probe_matches p packet \<noteq> None \<and> probe_read p packet \<noteq> None"
proof -
  obtain m where m: "udp_payload packet RESOLVER DNS_PORT (pr_sport p) = Some m"
    using udp_payload_total by fastforce
  show ?thesis
  proof (cases m)
    case (Some payload)
    obtain t where "first_txt_record payload = Some t" using first_txt_record_total by fastforce
    with m Some question_matches_total show ?thesis
      by (auto simp: probe_matches_def probe_read_def split: option.splits)
  qed (simp add: m probe_matches_def probe_read_def)
qed


text \<open>
  No reply that comes from the network, however malformed, makes the resolvers or the
  exit-address probe panic: recognising the reply to the probe and reading it, matching a DNS reply
  in each of the three resolvers and extracting the ECH configuration or the address from it return
  on every byte string, whatever counts, lengths and compression pointers it claims to have.
\<close>

lemma probe_never_panics:
  "probe_matches p packet \<noteq> None \<and> probe_read p packet \<noteq> None
   \<and> response_matches msg xid name qtype \<noteq> None \<and> dns_response_matches msg xid name qtype \<noteq> None
   \<and> smart_response_matches msg xid name qtype \<noteq> None
   \<and> parse_https_ech msg \<noteq> None \<and> parse_dns_a msg \<noteq> None"
  using probe_total dns_parsers_total by blast

section \<open>The packet that is sent\<close>

definition ipv4_front :: "u16 \<Rightarrow> u16 \<Rightarrow> bytes \<Rightarrow> bytes" where
  "ipv4_front tot ipid csum = [0x45, 0] @ u16_bytes tot @ u16_bytes ipid @ [0, 0, 64, 17] @ csum"

definition udp_front :: "u16 \<Rightarrow> u16 \<Rightarrow> u16 \<Rightarrow> bytes \<Rightarrow> bytes" where
  "udp_front sport dport len csum = u16_bytes sport @ u16_bytes dport @ u16_bytes len @ csum"

lemma length_fronts [simp]:
  "length (ipv4_front tot ipid csum) = 10 + length csum" "length (udp_front sport dport len csum) = 6 + length csum"
  by (simp_all add: ipv4_front_def udp_front_def)

lemma build_udp_ipv4_form:
  fixes ipid sport dport :: u16 and src dst :: u32 and payload :: bytes
  defines "n \<equiv> of_nat (28 + length payload) :: u16" and "l \<equiv> of_nat (8 + length payload) :: u16"
    and "acc \<equiv> ones_complement_sum (v4_octets src @ v4_octets dst) 0 + 17 + of_nat (8 + length payload)"
  defines "c1 \<equiv> fold_sum (ones_complement_sum (ipv4_front n ipid [0, 0] @ v4_octets src @ v4_octets dst) 0)"
    and "c2 \<equiv> fold_sum (ones_complement_sum (udp_front sport dport l [0, 0] @ payload) acc)"
  shows "build_udp_ipv4 ipid src dst sport dport payload =
    Some (ipv4_front n ipid (u16_bytes c1) @ v4_octets src @ v4_octets dst
          @ udp_front sport dport l (u16_bytes (if c2 = 0 then 0xffff else c2)) @ payload)"
proof -
  let ?pkt = "[0x45, 0x00] @ u16_bytes (of_nat (20 + (8 + length payload))) @ u16_bytes ipid @ [0x00, 0x00] @ [64] @ [17]
                @ [0x00, 0x00] @ v4_octets src @ v4_octets dst"
  have pkt: "?pkt = ipv4_front n ipid [0, 0] @ v4_octets src @ v4_octets dst"
    by (simp add: ipv4_front_def n_def)
  have h: "slice_of (ipv4_front n ipid [0, 0] @ v4_octets src @ v4_octets dst) 0 20
      = Some (ipv4_front n ipid [0, 0] @ v4_octets src @ v4_octets dst)" by (simp add: slice_of_def)
  have cp: "copy_into (ipv4_front n ipid [0, 0] @ v4_octets src @ v4_octets dst) 10 (u16_bytes c1)
      = Some (ipv4_front n ipid (u16_bytes c1) @ v4_octets src @ v4_octets dst)"
    by (simp add: copy_into_def ipv4_front_def)
  let ?q = "ipv4_front n ipid (u16_bytes c1) @ v4_octets src @ v4_octets dst
     @ udp_front sport dport l [0, 0] @ payload"
  have q: "(ipv4_front n ipid (u16_bytes c1) @ v4_octets src @ v4_octets dst) @ u16_bytes sport @ u16_bytes dport
     @ u16_bytes (of_nat (8 + length payload)) @ [0x00, 0x00] @ payload = ?q"
    by (simp add: udp_front_def l_def)
  have a: "slice_of ?q 12 20 = Some (v4_octets src @ v4_octets dst)" by (simp add: slice_of_def)
  have u: "slice_from ?q 20 = Some (udp_front sport dport l [0, 0] @ payload)" by (simp add: slice_from_def)
  have cp2: "copy_into ?q 26 (u16_bytes c) = Some (ipv4_front n ipid (u16_bytes c1) @ v4_octets src @ v4_octets dst
     @ udp_front sport dport l (u16_bytes c) @ payload)" for c
    by (simp add: copy_into_def udp_front_def)
  show ?thesis
    unfolding build_udp_ipv4_def Let_def pkt h cp [unfolded c1_def] bind.bind_lunit
    unfolding c1_def [symmetric] q a u bind.bind_lunit cp2
    by (simp add: c2_def acc_def)
qed


lemma sum16_udp_front:
  "even (length c) \<Longrightarrow> sum16 (udp_front sport dport l c @ payload)
     = unat sport + unat dport + unat l + sum16 c + sum16 payload"
  by (simp add: udp_front_def sum16_append sum16_u16_bytes)

lemma udp_acc:
  assumes "k \<le> 65515"
  shows "unat (ones_complement_sum (v4_octets src @ v4_octets dst) 0 + 17 + of_nat k)
     = sum16 (v4_octets src @ v4_octets dst) + 17 + k"
    and "sum16 (v4_octets src @ v4_octets dst) + 17 + k < 400000"
proof -
  have b: "sum16 (v4_octets src @ v4_octets dst) \<le> 262140"
    using sum16_bound [of "v4_octets src @ v4_octets dst"] by simp
  then have "unat (ones_complement_sum (v4_octets src @ v4_octets dst) 0) = sum16 (v4_octets src @ v4_octets dst)"
    by (subst ones_complement_sum_spec) simp_all
  with b assms show "unat (ones_complement_sum (v4_octets src @ v4_octets dst) 0 + 17 + of_nat k)
     = sum16 (v4_octets src @ v4_octets dst) + 17 + k"
    by (simp add: unat_word_ariths)
  from b assms show "sum16 (v4_octets src @ v4_octets dst) + 17 + k < 400000" by linarith
qed

lemma udp_front_sum:
  fixes c :: u16
  assumes "length payload \<le> 65507" and "unat acc < 400000"
  shows "unat (ones_complement_sum (udp_front sport dport l (u16_bytes c) @ payload) acc)
     = unat (ones_complement_sum (udp_front sport dport l [0, 0] @ payload) acc) + unat c"
proof -
  have "65535 * ((length payload + 1) div 2) \<le> 65535 * 32754" using assms(1) by (intro mult_le_mono2) linarith
  then have p: "sum16 payload \<le> 65535 * 32754" using sum16_bound [of payload] by linarith
  have u: "unat sport < 65536" "unat dport < 65536" "unat l < 65536" "unat c < 65536" by simp_all
  have "sum16 (udp_front sport dport l (u16_bytes c) @ payload)
      = unat sport + unat dport + unat l + unat c + sum16 payload"
    by (simp add: sum16_udp_front sum16_u16_bytes)
  then have "unat acc + sum16 (udp_front sport dport l (u16_bytes c) @ payload) < 4294967296"
    using assms(2) p u by linarith
  moreover have "sum16 (udp_front sport dport l (u16_bytes c) @ payload)
      = sum16 (udp_front sport dport l [0, 0] @ payload) + unat c"
    by (simp add: sum16_udp_front sum16_u16_bytes)
  ultimately show ?thesis by (simp add: ones_complement_sum_spec)
qed

text \<open>
  The packet built around any payload of at most 65507 bytes (the UDP limit) is built without a
  panic, and both checksums hold for a receiver: the IPv4 header sums to zero, and the UDP
  pseudo-header together with the datagram sums to zero. The UDP checksum field is never zero,
  which would mean that there is no checksum.
\<close>

lemma udp_packet_checksums_valid:
  assumes "length payload \<le> 65507"
  shows "\<exists>pkt. build_udp_ipv4 ipid src dst sport dport payload = Some pkt
     \<and> length pkt = 28 + length payload
     \<and> fold_sum (ones_complement_sum (take 20 pkt) 0) = 0
     \<and> fold_sum (ones_complement_sum (drop 20 pkt)
          (ones_complement_sum (take 8 (drop 12 pkt)) 0 + 17 + of_nat (length pkt - 20))) = 0
     \<and> take 2 (drop 26 pkt) \<noteq> [0, 0]"
proof -
  let ?a = "v4_octets src @ v4_octets dst"
  let ?acc = "ones_complement_sum ?a 0 + 17 + of_nat (8 + length payload) :: u32"
  let ?l = "of_nat (8 + length payload) :: u16"
  let ?f = "ipv4_front (of_nat (28 + length payload)) ipid"
  let ?c1 = "fold_sum (ones_complement_sum (?f [0, 0] @ ?a) 0)"
  let ?s = "ones_complement_sum (udp_front sport dport ?l [0, 0] @ payload) ?acc"
  let ?c = "if fold_sum ?s = 0 then 0xffff else fold_sum ?s"
  let ?pkt = "?f (u16_bytes ?c1) @ v4_octets src @ v4_octets dst @ udp_front sport dport ?l (u16_bytes ?c) @ payload"
  have "unat ?acc < 400000" using assms udp_acc [of "8 + length payload" src dst] by linarith
  from udp_front_sum [OF assms this, of sport dport ?l ?c]
  have udp: "fold_sum (ones_complement_sum (udp_front sport dport ?l (u16_bytes ?c) @ payload) ?acc) = 0"
    by (rule fold_sum_filled_udp)
  have "fold_sum (ones_complement_sum ((?f [] @ u16_bytes ?c1) @ ?a) 0) = 0"
    using ex_ck.filled_sum [of "?f []" ?a ?c1] by (simp add: ipv4_front_def)
  then have ip: "fold_sum (ones_complement_sum (?f (u16_bytes ?c1) @ ?a) 0) = 0"
    by (simp add: ipv4_front_def)
  have nz: "u16_bytes ?c \<noteq> [0, 0]"
  proof
    assume "u16_bytes ?c = [0, 0]"
    then have "sum16 (u16_bytes ?c) = 0" by simp
    then have "?c = 0" by (simp only: sum16_u16_bytes unat_eq_zero)
    then show False by (simp split: if_splits)
  qed
  have "build_udp_ipv4 ipid src dst sport dport payload = Some ?pkt" by (rule build_udp_ipv4_form)
  moreover have "take 20 ?pkt = ?f (u16_bytes ?c1) @ ?a" "take 8 (drop 12 ?pkt) = ?a"
    "drop 20 ?pkt = udp_front sport dport ?l (u16_bytes ?c) @ payload" "length ?pkt = 28 + length payload"
    by simp_all
  moreover have "take 2 (drop 26 ?pkt) = u16_bytes ?c" by (simp add: udp_front_def)
  ultimately show ?thesis using ip udp nz by (intro exI [of _ ?pkt]) (simp del: take_append drop_append)
qed

lemma udp_packet_checksums_valid_witness:
  "\<exists>pkt. build_udp_ipv4 7 1 RESOLVER 20000 53 [1, 2, 3] = Some pkt \<and> length pkt = 31"
  using udp_packet_checksums_valid [of "[1, 2, 3]" 7 1 RESOLVER 20000 53] by auto


section \<open>The answer that comes back\<close>

lemma v4_new_octets:
  assumes "v4_octets w = [a, b, c, d]"
  shows "v4_new a b c d = w"
  using assms v4_of_bytes_octets [of w] by (simp add: v4_new_def v4_of_bytes_def)

lemma udp_payload_built:
  assumes "length payload \<le> 65507" and "build_udp_ipv4 ipid src dst sport dport payload = Some pkt"
  shows "udp_payload pkt src sport dport = Some (Some payload)"
proof -
  obtain n c1 c2 where pkt: "pkt = ipv4_front n ipid (u16_bytes c1) @ v4_octets src @ v4_octets dst
     @ udp_front sport dport (of_nat (8 + length payload)) (u16_bytes c2) @ payload"
    by (rule that [OF sym]) (rule assms(2) [unfolded build_udp_ipv4_form option.inject])
  obtain a b c d where o: "v4_octets src = [a, b, c, d]" and w: "src = v4_new a b c d"
    by (rule v4_octets_cases)
  have b0: "pkt ! 0 = 0x45" by (simp add: pkt ipv4_front_def)
  have ihl: "unat (pkt ! 0 AND 0x0f) * 4 = 20" by (simp add: b0)
  define udp where "udp = udp_front sport dport (of_nat (8 + length payload)) (u16_bytes c2) @ payload"
  have u: "drop 20 pkt = udp" by (simp add: pkt udp_def)
  have lp: "length pkt = 28 + length payload" "length udp = 8 + length payload"
    by (simp_all add: pkt udp_def)
  define w where "w = (of_nat (8 + length payload) :: u16)"
  have "unat w = 8 + length payload" using assms(1) by (simp only: w_def unat_of_nat_u16) simp
  moreover have "be_u16 (udp ! 4) (udp ! 5) = w"
    by (simp only: udp_def w_def [symmetric] udp_front_def u16_bytes_eq) simp
  ultimately have l: "unat (be_u16 (udp ! 4) (udp ! 5)) = 8 + length payload" by simp
  have p: "be_u16 (udp ! 0) (udp ! 1) = sport" "be_u16 (udp ! 2) (udp ! 3) = dport" "drop 8 udp = payload"
    by (simp_all add: udp_def udp_front_def u16_bytes_eq)
  have "be_u16 0 0 = 0" by (simp add: be_u16_def)
  then have "ipv4_udp_from pkt src sport dport 20 udp"
    unfolding ipv4_udp_from_def using ihl b0 lp p u
    by (simp add: pkt ipv4_front_def u16_bytes_eq o w [symmetric])
  then show ?thesis
    unfolding udp_payload_cases ihl u l using lp p by simp
qed

text \<open>A reply to the whoami question: flags, counts of other sections, TTL and the TXT text are free.\<close>

definition whoami_question :: bytes where
  "whoami_question = drop 12 (ex_build_query 0 WHOAMI_NAME QTYPE_TXT QCLASS_CH)"

definition txt_answer :: "bytes \<Rightarrow> bytes \<Rightarrow> bytes \<Rightarrow> bytes" where
  "txt_answer cls ttl txt = [0xc0, 0x0c] @ u16_bytes QTYPE_TXT @ cls @ ttl
     @ u16_bytes (of_nat (1 + length txt)) @ [of_nat (length txt)] @ txt"

definition whoami_reply :: "u16 \<Rightarrow> u8 \<Rightarrow> u8 \<Rightarrow> bytes \<Rightarrow> bytes \<Rightarrow> bytes \<Rightarrow> bytes \<Rightarrow> bytes" where
  "whoami_reply xid f1 f2 ns cls ttl txt =
     u16_bytes xid @ [f1, f2, 0, 1, 0, 1] @ ns @ whoami_question @ txt_answer cls ttl txt"

lemma whoami_question_eq:
  "whoami_question = qname (split_char CHR ''.'' WHOAMI_NAME) @ [0, 0, 16, 0, 3]"
  "qname (split_char CHR ''.'' WHOAMI_NAME) = [6, 119, 104, 111, 97, 109, 105, 10, 99, 108, 111, 117, 100, 102, 108, 97, 114, 101]"
  "ex_build_query xid WHOAMI_NAME QTYPE_TXT QCLASS_CH = query_header xid @ whoami_question"
  by (simp_all add: whoami_question_def ex_build_query_def query_header_def WHOAMI_NAME_def QTYPE_TXT_def QCLASS_CH_def
      as_bytes_def u16_bytes_eq qname_def enc_label_def)


lemma whoami_question_accepted:
  assumes "f1 AND 0x80 \<noteq> 0" and "length ns = 4"
  shows "question_matches (whoami_reply xid f1 f2 ns cls ttl txt) xid WHOAMI_NAME QTYPE_TXT QCLASS_CH = Some True"
proof -
  let ?ls = "split_char CHR ''.'' WHOAMI_NAME"
  let ?pre = "u16_bytes xid @ [f1, f2, 0, 1, 0, 1] @ ns"
  let ?rest = "[0, 0, 16, 0, 3] @ txt_answer cls ttl txt"
  let ?m = "whoami_reply xid f1 f2 ns cls ttl txt"
  have m: "?m = ?pre @ qname ?ls @ ?rest" by (simp add: whoami_reply_def whoami_question_eq(1))
  have ok: "dns_name_ok ?ls" by (simp add: WHOAMI_NAME_def dns_name_ok_def)
  have lq: "length (qname ?ls) = 18" by (simp add: whoami_question_eq(2))
  have ml: "match_labels ?m 12 ?ls = Some (Some 30)"
    unfolding m using match_labels_qname [OF ok, of ?pre 12 ?rest] assms(2) lq by simp
  have be1: "be_u16 0 1 = 1" "be_u16 0 16 = QTYPE_TXT" "be_u16 0 3 = QCLASS_CH"
    by (simp_all add: be_u16_def QTYPE_TXT_def QCLASS_CH_def)
  obtain n1 n2 n3 n4 where ns: "ns = [n1, n2, n3, n4]"
    using assms(2) by (auto simp: length_Suc_conv numeral_eq_Suc)
  have len: "35 \<le> length ?m" using assms(2) lq by (simp add: m)
  have hm: "header_matches ?m xid = Some True"
    using len assms(1) be1 by (simp add: header_matches_eq m u16_bytes_eq)
  have tail: "?m ! 30 = 0" "?m ! 31 = 0" "?m ! 32 = 16" "?m ! 33 = 0" "?m ! 34 = 3"
    unfolding m by (simp_all add: ns u16_bytes_eq whoami_question_eq(2))
  show ?thesis
    using len by (simp add: question_matches_def hm ml get_at_in field16_in tail be1)
qed


lemma txt_loop_one:
  assumes "length pre = Suc p" and "pre ! p = of_nat (length txt)" and "length txt < 256" and "from_utf8_lossy txt \<noteq> []"
  shows "txt_loop (pre @ txt) (length (pre @ txt)) p [] = Some (Some (from_utf8_lossy txt))"
proof -
  have l: "unat ((pre @ txt) ! p) = length txt" using assms(1-3) by (simp add: nth_append)
  have "txt_loop (pre @ txt) (length (pre @ txt)) (length (pre @ txt)) (from_utf8_lossy txt)
      = Some (Some (from_utf8_lossy txt))"
    using assms(4) by (subst txt_loop.simps) simp
  with assms l show ?thesis
    by (subst txt_loop.simps) (simp add: idx_in slice_of_in)
qed

lemma whoami_text:
  assumes "length ns = 4" and "length cls = 2" and "length ttl = 4" and "length txt < 256"
    and "from_utf8_lossy txt \<noteq> []"
  shows "first_txt_record (whoami_reply xid f1 f2 ns cls ttl txt) = Some (Some (from_utf8_lossy txt))"
proof -
  let ?m = "whoami_reply xid f1 f2 ns cls ttl txt"
  obtain n1 n2 n3 n4 c1 c2 t1 t2 t3 t4 where x: "ns = [n1, n2, n3, n4]" "cls = [c1, c2]" "ttl = [t1, t2, t3, t4]"
    using assms(1-3) by (auto simp: length_Suc_conv numeral_eq_Suc)
  obtain x1 x2 l1 l2 where b: "u16_bytes xid = [x1, x2]" "u16_bytes (of_nat (1 + length txt)) = [l1, l2]"
    and l: "be_u16 l1 l2 = of_nat (1 + length txt)"
    using be_u16_u16_bytes by (metis u16_bytes_eq)
  have rd: "unat (be_u16 l1 l2) = 1 + length txt" unfolding l using assms(4) by (simp only: unat_of_nat_u16) simp
  define pre where "pre = [x1, x2, f1, f2, 0, 1, 0, 1, n1, n2, n3, n4, 6, 119, 104, 111, 97, 109, 105, 10, 99, 108,
    111, 117, 100, 102, 108, 97, 114, 101, 0, 0, 16, 0, 3, 0xc0, 0x0c, 0, 16, c1, c2, t1, t2, t3, t4, l1, l2,
    of_nat (length txt)]"
  have m: "?m = pre @ txt"
    unfolding whoami_reply_def txt_answer_def x b whoami_question_eq
    by (simp add: pre_def QTYPE_TXT_def u16_bytes_eq)
  have lp: "length pre = 48" by (simp add: pre_def)
  have nth: "(pre @ txt) ! k = pre ! k" if "k < 48" for k using that by (simp add: nth_append lp)
  have s1: "ex_skip_name (pre @ txt) 30 = Some 31"
    by (subst ex_skip_name.simps) (simp add: get_at_in lp nth, simp add: pre_def)
  have s2: "ex_skip_name (pre @ txt) 19 = Some 31"
    by (subst ex_skip_name.simps) (simp add: get_at_in lp nth, simp add: pre_def s1 [unfolded pre_def, simplified])
  have s3: "ex_skip_name (pre @ txt) 12 = Some 31"
    by (subst ex_skip_name.simps) (simp add: get_at_in lp nth, simp add: pre_def s2 [unfolded pre_def, simplified])
  have s4: "ex_skip_name (pre @ txt) 35 = Some 37"
    by (subst ex_skip_name.simps) (simp add: get_at_in lp nth, simp add: pre_def)
  have f: "field16 (pre @ txt) 4 = Some 1" "field16 (pre @ txt) 6 = Some 1" "field16 (pre @ txt) 37 = Some QTYPE_TXT"
    "field16 (pre @ txt) 45 = Some (be_u16 l1 l2)"
    by (simp_all add: field16_in lp nth) (simp_all add: pre_def be_u16_def QTYPE_TXT_def)
  have loop: "txt_loop (pre @ txt) (48 + length txt) 47 [] = Some (Some (from_utf8_lossy txt))"
    using txt_loop_one [of pre 47 "txt"] assms(4,5) by (simp add: lp, simp add: pre_def)
  have one: "unat (1::u16) = Suc 0" by simp
  show ?thesis
    unfolding m first_txt_record_def f one
    by (simp add: lp s3 s4 f rd loop)
qed


lemma ascii_show_v4_length: "length (as_bytes (show_v4 w)) < 256"
proof -
  obtain a b c d where o: "v4_octets w = [a, b, c, d]" by (rule v4_octets_cases)
  show ?thesis
    using length_show_octet [of a] length_show_octet [of b] length_show_octet [of c] length_show_octet [of d]
    by (simp add: show_v4_def o)
qed

lemma whoami_fields:
  "whoami xid r ipid src = Some p \<Longrightarrow> pr_id p = xid \<and> pr_name p = WHOAMI_NAME \<and> pr_sport p = 20000 + (r mod 40000)"
  by (auto simp: whoami_def Let_def bind_eq_Some_conv)

text \<open>
  The probe measures the exit address. For every probe that \<open>Probe::whoami\<close> builds, a reply from
  the resolver to the probe's port that echoes its id and question and carries an address in
  dotted-decimal form as its TXT answer, with any flags that include the response bit, any other
  counts, class and TTL, is recognised, and reading it gives exactly that address.
\<close>

lemma whoami_reply_yields_exit_address:
  assumes "whoami xid r ipid src = Some p" and "f1 AND 0x80 \<noteq> 0"
    and "length ns = 4" and "length cls = 2" and "length ttl = 4"
    and "build_udp_ipv4 ipid' RESOLVER src DNS_PORT (pr_sport p)
           (whoami_reply xid f1 f2 ns cls ttl (as_bytes (show_v4 exit))) = Some packet"
  shows "probe_matches p packet = Some True \<and> probe_read p packet = Some (Some exit)"
proof -
  let ?txt = "as_bytes (show_v4 exit)"
  let ?m = "whoami_reply xid f1 f2 ns cls ttl ?txt"
  have t: "from_utf8_lossy ?txt = show_v4 exit" by (rule from_utf8_lossy_show_v4)
  have "length ?m < 304"
    using ascii_show_v4_length [of exit] assms(3-5)
    by (simp add: whoami_reply_def txt_answer_def whoami_question_eq)
  then have "length ?m \<le> 65507" by simp
  then have u: "udp_payload packet RESOLVER DNS_PORT (pr_sport p) = Some (Some ?m)"
    using assms(6) by (rule udp_payload_built)
  have "first_txt_record ?m = Some (Some (show_v4 exit))"
    using whoami_text [OF assms(3-5) ascii_show_v4_length] show_v4_ne by (simp add: t)
  then show ?thesis
    using u whoami_question_accepted [OF assms(2,3)] whoami_fields [OF assms(1)]
    by (simp add: probe_matches_def probe_read_def trim_show_v4 parse_ipv4_show)
qed

lemma whoami_reply_yields_exit_address_witness:
  "\<exists>p packet. whoami 7 5 9 1 = Some p \<and> probe_read p packet = Some (Some (v4_new 203 0 113 7))"
proof -
  obtain p where p: "whoami 7 5 9 1 = Some p"
    by (simp add: whoami_def build_udp_ipv4_form Let_def)
  obtain packet where q: "build_udp_ipv4 3 RESOLVER 1 DNS_PORT (pr_sport p)
      (whoami_reply 7 0x81 0x80 [0, 0, 0, 0] [0, 3] [0, 0, 0, 60] (as_bytes (show_v4 (v4_new 203 0 113 7)))) = Some packet"
    by (simp add: build_udp_ipv4_form)
  have "probe_read p packet = Some (Some (v4_new 203 0 113 7))"
    using whoami_reply_yields_exit_address [OF p _ _ _ _ q] by simp
  with p show ?thesis by blast
qed

text \<open>
  The probe leaves the user's traffic alone. A packet is claimed as the probe's reply only if
  it is an unfragmented IPv4/UDP packet from 1.1.1.1, port 53, to the probe's source port, and its
  DNS payload carries the probe's transaction id with the response bit and one question.
\<close>

lemma probe_leaves_user_traffic:
  assumes "probe_matches p packet = Some True"
  shows "\<exists>ihl udp payload. ipv4_udp_from packet RESOLVER DNS_PORT (pr_sport p) ihl udp
     \<and> payload = take (unat (be_u16 (udp ! 4) (udp ! 5)) - 8) (drop 8 udp)
     \<and> 12 \<le> length payload \<and> be_u16 (payload ! 0) (payload ! 1) = pr_id p
     \<and> payload ! 2 AND 0x80 \<noteq> 0 \<and> be_u16 (payload ! 4) (payload ! 5) = 1"
proof -
  let ?ihl = "unat (packet ! 0 AND 0x0f) * 4"
  let ?udp = "drop ?ihl packet"
  obtain payload where u: "udp_payload packet RESOLVER DNS_PORT (pr_sport p) = Some (Some payload)"
    and q: "question_matches payload (pr_id p) (pr_name p) QTYPE_TXT QCLASS_CH = Some True"
    using assms by (auto simp: probe_matches_def bind_eq_Some_conv split: option.splits)
  from u have "ipv4_udp_from packet RESOLVER DNS_PORT (pr_sport p) ?ihl ?udp
     \<and> payload = take (unat (be_u16 (?udp ! 4) (?udp ! 5)) - 8) (drop 8 ?udp)"
    unfolding udp_payload_cases by (auto split: if_splits)
  moreover from q have len: "12 \<le> length payload"
    by (auto simp: question_matches_def split: if_splits)
  moreover from q len have "be_u16 (payload ! 0) (payload ! 1) = pr_id p
     \<and> payload ! 2 AND 0x80 \<noteq> 0 \<and> be_u16 (payload ! 4) (payload ! 5) = 1"
    by (auto simp: question_matches_def header_matches_eq bind_eq_Some_conv split: if_splits)
  ultimately show ?thesis by blast
qed

definition sample_reply :: bytes where
  "sample_reply = the (build_udp_ipv4 3 RESOLVER 1 DNS_PORT 20005
      (whoami_reply 7 0x81 0x80 [0, 0, 0, 0] [0, 3] [0, 0, 0, 60] [49]))"

lemma probe_leaves_user_traffic_witness:
  "\<exists>ihl udp. ipv4_udp_from sample_reply RESOLVER DNS_PORT 20005 ihl udp"
proof -
  obtain packet where q: "build_udp_ipv4 3 RESOLVER 1 DNS_PORT 20005
      (whoami_reply 7 0x81 0x80 [0, 0, 0, 0] [0, 3] [0, 0, 0, 60] [49]) = Some packet"
    by (simp add: build_udp_ipv4_form)
  let ?p = "\<lparr>pr_packet = [], pr_sport = 20005, pr_id = 7, pr_name = WHOAMI_NAME\<rparr>"
  have "udp_payload packet RESOLVER DNS_PORT 20005
      = Some (Some (whoami_reply 7 0x81 0x80 [0, 0, 0, 0] [0, 3] [0, 0, 0, 60] [49]))"
    by (rule udp_payload_built [OF _ q]) (simp add: whoami_reply_def txt_answer_def whoami_question_eq)
  then have "probe_matches ?p packet = Some True"
    using whoami_question_accepted [of "0x81" "[0, 0, 0, 0]" 7 "0x80" "[0, 3]" "[0, 0, 0, 60]" "[49]"]
    by (simp add: probe_matches_def)
  from probe_leaves_user_traffic [OF this] q show ?thesis by (auto simp: sample_reply_def)
qed

end
