(* ===== verification/Tun.thy ===== *)
theory Tun
  imports ExitIp "HOL-Library.Sublist"
begin

text \<open>
  The packet bridge of \<open>tun.rs\<close>: clamping of the TCP maximum segment size in both directions, header
  parsing for the DNS interceptor, the state machine that drives the exit-address measurement, and
  the loop that moves packets between the device and the tunnel.

  Instants are \<open>nat\<close> (milliseconds since some origin). An iteration of the bridge loop is a step on
  an explicit state; what the environment decides (the event that fired, the clock, the MTU hint, the
  random numbers, whether a write or a send succeeds, the answer of the DNS engine) is an argument.
\<close>

section \<open>The maximum segment size\<close>

definition IP_TCP_OVERHEAD :: nat where "IP_TCP_OVERHEAD = 40 + 20"

definition recompute_tcp_checksum :: "bytes \<Rightarrow> nat \<Rightarrow> u8 \<Rightarrow> bytes rust" where
  "recompute_tcp_checksum packet ip_header_len version =
     (if length packet < ip_header_len then None
      else let tcp_len = length packet - ip_header_len in do {
        packet \<leftarrow> copy_into packet (ip_header_len + 16) [0, 0];
        a \<leftarrow> (if version = 4 then slice_of packet 12 20 else slice_of packet 8 40);
        t \<leftarrow> slice_from packet ip_header_len;
        let acc = ones_complement_sum a 0 + 6 + of_nat tcp_len;
        copy_into packet (ip_header_len + 16) (u16_bytes (fold_sum (ones_complement_sum t acc))) })"

text \<open>
  The loop over the TCP options. The result is the return value and the packet; \<open>break\<close> and the end
  of the loop both return \<open>false\<close>.
\<close>

function mss_loop :: "bytes \<Rightarrow> nat \<Rightarrow> u8 \<Rightarrow> u16 \<Rightarrow> nat \<Rightarrow> nat \<Rightarrow> (bool \<times> bytes) rust" where
  "mss_loop packet ip_header_len version target options_end i =
     (if i + 1 < options_end then
        (case (idx packet i, idx packet (i + 1)) of
           (Some kind, Some len) \<Rightarrow>
             if kind = 0 then Some (False, packet)
             else if kind = 1 then mss_loop packet ip_header_len version target options_end (i + 1)
             else if kind = 2 then
               (if len \<noteq> 4 \<or> i + 4 > options_end then Some (False, packet)
                else (case field16 packet (i + 2) of
                        None \<Rightarrow> None
                      | Some current \<Rightarrow>
                          if current \<le> target then Some (False, packet)
                          else do {
                            packet \<leftarrow> copy_into packet (i + 2) (u16_bytes target);
                            packet \<leftarrow> recompute_tcp_checksum packet ip_header_len version;
                            Some (True, packet) }))
             else if unat len < 2 then Some (False, packet)
             else mss_loop packet ip_header_len version target options_end (i + unat len)
         | _ \<Rightarrow> None)
      else Some (False, packet))"
  by pat_completeness auto
termination
  by (relation "measure (\<lambda>(packet, hl, v, target, options_end, i). options_end - i)") auto

declare mss_loop.simps [simp del]

text \<open>The IP header of the two versions: its length and the transport protocol, or an early return.\<close>

definition ip_header :: "bytes \<Rightarrow> (u8 \<times> nat \<times> u8) option rust" where
  "ip_header packet = do {
     b0 \<leftarrow> idx packet 0;
     let version = drop_bit 4 b0;
     if version = 4 then
       (if length packet < 20 then Some None
        else do { proto \<leftarrow> idx packet 9; Some (Some (version, unat (b0 AND 0x0f) * 4, proto)) })
     else if version = 6 then
       (if length packet < 40 then Some None
        else do { proto \<leftarrow> idx packet 6; Some (Some (version, 40, proto)) })
     else Some None }"

definition clamp_tcp_mss :: "bytes \<Rightarrow> nat \<Rightarrow> (bool \<times> bytes) rust" where
  "clamp_tcp_mss packet max_inner =
     (if packet = [] then Some (False, packet)
      else (case ip_header packet of
         None \<Rightarrow> None
       | Some None \<Rightarrow> Some (False, packet)
       | Some (Some (version, ip_header_len, protocol)) \<Rightarrow>
           if protocol \<noteq> 6 \<or> length packet < ip_header_len + 20 then Some (False, packet)
           else let tcp = ip_header_len in do {
             flags \<leftarrow> idx packet (tcp + 13);
             if flags AND 0x02 = 0 then Some (False, packet)
             else do {
               off \<leftarrow> idx packet (tcp + 12);
               let data_offset = unat (drop_bit 4 off) * 4;
               if data_offset < 20 \<or> length packet < tcp + data_offset then Some (False, packet)
               else let target = max_inner - IP_TCP_OVERHEAD in
               if target = 0 \<or> target > 65535 then Some (False, packet)
               else mss_loop packet ip_header_len version (of_nat target) (tcp + data_offset) (tcp + 20) } }))"

section \<open>Header parsing for the DNS interceptor\<close>

definition parse_ipv4_header :: "bytes \<Rightarrow> nat option rust" where
  "parse_ipv4_header packet =
     (if length packet < 20 then Some None
      else do {
        b0 \<leftarrow> idx packet 0;
        if drop_bit 4 b0 \<noteq> 4 then Some None
        else let ihl = unat (b0 AND 0x0f) * 4 in
        if ihl < 20 \<or> length packet < ihl then Some None else Some (Some ihl) })"

function ipv6_ext_loop :: "bytes \<Rightarrow> u8 \<Rightarrow> nat \<Rightarrow> nat option rust" where
  "ipv6_ext_loop packet next' offset =
     (if next' = 17 then Some (Some offset)
      else if next' \<in> {0, 43, 44, 50, 51, 60} then
        (if offset + 2 > length packet then Some None
         else (case (idx packet offset, idx packet (offset + 1)) of
                 (Some n, Some l) \<Rightarrow>
                   let offset = offset + 8 * (unat l + 1) in
                   if offset + 8 > length packet then Some None else ipv6_ext_loop packet n offset
               | _ \<Rightarrow> None))
      else Some None)"
  by pat_completeness auto
termination
  by (relation "measure (\<lambda>(packet, next', offset). length packet - offset)") auto

declare ipv6_ext_loop.simps [simp del]

definition parse_ipv6_header :: "bytes \<Rightarrow> nat option rust" where
  "parse_ipv6_header packet =
     (if length packet < 48 then Some None
      else do {
        b0 \<leftarrow> idx packet 0;
        if drop_bit 4 b0 \<noteq> 6 then Some None
        else do { next' \<leftarrow> idx packet 6; ipv6_ext_loop packet next' 40 } })"

section \<open>Clamping is safe and correct\<close>

declare add_2_eq_Suc [simp del] add_2_eq_Suc' [simp del]

text \<open>The sum a TCP receiver computes over the pseudo-header and the segment.\<close>

definition tcp_sum :: "bytes \<Rightarrow> nat \<Rightarrow> u8 \<Rightarrow> u16" where
  "tcp_sum packet hl version =
     fold_sum (ones_complement_sum (drop hl packet)
       (ones_complement_sum (if version = 4 then take 8 (drop 12 packet) else take 32 (drop 8 packet)) 0
        + 6 + of_nat (length packet - hl)))"

definition ip_header_ok :: "nat \<Rightarrow> u8 \<Rightarrow> bool" where
  "ip_header_ok hl version \<longleftrightarrow> (if version = 4 then 20 \<le> hl else 40 \<le> hl)"

lemma recompute_eq:
  assumes "hl + 20 \<le> length packet" and "length packet \<ge> (if version = 4 then 20 else 40)"
  defines "q \<equiv> take (hl + 16) packet @ [0, 0] @ drop (hl + 18) packet"
  defines "acc \<equiv> ones_complement_sum (if version = 4 then take 8 (drop 12 q) else take 32 (drop 8 q)) 0
     + 6 + of_nat (length packet - hl)"
  shows "recompute_tcp_checksum packet hl version = Some (take (hl + 16) packet
     @ u16_bytes (fold_sum (ones_complement_sum (drop hl q) acc)) @ drop (hl + 18) packet)"
proof -
  have q: "copy_into packet (hl + 16) [0, 0] = Some q" and lq: "length q = length packet"
    using assms(1) by (simp_all add: q_def copy_into_def add.commute)
  have a: "(if version = 4 then slice_of q 12 20 else slice_of q 8 40)
      = Some (if version = 4 then take 8 (drop 12 q) else take 32 (drop 8 q))"
    using assms(2) by (auto simp: slice_of_def lq split: if_splits)
  have t: "slice_from q hl = Some (drop hl q)"
    using assms(1) by (simp add: slice_from_def lq)
  have fin: "copy_into q (hl + 16) (u16_bytes c) = Some (take (hl + 16) packet @ u16_bytes c @ drop (hl + 18) packet)" for c
    using assms(1) by (simp add: copy_into_def q_def add.commute)
  show ?thesis
    using assms(1) unfolding recompute_tcp_checksum_def q bind.bind_lunit a t Let_def acc_def fin by simp
qed

text \<open>
  With an IP header of legal length the checksum field lies outside the addresses, and the
  recomputed checksum makes the receiver's sum zero.
\<close>

lemma recompute_sum:
  assumes "hl + 20 \<le> length packet" and "ip_header_ok hl version" and "length packet \<le> 65535"
    and "recompute_tcp_checksum packet hl version = Some p'"
  shows "tcp_sum p' hl version = 0"
proof -
  let ?a = "if version = 4 then take 8 (drop 12 packet) else take 32 (drop 8 packet)"
  let ?acc = "ones_complement_sum ?a 0 + 6 + of_nat (length packet - hl) :: u32"
  let ?pre = "take 16 (drop hl packet)" and ?post = "drop (hl + 18) packet"
  let ?s = "ones_complement_sum (?pre @ [0, 0] @ ?post) ?acc"
  have d: "drop hl (take (hl + 16) packet) = ?pre" by (simp add: drop_take)
  have dq: "drop hl (take (hl + 16) packet @ cs @ ?post) = ?pre @ cs @ ?post" for cs
    using assms(1) by (simp add: d)
  have adr: "(if version = 4 then take 8 (drop 12 (take (hl + 16) packet @ r)) else take 32 (drop 8 (take (hl + 16) packet @ r))) = ?a" for r
    using assms(1,2) by (auto simp: ip_header_ok_def drop_take min_def)
  have "length packet \<ge> (if version = 4 then 20 else 40)"
    using assms(1,2) by (auto simp: ip_header_ok_def split: if_splits)
  from recompute_eq [OF assms(1) this]
  have p': "p' = take (hl + 16) packet @ u16_bytes (fold_sum ?s) @ ?post"
    unfolding dq adr using assms(4) by simp
  have lp: "length p' = length packet" using assms(1) by (simp add: p')
  have la: "length ?a \<le> 32" by (auto simp: min_def)
  then have "65535 * ((length ?a + 1) div 2) \<le> 65535 * 16" by (intro mult_le_mono2) linarith
  then have sa: "sum16 ?a \<le> 1048560" using sum16_bound [of ?a] by linarith
  then have "unat (ones_complement_sum ?a 0) = sum16 ?a" by (subst ones_complement_sum_spec) simp_all
  then have ub: "unat ?acc < 1200000"
    using sa assms(3) by (simp add: unat_word_ariths)
  have l16: "length ?pre = 16" using assms(1) by simp
  have "65535 * ((length ?post + 1) div 2) \<le> 65535 * 32768" using assms(3) by (intro mult_le_mono2) simp
  then have sp: "sum16 ?post \<le> 65535 * 32768" using sum16_bound [of ?post] by linarith
  have spre: "sum16 ?pre \<le> 65535 * 8" using sum16_bound [of ?pre] l16 by simp
  have "fold_sum (ones_complement_sum (?pre @ u16_bytes (fold_sum ?s) @ ?post) ?acc) = 0"
    using ub sp spre l16 by (intro field_filled [OF _ _ refl]) simp_all
  then show ?thesis unfolding tcp_sum_def lp unfolding p' dq adr by simp
qed


text \<open>What a successful clamp did: the option at \<open>j\<close> held a larger size, now it holds \<open>target\<close>.\<close>

definition mss_rewritten :: "bytes \<Rightarrow> nat \<Rightarrow> u8 \<Rightarrow> u16 \<Rightarrow> nat \<Rightarrow> nat \<Rightarrow> bytes \<Rightarrow> bool" where
  "mss_rewritten packet hl version target options_end j packet' \<longleftrightarrow>
     hl + 20 \<le> j \<and> j + 4 \<le> options_end \<and> options_end \<le> length packet
     \<and> packet ! j = 2 \<and> packet ! (j + 1) = 4 \<and> target < be_u16 (packet ! (j + 2)) (packet ! (j + 3))
     \<and> recompute_tcp_checksum (take (j + 2) packet @ u16_bytes target @ drop (j + 4) packet) hl version = Some packet'"

lemma copy_option:
  assumes "i + 4 \<le> length packet"
  shows "copy_into packet (i + 2) (u16_bytes w) = Some (take (i + 2) packet @ u16_bytes w @ drop (i + 4) packet)"
    and "length (take (i + 2) packet @ u16_bytes w @ drop (i + 4) packet) = length packet"
proof -
  have e: "i + 2 + length (u16_bytes w) = i + 4" by simp
  show "copy_into packet (i + 2) (u16_bytes w) = Some (take (i + 2) packet @ u16_bytes w @ drop (i + 4) packet)"
    unfolding copy_into_def e using assms by simp
  show "length (take (i + 2) packet @ u16_bytes w @ drop (i + 4) packet) = length packet"
    using assms by simp
qed

lemma mss_loop_cases:
  assumes "options_end \<le> length packet" and "hl + 20 \<le> i"
    and "length packet \<ge> (if version = 4 then 20 else 40)"
  shows "\<exists>r. mss_loop packet hl version target options_end i = Some r
     \<and> (r = (False, packet) \<or> (\<exists>j p'. r = (True, p') \<and> mss_rewritten packet hl version target options_end j p'))"
  using assms
proof (induction packet hl version target options_end i rule: mss_loop.induct)
  case (1 packet hl version target options_end i)
  show ?case
  proof (cases "i + 1 < options_end")
    case True
    with "1.prems" have i: "idx packet i = Some (packet ! i)" "idx packet (i + 1) = Some (packet ! (i + 1))"
      by (simp_all add: idx_in)
    consider "packet ! i = 0" | "packet ! i = 1" | "packet ! i = 2"
      | "packet ! i \<noteq> 0" "packet ! i \<noteq> 1" "packet ! i \<noteq> 2" by blast
    then show ?thesis
    proof cases
      case 1
      with True i show ?thesis by (subst mss_loop.simps) simp
    next
      case 2
      with True i "1.IH"(1) [OF True _ refl refl] "1.prems" show ?thesis
        by (subst mss_loop.simps) simp
    next
      case 3
      show ?thesis
      proof (cases "packet ! (i + 1) \<noteq> 4 \<or> i + 4 > options_end \<or> be_u16 (packet ! (i + 2)) (packet ! (i + 3)) \<le> target")
        case True
        with 3 i \<open>i + 1 < options_end\<close> "1.prems" show ?thesis
          by (subst mss_loop.simps) (auto simp: field16_in numeral_3_eq_3 numeral_2_eq_2)
      next
        case False
        let ?q = "take (i + 2) packet @ u16_bytes target @ drop (i + 4) packet"
        have f: "field16 packet (i + 2) = Some (be_u16 (packet ! (i + 2)) (packet ! (i + 3)))"
          using False "1.prems" field16_in [of "i + 2" packet] by (simp add: numeral_3_eq_3)
        have l4: "i + 4 \<le> length packet" using False "1.prems" by simp
        note c = copy_option(1) [OF l4, of target] and lq = copy_option(2) [OF l4, of target]
        have "hl + 20 \<le> length ?q" using lq "1.prems" False by simp
        then obtain p' where p': "recompute_tcp_checksum ?q hl version = Some p'"
          using recompute_eq [of hl ?q version] lq "1.prems"(3) by (simp only: lq)
        have "mss_loop packet hl version target options_end i = Some (True, p')"
          using 3 i \<open>i + 1 < options_end\<close> False by (subst mss_loop.simps) (simp add: f c p')
        moreover have "mss_rewritten packet hl version target options_end i p'"
          using 3 False "1.prems" p' by (simp add: mss_rewritten_def not_le)
        ultimately show ?thesis by blast
      qed
    next
      case 4
      show ?thesis
      proof (cases "unat (packet ! (i + 1)) < 2")
        case True
        with 4 i \<open>i + 1 < options_end\<close> show ?thesis by (subst mss_loop.simps) simp
      next
        case False
        with 4 True i "1.IH"(2) [OF True _ refl refl] "1.prems" show ?thesis
          by (subst mss_loop.simps) simp
      qed
    qed
  next
    case False
    then show ?thesis by (subst mss_loop.simps) simp
  qed
qed


lemma ip_header_total: "packet \<noteq> [] \<Longrightarrow> ip_header packet \<noteq> None"
  by (auto simp: ip_header_def idx_in Let_def)

lemma ip_header_shape:
  assumes "ip_header packet = Some (Some (v, hl, proto))"
  shows "length packet \<ge> (if v = 4 then 20 else 40)"
    and "v = 4 \<Longrightarrow> hl = unat (packet ! 0 AND 0x0f) * 4" and "v \<noteq> 4 \<Longrightarrow> hl = 40" and "v = drop_bit 4 (packet ! 0)"
  using assms by (auto simp: ip_header_def idx_Some_iff Let_def bind_eq_Some_conv split: if_splits)

text \<open>The ways \<open>clamp_tcp_mss\<close> can return.\<close>

definition clamped :: "bytes \<Rightarrow> nat \<Rightarrow> bytes \<Rightarrow> bool" where
  "clamped packet max_inner packet' \<longleftrightarrow>
     (\<exists>v hl options_end j. ip_header packet = Some (Some (v, hl, 6)) \<and> hl + 20 \<le> length packet
        \<and> packet ! (hl + 13) AND 0x02 \<noteq> 0 \<and> 60 < max_inner \<and> max_inner \<le> 65595
        \<and> mss_rewritten packet hl v (of_nat (max_inner - 60)) options_end j packet')"

lemma clamp_cases:
  "\<exists>r. clamp_tcp_mss packet max_inner = Some r
     \<and> (r = (False, packet) \<or> (\<exists>p'. r = (True, p') \<and> clamped packet max_inner p'))"
proof (cases "packet = []")
  case False
  obtain h where h: "ip_header packet = Some h" using ip_header_total [OF False] by blast
  show ?thesis
  proof (cases h)
    case None
    with False h show ?thesis by (simp add: clamp_tcp_mss_def)
  next
    case (Some t)
    obtain v hl proto where t: "t = (v, hl, proto)" by (cases t)
    let ?do = "unat (drop_bit 4 (packet ! (hl + 12))) * 4"
    note h' = h [unfolded Some t]
    show ?thesis
    proof (cases "proto = 6 \<and> hl + 20 \<le> length packet \<and> packet ! (hl + 13) AND 0x02 \<noteq> 0 \<and> 20 \<le> ?do
        \<and> hl + ?do \<le> length packet \<and> 60 < max_inner \<and> max_inner \<le> 65595")
      case True
      then have eq: "clamp_tcp_mss packet max_inner
          = mss_loop packet hl v (of_nat (max_inner - 60)) (hl + ?do) (hl + 20)"
        using False h' by (auto simp: clamp_tcp_mss_def idx_in IP_TCP_OVERHEAD_def Let_def simp del: of_nat_diff)
      have "hl + ?do \<le> length packet" using True by blast
      from mss_loop_cases [OF this order_refl ip_header_shape(1) [OF h'], of hl "of_nat (max_inner - 60)"]
      show ?thesis unfolding eq clamped_def using h' True by blast
    next
      case False
      then show ?thesis using \<open>packet \<noteq> []\<close> h'
        by (auto simp: clamp_tcp_mss_def idx_in IP_TCP_OVERHEAD_def Let_def)
    qed
  qed
qed (simp add: clamp_tcp_mss_def)

lemma mss_rewritten_effect:
  assumes "mss_rewritten packet hl v target options_end j p'" and "length packet \<ge> (if v = 4 then 20 else 40)"
  shows "length p' = length packet"
    and "be_u16 (p' ! (j + 2)) (p' ! (j + 3)) = target"
    and "k \<notin> {j + 2, j + 3, hl + 16, hl + 17} \<Longrightarrow> p' ! k = packet ! k"
    and "ip_header_ok hl v \<Longrightarrow> length packet \<le> 65535 \<Longrightarrow> tcp_sum p' hl v = 0"
proof -
  define q where "q = take (j + 2) packet @ u16_bytes target @ drop (j + 4) packet"
  have j: "hl + 20 \<le> j" "j + 4 \<le> length packet" and rc: "recompute_tcp_checksum q hl v = Some p'"
    using assms(1) by (auto simp: mss_rewritten_def q_def)
  have lq: "length q = length packet" unfolding q_def by (rule copy_option(2) [OF j(2)])
  have hq: "hl + 20 \<le> length q" unfolding lq using j by simp
  obtain c where p': "p' = take (hl + 16) q @ u16_bytes c @ drop (hl + 18) q"
    by (rule that [OF sym]) (rule rc [unfolded recompute_eq [OF hq assms(2) [folded lq]] option.inject])
  show l: "length p' = length packet" unfolding p' using hq lq by simp
  have a: "hl + 16 + 2 = hl + 18" "j + 2 + 2 = j + 4" by simp_all
  have n1: "p' ! k = (if k = hl + 16 then of_nat (unat c div 256) else if k = hl + 16 + 1 then of_nat (unat c) else q ! k)" for k
    using nth_splice2 [of "hl + 16" q "of_nat (unat c div 256)" "of_nat (unat c)" k] hq
    unfolding p' u16_bytes_eq a by simp
  have n2: "q ! k = (if k = j + 2 then of_nat (unat target div 256) else if k = j + 2 + 1 then of_nat (unat target) else packet ! k)" for k
    using nth_splice2 [of "j + 2" packet "of_nat (unat target div 256)" "of_nat (unat target)" k] j(2)
    unfolding q_def u16_bytes_eq a by simp
  show "be_u16 (p' ! (j + 2)) (p' ! (j + 3)) = target"
    using j(1) by (simp add: n1 n2)
  show "k \<notin> {j + 2, j + 3, hl + 16, hl + 17} \<Longrightarrow> p' ! k = packet ! k"
    by (simp add: n1 n2)
  show "ip_header_ok hl v \<Longrightarrow> length packet \<le> 65535 \<Longrightarrow> tcp_sum p' hl v = 0"
    using recompute_sum [OF hq _ _ rc] lq by simp
qed


lemma ipv6_ext_loop_total: "ipv6_ext_loop packet next' offset \<noteq> None"
proof (induction packet next' offset rule: ipv6_ext_loop.induct)
  case (1 packet next' offset)
  then show ?case by (subst ipv6_ext_loop.simps) (auto simp: idx_in Let_def)
qed

lemma parse_headers_total: "parse_ipv4_header packet \<noteq> None" "parse_ipv6_header packet \<noteq> None"
proof -
  show "parse_ipv4_header packet \<noteq> None" by (auto simp: parse_ipv4_header_def idx_def Let_def)
  show "parse_ipv6_header packet \<noteq> None"
    using ipv6_ext_loop_total by (auto simp: parse_ipv6_header_def idx_def Let_def)
qed


text \<open>A SYN of 44 bytes that announces an MSS of 1460, with a zero checksum field.\<close>

definition sample_syn :: bytes where
  "sample_syn = [0x45, 0, 0, 44, 0, 0, 0, 0, 64, 6, 0, 0, 10, 0, 0, 2, 1, 1, 1, 1,
     156, 64, 1, 187, 0, 0, 0, 0, 0, 0, 0, 0, 0x60, 2, 0, 0, 0, 0, 0, 0, 2, 4, 5, 180]"


section \<open>The exit-address state machine\<close>

definition FIRST_DELAY :: nat where "FIRST_DELAY = 1200"
definition RETRY_GAP :: nat where "RETRY_GAP = 3000"
definition MAX_ATTEMPTS :: nat where "MAX_ATTEMPTS = 4"

datatype probe_state = Idle | Waiting probe nat nat | Finished

record exit_probe =
  ep_local_ipv4 :: u32
  ep_state :: probe_state
  ep_start_after :: "nat option"

definition exit_probe_new :: "u32 \<Rightarrow> exit_probe" where
  "exit_probe_new local_ipv4 = \<lparr>ep_local_ipv4 = local_ipv4, ep_state = Idle, ep_start_after = None\<rparr>"

definition needs_ticking :: "exit_probe \<Rightarrow> bool" where
  "needs_ticking ep \<longleftrightarrow> ep_state ep \<noteq> Finished"

definition arm :: "nat \<Rightarrow> exit_probe \<Rightarrow> exit_probe" where
  "arm now ep =
     (if ep_start_after ep = None then ep\<lparr>ep_start_after := Some (now + FIRST_DELAY)\<rparr> else ep)"

text \<open>The random numbers of \<open>Probe::whoami\<close>: transaction id, port seed, IP identification.\<close>

type_synonym probe_rand = "u16 \<times> u16 \<times> u16"

definition due :: "probe_rand \<Rightarrow> nat \<Rightarrow> exit_probe \<Rightarrow> (bytes option \<times> exit_probe) rust" where
  "due rnd now ep =
     (if ep_local_ipv4 ep = 0 then Some (None, ep\<lparr>ep_state := Finished\<rparr>)
      else (case ep_state ep of
        Idle \<Rightarrow>
          (case ep_start_after ep of
             None \<Rightarrow> Some (None, ep)
           | Some at \<Rightarrow>
               if now < at then Some (None, ep)
               else (case rnd of (xid, r, ipid) \<Rightarrow> do {
                 p \<leftarrow> whoami xid r ipid (ep_local_ipv4 ep);
                 Some (Some (pr_packet p), ep\<lparr>ep_state := Waiting p 1 (now + RETRY_GAP)\<rparr>) }))
      | Waiting p attempts next' \<Rightarrow>
          if now < next' then Some (None, ep)
          else if attempts \<ge> MAX_ATTEMPTS then Some (None, ep\<lparr>ep_state := Finished\<rparr>)
          else Some (Some (pr_packet p), ep\<lparr>ep_state := Waiting p (attempts + 1) (now + RETRY_GAP)\<rparr>)
      | Finished \<Rightarrow> Some (None, ep)))"

text \<open>
  The first component is the return value (the packet is ours and must not be forwarded), the second
  the text that \<open>emit_exit_ip\<close> hands to the application.
\<close>

definition consume :: "bytes \<Rightarrow> exit_probe \<Rightarrow> (bool \<times> string option \<times> exit_probe) rust" where
  "consume packet ep =
     (case ep_state ep of
        Waiting p attempts next' \<Rightarrow> do {
          m \<leftarrow> probe_matches p packet;
          if \<not> m then Some (False, None, ep)
          else do {
            a \<leftarrow> probe_read p packet;
            case a of
              Some ip \<Rightarrow> Some (True, Some (show_v4 ip), ep\<lparr>ep_state := Finished\<rparr>)
            | None \<Rightarrow> Some (True, None, ep) } }
      | _ \<Rightarrow> Some (False, None, ep))"

text \<open>
  Any interleaving of the three calls, with the probes sent (with the time of sending) and the
  addresses reported so far.
\<close>

inductive ep_reach :: "u32 \<Rightarrow> exit_probe \<Rightarrow> (nat \<times> bytes) list \<Rightarrow> string list \<Rightarrow> bool" where
  ep_new: "ep_reach a (exit_probe_new a) [] []"
| ep_arm: "ep_reach a ep sent out \<Longrightarrow> ep_reach a (arm now ep) sent out"
| ep_wait: "ep_reach a ep sent out \<Longrightarrow> due rnd now ep = Some (None, ep') \<Longrightarrow> ep_reach a ep' sent out"
| ep_send: "ep_reach a ep sent out \<Longrightarrow> due rnd now ep = Some (Some pkt, ep') \<Longrightarrow>
     ep_reach a ep' (sent @ [(now, pkt)]) out"
| ep_consume: "ep_reach a ep sent out \<Longrightarrow> consume packet ep = Some (mine, r, ep') \<Longrightarrow>
     ep_reach a ep' sent (out @ (case r of None \<Rightarrow> [] | Some t \<Rightarrow> [t]))"

text \<open>Consecutive probes are at least one retry gap apart.\<close>

fun spaced :: "(nat \<times> bytes) list \<Rightarrow> bool" where
  "spaced ((t1, p1) # (t2, p2) # r) \<longleftrightarrow> t1 + RETRY_GAP \<le> t2 \<and> p1 = p2 \<and> spaced ((t2, p2) # r)"
| "spaced _ \<longleftrightarrow> True"

lemma spaced_snoc:
  "spaced (xs @ [(t, p)]) \<longleftrightarrow> spaced xs \<and> (xs \<noteq> [] \<longrightarrow> fst (last xs) + RETRY_GAP \<le> t \<and> snd (last xs) = p)"
  by (induction xs rule: spaced.induct) auto

definition ep_inv :: "exit_probe \<Rightarrow> (nat \<times> bytes) list \<Rightarrow> string list \<Rightarrow> bool" where
  "ep_inv ep sent out \<longleftrightarrow> spaced sent \<and>
     (case ep_state ep of
        Idle \<Rightarrow> sent = [] \<and> out = []
      | Waiting p n next' \<Rightarrow> length sent = n \<and> 1 \<le> n \<and> n \<le> MAX_ATTEMPTS \<and> out = []
          \<and> fst (last sent) + RETRY_GAP = next' \<and> snd (last sent) = pr_packet p
      | Finished \<Rightarrow> length sent \<le> MAX_ATTEMPTS \<and> length out \<le> 1)"

lemma due_inv:
  assumes "ep_inv ep sent out" and "due rnd now ep = Some (r, ep')"
  shows "ep_inv ep' (sent @ (case r of None \<Rightarrow> [] | Some pkt \<Rightarrow> [(now, pkt)])) out"
  using assms
  by (cases "ep_state ep")
    (auto simp: ep_inv_def due_def MAX_ATTEMPTS_def spaced_snoc bind_eq_Some_conv split: if_splits option.splits prod.splits)

lemma consume_inv:
  assumes "ep_inv ep sent out" and "consume packet ep = Some (mine, r, ep')"
  shows "ep_inv ep' sent (out @ (case r of None \<Rightarrow> [] | Some t \<Rightarrow> [t]))"
  using assms
  by (cases "ep_state ep")
    (auto simp: ep_inv_def consume_def bind_eq_Some_conv split: if_splits option.splits)

lemma ep_reach_inv: "ep_reach a ep sent out \<Longrightarrow> ep_inv ep sent out"
proof (induction rule: ep_reach.induct)
  case (ep_new a)
  then show ?case by (simp add: ep_inv_def exit_probe_new_def)
next
  case (ep_arm a ep sent out now)
  then show ?case by (simp add: ep_inv_def arm_def)
next
  case (ep_wait a ep sent out rnd now ep')
  then show ?case using due_inv by fastforce
next
  case (ep_send a ep sent out rnd now pkt ep')
  then show ?case using due_inv by fastforce
next
  case (ep_consume a ep sent out packet mine r ep')
  then show ?case using consume_inv by blast
qed

lemma whoami_total: "whoami xid r ipid src \<noteq> None"
  by (simp add: whoami_def Let_def build_udp_ipv4_form)

lemma due_total: "due rnd now ep \<noteq> None"
proof -
  obtain xid r ipid where rnd: "rnd = (xid, r, ipid)" by (cases rnd)
  obtain p where "whoami xid r ipid (ep_local_ipv4 ep) = Some p" using whoami_total by blast
  then show ?thesis by (auto simp: due_def rnd split: probe_state.splits option.splits)
qed

lemma consume_total: "consume packet ep \<noteq> None"
proof (cases "ep_state ep")
  case (Waiting p n next')
  obtain m a where "probe_matches p packet = Some m" "probe_read p packet = Some a"
    using probe_total by blast
  with Waiting show ?thesis by (auto simp: consume_def split: option.splits)
qed (simp_all add: consume_def)

text \<open>Successive timer wake-ups.\<close>

fun dues :: "(probe_rand \<times> nat) list \<Rightarrow> exit_probe \<Rightarrow> exit_probe rust" where
  "dues [] ep = Some ep"
| "dues ((rnd, now) # r) ep = (case due rnd now ep of None \<Rightarrow> None | Some (_, ep') \<Rightarrow> dues r ep')"

lemma exit_probe_terminates:
  assumes "t0 + FIRST_DELAY \<le> t1" and "t1 + RETRY_GAP \<le> t2" and "t2 + RETRY_GAP \<le> t3"
    and "t3 + RETRY_GAP \<le> t4" and "t4 + RETRY_GAP \<le> t5"
  shows "\<exists>ep. dues [(r1, t1), (r2, t2), (r3, t3), (r4, t4), (r5, t5)] (arm t0 (exit_probe_new a)) = Some ep
     \<and> \<not> needs_ticking ep"
proof (cases "a = 0")
  case True
  then show ?thesis by (simp add: due_def arm_def exit_probe_new_def needs_ticking_def)
next
  case False
  obtain xid r ipid where r1: "r1 = (xid, r, ipid)" by (cases r1)
  obtain p where p: "whoami xid r ipid a = Some p" using whoami_total by blast
  show ?thesis
    using False assms by (simp add: due_def arm_def exit_probe_new_def needs_ticking_def r1 p MAX_ATTEMPTS_def)
qed

text \<open>
  C18: the exit-address measurement stays within its budget and ends. However the bridge interleaves its
  calls, it sends at most four packets, all identical, at least three seconds apart, and reports at most
  one address; once it is finished it stays finished: nothing more is sent and no packet is claimed.
  And once armed, five wake-ups that are each at least three seconds after the one before (the first
  at least 1.2 seconds after arming) bring it to its final state even when no reply ever arrives, so
  that the bridge stops its timer.
\<close>

theorem exit_probe_bounded:
  assumes "ep_reach a ep sent out"
    and "t0 + FIRST_DELAY \<le> t1" "t1 + RETRY_GAP \<le> t2" "t2 + RETRY_GAP \<le> t3" "t3 + RETRY_GAP \<le> t4" "t4 + RETRY_GAP \<le> t5"
  shows "length sent \<le> 4 \<and> spaced sent \<and> length out \<le> 1
     \<and> (\<not> needs_ticking ep \<longrightarrow> due rnd now ep = Some (None, ep) \<and> consume packet ep = Some (False, None, ep))
     \<and> (\<exists>ep'. dues [(r1, t1), (r2, t2), (r3, t3), (r4, t4), (r5, t5)] (arm t0 (exit_probe_new a)) = Some ep'
          \<and> \<not> needs_ticking ep')"
proof -
  have "ep_inv ep sent out" using assms(1) by (rule ep_reach_inv)
  then have "length sent \<le> 4 \<and> spaced sent \<and> length out \<le> 1
     \<and> (\<not> needs_ticking ep \<longrightarrow> due rnd now ep = Some (None, ep) \<and> consume packet ep = Some (False, None, ep))"
    by (cases "ep_state ep") (auto simp: ep_inv_def MAX_ATTEMPTS_def needs_ticking_def due_def consume_def)
  then show ?thesis using exit_probe_terminates [OF assms(2-6)] by blast
qed

theorem exit_probe_bounded_witness:
  "\<exists>ep pkt. ep_reach 1 ep [(1200, pkt)] [] \<and> length [(1200::nat, pkt)] \<le> 4"
proof -
  let ?ep = "arm 0 (exit_probe_new 1)"
  obtain p where p: "whoami 7 5 9 1 = Some p" using whoami_total by fastforce
  have d: "due (7, 5, 9) 1200 ?ep = Some (Some (pr_packet p), ?ep\<lparr>ep_state := Waiting p 1 4200\<rparr>)"
    by (simp add: due_def arm_def exit_probe_new_def FIRST_DELAY_def RETRY_GAP_def p)
  have "ep_reach 1 ?ep [] []" by (intro ep_arm ep_new)
  from ep_send [OF this d] have r: "ep_reach 1 (?ep\<lparr>ep_state := Waiting p 1 4200\<rparr>) [(1200, pr_packet p)] []" by simp
  have "(0::nat) + FIRST_DELAY \<le> 1200" "(1200::nat) + RETRY_GAP \<le> 4200" "(4200::nat) + RETRY_GAP \<le> 7200"
    "(7200::nat) + RETRY_GAP \<le> 10200" "(10200::nat) + RETRY_GAP \<le> 13200"
    by (simp_all add: FIRST_DELAY_def RETRY_GAP_def)
  from r exit_probe_bounded [OF r this] show ?thesis by blast
qed

section \<open>The bridge loop\<close>

record bridge =
  br_rx_total :: u64
  br_tx_total :: u64
  br_clamped_syns :: u64
  br_exit_probe :: exit_probe
  br_probing :: bool
  br_last_report :: nat
  br_tun :: "bytes list"
  br_outbound :: "bytes list"
  br_exit_ips :: "string list"
  br_traffic :: "(u64 \<times> u64) list"

text \<open>
  The last four fields record the effects: packets written to the device, packets sent into the
  tunnel, addresses and traffic counters reported to the application. One iteration sees the
  clock at most three times; \<open>env_smart\<close> is the DNS engine, if one was initialised.
\<close>

record bridge_env =
  env_now :: nat
  env_now_due :: nat
  env_now_report :: nat
  env_mtu :: nat
  env_rnd :: probe_rand
  env_write_ok :: bool
  env_write_error :: string
  env_send_ok :: bool
  env_smart :: "(bytes \<Rightarrow> nat \<Rightarrow> bytes option) option"

datatype bridge_event = Inbound "bytes option" | Device "aether_error + bytes" | Tick

datatype loop_result = Next bridge | Stop "unit result" bridge

definition bridge_new :: "u32 \<Rightarrow> nat \<Rightarrow> bridge" where
  "bridge_new local_ipv4 now = \<lparr>br_rx_total = 0, br_tx_total = 0, br_clamped_syns = 0,
     br_exit_probe = exit_probe_new local_ipv4, br_probing = True, br_last_report = now,
     br_tun = [], br_outbound = [], br_exit_ips = [], br_traffic = []\<rparr>"

definition channel_closed :: aether_error where
  "channel_closed = ErrOther ''tunnel outbound channel closed''"

text \<open>The reply packet that the interceptor builds around the payload of the DNS engine.\<close>

definition smart_reply :: "bytes \<Rightarrow> u8 \<Rightarrow> bytes \<Rightarrow> bytes \<Rightarrow> bytes rust" where
  "smart_reply outbound ipver udp payload = do {
     src_ip \<leftarrow> slice_of outbound 12 16;
     dst_ip \<leftarrow> slice_of outbound 16 20;
     src_port \<leftarrow> field16 udp 0;
     dst_port \<leftarrow> field16 udp 2;
     let udp_len = 8 + length payload;
     resp \<leftarrow> (if ipver = 6 then do {
         a \<leftarrow> slice_of outbound 24 40;
         b \<leftarrow> slice_of outbound 8 24;
         Some ([0x60, 0x00, 0x00, 0x00] @ u16_bytes (of_nat udp_len) @ [17, 64] @ a @ b) }
       else do {
         let resp = [0x45, 0x00] @ u16_bytes (of_nat (20 + udp_len)) @ [0x00, 0x00, 0x40, 0x00, 0x40, 0x11]
                    @ [0x00, 0x00] @ dst_ip @ src_ip;
         h \<leftarrow> slice_of resp 0 20;
         copy_into resp 10 (u16_bytes (fold_sum (ones_complement_sum h 0))) });
     let resp = resp @ u16_bytes dst_port @ u16_bytes src_port @ u16_bytes (of_nat udp_len) @ [0x00, 0x00] @ payload;
     let udp_start = (if ipver = 6 then 40 else 20);
     acc \<leftarrow> (if ipver = 6 then do {
         a \<leftarrow> slice_of resp 8 24;
         b \<leftarrow> slice_of resp 24 40;
         Some (ones_complement_sum b (ones_complement_sum a 0) + of_nat udp_len + 17) }
       else do {
         a \<leftarrow> slice_of resp 12 20;
         Some (ones_complement_sum a 0 + 17 + of_nat udp_len) });
     u \<leftarrow> slice_from resp udp_start;
     let udp_csum = fold_sum (ones_complement_sum u acc);
     copy_into resp (udp_start + 6) (u16_bytes (if udp_csum = 0 then 0xffff else udp_csum)) }"

text \<open>The interceptor: the reply to write to the device, or nothing when the packet goes its normal way.\<close>

definition intercept :: "(bytes \<Rightarrow> nat \<Rightarrow> bytes option) option \<Rightarrow> bytes \<Rightarrow> bytes option rust" where
  "intercept smart outbound = do {
     v4 \<leftarrow> parse_ipv4_header outbound;
     parsed \<leftarrow> (case v4 of
         Some ihl \<Rightarrow> Some (Some (ihl, 4))
       | None \<Rightarrow> do { v6 \<leftarrow> parse_ipv6_header outbound; Some (map_option (\<lambda>off. (off, 6)) v6) });
     case parsed of
       None \<Rightarrow> Some None
     | Some (hdr_len, ipver) \<Rightarrow>
         if length outbound < hdr_len + 8 then Some None
         else do {
           udp \<leftarrow> slice_from outbound hdr_len;
           dst_port \<leftarrow> field16 udp 2;
           if dst_port = 53 \<and> length udp > 8 then
             (case smart of
                None \<Rightarrow> Some None
              | Some process_query \<Rightarrow>
                  (case process_query outbound hdr_len of
                     None \<Rightarrow> Some None
                   | Some payload \<Rightarrow> map_option Some (smart_reply outbound ipver udp payload)))
           else Some None } }"


text \<open>What follows the event: a due probe is sent, and the counters are reported once a second.\<close>

definition bridge_report :: "bridge_env \<Rightarrow> bridge \<Rightarrow> bridge" where
  "bridge_report env b =
     (if env_now_report env - br_last_report b \<ge> 1000 then
        b\<lparr>br_traffic := br_traffic b @ [(br_tx_total b, br_rx_total b)],
          br_clamped_syns := 0, br_last_report := env_now_report env\<rparr>
      else b)"

definition bridge_tail :: "bridge_env \<Rightarrow> bridge \<Rightarrow> loop_result rust" where
  "bridge_tail env b =
     (if br_probing b then
        (case due (env_rnd env) (env_now_due env) (br_exit_probe b) of
           None \<Rightarrow> None
         | Some (None, ep) \<Rightarrow>
             Some (Next (bridge_report env (b\<lparr>br_exit_probe := ep, br_probing := needs_ticking ep\<rparr>)))
         | Some (Some pkt, ep) \<Rightarrow>
             if env_send_ok env then
               Some (Next (bridge_report env (b\<lparr>br_exit_probe := ep, br_probing := needs_ticking ep,
                 br_outbound := br_outbound b @ [pkt]\<rparr>)))
             else Some (Stop (Inl channel_closed) (b\<lparr>br_exit_probe := ep\<rparr>)))
      else Some (Next (bridge_report env b)))"

definition count_clamp :: "bool \<Rightarrow> bridge \<Rightarrow> bridge" where
  "count_clamp changed b = (if changed then b\<lparr>br_clamped_syns := br_clamped_syns b + 1\<rparr> else b)"

definition on_inbound :: "bridge_env \<Rightarrow> bytes \<Rightarrow> bridge \<Rightarrow> loop_result rust" where
  "on_inbound env packet b = do {
     let b = b\<lparr>br_rx_total := br_rx_total b + of_nat (length packet)\<rparr>;
     c \<leftarrow> (if br_probing b then consume packet (br_exit_probe b) else Some (False, None, br_exit_probe b));
     case c of (mine, ip, ep) \<Rightarrow>
       let b = b\<lparr>br_exit_probe := ep, br_exit_ips := br_exit_ips b @ (case ip of None \<Rightarrow> [] | Some t \<Rightarrow> [t])\<rparr> in
       if mine then Some (Next b)
       else do {
         (changed, packet) \<leftarrow> clamp_tcp_mss packet (env_mtu env);
         let b = count_clamp changed b;
         if env_write_ok env then bridge_tail env (b\<lparr>br_tun := br_tun b @ [packet]\<rparr>)
         else Some (Stop (Inl (ErrIo (env_write_error env))) b) } }"

definition on_device :: "bool \<Rightarrow> bridge_env \<Rightarrow> bytes \<Rightarrow> bridge \<Rightarrow> loop_result rust" where
  "on_device smart_dns env packet b =
     (if packet = [] then Some (Stop (Inr ()) b)
      else do {
        let b = b\<lparr>br_tx_total := br_tx_total b + of_nat (length packet),
                  br_exit_probe := (if br_probing b then arm (env_now env) (br_exit_probe b) else br_exit_probe b)\<rparr>;
        (changed, outbound) \<leftarrow> clamp_tcp_mss packet (env_mtu env);
        let b = count_clamp changed b;
        r \<leftarrow> (if smart_dns then intercept (env_smart env) outbound else Some None);
        case r of
          Some reply \<Rightarrow> Some (Next (if env_write_ok env then b\<lparr>br_tun := br_tun b @ [reply]\<rparr> else b))
        | None \<Rightarrow>
            if env_send_ok env then bridge_tail env (b\<lparr>br_outbound := br_outbound b @ [outbound]\<rparr>)
            else Some (Stop (Inl channel_closed) b) })"

definition bridge_step :: "bool \<Rightarrow> bridge_env \<Rightarrow> bridge_event \<Rightarrow> bridge \<Rightarrow> loop_result rust" where
  "bridge_step smart_dns env ev b =
     (case ev of
        Inbound None \<Rightarrow> Some (Stop (Inr ()) b)
      | Inbound (Some packet) \<Rightarrow> on_inbound env packet b
      | Device (Inl e) \<Rightarrow> Some (Stop (Inl e) b)
      | Device (Inr packet) \<Rightarrow> on_device smart_dns env packet b
      | Tick \<Rightarrow> bridge_tail env b)"


section \<open>The bridge keeps going\<close>

lemma smart_reply_total:
  assumes "28 \<le> length outbound" and "ipver = 6 \<Longrightarrow> 48 \<le> length outbound" and "8 \<le> length udp"
  shows "smart_reply outbound ipver udp payload \<noteq> None"
proof -
  have f: "field16 udp 0 \<noteq> None" "field16 udp 2 \<noteq> None" using assms(3) by (simp_all add: field16_in)
  then obtain sp dp where sd: "field16 udp 0 = Some sp" "field16 udp 2 = Some dp" by blast
  show ?thesis
  proof (cases "ipver = 6")
    case True
    with assms sd show ?thesis
      by (simp add: smart_reply_def Let_def slice_of_def slice_from_def copy_into_def)
  next
    case False
    with assms sd show ?thesis
      by (simp add: smart_reply_def Let_def slice_of_def slice_from_def copy_into_def)
  qed
qed

lemma parse_header_bounds:
  "parse_ipv4_header packet = Some (Some h) \<Longrightarrow> 20 \<le> h \<and> h \<le> length packet"
  "parse_ipv6_header packet = Some (Some h) \<Longrightarrow> 48 \<le> length packet"
  by (auto simp: parse_ipv4_header_def parse_ipv6_header_def Let_def bind_eq_Some_conv split: if_splits)

lemma intercept_total: "intercept smart outbound \<noteq> None"
proof -
  obtain v4 v6 where v: "parse_ipv4_header outbound = Some v4" "parse_ipv6_header outbound = Some v6"
    using parse_headers_total by blast
  define parsed where "parsed = (case v4 of Some ihl \<Rightarrow> Some (ihl, 4::u8) | None \<Rightarrow> map_option (\<lambda>off. (off, 6)) v6)"
  have pe: "(case v4 of Some ihl \<Rightarrow> Some (Some (ihl, 4::u8))
       | None \<Rightarrow> do { v6 \<leftarrow> Some v6; Some (map_option (\<lambda>off. (off, 6)) v6) }) = Some parsed"
    by (auto simp: parsed_def split: option.splits)
  show ?thesis
  proof (cases parsed)
    case None
    then show ?thesis unfolding intercept_def v bind.bind_lunit pe [unfolded bind.bind_lunit] by simp
  next
    case (Some hv)
    obtain h ver where hv: "hv = (h, ver)" by (cases hv)
    have b: "length outbound \<ge> h + 8 \<Longrightarrow> 28 \<le> length outbound" "ver = 6 \<Longrightarrow> 48 \<le> length outbound"
      using Some parse_header_bounds(1) [of outbound h] parse_header_bounds(2) [of outbound h] v
      by (auto simp: parsed_def hv split: option.splits)
    have sr: "length outbound \<ge> h + 8 \<Longrightarrow> smart_reply outbound ver (drop h outbound) payload \<noteq> None" for payload
      using b by (intro smart_reply_total) auto
    show ?thesis
      unfolding intercept_def v bind.bind_lunit pe [unfolded bind.bind_lunit] using sr
      by (auto simp: Some hv slice_from_in field16_in split: option.splits)
  qed
qed

lemma bridge_tail_total: "bridge_tail env b \<noteq> None"
  using due_total [of "env_rnd env" "env_now_due env" "br_exit_probe b"]
  by (auto simp: bridge_tail_def split: option.splits)

lemma clamp_Some: obtains c p where "clamp_tcp_mss packet m = Some (c, p)"
  using clamp_cases [of packet m] by auto

text \<open>
  C20: the bridge loop never panics. Whatever event fires (any inbound packet, any packet read from
  the device, any reply of the DNS engine) and whatever the state, an iteration ends by continuing
  or by returning a result.
\<close>

theorem bridge_never_panics: "bridge_step smart_dns env ev b \<noteq> None"
proof -
  have inb: "on_inbound env packet b \<noteq> None" for packet
  proof -
    obtain mine ip ep where c: "consume packet (br_exit_probe b) = Some (mine, ip, ep)"
      using consume_total [of packet "br_exit_probe b"] by auto
    obtain ch p where "clamp_tcp_mss packet (env_mtu env) = Some (ch, p)" by (rule clamp_Some)
    with c bridge_tail_total show ?thesis by (auto simp: on_inbound_def Let_def)
  qed
  have dev: "on_device smart_dns env packet b \<noteq> None" for packet
  proof -
    obtain ch p where p: "clamp_tcp_mss packet (env_mtu env) = Some (ch, p)" by (rule clamp_Some)
    obtain r where "intercept (env_smart env) p = Some r" using intercept_total by blast
    with p bridge_tail_total show ?thesis by (auto simp: on_device_def Let_def split: option.splits)
  qed
  show ?thesis
    using inb dev bridge_tail_total
    by (auto simp: bridge_step_def split: bridge_event.splits option.splits sum.splits)
qed


text \<open>A run of the bridge; the timer fires only while the measurement is going on.\<close>

inductive bridge_run :: "bool \<Rightarrow> bridge \<Rightarrow> (bridge_env \<times> bridge_event) list \<Rightarrow> bridge \<Rightarrow> bool" for smart_dns b0 where
  run_start: "bridge_run smart_dns b0 [] b0"
| run_step: "bridge_run smart_dns b0 evs b \<Longrightarrow> (ev = Tick \<longrightarrow> br_probing b) \<Longrightarrow>
     bridge_step smart_dns env ev b = Some (Next b') \<Longrightarrow> bridge_run smart_dns b0 (evs @ [(env, ev)]) b'"

text \<open>What the device handed over in a run, as it goes into the tunnel.\<close>

definition device_packet :: "bridge_env \<times> bridge_event \<Rightarrow> bytes list" where
  "device_packet e = (case e of (env, Device (Inr p)) \<Rightarrow> [snd (the (clamp_tcp_mss p (env_mtu env)))] | _ \<Rightarrow> [])"

definition br_inv :: "u32 \<Rightarrow> bytes list \<Rightarrow> bridge \<Rightarrow> bool" where
  "br_inv a devs b \<longleftrightarrow>
     (\<exists>sent. ep_reach a (br_exit_probe b) sent (br_exit_ips b)
        \<and> length (br_outbound b) = length devs + length sent \<and> subseq devs (br_outbound b))"

lemma br_inv_fields:
  "br_inv a devs b \<Longrightarrow> br_exit_probe b' = br_exit_probe b \<Longrightarrow> br_exit_ips b' = br_exit_ips b
     \<Longrightarrow> br_outbound b' = br_outbound b \<Longrightarrow> br_inv a devs b'"
  by (simp add: br_inv_def)

lemma subseq_snoc: "subseq xs ys \<Longrightarrow> subseq xs (ys @ [y])" "subseq xs ys \<Longrightarrow> subseq (xs @ [y]) (ys @ [y])"
  by (auto intro: list_emb_append_mono)

lemma bridge_tail_inv:
  assumes "br_inv a devs b" and "bridge_tail env b = Some (Next b')"
  shows "br_inv a devs b'"
proof -
  obtain sent where r: "ep_reach a (br_exit_probe b) sent (br_exit_ips b)"
    and l: "length (br_outbound b) = length devs + length sent" and sub: "subseq devs (br_outbound b)"
    using assms(1) by (auto simp: br_inv_def)
  show ?thesis
  proof (cases "br_probing b")
    case True
    obtain pkt ep where d: "due (env_rnd env) (env_now_due env) (br_exit_probe b) = Some (pkt, ep)"
      using due_total by fastforce
    show ?thesis
    proof (cases pkt)
      case None
      from ep_wait [OF r d [unfolded None]] True d None assms(2) l sub show ?thesis
        by (auto simp: br_inv_def bridge_tail_def bridge_report_def split: if_splits)
    next
      case (Some p)
      from ep_send [OF r d [unfolded Some]] True d Some assms(2) l subseq_snoc(1) [OF sub] show ?thesis
        by (fastforce simp: br_inv_def bridge_tail_def bridge_report_def split: if_splits)
    qed
  next
    case False
    with assms(2) have "b' = bridge_report env b" by (simp add: bridge_tail_def)
    with assms(1) show ?thesis by (simp add: br_inv_def bridge_report_def)
  qed
qed

lemma on_inbound_inv:
  assumes "br_inv a devs b" and "on_inbound env packet b = Some (Next b')"
  shows "br_inv a devs b'"
proof -
  obtain sent where r: "ep_reach a (br_exit_probe b) sent (br_exit_ips b)"
    and l: "length (br_outbound b) = length devs + length sent" and sub: "subseq devs (br_outbound b)"
    using assms(1) by (auto simp: br_inv_def)
  let ?c = "if br_probing b then consume packet (br_exit_probe b) else Some (False, None, br_exit_probe b)"
  obtain mine ip ep where c: "?c = Some (mine, ip, ep)"
    using consume_total [of packet "br_exit_probe b"] by (cases "br_probing b") auto
  have ep: "ep_reach a ep sent (br_exit_ips b @ (case ip of None \<Rightarrow> [] | Some t \<Rightarrow> [t]))"
    using c r ep_consume [OF r, of packet mine ip ep] by (auto split: if_splits)
  let ?b = "b\<lparr>br_rx_total := br_rx_total b + of_nat (length packet), br_exit_probe := ep,
     br_exit_ips := br_exit_ips b @ (case ip of None \<Rightarrow> [] | Some t \<Rightarrow> [t])\<rparr>"
  have inv: "br_inv a devs ?b" using ep l sub by (auto simp: br_inv_def)
  obtain ch p where p: "clamp_tcp_mss packet (env_mtu env) = Some (ch, p)" by (rule clamp_Some)
  show ?thesis
  proof (cases mine)
    case True
    with assms(2) c have "b' = ?b" by (cases "br_probing b") (simp_all add: on_inbound_def Let_def)
    with inv show ?thesis by simp
  next
    case False
    let ?b2 = "(count_clamp ch ?b)\<lparr>br_tun := br_tun (count_clamp ch ?b) @ [p]\<rparr>"
    have "bridge_tail env ?b2 = Some (Next b')"
      using assms(2) c p False by (cases "br_probing b") (simp_all add: on_inbound_def Let_def split: if_splits)
    moreover have "br_inv a devs ?b2" using inv by (rule br_inv_fields) (simp_all add: count_clamp_def)
    ultimately show ?thesis using bridge_tail_inv by blast
  qed
qed

lemma on_device_inv:
  assumes "br_inv a devs b" and "on_device False env packet b = Some (Next b')"
  shows "br_inv a (devs @ [snd (the (clamp_tcp_mss packet (env_mtu env)))]) b'"
proof -
  obtain sent where r: "ep_reach a (br_exit_probe b) sent (br_exit_ips b)"
    and l: "length (br_outbound b) = length devs + length sent" and sub: "subseq devs (br_outbound b)"
    using assms(1) by (auto simp: br_inv_def)
  obtain ch p where p: "clamp_tcp_mss packet (env_mtu env) = Some (ch, p)" by (rule clamp_Some)
  let ?ep = "if br_probing b then arm (env_now env) (br_exit_probe b) else br_exit_probe b"
  let ?b = "count_clamp ch (b\<lparr>br_tx_total := br_tx_total b + of_nat (length packet), br_exit_probe := ?ep\<rparr>)"
  have "ep_reach a ?ep sent (br_exit_ips b)" using r ep_arm by auto
  then have "br_inv a (devs @ [p]) (?b\<lparr>br_outbound := br_outbound ?b @ [p]\<rparr>)"
    using l subseq_snoc(2) [OF sub] by (auto simp: br_inv_def count_clamp_def)
  moreover have "bridge_tail env (?b\<lparr>br_outbound := br_outbound ?b @ [p]\<rparr>) = Some (Next b')"
    using assms(2) p by (simp add: on_device_def Let_def split: if_splits)
  ultimately show ?thesis using bridge_tail_inv p by simp
qed

lemma bridge_run_inv:
  "bridge_run False (bridge_new a t) evs b \<Longrightarrow> br_inv a (concat (map device_packet evs)) b"
proof (induction rule: bridge_run.induct)
  case run_start
  show ?case using ep_new [of a] by (auto simp: br_inv_def bridge_new_def)
next
  case (run_step evs b ev env b')
  let ?devs = "concat (map device_packet evs)"
  note inv = run_step.IH and step = run_step.hyps(3)
  consider (t) "ev = Tick" | (i) p where "ev = Inbound (Some p)" | (d) p where "ev = Device (Inr p)"
    using step by (auto simp: bridge_step_def split: bridge_event.splits option.splits sum.splits)
  then show ?case
  proof cases
    case t
    with step bridge_tail_inv [OF inv] show ?thesis by (simp add: bridge_step_def device_packet_def)
  next
    case i
    with step on_inbound_inv [OF inv] show ?thesis by (simp add: bridge_step_def device_packet_def)
  next
    case d
    with step on_device_inv [OF inv] show ?thesis by (simp add: bridge_step_def device_packet_def)
  qed
qed



text \<open>An iteration that reads one malformed packet from the device and forwards it as it is.\<close>

definition sample_env :: bridge_env where
  "sample_env = \<lparr>env_now = 0, env_now_due = 0, env_now_report = 0, env_mtu = 1280, env_rnd = (7, 5, 9),
     env_write_ok = True, env_write_error = [], env_send_ok = True, env_smart = None\<rparr>"


end
