(* ===== verification/Sniff.thy ===== *)
theory Sniff
  imports AddrParse
begin

text \<open>
  Reading the host name off the first bytes of a flow (\<open>sniff.rs\<close>): the server name of a TLS ClientHello or
  the \<open>Host\<close> header of an HTTP request. The functions that index the buffer return a value of type \<open>rust\<close>.
\<close>

section \<open>Model\<close>

definition TLS_HANDSHAKE :: u8 where "TLS_HANDSHAKE = 0x16"
definition TLS_CLIENT_HELLO :: u8 where "TLS_CLIENT_HELLO = 0x01"
definition EXT_SERVER_NAME :: u16 where "EXT_SERVER_NAME = 0x0000"
definition SNI_HOST_NAME :: u8 where "SNI_HOST_NAME = 0x00"
definition MAX_HOST_LEN :: nat where "MAX_HOST_LEN = 253"

definition be16 :: "bytes \<Rightarrow> nat \<Rightarrow> nat option" where
  "be16 buf at = do { hi \<leftarrow> get_at buf at; lo \<leftarrow> get_at buf (at + 1); Some (unat hi * 256 + unat lo) }"

definition be24 :: "bytes \<Rightarrow> nat \<Rightarrow> nat option" where
  "be24 buf at = do {
     a \<leftarrow> get_at buf at; b \<leftarrow> get_at buf (at + 1); c \<leftarrow> get_at buf (at + 2);
     Some (unat a * 65536 + unat b * 256 + unat c) }"

definition name_byte :: "char \<Rightarrow> bool" where
  "name_byte c \<longleftrightarrow> is_digit c \<or> is_alpha c \<or> c = CHR ''-'' \<or> c = CHR ''.'' \<or> c = CHR ''_''"

definition plausible_host :: "bytes \<Rightarrow> string option" where
  "plausible_host raw =
     (if raw = [] \<or> length raw > MAX_HOST_LEN then None
      else do {
        s \<leftarrow> from_utf8 raw;
        let name = trim_end_matches CHR ''.'' (trim s);
        if name = [] \<or> length name > MAX_HOST_LEN then None
        else if \<not> list_all name_byte name \<or> CHR ''.'' \<notin> set name then None
        else if parse_ip_addr name \<noteq> None then None
        else Some (to_lower name) })"

text \<open>The entries of a server name list; the inner \<open>Inl\<close> is a return, \<open>Inr\<close> the normal end of the loop.\<close>

function sni_list_loop :: "bytes \<Rightarrow> (string option + unit) rust" where
  "sni_list_loop list =
     (if length list \<ge> 3 then
        (case (idx list 0, be16 list 1) of
           (Some name_type, Some name_len) \<Rightarrow>
             (if 3 + name_len \<le> length list then
                (case (slice_of list 3 (3 + name_len), slice_from list (3 + name_len)) of
                   (Some name, Some list') \<Rightarrow>
                     if name_type \<noteq> SNI_HOST_NAME then sni_list_loop list'
                     else Some (Inl (plausible_host name))
                 | _ \<Rightarrow> None)
              else Some (Inl None))
         | (Some _, None) \<Rightarrow> Some (Inl None)
         | (None, _) \<Rightarrow> None)
      else Some (Inr ()))"
  by pat_completeness auto
termination
  by (relation "measure length") (auto simp: slice_from_def)

declare sni_list_loop.simps [simp del]

function sni_ext_loop :: "bytes \<Rightarrow> string option rust" where
  "sni_ext_loop cur =
     (if length cur \<ge> 4 then
        (case (be16 cur 0, be16 cur 2) of
           (Some ext_type, Some ext_len) \<Rightarrow>
             (if 4 + ext_len \<le> length cur then
                (case (slice_of cur 4 (4 + ext_len), slice_from cur (4 + ext_len)) of
                   (Some ext, Some cur') \<Rightarrow>
                     if ext_type \<noteq> unat EXT_SERVER_NAME then sni_ext_loop cur'
                     else (case be16 ext 0 of
                             None \<Rightarrow> Some None
                           | Some _ \<Rightarrow>
                               (case sni_list_loop (drop 2 ext) of
                                  None \<Rightarrow> None
                                | Some (Inl r) \<Rightarrow> Some r
                                | Some (Inr _) \<Rightarrow> sni_ext_loop cur'))
                 | _ \<Rightarrow> None)
              else Some None)
         | _ \<Rightarrow> Some None)
      else Some None)"
  by pat_completeness auto
termination
  by (relation "measure length") (auto simp: slice_from_def split: if_splits)

declare sni_ext_loop.simps [simp del]

text \<open>\<open>cur.get(n..)?\<close>: the rest of the buffer, or an early return of \<open>None\<close>.\<close>

definition rest_or :: "bytes \<Rightarrow> nat \<Rightarrow> (bytes \<Rightarrow> string option rust) \<Rightarrow> string option rust" where
  "rest_or cur n k = (if n \<le> length cur then k (drop n cur) else Some None)"

definition tls_sni :: "bytes \<Rightarrow> string option rust" where
  "tls_sni buf =
     (if length buf < 5 then Some None
      else do {
        b0 \<leftarrow> idx buf 0;
        if b0 \<noteq> TLS_HANDSHAKE then Some None
        else do {
          hs \<leftarrow> slice_from buf 5;
          if hs = [] then Some None
          else do {
            h0 \<leftarrow> idx hs 0;
            if h0 \<noteq> TLS_CLIENT_HELLO \<or> length hs < 4 then Some None
            else case be24 hs 1 of None \<Rightarrow> Some None | Some _ \<Rightarrow>
              rest_or hs 4 (\<lambda>cur.
                if length cur < 2 + 32 then Some None
                else do {
                  cur \<leftarrow> slice_from cur (2 + 32);
                  case get_at cur 0 of None \<Rightarrow> Some None | Some sid_len \<Rightarrow>
                    rest_or cur (1 + unat sid_len) (\<lambda>cur.
                      case be16 cur 0 of None \<Rightarrow> Some None | Some cs_len \<Rightarrow>
                        rest_or cur (2 + cs_len) (\<lambda>cur.
                          case get_at cur 0 of None \<Rightarrow> Some None | Some cm_len \<Rightarrow>
                            rest_or cur (1 + unat cm_len) (\<lambda>cur.
                              case be16 cur 0 of None \<Rightarrow> Some None | Some _ \<Rightarrow>
                                rest_or cur 2 sni_ext_loop))) }) } } })"

definition http_host :: "bytes \<Rightarrow> string option" where
  "http_host buf = do {
     t \<leftarrow> from_utf8 buf;
     if \<not> starts_with ''GET '' t \<and> \<not> starts_with ''POST '' t \<and> \<not> starts_with ''HEAD '' t
        \<and> \<not> starts_with ''PUT '' t \<and> \<not> starts_with ''CONNECT '' t
     then None
     else (case find (\<lambda>line. strip_prefix ''Host:'' line \<noteq> None) (split_str [CHR 13, CHR 10] t) of
             None \<Rightarrow> None
           | Some line \<Rightarrow> plausible_host (as_bytes (the (strip_prefix ''Host:'' line)))) }"

definition hostname :: "bytes \<Rightarrow> string option rust" where
  "hostname buf = do { r \<leftarrow> tls_sni buf; Some (case r of Some n \<Rightarrow> Some n | None \<Rightarrow> http_host buf) }"

section \<open>No input panics\<close>

lemma be16_in: "at + 1 < length buf \<Longrightarrow> be16 buf at = Some (unat (buf ! at) * 256 + unat (buf ! (at + 1)))"
  by (simp add: be16_def get_at_in)

lemma sni_list_loop_total: "sni_list_loop list \<noteq> None"
proof (induction list rule: sni_list_loop.induct)
  case (1 list)
  show ?case
  proof (cases "length list \<ge> 3")
    case True
    have "be16 list 1 = Some (unat (list ! 1) * 256 + unat (list ! (1 + 1)))" by (rule be16_in) (use True in simp)
    moreover have "idx list 0 = Some (list ! 0)" using True by (cases list) (auto simp: idx_def)
    ultimately show ?thesis
      using 1 True by (subst sni_list_loop.simps) (auto simp: slice_of_in slice_from_in)
  qed (simp add: sni_list_loop.simps)
qed

lemma sni_ext_loop_total: "sni_ext_loop cur \<noteq> None"
proof (induction cur rule: sni_ext_loop.induct)
  case (1 cur)
  show ?case
  proof (cases "length cur \<ge> 4")
    case True
    obtain t l where tl: "be16 cur 0 = Some t" "be16 cur 2 = Some l"
      using True be16_in [of 0 cur] be16_in [of 2 cur] by simp
    show ?thesis
    proof (cases "4 + l \<le> length cur")
      case fits: True
      let ?ext = "take l (drop 4 cur)" and ?cur = "drop (4 + l) cur"
      have sl: "slice_of cur 4 (4 + l) = Some ?ext" "slice_from cur (4 + l) = Some ?cur"
        using fits by (simp_all add: slice_of_in slice_from_in)
      have "sni_ext_loop ?cur \<noteq> None" if "t \<noteq> unat EXT_SERVER_NAME"
        using 1(1) [OF True _ refl refl fits _ refl refl that] tl sl by simp
      moreover have "sni_ext_loop ?cur \<noteq> None" if "t = unat EXT_SERVER_NAME" "be16 ?ext 0 = Some w" "sni_list_loop (drop 2 ?ext) = Some (Inr u)" for w u
        using 1(2) [OF True _ refl refl fits _ refl refl _ that(2) that(3) refl] tl sl that(1) by simp
      ultimately show ?thesis
        using True tl sl fits sni_list_loop_total [of "drop 2 ?ext"]
        by (subst sni_ext_loop.simps) (auto split: option.splits sum.splits)
    qed (use True tl in \<open>simp add: sni_ext_loop.simps\<close>)
  qed (simp add: sni_ext_loop.simps)
qed


lemma tls_sni_total: "tls_sni buf \<noteq> None"
  using sni_ext_loop_total
  by (auto simp: tls_sni_def rest_or_def idx_def slice_from_def split: option.splits)

section \<open>What is returned is a host name\<close>

definition host_name :: "string \<Rightarrow> bool" where
  "host_name n \<longleftrightarrow> (\<exists>s. n = to_lower s \<and> length s \<le> 253 \<and> list_all name_byte s \<and> CHR ''.'' \<in> set s
     \<and> last s \<noteq> CHR ''.'' \<and> parse_ip_addr s = None)"

lemma last_trim_end: "trim_end_matches c s \<noteq> [] \<Longrightarrow> last (trim_end_matches c s) \<noteq> c"
proof -
  let ?d = "dropWhile (\<lambda>x. x = c) (rev s)"
  assume "trim_end_matches c s \<noteq> []"
  then have "?d \<noteq> []" unfolding trim_end_matches_def by blast
  then have "hd ?d \<noteq> c" by (rule hd_dropWhile)
  moreover have "last (trim_end_matches c s) = hd ?d"
    using \<open>?d \<noteq> []\<close> by (simp only: trim_end_matches_def last_rev)
  ultimately show ?thesis by simp
qed

lemma plausible_host_name: "plausible_host raw = Some n \<Longrightarrow> host_name n"
  using last_trim_end [of "CHR ''.''"]
  by (auto simp: plausible_host_def host_name_def bind_eq_Some_conv Let_def MAX_HOST_LEN_def split: if_splits)

lemma sni_list_loop_name: "sni_list_loop list = Some (Inl (Some n)) \<Longrightarrow> host_name n"
proof (induction list rule: sni_list_loop.induct)
  case (1 list)
  from 1(2) show ?case
    by (subst (asm) sni_list_loop.simps)
      (auto split: if_splits option.splits intro: 1(1) plausible_host_name)
qed

lemma sni_ext_loop_step:
  assumes "sni_ext_loop cur = Some (Some n)"
  shows "(\<exists>list. sni_list_loop list = Some (Inl (Some n)))
     \<or> (\<exists>cur'. length cur' < length cur \<and> sni_ext_loop cur' = Some (Some n))"
proof -
  have 4: "4 \<le> length cur" using assms by (subst (asm) sni_ext_loop.simps) (simp split: if_splits)
  obtain t l where tl: "be16 cur 0 = Some t" "be16 cur 2 = Some l"
    using 4 be16_in [of 0 cur] be16_in [of 2 cur] by simp
  have f: "4 + l \<le> length cur" using assms 4 tl by (subst (asm) sni_ext_loop.simps) (simp split: if_splits)
  let ?ext = "take l (drop 4 cur)" and ?cur = "drop (4 + l) cur"
  have sl: "slice_of cur 4 (4 + l) = Some ?ext" "slice_from cur (4 + l) = Some ?cur"
    using f by (simp_all add: slice_of_in slice_from_in)
  have c: "length ?cur < length cur" using 4 by simp
  from assms 4 tl f sl have "sni_ext_loop ?cur = Some (Some n) \<or> sni_list_loop (drop 2 ?ext) = Some (Inl (Some n))"
    by (subst (asm) sni_ext_loop.simps) (simp split: if_splits option.splits sum.splits)
  with c show ?thesis by blast
qed

lemma sni_ext_loop_name: "sni_ext_loop cur = Some (Some n) \<Longrightarrow> host_name n"
  by (induction cur rule: length_induct) (use sni_ext_loop_step sni_list_loop_name in blast)

lemma tls_sni_name: "tls_sni buf = Some (Some n) \<Longrightarrow> host_name n"
  by (auto simp: tls_sni_def rest_or_def idx_def slice_from_def bind_eq_Some_conv sni_ext_loop_name
      split: if_splits option.splits)

lemma http_host_name: "http_host buf = Some n \<Longrightarrow> host_name n"
  by (auto simp: http_host_def bind_eq_Some_conv plausible_host_name split: if_splits option.splits)

text \<open>
  Sniffing is safe and its result is usable for matching. On every byte string, complete or
  cut off anywhere, \<open>hostname\<close> returns without a panic, and if it returns a name, the name is the
  lower-case form of a text of at most 253 letters, digits, dashes, dots and underscores that contains a
  dot, does not end with one, and is not an IP address.
\<close>

lemma sniffed_name_is_host_name:
  "\<exists>r. hostname buf = Some r \<and> (\<forall>n. r = Some n \<longrightarrow> host_name n)"
proof -
  obtain r where "tls_sni buf = Some r" using tls_sni_total by blast
  then show ?thesis
    using tls_sni_name http_host_name by (cases r) (auto simp: hostname_def)
qed

lemma sniffed_name_is_host_name_witness: "\<exists>r. hostname [0x16, 3, 1] = Some r"
  using sniffed_name_is_host_name [of "[0x16, 3, 1]"] by blast

section \<open>A ClientHello announces its server name\<close>

definition tls_ext :: "u16 \<Rightarrow> bytes \<Rightarrow> bytes" where
  "tls_ext t d = u16_bytes t @ u16_bytes (of_nat (length d)) @ d"

definition sni_ext :: "bytes \<Rightarrow> bytes" where
  "sni_ext h = tls_ext 0 (u16_bytes (of_nat (3 + length h)) @ [0] @ u16_bytes (of_nat (length h)) @ h)"

text \<open>A record with arbitrary version, length and random fields and any extensions before the server name.\<close>

definition client_hello :: "bytes \<Rightarrow> bytes \<Rightarrow> bytes \<Rightarrow> bytes \<Rightarrow> bytes \<Rightarrow> bytes \<Rightarrow> bytes \<Rightarrow> (u16 \<times> bytes) list \<Rightarrow> bytes \<Rightarrow> bytes \<Rightarrow> bytes" where
  "client_hello rec_hdr len24 random sid ciphers cmeth extl exts h rest =
     [0x16] @ rec_hdr @ [0x01] @ len24 @ random
     @ [of_nat (length sid)] @ sid @ u16_bytes (of_nat (length ciphers)) @ ciphers
     @ [of_nat (length cmeth)] @ cmeth @ extl @ concat (map (\<lambda>(t, d). tls_ext t d) exts) @ sni_ext h @ rest"

lemma be16_u16_bytes: "be16 (u16_bytes w @ r) 0 = Some (unat w)" "length p = k \<Longrightarrow> be16 (p @ u16_bytes w @ r) k = Some (unat w)"
proof -
  have d: "unat w div 256 < 256" using unat_u16_less [of w] by linarith
  then have e: "unat w div 256 mod 256 * 256 + unat w mod 256 = unat w" by simp
  show "be16 (u16_bytes w @ r) 0 = Some (unat w)"
    using e by (simp add: be16_def get_at_def u16_bytes_eq)
  show "length p = k \<Longrightarrow> be16 (p @ u16_bytes w @ r) k = Some (unat w)"
    using e by (simp add: be16_def get_at_def u16_bytes_eq nth_append)
qed

lemma unat_len16: "length d < 65536 \<Longrightarrow> unat (of_nat (length d) :: u16) = length d"
  by simp

lemma ext_loop_skip:
  assumes "length d < 65536" and "t \<noteq> 0"
  shows "sni_ext_loop (tls_ext t d @ r) = sni_ext_loop r"
proof -
  let ?c = "tls_ext t d @ r"
  have "be16 ?c 0 = Some (unat t)" using be16_u16_bytes(1) by (simp add: tls_ext_def)
  moreover have "be16 ?c 2 = Some (length d)"
    using be16_u16_bytes(2) [of "u16_bytes t" 2 "of_nat (length d)" "d @ r"] assms(1) by (simp add: tls_ext_def)
  moreover have "slice_of ?c 4 (4 + length d) = Some d" "slice_from ?c (4 + length d) = Some r"
    by (simp_all add: tls_ext_def slice_of_def slice_from_def)
  moreover have "unat t \<noteq> unat EXT_SERVER_NAME" using assms(2) by (simp add: EXT_SERVER_NAME_def unat_eq_zero)
  ultimately show ?thesis
    by (subst sni_ext_loop.simps) (simp add: tls_ext_def)
qed

lemma ext_loop_skips:
  "\<forall>(t, d) \<in> set exts. t \<noteq> 0 \<and> length d < 65536 \<Longrightarrow>
     sni_ext_loop (concat (map (\<lambda>(t, d). tls_ext t d) exts) @ r) = sni_ext_loop r"
  by (induction exts) (auto simp: ext_loop_skip)

lemma ext_loop_sni:
  assumes "length h < 65531"
  shows "sni_ext_loop (sni_ext h @ r) = Some (plausible_host h)"
proof -
  let ?body = "u16_bytes (of_nat (3 + length h)) @ [0] @ u16_bytes (of_nat (length h)) @ h"
  let ?c = "sni_ext h @ r"
  have lb: "length ?body = 5 + length h" by simp
  have "unat (of_nat (length ?body) :: u16) = 5 + length h"
    unfolding lb using assms by (simp only: unat_of_nat_u16) simp
  then have b2: "be16 ?c 2 = Some (5 + length h)"
    using be16_u16_bytes(2) [of "u16_bytes 0" 2 "of_nat (length ?body)" "?body @ r"] by (simp add: sni_ext_def tls_ext_def)
  have b0: "be16 ?c 0 = Some 0" using be16_u16_bytes(1) by (simp add: sni_ext_def tls_ext_def)
  have sl: "slice_of ?c 4 (4 + (5 + length h)) = Some ?body" "slice_from ?c (4 + (5 + length h)) = Some r"
    using slice_of_mid [of "u16_bytes 0 @ u16_bytes (of_nat (length ?body))" ?body r]
      slice_from_mid [of "u16_bytes 0 @ u16_bytes (of_nat (length ?body))" ?body r]
    by (simp_all add: sni_ext_def tls_ext_def add.assoc)
  let ?l = "[0] @ u16_bytes (of_nat (length h)) @ h"
  have d2: "drop 2 ?body = ?l" by simp
  have "be16 ?l 1 = Some (length h)"
    using be16_u16_bytes(2) [of "[0]" 1 "of_nat (length h)" h] assms by simp
  moreover have "slice_of ?l 3 (3 + length h) = Some h" "slice_from ?l (3 + length h) = Some []"
    by (simp_all add: slice_of_def slice_from_def numeral_3_eq_3)
  moreover have "idx ?l 0 = Some 0" by (simp add: idx_def)
  ultimately have "sni_list_loop ?l = Some (Inl (plausible_host h))"
    by (subst sni_list_loop.simps) (simp add: SNI_HOST_NAME_def)
  moreover have "be16 ?body 0 = Some (unat (of_nat (3 + length h) :: u16))" by (rule be16_u16_bytes(1))
  ultimately show ?thesis
    using b0 b2 sl d2 by (subst sni_ext_loop.simps) (simp add: EXT_SERVER_NAME_def sni_ext_def tls_ext_def)
qed

text \<open>
  The server name of a ClientHello is found. For every ClientHello, whatever its version, random, session
  id, cipher suites, compression methods and the extensions of other types before the server name,
  and whatever follows it, \<open>tls_sni\<close> returns exactly the plausible form of the name in it.
\<close>

lemma tls_sni_finds_the_name:
  assumes "length rec_hdr = 4" and "length len24 = 3" and "length random = 34" and "length extl = 2"
    and "length sid < 256" and "length cmeth < 256" and "length ciphers < 65536" and "length h < 65531"
    and "\<forall>(t, d) \<in> set exts. t \<noteq> 0 \<and> length d < 65536"
  shows "tls_sni (client_hello rec_hdr len24 random sid ciphers cmeth extl exts h rest) = Some (plausible_host h)"
proof -
  let ?e = "concat (map (\<lambda>(t, d). tls_ext t d) exts) @ sni_ext h @ rest"
  let ?m1 = "[of_nat (length cmeth)] @ cmeth @ extl @ ?e"
  let ?m2 = "u16_bytes (of_nat (length ciphers)) @ ciphers @ ?m1"
  let ?m3 = "[of_nat (length sid)] @ sid @ ?m2"
  let ?hs = "[0x01] @ len24 @ random @ ?m3"
  let ?buf = "[0x16] @ rec_hdr @ ?hs"
  have buf: "client_hello rec_hdr len24 random sid ciphers cmeth extl exts h rest = ?buf"
    by (simp add: client_hello_def)
  have l: "sni_ext_loop ?e = Some (plausible_host h)"
    using ext_loop_skips [OF assms(9)] ext_loop_sni [OF assms(8)] by simp
  have s5: "slice_from ?buf 5 = Some ?hs" using assms(1) by (simp add: slice_from_def)
  have s4: "drop 4 ?hs = random @ ?m3" "4 \<le> length ?hs" "\<not> length ?hs < 4" using assms(2) by simp_all
  have s34: "slice_from (random @ ?m3) (2 + 32) = Some ?m3" using assms(3) by (simp add: slice_from_def)
  have b24: "be24 ?hs 1 \<noteq> None" using assms(2) by (simp add: be24_def get_at_def)
  have g3: "get_at ?m3 0 = Some (of_nat (length sid))" "drop (1 + length sid) ?m3 = ?m2" "1 + length sid \<le> length ?m3"
    by (simp_all add: get_at_def)
  have g2: "be16 ?m2 0 = Some (length ciphers)" "drop (2 + length ciphers) ?m2 = ?m1" "2 + length ciphers \<le> length ?m2"
    using be16_u16_bytes(1) [of "of_nat (length ciphers)" "ciphers @ ?m1"] assms(7) by simp_all
  have g1: "get_at ?m1 0 = Some (of_nat (length cmeth))" "drop (1 + length cmeth) ?m1 = extl @ ?e" "1 + length cmeth \<le> length ?m1"
    by (simp_all add: get_at_def)
  have bt: "be16 (extl @ ?e) 0 \<noteq> None" "drop 2 (extl @ ?e) = ?e" "2 \<le> length (extl @ ?e)"
    using assms(4) by (simp_all add: be16_def get_at_def)
  have u: "unat (of_nat (length sid) :: u8) = length sid" "unat (of_nat (length cmeth) :: u8) = length cmeth"
    using assms(5,6) by simp_all
  have i: "idx ?buf 0 = Some TLS_HANDSHAKE" "idx ?hs 0 = Some TLS_CLIENT_HELLO" "\<not> length ?buf < 5" "?hs \<noteq> []"
    "\<not> length (random @ ?m3) < 2 + 32"
    using assms(1,3) by (simp_all add: idx_def TLS_HANDSHAKE_def TLS_CLIENT_HELLO_def)
  show ?thesis
    unfolding buf tls_sni_def rest_or_def i s5 bind.bind_lunit if_False
    using b24 bt(1) s4(2)
    by (simp only: s4 i s34 g3 g2 g1 u bt l bind.bind_lunit option.case if_True if_False simp_thms not_less
        split: option.splits)
qed


lemma tls_sni_finds_the_name_witness:
  "tls_sni (client_hello [3, 1, 0, 0] [0, 0, 0] (replicate 34 0) [] [19, 1] [0] [0, 0] [(10, [1])] [97, 46, 98] [])
     = Some (plausible_host [97, 46, 98])"
  by (rule tls_sni_finds_the_name) simp_all

end
