(* ===== verification/SmartDns.thy ===== *)
theory SmartDns
  imports Tun SocksDns
begin

text \<open>
  The split DNS engine of \<open>smart_dns.rs\<close>, which answers the queries for a few names itself and leaves
  all others to the tunnel: the syntax of resolver entries, the encrypted and the plain transports, the
  cache, and \<open>process_query\<close>, which the packet bridge of \<open>tun.rs\<close> calls for every query it sees.

  The environment of a call is a record: the clock, the random transaction id, what each socket
  receives, the connections and HTTP exchanges, and the message functions of the crate
  \<open>hickory_proto\<close>. The semaphore only delays a lookup and is left out.
\<close>

section \<open>Tables and resolver entries\<close>

definition GEMINI_DOMAINS :: "string list" where
  "GEMINI_DOMAINS = [''gemini.google.com'', ''generativelanguage.googleapis.com'',
     ''alkalinetransmit-pa.googleapis.com'', ''bard.google.com'', ''proactivity-pa.googleapis.com'']"

definition SMART_DNS_PORT :: u16 where "SMART_DNS_PORT = 53"
definition QUERY_TIMEOUT :: nat where "QUERY_TIMEOUT = 1500"
definition CACHE_TTL :: nat where "CACHE_TTL = 300000"

datatype dns_transport = Plain | Dot | Doh

record dns_endpoint =
  de_address :: string
  de_transport :: dns_transport
  de_name :: "string option"

definition count_char :: "char \<Rightarrow> string \<Rightarrow> nat" where
  "count_char c s = length (filter (\<lambda>x. x = c) s)"

definition parse_dns_port :: "string \<Rightarrow> u16 option" where
  "parse_dns_port s = map_option of_nat (parse_unsigned 65535 s)"

text \<open>\<open>find\<close> and the two slices around the position are \<open>split_once\<close>.\<close>

definition split_host_port :: "string \<Rightarrow> u16 \<Rightarrow> string \<times> u16" where
  "split_host_port raw default_port =
     (case do { rest \<leftarrow> strip_prefix ''['' raw; split_once CHR '']'' rest } of
        Some (host, after) \<Rightarrow>
          (host, case do { p \<leftarrow> strip_prefix '':'' after; parse_dns_port p } of Some p \<Rightarrow> p | None \<Rightarrow> default_port)
      | None \<Rightarrow>
          if count_char CHR '':'' raw = 1 then
            (case rsplit_once CHR '':'' raw of
               Some (h, p) \<Rightarrow> (h, case parse_dns_port p of Some p \<Rightarrow> p | None \<Rightarrow> default_port)
             | None \<Rightarrow> (raw, default_port))
          else (raw, default_port))"

definition host_port :: "string \<Rightarrow> u16 option" where
  "host_port raw =
     (if starts_with ''['' raw then
        do { (_, after) \<leftarrow> split_once CHR '']'' raw; p \<leftarrow> strip_prefix '':'' after; parse_dns_port p }
      else if count_char CHR '':'' raw = 1 then do { (_, p) \<leftarrow> rsplit_once CHR '':'' raw; parse_dns_port p }
      else None)"

definition authority_end :: "char \<Rightarrow> bool" where
  "authority_end c \<longleftrightarrow> c = CHR ''/'' \<or> c = CHR ''?'' \<or> c = CHR ''#''"

definition or_else :: "'a option \<Rightarrow> 'a option \<Rightarrow> 'a option" where
  "or_else a b = (case a of Some x \<Rightarrow> Some x | None \<Rightarrow> b)"

definition url_port :: "string \<Rightarrow> u16 option" where
  "url_port raw = do {
     after_scheme \<leftarrow> or_else (strip_prefix ''https://'' raw) (strip_prefix ''http://'' raw);
     host_port (takeWhile (\<lambda>c. \<not> authority_end c) after_scheme) }"

definition url_host :: "string \<Rightarrow> string" where
  "url_host urlish = last (split_char CHR ''@'' (takeWhile (\<lambda>c. \<not> authority_end c) urlish))"

definition explicit_port :: "dns_endpoint \<Rightarrow> u16 option" where
  "explicit_port ep = (case de_transport ep of Doh \<Rightarrow> url_port (de_address ep) | _ \<Rightarrow> host_port (de_address ep))"

definition mk_endpoint :: "string \<Rightarrow> dns_transport \<Rightarrow> string option \<Rightarrow> dns_endpoint" where
  "mk_endpoint address transport name = \<lparr>de_address = address, de_transport = transport, de_name = name\<rparr>"

definition endpoint_parse :: "string \<Rightarrow> dns_endpoint option" where
  "endpoint_parse raw =
     (let raw = trim raw; lower = to_lower raw in
      if raw = [] then None
      else case or_else (strip_prefix ''https://'' lower) (strip_prefix ''doh://'' lower) of
        Some rest \<Rightarrow> Some (mk_endpoint (''https://'' @ rest) Doh (Some (url_host rest)))
      | None \<Rightarrow>
     (case or_else (strip_prefix ''tls://'' lower) (strip_prefix ''dot://'' lower) of
        Some rest \<Rightarrow> (let host = fst (split_host_port rest 853) in Some (mk_endpoint host Dot (Some host)))
      | None \<Rightarrow>
     (case strip_prefix ''doh:'' lower of
        Some rest \<Rightarrow>
          (let host = fst (split_host_port rest 443) in Some (mk_endpoint (''https://'' @ host @ ''/dns-query'') Doh (Some host)))
      | None \<Rightarrow>
     (case strip_prefix ''dot:'' lower of
        Some rest \<Rightarrow> (let host = fst (split_host_port rest 853) in Some (mk_endpoint host Dot (Some host)))
      | None \<Rightarrow>
          (let host = fst (split_host_port raw SMART_DNS_PORT) in
           if contains ''://'' host \<or> CHR ''/'' \<in> set host \<or> host = [] then None
           else Some (mk_endpoint host Plain None))))))"

section \<open>State and environment\<close>

text \<open>The cache is an association list with one entry per key, with the reply and its expiry.\<close>

record smart_dns =
  sd_cache :: "(bytes \<times> bytes \<times> nat) list"
  sd_encrypted_resolvers :: "dns_endpoint list"
  sd_user_resolvers :: "dns_endpoint list"

definition set_encrypted_resolvers :: "dns_endpoint list \<Rightarrow> smart_dns \<Rightarrow> smart_dns" where
  "set_encrypted_resolvers endpoints sd = sd\<lparr>sd_encrypted_resolvers := endpoints\<rparr>"

definition set_resolvers :: "dns_endpoint list \<Rightarrow> smart_dns \<Rightarrow> smart_dns" where
  "set_resolvers resolvers sd = sd\<lparr>sd_user_resolvers := resolvers\<rparr>"

definition has_encrypted :: "smart_dns \<Rightarrow> bool" where
  "has_encrypted sd \<longleftrightarrow> sd_encrypted_resolvers sd \<noteq> []"

text \<open>
  A socket: whether the query can be sent, the clock at that moment, and what each receive sees, with
  the clock before it; \<open>None\<close> is a receive that fails or times out, as is the end of the list.
\<close>

type_synonym udp_socket = "bool \<times> nat \<times> (nat \<times> bytes option) list"

text \<open>A TCP connection: it fails, a write fails, or the peer sends some bytes and closes.\<close>

datatype tcp_peer = ConnectFails aether_error | WriteFails aether_error | Sends bytes

record sd_env =
  sv_lower :: "string \<Rightarrow> string"
  sv_now :: nat
  sv_later :: nat
  sv_new_id :: u16
  sv_message :: "string \<Rightarrow> u16 \<Rightarrow> bytes result"
  sv_well_formed :: "bytes \<Rightarrow> bool"
  sv_dial :: "string \<Rightarrow> tcp_peer"
  sv_post :: "string \<Rightarrow> bytes \<Rightarrow> bytes result"
  sv_open :: "dns_endpoint \<Rightarrow> udp_socket option"
  sv_anti_sanction :: "udp_socket list"
  sv_default :: "udp_socket list"

section \<open>Transports\<close>

text \<open>Waiting on one socket for a datagram that matches; the buffer has 4096 bytes.\<close>

fun socket_loop :: "nat \<Rightarrow> u16 \<Rightarrow> string \<Rightarrow> u16 \<Rightarrow> (nat \<times> bytes option) list \<Rightarrow> bytes option rust" where
  "socket_loop deadline xid name qtype [] = Some None"
| "socket_loop deadline xid name qtype ((now, got) # obs) =
     (if deadline - now = 0 then Some None
      else (case got of
              None \<Rightarrow> Some None
            | Some datagram \<Rightarrow> do {
                let resp = take 4096 datagram;
                m \<leftarrow> smart_response_matches resp xid name qtype;
                if m then Some (Some resp) else socket_loop deadline xid name qtype obs }))"

definition socket_task :: "u16 \<Rightarrow> string \<Rightarrow> u16 \<Rightarrow> udp_socket \<Rightarrow> bytes option rust" where
  "socket_task xid name qtype sock =
     (case sock of (sent, start, obs) \<Rightarrow>
        if sent then socket_loop (start + QUERY_TIMEOUT) xid name qtype obs else Some None)"

text \<open>One task per socket, awaited in order; a task that panics counts as one without an answer.\<close>

definition parallel_query :: "udp_socket list \<Rightarrow> u16 \<Rightarrow> string \<Rightarrow> u16 \<Rightarrow> bytes result" where
  "parallel_query socks xid name qtype =
     (case List.map_filter (\<lambda>s. case socket_task xid name qtype s of Some r \<Rightarrow> r | None \<Rightarrow> None) socks of
        [] \<Rightarrow> Inl (ErrOther ''All DNS queries failed'')
      | resp # _ \<Rightarrow> Inr resp)"

definition query_endpoints :: "sd_env \<Rightarrow> dns_endpoint list \<Rightarrow> u16 \<Rightarrow> string \<Rightarrow> u16 \<Rightarrow> bytes result" where
  "query_endpoints env endpoints xid name qtype =
     (let socks = List.map_filter (sv_open env) endpoints in
      if socks = [] then Inl (ErrOther ''no user resolver socket could be opened'')
      else parallel_query socks xid name qtype)"

definition unexpected_eof :: aether_error where
  "unexpected_eof = ErrIo ''unexpected end of file''"

definition dot_query :: "sd_env \<Rightarrow> dns_endpoint \<Rightarrow> bytes \<Rightarrow> bytes result" where
  "dot_query env ep query =
     (let port = (case explicit_port ep of Some p \<Rightarrow> p | None \<Rightarrow> 853) in
      case sv_dial env (de_address ep @ '':'' @ show_nat (unat port)) of
        ConnectFails e \<Rightarrow> Inl e
      | WriteFails e \<Rightarrow> Inl (if length query \<le> 65535 then e else ErrOther ''DoT query too long'')
      | Sends bs \<Rightarrow>
          if length query > 65535 then Inl (ErrOther ''DoT query too long'')
          else if length bs < 2 then Inl unexpected_eof
          else let resp_len = be_val (take 2 bs) in
               if length bs - 2 < resp_len then Inl unexpected_eof
               else Inr (take resp_len (drop 2 bs)))"

definition doh_query :: "sd_env \<Rightarrow> dns_endpoint \<Rightarrow> bytes \<Rightarrow> bytes result" where
  "doh_query env ep query =
     sv_post env (if starts_with ''https://'' (de_address ep) then de_address ep
                  else ''https://'' @ de_address ep @ ''/dns-query'') query"

fun encrypted_loop :: "sd_env \<Rightarrow> bytes \<Rightarrow> string \<Rightarrow> dns_endpoint list \<Rightarrow> bytes result" where
  "encrypted_loop env query last_err [] = Inl (ErrOther (''all encrypted resolvers failed: '' @ last_err))"
| "encrypted_loop env query last_err (ep # eps) =
     (case de_transport ep of
        Plain \<Rightarrow> encrypted_loop env query last_err eps
      | t \<Rightarrow>
          (case (if t = Dot then dot_query env ep query else doh_query env ep query) of
             Inr resp \<Rightarrow>
               if sv_well_formed env resp then Inr resp
               else encrypted_loop env query (''bad response from '' @ de_address ep) eps
           | Inl e \<Rightarrow> encrypted_loop env query (de_address ep @ '': '' @ show_error e) eps))"

definition encrypted_query :: "sd_env \<Rightarrow> smart_dns \<Rightarrow> string \<Rightarrow> u16 \<Rightarrow> bytes result" where
  "encrypted_query env sd domain qtype =
     (let endpoints = sd_encrypted_resolvers sd in
      if endpoints = [] then Inl (ErrOther ''no encrypted resolvers'')
      else case sv_message env domain qtype of
        Inl e \<Rightarrow> Inl e
      | Inr query_bytes \<Rightarrow> encrypted_loop env query_bytes [] endpoints)"

section \<open>A query from the device\<close>

definition is_gemini_domain :: "(string \<Rightarrow> string) \<Rightarrow> string \<Rightarrow> bool" where
  "is_gemini_domain lower name =
     (let name = lower name in list_ex (\<lambda>d. name = d \<or> ends_with (''.'' @ d) name) GEMINI_DOMAINS)"

function query_labels :: "bytes \<Rightarrow> nat \<Rightarrow> string list \<Rightarrow> (string list \<times> nat) option rust" where
  "query_labels payload pos labels =
     (if pos \<ge> length payload then Some None
      else do {
        len \<leftarrow> idx payload pos;
        if len = 0 then Some (Some (labels, pos + 1))
        else if len AND 0xC0 = 0xC0 then Some None
        else if pos + 1 + unat len > length payload then Some None
        else do {
          l \<leftarrow> slice_of payload (pos + 1) (pos + 1 + unat len);
          query_labels payload (pos + 1 + unat len) (labels @ [from_utf8_lossy l]) } })"
  by pat_completeness auto
termination by (relation "measure (\<lambda>(payload, pos, _). length payload - pos)") auto

declare query_labels.simps [simp del]

fun join_dots :: "string list \<Rightarrow> string" where
  "join_dots [] = []"
| "join_dots [l] = l"
| "join_dots (l # ls) = l @ ''.'' @ join_dots ls"

text \<open>The front of \<open>process_query\<close>: the payload of the datagram, the name and the type it asks for.\<close>

definition parse_query :: "bytes \<Rightarrow> nat \<Rightarrow> (bytes \<times> string \<times> u16) option rust" where
  "parse_query packet ihl =
     (if length packet < ihl + 8 then Some None
      else do {
        udp \<leftarrow> slice_from packet ihl;
        dst_port \<leftarrow> field16 udp 2;
        if dst_port \<noteq> SMART_DNS_PORT \<or> length udp \<le> 8 then Some None
        else do {
          payload \<leftarrow> slice_from udp 8;
          if length payload < 12 then Some None
          else do {
            q \<leftarrow> query_labels payload 12 [];
            case q of
              None \<Rightarrow> Some None
            | Some (labels, pos) \<Rightarrow>
                if pos + 4 > length payload then Some None
                else do { qtype \<leftarrow> field16 payload pos; Some (Some (payload, join_dots labels, qtype)) } } } })"

definition smart_cache_key :: "bytes \<Rightarrow> bytes" where
  "smart_cache_key payload = [0, 0] @ drop 2 payload"

definition smart_lookup :: "nat \<Rightarrow> bytes \<Rightarrow> smart_dns \<Rightarrow> bytes option" where
  "smart_lookup now key sd =
     (case map_of (sd_cache sd) key of
        Some (data, expires) \<Rightarrow> if expires > now then Some data else None
      | None \<Rightarrow> None)"

definition smart_insert :: "nat \<Rightarrow> bytes \<Rightarrow> bytes \<Rightarrow> smart_dns \<Rightarrow> smart_dns" where
  "smart_insert now key data sd =
     (let cache = (if length (sd_cache sd) > 1024 then [] else sd_cache sd)
      in sd\<lparr>sd_cache := (key, data, now + CACHE_TTL) # filter (\<lambda>e. fst e \<noteq> key) cache\<rparr>)"

definition with_query_id :: "bytes \<Rightarrow> bytes \<Rightarrow> bytes" where
  "with_query_id payload resp =
     (if length resp \<ge> 2 \<and> length payload \<ge> 2 then resp[0 := payload ! 0, 1 := payload ! 1] else resp)"

definition build_error_response :: "bytes \<Rightarrow> u16 \<Rightarrow> bytes rust" where
  "build_error_response query xid = do {
     resp \<leftarrow> copy_into query 0 (u16_bytes xid);
     if 4 \<le> length resp then Some (resp[2 := 0x81, 3 := 0x02]) else None }"

definition plain_query :: "sd_env \<Rightarrow> smart_dns \<Rightarrow> bytes \<Rightarrow> string \<Rightarrow> u16 \<Rightarrow> ((bytes \<times> bool) option \<times> smart_dns) rust" where
  "plain_query env sd payload domain qtype =
     (let key = smart_cache_key payload;
          (query, new_id) = smart_build_query (sv_new_id env) domain qtype;
          plain_user = filter (\<lambda>e. de_transport e = Plain) (sd_user_resolvers sd)
      in case (if plain_user = [] then Inl (ErrOther []) else query_endpoints env plain_user new_id domain qtype) of
           Inr resp \<Rightarrow> Some (Some (resp, True), smart_insert (sv_later env) key (with_query_id payload resp) sd)
         | Inl _ \<Rightarrow>
       (case parallel_query (sv_anti_sanction env) new_id domain qtype of
           Inr resp \<Rightarrow> Some (Some (resp, True), smart_insert (sv_later env) key resp sd)
         | Inl _ \<Rightarrow>
       (case parallel_query (sv_default env) new_id domain qtype of
           Inr resp \<Rightarrow> Some (Some (resp, False), smart_insert (sv_later env) key resp sd)
         | Inl _ \<Rightarrow> do { resp \<leftarrow> build_error_response query new_id; Some (Some (resp, True), sd) })))"

definition process_query :: "sd_env \<Rightarrow> smart_dns \<Rightarrow> bytes \<Rightarrow> nat \<Rightarrow> ((bytes \<times> bool) option \<times> smart_dns) rust" where
  "process_query env sd packet ihl = do {
     q \<leftarrow> parse_query packet ihl;
     case q of
       None \<Rightarrow> Some (None, sd)
     | Some (payload, domain, qtype) \<Rightarrow>
         if \<not> is_gemini_domain (sv_lower env) domain then Some (None, sd)
         else case smart_lookup (sv_now env) (smart_cache_key payload) sd of
           Some resp \<Rightarrow> Some (Some (with_query_id payload resp, True), sd)
         | None \<Rightarrow>
             (case (if has_encrypted sd then encrypted_query env sd domain qtype else Inl (ErrOther [])) of
                Inr resp \<Rightarrow>
                  Some (Some (resp, True), smart_insert (sv_later env) (smart_cache_key payload) (with_query_id payload resp) sd)
              | Inl _ \<Rightarrow> plain_query env sd payload domain qtype) }"

section \<open>No query stops the engine\<close>

lemma query_labels_total: "query_labels payload pos labels \<noteq> None"
proof (induction payload pos labels rule: query_labels.induct)
  case (1 payload pos labels)
  show ?case
  proof (cases "pos < length payload")
    case True
    then have "idx payload pos = Some (payload ! pos)" by (simp add: idx_in)
    then show ?thesis using 1 True by (subst query_labels.simps) (auto simp: slice_of_in)
  qed (simp add: query_labels.simps)
qed

definition dns_datagram :: "bytes \<Rightarrow> nat \<Rightarrow> bool" where
  "dns_datagram packet hdr \<longleftrightarrow> hdr + 8 < length packet \<and> be_u16 (packet ! (hdr + 2)) (packet ! (hdr + 3)) = 53"

lemma parse_query_cases:
  "parse_query packet ihl = Some None
   \<or> (dns_datagram packet ihl \<and> (\<exists>domain qtype. parse_query packet ihl = Some (Some (drop (8 + ihl) packet, domain, qtype))))"
proof -
  obtain q where "query_labels (drop (8 + ihl) packet) 12 [] = Some q" using query_labels_total by fastforce
  then show ?thesis
    by (cases q) (auto simp: parse_query_def slice_from_in field16_in dns_datagram_def SMART_DNS_PORT_def)
qed

lemma parse_query_total: "parse_query packet ihl \<noteq> None"
  using parse_query_cases [of packet ihl] by auto

lemma build_error_response_eq:
  "build_error_response (fst (smart_build_query xid name qtype)) xid
     = Some (u16_bytes xid @ [0x81, 0x02] @ drop 4 (fst (smart_build_query xid name qtype)))"
  by (simp add: build_error_response_def copy_into_def smart_build_query_def query_header_def u16_bytes_eq)

lemma plain_query_total: "plain_query env sd payload domain qtype \<noteq> None"
  using build_error_response_eq [of "sv_new_id env" domain qtype]
  by (auto simp: plain_query_def Let_def smart_build_query_def split: sum.split)

lemma process_query_total: "process_query env sd packet ihl \<noteq> None"
  using parse_query_total [of packet ihl] plain_query_total
  by (auto simp: process_query_def split: option.split sum.split)

section \<open>Only the chosen names are intercepted\<close>

text \<open>Where the bridge finds the datagram in a packet, and with which version.\<close>

definition query_header_of :: "bytes \<Rightarrow> (nat \<times> u8) option" where
  "query_header_of packet =
     (case parse_ipv4_header packet of
        Some (Some ihl) \<Rightarrow> Some (ihl, 4)
      | _ \<Rightarrow> (case parse_ipv6_header packet of Some (Some off) \<Rightarrow> Some (off, 6) | _ \<Rightarrow> None))"

lemma query_header_bounds:
  assumes "query_header_of packet = Some (hdr, ver)" "hdr + 8 \<le> length packet"
  shows "smart_reply packet ver (drop hdr packet) payload \<noteq> None"
proof (rule smart_reply_total)
  show "28 \<le> length packet" "ver = 6 \<Longrightarrow> 48 \<le> length packet"
    using assms parse_header_bounds [of packet hdr] by (auto simp: query_header_of_def split: option.splits)
qed (use assms in auto)

lemma intercept_via:
  "intercept smart outbound =
     (case query_header_of outbound of
        None \<Rightarrow> Some None
      | Some (hdr, ver) \<Rightarrow>
          if dns_datagram outbound hdr then
            (case smart of None \<Rightarrow> Some None
             | Some answer \<Rightarrow> (case answer outbound hdr of None \<Rightarrow> Some None
                | Some payload \<Rightarrow> map_option Some (smart_reply outbound ver (drop hdr outbound) payload)))
          else Some None)"
proof -
  obtain v4 v6 where "parse_ipv4_header outbound = Some v4" "parse_ipv6_header outbound = Some v6"
    using parse_headers_total by blast
  then show ?thesis
    by (cases v4; cases v6) (auto simp: intercept_def query_header_of_def dns_datagram_def slice_from_in field16_in)
qed

text \<open>
  What the bridge needs of an engine: it answers exactly the packets that it wants, and it wants only
  DNS datagrams. Then it is exactly the wanted packets that do not take the way through the tunnel.
\<close>

locale dns_engine =
  fixes answer :: "bytes \<Rightarrow> nat \<Rightarrow> bytes option" and wanted :: "bytes \<Rightarrow> nat \<Rightarrow> bool"
  assumes answers_wanted: "answer packet hdr \<noteq> None \<longleftrightarrow> wanted packet hdr"
    and wanted_datagram: "wanted packet hdr \<Longrightarrow> dns_datagram packet hdr"
begin

lemma intercepted_iff:
  "(\<exists>reply. intercept (Some answer) outbound = Some (Some reply))
     \<longleftrightarrow> (\<exists>hdr ver. query_header_of outbound = Some (hdr, ver) \<and> wanted outbound hdr)"
proof (cases "query_header_of outbound")
  case (Some hv)
  obtain hdr ver where hv: "hv = (hdr, ver)" by (cases hv)
  have "\<exists>r. smart_reply outbound ver (drop hdr outbound) payload = Some r" if "dns_datagram outbound hdr" for payload
    using query_header_bounds [of outbound hdr ver payload] Some hv that by (auto simp: dns_datagram_def)
  then show ?thesis
    using answers_wanted [of outbound hdr] wanted_datagram [of outbound hdr]
    by (cases "answer outbound hdr"; cases "dns_datagram outbound hdr") (simp_all add: intercept_via Some hv)
qed (simp add: intercept_via)

lemma not_intercepted: "(\<nexists>reply. intercept (Some answer) outbound = Some (Some reply)) \<longleftrightarrow> intercept (Some answer) outbound = Some None"
  using intercept_total [of "Some answer" outbound] by (cases "intercept (Some answer) outbound") auto

end

definition engine_answer :: "sd_env \<Rightarrow> smart_dns \<Rightarrow> bytes \<Rightarrow> nat \<Rightarrow> bytes option" where
  "engine_answer env sd packet hdr =
     (case process_query env sd packet hdr of Some (r, _) \<Rightarrow> map_option fst r | None \<Rightarrow> None)"

definition gemini_query :: "(string \<Rightarrow> string) \<Rightarrow> bytes \<Rightarrow> nat \<Rightarrow> bool" where
  "gemini_query lower packet hdr =
     (case parse_query packet hdr of Some (Some (_, domain, _)) \<Rightarrow> is_gemini_domain lower domain | _ \<Rightarrow> False)"

lemma plain_query_answers: "plain_query env sd payload domain qtype = Some (r, sd') \<Longrightarrow> r \<noteq> None"
  by (auto simp: plain_query_def Let_def bind_eq_Some_conv split: prod.splits sum.splits if_splits)

lemma process_query_answers:
  "\<exists>r sd'. process_query env sd packet hdr = Some (r, sd') \<and> (r \<noteq> None \<longleftrightarrow> gemini_query (sv_lower env) packet hdr)
     \<and> (r = None \<longrightarrow> sd' = sd)"
proof -
  obtain q where q: "parse_query packet hdr = Some q" using parse_query_total by blast
  show ?thesis
  proof (cases q)
    case (Some t)
    obtain payload domain qtype where t: "t = (payload, domain, qtype)" by (cases t)
    obtain r sd' where "plain_query env sd payload domain qtype = Some (r, sd')" using plain_query_total by fastforce
    moreover from plain_query_answers [OF this] have "r \<noteq> None" .
    ultimately show ?thesis by (auto simp: process_query_def gemini_query_def q Some t split: option.split sum.split)
  qed (simp add: process_query_def gemini_query_def q)
qed

interpretation sd: dns_engine "engine_answer env sd" "gemini_query (sv_lower env)" for env sd
proof
  show "engine_answer env sd packet hdr \<noteq> None \<longleftrightarrow> gemini_query (sv_lower env) packet hdr" for packet hdr
    using process_query_answers [of env sd packet hdr] by (auto simp: engine_answer_def)
  show "dns_datagram packet hdr" if "gemini_query (sv_lower env) packet hdr" for packet hdr
    using parse_query_cases [of packet hdr] that by (auto simp: gemini_query_def)
qed


section \<open>Lookups over plain UDP\<close>

text \<open>A socket on which only genuine replies to the query arrive, in datagrams that fit the buffer.\<close>

definition genuine_reply :: "u16 \<Rightarrow> string \<Rightarrow> u16 \<Rightarrow> bytes \<Rightarrow> bool" where
  "genuine_reply xid name qtype d \<longleftrightarrow> length d \<le> 4096 \<and>
     (\<exists>f1 f2 ns rest. f1 AND 0x80 \<noteq> 0 \<and> length ns = 6
        \<and> d = reply_with xid f1 f2 ns (question_of (smart_build_query xid name qtype)) rest)"

definition answers_honestly :: "u16 \<Rightarrow> string \<Rightarrow> u16 \<Rightarrow> udp_socket \<Rightarrow> bool" where
  "answers_honestly xid name qtype sock \<longleftrightarrow>
     (case sock of (_, _, obs) \<Rightarrow> \<forall>o' \<in> set obs. case snd o' of None \<Rightarrow> True | Some d \<Rightarrow> genuine_reply xid name qtype d)"

lemma genuine_reply_refused:
  assumes "genuine_reply xid name qtype d" "dns_name_ok (split_char CHR ''.'' name)" "qtype \<noteq> 0"
  shows "smart_response_matches (take 4096 d) xid name qtype = Some False"
  using assms smart_rejects_genuine by (auto simp: genuine_reply_def)

lemma honest_socket_refused:
  assumes "dns_name_ok (split_char CHR ''.'' name)" "qtype \<noteq> 0"
    and "\<forall>o' \<in> set obs. case snd o' of None \<Rightarrow> True | Some d \<Rightarrow> genuine_reply xid name qtype d"
  shows "socket_loop deadline xid name qtype obs = Some None"
  using assms(3)
proof (induction obs)
  case (Cons o' obs)
  then show ?case
    by (cases o'; cases "snd o'") (simp_all add: Let_def genuine_reply_refused [OF _ assms(1,2)])
qed simp

lemma honest_sockets_refused:
  assumes "dns_name_ok (split_char CHR ''.'' name)" "qtype \<noteq> 0" "\<forall>s \<in> set socks. answers_honestly xid name qtype s"
  shows "parallel_query socks xid name qtype = Inl (ErrOther ''All DNS queries failed'')"
proof -
  have "socket_task xid name qtype s = Some None" if "s \<in> set socks" for s
    using assms(3) that honest_socket_refused [OF assms(1,2)]
    by (auto simp: answers_honestly_def socket_task_def split: prod.splits)
  then have "List.map_filter (\<lambda>s. case socket_task xid name qtype s of Some r \<Rightarrow> r | None \<Rightarrow> None) socks = []"
    by (induction socks) (auto simp: List.map_filter_def)
  then show ?thesis by (simp add: parallel_query_def)
qed

text \<open>
  C10: without an encrypted resolver the engine can never resolve a name. When it is asked for one of
  its names, nothing is cached, and every resolver (of the user, of the built-in list and of the
  defaults) answers with genuine replies to the engine's query, in the same transaction and to the same question,
  the engine refuses all of them, because its matcher reads the question type one byte too far. It
  hands the device a server failure, which moreover carries the engine's random transaction id instead of
  that of the device's query, and caches nothing. The matcher of \<open>dns.rs\<close> accepts the same replies.
\<close>

theorem gemini_lookup_always_fails:
  assumes "parse_query packet ihl = Some (Some (payload, domain, qtype))" "is_gemini_domain (sv_lower env) domain"
    and "smart_lookup (sv_now env) (smart_cache_key payload) sd = None" "\<not> has_encrypted sd"
    and "dns_name_ok (split_char CHR ''.'' domain)" "qtype \<noteq> 0"
    and "\<forall>s \<in> set (List.map_filter (sv_open env) (sd_user_resolvers sd)) \<union> set (sv_anti_sanction env) \<union> set (sv_default env).
           answers_honestly (sv_new_id env) domain qtype s"
  shows "\<exists>reply. process_query env sd packet ihl = Some (Some (reply, True), sd)
       \<and> take 4 reply = u16_bytes (sv_new_id env) @ [0x81, 0x02]
       \<and> (\<forall>d. genuine_reply (sv_new_id env) domain qtype d \<longrightarrow> response_matches d (sv_new_id env) domain qtype = Some True)"
proof -
  let ?x = "sv_new_id env"
  have o: "parallel_query socks ?x domain qtype = Inl (ErrOther ''All DNS queries failed'')"
    if "set socks \<subseteq> set (List.map_filter (sv_open env) (sd_user_resolvers sd)) \<union> set (sv_anti_sanction env) \<union> set (sv_default env)" for socks
    using assms(7) that by (intro honest_sockets_refused [OF assms(5,6)]) blast
  have oa: "parallel_query (sv_anti_sanction env) ?x domain qtype = Inl (ErrOther ''All DNS queries failed'')"
    and od: "parallel_query (sv_default env) ?x domain qtype = Inl (ErrOther ''All DNS queries failed'')"
    by (rule o; blast)+
  have "\<exists>e. query_endpoints env (filter P (sd_user_resolvers sd)) ?x domain qtype = Inl e" for P
  proof -
    have "parallel_query (List.map_filter (sv_open env) (filter P (sd_user_resolvers sd))) ?x domain qtype = Inl (ErrOther ''All DNS queries failed'')"
      by (rule o) (auto simp: List.map_filter_def)
    then show ?thesis by (simp add: query_endpoints_def Let_def)
  qed
  then obtain e where "query_endpoints env (filter (\<lambda>e. de_transport e = Plain) (sd_user_resolvers sd)) ?x domain qtype = Inl e" by blast
  moreover have "smart_build_query ?x domain qtype = (fst (smart_build_query ?x domain qtype), ?x)" by (simp add: smart_build_query_def)
  ultimately have "process_query env sd packet ihl
      = Some (Some (u16_bytes ?x @ [0x81, 0x02] @ drop 4 (fst (smart_build_query ?x domain qtype)), True), sd)"
    using assms(1-4) oa od build_error_response_eq [of ?x domain qtype]
    by (auto simp: process_query_def plain_query_def Let_def split: prod.splits)
  moreover have "response_matches d ?x domain qtype = Some True" if "genuine_reply ?x domain qtype d" for d
    using that smart_rejects_genuine [OF assms(5)] assms(6) by (auto simp: genuine_reply_def)
  ultimately show ?thesis by (simp add: u16_bytes_eq)
qed

definition sample_query :: bytes where
  "sample_query = [0x45, 0, 0, 63, 0, 0, 0, 0, 64, 17, 0, 0, 10, 0, 0, 2, 1, 1, 1, 1, 156, 64, 0, 53, 0, 43, 0, 0]
     @ fst (smart_build_query 99 ''gemini.google.com'' 1)"

definition sample_sd :: smart_dns where
  "sample_sd = \<lparr>sd_cache = [], sd_encrypted_resolvers = [], sd_user_resolvers = []\<rparr>"

definition sample_sd_env :: sd_env where
  "sample_sd_env = \<lparr>sv_lower = (\<lambda>s. s), sv_now = 0, sv_later = 0, sv_new_id = 7, sv_message = (\<lambda>_ _. Inl ErrCancelled),
     sv_well_formed = (\<lambda>_. False), sv_dial = (\<lambda>_. ConnectFails ErrCancelled), sv_post = (\<lambda>_ _. Inl ErrCancelled),
     sv_open = (\<lambda>_. None), sv_anti_sanction = [],
     sv_default = [(True, 0, [(1, Some (reply_with 7 0x81 0x80 [0, 0, 0, 0, 0, 0] (question_of (smart_build_query 7 ''gemini.google.com'' 1)) []))])]\<rparr>"

theorem gemini_lookup_always_fails_witness:
  "\<exists>reply. process_query sample_sd_env sample_sd sample_query 20 = Some (Some (reply, True), sample_sd)
     \<and> take 4 reply = u16_bytes 7 @ [0x81, 0x02]"
proof -
  have p: "parse_query sample_query 20 = Some (Some (fst (smart_build_query 99 ''gemini.google.com'' 1), ''gemini.google.com'', 1))"
    by code_simp
  have g: "is_gemini_domain (sv_lower sample_sd_env) ''gemini.google.com''" by code_simp
  have n: "dns_name_ok (split_char CHR ''.'' ''gemini.google.com'')" by code_simp
  let ?d = "reply_with 7 0x81 0x80 [0, 0, 0, 0, 0, 0] (question_of (smart_build_query 7 ''gemini.google.com'' 1)) []"
  have "length ?d \<le> 4096" by code_simp
  moreover have "(0x81::u8) AND 0x80 \<noteq> 0" by simp
  ultimately have "genuine_reply 7 ''gemini.google.com'' 1 ?d"
    unfolding genuine_reply_def by (intro conjI exI [of _ "0x81"] exI [of _ "0x80"] exI [of _ "[0, 0, 0, 0, 0, 0]"] exI [of _ "[]"]) simp_all
  then have h: "\<forall>s \<in> set (List.map_filter (sv_open sample_sd_env) (sd_user_resolvers sample_sd))
      \<union> set (sv_anti_sanction sample_sd_env) \<union> set (sv_default sample_sd_env). answers_honestly (sv_new_id sample_sd_env) ''gemini.google.com'' 1 s"
    by (simp add: sample_sd_env_def sample_sd_def answers_honestly_def List.map_filter_def)
  have "sv_new_id sample_sd_env = 7" by (simp add: sample_sd_env_def)
  then show ?thesis
    using gemini_lookup_always_fails [OF p g _ _ n _ h]
    by (auto simp: smart_lookup_def has_encrypted_def sample_sd_def)
qed

section \<open>The cache and the resolver entries\<close>

definition smart_inv :: "smart_dns \<Rightarrow> bool" where
  "smart_inv sd \<longleftrightarrow> length (sd_cache sd) \<le> 1025 \<and> distinct (map fst (sd_cache sd))"

lemma smart_insert_inv: "smart_inv sd \<Longrightarrow> smart_inv (smart_insert now key data sd)"
  by (auto simp: smart_inv_def smart_insert_def Let_def distinct_map_filter intro: le_trans [OF length_filter_le])

text \<open>The cache never holds more than 1025 replies, one for each question.\<close>

lemma plain_query_inv:
  assumes "plain_query env sd payload domain qtype = Some (r, sd')" "smart_inv sd"
  shows "smart_inv sd'"
proof -
  have "sd' = sd \<or> (\<exists>data. sd' = smart_insert (sv_later env) (smart_cache_key payload) data sd)"
    using assms(1) unfolding plain_query_def Let_def by (auto simp: bind_eq_Some_conv split: prod.splits sum.splits)
  then show ?thesis using assms(2) smart_insert_inv by blast
qed

lemma process_query_inv:
  assumes "process_query env sd packet ihl = Some (r, sd')" "smart_inv sd"
  shows "smart_inv sd'"
proof -
  obtain q where q: "parse_query packet ihl = Some q" using parse_query_total by blast
  show ?thesis
  proof (cases q)
    case (Some t)
    obtain payload domain qtype where t: "t = (payload, domain, qtype)" by (cases t)
    have "sd' = sd \<or> (\<exists>key data. sd' = smart_insert (sv_later env) key data sd) \<or> plain_query env sd payload domain qtype = Some (r, sd')"
      using assms(1) by (auto simp: process_query_def q Some t split: option.splits sum.splits if_splits)
    then show ?thesis using assms(2) smart_insert_inv plain_query_inv by blast
  qed (use assms in \<open>simp add: process_query_def q\<close>)
qed

text \<open>
  A reply that was just inserted is found again until it expires, for every query that differs only in
  the transaction id, and it is handed out with the id of that query.
\<close>

lemma smart_lookup_insert:
  "now' < now + CACHE_TTL \<Longrightarrow> drop 2 payload' = drop 2 payload \<Longrightarrow>
     smart_lookup now' (smart_cache_key payload') (smart_insert now (smart_cache_key payload) data sd) = Some data"
  by (simp add: smart_lookup_def smart_insert_def smart_cache_key_def Let_def)

lemma with_query_id_spec:
  "2 \<le> length payload \<Longrightarrow> 2 \<le> length resp \<Longrightarrow> with_query_id payload resp = take 2 payload @ drop 2 resp"
  using restore_id_spec [of payload resp] by (simp add: with_query_id_def restore_id_def)

text \<open>
  The port of a DNS-over-TLS entry is lost: the address that is kept has no port any more, so the
  connection goes to port 853 whatever the entry says.
\<close>

lemma count_char_append [simp]: "count_char c (a @ b) = count_char c a + count_char c b"
  by (simp add: count_char_def)

lemma dot_port_is_lost:
  assumes "\<not> starts_with ''['' rest" "CHR ''['' \<notin> set rest"
  shows "host_port (fst (split_host_port rest d)) = None"
proof -
  have n: "strip_prefix ''['' rest = None" using assms(1) by (simp add: strip_prefix_def)
  show ?thesis
  proof (cases "count_char CHR '':'' rest = 1")
    case True
    then have "filter (\<lambda>x. x = CHR '':'') rest \<noteq> []" by (auto simp: count_char_def)
    then have "CHR '':'' \<in> set rest" by (auto simp: filter_empty_conv)
    then obtain h p where hp: "rest = h @ CHR '':'' # p" "CHR '':'' \<notin> set p" by (meson split_list_last)
    then have "rsplit_once CHR '':'' rest = Some (h, p)" by (simp add: rsplit_once_app)
    moreover have "count_char CHR '':'' h = 0" using True hp count_char_append [of "CHR '':''" h "CHR '':'' # p"] by (simp add: count_char_def)
    moreover have "\<not> starts_with ''['' h" using assms(2) hp by (cases h) (auto simp: starts_with_def)
    ultimately show ?thesis using True by (simp add: split_host_port_def n host_port_def)
  next
    case False
    then show ?thesis using assms(1) by (simp add: split_host_port_def n host_port_def)
  qed
qed

end
