(* ===== verification/ExitLoc.thy ===== *)
theory ExitLoc
  imports Text
begin

text \<open>
  Two small policies: which exit countries are acceptable (\<open>exitloc.rs\<close>), and the random letter case of
  the server name that is sent in a TLS handshake (\<open>sni_case.rs\<close>).
\<close>

section \<open>Exit countries\<close>

record exit_policy =
  xp_allowed :: "string list"
  xp_denied :: "string list"

definition to_upper_u8 :: "u8 \<Rightarrow> u8" where
  "to_upper_u8 b = (if 97 \<le> b \<and> b \<le> 122 then b - 32 else b)"

definition to_upper :: "string \<Rightarrow> string" where
  "to_upper s = bytes_str (map to_upper_u8 (as_bytes s))"

text \<open>Splitting at one of the ASCII separators comma, semicolon, space, newline, return and tab.\<close>

definition policy_tokens :: "string \<Rightarrow> string list" where
  "policy_tokens raw = filter (\<lambda>t. t \<noteq> []) (map trim (split_any [CHR '','', CHR '';'', CHR '' '', CHR 10, CHR 13, CHR 9] raw))"

definition policy_code :: "string \<Rightarrow> string option" where
  "policy_code token =
     (let code = to_upper (trim (case strip_prefix ''!'' token of Some r \<Rightarrow> r | None \<Rightarrow> token)) in
      if length code \<noteq> 2 \<or> \<not> list_all is_alpha code then None else Some code)"

definition push_code :: "string \<Rightarrow> string list \<Rightarrow> string list" where
  "push_code code target = (if code \<in> set target then target else target @ [code])"

definition exit_policy_parse :: "string \<Rightarrow> exit_policy option" where
  "exit_policy_parse raw =
     (let tokens = policy_tokens raw;
          deny_mode = (case tokens of [] \<Rightarrow> False | t # _ \<Rightarrow> starts_with ''!'' t);
          codes = fold push_code (List.map_filter policy_code tokens) []
      in if codes = [] then None
         else Some (if deny_mode then \<lparr>xp_allowed = [], xp_denied = codes\<rparr> else \<lparr>xp_allowed = codes, xp_denied = []\<rparr>))"

definition exit_accepts :: "exit_policy \<Rightarrow> string \<Rightarrow> bool" where
  "exit_accepts p country =
     (let country = to_upper (trim country) in
      if length country \<noteq> 2 then False
      else if country \<in> set (xp_denied p) then False
      else xp_allowed p = [] \<or> country \<in> set (xp_allowed p))"

definition country_allowed :: "string option \<Rightarrow> string \<Rightarrow> bool" where
  "country_allowed policy country =
     (case (case policy of None \<Rightarrow> None | Some raw \<Rightarrow> exit_policy_parse raw) of
        None \<Rightarrow> True
      | Some p \<Rightarrow> exit_accepts p country)"

lemma set_push_codes: "set (fold push_code cs out) = set out \<union> set cs"
  by (induction cs arbitrary: out) (auto simp: push_code_def)

text \<open>
  The leading mark decides for the whole list: after it every code is refused, without it only the listed
  codes pass; a list without a single code restricts nothing, and a country that is not two letters
  long is refused by every policy.
\<close>

lemma country_allowed_iff:
  fixes raw country :: string
  defines "tokens \<equiv> policy_tokens raw" and "c \<equiv> to_upper (trim country)"
  defines "codes \<equiv> set (List.map_filter policy_code tokens)"
  shows "country_allowed (Some raw) country \<longleftrightarrow>
     codes = {} \<or> (length c = 2 \<and> (if tokens \<noteq> [] \<and> starts_with ''!'' (hd tokens) then c \<notin> codes else c \<in> codes))"
proof -
  define ps where "ps = fold push_code (List.map_filter policy_code tokens) []"
  have "set ps = codes" by (simp add: ps_def codes_def set_push_codes)
  then have e: "ps = [] \<longleftrightarrow> codes = {}" by auto
  have p: "exit_policy_parse raw = (if ps = [] then None
      else Some (if tokens \<noteq> [] \<and> starts_with ''!'' (hd tokens) then \<lparr>xp_allowed = [], xp_denied = ps\<rparr> else \<lparr>xp_allowed = ps, xp_denied = []\<rparr>))"
    unfolding exit_policy_parse_def Let_def tokens_def [symmetric] ps_def [symmetric] by (cases tokens) simp_all
  show ?thesis
    using \<open>set ps = codes\<close> e by (auto simp: country_allowed_def p exit_accepts_def Let_def c_def [symmetric])
qed

section \<open>Letter case of the server name\<close>

definition sni_enabled :: "(string \<Rightarrow> string) \<Rightarrow> string option \<Rightarrow> bool" where
  "sni_enabled lower var = (case var of None \<Rightarrow> False | Some raw \<Rightarrow> lower (trim raw) \<in> {''1'', ''on'', ''yes'', ''true''})"

text \<open>
  One coin per byte. A byte that is not a letter is pushed as the character with that code, which takes
  two bytes when the code is above 127.
\<close>

definition push_byte :: "u8 \<Rightarrow> bytes" where
  "push_byte b = (if b < 128 then [b] else [0xC0 OR drop_bit 6 b, 0x80 OR (b AND 0x3F)])"

definition mix_byte :: "bool \<Rightarrow> u8 \<Rightarrow> bytes" where
  "mix_byte coin b =
     (if 97 \<le> b \<and> b \<le> 122 then [if coin then b - 32 else b]
      else if 65 \<le> b \<and> b \<le> 90 then [if coin then b + 32 else b]
      else push_byte b)"

definition mix :: "bool \<Rightarrow> (nat \<Rightarrow> bool) \<Rightarrow> string \<Rightarrow> string" where
  "mix enabled coins name =
     (if \<not> enabled \<or> name = [] then name
      else bytes_str (concat (map (\<lambda>i. mix_byte (coins i) (as_bytes name ! i)) [0..<length name])))"

lemma mix_byte_lower:
  assumes "b < 128"
  shows "\<exists>b'. mix_byte coin b = [b'] \<and> to_ascii_lowercase_u8 b' = to_ascii_lowercase_u8 b"
proof -
  consider "97 \<le> b \<and> b \<le> 122" | "65 \<le> b \<and> b \<le> 90" | "\<not> (97 \<le> b \<and> b \<le> 122)" "\<not> (65 \<le> b \<and> b \<le> 90)" by blast
  then show ?thesis
  proof cases
    case 1
    then have "unat (b - 32) = unat b - 32" by (simp add: unat_sub word_le_nat_alt)
    then have "65 \<le> b - 32 \<and> b - 32 \<le> 90" "\<not> (65 \<le> b \<and> b \<le> 90)" using 1 by (auto simp: word_le_nat_alt)
    then show ?thesis using 1 by (simp add: mix_byte_def to_ascii_lowercase_u8_def)
  next
    case 2
    then have "unat (b + 32) = unat b + 32" by (simp add: unat_word_ariths word_le_nat_alt)
    then have "\<not> (65 \<le> b + 32 \<and> b + 32 \<le> 90)" "\<not> (97 \<le> b \<and> b \<le> 122)" using 2 by (auto simp: word_le_nat_alt)
    then show ?thesis using 2 by (simp add: mix_byte_def to_ascii_lowercase_u8_def)
  next
    case 3
    then show ?thesis using assms by (auto simp: mix_byte_def push_byte_def)
  qed
qed

text \<open>On an ASCII name the result is the same name up to letter case, byte for byte.\<close>

lemma mix_same_name:
  assumes "ascii (as_bytes name)"
  shows "eq_ignore_ascii_case (as_bytes (mix enabled coins name)) (as_bytes name)"
proof -
  let ?n = "as_bytes name"
  have "\<exists>b'. mix_byte (coins i) (?n ! i) = [b'] \<and> to_ascii_lowercase_u8 b' = to_ascii_lowercase_u8 (?n ! i)" if "i < length name" for i
    using assms that by (intro mix_byte_lower) (simp add: ascii_def)
  then obtain f where f: "mix_byte (coins i) (?n ! i) = [f i]" "to_ascii_lowercase_u8 (f i) = to_ascii_lowercase_u8 (?n ! i)"
    if "i < length name" for i by metis
  have "map (\<lambda>i. mix_byte (coins i) (?n ! i)) [0..<length name] = map (\<lambda>i. [f i]) [0..<length name]" using f(1) by simp
  then have "concat (map (\<lambda>i. mix_byte (coins i) (?n ! i)) [0..<length name]) = map f [0..<length name]"
    by (simp only: concat_map_singleton)
  moreover have "map to_ascii_lowercase_u8 (map f [0..<length name]) = map to_ascii_lowercase_u8 ?n"
    using f(2) by (intro nth_equalityI) simp_all
  ultimately show ?thesis by (simp add: mix_def eq_ignore_ascii_case_def)
qed

end
