(* ===== verification/Spec2Isabelle.thy ===== *)
theory Spec2Isabelle
  imports Hops CommandLine Netstack SendBuf QuicFrame Masque Tun Routing Sniff Fragment SocksDns HttpProxy Wireguard Prober SmartDns Apifront ExitLoc Noize SysProfile
begin

text \<open>
  A model of the Rust core of Kourosh AE (\<open>src/core/aether/src\<close>), the part of the Android VPN that
  moves packets, with the correctness properties of its components.

  \<^bold>\<open>The program.\<close> The application hands the core a TUN device. The core finds a working server
  (\<open>prober.rs\<close> for MASQUE gateways, \<open>wg_prober.rs\<close> for WireGuard endpoints), opens a tunnel to it (MASQUE
  over HTTP/3 in \<open>quic.rs\<close> or over HTTP/2 in \<open>masque_h2.rs\<close>, or WireGuard in \<open>wireguard.rs\<close>) and then
  bridges the device and the tunnel (\<open>tun.rs\<close>), or, when the upstream is a SOCKS5 proxy, terminates the
  device's TCP connections itself (\<open>socks_upstream.rs\<close>). On desktop systems local SOCKS5 and HTTP
  proxies (\<open>socks.rs\<close>) take the place of the device. Around this are the routing rules
  (\<open>routing.rs\<close>) with the host names sniffed off new flows (\<open>sniff.rs\<close>), the write fragmentation that
  hides a TLS handshake (\<open>fragment.rs\<close>), the account with the provider (\<open>account.rs\<close>, \<open>zerotrust.rs\<close>,
  \<open>config.rs\<close>), three hand-written DNS clients (\<open>dns.rs\<close>, \<open>socks.rs\<close>,
  \<open>smart_dns.rs\<close>) and the measurement of the exit address (\<open>exitip.rs\<close>).

  \<^bold>\<open>Conventions.\<close> Machine integers are words, so wrap-around is part of the model; \<open>usize\<close> is \<open>nat\<close>
  because it only counts bytes in memory. A Rust function that can panic returns a value of type
  \<open>rust\<close> with \<open>None\<close> for the panic, and indexing and slicing go through the operations of \<open>Prelude\<close> that
  make an out-of-range access visible. A \<open>Result\<close> is a sum with the error on the left. Code outside
  the repository is a parameter: the WireGuard engine, the regular expressions, the address-prefix crate,
  the lower-case mapping of Unicode, the channels of the async runtime, sockets, the clock (milliseconds as
  \<open>nat\<close>) and random numbers. Where the code waits for several things at once, a run is a list of the
  events that happened, in any order. The log is left out everywhere.

  \<^bold>\<open>The theories, bottom up.\<close>

  \<^item> \<open>Prelude\<close> (integers, bytes, indexing), \<open>Text\<close> and \<open>AddrParse\<close> (the string functions and the address
    parser of the standard library), \<open>Net\<close> (addresses and \<open>error.rs\<close>).

  \<^item> \<open>Codec\<close>: the interfaces \<open>stream_decoder\<close> and \<open>prefix_codec\<close> of self-delimiting wire formats, with the
    reassembly of a stream that arrives in arbitrary chunks proved once. \<open>Octets\<close> interprets them for
    variable-length integers, \<open>Masque\<close> for capsules.

  \<^item> \<open>Octets\<close> (\<open>src/core/quiche/octets/src/lib.rs\<close>): the byte cursor through which capsules are read and
    written, with the round trip of variable-length integers.

  \<^item> \<open>Masque\<close> (\<open>masque.rs\<close>, the capsule loops of \<open>quic.rs\<close> and \<open>masque_h2.rs\<close>): datagram and capsule
    framing with the bounded reassembly buffer. C3 and C5: the bound of the buffer, and
    that over HTTP/2 every packet sent by the gateway arrives once and in order; with the round trips of datagrams and
    capsules and the unwrapping of datagrams as lemmas.

  \<^item> \<open>Checksum\<close>: the six copies of the Internet checksum, each an instance of the interface
    \<open>internet_checksum\<close>, from which the validity of every packet the core builds follows.

  \<^item> \<open>Dns\<close> (\<open>dns.rs\<close>, \<open>socks.rs\<close>, \<open>smart_dns.rs\<close>): queries, reply matching, answer parsing. C8 is the
    exact acceptance condition; \<open>socks_query_trailing_dot\<close> proves a defect of one of the copies.

  \<^item> \<open>ExitIp\<close> (\<open>exitip.rs\<close>): the probe and its reply: no input panics, here and in \<open>Dns\<close>, the probe reads the
    exit address, its packet is valid, and what it leaves alone.

  \<^item> \<open>Tun\<close> (\<open>tun.rs\<close>): segment size clamping (C16), the state machine of the exit measurement (C18)
    and the bridge loop as a step function with its runs (C20, C21).

  \<^item> \<open>Routing\<close> (\<open>routing.rs\<close>): what a bare domain blocks, the private prefixes, and that a bare IPv6 address
    is dropped, as lemmas on which the host and proxy theories rest. \<open>Sniff\<close> (\<open>sniff.rs\<close>) the
    name in a ClientHello or a request, always usable for matching; \<open>Fragment\<close> (\<open>fragment.rs\<close>) C28.

  \<^item> \<open>Netstack\<close> (\<open>netstack.rs\<close>): the user-space stack, with the crate \<open>smoltcp\<close> as a record of operations and
    what the code relies on in \<open>smol_laws\<close> and \<open>stream_laws\<close>. A run is a list of rounds of the loop and of
    actions of the applications. C23: the tables of sockets are well typed and the loop never panics on
    them; C15: both directions of every connection keep their bytes; C22 and C13 prove two defects, the loss
    of the end of a stream and an accept mode that never hands a connection over.

  \<^item> \<open>Ranges\<close>, \<open>RangeBuf\<close>, \<open>FlowControl\<close>, \<open>RecvBuf\<close>, \<open>SendBuf\<close> (\<open>src/core/quiche/quiche/src\<close>: \<open>ranges.rs\<close>,
    \<open>range_buf.rs\<close>, \<open>flowcontrol.rs\<close>, \<open>stream/recv_buf.rs\<close>, \<open>stream/send_buf.rs\<close>): the stream layer of QUIC. The
    interface \<open>range_store\<close> states a set of integers kept as ranges; it is interpreted on the range sets
    and used by the acknowledgements. C11: range sets refine sets of integers; C4: a stream is
    reassembled whatever arrives; C6: the send buffer keeps exactly what is not acknowledged; C32: the two
    composed over a network that loses, repeats and reorders; C36: a reset after the end of a stream is silent.

  \<^item> \<open>Wire\<close> and \<open>QuicFrame\<close> (\<open>frame.rs\<close>): sequences of reads and writes with rules by which they compose, and
    the codec of all QUIC frames. C24: every frame survives the wire, in exactly the packets that may
    carry it.

  \<^item> \<open>SocksUpstream\<close>, \<open>SocksFlow\<close>, \<open>SocksDns\<close> (\<open>socks_upstream.rs\<close>): packet construction, the packet
    handler, the interleaving of the handler with connect, reader and writer tasks over a shared
    store, and the refinement of one connection to an in-order receiver (C31, C33), the retry loop
    (C34) and the DNS forwarder with its cache and permits (C35).

  \<^item> \<open>SocksServer\<close> and \<open>HttpProxy\<close> (\<open>socks.rs\<close>): the SOCKS5 request, the UDP association (C37) and the
    HTTP request head (C38).

  \<^item> \<open>Wireguard\<close> (\<open>wireguard.rs\<close>): client id, probes and the verification of the data plane with
    its ladder of packet sizes (C40).

  \<^item> \<open>Prober\<close> (\<open>prober.rs\<close>, \<open>wg_prober.rs\<close>): candidate lists (C7) and the selection loop (C17).

  \<^item> \<open>SmartDns\<close> (\<open>smart_dns.rs\<close>): the split DNS engine behind the bridge. The interface \<open>dns_engine\<close> states
    what the bridge needs of an engine, and its interpretation on \<open>process_query\<close> gives C9: exactly the
    queries for the chosen names are intercepted. C10 composes the engine with the matcher of \<open>Dns\<close> and
    proves that without an encrypted resolver no lookup can succeed.

  \<^item> \<open>Apifront\<close> (\<open>apifront.rs\<close>): the API client, with the parser of chunked responses: its round trip
    and the responses that make it panic.

  \<^item> \<open>ExitLoc\<close> (\<open>exitloc.rs\<close>, \<open>sni_case.rs\<close>), \<open>Noize\<close> (\<open>noize.rs\<close>, \<open>aethernoize.rs\<close>) and \<open>SysProfile\<close>
    (\<open>sysprofile.rs\<close>): the country policy, the casing of the server name, the decoy packets and the
    performance profile, with lemmas on what they accept, keep and bound.

  \<^item> \<open>Json\<close> and \<open>ZeroTrust\<close> (\<open>zerotrust.rs\<close>): the sign-in to an organization by e-mail code or service token,
    and the session it shares with the application as two static cells. C14: only tokens leave the session;
    with the decoding of URLs and of HTML entities as round trips.

  \<^item> \<open>Account\<close> (\<open>account.rs\<close>): the client of the provider. C29: its retry loop is the first conclusive of five
    attempts; C26: a certificate that is handed out is valid; C27 proves a defect, a refusal that is lost.

  \<^item> \<open>ConfigFile\<close> (\<open>config.rs\<close>): the saved identity, over a file system whose every call can fail. C39: saving
    is atomic; C30: what is saved is loaded; a damaged file is set aside, not lost.

  \<^item> \<open>Lifecycle\<close> (\<open>main.rs\<close>): the identity at start-up, composed of the three theories before. C1: MASQUE starts
    with a valid certificate; C2: start-up returns what it has saved.

  \<^item> \<open>Dial\<close> (\<open>main.rs\<close>, the transport flags of \<open>masque_h2.rs\<close>): the candidates for a MASQUE gateway, the
    passes over HTTP/3 and HTTP/2 with the renewal of a refused certificate, the next peer of the reconnect loop
    and the cache of gateways. C19: a session starts with a verified gateway only.

  \<^item> \<open>Session\<close> (\<open>main.rs\<close>, \<open>lastconn.rs\<close>): the reconnect loop of WireGuard, one turn at a time, on top of the search of
    \<open>Prober\<close>. C12: an endpoint that fails twice in a row rests; every endpoint that is dialled was verified.

  \<^item> \<open>Hops\<close> (\<open>main.rs\<close>): the sessions with two hops, WARP in WARP and MASQUE in MASQUE. C25 proves a defect: a session
    that worked is reported as a failure and forgotten. The sizes of the inner hop fit the outer one.

  \<^item> \<open>CommandLine\<close> (\<open>cli.rs\<close>, \<open>main.rs\<close>): from the arguments and the answers of the user to the options of a session and
    back into the environment, which is settled afterwards: no variable is lost and none is made up.

  \<^bold>\<open>Bounds.\<close> No loop of the model is cut short. Decoding loops recurse on the bytes that are left, and
  \<open>decode_n_enough\<close> shows that one step per byte is enough. Loops that wait for the network recurse on
  the list of observations; the theorems that they return assume only that the clock passes the
  deadline within the list (C17, C34, C40) or that enough wake-ups happen (C18). The 28 attempts of C34
  are what the deadline of four seconds and the pause of 150 milliseconds between attempts allow, not a
  limit of the model. \<open>MAX_CAPSULE_BUF\<close>, \<open>CHANNEL_CAP\<close> and the cache limits are the constants of the code.

  \<^bold>\<open>Not modelled.\<close> The socket and task plumbing of the tunnels (\<open>quic.rs\<close>, \<open>masque_h2.rs\<close>,
  \<open>wireguard.rs::run\<close>), TLS set-up (\<open>tls.rs\<close>) and the generation of keys and certificates, the
  spawning of a session's tasks (the rest of \<open>main.rs\<close>, \<open>ffi.rs\<close>), latency
  measurements (\<open>tunnelping.rs\<close>). The QUIC implementation under \<open>src/core/quiche\<close> is a
  vendored upstream project; of it the byte cursor, the stream layer and the frame codec are modelled, not
  the connection, the loss recovery and congestion control, HTTP/3 and the C interface.
  The Kotlin application, the C library \<open>badvpn\<close> and the Go program \<open>anytls\<close> are separate programs in
  other languages.
\<close>

end
